(* ===== verification/GoPrelude.thy ===== *)
theory GoPrelude
  imports Main "HOL-Library.AList" "HOL-Library.List_Lexorder" "HOL-Library.Char_ord"
begin

section \<open>Prelude: Go maps, Go formatting, and the lemma collections\<close>

text \<open>
  What every component of the model shares.

  A Go \<open>map[string]V\<close> is an association list \<open>(string \<times> 'v) list\<close> read with
  \<^const>\<open>map_of\<close>, written with \<^const>\<open>AList.update\<close>, and deleted from with
  \<^const>\<open>AList.delete\<close>. A nil map reads as the empty one, so \<open>[]\<close> stands for both.
  Go's \<open>range\<close> over a map visits every key once, in an order the language leaves open; the
  model visits the keys in sorted order (\<open>mkeys\<close>) and rebuilds maps through \<open>mbuild\<close>, whose
  reading does not depend on the order. Where the source sorts the keys itself, \<open>mkeys\<close> is its
  own order. Go compares strings bytewise and lexicographically, which is the order of
  \<open>HOL-Library.List_Lexorder\<close> over \<open>HOL-Library.Char_ord\<close>.

  The formatting verbs the program relies on for the order of its identifiers (\<open>%d\<close>,
  \<open>%010d\<close>, \<open>%06x\<close>, ...) are \<open>show_int\<close>, \<open>fmt_dec\<close> and \<open>fmt_hex\<close>; the last part proves that
  fixed-width numerals are ordered as the numbers they print.
\<close>

named_theorems go_defs "definitions of the operations, for unfolding in evaluations"
named_theorems wf_intros "preservation of well-formedness by the operations"

type_synonym 'v gomap = "(string \<times> 'v) list"

subsection \<open>Go maps\<close>

definition mkeys :: "'v gomap \<Rightarrow> string list" where
  "mkeys m = sort (remdups (map fst m))"

definition mlen :: "'v gomap \<Rightarrow> nat" where
  "mlen m = length (mkeys m)"

abbreviation mput :: "string \<Rightarrow> 'v \<Rightarrow> 'v gomap \<Rightarrow> 'v gomap" where
  "mput \<equiv> AList.update"

abbreviation mdel :: "string \<Rightarrow> 'v gomap \<Rightarrow> 'v gomap" where
  "mdel \<equiv> AList.delete"

definition mhas :: "'v gomap \<Rightarrow> string \<Rightarrow> bool" where
  "mhas m k \<longleftrightarrow> map_of m k \<noteq> None"

text \<open>\<open>mgetd m k d\<close> is Go's \<open>m[k]\<close> where a missing key reads the zero value \<open>d\<close>.\<close>

definition mgetd :: "'v gomap \<Rightarrow> string \<Rightarrow> 'v \<Rightarrow> 'v" where
  "mgetd m k d = (case map_of m k of None \<Rightarrow> d | Some v \<Rightarrow> v)"

text \<open>A map built by a loop over \<open>ks\<close> that stores \<open>f k\<close> where it is defined.\<close>

fun mbuild :: "string list \<Rightarrow> (string \<Rightarrow> 'v option) \<Rightarrow> 'v gomap" where
  "mbuild [] f = []"
| "mbuild (k # ks) f = (case f k of None \<Rightarrow> mbuild ks f | Some v \<Rightarrow> (k, v) # mbuild ks f)"

text \<open>\<open>maps.Copy(dst, src)\<close>: every entry of \<open>src\<close> is stored into \<open>dst\<close>.\<close>

definition mcopy :: "'v gomap \<Rightarrow> 'v gomap \<Rightarrow> 'v gomap" where
  "mcopy dst src = fold (\<lambda>k m. case map_of src k of None \<Rightarrow> m | Some v \<Rightarrow> mput k v m) (mkeys src) dst"

lemma set_mkeys [simp]: "set (mkeys m) = fst ` set m"
  by (simp add: mkeys_def)

lemma distinct_mkeys [simp]: "distinct (mkeys m)"
  by (simp add: mkeys_def)

lemma sorted_mkeys [simp]: "sorted (mkeys m)"
  by (simp add: mkeys_def)

lemma mkeys_Nil [simp]: "mkeys [] = []"
  by (simp add: mkeys_def)

lemma in_mkeys_iff: "k \<in> set (mkeys m) \<longleftrightarrow> map_of m k \<noteq> None"
  by (simp add: map_of_eq_None_iff)

lemma mhas_iff_in: "mhas m k \<longleftrightarrow> k \<in> fst ` set m"
  by (simp add: mhas_def map_of_eq_None_iff)

lemma mkeys_cong:
  assumes "map_of m = map_of m'"
  shows "mkeys m = mkeys m'"
proof (rule sorted_distinct_set_unique)
  have "set (mkeys m) = dom (map_of m)" for m :: "'a gomap"
    by (simp add: dom_map_of_conv_image_fst)
  with assms show "set (mkeys m) = set (mkeys m')" by metis
qed simp_all

lemma mkeys_eqI: "fst ` set m = fst ` set m' \<Longrightarrow> mkeys m = mkeys m'"
  by (rule sorted_distinct_set_unique) simp_all

lemma mlen_cong: "map_of m = map_of m' \<Longrightarrow> mlen m = mlen m'"
  unfolding mlen_def by (metis mkeys_cong)

lemma mlen_0_iff [simp]: "mlen m = 0 \<longleftrightarrow> m = []"
proof -
  have "mlen m = 0 \<longleftrightarrow> set (mkeys m) = {}"
    by (simp only: mlen_def length_0_conv set_empty)
  then show ?thesis by simp
qed

lemma map_of_mput [simp]: "map_of (mput k v m) = (map_of m)(k \<mapsto> v)"
  by (rule update_conv')

lemma map_of_mdel [simp]: "map_of (mdel k m) = (map_of m)(k := None)"
  by (rule delete_conv')

lemma mgetd_mput [simp]: "mgetd (mput k v m) k' d = (if k = k' then v else mgetd m k' d)"
  by (simp add: mgetd_def)

lemma mgetd_Nil [simp]: "mgetd [] k d = d"
  by (simp add: mgetd_def)

lemma map_of_mbuild [simp]: "map_of (mbuild ks f) k = (if k \<in> set ks then f k else None)"
  by (induction ks) (auto split: option.splits)

lemma mbuild_keys: "fst ` set (mbuild ks f) = {k \<in> set ks. f k \<noteq> None}"
  by (induction ks) (auto split: option.splits)

lemma map_of_fold_mput:
  "map_of (fold (\<lambda>k m. case f k of None \<Rightarrow> m | Some v \<Rightarrow> mput k v m) ks dst) k' =
     (if k' \<in> set ks \<and> f k' \<noteq> None then f k' else map_of dst k')"
  by (induction ks arbitrary: dst) (auto split: option.splits)

lemma map_of_mcopy [simp]: "map_of (mcopy dst src) = map_of dst ++ map_of src"
proof
  fix k
  show "map_of (mcopy dst src) k = (map_of dst ++ map_of src) k"
    unfolding mcopy_def map_of_fold_mput
    by (cases "map_of src k") (auto simp: map_add_def in_mkeys_iff simp del: set_mkeys)
qed

subsection \<open>Results that may fail\<close>

text \<open>
  A Go function returning \<open>(T, error)\<close> is a sum with the error on the left. \<open>rbind\<close> is the
  early return on error; the state of the source, where it is mutated before the return, is
  threaded explicitly.
\<close>

definition rbind :: "'e + 'a \<Rightarrow> ('a \<Rightarrow> 'e + 'b) \<Rightarrow> 'e + 'b" where
  "rbind r f = (case r of Inl e \<Rightarrow> Inl e | Inr x \<Rightarrow> f x)"

lemma rbind_simps [simp]: "rbind (Inl e) f = Inl e" "rbind (Inr x) f = f x"
  by (simp_all add: rbind_def)

lemma rbind_Inr_iff: "rbind r f = Inr y \<longleftrightarrow> (\<exists>x. r = Inr x \<and> f x = Inr y)"
  by (cases r) auto

lemma rbind_Inl_iff: "rbind r f = Inl e \<longleftrightarrow> r = Inl e \<or> (\<exists>x. r = Inr x \<and> f x = Inl e)"
  by (cases r) auto

lemma rbind_assoc: "rbind (rbind r f) g = rbind r (\<lambda>x. rbind (f x) g)"
  by (cases r) auto

text \<open>A loop over a list that stops at the first error.\<close>

fun rfold :: "('a \<Rightarrow> 's \<Rightarrow> 'e + 's) \<Rightarrow> 'a list \<Rightarrow> 's \<Rightarrow> 'e + 's" where
  "rfold f [] s = Inr s"
| "rfold f (x # xs) s = rbind (f x s) (rfold f xs)"

lemma rfold_append: "rfold f (xs @ ys) s = rbind (rfold f xs s) (rfold f ys)"
proof (induction xs arbitrary: s)
  case (Cons x xs)
  then show ?case by (cases "f x s") auto
qed simp

fun rmap :: "('a \<Rightarrow> 'e + 'b) \<Rightarrow> 'a list \<Rightarrow> 'e + 'b list" where
  "rmap f [] = Inr []"
| "rmap f (x # xs) = rbind (f x) (\<lambda>y. rbind (rmap f xs) (\<lambda>ys. Inr (y # ys)))"

lemma rmap_length: "rmap f xs = Inr ys \<Longrightarrow> length ys = length xs"
  by (induction xs arbitrary: ys) (auto simp: rbind_Inr_iff)

lemma rmap_nth: "rmap f xs = Inr ys \<Longrightarrow> i < length xs \<Longrightarrow> f (xs ! i) = Inr (ys ! i)"
  by (induction xs arbitrary: ys i) (auto simp: rbind_Inr_iff nth_Cons split: nat.splits)

subsection \<open>Numerals\<close>

text \<open>The digit characters of Go's \<open>%d\<close> and \<open>%x\<close>.\<close>

definition digit_char :: "nat \<Rightarrow> char" where
  "digit_char d = (if d < 10 then char_of (48 + d) else char_of (87 + d))"

fun show_base :: "nat \<Rightarrow> nat \<Rightarrow> string" where
  "show_base b n = (if n < b \<or> b < 2 then [digit_char n] else show_base b (n div b) @ [digit_char (n mod b)])"

declare show_base.simps [simp del]

definition show_nat :: "nat \<Rightarrow> string" where
  "show_nat n = show_base 10 n"

definition show_int :: "int \<Rightarrow> string" where
  "show_int i = (if i < 0 then CHR ''-'' # show_nat (nat (- i)) else show_nat (nat i))"

definition pad0 :: "nat \<Rightarrow> string \<Rightarrow> string" where
  "pad0 w s = replicate (w - length s) (CHR ''0'') @ s"

text \<open>\<open>fmt.Sprintf("%0wd", i)\<close>: the sign counts towards the width and comes before the padding.\<close>

definition fmt_dec :: "nat \<Rightarrow> int \<Rightarrow> string" where
  "fmt_dec w i = (if i < 0 then CHR ''-'' # pad0 (w - 1) (show_nat (nat (- i))) else pad0 w (show_nat (nat i)))"

text \<open>\<open>fmt.Sprintf("%0wx", n)\<close> for a non-negative value.\<close>

definition fmt_hex :: "nat \<Rightarrow> nat \<Rightarrow> string" where
  "fmt_hex w n = pad0 w (show_base 16 n)"

text \<open>\<open>%q\<close> of a string without characters that need an escape.\<close>

definition go_quote :: "string \<Rightarrow> string" where
  "go_quote s = [CHR 0x22] @ s @ [CHR 0x22]"

text \<open>The \<open>w\<close> low digits of \<open>n\<close> in base \<open>b\<close>, most significant first.\<close>

fun fixdigits :: "nat \<Rightarrow> nat \<Rightarrow> nat \<Rightarrow> string" where
  "fixdigits b 0 n = []"
| "fixdigits b (Suc w) n = fixdigits b w (n div b) @ [digit_char (n mod b)]"

lemma digit_char_0 [simp]: "digit_char 0 = CHR ''0''"
  by code_simp

lemma length_fixdigits [simp]: "length (fixdigits b w n) = w"
  by (induction w arbitrary: n) auto

lemma fixdigits_0 [simp]: "fixdigits b w 0 = replicate w (CHR ''0'')"
  by (induction w) (auto simp: digit_char_0 replicate_append_same)

lemma length_show_base:
  assumes "2 \<le> b" and "n < b ^ w" and "0 < w"
  shows "length (show_base b n) \<le> w"
  using assms
proof (induction b n arbitrary: w rule: show_base.induct)
  case (1 b n)
  show ?case
  proof (cases "n < b")
    case True
    with "1.prems" show ?thesis by (subst show_base.simps) simp
  next
    case False
    from "1.prems"(3) obtain w' where w: "w = Suc w'" by (cases w) auto
    with False "1.prems" have "0 < w'" by (cases "w' = 0") auto
    with w have w': "w = Suc w'" "0 < w'" by simp_all
    with "1.prems" have "n div b < b ^ w'"
      by (simp add: less_mult_imp_div_less mult.commute)
    with False "1.prems" "1.IH" w' have "length (show_base b (n div b)) \<le> w'" by auto
    with False w' "1.prems" show ?thesis by (subst show_base.simps) simp
  qed
qed

lemma pad0_show_base:
  assumes "2 \<le> b" and "n < b ^ w" and "0 < w"
  shows "pad0 w (show_base b n) = fixdigits b w n"
  using assms
proof (induction b n arbitrary: w rule: show_base.induct)
  case (1 b n)
  from "1.prems"(3) obtain w' where w: "w = Suc w'" by (cases w) auto
  show ?case
  proof (cases "n < b")
    case True
    with "1.prems" w show ?thesis by (subst show_base.simps) (simp add: pad0_def)
  next
    case False
    with "1.prems" w have "0 < w'" by (cases "w' = 0") auto
    moreover from "1.prems" w have n: "n div b < b ^ w'"
      by (simp add: less_mult_imp_div_less mult.commute)
    ultimately have "pad0 w' (show_base b (n div b)) = fixdigits b w' (n div b)"
      using False "1.prems" "1.IH" by auto
    with False w "1.prems" show ?thesis
      by (subst show_base.simps) (simp add: pad0_def)
  qed
qed

lemma digit_char_less: "m < n \<Longrightarrow> n < 16 \<Longrightarrow> digit_char m < digit_char n"
  by (auto simp: digit_char_def less_char_def)

lemma snoc_less:
  fixes xs ys :: "'a::linorder list"
  assumes "length xs = length ys" and "xs < ys \<or> xs = ys \<and> x < y"
  shows "xs @ [x] < ys @ [y]"
  using assms by (induction xs ys rule: list_induct2) auto

lemma fixdigits_mono:
  assumes "2 \<le> b" and "b \<le> 16" and "m < n" and "n < b ^ w"
  shows "fixdigits b w m < fixdigits b w n"
  using assms
proof (induction w arbitrary: m n)
  case 0
  then show ?case by simp
next
  case (Suc w)
  have mn: "m = b * (m div b) + m mod b" "n = b * (n div b) + n mod b"
    by simp_all
  have "m div b \<le> n div b"
    using Suc.prems by (simp add: div_le_mono)
  then consider "m div b < n div b" | "m div b = n div b" "m mod b < n mod b"
    using mn Suc.prems(3) by (metis add_less_cancel_left le_neq_implies_less)
  then show ?case
  proof cases
    case 1
    moreover have "n div b < b ^ w"
      using Suc.prems by (simp add: less_mult_imp_div_less mult.commute)
    ultimately show ?thesis using Suc.IH Suc.prems by (auto intro: snoc_less)
  next
    case 2
    have "n mod b < b" using Suc.prems by simp
    with Suc.prems have "n mod b < 16" by linarith
    with 2 have "digit_char (m mod b) < digit_char (n mod b)"
      by (simp add: digit_char_less)
    with 2 show ?thesis by (auto intro: snoc_less)
  qed
qed

lemma length_fmt_dec: "0 \<le> i \<Longrightarrow> i < 10 ^ w \<Longrightarrow> 0 < w \<Longrightarrow> length (fmt_dec w i) = w"
  by (simp add: fmt_dec_def show_nat_def pad0_show_base nat_less_iff)

lemma fmt_dec_mono:
  assumes "0 \<le> i" and "i < j" and "j < 10 ^ w" and "0 < w"
  shows "fmt_dec w i < fmt_dec w j"
  using assms by (simp add: fmt_dec_def show_nat_def pad0_show_base nat_less_iff fixdigits_mono)

lemma length_fmt_hex: "n < 16 ^ w \<Longrightarrow> 0 < w \<Longrightarrow> length (fmt_hex w n) = w"
  by (simp add: fmt_hex_def pad0_show_base)

lemma fmt_hex_mono: "m < n \<Longrightarrow> n < 16 ^ w \<Longrightarrow> 0 < w \<Longrightarrow> fmt_hex w m < fmt_hex w n"
  by (simp add: fmt_hex_def pad0_show_base fixdigits_mono)

text \<open>Strings of equal length compare at their first difference, whatever follows them.\<close>

lemma less_append_same_length:
  fixes xs ys :: "'a::linorder list"
  assumes "length xs = length ys" and "xs < ys"
  shows "xs @ us < ys @ vs"
  using assms by (induction xs ys rule: list_induct2) auto

lemma less_append_left [simp]:
  fixes us vs :: "'a::linorder list"
  shows "xs @ us < xs @ vs \<longleftrightarrow> us < vs"
  by (induction xs) auto

end
