(* ===== verification/GoValues.thy ===== *)
theory GoValues
  imports GoPrelude
begin

section \<open>The dynamic values of the program and its errors\<close>

text \<open>
  The program passes graph state around as Go \<open>any\<close> values and inspects their dynamic type.
  \<open>gval\<close> has one constructor per dynamic type the modelled code tests for: the JSON-like values,
  the typed slices the reducers distinguish (\<open>[]any\<close>, \<open>[]string\<close>, \<open>[]messages.Message\<close>,
  \<open>[]messages.RemoveMessage\<close>, \<open>[]messages.MessageUpdate\<close>), and the structs of the channels and
  of the executor (\<open>Overwrite\<close>, \<open>deltaSnapshot\<close>, \<open>LastValueAfterFinishState\<close>, \<open>types.Send\<close>,
  \<open>types.Interrupt\<close>). A pointer to one of these structs and the struct itself are one value, as
  the code treats them alike. A \<open>map[string]any\<close> is its association list (\<open>GoPrelude\<close>).
\<close>

text \<open>
  \<open>messages.ToolCall\<close> and \<open>messages.Message\<close>. \<open>msg_extra\<close> stands for the remaining fields of
  the struct (content blocks, metadata, usage), which the code modelled here copies and never reads.
\<close>

record tool_call =
  tc_id :: string
  tc_name :: string
  tc_args :: string

record message =
  msg_role :: string
  msg_content :: string
  msg_name :: string
  msg_id :: string
  msg_tool_call_id :: string
  msg_tool_calls :: "tool_call list"
  msg_invalid_calls :: "tool_call list"
  msg_extra :: string

text \<open>\<open>messages.MessageUpdate\<close>: a message, or a removal by ID.\<close>

datatype msg_update = UMsg message | URemove string

datatype gval =
    VNil
  | VBool bool
  | VInt int
  | VStr string
  | VList "gval list"
  | VMap "(string \<times> gval) list"
  | VStrs "string list"
  | VMsgs "message list"
  | VRemoves "string list"
  | VUpdates "msg_update list"
  | VOverwrite gval
  | VDeltaSnap gval
  | VFinishState gval bool
  | VSend string "(string \<times> gval) list option"
  | VInterrupt gintr
  | VInterrupts "gintr list"
and gintr =
    Interrupt (intr_value: gval) (intr_id: string) (intr_ns: string)
      (intr_schema: "(string \<times> gval) list option")

type_synonym gstate = "gval gomap"

text \<open>\<open>types.Command\<close>; a nil \<open>Goto\<close> or \<open>Update\<close> reads as the empty one.\<close>

record command =
  cmd_graph :: string
  cmd_update :: gstate
  cmd_resume :: gval
  cmd_goto :: "gval list"

text \<open>
  The errors the modelled code creates or tests for. \<open>EWrap\<close> is \<open>fmt.Errorf("...: %w", err)\<close>:
  the text and the error that \<open>errors.As\<close> still reaches; \<open>EJoin\<close> is \<open>errors.Join\<close>.
\<close>

datatype goerr =
    EEmptyChannel
  | EInvalidUpdate string string
  | EText string
  | EWrap string goerr
  | EJoin goerr goerr
  | ECanceled
  | ENonRetryable goerr
  | ENodeError string int goerr
  | EParentCommand command
  | ERecursion int string
  | EDrained string
  | EUnhandled "goerr option"

fun err_chain :: "goerr \<Rightarrow> goerr list" where
  "err_chain (EWrap t e) = EWrap t e # err_chain e"
| "err_chain (EJoin a b) = EJoin a b # err_chain a @ err_chain b"
| "err_chain (ENonRetryable e) = ENonRetryable e # err_chain e"
| "err_chain (ENodeError n a e) = ENodeError n a e # err_chain e"
| "err_chain (EUnhandled (Some e)) = EUnhandled (Some e) # err_chain e"
| "err_chain e = [e]"

text \<open>The Go type names \<open>%T\<close> prints in the error texts.\<close>

fun go_type :: "gval \<Rightarrow> string" where
  "go_type VNil = ''<nil>''"
| "go_type (VBool _) = ''bool''"
| "go_type (VInt _) = ''int''"
| "go_type (VStr _) = ''string''"
| "go_type (VList _) = ''[]interface {}''"
| "go_type (VMap _) = ''map[string]interface {}''"
| "go_type (VStrs _) = ''[]string''"
| "go_type (VMsgs _) = ''[]messages.Message''"
| "go_type (VRemoves _) = ''[]messages.RemoveMessage''"
| "go_type (VUpdates _) = ''[]messages.MessageUpdate''"
| "go_type (VOverwrite _) = ''channels.Overwrite''"
| "go_type (VDeltaSnap _) = ''channels.deltaSnapshot''"
| "go_type (VFinishState _ _) = ''channels.LastValueAfterFinishState''"
| "go_type (VSend _ _) = ''types.Send''"
| "go_type (VInterrupt _) = ''types.Interrupt''"
| "go_type (VInterrupts _) = ''[]types.Interrupt''"

text \<open>
  \<open>%v\<close> of a scalar or a \<open>[]string\<close>; the remaining values, which only ever reach an error
  text, print as their type name here.
\<close>

fun join_with :: "string \<Rightarrow> string list \<Rightarrow> string" where
  "join_with sep [] = []"
| "join_with sep [x] = x"
| "join_with sep (x # y # ys) = x @ sep @ join_with sep (y # ys)"

definition go_show :: "gval \<Rightarrow> string" where
  "go_show v = (case v of
      VNil \<Rightarrow> ''<nil>''
    | VBool b \<Rightarrow> (if b then ''true'' else ''false'')
    | VInt i \<Rightarrow> show_int i
    | VStr s \<Rightarrow> s
    | VStrs xs \<Rightarrow> ''['' @ join_with '' '' xs @ '']''
    | _ \<Rightarrow> go_type v)"

subsection \<open>Overwrite wrappers (langgraph/channels/overwrite.go)\<close>

definition overwrite_type :: string where
  "overwrite_type = ''__overwrite__''"

definition new_overwrite :: "gval \<Rightarrow> gval" where
  "new_overwrite v = VOverwrite v"

text \<open>
  \<open>AsOverwrite\<close>: the struct; the one-entry map keyed by the discriminator; the map with the
  discriminator under \<open>type\<close> and the payload under \<open>value\<close>.
\<close>

fun as_overwrite :: "gval \<Rightarrow> gval option" where
  "as_overwrite (VOverwrite v) = Some v"
| "as_overwrite (VMap m) =
     (if mlen m = 1 \<and> map_of m overwrite_type \<noteq> None then map_of m overwrite_type
      else if map_of m ''type'' = Some (VStr overwrite_type) then map_of m ''value''
      else None)"
| "as_overwrite v = None"

definition is_overwrite :: "gval \<Rightarrow> bool" where
  "is_overwrite v \<longleftrightarrow> as_overwrite v \<noteq> None"

subsection \<open>Delta snapshot blobs (langgraph/channels/delta.go)\<close>

definition delta_snapshot_type :: string where
  "delta_snapshot_type = ''__delta_snapshot__''"

fun as_delta_snapshot :: "gval \<Rightarrow> gval option" where
  "as_delta_snapshot (VDeltaSnap v) = Some v"
| "as_delta_snapshot (VMap m) =
     (if map_of m ''type'' = Some (VStr delta_snapshot_type) then map_of m ''value'' else None)"
| "as_delta_snapshot v = None"

text \<open>
  A value that a checkpoint restores as itself: \<open>nil\<close> means "channel omitted", and a delta
  snapshot blob is unwrapped on the way back.
\<close>

definition storable :: "gval \<Rightarrow> bool" where
  "storable v \<longleftrightarrow> v \<noteq> VNil \<and> as_delta_snapshot v = None"

lemma as_overwrite_new [simp]: "as_overwrite (new_overwrite v) = Some v"
  by (simp add: new_overwrite_def)

text \<open>
  The JSON encoding of the struct is recognised again, so an overwrite survives a checkpoint
  serializer that does not know the type.
\<close>

definition overwrite_json :: "gval \<Rightarrow> gval" where
  "overwrite_json v = VMap [(''value'', v), (''type'', VStr overwrite_type)]"

lemma as_overwrite_json [simp]: "as_overwrite (overwrite_json v) = Some v"
proof -
  have "map_of [(''value'', v), (''type'', VStr overwrite_type)] overwrite_type = None"
    by (simp add: overwrite_type_def)
  then show ?thesis by (simp add: overwrite_json_def)
qed

end
