(* ===== verification/Reducers.thy ===== *)
theory Reducers
  imports GoValues
begin

section \<open>Reducers (langgraph/channels/channels.go)\<close>

text \<open>
  The functions that merge a state value with an update: overwrite, slice concatenation, and the
  merge of message lists by ID with its removal sentinels. \<open>batch_from_reducer\<close> (delta.go) folds a
  reducer over one superstep's writes. The lemmas give the lookup behaviour of the message merge
  (the last operation on an ID decides), its error condition, that it keeps IDs unique, and that a
  folded reducer does not see how the writes were grouped into batches.
\<close>

type_synonym reducer = "gval \<Rightarrow> gval \<Rightarrow> goerr + gval"
type_synonym batch_reducer = "gval \<Rightarrow> gval list \<Rightarrow> goerr + gval"

definition last_value_reducer :: reducer where
  "last_value_reducer existing update = Inr update"

subsection \<open>Slice concatenation\<close>

definition is_slice :: "gval \<Rightarrow> bool" where
  "is_slice v = (case v of
      VList _ \<Rightarrow> True | VStrs _ \<Rightarrow> True | VMsgs _ \<Rightarrow> True | VRemoves _ \<Rightarrow> True
    | VUpdates _ \<Rightarrow> True | VInterrupts _ \<Rightarrow> True | _ \<Rightarrow> False)"

text \<open>\<open>reflect.AppendSlice\<close> on two slices of one type; \<open>None\<close> when the types differ.\<close>

definition append_slices :: "gval \<Rightarrow> gval \<Rightarrow> gval option" where
  "append_slices v u = (case v of
      VList xs \<Rightarrow> (case u of VList ys \<Rightarrow> Some (VList (xs @ ys)) | _ \<Rightarrow> None)
    | VStrs xs \<Rightarrow> (case u of VStrs ys \<Rightarrow> Some (VStrs (xs @ ys)) | _ \<Rightarrow> None)
    | VMsgs xs \<Rightarrow> (case u of VMsgs ys \<Rightarrow> Some (VMsgs (xs @ ys)) | _ \<Rightarrow> None)
    | VRemoves xs \<Rightarrow> (case u of VRemoves ys \<Rightarrow> Some (VRemoves (xs @ ys)) | _ \<Rightarrow> None)
    | VUpdates xs \<Rightarrow> (case u of VUpdates ys \<Rightarrow> Some (VUpdates (xs @ ys)) | _ \<Rightarrow> None)
    | VInterrupts xs \<Rightarrow> (case u of VInterrupts ys \<Rightarrow> Some (VInterrupts (xs @ ys)) | _ \<Rightarrow> None)
    | _ \<Rightarrow> None)"

definition append_slice_reducer :: reducer where
  "append_slice_reducer existing update =
     (if existing = VNil then Inr update
      else if update = VNil then Inr existing
      else if \<not> is_slice existing \<or> \<not> is_slice update
      then Inl (EText (''channels: AppendSliceReducer requires slice values, got '' @
             go_type existing @ '' and '' @ go_type update))
      else case append_slices existing update of
             None \<Rightarrow> Inl (EText (''channels: AppendSliceReducer requires matching slice types, got '' @
                       go_type existing @ '' and '' @ go_type update))
           | Some v \<Rightarrow> Inr v)"

subsection \<open>Messages merged by ID\<close>

definition as_message_updates :: "gval \<Rightarrow> string \<Rightarrow> goerr + msg_update list" where
  "as_message_updates v lbl = (case v of
      VNil \<Rightarrow> Inr []
    | VUpdates us \<Rightarrow> Inr us
    | VMsgs ms \<Rightarrow> Inr (map UMsg ms)
    | VRemoves ids \<Rightarrow> Inr (map URemove ids)
    | _ \<Rightarrow> Inl (EText (''channels: MessagesReducer requires []messages.Message, []messages.RemoveMessage, or []messages.MessageUpdate for ''
             @ lbl @ '', got '' @ go_type v)))"

definition as_message_slice :: "gval \<Rightarrow> string \<Rightarrow> goerr + message list" where
  "as_message_slice v lbl = (case v of
      VNil \<Rightarrow> Inr []
    | VMsgs ms \<Rightarrow> Inr ms
    | _ \<Rightarrow> Inl (EText (''channels: MessagesReducer requires []messages.Message for '' @ lbl @ '', got '' @ go_type v)))"

text \<open>The updates that follow the last remove-all sentinel, when there is one.\<close>

fun after_remove_all :: "msg_update list \<Rightarrow> msg_update list option" where
  "after_remove_all [] = None"
| "after_remove_all (u # us) =
     (case after_remove_all us of
        Some r \<Rightarrow> Some r
      | None \<Rightarrow> (if u = URemove [] then Some us else None))"

fun only_messages :: "msg_update list \<Rightarrow> message list" where
  "only_messages [] = []"
| "only_messages (UMsg m # us) = m # only_messages us"
| "only_messages (URemove _ # us) = only_messages us"

text \<open>\<open>indexByID\<close>: the position of every non-empty ID, built by a loop from the left.\<close>

fun index_by_id :: "nat \<Rightarrow> message list \<Rightarrow> nat gomap \<Rightarrow> nat gomap" where
  "index_by_id i [] ix = ix"
| "index_by_id i (m # ms) ix = index_by_id (Suc i) ms (if msg_id m \<noteq> [] then mput (msg_id m) i ix else ix)"

text \<open>The state of the merge loop: the merged list, the index, and the IDs marked for removal.\<close>

record merge_state =
  mg_merged :: "message list"
  mg_index :: "nat gomap"
  mg_remove :: "string list"

fun merge_step :: "msg_update \<Rightarrow> merge_state \<Rightarrow> goerr + merge_state" where
  "merge_step (URemove i) s =
     (if mhas (mg_index s) i then Inr (s\<lparr>mg_remove := List.insert i (mg_remove s)\<rparr>)
      else Inl (EText (''channels: MessagesReducer attempting to delete a message with an ID that doesn'' @ [CHR 0x27] @ ''t exist (''
             @ [CHR 0x27] @ i @ [CHR 0x27] @ '')'')))"
| "merge_step (UMsg m) s =
     (case (if msg_id m \<noteq> [] then map_of (mg_index s) (msg_id m) else None) of
        Some idx \<Rightarrow> Inr (s\<lparr>mg_merged := (mg_merged s)[idx := m], mg_remove := removeAll (msg_id m) (mg_remove s)\<rparr>)
      | None \<Rightarrow> Inr (s\<lparr>mg_merged := mg_merged s @ [m],
                        mg_index := (if msg_id m \<noteq> [] then mput (msg_id m) (length (mg_merged s)) (mg_index s)
                                     else mg_index s)\<rparr>))"

definition merge_messages :: "message list \<Rightarrow> msg_update list \<Rightarrow> goerr + message list" where
  "merge_messages existing updates =
     (case after_remove_all updates of
        Some us \<Rightarrow> Inr (only_messages us)
      | None \<Rightarrow>
          rbind (rfold merge_step updates
                   \<lparr>mg_merged = existing, mg_index = index_by_id 0 existing [], mg_remove = []\<rparr>)
            (\<lambda>s. Inr (filter (\<lambda>m. msg_id m \<notin> set (mg_remove s)) (mg_merged s))))"

definition messages_reducer :: reducer where
  "messages_reducer existing update =
     rbind (as_message_slice existing ''existing'') (\<lambda>ms.
       rbind (as_message_updates update ''update'') (\<lambda>us.
         rbind (merge_messages ms us) (\<lambda>out. Inr (VMsgs out))))"

subsection \<open>Folding a reducer over a batch (langgraph/channels/delta.go)\<close>

fun batch_from_reducer :: "reducer \<Rightarrow> batch_reducer" where
  "batch_from_reducer r existing [] = Inr existing"
| "batch_from_reducer r existing (u # us) = rbind (r existing u) (\<lambda>v. batch_from_reducer r v us)"

text \<open>
  The contract the source states for batch reducers: applying two consecutive batches gives the
  state that applying their concatenation gives.
\<close>

definition batching_invariant :: "batch_reducer \<Rightarrow> bool" where
  "batching_invariant r \<longleftrightarrow>
     (\<forall>b xs ys. r b (xs @ ys) = rbind (r b xs) (\<lambda>b'. r b' ys)) \<and> (\<forall>b. r b [] = Inr b)"

lemma batch_from_reducer_append:
  "batch_from_reducer r b (xs @ ys) = rbind (batch_from_reducer r b xs) (\<lambda>b'. batch_from_reducer r b' ys)"
proof (induction xs arbitrary: b)
  case (Cons x xs)
  then show ?case by (cases "r b x") auto
qed simp

lemma batch_from_reducer_invariant: "batching_invariant (batch_from_reducer r)"
  by (simp add: batching_invariant_def batch_from_reducer_append)

subsection \<open>Properties of the message merge\<close>

definition ids_distinct :: "message list \<Rightarrow> bool" where
  "ids_distinct ms \<longleftrightarrow> distinct (filter (\<lambda>i. i \<noteq> []) (map msg_id ms))"

definition find_msg :: "string \<Rightarrow> message list \<Rightarrow> message option" where
  "find_msg i ms = find (\<lambda>m. msg_id m = i) ms"

text \<open>What the last operation on an ID leaves behind: \<open>None\<close> when no update names the ID.\<close>

fun last_op :: "string \<Rightarrow> msg_update list \<Rightarrow> message option option" where
  "last_op i [] = None"
| "last_op i (u # us) =
     (case last_op i us of
        Some r \<Rightarrow> Some r
      | None \<Rightarrow> (case u of
                   URemove j \<Rightarrow> if j = i then Some None else None
                 | UMsg m \<Rightarrow> if msg_id m = i then Some (Some m) else None))"

text \<open>The loop invariant: the index holds exactly the positions of the non-empty IDs.\<close>

definition merge_inv :: "merge_state \<Rightarrow> bool" where
  "merge_inv s \<longleftrightarrow>
     (\<forall>i idx. i \<noteq> [] \<longrightarrow>
        (map_of (mg_index s) i = Some idx \<longleftrightarrow> idx < length (mg_merged s) \<and> msg_id (mg_merged s ! idx) = i)) \<and>
     map_of (mg_index s) [] = None \<and>
     (\<forall>i \<in> set (mg_remove s). map_of (mg_index s) i \<noteq> None)"

definition view :: "string \<Rightarrow> merge_state \<Rightarrow> message option" where
  "view i s = (if i \<in> set (mg_remove s) then None
               else case map_of (mg_index s) i of None \<Rightarrow> None | Some idx \<Rightarrow> Some (mg_merged s ! idx))"


lemma ids_distinct_Cons:
  "ids_distinct (m # ms) \<longleftrightarrow> ids_distinct ms \<and> (msg_id m \<noteq> [] \<longrightarrow> msg_id m \<notin> msg_id ` set ms)"
  by (auto simp: ids_distinct_def)

lemma index_by_id_lookup:
  assumes "ids_distinct ms"
  shows "map_of (index_by_id k ms ix) j = Some idx \<longleftrightarrow>
    (if j \<noteq> [] \<and> j \<in> msg_id ` set ms
     then k \<le> idx \<and> idx - k < length ms \<and> msg_id (ms ! (idx - k)) = j
     else map_of ix j = Some idx)"
  using assms
proof (induction ms arbitrary: k ix)
  case (Cons m ms)
  then have d: "ids_distinct ms" and new: "msg_id m \<noteq> [] \<Longrightarrow> msg_id m \<notin> msg_id ` set ms"
    by (auto simp: ids_distinct_Cons)
  note IH = Cons.IH [OF d]
  have shift: "(Suc k \<le> idx \<and> idx - Suc k < length ms \<and> msg_id (ms ! (idx - Suc k)) = j) \<longleftrightarrow>
      (k < idx \<and> idx - k < length (m # ms) \<and> msg_id ((m # ms) ! (idx - k)) = j)"
  proof (cases "idx - k")
    case (Suc n)
    then have "idx - Suc k = n" by arith
    with Suc show ?thesis by auto
  qed auto
  show ?case
  proof (cases "j \<noteq> [] \<and> j \<in> msg_id ` set ms")
    case True
    with new have "msg_id m \<noteq> j" by auto
    with True show ?thesis by (auto simp: IH shift nth_Cons' le_less)
  next
    case False
    have no: "msg_id (ms ! n) \<noteq> j" if "j \<noteq> []" "n < length ms" for n
      using False that nth_mem by fastforce
    have "idx - Suc k < length ms" if "idx - k < Suc (length ms)" "k < idx"
      using that by arith
    with False new no [of "idx - Suc k"] show ?thesis
      by (auto simp: IH nth_Cons')
  qed
qed simp


lemma index_by_id_inv:
  assumes "ids_distinct ms"
  shows "merge_inv \<lparr>mg_merged = ms, mg_index = index_by_id 0 ms [], mg_remove = []\<rparr>"
proof -
  have "(map_of (index_by_id 0 ms []) i = Some idx) = (idx < length ms \<and> msg_id (ms ! idx) = i)"
    if "i \<noteq> []" for i idx
    using that index_by_id_lookup [OF assms, of 0 "[]" i idx] by (auto simp: nth_mem)
  moreover have "map_of (index_by_id 0 ms []) [] = None"
    using index_by_id_lookup [OF assms, of 0 "[]" "[]"] by (cases "map_of (index_by_id 0 ms []) []") auto
  ultimately show ?thesis by (simp add: merge_inv_def)
qed

lemma merge_inv_indexD:
  assumes "merge_inv s" and "map_of (mg_index s) i = Some idx"
  shows "i \<noteq> []" "idx < length (mg_merged s)" "msg_id (mg_merged s ! idx) = i"
  using assms by (auto simp: merge_inv_def) (metis option.distinct(1))+

lemma ids_distinct_nthI:
  assumes "\<And>m n. m < length xs \<Longrightarrow> n < length xs \<Longrightarrow> msg_id (xs ! m) = msg_id (xs ! n) \<Longrightarrow>
             msg_id (xs ! m) \<noteq> [] \<Longrightarrow> m = n"
  shows "ids_distinct xs"
  using assms
proof (induction xs)
  case (Cons x xs)
  have "m = n" if "m < length xs" "n < length xs" "msg_id (xs ! m) = msg_id (xs ! n)" "msg_id (xs ! m) \<noteq> []" for m n
    using Cons.prems [of "Suc m" "Suc n"] that by simp
  then have "ids_distinct xs" by (rule Cons.IH)
  moreover have "msg_id x \<notin> msg_id ` set xs" if "msg_id x \<noteq> []"
  proof
    assume "msg_id x \<in> msg_id ` set xs"
    then obtain n where "n < length xs" "msg_id (xs ! n) = msg_id x"
      by (auto simp: in_set_conv_nth)
    with Cons.prems [of 0 "Suc n"] that show False by simp
  qed
  ultimately show ?case by (simp add: ids_distinct_Cons)
qed (simp add: ids_distinct_def)

lemma merge_inv_ids_distinct:
  assumes "merge_inv s"
  shows "ids_distinct (mg_merged s)"
proof (rule ids_distinct_nthI)
  fix m n
  assume "m < length (mg_merged s)" "n < length (mg_merged s)"
    "msg_id (mg_merged s ! m) = msg_id (mg_merged s ! n)" "msg_id (mg_merged s ! m) \<noteq> []"
  with assms show "m = n" unfolding merge_inv_def by (metis option.inject)
qed

lemma merge_step_inv:
  assumes "merge_inv s" and "merge_step u s = Inr s'"
  shows "merge_inv s'"
proof (cases u)
  case (URemove i)
  with assms show ?thesis
    by (auto simp: merge_inv_def mhas_def split: if_splits)
next
  case (UMsg m)
  show ?thesis
  proof (cases "msg_id m \<noteq> [] \<and> map_of (mg_index s) (msg_id m) \<noteq> None")
    case True
    then obtain idx where idx: "map_of (mg_index s) (msg_id m) = Some idx" by auto
    with assms UMsg True show ?thesis
      by (auto simp: merge_inv_def nth_list_update)
  next
    case False
    with assms(1) have "msg_id (mg_merged s ! n) \<noteq> msg_id m"
      if "n < length (mg_merged s)" "msg_id m \<noteq> []" for n
      using that unfolding merge_inv_def by (metis option.distinct(1))
    with False assms UMsg show ?thesis
      by (auto simp: merge_inv_def nth_append split: if_splits)
  qed
qed

lemma merge_step_view:
  assumes "merge_inv s" and "merge_step u s = Inr s'" and "i \<noteq> []"
  shows "view i s' = (case last_op i [u] of None \<Rightarrow> view i s | Some r \<Rightarrow> r)"
proof (cases u)
  case (URemove j)
  with assms show ?thesis by (auto simp: view_def split: if_splits option.splits)
next
  case (UMsg m)
  show ?thesis
  proof (cases "msg_id m \<noteq> [] \<and> map_of (mg_index s) (msg_id m) \<noteq> None")
    case True
    then obtain idx where idx: "map_of (mg_index s) (msg_id m) = Some idx" by auto
    note D = merge_inv_indexD [OF assms(1) idx]
    have "idx' \<noteq> idx" if "map_of (mg_index s) i = Some idx'" "msg_id m \<noteq> i" for idx'
      using merge_inv_indexD [OF assms(1) that(1)] D that(2) by auto
    with assms UMsg True idx D show ?thesis
      by (auto simp: view_def split: option.splits)
  next
    case False
    with assms(1) have "msg_id m \<notin> set (mg_remove s)" if "msg_id m \<noteq> []"
      using that unfolding merge_inv_def by blast
    with False assms UMsg show ?thesis
      by (auto simp: view_def nth_append merge_inv_indexD split: option.splits if_splits)
  qed
qed


lemma last_op_Cons:
  "last_op i (u # us) = (case last_op i us of Some r \<Rightarrow> Some r | None \<Rightarrow> last_op i [u])"
  by (auto split: option.splits)

lemma merge_fold:
  assumes "merge_inv s" and "rfold merge_step us s = Inr s'"
  shows "merge_inv s' \<and> (\<forall>i. i \<noteq> [] \<longrightarrow>
           view i s' = (case last_op i us of None \<Rightarrow> view i s | Some r \<Rightarrow> r))"
  using assms
proof (induction us arbitrary: s)
  case (Cons u us)
  from Cons.prems(2) obtain t where t: "merge_step u s = Inr t" "rfold merge_step us t = Inr s'"
    by (auto simp: rbind_Inr_iff)
  have inv: "merge_inv t" by (rule merge_step_inv [OF Cons.prems(1) t(1)])
  from Cons.IH [OF inv t(2)] merge_step_view [OF Cons.prems(1) t(1)] show ?case
    by (auto simp: last_op_Cons simp del: last_op.simps split: option.splits)
qed simp

lemma find_msg_Some_iff:
  assumes "ids_distinct ms" and "i \<noteq> []"
  shows "find_msg i ms = Some m \<longleftrightarrow> m \<in> set ms \<and> msg_id m = i"
  using assms
proof (induction ms)
  case (Cons x xs)
  then show ?case by (auto simp: find_msg_def ids_distinct_Cons)
qed (simp add: find_msg_def)

lemma view_Some_iff:
  assumes "merge_inv s" and "i \<noteq> []"
  shows "view i s = Some m \<longleftrightarrow> m \<in> set (mg_merged s) \<and> msg_id m = i \<and> i \<notin> set (mg_remove s)"
proof -
  have "(\<exists>idx. map_of (mg_index s) i = Some idx \<and> mg_merged s ! idx = m) \<longleftrightarrow>
      m \<in> set (mg_merged s) \<and> msg_id m = i"
    using assms unfolding merge_inv_def by (metis in_set_conv_nth)
  then show ?thesis by (auto simp: view_def split: option.splits)
qed

lemma ids_distinct_filter: "ids_distinct ms \<Longrightarrow> ids_distinct (filter P ms)"
  by (induction ms) (auto simp: ids_distinct_Cons)

lemma find_msg_survivors:
  assumes "merge_inv s" and "i \<noteq> []"
  shows "find_msg i (filter (\<lambda>m. msg_id m \<notin> set (mg_remove s)) (mg_merged s)) = view i s"
proof -
  have d: "ids_distinct (filter (\<lambda>m. msg_id m \<notin> set (mg_remove s)) (mg_merged s))"
    using merge_inv_ids_distinct [OF assms(1)] by (rule ids_distinct_filter)
  have "find_msg i (filter (\<lambda>m. msg_id m \<notin> set (mg_remove s)) (mg_merged s)) = Some m \<longleftrightarrow> view i s = Some m" for m
    using find_msg_Some_iff [OF d assms(2)] view_Some_iff [OF assms] by auto
  then show ?thesis by (metis option.exhaust)
qed

lemma merge_messages_lookup:
  assumes "ids_distinct existing" and "after_remove_all us = None"
    and "merge_messages existing us = Inr out" and "i \<noteq> []"
  shows "find_msg i out = (case last_op i us of None \<Rightarrow> find_msg i existing | Some r \<Rightarrow> r)"
    and "ids_distinct out"
proof -
  let ?s = "\<lparr>mg_merged = existing, mg_index = index_by_id 0 existing [], mg_remove = []\<rparr>"
  from assms(2,3) obtain s where s: "rfold merge_step us ?s = Inr s"
    and out: "out = filter (\<lambda>m. msg_id m \<notin> set (mg_remove s)) (mg_merged s)"
    by (auto simp: merge_messages_def rbind_Inr_iff)
  note inv = index_by_id_inv [OF assms(1)]
  note F = merge_fold [OF inv s]
  have "view i ?s = find_msg i existing"
    using find_msg_survivors [OF inv assms(4)] by simp
  then show "find_msg i out = (case last_op i us of None \<Rightarrow> find_msg i existing | Some r \<Rightarrow> r)"
    using F assms(4) out by (auto simp: find_msg_survivors split: option.splits)
  show "ids_distinct out"
    unfolding out using F by (blast intro: ids_distinct_filter merge_inv_ids_distinct)
qed


text \<open>An ID is known to the loop when it was in the existing list or an earlier update carried it.\<close>

lemma merge_step_index:
  assumes "merge_step u s = Inr s'" and "i \<noteq> []"
  shows "map_of (mg_index s') i = None \<longleftrightarrow>
    map_of (mg_index s) i = None \<and> (\<forall>m. u = UMsg m \<longrightarrow> msg_id m \<noteq> i)"
  using assms by (cases u) (auto split: if_splits option.splits)

lemma merge_step_fails: "(\<exists>e. merge_step u s = Inl e) \<longleftrightarrow> (\<exists>i. u = URemove i \<and> map_of (mg_index s) i = None)"
  by (cases u) (auto simp: mhas_def split: option.splits)

lemma merge_fold_fails:
  assumes "URemove [] \<notin> set us"
  shows "(\<exists>e. rfold merge_step us s = Inl e) \<longleftrightarrow>
    (\<exists>pre i post. us = pre @ URemove i # post \<and> map_of (mg_index s) i = None \<and>
       (\<forall>m. UMsg m \<in> set pre \<longrightarrow> msg_id m \<noteq> i))" (is "_ \<longleftrightarrow> ?R us s")
  using assms
proof (induction us arbitrary: s)
  case (Cons u us)
  show ?case
  proof (cases "merge_step u s")
    case (Inl e)
    then obtain i where "u = URemove i" "map_of (mg_index s) i = None"
      using merge_step_fails by blast
    then have "?R (u # us) s" by (intro exI [of _ "[]"] exI [of _ i] exI [of _ us]) auto
    with Inl show ?thesis by auto
  next
    case (Inr t)
    have "?R (u # us) s \<longleftrightarrow> ?R us t"
    proof
      assume "?R (u # us) s"
      then obtain pre i post where *: "u # us = pre @ URemove i # post" "map_of (mg_index s) i = None"
        "\<forall>m. UMsg m \<in> set pre \<longrightarrow> msg_id m \<noteq> i" by blast
      have "pre \<noteq> []" using *(1,2) Inr merge_step_fails [of u s] by auto
      then obtain pre' where pre: "pre = u # pre'" using *(1) by (cases pre) auto
      have "i \<noteq> []" using *(1) Cons.prems pre by auto
      then have "map_of (mg_index t) i = None"
        using merge_step_index [OF Inr] * pre by auto
      with * pre show "?R us t" by auto
    next
      assume "?R us t"
      then obtain pre i post where *: "us = pre @ URemove i # post" "map_of (mg_index t) i = None"
        "\<forall>m. UMsg m \<in> set pre \<longrightarrow> msg_id m \<noteq> i" by blast
      have "i \<noteq> []" using * Cons.prems by auto
      then show "?R (u # us) s"
        using merge_step_index [OF Inr] * by (intro exI [of _ "u # pre"] exI [of _ i] exI [of _ post]) auto
    qed
    with Inr Cons show ?thesis by auto
  qed
qed simp

lemma after_remove_all_None: "after_remove_all us = None \<longleftrightarrow> URemove [] \<notin> set us"
  by (induction us) (auto split: option.splits)

lemma index_by_id_None:
  assumes "ids_distinct ms" and "i \<noteq> []"
  shows "map_of (index_by_id 0 ms []) i = None \<longleftrightarrow> i \<notin> msg_id ` set ms"
proof -
  have "map_of (index_by_id 0 ms []) i = Some idx \<longleftrightarrow> idx < length ms \<and> msg_id (ms ! idx) = i" for idx
    using index_by_id_inv [OF assms(1)] assms(2) by (simp add: merge_inv_def)
  then have "(\<exists>idx. map_of (index_by_id 0 ms []) i = Some idx) \<longleftrightarrow> i \<in> msg_id ` set ms"
    by (auto simp: in_set_conv_nth image_iff intro: nth_mem)
  then show ?thesis by (cases "map_of (index_by_id 0 ms []) i") auto
qed

text \<open>
  Where the messages of a merge stand. The \<open>newcomers\<close> are the messages of the update that open a place
  of their own: those without an ID, and the first one of every ID that is not known yet. \<open>after_ops\<close> is
  what the update leaves in a place: a message without an ID stays, one with an ID gives way to the last
  operation on its ID.
\<close>

fun newcomers :: "string list \<Rightarrow> msg_update list \<Rightarrow> message list" where
  "newcomers known [] = []"
| "newcomers known (URemove i # us) = newcomers known us"
| "newcomers known (UMsg m # us) =
     (if msg_id m \<noteq> [] \<and> msg_id m \<in> set known then newcomers known us else m # newcomers (msg_id m # known) us)"

definition after_ops :: "string set \<Rightarrow> msg_update list \<Rightarrow> message \<Rightarrow> message option" where
  "after_ops removed us m =
     (if msg_id m = [] then Some m
      else case last_op (msg_id m) us of
             Some r \<Rightarrow> r
           | None \<Rightarrow> (if msg_id m \<in> removed then None else Some m))"

lemma newcomers_ids: "x \<in> set (newcomers known us) \<Longrightarrow> msg_id x = [] \<or> msg_id x \<notin> set known"
  by (induction known us rule: newcomers.induct) (auto split: if_splits)

lemma newcomers_cong: "set known = set known' \<Longrightarrow> newcomers known us = newcomers known' us"
proof (induction us arbitrary: known known')
  case (Cons u us)
  show ?case
  proof (cases u)
    case (UMsg m)
    have "newcomers (msg_id m # known) us = newcomers (msg_id m # known') us"
      by (rule Cons.IH) (simp add: Cons.prems)
    then show ?thesis
      unfolding UMsg newcomers.simps Cons.prems Cons.IH [OF Cons.prems] by (simp only:)
  qed (simp add: Cons.IH [OF Cons.prems])
qed simp

lemma map_filter_via_map: "List.map_filter f xs = List.map_filter (\<lambda>x. x) (map f xs)"
  by (induction xs) (simp_all add: map_filter_simps split: option.split)

lemma map_filter_eqI: "map f xs = map g ys \<Longrightarrow> List.map_filter f xs = List.map_filter g ys"
  by (simp add: map_filter_via_map [of f xs] map_filter_via_map [of g ys])

lemma after_ops_skip: "msg_id x \<noteq> msg_id m \<or> msg_id x = [] \<Longrightarrow> after_ops R (UMsg m # us) x = after_ops R us x"
  by (auto simp: after_ops_def split: option.split)

lemma after_ops_msg:
  "msg_id old = msg_id m \<Longrightarrow> msg_id m \<noteq> [] \<Longrightarrow> msg_id m \<notin> R \<Longrightarrow> after_ops R' (UMsg m # us) old = after_ops R us m"
  by (auto simp: after_ops_def split: option.split)

lemma after_ops_removed: "i \<noteq> [] \<Longrightarrow> after_ops (insert i R) us x = after_ops R (URemove i # us) x"
  by (auto simp: after_ops_def split: option.split)

lemma merge_inv_known:
  assumes "merge_inv s" and "i \<noteq> []"
  shows "map_of (mg_index s) i = None \<longleftrightarrow> i \<notin> msg_id ` set (mg_merged s)"
proof -
  have at: "map_of (mg_index s) i = Some idx \<longleftrightarrow> idx < length (mg_merged s) \<and> msg_id (mg_merged s ! idx) = i" for idx
    using assms unfolding merge_inv_def by blast
  have "i \<in> msg_id ` set (mg_merged s) \<longleftrightarrow> (\<exists>idx < length (mg_merged s). msg_id (mg_merged s ! idx) = i)"
    by (auto simp: set_conv_nth)
  also have "\<dots> \<longleftrightarrow> (\<exists>idx. map_of (mg_index s) i = Some idx)" by (simp add: at)
  finally show ?thesis by (cases "map_of (mg_index s) i") simp_all
qed

lemma merge_step_places:
  assumes inv: "merge_inv s" and "merge_step u s = Inr t"
  shows "map (after_ops (set (mg_remove t)) us) (mg_merged t @ newcomers (map msg_id (mg_merged t)) us) =
    map (after_ops (set (mg_remove s)) (u # us)) (mg_merged s @ newcomers (map msg_id (mg_merged s)) (u # us))"
proof (cases u)
  case (URemove i)
  with assms(2) have t: "t = s\<lparr>mg_remove := List.insert i (mg_remove s)\<rparr>" and "map_of (mg_index s) i \<noteq> None"
    by (auto simp: mhas_def split: if_splits)
  with inv have "i \<noteq> []" by (auto simp: merge_inv_def)
  then show ?thesis by (simp add: URemove t after_ops_removed)
next
  case (UMsg m)
  show ?thesis
  proof (cases "msg_id m \<noteq> [] \<and> map_of (mg_index s) (msg_id m) \<noteq> None")
    case True
    then obtain idx where idx: "map_of (mg_index s) (msg_id m) = Some idx" by auto
    note D = merge_inv_indexD [OF inv idx]
    have t: "t = s\<lparr>mg_merged := (mg_merged s)[idx := m], mg_remove := removeAll (msg_id m) (mg_remove s)\<rparr>"
      using assms(2) True idx by (simp add: UMsg)
    have ids: "map msg_id ((mg_merged s)[idx := m]) = map msg_id (mg_merged s)"
      using D by (simp add: map_update list_update_same_conv)
    have known: "msg_id m \<in> set (map msg_id (mg_merged s))" unfolding set_map using D(3) nth_mem [OF D(2)] by (metis image_eqI)
    have other: "after_ops (set (mg_remove t)) us x = after_ops (set (mg_remove s)) (u # us) x"
      if "msg_id x \<noteq> msg_id m" for x
      using that by (auto simp: UMsg t after_ops_def split: option.split)
    have "map (after_ops (set (mg_remove t)) us) ((mg_merged s)[idx := m]) = map (after_ops (set (mg_remove s)) (u # us)) (mg_merged s)"
    proof (rule nth_equalityI)
      fix n
      assume "n < length (map (after_ops (set (mg_remove t)) us) ((mg_merged s)[idx := m]))"
      then have n: "n < length (mg_merged s)" by simp
      show "map (after_ops (set (mg_remove t)) us) ((mg_merged s)[idx := m]) ! n =
          map (after_ops (set (mg_remove s)) (u # us)) (mg_merged s) ! n"
      proof (cases "n = idx")
        case True
        have "after_ops (set (mg_remove s)) (UMsg m # us) (mg_merged s ! idx) = after_ops (set (mg_remove t)) us m"
          using D by (intro after_ops_msg) (auto simp: t)
        with True n show ?thesis by (simp add: UMsg)
      next
        case False
        have "msg_id (mg_merged s ! n) \<noteq> msg_id m"
        proof
          assume "msg_id (mg_merged s ! n) = msg_id m"
          with inv n D(1) have "map_of (mg_index s) (msg_id m) = Some n" unfolding merge_inv_def by blast
          with idx False show False by simp
        qed
        with other n False show ?thesis by simp
      qed
    qed simp
    moreover have "map (after_ops (set (mg_remove t)) us) (newcomers (map msg_id (mg_merged s)) us) =
        map (after_ops (set (mg_remove s)) (u # us)) (newcomers (map msg_id (mg_merged s)) us)"
      using newcomers_ids known D(1) by (intro map_cong refl other) force
    ultimately show ?thesis using known D(1) by (simp add: t ids UMsg)
  next
    case False
    have new: "msg_id m = [] \<or> msg_id m \<notin> set (map msg_id (mg_merged s))"
      using False merge_inv_known [OF inv] by auto
    have t: "mg_merged t = mg_merged s @ [m]" "mg_remove t = mg_remove s"
      using assms(2) False by (auto simp: UMsg split: if_splits)
    have "\<forall>i \<in> set (mg_remove s). map_of (mg_index s) i \<noteq> None" "map_of (mg_index s) [] = None"
      using inv by (simp_all add: merge_inv_def)
    with False have kept: "msg_id m \<notin> set (mg_remove s)" by metis
    have m: "after_ops (set (mg_remove s)) (u # us) m = after_ops (set (mg_remove s)) us m"
    proof (cases "msg_id m = []")
      case True
      then show ?thesis unfolding UMsg by (intro after_ops_skip) simp
    next
      case False
      show ?thesis unfolding UMsg by (rule after_ops_msg [OF refl False kept])
    qed
    have "after_ops (set (mg_remove s)) (u # us) x = after_ops (set (mg_remove s)) us x"
      if "x \<in> set (mg_merged s) \<or> x \<in> set (newcomers (msg_id m # map msg_id (mg_merged s)) us)" for x
    proof -
      have "msg_id x \<noteq> msg_id m \<or> msg_id x = []"
        using that
      proof
        assume "x \<in> set (mg_merged s)"
        then have "msg_id x \<in> set (map msg_id (mg_merged s))" by simp
        with new show ?thesis by metis
      next
        assume "x \<in> set (newcomers (msg_id m # map msg_id (mg_merged s)) us)"
        from newcomers_ids [OF this] show ?thesis by auto
      qed
      then show ?thesis unfolding UMsg by (rule after_ops_skip)
    qed
    then have same: "map (after_ops (set (mg_remove s)) (u # us)) (mg_merged s) = map (after_ops (set (mg_remove s)) us) (mg_merged s)"
      "map (after_ops (set (mg_remove s)) (u # us)) (newcomers (msg_id m # map msg_id (mg_merged s)) us) =
        map (after_ops (set (mg_remove s)) us) (newcomers (msg_id m # map msg_id (mg_merged s)) us)" by simp_all
    have known: "newcomers (map msg_id (mg_merged t)) us = newcomers (msg_id m # map msg_id (mg_merged s)) us"
      by (rule newcomers_cong) (simp add: t)
    have "newcomers (map msg_id (mg_merged s)) (u # us) = m # newcomers (msg_id m # map msg_id (mg_merged s)) us"
      using new by (auto simp: UMsg)
    then show ?thesis unfolding known by (simp add: t same m)
  qed
qed

lemma merge_fold_places:
  assumes "merge_inv s" and "rfold merge_step us s = Inr s'"
  shows "filter (\<lambda>m. msg_id m \<notin> set (mg_remove s')) (mg_merged s') =
    List.map_filter (after_ops (set (mg_remove s)) us) (mg_merged s @ newcomers (map msg_id (mg_merged s)) us)"
  using assms
proof (induction us arbitrary: s)
  case Nil
  then have "[] \<notin> set (mg_remove s)" by (auto simp: merge_inv_def)
  then have "List.map_filter (after_ops (set (mg_remove s)) []) ms = filter (\<lambda>m. msg_id m \<notin> set (mg_remove s)) ms" for ms
    by (induction ms) (auto simp: map_filter_simps after_ops_def)
  with Nil show ?case by simp
next
  case (Cons u us)
  from Cons.prems(2) obtain t where t: "merge_step u s = Inr t" "rfold merge_step us t = Inr s'"
    by (auto simp: rbind_Inr_iff)
  from Cons.IH [OF merge_step_inv [OF Cons.prems(1) t(1)] t(2)] map_filter_eqI [OF merge_step_places [OF Cons.prems(1) t(1)]]
  show ?case by simp
qed

text \<open>
  C21: \<open>MessagesReducer\<close> merges by ID, in place. Without a remove-all sentinel, and with unique IDs in the
  existing list, the result of a successful merge is exactly this list: the existing messages in their
  order, behind them the newcomers of the update in theirs (the messages without an ID and the first one
  of every new ID), where every message with an ID has given way to the last operation on its ID - a
  later message stands in its place, a removal leaves the place out - and messages without an ID stay.
  So the IDs stay unique, and looking an ID up finds what the last operation on it left, or the existing
  message when no update names it.
\<close>

theorem messages_reducer_merges_by_id:
  assumes "ids_distinct existing" and "URemove [] \<notin> set us"
    and "messages_reducer (VMsgs existing) (VUpdates us) = Inr r"
  shows "\<exists>out. r = VMsgs out \<and>
    out = List.map_filter (\<lambda>m. if msg_id m = [] then Some m else case last_op (msg_id m) us of None \<Rightarrow> Some m | Some left \<Rightarrow> left)
            (existing @ newcomers (map msg_id existing) us) \<and>
    ids_distinct out \<and>
    (\<forall>i. i \<noteq> [] \<longrightarrow>
       find_msg i out = (case last_op i us of None \<Rightarrow> find_msg i existing | Some m \<Rightarrow> m))"
proof -
  from assms(3) obtain out where out: "merge_messages existing us = Inr out" "r = VMsgs out"
    by (auto simp: messages_reducer_def as_message_slice_def as_message_updates_def rbind_Inr_iff)
  note none = after_remove_all_None [THEN iffD2, OF assms(2)]
  note L = merge_messages_lookup [OF assms(1) none out(1)]
  have "ids_distinct out" using L(2) [of "''x''"] by simp
  moreover have "out = List.map_filter (after_ops {} us) (existing @ newcomers (map msg_id existing) us)"
    using out(1) none merge_fold_places [OF index_by_id_inv [OF assms(1)]] by (auto simp: merge_messages_def rbind_Inr_iff)
  moreover have "after_ops {} us = (\<lambda>m. if msg_id m = [] then Some m else case last_op (msg_id m) us of None \<Rightarrow> Some m | Some left \<Rightarrow> left)"
    by (auto simp: after_ops_def fun_eq_iff split: option.split)
  ultimately show ?thesis using L(1) out(2) by auto
qed

lemma messages_reducer_merges_by_id_witness:
  "\<exists>out. messages_reducer
       (VMsgs [\<lparr>msg_role = ''human'', msg_content = ''a'', msg_name = [], msg_id = ''1'', msg_tool_call_id = [],
               msg_tool_calls = [], msg_invalid_calls = [], msg_extra = []\<rparr>])
       (VUpdates [URemove ''1'']) = Inr (VMsgs out) \<and> find_msg ''1'' out = None"
proof -
  let ?m = "\<lparr>msg_role = ''human'', msg_content = ''a'', msg_name = [], msg_id = ''1'', msg_tool_call_id = [],
               msg_tool_calls = [], msg_invalid_calls = [], msg_extra = []\<rparr>"
  have "messages_reducer (VMsgs [?m]) (VUpdates [URemove ''1'']) = Inr (VMsgs [])"
    by (simp add: messages_reducer_def as_message_slice_def as_message_updates_def merge_messages_def mhas_def)
  moreover have "ids_distinct [?m]" by (simp add: ids_distinct_def)
  ultimately show ?thesis
    using messages_reducer_merges_by_id [of "[?m]" "[URemove ''1'']"] by auto
qed

text \<open>
  \<open>MessagesReducer\<close> fails on a removal exactly when the removal names an ID that neither the
  existing list nor an earlier message of the same update carries.
\<close>

theorem messages_reducer_fails_iff:
  assumes "ids_distinct existing" and "URemove [] \<notin> set us"
  shows "(\<exists>e. messages_reducer (VMsgs existing) (VUpdates us) = Inl e) \<longleftrightarrow>
    (\<exists>pre i post. us = pre @ URemove i # post \<and> i \<notin> msg_id ` set existing \<and>
       (\<forall>m. UMsg m \<in> set pre \<longrightarrow> msg_id m \<noteq> i))"
proof -
  have "(\<exists>e. messages_reducer (VMsgs existing) (VUpdates us) = Inl e) \<longleftrightarrow>
      (\<exists>e. rfold merge_step us \<lparr>mg_merged = existing, mg_index = index_by_id 0 existing [], mg_remove = []\<rparr> = Inl e)"
    using assms(2)
    by (simp add: messages_reducer_def as_message_slice_def as_message_updates_def merge_messages_def
        after_remove_all_None [THEN iffD2] rbind_Inl_iff)
  also have "\<dots> \<longleftrightarrow> (\<exists>pre i post. us = pre @ URemove i # post \<and> i \<notin> msg_id ` set existing \<and>
       (\<forall>m. UMsg m \<in> set pre \<longrightarrow> msg_id m \<noteq> i))"
    using assms(2) unfolding merge_fold_fails [OF assms(2)] merge_state.select_convs
    by (metis in_set_conv_decomp index_by_id_None [OF assms(1)])
  finally show ?thesis .
qed

lemma messages_reducer_fails_iff_witness:
  "\<exists>e. messages_reducer (VMsgs []) (VUpdates [URemove ''x'']) = Inl e"
proof -
  have "ids_distinct []" "URemove [] \<notin> set [URemove ''x'']" by (simp_all add: ids_distinct_def)
  from messages_reducer_fails_iff [OF this] show ?thesis by fastforce
qed

end
