(* ===== verification/Channels.thy ===== *)
theory Channels
  imports Reducers
begin

section \<open>The channel interface and the value channels (langgraph/channels)\<close>

text \<open>
  A channel holds one key of the graph state. The Go interface \<open>Channel\<close> is the locale \<open>channel\<close>:
  its operations are the locale's parameters, and what the executor relies on are its laws. Each
  concrete channel is a record of the struct's fields with one definition per method; an \<open>Update\<close>
  returns the new state beside the result, because a failing update may already have mutated the
  receiver. A result \<open>(value, ok)\<close> is an option. This theory holds \<open>LastValue\<close>, \<open>AnyValue\<close>,
  \<open>EphemeralValue\<close>, \<open>UntrackedValue\<close>, \<open>Topic\<close>, \<open>BinaryOperator\<close> and \<open>LastValueAfterFinish\<close>;
  the barrier, the delta channel and the union of all of them have theories of their own.

  The laws: reading succeeds exactly when the channel is available; a fresh channel is not; a
  checkpointed value restores the reading; the empty step-boundary update never fails, is idle on
  an unavailable channel (which is why the executor may skip those), and is idempotent; an update
  that reports no change leaves the reading alone (which is why versions only move on a change).
\<close>

locale channel =
  fixes update :: "'c \<Rightarrow> gval list \<Rightarrow> 'c \<times> (goerr + bool)"
    and read :: "'c \<Rightarrow> goerr + gval"
    and available :: "'c \<Rightarrow> bool"
    and chk :: "'c \<Rightarrow> gval option"
    and from_chk :: "'c \<Rightarrow> gval \<Rightarrow> 'c"
    and inv :: "'c \<Rightarrow> bool"
  assumes read_iff: "inv c \<Longrightarrow> available c \<longleftrightarrow> (\<exists>v. read c = Inr v)"
    and read_empty: "inv c \<Longrightarrow> \<not> available c \<Longrightarrow> read c = Inl EEmptyChannel"
    and inv_update: "inv c \<Longrightarrow> inv (fst (update c vs))"
    and inv_fresh: "inv c \<Longrightarrow> inv (from_chk c VNil)"
    and fresh: "inv c \<Longrightarrow> \<not> available (from_chk c VNil)"
    and inv_restore: "inv c \<Longrightarrow> chk c = Some v \<Longrightarrow> storable v \<Longrightarrow> inv (from_chk c v)"
    and restore: "inv c \<Longrightarrow> chk c = Some v \<Longrightarrow> storable v \<Longrightarrow> read (from_chk c v) = read c"
    and boundary_ok: "inv c \<Longrightarrow> \<exists>b. snd (update c []) = Inr b"
    and boundary_idle: "inv c \<Longrightarrow> \<not> available c \<Longrightarrow> update c [] = (c, Inr False)"
    and boundary_idem: "inv c \<Longrightarrow> update (fst (update c [])) [] = (fst (update c []), Inr False)"
    and quiet: "inv c \<Longrightarrow> snd (update c vs) = Inr False \<Longrightarrow> read (fst (update c vs)) = read c"
begin

lemma available_restore:
  "inv c \<Longrightarrow> chk c = Some v \<Longrightarrow> storable v \<Longrightarrow> available (from_chk c v) \<longleftrightarrow> available c"
  by (simp add: read_iff inv_restore restore)

lemma read_fresh: "inv c \<Longrightarrow> read (from_chk c VNil) = Inl EEmptyChannel"
  by (simp add: read_empty inv_fresh fresh)

lemma quiet_available:
  "inv c \<Longrightarrow> snd (update c vs) = Inr False \<Longrightarrow> available (fst (update c vs)) \<longleftrightarrow> available c"
  by (simp add: read_iff inv_update quiet)

text \<open>The supersteps a channel goes through: one batch of writes after another.\<close>

definition feed :: "'c \<Rightarrow> gval list list \<Rightarrow> 'c" where
  "feed c bs = fold (\<lambda>vs c. fst (update c vs)) bs c"

lemma inv_feed: "inv c \<Longrightarrow> inv (feed c bs)"
  unfolding feed_def by (induction bs arbitrary: c) (simp_all add: inv_update)

lemma feed_boundaries:
  assumes "inv c" and "bs \<noteq> []" and "\<forall>vs \<in> set bs. vs = []"
  shows "feed c bs = fst (update c [])"
proof -
  have stable: "feed d xs = d" if "update d [] = (d, Inr False)" "\<forall>vs \<in> set xs. vs = []" for d xs
    using that unfolding feed_def by (induction xs) auto
  from assms(2,3) obtain xs where "bs = [] # xs" "\<forall>vs \<in> set xs. vs = []" by (cases bs) auto
  then show ?thesis
    using stable [OF boundary_idem [OF assms(1)]] by (simp add: feed_def)
qed

end

text \<open>
  A persistent channel omits itself from a checkpoint exactly when it is unavailable, so a
  checkpoint and a restore always reproduce the reading.
\<close>

locale persistent_channel = channel +
  assumes chk_iff: "inv c \<Longrightarrow> (\<exists>v. chk c = Some v) \<longleftrightarrow> available c"
begin

definition saved :: "'a \<Rightarrow> gval" where
  "saved c = (case chk c of None \<Rightarrow> VNil | Some v \<Rightarrow> v)"

lemma restore_saved:
  assumes "inv c" and "\<forall>v. chk c = Some v \<longrightarrow> storable v"
  shows "read (from_chk c (saved c)) = read c"
proof (cases "chk c")
  case None
  with chk_iff [OF assms(1)] have "\<not> available c" by simp
  with None show ?thesis by (simp add: saved_def read_fresh read_empty assms(1))
next
  case (Some v)
  with assms show ?thesis by (simp add: saved_def restore)
qed

end

text \<open>Channels with a second phase: consuming an available value empties the channel again.\<close>

locale consumable_channel = channel +
  fixes consume :: "'a \<Rightarrow> 'a \<times> bool"
  assumes consume_inv: "inv c \<Longrightarrow> inv (fst (consume c))"
    and consume_reports: "inv c \<Longrightarrow> snd (consume c) \<longleftrightarrow> available c"
    and consume_empties: "inv c \<Longrightarrow> \<not> available (fst (consume c))"
    and consume_idle: "inv c \<Longrightarrow> \<not> available c \<Longrightarrow> fst (consume c) = c"
begin

lemma consume_once:
  assumes "inv c"
  shows "consume (fst (consume c)) = (fst (consume c), False)"
proof -
  have "inv (fst (consume c))" "\<not> available (fst (consume c))"
    using assms by (simp_all add: consume_inv consume_empties)
  then show ?thesis by (simp add: prod_eq_iff consume_reports consume_idle)
qed

end

subsection \<open>LastValue\<close>

record last_value =
  lv_value :: gval
  lv_set :: bool

definition new_last_value :: last_value where
  "new_last_value = \<lparr>lv_value = VNil, lv_set = False\<rparr>"

definition too_many :: "string \<Rightarrow> nat \<Rightarrow> goerr" where
  "too_many ch n = EInvalidUpdate ch (''expected at most 1 value per superstep, got '' @ show_nat n)"

definition lv_update :: "last_value \<Rightarrow> gval list \<Rightarrow> last_value \<times> (goerr + bool)" where
  "lv_update c vs = (case vs of
      [] \<Rightarrow> (c, Inr False)
    | [v] \<Rightarrow> (c\<lparr>lv_value := v, lv_set := True\<rparr>, Inr True)
    | _ \<Rightarrow> (c, Inl (too_many ''LastValue'' (length vs))))"

definition lv_get :: "last_value \<Rightarrow> goerr + gval" where
  "lv_get c = (if \<not> lv_set c then Inl EEmptyChannel else Inr (lv_value c))"

definition lv_is_available :: "last_value \<Rightarrow> bool" where
  "lv_is_available c = lv_set c"

definition lv_checkpoint :: "last_value \<Rightarrow> gval option" where
  "lv_checkpoint c = (if \<not> lv_set c then None else Some (lv_value c))"

definition lv_from_checkpoint :: "last_value \<Rightarrow> gval \<Rightarrow> last_value" where
  "lv_from_checkpoint c v = (if v = VNil then new_last_value else \<lparr>lv_value = v, lv_set = True\<rparr>)"

lemmas lv_defs = lv_update_def lv_get_def lv_is_available_def lv_checkpoint_def lv_from_checkpoint_def
  new_last_value_def

interpretation last_value: persistent_channel lv_update lv_get lv_is_available lv_checkpoint
  lv_from_checkpoint "\<lambda>_. True"
  by unfold_locales (auto simp: lv_defs storable_def split: list.splits if_splits)

subsection \<open>AnyValue\<close>

record any_value =
  av_value :: gval
  av_set :: bool

definition new_any_value :: any_value where
  "new_any_value = \<lparr>av_value = VNil, av_set = False\<rparr>"

definition av_update :: "any_value \<Rightarrow> gval list \<Rightarrow> any_value \<times> (goerr + bool)" where
  "av_update c vs =
     (if vs = [] then
        (if \<not> av_set c then (c, Inr False)
         else (c\<lparr>av_value := VNil, av_set := False\<rparr>, Inr True))
      else (c\<lparr>av_value := last vs, av_set := True\<rparr>, Inr True))"

definition av_get :: "any_value \<Rightarrow> goerr + gval" where
  "av_get c = (if \<not> av_set c then Inl EEmptyChannel else Inr (av_value c))"

definition av_is_available :: "any_value \<Rightarrow> bool" where
  "av_is_available c = av_set c"

definition av_checkpoint :: "any_value \<Rightarrow> gval option" where
  "av_checkpoint c = (if \<not> av_set c then None else Some (av_value c))"

definition av_from_checkpoint :: "any_value \<Rightarrow> gval \<Rightarrow> any_value" where
  "av_from_checkpoint c v = (if v = VNil then new_any_value else \<lparr>av_value = v, av_set = True\<rparr>)"

lemmas av_defs = av_update_def av_get_def av_is_available_def av_checkpoint_def av_from_checkpoint_def
  new_any_value_def

interpretation any_value: persistent_channel av_update av_get av_is_available av_checkpoint
  av_from_checkpoint "\<lambda>_. True"
  by unfold_locales (auto simp: av_defs storable_def split: if_splits)

subsection \<open>EphemeralValue\<close>

record ephemeral =
  ep_guard :: bool
  ep_value :: gval
  ep_set :: bool

definition new_ephemeral :: "bool \<Rightarrow> ephemeral" where
  "new_ephemeral g = \<lparr>ep_guard = g, ep_value = VNil, ep_set = False\<rparr>"

definition ep_update :: "ephemeral \<Rightarrow> gval list \<Rightarrow> ephemeral \<times> (goerr + bool)" where
  "ep_update c vs =
     (if vs = [] then
        (if \<not> ep_set c then (c, Inr False)
         else (c\<lparr>ep_value := VNil, ep_set := False\<rparr>, Inr True))
      else if length vs > 1 \<and> ep_guard c then (c, Inl (too_many ''EphemeralValue'' (length vs)))
      else (c\<lparr>ep_value := last vs, ep_set := True\<rparr>, Inr True))"

definition ep_get :: "ephemeral \<Rightarrow> goerr + gval" where
  "ep_get c = (if \<not> ep_set c then Inl EEmptyChannel else Inr (ep_value c))"

definition ep_is_available :: "ephemeral \<Rightarrow> bool" where
  "ep_is_available c = ep_set c"

definition ep_checkpoint :: "ephemeral \<Rightarrow> gval option" where
  "ep_checkpoint c = (if \<not> ep_set c then None else Some (ep_value c))"

definition ep_from_checkpoint :: "ephemeral \<Rightarrow> gval \<Rightarrow> ephemeral" where
  "ep_from_checkpoint c v =
     (if v = VNil then new_ephemeral (ep_guard c)
      else \<lparr>ep_guard = ep_guard c, ep_value = v, ep_set = True\<rparr>)"

lemmas ep_defs = ep_update_def ep_get_def ep_is_available_def ep_checkpoint_def ep_from_checkpoint_def
  new_ephemeral_def

interpretation ephemeral: persistent_channel ep_update ep_get ep_is_available ep_checkpoint
  ep_from_checkpoint "\<lambda>_. True"
  by unfold_locales (auto simp: ep_defs storable_def split: if_splits)

subsection \<open>UntrackedValue\<close>

record untracked_value =
  uv_value :: gval
  uv_set :: bool
  uv_guard :: bool

definition new_untracked_value :: "bool \<Rightarrow> untracked_value" where
  "new_untracked_value g = \<lparr>uv_value = VNil, uv_set = False, uv_guard = g\<rparr>"

definition uv_update :: "untracked_value \<Rightarrow> gval list \<Rightarrow> untracked_value \<times> (goerr + bool)" where
  "uv_update c vs =
     (if vs = [] then (c, Inr False)
      else if length vs \<noteq> 1 \<and> uv_guard c
      then (c, Inl (EInvalidUpdate ''UntrackedValue'' ''guard=true can receive only one value per step''))
      else (c\<lparr>uv_value := last vs, uv_set := True\<rparr>, Inr True))"

definition uv_get :: "untracked_value \<Rightarrow> goerr + gval" where
  "uv_get c = (if \<not> uv_set c then Inl EEmptyChannel else Inr (uv_value c))"

definition uv_is_available :: "untracked_value \<Rightarrow> bool" where
  "uv_is_available c = uv_set c"

definition uv_checkpoint :: "untracked_value \<Rightarrow> gval option" where
  "uv_checkpoint c = None"

definition uv_from_checkpoint :: "untracked_value \<Rightarrow> gval \<Rightarrow> untracked_value" where
  "uv_from_checkpoint c v = new_untracked_value (uv_guard c)"

lemmas uv_defs = uv_update_def uv_get_def uv_is_available_def uv_checkpoint_def uv_from_checkpoint_def
  new_untracked_value_def

interpretation untracked_value: channel uv_update uv_get uv_is_available uv_checkpoint
  uv_from_checkpoint "\<lambda>_. True"
  by unfold_locales (auto simp: uv_defs split: if_splits)

subsection \<open>Topic\<close>

record topic =
  tp_accumulate :: bool
  tp_values :: "gval list"

definition new_topic :: "bool \<Rightarrow> topic" where
  "new_topic acc = \<lparr>tp_accumulate = acc, tp_values = []\<rparr>"

text \<open>A written \<open>[]any\<close> is flattened one level; every other value is one entry.\<close>

definition topic_entries :: "gval \<Rightarrow> gval list" where
  "topic_entries v = (case v of VList vs \<Rightarrow> vs | _ \<Rightarrow> [v])"

definition tp_update :: "topic \<Rightarrow> gval list \<Rightarrow> topic \<times> (goerr + bool)" where
  "tp_update c vs =
     (let changed = (\<not> tp_accumulate c \<and> tp_values c \<noteq> []);
          base = (if \<not> tp_accumulate c then [] else tp_values c)
      in (c\<lparr>tp_values := base @ concat (map topic_entries vs)\<rparr>, Inr (changed \<or> vs \<noteq> [])))"

definition tp_get :: "topic \<Rightarrow> goerr + gval" where
  "tp_get c = (if tp_values c = [] then Inl EEmptyChannel else Inr (VList (tp_values c)))"

definition tp_is_available :: "topic \<Rightarrow> bool" where
  "tp_is_available c \<longleftrightarrow> tp_values c \<noteq> []"

definition tp_checkpoint :: "topic \<Rightarrow> gval option" where
  "tp_checkpoint c = (if tp_values c = [] then None else Some (VList (tp_values c)))"

definition tp_from_checkpoint :: "topic \<Rightarrow> gval \<Rightarrow> topic" where
  "tp_from_checkpoint c v =
     (if v = VNil then new_topic (tp_accumulate c)
      else \<lparr>tp_accumulate = tp_accumulate c, tp_values = (case v of VList vs \<Rightarrow> vs | _ \<Rightarrow> [])\<rparr>)"

lemmas tp_defs = tp_update_def tp_get_def tp_is_available_def tp_checkpoint_def tp_from_checkpoint_def
  new_topic_def

interpretation topic: persistent_channel tp_update tp_get tp_is_available tp_checkpoint
  tp_from_checkpoint "\<lambda>_. True"
  by unfold_locales (auto simp: tp_defs Let_def storable_def split: if_splits)

subsection \<open>BinaryOperator\<close>

record binary_operator =
  bo_op :: reducer
  bo_value :: gval
  bo_set :: bool

definition new_binary_operator :: "reducer \<Rightarrow> binary_operator" where
  "new_binary_operator r = \<lparr>bo_op = r, bo_value = VNil, bo_set = False\<rparr>"

text \<open>
  The loop over one superstep's writes: the first value ever seeds the channel unreduced; an
  overwrite replaces the value, twice is an error, and later plain values of the same superstep
  are skipped. The channel is mutated as the loop goes, also when it ends in an error.
\<close>

fun bo_loop :: "bool \<Rightarrow> binary_operator \<Rightarrow> gval list \<Rightarrow> binary_operator \<times> (goerr + bool)" where
  "bo_loop seen c [] = (c, Inr True)"
| "bo_loop seen c (v # vs) =
     (if \<not> bo_set c then bo_loop seen (c\<lparr>bo_value := v, bo_set := True\<rparr>) vs
      else case as_overwrite v of
        Some ow \<Rightarrow>
          (if seen then (c, Inl (EInvalidUpdate ''BinaryOperator'' ''can receive only one Overwrite value per super-step''))
           else bo_loop True (c\<lparr>bo_value := ow\<rparr>) vs)
      | None \<Rightarrow>
          (if \<not> seen then
             (case bo_op c (bo_value c) v of
                Inl e \<Rightarrow> (c, Inl e)
              | Inr next_v \<Rightarrow> bo_loop seen (c\<lparr>bo_value := next_v\<rparr>) vs)
           else bo_loop seen c vs))"

definition bo_update :: "binary_operator \<Rightarrow> gval list \<Rightarrow> binary_operator \<times> (goerr + bool)" where
  "bo_update c vs = (if vs = [] then (c, Inr False) else bo_loop False c vs)"

definition bo_get :: "binary_operator \<Rightarrow> goerr + gval" where
  "bo_get c = (if \<not> bo_set c then Inl EEmptyChannel else Inr (bo_value c))"

definition bo_is_available :: "binary_operator \<Rightarrow> bool" where
  "bo_is_available c = bo_set c"

definition bo_checkpoint :: "binary_operator \<Rightarrow> gval option" where
  "bo_checkpoint c = (if \<not> bo_set c then None else Some (bo_value c))"

definition bo_from_checkpoint :: "binary_operator \<Rightarrow> gval \<Rightarrow> binary_operator" where
  "bo_from_checkpoint c v =
     (let v' = (case as_delta_snapshot v of Some inner \<Rightarrow> inner | None \<Rightarrow> v)
      in if v' = VNil then new_binary_operator (bo_op c)
         else \<lparr>bo_op = bo_op c, bo_value = v', bo_set = True\<rparr>)"

lemmas bo_defs = bo_update_def bo_get_def bo_is_available_def bo_checkpoint_def bo_from_checkpoint_def
  new_binary_operator_def

lemma bo_loop_changed: "snd (bo_loop seen c vs) \<noteq> Inr False"
  by (induction seen c vs rule: bo_loop.induct) (auto split: option.splits sum.splits)

lemma as_delta_snapshot_VNil [simp]: "as_delta_snapshot VNil = None"
  by simp

interpretation binary_operator: persistent_channel bo_update bo_get bo_is_available bo_checkpoint
  bo_from_checkpoint "\<lambda>_. True"
  by unfold_locales (auto simp: bo_defs Let_def storable_def bo_loop_changed split: if_splits)

subsection \<open>LastValueAfterFinish\<close>

record last_value_after_finish =
  lf_value :: gval
  lf_set :: bool
  lf_finished :: bool

definition new_last_value_after_finish :: last_value_after_finish where
  "new_last_value_after_finish = \<lparr>lf_value = VNil, lf_set = False, lf_finished = False\<rparr>"

definition lf_update :: "last_value_after_finish \<Rightarrow> gval list \<Rightarrow> last_value_after_finish \<times> (goerr + bool)" where
  "lf_update c vs =
     (if vs = [] then (c, Inr False)
      else (c\<lparr>lf_finished := False, lf_value := last vs, lf_set := True\<rparr>, Inr True))"

definition lf_get :: "last_value_after_finish \<Rightarrow> goerr + gval" where
  "lf_get c = (if \<not> lf_set c \<or> \<not> lf_finished c then Inl EEmptyChannel else Inr (lf_value c))"

definition lf_is_available :: "last_value_after_finish \<Rightarrow> bool" where
  "lf_is_available c \<longleftrightarrow> lf_set c \<and> lf_finished c"

definition lf_checkpoint :: "last_value_after_finish \<Rightarrow> gval option" where
  "lf_checkpoint c = (if \<not> lf_set c then None else Some (VFinishState (lf_value c) (lf_finished c)))"

definition lf_from_checkpoint :: "last_value_after_finish \<Rightarrow> gval \<Rightarrow> last_value_after_finish" where
  "lf_from_checkpoint c v = (case v of
      VFinishState w fin \<Rightarrow> \<lparr>lf_value = w, lf_set = True, lf_finished = fin\<rparr>
    | _ \<Rightarrow> new_last_value_after_finish)"

definition lf_finish :: "last_value_after_finish \<Rightarrow> last_value_after_finish \<times> bool" where
  "lf_finish c = (if \<not> lf_finished c \<and> lf_set c then (c\<lparr>lf_finished := True\<rparr>, True) else (c, False))"

definition lf_consume :: "last_value_after_finish \<Rightarrow> last_value_after_finish \<times> bool" where
  "lf_consume c =
     (if lf_finished c then (c\<lparr>lf_finished := False, lf_value := VNil, lf_set := False\<rparr>, True) else (c, False))"

text \<open>A finished channel holds a value; \<open>Consume\<close> tests the flag alone and relies on it.\<close>

definition lf_inv :: "last_value_after_finish \<Rightarrow> bool" where
  "lf_inv c \<longleftrightarrow> (lf_finished c \<longrightarrow> lf_set c)"

lemmas lf_defs = lf_update_def lf_get_def lf_is_available_def lf_checkpoint_def lf_from_checkpoint_def
  new_last_value_after_finish_def lf_finish_def lf_consume_def lf_inv_def

interpretation after_finish: consumable_channel lf_update lf_get lf_is_available lf_checkpoint
  lf_from_checkpoint lf_inv lf_consume
  by unfold_locales (auto simp: lf_defs split: if_splits)

lemma lf_finish_inv: "lf_inv c \<Longrightarrow> lf_inv (fst (lf_finish c))"
  by (auto simp: lf_defs)

subsection \<open>What the value channels compute over supersteps\<close>

lemma bo_loop_plain:
  assumes "bo_set c" and "\<forall>v \<in> set vs. as_overwrite v = None"
    and "batch_from_reducer (bo_op c) (bo_value c) vs = Inr w"
  shows "bo_loop False c vs = (c\<lparr>bo_value := w\<rparr>, Inr True)"
  using assms
proof (induction vs arbitrary: c)
  case (Cons v vs)
  from Cons.prems(3) obtain u where u: "bo_op c (bo_value c) v = Inr u"
    "batch_from_reducer (bo_op c) u vs = Inr w" by (auto simp: rbind_Inr_iff)
  with Cons.IH [of "c\<lparr>bo_value := u\<rparr>"] Cons.prems show ?case by simp
qed simp

text \<open>
  A reducer key accumulates. Once seeded, a \<open>BinaryOperator\<close> channel that receives plain
  writes over any number of supersteps holds the left fold of its reducer over all the writes in
  order, however they were grouped into supersteps, as long as the reducer accepts them.
\<close>

theorem binary_operator_folds_writes:
  assumes "bo_set c" and "\<forall>v \<in> set (concat bs). as_overwrite v = None"
    and "batch_from_reducer (bo_op c) (bo_value c) (concat bs) = Inr w"
  shows "bo_get (fold (\<lambda>vs c. fst (bo_update c vs)) bs c) = Inr w"
  using assms
proof (induction bs arbitrary: c)
  case (Cons vs bs)
  from Cons.prems(3) obtain u where u: "batch_from_reducer (bo_op c) (bo_value c) vs = Inr u"
    "batch_from_reducer (bo_op c) u (concat bs) = Inr w"
    by (auto simp: batch_from_reducer_append rbind_Inr_iff)
  with Cons.prems have "fst (bo_update c vs) = c\<lparr>bo_value := u\<rparr>"
    by (cases vs) (auto simp: bo_update_def bo_loop_plain simp del: bo_loop.simps)
  with Cons.IH [of "c\<lparr>bo_value := u\<rparr>"] Cons.prems u show ?case by simp
qed (simp add: bo_get_def)

lemma binary_operator_folds_writes_witness:
  "bo_get (fold (\<lambda>vs c. fst (bo_update c vs)) [[VList [VInt 2]], [], [VList [VInt 3], VList [VInt 4]]]
     \<lparr>bo_op = append_slice_reducer, bo_value = VList [VInt 1], bo_set = True\<rparr>)
   = Inr (VList [VInt 1, VInt 2, VInt 3, VInt 4])"
proof -
  let ?c = "\<lparr>bo_op = append_slice_reducer, bo_value = VList [VInt 1], bo_set = True\<rparr>"
  let ?bs = "[[VList [VInt 2]], [], [VList [VInt 3], VList [VInt 4]]]"
  have "batch_from_reducer (bo_op ?c) (bo_value ?c) (concat ?bs) = Inr (VList [VInt 1, VInt 2, VInt 3, VInt 4])"
    by (simp add: append_slice_reducer_def append_slices_def is_slice_def)
  with binary_operator_folds_writes [of ?c ?bs] show ?thesis by simp
qed

text \<open>
  A topic that accumulates holds, after any supersteps, its old entries followed by the
  entries of every write in order; one that does not holds the entries of the last superstep only.
\<close>

theorem topic_entries_over_supersteps:
  "tp_values (fold (\<lambda>vs c. fst (tp_update c vs)) bs c) =
     (if tp_accumulate c then tp_values c @ concat (map topic_entries (concat bs))
      else if bs = [] then tp_values c else concat (map topic_entries (last bs)))"
proof -
  have "tp_accumulate (fold (\<lambda>vs c. fst (tp_update c vs)) bs c) = tp_accumulate c \<and> ?thesis"
    by (induction bs arbitrary: c) (auto simp: tp_update_def Let_def)
  then show ?thesis ..
qed

text \<open>
  A \<open>nil\<close> write does not survive a checkpoint. A \<open>LastValue\<close> channel that holds a written
  \<open>nil\<close> reads as \<open>nil\<close>, and its checkpoint is present, but the channel restored from that
  checkpoint is empty: the interface uses \<open>nil\<close> for "omitted" as well.
\<close>

theorem nil_write_lost_in_checkpoint:
  "\<exists>c'. lv_update c [VNil] = (c', Inr True) \<and> lv_get c' = Inr VNil \<and>
     lv_checkpoint c' = Some VNil \<and> lv_get (lv_from_checkpoint c' VNil) = Inl EEmptyChannel"
  by (simp add: lv_defs)

end
