(* ===== verification/Barrier.thy ===== *)
theory Barrier
  imports Channels
begin

section \<open>The join barrier (langgraph/channels/barrier.go)\<close>

text \<open>
  \<open>NamedBarrierValue\<close>: a fixed set of names and the arrivals seen so far. The Go sets
  \<open>map[string]bool\<close> are lists without repetitions. The barrier is available once every name has
  arrived; the code compares the sizes of the two sets, which means the same as long as only
  names are recorded (the invariant).
\<close>

record barrier =
  ba_names :: "string list"
  ba_seen :: "string list"

definition set_of :: "string list \<Rightarrow> string list" where
  "set_of xs = fold List.insert xs []"

definition new_barrier :: "string list \<Rightarrow> barrier" where
  "new_barrier names = \<lparr>ba_names = set_of names, ba_seen = []\<rparr>"

definition ba_sorted_names :: "barrier \<Rightarrow> string list" where
  "ba_sorted_names c = sort (ba_names c)"

definition ba_is_available :: "barrier \<Rightarrow> bool" where
  "ba_is_available c \<longleftrightarrow> length (ba_seen c) = length (ba_names c)"

fun ba_loop :: "bool \<Rightarrow> barrier \<Rightarrow> gval list \<Rightarrow> barrier \<times> (goerr + bool)" where
  "ba_loop changed c [] = (c, Inr changed)"
| "ba_loop changed c (v # vs) =
     (case (case v of VStr name \<Rightarrow> if name \<in> set (ba_names c) then Some name else None | _ \<Rightarrow> None) of
        None \<Rightarrow> (c, Inl (EInvalidUpdate ''NamedBarrierValue''
                  (''value '' @ go_show v @ '' is not one of the barrier names '' @
                   go_show (VStrs (ba_sorted_names c)))))
      | Some name \<Rightarrow>
          (if name \<notin> set (ba_seen c) then ba_loop True (c\<lparr>ba_seen := List.insert name (ba_seen c)\<rparr>) vs
           else ba_loop changed c vs))"

definition ba_update :: "barrier \<Rightarrow> gval list \<Rightarrow> barrier \<times> (goerr + bool)" where
  "ba_update c vs = ba_loop False c vs"

definition ba_get :: "barrier \<Rightarrow> goerr + gval" where
  "ba_get c = (if \<not> ba_is_available c then Inl EEmptyChannel else Inr VNil)"

definition ba_checkpoint :: "barrier \<Rightarrow> gval option" where
  "ba_checkpoint c = (if ba_seen c = [] then None else Some (VStrs (sort (ba_seen c))))"

fun str_items :: "gval list \<Rightarrow> string list" where
  "str_items [] = []"
| "str_items (VStr s # vs) = s # str_items vs"
| "str_items (_ # vs) = str_items vs"

definition ba_from_checkpoint :: "barrier \<Rightarrow> gval \<Rightarrow> barrier" where
  "ba_from_checkpoint c v = \<lparr>ba_names = ba_names c, ba_seen =
     (case v of VStrs xs \<Rightarrow> set_of xs | VList vs \<Rightarrow> set_of (str_items vs) | _ \<Rightarrow> [])\<rparr>"

definition ba_consume :: "barrier \<Rightarrow> barrier \<times> bool" where
  "ba_consume c = (if \<not> ba_is_available c then (c, False) else (c\<lparr>ba_seen := []\<rparr>, True))"

definition ba_inv :: "barrier \<Rightarrow> bool" where
  "ba_inv c \<longleftrightarrow> distinct (ba_names c) \<and> distinct (ba_seen c) \<and> set (ba_seen c) \<subseteq> set (ba_names c)
     \<and> ba_names c \<noteq> []"

lemmas ba_defs = ba_get_def ba_checkpoint_def ba_from_checkpoint_def ba_consume_def ba_inv_def

subsection \<open>The barrier is a channel\<close>

lemma set_fold_insert: "set (fold List.insert xs acc) = set xs \<union> set acc"
  by (induction xs arbitrary: acc) auto

lemma distinct_fold_insert: "distinct acc \<Longrightarrow> distinct (fold List.insert xs acc)"
  by (induction xs arbitrary: acc) auto

lemma set_of_props [simp]: "set (set_of xs) = set xs" "distinct (set_of xs)"
  by (simp_all add: set_of_def set_fold_insert distinct_fold_insert)

lemma set_of_Nil [simp]: "set_of [] = []"
  by (simp add: set_of_def)

lemma set_of_eq_Nil_iff [simp]: "set_of xs = [] \<longleftrightarrow> xs = []"
  by (metis set_empty set_of_props(1))

lemma ba_available_iff: "ba_inv c \<Longrightarrow> ba_is_available c \<longleftrightarrow> set (ba_seen c) = set (ba_names c)"
  unfolding ba_inv_def ba_is_available_def
  by (metis card_subset_eq distinct_card finite_set)

lemma new_barrier_inv [wf_intros]: "names \<noteq> [] \<Longrightarrow> ba_inv (new_barrier names)"
  by (simp add: ba_inv_def new_barrier_def)

lemma ba_loop_props:
  assumes "ba_inv c"
  shows "ba_inv (fst (ba_loop ch c vs))" and "ba_names (fst (ba_loop ch c vs)) = ba_names c"
    and "set (ba_seen c) \<subseteq> set (ba_seen (fst (ba_loop ch c vs)))"
  using assms
  by (induction ch c vs rule: ba_loop.induct)
    (auto simp: ba_inv_def split: gval.splits if_splits option.splits)

lemma ba_loop_quiet: "snd (ba_loop ch c vs) = Inr False \<Longrightarrow> fst (ba_loop ch c vs) = c \<and> \<not> ch"
  by (induction ch c vs rule: ba_loop.induct) (auto split: gval.splits if_splits option.splits)

lemma ba_loop_ok:
  assumes "snd (ba_loop ch c vs) = Inr b"
  shows "\<exists>names. vs = map VStr names \<and> set names \<subseteq> set (ba_names c) \<and>
    set (ba_seen (fst (ba_loop ch c vs))) = set (ba_seen c) \<union> set names"
  using assms
proof (induction ch c vs rule: ba_loop.induct)
  case (2 ch c v vs)
  from "2.prems" obtain name where v: "v = VStr name" "name \<in> set (ba_names c)"
    by (auto split: gval.splits if_splits option.splits)
  show ?case
  proof (cases "name \<in> set (ba_seen c)")
    case True
    with "2.IH"(2) [of name] "2.prems" v obtain names where
      "vs = map VStr names" "set names \<subseteq> set (ba_names c)"
      "set (ba_seen (fst (ba_loop ch c vs))) = set (ba_seen c) \<union> set names" by auto
    with True v show ?thesis by (intro exI [of _ "name # names"]) auto
  next
    case False
    with "2.IH"(1) [of name] "2.prems" v obtain names where
      "vs = map VStr names" "set names \<subseteq> set (ba_names c)"
      "set (ba_seen (fst (ba_loop True (c\<lparr>ba_seen := List.insert name (ba_seen c)\<rparr>) vs))) =
         insert name (set (ba_seen c)) \<union> set names" by auto
    with False v show ?thesis by (intro exI [of _ "name # names"]) auto
  qed
qed auto

lemma ba_restore:
  assumes "ba_inv c" and "ba_checkpoint c = Some v"
  shows "ba_inv (ba_from_checkpoint c v)" and "ba_get (ba_from_checkpoint c v) = ba_get c"
    and "set (ba_seen (ba_from_checkpoint c v)) = set (ba_seen c)"
proof -
  from assms(2) have v: "v = VStrs (sort (ba_seen c))" by (auto simp: ba_checkpoint_def split: if_splits)
  show inv: "ba_inv (ba_from_checkpoint c v)"
    using assms(1) v by (auto simp: ba_inv_def ba_from_checkpoint_def)
  show seen: "set (ba_seen (ba_from_checkpoint c v)) = set (ba_seen c)"
    using v by (simp add: ba_from_checkpoint_def)
  show "ba_get (ba_from_checkpoint c v) = ba_get c"
    using ba_available_iff [OF inv] ba_available_iff [OF assms(1)] seen
    by (simp add: ba_get_def ba_from_checkpoint_def)
qed

interpretation barrier: consumable_channel ba_update ba_get ba_is_available ba_checkpoint
  ba_from_checkpoint ba_inv ba_consume
  by unfold_locales
    (auto simp: ba_update_def ba_loop_props ba_restore dest: ba_loop_quiet,
     auto simp: ba_defs ba_is_available_def split: if_splits)

subsection \<open>When the barrier opens\<close>

lemma ba_update_names:
  assumes "set names \<subseteq> set (ba_names c)"
  shows "\<exists>b. snd (ba_update c (map VStr names)) = Inr b"
proof -
  have "\<exists>b. snd (ba_loop ch d (map VStr names)) = Inr b" if "set names \<subseteq> set (ba_names d)" for ch d
    using that by (induction names arbitrary: ch d) auto
  with assms show ?thesis by (simp add: ba_update_def)
qed

lemma ba_feed_seen:
  assumes "ba_inv c" and "\<forall>names \<in> set bs. set names \<subseteq> set (ba_names c)"
  shows "set (ba_seen (fold (\<lambda>vs c. fst (ba_update c vs)) (map (map VStr) bs) c)) = set (ba_seen c) \<union> set (concat bs)
    \<and> ba_names (fold (\<lambda>vs c. fst (ba_update c vs)) (map (map VStr) bs) c) = ba_names c
    \<and> ba_inv (fold (\<lambda>vs c. fst (ba_update c vs)) (map (map VStr) bs) c)"
  using assms
proof (induction bs arbitrary: c)
  case (Cons names bs)
  let ?d = "fst (ba_update c (map VStr names))"
  from Cons.prems(2) have sub: "set names \<subseteq> set (ba_names c)" by simp
  obtain b where b: "snd (ba_update c (map VStr names)) = Inr b" using ba_update_names [OF sub] by blast
  then obtain ns where ns: "map VStr names = map VStr ns" "set (ba_seen ?d) = set (ba_seen c) \<union> set ns"
    unfolding ba_update_def by (blast dest: ba_loop_ok)
  have "names = ns" using ns(1) by (metis gval.inject(3) inj_map_eq_map injI)
  moreover have "ba_inv ?d" "ba_names ?d = ba_names c"
    using Cons.prems(1) by (simp_all add: ba_update_def ba_loop_props)
  ultimately show ?case using Cons.IH [of ?d] Cons.prems(2) ns(2) by auto
qed simp

text \<open>
  A join barrier opens exactly when every parent has arrived. Whatever the order of the
  arrivals, their repetitions and their grouping into supersteps, a fresh barrier over a non-empty
  set of parents is available after them if and only if the parents that arrived are all of them.
\<close>

theorem barrier_opens_iff_all_arrived:
  assumes "parents \<noteq> []" and "\<forall>names \<in> set bs. set names \<subseteq> set parents"
  shows "ba_is_available (fold (\<lambda>vs c. fst (ba_update c vs)) (map (map VStr) bs) (new_barrier parents))
    \<longleftrightarrow> set (concat bs) = set parents"
proof -
  have *: "ba_inv (new_barrier parents)" using assms(1) by (rule new_barrier_inv)
  have names: "set (ba_names (new_barrier parents)) = set parents" "ba_seen (new_barrier parents) = []"
    by (simp_all add: new_barrier_def)
  from ba_feed_seen [OF *, of bs] assms(2) names show ?thesis
    by (simp add: ba_available_iff)
qed

lemma barrier_opens_iff_all_arrived_witness:
  "ba_is_available (fold (\<lambda>vs c. fst (ba_update c vs)) (map (map VStr) [[''b''], [''b'', ''a'']]) (new_barrier [''a'', ''b'']))"
proof -
  have "[''a'', ''b''] \<noteq> []" "\<forall>names \<in> set [[''b''], [''b'', ''a'']]. set names \<subseteq> set [''a'', ''b'']"
    by simp_all
  from barrier_opens_iff_all_arrived [OF this] show ?thesis by auto
qed

end
