(* ===== verification/DeltaChannel.thy ===== *)
theory DeltaChannel
  imports Channels
begin

section \<open>Delta channels (langgraph/channels/delta.go, delta_predicates.go)\<close>

text \<open>
  A reducer channel that checkpoints as a sentinel (nothing) and is rebuilt by replaying the
  writes recorded since the last snapshot blob. The snapshot cadence is a predicate over counters
  the executor keeps. \<open>dc_zero\<close> is the value of the type factory; \<open>cloneValue\<close> is the identity on
  the model's values, which are never aliased.
\<close>

record delta_channel =
  dc_reducer :: batch_reducer
  dc_zero :: gval
  dc_frequency :: int
  dc_value :: gval
  dc_set :: bool
  dc_messages :: bool

definition new_delta_channel :: "batch_reducer \<Rightarrow> gval option \<Rightarrow> int \<Rightarrow> delta_channel" where
  "new_delta_channel r zero freq =
     \<lparr>dc_reducer = r, dc_zero = (case zero of None \<Rightarrow> VList [] | Some z \<Rightarrow> z),
      dc_frequency = (if freq \<le> 0 then 100 else freq), dc_value = VNil, dc_set = False, dc_messages = False\<rparr>"

definition new_messages_delta_channel :: "gval option \<Rightarrow> int \<Rightarrow> delta_channel" where
  "new_messages_delta_channel zero freq =
     (new_delta_channel (batch_from_reducer messages_reducer) zero freq)\<lparr>dc_messages := True\<rparr>"

definition clone_value :: "gval \<Rightarrow> gval" where
  "clone_value v = v"

text \<open>The reset value of an overwrite: its payload, or the zero value for \<open>nil\<close>.\<close>

definition reset_value :: "delta_channel \<Rightarrow> gval \<Rightarrow> gval" where
  "reset_value c ow = (if ow \<noteq> VNil then clone_value ow else dc_zero c)"

text \<open>The scan for the one overwrite of a superstep; a second one is an error.\<close>

fun find_overwrite :: "gval option \<Rightarrow> gval list \<Rightarrow> goerr + gval option" where
  "find_overwrite found [] = Inr found"
| "find_overwrite found (v # vs) =
     (case as_overwrite v of
        None \<Rightarrow> find_overwrite found vs
      | Some ow \<Rightarrow>
          (if found \<noteq> None then Inl (EInvalidUpdate ''Delta'' ''can receive only one Overwrite value per super-step'')
           else find_overwrite (Some ow) vs))"

definition dc_base :: "delta_channel \<Rightarrow> gval" where
  "dc_base c = (if dc_set c then dc_value c else dc_zero c)"

definition dc_update :: "delta_channel \<Rightarrow> gval list \<Rightarrow> delta_channel \<times> (goerr + bool)" where
  "dc_update c vs =
     (if vs = [] then (c, Inr False)
      else case find_overwrite None vs of
        Inl e \<Rightarrow> (c, Inl e)
      | Inr (Some ow) \<Rightarrow> (c\<lparr>dc_value := reset_value c ow, dc_set := True\<rparr>, Inr True)
      | Inr None \<Rightarrow>
          (case dc_reducer c (dc_base c) vs of
             Inl e \<Rightarrow> (c, Inl e)
           | Inr w \<Rightarrow> (c\<lparr>dc_value := w, dc_set := True\<rparr>, Inr True)))"

definition dc_get :: "delta_channel \<Rightarrow> goerr + gval" where
  "dc_get c = (if \<not> dc_set c then Inl EEmptyChannel else Inr (dc_value c))"

definition dc_is_available :: "delta_channel \<Rightarrow> bool" where
  "dc_is_available c = dc_set c"

definition dc_checkpoint :: "delta_channel \<Rightarrow> gval option" where
  "dc_checkpoint c = None"

definition dc_snapshot_blob :: "delta_channel \<Rightarrow> gval option" where
  "dc_snapshot_blob c =
     (if \<not> dc_set c then None
      else Some (VMap [(''type'', VStr delta_snapshot_type), (''value'', dc_value c)]))"

definition dc_from_checkpoint :: "delta_channel \<Rightarrow> gval \<Rightarrow> delta_channel" where
  "dc_from_checkpoint c v =
     (let fresh = c\<lparr>dc_value := VNil, dc_set := False\<rparr>
      in if v = VNil then fresh
         else case as_delta_snapshot v of
           Some inner \<Rightarrow> fresh\<lparr>dc_value := inner, dc_set := True\<rparr>
         | None \<Rightarrow> fresh\<lparr>dc_value := v, dc_set := True\<rparr>)"

text \<open>
  \<open>ReplayWrites\<close> over a list of recorded writes: the last overwrite resets the base, and only the
  writes after it go through the reducer; a reducer error keeps the base.
\<close>

fun replay_scan :: "delta_channel \<Rightarrow> gval \<Rightarrow> gval list \<Rightarrow> gval list \<Rightarrow> gval \<times> gval list" where
  "replay_scan c base pending [] = (base, pending)"
| "replay_scan c base pending (v # vs) =
     (case as_overwrite v of
        Some ow \<Rightarrow> replay_scan c (reset_value c ow) [] vs
      | None \<Rightarrow> replay_scan c base (pending @ [v]) vs)"

definition dc_replay_writes :: "delta_channel \<Rightarrow> gval list \<Rightarrow> delta_channel" where
  "dc_replay_writes c vs =
     (if vs = [] then c
      else let (base, remaining) = replay_scan c (dc_base c) [] vs
        in if remaining = [] then c\<lparr>dc_set := True, dc_value := base\<rparr>
           else case dc_reducer c base remaining of
             Inl e \<Rightarrow> c\<lparr>dc_set := True, dc_value := base\<rparr>
           | Inr w \<Rightarrow> c\<lparr>dc_set := True, dc_value := w\<rparr>)"

lemmas dc_defs = dc_update_def dc_get_def dc_is_available_def dc_checkpoint_def dc_from_checkpoint_def

interpretation delta_channel: channel dc_update dc_get dc_is_available dc_checkpoint
  dc_from_checkpoint "\<lambda>_. True"
  by unfold_locales (auto simp: dc_defs Let_def split: option.splits sum.splits if_splits)

subsection \<open>The snapshot cadence\<close>

definition delta_max_supersteps :: int where
  "delta_max_supersteps = 5000"

definition delta_due :: "delta_channel \<Rightarrow> int \<times> int \<Rightarrow> bool" where
  "delta_due d counts \<longleftrightarrow>
     dc_is_available d \<and> (fst counts \<ge> dc_frequency d \<or> snd counts \<ge> delta_max_supersteps)"

subsection \<open>Replaying recorded writes\<close>

lemma dc_snapshot_roundtrip:
  "dc_snapshot_blob c = Some b \<Longrightarrow> dc_get (dc_from_checkpoint p b) = dc_get c"
  by (auto simp: dc_snapshot_blob_def dc_defs Let_def split: if_splits)

lemma dc_fields_update [simp]:
  "dc_reducer (fst (dc_update c vs)) = dc_reducer c" "dc_zero (fst (dc_update c vs)) = dc_zero c"
  by (auto simp: dc_update_def split: sum.splits option.splits)

lemma reset_value_update [simp]: "reset_value (fst (dc_update c vs)) = reset_value c"
  by (rule ext) (simp add: reset_value_def)

lemma replay_scan_plain:
  "\<forall>v \<in> set vs. as_overwrite v = None \<Longrightarrow> replay_scan c base pend (vs @ us) = replay_scan c base (pend @ vs) us"
  by (induction vs arbitrary: pend) auto

lemma replay_scan_cong:
  "reset_value c = reset_value c' \<Longrightarrow> replay_scan c base pend vs = replay_scan c' base pend vs"
  by (induction vs arbitrary: base pend) (auto split: option.splits)

lemma find_overwrite_plain: "\<forall>v \<in> set vs. as_overwrite v = None \<Longrightarrow> find_overwrite f vs = Inr f"
  by (induction vs) auto

text \<open>A superstep whose overwrite, if it has one, is its last write.\<close>

definition overwrite_last :: "gval list \<Rightarrow> bool" where
  "overwrite_last vs \<longleftrightarrow> (\<forall>v \<in> set (butlast vs). as_overwrite v = None)"

text \<open>
  What replaying \<open>vs\<close> must produce, as the reducer applied to what is still pending after the scan.
\<close>

definition settle :: "delta_channel \<Rightarrow> gval \<Rightarrow> gval list \<Rightarrow> goerr + gval" where
  "settle c base vs = (case replay_scan c base [] vs of (b, rem) \<Rightarrow> dc_reducer c b rem)"

lemma settle_plain: "\<forall>v \<in> set vs. as_overwrite v = None \<Longrightarrow> settle c base vs = dc_reducer c base vs"
  using replay_scan_plain [of vs c base "[]" "[]"] by (simp add: settle_def)

lemma replay_scan_pending:
  "replay_scan c base pend vs =
     (if \<forall>v \<in> set vs. as_overwrite v = None then (base, pend @ vs) else replay_scan c base [] vs)"
proof (induction vs arbitrary: base pend)
  case (Cons v vs)
  show ?case
  proof (cases "as_overwrite v")
    case None
    then show ?thesis using Cons [of base "pend @ [v]"] Cons [of base "[v]"] by simp
  next
    case (Some ow)
    then show ?thesis by simp
  qed
qed simp

lemma settle_append_plain:
  assumes "batching_invariant (dc_reducer c)" and "\<forall>v \<in> set vs. as_overwrite v = None"
    and "dc_reducer c base vs = Inr w"
  shows "settle c base (vs @ us) = settle c w us"
proof (cases "\<forall>v \<in> set us. as_overwrite v = None")
  case True
  then show ?thesis using assms settle_plain [of "vs @ us"] settle_plain [of us]
    by (simp add: batching_invariant_def ball_Un)
next
  case False
  have "replay_scan c base [] (vs @ us) = replay_scan c base vs us"
    using replay_scan_plain [OF assms(2), of c base "[]" us] by simp
  also have "\<dots> = replay_scan c base [] us" using False replay_scan_pending by metis
  also have "\<dots> = replay_scan c w [] us"
    using False
  proof (induction us)
    case (Cons u us)
    then show ?case using replay_scan_pending [of c _ "[u]" us]
      by (auto split: option.splits)
  qed simp
  finally show ?thesis by (simp add: settle_def)
qed

text \<open>The live channel through a list of supersteps, stopping at the first failing one.\<close>

definition dc_superstep :: "gval list \<Rightarrow> delta_channel \<Rightarrow> goerr + delta_channel" where
  "dc_superstep vs c = (case dc_update c vs of (c', Inl e) \<Rightarrow> Inl e | (c', Inr b) \<Rightarrow> Inr c')"

lemma dc_superstep_Inr:
  "dc_superstep vs c = Inr c' \<longleftrightarrow> (\<exists>b. dc_update c vs = (c', Inr b))"
  by (auto simp: dc_superstep_def split: prod.splits sum.splits)

lemma settle_cong:
  "dc_reducer c = dc_reducer c' \<Longrightarrow> reset_value c = reset_value c' \<Longrightarrow> settle c b vs = settle c' b vs"
  unfolding settle_def by (metis replay_scan_cong)

lemma find_overwrite_last:
  assumes "overwrite_last vs" and "find_overwrite None vs = Inr (Some ow)"
  shows "\<exists>pre v. vs = pre @ [v] \<and> (\<forall>u \<in> set pre. as_overwrite u = None) \<and> as_overwrite v = Some ow"
proof (cases vs rule: rev_cases)
  case Nil
  with assms show ?thesis by simp
next
  case (snoc pre v)
  with assms(1) have plain: "\<forall>u \<in> set pre. as_overwrite u = None" by (simp add: overwrite_last_def)
  then have "find_overwrite f (pre @ [v]) = find_overwrite f [v]" for f
    by (induction pre arbitrary: f) auto
  with assms(2) snoc plain show ?thesis by (auto split: option.splits)
qed

lemma find_overwrite_None: "find_overwrite None vs = Inr None \<Longrightarrow> \<forall>v \<in> set vs. as_overwrite v = None"
proof -
  have some: "find_overwrite (Some x) vs \<noteq> Inr None" for x vs
    by (induction vs) (auto split: option.splits)
  show "find_overwrite None vs = Inr None \<Longrightarrow> \<forall>v \<in> set vs. as_overwrite v = None"
    by (induction vs) (auto simp: some split: option.splits)
qed

lemma settle_superstep:
  assumes inv: "batching_invariant (dc_reducer c)" and last: "overwrite_last vs"
    and step: "dc_update c vs = (c', Inr b)"
  shows "settle c (dc_base c) (vs @ us) = settle c' (dc_base c') us"
proof -
  have fields: "dc_reducer c' = dc_reducer c" "reset_value c' = reset_value c"
    using dc_fields_update [of c vs] reset_value_update [of c vs] step by simp_all
  have cong: "settle c' = settle c"
    using settle_cong [of c' c] fields by (intro ext) auto
  consider "vs = []" | ow where "vs \<noteq> []" "find_overwrite None vs = Inr (Some ow)"
    | w where "vs \<noteq> []" "find_overwrite None vs = Inr None" "dc_reducer c (dc_base c) vs = Inr w"
    using step by (auto simp: dc_update_def split: if_splits sum.splits option.splits)
  then show ?thesis
  proof cases
    case 1
    with step cong show ?thesis by (simp add: dc_update_def)
  next
    case (2 ow)
    then obtain pre v where vs: "vs = pre @ [v]" "\<forall>u \<in> set pre. as_overwrite u = None" "as_overwrite v = Some ow"
      using find_overwrite_last [OF last] by blast
    have "replay_scan c (dc_base c) [] (vs @ us) = replay_scan c (reset_value c ow) [] us"
      using vs replay_scan_plain [OF vs(2), of c "dc_base c" "[]" "v # us"] by simp
    moreover have "dc_base c' = reset_value c ow"
      using step 2 by (auto simp: dc_update_def dc_base_def)
    ultimately show ?thesis by (simp add: settle_def cong [symmetric] fields) (simp add: settle_def fields
        replay_scan_cong [OF fields(2)])
  next
    case (3 w)
    have "dc_base c' = w" using step 3 by (auto simp: dc_update_def dc_base_def)
    with settle_append_plain [OF inv find_overwrite_None [OF 3(2)] 3(3)] cong show ?thesis by simp
  qed
qed

lemma settle_run:
  assumes "batching_invariant (dc_reducer c)" and "\<forall>vs \<in> set bs. overwrite_last vs"
    and "rfold dc_superstep bs c = Inr live"
  shows "settle c (dc_base c) (concat bs) = Inr (dc_base live)"
    and "dc_set c \<or> concat bs \<noteq> [] \<Longrightarrow> dc_set live"
  using assms
proof (induction bs arbitrary: c)
  case Nil
  { case 1 then show ?case by (simp add: settle_def batching_invariant_def) }
  { case 2 then show ?case by simp }
next
  case (Cons vs bs)
  { case 1
    then obtain c' b where c': "dc_update c vs = (c', Inr b)" "rfold dc_superstep bs c' = Inr live"
      by (auto simp: rbind_Inr_iff dc_superstep_Inr)
    have "batching_invariant (dc_reducer c')" using dc_fields_update [of c vs] c' 1 by simp
    with Cons.IH(1) [of c'] settle_superstep [OF 1(1) _ c'(1), of "concat bs"] 1 c' show ?case by simp }
  { case 2
    then obtain c' b where c': "dc_update c vs = (c', Inr b)" "rfold dc_superstep bs c' = Inr live"
      by (auto simp: rbind_Inr_iff dc_superstep_Inr)
    have inv: "batching_invariant (dc_reducer c')" using dc_fields_update [of c vs] c' 2 by simp
    have "dc_set c' \<longleftrightarrow> dc_set c \<or> vs \<noteq> []"
      using c'(1) by (auto simp: dc_update_def split: if_splits sum.splits option.splits)
    with Cons.IH(2) [of c'] inv 2 c' show ?case by auto }
qed

lemma replay_settled:
  assumes "batching_invariant (dc_reducer c)" and "vs \<noteq> []" and "settle c (dc_base c) vs = Inr w"
  shows "dc_get (dc_replay_writes c vs) = Inr w"
proof -
  obtain base rem where scan: "replay_scan c (dc_base c) [] vs = (base, rem)" by fastforce
  with assms(3) have "dc_reducer c base rem = Inr w" by (simp add: settle_def)
  moreover from assms(1) have "dc_reducer c base [] = Inr base" by (simp add: batching_invariant_def)
  ultimately show ?thesis using assms(2) scan by (auto simp: dc_replay_writes_def dc_get_def)
qed

text \<open>
  C22: Rebuilding a delta channel by replay is faithful. If the batch reducer is batching-invariant
  (the contract the source states), every superstep succeeded, and within a superstep an overwrite
  only comes last, then replaying the concatenation of all recorded writes in one call yields
  exactly the value the live channel reached superstep by superstep.
\<close>

theorem replay_equals_live:
  assumes "batching_invariant (dc_reducer c)" and "\<forall>vs \<in> set bs. overwrite_last vs"
    and "rfold dc_superstep bs c = Inr live" and "concat bs \<noteq> []"
  shows "dc_get (dc_replay_writes c (concat bs)) = dc_get live"
proof -
  note S = settle_run [OF assms(1-3)]
  have "dc_get live = Inr (dc_base live)" using S(2) assms(4) by (simp add: dc_get_def dc_base_def)
  with replay_settled [OF assms(1,4) S(1)] show ?thesis by simp
qed

lemma replay_equals_live_witness:
  "dc_get (dc_replay_writes (new_delta_channel (batch_from_reducer append_slice_reducer) None 0)
      [VList [VInt 1], VOverwrite (VList [VInt 7]), VList [VInt 2]]) = Inr (VList [VInt 7, VInt 2])"
proof -
  let ?c = "new_delta_channel (batch_from_reducer append_slice_reducer) None 0"
  let ?bs = "[[VList [VInt 1], VOverwrite (VList [VInt 7])], [VList [VInt 2]]]"
  have "rfold dc_superstep ?bs ?c = Inr (?c\<lparr>dc_value := VList [VInt 7, VInt 2], dc_set := True\<rparr>)"
    by (simp add: dc_superstep_def dc_update_def new_delta_channel_def reset_value_def clone_value_def
        dc_base_def append_slice_reducer_def append_slices_def is_slice_def)
  moreover have "batching_invariant (dc_reducer ?c)"
    by (simp add: new_delta_channel_def batch_from_reducer_invariant)
  moreover have "\<forall>vs \<in> set ?bs. overwrite_last vs" by (simp add: overwrite_last_def)
  ultimately show ?thesis
    using replay_equals_live [of ?c ?bs] by (simp add: dc_get_def)
qed

text \<open>
  Without that side condition replay and live execution disagree. A superstep that writes
  an overwrite and then a plain value drops the plain value live, but the replay of the same two
  writes applies it: here the live channel holds \<open>[1]\<close> and the replayed one \<open>[1, 2]\<close>.
\<close>

theorem replay_differs_after_overwrite:
  "\<exists>c live. batching_invariant (dc_reducer c) \<and>
     dc_superstep [VOverwrite (VList [VInt 1]), VList [VInt 2]] c = Inr live \<and>
     dc_get live = Inr (VList [VInt 1]) \<and>
     dc_get (dc_replay_writes c [VOverwrite (VList [VInt 1]), VList [VInt 2]]) = Inr (VList [VInt 1, VInt 2])"
proof -
  let ?c = "new_delta_channel (batch_from_reducer append_slice_reducer) None 0"
  have "batching_invariant (dc_reducer ?c)"
    by (simp add: new_delta_channel_def batch_from_reducer_invariant)
  moreover have "dc_superstep [VOverwrite (VList [VInt 1]), VList [VInt 2]] ?c
      = Inr (?c\<lparr>dc_value := VList [VInt 1], dc_set := True\<rparr>)"
    by (simp add: dc_superstep_def dc_update_def new_delta_channel_def reset_value_def clone_value_def)
  moreover have "dc_get (dc_replay_writes ?c [VOverwrite (VList [VInt 1]), VList [VInt 2]])
      = Inr (VList [VInt 1, VInt 2])"
    by (simp add: dc_replay_writes_def new_delta_channel_def reset_value_def clone_value_def dc_base_def
        dc_get_def append_slice_reducer_def append_slices_def is_slice_def)
  ultimately show ?thesis
    by (intro exI [of _ ?c] exI [of _ "?c\<lparr>dc_value := VList [VInt 1], dc_set := True\<rparr>"]) (simp add: dc_get_def)
qed

end
