(* ===== verification/ChannelUnion.thy ===== *)
theory ChannelUnion
  imports Barrier DeltaChannel
begin

section \<open>Any channel: dynamic dispatch over the concrete channels\<close>

text \<open>
  A Go value of interface type \<open>Channel\<close> is one of the concrete channels; a method call on it
  dispatches on the dynamic type. \<open>chan_inv\<close> gathers the invariants of the parts. The union is
  itself a channel, so every law of the interface holds for the channels of a run.
\<close>

datatype chan =
    CLast last_value
  | CAny any_value
  | CEphemeral ephemeral
  | CUntracked untracked_value
  | CTopic topic
  | CBinary binary_operator
  | CAfterFinish last_value_after_finish
  | CBarrier barrier
  | CDelta delta_channel

definition chan_update :: "chan \<Rightarrow> gval list \<Rightarrow> chan \<times> (goerr + bool)" where
  "chan_update ch vs = (case ch of
      CLast c \<Rightarrow> map_prod CLast id (lv_update c vs)
    | CAny c \<Rightarrow> map_prod CAny id (av_update c vs)
    | CEphemeral c \<Rightarrow> map_prod CEphemeral id (ep_update c vs)
    | CUntracked c \<Rightarrow> map_prod CUntracked id (uv_update c vs)
    | CTopic c \<Rightarrow> map_prod CTopic id (tp_update c vs)
    | CBinary c \<Rightarrow> map_prod CBinary id (bo_update c vs)
    | CAfterFinish c \<Rightarrow> map_prod CAfterFinish id (lf_update c vs)
    | CBarrier c \<Rightarrow> map_prod CBarrier id (ba_update c vs)
    | CDelta c \<Rightarrow> map_prod CDelta id (dc_update c vs))"

definition chan_get :: "chan \<Rightarrow> goerr + gval" where
  "chan_get ch = (case ch of
      CLast c \<Rightarrow> lv_get c | CAny c \<Rightarrow> av_get c | CEphemeral c \<Rightarrow> ep_get c | CUntracked c \<Rightarrow> uv_get c
    | CTopic c \<Rightarrow> tp_get c | CBinary c \<Rightarrow> bo_get c | CAfterFinish c \<Rightarrow> lf_get c
    | CBarrier c \<Rightarrow> ba_get c | CDelta c \<Rightarrow> dc_get c)"

definition chan_is_available :: "chan \<Rightarrow> bool" where
  "chan_is_available ch = (case ch of
      CLast c \<Rightarrow> lv_is_available c | CAny c \<Rightarrow> av_is_available c | CEphemeral c \<Rightarrow> ep_is_available c
    | CUntracked c \<Rightarrow> uv_is_available c | CTopic c \<Rightarrow> tp_is_available c | CBinary c \<Rightarrow> bo_is_available c
    | CAfterFinish c \<Rightarrow> lf_is_available c | CBarrier c \<Rightarrow> ba_is_available c | CDelta c \<Rightarrow> dc_is_available c)"

definition chan_checkpoint :: "chan \<Rightarrow> gval option" where
  "chan_checkpoint ch = (case ch of
      CLast c \<Rightarrow> lv_checkpoint c | CAny c \<Rightarrow> av_checkpoint c | CEphemeral c \<Rightarrow> ep_checkpoint c
    | CUntracked c \<Rightarrow> uv_checkpoint c | CTopic c \<Rightarrow> tp_checkpoint c | CBinary c \<Rightarrow> bo_checkpoint c
    | CAfterFinish c \<Rightarrow> lf_checkpoint c | CBarrier c \<Rightarrow> ba_checkpoint c | CDelta c \<Rightarrow> dc_checkpoint c)"

definition chan_from_checkpoint :: "chan \<Rightarrow> gval \<Rightarrow> chan" where
  "chan_from_checkpoint ch v = (case ch of
      CLast c \<Rightarrow> CLast (lv_from_checkpoint c v)
    | CAny c \<Rightarrow> CAny (av_from_checkpoint c v)
    | CEphemeral c \<Rightarrow> CEphemeral (ep_from_checkpoint c v)
    | CUntracked c \<Rightarrow> CUntracked (uv_from_checkpoint c v)
    | CTopic c \<Rightarrow> CTopic (tp_from_checkpoint c v)
    | CBinary c \<Rightarrow> CBinary (bo_from_checkpoint c v)
    | CAfterFinish c \<Rightarrow> CAfterFinish (lf_from_checkpoint c v)
    | CBarrier c \<Rightarrow> CBarrier (ba_from_checkpoint c v)
    | CDelta c \<Rightarrow> CDelta (dc_from_checkpoint c v))"

definition chan_inv :: "chan \<Rightarrow> bool" where
  "chan_inv ch = (case ch of CAfterFinish c \<Rightarrow> lf_inv c | CBarrier c \<Rightarrow> ba_inv c | _ \<Rightarrow> True)"

text \<open>The type assertions of the executor.\<close>

definition as_delta :: "chan \<Rightarrow> delta_channel option" where
  "as_delta ch = (case ch of CDelta d \<Rightarrow> Some d | _ \<Rightarrow> None)"

definition is_delta :: "chan \<Rightarrow> bool" where
  "is_delta ch \<longleftrightarrow> as_delta ch \<noteq> None"

definition is_binary_operator :: "chan \<Rightarrow> bool" where
  "is_binary_operator ch = (case ch of CBinary _ \<Rightarrow> True | _ \<Rightarrow> False)"

definition is_barrier :: "chan \<Rightarrow> bool" where
  "is_barrier ch = (case ch of CBarrier _ \<Rightarrow> True | _ \<Rightarrow> False)"

text \<open>The optional \<open>Consume\<close> hook, reached by an interface assertion.\<close>

definition chan_consume :: "chan \<Rightarrow> chan" where
  "chan_consume ch = (case ch of
      CBarrier c \<Rightarrow> CBarrier (fst (ba_consume c))
    | CAfterFinish c \<Rightarrow> CAfterFinish (fst (lf_consume c))
    | _ \<Rightarrow> ch)"

lemmas chan_defs = chan_update_def chan_get_def chan_is_available_def chan_checkpoint_def
  chan_from_checkpoint_def chan_inv_def

interpretation chan: channel chan_update chan_get chan_is_available chan_checkpoint
  chan_from_checkpoint chan_inv
proof unfold_locales
  fix c :: chan and v :: gval and vs :: "gval list"
  assume inv: "chan_inv c"
  note parts = last_value.channel_axioms any_value.channel_axioms ephemeral.channel_axioms
    untracked_value.channel_axioms topic.channel_axioms binary_operator.channel_axioms
    after_finish.channel_axioms barrier.channel_axioms delta_channel.channel_axioms
  show "chan_is_available c \<longleftrightarrow> (\<exists>v. chan_get c = Inr v)"
    using inv parts [THEN channel.read_iff] by (cases c) (simp_all add: chan_defs)
  show "\<not> chan_is_available c \<Longrightarrow> chan_get c = Inl EEmptyChannel"
    using inv parts [THEN channel.read_empty] by (cases c) (simp_all add: chan_defs)
  show "chan_inv (fst (chan_update c vs))"
    using inv parts [THEN channel.inv_update] by (cases c) (simp_all add: chan_defs)
  show "chan_inv (chan_from_checkpoint c VNil)"
    using inv parts [THEN channel.inv_fresh] by (cases c) (simp_all add: chan_defs)
  show "\<not> chan_is_available (chan_from_checkpoint c VNil)"
    using inv parts [THEN channel.fresh] by (cases c) (simp_all add: chan_defs)
  show "chan_checkpoint c = Some v \<Longrightarrow> storable v \<Longrightarrow> chan_inv (chan_from_checkpoint c v)"
    using inv parts [THEN channel.inv_restore] by (cases c) (simp_all add: chan_defs)
  show "chan_checkpoint c = Some v \<Longrightarrow> storable v \<Longrightarrow> chan_get (chan_from_checkpoint c v) = chan_get c"
    using inv parts [THEN channel.restore] by (cases c) (simp_all add: chan_defs)
  show "\<exists>b. snd (chan_update c []) = Inr b"
    using inv parts [THEN channel.boundary_ok] by (cases c) (simp_all add: chan_defs)
  show "\<not> chan_is_available c \<Longrightarrow> chan_update c [] = (c, Inr False)"
    using inv parts [THEN channel.boundary_idle] by (cases c) (simp_all add: chan_defs)
  show "chan_update (fst (chan_update c [])) [] = (fst (chan_update c []), Inr False)"
    using inv parts [THEN channel.boundary_idem] by (cases c) (simp_all add: chan_defs)
  show "snd (chan_update c vs) = Inr False \<Longrightarrow> chan_get (fst (chan_update c vs)) = chan_get c"
    using inv parts [THEN channel.quiet] by (cases c) (simp_all add: chan_defs)
qed

lemma chan_consume_inv [wf_intros]: "chan_inv c \<Longrightarrow> chan_inv (chan_consume c)"
  by (cases c) (simp_all add: chan_consume_def chan_inv_def barrier.consume_inv after_finish.consume_inv)

lemma as_delta_CDelta [simp]: "as_delta (CDelta d) = Some d"
  by (simp add: as_delta_def)

lemma as_delta_iff: "as_delta ch = Some d \<longleftrightarrow> ch = CDelta d"
  by (cases ch) (simp_all add: as_delta_def)

lemma is_delta_from_checkpoint [simp]: "is_delta (chan_from_checkpoint ch v) = is_delta ch"
  by (cases ch) (simp_all add: chan_from_checkpoint_def is_delta_def as_delta_def)

lemma is_delta_update [simp]: "is_delta (fst (chan_update ch vs)) = is_delta ch"
  by (cases ch) (simp_all add: chan_update_def is_delta_def as_delta_def)

lemma delta_checkpoint: "is_delta ch \<Longrightarrow> chan_checkpoint ch = None"
  by (cases ch) (simp_all add: is_delta_def as_delta_def chan_checkpoint_def dc_checkpoint_def)

subsection \<open>Which delta channels snapshot now (delta_predicates.go)\<close>

definition delta_channels_to_snapshot :: "chan gomap \<Rightarrow> (int \<times> int) gomap \<Rightarrow> string list" where
  "delta_channels_to_snapshot chs counters =
     filter (\<lambda>name. case map_of chs name of
               Some ch \<Rightarrow> (case as_delta ch of
                  Some d \<Rightarrow> delta_due d (mgetd counters name (0, 0))
                | None \<Rightarrow> False)
             | None \<Rightarrow> False)
       (mkeys chs)"

lemma delta_channels_to_snapshot_iff:
  "name \<in> set (delta_channels_to_snapshot chs counters) \<longleftrightarrow>
     (\<exists>d. map_of chs name = Some (CDelta d) \<and> dc_is_available d \<and>
        (fst (mgetd counters name (0, 0)) \<ge> dc_frequency d \<or>
         snd (mgetd counters name (0, 0)) \<ge> delta_max_supersteps))"
  unfolding delta_channels_to_snapshot_def
  by (auto simp: delta_due_def as_delta_iff in_mkeys_iff simp del: set_mkeys split: option.splits)

end
