(* ===== verification/RunState.thy ===== *)
theory RunState
  imports ChannelUnion
begin

section \<open>The executor's working state and the superstep commit (langgraph/graph/state.go)\<close>

text \<open>
  \<open>runState\<close> holds one channel per state key, a version per channel, what every node has seen of
  the versions, the superstep number, and the bookkeeping of the delta channels. \<open>applyWrites\<close>
  commits one superstep: it records each task's pre-write view, computes one next version, updates
  the written channels in a deterministic order, notifies the untouched ones of the step boundary,
  and bumps every channel that reports a change to the shared next version. The receiver is
  mutated as the code goes, so an error is returned beside the state it leaves. Versions are
  \<open>int64\<close> counters that grow by one per superstep; the model keeps them as integers.
\<close>

record run_state =
  rs_protos :: "chan gomap"
  rs_channels :: "chan gomap"
  rs_versions :: "int gomap"
  rs_seen :: "int gomap gomap"
  rs_step :: int
  rs_delta_counters :: "(int \<times> int) gomap"
  rs_delta_overwrite :: "string list"
  rs_updated :: "string list"

record task_writes =
  tw_node :: string
  tw_update :: gstate

definition input_node_name :: string where
  "input_node_name = ''__input__''"

definition new_run_state :: "chan gomap \<Rightarrow> run_state" where
  "new_run_state protos =
     \<lparr>rs_protos = protos, rs_channels = [], rs_versions = [], rs_seen = [], rs_step = -1,
      rs_delta_counters = [], rs_delta_overwrite = [], rs_updated = []\<rparr>"

definition proto_for :: "run_state \<Rightarrow> string \<Rightarrow> chan" where
  "proto_for rs key = mgetd (rs_protos rs) key (CLast new_last_value)"

text \<open>\<open>channelFor\<close> creates the channel on first use; the callers below store what they get.\<close>

definition channel_for :: "run_state \<Rightarrow> string \<Rightarrow> chan" where
  "channel_for rs key =
     (case map_of (rs_channels rs) key of
        Some ch \<Rightarrow> ch
      | None \<Rightarrow> chan_from_checkpoint (proto_for rs key) VNil)"

definition is_join_key :: "chan gomap \<Rightarrow> string \<Rightarrow> bool" where
  "is_join_key protos key = (case map_of protos key of Some p \<Rightarrow> is_barrier p | None \<Rightarrow> False)"

text \<open>\<open>restore\<close> from the channel values and bookkeeping of a checkpoint.\<close>

definition restore_state :: "gstate \<Rightarrow> int gomap \<Rightarrow> int gomap gomap \<Rightarrow> run_state \<Rightarrow> run_state" where
  "restore_state cvalues cversions seen rs =
     rs\<lparr>rs_channels := mbuild (mkeys cvalues)
           (\<lambda>key. map_option (chan_from_checkpoint (proto_for rs key)) (map_of cvalues key)),
        rs_versions := cversions, rs_seen := seen\<rparr>"

text \<open>The user-visible state: every available channel but the join barriers.\<close>

definition snapshot :: "run_state \<Rightarrow> gstate" where
  "snapshot rs = mbuild (mkeys (rs_channels rs))
     (\<lambda>key. if is_join_key (rs_protos rs) key then None
            else case chan_get (channel_for rs key) of Inl _ \<Rightarrow> None | Inr v \<Rightarrow> Some v)"

definition channel_values :: "run_state \<Rightarrow> gstate" where
  "channel_values rs = mbuild (mkeys (rs_channels rs)) (\<lambda>key. chan_checkpoint (channel_for rs key))"

definition checkpoint_values :: "string list \<Rightarrow> run_state \<Rightarrow> gstate" where
  "checkpoint_values to_snapshot rs = mbuild (mkeys (rs_channels rs))
     (\<lambda>key. if key \<in> set to_snapshot then
              (case as_delta (channel_for rs key) of
                 Some d \<Rightarrow> (if dc_is_available d then dc_snapshot_blob d else None)
               | None \<Rightarrow> None)
            else if is_delta (channel_for rs key) then None
            else chan_checkpoint (channel_for rs key))"

definition delta_repair_snapshots :: "string list \<Rightarrow> run_state \<Rightarrow> gstate" where
  "delta_repair_snapshots exclude rs = mbuild (mkeys (rs_channels rs))
     (\<lambda>key. if key \<in> set exclude then None
            else case as_delta (channel_for rs key) of
                   Some d \<Rightarrow> (if dc_is_available d then dc_snapshot_blob d else None)
                 | None \<Rightarrow> None)"

subsection \<open>Committing a superstep\<close>

definition record_seen :: "task_writes list \<Rightarrow> run_state \<Rightarrow> run_state" where
  "record_seen ws rs =
     rs\<lparr>rs_seen := fold (\<lambda>w seen. mput (tw_node w) (mcopy (mgetd seen (tw_node w) []) (rs_versions rs)) seen)
                      ws (rs_seen rs)\<rparr>"

definition next_version :: "int gomap \<Rightarrow> int" where
  "next_version versions =
     fold (\<lambda>k n. if mgetd versions k 0 \<ge> n then mgetd versions k 0 + 1 else n) (mkeys versions) 1"

text \<open>\<open>writtenOrder\<close> and \<open>grouped\<close>: the keys in first-write order and each key's writes in task order.\<close>

definition group_step :: "gstate \<Rightarrow> string \<Rightarrow> string list \<times> gval list gomap \<Rightarrow> string list \<times> gval list gomap" where
  "group_step upd k acc =
     (case acc of (ord, g) \<Rightarrow>
        ((if mhas g k then ord else ord @ [k]), mput k (mgetd g k [] @ [mgetd upd k VNil]) g))"

definition group_writes :: "task_writes list \<Rightarrow> string list \<times> gval list gomap" where
  "group_writes ws =
     fold (\<lambda>w acc. fold (group_step (tw_update w)) (mkeys (tw_update w)) acc) ws ([], [])"

text \<open>One channel update of the commit: the new channel is stored, and a change bumps the version.\<close>

definition touch :: "string \<Rightarrow> int \<Rightarrow> string \<Rightarrow> gval list \<Rightarrow> run_state \<Rightarrow> run_state \<times> (goerr + bool)" where
  "touch what nv key vs rs =
     (case chan_update (channel_for rs key) vs of (ch', r) \<Rightarrow>
        let rs1 = rs\<lparr>rs_channels := mput key ch' (rs_channels rs)\<rparr>
        in case r of
             Inl e \<Rightarrow> (rs1, Inl (EWrap (''graph: '' @ what @ '' key '' @ go_quote key) e))
           | Inr changed \<Rightarrow>
               ((if changed then rs1\<lparr>rs_versions := mput key nv (rs_versions rs1),
                                     rs_updated := List.insert key (rs_updated rs1)\<rparr>
                 else rs1),
                Inr (changed \<and> \<not> is_join_key (rs_protos rs) key)))"

fun touch_all :: "string \<Rightarrow> int \<Rightarrow> (string \<times> gval list) list \<Rightarrow> bool \<Rightarrow> run_state \<Rightarrow> run_state \<times> (goerr + bool)" where
  "touch_all what nv [] any rs = (rs, Inr any)"
| "touch_all what nv ((key, vs) # kvs) any rs =
     (case touch what nv key vs rs of
        (rs1, Inl e) \<Rightarrow> (rs1, Inl e)
      | (rs1, Inr b) \<Rightarrow> touch_all what nv kvs (any \<or> b) rs1)"

definition untouched_keys :: "string list \<Rightarrow> run_state \<Rightarrow> string list" where
  "untouched_keys written rs =
     filter (\<lambda>k. k \<notin> set written \<and> chan_is_available (channel_for rs k)) (mkeys (rs_channels rs))"

definition note_overwrites :: "task_writes list \<Rightarrow> run_state \<Rightarrow> run_state" where
  "note_overwrites ws rs =
     rs\<lparr>rs_delta_overwrite :=
          fold (\<lambda>w acc. fold (\<lambda>k acc.
                  if is_overwrite (mgetd (tw_update w) k VNil)
                     \<and> (case map_of (rs_channels rs) k of Some ch \<Rightarrow> is_delta ch | None \<Rightarrow> False)
                  then List.insert k acc else acc)
                (mkeys (tw_update w)) acc)
            ws (rs_delta_overwrite rs)\<rparr>"

definition apply_writes :: "task_writes list \<Rightarrow> run_state \<Rightarrow> run_state \<times> (goerr + bool)" where
  "apply_writes ws rs =
     (let rs1 = record_seen ws (rs\<lparr>rs_updated := []\<rparr>);
          nv = next_version (rs_versions rs1);
          (written, grouped) = group_writes ws
      in case touch_all ''applying writes to'' nv (map (\<lambda>k. (k, mgetd grouped k [])) written) False rs1 of
           (rs2, Inl e) \<Rightarrow> (rs2, Inl e)
         | (rs2, Inr any) \<Rightarrow>
             (case touch_all ''step-boundary update for'' nv
                     (map (\<lambda>k. (k, [])) (untouched_keys written rs2)) any rs2 of
                (rs3, Inl e) \<Rightarrow> (rs3, Inl e)
              | (rs3, Inr any') \<Rightarrow> (note_overwrites ws rs3, Inr any')))"

subsection \<open>Versions and grouping\<close>

lemma fold_bump_ge:
  fixes f :: "'a \<Rightarrow> int"
  shows "n \<le> fold (\<lambda>k n. if f k \<ge> n then f k + 1 else n) ks n"
proof (induction ks arbitrary: n)
  case (Cons k ks)
  have "n \<le> (if f k \<ge> n then f k + 1 else n)" by simp
  also have "\<dots> \<le> fold (\<lambda>k n. if f k \<ge> n then f k + 1 else n) ks (if f k \<ge> n then f k + 1 else n)"
    by (rule Cons.IH)
  finally show ?case by simp
qed simp

lemma fold_bump_greater:
  fixes f :: "'a \<Rightarrow> int"
  shows "k \<in> set ks \<Longrightarrow> f k < fold (\<lambda>k n. if f k \<ge> n then f k + 1 else n) ks n"
proof (induction ks arbitrary: n)
  case (Cons x xs)
  show ?case
  proof (cases "k = x")
    case True
    have "f x < (if f x \<ge> n then f x + 1 else n)" by simp
    also have "\<dots> \<le> fold (\<lambda>k n. if f k \<ge> n then f k + 1 else n) xs (if f x \<ge> n then f x + 1 else n)"
      by (rule fold_bump_ge)
    finally show ?thesis using True by simp
  next
    case False
    with Cons show ?thesis by simp
  qed
qed simp

lemma next_version_greater: "map_of versions k = Some v \<Longrightarrow> v < next_version versions"
proof -
  assume v: "map_of versions k = Some v"
  then have "k \<in> set (mkeys versions)" by (simp add: in_mkeys_iff del: set_mkeys)
  then have "mgetd versions k 0 < next_version versions"
    unfolding next_version_def by (rule fold_bump_greater)
  with v show ?thesis by (simp add: mgetd_def)
qed

lemma next_version_pos: "1 \<le> next_version versions"
  unfolding next_version_def by (rule fold_bump_ge)

text \<open>What the tasks wrote to one key, in task order.\<close>

definition writes_for :: "string \<Rightarrow> task_writes list \<Rightarrow> gval list" where
  "writes_for k ws = List.map_filter (\<lambda>w. map_of (tw_update w) k) ws"

lemma group_keys_fold:
  assumes "distinct ks" and "\<And>k. k \<in> set ks \<Longrightarrow> map_of upd k \<noteq> None"
    and "set (fst acc) = fst ` set (snd acc)" and "distinct (fst acc)"
  shows "let r = fold (group_step upd) ks acc in
      set (fst r) = set (fst acc) \<union> set ks \<and> distinct (fst r) \<and> set (fst r) = fst ` set (snd r) \<and>
      (\<forall>k. mgetd (snd r) k [] = mgetd (snd acc) k [] @ (if k \<in> set ks then [the (map_of upd k)] else []))"
  using assms
proof (induction ks arbitrary: acc)
  case (Cons k ks)
  obtain ord g where acc: "acc = (ord, g)" by (cases acc)
  let ?acc = "group_step upd k acc"
  have has: "mhas g k \<longleftrightarrow> k \<in> set ord" using Cons.prems(3) acc by (simp add: mhas_iff_in)
  have the: "mgetd upd k VNil = the (map_of upd k)"
    using Cons.prems(2) [of k] by (auto simp: mgetd_def)
  have ord: "set (fst ?acc) = insert k (set (fst acc))" "distinct (fst ?acc)"
    using Cons.prems(4) acc has by (auto simp: group_step_def)
  have dom: "set (fst ?acc) = fst ` set (snd ?acc)"
    using Cons.prems(3) acc has by (auto simp: group_step_def dom_update)
  have val: "mgetd (snd ?acc) j [] = mgetd (snd acc) j [] @ (if j = k then [the (map_of upd k)] else [])" for j
    using acc the by (simp add: group_step_def)
  have "let r = fold (group_step upd) ks ?acc in
      set (fst r) = set (fst ?acc) \<union> set ks \<and> distinct (fst r) \<and> set (fst r) = fst ` set (snd r) \<and>
      (\<forall>j. mgetd (snd r) j [] = mgetd (snd ?acc) j [] @ (if j \<in> set ks then [the (map_of upd j)] else []))"
    using Cons.prems(1,2) ord(2) dom by (intro Cons.IH) auto
  then show ?case
    using Cons.prems(1) ord(1) val by (auto simp: Let_def)
qed simp


lemma writes_for_simps [simp]:
  "writes_for k [] = []"
  "writes_for k (w # ws) = (case map_of (tw_update w) k of None \<Rightarrow> [] | Some v \<Rightarrow> [v]) @ writes_for k ws"
  by (simp_all add: writes_for_def map_filter_simps split: option.splits)

lemma group_writes_fold:
  assumes "set (fst acc) = fst ` set (snd acc)" and "distinct (fst acc)"
  shows "let r = fold (\<lambda>w acc. fold (group_step (tw_update w)) (mkeys (tw_update w)) acc) ws acc in
      set (fst r) = set (fst acc) \<union> {k. writes_for k ws \<noteq> []} \<and> distinct (fst r) \<and>
      (\<forall>k. mgetd (snd r) k [] = mgetd (snd acc) k [] @ writes_for k ws)"
  using assms
proof (induction ws arbitrary: acc)
  case (Cons w ws)
  let ?acc = "fold (group_step (tw_update w)) (mkeys (tw_update w)) acc"
  have "let r = ?acc in
      set (fst r) = set (fst acc) \<union> set (mkeys (tw_update w)) \<and> distinct (fst r) \<and> set (fst r) = fst ` set (snd r) \<and>
      (\<forall>k. mgetd (snd r) k [] = mgetd (snd acc) k [] @
         (if k \<in> set (mkeys (tw_update w)) then [the (map_of (tw_update w) k)] else []))"
    using Cons.prems by (intro group_keys_fold) (simp_all add: in_mkeys_iff del: set_mkeys)
  then have one: "set (fst ?acc) = set (fst acc) \<union> set (mkeys (tw_update w))" "distinct (fst ?acc)"
    "set (fst ?acc) = fst ` set (snd ?acc)"
    "mgetd (snd ?acc) k [] = mgetd (snd acc) k [] @
       (if k \<in> set (mkeys (tw_update w)) then [the (map_of (tw_update w) k)] else [])" for k
    unfolding Let_def by blast+
  have here: "(if k \<in> set (mkeys (tw_update w)) then [the (map_of (tw_update w) k)] else []) =
      (case map_of (tw_update w) k of None \<Rightarrow> [] | Some v \<Rightarrow> [v])" for k
    by (auto simp: in_mkeys_iff simp del: set_mkeys split: option.splits)
  have keys: "set (mkeys (tw_update w)) = {k. map_of (tw_update w) k \<noteq> None}"
    by (auto simp: in_mkeys_iff simp del: set_mkeys)
  from Cons.IH [OF one(3,2)] show ?case
    unfolding fold.simps comp_apply Let_def
    using one(1,4) here keys by (auto split: option.splits)
qed simp

lemma group_writes_props:
  assumes "group_writes ws = (written, grouped)"
  shows "set written = {k. writes_for k ws \<noteq> []}" and "distinct written"
    and "mgetd grouped k [] = writes_for k ws"
  using group_writes_fold [of "([], [])" ws] assms by (auto simp: group_writes_def Let_def)

subsection \<open>What a pass of channel updates does to each key\<close>

definition rs_inv :: "run_state \<Rightarrow> bool" where
  "rs_inv rs \<longleftrightarrow>
     (\<forall>k p. map_of (rs_protos rs) k = Some p \<longrightarrow> chan_inv p) \<and>
     (\<forall>k ch. map_of (rs_channels rs) k = Some ch \<longrightarrow> chan_inv ch)"

lemma chan_inv_CLast [simp]: "chan_inv (CLast c)"
  by (simp add: chan_inv_def)

lemma proto_for_inv: "rs_inv rs \<Longrightarrow> chan_inv (proto_for rs k)"
  by (auto simp: rs_inv_def proto_for_def mgetd_def split: option.splits)

lemma channel_for_inv: "rs_inv rs \<Longrightarrow> chan_inv (channel_for rs k)"
  by (auto simp: channel_for_def proto_for_inv chan.inv_fresh split: option.splits)
    (auto simp: rs_inv_def)

text \<open>
  Two states that differ only in channels, versions and updated set: the frame every channel
  update leaves alone.
\<close>

definition same_frame :: "run_state \<Rightarrow> run_state \<Rightarrow> bool" where
  "same_frame rs rs' \<longleftrightarrow> rs_protos rs' = rs_protos rs \<and> rs_seen rs' = rs_seen rs \<and> rs_step rs' = rs_step rs \<and>
     rs_delta_counters rs' = rs_delta_counters rs \<and> rs_delta_overwrite rs' = rs_delta_overwrite rs"

lemma same_frame_refl [simp]: "same_frame rs rs"
  by (simp add: same_frame_def)

lemma same_frame_trans: "same_frame a b \<Longrightarrow> same_frame b c \<Longrightarrow> same_frame a c"
  by (simp add: same_frame_def)

text \<open>The effect of one successful update on the key it touches, and that it touches no other.\<close>

definition touched :: "int \<Rightarrow> gval list \<Rightarrow> string \<Rightarrow> run_state \<Rightarrow> run_state \<Rightarrow> bool \<Rightarrow> bool" where
  "touched nv vs k rs rs' ch \<longleftrightarrow>
     map_of (rs_channels rs') k = Some (fst (chan_update (channel_for rs k) vs)) \<and>
     snd (chan_update (channel_for rs k) vs) = Inr ch \<and>
     map_of (rs_versions rs') k = (if ch then Some nv else map_of (rs_versions rs) k) \<and>
     (k \<in> set (rs_updated rs') \<longleftrightarrow> ch \<or> k \<in> set (rs_updated rs))"

definition same_key :: "string \<Rightarrow> run_state \<Rightarrow> run_state \<Rightarrow> bool" where
  "same_key k rs rs' \<longleftrightarrow>
     map_of (rs_channels rs') k = map_of (rs_channels rs) k \<and>
     map_of (rs_versions rs') k = map_of (rs_versions rs) k \<and>
     (k \<in> set (rs_updated rs') \<longleftrightarrow> k \<in> set (rs_updated rs))"

lemma same_key_channel_for:
  assumes "same_key k rs rs'" and "same_frame rs rs'"
  shows "channel_for rs' k = channel_for rs k"
proof -
  have "proto_for rs' k = proto_for rs k" using assms(2) by (simp add: proto_for_def same_frame_def)
  then show ?thesis using assms(1)
    by (cases "map_of (rs_channels rs) k") (simp_all add: channel_for_def same_key_def)
qed

lemma touch_cases:
  obtains (ok) ch where "snd (chan_update (channel_for rs key) vs) = Inr ch"
    "touch what nv key vs rs =
       (rs\<lparr>rs_channels := mput key (fst (chan_update (channel_for rs key) vs)) (rs_channels rs),
           rs_versions := (if ch then mput key nv (rs_versions rs) else rs_versions rs),
           rs_updated := (if ch then List.insert key (rs_updated rs) else rs_updated rs)\<rparr>,
        Inr (ch \<and> \<not> is_join_key (rs_protos rs) key))"
  | (failed) e where "snd (chan_update (channel_for rs key) vs) = Inl e"
    "touch what nv key vs rs =
       (rs\<lparr>rs_channels := mput key (fst (chan_update (channel_for rs key) vs)) (rs_channels rs)\<rparr>,
        Inl (EWrap (''graph: '' @ what @ '' key '' @ go_quote key) e))"
proof (cases "snd (chan_update (channel_for rs key) vs)")
  case (Inl e)
  then show ?thesis by (intro failed [of e]) (simp_all add: touch_def Let_def case_prod_beta)
next
  case (Inr ch)
  then show ?thesis by (intro ok [of ch]) (simp_all add: touch_def Let_def case_prod_beta)
qed

lemma touch_ok:
  assumes "touch what nv key vs rs = (rs', Inr b)"
  shows "same_frame rs rs'" and "\<exists>ch. touched nv vs key rs rs' ch \<and> b = (ch \<and> \<not> is_join_key (rs_protos rs) key)"
    and "k \<noteq> key \<Longrightarrow> same_key k rs rs'"
proof -
  obtain ch where *: "snd (chan_update (channel_for rs key) vs) = Inr ch"
    "rs' = rs\<lparr>rs_channels := mput key (fst (chan_update (channel_for rs key) vs)) (rs_channels rs),
           rs_versions := (if ch then mput key nv (rs_versions rs) else rs_versions rs),
           rs_updated := (if ch then List.insert key (rs_updated rs) else rs_updated rs)\<rparr>"
    "b = (ch \<and> \<not> is_join_key (rs_protos rs) key)"
  proof (cases rule: touch_cases [of rs key vs what nv])
    case (ok ch)
    show ?thesis by (rule that [of ch]) (use ok assms in \<open>simp_all only: prod.inject sum.inject\<close>)
  next
    case (failed e)
    with assms have False by simp
    then show ?thesis ..
  qed
  show "same_frame rs rs'" unfolding *(2) by (simp add: same_frame_def)
  show "\<exists>ch. touched nv vs key rs rs' ch \<and> b = (ch \<and> \<not> is_join_key (rs_protos rs) key)"
    using *(1,3) by (intro exI [of _ ch]) (simp add: touched_def *(2))
  show "k \<noteq> key \<Longrightarrow> same_key k rs rs'" unfolding *(2) by (simp add: same_key_def)
qed

lemma touch_inv:
  assumes "rs_inv rs"
  shows "rs_inv (fst (touch what nv key vs rs))"
proof -
  have "chan_inv (fst (chan_update (channel_for rs key) vs))"
    by (rule chan.inv_update [OF channel_for_inv [OF assms]])
  with assms show ?thesis
    by (cases rule: touch_cases [of rs key vs what nv]) (auto simp: rs_inv_def)
qed

lemma touch_all_inv:
  assumes "rs_inv rs"
  shows "rs_inv (fst (touch_all what nv kvs any rs))"
  using assms
proof (induction kvs arbitrary: rs any)
  case (Cons kv kvs)
  obtain key vs where kv: "kv = (key, vs)" by (cases kv)
  have "rs_inv (fst (touch what nv key vs rs))" using Cons.prems by (rule touch_inv)
  then show ?case using Cons.IH kv by (auto split: prod.splits sum.splits)
qed simp

lemma touch_all_ConsE:
  assumes "touch_all what nv ((key, vs) # kvs) any rs = (rs', Inr b)"
  obtains rs1 b1 where "touch what nv key vs rs = (rs1, Inr b1)"
    "touch_all what nv kvs (any \<or> b1) rs1 = (rs', Inr b)"
proof -
  obtain rs1 r where t: "touch what nv key vs rs = (rs1, r)" by (cases "touch what nv key vs rs")
  show thesis
  proof (cases r)
    case (Inl e)
    with assms t have False by simp
    then show thesis ..
  next
    case (Inr b1)
    with assms t show thesis by (intro that [of rs1 b1]) simp_all
  qed
qed

lemma touch_all_frame: "touch_all what nv kvs any rs = (rs', Inr b) \<Longrightarrow> same_frame rs rs'"
proof (induction kvs arbitrary: rs any)
  case (Cons kv kvs)
  obtain key vs where kv: "kv = (key, vs)" by (cases kv)
  show ?case
    by (rule touch_all_ConsE [OF Cons.prems [unfolded kv]])
      (rule same_frame_trans [OF touch_ok(1) Cons.IH])
qed simp

lemma same_key_refl [simp]: "same_key k rs rs"
  by (simp add: same_key_def)

lemma same_key_trans: "same_key k a b \<Longrightarrow> same_key k b c \<Longrightarrow> same_key k a c"
  by (simp add: same_key_def)

lemma touch_all_other:
  "touch_all what nv kvs any rs = (rs', Inr b) \<Longrightarrow> k \<notin> fst ` set kvs \<Longrightarrow> same_key k rs rs'"
proof (induction kvs arbitrary: rs any)
  case (Cons kv kvs)
  obtain key vs where kv: "kv = (key, vs)" by (cases kv)
  have k: "k \<noteq> key" "k \<notin> fst ` set kvs" using Cons.prems(2) kv by auto
  show ?case
    by (rule touch_all_ConsE [OF Cons.prems(1) [unfolded kv]])
      (rule same_key_trans [OF touch_ok(3) [OF _ k(1)] Cons.IH [OF _ k(2)]])
qed simp

lemma touched_same_key:
  assumes "touched nv vs k rs1 rs' ch" and "same_key k rs rs1" and "same_frame rs rs1"
  shows "touched nv vs k rs rs' ch"
  using assms(1,2) same_key_channel_for [OF assms(2,3)] by (simp add: touched_def same_key_def)

lemma same_key_touched:
  assumes "touched nv vs k rs rs1 ch" and "same_key k rs1 rs'"
  shows "touched nv vs k rs rs' ch"
  using assms by (simp add: touched_def same_key_def)

lemma touch_all_key:
  "touch_all what nv kvs any rs = (rs', Inr b) \<Longrightarrow> distinct (map fst kvs) \<Longrightarrow> (k, vs) \<in> set kvs \<Longrightarrow>
   \<exists>ch. touched nv vs k rs rs' ch"
proof (induction kvs arbitrary: rs any)
  case (Cons kv kvs)
  obtain key vs0 where kv: "kv = (key, vs0)" by (cases kv)
  obtain rs1 b1 where t: "touch what nv key vs0 rs = (rs1, Inr b1)"
    "touch_all what nv kvs (any \<or> b1) rs1 = (rs', Inr b)"
    by (rule touch_all_ConsE [OF Cons.prems(1) [unfolded kv]])
  have fresh: "key \<notin> fst ` set kvs" and dist: "distinct (map fst kvs)" using Cons.prems(2) kv by auto
  show ?case
  proof (cases "(k, vs) \<in> set kvs")
    case True
    then have "k \<noteq> key" using fresh by (auto intro: rev_image_eqI)
    with Cons.IH [OF t(2) dist True] show ?thesis
      using touched_same_key [OF _ touch_ok(3) [OF t(1)] touch_ok(1) [OF t(1)]] by blast
  next
    case False
    with Cons.prems(3) kv have "k = key" "vs = vs0" by auto
    with touch_ok(2) [OF t(1)] same_key_touched [OF _ touch_all_other [OF t(2) fresh]]
    show ?thesis by blast
  qed
qed simp

definition reports :: "run_state \<Rightarrow> string \<times> gval list \<Rightarrow> bool" where
  "reports rs kv \<longleftrightarrow> snd (chan_update (channel_for rs (fst kv)) (snd kv)) = Inr True \<and>
     \<not> is_join_key (rs_protos rs) (fst kv)"

lemma touch_all_result:
  "touch_all what nv kvs any rs = (rs', Inr b) \<Longrightarrow> distinct (map fst kvs) \<Longrightarrow>
   b \<longleftrightarrow> any \<or> (\<exists>kv \<in> set kvs. reports rs kv)"
proof (induction kvs arbitrary: rs any)
  case (Cons kv kvs)
  obtain key vs where kv: "kv = (key, vs)" by (cases kv)
  obtain rs1 b1 where t: "touch what nv key vs rs = (rs1, Inr b1)"
    "touch_all what nv kvs (any \<or> b1) rs1 = (rs', Inr b)"
    by (rule touch_all_ConsE [OF Cons.prems(1) [unfolded kv]])
  have fresh: "key \<notin> fst ` set kvs" and dist: "distinct (map fst kvs)" using Cons.prems(2) kv by auto
  have "reports rs1 x = reports rs x" if "x \<in> set kvs" for x
  proof -
    have "fst x \<noteq> key" using that fresh by (auto intro: rev_image_eqI)
    then have "channel_for rs1 (fst x) = channel_for rs (fst x)"
      by (rule same_key_channel_for [OF touch_ok(3) [OF t(1)] touch_ok(1) [OF t(1)]])
    moreover have "rs_protos rs1 = rs_protos rs" using touch_ok(1) [OF t(1)] by (simp add: same_frame_def)
    ultimately show ?thesis by (simp add: reports_def)
  qed
  moreover have "b1 \<longleftrightarrow> reports rs kv"
    using touch_ok(2) [OF t(1)] by (auto simp: touched_def reports_def kv)
  moreover have "b \<longleftrightarrow> (any \<or> b1) \<or> (\<exists>x \<in> set kvs. reports rs1 x)" by (rule Cons.IH [OF t(2) dist])
  ultimately show ?case by auto
qed simp

lemma touch_all_fails:
  "distinct (map fst kvs) \<Longrightarrow>
   (\<exists>e. snd (touch_all what nv kvs any rs) = Inl e) \<longleftrightarrow>
   (\<exists>kv \<in> set kvs. \<exists>e. snd (chan_update (channel_for rs (fst kv)) (snd kv)) = Inl e)"
proof (induction kvs arbitrary: rs any)
  case (Cons kv kvs)
  obtain key vs where kv: "kv = (key, vs)" by (cases kv)
  have fresh: "key \<notin> fst ` set kvs" and dist: "distinct (map fst kvs)" using Cons.prems kv by auto
  show ?case
  proof (cases rule: touch_cases [of rs key vs what nv])
    case (failed e)
    then show ?thesis by (simp add: kv)
  next
    case (ok ch)
    obtain rs1 b1 where t: "touch what nv key vs rs = (rs1, Inr b1)" using ok(2) by blast
    have same: "channel_for rs1 (fst x) = channel_for rs (fst x)" if "x \<in> set kvs" for x
    proof -
      have "fst x \<noteq> key" using that fresh by (auto intro: rev_image_eqI)
      then show ?thesis by (rule same_key_channel_for [OF touch_ok(3) [OF t] touch_ok(1) [OF t]])
    qed
    have "touch_all what nv (kv # kvs) any rs = touch_all what nv kvs (any \<or> b1) rs1"
      by (simp add: kv t)
    then show ?thesis using Cons.IH [OF dist, of "any \<or> b1" rs1] ok(1) same by (simp add: kv)
  qed
qed simp

subsection \<open>The commit\<close>

lemma record_seen_simps [simp]:
  "rs_protos (record_seen ws rs) = rs_protos rs" "rs_channels (record_seen ws rs) = rs_channels rs"
  "rs_versions (record_seen ws rs) = rs_versions rs" "rs_step (record_seen ws rs) = rs_step rs"
  "rs_delta_counters (record_seen ws rs) = rs_delta_counters rs"
  "rs_delta_overwrite (record_seen ws rs) = rs_delta_overwrite rs"
  "rs_updated (record_seen ws rs) = rs_updated rs"
  by (simp_all add: record_seen_def)

lemma note_overwrites_simps [simp]:
  "rs_protos (note_overwrites ws rs) = rs_protos rs" "rs_channels (note_overwrites ws rs) = rs_channels rs"
  "rs_versions (note_overwrites ws rs) = rs_versions rs" "rs_step (note_overwrites ws rs) = rs_step rs"
  "rs_delta_counters (note_overwrites ws rs) = rs_delta_counters rs"
  "rs_seen (note_overwrites ws rs) = rs_seen rs" "rs_updated (note_overwrites ws rs) = rs_updated rs"
  by (simp_all add: note_overwrites_def)

lemma channel_for_record_seen [simp]: "channel_for (record_seen ws (rs\<lparr>rs_updated := us\<rparr>)) k = channel_for rs k"
  by (simp add: channel_for_def proto_for_def split: option.splits)

text \<open>
  Which channels a commit updates, and with what: a written key gets its writes in task order, an
  unwritten key whose channel holds a value gets the empty step-boundary update.
\<close>

definition stepped :: "task_writes list \<Rightarrow> run_state \<Rightarrow> string \<Rightarrow> bool" where
  "stepped ws rs k \<longleftrightarrow> writes_for k ws \<noteq> [] \<or>
     (case map_of (rs_channels rs) k of None \<Rightarrow> False | Some ch \<Rightarrow> chan_is_available ch)"

definition step_channel :: "task_writes list \<Rightarrow> run_state \<Rightarrow> string \<Rightarrow> chan \<times> (goerr + bool)" where
  "step_channel ws rs k = chan_update (channel_for rs k) (writes_for k ws)"

lemma apply_writesE:
  assumes "apply_writes ws rs = (rs', Inr b)"
  obtains rs2 rs3 any written kvs where
    "touch_all ''applying writes to'' (next_version (rs_versions rs)) kvs False
       (record_seen ws (rs\<lparr>rs_updated := []\<rparr>)) = (rs2, Inr any)"
    "touch_all ''step-boundary update for'' (next_version (rs_versions rs))
       (map (\<lambda>k. (k, [])) (untouched_keys written rs2)) any rs2 = (rs3, Inr b)"
    "rs' = note_overwrites ws rs3" "distinct written" "set written = {k. writes_for k ws \<noteq> []}"
    "kvs = map (\<lambda>k. (k, writes_for k ws)) written"
proof -
  obtain written grouped where g: "group_writes ws = (written, grouped)" by (cases "group_writes ws")
  let ?kvs = "map (\<lambda>k. (k, mgetd grouped k [])) written"
  have kvs: "?kvs = map (\<lambda>k. (k, writes_for k ws)) written"
    using group_writes_props(3) [OF g] by simp
  obtain rs2 r2 where t2: "touch_all ''applying writes to'' (next_version (rs_versions rs)) ?kvs False
       (record_seen ws (rs\<lparr>rs_updated := []\<rparr>)) = (rs2, r2)"
    by (cases "touch_all ''applying writes to'' (next_version (rs_versions rs)) ?kvs False
       (record_seen ws (rs\<lparr>rs_updated := []\<rparr>))")
  show thesis
  proof (cases r2)
    case (Inl e)
    with assms t2 g have False by (simp add: apply_writes_def Let_def)
    then show thesis ..
  next
    case (Inr any)
    obtain rs3 r3 where t3: "touch_all ''step-boundary update for'' (next_version (rs_versions rs))
       (map (\<lambda>k. (k, [])) (untouched_keys written rs2)) any rs2 = (rs3, r3)"
      by (cases "touch_all ''step-boundary update for'' (next_version (rs_versions rs))
       (map (\<lambda>k. (k, [])) (untouched_keys written rs2)) any rs2")
    show thesis
    proof (cases r3)
      case (Inl e)
      with assms t2 t3 g Inr have False by (simp add: apply_writes_def Let_def)
      then show thesis ..
    next
      case (Inr b')
      with assms t2 t3 g \<open>r2 = Inr any\<close> have e: "rs' = note_overwrites ws rs3" "b' = b"
        by (simp_all add: apply_writes_def Let_def)
      show thesis
        by (rule that [of "map (\<lambda>k. (k, writes_for k ws)) written" rs2 any written rs3])
          (use t2 [unfolded kvs] t3 Inr \<open>r2 = Inr any\<close> e group_writes_props(1,2) [OF g] kvs in simp_all)
    qed
  qed
qed

lemma distinct_untouched [simp]: "distinct (untouched_keys written rs)"
  by (simp add: untouched_keys_def)

lemma in_untouched_iff:
  "k \<in> set (untouched_keys written rs) \<longleftrightarrow>
     k \<notin> set written \<and> (\<exists>ch. map_of (rs_channels rs) k = Some ch \<and> chan_is_available ch)"
  by (auto simp: untouched_keys_def channel_for_def in_mkeys_iff simp del: set_mkeys split: option.splits)

text \<open>Key by key: a successful commit updates exactly the stepped channels, each once.\<close>

lemma commit_key:
  assumes ok: "apply_writes ws rs = (rs', Inr b)"
  shows "if stepped ws rs k then touched (next_version (rs_versions rs)) (writes_for k ws) k
             (rs\<lparr>rs_updated := []\<rparr>) rs' (k \<in> set (rs_updated rs'))
         else same_key k (rs\<lparr>rs_updated := []\<rparr>) rs'"
proof -
  let ?nv = "next_version (rs_versions rs)" and ?rs0 = "rs\<lparr>rs_updated := []\<rparr>"
  let ?rs1 = "record_seen ws ?rs0"
  obtain rs2 rs3 any written kvs where
    t2: "touch_all ''applying writes to'' ?nv kvs False ?rs1 = (rs2, Inr any)"
    and t3: "touch_all ''step-boundary update for'' ?nv
       (map (\<lambda>k. (k, [])) (untouched_keys written rs2)) any rs2 = (rs3, Inr b)"
    and rs': "rs' = note_overwrites ws rs3" and dist: "distinct written"
    and set_w: "set written = {k. writes_for k ws \<noteq> []}" and kvs: "kvs = map (\<lambda>k. (k, writes_for k ws)) written"
    by (rule apply_writesE [OF ok])
  have dkvs: "distinct (map fst kvs)" "fst ` set kvs = set written"
    using dist by (simp_all add: kvs comp_def image_image)
  let ?un = "map (\<lambda>k. (k, [] :: gval list)) (untouched_keys written rs2)"
  have dun: "distinct (map fst ?un)" "fst ` set ?un = set (untouched_keys written rs2)"
    by (simp_all add: comp_def image_image)
  have lift: "touched nv vs k ?rs0 rs' ch" if "touched nv vs k ?rs1 rs3 ch" for nv vs ch
    using that by (simp add: touched_def rs' channel_for_def proto_for_def split: option.splits)
  have member: "touched nv vs k ?rs0 rs' ch \<Longrightarrow> touched nv vs k ?rs0 rs' (k \<in> set (rs_updated rs'))" for nv vs ch
    by (simp add: touched_def)
  show ?thesis
  proof (cases "k \<in> set written")
    case True
    then have w: "writes_for k ws \<noteq> []" and mem: "(k, writes_for k ws) \<in> set kvs"
      using set_w by (auto simp: kvs)
    from touch_all_key [OF t2 dkvs(1) mem] obtain ch where "touched ?nv (writes_for k ws) k ?rs1 rs2 ch" ..
    moreover have "same_key k rs2 rs3"
      using touch_all_other [OF t3] dun(2) True by (simp add: in_untouched_iff)
    ultimately have "touched ?nv (writes_for k ws) k ?rs1 rs3 ch" by (rule same_key_touched)
    from member [OF lift [OF this]] w show ?thesis by (simp add: stepped_def)
  next
    case False
    then have w: "writes_for k ws = []" using set_w by auto
    have sk: "same_key k ?rs1 rs2" using touch_all_other [OF t2] dkvs(2) False by simp
    show ?thesis
    proof (cases "k \<in> set (untouched_keys written rs2)")
      case True
      then have "(k, []) \<in> set ?un" by auto
      from touch_all_key [OF t3 dun(1) this] obtain ch where "touched ?nv [] k rs2 rs3 ch" ..
      from touched_same_key [OF this sk touch_all_frame [OF t2]]
      have "touched ?nv [] k ?rs1 rs3 ch" .
      from member [OF lift [OF this]] w True sk show ?thesis
        by (auto simp: stepped_def in_untouched_iff same_key_def)
    next
      case no: False
      have "same_key k rs2 rs3" using touch_all_other [OF t3] dun(2) no by simp
      with sk have "same_key k ?rs1 rs3" by (rule same_key_trans)
      moreover have "\<not> stepped ws rs k"
        using no False w sk by (auto simp: stepped_def in_untouched_iff same_key_def split: option.splits)
      ultimately show ?thesis by (simp add: same_key_def rs')
    qed
  qed
qed

lemma commit_frame:
  assumes "apply_writes ws rs = (rs', Inr b)"
  shows "rs_protos rs' = rs_protos rs" and "rs_step rs' = rs_step rs"
    and "rs_delta_counters rs' = rs_delta_counters rs"
    and "rs_seen rs' = rs_seen (record_seen ws rs)"
proof -
  obtain rs2 rs3 any written kvs where
    t2: "touch_all ''applying writes to'' (next_version (rs_versions rs)) kvs False
       (record_seen ws (rs\<lparr>rs_updated := []\<rparr>)) = (rs2, Inr any)"
    and t3: "touch_all ''step-boundary update for'' (next_version (rs_versions rs))
       (map (\<lambda>k. (k, [])) (untouched_keys written rs2)) any rs2 = (rs3, Inr b)"
    and rs': "rs' = note_overwrites ws rs3"
    by (rule apply_writesE [OF assms])
  have f: "same_frame (record_seen ws (rs\<lparr>rs_updated := []\<rparr>)) rs3"
    by (rule same_frame_trans [OF touch_all_frame [OF t2] touch_all_frame [OF t3]])
  show "rs_protos rs' = rs_protos rs" "rs_step rs' = rs_step rs"
    "rs_delta_counters rs' = rs_delta_counters rs" "rs_seen rs' = rs_seen (record_seen ws rs)"
    using f by (simp_all add: same_frame_def rs' record_seen_def)
qed

lemma commit_inv:
  assumes "rs_inv rs"
  shows "rs_inv (fst (apply_writes ws rs))"
proof -
  let ?nv = "next_version (rs_versions rs)"
  let ?rs1 = "record_seen ws (rs\<lparr>rs_updated := []\<rparr>)"
  obtain written grouped where g: "group_writes ws = (written, grouped)" by (cases "group_writes ws")
  let ?kvs = "map (\<lambda>k. (k, mgetd grouped k [])) written"
  have i1: "rs_inv ?rs1" using assms by (simp add: rs_inv_def)
  obtain rs2 r2 where t2: "touch_all ''applying writes to'' ?nv ?kvs False ?rs1 = (rs2, r2)"
    by (cases "touch_all ''applying writes to'' ?nv ?kvs False ?rs1")
  have i2: "rs_inv rs2"
    using touch_all_inv [OF i1, of "''applying writes to''" ?nv ?kvs False] unfolding t2 by simp
  show ?thesis
  proof (cases r2)
    case (Inl e)
    then show ?thesis using i2 t2 g by (simp add: apply_writes_def Let_def)
  next
    case (Inr any)
    let ?un = "map (\<lambda>k. (k, [] :: gval list)) (untouched_keys written rs2)"
    obtain rs3 r3 where t3: "touch_all ''step-boundary update for'' ?nv ?un any rs2 = (rs3, r3)"
      by (cases "touch_all ''step-boundary update for'' ?nv ?un any rs2")
    have i3: "rs_inv rs3"
      using touch_all_inv [OF i2, of "''step-boundary update for''" ?nv ?un any] unfolding t3 by simp
    then have "rs_inv (note_overwrites ws rs3)" by (simp add: rs_inv_def)
    with i3 t2 t3 g Inr show ?thesis by (cases r3) (simp_all add: apply_writes_def Let_def)
  qed
qed

lemma channel_for_updated [simp]: "channel_for (rs\<lparr>rs_updated := us\<rparr>) k = channel_for rs k"
  by (simp add: channel_for_def proto_for_def split: option.splits)

lemma commit_updated:
  assumes "apply_writes ws rs = (rs', Inr b)"
  shows "k \<in> set (rs_updated rs') \<longleftrightarrow> stepped ws rs k \<and> snd (step_channel ws rs k) = Inr True"
  using commit_key [OF assms, of k] by (auto simp: touched_def same_key_def step_channel_def split: if_splits)

lemma commit_reading:
  assumes "apply_writes ws rs = (rs', Inr b)" and "stepped ws rs k"
  shows "map_of (rs_channels rs') k = Some (fst (step_channel ws rs k))"
    and "\<exists>ch. snd (step_channel ws rs k) = Inr ch"
  using commit_key [OF assms(1), of k] assms(2) by (simp_all add: touched_def step_channel_def)

lemma commit_result:
  assumes ok: "apply_writes ws rs = (rs', Inr b)"
  shows "b \<longleftrightarrow> (\<exists>k \<in> set (rs_updated rs'). \<not> is_join_key (rs_protos rs) k)"
proof -
  let ?nv = "next_version (rs_versions rs)"
  let ?rs1 = "record_seen ws (rs\<lparr>rs_updated := []\<rparr>)"
  obtain rs2 rs3 any written kvs where
    t2: "touch_all ''applying writes to'' ?nv kvs False ?rs1 = (rs2, Inr any)"
    and t3: "touch_all ''step-boundary update for'' ?nv
       (map (\<lambda>k. (k, [])) (untouched_keys written rs2)) any rs2 = (rs3, Inr b)"
    and dist: "distinct written"
    and set_w: "set written = {k. writes_for k ws \<noteq> []}" and kvs: "kvs = map (\<lambda>k. (k, writes_for k ws)) written"
    by (rule apply_writesE [OF ok])
  let ?un = "map (\<lambda>k. (k, [] :: gval list)) (untouched_keys written rs2)"
  have any: "any \<longleftrightarrow> (\<exists>k \<in> set written. reports ?rs1 (k, writes_for k ws))"
    using touch_all_result [OF t2] dist by (simp add: kvs comp_def)
  have b: "b \<longleftrightarrow> any \<or> (\<exists>k \<in> set (untouched_keys written rs2). reports rs2 (k, []))"
    using touch_all_result [OF t3] by (simp add: comp_def)
  have frame: "rs_protos rs2 = rs_protos rs" using touch_all_frame [OF t2] by (simp add: same_frame_def)
  have two: "channel_for rs2 k = channel_for rs k" "map_of (rs_channels rs2) k = map_of (rs_channels rs) k"
    if "k \<notin> set written" for k
  proof -
    have "same_key k ?rs1 rs2" using touch_all_other [OF t2] that by (simp add: kvs image_image)
    then show "channel_for rs2 k = channel_for rs k" "map_of (rs_channels rs2) k = map_of (rs_channels rs) k"
      using same_key_channel_for [OF _ touch_all_frame [OF t2]] by (simp_all add: same_key_def)
  qed
  have r1: "reports ?rs1 (k, writes_for k ws) \<longleftrightarrow>
      snd (step_channel ws rs k) = Inr True \<and> \<not> is_join_key (rs_protos rs) k" for k
    by (simp add: reports_def step_channel_def)
  have r2: "reports rs2 (k, []) \<longleftrightarrow>
      snd (step_channel ws rs k) = Inr True \<and> \<not> is_join_key (rs_protos rs) k" if "k \<notin> set written" for k
  proof -
    from that set_w have "writes_for k ws = []" by auto
    then show ?thesis by (simp add: reports_def step_channel_def two [OF that] frame)
  qed
  have st: "stepped ws rs k \<longleftrightarrow> k \<in> set written \<or> k \<in> set (untouched_keys written rs2)" for k
    using set_w two(2) by (auto simp: stepped_def in_untouched_iff split: option.splits)
  have nw: "k \<notin> set written" if "k \<in> set (untouched_keys written rs2)" for k
    using that by (simp add: in_untouched_iff)
  have "b \<longleftrightarrow> (\<exists>k. stepped ws rs k \<and> snd (step_channel ws rs k) = Inr True \<and> \<not> is_join_key (rs_protos rs) k)"
    unfolding b any st using r1 r2 nw by blast
  then show ?thesis using commit_updated [OF ok] by blast
qed

lemma commit_fails:
  assumes inv: "rs_inv rs"
  shows "(\<exists>e. snd (apply_writes ws rs) = Inl e) \<longleftrightarrow>
    (\<exists>k. writes_for k ws \<noteq> [] \<and> (\<exists>e. snd (step_channel ws rs k) = Inl e))"
proof -
  let ?nv = "next_version (rs_versions rs)"
  let ?rs1 = "record_seen ws (rs\<lparr>rs_updated := []\<rparr>)"
  obtain written grouped where g: "group_writes ws = (written, grouped)" by (cases "group_writes ws")
  note gp = group_writes_props [OF g]
  let ?kvs = "map (\<lambda>k. (k, writes_for k ws)) written"
  obtain rs2 r2 where t2: "touch_all ''applying writes to'' ?nv ?kvs False ?rs1 = (rs2, r2)"
    by (cases "touch_all ''applying writes to'' ?nv ?kvs False ?rs1")
  have first: "(\<exists>e. r2 = Inl e) \<longleftrightarrow>
      (\<exists>k. writes_for k ws \<noteq> [] \<and> (\<exists>e. snd (step_channel ws rs k) = Inl e))"
    using touch_all_fails [of ?kvs "''applying writes to''" ?nv False ?rs1] gp(1,2)
    by (auto simp: t2 comp_def step_channel_def)
  show ?thesis
  proof (cases r2)
    case (Inl e)
    then have "\<exists>e. snd (apply_writes ws rs) = Inl e"
      using t2 g gp(3) by (simp add: apply_writes_def Let_def)
    then show ?thesis using first Inl by blast
  next
    case (Inr any)
    let ?un = "map (\<lambda>k. (k, [] :: gval list)) (untouched_keys written rs2)"
    have "rs_inv ?rs1" using inv by (simp add: rs_inv_def)
    from touch_all_inv [OF this, of "''applying writes to''" ?nv ?kvs False]
    have i2: "rs_inv rs2" unfolding t2 by simp
    have ok: "\<exists>c. snd (chan_update (channel_for rs2 k) []) = Inr c" for k
      by (rule chan.boundary_ok [OF channel_for_inv [OF i2]])
    obtain rs3 r3 where t3: "touch_all ''step-boundary update for'' ?nv ?un any rs2 = (rs3, r3)"
      by (cases "touch_all ''step-boundary update for'' ?nv ?un any rs2")
    have "\<not> (\<exists>kv \<in> set ?un. \<exists>e. snd (chan_update (channel_for rs2 (fst kv)) (snd kv)) = Inl e)"
      using ok by (auto, metis Inl_Inr_False)
    then have "\<nexists>e. r3 = Inl e"
      using touch_all_fails [of ?un "''step-boundary update for''" ?nv any rs2] by (simp add: t3 comp_def)
    then obtain b where "r3 = Inr b" by (cases r3) auto
    then have "snd (apply_writes ws rs) = Inr b"
      using t2 t3 g gp(3) Inr by (simp add: apply_writes_def Let_def)
    then show ?thesis using first Inr by simp
  qed
qed

lemma seen_fold:
  "map_of (mgetd (fold (\<lambda>w seen. mput (tw_node w) (mcopy (mgetd seen (tw_node w) []) vers) seen) ws seen) n []) =
     map_of (mgetd seen n []) ++ (if n \<in> tw_node ` set ws then map_of vers else Map.empty)"
proof (induction ws arbitrary: seen)
  case (Cons w ws)
  have "m ++ map_of vers ++ map_of vers = m ++ map_of vers" for m
    by (rule ext) (simp add: map_add_def split: option.splits)
  then show ?case by (simp add: Cons.IH)
qed simp

lemma commit_seen:
  assumes "apply_writes ws rs = (rs', Inr b)"
  shows "map_of (mgetd (rs_seen rs') n []) =
    map_of (mgetd (rs_seen rs) n []) ++ (if n \<in> tw_node ` set ws then map_of (rs_versions rs) else Map.empty)"
  unfolding commit_frame(4) [OF assms] record_seen_def by (simp add: seen_fold)

subsection \<open>Restoring a run from its channel values\<close>

text \<open>
  A channel restores as its prototype does: updates leave the configuration (type, reducer, group
  names) alone. \<open>rs_kinds\<close> says so for a run state; commits keep it.
\<close>

definition same_kind :: "chan \<Rightarrow> chan \<Rightarrow> bool" where
  "same_kind p c \<longleftrightarrow> (\<forall>v. chan_from_checkpoint c v = chan_from_checkpoint p v)"

definition rs_kinds :: "run_state \<Rightarrow> bool" where
  "rs_kinds rs \<longleftrightarrow> (\<forall>k ch. map_of (rs_channels rs) k = Some ch \<longrightarrow> same_kind (proto_for rs k) ch)"

lemma bo_loop_op [simp]: "bo_op (fst (bo_loop seen c vs)) = bo_op c"
  by (induction seen c vs rule: bo_loop.induct) (simp_all split: option.splits sum.splits)

lemma same_kind_update: "same_kind c (fst (chan_update c vs))"
proof (cases c)
  case (CLast x)
  then show ?thesis by (simp add: same_kind_def chan_defs lv_from_checkpoint_def)
next
  case (CAny x)
  then show ?thesis by (simp add: same_kind_def chan_defs av_from_checkpoint_def)
next
  case (CEphemeral x)
  then show ?thesis
    by (simp add: same_kind_def chan_defs ep_from_checkpoint_def ep_update_def split: if_splits)
next
  case (CUntracked x)
  then show ?thesis
    by (simp add: same_kind_def chan_defs uv_from_checkpoint_def uv_update_def split: if_splits)
next
  case (CTopic x)
  then show ?thesis by (simp add: same_kind_def chan_defs tp_from_checkpoint_def tp_update_def Let_def)
next
  case (CBinary x)
  then show ?thesis by (simp add: same_kind_def chan_defs bo_from_checkpoint_def bo_update_def Let_def)
next
  case (CAfterFinish x)
  then show ?thesis by (simp add: same_kind_def chan_defs lf_from_checkpoint_def)
next
  case (CBarrier x)
  have "ba_names (fst (ba_loop b d ws)) = ba_names d" for b d ws
    by (induction b d ws rule: ba_loop.induct) (simp_all split: option.splits)
  then show ?thesis
    using CBarrier by (simp add: same_kind_def chan_defs ba_from_checkpoint_def ba_update_def)
next
  case (CDelta x)
  then show ?thesis
    by (simp add: same_kind_def chan_defs dc_from_checkpoint_def dc_update_def Let_def
        split: option.splits sum.splits)
qed

lemma same_kind_trans: "same_kind a b \<Longrightarrow> same_kind b c \<Longrightarrow> same_kind a c"
  by (simp add: same_kind_def)

lemma same_kind_from_checkpoint: "same_kind c (chan_from_checkpoint c v)"
proof (cases c)
  case (CTopic x)
  then show ?thesis by (simp add: same_kind_def chan_defs tp_from_checkpoint_def new_topic_def)
next
  case (CBinary x)
  then show ?thesis
    by (simp add: same_kind_def chan_defs bo_from_checkpoint_def new_binary_operator_def Let_def)
next
  case (CDelta x)
  then show ?thesis
    by (simp add: same_kind_def chan_defs dc_from_checkpoint_def Let_def split: option.splits)
qed (simp_all add: same_kind_def chan_defs lv_from_checkpoint_def av_from_checkpoint_def
      ep_from_checkpoint_def uv_from_checkpoint_def new_ephemeral_def new_untracked_value_def
      lf_from_checkpoint_def ba_from_checkpoint_def)

lemma channel_for_kind: "rs_kinds rs \<Longrightarrow> same_kind (proto_for rs k) (channel_for rs k)"
  by (cases "map_of (rs_channels rs) k")
    (simp_all add: channel_for_def rs_kinds_def same_kind_from_checkpoint)

lemma commit_kinds:
  assumes "rs_kinds rs" and "apply_writes ws rs = (rs', Inr b)"
  shows "rs_kinds rs'"
  unfolding rs_kinds_def
proof (intro allI impI)
  fix k ch
  assume ch: "map_of (rs_channels rs') k = Some ch"
  have proto: "proto_for rs' k = proto_for rs k"
    using commit_frame(1) [OF assms(2)] by (simp add: proto_for_def)
  show "same_kind (proto_for rs' k) ch"
  proof (cases "stepped ws rs k")
    case True
    with commit_reading(1) [OF assms(2) True] ch have "ch = fst (step_channel ws rs k)" by simp
    then show ?thesis
      unfolding proto step_channel_def
      using same_kind_trans [OF channel_for_kind [OF assms(1)] same_kind_update] by simp
  next
    case False
    with commit_key [OF assms(2), of k] ch have "map_of (rs_channels rs) k = Some ch"
      by (simp add: same_key_def)
    with assms(1) show ?thesis by (simp add: rs_kinds_def proto)
  qed
qed

lemma rs_inv_new: "\<forall>k p. map_of protos k = Some p \<longrightarrow> chan_inv p \<Longrightarrow> rs_inv (new_run_state protos)"
  by (simp add: rs_inv_def new_run_state_def)

lemma rs_kinds_new [simp]: "rs_kinds (new_run_state protos)"
  by (simp add: rs_kinds_def new_run_state_def)

subsection \<open>Properties of the commit\<close>

text \<open>
  C7: a committed superstep leaves, in every channel, exactly one update: the writes of all tasks
  to that key in task order, the empty step-boundary update for an available channel nobody wrote,
  and nothing for the others. The returned flag is true exactly when some channel other than a
  join barrier reported a change.
\<close>

theorem commit_updates_each_channel_once:
  assumes "apply_writes ws rs = (rs', Inr b)"
  shows "(map_of (rs_channels rs') k =
      (if stepped ws rs k then Some (fst (step_channel ws rs k)) else map_of (rs_channels rs) k))
    \<and> (k \<in> set (rs_updated rs') \<longleftrightarrow> stepped ws rs k \<and> snd (step_channel ws rs k) = Inr True)
    \<and> (b \<longleftrightarrow> (\<exists>j \<in> set (rs_updated rs'). \<not> is_join_key (rs_protos rs) j))"
proof (rule conjI [OF _ conjI])
  show "map_of (rs_channels rs') k =
      (if stepped ws rs k then Some (fst (step_channel ws rs k)) else map_of (rs_channels rs) k)"
    using commit_reading(1) [OF assms, of k] commit_key [OF assms, of k]
    by (cases "stepped ws rs k") (simp_all add: same_key_def)
qed (rule commit_updated [OF assms], rule commit_result [OF assms])

definition demo_protos :: "chan gomap" where
  "demo_protos = [(''log'', CTopic (new_topic False)), (''x'', CLast new_last_value)]"

definition demo_writes :: "task_writes list" where
  "demo_writes = [\<lparr>tw_node = ''a'', tw_update = [(''x'', VInt 1)]\<rparr>,
                  \<lparr>tw_node = ''b'', tw_update = [(''log'', VInt 2)]\<rparr>]"

definition demo_rs :: run_state where
  "demo_rs = fst (apply_writes demo_writes (new_run_state demo_protos))"

lemma demo_commit: "apply_writes demo_writes (new_run_state demo_protos) = (demo_rs, Inr True)"
proof (rule prod_eqI)
  show "snd (apply_writes demo_writes (new_run_state demo_protos)) = snd (demo_rs, Inr True)"
    by code_simp
qed (simp add: demo_rs_def)

lemma demo_inv: "rs_inv (new_run_state demo_protos)"
  by (rule rs_inv_new) (simp add: demo_protos_def chan_inv_def)

lemma commit_updates_each_channel_once_witness:
  "map_option chan_get (map_of (rs_channels demo_rs) ''x'') = Some (Inr (VInt 1))"
proof -
  have "stepped demo_writes (new_run_state demo_protos) ''x''" by code_simp
  moreover have "chan_get (fst (step_channel demo_writes (new_run_state demo_protos) ''x'')) = Inr (VInt 1)"
    by code_simp
  ultimately show ?thesis using commit_updates_each_channel_once [OF demo_commit, of "''x''", THEN conjunct1] by simp
qed

text \<open>
  C8: versions only move on a change. A channel that reported a change gets the commit's one new
  version, which lies strictly above every version there was; every other channel keeps its version
  and reads as before. What the node of each task has seen of the versions becomes what they were before the commit.
\<close>

theorem versions_move_exactly_on_change:
  assumes "apply_writes ws rs = (rs', Inr b)" and "rs_inv rs"
  shows "(map_of (rs_versions rs') k =
      (if k \<in> set (rs_updated rs') then Some (next_version (rs_versions rs)) else map_of (rs_versions rs) k))
    \<and> (map_of (rs_versions rs) j = Some v \<longrightarrow> v < next_version (rs_versions rs))
    \<and> (k \<notin> set (rs_updated rs') \<longrightarrow> chan_get (channel_for rs' k) = chan_get (channel_for rs k))
    \<and> (map_of (mgetd (rs_seen rs') n []) = map_of (mgetd (rs_seen rs) n []) ++
      (if n \<in> tw_node ` set ws then map_of (rs_versions rs) else Map.empty))"
proof (intro conjI impI)
  note key = commit_key [OF assms(1), of k]
  show "map_of (rs_versions rs') k =
      (if k \<in> set (rs_updated rs') then Some (next_version (rs_versions rs)) else map_of (rs_versions rs) k)"
    using key by (auto simp: touched_def same_key_def split: if_splits)
  show "chan_get (channel_for rs' k) = chan_get (channel_for rs k)" if quiet: "k \<notin> set (rs_updated rs')"
  proof (cases "stepped ws rs k")
    case True
    with key quiet have "snd (step_channel ws rs k) = Inr False" by (simp add: touched_def step_channel_def)
    then have "chan_get (fst (step_channel ws rs k)) = chan_get (channel_for rs k)"
      unfolding step_channel_def by (rule chan.quiet [OF channel_for_inv [OF assms(2)]])
    moreover have "channel_for rs' k = fst (step_channel ws rs k)"
      using commit_reading(1) [OF assms(1) True] by (simp add: channel_for_def)
    ultimately show ?thesis by simp
  next
    case False
    with key have "map_of (rs_channels rs') k = map_of (rs_channels rs) k" by (simp add: same_key_def)
    moreover have "proto_for rs' k = proto_for rs k"
      using commit_frame(1) [OF assms(1)] by (simp add: proto_for_def)
    ultimately have "channel_for rs' k = channel_for rs k" 
      by (cases "map_of (rs_channels rs) k") (simp_all add: channel_for_def)
    then show ?thesis by simp
  qed
qed (rule next_version_greater, assumption, rule commit_seen [OF assms(1)])

text \<open>
  A superstep fails to commit exactly when some channel refuses the writes the tasks made to
  it; the step-boundary updates never fail, so the second error branch of the code is unreachable.
\<close>

theorem commit_fails_iff_writes_refused:
  assumes "rs_inv rs"
  shows "(\<exists>e. snd (apply_writes ws rs) = Inl e) \<longleftrightarrow>
    (\<exists>k. writes_for k ws \<noteq> [] \<and> (\<exists>e. snd (chan_update (channel_for rs k) (writes_for k ws)) = Inl e))"
  using commit_fails [OF assms, of ws] by (simp add: step_channel_def)

text \<open>
  Commits preserve the invariant of the run state, every channel stays of its prototype's
  kind, and the run's configuration is untouched, also when the commit fails for the invariant.
\<close>

theorem commit_preserves_run_state:
  assumes "rs_inv rs" and "rs_kinds rs"
  shows "(rs_inv (fst (apply_writes ws rs)))
    \<and> (apply_writes ws rs = (rs', Inr b) \<longrightarrow> rs_kinds rs' \<and> rs_protos rs' = rs_protos rs \<and>
      rs_step rs' = rs_step rs \<and> rs_delta_counters rs' = rs_delta_counters rs)"
  using commit_inv [OF assms(1), of ws] commit_kinds [OF assms(2)] commit_frame by blast

text \<open>
  What the values of a checkpoint restore: a delta channel reads back when it was snapshotted and reads
  empty otherwise, every other channel reads back unless it saved nothing.
\<close>

lemma restored_channel:
  assumes "rs_inv rs" and "rs_kinds rs" and "k \<in> fst ` set (rs_channels rs)"
    and "\<forall>v. chan_checkpoint (channel_for rs k) = Some v \<longrightarrow> storable v" and "k \<in> set snaps \<longrightarrow> is_delta (channel_for rs k)"
    and rs'_def: "rs' = restore_state (checkpoint_values snaps rs) vers seen (new_run_state (rs_protos rs))"
  shows "chan_get (channel_for rs' k) =
    (if is_delta (channel_for rs k) \<and> k \<notin> set snaps then Inl EEmptyChannel
     else if \<not> is_delta (channel_for rs k) \<and> chan_checkpoint (channel_for rs k) = None then Inl EEmptyChannel
     else chan_get (channel_for rs k))"
proof -
  let ?ch = "channel_for rs k"
  have protos: "proto_for rs' = proto_for rs"
    by (rule ext) (simp add: rs'_def proto_for_def restore_state_def new_run_state_def)
  have p: "proto_for (new_run_state (rs_protos rs)) = proto_for rs"
    by (rule ext) (simp add: proto_for_def new_run_state_def)
  have inv: "chan_inv ?ch" by (rule channel_for_inv [OF assms(1)])
  have kind: "chan_from_checkpoint (proto_for rs k) v = chan_from_checkpoint ?ch v" for v
    using channel_for_kind [OF assms(2)] by (simp add: same_kind_def)
  let ?stored = "if k \<in> set snaps
      then (case as_delta ?ch of Some d \<Rightarrow> (if dc_is_available d then dc_snapshot_blob d else None) | None \<Rightarrow> None)
      else if is_delta ?ch then None else chan_checkpoint ?ch"
  have vals: "map_of (checkpoint_values snaps rs) k = ?stored"
    using assms(3) by (simp add: checkpoint_values_def)
  have read: "chan_get (channel_for rs' k) = (case ?stored of None \<Rightarrow> Inl EEmptyChannel | Some v \<Rightarrow> chan_get (chan_from_checkpoint ?ch v))"
  proof (cases ?stored)
    case None
    with vals have "map_of (rs_channels rs') k = None"
      by (simp only:) (simp add: rs'_def restore_state_def in_mkeys_iff del: set_mkeys)
    then have "channel_for rs' k = chan_from_checkpoint ?ch VNil"
      by (simp add: channel_for_def [of rs'] protos kind)
    then show ?thesis by (simp only: None option.case chan.read_fresh [OF inv])
  next
    case (Some v)
    with vals have "map_of (rs_channels rs') k = Some (chan_from_checkpoint (proto_for rs k) v)"
      by (simp only:) (simp add: rs'_def restore_state_def p in_mkeys_iff del: set_mkeys)
    then have "channel_for rs' k = chan_from_checkpoint ?ch v"
      by (simp add: channel_for_def [of rs'] kind)
    then show ?thesis by (simp only: Some option.case)
  qed
  show ?thesis
  proof (cases "as_delta ?ch")
    case (Some d)
    then have ch: "?ch = CDelta d" "is_delta ?ch" by (simp_all add: as_delta_iff is_delta_def)
    have "chan_get (CDelta d) = dc_get d" "chan_get (chan_from_checkpoint (CDelta d) b) = dc_get (dc_from_checkpoint d b)" for b
      by (simp_all add: chan_get_def chan_from_checkpoint_def)
    moreover have "\<not> dc_is_available d \<Longrightarrow> dc_get d = Inl EEmptyChannel" by (simp add: dc_defs)
    moreover have "dc_is_available d \<Longrightarrow> \<exists>b. dc_snapshot_blob d = Some b" by (simp add: dc_snapshot_blob_def dc_defs)
    ultimately show ?thesis using read Some ch by (auto simp: dc_snapshot_roundtrip split: if_splits)
  next
    case None
    then have "\<not> is_delta ?ch" by (simp add: is_delta_def)
    with assms(5) have "?stored = chan_checkpoint ?ch" "\<not> is_delta ?ch" by auto
    with read chan.restore [OF inv] assms(4) show ?thesis by (auto split: option.splits)
  qed
qed

lemma versions_move_exactly_on_change_witness:
  "map_of (rs_versions demo_rs) ''x'' = Some 1 \<and> map_of (rs_versions demo_rs) ''other'' = None"
proof -
  have "''x'' \<in> set (rs_updated demo_rs)" "''other'' \<notin> set (rs_updated demo_rs)"
    "next_version (rs_versions (new_run_state demo_protos)) = 1"
    "map_of (rs_versions (new_run_state demo_protos)) ''other'' = None" by code_simp+
  then show ?thesis
    using versions_move_exactly_on_change [OF demo_commit demo_inv, of "''x''", THEN conjunct1]
      versions_move_exactly_on_change [OF demo_commit demo_inv, of "''other''", THEN conjunct1] by simp
qed

lemma commit_fails_iff_writes_refused_witness:
  "\<exists>e. snd (apply_writes (replicate 2 \<lparr>tw_node = ''a'', tw_update = [(''x'', VInt 1)]\<rparr>)
     (new_run_state demo_protos)) = Inl e"
proof -
  let ?ws = "replicate 2 \<lparr>tw_node = ''a'', tw_update = [(''x'', VInt 1)]\<rparr>"
  have "snd (chan_update (channel_for (new_run_state demo_protos) ''x'') (writes_for ''x'' ?ws)) =
     Inl (EInvalidUpdate ''LastValue'' ''expected at most 1 value per superstep, got 2'')"
    "writes_for ''x'' ?ws \<noteq> []" by code_simp+
  then show ?thesis
    using commit_fails_iff_writes_refused [OF demo_inv, of ?ws] by blast
qed

lemma commit_preserves_run_state_witness: "rs_inv demo_rs \<and> rs_kinds demo_rs"
  using commit_preserves_run_state [OF demo_inv rs_kinds_new, of demo_writes, THEN conjunct1]
    commit_preserves_run_state [OF demo_inv rs_kinds_new, THEN conjunct2, THEN mp, OF demo_commit] demo_commit by simp

end
