(* ===== verification/Checkpoint.thy ===== *)
theory Checkpoint
  imports GoValues
begin

section \<open>Checkpoints: the data, metadata filters and IDs (langgraph/checkpoint)\<close>

text \<open>
  The records of checkpoint.go, the containment test of filter.go that \<open>List\<close> filters with, and the
  ID format of id.go. Times are milliseconds as integers. A nil map and an empty one are told
  apart only where the code does: in \<open>Metadata.Parents\<close> and \<open>PlannedTask.Arg\<close>.
\<close>

record config =
  cfg_thread :: string
  cfg_ns :: string
  cfg_id :: string

record planned_task =
  pt_id :: string
  pt_node :: string
  pt_arg :: "gstate option"

record checkpoint =
  cp_v :: int
  cp_id :: string
  cp_ts :: int
  cp_values :: gstate
  cp_versions :: "int gomap"
  cp_seen :: "int gomap gomap"
  cp_next :: "planned_task list"

record metadata =
  md_source :: string
  md_step :: int
  md_run_id :: string
  md_parents :: "string gomap option"
  md_counters :: "(int \<times> int) gomap"

record cp_write =
  w_task :: string
  w_path :: string
  w_channel :: string
  w_value :: gval

record cp_tuple =
  tup_config :: config
  tup_checkpoint :: checkpoint
  tup_metadata :: metadata
  tup_parent :: "config option"
  tup_writes :: "cp_write list"

record list_options =
  opt_before :: "config option"
  opt_filter :: gstate
  opt_limit :: int

datatype prune_strategy = PruneKeepLatest | PruneDeleteAll | PruneUnknown string

text \<open>The reserved channels and the synthetic task of input writes.\<close>

definition reserved_interrupt :: string where "reserved_interrupt = ''__interrupt__''"
definition reserved_tasks :: string where "reserved_tasks = ''__tasks__''"
definition reserved_error :: string where "reserved_error = ''__error__''"
definition reserved_return :: string where "reserved_return = ''__return__''"
definition reserved_resume :: string where "reserved_resume = ''__resume__''"
definition reserved_fn_consumed :: string where "reserved_fn_consumed = ''__fn_consumed__''"
definition null_task_id :: string where "null_task_id = ''00000000-0000-0000-0000-000000000000''"

lemmas reserved_defs = reserved_interrupt_def reserved_tasks_def reserved_error_def
  reserved_return_def reserved_resume_def reserved_fn_consumed_def

subsection \<open>Metadata filters\<close>

text \<open>
  \<open>normalizeJSON\<close> turns slices and maps of any element type into \<open>[]any\<close> and \<open>map[string]any\<close> and
  numbers into float64; on the integers of the model that is the identity (float64 is exact up to
  2^53, far above a step). Values that are not JSON data are left alone: no metadata document
  holds one.
\<close>

fun normalize_json :: "gval \<Rightarrow> gval" where
  "normalize_json (VList vs) = VList (map normalize_json vs)"
| "normalize_json (VMap m) = VMap (map (\<lambda>(k, v). (k, normalize_json v)) m)"
| "normalize_json (VStrs xs) = VList (map VStr xs)"
| "normalize_json v = v"

lemma size_entry: "(k, v) \<in> set m \<Longrightarrow> size v \<le> size_list (size_prod (\<lambda>_. 0) size) m"
  by (induction m) auto

function json_contains :: "gval \<Rightarrow> gval \<Rightarrow> bool" where
  "json_contains doc flt =
     (case flt of
        VMap fm \<Rightarrow>
          (case doc of
             VMap dm \<Rightarrow> list_all (\<lambda>(k, v). case map_of dm k of None \<Rightarrow> False | Some d \<Rightarrow> json_contains d v) fm
           | _ \<Rightarrow> False)
      | VList fs \<Rightarrow>
          (case doc of
             VList ds \<Rightarrow> list_all (\<lambda>item. list_ex (\<lambda>d. json_contains d item) ds) fs
           | _ \<Rightarrow> False)
      | _ \<Rightarrow> doc = flt)"
  by pat_completeness auto

termination
  by (relation "measure (\<lambda>(doc, flt). size flt)")
    (auto dest: size_entry intro!: le_imp_less_Suc size_list_estimation')

declare json_contains.simps [simp del]

text \<open>The metadata document: \<open>parents\<close> appears when the map is not nil, \<open>run_id\<close> when non-empty.\<close>

definition metadata_doc :: "metadata \<Rightarrow> gval" where
  "metadata_doc md = VMap
     ([(''source'', VStr (md_source md)), (''step'', VInt (md_step md))]
      @ (case md_parents md of None \<Rightarrow> [] | Some ps \<Rightarrow> [(''parents'', VMap (map (\<lambda>(k, v). (k, VStr v)) ps))])
      @ (if md_run_id md \<noteq> [] then [(''run_id'', VStr (md_run_id md))] else []))"

definition metadata_matches_filter :: "metadata \<Rightarrow> gstate \<Rightarrow> bool" where
  "metadata_matches_filter md flt \<longleftrightarrow>
     flt = [] \<or> json_contains (normalize_json (metadata_doc md)) (normalize_json (VMap flt))"

lemma case_option_False_iff: "(case m of None \<Rightarrow> False | Some d \<Rightarrow> P d) \<longleftrightarrow> (\<exists>d. m = Some d \<and> P d)"
  by (cases m) simp_all

lemma json_contains_VMap:
  "json_contains doc (VMap fm) \<longleftrightarrow>
     (\<exists>dm. doc = VMap dm \<and> (\<forall>k v. (k, v) \<in> set fm \<longrightarrow> (\<exists>d. map_of dm k = Some d \<and> json_contains d v)))"
  by (cases doc) (auto simp: json_contains.simps [of _ "VMap fm"] list_all_iff case_option_False_iff)

lemma json_contains_VList:
  "json_contains doc (VList fs) \<longleftrightarrow>
     (\<exists>ds. doc = VList ds \<and> (\<forall>f \<in> set fs. \<exists>d \<in> set ds. json_contains d f))"
  by (cases doc) (auto simp: json_contains.simps [of _ "VList fs"] list_all_iff list_ex_iff)

definition is_container :: "gval \<Rightarrow> bool" where
  "is_container v = (case v of VMap _ \<Rightarrow> True | VList _ \<Rightarrow> True | _ \<Rightarrow> False)"

lemma json_contains_scalar: "\<not> is_container flt \<Longrightarrow> json_contains doc flt \<longleftrightarrow> doc = flt"
  unfolding json_contains.simps [of doc flt] by (cases flt) (simp_all add: is_container_def)

lemma json_contains_trans:
  "json_contains a b \<Longrightarrow> json_contains b c \<Longrightarrow> json_contains a c"
proof (induction c arbitrary: a b rule: measure_induct_rule [of size])
  case (less c)
  show ?case
  proof (cases "is_container c")
    case False
    with less.prems(2) have "b = c" by (simp add: json_contains_scalar)
    with less.prems(1) show ?thesis by simp
  next
    case True
    then consider (m) cm where "c = VMap cm" | (l) cs where "c = VList cs"
      by (cases c) (auto simp: is_container_def)
    then show ?thesis
    proof cases
      case m
      with less.prems(2) obtain bm where b: "b = VMap bm"
        "\<And>k v. (k, v) \<in> set cm \<Longrightarrow> \<exists>d. map_of bm k = Some d \<and> json_contains d v"
        by (auto simp: json_contains_VMap)
      with less.prems(1) obtain am where a: "a = VMap am"
        "\<And>k v. (k, v) \<in> set bm \<Longrightarrow> \<exists>d. map_of am k = Some d \<and> json_contains d v"
        by (auto simp: json_contains_VMap)
      have "\<exists>e. map_of am k = Some e \<and> json_contains e v" if kv: "(k, v) \<in> set cm" for k v
      proof -
        from b(2) [OF kv] obtain d where d: "map_of bm k = Some d" "json_contains d v" by blast
        from a(2) [OF map_of_SomeD [OF d(1)]] obtain e where e: "map_of am k = Some e" "json_contains e d"
          by blast
        have "size v < size c" using size_entry [OF kv] m by simp
        from less.IH [OF this e(2) d(2)] e(1) show ?thesis by blast
      qed
      then show ?thesis using m a(1) by (simp add: json_contains_VMap)
    next
      case l
      with less.prems(2) obtain bs where b: "b = VList bs"
        "\<And>f. f \<in> set cs \<Longrightarrow> \<exists>d \<in> set bs. json_contains d f"
        by (auto simp: json_contains_VList)
      with less.prems(1) obtain ds where a: "a = VList ds"
        "\<And>f. f \<in> set bs \<Longrightarrow> \<exists>d \<in> set ds. json_contains d f"
        by (auto simp: json_contains_VList)
      have "\<exists>e \<in> set ds. json_contains e f" if f: "f \<in> set cs" for f
      proof -
        from b(2) [OF f] obtain d where d: "d \<in> set bs" "json_contains d f" by blast
        from a(2) [OF d(1)] obtain e where e: "e \<in> set ds" "json_contains e d" by blast
        have "size f < size c" using size_list_estimation' [OF f order_refl, of size] l by simp
        from less.IH [OF this e(2) d(2)] e(1) show ?thesis by blast
      qed
      then show ?thesis using l a(1) by (simp add: json_contains_VList)
    qed
  qed
qed

lemma json_contains_entries:
  "json_contains doc (VMap fm) \<longleftrightarrow> (\<exists>dm. doc = VMap dm) \<and> (\<forall>kv \<in> set fm. json_contains doc (VMap [kv]))"
  by (cases doc) (auto simp: json_contains_VMap)

lemma matches_entry:
  "metadata_matches_filter md [(k, v)] \<longleftrightarrow>
     json_contains (normalize_json (metadata_doc md)) (VMap [(k, normalize_json v)])"
  by (simp add: metadata_matches_filter_def)

text \<open>
  A metadata filter is the conjunction of its entries, and containment is transitive: when a
  filter's document contains another filter, whatever the first selects the second selects too.
\<close>

theorem metadata_filter_is_conjunction:
  shows "(metadata_matches_filter md flt \<longleftrightarrow> (\<forall>(k, v) \<in> set flt. metadata_matches_filter md [(k, v)]))
    \<and> (metadata_matches_filter md flt \<longrightarrow> flt \<noteq> [] \<longrightarrow>
    json_contains (normalize_json (VMap flt)) (normalize_json (VMap flt')) \<longrightarrow> metadata_matches_filter md flt')"
proof (rule conjI [OF _ impI [OF impI [OF impI]]])
  have doc: "\<exists>dm. normalize_json (metadata_doc md) = VMap dm" by (simp add: metadata_doc_def)
  show "metadata_matches_filter md flt \<longleftrightarrow> (\<forall>(k, v) \<in> set flt. metadata_matches_filter md [(k, v)])"
    using json_contains_entries [of "normalize_json (metadata_doc md)" "map (\<lambda>(k, v). (k, normalize_json v)) flt"] doc
    unfolding matches_entry by (auto simp: metadata_matches_filter_def)
  show "metadata_matches_filter md flt'"
    if "metadata_matches_filter md flt" "flt \<noteq> []"
      "json_contains (normalize_json (VMap flt)) (normalize_json (VMap flt'))"
    using that json_contains_trans unfolding metadata_matches_filter_def by blast
qed

definition demo_md :: metadata where
  "demo_md = \<lparr>md_source = ''loop'', md_step = 3, md_run_id = [], md_parents = None, md_counters = []\<rparr>"

lemma metadata_filter_is_conjunction_witness: "metadata_matches_filter demo_md [(''step'', VInt 3)]"
proof -
  let ?flt = "[(''source'', VStr ''loop''), (''step'', VInt 3)]"
  have "metadata_matches_filter demo_md ?flt"
    "json_contains (normalize_json (VMap ?flt)) (normalize_json (VMap [(''step'', VInt 3)]))"
    by code_simp+
  then show ?thesis using metadata_filter_is_conjunction [of demo_md ?flt, THEN conjunct2] by blast
qed

subsection \<open>Checkpoint IDs\<close>

text \<open>
  \<open>NewID\<close> prints the millisecond clock, the masked clock sequence and 64 random bits at fixed
  widths; the clock and the random bits are arguments.
\<close>

definition new_id :: "int \<Rightarrow> int \<Rightarrow> nat \<Rightarrow> string" where
  "new_id ms clock_seq rnd =
     fmt_dec 13 ms @ ''-'' @ fmt_hex 6 (nat (clock_seq mod 0x1000000)) @ ''-'' @ fmt_hex 16 rnd"

text \<open>
  IDs sort as they are minted: a later millisecond, or a later sequence number within the
  same millisecond, gives a lexicographically greater ID whatever the random suffixes, as long as
  the clock has 13 digits and the sequence number stays below 2^24.
\<close>

theorem new_id_sorts_chronologically:
  assumes "0 \<le> ms" and "ms' < 10 ^ 13" and "0 \<le> seq" and "seq < 0x1000000"
    and "0 \<le> seq'" and "seq' < 0x1000000" and "ms < ms' \<or> ms = ms' \<and> seq < seq'"
  shows "new_id ms seq rnd < new_id ms' seq' rnd'"
proof -
  have bound: "0 \<le> ms'" "ms < 10 ^ 13" using assms by auto
  have len: "length (fmt_dec 13 ms) = length (fmt_dec 13 ms')"
    using assms bound by (simp add: length_fmt_dec)
  have hexb: "nat (x mod 0x1000000) < 16 ^ 6" for x :: int by (simp add: nat_less_iff)
  show ?thesis
  proof (cases "ms < ms'")
    case True
    then have "fmt_dec 13 ms < fmt_dec 13 ms'" using assms by (intro fmt_dec_mono) auto
    then show ?thesis unfolding new_id_def using len by (intro less_append_same_length)
  next
    case False
    with assms(7) have eq: "ms = ms'" and less: "seq < seq'" by auto
    have "fmt_hex 6 (nat (seq mod 0x1000000)) < fmt_hex 6 (nat (seq' mod 0x1000000))"
      using assms less hexb by (intro fmt_hex_mono) auto
    moreover have "length (fmt_hex 6 (nat (seq mod 0x1000000))) = length (fmt_hex 6 (nat (seq' mod 0x1000000)))"
      using hexb by (simp add: length_fmt_hex)
    ultimately show ?thesis
      unfolding new_id_def eq by (simp only: less_append_left) (rule less_append_same_length)
  qed
qed

lemma new_id_sorts_chronologically_witness: "new_id 1700000000000 7 9 < new_id 1700000000000 8 1"
  by (rule new_id_sorts_chronologically) simp_all

end
