(* ===== verification/MemorySaver.thy ===== *)
theory MemorySaver
  imports Checkpoint
begin

section \<open>The checkpoint store in memory (langgraph/checkpoint/memory.go)\<close>

text \<open>
  \<open>MemorySaver\<close> keeps thread -> namespace -> checkpoint ID -> stored checkpoint with its pending
  writes. Each method is one definition on that state; the mutex makes each of them atomic. Values
  are immutable in the model, so the deep copies the code takes against aliasing are the identity.
\<close>

record stored =
  st_cp :: checkpoint
  st_md :: metadata
  st_parent :: "config option"
  st_writes :: "cp_write list"
  st_slots :: "((string \<times> int) \<times> nat) list"

type_synonym memory_saver = "stored gomap gomap gomap"

definition new_memory_saver :: memory_saver where
  "new_memory_saver = []"

text \<open>\<open>reservedWriteIdx\<close>: the fixed slots of the error and interrupt channels.\<close>

definition reserved_write_idx :: "string \<Rightarrow> int option" where
  "reserved_write_idx ch =
     (if ch = reserved_error then Some (-1) else if ch = reserved_interrupt then Some (-3) else None)"

definition write_idx :: "nat \<Rightarrow> cp_write \<Rightarrow> int" where
  "write_idx i w = (case reserved_write_idx (w_channel w) of Some r \<Rightarrow> r | None \<Rightarrow> int i)"

definition ms_ns :: "memory_saver \<Rightarrow> config \<Rightarrow> stored gomap" where
  "ms_ns s cfg = mgetd (mgetd s (cfg_thread cfg) []) (cfg_ns cfg) []"

definition ms_set_ns :: "config \<Rightarrow> stored gomap \<Rightarrow> memory_saver \<Rightarrow> memory_saver" where
  "ms_set_ns cfg by_id s =
     mput (cfg_thread cfg) (mput (cfg_ns cfg) by_id (mgetd s (cfg_thread cfg) [])) s"

definition latest_id :: "'a gomap \<Rightarrow> string" where
  "latest_id by_id = fold (\<lambda>id latest. if id > latest then id else latest) (mkeys by_id) []"

definition ms_lookup :: "memory_saver \<Rightarrow> config \<Rightarrow> (string \<times> stored) option" where
  "ms_lookup s cfg =
     (if cfg_id cfg \<noteq> [] then map_option (Pair (cfg_id cfg)) (map_of (ms_ns s cfg) (cfg_id cfg))
      else if latest_id (ms_ns s cfg) = [] then None
      else map_option (Pair (latest_id (ms_ns s cfg))) (map_of (ms_ns s cfg) (latest_id (ms_ns s cfg))))"

definition ms_tuple :: "config \<Rightarrow> stored \<Rightarrow> cp_tuple" where
  "ms_tuple cfg st =
     \<lparr>tup_config = cfg\<lparr>cfg_id := cp_id (st_cp st)\<rparr>, tup_checkpoint = st_cp st, tup_metadata = st_md st,
      tup_parent = st_parent st, tup_writes = st_writes st\<rparr>"

definition ms_get_tuple :: "memory_saver \<Rightarrow> config \<Rightarrow> cp_tuple option" where
  "ms_get_tuple s cfg = map_option (\<lambda>(cid, st). ms_tuple cfg st) (ms_lookup s cfg)"

definition list_keeps :: "list_options \<Rightarrow> stored gomap \<Rightarrow> string \<Rightarrow> bool" where
  "list_keeps opts by_id cid =
     ((case opt_before opts of None \<Rightarrow> True | Some b \<Rightarrow> cfg_id b = [] \<or> cid < cfg_id b)
      \<and> (case map_of by_id cid of None \<Rightarrow> False | Some st \<Rightarrow> metadata_matches_filter (st_md st) (opt_filter opts)))"

definition ms_list :: "memory_saver \<Rightarrow> config \<Rightarrow> list_options \<Rightarrow> cp_tuple list" where
  "ms_list s cfg opts =
     (let by_id = ms_ns s cfg;
          ids = rev (filter (list_keeps opts by_id) (mkeys by_id));
          ids' = (if opt_limit opts > 0 \<and> int (length ids) > opt_limit opts
                  then take (nat (opt_limit opts)) ids else ids)
      in List.map_filter (\<lambda>id. map_option (ms_tuple cfg) (map_of by_id id)) ids')"

definition ms_put ::
  "memory_saver \<Rightarrow> config \<Rightarrow> checkpoint \<Rightarrow> metadata \<Rightarrow> int gomap \<Rightarrow> memory_saver \<times> config" where
  "ms_put s cfg cp md new_versions =
     (let by_id = ms_ns s cfg;
          stored_cp = cp\<lparr>cp_versions := mcopy (cp_versions cp) new_versions\<rparr>;
          parent = (if cfg_id cfg \<noteq> [] then Some cfg else None);
          st = (case map_of by_id (cp_id cp) of
                  Some prev \<Rightarrow> prev\<lparr>st_cp := stored_cp, st_md := md, st_parent := parent\<rparr>
                | None \<Rightarrow> \<lparr>st_cp = stored_cp, st_md = md, st_parent = parent, st_writes = [], st_slots = []\<rparr>)
      in (ms_set_ns cfg (mput (cp_id cp) st by_id) s, cfg\<lparr>cfg_id := cp_id cp\<rparr>))"

text \<open>One write of \<open>PutWrites\<close>: an occupied positional slot keeps its write, a reserved one is replaced.\<close>

definition put_write_step :: "string \<Rightarrow> string \<Rightarrow> nat \<times> cp_write \<Rightarrow> stored \<Rightarrow> stored" where
  "put_write_step task path iw st =
     (case iw of (i, w) \<Rightarrow>
        let idx = write_idx i w;
            w' = w\<lparr>w_task := task, w_path := path\<rparr>
        in case map_of (st_slots st) (task, idx) of
             Some pos \<Rightarrow> (if idx \<ge> 0 then st else st\<lparr>st_writes := (st_writes st)[pos := w']\<rparr>)
           | None \<Rightarrow> st\<lparr>st_slots := ((task, idx), length (st_writes st)) # st_slots st,
                        st_writes := st_writes st @ [w']\<rparr>)"

definition put_writes_stored :: "string \<Rightarrow> string \<Rightarrow> cp_write list \<Rightarrow> stored \<Rightarrow> stored" where
  "put_writes_stored task path ws st = fold (put_write_step task path) (enumerate 0 ws) st"

definition ms_put_writes ::
  "memory_saver \<Rightarrow> config \<Rightarrow> cp_write list \<Rightarrow> string \<Rightarrow> string \<Rightarrow> memory_saver \<times> (goerr + unit)" where
  "ms_put_writes s cfg ws task path =
     (case ms_lookup s cfg of
        None \<Rightarrow> (s, Inl (EText (''checkpoint: PutWrites: no checkpoint '' @ go_quote (cfg_id cfg) @ '' for thread ''
                               @ go_quote (cfg_thread cfg) @ '' (ns '' @ go_quote (cfg_ns cfg) @ '')'')))
      | Some (cid, st) \<Rightarrow>
          (ms_set_ns cfg (mput cid (put_writes_stored task path ws st) (ms_ns s cfg)) s, Inr ()))"

definition ms_delete_thread :: "memory_saver \<Rightarrow> string \<Rightarrow> memory_saver" where
  "ms_delete_thread s thread = mdel thread s"

text \<open>\<open>DeleteForRuns\<close> also drops the namespaces and threads it finds empty.\<close>

definition drop_runs :: "string list \<Rightarrow> stored gomap \<Rightarrow> stored gomap" where
  "drop_runs run_ids by_id = mbuild (mkeys by_id)
     (\<lambda>id. case map_of by_id id of
             None \<Rightarrow> None
           | Some st \<Rightarrow> (if md_run_id (st_md st) \<noteq> [] \<and> md_run_id (st_md st) \<in> set run_ids then None else Some st))"

definition drop_empty :: "('a gomap \<Rightarrow> 'a gomap) \<Rightarrow> 'a gomap gomap \<Rightarrow> 'a gomap gomap" where
  "drop_empty f m = mbuild (mkeys m)
     (\<lambda>k. case map_of m k of None \<Rightarrow> None | Some v \<Rightarrow> (if f v = [] then None else Some (f v)))"

definition ms_delete_for_runs :: "memory_saver \<Rightarrow> string list \<Rightarrow> memory_saver" where
  "ms_delete_for_runs s run_ids =
     (if run_ids = [] then s else drop_empty (drop_empty (drop_runs run_ids)) s)"

text \<open>\<open>CopyThread\<close> copies the stored records, their parent positions included, as they are.\<close>

definition ms_copy_thread :: "memory_saver \<Rightarrow> string \<Rightarrow> string \<Rightarrow> memory_saver" where
  "ms_copy_thread s src dst =
     (let nss = mgetd s src []
      in if nss = [] then s
         else mput dst (fold (\<lambda>ns acc. mput ns (mcopy (mgetd acc ns []) (mgetd nss ns [])) acc)
                          (mkeys nss) (mgetd s dst [])) s)"

definition keep_latest :: "stored gomap \<Rightarrow> stored gomap" where
  "keep_latest by_id = mbuild (mkeys by_id) (\<lambda>id. if id = latest_id by_id then map_of by_id id else None)"

definition prune_one :: "prune_strategy \<Rightarrow> string \<Rightarrow> memory_saver \<Rightarrow> memory_saver" where
  "prune_one strategy thread s =
     (let nss = mgetd s thread []
      in if nss = [] then s
         else if strategy = PruneDeleteAll then mdel thread s
         else mput thread (mbuild (mkeys nss) (\<lambda>ns. map_option keep_latest (map_of nss ns))) s)"

definition ms_prune :: "memory_saver \<Rightarrow> string list \<Rightarrow> prune_strategy \<Rightarrow> memory_saver \<times> (goerr + unit)" where
  "ms_prune s threads strategy =
     (case strategy of
        PruneUnknown t \<Rightarrow> (s, Inl (EText (''checkpoint: unknown prune strategy '' @ go_quote t)))
      | _ \<Rightarrow> (fold (prune_one strategy) threads s, Inr ()))"

text \<open>The package-level \<open>Get\<close> over any saver's \<open>GetTuple\<close>.\<close>

definition checkpoint_get :: "('s \<Rightarrow> config \<Rightarrow> cp_tuple option) \<Rightarrow> 's \<Rightarrow> config \<Rightarrow> checkpoint option" where
  "checkpoint_get get_tuple s cfg = map_option tup_checkpoint (get_tuple s cfg)"

subsection \<open>Write slots\<close>

text \<open>
  The slots of a stored checkpoint: each slot points into the writes, different slots point to
  different positions, every position belongs to a slot, and a write sits in a slot of its own task.
\<close>

definition slots_inv :: "stored \<Rightarrow> bool" where
  "slots_inv st \<longleftrightarrow>
     (\<forall>key pos. map_of (st_slots st) key = Some pos \<longrightarrow>
        pos < length (st_writes st) \<and> w_task (st_writes st ! pos) = fst key) \<and>
     (\<forall>key key' pos. map_of (st_slots st) key = Some pos \<and> map_of (st_slots st) key' = Some pos \<longrightarrow> key = key') \<and>
     (\<forall>pos < length (st_writes st). \<exists>key. map_of (st_slots st) key = Some pos)"

text \<open>The abstract view of the pending writes: what each slot holds.\<close>

definition slot :: "stored \<Rightarrow> string \<times> int \<Rightarrow> cp_write option" where
  "slot st key = map_option (\<lambda>pos. st_writes st ! pos) (map_of (st_slots st) key)"

definition stamp :: "string \<Rightarrow> string \<Rightarrow> cp_write \<Rightarrow> cp_write" where
  "stamp task path w = w\<lparr>w_task := task, w_path := path\<rparr>"

lemma put_write_step_cases:
  obtains (kept) pos where "map_of (st_slots st) (task, write_idx i w) = Some pos" "0 \<le> write_idx i w"
    "put_write_step task path (i, w) st = st"
  | (replaced) pos where "map_of (st_slots st) (task, write_idx i w) = Some pos" "write_idx i w < 0"
    "put_write_step task path (i, w) st = st\<lparr>st_writes := (st_writes st)[pos := stamp task path w]\<rparr>"
  | (added) "map_of (st_slots st) (task, write_idx i w) = None"
    "put_write_step task path (i, w) st =
       st\<lparr>st_slots := ((task, write_idx i w), length (st_writes st)) # st_slots st,
          st_writes := st_writes st @ [stamp task path w]\<rparr>"
proof (cases "map_of (st_slots st) (task, write_idx i w)")
  case None
  then show ?thesis by (intro added) (simp_all add: put_write_step_def Let_def stamp_def)
next
  case (Some pos)
  show ?thesis
  proof (cases "0 \<le> write_idx i w")
    case True
    with Some show ?thesis by (intro kept) (simp_all add: put_write_step_def Let_def)
  next
    case False
    with Some show ?thesis by (intro replaced) (simp_all add: put_write_step_def Let_def stamp_def)
  qed
qed

lemma stamp_task [simp]: "w_task (stamp task path w) = task"
  by (simp add: stamp_def)

lemma slots_invI:
  assumes "\<And>key pos. map_of (st_slots st) key = Some pos \<Longrightarrow>
      pos < length (st_writes st) \<and> w_task (st_writes st ! pos) = fst key"
    and "\<And>key key' pos. map_of (st_slots st) key = Some pos \<Longrightarrow> map_of (st_slots st) key' = Some pos \<Longrightarrow> key = key'"
    and "\<And>pos. pos < length (st_writes st) \<Longrightarrow> \<exists>key. map_of (st_slots st) key = Some pos"
  shows "slots_inv st"
  unfolding slots_inv_def using assms by blast

lemma slots_invD:
  assumes "slots_inv st" and "map_of (st_slots st) key = Some pos"
  shows "pos < length (st_writes st)" and "w_task (st_writes st ! pos) = fst key"
  using assms unfolding slots_inv_def by blast+

lemma slots_inv_inj:
  "slots_inv st \<Longrightarrow> map_of (st_slots st) key = Some pos \<Longrightarrow> map_of (st_slots st) key' = Some pos \<Longrightarrow> key = key'"
  unfolding slots_inv_def by blast

lemma slots_inv_onto: "slots_inv st \<Longrightarrow> pos < length (st_writes st) \<Longrightarrow> \<exists>key. map_of (st_slots st) key = Some pos"
  unfolding slots_inv_def by blast

lemma put_write_step_inv:
  assumes inv: "slots_inv st"
  shows "slots_inv (put_write_step task path (i, w) st)"
proof (cases rule: put_write_step_cases [of st task i w path])
  case kept
  with inv show ?thesis by simp
next
  case (replaced pos)
  show ?thesis
    unfolding replaced(3)
  proof (rule slots_invI, goal_cases)
    case (1 key p)
    then show ?case
      using slots_invD [OF inv, of key p] slots_inv_inj [OF inv replaced(1), of key]
      by (cases "p = pos") auto
  next
    case (2 key key' p)
    then show ?case using slots_inv_inj [OF inv] by simp
  next
    case (3 p)
    then show ?case using slots_inv_onto [OF inv] by simp
  qed
next
  case added
  show ?thesis
    unfolding added(2)
  proof (rule slots_invI, goal_cases)
    case (1 key p)
    then show ?case
      using slots_invD [OF inv, of key p] by (cases "key = (task, write_idx i w)") (auto simp: nth_append)
  next
    case (2 key key' p)
    then show ?case
      using slots_invD(1) [OF inv, of key p] slots_invD(1) [OF inv, of key' p] slots_inv_inj [OF inv, of key p key']
      by (cases "key = (task, write_idx i w)"; cases "key' = (task, write_idx i w)") auto
  next
    case (3 p)
    show ?case
    proof (cases "p = length (st_writes st)")
      case True
      then show ?thesis by (intro exI [of _ "(task, write_idx i w)"]) simp
    next
      case False
      with 3 obtain key where key: "map_of (st_slots st) key = Some p" using slots_inv_onto [OF inv, of p] by auto
      with added(1) have "key \<noteq> (task, write_idx i w)" by auto
      with key show ?thesis by (intro exI [of _ key]) simp
    qed
  qed
qed

lemma slot_step:
  assumes inv: "slots_inv st"
  shows "slot (put_write_step task path (i, w) st) key =
    (if key = (task, write_idx i w) \<and> (slot st key = None \<or> write_idx i w < 0)
     then Some (stamp task path w) else slot st key)"
proof (cases rule: put_write_step_cases [of st task i w path])
  case kept
  then show ?thesis by (auto simp: slot_def)
next
  case (replaced pos)
  have pos: "pos < length (st_writes st)" by (rule slots_invD(1) [OF inv replaced(1)])
  have own: "map_of (st_slots st) key = Some pos \<Longrightarrow> key = (task, write_idx i w)"
    using slots_inv_inj [OF inv _ replaced(1)] .
  show ?thesis
    unfolding replaced(3) slot_def
    using pos own replaced(1,2)
    by (cases "map_of (st_slots st) key") (auto simp: nth_list_update)
next
  case added
  then show ?thesis
    unfolding added(2) slot_def
    using added(1) slots_invD(1) [OF inv, of key] by (cases "map_of (st_slots st) key") (auto simp: nth_append)
qed

text \<open>What a batch leaves in a slot: the last reserved write, or the first write there ever was.\<close>

definition reserved_in :: "int \<Rightarrow> cp_write list \<Rightarrow> cp_write list" where
  "reserved_in idx ws = filter (\<lambda>w. reserved_write_idx (w_channel w) = Some idx) ws"

definition slot_after :: "string \<Rightarrow> string \<Rightarrow> cp_write list \<Rightarrow> int \<Rightarrow> cp_write option \<Rightarrow> cp_write option" where
  "slot_after task path ws idx old =
     (if idx < 0 then
        (if reserved_in idx ws = [] then old else Some (stamp task path (last (reserved_in idx ws))))
      else case old of
        Some w \<Rightarrow> Some w
      | None \<Rightarrow> (if nat idx < length ws \<and> reserved_write_idx (w_channel (ws ! nat idx)) = None
                 then Some (stamp task path (ws ! nat idx)) else None))"

lemma reserved_write_idx_neg: "reserved_write_idx ch = Some r \<Longrightarrow> r < 0"
  by (auto simp: reserved_write_idx_def split: if_splits)

lemma write_idx_nonneg_iff: "0 \<le> write_idx i w \<longleftrightarrow> reserved_write_idx (w_channel w) = None"
  using reserved_write_idx_neg by (force simp: write_idx_def split: option.splits)

lemma put_writes_snoc:
  "put_writes_stored task path (ws @ [w]) st =
     put_write_step task path (length ws, w) (put_writes_stored task path ws st)"
  by (simp add: put_writes_stored_def enumerate_append_eq)

lemma put_writes_inv: "slots_inv st \<Longrightarrow> slots_inv (put_writes_stored task path ws st)"
proof (induction ws rule: rev_induct)
  case Nil
  then show ?case by (simp add: put_writes_stored_def)
next
  case (snoc w ws)
  then show ?case by (simp add: put_writes_snoc put_write_step_inv)
qed

lemma slot_put_writes:
  assumes "slots_inv st"
  shows "slot (put_writes_stored task path ws st) (task', idx) =
    (if task' = task then slot_after task path ws idx (slot st (task, idx)) else slot st (task', idx))"
proof (induction ws rule: rev_induct)
  case Nil
  then show ?case by (auto simp: put_writes_stored_def slot_after_def reserved_in_def split: option.splits)
next
  case (snoc w ws)
  note inv = put_writes_inv [OF assms, of task path ws]
  show ?case
  proof (cases "task' = task \<and> idx = write_idx (length ws) w")
    case False
    have "slot_after task path (ws @ [w]) idx old = slot_after task path ws idx old"
      if "idx \<noteq> write_idx (length ws) w" for old
      using that
      by (auto simp: slot_after_def reserved_in_def write_idx_def nth_append less_Suc_eq
          split: option.splits if_splits)
    then show ?thesis
      using False snoc.IH by (auto simp: put_writes_snoc slot_step [OF inv])
  next
    case True
    show ?thesis
    proof (cases "reserved_write_idx (w_channel w)")
      case None
      then have "idx = int (length ws)" using True by (simp add: write_idx_def)
      then show ?thesis
        using True None snoc.IH
        by (auto simp: put_writes_snoc slot_step [OF inv] slot_after_def nth_append split: option.splits)
    next
      case (Some r)
      then have "idx = r" "r < 0" using True reserved_write_idx_neg by (simp_all add: write_idx_def)
      then show ?thesis
        using True Some snoc.IH
        by (auto simp: put_writes_snoc slot_step [OF inv] slot_after_def reserved_in_def)
    qed
  qed
qed

lemma stored_eqI:
  assumes "slots_inv st" and "st_slots st' = st_slots st" and "length (st_writes st') = length (st_writes st)"
    and "\<And>key. slot st' key = slot st key"
  shows "st_writes st' = st_writes st"
proof (rule nth_equalityI)
  fix pos
  assume "pos < length (st_writes st')"
  with assms(1,3) obtain key where "map_of (st_slots st) key = Some pos"
    using slots_inv_onto by metis
  with assms(2) assms(4) [of key] show "st_writes st' ! pos = st_writes st ! pos" by (simp add: slot_def)
qed (rule assms(3))

lemma put_write_step_frame:
  "st_cp (put_write_step task path iw st) = st_cp st" "st_md (put_write_step task path iw st) = st_md st"
  "st_parent (put_write_step task path iw st) = st_parent st"
  by (simp_all add: put_write_step_def Let_def split: prod.split option.split)

lemma put_writes_frame [simp]:
  "st_cp (put_writes_stored task path ws st) = st_cp st"
  "st_md (put_writes_stored task path ws st) = st_md st"
  "st_parent (put_writes_stored task path ws st) = st_parent st"
proof (induction ws rule: rev_induct)
  case Nil
  { case 1 show ?case by (simp add: put_writes_stored_def) }
  { case 2 show ?case by (simp add: put_writes_stored_def) }
  { case 3 show ?case by (simp add: put_writes_stored_def) }
next
  case (snoc w ws)
  { case 1 show ?case using snoc by (simp add: put_writes_snoc put_write_step_frame) }
  { case 2 show ?case using snoc by (simp add: put_writes_snoc put_write_step_frame) }
  { case 3 show ?case using snoc by (simp add: put_writes_snoc put_write_step_frame) }
qed

text \<open>Positions never move: the writes that were there stay where they are, new ones go to the end.\<close>

lemma put_writes_length: "length (st_writes st) \<le> length (st_writes (put_writes_stored task path ws st))"
proof (induction ws rule: rev_induct)
  case Nil
  then show ?case by (simp add: put_writes_stored_def)
next
  case (snoc w ws)
  let ?st = "put_writes_stored task path ws st"
  have "length (st_writes ?st) \<le> length (st_writes (put_write_step task path (length ws, w) ?st))"
    by (cases rule: put_write_step_cases [of ?st task "length ws" w path]) simp_all
  with snoc show ?case by (simp add: put_writes_snoc)
qed

lemma put_writes_occupied:
  "\<forall>i < length ws. map_of (st_slots st) (task, write_idx i (ws ! i)) \<noteq> None \<Longrightarrow>
   st_slots (put_writes_stored task path ws st) = st_slots st \<and>
   length (st_writes (put_writes_stored task path ws st)) = length (st_writes st)"
proof (induction ws rule: rev_induct)
  case Nil
  then show ?case by (simp add: put_writes_stored_def)
next
  case (snoc w ws)
  let ?st = "put_writes_stored task path ws st"
  have "\<forall>i < length ws. map_of (st_slots st) (task, write_idx i (ws ! i)) \<noteq> None"
    using snoc.prems by (metis length_append_singleton less_Suc_eq nth_append)
  note IH = snoc.IH [OF this]
  have "map_of (st_slots st) (task, write_idx (length ws) w) \<noteq> None"
    using snoc.prems by (metis length_append_singleton lessI nth_append_length)
  with IH show ?case
    unfolding put_writes_snoc
    by (cases rule: put_write_step_cases [of ?st task "length ws" w path]) simp_all
qed

lemma slot_after_idem: "slot_after task path ws idx (slot_after task path ws idx old) = slot_after task path ws idx old"
  by (simp add: slot_after_def split: option.splits)

lemma slot_eq_None [simp]: "slot st key = None \<longleftrightarrow> map_of (st_slots st) key = None"
  by (simp add: slot_def)

lemma slot_after_written:
  assumes "i < length ws"
  shows "slot_after task path ws (write_idx i (ws ! i)) old \<noteq> None"
proof (cases "reserved_write_idx (w_channel (ws ! i))")
  case None
  then show ?thesis using assms by (simp add: write_idx_def slot_after_def split: option.splits)
next
  case (Some r)
  then have "r < 0" "ws ! i \<in> set (reserved_in r ws)"
    using assms reserved_write_idx_neg by (simp_all add: reserved_in_def)
  with Some show ?thesis by (auto simp: write_idx_def slot_after_def)
qed

lemma put_writes_twice:
  assumes inv: "slots_inv st"
  shows "put_writes_stored task path ws (put_writes_stored task path ws st) = put_writes_stored task path ws st"
proof -
  let ?st1 = "put_writes_stored task path ws st"
  let ?st2 = "put_writes_stored task path ws ?st1"
  note inv1 = put_writes_inv [OF inv, of task path ws]
  have "\<forall>i < length ws. map_of (st_slots ?st1) (task, write_idx i (ws ! i)) \<noteq> None"
  proof (intro allI impI)
    fix i
    assume "i < length ws"
    then have "slot ?st1 (task, write_idx i (ws ! i)) \<noteq> None"
      unfolding slot_put_writes [OF inv] using slot_after_written by simp
    then show "map_of (st_slots ?st1) (task, write_idx i (ws ! i)) \<noteq> None" by simp
  qed
  note same = put_writes_occupied [OF this, of path]
  have "slot ?st2 key = slot ?st1 key" for key
  proof (cases key)
    case (Pair task' idx)
    then show ?thesis
      by (simp add: slot_put_writes [OF inv1] slot_put_writes [OF inv] slot_after_idem)
  qed
  with same have "st_writes ?st2 = st_writes ?st1" by (intro stored_eqI [OF inv1]) simp_all
  with same show ?thesis by (intro stored.equality) simp_all
qed

subsection \<open>The interface of a saver\<close>

text \<open>The parent chain that time travel and delta reconstruction walk, newest first, over any \<open>GetTuple\<close>.\<close>

primrec history :: "('s \<Rightarrow> config \<Rightarrow> cp_tuple option) \<Rightarrow> nat \<Rightarrow> 's \<Rightarrow> config \<Rightarrow> checkpoint list" where
  "history get_tuple 0 s cfg = []"
| "history get_tuple (Suc n) s cfg =
     (case get_tuple s cfg of
        None \<Rightarrow> []
      | Some t \<Rightarrow> tup_checkpoint t # (case tup_parent t of None \<Rightarrow> [] | Some p \<Rightarrow> history get_tuple n s p))"

text \<open>No parent link points at a position.\<close>

definition no_link_to :: "('s \<Rightarrow> config \<Rightarrow> cp_tuple option) \<Rightarrow> config \<Rightarrow> 's \<Rightarrow> bool" where
  "no_link_to get_tuple pos s \<longleftrightarrow>
     (\<forall>c t p. get_tuple s c = Some t \<and> tup_parent t = Some p \<longrightarrow> cfg_id p \<noteq> [] \<and> p \<noteq> pos)"

text \<open>
  What the executor relies on in a \<open>Saver\<close>, over an invariant of the store: a put is read back under
  the position it returns and leaves every other position alone, a re-put keeps the pending writes;
  writes can be recorded exactly where a checkpoint is, and touch nothing but its pending writes.
\<close>

locale saver =
  fixes get_tuple :: "'s \<Rightarrow> config \<Rightarrow> cp_tuple option"
    and put :: "'s \<Rightarrow> config \<Rightarrow> checkpoint \<Rightarrow> metadata \<Rightarrow> int gomap \<Rightarrow> 's \<times> config"
    and put_writes :: "'s \<Rightarrow> config \<Rightarrow> cp_write list \<Rightarrow> string \<Rightarrow> string \<Rightarrow> 's \<times> (goerr + unit)"
    and inv :: "'s \<Rightarrow> bool"
  assumes put_config: "snd (put s cfg cp md nv) = cfg\<lparr>cfg_id := cp_id cp\<rparr>"
    and put_inv: "inv s \<Longrightarrow> cp_id cp \<noteq> [] \<Longrightarrow> inv (fst (put s cfg cp md nv))"
    and get_put: "inv s \<Longrightarrow> cp_id cp \<noteq> [] \<Longrightarrow>
      get_tuple (fst (put s cfg cp md nv)) (cfg\<lparr>cfg_id := cp_id cp\<rparr>) =
        Some \<lparr>tup_config = cfg\<lparr>cfg_id := cp_id cp\<rparr>,
              tup_checkpoint = cp\<lparr>cp_versions := mcopy (cp_versions cp) nv\<rparr>, tup_metadata = md,
              tup_parent = (if cfg_id cfg \<noteq> [] then Some cfg else None),
              tup_writes = (case get_tuple s (cfg\<lparr>cfg_id := cp_id cp\<rparr>) of None \<Rightarrow> [] | Some t \<Rightarrow> tup_writes t)\<rparr>"
    and get_put_other: "inv s \<Longrightarrow> cfg_id c \<noteq> [] \<Longrightarrow> c \<noteq> cfg\<lparr>cfg_id := cp_id cp\<rparr> \<Longrightarrow>
      get_tuple (fst (put s cfg cp md nv)) c = get_tuple s c"
    and writes_inv: "inv s \<Longrightarrow> inv (fst (put_writes s cfg ws task path))"
    and writes_ok: "inv s \<Longrightarrow> (\<exists>u. snd (put_writes s cfg ws task path) = Inr u) \<longleftrightarrow> get_tuple s cfg \<noteq> None"
    and writes_frame: "inv s \<Longrightarrow>
      map_option (\<lambda>t. t\<lparr>tup_writes := []\<rparr>) (get_tuple (fst (put_writes s cfg ws task path)) c) =
      map_option (\<lambda>t. t\<lparr>tup_writes := []\<rparr>) (get_tuple s c)"
begin

lemma history_put_other:
  assumes "inv s" and "no_link_to get_tuple (cfg\<lparr>cfg_id := cp_id cp\<rparr>) s"
    and "cfg_id c \<noteq> []" and "c \<noteq> cfg\<lparr>cfg_id := cp_id cp\<rparr>"
  shows "history get_tuple n (fst (put s cfg cp md nv)) c = history get_tuple n s c"
  using assms(3,4)
proof (induction n arbitrary: c)
  case (Suc n)
  have "get_tuple (fst (put s cfg cp md nv)) c = get_tuple s c"
    by (rule get_put_other [OF assms(1) Suc.prems])
  moreover have "history get_tuple n (fst (put s cfg cp md nv)) p = history get_tuple n s p"
    if "get_tuple s c = Some t" "tup_parent t = Some p" for t p
    using that assms(2) by (intro Suc.IH) (auto simp: no_link_to_def)
  ultimately show ?case by (simp split: option.splits)
qed simp

lemma history_put:
  assumes "inv s" and "cp_id cp \<noteq> []" and "no_link_to get_tuple (cfg\<lparr>cfg_id := cp_id cp\<rparr>) s" and "cp_id cp \<noteq> cfg_id cfg"
  shows "history get_tuple (Suc n) (fst (put s cfg cp md nv)) (snd (put s cfg cp md nv)) =
    cp\<lparr>cp_versions := mcopy (cp_versions cp) nv\<rparr> # (if cfg_id cfg = [] then [] else history get_tuple n s cfg)"
proof -
  have "cfg \<noteq> cfg\<lparr>cfg_id := cp_id cp\<rparr>"
  proof
    assume "cfg = cfg\<lparr>cfg_id := cp_id cp\<rparr>"
    then have "cfg_id cfg = cfg_id (cfg\<lparr>cfg_id := cp_id cp\<rparr>)" by (rule arg_cong)
    with assms(4) show False by simp
  qed
  then show ?thesis
    using history_put_other [OF assms(1,3), of cfg n md nv]
    by (simp add: put_config get_put [OF assms(1,2)])
qed

lemma history_put_writes:
  assumes "inv s"
  shows "history get_tuple n (fst (put_writes s cfg ws task path)) c = history get_tuple n s c"
proof (induction n arbitrary: c)
  case (Suc n)
  have "map_option (\<lambda>t. (tup_checkpoint t, tup_parent t)) (get_tuple (fst (put_writes s cfg ws task path)) c) =
      map_option (\<lambda>t. (tup_checkpoint t, tup_parent t)) (get_tuple s c)"
    using arg_cong [OF writes_frame [OF assms, of cfg ws task path c],
        of "map_option (\<lambda>t. (tup_checkpoint t, tup_parent t))"]
    by (simp add: option.map_comp comp_def)
  with Suc show ?case
    by (cases "get_tuple (fst (put_writes s cfg ws task path)) c"; cases "get_tuple s c")
      (simp_all split: option.split)
qed simp

end

subsection \<open>The memory saver is a saver\<close>

definition ms_inv :: "memory_saver \<Rightarrow> bool" where
  "ms_inv s \<longleftrightarrow> (\<forall>cfg cid st. map_of (ms_ns s cfg) cid = Some st \<longrightarrow>
     cid \<noteq> [] \<and> cp_id (st_cp st) = cid \<and> slots_inv st)"

lemma ms_invD:
  "ms_inv s \<Longrightarrow> map_of (ms_ns s cfg) cid = Some st \<Longrightarrow> cid \<noteq> [] \<and> cp_id (st_cp st) = cid \<and> slots_inv st"
  unfolding ms_inv_def by blast

lemma ms_inv_new [simp]: "ms_inv new_memory_saver"
  by (simp add: ms_inv_def new_memory_saver_def ms_ns_def)

definition same_ns :: "config \<Rightarrow> config \<Rightarrow> bool" where
  "same_ns a b \<longleftrightarrow> cfg_thread a = cfg_thread b \<and> cfg_ns a = cfg_ns b"

lemma ms_ns_set [simp]: "ms_ns (ms_set_ns cfg by_id s) c = (if same_ns cfg c then by_id else ms_ns s c)"
  by (auto simp: ms_ns_def ms_set_ns_def same_ns_def)

lemma same_ns_refl [simp]: "same_ns c c"
  by (simp add: same_ns_def)

lemma same_ns_ms_ns: "same_ns a b \<Longrightarrow> ms_ns s a = ms_ns s b"
  by (simp add: same_ns_def ms_ns_def)

lemma same_ns_cfg_id [simp]: "same_ns (c\<lparr>cfg_id := i\<rparr>) d = same_ns c d" "same_ns d (c\<lparr>cfg_id := i\<rparr>) = same_ns d c"
  by (simp_all add: same_ns_def)

lemma ms_ns_cfg_id [simp]: "ms_ns s (c\<lparr>cfg_id := i\<rparr>) = ms_ns s c"
  by (simp add: ms_ns_def)

lemma ms_get_exact: "cfg_id c \<noteq> [] \<Longrightarrow> ms_get_tuple s c = map_option (ms_tuple c) (map_of (ms_ns s c) (cfg_id c))"
  by (cases "map_of (ms_ns s c) (cfg_id c)") (simp_all add: ms_get_tuple_def ms_lookup_def)

lemma ms_lookup_Some:
  "ms_lookup s cfg = Some (cid, st) \<Longrightarrow> map_of (ms_ns s cfg) cid = Some st"
  by (auto simp: ms_lookup_def split: if_splits)

lemma latest_id_cong: "fst ` set m = fst ` set m' \<Longrightarrow> latest_id m = latest_id m'"
  using mkeys_eqI [of m m'] by (simp add: latest_id_def)

lemma keys_mput: "map_of m k \<noteq> None \<Longrightarrow> fst ` set (mput k v m) = fst ` set m"
  by (auto simp: dom_update map_of_eq_None_iff)

definition put_stored :: "checkpoint \<Rightarrow> metadata \<Rightarrow> config option \<Rightarrow> stored option \<Rightarrow> stored" where
  "put_stored cp md parent prev = (case prev of
     Some p \<Rightarrow> p\<lparr>st_cp := cp, st_md := md, st_parent := parent\<rparr>
   | None \<Rightarrow> \<lparr>st_cp = cp, st_md = md, st_parent = parent, st_writes = [], st_slots = []\<rparr>)"

lemma ms_put_eq:
  "ms_put s cfg cp md nv =
     (ms_set_ns cfg (mput (cp_id cp) (put_stored (cp\<lparr>cp_versions := mcopy (cp_versions cp) nv\<rparr>) md
          (if cfg_id cfg \<noteq> [] then Some cfg else None) (map_of (ms_ns s cfg) (cp_id cp))) (ms_ns s cfg)) s,
      cfg\<lparr>cfg_id := cp_id cp\<rparr>)"
  by (simp add: ms_put_def put_stored_def Let_def)

lemma put_stored_simps [simp]:
  "st_cp (put_stored cp md parent prev) = cp" "st_md (put_stored cp md parent prev) = md"
  "st_parent (put_stored cp md parent prev) = parent"
  "st_writes (put_stored cp md parent prev) = (case prev of None \<Rightarrow> [] | Some p \<Rightarrow> st_writes p)"
  "st_slots (put_stored cp md parent prev) = (case prev of None \<Rightarrow> [] | Some p \<Rightarrow> st_slots p)"
  by (simp_all add: put_stored_def split: option.split)

lemma slots_inv_put_stored: "(\<And>p. prev = Some p \<Longrightarrow> slots_inv p) \<Longrightarrow> slots_inv (put_stored cp md parent prev)"
  by (cases prev) (simp_all add: slots_inv_def)

lemma config_eq_iff: "c = d \<longleftrightarrow> same_ns c d \<and> cfg_id c = cfg_id d" for c d :: config
  by (auto simp: same_ns_def)

lemma ms_put_inv:
  assumes "ms_inv s" and "cp_id cp \<noteq> []"
  shows "ms_inv (fst (ms_put s cfg cp md nv))"
proof -
  have "slots_inv (put_stored cp' md parent (map_of (ms_ns s cfg) (cp_id cp)))" for cp' parent
    using ms_invD [OF assms(1)] by (intro slots_inv_put_stored) blast
  then show ?thesis
    using assms by (auto simp: ms_put_eq ms_inv_def)
qed

lemma ms_put_writes_Some:
  assumes "ms_lookup s cfg = Some (cid, st)"
  shows "ms_put_writes s cfg ws task path =
    (ms_set_ns cfg (mput cid (put_writes_stored task path ws st) (ms_ns s cfg)) s, Inr ())"
  using assms by (simp add: ms_put_writes_def)

lemma ms_put_writes_inv:
  assumes "ms_inv s"
  shows "ms_inv (fst (ms_put_writes s cfg ws task path))"
proof (cases "ms_lookup s cfg")
  case None
  with assms show ?thesis by (simp add: ms_put_writes_def)
next
  case (Some p)
  obtain cid st where p: "p = (cid, st)" by (cases p)
  with Some have l: "ms_lookup s cfg = Some (cid, st)" by simp
  note st = ms_invD [OF assms ms_lookup_Some [OF l]]
  have "slots_inv (put_writes_stored task path ws st)" using st put_writes_inv by simp
  with assms st show ?thesis
    by (auto simp: ms_put_writes_Some [OF l] ms_inv_def same_ns_ms_ns)
qed

lemma ms_writes_frame:
  assumes "ms_inv s"
  shows "map_option (\<lambda>t. t\<lparr>tup_writes := []\<rparr>) (ms_get_tuple (fst (ms_put_writes s cfg ws task path)) c) =
    map_option (\<lambda>t. t\<lparr>tup_writes := []\<rparr>) (ms_get_tuple s c)"
proof (cases "ms_lookup s cfg")
  case None
  then show ?thesis by (simp add: ms_put_writes_def)
next
  case (Some p)
  obtain cid st where p: "p = (cid, st)" by (cases p)
  with Some have l: "ms_lookup s cfg = Some (cid, st)" by simp
  note here = ms_lookup_Some [OF l]
  let ?b = "mput cid (put_writes_stored task path ws st) (ms_ns s cfg)"
  have latest: "latest_id ?b = latest_id (ms_ns s cfg)"
    using here by (intro latest_id_cong keys_mput) simp
  have same: "map_option (\<lambda>st. (ms_tuple c st)\<lparr>tup_writes := []\<rparr>) (map_of ?b i) =
      map_option (\<lambda>st. (ms_tuple c st)\<lparr>tup_writes := []\<rparr>) (map_of (ms_ns s cfg) i)" for i
    using here by (simp add: ms_tuple_def)
  show ?thesis
  proof (cases "same_ns cfg c")
    case True
    then show ?thesis
      using same [of "cfg_id c"] same [of "latest_id (ms_ns s cfg)"] latest
      by (simp add: ms_put_writes_Some [OF l] ms_get_tuple_def ms_lookup_def option.map_comp comp_def
          same_ns_ms_ns [OF True, symmetric])
  next
    case False
    then show ?thesis
      by (simp add: ms_put_writes_Some [OF l] ms_get_tuple_def ms_lookup_def)
  qed
qed

interpretation memory: saver ms_get_tuple ms_put ms_put_writes ms_inv
proof unfold_locales
  fix s and cfg :: config and cp :: checkpoint and md nv
  assume inv: "ms_inv s" and "cp_id cp \<noteq> []"
  then show "ms_get_tuple (fst (ms_put s cfg cp md nv)) (cfg\<lparr>cfg_id := cp_id cp\<rparr>) =
      Some \<lparr>tup_config = cfg\<lparr>cfg_id := cp_id cp\<rparr>,
            tup_checkpoint = cp\<lparr>cp_versions := mcopy (cp_versions cp) nv\<rparr>, tup_metadata = md,
            tup_parent = (if cfg_id cfg \<noteq> [] then Some cfg else None),
            tup_writes = (case ms_get_tuple s (cfg\<lparr>cfg_id := cp_id cp\<rparr>) of None \<Rightarrow> [] | Some t \<Rightarrow> tup_writes t)\<rparr>"
    by (simp add: ms_get_exact ms_put_eq ms_tuple_def split: option.split)
next
  fix s and cfg c :: config and cp :: checkpoint and md nv
  assume "ms_inv s" and exact: "cfg_id c \<noteq> []" and other: "c \<noteq> cfg\<lparr>cfg_id := cp_id cp\<rparr>"
  show "ms_get_tuple (fst (ms_put s cfg cp md nv)) c = ms_get_tuple s c"
  proof (cases "same_ns cfg c")
    case True
    with other have "cp_id cp \<noteq> cfg_id c" by (auto simp: config_eq_iff [of c] same_ns_def)
    with exact True show ?thesis by (simp add: ms_get_exact ms_put_eq same_ns_ms_ns [OF True, symmetric])
  next
    case False
    with exact show ?thesis by (simp add: ms_get_exact ms_put_eq)
  qed
next
  fix s cfg ws task path
  assume "ms_inv s"
  show "(\<exists>u. snd (ms_put_writes s cfg ws task path) = Inr u) \<longleftrightarrow> ms_get_tuple s cfg \<noteq> None"
    by (auto simp: ms_put_writes_def ms_get_tuple_def split: option.splits)
qed (simp_all add: ms_put_inv ms_put_writes_inv ms_writes_frame, simp add: ms_put_eq)

subsection \<open>Listing, the latest checkpoint, pruning and copying\<close>

definition no_options :: list_options where
  "no_options = \<lparr>opt_before = None, opt_filter = [], opt_limit = 0\<rparr>"

lemma latest_id_Max: "latest_id m = Max (set ([] # mkeys m))"
proof -
  have "(\<lambda>cid latest. if cid > latest then cid else latest) = (max :: string \<Rightarrow> string \<Rightarrow> string)"
    by (intro ext) (auto simp: max_def)
  then show ?thesis unfolding latest_id_def by (simp only: Max.set_eq_fold)
qed

lemma sorted_le_last: "sorted xs \<Longrightarrow> x \<in> set xs \<Longrightarrow> x \<le> last xs"
  by (induction xs) auto

lemma latest_id_last:
  assumes "m \<noteq> []"
  shows "latest_id m = last (mkeys m)"
proof -
  have "set (mkeys m) \<noteq> {}" using assms by simp
  then have ne: "mkeys m \<noteq> []" by (simp del: set_mkeys)
  have "Max (set ([] # mkeys m)) = last (mkeys m)"
  proof (rule Max_eqI)
    fix y
    assume "y \<in> set ([] # mkeys m)"
    then show "y \<le> last (mkeys m)" using sorted_le_last [OF sorted_mkeys] by auto
  qed (use ne in \<open>auto simp del: set_mkeys\<close>)
  then show ?thesis by (simp only: latest_id_Max)
qed

lemma latest_id_mput: "latest_id (mput k v m) = max k (latest_id m)"
proof -
  have keys: "set ([] # mkeys (mput k v m)) = insert k (set ([] # mkeys m))" by (auto simp: dom_update)
  show ?thesis unfolding latest_id_Max keys by (rule Max_insert) simp_all
qed

lemma latest_id_Nil [simp]: "latest_id [] = []"
  by (simp add: latest_id_def)

definition list_ids :: "stored gomap \<Rightarrow> list_options \<Rightarrow> string list" where
  "list_ids by_id opts = rev (filter (list_keeps opts by_id) (mkeys by_id))"

lemma list_ids_sorted: "sorted_wrt (>) (list_ids by_id opts)"
proof -
  have "sorted_wrt (<) (filter (list_keeps opts by_id) (mkeys by_id))"
    by (rule sorted_wrt_filter) (simp add: strict_sorted_iff)
  then show ?thesis by (simp add: list_ids_def sorted_wrt_rev)
qed

lemma in_list_ids:
  "cid \<in> set (list_ids by_id opts) \<longleftrightarrow> (\<exists>st. map_of by_id cid = Some st \<and> metadata_matches_filter (st_md st) (opt_filter opts) \<and>
     (case opt_before opts of None \<Rightarrow> True | Some b \<Rightarrow> cfg_id b = [] \<or> cid < cfg_id b))"
  by (auto simp: list_ids_def list_keeps_def in_mkeys_iff simp del: set_mkeys split: option.splits)

lemma list_ids_limit: "list_ids by_id (opts\<lparr>opt_limit := n\<rparr>) = list_ids by_id opts"
proof -
  have "list_keeps (opts\<lparr>opt_limit := n\<rparr>) = list_keeps opts" by (intro ext) (simp add: list_keeps_def split: option.split)
  then show ?thesis by (simp add: list_ids_def)
qed

lemma map_filter_total:
  assumes "\<And>x. x \<in> set xs \<Longrightarrow> f x \<noteq> None"
  shows "List.map_filter f xs = map (\<lambda>x. the (f x)) xs"
  using assms by (induction xs) (auto simp: map_filter_simps split: option.split)

definition tuple_at :: "memory_saver \<Rightarrow> config \<Rightarrow> string \<Rightarrow> cp_tuple" where
  "tuple_at s cfg cid = ms_tuple cfg (the (map_of (ms_ns s cfg) cid))"

lemma ms_list_eq:
  "ms_list s cfg opts =
     map (tuple_at s cfg)
       (if opt_limit opts > 0 then take (nat (opt_limit opts)) (list_ids (ms_ns s cfg) opts)
        else list_ids (ms_ns s cfg) opts)"
proof -
  let ?ids = "list_ids (ms_ns s cfg) opts"
  let ?ids' = "if opt_limit opts > 0 then take (nat (opt_limit opts)) ?ids else ?ids"
  have short: "(if opt_limit opts > 0 \<and> int (length ?ids) > opt_limit opts then take (nat (opt_limit opts)) ?ids else ?ids) = ?ids'"
    by auto
  let ?f = "\<lambda>cid. map_option (ms_tuple cfg) (map_of (ms_ns s cfg) cid)"
  have found: "?f cid = Some (tuple_at s cfg cid)" if "cid \<in> set ?ids'" for cid
  proof -
    from that have "cid \<in> set ?ids" by (auto split: if_splits dest: in_set_takeD)
    then show ?thesis by (auto simp: in_list_ids tuple_at_def)
  qed
  have "?f cid \<noteq> None" if "cid \<in> set ?ids'" for cid unfolding found [OF that] by (rule option.distinct)
  then have "List.map_filter ?f ?ids' = map (\<lambda>cid. the (?f cid)) ?ids'" by (rule map_filter_total)
  also have "\<dots> = map (tuple_at s cfg) ?ids'"
    by (intro map_cong refl) (simp only: found option.sel)
  finally show ?thesis
    unfolding ms_list_def Let_def list_ids_def [symmetric] short .
qed

lemma tuple_at_id:
  assumes "ms_inv s" and "map_of (ms_ns s cfg) cid = Some st"
  shows "cp_id (tup_checkpoint (tuple_at s cfg cid)) = cid"
  using ms_invD [OF assms] assms(2) by (simp add: tuple_at_def ms_tuple_def)

lemma list_ids_no_options: "list_ids by_id no_options = rev (mkeys by_id)"
proof -
  have "list_keeps no_options by_id cid" if "cid \<in> set (mkeys by_id)" for cid
    using that
    by (auto simp: list_keeps_def no_options_def metadata_matches_filter_def in_mkeys_iff
        simp del: set_mkeys split: option.splits)
  then have "filter (list_keeps no_options by_id) (mkeys by_id) = mkeys by_id"
    by (intro filter_True) simp
  then show ?thesis by (simp add: list_ids_def)
qed

lemma ms_list_no_options: "ms_list s cfg no_options = map (tuple_at s cfg) (rev (mkeys (ms_ns s cfg)))"
proof -
  have "opt_limit no_options = 0" by (simp add: no_options_def)
  then show ?thesis by (simp add: ms_list_eq list_ids_no_options)
qed

subsection \<open>Properties of the memory saver\<close>

lemma latest_id_stored:
  assumes "ms_inv s"
  shows "ms_ns s cfg = [] \<and> latest_id (ms_ns s cfg) = [] \<or>
    latest_id (ms_ns s cfg) \<noteq> [] \<and> (\<exists>st. map_of (ms_ns s cfg) (latest_id (ms_ns s cfg)) = Some st \<and> cp_id (st_cp st) = latest_id (ms_ns s cfg))"
proof (cases "ms_ns s cfg = []")
  case False
  then have "set (mkeys (ms_ns s cfg)) \<noteq> {}" by simp
  then have "last (mkeys (ms_ns s cfg)) \<in> set (mkeys (ms_ns s cfg))" by (intro last_in_set) (simp del: set_mkeys)
  then obtain st where "map_of (ms_ns s cfg) (latest_id (ms_ns s cfg)) = Some st"
    by (auto simp: latest_id_last [OF False] in_mkeys_iff simp del: set_mkeys)
  with ms_invD [OF assms this] show ?thesis by auto
qed simp

lemma ms_put_latest:
  assumes "ms_inv s" and "cp_id cp \<noteq> []"
  shows "ms_get_tuple (fst (ms_put s cfg cp md nv)) (cfg\<lparr>cfg_id := []\<rparr>) =
    (case ms_get_tuple s (cfg\<lparr>cfg_id := []\<rparr>) of
       Some latest \<Rightarrow> (if cp_id cp < cp_id (tup_checkpoint latest) then Some latest
                     else ms_get_tuple (fst (ms_put s cfg cp md nv)) (cfg\<lparr>cfg_id := cp_id cp\<rparr>))
     | None \<Rightarrow> ms_get_tuple (fst (ms_put s cfg cp md nv)) (cfg\<lparr>cfg_id := cp_id cp\<rparr>))"
  using latest_id_stored [OF assms(1), of cfg] assms(2)
  by (auto simp: ms_get_tuple_def ms_lookup_def ms_put_eq latest_id_mput max_def ms_tuple_def)

text \<open>
  C17: a put is read back under the position it returns, with the new versions merged in, its
  parent the position it was put from, and the pending writes a checkpoint of that ID already had;
  no other position changes; the latest checkpoint of the namespace, which an empty ID selects, is the
  new one, unless the latest before has a greater ID and stays it; and the parent chain grows by
  exactly the new checkpoint, so history and time travel see every ancestor unchanged.
\<close>

theorem put_extends_history:
  assumes "ms_inv s" and "cp_id cp \<noteq> []"
  shows "(ms_get_tuple (fst (ms_put s cfg cp md nv)) (snd (ms_put s cfg cp md nv)) =
      Some \<lparr>tup_config = cfg\<lparr>cfg_id := cp_id cp\<rparr>,
            tup_checkpoint = cp\<lparr>cp_versions := mcopy (cp_versions cp) nv\<rparr>, tup_metadata = md,
            tup_parent = (if cfg_id cfg \<noteq> [] then Some cfg else None),
            tup_writes = (case ms_get_tuple s (cfg\<lparr>cfg_id := cp_id cp\<rparr>) of None \<Rightarrow> [] | Some t \<Rightarrow> tup_writes t)\<rparr>)
    \<and> (cfg_id c \<noteq> [] \<longrightarrow> c \<noteq> cfg\<lparr>cfg_id := cp_id cp\<rparr> \<longrightarrow>
      ms_get_tuple (fst (ms_put s cfg cp md nv)) c = ms_get_tuple s c)
    \<and> (ms_get_tuple (fst (ms_put s cfg cp md nv)) (cfg\<lparr>cfg_id := []\<rparr>) =
      (case ms_get_tuple s (cfg\<lparr>cfg_id := []\<rparr>) of
         Some latest \<Rightarrow> (if cp_id cp < cp_id (tup_checkpoint latest) then Some latest
                       else ms_get_tuple (fst (ms_put s cfg cp md nv)) (snd (ms_put s cfg cp md nv)))
       | None \<Rightarrow> ms_get_tuple (fst (ms_put s cfg cp md nv)) (snd (ms_put s cfg cp md nv))))
    \<and> (no_link_to ms_get_tuple (cfg\<lparr>cfg_id := cp_id cp\<rparr>) s \<longrightarrow> cp_id cp \<noteq> cfg_id cfg \<longrightarrow>
      history ms_get_tuple (Suc n) (fst (ms_put s cfg cp md nv)) (snd (ms_put s cfg cp md nv)) =
        cp\<lparr>cp_versions := mcopy (cp_versions cp) nv\<rparr> # (if cfg_id cfg = [] then [] else history ms_get_tuple n s cfg))
    \<and> (ms_inv (fst (ms_put s cfg cp md nv)))"
  unfolding memory.put_config
  using memory.get_put [OF assms] memory.get_put_other [OF assms(1)] memory.history_put [OF assms, unfolded memory.put_config]
    ms_put_latest [OF assms] memory.put_inv [OF assms] by (intro conjI impI) simp_all

definition demo_cp :: "string \<Rightarrow> checkpoint" where
  "demo_cp cid = \<lparr>cp_v = 1, cp_id = cid, cp_ts = 0, cp_values = [], cp_versions = [(''x'', 1)], cp_seen = [], cp_next = []\<rparr>"

definition demo_cfg :: "string \<Rightarrow> string \<Rightarrow> config" where
  "demo_cfg thread cid = \<lparr>cfg_thread = thread, cfg_ns = [], cfg_id = cid\<rparr>"

definition demo_saver :: memory_saver where
  "demo_saver = fst (ms_put (fst (ms_put new_memory_saver (demo_cfg ''t'' []) (demo_cp ''c1'') demo_md []))
     (demo_cfg ''t'' ''c1'') (demo_cp ''c2'') demo_md [(''x'', 2)])"

lemma demo_saver_inv: "ms_inv demo_saver"
  unfolding demo_saver_def by (intro ms_put_inv ms_inv_new) (simp_all add: demo_cp_def)

lemma put_extends_history_witness:
  "map_option (\<lambda>t. cp_versions (tup_checkpoint t)) (ms_get_tuple
     (fst (ms_put demo_saver (demo_cfg ''t'' ''c2'') (demo_cp ''c3'') demo_md [(''x'', 3)]))
     (snd (ms_put demo_saver (demo_cfg ''t'' ''c2'') (demo_cp ''c3'') demo_md [(''x'', 3)]))) = Some [(''x'', 3)]"
proof -
  have "cp_id (demo_cp ''c3'') \<noteq> []" "mcopy (cp_versions (demo_cp ''c3'')) [(''x'', 3)] = [(''x'', 3)]"
    by code_simp+
  then show ?thesis
    using put_extends_history [OF demo_saver_inv, of "demo_cp ''c3''" "demo_cfg ''t'' ''c2''" demo_md "[(''x'', 3)]", THEN conjunct1]
    by simp
qed

lemma put_writes_keeps_slots:
  "map_of (st_slots st) key = Some pos \<Longrightarrow> map_of (st_slots (put_writes_stored task path ws st)) key = Some pos"
proof (induction ws rule: rev_induct)
  case (snoc w ws)
  then show ?case
    unfolding put_writes_snoc
    by (cases rule: put_write_step_cases [of "put_writes_stored task path ws st" task "length ws" w path]) auto
qed (simp add: put_writes_stored_def)

text \<open>The slots of a stored checkpoint in the order of its writes.\<close>

lemma slots_in_order:
  assumes "slots_inv st"
  shows "\<exists>keys. distinct keys \<and> set keys = {key. slot st key \<noteq> None} \<and> length keys = length (st_writes st) \<and>
    (\<forall>i < length keys. map_of (st_slots st) (keys ! i) = Some i)"
proof -
  have "\<forall>i \<in> {..<length (st_writes st)}. \<exists>key. map_of (st_slots st) key = Some i"
    using slots_inv_onto [OF assms] by blast
  then obtain f where f: "\<And>i. i < length (st_writes st) \<Longrightarrow> map_of (st_slots st) (f i) = Some i"
    unfolding bchoice_iff lessThan_iff by blast
  let ?keys = "map f [0..<length (st_writes st)]"
  have "inj_on f {..<length (st_writes st)}" by (rule inj_onI) (metis f lessThan_iff option.inject)
  then have "distinct ?keys" by (simp add: distinct_map atLeast0LessThan)
  moreover have "set ?keys = {key. slot st key \<noteq> None}"
  proof (rule set_eqI, rule iffI)
    fix key
    assume "key \<in> {key. slot st key \<noteq> None}"
    then obtain pos where pos: "map_of (st_slots st) key = Some pos" by auto
    with slots_inv_inj [OF assms this f [OF slots_invD(1) [OF assms pos]]] slots_invD(1) [OF assms pos]
    show "key \<in> set ?keys" by auto
  qed (auto simp: f)
  ultimately show ?thesis using f by (intro exI [of _ ?keys]) auto
qed

text \<open>The writes listed after a batch: the slots listed before it, in the same places, then the new ones.\<close>

lemma slots_after_batch:
  assumes inv: "slots_inv st" and st': "st' = put_writes_stored task path ws st"
  shows "\<exists>keys new. distinct (keys @ new) \<and> set keys = {key. slot st key \<noteq> None} \<and>
    set (keys @ new) = {key. slot st' key \<noteq> None} \<and> map Some (st_writes st) = map (slot st) keys \<and>
    map Some (st_writes st') = map (slot st') (keys @ new)"
proof -
  have inv': "slots_inv st'" unfolding st' by (rule put_writes_inv [OF inv])
  have listed: "map Some (st_writes s) = map (slot s) ks"
    if "length ks = length (st_writes s)" "\<forall>i < length ks. map_of (st_slots s) (ks ! i) = Some i" for s ks
    using that by (intro nth_equalityI) (simp_all add: slot_def)
  obtain keys where keys: "distinct keys" "set keys = {key. slot st key \<noteq> None}" "length keys = length (st_writes st)"
    "\<forall>i < length keys. map_of (st_slots st) (keys ! i) = Some i" using slots_in_order [OF inv] by blast
  obtain all where all: "distinct all" "set all = {key. slot st' key \<noteq> None}" "length all = length (st_writes st')"
    "\<forall>i < length all. map_of (st_slots st') (all ! i) = Some i" using slots_in_order [OF inv'] by blast
  have le: "length keys \<le> length all" using put_writes_length [of st task path ws] keys(3) all(3) by (simp add: st')
  have "take (length keys) all = keys"
  proof (rule nth_equalityI)
    fix i
    assume "i < length (take (length keys) all)"
    then have i: "i < length keys" "i < length all" by simp_all
    then have "map_of (st_slots st') (keys ! i) = Some i" using put_writes_keeps_slots keys(4) by (simp add: st')
    with all(4) i show "take (length keys) all ! i = keys ! i" using slots_inv_inj [OF inv'] by simp
  qed (use le in simp)
  then have "all = keys @ drop (length keys) all" by (metis append_take_drop_id)
  with keys all listed [OF keys(3,4)] listed [OF all(3,4)] show ?thesis by metis
qed

lemma mput_same: "map_of m k = Some v \<Longrightarrow> mput k v m = m"
  by (induction m) auto

lemma ms_put_writes_again:
  assumes "ms_inv s" and "ms_lookup s cfg = Some (cid, st)" and "ms_put_writes s cfg ws task path = (s', r)"
  shows "ms_lookup s' cfg = Some (cid, put_writes_stored task path ws st)" and "ms_put_writes s' cfg ws task path = (s', Inr ())"
proof -
  let ?st = "put_writes_stored task path ws st"
  have s': "s' = ms_set_ns cfg (mput cid ?st (ms_ns s cfg)) s"
    using assms(3) by (simp add: ms_put_writes_Some [OF assms(2)])
  note here = ms_lookup_Some [OF assms(2)]
  have "latest_id (mput cid ?st (ms_ns s cfg)) = latest_id (ms_ns s cfg)"
    using here by (intro latest_id_cong keys_mput) simp
  with assms(2) here show at: "ms_lookup s' cfg = Some (cid, ?st)"
    by (auto simp: s' ms_lookup_def split: if_splits)
  have "slots_inv st" using ms_invD [OF assms(1) here] by simp
  then have "put_writes_stored task path ws ?st = ?st" by (rule put_writes_twice)
  moreover have "mput cid ?st (ms_ns s' cfg) = ms_ns s' cfg" by (rule mput_same) (simp add: s')
  moreover have "ms_set_ns cfg (ms_ns s' cfg) s' = s'"
    unfolding ms_set_ns_def by (simp add: s' ms_set_ns_def ms_ns_def mput_same)
  ultimately show "ms_put_writes s' cfg ws task path = (s', Inr ())" by (simp add: ms_put_writes_Some [OF at])
qed

text \<open>
  C18: what \<open>PutWrites\<close> does to the saver. Where there is no checkpoint it fails and changes nothing.
  Otherwise it succeeds on the checkpoint its position selects: in each slot of it a positional slot
  keeps the first write it ever got, a reserved slot holds the last one, and other tasks' slots are
  untouched; what is read back lists the content of every slot exactly once, the slots that were listed
  before in their old places and the new ones behind them; the rest of the checkpoint's tuple and the
  tuples at all other positions stay as they were; and recording the same batch again changes nothing.
\<close>

theorem put_writes_fills_slots:
  assumes inv: "ms_inv s"
  shows "(ms_lookup s cfg = None \<longrightarrow> (\<exists>e. ms_put_writes s cfg ws task path = (s, Inl e))) \<and>
    (\<forall>cid st. ms_lookup s cfg = Some (cid, st) \<longrightarrow>
      (\<exists>s' st' tup keys new. ms_put_writes s cfg ws task path = (s', Inr ()) \<and> ms_lookup s' cfg = Some (cid, st') \<and>
        (\<forall>task' idx. slot st' (task', idx) =
           (if task' = task then slot_after task path ws idx (slot st (task, idx)) else slot st (task', idx))) \<and>
        ms_get_tuple s cfg = Some tup \<and> ms_get_tuple s' cfg = Some (tup\<lparr>tup_writes := st_writes st'\<rparr>) \<and>
        distinct (keys @ new) \<and> set keys = {key. slot st key \<noteq> None} \<and> set (keys @ new) = {key. slot st' key \<noteq> None} \<and>
        map Some (tup_writes tup) = map (slot st) keys \<and> map Some (st_writes st') = map (slot st') (keys @ new) \<and>
        (\<forall>c. cfg_id c \<noteq> [] \<and> c \<noteq> cfg\<lparr>cfg_id := cid\<rparr> \<longrightarrow> ms_get_tuple s' c = ms_get_tuple s c) \<and>
        ms_put_writes s' cfg ws task path = (s', Inr ()) \<and> ms_inv s'))"
proof (intro conjI allI impI)
  show "\<exists>e. ms_put_writes s cfg ws task path = (s, Inl e)" if "ms_lookup s cfg = None"
    using that by (simp add: ms_put_writes_def)
next
  fix cid st
  assume at: "ms_lookup s cfg = Some (cid, st)"
  let ?st = "put_writes_stored task path ws st"
  obtain s' where s': "ms_put_writes s cfg ws task path = (s', Inr ())" by (simp add: ms_put_writes_Some [OF at])
  note later = ms_put_writes_again [OF inv at s']
  have slots: "slots_inv st" using ms_invD [OF inv ms_lookup_Some [OF at]] by simp
  obtain keys new where keys: "distinct (keys @ new)" "set keys = {key. slot st key \<noteq> None}"
    "set (keys @ new) = {key. slot ?st key \<noteq> None}" "map Some (st_writes st) = map (slot st) keys"
    "map Some (st_writes ?st) = map (slot ?st) (keys @ new)" using slots_after_batch [OF slots refl] by blast
  have others: "ms_get_tuple s' c = ms_get_tuple s c" if "cfg_id c \<noteq> []" "c \<noteq> cfg\<lparr>cfg_id := cid\<rparr>" for c
  proof (cases "same_ns cfg c")
    case True
    with that(2) have "cid \<noteq> cfg_id c" by (auto simp: config_eq_iff [of c] same_ns_def)
    with that(1) s' True show ?thesis
      by (auto simp: ms_put_writes_Some [OF at] ms_get_exact same_ns_ms_ns [OF True, symmetric])
  next
    case False
    with that(1) s' show ?thesis by (auto simp: ms_put_writes_Some [OF at] ms_get_exact)
  qed
  have here: "ms_get_tuple s cfg = Some (ms_tuple cfg st)"
    "ms_get_tuple s' cfg = Some ((ms_tuple cfg st)\<lparr>tup_writes := st_writes ?st\<rparr>)"
    using at later(1) by (simp_all add: ms_get_tuple_def ms_tuple_def)
  have "map Some (tup_writes (ms_tuple cfg st)) = map (slot st) keys" using keys(4) by (simp add: ms_tuple_def)
  moreover have "ms_inv s'" using ms_put_writes_inv [OF inv, of cfg ws task path] s' by simp
  moreover have "\<forall>c. cfg_id c \<noteq> [] \<and> c \<noteq> cfg\<lparr>cfg_id := cid\<rparr> \<longrightarrow> ms_get_tuple s' c = ms_get_tuple s c"
    using others by blast
  moreover have "\<forall>task' idx. slot ?st (task', idx) =
      (if task' = task then slot_after task path ws idx (slot st (task, idx)) else slot st (task', idx))"
    using slot_put_writes [OF slots] by blast
  ultimately show "\<exists>s' st' tup keys new. ms_put_writes s cfg ws task path = (s', Inr ()) \<and> ms_lookup s' cfg = Some (cid, st') \<and>
        (\<forall>task' idx. slot st' (task', idx) =
           (if task' = task then slot_after task path ws idx (slot st (task, idx)) else slot st (task', idx))) \<and>
        ms_get_tuple s cfg = Some tup \<and> ms_get_tuple s' cfg = Some (tup\<lparr>tup_writes := st_writes st'\<rparr>) \<and>
        distinct (keys @ new) \<and> set keys = {key. slot st key \<noteq> None} \<and> set (keys @ new) = {key. slot st' key \<noteq> None} \<and>
        map Some (tup_writes tup) = map (slot st) keys \<and> map Some (st_writes st') = map (slot st') (keys @ new) \<and>
        (\<forall>c. cfg_id c \<noteq> [] \<and> c \<noteq> cfg\<lparr>cfg_id := cid\<rparr> \<longrightarrow> ms_get_tuple s' c = ms_get_tuple s c) \<and>
        ms_put_writes s' cfg ws task path = (s', Inr ()) \<and> ms_inv s'"
    using s' later here keys(1,2,3,5) by blast
qed

lemma put_writes_fills_slots_witness:
  "let w = \<lparr>w_task = [], w_path = [], w_channel = ''x'', w_value = VInt 1\<rparr>
   in \<exists>s' cid st'. ms_put_writes demo_saver (demo_cfg ''t'' ''c1'') [w] ''t1'' [] = (s', Inr ()) \<and>
        ms_lookup s' (demo_cfg ''t'' ''c1'') = Some (cid, st') \<and> slot st' (''t1'', 0) = Some (w\<lparr>w_task := ''t1''\<rparr>)"
proof -
  let ?w = "\<lparr>w_task = [], w_path = [], w_channel = ''x'', w_value = VInt 1\<rparr>" and ?cfg = "demo_cfg ''t'' ''c1''"
  have "map_option (\<lambda>(cid, st). slot_after ''t1'' [] [?w] 0 (slot st (''t1'', 0))) (ms_lookup demo_saver ?cfg) =
      Some (Some (?w\<lparr>w_task := ''t1''\<rparr>))" by code_simp
  then obtain cid st where at: "ms_lookup demo_saver ?cfg = Some (cid, st)"
    "slot_after ''t1'' [] [?w] 0 (slot st (''t1'', 0)) = Some (?w\<lparr>w_task := ''t1''\<rparr>)" by auto
  from put_writes_fills_slots [OF demo_saver_inv, of ?cfg "[?w]" "''t1''" "[]", THEN conjunct2, rule_format, OF at(1)] at(2)
  show ?thesis by auto
qed

text \<open>
  \<open>List\<close> returns, in strictly descending ID order, exactly the checkpoints of the namespace that
  lie before the given one and match the metadata filter, cut to the limit; and the checkpoint an
  empty ID selects is the first of the unrestricted list.
\<close>

theorem list_newest_first:
  assumes "ms_inv s" and full_def: "full = ms_list s cfg (opts\<lparr>opt_limit := 0\<rparr>)"
  shows "(ms_list s cfg opts = (if opt_limit opts > 0 then take (nat (opt_limit opts)) full else full))
    \<and> (sorted_wrt (>) (map (\<lambda>t. cp_id (tup_checkpoint t)) full))
    \<and> (t \<in> set full \<longleftrightarrow> (\<exists>cid st. map_of (ms_ns s cfg) cid = Some st \<and> t = ms_tuple cfg st \<and>
           metadata_matches_filter (st_md st) (opt_filter opts) \<and>
           (case opt_before opts of None \<Rightarrow> True | Some b \<Rightarrow> cfg_id b = [] \<or> cid < cfg_id b)))
    \<and> (ms_get_tuple s (cfg\<lparr>cfg_id := []\<rparr>) =
           (case ms_list s (cfg\<lparr>cfg_id := []\<rparr>) no_options of [] \<Rightarrow> None | latest # _ \<Rightarrow> Some latest))"
proof (rule conjI [OF _ conjI [OF _ conjI]])
  have full: "full = map (tuple_at s cfg) (list_ids (ms_ns s cfg) opts)"
    by (simp add: full_def ms_list_eq list_ids_limit)
  show "ms_list s cfg opts = (if opt_limit opts > 0 then take (nat (opt_limit opts)) full else full)"
    by (simp add: full ms_list_eq take_map)
  have "map (\<lambda>t. cp_id (tup_checkpoint t)) full = list_ids (ms_ns s cfg) opts"
    unfolding full map_map comp_def
    by (rule map_idI) (auto simp: in_list_ids tuple_at_id [OF assms(1)])
  then show "sorted_wrt (>) (map (\<lambda>t. cp_id (tup_checkpoint t)) full)" by (simp add: list_ids_sorted)
  show "t \<in> set full \<longleftrightarrow> (\<exists>cid st. map_of (ms_ns s cfg) cid = Some st \<and> t = ms_tuple cfg st \<and>
           metadata_matches_filter (st_md st) (opt_filter opts) \<and>
           (case opt_before opts of None \<Rightarrow> True | Some b \<Rightarrow> cfg_id b = [] \<or> cid < cfg_id b))"
  proof -
    have "t \<in> set full \<longleftrightarrow> (\<exists>cid. cid \<in> set (list_ids (ms_ns s cfg) opts) \<and> t = tuple_at s cfg cid)"
      unfolding full by auto
    also have "\<dots> \<longleftrightarrow> (\<exists>cid st. map_of (ms_ns s cfg) cid = Some st \<and> t = ms_tuple cfg st \<and>
           metadata_matches_filter (st_md st) (opt_filter opts) \<and>
           (case opt_before opts of None \<Rightarrow> True | Some b \<Rightarrow> cfg_id b = [] \<or> cid < cfg_id b))"
      by (intro ex_cong1) (auto simp: in_list_ids tuple_at_def)
    finally show ?thesis .
  qed
  show "ms_get_tuple s (cfg\<lparr>cfg_id := []\<rparr>) =
           (case ms_list s (cfg\<lparr>cfg_id := []\<rparr>) no_options of [] \<Rightarrow> None | latest # _ \<Rightarrow> Some latest)"
  proof (cases "ms_ns s cfg = []")
    case True
    then show ?thesis by (simp add: ms_get_tuple_def ms_lookup_def ms_list_eq no_options_def list_ids_def)
  next
    case False
    then have ne: "mkeys (ms_ns s cfg) \<noteq> []" by (metis image_is_empty set_empty set_mkeys)
    let ?l = "last (mkeys (ms_ns s cfg))"
    have "?l \<in> set (mkeys (ms_ns s cfg))" using ne by (rule last_in_set)
    then obtain st where st: "map_of (ms_ns s cfg) ?l = Some st" by (auto simp: in_mkeys_iff simp del: set_mkeys)
    have l: "latest_id (ms_ns s cfg) = ?l" by (rule latest_id_last [OF False])
    have nonempty: "?l \<noteq> []" using ms_invD [OF assms(1) st] by simp
    have "list_ids (ms_ns s cfg) no_options = ?l # tl (list_ids (ms_ns s cfg) no_options)"
      using ne by (simp add: list_ids_no_options hd_rev [symmetric])
    then obtain rest where "list_ids (ms_ns s cfg) no_options = ?l # rest" by blast
    then have "ms_list s (cfg\<lparr>cfg_id := []\<rparr>) no_options =
        tuple_at s (cfg\<lparr>cfg_id := []\<rparr>) ?l # map (tuple_at s (cfg\<lparr>cfg_id := []\<rparr>)) rest"
      by (simp add: ms_list_eq) (simp add: no_options_def)
    then show ?thesis
      using st nonempty l by (simp add: ms_get_tuple_def ms_lookup_def tuple_at_def)
  qed
qed

lemma list_newest_first_witness:
  "sorted_wrt (>) (map (\<lambda>t. cp_id (tup_checkpoint t)) (ms_list demo_saver (demo_cfg ''t'' []) (no_options\<lparr>opt_limit := 0\<rparr>)))
   \<and> length (ms_list demo_saver (demo_cfg ''t'' []) (no_options\<lparr>opt_limit := 0\<rparr>)) = 2"
proof
  show "length (ms_list demo_saver (demo_cfg ''t'' []) (no_options\<lparr>opt_limit := 0\<rparr>)) = 2" by code_simp
qed (rule list_newest_first [OF demo_saver_inv refl, THEN conjunct2, THEN conjunct1])

lemma ms_ns_delete_thread [simp]:
  "ms_ns (ms_delete_thread s thread) cfg = (if cfg_thread cfg = thread then [] else ms_ns s cfg)"
  by (simp add: ms_delete_thread_def ms_ns_def mgetd_def)

lemma map_of_fold_mput_f:
  "map_of (fold (\<lambda>k acc. mput k (f k (mgetd acc k [])) acc) ks m) k' =
     (if k' \<in> set ks then Some (f k' (mgetd m k' [])) else map_of m k')" if "distinct ks" for ks
  using that by (induction ks arbitrary: m) auto

lemma ms_ns_copy_thread:
  "map_of (ms_ns (ms_copy_thread s src dst) cfg) =
     (if cfg_thread cfg = dst then map_of (ms_ns s cfg) ++ map_of (ms_ns s (cfg\<lparr>cfg_thread := src\<rparr>))
      else map_of (ms_ns s cfg))"
proof (cases "mgetd s src [] = []")
  case True
  then show ?thesis by (simp add: ms_copy_thread_def ms_ns_def)
next
  case False
  let ?nss = "mgetd s src []" and ?dst = "mgetd s dst []"
  let ?m = "fold (\<lambda>ns acc. mput ns (mcopy (mgetd acc ns []) (mgetd ?nss ns [])) acc) (mkeys ?nss) ?dst"
  have "map_of ?m ns = (if ns \<in> set (mkeys ?nss) then Some (mcopy (mgetd ?dst ns []) (mgetd ?nss ns [])) else map_of ?dst ns)"
    for ns by (rule map_of_fold_mput_f [of _ "\<lambda>ns v. mcopy v (mgetd ?nss ns [])"]) simp
  then have "map_of (mgetd ?m ns []) = map_of (mgetd ?dst ns []) ++ map_of (mgetd ?nss ns [])" for ns
    by (auto simp: mgetd_def in_mkeys_iff simp del: set_mkeys split: option.split)
  then show ?thesis using False by (simp add: ms_copy_thread_def ms_ns_def Let_def)
qed

lemma latest_id_in:
  assumes "m \<noteq> []"
  shows "\<exists>v. map_of m (latest_id m) = Some v"
proof -
  have "set (mkeys m) \<noteq> {}" using assms by simp
  then have "mkeys m \<noteq> []" by (simp del: set_mkeys)
  then have "last (mkeys m) \<in> set (mkeys m)" by (rule last_in_set)
  then show ?thesis using latest_id_last [OF assms] by (auto simp: in_mkeys_iff simp del: set_mkeys)
qed

lemma keep_latest_Nil [simp]: "keep_latest [] = []"
  by (simp add: keep_latest_def)

lemma map_of_keep_latest: "map_of (keep_latest m) k = (if k = latest_id m then map_of m k else None)"
  by (auto simp: keep_latest_def in_mkeys_iff simp del: set_mkeys)

lemma mkeys_keep_latest:
  assumes "m \<noteq> []"
  shows "mkeys (keep_latest m) = [latest_id m]"
proof -
  have "set (mkeys (keep_latest m)) = {latest_id m}"
    using latest_id_in [OF assms] by (auto simp: in_mkeys_iff map_of_keep_latest simp del: set_mkeys split: if_splits)
  then show ?thesis
    by (intro sorted_distinct_set_unique) simp_all
qed

lemma ms_ns_prune_latest:
  "ms_ns (prune_one PruneKeepLatest thread s) cfg =
     (if cfg_thread cfg = thread then keep_latest (ms_ns s cfg) else ms_ns s cfg)"
proof (cases "mgetd s thread [] = []")
  case True
  then show ?thesis by (simp add: prune_one_def ms_ns_def)
next
  case False
  then show ?thesis
    by (auto simp: prune_one_def ms_ns_def Let_def mgetd_def in_mkeys_iff simp del: set_mkeys split: option.split)
qed

text \<open>
  Pruning a thread with keep-latest leaves in each of its namespaces exactly the checkpoint
  that was the head of the list, with its pending writes, and changes no other thread; deleting
  leaves nothing; an unknown strategy is refused and changes nothing.
\<close>

theorem prune_keeps_exactly_latest:
  assumes "cfg_thread cfg = thread"
  shows "(ms_list (fst (ms_prune s [thread] PruneKeepLatest)) cfg no_options = take 1 (ms_list s cfg no_options))
    \<and> (cfg_thread other \<noteq> thread \<longrightarrow>
      ms_ns (fst (ms_prune s [thread] PruneKeepLatest)) other = ms_ns s other \<and>
      ms_ns (fst (ms_prune s [thread] PruneDeleteAll)) other = ms_ns s other)
    \<and> (ms_ns (fst (ms_prune s [thread] PruneDeleteAll)) cfg = [])
    \<and> (ms_prune s threads (PruneUnknown t) = (s, Inl (EText (''checkpoint: unknown prune strategy '' @ go_quote t))))"
proof (rule conjI [OF _ conjI [OF impI conjI]])
  let ?m = "ms_ns s cfg"
  have ns: "ms_ns (fst (ms_prune s [thread] PruneKeepLatest)) c =
      (if cfg_thread c = thread then keep_latest (ms_ns s c) else ms_ns s c)" for c
    by (simp add: ms_prune_def ms_ns_prune_latest)
  show "ms_list (fst (ms_prune s [thread] PruneKeepLatest)) cfg no_options = take 1 (ms_list s cfg no_options)"
  proof (cases "?m = []")
    case True
    then show ?thesis using assms ns by (simp add: ms_list_no_options)
  next
    case False
    obtain st where st: "map_of ?m (latest_id ?m) = Some st" using latest_id_in [OF False] by blast
    have "set (mkeys ?m) \<noteq> {}" using False by simp
    then have "mkeys ?m \<noteq> []" by (simp del: set_mkeys)
    then have "take 1 (rev (mkeys ?m)) = [latest_id ?m]"
      by (simp add: latest_id_last [OF False] take_Suc hd_rev)
    then show ?thesis
      using assms ns [of cfg] st
      by (simp add: ms_list_no_options mkeys_keep_latest [OF False] take_map tuple_at_def map_of_keep_latest)
  qed
  show "cfg_thread other \<noteq> thread \<Longrightarrow>
      ms_ns (fst (ms_prune s [thread] PruneKeepLatest)) other = ms_ns s other \<and>
      ms_ns (fst (ms_prune s [thread] PruneDeleteAll)) other = ms_ns s other"
    using ns [of other] by (simp add: ms_prune_def prune_one_def ms_ns_def Let_def mgetd_def)
  show "ms_ns (fst (ms_prune s [thread] PruneDeleteAll)) cfg = []"
    using assms by (simp add: ms_prune_def prune_one_def ms_ns_def Let_def mgetd_def split: option.split)
qed (simp add: ms_prune_def)

lemma prune_keeps_exactly_latest_witness:
  "map (\<lambda>t. cp_id (tup_checkpoint t)) (ms_list (fst (ms_prune demo_saver [''t''] PruneKeepLatest)) (demo_cfg ''t'' []) no_options)
     = [''c2'']"
proof -
  have "map (\<lambda>t. cp_id (tup_checkpoint t)) (take 1 (ms_list demo_saver (demo_cfg ''t'' []) no_options)) = [''c2'']"
    "cfg_thread (demo_cfg ''t'' []) = ''t''" by code_simp+
  then show ?thesis using prune_keeps_exactly_latest [of "demo_cfg ''t'' []" "''t''" demo_saver, THEN conjunct1] by simp
qed

text \<open>
  Copying a thread gives the destination every tuple of the source, but with its parent link
  still on the source thread: once the source is deleted, the copy's links lead nowhere and its
  parent chain ends at the first checkpoint.
\<close>

theorem copied_parent_links_stay_on_source:
  assumes "ms_get_tuple s cfg = Some t" and "cfg_id cfg \<noteq> []" and "cfg_thread cfg = src" and "src \<noteq> dst"
    and "tup_parent t = Some p" and "cfg_thread p = src"
  shows "(ms_get_tuple (ms_copy_thread s src dst) (cfg\<lparr>cfg_thread := dst\<rparr>) =
      Some (t\<lparr>tup_config := (tup_config t)\<lparr>cfg_thread := dst\<rparr>\<rparr>))
    \<and> (history ms_get_tuple n (ms_delete_thread (ms_copy_thread s src dst) src) (cfg\<lparr>cfg_thread := dst\<rparr>) =
      take n [tup_checkpoint t])"
proof (rule conjI)
  from assms(1,2) obtain st where st: "map_of (ms_ns s cfg) (cfg_id cfg) = Some st" "t = ms_tuple cfg st"
    by (auto simp: ms_get_exact)
  have src: "cfg\<lparr>cfg_thread := dst, cfg_thread := src\<rparr> = cfg" using assms(3) by simp
  have at: "map_of (ms_ns (ms_copy_thread s src dst) (cfg\<lparr>cfg_thread := dst\<rparr>)) (cfg_id cfg) = Some st"
    by (simp add: ms_ns_copy_thread src st map_add_Some_iff)
  then show "ms_get_tuple (ms_copy_thread s src dst) (cfg\<lparr>cfg_thread := dst\<rparr>) =
      Some (t\<lparr>tup_config := (tup_config t)\<lparr>cfg_thread := dst\<rparr>\<rparr>)"
    using assms(2) st(2) by (simp add: ms_get_exact ms_tuple_def)
  let ?s = "ms_delete_thread (ms_copy_thread s src dst) src"
  have here: "ms_get_tuple ?s (cfg\<lparr>cfg_thread := dst\<rparr>) = Some (ms_tuple (cfg\<lparr>cfg_thread := dst\<rparr>) st)"
    using assms(2,4) at by (simp add: ms_get_exact)
  have gone: "ms_get_tuple ?s p = None" using assms(6) by (simp add: ms_get_tuple_def ms_lookup_def)
  have nohist: "history ms_get_tuple m ?s p = []" for m using gone by (cases m) simp_all
  show "history ms_get_tuple n ?s (cfg\<lparr>cfg_thread := dst\<rparr>) = take n [tup_checkpoint t]"
    using here nohist assms(5) st(2) by (cases n) (simp_all add: ms_tuple_def)
qed

lemma copied_parent_links_stay_on_source_witness:
  "length (history ms_get_tuple 5 demo_saver (demo_cfg ''t'' ''c2'')) = 2 \<and>
   length (history ms_get_tuple 5 (ms_delete_thread (ms_copy_thread demo_saver ''t'' ''u'') ''t'') (demo_cfg ''u'' ''c2'')) = 1"
proof
  show "length (history ms_get_tuple 5 demo_saver (demo_cfg ''t'' ''c2'')) = 2"
    by code_simp
  have "tup_parent (the (ms_get_tuple demo_saver (demo_cfg ''t'' ''c2''))) = Some (demo_cfg ''t'' ''c1'')"
    "ms_get_tuple demo_saver (demo_cfg ''t'' ''c2'') \<noteq> None" by code_simp+
  then obtain t where t: "ms_get_tuple demo_saver (demo_cfg ''t'' ''c2'') = Some t"
    "tup_parent t = Some (demo_cfg ''t'' ''c1'')" by auto
  show "length (history ms_get_tuple 5 (ms_delete_thread (ms_copy_thread demo_saver ''t'' ''u'') ''t'') (demo_cfg ''u'' ''c2'')) = 1"
    using copied_parent_links_stay_on_source [OF t(1) _ _ _ t(2), of "''t''" "''u''" 5, THEN conjunct2]
    by (simp add: demo_cfg_def)
qed

lemma ms_ns_drop:
  "map_of (ms_ns (ms_delete_for_runs s run_ids) cfg) cid =
     (case map_of (ms_ns s cfg) cid of
        None \<Rightarrow> None
      | Some st \<Rightarrow> (if run_ids \<noteq> [] \<and> md_run_id (st_md st) \<noteq> [] \<and> md_run_id (st_md st) \<in> set run_ids
                    then None else Some st))"
proof -
  have nil: "map_of m k = None \<Longrightarrow> k \<notin> set (mkeys m)" for m :: "'b gomap" and k
    by (simp add: in_mkeys_iff del: set_mkeys)
  have drop: "map_of (drop_runs run_ids b) cid =
      (case map_of b cid of None \<Rightarrow> None
       | Some st \<Rightarrow> (if md_run_id (st_md st) \<noteq> [] \<and> md_run_id (st_md st) \<in> set run_ids then None else Some st))" for b
    by (auto simp: drop_runs_def in_mkeys_iff simp del: set_mkeys split: option.split)
  have empty [simp]: "drop_runs run_ids [] = []" by (simp add: drop_runs_def)
  have level: "mgetd (drop_empty f m) k [] = f (mgetd m k [])" if "f [] = []" for f :: "'c gomap \<Rightarrow> 'c gomap" and m k
    using that by (auto simp: drop_empty_def mgetd_def in_mkeys_iff simp del: set_mkeys split: option.split)
  have e2: "drop_empty (drop_runs run_ids) [] = []" by (simp add: drop_empty_def)
  show ?thesis
  proof (cases "run_ids = []")
    case True
    then show ?thesis by (simp add: ms_delete_for_runs_def split: option.split)
  next
    case False
    then have "ms_ns (ms_delete_for_runs s run_ids) cfg = drop_runs run_ids (ms_ns s cfg)"
      by (simp add: ms_delete_for_runs_def ms_ns_def level [of "drop_empty (drop_runs run_ids)"] e2 level [of "drop_runs run_ids"])
    then show ?thesis using False by (simp add: drop split: option.split)
  qed
qed

subsection \<open>The write cache\<close>

text \<open>
  \<open>InMemoryCache\<close>: entries per namespace and key with an absolute expiry, checked on read. The clock
  is an argument; \<open>None\<close> is the zero time of an entry that never expires.
\<close>

record cache_entry =
  ce_writes :: "cp_write list"
  ce_expires :: "int option"

type_synonym write_cache = "cache_entry gomap gomap"

definition cache_get :: "int \<Rightarrow> string \<Rightarrow> string \<Rightarrow> write_cache \<Rightarrow> write_cache \<times> cp_write list option" where
  "cache_get now ns key c =
     (case map_of (mgetd c ns []) key of
        None \<Rightarrow> (c, None)
      | Some entry \<Rightarrow>
          (case ce_expires entry of
             Some t \<Rightarrow> (if now < t then (c, Some (ce_writes entry)) else (mput ns (mdel key (mgetd c ns [])) c, None))
           | None \<Rightarrow> (c, Some (ce_writes entry))))"

definition cache_set :: "int \<Rightarrow> string \<Rightarrow> string \<Rightarrow> cp_write list \<Rightarrow> int \<Rightarrow> write_cache \<Rightarrow> write_cache" where
  "cache_set now ns key ws ttl c =
     mput ns (mput key \<lparr>ce_writes = ws, ce_expires = (if ttl > 0 then Some (now + ttl) else None)\<rparr> (mgetd c ns [])) c"

definition cache_clear :: "string \<Rightarrow> write_cache \<Rightarrow> write_cache" where
  "cache_clear ns c = mdel ns c"

text \<open>
  A cached batch is returned until its lifetime is over and never after, also when it has no
  lifetime; other keys and namespaces are not affected, and clearing a namespace empties it.
\<close>

theorem cache_returns_within_lifetime:
  shows "(snd (cache_get now' ns key (cache_set now ns key ws ttl c)) =
      (if ttl \<le> 0 \<or> now' < now + ttl then Some ws else None))
    \<and> ((ns', key') \<noteq> (ns, key) \<longrightarrow>
      snd (cache_get now' ns' key' (cache_set now ns key ws ttl c)) = snd (cache_get now' ns' key' c))
    \<and> (snd (cache_get now' ns key (cache_clear ns c)) = None)"
proof (intro conjI impI)
  show "snd (cache_get now' ns key (cache_set now ns key ws ttl c)) =
      (if ttl \<le> 0 \<or> now' < now + ttl then Some ws else None)"
    by (simp add: cache_get_def cache_set_def)
  have "map_of (mgetd (cache_set now ns key ws ttl c) ns' []) key' = map_of (mgetd c ns' []) key'"
    if "(ns', key') \<noteq> (ns, key)"
    using that by (auto simp: cache_set_def)
  then show "snd (cache_get now' ns' key' (cache_set now ns key ws ttl c)) = snd (cache_get now' ns' key' c)"
    if "(ns', key') \<noteq> (ns, key)"
    using that by (simp add: cache_get_def split: option.split)
  show "snd (cache_get now' ns key (cache_clear ns c)) = None"
    by (simp add: cache_get_def cache_clear_def mgetd_def)
qed

lemma cache_returns_within_lifetime_witness:
  "snd (cache_get 5 ''writes/a'' ''k2'' (cache_set 0 ''writes/a'' ''k1'' [] 3 [])) = None"
  using cache_returns_within_lifetime [of 5 "''writes/a''" "''k1''" 0 "[]" 3 "[]" "''writes/a''" "''k2''", THEN conjunct2, THEN conjunct1, THEN mp]
  by (simp add: cache_get_def)

end
