(* ===== verification/TaskIds.thy ===== *)
theory TaskIds
  imports Checkpoint "HOL-Library.Word"
begin

section \<open>Task identities and replay keys (langgraph/graph/taskid.go, delta_helpers.go)\<close>

text \<open>
  A planned task is named by a 64-bit FNV-1a hash; its writes are stored under that name and the
  path of its dispatch, and savers replay a checkpoint's writes sorted by path, then task ID. The
  writes of exit durability carry synthetic IDs and paths built so that this order is the order of
  the run. Strings are byte lists. The JSON text of a Send argument is an argument of the hash.
\<close>

unbundle bit_operations_syntax

subsection \<open>FNV-1a\<close>

definition fnv_offset :: "64 word" where "fnv_offset = 14695981039346656037"
definition fnv_prime :: "64 word" where "fnv_prime = 1099511628211"

definition fnv_byte :: "char \<Rightarrow> 64 word \<Rightarrow> 64 word" where
  "fnv_byte c h = (h XOR of_nat (of_char c)) * fnv_prime"

definition fnv1a :: "string \<Rightarrow> 64 word" where
  "fnv1a s = fold fnv_byte s fnv_offset"

definition nul :: string where "nul = [CHR 0x00]"

definition task_id :: "string \<Rightarrow> int \<Rightarrow> string \<Rightarrow> string \<Rightarrow> string" where
  "task_id cpid step node arg_text =
     fmt_hex 16 (unat (fnv1a (cpid @ nul @ show_int step @ nul @ node @ nul @ arg_text)))"

definition fn_task_id :: "string \<Rightarrow> string \<Rightarrow> int \<Rightarrow> string \<Rightarrow> string \<Rightarrow> int \<Rightarrow> string" where
  "fn_task_id cpid ns step name parent_path call_idx =
     fmt_hex 16 (unat (fnv1a (cpid @ nul @ ns @ nul @ show_int step @ nul @ name @ nul @ parent_path @ nul
                              @ show_int call_idx @ nul)))"

lemma unat_64_less: "unat (x :: 64 word) < 16 ^ 16"
proof -
  have "unat x < 2 ^ LENGTH(64)" by (rule unsigned_less)
  then show ?thesis by simp
qed

lemma length_task_id [simp]: "length (task_id cpid step node arg_text) = 16"
  unfolding task_id_def by (rule length_fmt_hex [OF unat_64_less]) simp

lemma length_fn_task_id [simp]: "length (fn_task_id cpid ns step name parent_path call_idx) = 16"
  unfolding fn_task_id_def by (rule length_fmt_hex [OF unat_64_less]) simp

lemma fnv_prime_cancel: "x * fnv_prime = y * fnv_prime \<longleftrightarrow> x = y"
proof
  assume "x * fnv_prime = y * fnv_prime"
  then have "x * (fnv_prime * 14886173955864302971) = y * (fnv_prime * 14886173955864302971)" by (simp only: mult.assoc [symmetric])
  moreover have "fnv_prime * 14886173955864302971 = 1" by (simp add: fnv_prime_def)
  ultimately show "x = y" by simp
qed simp

lemma fnv_byte_inj: "fnv_byte c h = fnv_byte c h' \<longleftrightarrow> h = h'"
proof
  assume "fnv_byte c h = fnv_byte c h'"
  then have "h XOR of_nat (of_char c) = h' XOR of_nat (of_char c)" by (simp add: fnv_byte_def fnv_prime_cancel)
  then have "(h XOR of_nat (of_char c)) XOR of_nat (of_char c) = (h' XOR of_nat (of_char c)) XOR of_nat (of_char c)" by simp
  then show "h = h'" by (simp add: xor.assoc)
qed simp

lemma fnv_suffix: "fold fnv_byte s h = fold fnv_byte s h' \<longleftrightarrow> h = h'"
  by (induction s arbitrary: h h') (simp_all add: fnv_byte_inj)

lemma fnv_first_byte: "fnv_byte c h = fnv_byte d h \<longleftrightarrow> c = d"
proof
  assume "fnv_byte c h = fnv_byte d h"
  then have "h XOR (h XOR of_nat (of_char c)) = h XOR (h XOR of_nat (of_char d))" by (simp add: fnv_byte_def fnv_prime_cancel)
  then have "(of_nat (of_char c) :: 64 word) = of_nat (of_char d)" by (simp add: xor.assoc [symmetric])
  then have "unat (of_nat (of_char c) :: 64 word) = unat (of_nat (of_char d) :: 64 word)" by simp
  moreover have "(of_char e :: nat) mod 2 ^ 64 = of_char e" for e
  proof (rule mod_less)
    have "(of_char e :: nat) < 256" by simp
    then show "(of_char e :: nat) < 2 ^ 64" by (rule less_le_trans) simp
  qed
  ultimately have "(of_char c :: nat) = of_char d" by (simp add: unsigned_of_nat take_bit_eq_mod)
  then show "c = d" by simp
qed simp

text \<open>FNV-1a never confuses two texts of which one replaces a single byte of the other.\<close>

lemma fnv1a_one_byte: "fnv1a (xs @ c # ys) = fnv1a (xs @ d # ys) \<longleftrightarrow> c = d"
  by (simp add: fnv1a_def fnv_suffix fnv_first_byte)

lemma task_id_one_byte: "task_id cpid step (xs @ c # ys) arg = task_id cpid step (xs @ d # ys) arg \<longleftrightarrow> c = d"
proof
  assume eq: "task_id cpid step (xs @ c # ys) arg = task_id cpid step (xs @ d # ys) arg"
  have split: "cpid @ nul @ show_int step @ nul @ (xs @ e # ys) @ nul @ arg =
      (cpid @ nul @ show_int step @ nul @ xs) @ e # (ys @ nul @ arg)" for e by simp
  from eq have "fnv1a ((cpid @ nul @ show_int step @ nul @ xs) @ c # (ys @ nul @ arg)) =
      fnv1a ((cpid @ nul @ show_int step @ nul @ xs) @ d # (ys @ nul @ arg))"
    unfolding task_id_def split [symmetric]
    by (cases rule: linorder_cases [of "unat (fnv1a (cpid @ nul @ show_int step @ nul @ (xs @ c # ys) @ nul @ arg))"
          "unat (fnv1a (cpid @ nul @ show_int step @ nul @ (xs @ d # ys) @ nul @ arg))"])
      (auto dest: fmt_hex_mono [OF _ unat_64_less] simp: unsigned_word_eqI)
  then show "c = d" unfolding fnv1a_one_byte .
qed simp

subsection \<open>Dispatch paths and exit keys\<close>

definition dispatch_path :: "int \<Rightarrow> string" where
  "dispatch_path i = fmt_dec 10 i"

definition exit_delta_task_id :: "int \<Rightarrow> string \<Rightarrow> string" where
  "exit_delta_task_id step tid = fmt_dec 8 step @ tid"

definition exit_delta_late_task_id :: "int \<Rightarrow> string \<Rightarrow> string" where
  "exit_delta_late_task_id step tid = ''ffffffff'' @ fmt_hex 8 (nat step) @ tid"

definition exit_delta_late_path :: "int \<Rightarrow> string \<Rightarrow> string" where
  "exit_delta_late_path step path = ''~~'' @ fmt_dec 10 step @ path"

definition exit_delta_early_path :: "int \<Rightarrow> string \<Rightarrow> string" where
  "exit_delta_early_path step path = ''!'' @ fmt_dec 10 step @ path"

text \<open>
  \<open>strconv.ParseUint\<close> of a fixed-width field: every byte must be a digit of the base (hex digits in
  either case); eight digits never overflow.
\<close>

definition digit_val :: "char \<Rightarrow> nat option" where
  "digit_val c = (let n = of_char c :: nat in
     if 48 \<le> n \<and> n \<le> 57 then Some (n - 48)
     else if 97 \<le> n \<and> n \<le> 122 then Some (n - 87)
     else if 65 \<le> n \<and> n \<le> 90 then Some (n - 55) else None)"

fun parse_digits :: "nat \<Rightarrow> nat \<Rightarrow> string \<Rightarrow> nat option" where
  "parse_digits b acc [] = Some acc"
| "parse_digits b acc (c # cs) =
     (case digit_val c of None \<Rightarrow> None
      | Some d \<Rightarrow> (if d < b then parse_digits b (acc * b + d) cs else None))"

definition parse_uint :: "nat \<Rightarrow> string \<Rightarrow> nat option" where
  "parse_uint b s = (if s = [] then None else parse_digits b 0 s)"

definition has_prefix :: "string \<Rightarrow> string \<Rightarrow> bool" where
  "has_prefix s p \<longleftrightarrow> take (length p) s = p"

definition has_suffix :: "string \<Rightarrow> string \<Rightarrow> bool" where
  "has_suffix s p \<longleftrightarrow> length p \<le> length s \<and> drop (length s - length p) s = p"

definition parse_exit_delta_task_id :: "string \<Rightarrow> int option" where
  "parse_exit_delta_task_id tid =
     (if has_suffix tid null_task_id then None
      else if length tid = 32 \<and> has_prefix tid ''ffffffff'' then map_option int (parse_uint 16 (take 8 (drop 8 tid)))
      else if length tid = 24 then map_option int (parse_uint 10 (take 8 tid))
      else None)"

lemma digit_val_digit_char: "d < 16 \<Longrightarrow> digit_val (digit_char d) = Some d"
  by (cases "d < 10") (simp_all add: digit_val_def digit_char_def Let_def)

lemma parse_digits_append:
  "parse_digits b acc (xs @ ys) = Option.bind (parse_digits b acc xs) (\<lambda>a. parse_digits b a ys)"
  by (induction xs arbitrary: acc) (auto split: option.splits)

lemma parse_fixdigits:
  assumes "1 < b" and "b \<le> 16"
  shows "n < b ^ w \<Longrightarrow> parse_digits b acc (fixdigits b w n) = Some (acc * b ^ w + n)"
proof (induction w arbitrary: n)
  case (Suc w)
  have "n div b < b ^ w" using Suc.prems by (intro less_mult_imp_div_less) (simp add: mult.commute)
  moreover have "n mod b < b" "n mod b < 16" using assms by (auto intro: less_le_trans [OF mod_less_divisor])
  ultimately show ?case
    using Suc.IH by (simp add: parse_digits_append digit_val_digit_char algebra_simps)
qed simp

lemma parse_fmt_dec:
  assumes "0 \<le> i" and "i < 10 ^ w" and "0 < w"
  shows "parse_uint 10 (fmt_dec w i) = Some (nat i)"
proof -
  have "fmt_dec w i = fixdigits 10 w (nat i)"
    using assms by (simp add: fmt_dec_def show_nat_def pad0_show_base nat_less_iff)
  moreover have "fixdigits 10 w (nat i) \<noteq> []"
    using assms(3) length_fixdigits [of 10 w "nat i"] by (metis length_0_conv not_gr_zero)
  moreover have "nat i < 10 ^ w" using assms by (simp add: nat_less_iff)
  ultimately show ?thesis by (simp add: parse_uint_def parse_fixdigits)
qed

lemma parse_fmt_hex:
  assumes "n < 16 ^ w" and "0 < w"
  shows "parse_uint 16 (fmt_hex w n) = Some n"
proof -
  have "fmt_hex w n = fixdigits 16 w n" using assms by (simp add: fmt_hex_def pad0_show_base)
  moreover have "fixdigits 16 w n \<noteq> []"
    using assms(2) length_fixdigits [of 16 w n] by (metis length_0_conv not_gr_zero)
  ultimately show ?thesis using assms by (simp add: parse_uint_def parse_fixdigits)
qed

lemma length_null_task_id: "length null_task_id = 36"
  by code_simp

lemma has_suffix_append [simp]: "has_suffix (xs @ p) p"
  by (simp add: has_suffix_def)

lemma short_not_null: "length s < 36 \<Longrightarrow> \<not> has_suffix s null_task_id"
  by (simp add: has_suffix_def length_null_task_id)

text \<open>
  The recognizer of anchored writes reads back the superstep of both synthetic ID forms over a
  16-character task ID, and rejects real task IDs and the IDs of input writes.
\<close>

theorem parse_exit_ids:
  assumes "length tid = 16" and "0 \<le> step"
  shows "(step < 10 ^ 8 \<longrightarrow> parse_exit_delta_task_id (exit_delta_task_id step tid) = Some step)
    \<and> (step < 2 ^ 32 \<longrightarrow> parse_exit_delta_task_id (exit_delta_late_task_id step tid) = Some step)
    \<and> (parse_exit_delta_task_id tid = None)
    \<and> (parse_exit_delta_task_id (exit_delta_task_id step null_task_id) = None)"
proof (intro conjI impI)
  show "parse_exit_delta_task_id (exit_delta_task_id step tid) = Some step" if b: "step < 10 ^ 8"
  proof -
    have l: "length (fmt_dec 8 step) = 8" using assms(2) b by (intro length_fmt_dec) simp_all
    then have "length (exit_delta_task_id step tid) = 24" by (simp add: exit_delta_task_id_def assms(1))
    then show ?thesis
      using parse_fmt_dec [OF assms(2) b] l assms(2)
      by (simp add: parse_exit_delta_task_id_def short_not_null) (simp add: exit_delta_task_id_def)
  qed
  show "parse_exit_delta_task_id (exit_delta_late_task_id step tid) = Some step" if b: "step < 2 ^ 32"
  proof -
    have n: "nat step < 16 ^ 8" using assms(2) b by (simp add: nat_less_iff)
    then have l: "length (fmt_hex 8 (nat step)) = 8" by (intro length_fmt_hex) simp_all
    then have "length (exit_delta_late_task_id step tid) = 32" by (simp add: exit_delta_late_task_id_def assms(1))
    moreover have "has_prefix (exit_delta_late_task_id step tid) ''ffffffff''"
      by (simp add: has_prefix_def exit_delta_late_task_id_def)
    moreover have "take 8 (drop 8 (exit_delta_late_task_id step tid)) = fmt_hex 8 (nat step)"
      using l by (simp add: exit_delta_late_task_id_def)
    ultimately show ?thesis
      using parse_fmt_hex [OF n] assms(2) by (simp add: parse_exit_delta_task_id_def short_not_null)
  qed
  show "parse_exit_delta_task_id tid = None"
    using assms(1) by (simp add: parse_exit_delta_task_id_def)
  show "parse_exit_delta_task_id (exit_delta_task_id step null_task_id) = None"
    by (simp add: parse_exit_delta_task_id_def exit_delta_task_id_def)
qed

lemma parse_exit_ids_witness:
  "parse_exit_delta_task_id (exit_delta_late_task_id 300 (task_id ''c1'' 2 ''node'' ''null'')) = Some 300"
  by (rule parse_exit_ids [THEN conjunct2, THEN conjunct1, THEN mp]) simp_all

end
