(* ===== verification/CheckpointSink.thy ===== *)
theory CheckpointSink
  imports RunState MemorySaver TaskIds
begin

section \<open>Checkpoint durability (langgraph/graph/checkpoint_sink.go)\<close>

text \<open>
  The sink stands between a run and its saver. In sync mode it calls the saver directly and stops
  for good at the first failure; in async mode it feeds a worker through a bounded FIFO channel; in
  exit mode it accumulates the tasks' writes and persists them with the final checkpoint. The saver
  is a record of its two writing operations, so a failing backend is one instance and the memory
  saver another.
\<close>

record 's saver_ops =
  so_put :: "'s \<Rightarrow> config \<Rightarrow> checkpoint \<Rightarrow> metadata \<Rightarrow> int gomap \<Rightarrow> 's \<times> (goerr + config)"
  so_put_writes :: "'s \<Rightarrow> config \<Rightarrow> cp_write list \<Rightarrow> string \<Rightarrow> string \<Rightarrow> 's \<times> (goerr + unit)"

definition memory_ops :: "memory_saver saver_ops" where
  "memory_ops = \<lparr>so_put = (\<lambda>s cfg cp md nv. case ms_put s cfg cp md nv of (s', cfg') \<Rightarrow> (s', Inr cfg')),
                 so_put_writes = ms_put_writes\<rparr>"

datatype durability = DurabilitySync | DurabilityAsync | DurabilityExit

record put_record =
  pr_cfg :: config
  pr_cp :: checkpoint
  pr_md :: metadata
  pr_versions :: "int gomap"
  pr_repair :: gstate

datatype sink_request =
    ReqPut put_record
  | ReqPutWrites config "cp_write list" string string bool

record exit_delta_write =
  ew_step :: int
  ew_task :: string
  ew_path :: string
  ew_channel :: string
  ew_value :: gval

subsection \<open>Executing and repairing\<close>

definition sink_execute :: "'s saver_ops \<Rightarrow> sink_request \<Rightarrow> 's \<Rightarrow> 's \<times> (goerr + unit)" where
  "sink_execute ops req s =
     (case req of
        ReqPut r \<Rightarrow>
          (case so_put ops s (pr_cfg r) (pr_cp r) (pr_md r) (pr_versions r) of
             (s', Inl e) \<Rightarrow> (s', Inl e)
           | (s', Inr _) \<Rightarrow> (s', Inr ()))
      | ReqPutWrites cfg ws task path delta \<Rightarrow> so_put_writes ops s cfg ws task path)"

definition repair_put :: "'s saver_ops \<Rightarrow> put_record option \<Rightarrow> 's \<Rightarrow> 's \<times> (goerr + unit)" where
  "repair_put ops lp s =
     (case lp of
        None \<Rightarrow> (s, Inr ())
      | Some r \<Rightarrow>
          (if pr_repair r = [] then (s, Inr ())
           else case so_put ops s (pr_cfg r) ((pr_cp r)\<lparr>cp_values := mcopy (cp_values (pr_cp r)) (pr_repair r)\<rparr>)
                       (pr_md r) (pr_versions r) of
                  (s', Inl e) \<Rightarrow> (s', Inl e)
                | (s', Inr _) \<Rightarrow> (s', Inr ())))"

definition repair_error :: "string \<Rightarrow> goerr \<Rightarrow> goerr \<Rightarrow> goerr" where
  "repair_error cid e re = EJoin e (EWrap (''repairing checkpoint '' @ go_quote cid @ '' after a failed write'') re)"

text \<open>A failed delta batch repairs the checkpoint it anchors on, when that is the last one put.\<close>

definition needs_repair :: "sink_request \<Rightarrow> put_record option \<Rightarrow> bool" where
  "needs_repair req lp =
     (case req of
        ReqPut _ \<Rightarrow> False
      | ReqPutWrites cfg _ _ _ delta \<Rightarrow>
          delta \<and> (case lp of None \<Rightarrow> False | Some r \<Rightarrow> cp_id (pr_cp r) = cfg_id cfg))"

definition last_put_after :: "sink_request \<Rightarrow> put_record option \<Rightarrow> put_record option" where
  "last_put_after req lp = (case req of ReqPut r \<Rightarrow> Some r | _ \<Rightarrow> lp)"

definition repair_after :: "'s saver_ops \<Rightarrow> sink_request \<Rightarrow> put_record option \<Rightarrow> goerr \<Rightarrow> 's \<Rightarrow> 's \<times> goerr" where
  "repair_after ops req lp e s =
     (if needs_repair req lp then
        (case repair_put ops lp s of
           (s', Inl re) \<Rightarrow> (s', repair_error (case lp of None \<Rightarrow> [] | Some r \<Rightarrow> cp_id (pr_cp r)) e re)
         | (s', Inr _) \<Rightarrow> (s', e))
      else (s, e))"

subsection \<open>Sync mode: direct calls, poisoned by the first failure\<close>

record sync_sink =
  ss_poisoned :: "goerr option"
  ss_last_put :: "put_record option"

definition new_sync_sink :: sync_sink where
  "new_sync_sink = \<lparr>ss_poisoned = None, ss_last_put = None\<rparr>"

text \<open>
  \<open>putCheckpoint\<close> and \<open>putWrites\<close> in sync mode. The poison is the saver's error; the caller of the
  failing write may get it joined with a failed repair.
\<close>

definition sync_request ::
  "'s saver_ops \<Rightarrow> sink_request \<Rightarrow> sync_sink \<times> 's \<Rightarrow> (sync_sink \<times> 's) \<times> (goerr + unit)" where
  "sync_request ops req st =
     (case st of (k, s) \<Rightarrow>
        case ss_poisoned k of
          Some e \<Rightarrow> ((k, s), Inl e)
        | None \<Rightarrow>
            (case sink_execute ops req s of
               (s1, Inr _) \<Rightarrow> ((k\<lparr>ss_last_put := last_put_after req (ss_last_put k)\<rparr>, s1), Inr ())
             | (s1, Inl e) \<Rightarrow>
                 (case repair_after ops req (ss_last_put k) e s1 of
                    (s2, e') \<Rightarrow> ((k\<lparr>ss_poisoned := Some e\<rparr>, s2), Inl e'))))"

definition sync_run :: "'s saver_ops \<Rightarrow> sink_request list \<Rightarrow> sync_sink \<times> 's \<Rightarrow> sync_sink \<times> 's" where
  "sync_run ops reqs st = fold (\<lambda>r st. fst (sync_request ops r st)) reqs st"

subsection \<open>Async mode: one worker behind a bounded channel\<close>

text \<open>The worker's loop over the requests it receives: it returns at the first failure.\<close>

fun worker :: "'s saver_ops \<Rightarrow> sink_request list \<Rightarrow> put_record option \<Rightarrow> 's \<Rightarrow> 's \<times> goerr option" where
  "worker ops [] lp s = (s, None)"
| "worker ops (req # reqs) lp s =
     (case sink_execute ops req s of
        (s1, Inr _) \<Rightarrow> worker ops reqs (last_put_after req lp) s1
      | (s1, Inl e) \<Rightarrow> (case repair_after ops req lp e s1 of (s2, e') \<Rightarrow> (s2, Some e')))"

definition queue_capacity :: nat where
  "queue_capacity = 32"

record 's async_sink =
  as_pending :: "sink_request list"
  as_queue :: "sink_request list"
  as_last :: "put_record option"
  as_saver :: 's
  as_err :: "goerr option"

text \<open>
  The steps of the run and the worker together: the run hands the next request to the channel when
  there is room and the worker lives, drops it (and returns the worker's error) once the worker is
  gone, and the worker takes the head of the channel. A request that races with the exit of the
  worker may still land in the abandoned channel.
\<close>

inductive async_step :: "'s saver_ops \<Rightarrow> 's async_sink \<Rightarrow> 's async_sink \<Rightarrow> bool" for ops where
  enqueue: "as_pending a = r # rs \<Longrightarrow> length (as_queue a) < queue_capacity \<Longrightarrow>
    async_step ops a (a\<lparr>as_pending := rs, as_queue := as_queue a @ [r]\<rparr>)"
| reject: "as_pending a = r # rs \<Longrightarrow> as_err a \<noteq> None \<Longrightarrow> async_step ops a (a\<lparr>as_pending := rs\<rparr>)"
| work_ok: "as_queue a = r # q \<Longrightarrow> as_err a = None \<Longrightarrow> sink_execute ops r (as_saver a) = (s1, Inr u) \<Longrightarrow>
    async_step ops a (a\<lparr>as_queue := q, as_last := last_put_after r (as_last a), as_saver := s1\<rparr>)"
| work_fail: "as_queue a = r # q \<Longrightarrow> as_err a = None \<Longrightarrow> sink_execute ops r (as_saver a) = (s1, Inl e) \<Longrightarrow>
    repair_after ops r (as_last a) e s1 = (s2, e') \<Longrightarrow>
    async_step ops a (a\<lparr>as_queue := q, as_saver := s2, as_err := Some e'\<rparr>)"

definition async_start :: "sink_request list \<Rightarrow> 's \<Rightarrow> 's async_sink" where
  "async_start reqs s = \<lparr>as_pending = reqs, as_queue = [], as_last = None, as_saver = s, as_err = None\<rparr>"

text \<open>\<open>flush\<close> closes the channel and waits for the worker: nothing is left to hand over or to do.\<close>

definition async_flushed :: "'s async_sink \<Rightarrow> bool" where
  "async_flushed a \<longleftrightarrow> as_pending a = [] \<and> (as_queue a = [] \<or> as_err a \<noteq> None)"

subsection \<open>Sync and async leave the same store\<close>

lemma sync_run_poisoned: "ss_poisoned k = Some e \<Longrightarrow> sync_run ops reqs (k, s) = (k, s)"
  unfolding sync_run_def by (induction reqs) (simp_all add: sync_request_def)

lemma sync_run_worker:
  assumes "ss_poisoned k = None"
  shows "snd (sync_run ops reqs (k, s)) = fst (worker ops reqs (ss_last_put k) s) \<and>
    (ss_poisoned (fst (sync_run ops reqs (k, s))) = None \<longleftrightarrow> snd (worker ops reqs (ss_last_put k) s) = None)"
  using assms
proof (induction reqs arbitrary: k s)
  case Nil
  then show ?case by (simp add: sync_run_def)
next
  case (Cons req reqs)
  obtain s1 r where ex: "sink_execute ops req s = (s1, r)" by (cases "sink_execute ops req s")
  have step: "sync_run ops (req # reqs) (k, s) = sync_run ops reqs (fst (sync_request ops req (k, s)))"
    by (simp add: sync_run_def)
  show ?case
  proof (cases r)
    case (Inl e)
    obtain s2 e' where rep: "repair_after ops req (ss_last_put k) e s1 = (s2, e')"
      by (cases "repair_after ops req (ss_last_put k) e s1")
    have "fst (sync_request ops req (k, s)) = (k\<lparr>ss_poisoned := Some e\<rparr>, s2)"
      using Cons.prems ex Inl rep by (simp add: sync_request_def)
    then show ?thesis using ex Inl rep by (simp add: step sync_run_poisoned)
  next
    case (Inr u)
    let ?k = "k\<lparr>ss_last_put := last_put_after req (ss_last_put k)\<rparr>"
    have "fst (sync_request ops req (k, s)) = (?k, s1)"
      using Cons.prems ex Inr by (simp add: sync_request_def)
    then show ?thesis using Cons.IH [of ?k s1] Cons.prems ex Inr by (simp add: step)
  qed
qed

text \<open>What the worker will have done in the end, from any state of the async sink.\<close>

definition async_outcome :: "'s saver_ops \<Rightarrow> 's async_sink \<Rightarrow> 's \<times> goerr option" where
  "async_outcome ops a =
     (case as_err a of
        Some e \<Rightarrow> (as_saver a, Some e)
      | None \<Rightarrow> worker ops (as_queue a @ as_pending a) (as_last a) (as_saver a))"

lemma async_step_outcome: "async_step ops a b \<Longrightarrow> async_outcome ops b = async_outcome ops a"
  by (induction rule: async_step.induct) (auto simp: async_outcome_def split: option.splits)

lemma async_steps_outcome: "(async_step ops)\<^sup>*\<^sup>* a b \<Longrightarrow> async_outcome ops b = async_outcome ops a"
  by (induction rule: rtranclp_induct) (auto dest: async_step_outcome)

definition async_work :: "'s async_sink \<Rightarrow> nat" where
  "async_work a = 2 * length (as_pending a) + length (as_queue a)"

lemma async_step_decreases: "async_step ops a b \<Longrightarrow> async_work b < async_work a"
  by (induction rule: async_step.induct) (simp_all add: async_work_def)

lemma async_step_possible:
  assumes "\<not> async_flushed a"
  shows "\<exists>b. async_step ops a b"
proof (cases "as_err a")
  case (Some e)
  with assms obtain r rs where "as_pending a = r # rs" by (cases "as_pending a") (auto simp: async_flushed_def)
  with Some show ?thesis by (blast intro: async_step.reject)
next
  case None
  show ?thesis
  proof (cases "as_queue a")
    case Nil
    with None assms obtain r rs where "as_pending a = r # rs" by (cases "as_pending a") (auto simp: async_flushed_def)
    moreover have "length (as_queue a) < queue_capacity" using Nil by (simp add: queue_capacity_def)
    ultimately show ?thesis by (blast intro: async_step.enqueue)
  next
    case (Cons r q)
    obtain s1 res where ex: "sink_execute ops r (as_saver a) = (s1, res)" by (cases "sink_execute ops r (as_saver a)")
    show ?thesis
    proof (cases res)
      case (Inl e)
      obtain s2 e' where "repair_after ops r (as_last a) e s1 = (s2, e')"
        by (cases "repair_after ops r (as_last a) e s1")
      then show ?thesis using async_step.work_fail [OF Cons None] ex Inl by blast
    next
      case (Inr u)
      then show ?thesis using async_step.work_ok [OF Cons None] ex by blast
    qed
  qed
qed

lemma async_flushes_from:
  "\<exists>b. (async_step ops)\<^sup>*\<^sup>* a b \<and> async_flushed b"
proof (induction "async_work a" arbitrary: a rule: less_induct)
  case less
  show ?case
  proof (cases "async_flushed a")
    case False
    then obtain b where step: "async_step ops a b" using async_step_possible by blast
    from less [OF async_step_decreases [OF step]] obtain c where "(async_step ops)\<^sup>*\<^sup>* b c" "async_flushed c"
      by blast
    with step show ?thesis by (blast intro: converse_rtranclp_into_rtranclp)
  qed blast
qed

lemma async_steps_bounded: "(async_step ops ^^ n) a b \<Longrightarrow> n + async_work b \<le> async_work a"
proof (induction n arbitrary: b)
  case (Suc n)
  then obtain c where "(async_step ops ^^ n) a c" "async_step ops c b" by (auto elim: relpowp_Suc_E)
  with Suc.IH async_step_decreases show ?case by fastforce
qed simp

lemma async_outcome_start: "async_outcome ops (async_start reqs s) = worker ops reqs None s"
  by (simp add: async_outcome_def async_start_def)

lemma async_outcome_flushed: "async_flushed a \<Longrightarrow> async_outcome ops a = (as_saver a, as_err a)"
  by (auto simp: async_outcome_def async_flushed_def split: option.splits)

text \<open>
  C19: async durability is sync durability. Whatever the interleaving of the run and the worker, once
  the sink is flushed the saver holds exactly what the same requests leave in sync mode, and an
  error is reported in one mode iff it is in the other; nothing after the first failure is saved.
\<close>

theorem async_leaves_what_sync_leaves:
  assumes "(async_step ops)\<^sup>*\<^sup>* (async_start reqs s) a" and "async_flushed a"
  shows "(as_saver a = snd (sync_run ops reqs (new_sync_sink, s)))
    \<and> (as_err a = None \<longleftrightarrow> ss_poisoned (fst (sync_run ops reqs (new_sync_sink, s))) = None)"
proof (rule conjI)
  have "(as_saver a, as_err a) = worker ops reqs None s"
    using async_steps_outcome [OF assms(1)] async_outcome_flushed [OF assms(2)]
    by (simp add: async_outcome_start)
  then have w: "as_saver a = fst (worker ops reqs None s)" "as_err a = snd (worker ops reqs None s)"
    by (metis fst_conv, metis snd_conv)
  have "ss_poisoned new_sync_sink = None" "ss_last_put new_sync_sink = None" by (simp_all add: new_sync_sink_def)
  with sync_run_worker [of new_sync_sink ops reqs s] w
  show "as_saver a = snd (sync_run ops reqs (new_sync_sink, s))"
    "as_err a = None \<longleftrightarrow> ss_poisoned (fst (sync_run ops reqs (new_sync_sink, s))) = None" by simp_all
qed

definition demo_put :: sink_request where
  "demo_put = ReqPut \<lparr>pr_cfg = demo_cfg ''t'' [], pr_cp = demo_cp ''c1'', pr_md = demo_md, pr_versions = [], pr_repair = []\<rparr>"

lemma async_leaves_what_sync_leaves_witness:
  "\<exists>a. (async_step memory_ops)\<^sup>*\<^sup>* (async_start [demo_put] new_memory_saver) a \<and>
     as_saver a = snd (sync_run memory_ops [demo_put] (new_sync_sink, new_memory_saver)) \<and>
     map_option (\<lambda>t. cp_id (tup_checkpoint t)) (ms_get_tuple (as_saver a) (demo_cfg ''t'' [])) = Some ''c1''"
proof -
  obtain a where a: "(async_step memory_ops)\<^sup>*\<^sup>* (async_start [demo_put] new_memory_saver) a" "async_flushed a"
    using async_flushes_from by blast
  have "map_option (\<lambda>t. cp_id (tup_checkpoint t))
      (ms_get_tuple (snd (sync_run memory_ops [demo_put] (new_sync_sink, new_memory_saver))) (demo_cfg ''t'' [])) = Some ''c1''"
    by code_simp
  with a(1) async_leaves_what_sync_leaves [OF a, THEN conjunct1] show ?thesis by metis
qed

text \<open>
  C20: flushing the async sink terminates and never deadlocks: from every reachable state some
  sequence of steps flushes, a state that is not flushed can step, and no run takes more than two
  steps per request, whatever the saver does.
\<close>

theorem async_flush_terminates:
  assumes "(async_step ops ^^ n) (async_start reqs s) a"
  shows "(n \<le> 2 * length reqs)
    \<and> (\<exists>b. (async_step ops)\<^sup>*\<^sup>* a b \<and> async_flushed b)
    \<and> (async_flushed a \<or> (\<exists>b. async_step ops a b))"
proof (rule conjI [OF _ conjI])
  have "async_work (async_start reqs s) = 2 * length reqs" by (simp add: async_work_def async_start_def)
  with async_steps_bounded [OF assms] show "n \<le> 2 * length reqs" by simp
qed (rule async_flushes_from, use async_step_possible in blast)

lemma async_flush_terminates_witness:
  "\<exists>b. (async_step memory_ops)\<^sup>*\<^sup>* (async_start [demo_put] new_memory_saver) b \<and> async_flushed b"
proof -
  have "(async_step memory_ops ^^ 0) (async_start [demo_put] new_memory_saver) (async_start [demo_put] new_memory_saver)"
    by simp
  from async_flush_terminates [OF this, THEN conjunct2, THEN conjunct1] show ?thesis .
qed

subsection \<open>Exit mode: accumulate, then flush with the final checkpoint\<close>

record flush_ctx =
  fc_thread :: string
  fc_ns :: string
  fc_checkpoint_id :: string
  fc_rs :: run_state
  fc_cfg :: config
  fc_md :: metadata

record exit_sink =
  es_poisoned :: "goerr option"
  es_last_put :: "put_record option"
  es_writes :: "exit_delta_write list"
  es_has_parent :: bool
  es_initial_cfg :: config
  es_initial_values :: gstate
  es_anchor_id :: string
  es_step :: int
  es_first_step :: int
  es_first_set :: bool
  es_pause_flushed :: bool
  es_flush :: "flush_ctx option"

definition zero_config :: config where
  "zero_config = \<lparr>cfg_thread = [], cfg_ns = [], cfg_id = []\<rparr>"

text \<open>\<open>newCheckpointSink\<close>: the loaded tuple, or the anchor ID reserved before any loop checkpoint.\<close>

definition new_exit_sink :: "cp_tuple option \<Rightarrow> string \<Rightarrow> exit_sink" where
  "new_exit_sink tup anchor_id =
     \<lparr>es_poisoned = None, es_last_put = None, es_writes = [], es_has_parent = (tup \<noteq> None),
      es_initial_cfg = (case tup of None \<Rightarrow> zero_config | Some t \<Rightarrow> tup_config t),
      es_initial_values = (case tup of None \<Rightarrow> [] | Some t \<Rightarrow> cp_values (tup_checkpoint t)),
      es_anchor_id = (case tup of None \<Rightarrow> anchor_id | Some _ \<Rightarrow> []),
      es_step = 0, es_first_step = 0, es_first_set = False, es_pause_flushed = False, es_flush = None\<rparr>"

definition begin_superstep :: "int \<Rightarrow> exit_sink \<Rightarrow> exit_sink" where
  "begin_superstep step k =
     (let k1 = (if \<not> es_first_set k then k\<lparr>es_first_set := True, es_first_step := step\<rparr> else k)
      in k1\<lparr>es_step := step\<rparr>)"

definition accumulate_exit_writes :: "cp_write list \<Rightarrow> string \<Rightarrow> string \<Rightarrow> exit_sink \<Rightarrow> exit_sink" where
  "accumulate_exit_writes ws task path k =
     k\<lparr>es_writes := es_writes k @
         map (\<lambda>w. \<lparr>ew_step = es_step k, ew_task = task, ew_path = path,
                   ew_channel = w_channel w, ew_value = w_value w\<rparr>) ws\<rparr>"

definition set_flush_context :: "flush_ctx \<Rightarrow> exit_sink \<Rightarrow> exit_sink" where
  "set_flush_context ctx k = k\<lparr>es_flush := Some ctx\<rparr>"

definition exit_write_key :: "int \<Rightarrow> exit_delta_write \<Rightarrow> string \<times> string" where
  "exit_write_key first_step w =
     (if ew_task w = null_task_id then (exit_delta_task_id (ew_step w) (ew_task w), [])
      else if ew_step w = first_step then (exit_delta_task_id (ew_step w) (ew_task w), ew_path w)
      else (exit_delta_late_task_id (ew_step w) (ew_task w), exit_delta_late_path (ew_step w) (ew_path w)))"

definition exit_pause_write_key :: "exit_delta_write \<Rightarrow> string \<times> string" where
  "exit_pause_write_key w =
     (if ew_task w = null_task_id then (exit_delta_task_id (ew_step w) (ew_task w), [])
      else (exit_delta_task_id (ew_step w) (ew_task w), exit_delta_early_path (ew_step w) (ew_path w)))"

definition exit_cp_write :: "exit_delta_write \<Rightarrow> cp_write" where
  "exit_cp_write w = \<lparr>w_task = [], w_path = [], w_channel = ew_channel w, w_value = ew_value w\<rparr>"

text \<open>The loop that persists accumulated writes, one \<open>PutWrites\<close> call per write.\<close>

fun put_exit_writes :: "'s saver_ops \<Rightarrow> (exit_delta_write \<Rightarrow> string \<times> string) \<Rightarrow> config
    \<Rightarrow> exit_delta_write list \<Rightarrow> 's \<Rightarrow> 's \<times> (goerr + unit)" where
  "put_exit_writes ops key anchor [] s = (s, Inr ())"
| "put_exit_writes ops key anchor (w # ws) s =
     (case so_put_writes ops s anchor [exit_cp_write w] (fst (key w)) (snd (key w)) of
        (s1, Inl e) \<Rightarrow> (s1, Inl e)
      | (s1, Inr _) \<Rightarrow> put_exit_writes ops key anchor ws s1)"

text \<open>Counters kept in metadata are the non-zero ones.\<close>

definition non_zero_counters :: "(int \<times> int) gomap \<Rightarrow> (int \<times> int) gomap" where
  "non_zero_counters counters =
     mbuild (mkeys counters) (\<lambda>k. if mgetd counters k (0, 0) \<noteq> (0, 0) then map_of counters k else None)"

definition delta_available :: "run_state \<Rightarrow> string \<Rightarrow> bool" where
  "delta_available rs k = (case map_of (rs_channels rs) k of
      Some ch \<Rightarrow> (case as_delta ch of Some d \<Rightarrow> dc_is_available d | None \<Rightarrow> False) | None \<Rightarrow> False)"

text \<open>
  Step 1 of \<open>flushExit\<close>: the channels that snapshot into the final checkpoint: cadence, overwrites,
  and written delta channels whose writes would be read by another branch (an addressed load) or
  stranded behind a value the anchor already stores.
\<close>

definition exit_snapshots :: "exit_sink \<Rightarrow> flush_ctx \<Rightarrow> string list" where
  "exit_snapshots k ctx =
     (let rs = fc_rs ctx; written = filter (delta_available rs) (map ew_channel (es_writes k))
      in remdups (delta_channels_to_snapshot (rs_channels rs) (rs_delta_counters rs)
          @ rs_delta_overwrite rs
          @ (if es_has_parent k \<and> fc_checkpoint_id ctx \<noteq> [] then written else [])
          @ (if es_has_parent k then filter (\<lambda>c. mhas (es_initial_values k) c) written else [])))"

definition exit_pending :: "exit_sink \<Rightarrow> flush_ctx \<Rightarrow> exit_delta_write list" where
  "exit_pending k ctx = filter (\<lambda>w. ew_channel w \<notin> set (exit_snapshots k ctx)) (es_writes k)"

text \<open>Step 3: the checkpoint the pending writes anchor on, created as a stub on a fresh thread.\<close>

definition exit_stub :: "string \<Rightarrow> checkpoint" where
  "exit_stub cid = \<lparr>cp_v = 1, cp_id = cid, cp_ts = 0, cp_values = [], cp_versions = [], cp_seen = [], cp_next = []\<rparr>"

definition exit_stub_md :: metadata where
  "exit_stub_md = \<lparr>md_source = ''input'', md_step = -2, md_run_id = [], md_parents = None, md_counters = []\<rparr>"

definition exit_anchor :: "'s saver_ops \<Rightarrow> exit_sink \<Rightarrow> flush_ctx \<Rightarrow> 's \<Rightarrow> 's \<times> (goerr + config)" where
  "exit_anchor ops k ctx s =
     (if es_has_parent k then (s, Inr (es_initial_cfg k))
      else if exit_pending k ctx \<noteq> [] then
        (case so_put ops s \<lparr>cfg_thread = fc_thread ctx, cfg_ns = fc_ns ctx, cfg_id = []\<rparr>
                (exit_stub (es_anchor_id k)) exit_stub_md [] of
           (s1, Inl e) \<Rightarrow> (s1, Inl e)
         | (s1, Inr _) \<Rightarrow> (s1, Inr \<lparr>cfg_thread = fc_thread ctx, cfg_ns = fc_ns ctx, cfg_id = es_anchor_id k\<rparr>))
      else (s, Inr (fc_cfg ctx)))"

definition reset_counters :: "string list \<Rightarrow> (int \<times> int) gomap \<Rightarrow> (int \<times> int) gomap" where
  "reset_counters ks counters = fold (\<lambda>k m. mput k (0, 0) m) ks counters"

definition exit_final_cp :: "flush_ctx \<Rightarrow> string list \<Rightarrow> checkpoint" where
  "exit_final_cp ctx snaps =
     \<lparr>cp_v = 1, cp_id = cfg_id (fc_cfg ctx), cp_ts = 0, cp_values = checkpoint_values snaps (fc_rs ctx),
      cp_versions = rs_versions (fc_rs ctx), cp_seen = rs_seen (fc_rs ctx), cp_next = []\<rparr>"

definition exit_parent_id :: "exit_sink \<Rightarrow> flush_ctx \<Rightarrow> config \<Rightarrow> string" where
  "exit_parent_id k ctx anchor =
     (if es_has_parent k then cfg_id (es_initial_cfg k)
      else if cfg_id anchor \<noteq> [] \<and> cfg_id anchor \<noteq> cfg_id (fc_cfg ctx) then cfg_id anchor else [])"

definition flush_exit :: "'s saver_ops \<Rightarrow> exit_sink \<times> 's \<Rightarrow> (exit_sink \<times> 's) \<times> (goerr + unit)" where
  "flush_exit ops st =
     (case st of (k, s) \<Rightarrow>
      case es_flush k of
        None \<Rightarrow> ((k, s), Inr ())
      | Some ctx \<Rightarrow>
         (case es_poisoned k of
            Some e \<Rightarrow> ((k, s), Inl e)
          | None \<Rightarrow>
             if es_pause_flushed k then ((k, s), Inr ())
             else
               let snaps = exit_snapshots k ctx
               in case exit_anchor ops k ctx s of
                    (s1, Inl e) \<Rightarrow> ((k\<lparr>es_poisoned := Some e\<rparr>, s1), Inl e)
                  | (s1, Inr anchor) \<Rightarrow>
                     (case put_exit_writes ops (exit_write_key (es_first_step k)) anchor (exit_pending k ctx) s1 of
                        (s2, Inl e) \<Rightarrow> ((k\<lparr>es_poisoned := Some e\<rparr>, s2), Inl e)
                      | (s2, Inr _) \<Rightarrow>
                         let counters = reset_counters snaps (rs_delta_counters (fc_rs ctx));
                             rs' = (fc_rs ctx)\<lparr>rs_delta_counters := counters\<rparr>;
                             md' = (fc_md ctx)\<lparr>md_counters := non_zero_counters counters\<rparr>;
                             k' = k\<lparr>es_flush := Some (ctx\<lparr>fc_rs := rs', fc_md := md'\<rparr>)\<rparr>
                         in case so_put ops s2 \<lparr>cfg_thread = fc_thread ctx, cfg_ns = fc_ns ctx,
                                    cfg_id = exit_parent_id k ctx anchor\<rparr> (exit_final_cp ctx snaps) md' [] of
                              (s3, Inl e) \<Rightarrow> ((k', s3), Inl e)
                            | (s3, Inr _) \<Rightarrow> ((k', s3), Inr ()))))"

text \<open>
  \<open>putPauseCheckpointExit\<close>: the pause checkpoint is saved at once, and the accumulated writes that its
  snapshot blobs do not already contain are anchored on it.
\<close>

fun put_exit_pause_writes :: "'s saver_ops \<Rightarrow> put_record \<Rightarrow> config \<Rightarrow> exit_delta_write list \<Rightarrow> 's \<Rightarrow> 's \<times> (goerr \<times> goerr) option" where
  "put_exit_pause_writes ops r cfg [] s = (s, None)"
| "put_exit_pause_writes ops r cfg (w # ws) s =
     (if as_delta_snapshot (mgetd (cp_values (pr_cp r)) (ew_channel w) VNil) \<noteq> None
      then put_exit_pause_writes ops r cfg ws s
      else case so_put_writes ops s cfg [exit_cp_write w] (fst (exit_pause_write_key w)) (snd (exit_pause_write_key w)) of
             (s1, Inl e) \<Rightarrow>
               (case repair_put ops (Some r) s1 of
                  (s2, Inl re) \<Rightarrow>
                    (s2, Some (e, EJoin e (EWrap (''repairing pause checkpoint '' @ go_quote (cfg_id cfg)
                                                  @ '' after a failed write'') re)))
                | (s2, Inr _) \<Rightarrow> (s2, Some (e, e)))
           | (s1, Inr _) \<Rightarrow> put_exit_pause_writes ops r cfg ws s1)"

definition put_pause_checkpoint_exit ::
  "'s saver_ops \<Rightarrow> put_record \<Rightarrow> exit_sink \<times> 's \<Rightarrow> (exit_sink \<times> 's) \<times> (goerr + config)" where
  "put_pause_checkpoint_exit ops r st =
     (case st of (k, s) \<Rightarrow>
      case es_poisoned k of
        Some e \<Rightarrow> ((k, s), Inl e)
      | None \<Rightarrow>
         let parent = (pr_cfg r)\<lparr>cfg_id := (if es_has_parent k then cfg_id (es_initial_cfg k) else [])\<rparr>;
             r' = r\<lparr>pr_cfg := parent\<rparr>
         in case so_put ops s parent (pr_cp r) (pr_md r) (pr_versions r) of
              (s1, Inl e) \<Rightarrow> ((k\<lparr>es_poisoned := Some e\<rparr>, s1), Inl e)
            | (s1, Inr cfg) \<Rightarrow>
               (case put_exit_pause_writes ops r' cfg (es_writes k) s1 of
                  (s2, Some (e, e')) \<Rightarrow> ((k\<lparr>es_last_put := Some r', es_poisoned := Some e\<rparr>, s2), Inl e')
                | (s2, None) \<Rightarrow>
                    ((k\<lparr>es_last_put := Some r', es_pause_flushed := True, es_has_parent := True,
                        es_initial_cfg := cfg, es_initial_values := cp_values (pr_cp r)\<rparr>, s2), Inr cfg)))"

subsection \<open>What an exit flush stores\<close>

definition exit_store :: "(exit_delta_write \<Rightarrow> string \<times> string) \<Rightarrow> exit_delta_write list \<Rightarrow> stored \<Rightarrow> stored" where
  "exit_store key ws st = fold (\<lambda>w. put_writes_stored (fst (key w)) (snd (key w)) [exit_cp_write w]) ws st"

lemma ms_lookup_put_writes:
  assumes "ms_lookup s cfg = Some (cid, st)"
  shows "ms_lookup (fst (ms_put_writes s cfg ws task path)) cfg = Some (cid, put_writes_stored task path ws st)"
proof -
  note here = ms_lookup_Some [OF assms]
  have latest: "latest_id (mput cid st' (ms_ns s cfg)) = latest_id (ms_ns s cfg)" for st'
    using here by (intro latest_id_cong keys_mput) simp
  show ?thesis
    using assms here latest
    by (auto simp: ms_put_writes_Some [OF assms] ms_lookup_def split: if_splits)
qed

lemma put_exit_writes_memory:
  "ms_lookup s anchor = Some (cid, st) \<Longrightarrow>
   snd (put_exit_writes memory_ops key anchor ws s) = Inr () \<and>
   ms_lookup (fst (put_exit_writes memory_ops key anchor ws s)) anchor = Some (cid, exit_store key ws st)"
proof (induction ws arbitrary: s st)
  case Nil
  then show ?case by (simp add: exit_store_def)
next
  case (Cons w ws)
  let ?s1 = "fst (ms_put_writes s anchor [exit_cp_write w] (fst (key w)) (snd (key w)))"
  have ok: "so_put_writes memory_ops s anchor [exit_cp_write w] (fst (key w)) (snd (key w)) = (?s1, Inr ())"
    using ms_put_writes_Some [OF Cons.prems] by (simp add: memory_ops_def)
  from Cons.IH [OF ms_lookup_put_writes [OF Cons.prems]] ok
  show ?case by (simp add: exit_store_def)
qed

lemma exit_cp_write_idx: "reserved_write_idx (ew_channel w) = None \<Longrightarrow> write_idx 0 (exit_cp_write w) = 0"
  by (simp add: write_idx_def exit_cp_write_def)

lemma put_writes_single: "put_writes_stored task path [w] st = put_write_step task path (0, w) st"
  by (simp add: put_writes_stored_def)

text \<open>The two things one single-write batch can do: nothing, or append its write in a fresh slot.\<close>

lemma put_single_cases [consumes 1, case_names kept added]:
  assumes "write_idx 0 w = 0"
  obtains (kept) "map_of (st_slots st) (task, 0) \<noteq> None" "put_writes_stored task path [w] st = st"
  | (added) "map_of (st_slots st) (task, 0) = None"
    "st_writes (put_writes_stored task path [w] st) = st_writes st @ [stamp task path w]"
    "st_slots (put_writes_stored task path [w] st) = ((task, 0), length (st_writes st)) # st_slots st"
  by (cases rule: put_write_step_cases [of st task 0 w path]) (simp_all add: assms put_writes_single)

lemma exit_store_occupied:
  assumes "\<forall>w \<in> set ws. reserved_write_idx (ew_channel w) = None"
    and "map_of (st_slots st) (tid, 0) \<noteq> None"
  shows "filter (\<lambda>w. w_task w = tid) (st_writes (exit_store key ws st)) = filter (\<lambda>w. w_task w = tid) (st_writes st)"
  using assms
proof (induction ws arbitrary: st)
  case Nil
  then show ?case by (simp add: exit_store_def)
next
  case (Cons w ws)
  let ?st = "put_writes_stored (fst (key w)) (snd (key w)) [exit_cp_write w] st"
  have idx: "write_idx 0 (exit_cp_write w) = 0" using Cons.prems(1) by (simp add: exit_cp_write_idx)
  have rest: "exit_store key (w # ws) st = exit_store key ws ?st" by (simp add: exit_store_def)
  show ?case
    using idx
  proof (cases rule: put_single_cases [where st = st and task = "fst (key w)" and path = "snd (key w)"])
    case kept
    then show ?thesis using Cons.IH [of st] Cons.prems by (simp add: rest)
  next
    case added
    then have "fst (key w) \<noteq> tid" using Cons.prems(2) by auto
    then show ?thesis using Cons.IH [of ?st] Cons.prems added by (simp add: rest)
  qed
qed

lemma exit_store_fresh:
  assumes "\<forall>w \<in> set ws. reserved_write_idx (ew_channel w) = None"
    and "slots_inv st" and "\<forall>w \<in> set (st_writes st). w_task w \<noteq> tid"
  shows "filter (\<lambda>w. w_task w = tid) (st_writes (exit_store key ws st)) =
    (case find (\<lambda>w. fst (key w) = tid) ws of
       None \<Rightarrow> [] | Some w \<Rightarrow> [stamp tid (snd (key w)) (exit_cp_write w)])"
  using assms
proof (induction ws arbitrary: st)
  case Nil
  then show ?case by (auto simp: exit_store_def filter_empty_conv)
next
  case (Cons w ws)
  let ?st = "put_writes_stored (fst (key w)) (snd (key w)) [exit_cp_write w] st"
  have idx: "write_idx 0 (exit_cp_write w) = 0" using Cons.prems(1) by (simp add: exit_cp_write_idx)
  have rest: "exit_store key (w # ws) st = exit_store key ws ?st" by (simp add: exit_store_def)
  have free: "map_of (st_slots st) (tid, i) = None" for i
  proof (rule ccontr)
    assume "map_of (st_slots st) (tid, i) \<noteq> None"
    then obtain pos where "map_of (st_slots st) (tid, i) = Some pos" by auto
    from slots_invD [OF Cons.prems(2) this] Cons.prems(3) show False by (metis fst_conv nth_mem)
  qed
  show ?case
  proof (cases "fst (key w) = tid")
    case True
    show ?thesis
      using idx
  proof (cases rule: put_single_cases [where st = st and task = "fst (key w)" and path = "snd (key w)"])
      case kept
      with free True show ?thesis by simp
    next
      case added
      have "filter (\<lambda>w. w_task w = tid) (st_writes st) = []" using Cons.prems(3) by (simp add: filter_empty_conv)
      moreover have "map_of (st_slots ?st) (tid, 0) \<noteq> None" using added(3) True by simp
      ultimately show ?thesis
        using exit_store_occupied [of ws ?st tid key] Cons.prems(1) added(2) True by (simp add: rest)
    qed
  next
    case False
    have inv: "slots_inv ?st" using Cons.prems(2) by (rule put_writes_inv)
    have "\<forall>w \<in> set (st_writes ?st). w_task w \<noteq> tid"
      using idx by (cases rule: put_single_cases [where st = st and task = "fst (key w)" and path = "snd (key w)"])
        (use Cons.prems(3) False in auto)
    then show ?thesis using Cons.IH [OF _ inv] Cons.prems(1) False by (simp add: rest)
  qed
qed

text \<open>
  An exit flush keeps one write per task and superstep. The accumulated writes are recorded one
  \<open>PutWrites\<close> call at a time, each in position 0 of a batch of its own under an ID that names only the
  task and the superstep, so the first write of a task takes the slot and every further channel
  the same task wrote is silently dropped.
\<close>

theorem exit_flush_keeps_one_write_per_task:
  assumes "ms_inv s" and "ms_lookup s anchor = Some (cid, st)"
    and "\<forall>w \<in> set ws. reserved_write_idx (ew_channel w) = None"
    and "\<forall>w \<in> set (st_writes st). w_task w \<noteq> tid"
  shows "(snd (put_exit_writes memory_ops (exit_write_key first_step) anchor ws s) = Inr ())
    \<and> (map_option (\<lambda>(_, st'). filter (\<lambda>w. w_task w = tid) (st_writes st'))
        (ms_lookup (fst (put_exit_writes memory_ops (exit_write_key first_step) anchor ws s)) anchor) =
      Some (case find (\<lambda>w. fst (exit_write_key first_step w) = tid) ws of
              None \<Rightarrow> [] | Some w \<Rightarrow> [stamp tid (snd (exit_write_key first_step w)) (exit_cp_write w)]))"
proof (rule conjI)
  have "slots_inv st" using ms_invD [OF assms(1) ms_lookup_Some [OF assms(2)]] by simp
  then show "snd (put_exit_writes memory_ops (exit_write_key first_step) anchor ws s) = Inr ()"
    "map_option (\<lambda>(_, st'). filter (\<lambda>w. w_task w = tid) (st_writes st'))
        (ms_lookup (fst (put_exit_writes memory_ops (exit_write_key first_step) anchor ws s)) anchor) =
      Some (case find (\<lambda>w. fst (exit_write_key first_step w) = tid) ws of
              None \<Rightarrow> [] | Some w \<Rightarrow> [stamp tid (snd (exit_write_key first_step w)) (exit_cp_write w)])"
    using put_exit_writes_memory [OF assms(2), of "exit_write_key first_step" ws]
      exit_store_fresh [OF assms(3) _ assms(4), of "exit_write_key first_step"] by simp_all
qed

definition demo_exit_writes :: "exit_delta_write list" where
  "demo_exit_writes =
     [\<lparr>ew_step = 0, ew_task = ''0123456789abcdef'', ew_path = dispatch_path 0, ew_channel = ''answer'', ew_value = VInt 42\<rparr>,
      \<lparr>ew_step = 0, ew_task = ''0123456789abcdef'', ew_path = dispatch_path 0, ew_channel = ''log'', ew_value = VStr ''lost''\<rparr>]"

lemma exit_flush_keeps_one_write_per_task_witness:
  "map_option (\<lambda>(_, st'). map w_channel (filter (\<lambda>w. w_task w = ''000000000123456789abcdef'') (st_writes st')))
     (ms_lookup (fst (put_exit_writes memory_ops (exit_write_key 0) (demo_cfg ''t'' ''c2'') demo_exit_writes demo_saver))
        (demo_cfg ''t'' ''c2'')) = Some [''answer'']"
proof -
  have "map_option (\<lambda>(cid, st). (cid, st_writes st)) (ms_lookup demo_saver (demo_cfg ''t'' ''c2'')) = Some (''c2'', [])"
    by code_simp
  then obtain st where st: "ms_lookup demo_saver (demo_cfg ''t'' ''c2'') = Some (''c2'', st)" "st_writes st = []"
    by auto
  have res: "\<forall>w \<in> set demo_exit_writes. reserved_write_idx (ew_channel w) = None" by code_simp
  have "map_option (\<lambda>w. w_channel (exit_cp_write w))
      (find (\<lambda>w. fst (exit_write_key 0 w) = ''000000000123456789abcdef'') demo_exit_writes) = Some ''answer''" by code_simp
  then obtain w where w: "find (\<lambda>w. fst (exit_write_key 0 w) = ''000000000123456789abcdef'') demo_exit_writes = Some w"
    "w_channel (exit_cp_write w) = ''answer''" by auto
  show ?thesis
    using exit_flush_keeps_one_write_per_task [OF demo_saver_inv st(1) res, of "''000000000123456789abcdef''" 0, THEN conjunct2] st(2) w
    by (auto simp: stamp_def)
qed

subsection \<open>The replay order of exit writes\<close>

text \<open>Savers replay a checkpoint's writes sorted by path, then task ID.\<close>

definition replay_before :: "string \<times> string \<Rightarrow> string \<times> string \<Rightarrow> bool" where
  "replay_before a b \<longleftrightarrow> snd a < snd b \<or> snd a = snd b \<and> fst a < fst b"

lemma digit_char_bounds: "d < 10 \<Longrightarrow> CHR ''!'' < digit_char d \<and> digit_char d < CHR ''~''"
  by (simp add: digit_char_def less_char_def)

lemma fixdigits_Cons:
  assumes "0 < w"
  obtains d ds where "fixdigits 10 w n = digit_char d # ds" and "d < 10"
proof -
  have "\<exists>d ds. fixdigits 10 w n = digit_char d # ds \<and> d < 10" using assms
  proof (induction w arbitrary: n)
    case (Suc w)
    show ?case
    proof (cases "w = 0")
      case True
      then show ?thesis by (intro exI [of _ "n mod 10"] exI [of _ "[]"]) simp
    next
      case False
      with Suc.IH [of "n div 10"] obtain d ds where "fixdigits 10 w (n div 10) = digit_char d # ds" "d < 10" by auto
      then show ?thesis by (intro exI [of _ d] exI [of _ "ds @ [digit_char (n mod 10)]"]) simp
    qed
  qed simp
  with that show ?thesis by blast
qed

lemma dispatch_path_Cons:
  assumes "0 \<le> i" and "i < 10 ^ 10"
  obtains d ds where "dispatch_path i = digit_char d # ds" and "d < 10"
proof -
  have "dispatch_path i = fixdigits 10 10 (nat i)"
    using assms by (simp add: dispatch_path_def fmt_dec_def show_nat_def pad0_show_base nat_less_iff)
  with that fixdigits_Cons [of 10 "nat i"] show ?thesis by (metis zero_less_numeral)
qed

lemma late_path_mono:
  assumes "0 \<le> a" and "a < b" and "b < 10 ^ 10"
  shows "exit_delta_late_path a p < exit_delta_late_path b q"
proof -
  have "fmt_dec 10 a @ p < fmt_dec 10 b @ q"
    using assms by (intro less_append_same_length) (simp_all add: length_fmt_dec fmt_dec_mono)
  then show ?thesis by (simp add: exit_delta_late_path_def)
qed

lemma early_path_mono:
  assumes "0 \<le> a" and "a < b" and "b < 10 ^ 10"
  shows "exit_delta_early_path a p < exit_delta_early_path b q"
proof -
  have "fmt_dec 10 a @ p < fmt_dec 10 b @ q"
    using assms by (intro less_append_same_length) (simp_all add: length_fmt_dec fmt_dec_mono)
  then show ?thesis by (simp add: exit_delta_early_path_def)
qed

text \<open>
  The exit keys make the savers' replay order the order of the run: writes of a later superstep
  follow those of an earlier one, writes of one superstep keep their dispatch order, and on a pause
  checkpoint every accumulated write precedes the pausing superstep's own writes, in step order.
\<close>

theorem exit_keys_are_chronological:
  assumes "ew_task a \<noteq> null_task_id" and "ew_task b \<noteq> null_task_id"
    and "ew_path a = dispatch_path i" and "ew_path b = dispatch_path j"
    and "0 \<le> i" and "i < 10 ^ 10" and "0 \<le> j" and "j < 10 ^ 10"
    and "0 \<le> first_step" and "first_step \<le> ew_step a" and "ew_step b < 10 ^ 10"
  shows "(ew_step a < ew_step b \<longrightarrow> replay_before (exit_write_key first_step a) (exit_write_key first_step b))
    \<and> (ew_step a = ew_step b \<longrightarrow> i < j \<longrightarrow>
      replay_before (exit_write_key first_step a) (exit_write_key first_step b))
    \<and> (ew_step a < ew_step b \<longrightarrow> replay_before (exit_pause_write_key a) (exit_pause_write_key b))
    \<and> (replay_before (exit_pause_write_key a) (real_id, dispatch_path j))"
proof (intro conjI impI)
  have path: "dispatch_path i < dispatch_path j" if "i < j"
    using that assms unfolding dispatch_path_def by (intro fmt_dec_mono) simp_all
  show "replay_before (exit_write_key first_step a) (exit_write_key first_step b)" if less: "ew_step a < ew_step b"
  proof (cases "ew_step a = first_step")
    case True
    obtain d ds where d: "dispatch_path i = digit_char d # ds" "d < 10"
      using dispatch_path_Cons [OF assms(5,6)] by blast
    then have "dispatch_path i < exit_delta_late_path (ew_step b) (ew_path b)"
      using digit_char_bounds [of d] by (simp add: exit_delta_late_path_def)
    then show ?thesis using True less assms by (simp add: replay_before_def exit_write_key_def)
  next
    case False
    then show ?thesis
      using less assms by (simp add: replay_before_def exit_write_key_def late_path_mono)
  qed
  show "replay_before (exit_write_key first_step a) (exit_write_key first_step b)"
    if "ew_step a = ew_step b" "i < j"
    using that assms path
    by (simp add: replay_before_def exit_write_key_def exit_delta_late_path_def)
  show "replay_before (exit_pause_write_key a) (exit_pause_write_key b)" if "ew_step a < ew_step b"
    using that assms by (simp add: replay_before_def exit_pause_write_key_def early_path_mono)
  obtain d ds where d: "dispatch_path j = digit_char d # ds" "d < 10"
    using dispatch_path_Cons [OF assms(7,8)] by blast
  then have "exit_delta_early_path (ew_step a) (ew_path a) < dispatch_path j"
    using digit_char_bounds [of d] by (simp add: exit_delta_early_path_def)
  then show "replay_before (exit_pause_write_key a) (real_id, dispatch_path j)"
    using assms by (simp add: replay_before_def exit_pause_write_key_def)
qed

lemma exit_keys_are_chronological_witness:
  "let w = (\<lambda>step i. \<lparr>ew_step = step, ew_task = ''0123456789abcdef'', ew_path = dispatch_path i,
                      ew_channel = ''log'', ew_value = VNil\<rparr>)
   in replay_before (exit_write_key 1 (w 1 9)) (exit_write_key 1 (w 2 0))"
proof -
  have "''0123456789abcdef'' \<noteq> null_task_id" by code_simp
  then show ?thesis
    unfolding Let_def by (intro exit_keys_are_chronological [where i = 9 and j = 0, THEN conjunct1, THEN mp]) simp_all
qed

end
