(* ===== verification/NodeExec.thy ===== *)
theory NodeExec
  imports Complex_Main Checkpoint TaskIds Reducers
begin

section \<open>Running one task (langgraph/graph/policy.go; graph.go runNode, runTask)\<close>

text \<open>
  A node is user code. Its model is the sequence of what it does that the executor sees: it returns,
  fails, or calls \<open>Interrupt\<close> and goes on with the answer. Running it against a resume queue answers
  its first calls and pauses at the first one the queue does not cover. The retry loop runs a node
  again from the start while its policy allows.
\<close>

subsection \<open>Node results\<close>

datatype node_result =
    RNil
  | RState gstate
  | RCommand command
  | ROther string

definition parent_graph :: string where "parent_graph = ''__parent__''"
definition end_node :: string where "end_node = ''__end__''"
definition start_node :: string where "start_node = ''__start__''"

definition normalize_node_result :: "node_result \<Rightarrow> goerr + gstate \<times> command option" where
  "normalize_node_result r =
     (case r of
        RNil \<Rightarrow> Inr ([], None)
      | RState upd \<Rightarrow> Inr (upd, None)
      | RCommand c \<Rightarrow>
          (if cmd_graph c = parent_graph then Inl (EParentCommand c)
           else if cmd_graph c \<noteq> [] then
             Inl (EText (''graph: Command.Graph '' @ go_quote (cmd_graph c) @ '' is not supported (only ''
                    @ go_quote parent_graph @ '', targeting the parent graph)''))
           else Inr (cmd_update c, Some c))
      | ROther t \<Rightarrow>
          Inl (EText (''graph: node returned unsupported type '' @ t @ '' (want map[string]any or *types.Command)'')))"

text \<open>\<open>gotoSends\<close>: a plain node name is a Send without an argument.\<close>

fun goto_sends :: "gval list \<Rightarrow> goerr + (string \<times> gstate option) list" where
  "goto_sends [] = Inr []"
| "goto_sends (d # ds) =
     (case (case d of VStr n \<Rightarrow> Inr (n, None) | VSend n arg \<Rightarrow> Inr (n, arg)
            | _ \<Rightarrow> Inl (EText (''graph: unsupported routing destination '' @ go_type d
                              @ '' (want string or *types.Send)''))) of
        Inl e \<Rightarrow> Inl e
      | Inr s \<Rightarrow> (case goto_sends ds of Inl e \<Rightarrow> Inl e | Inr ss \<Rightarrow> Inr (s # ss)))"

subsection \<open>Interrupts and the resume queue\<close>

datatype node_prog =
    Return node_result
  | Fail goerr
  | Ask gval "gstate option" "gval \<Rightarrow> node_prog"

datatype node_outcome =
    Returned node_result
  | Failed goerr
  | Interrupted "gintr list" "gval list"

record interrupt_state =
  is_queue :: "gval list"
  is_idx :: nat
  is_counter :: nat
  is_node :: string
  is_ns :: string

definition interrupt_id :: "string \<Rightarrow> nat \<Rightarrow> string" where
  "interrupt_id node n = node @ ''-'' @ show_nat n"

text \<open>
  One \<open>Interrupt\<close> call: the next queued value, or the interrupt to surface, numbered by the calls
  of this invocation.
\<close>

definition interrupt_call :: "gval \<Rightarrow> gstate option \<Rightarrow> interrupt_state \<Rightarrow> interrupt_state \<times> (gintr + gval)" where
  "interrupt_call v schema st =
     (if is_idx st < length (is_queue st) then
        (st\<lparr>is_idx := is_idx st + 1, is_counter := is_counter st + 1\<rparr>, Inr (is_queue st ! is_idx st))
      else
        (st\<lparr>is_counter := is_counter st + 1\<rparr>,
         Inl (Interrupt v (interrupt_id (is_node st) (is_counter st + 1)) (is_ns st) schema)))"

definition replay_interrupt_consumption :: "int \<Rightarrow> interrupt_state \<Rightarrow> interrupt_state" where
  "replay_interrupt_consumption n st =
     (if n \<le> 0 then st else st\<lparr>is_idx := is_idx st + nat n, is_counter := is_counter st + nat n\<rparr>)"

text \<open>\<open>runNode\<close> after its setup: the node runs until it returns, fails, or an interrupt surfaces.\<close>

primrec run_prog :: "node_prog \<Rightarrow> interrupt_state \<Rightarrow> node_outcome" where
  "run_prog (Return r) st = Returned r"
| "run_prog (Fail e) st = Failed e"
| "run_prog (Ask v schema k) st =
     (case interrupt_call v schema st of
        (st', Inr a) \<Rightarrow> run_prog (k a) st'
      | (st', Inl i) \<Rightarrow> Interrupted [i] (take (is_idx st') (is_queue st')))"

definition run_node :: "(string \<Rightarrow> (nat \<Rightarrow> gstate \<Rightarrow> node_prog) option) \<Rightarrow> string \<Rightarrow> string \<Rightarrow> gstate
    \<Rightarrow> gval list \<Rightarrow> nat \<Rightarrow> node_outcome" where
  "run_node nodes node ns input queue attempt =
     (case nodes node of
        None \<Rightarrow> Failed (EText (''graph: unknown node '' @ go_quote node))
      | Some fn \<Rightarrow> run_prog (fn attempt input)
          \<lparr>is_queue = queue, is_idx = 0, is_counter = 0, is_node = node, is_ns = ns\<rparr>)"

text \<open>What is left of a node once a list of answers has been fed to its calls.\<close>

fun feed_answers :: "gval list \<Rightarrow> node_prog \<Rightarrow> node_prog" where
  "feed_answers (a # answers) (Ask v schema k) = feed_answers answers (k a)"
| "feed_answers answers p = p"

text \<open>How many answers a node takes from a list.\<close>

fun answers_used :: "gval list \<Rightarrow> node_prog \<Rightarrow> nat" where
  "answers_used (a # answers) (Ask v schema k) = Suc (answers_used answers (k a))"
| "answers_used answers p = 0"

lemma run_prog_feed:
  "is_idx st \<le> length (is_queue st) \<Longrightarrow> is_counter st = is_idx st \<Longrightarrow>
   run_prog p st =
     (let answers = drop (is_idx st) (is_queue st); used = is_idx st + answers_used answers p
      in case feed_answers answers p of
           Return r \<Rightarrow> Returned r
         | Fail e \<Rightarrow> Failed e
         | Ask v schema k \<Rightarrow>
             Interrupted [Interrupt v (interrupt_id (is_node st) (used + 1)) (is_ns st) schema] (take used (is_queue st)))"
proof (induction p arbitrary: st)
  case (Ask v schema k)
  show ?case
  proof (cases "is_idx st < length (is_queue st)")
    case True
    let ?st = "st\<lparr>is_idx := is_idx st + 1, is_counter := is_counter st + 1\<rparr>"
    have drop: "drop (is_idx st) (is_queue st) = is_queue st ! is_idx st # drop (Suc (is_idx st)) (is_queue st)"
      using True by (rule Cons_nth_drop_Suc [symmetric])
    have "run_prog (Ask v schema k) st = run_prog (k (is_queue st ! is_idx st)) ?st"
      using True by (simp add: interrupt_call_def)
    also have "\<dots> = (let answers = drop (is_idx ?st) (is_queue ?st);
        used = is_idx ?st + answers_used answers (k (is_queue st ! is_idx st))
      in case feed_answers answers (k (is_queue st ! is_idx st)) of
           Return r \<Rightarrow> Returned r
         | Fail e \<Rightarrow> Failed e
         | Ask v schema k \<Rightarrow>
             Interrupted [Interrupt v (interrupt_id (is_node ?st) (used + 1)) (is_ns ?st) schema] (take used (is_queue ?st)))"
      using True Ask.prems by (intro Ask.IH) auto
    finally show ?thesis unfolding drop Let_def by (simp split: node_prog.split)
  next
    case False
    then show ?thesis using Ask.prems by (simp add: interrupt_call_def Let_def)
  qed
qed (simp_all add: Let_def)

lemma feed_answers_Ask_used: "feed_answers q p = Ask v schema k \<Longrightarrow> answers_used q p = length q"
  by (induction q p rule: feed_answers.induct) auto

definition start_state :: "gval list \<Rightarrow> nat \<Rightarrow> string \<Rightarrow> string \<Rightarrow> interrupt_state" where
  "start_state queue i node ns = \<lparr>is_queue = queue, is_idx = i, is_counter = i, is_node = node, is_ns = ns\<rparr>"

lemma run_prog_prefix:
  "feed_answers q p = Ask v schema k \<Longrightarrow>
   run_prog p (start_state (pre @ q @ r) (length pre) node ns) =
   run_prog (Ask v schema k) (start_state (pre @ q @ r) (length pre + length q) node ns)"
proof (induction q p arbitrary: pre rule: feed_answers.induct)
  case (1 a answers v' schema' k')
  have "run_prog (Ask v' schema' k') (start_state (pre @ (a # answers) @ r) (length pre) node ns) =
      run_prog (k' a) (start_state ((pre @ [a]) @ answers @ r) (length (pre @ [a])) node ns)"
    by (simp add: interrupt_call_def start_state_def nth_append)
  also have "\<dots> = run_prog (Ask v schema k)
      (start_state ((pre @ [a]) @ answers @ r) (length (pre @ [a]) + length answers) node ns)"
    using 1(2) by (intro 1(1)) simp
  finally show ?case by simp
qed simp_all

lemma interrupted_node_pauses:
  assumes "nodes node = Some fn" and "run_node nodes node ns input queue attempt = Interrupted intrs consumed"
  shows "consumed = queue"
    and "\<exists>v schema k. intrs = [Interrupt v (interrupt_id node (length queue + 1)) ns schema] \<and>
      feed_answers queue (fn attempt input) = Ask v schema k \<and>
      run_node nodes node ns input (queue @ [a]) attempt =
        run_prog (k a) (start_state (queue @ [a]) (length queue + 1) node ns)"
proof -
  have run: "run_node nodes node ns input q attempt = run_prog (fn attempt input) (start_state q 0 node ns)" for q
    using assms(1) by (simp add: run_node_def start_state_def)
  note * = run_prog_feed [of "start_state queue 0 node ns" "fn attempt input"]
  from assms(2) run * obtain v schema k where k: "feed_answers queue (fn attempt input) = Ask v schema k"
    by (cases "feed_answers queue (fn attempt input)") (auto simp: start_state_def Let_def)
  note used = feed_answers_Ask_used [OF k]
  from assms(2) run * k used
  have res: "intrs = [Interrupt v (interrupt_id node (length queue + 1)) ns schema]" "consumed = queue"
    by (auto simp: start_state_def Let_def)
  then show "consumed = queue" by simp
  have "run_node nodes node ns input (queue @ [a]) attempt =
      run_prog (Ask v schema k) (start_state (queue @ [a]) (length queue) node ns)"
    using run_prog_prefix [OF k, of "[]" "[a]" node ns] run by simp
  also have "\<dots> = run_prog (k a) (start_state (queue @ [a]) (length queue + 1) node ns)"
    by (simp add: interrupt_call_def start_state_def)
  finally show "\<exists>v schema k. intrs = [Interrupt v (interrupt_id node (length queue + 1)) ns schema] \<and>
      feed_answers queue (fn attempt input) = Ask v schema k \<and>
      run_node nodes node ns input (queue @ [a]) attempt =
        run_prog (k a) (start_state (queue @ [a]) (length queue + 1) node ns)"
    using res k by blast
qed

text \<open>
  An interrupted node resumes where it stopped. A pause reports the whole queue as consumed and
  an interrupt numbered one past it; running the node again with one more answer passes that answer
  to the very call that paused and goes on from there, so interrupt IDs do not shift between runs.
\<close>

theorem interrupted_node_resumes_in_place:
  assumes "nodes node = Some fn" and "run_node nodes node ns input queue attempt = Interrupted intrs consumed"
  shows "(consumed = queue)
    \<and> (\<exists>v schema k. intrs = [Interrupt v (interrupt_id node (length queue + 1)) ns schema] \<and>
      feed_answers queue (fn attempt input) = Ask v schema k \<and>
      run_node nodes node ns input (queue @ [a]) attempt =
        run_prog (k a) (start_state (queue @ [a]) (length queue + 1) node ns))"
  using interrupted_node_pauses [OF assms] by blast

text \<open>A node that asks twice and returns both answers.\<close>

definition demo_node :: "nat \<Rightarrow> gstate \<Rightarrow> node_prog" where
  "demo_node attempt state =
     Ask (VStr ''first?'') None (\<lambda>a. Ask (VStr ''second?'') None (\<lambda>b. Return (RState [(''out'', VList [a, b])])))"

definition demo_nodes :: "string \<Rightarrow> (nat \<Rightarrow> gstate \<Rightarrow> node_prog) option" where
  "demo_nodes n = (if n = ''ask'' then Some demo_node else None)"

lemma interrupted_node_resumes_in_place_witness:
  "run_node demo_nodes ''ask'' [] [] [VInt 1] 1 = Interrupted [Interrupt (VStr ''second?'') ''ask-2'' [] None] [VInt 1] \<and>
   run_node demo_nodes ''ask'' [] [] [VInt 1, VInt 2] 1 = Returned (RState [(''out'', VList [VInt 1, VInt 2])])"
proof
  show run: "run_node demo_nodes ''ask'' [] [] [VInt 1] 1 = Interrupted [Interrupt (VStr ''second?'') ''ask-2'' [] None] [VInt 1]"
    by code_simp
  have "demo_nodes ''ask'' = Some demo_node" by (simp add: demo_nodes_def)
  from interrupted_node_resumes_in_place [OF this run, of "VInt 2", THEN conjunct2]
  show "run_node demo_nodes ''ask'' [] [] [VInt 1, VInt 2] 1 = Returned (RState [(''out'', VList [VInt 1, VInt 2])])"
    by (auto simp: demo_node_def)
qed

subsection \<open>Retry policies\<close>

text \<open>
  Durations are nanoseconds. The backoff factor is a float64 in the code; the model computes with
  exact rationals (\<open>None\<close> is NaN) and truncates the product as the conversion to a duration does.
  \<open>rp_retry_on = None\<close> is a nil predicate.
\<close>

record retry_policy =
  rp_initial :: int
  rp_factor :: "rat option"
  rp_max_interval :: int
  rp_max_attempts :: int
  rp_no_jitter :: bool
  rp_retry_on :: "(goerr \<Rightarrow> bool) option"

definition default_retry_on :: "goerr \<Rightarrow> bool" where
  "default_retry_on err \<longleftrightarrow>
     \<not> list_ex (\<lambda>e. case e of EInvalidUpdate _ _ \<Rightarrow> True | ECanceled \<Rightarrow> True | ENonRetryable _ \<Rightarrow> True | _ \<Rightarrow> False)
        (err_chain err)"

definition with_defaults :: "retry_policy \<Rightarrow> retry_policy" where
  "with_defaults p =
     p\<lparr>rp_initial := (if rp_initial p = 0 then 500000000 else rp_initial p),
       rp_factor := (if rp_factor p = Some 0 then Some 2 else rp_factor p),
       rp_max_interval := (if rp_max_interval p = 0 then 128000000000 else rp_max_interval p),
       rp_max_attempts := (if rp_max_attempts p = 0 then 3 else rp_max_attempts p),
       rp_retry_on := (case rp_retry_on p of None \<Rightarrow> Some default_retry_on | Some f \<Rightarrow> Some f)\<rparr>"

definition retry_validate :: "retry_policy \<Rightarrow> string option" where
  "retry_validate p =
     (let eff = with_defaults p
      in if rp_initial eff < 0 then Some ''InitialInterval must be >= 0''
         else if rp_max_interval eff < 0 then Some ''MaxInterval must be >= 0''
         else if (case rp_factor eff of None \<Rightarrow> True | Some f \<Rightarrow> f < 0) then Some ''BackoffFactor must be >= 0 and not NaN''
         else if rp_max_attempts eff < 1 then Some ''MaxAttempts must be >= 1''
         else None)"

text \<open>The delay after a failed attempt; \<open>jitter\<close> is the random nanoseconds added when enabled.\<close>

definition backoff :: "retry_policy \<Rightarrow> nat \<Rightarrow> int \<Rightarrow> int" where
  "backoff p attempt jitter =
     (let interval = of_int (rp_initial p) * (case rp_factor p of None \<Rightarrow> 0 | Some f \<Rightarrow> f) ^ (attempt - 1);
          delay = \<lfloor>min interval (of_int (rp_max_interval p))\<rfloor>
      in if rp_no_jitter p then delay else delay + jitter)"

definition node_error :: "string \<Rightarrow> nat \<Rightarrow> goerr \<Rightarrow> goerr" where
  "node_error node attempt e = ENodeError node (int attempt) e"

text \<open>
  \<open>runTask\<close>: attempts until one returns or interrupts, the budget is used up, the error is not
  retryable, or the run is cancelled during a backoff. \<open>cancelled n\<close> says whether the context ends
  while waiting after attempt \<open>n\<close>. \<open>policy\<close> is the effective policy with its defaults resolved.
\<close>

datatype task_outcome =
    TDone gstate "command option"
  | TInterrupted "gintr list" "gval list"
  | TFailed goerr

definition give_up :: "bool \<Rightarrow> string \<Rightarrow> nat \<Rightarrow> goerr \<Rightarrow> task_outcome" where
  "give_up handler node attempt e = TFailed (if handler then node_error node attempt e else e)"

definition may_retry :: "retry_policy option \<Rightarrow> nat \<Rightarrow> goerr \<Rightarrow> bool" where
  "may_retry policy attempt e =
     (case policy of
        None \<Rightarrow> False
      | Some p \<Rightarrow> int attempt < rp_max_attempts p
          \<and> (case rp_retry_on p of None \<Rightarrow> False | Some f \<Rightarrow> f e))"

function run_task_from :: "retry_policy option \<Rightarrow> bool \<Rightarrow> string \<Rightarrow> (nat \<Rightarrow> node_outcome) \<Rightarrow> (nat \<Rightarrow> bool)
    \<Rightarrow> nat \<Rightarrow> task_outcome" where
  "run_task_from policy handler node run cancelled attempt =
     (case run attempt of
        Interrupted intrs consumed \<Rightarrow> TInterrupted intrs consumed
      | Returned r \<Rightarrow>
          (case normalize_node_result r of Inl e \<Rightarrow> TFailed e | Inr (upd, cmd) \<Rightarrow> TDone upd cmd)
      | Failed e \<Rightarrow>
          (if \<not> may_retry policy attempt e then give_up handler node attempt e
           else if cancelled attempt then TFailed ECanceled
           else run_task_from policy handler node run cancelled (Suc attempt)))"
  by pat_completeness auto

termination
  by (relation "measure (\<lambda>(policy, _, _, _, _, attempt).
        case policy of None \<Rightarrow> 0 | Some p \<Rightarrow> nat (rp_max_attempts p - int attempt))")
    (auto simp: may_retry_def split: option.splits)

declare run_task_from.simps [simp del]

definition run_task :: "retry_policy option \<Rightarrow> bool \<Rightarrow> string \<Rightarrow> (nat \<Rightarrow> node_outcome) \<Rightarrow> (nat \<Rightarrow> bool) \<Rightarrow> task_outcome" where
  "run_task policy handler node run cancelled = run_task_from policy handler node run cancelled 1"

definition retried :: "retry_policy option \<Rightarrow> (nat \<Rightarrow> node_outcome) \<Rightarrow> (nat \<Rightarrow> bool) \<Rightarrow> nat \<Rightarrow> bool" where
  "retried policy run cancelled m \<longleftrightarrow>
     (case run m of Failed e \<Rightarrow> may_retry policy m e \<and> \<not> cancelled m | _ \<Rightarrow> False)"

text \<open>What the last attempt makes of the task.\<close>

definition final_outcome :: "retry_policy option \<Rightarrow> bool \<Rightarrow> string \<Rightarrow> (nat \<Rightarrow> node_outcome) \<Rightarrow> nat \<Rightarrow> task_outcome" where
  "final_outcome policy handler node run n =
     (case run n of
        Interrupted intrs consumed \<Rightarrow> TInterrupted intrs consumed
      | Returned r \<Rightarrow> (case normalize_node_result r of Inl e \<Rightarrow> TFailed e | Inr (upd, cmd) \<Rightarrow> TDone upd cmd)
      | Failed e \<Rightarrow> (if may_retry policy n e then TFailed ECanceled else give_up handler node n e))"

definition attempt_limit :: "retry_policy option \<Rightarrow> int" where
  "attempt_limit policy = (case policy of None \<Rightarrow> 1 | Some p \<Rightarrow> max 1 (rp_max_attempts p))"

lemma run_task_from_stops:
  "1 \<le> a \<Longrightarrow> int a \<le> attempt_limit policy \<Longrightarrow>
   \<exists>n \<ge> a. (\<forall>m \<in> {a..<n}. retried policy run cancelled m) \<and> \<not> retried policy run cancelled n \<and>
     int n \<le> attempt_limit policy \<and>
     run_task_from policy handler node run cancelled a = final_outcome policy handler node run n"
proof (induction policy handler node run cancelled a rule: run_task_from.induct)
  case (1 policy handler node run cancelled a)
  show ?case
  proof (cases "retried policy run cancelled a")
    case False
    then show ?thesis using 1(3)
      by (intro exI [of _ a])
        (auto simp: run_task_from.simps [of policy handler node run cancelled a] final_outcome_def retried_def
          split: node_outcome.splits)
  next
    case True
    then obtain e where e: "run a = Failed e" "may_retry policy a e" "\<not> cancelled a"
      by (auto simp: retried_def split: node_outcome.splits)
    have "int (Suc a) \<le> attempt_limit policy"
      using e(2) by (auto simp: may_retry_def attempt_limit_def split: option.splits)
    with 1(1) [OF e(1)] e(2,3) obtain n where n: "n \<ge> Suc a"
      "\<forall>m \<in> {Suc a..<n}. retried policy run cancelled m" "\<not> retried policy run cancelled n"
      "int n \<le> attempt_limit policy"
      "run_task_from policy handler node run cancelled (Suc a) = final_outcome policy handler node run n"
      by auto
    moreover have "retried policy run cancelled m" if "m \<in> {a..<n}" for m
      using that True n(2) by (cases "m = a") auto
    moreover have "run_task_from policy handler node run cancelled a = run_task_from policy handler node run cancelled (Suc a)"
      using e by (simp add: run_task_from.simps [of policy handler node run cancelled a])
    ultimately show ?thesis by (intro exI [of _ n]) auto
  qed
qed

text \<open>
  A task runs attempt after attempt and stops at the first one that is not retried: it returned,
  interrupted, failed for good, or the run was cancelled in its backoff. Never more attempts than
  the policy allows are made, a node without a policy runs once, and the outcome is the last
  attempt's.
\<close>

theorem run_task_stops_at_first_final_attempt:
  "\<exists>n \<ge> 1. (\<forall>m \<in> {1..<n}. retried policy run cancelled m) \<and> \<not> retried policy run cancelled n \<and>
     int n \<le> attempt_limit policy \<and>
     run_task policy handler node run cancelled = final_outcome policy handler node run n"
  unfolding run_task_def by (rule run_task_from_stops) (simp_all add: attempt_limit_def split: option.split)

definition demo_retry :: retry_policy where
  "demo_retry = with_defaults \<lparr>rp_initial = 0, rp_factor = Some 0, rp_max_interval = 0, rp_max_attempts = 0,
                               rp_no_jitter = True, rp_retry_on = None\<rparr>"

definition flaky :: "nat \<Rightarrow> node_outcome" where
  "flaky attempt = (if attempt < 3 then Failed (EText ''timeout'') else Returned RNil)"

lemma run_task_stops_at_first_final_attempt_witness:
  "run_task (Some demo_retry) False ''n'' flaky (\<lambda>_. False) = TDone [] None"
proof -
  obtain n where n: "n \<ge> 1" "\<forall>m \<in> {1..<n}. retried (Some demo_retry) flaky (\<lambda>_. False) m"
    "\<not> retried (Some demo_retry) flaky (\<lambda>_. False) n"
    "run_task (Some demo_retry) False ''n'' flaky (\<lambda>_. False) = final_outcome (Some demo_retry) False ''n'' flaky n"
    using run_task_stops_at_first_final_attempt by blast
  have facts: "retried (Some demo_retry) flaky (\<lambda>_. False) 1" "retried (Some demo_retry) flaky (\<lambda>_. False) 2"
    "\<not> retried (Some demo_retry) flaky (\<lambda>_. False) 3"
    "final_outcome (Some demo_retry) False ''n'' flaky 3 = TDone [] None" by code_simp+
  have "n \<noteq> 1" "n \<noteq> 2" using n(3) facts by auto
  moreover have "\<not> 3 < n" using n(2) facts(3) by auto
  ultimately have "n = 3" using n(1) by linarith
  with n(4) facts(4) show ?thesis by simp
qed

text \<open>
  With a policy that Compile accepts, the delay before jitter is never negative and never above
  the maximal interval, and with a factor of at least one it does not decrease with the attempts.
\<close>

theorem backoff_is_bounded:
  assumes "retry_validate p = None" and "rp_no_jitter p" and "0 < a"
  shows "(0 \<le> backoff (with_defaults p) a jitter)
    \<and> (backoff (with_defaults p) a jitter \<le> rp_max_interval (with_defaults p))
    \<and> (rp_factor (with_defaults p) = Some f \<longrightarrow> 1 \<le> f \<longrightarrow> a \<le> b \<longrightarrow>
      backoff (with_defaults p) a jitter \<le> backoff (with_defaults p) b jitter)"
proof (intro conjI impI)
  let ?p = "with_defaults p"
  have nj: "rp_no_jitter ?p" using assms(2) by (simp add: with_defaults_def)
  from assms(1) have init: "0 \<le> rp_initial ?p" and cap: "0 \<le> rp_max_interval ?p"
    by (auto simp: retry_validate_def Let_def split: if_splits)
  from assms(1) have "\<exists>f. rp_factor ?p = Some f \<and> 0 \<le> f"
    by (cases "rp_factor ?p") (auto simp: retry_validate_def Let_def split: if_splits)
  then obtain g where g: "rp_factor ?p = Some g" "0 \<le> g" by blast
  let ?i = "\<lambda>n. of_int (rp_initial ?p) * g ^ (n - 1)"
  have delay: "backoff ?p n jitter = \<lfloor>min (?i n) (of_int (rp_max_interval ?p))\<rfloor>" for n
    using nj g(1) by (simp add: backoff_def Let_def)
  have "0 \<le> ?i a" using init g(2) by simp
  then show "0 \<le> backoff ?p a jitter" unfolding delay using cap by (simp add: min_def)
  have "\<lfloor>min (?i a) (of_int (rp_max_interval ?p))\<rfloor> \<le> \<lfloor>of_int (rp_max_interval ?p) :: rat\<rfloor>"
    by (rule floor_mono) simp
  then show "backoff ?p a jitter \<le> rp_max_interval ?p" unfolding delay by simp
  show "backoff ?p a jitter \<le> backoff ?p b jitter" if f: "rp_factor ?p = Some f" "1 \<le> f" "a \<le> b"
  proof -
    have "f ^ (a - 1) \<le> f ^ (b - 1)" using f by (intro power_increasing) auto
    then have "?i a \<le> ?i b" using init f(1) g(1) by (intro mult_left_mono) simp_all
    then show ?thesis unfolding delay by (intro floor_mono min.mono) simp_all
  qed
qed

lemma backoff_is_bounded_witness: "backoff demo_retry 12 0 \<le> 128000000000"
proof -
  let ?p = "\<lparr>rp_initial = 0, rp_factor = Some 0, rp_max_interval = 0, rp_max_attempts = 0,
             rp_no_jitter = True, rp_retry_on = None\<rparr>"
  have "retry_validate ?p = None" "rp_no_jitter ?p" "rp_max_interval (with_defaults ?p) = 128000000000"
    by (simp_all add: retry_validate_def with_defaults_def)
  from backoff_is_bounded [OF this(1,2), of 12 0, THEN conjunct2, THEN conjunct1] this(3) show ?thesis by (simp add: demo_retry_def)
qed

subsection \<open>Error texts and error handlers\<close>

fun err_text :: "goerr \<Rightarrow> string" where
  "err_text EEmptyChannel = ''channels: channel is empty''"
| "err_text (EInvalidUpdate c r) = ''channels: invalid update for '' @ c @ '' channel: '' @ r"
| "err_text (EText t) = t"
| "err_text (EWrap t e) = t @ '': '' @ err_text e"
| "err_text (EJoin a b) = err_text a @ [CHR 0x0A] @ err_text b"
| "err_text ECanceled = ''context canceled''"
| "err_text (ENonRetryable e) = err_text e"
| "err_text (ENodeError node attempt e) =
     (if attempt = 0 then ''node '' @ go_quote node @ '': '' @ err_text e
      else ''node '' @ go_quote node @ '' attempt '' @ show_int attempt @ '': '' @ err_text e)"
| "err_text (EParentCommand c) = ''graph: node returned a Command targeting the parent graph''"
| "err_text (ERecursion limit node) = ''graph: recursion limit ('' @ show_int limit @ '') exceeded''"
| "err_text (EDrained reason) = ''graph drained: '' @ reason"
| "err_text (EUnhandled None) = ''tools: unhandled tool error''"
| "err_text (EUnhandled (Some e)) = ''tools: unhandled tool error: '' @ err_text e"

text \<open>A failing handler keeps both errors reachable; a result is normalized like a node's.\<close>

definition normalize_error_handler_result ::
  "node_result \<Rightarrow> goerr option \<Rightarrow> string \<Rightarrow> goerr \<Rightarrow> goerr + gstate \<times> command option" where
  "normalize_error_handler_result result herr node original =
     (case herr of
        Some e \<Rightarrow> Inl (EWrap (''graph: error handler for node '' @ go_quote node) (EJoin e original))
      | None \<Rightarrow> normalize_node_result result)"

text \<open>\<open>TimeoutPolicy.validate\<close>.\<close>

record timeout_policy =
  to_run :: int
  to_idle :: int
  to_refresh_on :: string

definition timeout_validate :: "timeout_policy \<Rightarrow> string option" where
  "timeout_validate p =
     (if to_run p < 0 then Some ''RunTimeout must be >= 0''
      else if to_idle p < 0 then Some ''IdleTimeout must be >= 0''
      else if to_run p = 0 \<and> to_idle p = 0 then Some ''TimeoutPolicy must set RunTimeout or IdleTimeout''
      else if to_refresh_on p \<in> {[], ''auto'', ''heartbeat''} then None
      else Some (''RefreshOn must be '' @ go_quote ''auto'' @ '' or '' @ go_quote ''heartbeat''))"

end
