(* ===== verification/Resume.thy ===== *)
theory Resume
  imports NodeExec CheckpointSink
begin

section \<open>Pausing and resuming (langgraph/graph/resume.go)\<close>

text \<open>
  A paused superstep persists, per planned task, the interrupts it raised and the answers it had
  consumed, or the writes of a task that completed. A resuming run sorts the planned tasks of the
  checkpoint by these pending writes: interrupted and never-run tasks are dispatched again, the
  interrupted ones with their queue of answers; completed ones are replayed.
\<close>

subsection \<open>Pending writes of a pause\<close>

definition channel_write :: "string \<Rightarrow> gval \<Rightarrow> cp_write" where
  "channel_write ch v = \<lparr>w_task = [], w_path = [], w_channel = ch, w_value = v\<rparr>"

lemma channel_write_simps [simp]: "w_channel (channel_write ch v) = ch" "w_value (channel_write ch v) = v"
  by (simp_all add: channel_write_def)

definition interrupts_from_write :: "gval \<Rightarrow> gintr list" where
  "interrupts_from_write v = (case v of VInterrupt i \<Rightarrow> [i] | VInterrupts is \<Rightarrow> is | _ \<Rightarrow> [])"

definition interrupts_from_writes :: "cp_write list \<Rightarrow> gintr list" where
  "interrupts_from_writes ws =
     concat (map (\<lambda>w. interrupts_from_write (w_value w)) (filter (\<lambda>w. w_channel w = reserved_interrupt) ws))"

definition interrupt_writes :: "gintr list \<Rightarrow> cp_write list" where
  "interrupt_writes is = map (\<lambda>i. channel_write reserved_interrupt (VInterrupt i)) is"

definition error_writes :: "goerr \<Rightarrow> cp_write list" where
  "error_writes err = [channel_write reserved_error (VStr (err_text err))]"

definition interrupt_and_resume_writes :: "gintr list \<Rightarrow> gval list \<Rightarrow> cp_write list" where
  "interrupt_and_resume_writes is consumed =
     (if is = [] then []
      else (case is of [i] \<Rightarrow> [channel_write reserved_interrupt (VInterrupt i)]
            | _ \<Rightarrow> [channel_write reserved_interrupt (VInterrupts is)])
        @ (if consumed \<noteq> [] then [channel_write reserved_resume (VList consumed)] else []))"

definition send_val :: "string \<times> gstate option \<Rightarrow> gval" where
  "send_val s = VSend (fst s) (snd s)"

definition completed_task_writes :: "gstate \<Rightarrow> command option \<Rightarrow> goerr + cp_write list" where
  "completed_task_writes upd cmd =
     (let ws = map (\<lambda>k. channel_write k (mgetd upd k VNil)) (mkeys upd)
      in case cmd of
           None \<Rightarrow> Inr ws
         | Some c \<Rightarrow>
             (if cmd_goto c = [] then Inr ws
              else case goto_sends (cmd_goto c) of
                     Inl e \<Rightarrow> Inl e
                   | Inr ss \<Rightarrow> Inr (ws @ map (\<lambda>s. channel_write reserved_tasks (send_val s)) ss)))"

text \<open>The classification of a completed task's writes: routing sends, and state entries.\<close>

definition sends_of :: "cp_write list \<Rightarrow> (string \<times> gstate option) list" where
  "sends_of ws = List.map_filter (\<lambda>w. if w_channel w = reserved_tasks
     then (case w_value w of VSend n arg \<Rightarrow> Some (n, arg) | _ \<Rightarrow> None) else None) ws"

definition outcome_from_cached_writes :: "cp_write list \<Rightarrow> gstate \<times> command option" where
  "outcome_from_cached_writes ws =
     (let upd = fold (\<lambda>w m. if w_channel w = reserved_tasks then m else mput (w_channel w) (w_value w) m) ws [];
          dests = map send_val (sends_of ws)
      in (upd, if dests = [] then None
               else Some \<lparr>cmd_graph = [], cmd_update = upd, cmd_resume = VNil, cmd_goto = dests\<rparr>))"

subsection \<open>Namespaces\<close>

definition ns_covers :: "string \<Rightarrow> string \<Rightarrow> bool" where
  "ns_covers ns ins =
     (if ins = [] then ns = [] else ins = ns \<or> has_prefix ins (ns @ ''/''))"

definition interrupt_owned_by :: "string \<Rightarrow> string \<Rightarrow> bool" where
  "interrupt_owned_by own_ns ins =
     (if ins = [] then True
      else if own_ns = [] then CHR ''/'' \<notin> set ins
      else has_prefix ins (own_ns @ ''/'') \<and> CHR ''/'' \<notin> set (drop (length own_ns + 1) ins))"

definition interrupt_before_id :: string where "interrupt_before_id = ''interrupt-before-''"
definition interrupt_after_id :: string where "interrupt_after_id = ''interrupt-after-''"

text \<open>The first owned boundary interrupt names the node whose check the first superstep skips.\<close>

fun resume_skip_node :: "gintr list \<Rightarrow> string \<Rightarrow> string" where
  "resume_skip_node [] own_ns = []"
| "resume_skip_node (p # ps) own_ns =
     (if has_prefix (intr_id p) interrupt_before_id \<and> interrupt_owned_by own_ns (intr_ns p)
      then drop (length interrupt_before_id) (intr_id p)
      else resume_skip_node ps own_ns)"

subsection \<open>The resume queue of a task\<close>

definition match_resume :: "gstate \<Rightarrow> gintr \<Rightarrow> gval option" where
  "match_resume m p =
     (case (if intr_ns p \<noteq> [] then map_of m (intr_ns p) else None) of
        Some v \<Rightarrow> Some v
      | None \<Rightarrow> map_of m (intr_id p))"

definition resume_values_for :: "gintr list \<Rightarrow> gval list \<Rightarrow> gval \<Rightarrow> string \<Rightarrow> gval list" where
  "resume_values_for pending prefix resume graph_ns =
     (if pending = [] \<or> resume = VNil then prefix
      else let pending' = (if graph_ns \<noteq> [] then filter (\<lambda>p. ns_covers graph_ns (intr_ns p)) pending else pending)
           in if graph_ns \<noteq> [] \<and> pending' = [] then prefix
              else case resume of
                     VMap m \<Rightarrow> prefix @ List.map_filter (match_resume m) pending'
                   | _ \<Rightarrow> prefix @ [resume])"

subsection \<open>The plan\<close>

record gtask =
  tk_id :: string
  tk_node :: string
  tk_arg :: "gstate option"
  tk_path :: string
  tk_run_handler :: bool
  tk_err_msg :: string

definition plain_task :: "string \<Rightarrow> gstate option \<Rightarrow> gtask" where
  "plain_task node arg = \<lparr>tk_id = [], tk_node = node, tk_arg = arg, tk_path = [], tk_run_handler = False, tk_err_msg = []\<rparr>"

definition planned_id :: "(gstate option \<Rightarrow> string) \<Rightarrow> gtask \<Rightarrow> string \<Rightarrow> int \<Rightarrow> string" where
  "planned_id dump t planning step =
     (if tk_id t \<noteq> [] then tk_id t else task_id planning step (tk_node t) (dump (tk_arg t)))"

record resume_plan =
  pl_tasks :: "gtask list"
  pl_resume :: "gval list gomap"
  pl_skip :: string
  pl_replay :: "task_writes list"
  pl_replayed :: "string list"

text \<open>What the pending writes of one planned task say.\<close>

record task_record =
  tr_interrupts :: "gintr list"
  tr_prefix :: "gval list"
  tr_sends :: "(string \<times> gstate option) list"
  tr_update :: gstate
  tr_error :: string

definition record_write :: "cp_write \<Rightarrow> task_record \<Rightarrow> task_record" where
  "record_write w r =
     (if w_channel w = reserved_interrupt then r\<lparr>tr_interrupts := tr_interrupts r @ interrupts_from_write (w_value w)\<rparr>
      else if w_channel w = reserved_resume then
        (case w_value w of VList vs \<Rightarrow> r\<lparr>tr_prefix := vs\<rparr> | _ \<Rightarrow> r)
      else if w_channel w = reserved_tasks then
        (case w_value w of VSend n arg \<Rightarrow> r\<lparr>tr_sends := tr_sends r @ [(n, arg)]\<rparr> | _ \<Rightarrow> r)
      else if w_channel w = reserved_error then
        (case w_value w of VStr s \<Rightarrow> r\<lparr>tr_error := s\<rparr> | _ \<Rightarrow> r)
      else r\<lparr>tr_update := mput (w_channel w) (w_value w) (tr_update r)\<rparr>)"

definition task_record_of :: "cp_write list \<Rightarrow> string \<Rightarrow> task_record" where
  "task_record_of ws tid =
     fold record_write (filter (\<lambda>w. w_task w = tid) ws)
       \<lparr>tr_interrupts = [], tr_prefix = [], tr_sends = [], tr_update = [], tr_error = []\<rparr>"

definition planned_gtask :: "nat \<Rightarrow> planned_task \<Rightarrow> gtask" where
  "planned_gtask i pt =
     \<lparr>tk_id = pt_id pt, tk_node = pt_node pt, tk_arg = pt_arg pt, tk_path = dispatch_path (int i),
      tk_run_handler = False, tk_err_msg = []\<rparr>"

definition plan_step :: "(string \<Rightarrow> bool) \<Rightarrow> cp_write list \<Rightarrow> gval \<Rightarrow> string \<Rightarrow> nat \<times> planned_task
    \<Rightarrow> resume_plan \<times> gtask list \<Rightarrow> goerr + resume_plan \<times> gtask list" where
  "plan_step has_handler ws resume graph_ns ipt acc =
     (case (ipt, acc) of ((i, pt), (plan, sends)) \<Rightarrow>
        if pt_node pt = end_node then Inr (plan, sends)
        else
          let r = task_record_of ws (pt_id pt); t = planned_gtask i pt
          in if tr_interrupts r \<noteq> [] then
               Inr (plan\<lparr>pl_tasks := pl_tasks plan @ [t],
                         pl_resume := mput (pt_id pt)
                           (resume_values_for (tr_interrupts r) (tr_prefix r) resume graph_ns) (pl_resume plan)\<rparr>, sends)
             else if tr_update r \<noteq> [] \<or> tr_sends r \<noteq> [] then
               Inr (plan\<lparr>pl_replay := pl_replay plan @ [\<lparr>tw_node = pt_node pt, tw_update = tr_update r\<rparr>],
                         pl_replayed := pl_replayed plan @ [pt_id pt]\<rparr>,
                    sends @ map (\<lambda>s. plain_task (fst s) (snd s)) (tr_sends r))
             else if tr_error r \<noteq> [] then
               (if has_handler (pt_node pt) then
                  Inr (plan\<lparr>pl_tasks := pl_tasks plan @ [t\<lparr>tk_run_handler := True, tk_err_msg := tr_error r\<rparr>]\<rparr>, sends)
                else Inl (EText (''graph: task '' @ pt_id pt @ '' failed (persisted error): '' @ tr_error r)))
             else Inr (plan\<lparr>pl_tasks := pl_tasks plan @ [t]\<rparr>, sends))"

text \<open>The filter of \<open>Options.Graph\<close> and the scalar rule, before any task is classified.\<close>

definition pending_for :: "gintr list \<Rightarrow> string \<Rightarrow> goerr + gintr list" where
  "pending_for pending graph_ns =
     (if graph_ns = [] then Inr pending
      else let hits = filter (\<lambda>p. ns_covers graph_ns (intr_ns p)) pending;
               avail = filter (\<lambda>ns. ns \<noteq> []) (map intr_ns pending)
           in if hits \<noteq> [] then Inr hits
              else if avail = [] then
                Inl (EText (''graph: Options.Graph '' @ go_quote graph_ns @ '' matches no pending interrupt (none of the ''
                       @ show_int (int (length pending)) @ '' pending interrupts carry an addressable NS)''))
              else Inl (EText (''graph: Options.Graph '' @ go_quote graph_ns
                       @ '' matches no pending interrupt (available NS: '' @ join_with '', '' avail @ '')'')))"

definition scalar_resume :: "gval \<Rightarrow> bool" where
  "scalar_resume v = (case v of VNil \<Rightarrow> False | VMap _ \<Rightarrow> False | _ \<Rightarrow> True)"

definition empty_plan :: resume_plan where
  "empty_plan = \<lparr>pl_tasks = [], pl_resume = [], pl_skip = [], pl_replay = [], pl_replayed = []\<rparr>"

definition number_sends :: "nat \<Rightarrow> gtask list \<Rightarrow> gtask list" where
  "number_sends n sends = map (\<lambda>(j, t). t\<lparr>tk_path := dispatch_path (int (n + j))\<rparr>) (enumerate 0 sends)"

definition plan_resume :: "(string \<Rightarrow> bool) \<Rightarrow> cp_tuple \<Rightarrow> gval \<Rightarrow> string \<Rightarrow> goerr + resume_plan" where
  "plan_resume has_handler tup resume graph_ns =
     (case pending_for (interrupts_from_writes (tup_writes tup)) graph_ns of
        Inl e \<Rightarrow> Inl e
      | Inr pending \<Rightarrow>
          (if scalar_resume resume \<and> length pending > 1 then
             Inl (EText (''graph: resume with '' @ show_int (int (length pending))
               @ '' pending interrupts requires a map[string]any keyed by interrupt ID (a scalar resume only supports a single pending interrupt)''))
           else
             case rfold (plan_step has_handler (tup_writes tup) resume graph_ns)
                    (enumerate 0 (cp_next (tup_checkpoint tup))) (empty_plan, []) of
               Inl e \<Rightarrow> Inl e
             | Inr (plan, sends) \<Rightarrow>
                 Inr (plan\<lparr>pl_tasks := pl_tasks plan @ number_sends (length (cp_next (tup_checkpoint tup))) sends,
                           pl_skip := resume_skip_node pending (cfg_ns (tup_config tup))\<rparr>)))"

subsection \<open>Completed work survives the round trip\<close>

lemma sends_of_append [simp]: "sends_of (xs @ ys) = sends_of xs @ sends_of ys"
  by (simp add: sends_of_def List.map_filter_def)

lemma map_filter_None: "(\<And>x. x \<in> set xs \<Longrightarrow> f x = None) \<Longrightarrow> List.map_filter f xs = []"
  by (induction xs) (auto simp: map_filter_simps)

lemma sends_of_state_writes: "(\<And>w. w \<in> set ws \<Longrightarrow> w_channel w \<noteq> reserved_tasks) \<Longrightarrow> sends_of ws = []"
  unfolding sends_of_def by (rule map_filter_None) simp

lemma sends_of_send_writes [simp]: "sends_of (map (\<lambda>s. channel_write reserved_tasks (send_val s)) ss) = ss"
  unfolding sends_of_def by (induction ss) (simp_all add: map_filter_simps send_val_def)

text \<open>The state entries of a batch, as both readers collect them.\<close>

definition collect_update :: "(string \<Rightarrow> bool) \<Rightarrow> cp_write list \<Rightarrow> gstate \<Rightarrow> gstate" where
  "collect_update skip ws m = fold (\<lambda>w m. if skip (w_channel w) then m else mput (w_channel w) (w_value w) m) ws m"

lemma collect_update_append [simp]:
  "collect_update skip (xs @ ys) m = collect_update skip ys (collect_update skip xs m)"
  by (simp add: collect_update_def)

lemma collect_update_skipped: "(\<And>w. w \<in> set ws \<Longrightarrow> skip (w_channel w)) \<Longrightarrow> collect_update skip ws m = m"
  unfolding collect_update_def by (induction ws) auto

lemma map_of_collect_update:
  assumes "\<And>k. k \<in> set ks \<Longrightarrow> \<not> skip k"
  shows "map_of (collect_update skip (map (\<lambda>k. channel_write k (f k)) ks) m) j =
    (if j \<in> set ks then Some (f j) else map_of m j)"
  using assms unfolding collect_update_def by (induction ks arbitrary: m) auto

lemma collect_state_writes:
  assumes "\<And>k. k \<in> fst ` set upd \<Longrightarrow> \<not> skip k"
  shows "map_of (collect_update skip (map (\<lambda>k. channel_write k (mgetd upd k VNil)) (mkeys upd)) []) = map_of upd"
proof
  fix j
  show "map_of (collect_update skip (map (\<lambda>k. channel_write k (mgetd upd k VNil)) (mkeys upd)) []) j = map_of upd j"
    using map_of_collect_update [of "mkeys upd" skip "\<lambda>k. mgetd upd k VNil" "[]" j] assms
    by (cases "map_of upd j") (auto simp: mgetd_def in_mkeys_iff simp del: set_mkeys simp: set_mkeys [symmetric])
qed

definition cmd_sends :: "command option \<Rightarrow> goerr + (string \<times> gstate option) list" where
  "cmd_sends cmd = (case cmd of None \<Rightarrow> Inr [] | Some c \<Rightarrow> goto_sends (cmd_goto c))"

lemma completed_task_writesE:
  assumes "completed_task_writes upd cmd = Inr ws"
  obtains ss where "cmd_sends cmd = Inr ss"
    "ws = map (\<lambda>k. channel_write k (mgetd upd k VNil)) (mkeys upd) @ map (\<lambda>s. channel_write reserved_tasks (send_val s)) ss"
proof (cases cmd)
  case None
  with assms that [of "[]"] show ?thesis by (simp add: completed_task_writes_def cmd_sends_def Let_def)
next
  case (Some c)
  show ?thesis
  proof (cases "cmd_goto c = []")
    case True
    with assms that [of "[]"] Some show ?thesis by (simp add: completed_task_writes_def cmd_sends_def Let_def)
  next
    case False
    with assms Some obtain ss where "goto_sends (cmd_goto c) = Inr ss"
      "ws = map (\<lambda>k. channel_write k (mgetd upd k VNil)) (mkeys upd) @ map (\<lambda>s. channel_write reserved_tasks (send_val s)) ss"
      by (auto simp: completed_task_writes_def Let_def split: sum.splits)
    with Some that [of ss] show ?thesis by (simp add: cmd_sends_def)
  qed
qed

lemma goto_sends_vals [simp]: "goto_sends (map send_val ss) = Inr ss"
  by (induction ss) (simp_all add: send_val_def)

lemma completed_writes_same:
  assumes "completed_task_writes upd cmd = Inr ws" and "fst ` set upd \<inter> {reserved_tasks, reserved_interrupt, reserved_resume, reserved_error} = {}"
  shows "(map_of (fst (outcome_from_cached_writes ws)) = map_of upd)
    \<and> (cmd_sends (snd (outcome_from_cached_writes ws)) = cmd_sends cmd)
    \<and> (map_of (tr_update (task_record_of (map (stamp tid path) ws) tid)) = map_of upd)
    \<and> (Inr (tr_sends (task_record_of (map (stamp tid path) ws) tid)) = cmd_sends cmd)
    \<and> (tr_interrupts (task_record_of (map (stamp tid path) ws) tid) = [])"
proof (rule conjI [OF _ conjI [OF _ conjI [OF _ conjI]]])
  obtain ss where ss: "cmd_sends cmd = Inr ss"
    "ws = map (\<lambda>k. channel_write k (mgetd upd k VNil)) (mkeys upd) @ map (\<lambda>s. channel_write reserved_tasks (send_val s)) ss"
    (is "_ = ?state @ ?sends") by (rule completed_task_writesE [OF assms(1)])
  have keys: "w_channel w \<notin> {reserved_tasks, reserved_interrupt, reserved_resume, reserved_error}"
    if "w \<in> set ?state" for w
  proof -
    from that have "w_channel w \<in> set (mkeys upd)" by (auto simp del: set_mkeys)
    then have "w_channel w \<in> fst ` set upd" by simp
    with assms(2) show ?thesis by blast
  qed
  have "sends_of ?state = []" by (rule sends_of_state_writes) (use keys in blast)
  then have sends: "sends_of ws = ss" unfolding ss(2) by simp
  have upd: "fst (outcome_from_cached_writes ws) = collect_update (\<lambda>c. c = reserved_tasks) ws []"
    by (simp add: outcome_from_cached_writes_def collect_update_def Let_def)
  have "collect_update (\<lambda>c. c = reserved_tasks) ws [] = collect_update (\<lambda>c. c = reserved_tasks) ?state []"
    unfolding ss(2) collect_update_append by (rule collect_update_skipped) auto
  then show "map_of (fst (outcome_from_cached_writes ws)) = map_of upd"
    unfolding upd using collect_state_writes [of upd "\<lambda>c. c = reserved_tasks"] assms(2) by auto
  show "cmd_sends (snd (outcome_from_cached_writes ws)) = cmd_sends cmd"
    unfolding ss(1) by (simp add: outcome_from_cached_writes_def sends cmd_sends_def [of "Some _"] cmd_sends_def [of None] Let_def)
  let ?r0 = "\<lparr>tr_interrupts = [], tr_prefix = [], tr_sends = [], tr_update = [], tr_error = []\<rparr>"
  have state: "fold record_write (map (stamp tid path) ws') r =
      r\<lparr>tr_update := collect_update (\<lambda>_. False) ws' (tr_update r)\<rparr>"
    if "\<forall>w \<in> set ws'. w_channel w \<notin> {reserved_tasks, reserved_interrupt, reserved_resume, reserved_error}" for ws' r
    using that by (induction ws' arbitrary: r) (simp_all add: record_write_def stamp_def collect_update_def)
  have routed: "fold record_write (map (stamp tid path) (map (\<lambda>s. channel_write reserved_tasks (send_val s)) ss')) r =
      r\<lparr>tr_sends := tr_sends r @ ss'\<rparr>" for ss' r
    by (induction ss' arbitrary: r)
      (simp_all add: record_write_def stamp_def send_val_def reserved_defs)
  have mine: "filter (\<lambda>w. w_task w = tid) (map (stamp tid path) ws) = map (stamp tid path) ws" by (rule filter_True) auto
  have first: "fold record_write (map (stamp tid path) ?state) ?r0 =
      ?r0\<lparr>tr_update := collect_update (\<lambda>_. False) ?state (tr_update ?r0)\<rparr>"
    by (rule state) (use keys in blast)
  then have r: "task_record_of (map (stamp tid path) ws) tid =
      ?r0\<lparr>tr_update := collect_update (\<lambda>_. False) ?state [], tr_sends := ss\<rparr>"
    unfolding task_record_of_def mine unfolding ss(2) map_append fold_append comp_apply first routed by simp
  show "map_of (tr_update (task_record_of (map (stamp tid path) ws) tid)) = map_of upd"
    unfolding r using collect_state_writes [of upd "\<lambda>_. False"] by simp
  show "Inr (tr_sends (task_record_of (map (stamp tid path) ws) tid)) = cmd_sends cmd"
    "tr_interrupts (task_record_of (map (stamp tid path) ws) tid) = []"
    unfolding r by (simp_all add: ss(1))
qed

text \<open>
  C16: the writes a completed task persists hold all of its work. Reading them back, as a cache hit
  or as a replayed sibling, yields the same state update and the same routing, as long as the
  update writes no control channel.
\<close>

theorem completed_writes_roundtrip:
  assumes "completed_task_writes upd cmd = Inr ws" and "fst ` set upd \<inter> {reserved_tasks, reserved_interrupt, reserved_resume, reserved_error} = {}"
  shows "(map_of (fst (outcome_from_cached_writes ws)) = map_of upd)
    \<and> (cmd_sends (snd (outcome_from_cached_writes ws)) = cmd_sends cmd)
    \<and> (map_of (tr_update (task_record_of (map (stamp tid path) ws) tid)) = map_of upd)
    \<and> (Inr (tr_sends (task_record_of (map (stamp tid path) ws) tid)) = cmd_sends cmd)
    \<and> (tr_interrupts (task_record_of (map (stamp tid path) ws) tid) = [])"
  using completed_writes_same [OF assms] .

lemma completed_writes_roundtrip_witness:
  "let cmd = Some \<lparr>cmd_graph = [], cmd_update = [(''x'', VInt 1)], cmd_resume = VNil, cmd_goto = [VStr ''next'']\<rparr>
   in cmd_sends (snd (outcome_from_cached_writes
        [channel_write ''x'' (VInt 1), channel_write reserved_tasks (VSend ''next'' None)])) = cmd_sends cmd"
proof -
  let ?cmd = "Some \<lparr>cmd_graph = [], cmd_update = [(''x'', VInt 1)], cmd_resume = VNil, cmd_goto = [VStr ''next'']\<rparr>"
  have "completed_task_writes [(''x'', VInt 1)] ?cmd =
      Inr [channel_write ''x'' (VInt 1), channel_write reserved_tasks (VSend ''next'' None)]" by code_simp
  moreover have "fst ` set [(''x'', VInt 1)] \<inter> {reserved_tasks, reserved_interrupt, reserved_resume, reserved_error} = {}"
    by (simp add: reserved_defs)
  ultimately show ?thesis unfolding Let_def by (rule completed_writes_roundtrip [THEN conjunct2, THEN conjunct1])
qed

subsection \<open>What a plan holds\<close>

text \<open>The three fates of a planned task, from its pending writes.\<close>

definition replays :: "cp_write list \<Rightarrow> planned_task \<Rightarrow> bool" where
  "replays ws pt \<longleftrightarrow> pt_node pt \<noteq> end_node \<and>
     (let r = task_record_of ws (pt_id pt)
      in tr_interrupts r = [] \<and> (tr_update r \<noteq> [] \<or> tr_sends r \<noteq> []))"

definition reruns_handler :: "cp_write list \<Rightarrow> planned_task \<Rightarrow> bool" where
  "reruns_handler ws pt \<longleftrightarrow>
     (let r = task_record_of ws (pt_id pt)
      in tr_interrupts r = [] \<and> tr_update r = [] \<and> tr_sends r = [] \<and> tr_error r \<noteq> [])"

definition rerun_task :: "cp_write list \<Rightarrow> nat \<times> planned_task \<Rightarrow> gtask" where
  "rerun_task ws ipt =
     (let t = planned_gtask (fst ipt) (snd ipt)
      in if reruns_handler ws (snd ipt)
         then t\<lparr>tk_run_handler := True, tk_err_msg := tr_error (task_record_of ws (pt_id (snd ipt)))\<rparr> else t)"

definition planned_reruns :: "cp_write list \<Rightarrow> (nat \<times> planned_task) list \<Rightarrow> gtask list" where
  "planned_reruns ws nexts =
     map (rerun_task ws) (filter (\<lambda>ipt. pt_node (snd ipt) \<noteq> end_node \<and> \<not> replays ws (snd ipt)) nexts)"

definition planned_replays :: "cp_write list \<Rightarrow> (nat \<times> planned_task) list \<Rightarrow> task_writes list" where
  "planned_replays ws nexts =
     map (\<lambda>ipt. \<lparr>tw_node = pt_node (snd ipt), tw_update = tr_update (task_record_of ws (pt_id (snd ipt)))\<rparr>)
       (filter (\<lambda>ipt. replays ws (snd ipt)) nexts)"

definition planned_sends :: "cp_write list \<Rightarrow> (nat \<times> planned_task) list \<Rightarrow> gtask list" where
  "planned_sends ws nexts =
     concat (map (\<lambda>ipt. map (\<lambda>s. plain_task (fst s) (snd s)) (tr_sends (task_record_of ws (pt_id (snd ipt)))))
       (filter (\<lambda>ipt. replays ws (snd ipt)) nexts))"

definition planned_queues :: "cp_write list \<Rightarrow> gval \<Rightarrow> string \<Rightarrow> (nat \<times> planned_task) list \<Rightarrow> gval list gomap \<Rightarrow> gval list gomap" where
  "planned_queues ws resume graph_ns nexts m =
     fold (\<lambda>ipt m. let r = task_record_of ws (pt_id (snd ipt))
                   in if pt_node (snd ipt) \<noteq> end_node \<and> tr_interrupts r \<noteq> []
                      then mput (pt_id (snd ipt)) (resume_values_for (tr_interrupts r) (tr_prefix r) resume graph_ns) m
                      else m) nexts m"

lemma plan_step_Inr:
  assumes "plan_step has_handler ws resume graph_ns ipt (plan, sends) = Inr (plan', sends')"
  shows "plan' = plan\<lparr>pl_tasks := pl_tasks plan @ planned_reruns ws [ipt],
                      pl_replay := pl_replay plan @ planned_replays ws [ipt],
                      pl_replayed := pl_replayed plan @ map (\<lambda>ipt. pt_id (snd ipt)) (filter (\<lambda>ipt. replays ws (snd ipt)) [ipt]),
                      pl_resume := planned_queues ws resume graph_ns [ipt] (pl_resume plan)\<rparr>"
    and "sends' = sends @ planned_sends ws [ipt]"
proof -
  obtain i pt where ipt: "ipt = (i, pt)" by (cases ipt)
  note defs = planned_reruns_def planned_replays_def planned_sends_def planned_queues_def replays_def
    reruns_handler_def rerun_task_def ipt Let_def
  show "plan' = plan\<lparr>pl_tasks := pl_tasks plan @ planned_reruns ws [ipt],
                      pl_replay := pl_replay plan @ planned_replays ws [ipt],
                      pl_replayed := pl_replayed plan @ map (\<lambda>ipt. pt_id (snd ipt)) (filter (\<lambda>ipt. replays ws (snd ipt)) [ipt]),
                      pl_resume := planned_queues ws resume graph_ns [ipt] (pl_resume plan)\<rparr>"
    using assms by (simp add: plan_step_def defs split: if_splits) auto
  show "sends' = sends @ planned_sends ws [ipt]"
    using assms by (simp add: plan_step_def defs split: if_splits) auto
qed

lemma planned_append:
  "planned_reruns ws (xs @ ys) = planned_reruns ws xs @ planned_reruns ws ys"
  "planned_replays ws (xs @ ys) = planned_replays ws xs @ planned_replays ws ys"
  "planned_sends ws (xs @ ys) = planned_sends ws xs @ planned_sends ws ys"
  "planned_queues ws resume graph_ns (xs @ ys) m = planned_queues ws resume graph_ns ys (planned_queues ws resume graph_ns xs m)"
  by (simp_all add: planned_reruns_def planned_replays_def planned_sends_def planned_queues_def)

lemma plan_fold:
  "rfold (plan_step has_handler ws resume graph_ns) nexts (plan, sends) = Inr (plan', sends') \<Longrightarrow>
   plan' = plan\<lparr>pl_tasks := pl_tasks plan @ planned_reruns ws nexts,
                pl_replay := pl_replay plan @ planned_replays ws nexts,
                pl_replayed := pl_replayed plan @ map (\<lambda>ipt. pt_id (snd ipt)) (filter (\<lambda>ipt. replays ws (snd ipt)) nexts),
                pl_resume := planned_queues ws resume graph_ns nexts (pl_resume plan)\<rparr> \<and>
   sends' = sends @ planned_sends ws nexts"
proof (induction nexts arbitrary: plan sends)
  case Nil
  then show ?case by (simp add: planned_reruns_def planned_replays_def planned_sends_def planned_queues_def)
next
  case (Cons ipt nexts)
  from Cons.prems obtain plan1 sends1 where
    step: "plan_step has_handler ws resume graph_ns ipt (plan, sends) = Inr (plan1, sends1)"
    and rest: "rfold (plan_step has_handler ws resume graph_ns) nexts (plan1, sends1) = Inr (plan', sends')"
    by (auto simp: rbind_Inr_iff)
  show ?case
    using Cons.IH [OF rest] plan_step_Inr [OF step]
      planned_append(1) [of ws "[ipt]" nexts] planned_append(2) [of ws "[ipt]" nexts]
      planned_append(3) [of ws "[ipt]" nexts] planned_append(4) [of ws resume graph_ns "[ipt]" nexts "pl_resume plan"]
    by simp
qed

lemma plan_resume_Inr:
  assumes "plan_resume has_handler tup resume graph_ns = Inr plan"
  defines "nexts \<equiv> enumerate 0 (cp_next (tup_checkpoint tup))"
  shows "pl_tasks plan = planned_reruns (tup_writes tup) nexts @
      number_sends (length (cp_next (tup_checkpoint tup))) (planned_sends (tup_writes tup) nexts)"
    and "pl_replay plan = planned_replays (tup_writes tup) nexts"
    and "pl_replayed plan = map (\<lambda>ipt. pt_id (snd ipt)) (filter (\<lambda>ipt. replays (tup_writes tup) (snd ipt)) nexts)"
    and "pl_resume plan = planned_queues (tup_writes tup) resume graph_ns nexts []"
proof -
  from assms(1) obtain pending plan0 sends where
    fold: "rfold (plan_step has_handler (tup_writes tup) resume graph_ns) nexts (empty_plan, []) = Inr (plan0, sends)"
    and plan: "plan = plan0\<lparr>pl_tasks := pl_tasks plan0 @ number_sends (length (cp_next (tup_checkpoint tup))) sends,
                           pl_skip := resume_skip_node pending (cfg_ns (tup_config tup))\<rparr>"
    unfolding nexts_def by (auto simp: plan_resume_def split: sum.splits if_splits)
  note f = plan_fold [OF fold]
  show "pl_tasks plan = planned_reruns (tup_writes tup) nexts @
      number_sends (length (cp_next (tup_checkpoint tup))) (planned_sends (tup_writes tup) nexts)"
    "pl_replay plan = planned_replays (tup_writes tup) nexts"
    "pl_replayed plan = map (\<lambda>ipt. pt_id (snd ipt)) (filter (\<lambda>ipt. replays (tup_writes tup) (snd ipt)) nexts)"
    "pl_resume plan = planned_queues (tup_writes tup) resume graph_ns nexts []"
    using f by (simp_all add: plan empty_plan_def)
qed

lemma planned_queues_lookup:
  assumes "pt_id pt = tid" and "(i, pt) \<in> set nexts" and "pt_node pt \<noteq> end_node"
  shows "map_of (planned_queues ws resume graph_ns nexts m) tid =
    (let r = task_record_of ws tid
     in if tr_interrupts r \<noteq> [] then Some (resume_values_for (tr_interrupts r) (tr_prefix r) resume graph_ns) else map_of m tid)"
proof -
  have kept: "map_of (planned_queues ws resume graph_ns xs m) tid = map_of m tid"
    if "tr_interrupts (task_record_of ws tid) = []" for xs m
    using that unfolding planned_queues_def by (induction xs arbitrary: m) (auto simp: Let_def)
  have stays: "map_of (planned_queues ws resume graph_ns xs m) tid = Some q"
    if "map_of m tid = Some q" "q = resume_values_for (tr_interrupts (task_record_of ws tid)) (tr_prefix (task_record_of ws tid)) resume graph_ns"
    for xs m q
    using that unfolding planned_queues_def by (induction xs arbitrary: m) (auto simp: Let_def)
  obtain before rest where split: "nexts = before @ [(i, pt)] @ rest" using assms(2) by (auto dest: split_list)
  show ?thesis
  proof (cases "tr_interrupts (task_record_of ws tid) = []")
    case True
    with kept show ?thesis by (simp add: Let_def)
  next
    case False
    let ?q = "resume_values_for (tr_interrupts (task_record_of ws tid)) (tr_prefix (task_record_of ws tid)) resume graph_ns"
    have "map_of (planned_queues ws resume graph_ns [(i, pt)] m') tid = Some ?q" for m'
      using False assms(1,3) by (simp add: planned_queues_def Let_def)
    then have "map_of (planned_queues ws resume graph_ns nexts m) tid = Some ?q"
      unfolding split planned_append by (rule stays) simp
    with False show ?thesis by (simp add: Let_def)
  qed
qed

lemma in_planned_reruns:
  "t \<in> set (planned_reruns ws nexts) \<longleftrightarrow>
   (\<exists>ipt \<in> set nexts. pt_node (snd ipt) \<noteq> end_node \<and> \<not> replays ws (snd ipt) \<and> t = rerun_task ws ipt)"
  by (auto simp: planned_reruns_def)

lemma rerun_task_simps [simp]:
  "tk_id (rerun_task ws ipt) = pt_id (snd ipt)" "tk_node (rerun_task ws ipt) = pt_node (snd ipt)"
  "tk_arg (rerun_task ws ipt) = pt_arg (snd ipt)" "tk_path (rerun_task ws ipt) = dispatch_path (int (fst ipt))"
  "tk_run_handler (rerun_task ws ipt) = reruns_handler ws (snd ipt)"
  by (auto simp: rerun_task_def planned_gtask_def Let_def)

lemma number_sends_id: "t \<in> set (number_sends n (planned_sends ws nexts)) \<Longrightarrow> tk_id t = []"
proof -
  assume "t \<in> set (number_sends n (planned_sends ws nexts))"
  then obtain j u where "(j, u) \<in> set (enumerate 0 (planned_sends ws nexts))" "tk_id t = tk_id u"
    by (auto simp: number_sends_def)
  moreover from this(1) have "u \<in> set (planned_sends ws nexts)" by (auto simp: in_set_enumerate_eq)
  ultimately show ?thesis by (auto simp: planned_sends_def plain_task_def)
qed

lemma plan_fates:
  assumes "plan_resume has_handler tup resume graph_ns = Inr plan"
    and "i < length (cp_next (tup_checkpoint tup))" and "pt = cp_next (tup_checkpoint tup) ! i"
    and "pt_node pt \<noteq> end_node" and "pt_id pt \<noteq> []"
  shows "pt_id pt \<in> set (pl_replayed plan) \<longleftrightarrow>
      (let r = task_record_of (tup_writes tup) (pt_id pt) in tr_interrupts r = [] \<and> (tr_update r \<noteq> [] \<or> tr_sends r \<noteq> []))"
    and "pt_id pt \<notin> set (pl_replayed plan) \<longleftrightarrow>
      (\<exists>t \<in> set (pl_tasks plan). tk_id t = pt_id pt \<and> tk_node t = pt_node pt \<and> tk_arg t = pt_arg pt \<and> tk_path t = dispatch_path (int i))"
    and "map_of (pl_resume plan) (pt_id pt) =
      (let r = task_record_of (tup_writes tup) (pt_id pt)
       in if tr_interrupts r = [] then None else Some (resume_values_for (tr_interrupts r) (tr_prefix r) resume graph_ns))"
proof -
  let ?nexts = "enumerate 0 (cp_next (tup_checkpoint tup))" and ?ws = "tup_writes tup"
  note plan = plan_resume_Inr [OF assms(1)]
  have mem: "(i, pt) \<in> set ?nexts" using assms(2,3) by (simp add: in_set_enumerate_eq)
  have replayed: "pt_id pt \<in> set (pl_replayed plan) \<longleftrightarrow> replays ?ws pt"
    unfolding plan using mem assms(4) by (auto simp: replays_def intro!: image_eqI [of _ _ "(i, pt)"])
  then show "pt_id pt \<in> set (pl_replayed plan) \<longleftrightarrow>
      (let r = task_record_of ?ws (pt_id pt) in tr_interrupts r = [] \<and> (tr_update r \<noteq> [] \<or> tr_sends r \<noteq> []))"
    using assms(4) by (simp add: replays_def)
  show "pt_id pt \<notin> set (pl_replayed plan) \<longleftrightarrow>
      (\<exists>t \<in> set (pl_tasks plan). tk_id t = pt_id pt \<and> tk_node t = pt_node pt \<and> tk_arg t = pt_arg pt \<and> tk_path t = dispatch_path (int i))"
  proof
    assume "pt_id pt \<notin> set (pl_replayed plan)"
    then have "rerun_task ?ws (i, pt) \<in> set (planned_reruns ?ws ?nexts)"
      unfolding in_planned_reruns replayed using mem assms(4) by (intro bexI [of _ "(i, pt)"]) simp_all
    then have "rerun_task ?ws (i, pt) \<in> set (pl_tasks plan)" by (simp add: plan)
    then show "\<exists>t \<in> set (pl_tasks plan). tk_id t = pt_id pt \<and> tk_node t = pt_node pt \<and> tk_arg t = pt_arg pt \<and> tk_path t = dispatch_path (int i)"
      by (intro bexI [of _ "rerun_task ?ws (i, pt)"]) simp_all
  next
    assume "\<exists>t \<in> set (pl_tasks plan). tk_id t = pt_id pt \<and> tk_node t = pt_node pt \<and> tk_arg t = pt_arg pt \<and> tk_path t = dispatch_path (int i)"
    then obtain t where "t \<in> set (pl_tasks plan)" "tk_id t = pt_id pt" by blast
    with assms(5) have "t \<in> set (planned_reruns ?ws ?nexts)" by (auto simp: plan dest: number_sends_id)
    with \<open>tk_id t = pt_id pt\<close> show "pt_id pt \<notin> set (pl_replayed plan)"
      unfolding replayed by (auto simp: in_planned_reruns replays_def Let_def)
  qed
  show "map_of (pl_resume plan) (pt_id pt) =
      (let r = task_record_of ?ws (pt_id pt)
       in if tr_interrupts r = [] then None else Some (resume_values_for (tr_interrupts r) (tr_prefix r) resume graph_ns))"
    unfolding plan planned_queues_lookup [OF refl mem assms(4)] by (simp add: Let_def)
qed

lemma replayed_not_rerun:
  assumes "plan_resume has_handler tup resume graph_ns = Inr plan"
    and "i < length (cp_next (tup_checkpoint tup))" and "pt = cp_next (tup_checkpoint tup) ! i"
    and "pt_node pt \<noteq> end_node" and "pt_id pt \<noteq> []"
  shows "pt_id pt \<notin> set (pl_replayed plan) \<longleftrightarrow> pt_id pt \<in> tk_id ` set (pl_tasks plan)"
proof
  assume "pt_id pt \<in> tk_id ` set (pl_tasks plan)"
  then obtain t where t: "t \<in> set (pl_tasks plan)" "tk_id t = pt_id pt" by force
  note plan = plan_resume_Inr [OF assms(1)]
  from t assms(5) have "t \<in> set (planned_reruns (tup_writes tup) (enumerate 0 (cp_next (tup_checkpoint tup))))"
    by (auto simp: plan dest: number_sends_id)
  then have "\<not> (let r = task_record_of (tup_writes tup) (pt_id pt) in tr_interrupts r = [] \<and> (tr_update r \<noteq> [] \<or> tr_sends r \<noteq> []))"
    using t(2) by (auto simp: in_planned_reruns replays_def Let_def)
  then show "pt_id pt \<notin> set (pl_replayed plan)" unfolding plan_fates(1) [OF assms] .
next
  assume "pt_id pt \<notin> set (pl_replayed plan)"
  with plan_fates(2) [OF assms] show "pt_id pt \<in> tk_id ` set (pl_tasks plan)" by (metis imageI)
qed

lemma planned_over_tasks:
  "planned_replays ws (enumerate n xs) =
     map (\<lambda>pt. \<lparr>tw_node = pt_node pt, tw_update = tr_update (task_record_of ws (pt_id pt))\<rparr>) (filter (replays ws) xs)"
  "planned_sends ws (enumerate n xs) =
     concat (map (\<lambda>pt. map (\<lambda>s. plain_task (fst s) (snd s)) (tr_sends (task_record_of ws (pt_id pt)))) (filter (replays ws) xs))"
  "map (\<lambda>ipt. pt_id (snd ipt)) (filter (\<lambda>ipt. replays ws (snd ipt)) (enumerate n xs)) = map pt_id (filter (replays ws) xs)"
  unfolding planned_replays_def planned_sends_def by (induction xs arbitrary: n) simp_all

lemma planned_reruns_indexed:
  "planned_reruns ws (enumerate 0 xs) =
     map (\<lambda>i. rerun_task ws (i, xs ! i)) (filter (\<lambda>i. pt_node (xs ! i) \<noteq> end_node \<and> \<not> replays ws (xs ! i)) [0..<length xs])"
proof -
  have "enumerate 0 xs = map (\<lambda>i. (i, xs ! i)) [0..<length xs]"
    by (rule nth_equalityI) (simp_all add: nth_enumerate_eq)
  then show ?thesis by (simp add: planned_reruns_def filter_map comp_def)
qed

text \<open>
  C13: a resume plan sorts the planned tasks of the paused superstep, those of the end node apart, in two.
  A task that stored writes of its own and no interrupt is replayed: its recorded update is among the
  writes to apply again, in the order of the tasks, its own writes are skipped when delta channels are
  rebuilt, and its recorded sends are dispatched behind everything else, numbered from the planned tasks
  on. Every other task is dispatched again, in order, on the path of its position, and runs its error
  handler exactly when all it recorded is an error. No task is in both. Exactly the interrupted tasks
  get a queue, the answers they had consumed followed by the new ones.
\<close>

theorem plan_replays_or_reruns:
  fixes tup :: cp_tuple
  assumes "plan_resume has_handler tup resume graph_ns = Inr plan"
    and nexts: "nexts = cp_next (tup_checkpoint tup)" and rec: "rec = (\<lambda>pt. task_record_of (tup_writes tup) (pt_id pt))"
    and replayed: "replayed = (\<lambda>pt. pt_node pt \<noteq> end_node \<and> tr_interrupts (rec pt) = [] \<and>
      (tr_update (rec pt) \<noteq> [] \<or> tr_sends (rec pt) \<noteq> []))"
  shows "pl_replay plan = map (\<lambda>pt. \<lparr>tw_node = pt_node pt, tw_update = tr_update (rec pt)\<rparr>) (filter replayed nexts)
    \<and> pl_replayed plan = map pt_id (filter replayed nexts)
    \<and> pl_tasks plan =
        map (\<lambda>i. let pt = nexts ! i;
                     handler = tr_interrupts (rec pt) = [] \<and> tr_update (rec pt) = [] \<and> tr_sends (rec pt) = [] \<and> tr_error (rec pt) \<noteq> []
                 in \<lparr>tk_id = pt_id pt, tk_node = pt_node pt, tk_arg = pt_arg pt, tk_path = dispatch_path (int i),
                     tk_run_handler = handler, tk_err_msg = (if handler then tr_error (rec pt) else [])\<rparr>)
          (filter (\<lambda>i. pt_node (nexts ! i) \<noteq> end_node \<and> \<not> replayed (nexts ! i)) [0..<length nexts]) @
        number_sends (length nexts)
          (concat (map (\<lambda>pt. map (\<lambda>s. plain_task (fst s) (snd s)) (tr_sends (rec pt))) (filter replayed nexts)))
    \<and> (\<forall>pt \<in> set nexts. pt_node pt \<noteq> end_node \<and> pt_id pt \<noteq> [] \<longrightarrow>
        (pt_id pt \<notin> set (pl_replayed plan) \<longleftrightarrow> pt_id pt \<in> tk_id ` set (pl_tasks plan)) \<and>
        map_of (pl_resume plan) (pt_id pt) =
          (if tr_interrupts (rec pt) = [] then None
           else Some (resume_values_for (tr_interrupts (rec pt)) (tr_prefix (rec pt)) resume graph_ns)))"
proof (intro conjI ballI impI)
  let ?ws = "tup_writes tup"
  have same: "replays ?ws = replayed"
    by (simp add: fun_eq_iff replays_def replayed rec Let_def)
  note plan = plan_resume_Inr [OF assms(1), folded nexts, unfolded planned_over_tasks planned_reruns_indexed, unfolded same]
  show "pl_replay plan = map (\<lambda>pt. \<lparr>tw_node = pt_node pt, tw_update = tr_update (rec pt)\<rparr>) (filter replayed nexts)"
    "pl_replayed plan = map pt_id (filter replayed nexts)"
    using plan(2,3) by (simp_all add: rec)
  have "rerun_task ?ws (i, pt) =
      (let handler = tr_interrupts (rec pt) = [] \<and> tr_update (rec pt) = [] \<and> tr_sends (rec pt) = [] \<and> tr_error (rec pt) \<noteq> []
       in \<lparr>tk_id = pt_id pt, tk_node = pt_node pt, tk_arg = pt_arg pt, tk_path = dispatch_path (int i),
           tk_run_handler = handler, tk_err_msg = (if handler then tr_error (rec pt) else [])\<rparr>)" for i pt
    by (simp add: rerun_task_def reruns_handler_def planned_gtask_def rec Let_def)
  then show "pl_tasks plan =
        map (\<lambda>i. let pt = nexts ! i;
                     handler = tr_interrupts (rec pt) = [] \<and> tr_update (rec pt) = [] \<and> tr_sends (rec pt) = [] \<and> tr_error (rec pt) \<noteq> []
                 in \<lparr>tk_id = pt_id pt, tk_node = pt_node pt, tk_arg = pt_arg pt, tk_path = dispatch_path (int i),
                     tk_run_handler = handler, tk_err_msg = (if handler then tr_error (rec pt) else [])\<rparr>)
          (filter (\<lambda>i. pt_node (nexts ! i) \<noteq> end_node \<and> \<not> replayed (nexts ! i)) [0..<length nexts]) @
        number_sends (length nexts)
          (concat (map (\<lambda>pt. map (\<lambda>s. plain_task (fst s) (snd s)) (tr_sends (rec pt))) (filter replayed nexts)))"
    unfolding plan(1) by (simp add: rec Let_def)
next
  fix pt
  assume "pt \<in> set nexts" and pt: "pt_node pt \<noteq> end_node \<and> pt_id pt \<noteq> []"
  then obtain i where i: "i < length nexts" "pt = nexts ! i" by (auto simp: in_set_conv_nth)
  note fates = plan_fates [OF assms(1) i [unfolded nexts] pt [THEN conjunct1] pt [THEN conjunct2]]
  show "map_of (pl_resume plan) (pt_id pt) =
      (if tr_interrupts (rec pt) = [] then None
       else Some (resume_values_for (tr_interrupts (rec pt)) (tr_prefix (rec pt)) resume graph_ns))"
    using fates(3) by (simp add: rec Let_def)
  show "pt_id pt \<notin> set (pl_replayed plan) \<longleftrightarrow> pt_id pt \<in> tk_id ` set (pl_tasks plan)"
    by (rule replayed_not_rerun [OF assms(1) i(1) [unfolded nexts] i(2) [unfolded nexts] pt [THEN conjunct1] pt [THEN conjunct2]])
qed

text \<open>A paused superstep of three tasks: one finished, one waits for an answer, one never ran.\<close>

definition demo_tuple :: cp_tuple where
  "demo_tuple =
     \<lparr>tup_config = demo_cfg ''th'' ''c1'',
      tup_checkpoint = (demo_cp ''c1'')\<lparr>cp_next :=
        [\<lparr>pt_id = ''t1'', pt_node = ''done'', pt_arg = None\<rparr>, \<lparr>pt_id = ''t2'', pt_node = ''ask'', pt_arg = None\<rparr>,
         \<lparr>pt_id = ''t3'', pt_node = ''later'', pt_arg = None\<rparr>]\<rparr>,
      tup_metadata = demo_md,
      tup_parent = None,
      tup_writes = map (stamp ''t1'' []) [channel_write ''x'' (VInt 1)] @
        map (stamp ''t2'' []) (interrupt_and_resume_writes [Interrupt (VStr ''second?'') ''ask-2'' [] None] [VInt 1])\<rparr>"

definition demo_plan :: resume_plan where
  "demo_plan =
     \<lparr>pl_tasks = [planned_gtask 1 \<lparr>pt_id = ''t2'', pt_node = ''ask'', pt_arg = None\<rparr>,
        planned_gtask 2 \<lparr>pt_id = ''t3'', pt_node = ''later'', pt_arg = None\<rparr>],
      pl_resume = [(''t2'', [VInt 1, VInt 2])], pl_skip = [],
      pl_replay = [\<lparr>tw_node = ''done'', tw_update = [(''x'', VInt 1)]\<rparr>], pl_replayed = [''t1'']\<rparr>"

lemma demo_plan: "plan_resume (\<lambda>_. False) demo_tuple (VInt 2) [] = Inr demo_plan"
  by code_simp

lemma plan_replays_or_reruns_witness:
  "pl_replay demo_plan = [\<lparr>tw_node = ''done'', tw_update = [(''x'', VInt 1)]\<rparr>] \<and>
   map (\<lambda>t. (tk_id t, tk_path t)) (pl_tasks demo_plan) = [(''t2'', dispatch_path 1), (''t3'', dispatch_path 2)]"
proof -
  let ?rec = "\<lambda>pt. task_record_of (tup_writes demo_tuple) (pt_id pt)"
  let ?replayed = "\<lambda>pt. pt_node pt \<noteq> end_node \<and> tr_interrupts (?rec pt) = [] \<and> (tr_update (?rec pt) \<noteq> [] \<or> tr_sends (?rec pt) \<noteq> [])"
  let ?nexts = "cp_next (tup_checkpoint demo_tuple)"
  have facts: "map (\<lambda>pt. \<lparr>tw_node = pt_node pt, tw_update = tr_update (?rec pt)\<rparr>) (filter ?replayed ?nexts) =
      [\<lparr>tw_node = ''done'', tw_update = [(''x'', VInt 1)]\<rparr>]"
    "filter (\<lambda>i. pt_node (?nexts ! i) \<noteq> end_node \<and> \<not> ?replayed (?nexts ! i)) [0..<length ?nexts] = [1, 2]"
    "map (\<lambda>i. pt_id (?nexts ! i)) [1, 2] = [''t2'', ''t3'']"
    "number_sends (length ?nexts) (concat (map (\<lambda>pt. map (\<lambda>s. plain_task (fst s) (snd s)) (tr_sends (?rec pt))) (filter ?replayed ?nexts))) = []"
    by code_simp+
  note C = plan_replays_or_reruns [OF demo_plan refl refl refl]
  show ?thesis
    using C [THEN conjunct1] C [THEN conjunct2, THEN conjunct2, THEN conjunct1] facts by (simp add: Let_def)
qed

subsection \<open>A pause and its resume\<close>

text \<open>The answer a resume value holds for one interrupt.\<close>

definition answer_for :: "gval \<Rightarrow> gintr \<Rightarrow> gval option" where
  "answer_for resume p = (case resume of VNil \<Rightarrow> None | VMap m \<Rightarrow> match_resume m p | v \<Rightarrow> Some v)"

lemma resume_values_single:
  "resume_values_for [p] prefix resume [] = prefix @ (case answer_for resume p of None \<Rightarrow> [] | Some a \<Rightarrow> [a])"
  by (auto simp: resume_values_for_def answer_for_def map_filter_simps split: gval.splits option.splits)

lemma paused_record:
  "task_record_of (map (stamp tid path) (interrupt_and_resume_writes [p] consumed)) tid =
   \<lparr>tr_interrupts = [p], tr_prefix = consumed, tr_sends = [], tr_update = [], tr_error = []\<rparr>"
  by (simp add: task_record_of_def interrupt_and_resume_writes_def record_write_def stamp_def interrupts_from_write_def
      reserved_defs)

lemma task_record_of_filter: "task_record_of (filter (\<lambda>w. w_task w = tid) ws) tid = task_record_of ws tid"
  by (simp add: task_record_of_def)

text \<open>
  C15: a pause and its resume compose. When a node pauses on its n-th question and its pending
  writes are what the pause stored, the resumed run dispatches the same task again with a queue on
  which the node goes past every question already answered: with an answer for the pending
  interrupt it continues after that question, without one it pauses on the same question with
  nothing lost.
\<close>

theorem pause_then_resume_continues:
  assumes "nodes (pt_node pt) = Some fn"
    and "run_node nodes (pt_node pt) ns input queue attempt = Interrupted intrs consumed"
    and "i < length (cp_next (tup_checkpoint tup))" and "pt = cp_next (tup_checkpoint tup) ! i"
    and "pt_node pt \<noteq> end_node" and "pt_id pt \<noteq> []"
    and "filter (\<lambda>w. w_task w = pt_id pt) (tup_writes tup) =
      map (stamp (pt_id pt) path) (interrupt_and_resume_writes intrs consumed)"
    and "plan_resume has_handler tup resume [] = Inr plan"
  shows "(\<exists>t \<in> set (pl_tasks plan). tk_id t = pt_id pt \<and> tk_node t = pt_node pt \<and> tk_arg t = pt_arg pt)
    \<and> (\<exists>p v schema k q. intrs = [p] \<and> feed_answers queue (fn attempt input) = Ask v schema k \<and>
      map_of (pl_resume plan) (pt_id pt) = Some q \<and>
      run_node nodes (pt_node pt) ns input q attempt =
        (case answer_for resume p of
           Some a \<Rightarrow> run_prog (k a) (start_state (queue @ [a]) (length queue + 1) (pt_node pt) ns)
         | None \<Rightarrow> Interrupted [p] consumed))"
proof (rule conjI)
  note prev = interrupted_node_pauses [OF assms(1,2)]
  obtain p v schema k where p: "intrs = [p]" "feed_answers queue (fn attempt input) = Ask v schema k"
    using prev(2) by blast
  have go: "run_node nodes (pt_node pt) ns input (queue @ [a]) attempt =
      run_prog (k a) (start_state (queue @ [a]) (length queue + 1) (pt_node pt) ns)" for a
    using prev(2) [of a] p(2) by auto
  have r: "task_record_of (tup_writes tup) (pt_id pt) =
      \<lparr>tr_interrupts = [p], tr_prefix = consumed, tr_sends = [], tr_update = [], tr_error = []\<rparr>"
    using task_record_of_filter [of "pt_id pt" "tup_writes tup"] by (simp add: assms(7) p(1) paused_record)
  have "pt_id pt \<notin> set (pl_replayed plan)"
    unfolding plan_fates(1) [OF assms(8,3-6)] r by simp
  then show "\<exists>t \<in> set (pl_tasks plan). tk_id t = pt_id pt \<and> tk_node t = pt_node pt \<and> tk_arg t = pt_arg pt"
    unfolding plan_fates(2) [OF assms(8,3-6)] by blast
  have q: "map_of (pl_resume plan) (pt_id pt) = Some (queue @ (case answer_for resume p of None \<Rightarrow> [] | Some a \<Rightarrow> [a]))"
    unfolding plan_fates(3) [OF assms(8,3-6)] r using prev(1) by (simp add: Let_def resume_values_single)
  show "\<exists>p v schema k q. intrs = [p] \<and> feed_answers queue (fn attempt input) = Ask v schema k \<and>
      map_of (pl_resume plan) (pt_id pt) = Some q \<and>
      run_node nodes (pt_node pt) ns input q attempt =
        (case answer_for resume p of
           Some a \<Rightarrow> run_prog (k a) (start_state (queue @ [a]) (length queue + 1) (pt_node pt) ns)
         | None \<Rightarrow> Interrupted [p] consumed)"
    by (intro exI conjI, rule p(1), rule p(2), rule q) (use p go assms(2) prev(1) in \<open>auto split: option.splits\<close>)
qed

lemma pause_then_resume_continues_witness:
  "\<exists>q. map_of (pl_resume demo_plan) ''t2'' = Some q \<and>
     run_node demo_nodes ''ask'' [] [] q 1 = Returned (RState [(''out'', VList [VInt 1, VInt 2])])"
proof -
  let ?pt = "\<lparr>pt_id = ''t2'', pt_node = ''ask'', pt_arg = None\<rparr>"
  have run: "run_node demo_nodes ''ask'' [] [] [VInt 1] 1 = Interrupted [Interrupt (VStr ''second?'') ''ask-2'' [] None] [VInt 1]"
    by code_simp
  have nodes: "demo_nodes ''ask'' = Some demo_node" by (simp add: demo_nodes_def)
  have ws: "filter (\<lambda>w. w_task w = ''t2'') (tup_writes demo_tuple) =
      map (stamp ''t2'' []) (interrupt_and_resume_writes [Interrupt (VStr ''second?'') ''ask-2'' [] None] [VInt 1])"
    by (simp add: demo_tuple_def stamp_def interrupt_and_resume_writes_def)
  have nxt: "1 < length (cp_next (tup_checkpoint demo_tuple))" "?pt = cp_next (tup_checkpoint demo_tuple) ! 1"
    by (simp_all add: demo_tuple_def)
  from pause_then_resume_continues [of demo_nodes ?pt demo_node "[]" "[]" "[VInt 1]" 1, simplified,
      OF nodes run [unfolded One_nat_def] nxt [unfolded One_nat_def] _ ws demo_plan, THEN conjunct2]
  show ?thesis by (auto simp: end_node_def answer_for_def demo_node_def split: option.splits)
qed

end
