(* ===== verification/GraphBuilder.thy ===== *)
theory GraphBuilder
  imports NodeExec ChannelUnion
begin

section \<open>Building and compiling a graph (langgraph/graph/graph.go, export.go)\<close>

text \<open>
  \<open>StateGraph\<close> collects nodes, channel prototypes, edges and routers; a rejected call leaves the
  builder as it was but for the first error, which \<open>Compile\<close> returns. \<open>Compile\<close> validates what the
  calls could not, adds one barrier channel per join edge and returns the graph the executor runs.
  Node functions and routers are functions of the state (\<open>NodeExec\<close>); the runtime object they also
  receive is not modelled. A nil function is \<open>None\<close>. Where \<open>Compile\<close> ranges over a map the model
  takes the keys in sorted order, so of several errors it returns one the code may return.
\<close>

type_synonym node_fun = "nat \<Rightarrow> gstate \<Rightarrow> node_prog"
type_synonym router = "gstate \<Rightarrow> goerr + gval list"
type_synonym error_handler = "gstate \<Rightarrow> goerr \<Rightarrow> node_result \<times> goerr option"

record cache_key =
  ck_namespace :: "string list"
  ck_key :: string
  ck_ttl :: int

record cache_policy =
  pol_key_func :: "(gstate \<Rightarrow> goerr + cache_key) option"
  pol_ttl :: int

record node_policies =
  np_retry :: "retry_policy option"
  np_cache :: "cache_policy option"
  np_timeout :: "timeout_policy option"
  np_handler :: "error_handler option"

definition no_policies :: node_policies where
  "no_policies = \<lparr>np_retry = None, np_cache = None, np_timeout = None, np_handler = None\<rparr>"

record join_edge =
  je_parents :: "string list"
  je_child :: string

record join_meta =
  jm_key :: string
  jm_parents :: "string list"
  jm_child :: string

definition join_key :: "string list \<Rightarrow> string \<Rightarrow> string" where
  "join_key parents child = ''join:'' @ join_with ''+'' parents @ '':'' @ child"

record state_graph =
  sg_nodes :: "node_fun gomap"
  sg_policies :: "node_policies gomap"
  sg_protos :: "chan gomap"
  sg_edges :: "string list gomap"
  sg_conditional :: "router gomap"
  sg_bounds :: "gval gomap"
  sg_path_maps :: "string gomap gomap"
  sg_joins :: "join_edge list"
  sg_entry :: string
  sg_entry_router :: "router option"
  sg_entry_path_map :: "string gomap"
  sg_err :: "goerr option"

definition new_state_graph :: state_graph where
  "new_state_graph =
     \<lparr>sg_nodes = [], sg_policies = [], sg_protos = [], sg_edges = [], sg_conditional = [], sg_bounds = [],
      sg_path_maps = [], sg_joins = [], sg_entry = [], sg_entry_router = None, sg_entry_path_map = [],
      sg_err = None\<rparr>"

definition set_err :: "goerr \<Rightarrow> state_graph \<Rightarrow> state_graph" where
  "set_err e g = (if sg_err g = None then g\<lparr>sg_err := Some e\<rparr> else g)"

subsection \<open>The builder's operations\<close>

definition reserved_name :: "string \<Rightarrow> bool" where
  "reserved_name name \<longleftrightarrow> name = [] \<or> name = start_node \<or> name = end_node"

definition add_node_with_policies :: "string \<Rightarrow> node_fun option \<Rightarrow> node_policies \<Rightarrow> state_graph \<Rightarrow> state_graph" where
  "add_node_with_policies name fn policies g =
     (if reserved_name name then set_err (EText (''graph: invalid node name '' @ go_quote name)) g
      else case fn of
        None \<Rightarrow> set_err (EText (''graph: node '' @ go_quote name @ '' function must not be nil'')) g
      | Some f \<Rightarrow>
          (if mhas (sg_nodes g) name then set_err (EText (''graph: duplicate node '' @ go_quote name)) g
           else case (case np_timeout policies of None \<Rightarrow> None | Some t \<Rightarrow> timeout_validate t) of
             Some err \<Rightarrow> set_err (EWrap (''graph: node '' @ go_quote name @ '' timeout policy'') (EText err)) g
           | None \<Rightarrow>
               g\<lparr>sg_nodes := mput name f (sg_nodes g), sg_policies := mput name policies (sg_policies g),
                 sg_bounds := mdel name (sg_bounds g)\<rparr>))"

definition add_node :: "string \<Rightarrow> node_fun option \<Rightarrow> state_graph \<Rightarrow> state_graph" where
  "add_node name fn = add_node_with_policies name fn no_policies"

definition add_node_with_bound :: "string \<Rightarrow> node_fun option \<Rightarrow> gval \<Rightarrow> state_graph \<Rightarrow> state_graph" where
  "add_node_with_bound name fn bound g =
     (let g' = add_node_with_policies name fn no_policies g
      in if sg_err g' = sg_err g then g'\<lparr>sg_bounds := mput name bound (sg_bounds g')\<rparr> else g')"

definition add_reducer :: "string \<Rightarrow> reducer \<Rightarrow> state_graph \<Rightarrow> state_graph" where
  "add_reducer key r g = g\<lparr>sg_protos := mput key (CBinary (new_binary_operator r)) (sg_protos g)\<rparr>"

definition add_channel :: "string \<Rightarrow> chan option \<Rightarrow> state_graph \<Rightarrow> state_graph" where
  "add_channel key prototype g =
     (case prototype of
        None \<Rightarrow> set_err (EText (''graph: channel prototype for key '' @ go_quote key @ '' must not be nil'')) g
      | Some p \<Rightarrow> g\<lparr>sg_protos := mput key p (sg_protos g)\<rparr>)"

definition set_entry_point :: "string \<Rightarrow> state_graph \<Rightarrow> state_graph" where
  "set_entry_point name g =
     (if sg_entry_router g \<noteq> None then set_err (EText ''graph: conditional entry point already set'') g
      else if sg_entry g \<noteq> [] then set_err (EText (''graph: entry point already set to '' @ go_quote (sg_entry g))) g
      else g\<lparr>sg_entry := name\<rparr>)"

definition add_edge :: "string \<Rightarrow> string \<Rightarrow> state_graph \<Rightarrow> state_graph" where
  "add_edge from_node to_node g =
     (if from_node = start_node then set_entry_point to_node g
      else g\<lparr>sg_edges := mput from_node (mgetd (sg_edges g) from_node [] @ [to_node]) (sg_edges g)\<rparr>)"

text \<open>The first name of a join edge the code rejects, as it walks them with the set of those seen.\<close>

fun bad_join_parent :: "string list \<Rightarrow> string list \<Rightarrow> goerr option" where
  "bad_join_parent seen [] = None"
| "bad_join_parent seen (name # names) =
     (if reserved_name name then Some (EText (''graph: invalid join parent name '' @ go_quote name))
      else if name \<in> set seen then Some (EText (''graph: duplicate join parent '' @ go_quote name))
      else bad_join_parent (name # seen) names)"

definition add_join_edge :: "string list \<Rightarrow> string \<Rightarrow> state_graph \<Rightarrow> state_graph" where
  "add_join_edge parents child g =
     (if length parents < 2 then
        set_err (EText (''graph: join edge into '' @ go_quote child @ '' requires at least 2 parents, got ''
                        @ show_int (int (length parents)))) g
      else case bad_join_parent [] parents of
        Some e \<Rightarrow> set_err e g
      | None \<Rightarrow>
          (if reserved_name child then set_err (EText (''graph: invalid join child name '' @ go_quote child)) g
           else g\<lparr>sg_joins := sg_joins g @ [\<lparr>je_parents = parents, je_child = child\<rparr>]\<rparr>))"

definition add_conditional_edges :: "string \<Rightarrow> router option \<Rightarrow> state_graph \<Rightarrow> state_graph" where
  "add_conditional_edges from_node r g =
     (case r of
        None \<Rightarrow> set_err (EText (''graph: conditional edge router for '' @ go_quote from_node @ '' must not be nil'')) g
      | Some f \<Rightarrow>
          (if mhas (sg_conditional g) from_node
           then set_err (EText (''graph: duplicate conditional edge for '' @ go_quote from_node)) g
           else g\<lparr>sg_conditional := mput from_node f (sg_conditional g)\<rparr>))"

definition set_conditional_entry_point :: "router option \<Rightarrow> state_graph \<Rightarrow> state_graph" where
  "set_conditional_entry_point r g =
     (case r of
        None \<Rightarrow> set_err (EText ''graph: conditional entry point router must not be nil'') g
      | Some f \<Rightarrow>
          (if sg_entry g \<noteq> [] then set_err (EText (''graph: entry point already set to '' @ go_quote (sg_entry g))) g
           else if sg_entry_router g \<noteq> None then set_err (EText ''graph: conditional entry point already set'') g
           else g\<lparr>sg_entry_router := Some f\<rparr>))"

definition add_conditional_edges_with_path_map ::
  "string \<Rightarrow> router option \<Rightarrow> string gomap \<Rightarrow> state_graph \<Rightarrow> state_graph" where
  "add_conditional_edges_with_path_map from_node r path_map g =
     (if path_map = [] then
        set_err (EText (''graph: conditional edge path map for '' @ go_quote from_node @ '' must not be empty'')) g
      else let g' = add_conditional_edges from_node r g
           in if sg_err g' = sg_err g then g'\<lparr>sg_path_maps := mput from_node path_map (sg_path_maps g')\<rparr> else g')"

definition set_conditional_entry_point_with_path_map ::
  "router option \<Rightarrow> string gomap \<Rightarrow> state_graph \<Rightarrow> state_graph" where
  "set_conditional_entry_point_with_path_map r path_map g =
     (if path_map = [] then set_err (EText ''graph: conditional entry point path map must not be empty'') g
      else let g' = set_conditional_entry_point r g
           in if sg_err g' = sg_err g then g'\<lparr>sg_entry_path_map := path_map\<rparr> else g')"

definition set_finish_point :: "string \<Rightarrow> state_graph \<Rightarrow> state_graph" where
  "set_finish_point name = add_edge name end_node"

fun add_sequence_from :: "string option \<Rightarrow> (string \<times> node_fun option) list \<Rightarrow> state_graph \<Rightarrow> state_graph" where
  "add_sequence_from previous [] g = g"
| "add_sequence_from previous ((name, fn) # nodes) g =
     add_sequence_from (Some name) nodes
       (case previous of None \<Rightarrow> add_node name fn g | Some p \<Rightarrow> add_edge p name (add_node name fn g))"

definition add_sequence :: "(string \<times> node_fun option) list \<Rightarrow> state_graph \<Rightarrow> state_graph" where
  "add_sequence nodes g =
     (if nodes = [] then set_err (EText ''graph: AddSequence requires at least one node'') g
      else add_sequence_from None nodes g)"

subsection \<open>Compile\<close>

record compile_options =
  co_limit :: int
  co_durability :: string
  co_before :: "string list"
  co_after :: "string list"
  co_default_retry :: "retry_policy option"

definition default_recursion_limit :: int where "default_recursion_limit = 100"

definition default_options :: compile_options where
  "default_options = \<lparr>co_limit = default_recursion_limit, co_durability = ''sync'', co_before = [], co_after = [],
     co_default_retry = None\<rparr>"

definition with_recursion_limit :: "int \<Rightarrow> compile_options \<Rightarrow> compile_options" where
  "with_recursion_limit limit opts = opts\<lparr>co_limit := limit\<rparr>"

definition with_default_retry_policy :: "retry_policy option \<Rightarrow> compile_options \<Rightarrow> compile_options" where
  "with_default_retry_policy p opts = opts\<lparr>co_default_retry := p\<rparr>"

definition with_durability :: "string \<Rightarrow> compile_options \<Rightarrow> compile_options" where
  "with_durability d opts = opts\<lparr>co_durability := d\<rparr>"

definition with_interrupt_before :: "string list \<Rightarrow> compile_options \<Rightarrow> compile_options" where
  "with_interrupt_before nodes opts = opts\<lparr>co_before := fold List.insert nodes (co_before opts)\<rparr>"

definition with_interrupt_after :: "string list \<Rightarrow> compile_options \<Rightarrow> compile_options" where
  "with_interrupt_after nodes opts = opts\<lparr>co_after := fold List.insert nodes (co_after opts)\<rparr>"

record compiled_graph =
  cg_nodes :: "node_fun gomap"
  cg_policies :: "node_policies gomap"
  cg_protos :: "chan gomap"
  cg_edges :: "string list gomap"
  cg_conditional :: "router gomap"
  cg_bounds :: "gval gomap"
  cg_path_maps :: "string gomap gomap"
  cg_entry_path_map :: "string gomap"
  cg_joins :: "join_meta list"
  cg_joins_by_parent :: "string list gomap"
  cg_entry :: string
  cg_entry_router :: "router option"
  cg_limit :: int
  cg_durability :: string
  cg_before :: "string list"
  cg_after :: "string list"
  cg_default_retry :: "retry_policy option"

definition node_or_end :: "state_graph \<Rightarrow> string \<Rightarrow> bool" where
  "node_or_end g name \<longleftrightarrow> name = end_node \<or> mhas (sg_nodes g) name"

text \<open>The checks of \<open>Compile\<close>, each the first offender of its loop.\<close>

definition first_error :: "('a \<Rightarrow> goerr option) \<Rightarrow> 'a list \<Rightarrow> goerr option" where
  "first_error f xs = (case List.map_filter f xs of [] \<Rightarrow> None | e # _ \<Rightarrow> Some e)"

definition check_entry :: "state_graph \<Rightarrow> goerr option" where
  "check_entry g =
     (if sg_entry g = [] \<and> sg_entry_router g = None then
        Some (EText ''graph: entry point not set (call AddEdge(types.START, node), SetEntryPoint, or SetConditionalEntryPoint)'')
      else if sg_entry g \<noteq> [] \<and> sg_entry g \<noteq> end_node \<and> \<not> mhas (sg_nodes g) (sg_entry g) then
        Some (EText (''graph: entry point '' @ go_quote (sg_entry g) @ '' is not a registered node''))
      else None)"

definition check_edges_from :: "state_graph \<Rightarrow> string \<Rightarrow> goerr option" where
  "check_edges_from g from_node =
     (if \<not> mhas (sg_nodes g) from_node then
        Some (EText (''graph: edge source '' @ go_quote from_node @ '' is not a registered node''))
      else first_error (\<lambda>to_node. if node_or_end g to_node then None
             else Some (EText (''graph: edge target '' @ go_quote to_node @ '' is not a registered node'')))
           (mgetd (sg_edges g) from_node []))"

definition check_conditional :: "state_graph \<Rightarrow> string \<Rightarrow> goerr option" where
  "check_conditional g from_node =
     (if mhas (sg_nodes g) from_node then None
      else Some (EText (''graph: conditional edge source '' @ go_quote from_node @ '' is not a registered node'')))"

definition check_path_map :: "state_graph \<Rightarrow> string \<Rightarrow> goerr option" where
  "check_path_map g from_node =
     (let path_map = mgetd (sg_path_maps g) from_node []
      in first_error (\<lambda>k. let target = mgetd path_map k [] in if node_or_end g target then None
           else Some (EText (''graph: conditional edge '' @ go_quote from_node @ '' path map target ''
                  @ go_quote target @ '' is not a registered node''))) (mkeys path_map))"

definition check_entry_target :: "state_graph \<Rightarrow> string \<Rightarrow> goerr option" where
  "check_entry_target g k =
     (let target = mgetd (sg_entry_path_map g) k [] in if node_or_end g target then None
      else Some (EText (''graph: conditional entry point path map target '' @ go_quote target
             @ '' is not a registered node'')))"

definition check_policy :: "state_graph \<Rightarrow> string \<Rightarrow> goerr option" where
  "check_policy g name =
     (case map_of (sg_policies g) name of
        None \<Rightarrow> None
      | Some p \<Rightarrow> (case np_retry p of None \<Rightarrow> None
          | Some r \<Rightarrow> map_option (\<lambda>err. EWrap (''graph: node '' @ go_quote name @ '' retry policy'') (EText err))
                        (retry_validate r)))"

definition check_join :: "state_graph \<Rightarrow> join_edge \<Rightarrow> goerr option" where
  "check_join g je =
     (case first_error (\<lambda>p. if mhas (sg_nodes g) p then None
             else Some (EText (''graph: join edge parent '' @ go_quote p @ '' is not a registered node''))) (je_parents je) of
        Some e \<Rightarrow> Some e
      | None \<Rightarrow> (if mhas (sg_nodes g) (je_child je) then None
          else Some (EText (''graph: join edge child '' @ go_quote (je_child je) @ '' is not a registered node''))))"

definition compile_checks :: "state_graph \<Rightarrow> goerr option" where
  "compile_checks g =
     first_error id
       (sg_err g # check_entry g
        # map (check_edges_from g) (mkeys (sg_edges g))
        @ map (check_conditional g) (mkeys (sg_conditional g))
        @ map (check_path_map g) (mkeys (sg_path_maps g))
        @ map (check_entry_target g) (mkeys (sg_entry_path_map g))
        @ map (check_policy g) (mkeys (sg_policies g))
        @ map (check_join g) (sg_joins g))"

text \<open>One waiting edge: its barrier prototype, its entry in \<open>joins\<close>, its key at every parent.\<close>

definition compile_join :: "join_edge \<Rightarrow> chan gomap \<times> join_meta list \<times> string list gomap
    \<Rightarrow> goerr + chan gomap \<times> join_meta list \<times> string list gomap" where
  "compile_join je acc =
     (case acc of (protos, joins, by_parent) \<Rightarrow>
        let key = join_key (je_parents je) (je_child je)
        in if mhas protos key then
             Inl (EText (''graph: duplicate join channel '' @ go_quote key
               @ '' (identical AddJoinEdge calls, or a user-registered AddChannel/AddReducer collision)''))
           else Inr (mput key (CBarrier (new_barrier (je_parents je))) protos,
                     joins @ [\<lparr>jm_key = key, jm_parents = je_parents je, jm_child = je_child je\<rparr>],
                     fold (\<lambda>p m. mput p (mgetd m p [] @ [key]) m) (je_parents je) by_parent))"

definition compile_default_retry :: "compile_options \<Rightarrow> goerr + retry_policy option" where
  "compile_default_retry opts =
     (case co_default_retry opts of
        None \<Rightarrow> Inr None
      | Some p \<Rightarrow> (case retry_validate p of
          Some err \<Rightarrow> Inl (EWrap ''graph: default retry policy'' (EText err))
        | None \<Rightarrow> Inr (Some (with_defaults p))))"

definition compile :: "state_graph \<Rightarrow> compile_options \<Rightarrow> goerr + compiled_graph" where
  "compile g opts =
     (case compile_checks g of
        Some e \<Rightarrow> Inl e
      | None \<Rightarrow>
          rbind (compile_default_retry opts) (\<lambda>retry.
          rbind (rfold compile_join (sg_joins g) (sg_protos g, [], [])) (\<lambda>(protos, joins, by_parent).
            Inr \<lparr>cg_nodes = sg_nodes g, cg_policies = sg_policies g, cg_protos = protos, cg_edges = sg_edges g,
                 cg_conditional = sg_conditional g, cg_bounds = sg_bounds g, cg_path_maps = sg_path_maps g,
                 cg_entry_path_map = sg_entry_path_map g, cg_joins = joins, cg_joins_by_parent = by_parent,
                 cg_entry = sg_entry g, cg_entry_router = sg_entry_router g, cg_limit = co_limit opts,
                 cg_durability = co_durability opts, cg_before = co_before opts, cg_after = co_after opts,
                 cg_default_retry = retry\<rparr>)))"

subsection \<open>Every sequence of builder calls\<close>

datatype builder_call =
    AddNode string "node_fun option" node_policies
  | AddNodeWithBound string "node_fun option" gval
  | AddReducer string reducer
  | AddChannel string "chan option"
  | AddEdge string string
  | AddJoinEdge "string list" string
  | AddConditionalEdges string "router option"
  | AddConditionalEdgesWithPathMap string "router option" "string gomap"
  | SetEntryPoint string
  | SetConditionalEntryPoint "router option"
  | SetConditionalEntryPointWithPathMap "router option" "string gomap"
  | SetFinishPoint string
  | AddSequence "(string \<times> node_fun option) list"

fun run_call :: "builder_call \<Rightarrow> state_graph \<Rightarrow> state_graph" where
  "run_call (AddNode name fn p) = add_node_with_policies name fn p"
| "run_call (AddNodeWithBound name fn b) = add_node_with_bound name fn b"
| "run_call (AddReducer key r) = add_reducer key r"
| "run_call (AddChannel key p) = add_channel key p"
| "run_call (AddEdge a b) = add_edge a b"
| "run_call (AddJoinEdge ps c) = add_join_edge ps c"
| "run_call (AddConditionalEdges a r) = add_conditional_edges a r"
| "run_call (AddConditionalEdgesWithPathMap a r m) = add_conditional_edges_with_path_map a r m"
| "run_call (SetEntryPoint n) = set_entry_point n"
| "run_call (SetConditionalEntryPoint r) = set_conditional_entry_point r"
| "run_call (SetConditionalEntryPointWithPathMap r m) = set_conditional_entry_point_with_path_map r m"
| "run_call (SetFinishPoint n) = set_finish_point n"
| "run_call (AddSequence nodes) = add_sequence nodes"

definition build :: "builder_call list \<Rightarrow> state_graph" where
  "build calls = fold run_call calls new_state_graph"

text \<open>What holds of a builder at any time.\<close>

definition join_ok :: "string list \<Rightarrow> string \<Rightarrow> bool" where
  "join_ok parents child \<longleftrightarrow>
     2 \<le> length parents \<and> distinct parents \<and> list_all (\<lambda>p. \<not> reserved_name p) parents \<and> \<not> reserved_name child"

definition sg_inv :: "state_graph \<Rightarrow> bool" where
  "sg_inv g \<longleftrightarrow>
     (\<forall>name. mhas (sg_nodes g) name \<longrightarrow> \<not> reserved_name name) \<and>
     (\<forall>je \<in> set (sg_joins g). join_ok (je_parents je) (je_child je)) \<and>
     \<not> mhas (sg_edges g) start_node \<and>
     (sg_entry g = [] \<or> sg_entry_router g = None)"

lemmas builder_defs = add_node_with_policies_def add_node_def add_node_with_bound_def add_reducer_def
  add_channel_def set_entry_point_def add_edge_def add_join_edge_def add_conditional_edges_def
  set_conditional_entry_point_def add_conditional_edges_with_path_map_def
  set_conditional_entry_point_with_path_map_def set_finish_point_def add_sequence_def

lemma set_err_simps [simp]:
  "sg_inv (set_err e g) = sg_inv g" "sg_err g = Some x \<Longrightarrow> set_err e g = g"
  by (simp_all add: set_err_def sg_inv_def)

lemma bad_join_parent_None:
  "bad_join_parent seen names = None \<Longrightarrow>
     distinct names \<and> set names \<inter> set seen = {} \<and> list_all (\<lambda>p. \<not> reserved_name p) names"
  by (induction seen names rule: bad_join_parent.induct) (auto split: if_splits)

lemma sg_inv_new: "sg_inv new_state_graph"
  by (simp add: sg_inv_def new_state_graph_def mhas_def)

lemma sg_inv_add_node [wf_intros]: "sg_inv g \<Longrightarrow> sg_inv (add_node_with_policies name fn p g)"
  by (auto simp: add_node_with_policies_def sg_inv_def mhas_def set_err_def split: option.splits)

lemma sg_inv_entry [wf_intros]: "sg_inv g \<Longrightarrow> sg_inv (set_entry_point name g)"
  by (auto simp: set_entry_point_def sg_inv_def set_err_def)

lemma sg_inv_edge [wf_intros]: "sg_inv g \<Longrightarrow> sg_inv (add_edge a b g)"
  by (cases "a = start_node", simp add: add_edge_def sg_inv_entry) (simp add: add_edge_def sg_inv_def mhas_def)

lemma sg_inv_join [wf_intros]: "sg_inv g \<Longrightarrow> sg_inv (add_join_edge ps c g)"
  by (auto simp: add_join_edge_def sg_inv_def join_ok_def set_err_def dest!: bad_join_parent_None split: option.splits)

lemma sg_inv_conditional [wf_intros]: "sg_inv g \<Longrightarrow> sg_inv (add_conditional_edges a r g)"
  by (auto simp: add_conditional_edges_def sg_inv_def set_err_def split: option.splits)

lemma sg_inv_conditional_entry [wf_intros]: "sg_inv g \<Longrightarrow> sg_inv (set_conditional_entry_point r g)"
  by (auto simp: set_conditional_entry_point_def sg_inv_def set_err_def split: option.splits)

lemma sg_inv_sequence [wf_intros]: "sg_inv g \<Longrightarrow> sg_inv (add_sequence_from prev nodes g)"
  by (induction prev nodes g rule: add_sequence_from.induct) (auto simp: add_node_def wf_intros split: option.splits)

lemma sg_inv_fields [simp]:
  "sg_inv (g\<lparr>sg_bounds := b\<rparr>) = sg_inv g" "sg_inv (g\<lparr>sg_path_maps := m\<rparr>) = sg_inv g"
  "sg_inv (g\<lparr>sg_entry_path_map := e\<rparr>) = sg_inv g" "sg_inv (g\<lparr>sg_protos := ps\<rparr>) = sg_inv g"
  by (simp_all add: sg_inv_def)

lemma run_call_inv: "sg_inv g \<Longrightarrow> sg_inv (run_call c g)"
proof (cases c)
  case (AddChannel key p)
  assume "sg_inv g"
  with AddChannel show ?thesis by (cases p) (simp_all add: add_channel_def)
qed (simp_all add: wf_intros add_node_with_bound_def add_reducer_def Let_def set_finish_point_def add_sequence_def
  add_conditional_edges_with_path_map_def set_conditional_entry_point_with_path_map_def)

lemma fold_run_call_inv: "sg_inv g \<Longrightarrow> sg_inv (fold run_call calls g)"
  by (induction calls arbitrary: g) (simp_all add: run_call_inv)

text \<open>The first error sticks.\<close>

lemma sticky_node: "sg_err g = Some e \<Longrightarrow> sg_err (add_node_with_policies name fn p g) = Some e"
  by (auto simp: add_node_with_policies_def split: option.splits)

lemma sticky_edge: "sg_err g = Some e \<Longrightarrow> sg_err (add_edge a b g) = Some e"
  by (auto simp: add_edge_def set_entry_point_def)

lemma sticky_sequence: "sg_err g = Some e \<Longrightarrow> sg_err (add_sequence_from prev nodes g) = Some e"
  by (induction prev nodes g rule: add_sequence_from.induct)
    (auto simp: add_node_def sticky_node sticky_edge split: option.splits)

lemma run_call_sticky: "sg_err g = Some e \<Longrightarrow> sg_err (run_call c g) = Some e"
  by (cases c)
    (auto simp: add_node_with_bound_def add_reducer_def add_channel_def add_join_edge_def add_conditional_edges_def
      set_conditional_entry_point_def add_conditional_edges_with_path_map_def set_entry_point_def
      set_conditional_entry_point_with_path_map_def set_finish_point_def add_sequence_def
      sticky_node sticky_edge sticky_sequence Let_def split: option.splits)

lemma fold_run_call_sticky: "sg_err g = Some e \<Longrightarrow> sg_err (fold run_call calls g) = Some e"
  by (induction calls arbitrary: g) (simp_all add: run_call_sticky)

subsection \<open>What Compile guarantees\<close>

definition meta_of :: "join_edge \<Rightarrow> join_meta" where
  "meta_of je = \<lparr>jm_key = join_key (je_parents je) (je_child je), jm_parents = je_parents je, jm_child = je_child je\<rparr>"

lemma by_parent_fold:
  "distinct ps \<Longrightarrow> mgetd (fold (\<lambda>p m. mput p (mgetd m p [] @ [key]) m) ps m) q [] =
     (if q \<in> set ps then mgetd m q [] @ [key] else mgetd m q [])"
  by (induction ps arbitrary: m) auto

lemma compile_joins:
  "rfold compile_join jes (protos, joins, bp) = Inr (protos', joins', bp') \<Longrightarrow>
   \<forall>je \<in> set jes. distinct (je_parents je) \<Longrightarrow>
   joins' = joins @ map meta_of jes \<and>
   (\<forall>k. mhas protos k \<longrightarrow> map_of protos' k = map_of protos k) \<and>
   (\<forall>je \<in> set jes. \<not> mhas protos (jm_key (meta_of je)) \<and>
      map_of protos' (jm_key (meta_of je)) = Some (CBarrier (new_barrier (je_parents je)))) \<and>
   distinct (map (\<lambda>je. jm_key (meta_of je)) jes) \<and>
   (\<forall>p. mgetd bp' p [] = mgetd bp p [] @ map (\<lambda>je. jm_key (meta_of je)) (filter (\<lambda>je. p \<in> set (je_parents je)) jes))"
proof (induction jes arbitrary: protos joins bp)
  case (Cons je jes)
  let ?key = "jm_key (meta_of je)" and ?bar = "CBarrier (new_barrier (je_parents je))"
  from Cons.prems(1) have fresh: "\<not> mhas protos ?key"
    and rest: "rfold compile_join jes
      (mput ?key ?bar protos, joins @ [meta_of je], fold (\<lambda>p m. mput p (mgetd m p [] @ [?key]) m) (je_parents je) bp)
      = Inr (protos', joins', bp')"
    by (auto simp: rbind_Inr_iff compile_join_def [of je] meta_of_def Let_def split: if_splits)
  have d: "distinct (je_parents je)" using Cons.prems(2) by simp
  note IH = Cons.IH [OF rest] 
  have IH: "joins' = joins @ map meta_of (je # jes)"
    "\<forall>k. mhas (mput ?key ?bar protos) k \<longrightarrow> map_of protos' k = map_of (mput ?key ?bar protos) k"
    "\<forall>je' \<in> set jes. \<not> mhas (mput ?key ?bar protos) (jm_key (meta_of je')) \<and>
      map_of protos' (jm_key (meta_of je')) = Some (CBarrier (new_barrier (je_parents je')))"
    "distinct (map (\<lambda>je. jm_key (meta_of je)) jes)"
    "\<forall>p. mgetd bp' p [] = mgetd (fold (\<lambda>p m. mput p (mgetd m p [] @ [?key]) m) (je_parents je) bp) p [] @
      map (\<lambda>je. jm_key (meta_of je)) (filter (\<lambda>je. p \<in> set (je_parents je)) jes)"
    using IH Cons.prems(2) by simp_all
  have mine: "map_of protos' ?key = Some ?bar" using IH(2) by (simp add: mhas_def)
  have other: "?key \<notin> (\<lambda>je. jm_key (meta_of je)) ` set jes"
    using IH(3) by (force simp: mhas_def)
  have "\<forall>k. mhas protos k \<longrightarrow> map_of protos' k = map_of protos k"
    using IH(2) fresh by (auto simp: mhas_def)
  moreover have "\<not> mhas protos (jm_key (meta_of je'))" if "je' \<in> set jes" for je'
    using IH(3) that by (auto simp: mhas_def split: if_splits)
  ultimately show ?case
    using IH(1,3,4) mine other fresh IH(5) by (auto simp: by_parent_fold [OF d])
qed simp

lemma first_error_None: "first_error f xs = None \<longleftrightarrow> (\<forall>x \<in> set xs. f x = None)"
  by (induction xs) (auto simp: first_error_def map_filter_simps split: option.splits list.splits)

definition registered :: "compiled_graph \<Rightarrow> string \<Rightarrow> bool" where
  "registered cg name \<longleftrightarrow> mhas (cg_nodes cg) name \<and> \<not> reserved_name name"

definition join_wf :: "compiled_graph \<Rightarrow> join_meta \<Rightarrow> bool" where
  "join_wf cg jm \<longleftrightarrow>
     2 \<le> length (jm_parents jm) \<and> distinct (jm_parents jm) \<and> list_all (registered cg) (jm_parents jm) \<and>
     registered cg (jm_child jm) \<and>
     map_of (cg_protos cg) (jm_key jm) = Some (CBarrier (new_barrier (jm_parents jm)))"

definition graph_wf :: "compiled_graph \<Rightarrow> bool" where
  "graph_wf cg \<longleftrightarrow>
     (if cg_entry cg = [] then cg_entry_router cg \<noteq> None
      else cg_entry_router cg = None \<and> (cg_entry cg = end_node \<or> registered cg (cg_entry cg))) \<and>
     (\<forall>n \<in> set (mkeys (cg_edges cg)). registered cg n \<and>
        (\<forall>to_node \<in> set (mgetd (cg_edges cg) n []). to_node = end_node \<or> registered cg to_node)) \<and>
     (\<forall>n \<in> set (mkeys (cg_conditional cg)). registered cg n) \<and>
     (\<forall>jm \<in> set (cg_joins cg). join_wf cg jm) \<and>
     distinct (map jm_key (cg_joins cg)) \<and>
     (\<forall>p. mgetd (cg_joins_by_parent cg) p [] =
        map jm_key (filter (\<lambda>jm. p \<in> set (jm_parents jm)) (cg_joins cg)))"

text \<open>Every target of a path map, of a node or of the entry, is a registered node or END, and retry policies are valid.\<close>

definition routes_wf :: "compiled_graph \<Rightarrow> bool" where
  "routes_wf cg \<longleftrightarrow>
     (\<forall>n path_map k to_node. map_of (cg_path_maps cg) n = Some path_map \<and> map_of path_map k = Some to_node \<longrightarrow>
        to_node = end_node \<or> registered cg to_node) \<and>
     (\<forall>k to_node. map_of (cg_entry_path_map cg) k = Some to_node \<longrightarrow> to_node = end_node \<or> registered cg to_node) \<and>
     (\<forall>n p r. map_of (cg_policies cg) n = Some p \<and> np_retry p = Some r \<longrightarrow> retry_validate r = None)"

lemma compile_routes_wf:
  assumes "sg_inv g" and "compile g opts = Inr cg"
  shows "routes_wf cg"
proof -
  from assms(2) have checks: "compile_checks g = None"
    and cg: "cg_nodes cg = sg_nodes g" "cg_path_maps cg = sg_path_maps g" "cg_entry_path_map cg = sg_entry_path_map g"
      "cg_policies cg = sg_policies g"
    by (auto simp: compile_def rbind_Inr_iff split: option.splits)
  have reg: "registered cg n \<longleftrightarrow> mhas (sg_nodes g) n" for n using assms(1) by (auto simp: registered_def cg sg_inv_def)
  have ok: "\<forall>n \<in> set (mkeys (sg_path_maps g)). check_path_map g n = None"
    "\<forall>k \<in> set (mkeys (sg_entry_path_map g)). check_entry_target g k = None"
    "\<forall>n \<in> set (mkeys (sg_policies g)). check_policy g n = None"
    using checks unfolding compile_checks_def first_error_None by (auto simp del: set_mkeys)
  have "to_node = end_node \<or> registered cg to_node"
    if at: "map_of (sg_path_maps g) n = Some path_map" "map_of path_map k = Some to_node" for n path_map k to_node
  proof -
    have here: "n \<in> set (mkeys (sg_path_maps g))" "k \<in> set (mkeys path_map)"
      using at by (simp_all add: in_mkeys_iff del: set_mkeys)
    have "mgetd (sg_path_maps g) n [] = path_map" "mgetd path_map k [] = to_node" using at by (simp_all add: mgetd_def)
    with ok(1) [rule_format, OF here(1)] here(2) show ?thesis
      by (auto simp: check_path_map_def first_error_None Let_def node_or_end_def reg simp del: set_mkeys split: if_splits)
  qed
  moreover have "to_node = end_node \<or> registered cg to_node"
    if at: "map_of (sg_entry_path_map g) k = Some to_node" for k to_node
  proof -
    have here: "k \<in> set (mkeys (sg_entry_path_map g))" using at by (simp add: in_mkeys_iff del: set_mkeys)
    from ok(2) [rule_format, OF here] at show ?thesis
      by (simp add: check_entry_target_def Let_def node_or_end_def reg mgetd_def split: if_splits)
  qed
  moreover have "retry_validate r = None" if at: "map_of (sg_policies g) n = Some p" "np_retry p = Some r" for n p r
  proof -
    have here: "n \<in> set (mkeys (sg_policies g))" using at by (simp add: in_mkeys_iff del: set_mkeys)
    from ok(3) [rule_format, OF here] at show ?thesis by (simp add: check_policy_def)
  qed
  ultimately show ?thesis unfolding routes_wf_def cg by blast
qed

lemma compile_wf:
  assumes "sg_inv g" and "compile g opts = Inr cg"
  shows "graph_wf cg"
proof -
  from assms(2) obtain retry protos joins by_parent where checks: "compile_checks g = None"
    and jfold: "rfold compile_join (sg_joins g) (sg_protos g, [], []) = Inr (protos, joins, by_parent)"
    and cg: "cg_nodes cg = sg_nodes g" "cg_edges cg = sg_edges g" "cg_conditional cg = sg_conditional g"
      "cg_entry cg = sg_entry g" "cg_entry_router cg = sg_entry_router g" "cg_joins cg = joins"
      "cg_joins_by_parent cg = by_parent" "cg_protos cg = protos"
    by (auto simp: compile_def rbind_Inr_iff split: option.splits)
  have inv: "\<And>name. mhas (sg_nodes g) name \<Longrightarrow> \<not> reserved_name name"
    "\<And>je. je \<in> set (sg_joins g) \<Longrightarrow> join_ok (je_parents je) (je_child je)"
    "sg_entry g = [] \<or> sg_entry_router g = None"
    using assms(1) by (auto simp: sg_inv_def)
  have reg: "registered cg n \<longleftrightarrow> mhas (sg_nodes g) n" for n using inv(1) by (auto simp: registered_def cg)
  have ok: "check_entry g = None" "\<forall>n \<in> set (mkeys (sg_edges g)). check_edges_from g n = None"
    "\<forall>n \<in> set (mkeys (sg_conditional g)). check_conditional g n = None"
    "\<forall>je \<in> set (sg_joins g). check_join g je = None"
    using checks unfolding compile_checks_def first_error_None by (auto simp del: set_mkeys)
  have "\<forall>je \<in> set (sg_joins g). distinct (je_parents je)" using inv(2) by (auto simp: join_ok_def)
  note j = compile_joins [OF jfold this]
  have joins: "joins = map meta_of (sg_joins g)" using j by simp
  have wf: "join_wf cg (meta_of je)" if "je \<in> set (sg_joins g)" for je
    using j inv(2) [OF that] ok(4) that
    by (auto simp: join_wf_def meta_of_def join_ok_def check_join_def first_error_None list_all_iff reg cg
        split: option.splits if_splits)
  have "if cg_entry cg = [] then cg_entry_router cg \<noteq> None
      else cg_entry_router cg = None \<and> (cg_entry cg = end_node \<or> registered cg (cg_entry cg))"
    using ok(1) inv(3) by (auto simp: check_entry_def reg cg split: if_splits)
  moreover have "\<forall>n \<in> set (mkeys (cg_edges cg)). registered cg n \<and>
      (\<forall>to_node \<in> set (mgetd (cg_edges cg) n []). to_node = end_node \<or> registered cg to_node)"
    using ok(2) by (auto simp: check_edges_from_def first_error_None node_or_end_def reg cg simp del: set_mkeys split: if_splits)
  moreover have "\<forall>n \<in> set (mkeys (cg_conditional cg)). registered cg n"
    using ok(3) by (auto simp: check_conditional_def reg cg simp del: set_mkeys split: if_splits)
  moreover have "distinct (map jm_key (cg_joins cg))" using j by (simp add: cg joins comp_def)
  moreover have "mgetd (cg_joins_by_parent cg) p [] = map jm_key (filter (\<lambda>jm. p \<in> set (jm_parents jm)) (cg_joins cg))" for p
  proof -
    have "filter (\<lambda>jm. p \<in> set (jm_parents jm)) joins = map meta_of (filter (\<lambda>je. p \<in> set (je_parents je)) (sg_joins g))"
      unfolding joins filter_map by (simp add: comp_def meta_of_def)
    then show ?thesis using j by (simp add: cg comp_def)
  qed
  ultimately show ?thesis unfolding graph_wf_def using wf by (auto simp: cg joins simp del: set_mkeys)
qed

text \<open>
  C6: what Compile accepts is well formed. Whatever the builder calls were, a compiled graph has
  one entry (a registered node, END, or a router), its edges and routers sit on registered nodes
  and lead to registered nodes or END, and every join edge has at least two distinct registered
  parents, a registered child and a barrier channel of its own whose names are exactly the parents,
  listed at each of them. Every target of a path map is a registered node or END, and every retry policy
  is a valid one. What Compile does not look at is not claimed: the names a router without a path map
  will return, which the run checks, and the names of the interrupts.
  A call the builder rejects makes every later Compile return its error.
\<close>

theorem compiled_graph_is_wellformed:
  assumes "compile (build calls) opts = Inr cg"
  shows "graph_wf cg \<and> routes_wf cg \<and> (\<forall>n. sg_err (build (take n calls)) = None)"
proof (intro conjI)
  show "graph_wf cg"
    using fold_run_call_inv [OF sg_inv_new] assms by (auto simp: build_def intro: compile_wf)
  show "routes_wf cg"
    using fold_run_call_inv [OF sg_inv_new] assms by (auto simp: build_def intro: compile_routes_wf)
  show "\<forall>n. sg_err (build (take n calls)) = None"
  proof
    fix n
    have "build calls = fold run_call (drop n calls) (build (take n calls))"
      by (simp add: build_def flip: fold_append [THEN fun_cong, unfolded comp_apply])
    moreover have "sg_err (build calls) = None"
      using assms by (cases "sg_err (build calls)") (auto simp: compile_def compile_checks_def first_error_def map_filter_simps)
    ultimately show "sg_err (build (take n calls)) = None"
      using fold_run_call_sticky by (cases "sg_err (build (take n calls))") fastforce+
  qed
qed

text \<open>Two parents that join into a third node.\<close>

definition writer :: "string \<Rightarrow> string \<Rightarrow> node_fun" where
  "writer key v attempt state = Return (RState [(key, VStr v)])"

definition demo_calls :: "builder_call list" where
  "demo_calls =
     [AddNode ''a'' (Some (writer ''x'' ''from a'')) no_policies,
      AddNode ''b'' (Some (writer ''y'' ''from b'')) no_policies,
      AddNode ''c'' (Some (writer ''z'' ''from c'')) no_policies,
      SetConditionalEntryPoint (Some (\<lambda>_. Inr [VStr ''a'', VStr ''b''])),
      AddJoinEdge [''a'', ''b''] ''c'',
      SetFinishPoint ''c'']"

definition demo_graph :: compiled_graph where
  "demo_graph = projr (compile (build demo_calls) default_options)"

lemma demo_graph: "compile (build demo_calls) default_options = Inr demo_graph"
proof -
  have "\<not> isl (compile (build demo_calls) default_options)" by code_simp
  then show ?thesis by (simp add: demo_graph_def)
qed

lemma demo_graph_wf: "graph_wf demo_graph"
  by (rule compile_wf [OF _ demo_graph]) (simp add: build_def fold_run_call_inv sg_inv_new)

lemma compiled_graph_is_wellformed_witness:
  "graph_wf demo_graph \<and> map jm_key (cg_joins demo_graph) = [''join:a+b:c'']"
proof
  show "graph_wf demo_graph" using compiled_graph_is_wellformed [OF demo_graph] by (rule conjunct1)
  show "map jm_key (cg_joins demo_graph) = [''join:a+b:c'']" by code_simp
qed

end
