(* ===== verification/MessageIds.thy ===== *)
theory MessageIds
  imports ChannelUnion
begin

section \<open>Message IDs on the way into a messages delta channel (langgraph/graph/message_ids.go)\<close>

text \<open>
  A delta channel replays its recorded writes on every read, so a message must have its ID before it
  is recorded. \<open>ensureMessageIDs\<close> stamps the messages of every entry that is written to a channel
  built by \<open>NewMessagesDeltaChannel\<close>. The IDs come from \<open>newMessageID\<close>, a counter and a clock; here
  they are a stream \<open>ids\<close> of which the next unused one is at position \<open>n\<close>.
\<close>

fun stamp_messages :: "(nat \<Rightarrow> string) \<Rightarrow> message list \<Rightarrow> nat \<Rightarrow> message list \<times> nat" where
  "stamp_messages ids [] n = ([], n)"
| "stamp_messages ids (m # ms) n =
     (let (m', n1) = (if msg_id m = [] then (m\<lparr>msg_id := ids n\<rparr>, Suc n) else (m, n));
          (ms', n2) = stamp_messages ids ms n1
      in (m' # ms', n2))"

fun stamp_updates :: "(nat \<Rightarrow> string) \<Rightarrow> msg_update list \<Rightarrow> nat \<Rightarrow> msg_update list \<times> nat" where
  "stamp_updates ids [] n = ([], n)"
| "stamp_updates ids (u # us) n =
     (let (u', n1) = (case u of UMsg m \<Rightarrow> if msg_id m = [] then (UMsg (m\<lparr>msg_id := ids n\<rparr>), Suc n) else (u, n)
                              | URemove _ \<Rightarrow> (u, n));
          (us', n2) = stamp_updates ids us n1
      in (u' # us', n2))"

lemma size_as_overwrite: "as_overwrite v = Some w \<Longrightarrow> size w < size v"
proof (cases v)
  case (VMap m)
  have "map_of m k = Some w \<Longrightarrow> size w < size v" for k
  proof -
    assume "map_of m k = Some w"
    then have "(k, w) \<in> set m" by (rule map_of_SomeD)
    then have "size w \<le> size_list (size_prod (\<lambda>_. 0) size) m" by (induction m) auto
    with VMap show ?thesis by simp
  qed
  moreover assume "as_overwrite v = Some w"
  ultimately show ?thesis using VMap by (auto split: if_splits)
qed auto

text \<open>\<open>None\<close> when nothing was stamped, the new value otherwise.\<close>

function with_message_ids :: "(nat \<Rightarrow> string) \<Rightarrow> gval \<Rightarrow> nat \<Rightarrow> gval option \<times> nat" where
  "with_message_ids ids v n =
     (case as_overwrite v of
        Some inner \<Rightarrow>
          (case with_message_ids ids inner n of
             (None, n') \<Rightarrow> (None, n')
           | (Some stamped, n') \<Rightarrow> (Some (new_overwrite stamped), n'))
      | None \<Rightarrow>
          (case v of
             VMsgs ms \<Rightarrow>
               (if list_ex (\<lambda>m. msg_id m = []) ms
                then (case stamp_messages ids ms n of (ms', n') \<Rightarrow> (Some (VMsgs ms'), n')) else (None, n))
           | VUpdates us \<Rightarrow>
               (if list_ex (\<lambda>u. case u of UMsg m \<Rightarrow> msg_id m = [] | URemove _ \<Rightarrow> False) us
                then (case stamp_updates ids us n of (us', n') \<Rightarrow> (Some (VUpdates us'), n')) else (None, n))
           | _ \<Rightarrow> (None, n)))"
  by pat_completeness auto

termination
  by (relation "measure (\<lambda>(ids, v, n). size v)") (auto dest: size_as_overwrite)

declare with_message_ids.simps [simp del]

definition is_messages_delta_channel :: "chan gomap \<Rightarrow> string \<Rightarrow> bool" where
  "is_messages_delta_channel protos key =
     (case map_of protos key of
        None \<Rightarrow> False
      | Some p \<Rightarrow> (case as_delta p of None \<Rightarrow> False | Some d \<Rightarrow> dc_messages d))"

definition stamp_entry :: "chan gomap \<Rightarrow> (nat \<Rightarrow> string) \<Rightarrow> gstate \<Rightarrow> string \<Rightarrow> gstate \<times> nat \<Rightarrow> gstate \<times> nat" where
  "stamp_entry protos ids upd k acc =
     (case acc of (out, n) \<Rightarrow>
        if is_messages_delta_channel protos k then
          (case with_message_ids ids (mgetd upd k VNil) n of
             (None, n') \<Rightarrow> (out, n')
           | (Some v, n') \<Rightarrow> (mput k v out, n'))
        else (out, n))"

definition ensure_message_ids :: "chan gomap \<Rightarrow> (nat \<Rightarrow> string) \<Rightarrow> gstate \<Rightarrow> nat \<Rightarrow> gstate \<times> nat" where
  "ensure_message_ids protos ids upd n = fold (stamp_entry protos ids upd) (mkeys upd) (upd, n)"

subsection \<open>Every message gets an ID, once\<close>

text \<open>The payload under any overwrite wrappers, and whether all of its messages have an ID.\<close>

function unwrap :: "gval \<Rightarrow> gval" where
  "unwrap v = (case as_overwrite v of Some inner \<Rightarrow> unwrap inner | None \<Rightarrow> v)"
  by pat_completeness auto

termination
  by (relation "measure size") (auto dest: size_as_overwrite)

declare unwrap.simps [simp del]

definition update_lacks_id :: "msg_update \<Rightarrow> bool" where
  "update_lacks_id u = (case u of UMsg m \<Rightarrow> msg_id m = [] | URemove _ \<Rightarrow> False)"

definition ids_present :: "gval \<Rightarrow> bool" where
  "ids_present v =
     (case unwrap v of
        VMsgs ms \<Rightarrow> \<not> list_ex (\<lambda>m. msg_id m = []) ms
      | VUpdates us \<Rightarrow> \<not> list_ex update_lacks_id us
      | _ \<Rightarrow> True)"

text \<open>A stamped message is the message itself, but for an ID it did not have.\<close>

definition msg_stamped :: "message \<Rightarrow> message \<Rightarrow> bool" where
  "msg_stamped m m' \<longleftrightarrow> (if msg_id m = [] then m'\<lparr>msg_id := []\<rparr> = m else m' = m)"

definition update_stamped :: "msg_update \<Rightarrow> msg_update \<Rightarrow> bool" where
  "update_stamped u u' \<longleftrightarrow> (case (u, u') of (UMsg m, UMsg m') \<Rightarrow> msg_stamped m m' | _ \<Rightarrow> u = u')"

definition stamped :: "gval \<Rightarrow> gval \<Rightarrow> bool" where
  "stamped v w \<longleftrightarrow>
     (case (unwrap v, unwrap w) of
        (VMsgs ms, VMsgs ms') \<Rightarrow> list_all2 msg_stamped ms ms'
      | (VUpdates us, VUpdates us') \<Rightarrow> list_all2 update_stamped us us'
      | (a, b) \<Rightarrow> a = b)"

lemma unwrap_plain: "as_overwrite v = None \<Longrightarrow> unwrap v = v"
  by (simp add: unwrap.simps [of v])

lemma unwrap_wrapped: "as_overwrite v = Some w \<Longrightarrow> unwrap v = unwrap w"
  by (simp add: unwrap.simps [of v])

lemma unwrap_new_overwrite [simp]: "unwrap (new_overwrite v) = unwrap v"
  by (rule unwrap_wrapped) simp

lemma stamp_messages_ids:
  assumes "\<forall>i. ids i \<noteq> []"
  shows "\<not> list_ex (\<lambda>m. msg_id m = []) (fst (stamp_messages ids ms n)) \<and>
    list_all2 msg_stamped ms (fst (stamp_messages ids ms n))"
  using assms by (induction ms arbitrary: n) (auto simp: Let_def split_beta msg_stamped_def)

lemma stamp_updates_ids:
  assumes "\<forall>i. ids i \<noteq> []"
  shows "\<not> list_ex update_lacks_id (fst (stamp_updates ids us n)) \<and>
    list_all2 update_stamped us (fst (stamp_updates ids us n))"
  using assms
  by (induction us arbitrary: n)
    (auto simp: Let_def split_beta update_stamped_def msg_stamped_def update_lacks_id_def split: msg_update.splits)

lemma with_message_ids_result:
  assumes "\<forall>i. ids i \<noteq> []"
  shows "case with_message_ids ids v n of
      (None, n') \<Rightarrow> ids_present v \<and> n' = n
    | (Some w, n') \<Rightarrow> ids_present w \<and> \<not> ids_present v \<and> stamped v w"
  using assms
proof (induction ids v n rule: with_message_ids.induct)
  case (1 ids v n)
  show ?case
  proof (cases "as_overwrite v")
    case None
    have other: "with_message_ids ids v n = (None, n) \<and> ids_present v"
      if "\<forall>ms. v \<noteq> VMsgs ms" "\<forall>us. v \<noteq> VUpdates us"
      unfolding with_message_ids.simps [of ids v n] ids_present_def unwrap_plain [OF None] None
      using that by (cases v) simp_all
    show ?thesis
    proof (cases v)
      case (VMsgs ms)
      with stamp_messages_ids [OF 1(2), of ms n] show ?thesis
        by (auto simp: with_message_ids.simps [of ids "VMsgs ms" n] ids_present_def stamped_def unwrap_plain split: prod.split)
    next
      case (VUpdates us)
      with stamp_updates_ids [OF 1(2), of us n] show ?thesis
        by (auto simp: with_message_ids.simps [of ids "VUpdates us" n] ids_present_def stamped_def unwrap_plain
            update_lacks_id_def [abs_def] split: prod.split)
    qed (use other in simp_all)
  next
    case (Some inner)
    with 1 show ?thesis
      by (auto simp: with_message_ids.simps [of ids v n] ids_present_def stamped_def unwrap_wrapped [OF Some]
          split: prod.splits option.splits)
  qed
qed

lemma with_message_ids_None: "\<forall>i. ids i \<noteq> [] \<Longrightarrow> ids_present v \<Longrightarrow> with_message_ids ids v n = (None, n)"
  using with_message_ids_result [of ids v n] by (auto split: prod.splits option.splits)

lemma stamped_refl: "stamped v v"
  by (auto simp: stamped_def msg_stamped_def update_stamped_def list_all2_refl split: gval.split msg_update.split)

lemma ensure_fold:
  assumes "\<forall>i. ids i \<noteq> []" and "distinct ks"
  shows "map_of (fst (fold (stamp_entry protos ids upd) ks (out, n))) k =
    (if k \<in> set ks \<and> is_messages_delta_channel protos k \<and> \<not> ids_present (mgetd upd k VNil)
     then map_of (fst (fold (stamp_entry protos ids upd) ks (out, n))) k else map_of out k) \<and>
    (k \<in> set ks \<and> is_messages_delta_channel protos k \<and> \<not> ids_present (mgetd upd k VNil) \<longrightarrow>
      (\<exists>w. map_of (fst (fold (stamp_entry protos ids upd) ks (out, n))) k = Some w \<and>
           ids_present w \<and> stamped (mgetd upd k VNil) w))"
  using assms(2)
proof (induction ks arbitrary: out n)
  case (Cons j ks)
  obtain out1 n1 where step: "stamp_entry protos ids upd j (out, n) = (out1, n1)" by fastforce
  have kept: "map_of out1 k = map_of out k"
    if "\<not> (k = j \<and> is_messages_delta_channel protos j \<and> \<not> ids_present (mgetd upd j VNil))"
    using that step with_message_ids_None [OF assms(1), of "mgetd upd j VNil" n]
    by (auto simp: stamp_entry_def split: if_splits prod.splits option.splits)
  have new: "\<exists>w. map_of out1 j = Some w \<and> ids_present w \<and> stamped (mgetd upd j VNil) w"
    if "is_messages_delta_channel protos j" "\<not> ids_present (mgetd upd j VNil)"
    using that step with_message_ids_result [OF assms(1), of "mgetd upd j VNil" n]
    by (auto simp: stamp_entry_def split: if_splits prod.splits option.splits)
  show ?case
    using Cons.IH [of out1 n1] Cons.prems kept new by (cases "k = j") (auto simp: step)
qed simp

lemma ensure_idle:
  "\<forall>i. ids i \<noteq> [] \<Longrightarrow> \<forall>k \<in> set ks. is_messages_delta_channel protos k \<longrightarrow> ids_present (mgetd upd k VNil) \<Longrightarrow>
   fold (stamp_entry protos ids upd) ks (out, n) = (out, n)"
  by (induction ks) (simp_all add: stamp_entry_def with_message_ids_None)

text \<open>
  Every message that goes to a messages delta channel has its ID before it is recorded. The
  stamped update has the entries of the original; an entry for such a channel holds the same
  messages, each with an ID, and those that had one keep it; every other entry, and every entry
  without a missing ID, is the original value. Stamping again changes nothing and uses no ID.
\<close>

theorem messages_are_stamped_once:
  assumes "\<forall>i. ids i \<noteq> []"
  shows "(case map_of upd k of
        None \<Rightarrow> map_of (fst (ensure_message_ids protos ids upd n)) k = None
      | Some v \<Rightarrow> \<exists>w. map_of (fst (ensure_message_ids protos ids upd n)) k = Some w \<and> stamped v w \<and>
          (if is_messages_delta_channel protos k then ids_present w \<and> (ids_present v \<longrightarrow> w = v) else w = v))
    \<and> ensure_message_ids protos ids (fst (ensure_message_ids protos ids upd n)) i =
        (fst (ensure_message_ids protos ids upd n), i)"
proof
  let ?r = "fst (ensure_message_ids protos ids upd n)"
  have entry: "case map_of upd k of None \<Rightarrow> map_of ?r k = None
      | Some v \<Rightarrow> \<exists>w. map_of ?r k = Some w \<and> stamped v w \<and>
          (if is_messages_delta_channel protos k then ids_present w \<and> (ids_present v \<longrightarrow> w = v) else w = v)" for k
    using ensure_fold [OF assms distinct_mkeys [of upd], of protos upd upd n k]
    by (auto simp: ensure_message_ids_def mgetd_def in_mkeys_iff stamped_refl simp del: set_mkeys split: option.splits)
  then show "case map_of upd k of None \<Rightarrow> map_of ?r k = None
      | Some v \<Rightarrow> \<exists>w. map_of ?r k = Some w \<and> stamped v w \<and>
          (if is_messages_delta_channel protos k then ids_present w \<and> (ids_present v \<longrightarrow> w = v) else w = v)" .
  have "ids_present (mgetd ?r j VNil)" if "j \<in> set (mkeys ?r)" "is_messages_delta_channel protos j" for j
    using entry [of j] that by (auto simp: mgetd_def in_mkeys_iff simp del: set_mkeys split: option.splits)
  then show "ensure_message_ids protos ids ?r i = (?r, i)"
    unfolding ensure_message_ids_def [of protos ids ?r] by (intro ensure_idle [OF assms]) blast
qed

lemma messages_are_stamped_once_witness:
  "\<exists>w. map_of (fst (ensure_message_ids [(''messages'', CDelta (new_messages_delta_channel None 10))]
      (\<lambda>i. show_nat i) [(''messages'', VMsgs [\<lparr>msg_role = ''user'', msg_content = ''hi'', msg_name = [], msg_id = [],
        msg_tool_call_id = [], msg_tool_calls = [], msg_invalid_calls = [], msg_extra = []\<rparr>])] 7)) ''messages'' = Some w \<and> ids_present w"
proof -
  have ids: "\<forall>i. show_nat i \<noteq> []" by (simp add: show_nat_def show_base.simps [of 10])
  have "is_messages_delta_channel [(''messages'', CDelta (new_messages_delta_channel None 10))] ''messages''" by code_simp
  with messages_are_stamped_once [
      where upd = "[(''messages'', VMsgs [\<lparr>msg_role = ''user'', msg_content = ''hi'', msg_name = [], msg_id = [],
        msg_tool_call_id = [], msg_tool_calls = [], msg_invalid_calls = [], msg_extra = []\<rparr>])]" and k = "''messages''" and n = 7
      and protos = "[(''messages'', CDelta (new_messages_delta_channel None 10))]",
      OF ids, THEN conjunct1]
  show ?thesis by auto
qed

end
