(* ===== verification/Executor.thy ===== *)
theory Executor
  imports Resume GraphBuilder MessageIds
begin

section \<open>The run loop's parts (langgraph/graph/graph.go)\<close>

text \<open>
  What the executor does between and around the nodes: routing, join barriers, breakpoints, the
  counters of the delta channels, and saving checkpoints and the tasks' writes. \<open>Superstep\<close> composes
  them into the run loop. Durability is sync here (\<open>CheckpointSink\<close> proves that async leaves the same
  in the saver); the saver is any pair of put operations. The clock and the random bits of the
  checkpoint IDs, the JSON text of a Send argument and the points at which a caller cancels or asks
  to drain are parameters of a run, and so are the positions of its
  subgraphs, the times at which the task cache is read and written, and the default cache key (a hash
  of the JSON text of the input). Subgraphs and event emission are left out.
\<close>

subsection \<open>Tasks and routing\<close>

definition active_tasks :: "gtask list \<Rightarrow> gtask list" where
  "active_tasks tasks = filter (\<lambda>t. tk_node t \<noteq> end_node) tasks"

definition stamp_paths :: "gtask list \<Rightarrow> gtask list" where
  "stamp_paths active =
     map (\<lambda>(i, t). if tk_path t = [] then t\<lparr>tk_path := dispatch_path (int i)\<rparr> else t) (enumerate 0 active)"

definition planned_tasks :: "gtask list \<Rightarrow> planned_task list" where
  "planned_tasks tasks =
     map (\<lambda>t. \<lparr>pt_id = [], pt_node = tk_node t, pt_arg = tk_arg t\<rparr>) (active_tasks tasks)"

text \<open>\<open>next\<close> and the non-END tasks are aligned by index.\<close>

definition stamp_dispatch_ids ::
  "(gstate option \<Rightarrow> string) \<Rightarrow> planned_task list \<Rightarrow> gtask list \<Rightarrow> string \<Rightarrow> int \<Rightarrow> planned_task list" where
  "stamp_dispatch_ids dump nexts tasks planning step =
     map2 (\<lambda>pt t. pt\<lparr>pt_id := planned_id dump t planning step\<rparr>) nexts (active_tasks tasks)"

definition resolve_destinations :: "gval list \<Rightarrow> goerr + gtask list" where
  "resolve_destinations raw = rbind (goto_sends raw) (\<lambda>ss. Inr (map (\<lambda>s. plain_task (fst s) (snd s)) ss))"

definition static_next :: "compiled_graph \<Rightarrow> string \<Rightarrow> gstate \<Rightarrow> goerr + gtask list" where
  "static_next cg node state =
     (case map_of (cg_conditional cg) node of
        Some r \<Rightarrow> rbind (r state) resolve_destinations
      | None \<Rightarrow>
          (if mgetd (cg_edges cg) node [] \<noteq> [] then resolve_destinations (map VStr (mgetd (cg_edges cg) node []))
           else if mgetd (cg_joins_by_parent cg) node [] \<noteq> [] then Inr []
           else Inl (EText (''graph: node '' @ go_quote node
                  @ '' has no outgoing edge (add AddEdge/AddConditionalEdges, or return a *types.Command with Goto)''))))"

definition entry_tasks :: "compiled_graph \<Rightarrow> gstate \<Rightarrow> goerr + gtask list" where
  "entry_tasks cg state =
     (case cg_entry_router cg of
        None \<Rightarrow> Inr [plain_task (cg_entry cg) None]
      | Some r \<Rightarrow> rbind (r state) resolve_destinations)"

text \<open>The successors of one completed task: its own routing, or the graph's.\<close>

definition task_successors :: "compiled_graph \<Rightarrow> gstate \<Rightarrow> gtask \<times> command option \<Rightarrow> goerr + gtask list" where
  "task_successors cg state tc =
     (case tc of (t, cmd) \<Rightarrow>
        case cmd of
          Some c \<Rightarrow> (if cmd_goto c \<noteq> [] then resolve_destinations (cmd_goto c) else static_next cg (tk_node t) state)
        | None \<Rightarrow> static_next cg (tk_node t) state)"

definition successors :: "compiled_graph \<Rightarrow> gstate \<Rightarrow> (gtask \<times> command option) list \<Rightarrow> goerr + gtask list" where
  "successors cg state tcs = rbind (rmap (task_successors cg state) tcs) (\<lambda>tss. Inr (concat tss))"

subsection \<open>Breakpoints\<close>

definition find_interrupt_before :: "compiled_graph \<Rightarrow> gtask list \<Rightarrow> string \<Rightarrow> string" where
  "find_interrupt_before cg active skip =
     (case filter (\<lambda>t. tk_node t \<noteq> skip \<and> tk_node t \<in> set (cg_before cg)) active of [] \<Rightarrow> [] | t # _ \<Rightarrow> tk_node t)"

definition find_interrupt_after :: "compiled_graph \<Rightarrow> gtask list \<Rightarrow> string" where
  "find_interrupt_after cg active =
     (case filter (\<lambda>t. tk_node t \<in> set (cg_after cg)) active of [] \<Rightarrow> [] | t # _ \<Rightarrow> tk_node t)"

definition join_checkpoint_ns :: "string \<Rightarrow> string \<Rightarrow> string" where
  "join_checkpoint_ns parent name = (if parent = [] then name else parent @ ''/'' @ name)"

definition task_checkpoint_ns :: "string \<Rightarrow> string \<Rightarrow> string \<Rightarrow> string" where
  "task_checkpoint_ns parent_ns name tid =
     (if tid = [] then join_checkpoint_ns parent_ns name
      else join_checkpoint_ns parent_ns name @ '':'' @ tid)"

definition boundary_interrupt :: "string \<Rightarrow> string \<Rightarrow> string \<Rightarrow> string \<Rightarrow> gintr" where
  "boundary_interrupt what prefix ns node =
     Interrupt (VStr (what @ '': '' @ node)) (prefix @ node) (task_checkpoint_ns ns node []) None"

subsection \<open>Join barriers\<close>

text \<open>What became of a task of the superstep.\<close>

record task_result =
  oc_update :: gstate
  oc_cmd :: "command option"
  oc_interrupts :: "gintr list"
  oc_consumed :: "gval list"
  oc_err :: "goerr option"
  oc_node_err :: "goerr option"

definition completed :: "task_result \<Rightarrow> bool" where
  "completed oc \<longleftrightarrow> oc_err oc = None \<and> oc_interrupts oc = []"

text \<open>A completed parent writes its own name to every barrier it feeds.\<close>

definition join_arrivals :: "compiled_graph \<Rightarrow> gtask \<Rightarrow> task_result \<Rightarrow> task_result" where
  "join_arrivals cg t oc =
     (if mgetd (cg_joins_by_parent cg) (tk_node t) [] = [] \<or> \<not> completed oc then oc
      else oc\<lparr>oc_update := fold (\<lambda>key m. mput key (VStr (tk_node t)) m)
                             (mgetd (cg_joins_by_parent cg) (tk_node t) []) (oc_update oc)\<rparr>)"

definition seen_version :: "run_state \<Rightarrow> string \<Rightarrow> string \<Rightarrow> int" where
  "seen_version rs node key = mgetd (mgetd (rs_seen rs) node []) key 0"

text \<open>A join child that ran because of its barrier resets it.\<close>

definition consume_join :: "gtask list \<Rightarrow> join_meta \<Rightarrow> run_state \<Rightarrow> run_state" where
  "consume_join active jm rs =
     (if jm_child jm \<notin> tk_node ` set active then rs
      else if seen_version rs (jm_child jm) (jm_key jm) < mgetd (rs_versions rs) (jm_key jm) 0 then rs
      else case map_of (rs_channels rs) (jm_key jm) of
             Some ch \<Rightarrow> rs\<lparr>rs_channels := mput (jm_key jm) (chan_consume ch) (rs_channels rs)\<rparr>
           | None \<Rightarrow> rs)"

definition consume_joins :: "compiled_graph \<Rightarrow> gtask list \<Rightarrow> run_state \<Rightarrow> run_state" where
  "consume_joins cg active rs = fold (consume_join active) (cg_joins cg) rs"

text \<open>A barrier that is full and not yet seen by its child at this version dispatches it.\<close>

definition trigger_join :: "join_meta \<Rightarrow> run_state \<times> gtask list \<Rightarrow> run_state \<times> gtask list" where
  "trigger_join jm acc =
     (case acc of (rs, tasks) \<Rightarrow>
        case map_of (rs_channels rs) (jm_key jm) of
          None \<Rightarrow> (rs, tasks)
        | Some ch \<Rightarrow>
            (if \<not> chan_is_available ch then (rs, tasks)
             else if seen_version rs (jm_child jm) (jm_key jm) \<ge> mgetd (rs_versions rs) (jm_key jm) 0 then (rs, tasks)
             else (rs\<lparr>rs_seen := mput (jm_child jm)
                         (mput (jm_key jm) (mgetd (rs_versions rs) (jm_key jm) 0) (mgetd (rs_seen rs) (jm_child jm) []))
                         (rs_seen rs)\<rparr>,
                   tasks @ [plain_task (jm_child jm) None])))"

definition trigger_joins :: "compiled_graph \<Rightarrow> run_state \<times> gtask list \<Rightarrow> run_state \<times> gtask list" where
  "trigger_joins cg acc = fold trigger_join (cg_joins cg) acc"

subsection \<open>Delta channels in checkpoints\<close>

definition advance_delta_counters :: "chan gomap \<Rightarrow> (int \<times> int) gomap \<Rightarrow> string list \<Rightarrow> (int \<times> int) gomap" where
  "advance_delta_counters protos prev updated =
     mbuild (mkeys protos)
       (\<lambda>name. case map_of protos name of
          Some p \<Rightarrow>
            (if is_delta p then
               (case mgetd prev name (0, 0) of (u, s) \<Rightarrow> Some (if name \<in> set updated then u + 1 else u, s + 1))
             else None)
        | None \<Rightarrow> None)"

definition delta_batch :: "compiled_graph \<Rightarrow> cp_write list \<Rightarrow> bool" where
  "delta_batch cg ws \<longleftrightarrow>
     list_ex (\<lambda>w. case map_of (cg_protos cg) (w_channel w) of Some p \<Rightarrow> is_delta p | None \<Rightarrow> False) ws"

definition delta_input :: "compiled_graph \<Rightarrow> gstate \<Rightarrow> cp_write list" where
  "delta_input cg input =
     map (\<lambda>k. channel_write k (mgetd input k VNil))
       (filter (\<lambda>k. case map_of (cg_protos cg) k of Some p \<Rightarrow> is_delta p | None \<Rightarrow> False) (mkeys input))"

text \<open>The channels that snapshot into a checkpoint of this source.\<close>

definition snapshot_keys :: "run_state \<Rightarrow> (int \<times> int) gomap \<Rightarrow> string \<Rightarrow> bool \<Rightarrow> string list \<Rightarrow> string list" where
  "snapshot_keys rs counters source pause suppress =
     filter (\<lambda>k. \<not> (pause \<and> k \<in> set suppress))
       (remdups (delta_channels_to_snapshot (rs_channels rs) counters @ rs_delta_overwrite rs
          @ (if source = ''update'' then filter (delta_available rs) (mkeys (rs_channels rs)) else [])))"

subsection \<open>A run and its checkpoints\<close>

text \<open>The fixed parameters of a run.\<close>

record 's run_env =
  re_ops :: "'s saver_ops"
  re_checkpointing :: bool
  re_thread :: string
  re_ns :: string
  re_limit :: int
  re_clock :: "nat \<Rightarrow> int \<times> nat"
  re_msg_ids :: "nat \<Rightarrow> string"
  re_dump :: "gstate option \<Rightarrow> string"
  re_drain :: "int \<Rightarrow> string option"
  re_cancelled :: "gtask \<Rightarrow> nat \<Rightarrow> bool"
  re_parents :: "string gomap option"
  re_cache :: bool
  re_default_key :: "gstate \<Rightarrow> goerr + cache_key"
  re_lookup_time :: "int \<Rightarrow> int"
  re_store_time :: "int \<Rightarrow> int"

text \<open>
  What the run loop carries: the run state, the saver behind its sync sink, the current checkpoint
  position, the tasks to dispatch with the queues and the breakpoint to skip of a resume, the
  supersteps counted, how many checkpoint and message IDs were minted, and the task cache.
\<close>

record 's exec =
  ex_rs :: run_state
  ex_saver :: "sync_sink \<times> 's"
  ex_cfg :: config
  ex_tasks :: "gtask list"
  ex_queues :: "gval list gomap"
  ex_skip :: string
  ex_steps :: int
  ex_minted :: nat
  ex_msgs :: nat
  ex_cache :: write_cache

definition mint_id :: "'s run_env \<Rightarrow> nat \<Rightarrow> string" where
  "mint_id env n = (case re_clock env n of (ms, rnd) \<Rightarrow> new_id ms (int n + 1) rnd)"

text \<open>One request to the sink; the state keeps what the sink and the saver made of it.\<close>

definition sink_call :: "'s run_env \<Rightarrow> sink_request \<Rightarrow> 's exec \<Rightarrow> 's exec \<times> (goerr + unit)" where
  "sink_call env req ex =
     (case sync_request (re_ops env) req (ex_saver ex) of (st, r) \<Rightarrow> (ex\<lparr>ex_saver := st\<rparr>, r))"

definition put_writes :: "'s run_env \<Rightarrow> cp_write list \<Rightarrow> string \<Rightarrow> string \<Rightarrow> bool \<Rightarrow> 's exec \<Rightarrow> 's exec \<times> (goerr + unit)" where
  "put_writes env ws task path delta ex = sink_call env (ReqPutWrites (ex_cfg ex) ws task path delta) ex"

definition put_pause_writes :: "'s run_env \<Rightarrow> cp_write list \<Rightarrow> string \<Rightarrow> string \<Rightarrow> bool \<Rightarrow> 's exec \<Rightarrow> 's exec \<times> (goerr + unit)" where
  "put_pause_writes env ws task path delta ex =
     (if ws = [] then (ex, Inr ()) else put_writes env ws task path delta ex)"

text \<open>
  \<open>saveCheckpoint\<close>: the counters advance, channels that snapshot start over, planned tasks without
  an identity get one bound to the new checkpoint, and the position moves to the checkpoint put.
\<close>

definition checkpoint_of :: "'s run_env \<Rightarrow> string list \<Rightarrow> string \<Rightarrow> int \<Rightarrow> planned_task list \<Rightarrow> 's exec \<Rightarrow> checkpoint" where
  "checkpoint_of env snaps cid step nexts ex =
     \<lparr>cp_v = 1, cp_id = cid, cp_ts = fst (re_clock env (ex_minted ex)),
      cp_values = checkpoint_values snaps (ex_rs ex), cp_versions = rs_versions (ex_rs ex),
      cp_seen = rs_seen (ex_rs ex),
      cp_next = map (\<lambda>pt. if pt_id pt = []
                          then pt\<lparr>pt_id := task_id cid (step + 1) (pt_node pt) (re_dump env (pt_arg pt))\<rparr>
                          else pt) nexts\<rparr>"

definition save_checkpoint ::
  "'s run_env \<Rightarrow> bool \<Rightarrow> string list \<Rightarrow> string \<Rightarrow> int \<Rightarrow> planned_task list \<Rightarrow> 's exec \<Rightarrow> 's exec \<times> (goerr + unit)" where
  "save_checkpoint env pause suppress source step nexts ex =
     (let rs = ex_rs ex;
          advanced = advance_delta_counters (rs_protos rs) (rs_delta_counters rs) (rs_updated rs);
          snaps = snapshot_keys rs advanced source pause suppress;
          counters = reset_counters snaps advanced;
          cid = mint_id env (ex_minted ex);
          cp = checkpoint_of env snaps cid step nexts ex;
          md = \<lparr>md_source = source, md_step = step, md_run_id = [], md_parents = re_parents env,
                md_counters = non_zero_counters counters\<rparr>;
          cfg = \<lparr>cfg_thread = re_thread env, cfg_ns = re_ns env, cfg_id = cfg_id (ex_cfg ex)\<rparr>;
          ex1 = ex\<lparr>ex_rs := rs\<lparr>rs_delta_counters := counters, rs_delta_overwrite := []\<rparr>,
                   ex_minted := Suc (ex_minted ex)\<rparr>
      in case sink_call env (ReqPut \<lparr>pr_cfg = cfg, pr_cp = cp, pr_md = md, pr_versions = [],
                                     pr_repair = delta_repair_snapshots suppress rs\<rparr>) ex1 of
           (ex2, Inl e) \<Rightarrow> (ex2, Inl (EWrap (''graph: saving checkpoint for thread '' @ go_quote (re_thread env)) e))
         | (ex2, Inr _) \<Rightarrow> (ex2\<lparr>ex_cfg := cfg\<lparr>cfg_id := cid\<rparr>\<rparr>, Inr ()))"

text \<open>A loop that puts one batch after another and stops at the first failure.\<close>

fun put_all :: "('a \<Rightarrow> 's exec \<Rightarrow> 's exec \<times> (goerr + unit)) \<Rightarrow> 'a list \<Rightarrow> 's exec \<Rightarrow> 's exec \<times> (goerr + unit)" where
  "put_all f [] ex = (ex, Inr ())"
| "put_all f (x # xs) ex = (case f x ex of (ex', Inl e) \<Rightarrow> (ex', Inl e) | (ex', Inr _) \<Rightarrow> put_all f xs ex')"

definition persisting_error :: "string \<Rightarrow> 's run_env \<Rightarrow> goerr \<Rightarrow> goerr" where
  "persisting_error what env e = EWrap (''graph: persisting '' @ what @ '' for thread '' @ go_quote (re_thread env)) e"

definition persist_delta_input ::
  "compiled_graph \<Rightarrow> 's run_env \<Rightarrow> gstate \<Rightarrow> 's exec \<Rightarrow> 's exec \<times> (goerr + unit)" where
  "persist_delta_input cg env input ex =
     (if delta_input cg input = [] then (ex, Inr ())
      else put_writes env (delta_input cg input) null_task_id [] True ex)"

subsection \<open>Running the tasks of a superstep\<close>

definition node_input :: "gstate \<Rightarrow> gtask \<Rightarrow> gstate" where
  "node_input state t = (case tk_arg t of Some arg \<Rightarrow> arg | None \<Rightarrow> state)"

definition handler_of :: "compiled_graph \<Rightarrow> string \<Rightarrow> error_handler option" where
  "handler_of cg node = (case map_of (cg_policies cg) node of Some p \<Rightarrow> np_handler p | None \<Rightarrow> None)"

definition retry_of :: "compiled_graph \<Rightarrow> string \<Rightarrow> retry_policy option" where
  "retry_of cg node =
     (case map_of (cg_policies cg) node of
        Some p \<Rightarrow> (case np_retry p of Some r \<Rightarrow> Some (with_defaults r) | None \<Rightarrow> cg_default_retry cg)
      | None \<Rightarrow> cg_default_retry cg)"

definition failed_result :: "goerr \<Rightarrow> goerr option \<Rightarrow> task_result" where
  "failed_result e ne =
     \<lparr>oc_update = [], oc_cmd = None, oc_interrupts = [], oc_consumed = [], oc_err = Some e, oc_node_err = ne\<rparr>"

definition normal_result :: "goerr + gstate \<times> command option \<Rightarrow> goerr option \<Rightarrow> task_result" where
  "normal_result r ne =
     (case r of
        Inl e \<Rightarrow> failed_result e ne
      | Inr (upd, cmd) \<Rightarrow>
          \<lparr>oc_update = upd, oc_cmd = cmd, oc_interrupts = [], oc_consumed = [], oc_err = None, oc_node_err = ne\<rparr>)"

text \<open>The handler of a node error; the caller has checked that there is one.\<close>

definition run_handler :: "error_handler \<Rightarrow> gstate \<Rightarrow> string \<Rightarrow> goerr \<Rightarrow> goerr \<Rightarrow> task_result" where
  "run_handler h state node ne original =
     (case h state ne of (r, herr) \<Rightarrow> normal_result (normalize_error_handler_result r herr node original) (Some ne))"

definition task_attempts :: "compiled_graph \<Rightarrow> 's run_env \<Rightarrow> gstate \<Rightarrow> gval list gomap \<Rightarrow> string \<Rightarrow> gtask \<Rightarrow> task_outcome" where
  "task_attempts cg env state queues tid t =
     run_task (retry_of cg (tk_node t)) (handler_of cg (tk_node t) \<noteq> None) (tk_node t)
       (run_node (map_of (cg_nodes cg)) (tk_node t) (task_checkpoint_ns (re_ns env) (tk_node t) tid)
          (node_input state t) (mgetd queues (tk_id t) []))
       (re_cancelled env t)"

text \<open>
  One task of the superstep. A node error is persisted before its handler runs. A node without a
  handler whose own error wraps a \<open>NodeError\<close> would call a nil handler: the code panics there, the
  model reports the error.
\<close>

definition node_error_of :: "goerr \<Rightarrow> (string \<times> int \<times> goerr) option" where
  "node_error_of e =
     (case filter (\<lambda>x. case x of ENodeError _ _ _ \<Rightarrow> True | _ \<Rightarrow> False) (err_chain e) of
        ENodeError n a inner # _ \<Rightarrow> Some (n, a, inner) | _ \<Rightarrow> None)"

definition run_active ::
  "compiled_graph \<Rightarrow> 's run_env \<Rightarrow> gstate \<Rightarrow> gtask \<Rightarrow> 's exec \<Rightarrow> 's exec \<times> task_result" where
  "run_active cg env state t ex =
     (let tid = planned_id (re_dump env) t (cfg_id (ex_cfg ex)) (rs_step (ex_rs ex) + 1)
      in if tk_run_handler t then
           (ex, let ne = ENodeError (tk_node t) 0 (EText (tk_err_msg t))
                in case handler_of cg (tk_node t) of
                     Some h \<Rightarrow> run_handler h state (tk_node t) ne (EText (tk_err_msg t))
                   | None \<Rightarrow> failed_result (EText (''graph: task '' @ go_quote (tk_node t)
                       @ '' carries a persisted error write but the compiled graph has no error handler for the node'')) (Some ne))
         else
           (case task_attempts cg env state (ex_queues ex) tid t of
              TDone upd cmd \<Rightarrow>
                (ex, \<lparr>oc_update = upd, oc_cmd = cmd, oc_interrupts = [], oc_consumed = [], oc_err = None, oc_node_err = None\<rparr>)
            | TInterrupted intrs consumed \<Rightarrow>
                (ex, \<lparr>oc_update = [], oc_cmd = None, oc_interrupts = intrs, oc_consumed = consumed, oc_err = None, oc_node_err = None\<rparr>)
            | TFailed e \<Rightarrow>
                (case (node_error_of e, handler_of cg (tk_node t)) of
                   (Some (n, a, inner), Some h) \<Rightarrow>
                     (let ne = ENodeError n a inner;
                          (ex', r) = (if re_checkpointing env
                                      then put_writes env (error_writes inner) tid (tk_path t) False ex else (ex, Inr ()))
                      in case r of
                           Inl we \<Rightarrow> (ex', failed_result (persisting_error ''error write'' env we) (Some ne))
                         | Inr _ \<Rightarrow> (ex', run_handler h state n ne inner))
                 | (Some (n, a, inner), None) \<Rightarrow>
                     (ex, failed_result (EText ''runtime error: invalid memory address or nil pointer dereference'')
                            (Some (ENodeError n a inner)))
                 | (None, _) \<Rightarrow> (ex, failed_result e None))))"

subsection \<open>The task cache\<close>

definition cache_writes_ns :: "string \<Rightarrow> string" where
  "cache_writes_ns node = ''writes/'' @ node"

definition cache_of :: "compiled_graph \<Rightarrow> 's run_env \<Rightarrow> string \<Rightarrow> cache_policy option" where
  "cache_of cg env node =
     (if re_cache env then Option.bind (map_of (cg_policies cg) node) np_cache else None)"

text \<open>What the lookup pass decides for a task; a miss remembers where its writes are stored.\<close>

datatype cache_plan =
    CacheOff
  | CacheHit gstate "command option"
  | CacheFailed goerr
  | CacheMiss string string int

definition cache_place :: "cache_policy \<Rightarrow> string \<Rightarrow> cache_key \<Rightarrow> string \<times> string \<times> int" where
  "cache_place p node k =
     (if ck_namespace k \<noteq> [] then join_with ''/'' (ck_namespace k) else cache_writes_ns node,
      ck_key k,
      if ck_ttl k \<noteq> 0 then ck_ttl k else pol_ttl p)"

definition cache_lookup ::
  "compiled_graph \<Rightarrow> 's run_env \<Rightarrow> gstate \<Rightarrow> gtask \<Rightarrow> 's exec \<Rightarrow> 's exec \<times> cache_plan" where
  "cache_lookup cg env state t ex =
     (case cache_of cg env (tk_node t) of
        None \<Rightarrow> (ex, CacheOff)
      | Some p \<Rightarrow>
          (if mhas (ex_queues ex) (tk_id t) \<or> tk_run_handler t then (ex, CacheOff)
           else case (case pol_key_func p of None \<Rightarrow> re_default_key env | Some f \<Rightarrow> f) (node_input state t) of
                  Inl e \<Rightarrow> (ex, CacheFailed (EWrap (''graph: node '' @ go_quote (tk_node t) @ '' cache key'') e))
                | Inr k \<Rightarrow>
                    (case cache_place p (tk_node t) k of (ns, key, ttl) \<Rightarrow>
                       case cache_get (re_lookup_time env (ex_steps ex)) ns key (ex_cache ex) of
                         (c, Some ws) \<Rightarrow> (ex\<lparr>ex_cache := c\<rparr>, case outcome_from_cached_writes ws of (upd, cmd) \<Rightarrow> CacheHit upd cmd)
                       | (c, None) \<Rightarrow> (ex\<lparr>ex_cache := c\<rparr>, CacheMiss ns key ttl))))"

fun lookup_all ::
  "compiled_graph \<Rightarrow> 's run_env \<Rightarrow> gstate \<Rightarrow> gtask list \<Rightarrow> 's exec \<Rightarrow> 's exec \<times> cache_plan list" where
  "lookup_all cg env state [] ex = (ex, [])"
| "lookup_all cg env state (t # ts) ex =
     (case cache_lookup cg env state t ex of (ex1, plan) \<Rightarrow>
      case lookup_all cg env state ts ex1 of (ex2, plans) \<Rightarrow> (ex2, plan # plans))"

text \<open>Tasks the cache answered or failed are not executed.\<close>

fun run_all ::
  "compiled_graph \<Rightarrow> 's run_env \<Rightarrow> gstate \<Rightarrow> (gtask \<times> cache_plan) list \<Rightarrow> 's exec \<Rightarrow> 's exec \<times> task_result list" where
  "run_all cg env state [] ex = (ex, [])"
| "run_all cg env state ((t, plan) # ts) ex =
     (case (case plan of
              CacheHit upd cmd \<Rightarrow> (ex, normal_result (Inr (upd, cmd)) None)
            | CacheFailed e \<Rightarrow> (ex, failed_result e None)
            | _ \<Rightarrow> run_active cg env state t ex) of (ex1, oc) \<Rightarrow>
      case run_all cg env state ts ex1 of (ex2, ocs) \<Rightarrow> (ex2, oc # ocs))"

text \<open>The writes of a missed task that completed are stored, before IDs and joins are added to them.\<close>

definition cache_store ::
  "'s run_env \<Rightarrow> (gtask \<times> cache_plan) \<times> task_result \<Rightarrow> 's exec \<Rightarrow> 's exec \<times> (goerr + unit)" where
  "cache_store env x ex =
     (case x of ((t, plan), oc) \<Rightarrow>
        case plan of
          CacheMiss ns key ttl \<Rightarrow>
            (if \<not> completed oc then (ex, Inr ())
             else case completed_task_writes (oc_update oc) (oc_cmd oc) of
                    Inl e \<Rightarrow> (ex, Inl (EWrap (''graph: node '' @ go_quote (tk_node t) @ '' cache writes'') e))
                  | Inr ws \<Rightarrow>
                      (ex\<lparr>ex_cache := cache_set (re_store_time env (ex_steps ex)) ns key ws ttl (ex_cache ex)\<rparr>, Inr ()))
        | _ \<Rightarrow> (ex, Inr ()))"

fun stamp_outcomes :: "chan gomap \<Rightarrow> (nat \<Rightarrow> string) \<Rightarrow> task_result list \<Rightarrow> nat \<Rightarrow> task_result list \<times> nat" where
  "stamp_outcomes protos ids [] n = ([], n)"
| "stamp_outcomes protos ids (oc # ocs) n =
     (case ensure_message_ids protos ids (oc_update oc) n of (upd, n1) \<Rightarrow>
      case stamp_outcomes protos ids ocs n1 of (ocs', n2) \<Rightarrow> (oc\<lparr>oc_update := upd\<rparr> # ocs', n2))"

end
