(* ===== verification/Superstep.thy ===== *)
theory Superstep
  imports Executor
begin

section \<open>The run loop (langgraph/graph/graph.go, CompiledGraph.run)\<close>

text \<open>
  One superstep: breakpoints, draining, the recursion limit, running the tasks, then one of three
  ends: abort on an error, pause on an interrupt, or commit. A commit applies the writes of all
  tasks, resets the consumed joins, resolves the successors, fires the full barriers and saves.
  Every branch returns the state it leaves, and \<open>None\<close> when the loop goes on.
\<close>

datatype run_end =
    RunOk gstate "gintr list"
  | RunErr gstate goerr

text \<open>The identities of the superstep's tasks as its pause checkpoint plans them.\<close>

definition dispatched :: "'s run_env \<Rightarrow> gtask list \<Rightarrow> 's exec \<Rightarrow> planned_task list" where
  "dispatched env active ex =
     stamp_dispatch_ids (re_dump env) (planned_tasks active) active (cfg_id (ex_cfg ex)) (rs_step (ex_rs ex) + 1)"

subsection \<open>Breakpoint before\<close>

definition pause_before :: "'s run_env \<Rightarrow> gtask list \<Rightarrow> string \<Rightarrow> 's exec \<Rightarrow> 's exec \<times> run_end" where
  "pause_before env active node ex =
     (let i = boundary_interrupt ''interrupt_before'' interrupt_before_id (re_ns env) node;
          done = RunOk (snapshot (ex_rs ex)) [i]
      in if \<not> re_checkpointing env then (ex, done)
         else case save_checkpoint env True [] ''loop'' (rs_step (ex_rs ex)) (dispatched env active ex) ex of
                (ex1, Inl e) \<Rightarrow> (ex1, RunErr [] e)
              | (ex1, Inr _) \<Rightarrow>
                  (case put_pause_writes env (interrupt_writes [i]) node [] False ex1 of
                     (ex2, Inl e) \<Rightarrow> (ex2, RunErr [] e)
                   | (ex2, Inr _) \<Rightarrow> (ex2, done)))"

subsection \<open>Abort\<close>

definition inner_error :: "goerr \<Rightarrow> goerr" where
  "inner_error e = (case e of ENodeError _ _ inner \<Rightarrow> inner | _ \<Rightarrow> e)"

definition put_error_write ::
  "'s run_env \<Rightarrow> (planned_task \<times> gtask) \<times> task_result \<Rightarrow> 's exec \<Rightarrow> 's exec \<times> (goerr + unit)" where
  "put_error_write env x ex =
     (case x of ((pt, t), oc) \<Rightarrow>
        case oc_node_err oc of
          None \<Rightarrow> (ex, Inr ())
        | Some ne \<Rightarrow> put_pause_writes env (error_writes (inner_error ne)) (pt_id pt) (tk_path t) False ex)"

definition abort_superstep ::
  "'s run_env \<Rightarrow> gtask list \<Rightarrow> task_result list \<Rightarrow> goerr \<Rightarrow> 's exec \<Rightarrow> 's exec \<times> run_end" where
  "abort_superstep env active ocs err ex =
     (if \<not> (re_checkpointing env \<and> list_ex (\<lambda>oc. oc_node_err oc \<noteq> None) ocs) then (ex, RunErr [] err)
      else let nexts = dispatched env active ex
           in case save_checkpoint env True [] ''loop'' (rs_step (ex_rs ex)) nexts ex of
                (ex1, Inl e) \<Rightarrow> (ex1, RunErr [] e)
              | (ex1, Inr _) \<Rightarrow>
                  (case put_all (put_error_write env) (zip (zip nexts active) ocs) ex1 of
                     (ex2, Inl e) \<Rightarrow> (ex2, RunErr [] (persisting_error ''error write'' env e))
                   | (ex2, Inr _) \<Rightarrow> (ex2, RunErr [] err)))"

subsection \<open>Pause on an interrupt\<close>

definition sibling_writes :: "task_result \<Rightarrow> goerr + cp_write list" where
  "sibling_writes oc = (if oc_interrupts oc \<noteq> [] then Inr [] else completed_task_writes (oc_update oc) (oc_cmd oc))"

definition put_sibling ::
  "compiled_graph \<Rightarrow> 's run_env \<Rightarrow> (planned_task \<times> gtask) \<times> task_result \<times> cp_write list
    \<Rightarrow> 's exec \<Rightarrow> 's exec \<times> (goerr + unit)" where
  "put_sibling cg env x ex =
     (case x of ((pt, t), oc, ws) \<Rightarrow>
        case put_error_write env ((pt, t), oc) ex of
          (ex1, Inl e) \<Rightarrow> (ex1, Inl e)
        | (ex1, Inr _) \<Rightarrow>
            (if oc_interrupts oc \<noteq> [] then
               put_pause_writes env (interrupt_and_resume_writes (oc_interrupts oc) (oc_consumed oc))
                 (pt_id pt) (tk_path t) False ex1
             else case put_pause_writes env ws (pt_id pt) (tk_path t) (delta_batch cg ws) ex1 of
                    (ex2, Inl e) \<Rightarrow> (ex2, Inl (persisting_error ''completed task writes'' env e))
                  | (ex2, Inr _) \<Rightarrow> (ex2, Inr ())))"

definition pause_superstep ::
  "compiled_graph \<Rightarrow> 's run_env \<Rightarrow> gtask list \<Rightarrow> gstate \<Rightarrow> task_result list \<Rightarrow> 's exec \<Rightarrow> 's exec \<times> run_end" where
  "pause_superstep cg env active state ocs ex =
     (let done = RunOk state (concat (map oc_interrupts ocs))
      in if \<not> re_checkpointing env then (ex, done)
         else let nexts = dispatched env active ex
              in case rmap sibling_writes ocs of
                   Inl e \<Rightarrow> (ex, RunErr [] e)
                 | Inr wss \<Rightarrow>
                     (let suppress = remdups (map w_channel (filter (\<lambda>w. delta_batch cg [w]) (concat wss)))
                      in case save_checkpoint env True suppress ''loop'' (rs_step (ex_rs ex)) nexts ex of
                           (ex1, Inl e) \<Rightarrow> (ex1, RunErr [] e)
                         | (ex1, Inr _) \<Rightarrow>
                             (case put_all (put_sibling cg env) (zip (zip nexts active) (zip ocs wss)) ex1 of
                                (ex2, Inl e) \<Rightarrow> (ex2, RunErr [] e)
                              | (ex2, Inr _) \<Rightarrow> (ex2, done))))"

subsection \<open>Commit\<close>

text \<open>The writes of a committed task, anchored on the checkpoint that was just saved.\<close>

definition put_task_writes ::
  "compiled_graph \<Rightarrow> 's run_env \<Rightarrow> ('s run_env \<Rightarrow> cp_write list \<Rightarrow> string \<Rightarrow> string \<Rightarrow> bool \<Rightarrow> 's exec \<Rightarrow> 's exec \<times> (goerr + unit))
    \<Rightarrow> gtask \<times> task_result \<Rightarrow> 's exec \<Rightarrow> 's exec \<times> (goerr + unit)" where
  "put_task_writes cg env put x ex =
     (case x of (t, oc) \<Rightarrow>
        let tid = task_id (cfg_id (ex_cfg ex)) (rs_step (ex_rs ex) + 1) (tk_node t) (re_dump env (tk_arg t))
        in case completed_task_writes (oc_update oc) (oc_cmd oc) of
             Inl e \<Rightarrow> (ex, Inl (persisting_error ''task writes'' env e))
           | Inr ws \<Rightarrow>
               (if ws = [] then (ex, Inr ())
                else case put env ws tid (tk_path t) (delta_batch cg ws) ex of
                       (ex1, Inl e) \<Rightarrow> (ex1, Inl (persisting_error ''task writes'' env e))
                     | (ex1, Inr _) \<Rightarrow> (ex1, Inr ())))"

definition pause_after ::
  "compiled_graph \<Rightarrow> 's run_env \<Rightarrow> (gtask \<times> task_result) list \<Rightarrow> gtask list \<Rightarrow> gstate \<Rightarrow> string \<Rightarrow> 's exec \<Rightarrow> 's exec \<times> run_end" where
  "pause_after cg env batch nexts merged node ex =
     (let i = boundary_interrupt ''interrupt_after'' interrupt_after_id (re_ns env) node;
          done = RunOk merged [i]
      in if \<not> re_checkpointing env then (ex, done)
         else case save_checkpoint env True [] ''loop'' (rs_step (ex_rs ex)) (dispatched env nexts ex) ex of
                (ex1, Inl e) \<Rightarrow> (ex1, RunErr [] e)
              | (ex1, Inr _) \<Rightarrow>
                  (case put_pause_writes env (interrupt_writes [i]) node [] False ex1 of
                     (ex2, Inl e) \<Rightarrow> (ex2, RunErr [] e)
                   | (ex2, Inr _) \<Rightarrow>
                       (case put_all (put_task_writes cg env put_pause_writes) batch ex2 of
                          (ex3, Inl e) \<Rightarrow> (ex3, RunErr [] e)
                        | (ex3, Inr _) \<Rightarrow> (ex3, done))))"

definition save_committed ::
  "compiled_graph \<Rightarrow> 's run_env \<Rightarrow> (gtask \<times> task_result) list \<Rightarrow> gtask list \<Rightarrow> 's exec \<Rightarrow> 's exec \<times> run_end option" where
  "save_committed cg env batch nexts ex =
     (if \<not> re_checkpointing env then (ex\<lparr>ex_tasks := nexts\<rparr>, None)
      else case save_checkpoint env False [] ''loop'' (rs_step (ex_rs ex)) (planned_tasks nexts) ex of
             (ex1, Inl e) \<Rightarrow> (ex1, Some (RunErr [] e))
           | (ex1, Inr _) \<Rightarrow>
               (case put_all (put_task_writes cg env put_writes) batch ex1 of
                  (ex2, Inl e) \<Rightarrow> (ex2, Some (RunErr [] e))
                | (ex2, Inr _) \<Rightarrow> (ex2\<lparr>ex_tasks := nexts\<rparr>, None)))"

definition commit_superstep ::
  "compiled_graph \<Rightarrow> 's run_env \<Rightarrow> gtask list \<Rightarrow> task_result list \<Rightarrow> 's exec \<Rightarrow> 's exec \<times> run_end option" where
  "commit_superstep cg env active ocs ex =
     (case apply_writes (map2 (\<lambda>t oc. \<lparr>tw_node = tk_node t, tw_update = oc_update oc\<rparr>) active ocs) (ex_rs ex) of
        (rs1, Inl e) \<Rightarrow> (ex\<lparr>ex_rs := rs1\<rparr>, Some (RunErr [] e))
      | (rs1, Inr _) \<Rightarrow>
          (let rs2 = consume_joins cg active (rs1\<lparr>rs_step := rs_step rs1 + 1\<rparr>);
               merged = snapshot rs2
           in case successors cg merged (zip active (map oc_cmd ocs)) of
                Inl e \<Rightarrow> (ex\<lparr>ex_rs := rs2\<rparr>, Some (RunErr [] e))
              | Inr succs \<Rightarrow>
                  (case trigger_joins cg (rs2, succs) of
                     (rs3, nexts) \<Rightarrow>
                       if find_interrupt_after cg active \<noteq> [] then
                         map_prod id Some (pause_after cg env (zip active ocs) nexts merged
                           (find_interrupt_after cg active) (ex\<lparr>ex_rs := rs3\<rparr>))
                       else save_committed cg env (zip active ocs) nexts (ex\<lparr>ex_rs := rs3\<rparr>))))"

subsection \<open>One superstep\<close>

definition finish_superstep ::
  "compiled_graph \<Rightarrow> 's run_env \<Rightarrow> gtask list \<Rightarrow> gstate \<Rightarrow> task_result list \<Rightarrow> 's exec \<Rightarrow> 's exec \<times> run_end option" where
  "finish_superstep cg env active state ocs ex =
     (case List.map_filter oc_err ocs of
        e # _ \<Rightarrow> map_prod id Some (abort_superstep env active ocs e ex)
      | [] \<Rightarrow>
          (if list_ex (\<lambda>oc. oc_interrupts oc \<noteq> []) ocs
           then map_prod id Some (pause_superstep cg env active state ocs ex)
           else commit_superstep cg env active ocs ex))"

definition dispatch_superstep :: "compiled_graph \<Rightarrow> 's run_env \<Rightarrow> gtask list \<Rightarrow> 's exec \<Rightarrow> 's exec \<times> run_end option" where
  "dispatch_superstep cg env active ex =
     (let state = snapshot (ex_rs ex);
          (ex0, plans) = lookup_all cg env state active ex;
          (ex1, ocs0) = run_all cg env state (zip active plans) ex0
      in case put_all (cache_store env) (zip (zip active plans) ocs0) (ex1\<lparr>ex_queues := []\<rparr>) of
           (ex2, Inl e) \<Rightarrow> (ex2, Some (RunErr [] e))
         | (ex2, Inr _) \<Rightarrow>
             (case stamp_outcomes (cg_protos cg) (re_msg_ids env) ocs0 (ex_msgs ex2) of (ocs1, msgs) \<Rightarrow>
                finish_superstep cg env active state (map2 (join_arrivals cg) active ocs1) (ex2\<lparr>ex_msgs := msgs\<rparr>)))"

definition superstep :: "compiled_graph \<Rightarrow> 's run_env \<Rightarrow> 's exec \<Rightarrow> 's exec \<times> run_end option" where
  "superstep cg env ex =
     (let active = stamp_paths (active_tasks (ex_tasks ex))
      in if active = [] then (ex, Some (RunOk (snapshot (ex_rs ex)) []))
         else if find_interrupt_before cg active (ex_skip ex) \<noteq> [] then
           map_prod id Some (pause_before env active (find_interrupt_before cg active (ex_skip ex)) ex)
         else case re_drain env (ex_steps ex) of
           Some reason \<Rightarrow> (ex\<lparr>ex_skip := []\<rparr>, Some (RunErr (snapshot (ex_rs ex)) (EDrained reason)))
         | None \<Rightarrow>
             (let ex1 = ex\<lparr>ex_skip := [], ex_steps := ex_steps ex + 1\<rparr>
              in if ex_steps ex1 > re_limit env then
                   (ex1, Some (RunErr [] (ERecursion (re_limit env) (if length active = 1 then tk_node (hd active) else []))))
                 else dispatch_superstep cg env active ex1))"

subsection \<open>What the parts leave alone\<close>

definition sink_only :: "'s exec \<Rightarrow> 's exec \<Rightarrow> bool" where
  "sink_only ex ex' \<longleftrightarrow> ex' = ex\<lparr>ex_saver := ex_saver ex'\<rparr>"

lemma sink_only_refl [simp]: "sink_only ex ex"
  by (simp add: sink_only_def)

lemma sink_only_trans: "sink_only a b \<Longrightarrow> sink_only b c \<Longrightarrow> sink_only a c"
  unfolding sink_only_def by (metis exec.surjective exec.update_convs(2))

lemma sink_only_fields:
  assumes "sink_only ex ex'"
  shows "ex_rs ex' = ex_rs ex" "ex_cfg ex' = ex_cfg ex" "ex_tasks ex' = ex_tasks ex" "ex_queues ex' = ex_queues ex"
    "ex_skip ex' = ex_skip ex" "ex_steps ex' = ex_steps ex" "ex_minted ex' = ex_minted ex" "ex_msgs ex' = ex_msgs ex"
  using assms by (cases ex; cases ex'; simp add: sink_only_def)+

lemma sink_only_call [simp]: "sink_only ex (fst (sink_call env req ex))"
  by (simp add: sink_only_def sink_call_def split: prod.split)

lemma sink_only_put [simp]:
  "sink_only ex (fst (put_writes env ws task path delta ex))"
  "sink_only ex (fst (put_pause_writes env ws task path delta ex))"
  by (simp_all add: put_writes_def put_pause_writes_def)

lemma sink_only_put_all:
  "(\<And>x ex. sink_only ex (fst (f x ex))) \<Longrightarrow> sink_only ex (fst (put_all f xs ex))"
proof (induction xs arbitrary: ex)
  case (Cons x xs)
  obtain ex1 r where "f x ex = (ex1, r)" by fastforce
  with Cons.prems [of ex x] Cons.IH [OF Cons.prems, of ex1] show ?case
    by (auto split: sum.split intro: sink_only_trans)
qed simp

lemma sink_only_run_active [simp]: "sink_only ex (fst (run_active cg env state t ex))"
proof (cases "tk_run_handler t")
  case False
  let ?tid = "planned_id (re_dump env) t (cfg_id (ex_cfg ex)) (rs_step (ex_rs ex) + 1)"
  show ?thesis
  proof (cases "task_attempts cg env state (ex_queues ex) ?tid t")
    case (TFailed e)
    show ?thesis
    proof (cases "node_error_of e")
      case (Some nai)
      obtain n a inner where nai: "nai = (n, a, inner)" by (cases nai)
      obtain ex1 r where put: "put_writes env (error_writes inner) ?tid (tk_path t) False ex = (ex1, r)" by fastforce
      have "sink_only ex ex1" using sink_only_put(1) [of ex env "error_writes inner"] put by (metis fst_conv)
      with False TFailed Some nai put show ?thesis
        by (simp add: run_active_def Let_def split: option.split sum.split)
    qed (use False TFailed in \<open>simp add: run_active_def Let_def\<close>)
  qed (use False in \<open>simp_all add: run_active_def Let_def\<close>)
qed (simp add: run_active_def Let_def)

lemma sink_only_run_all [simp]: "sink_only ex (fst (run_all cg env state tps ex))"
proof (induction tps arbitrary: ex)
  case (Cons tp tps)
  obtain t plan where tp: "tp = (t, plan)" by fastforce
  obtain ex1 oc where one: "(case plan of CacheHit upd cmd \<Rightarrow> (ex, normal_result (Inr (upd, cmd)) None)
      | CacheFailed e \<Rightarrow> (ex, failed_result e None) | _ \<Rightarrow> run_active cg env state t ex) = (ex1, oc)" by fastforce
  obtain ex2 ocs where rest: "run_all cg env state tps ex1 = (ex2, ocs)" by fastforce
  have "sink_only ex ex1"
    using one sink_only_run_active [of ex cg env state t] by (cases plan) auto
  moreover have "sink_only ex1 ex2" using Cons.IH [of ex1] rest by simp
  ultimately show ?case using one rest by (simp add: tp sink_only_trans)
qed simp

lemma sink_only_put_task_writes [simp]:
  "(\<And>ws tid path d ex. sink_only ex (fst (put env ws tid path d ex))) \<Longrightarrow>
   sink_only ex (fst (put_task_writes cg env put x ex))"
proof -
  assume put: "\<And>ws tid path d ex. sink_only ex (fst (put env ws tid path d ex))"
  have "sink_only ex ex1" if "put env ws tid path d ex = (ex1, r)" for ws tid path d ex1 r
    using put [of ex ws tid path d] that by simp
  then show ?thesis
    by (auto simp: put_task_writes_def Let_def split: prod.splits sum.splits)
qed

lemma save_checkpoint_keeps:
  "ex_steps (fst (save_checkpoint env pause suppress source step nexts ex)) = ex_steps ex"
  "ex_tasks (fst (save_checkpoint env pause suppress source step nexts ex)) = ex_tasks ex"
  unfolding save_checkpoint_def Let_def
  by (auto simp: sink_call_def split: prod.split sum.split)

subsection \<open>The loop\<close>

lemma save_committed_steps:
  assumes "save_committed cg env batch nexts ex = (ex', r)"
  shows "ex_steps ex' = ex_steps ex" and "r = None \<Longrightarrow> ex_tasks ex' = nexts"
proof -
  obtain ex1 r1 where save: "save_checkpoint env False [] ''loop'' (rs_step (ex_rs ex)) (planned_tasks nexts) ex = (ex1, r1)"
    by fastforce
  obtain ex2 r2 where puts: "put_all (put_task_writes cg env put_writes) batch ex1 = (ex2, r2)" by fastforce
  have "ex_steps ex1 = ex_steps ex" using save_checkpoint_keeps(1) [of env False "[]"] save by (metis fst_conv)
  moreover have "sink_only ex1 ex2"
    using sink_only_put_all [of "put_task_writes cg env put_writes" ex1 batch] puts by simp
  ultimately have "ex_steps ex2 = ex_steps ex" by (simp add: sink_only_fields)
  with \<open>ex_steps ex1 = ex_steps ex\<close> show "ex_steps ex' = ex_steps ex" "r = None \<Longrightarrow> ex_tasks ex' = nexts"
    using assms save puts by (auto simp: save_committed_def split: if_splits sum.splits)
qed

lemma put_all_steps:
  "put_all f xs ex = (ex', r) \<Longrightarrow> (\<And>x ex. sink_only ex (fst (f x ex))) \<Longrightarrow> ex_steps ex' = ex_steps ex"
  using sink_only_put_all [of f ex xs] sink_only_fields(6) [of ex ex'] by simp

lemma put_steps:
  "put_pause_writes env ws task path delta ex = (ex', r) \<Longrightarrow> ex_steps ex' = ex_steps ex"
  "save_checkpoint env pause suppress source step nexts ex = (ex', r) \<Longrightarrow> ex_steps ex' = ex_steps ex"
  using sink_only_put(2) [of ex env ws task path delta] sink_only_fields(6) [of ex ex']
    save_checkpoint_keeps(1) [of env pause suppress source step nexts ex] by simp_all

lemma sink_only_put_error_write [simp]: "sink_only ex (fst (put_error_write env x ex))"
  by (auto simp: put_error_write_def split: prod.split option.split)

lemma sink_only_put_sibling [simp]: "sink_only ex (fst (put_sibling cg env x ex))"
proof -
  obtain pt t oc ws where x: "x = ((pt, t), oc, ws)" by (metis surj_pair)
  obtain ex1 r1 where e: "put_error_write env ((pt, t), oc) ex = (ex1, r1)" by fastforce
  have one: "sink_only ex ex1" using sink_only_put_error_write [of ex env "((pt, t), oc)"] e by simp
  obtain ex2 r2 where w: "put_pause_writes env ws (pt_id pt) (tk_path t) (delta_batch cg ws) ex1 = (ex2, r2)" by fastforce
  obtain ex3 r3 where i: "put_pause_writes env (interrupt_and_resume_writes (oc_interrupts oc) (oc_consumed oc))
      (pt_id pt) (tk_path t) False ex1 = (ex3, r3)" by fastforce
  have "sink_only ex1 ex2" "sink_only ex1 ex3"
    using sink_only_put(2) [of ex1 env ws] sink_only_put(2) [of ex1 env "interrupt_and_resume_writes (oc_interrupts oc) (oc_consumed oc)"]
      w i by (metis fst_conv)+
  then have "sink_only ex ex2" "sink_only ex ex3" using one sink_only_trans by blast+
  with one show ?thesis by (auto simp: put_sibling_def x e w i split: sum.split)
qed

lemma pauses_keep_steps:
  "pause_before env active node ex = (ex', r) \<Longrightarrow> ex_steps ex' = ex_steps ex"
  "abort_superstep env active ocs err ex = (ex', r) \<Longrightarrow> ex_steps ex' = ex_steps ex"
  "pause_superstep cg env active state ocs ex = (ex', r) \<Longrightarrow> ex_steps ex' = ex_steps ex"
  "pause_after cg env batch nexts merged node ex = (ex', r) \<Longrightarrow> ex_steps ex' = ex_steps ex"
  by (auto simp: pause_before_def abort_superstep_def pause_superstep_def pause_after_def Let_def
      dest!: put_steps put_all_steps split: if_splits prod.splits sum.splits)

lemma lookup_all_steps: "ex_steps (fst (lookup_all cg env state ts ex)) = ex_steps ex"
proof (induction ts arbitrary: ex)
  case (Cons t ts)
  obtain ex1 plan where one: "cache_lookup cg env state t ex = (ex1, plan)" by fastforce
  have "ex_steps ex1 = ex_steps ex"
    using one by (auto simp: cache_lookup_def split: option.splits if_splits sum.splits prod.splits)
  with Cons.IH [of ex1] one show ?case by (cases "lookup_all cg env state ts ex1") simp
qed simp

lemma cache_store_steps: "put_all (cache_store env) xs ex = (ex', r) \<Longrightarrow> ex_steps ex' = ex_steps ex"
proof (induction xs arbitrary: ex)
  case (Cons x xs)
  obtain ex1 r1 where one: "cache_store env x ex = (ex1, r1)" by fastforce
  have "ex_steps ex1 = ex_steps ex"
    using one by (auto simp: cache_store_def split: cache_plan.splits if_splits sum.splits prod.splits)
  with Cons one show ?case by (auto split: sum.splits)
qed simp

lemma commit_steps: "commit_superstep cg env active ocs ex = (ex', r) \<Longrightarrow> ex_steps ex' = ex_steps ex"
  by (auto simp: commit_superstep_def Let_def map_prod_def dest!: save_committed_steps(1) pauses_keep_steps
      split: prod.splits sum.splits if_splits)

lemma finish_steps: "finish_superstep cg env active state ocs ex = (ex', r) \<Longrightarrow> ex_steps ex' = ex_steps ex"
  by (auto simp: finish_superstep_def map_prod_def dest!: commit_steps pauses_keep_steps
      split: prod.splits list.splits if_splits)

lemma dispatch_steps:
  assumes "dispatch_superstep cg env active ex = (ex', r)"
  shows "ex_steps ex' = ex_steps ex"
proof -
  let ?state = "snapshot (ex_rs ex)"
  obtain ex0 plans where look: "lookup_all cg env ?state active ex = (ex0, plans)" by fastforce
  obtain ex1 ocs0 where run: "run_all cg env ?state (zip active plans) ex0 = (ex1, ocs0)" by fastforce
  obtain ex2 r2 where store: "put_all (cache_store env) (zip (zip active plans) ocs0) (ex1\<lparr>ex_queues := []\<rparr>) = (ex2, r2)" by fastforce
  obtain ocs1 msgs where stamp: "stamp_outcomes (cg_protos cg) (re_msg_ids env) ocs0 (ex_msgs ex2) = (ocs1, msgs)" by fastforce
  have "ex_steps ex0 = ex_steps ex" using lookup_all_steps [of cg env ?state active ex] look by simp
  moreover have "ex_steps ex1 = ex_steps ex0"
    using sink_only_fields(6) [OF sink_only_run_all [of ex0 cg env ?state "zip active plans"]] run by simp
  moreover have "ex_steps ex2 = ex_steps ex1" using cache_store_steps [OF store] by simp
  moreover have "ex_steps ex' = ex_steps ex2"
    using assms look run store stamp by (cases r2) (auto simp: dispatch_superstep_def Let_def dest: finish_steps)
  ultimately show ?thesis by simp
qed

lemma superstep_continues:
  assumes "superstep cg env ex = (ex', None)"
  shows "ex_steps ex' = ex_steps ex + 1 \<and> ex_steps ex' \<le> re_limit env"
  using assms by (auto simp: superstep_def Let_def map_prod_def dest!: dispatch_steps split: prod.splits option.splits if_splits)

function run_loop :: "compiled_graph \<Rightarrow> 's run_env \<Rightarrow> 's exec \<Rightarrow> 's exec \<times> run_end" where
  "run_loop cg env ex =
     (case superstep cg env ex of
        (ex', Some r) \<Rightarrow> (ex', r)
      | (ex', None) \<Rightarrow> run_loop cg env ex')"
  by pat_completeness auto

termination
  by (relation "measure (\<lambda>(cg, env, ex). nat (re_limit env - ex_steps ex))")
    (auto dest!: sym [of _ "superstep _ _ _"] superstep_continues)

declare run_loop.simps [simp del]

text \<open>The loop cut after a number of supersteps.\<close>

fun run_fuel :: "nat \<Rightarrow> compiled_graph \<Rightarrow> 's run_env \<Rightarrow> 's exec \<Rightarrow> ('s exec \<times> run_end) option" where
  "run_fuel 0 cg env ex = None"
| "run_fuel (Suc n) cg env ex =
     (case superstep cg env ex of
        (ex', Some r) \<Rightarrow> Some (ex', r)
      | (ex', None) \<Rightarrow> run_fuel n cg env ex')"

lemma run_fuel_enough: "nat (re_limit env - ex_steps ex) < n \<Longrightarrow> run_fuel n cg env ex = Some (run_loop cg env ex)"
proof (induction n arbitrary: ex)
  case (Suc n)
  obtain ex' r where step: "superstep cg env ex = (ex', r)" by fastforce
  show ?case
  proof (cases r)
    case None
    with superstep_continues [of cg env ex ex'] step have "ex_steps ex' = ex_steps ex + 1" "ex_steps ex' \<le> re_limit env"
      by simp_all
    with Suc.prems have "nat (re_limit env - ex_steps ex') < n" by simp
    with None step Suc.IH [of ex'] show ?thesis by (simp add: run_loop.simps [of cg env ex])
  next
    case (Some out)
    with step show ?thesis by (simp add: run_loop.simps [of cg env ex])
  qed
qed simp

lemma superstep_ends:
  assumes "superstep cg env ex = (ex', Some r)" and "ex_steps ex \<le> re_limit env"
  shows "ex_steps ex' \<le> re_limit env + 1 \<and>
    (ex_steps ex' = re_limit env + 1 \<longrightarrow> (\<exists>node. r = RunErr [] (ERecursion (re_limit env) node)))"
  using assms by (auto simp: superstep_def Let_def map_prod_def dest!: dispatch_steps pauses_keep_steps
      split: prod.splits option.splits if_splits)

lemma run_loop_steps:
  assumes "run_loop cg env ex = (ex', r)" and "ex_steps ex \<le> re_limit env"
  shows "ex_steps ex' \<le> re_limit env + 1 \<and>
    (ex_steps ex' = re_limit env + 1 \<longrightarrow> (\<exists>node. r = RunErr [] (ERecursion (re_limit env) node)))"
  using assms
proof (induction cg env ex rule: run_loop.induct)
  case (1 cg env ex)
  obtain ex1 r1 where step: "superstep cg env ex = (ex1, r1)" by fastforce
  show ?case
  proof (cases r1)
    case None
    with 1 step superstep_continues [of cg env ex ex1] show ?thesis by (simp add: run_loop.simps [of cg env ex])
  next
    case (Some out)
    with 1(2) step have "ex' = ex1" "r = out" by (simp_all add: run_loop.simps [of cg env ex])
    with superstep_ends [of cg env ex ex1 out] step Some 1(3) show ?thesis by fastforce
  qed
qed

text \<open>
  C1: every run ends, and the recursion limit bounds it. From a state that has counted k supersteps
  the loop returns within limit - k + 1 iterations; it counts at most one superstep above the limit,
  and only to report that the limit was exceeded.
\<close>

theorem recursion_limit_bounds_the_run:
  assumes "run_loop cg env ex = (ex', r)" and "ex_steps ex \<le> re_limit env"
  shows "run_fuel (nat (re_limit env - ex_steps ex) + 1) cg env ex = Some (ex', r) \<and>
    ex_steps ex' \<le> re_limit env + 1 \<and>
    (ex_steps ex' = re_limit env + 1 \<longrightarrow> (\<exists>node. r = RunErr [] (ERecursion (re_limit env) node)))"
  using run_loop_steps [OF assms] run_fuel_enough [of env ex _ cg] by (simp add: assms(1) del: run_fuel.simps)

text \<open>The demonstration graph on a fresh memory saver; its first superstep runs both parents.\<close>

definition demo_run_env :: "memory_saver run_env" where
  "demo_run_env =
     \<lparr>re_ops = memory_ops, re_checkpointing = True, re_thread = ''th'', re_ns = [], re_limit = 2,
      re_clock = (\<lambda>n. (1700000000000 + int n, n)), re_msg_ids = (\<lambda>n. ''m'' @ show_int (int n)),
      re_dump = (\<lambda>_. ''null''), re_drain = (\<lambda>_. None), re_cancelled = (\<lambda>_ _. False), re_parents = None,
      re_cache = False, re_default_key = (\<lambda>_. Inl EEmptyChannel), re_lookup_time = (\<lambda>_. 0), re_store_time = (\<lambda>_. 0)\<rparr>"

definition demo_exec :: "memory_saver exec" where
  "demo_exec =
     \<lparr>ex_rs = new_run_state (cg_protos demo_graph), ex_saver = (new_sync_sink, new_memory_saver),
      ex_cfg = \<lparr>cfg_thread = ''th'', cfg_ns = [], cfg_id = []\<rparr>, ex_tasks = projr (entry_tasks demo_graph []),
      ex_queues = [], ex_skip = [], ex_steps = 0, ex_minted = 0, ex_msgs = 0, ex_cache = []\<rparr>"

text \<open>With a limit of 2 the run ends within three iterations; with a limit of 0 it reports the limit.\<close>

lemma recursion_limit_bounds_the_run_witness:
  "run_fuel 3 demo_graph demo_run_env demo_exec = Some (run_loop demo_graph demo_run_env demo_exec) \<and>
   ex_steps (fst (run_loop demo_graph demo_run_env demo_exec)) \<le> 3 \<and>
   snd (run_loop demo_graph (demo_run_env\<lparr>re_limit := 0\<rparr>) demo_exec) = RunErr [] (ERecursion 0 [])"
proof (intro conjI)
  have start: "ex_steps demo_exec \<le> re_limit demo_run_env" "ex_steps demo_exec \<le> re_limit (demo_run_env\<lparr>re_limit := 0\<rparr>)"
    by (simp_all add: demo_exec_def demo_run_env_def)
  have fuel: "nat (re_limit demo_run_env - ex_steps demo_exec) + 1 = 3" "re_limit demo_run_env = 2"
    by (simp_all add: demo_exec_def demo_run_env_def)
  note bound = recursion_limit_bounds_the_run [of demo_graph _ demo_exec, OF surjective_pairing]
  show "run_fuel 3 demo_graph demo_run_env demo_exec = Some (run_loop demo_graph demo_run_env demo_exec)"
    "ex_steps (fst (run_loop demo_graph demo_run_env demo_exec)) \<le> 3"
    using bound [OF start(1), unfolded fuel(1)] by (simp_all add: fuel(2) del: run_fuel.simps)
  have one: "nat (re_limit (demo_run_env\<lparr>re_limit := 0\<rparr>) - ex_steps demo_exec) + 1 = 1"
    by (simp add: demo_exec_def)
  have "map_option snd (run_fuel 1 demo_graph (demo_run_env\<lparr>re_limit := 0\<rparr>) demo_exec) = Some (RunErr [] (ERecursion 0 []))"
    by code_simp
  then show "snd (run_loop demo_graph (demo_run_env\<lparr>re_limit := 0\<rparr>) demo_exec) = RunErr [] (ERecursion 0 [])"
    using bound [OF start(2)] unfolding one by (auto simp del: run_fuel.simps)
qed

end
