(* ===== verification/Joins.thy ===== *)
theory Joins
  imports Superstep
begin

section \<open>Join barriers across a commit\<close>

text \<open>
  A join edge dispatches its child through a barrier channel and two version marks. This theory
  shows what one commit does to all of them at once: which children it dispatches, which barriers
  it resets, and that no barrier is left armed.
\<close>

definition armed :: "run_state \<Rightarrow> join_meta \<Rightarrow> bool" where
  "armed rs jm \<longleftrightarrow>
     (case map_of (rs_channels rs) (jm_key jm) of
        None \<Rightarrow> False
      | Some ch \<Rightarrow> chan_is_available ch \<and>
          seen_version rs (jm_child jm) (jm_key jm) < mgetd (rs_versions rs) (jm_key jm) 0)"

text \<open>The child ran, and it had seen the barrier's version before: it ran because of the barrier.\<close>

definition ran_by_barrier :: "gtask list \<Rightarrow> run_state \<Rightarrow> join_meta \<Rightarrow> bool" where
  "ran_by_barrier active rs jm \<longleftrightarrow>
     jm_child jm \<in> tk_node ` set active \<and>
     \<not> seen_version rs (jm_child jm) (jm_key jm) < mgetd (rs_versions rs) (jm_key jm) 0"

lemma consume_join_frame [simp]:
  "rs_seen (consume_join active jm rs) = rs_seen rs" "rs_versions (consume_join active jm rs) = rs_versions rs"
  "rs_protos (consume_join active jm rs) = rs_protos rs" "rs_step (consume_join active jm rs) = rs_step rs"
  by (simp_all add: consume_join_def split: option.split)

lemma consume_join_channels:
  "map_of (rs_channels (consume_join active jm rs)) k =
     (if k = jm_key jm \<and> ran_by_barrier active rs jm then map_option chan_consume (map_of (rs_channels rs) k)
      else map_of (rs_channels rs) k)"
  by (auto simp: consume_join_def ran_by_barrier_def split: option.split)

lemma ran_by_barrier_cong:
  "rs_seen rs' = rs_seen rs \<Longrightarrow> rs_versions rs' = rs_versions rs \<Longrightarrow> ran_by_barrier active rs' jm = ran_by_barrier active rs jm"
  by (simp add: ran_by_barrier_def seen_version_def)

lemma consume_fold:
  assumes "distinct (map jm_key jms)"
  shows "rs_seen (fold (consume_join active) jms rs) = rs_seen rs"
    and "rs_versions (fold (consume_join active) jms rs) = rs_versions rs"
    and "map_of (rs_channels (fold (consume_join active) jms rs)) k =
      (if \<exists>jm \<in> set jms. jm_key jm = k \<and> ran_by_barrier active rs jm
       then map_option chan_consume (map_of (rs_channels rs) k) else map_of (rs_channels rs) k)"
  using assms
proof (induction jms arbitrary: rs)
  case (Cons jm jms)
  {
    case 1
    then show ?case using Cons.IH(1) by simp
  next
    case 2
    then show ?case using Cons.IH(2) by simp
  next
    case 3
    have "ran_by_barrier active (consume_join active jm rs) j = ran_by_barrier active rs j" for j
      by (rule ran_by_barrier_cong) simp_all
    moreover have "jm_key j \<noteq> jm_key jm" if "j \<in> set jms" for j
    proof -
      have "jm_key jm \<notin> jm_key ` set jms" using 3 by simp
      with that show ?thesis by (metis imageI)
    qed
    ultimately show ?case
      using Cons.IH(3) [of "consume_join active jm rs"] 3 by (auto simp: consume_join_channels)
  }
qed simp_all

lemma trigger_join_simp:
  "trigger_join jm (rs, ts) =
     (if armed rs jm
      then (rs\<lparr>rs_seen := mput (jm_child jm)
              (mput (jm_key jm) (mgetd (rs_versions rs) (jm_key jm) 0) (mgetd (rs_seen rs) (jm_child jm) [])) (rs_seen rs)\<rparr>,
            ts @ [plain_task (jm_child jm) None])
      else (rs, ts))"
  by (auto simp: trigger_join_def armed_def split: option.split)

lemma seen_version_mark:
  "seen_version (rs\<lparr>rs_seen := mput c (mput k v (mgetd (rs_seen rs) c [])) (rs_seen rs)\<rparr>) c' k' =
     (if c' = c \<and> k' = k then v else seen_version rs c' k')"
  by (auto simp: seen_version_def)

lemma trigger_fold:
  assumes "distinct (map jm_key jms)"
  shows "fold trigger_join jms (rs, ts) = (rs', ts') \<Longrightarrow>
    ts' = ts @ map (\<lambda>jm. plain_task (jm_child jm) None) (filter (armed rs) jms) \<and>
    rs_channels rs' = rs_channels rs \<and> rs_versions rs' = rs_versions rs \<and>
    (\<forall>jm. jm_key jm \<notin> jm_key ` set jms \<longrightarrow> armed rs' jm = armed rs jm) \<and> (\<forall>jm \<in> set jms. \<not> armed rs' jm)"
  using assms
proof (induction jms arbitrary: rs ts)
  case (Cons jm jms)
  obtain rs1 ts1 where step: "trigger_join jm (rs, ts) = (rs1, ts1)" by fastforce
  have other: "armed rs1 j = armed rs j" if "jm_key j \<noteq> jm_key jm" for j
    using step that by (auto simp: trigger_join_simp armed_def seen_version_mark split: if_splits option.splits)
  have mine: "\<not> armed rs1 jm"
    using step by (auto simp: trigger_join_simp armed_def seen_version_mark split: if_splits option.splits)
  have frame: "rs_channels rs1 = rs_channels rs" "rs_versions rs1 = rs_versions rs"
    "ts1 = ts @ (if armed rs jm then [plain_task (jm_child jm) None] else [])"
    using step by (auto simp: trigger_join_simp split: if_splits)
  have fresh: "jm_key jm \<notin> jm_key ` set jms" using Cons.prems(2) by simp
  have keys: "jm_key j \<noteq> jm_key jm" if "j \<in> set jms" for j using fresh that by (metis imageI)
  then have "filter (armed rs1) jms = filter (armed rs) jms" by (intro filter_cong) (simp_all add: other)
  then show ?case
    using Cons.IH [of rs1 ts1] Cons.prems step frame mine other fresh by auto
qed simp

text \<open>
  C5: a commit dispatches the child of every join whose barrier filled up, exactly once, after the
  routed successors; scanning again dispatches nothing. A barrier is reset exactly when its child
  ran because of it; a child that ran for another reason leaves the barrier armed, so the barrier
  still dispatches it.
\<close>

theorem joins_fire_once_and_reset:
  assumes "graph_wf cg" and "trigger_joins cg (consume_joins cg active rs, succs) = (rs', nexts)"
  shows "nexts = succs @ map (\<lambda>jm. plain_task (jm_child jm) None) (filter (armed rs) (cg_joins cg))
    \<and> trigger_joins cg (rs', later) = (rs', later)
    \<and> (\<forall>jm \<in> set (cg_joins cg). map_of (rs_channels rs') (jm_key jm) =
        (if ran_by_barrier active rs jm then map_option chan_consume (map_of (rs_channels rs) (jm_key jm))
         else map_of (rs_channels rs) (jm_key jm)))
    \<and> rs_versions rs' = rs_versions rs"
proof -
  have d: "distinct (map jm_key (cg_joins cg))" using assms(1) by (simp add: graph_wf_def)
  let ?rs1 = "consume_joins cg active rs"
  note c = consume_fold [OF d, of active rs, folded consume_joins_def]
  have own: "(\<exists>j \<in> set (cg_joins cg). jm_key j = jm_key jm \<and> ran_by_barrier active rs j) \<longleftrightarrow> ran_by_barrier active rs jm"
    if "jm \<in> set (cg_joins cg)" for jm
    using d that by (metis distinct_map inj_onD)
  have arm: "armed ?rs1 jm = armed rs jm" if "jm \<in> set (cg_joins cg)" for jm
    using own [OF that] c(1,2) c(3) [of "jm_key jm"]
    by (auto simp: armed_def ran_by_barrier_def seen_version_def split: option.splits)
  note t = trigger_fold [OF d, of ?rs1 succs rs' nexts]
  from assms(2) t have t: "nexts = succs @ map (\<lambda>jm. plain_task (jm_child jm) None) (filter (armed ?rs1) (cg_joins cg))"
    "rs_channels rs' = rs_channels ?rs1" "rs_versions rs' = rs_versions ?rs1" "\<forall>jm \<in> set (cg_joins cg). \<not> armed rs' jm"
    by (simp_all add: trigger_joins_def)
  have "filter (armed ?rs1) (cg_joins cg) = filter (armed rs) (cg_joins cg)" by (rule filter_cong) (simp_all add: arm)
  moreover have "trigger_joins cg (rs', later) = (rs', later)"
  proof -
    have "fold trigger_join jms (rs', later) = (rs', later)" if "\<forall>jm \<in> set jms. \<not> armed rs' jm" for jms
      using that by (induction jms) (simp_all add: trigger_join_simp)
    with t(4) show ?thesis by (simp add: trigger_joins_def)
  qed
  ultimately show ?thesis using t own c by auto
qed

text \<open>The two parents of the demonstration graph commit together.\<close>

definition demo_arrived :: run_state where
  "demo_arrived = fst (apply_writes
     [\<lparr>tw_node = ''a'', tw_update = [(''x'', VInt 1), (''join:a+b:c'', VStr ''a'')]\<rparr>,
      \<lparr>tw_node = ''b'', tw_update = [(''join:a+b:c'', VStr ''b'')]\<rparr>] (new_run_state (cg_protos demo_graph)))"

lemma joins_fire_once_and_reset_witness:
  "snd (trigger_joins demo_graph (consume_joins demo_graph [plain_task ''a'' None, plain_task ''b'' None] demo_arrived, []))
     = [plain_task ''c'' None]"
proof -
  let ?acc = "(consume_joins demo_graph [plain_task ''a'' None, plain_task ''b'' None] demo_arrived, [])"
  have wf: "graph_wf demo_graph" using demo_graph_wf .
  have "filter (armed demo_arrived) (cg_joins demo_graph) = cg_joins demo_graph \<and> map jm_child (cg_joins demo_graph) = [''c'']"
    by code_simp
  with joins_fire_once_and_reset [OF wf, of "[plain_task ''a'' None, plain_task ''b'' None]" demo_arrived "[]"
      "fst (trigger_joins demo_graph ?acc)" "snd (trigger_joins demo_graph ?acc)" "[]"]
  show ?thesis by (auto simp flip: map_map simp: comp_def dest: map_eq_Cons_D)
qed

end
