(* ===== verification/Persistence.thy ===== *)
theory Persistence
  imports Superstep
begin

section \<open>What the executor leaves in a saver\<close>

text \<open>
  The save path of the run loop over the in-memory saver: what a saved checkpoint and the tasks'
  writes look like when they are read back, how often delta channels snapshot, and which tasks a
  run that stopped right after a commit resumes.
\<close>

subsection \<open>Batches of writes under a fresh and under a used identity\<close>

lemma put_writes_fresh:
  assumes "\<forall>i. map_of (st_slots st) (task, i) = None" and "\<forall>w \<in> set ws. reserved_write_idx (w_channel w) = None"
  shows "st_writes (put_writes_stored task path ws st) = st_writes st @ map (stamp task path) ws \<and>
    (\<forall>i. map_of (st_slots (put_writes_stored task path ws st)) (task, i) \<noteq> None \<longleftrightarrow> 0 \<le> i \<and> i < int (length ws)) \<and>
    (\<forall>task' i. task' \<noteq> task \<longrightarrow>
      map_of (st_slots (put_writes_stored task path ws st)) (task', i) = map_of (st_slots st) (task', i))"
  using assms(2)
proof (induction ws rule: rev_induct)
  case Nil
  then show ?case using assms(1) by (simp add: put_writes_stored_def)
next
  case (snoc w ws)
  let ?st = "put_writes_stored task path ws st"
  have idx: "write_idx (length ws) w = int (length ws)" using snoc.prems by (simp add: write_idx_def)
  have IH: "st_writes ?st = st_writes st @ map (stamp task path) ws"
    "\<And>i. map_of (st_slots ?st) (task, i) \<noteq> None \<longleftrightarrow> 0 \<le> i \<and> i < int (length ws)"
    "\<And>task' i. task' \<noteq> task \<Longrightarrow> map_of (st_slots ?st) (task', i) = map_of (st_slots st) (task', i)"
    using snoc by simp_all
  from IH(2) [of "int (length ws)"] have free: "map_of (st_slots ?st) (task, int (length ws)) = None" by simp
  show ?case
    unfolding put_writes_snoc using IH free
    by (auto simp: put_write_step_def idx Let_def stamp_def)
qed

lemma put_writes_dropped:
  assumes "\<forall>i < length ws. map_of (st_slots st) (task, int i) \<noteq> None"
    and "\<forall>w \<in> set ws. reserved_write_idx (w_channel w) = None"
  shows "put_writes_stored task path ws st = st"
  using assms
proof (induction ws rule: rev_induct)
  case (snoc w ws)
  have idx: "write_idx (length ws) w = int (length ws)" using snoc.prems(2) by (simp add: write_idx_def)
  have "map_of (st_slots st) (task, int (length ws)) \<noteq> None" using snoc.prems(1) by simp
  moreover have "put_writes_stored task path ws st = st" using snoc by (simp add: less_Suc_eq)
  ultimately show ?case unfolding put_writes_snoc by (auto simp: put_write_step_def idx Let_def)
qed (simp add: put_writes_stored_def)

lemma put_writes_from:
  "w \<in> set (st_writes (put_writes_stored task path ws st)) \<Longrightarrow>
   w \<in> set (st_writes st) \<or> (\<exists>w0 \<in> set ws. w = stamp task path w0)"
proof (induction ws rule: rev_induct)
  case (snoc w' ws)
  then show ?case
    unfolding put_writes_snoc
    by (cases rule: put_write_step_cases [of "put_writes_stored task path ws st" task "length ws" w' path])
      (auto dest!: set_update_subset_insert [THEN subsetD])
qed (simp add: put_writes_stored_def)

lemma put_writes_task_set:
  assumes "slots_inv st"
  shows "w_task ` set (st_writes (put_writes_stored task path ws st)) =
    w_task ` set (st_writes st) \<union> (if ws = [] then {} else {task})"
proof (induction ws rule: rev_induct)
  case (snoc w ws)
  let ?st = "put_writes_stored task path ws st"
  note inv = put_writes_inv [OF assms, of task path ws]
  have at: "pos < length (st_writes ?st)" "w_task (st_writes ?st ! pos) = task"
    if "map_of (st_slots ?st) (task, idx) = Some pos" for idx pos
    using slots_invD [OF inv that] by simp_all
  have "w_task ` set (st_writes (put_write_step task path (length ws, w) ?st)) = insert task (w_task ` set (st_writes ?st))"
  proof (cases rule: put_write_step_cases [of ?st task "length ws" w path])
    case (kept pos)
    have "task \<in> w_task ` set (st_writes ?st)" using at [OF kept(1)] by (metis image_eqI nth_mem)
    then show ?thesis unfolding kept(3) by auto
  next
    case (replaced pos)
    have "map w_task ((st_writes ?st)[pos := stamp task path w]) = map w_task (st_writes ?st)"
      using at [OF replaced(1)] by (simp add: map_update list_update_same_conv)
    then have "w_task ` set ((st_writes ?st)[pos := stamp task path w]) = w_task ` set (st_writes ?st)"
      by (metis list.set_map)
    moreover have "task \<in> w_task ` set (st_writes ?st)" using at [OF replaced(1)] by (metis image_eqI nth_mem)
    ultimately show ?thesis unfolding replaced(3) by auto
  next
    case added
    then show ?thesis by simp
  qed
  with snoc show ?case by (auto simp: put_writes_snoc)
qed (simp add: put_writes_stored_def)

subsection \<open>A run over the memory saver\<close>

text \<open>The current checkpoint of the run is in the saver, as the record \<open>st\<close>.\<close>

definition mem_ok :: "memory_saver run_env \<Rightarrow> memory_saver exec \<Rightarrow> bool" where
  "mem_ok env ex \<longleftrightarrow> re_ops env = memory_ops \<and> ss_poisoned (fst (ex_saver ex)) = None"

definition in_memory :: "memory_saver run_env \<Rightarrow> memory_saver exec \<Rightarrow> stored \<Rightarrow> bool" where
  "in_memory env ex st \<longleftrightarrow>
     mem_ok env ex \<and> cfg_id (ex_cfg ex) \<noteq> [] \<and>
     map_of (ms_ns (snd (ex_saver ex)) (ex_cfg ex)) (cfg_id (ex_cfg ex)) = Some st"

lemma in_memory_tuple:
  "in_memory env ex st \<Longrightarrow> ms_get_tuple (snd (ex_saver ex)) (ex_cfg ex) = Some (ms_tuple (ex_cfg ex) st)"
  by (simp add: in_memory_def ms_get_exact)

definition saved_parts ::
  "'s run_env \<Rightarrow> bool \<Rightarrow> string list \<Rightarrow> string \<Rightarrow> 's exec \<Rightarrow> string list \<times> (int \<times> int) gomap" where
  "saved_parts env pause suppress source ex =
     (let rs = ex_rs ex;
          advanced = advance_delta_counters (rs_protos rs) (rs_delta_counters rs) (rs_updated rs);
          snaps = snapshot_keys rs advanced source pause suppress
      in (snaps, reset_counters snaps advanced))"

lemma save_in_memory:
  assumes "mem_ok env ex" and "mint_id env (ex_minted ex) \<noteq> []"
  shows "\<exists>ex' st. save_checkpoint env pause suppress source step nexts ex = (ex', Inr ()) \<and> in_memory env ex' st \<and>
    ex_cfg ex' = \<lparr>cfg_thread = re_thread env, cfg_ns = re_ns env, cfg_id = mint_id env (ex_minted ex)\<rparr> \<and>
    st_cp st = checkpoint_of env (fst (saved_parts env pause suppress source ex)) (mint_id env (ex_minted ex)) step nexts ex \<and>
    st_md st = \<lparr>md_source = source, md_step = step, md_run_id = [], md_parents = re_parents env,
                md_counters = non_zero_counters (snd (saved_parts env pause suppress source ex))\<rparr> \<and>
    st_parent st = (if cfg_id (ex_cfg ex) = [] then None
      else Some \<lparr>cfg_thread = re_thread env, cfg_ns = re_ns env, cfg_id = cfg_id (ex_cfg ex)\<rparr>) \<and>
    (map_of (ms_ns (snd (ex_saver ex)) (ex_cfg ex')) (mint_id env (ex_minted ex)) = None \<longrightarrow>
       st_writes st = [] \<and> st_slots st = []) \<and>
    ex_rs ex' = (ex_rs ex)\<lparr>rs_delta_counters := snd (saved_parts env pause suppress source ex), rs_delta_overwrite := []\<rparr> \<and>
    ex_minted ex' = Suc (ex_minted ex)"
proof -
  obtain k s where saver: "ex_saver ex = (k, s)" by fastforce
  have ok: "re_ops env = memory_ops" "ss_poisoned k = None" using assms(1) by (simp_all add: mem_ok_def saver)
  let ?cid = "mint_id env (ex_minted ex)" and ?snaps = "fst (saved_parts env pause suppress source ex)"
    and ?counters = "snd (saved_parts env pause suppress source ex)"
  let ?cfg = "\<lparr>cfg_thread = re_thread env, cfg_ns = re_ns env, cfg_id = cfg_id (ex_cfg ex)\<rparr>"
  let ?cp = "checkpoint_of env ?snaps ?cid step nexts ex"
  let ?md = "\<lparr>md_source = source, md_step = step, md_run_id = [], md_parents = re_parents env, md_counters = non_zero_counters ?counters\<rparr>"
  let ?st = "put_stored ?cp ?md (if cfg_id ?cfg \<noteq> [] then Some ?cfg else None) (map_of (ms_ns s ?cfg) ?cid)"
  let ?put = "\<lparr>pr_cfg = ?cfg, pr_cp = ?cp, pr_md = ?md, pr_versions = [],
    pr_repair = delta_repair_snapshots suppress (ex_rs ex)\<rparr>"
  let ?ex = "ex\<lparr>ex_rs := (ex_rs ex)\<lparr>rs_delta_counters := ?counters, rs_delta_overwrite := []\<rparr>, ex_minted := Suc (ex_minted ex),
    ex_saver := (k\<lparr>ss_last_put := Some ?put\<rparr>, ms_set_ns ?cfg (mput ?cid ?st (ms_ns s ?cfg)) s), ex_cfg := ?cfg\<lparr>cfg_id := ?cid\<rparr>\<rparr>"
  have cid: "cp_id ?cp = ?cid" by (simp add: checkpoint_of_def)
  have nv: "?cp\<lparr>cp_versions := mcopy (cp_versions ?cp) []\<rparr> = ?cp" by (simp add: mcopy_def)
  have run: "save_checkpoint env pause suppress source step nexts ex = (?ex, Inr ())"
    using nv by (simp add: save_checkpoint_def saved_parts_def Let_def sink_call_def sync_request_def sink_execute_def
        memory_ops_def ok saver ms_put_eq last_put_after_def checkpoint_of_def)
  have ns: "ms_ns (ms_set_ns ?cfg by_id s) (ex_cfg ?ex) = by_id" for by_id by (simp add: same_ns_def)
  have "in_memory env ?ex ?st"
    using assms(2) ok ns by (simp add: in_memory_def mem_ok_def)
  moreover have "ms_ns s (ex_cfg ?ex) = ms_ns s ?cfg" by (rule same_ns_ms_ns) (simp add: same_ns_def)
  ultimately show ?thesis
    by (intro exI [of _ ?ex] exI [of _ ?st]) (simp add: run cid saver)
qed

lemma put_writes_in_memory:
  assumes "in_memory env ex st"
  shows "\<exists>ex'. put_writes env ws task path delta ex = (ex', Inr ()) \<and> sink_only ex ex' \<and>
    in_memory env ex' (put_writes_stored task path ws st)"
proof -
  obtain k s where saver: "ex_saver ex = (k, s)" by fastforce
  have ok: "re_ops env = memory_ops" "ss_poisoned k = None" "cfg_id (ex_cfg ex) \<noteq> []"
    "map_of (ms_ns s (ex_cfg ex)) (cfg_id (ex_cfg ex)) = Some st"
    using assms by (simp_all add: in_memory_def mem_ok_def saver)
  then have at: "ms_lookup s (ex_cfg ex) = Some (cfg_id (ex_cfg ex), st)" by (simp add: ms_lookup_def)
  let ?s = "ms_set_ns (ex_cfg ex) (mput (cfg_id (ex_cfg ex)) (put_writes_stored task path ws st) (ms_ns s (ex_cfg ex))) s"
  let ?req = "ReqPutWrites (ex_cfg ex) ws task path delta"
  let ?ex = "ex\<lparr>ex_saver := (k\<lparr>ss_last_put := last_put_after ?req (ss_last_put k)\<rparr>, ?s)\<rparr>"
  have "put_writes env ws task path delta ex = (?ex, Inr ())"
    using ms_put_writes_Some [OF at, of ws task path]
    by (simp add: put_writes_def sink_call_def sync_request_def sink_execute_def memory_ops_def ok(1,2) saver)
  moreover have "sink_only ex ?ex" by (simp add: sink_only_def)
  moreover have "in_memory env ?ex (put_writes_stored task path ws st)" using ok by (simp add: in_memory_def mem_ok_def)
  ultimately show ?thesis by blast
qed

text \<open>The identity under which a committed task's writes are stored, and what storing a batch leaves.\<close>

definition commit_id :: "'s run_env \<Rightarrow> 's exec \<Rightarrow> gtask \<Rightarrow> string" where
  "commit_id env ex t = task_id (cfg_id (ex_cfg ex)) (rs_step (ex_rs ex) + 1) (tk_node t) (re_dump env (tk_arg t))"

definition store_task :: "(gtask \<Rightarrow> string) \<Rightarrow> gtask \<times> task_result \<Rightarrow> stored \<Rightarrow> stored" where
  "store_task tid x st =
     (case completed_task_writes (oc_update (snd x)) (oc_cmd (snd x)) of
        Inl _ \<Rightarrow> st | Inr ws \<Rightarrow> put_writes_stored (tid (fst x)) (tk_path (fst x)) ws st)"

lemma put_batch_in_memory:
  assumes "put_all (put_task_writes cg env put_writes) batch ex = (ex', Inr ())" and "in_memory env ex st"
  shows "in_memory env ex' (fold (store_task (commit_id env ex)) batch st) \<and> sink_only ex ex'"
  using assms
proof (induction batch arbitrary: ex st)
  case (Cons x batch)
  obtain t oc where x: "x = (t, oc)" by fastforce
  obtain ex1 where one: "put_task_writes cg env put_writes x ex = (ex1, Inr ())"
    and rest: "put_all (put_task_writes cg env put_writes) batch ex1 = (ex', Inr ())"
    using Cons.prems(1) by (auto split: prod.splits sum.splits)
  obtain ws where ws: "completed_task_writes (oc_update oc) (oc_cmd oc) = Inr ws"
    using one by (cases "completed_task_writes (oc_update oc) (oc_cmd oc)") (auto simp: put_task_writes_def x Let_def)
  have nil: "put_writes_stored task path [] st = st" for task path by (simp add: put_writes_stored_def)
  have "in_memory env ex1 (store_task (commit_id env ex) x st) \<and> sink_only ex ex1"
  proof (cases "ws = []")
    case True
    with one ws Cons.prems(2) show ?thesis by (simp add: put_task_writes_def x Let_def store_task_def nil)
  next
    case False
    obtain ex2 where "put_writes env ws (commit_id env ex t) (tk_path t) (delta_batch cg ws) ex = (ex2, Inr ())"
      "sink_only ex ex2" "in_memory env ex2 (put_writes_stored (commit_id env ex t) (tk_path t) ws st)"
      using put_writes_in_memory [OF Cons.prems(2)] by blast
    with one ws False show ?thesis by (simp add: put_task_writes_def x Let_def store_task_def commit_id_def)
  qed
  moreover from this have "commit_id env ex1 = commit_id env ex"
    using sink_only_fields(1,2) [of ex ex1] by (simp add: commit_id_def fun_eq_iff)
  ultimately show ?case using Cons.IH [OF rest] by (auto intro: sink_only_trans)
qed (simp add: sink_only_refl)

lemma store_batch_frame:
  "st_cp (fold (store_task tid) batch st) = st_cp st \<and> st_md (fold (store_task tid) batch st) = st_md st \<and>
   st_parent (fold (store_task tid) batch st) = st_parent st"
  by (induction batch arbitrary: st) (simp_all add: store_task_def split: sum.split)

lemma store_batch_from:
  "w \<in> set (st_writes (fold (store_task tid) batch st)) \<Longrightarrow>
   w \<in> set (st_writes st) \<or> (\<exists>(t, oc) \<in> set batch. \<exists>ws w0. completed_task_writes (oc_update oc) (oc_cmd oc) = Inr ws \<and>
     w0 \<in> set ws \<and> w = stamp (tid t) (tk_path t) w0)"
proof (induction batch arbitrary: st)
  case (Cons x batch)
  obtain t oc where x: "x = (t, oc)" by fastforce
  have one: "w \<in> set (st_writes (store_task tid x st)) \<Longrightarrow> w \<in> set (st_writes st) \<or>
      (\<exists>ws w0. completed_task_writes (oc_update oc) (oc_cmd oc) = Inr ws \<and> w0 \<in> set ws \<and> w = stamp (tid t) (tk_path t) w0)"
    by (cases "completed_task_writes (oc_update oc) (oc_cmd oc)") (auto simp: store_task_def x dest: put_writes_from)
  show ?case using Cons.IH [of "store_task tid x st"] Cons.prems one by (auto simp: x)
qed simp

lemma store_task_inv: "slots_inv st \<Longrightarrow> slots_inv (store_task tid x st)"
  by (simp add: store_task_def put_writes_inv split: sum.split)

lemma store_batch_task_set:
  assumes "slots_inv st" and "(t, oc) \<in> set batch" and "completed_task_writes (oc_update oc) (oc_cmd oc) = Inr ws" and "ws \<noteq> []"
  shows "tid t \<in> w_task ` set (st_writes (fold (store_task tid) batch st))"
proof -
  have keeps: "a \<in> w_task ` set (st_writes (fold (store_task tid) batch st))"
    if "slots_inv st" "a \<in> w_task ` set (st_writes st)" for a batch st
    using that
  proof (induction batch arbitrary: st)
    case (Cons x batch)
    then have "a \<in> w_task ` set (st_writes (store_task tid x st))"
      by (auto simp: store_task_def put_writes_task_set split: sum.split)
    with Cons store_task_inv [OF Cons.prems(1)] show ?case by simp
  qed simp
  from assms(1,2) show ?thesis
  proof (induction batch arbitrary: st)
    case (Cons x batch)
    show ?case
    proof (cases "x = (t, oc)")
      case True
      then have "tid t \<in> w_task ` set (st_writes (store_task tid x st))"
        using assms(3,4) Cons.prems(1) by (simp add: store_task_def put_writes_task_set)
      then show ?thesis using keeps [OF store_task_inv [OF Cons.prems(1)]] by simp
    next
      case False
      then show ?thesis using Cons store_task_inv [OF Cons.prems(1), of tid x] by simp
    qed
  qed simp
qed

subsection \<open>A run that stops after a commit\<close>

lemma mint_id_nonempty [simp]: "mint_id env n \<noteq> []"
  by (simp add: mint_id_def new_id_def split: prod.split)

lemma task_id_nonempty [simp]: "task_id cid step node arg \<noteq> []"
  using length_task_id [of cid step node arg] by (metis list.size(3) zero_neq_numeral)

lemma slots_inv_empty [simp]: "st_writes st = [] \<Longrightarrow> st_slots st = [] \<Longrightarrow> slots_inv st"
  by (simp add: slots_inv_def)

definition planned_as :: "(gtask \<Rightarrow> string) \<Rightarrow> gtask list \<Rightarrow> planned_task list" where
  "planned_as tid nexts =
     map (\<lambda>t. \<lparr>pt_id = tid t, pt_node = tk_node t, pt_arg = tk_arg t\<rparr>) (active_tasks nexts)"

definition unused_id :: "memory_saver run_env \<Rightarrow> memory_saver exec \<Rightarrow> bool" where
  "unused_id env ex \<longleftrightarrow>
     map_of (ms_ns (snd (ex_saver ex)) \<lparr>cfg_thread = re_thread env, cfg_ns = re_ns env, cfg_id = []\<rparr>)
       (mint_id env (ex_minted ex)) = None"

text \<open>What the record of a committed checkpoint says of the run that saved it.\<close>

definition saved_position :: "memory_saver run_env \<Rightarrow> memory_saver exec \<Rightarrow> memory_saver exec \<Rightarrow> stored \<Rightarrow> bool" where
  "saved_position env ex ex' st \<longleftrightarrow>
     cp_id (st_cp st) = cfg_id (ex_cfg ex') \<and>
     cfg_thread (ex_cfg ex') = re_thread env \<and> cfg_ns (ex_cfg ex') = re_ns env \<and>
     cp_versions (st_cp st) = rs_versions (ex_rs ex') \<and> cp_seen (st_cp st) = rs_seen (ex_rs ex') \<and>
     md_step (st_md st) = rs_step (ex_rs ex') \<and>
     md_counters (st_md st) = non_zero_counters (rs_delta_counters (ex_rs ex')) \<and>
     cp_values (st_cp st) = checkpoint_values (fst (saved_parts env False [] ''loop'' ex)) (ex_rs ex) \<and>
     rs_channels (ex_rs ex') = rs_channels (ex_rs ex)"

lemma committed_in_memory:
  assumes "save_committed cg env batch nexts ex = (ex', None)" and "re_checkpointing env" and "mem_ok env ex"
    and "unused_id env ex"
  shows "\<exists>st0. let st = fold (store_task (commit_id env ex')) batch st0 in
    in_memory env ex' st \<and> st_writes st0 = [] \<and> st_slots st0 = [] \<and> ex_tasks ex' = nexts \<and>
    cp_next (st_cp st) = planned_as (commit_id env ex') nexts \<and> saved_position env ex ex' st"
proof -
  let ?save = "save_checkpoint env False [] ''loop'' (rs_step (ex_rs ex)) (planned_tasks nexts) ex"
  obtain ex1 st0 where save: "?save = (ex1, Inr ())" "in_memory env ex1 st0"
    and cfg: "ex_cfg ex1 = \<lparr>cfg_thread = re_thread env, cfg_ns = re_ns env, cfg_id = mint_id env (ex_minted ex)\<rparr>"
    and cp: "st_cp st0 = checkpoint_of env (fst (saved_parts env False [] ''loop'' ex)) (mint_id env (ex_minted ex))
        (rs_step (ex_rs ex)) (planned_tasks nexts) ex"
    and fresh: "map_of (ms_ns (snd (ex_saver ex)) (ex_cfg ex1)) (mint_id env (ex_minted ex)) = None \<longrightarrow>
        st_writes st0 = [] \<and> st_slots st0 = []"
    and rs: "ex_rs ex1 = (ex_rs ex)\<lparr>rs_delta_counters := snd (saved_parts env False [] ''loop'' ex), rs_delta_overwrite := []\<rparr>"
    and md: "st_md st0 = \<lparr>md_source = ''loop'', md_step = rs_step (ex_rs ex), md_run_id = [], md_parents = re_parents env,
        md_counters = non_zero_counters (snd (saved_parts env False [] ''loop'' ex))\<rparr>"
    using save_in_memory [OF assms(3) mint_id_nonempty, of False "[]" "''loop''" "rs_step (ex_rs ex)" "planned_tasks nexts"]
    by (elim exE conjE) (rule that)
  obtain ex2 where puts: "put_all (put_task_writes cg env put_writes) batch ex1 = (ex2, Inr ())"
    and ex': "ex' = ex2\<lparr>ex_tasks := nexts\<rparr>"
    using assms(1,2) save(1) by (auto simp: save_committed_def split: prod.splits sum.splits)
  note stored = put_batch_in_memory [OF puts save(2)]
  have keep: "ex_cfg ex' = ex_cfg ex1" "ex_rs ex' = ex_rs ex1" "ex_saver ex' = ex_saver ex2"
    using stored sink_only_fields(1,2) [of ex1 ex2] by (simp_all add: ex')
  have ids: "commit_id env ex1 = commit_id env ex'" by (simp add: commit_id_def keep fun_eq_iff)
  have "ms_ns (snd (ex_saver ex)) (ex_cfg ex1) =
      ms_ns (snd (ex_saver ex)) \<lparr>cfg_thread = re_thread env, cfg_ns = re_ns env, cfg_id = []\<rparr>"
    unfolding cfg by (rule same_ns_ms_ns) (simp add: same_ns_def)
  with fresh assms(4) have empty: "st_writes st0 = []" "st_slots st0 = []" by (simp_all add: unused_id_def)
  have "in_memory env ex' (fold (store_task (commit_id env ex')) batch st0)"
    using stored by (simp add: ids in_memory_def mem_ok_def keep ex')
  moreover have "cp_next (st_cp st0) = planned_as (commit_id env ex') nexts"
    by (simp add: cp checkpoint_of_def planned_tasks_def planned_as_def commit_id_def keep cfg rs)
  moreover have "saved_position env ex ex' st0"
    by (simp add: saved_position_def keep cfg rs cp md checkpoint_of_def)
  ultimately show ?thesis
    using empty store_batch_frame [of "commit_id env ex'" batch st0] by (auto simp: Let_def ex' saved_position_def)
qed

text \<open>What the pending writes say of a task that stored nothing, and of one that stored its work.\<close>

definition work_write :: "cp_write \<Rightarrow> bool" where
  "work_write w \<longleftrightarrow> (if w_channel w = reserved_tasks then \<exists>n a. w_value w = VSend n a
     else w_channel w \<notin> {reserved_interrupt, reserved_resume, reserved_error})"

lemma record_of_work:
  assumes "\<forall>w \<in> set ws. work_write w"
  shows "let r = fold record_write ws \<lparr>tr_interrupts = [], tr_prefix = [], tr_sends = [], tr_update = [], tr_error = []\<rparr>
    in tr_interrupts r = [] \<and> tr_error r = [] \<and> (tr_update r \<noteq> [] \<or> tr_sends r \<noteq> [] \<longleftrightarrow> ws \<noteq> [])"
  using assms
proof (induction ws rule: rev_induct)
  case (snoc w ws)
  have "mput k v m \<noteq> []" for k and v :: gval and m :: gstate by (metis map_of_mput fun_upd_same map_of.simps(1) option.distinct(1))
  with snoc show ?case by (auto simp: record_write_def work_write_def Let_def reserved_defs)
qed (simp add: Let_def)

lemma completed_are_work:
  assumes "completed_task_writes upd cmd = Inr ws" and "fst ` set upd \<inter> {reserved_tasks, reserved_interrupt, reserved_resume, reserved_error} = {}"
    and "w \<in> set ws"
  shows "work_write w"
proof -
  obtain ss where ws: "ws = map (\<lambda>k. channel_write k (mgetd upd k VNil)) (mkeys upd) @
      map (\<lambda>s. channel_write reserved_tasks (send_val s)) ss"
    by (rule completed_task_writesE [OF assms(1)])
  from assms(3) have "w \<in> (\<lambda>k. channel_write k (mgetd upd k VNil)) ` set (mkeys upd) \<or>
      w \<in> (\<lambda>s. channel_write reserved_tasks (send_val s)) ` set ss"
    unfolding ws set_append set_map by blast
  then consider "w_channel w \<in> fst ` set upd" | s where "w = channel_write reserved_tasks (send_val s)"
    by (elim disjE imageE) simp_all
  then show ?thesis
  proof cases
    case 1
    with assms(2) have "w_channel w \<notin> {reserved_tasks, reserved_interrupt, reserved_resume, reserved_error}" by blast
    then show ?thesis by (simp add: work_write_def)
  qed (simp add: work_write_def send_val_def)
qed

lemma plan_fold_ok:
  assumes "\<forall>ipt \<in> set nexts. \<not> reruns_handler ws (snd ipt)"
  shows "\<exists>p. rfold (plan_step has_handler ws resume graph_ns) nexts acc = Inr p"
  using assms
proof (induction nexts arbitrary: acc)
  case (Cons ipt nexts)
  obtain i pt plan sends where [simp]: "ipt = (i, pt)" "acc = (plan, sends)" by (metis surj_pair)
  have "\<exists>p. plan_step has_handler ws resume graph_ns ipt acc = Inr p"
    using Cons.prems by (simp add: plan_step_def reruns_handler_def Let_def)
  with Cons show ?case by auto
qed simp

lemma in_active: "t \<in> set (active_tasks nexts) \<longleftrightarrow> t \<in> set nexts \<and> tk_node t \<noteq> end_node"
  by (auto simp: active_tasks_def)

lemma planned_as_reruns:
  assumes "\<forall>t \<in> set nexts. t = plain_task (tk_node t) (tk_arg t)"
    and "\<forall>t \<in> set (active_tasks nexts). task_record_of ws (tid t) =
      \<lparr>tr_interrupts = [], tr_prefix = [], tr_sends = [], tr_update = [], tr_error = []\<rparr>"
  shows "planned_reruns ws (enumerate 0 (planned_as tid nexts)) =
      map2 (\<lambda>t u. u\<lparr>tk_id := tid t\<rparr>) (active_tasks nexts) (stamp_paths (active_tasks nexts))
    \<and> (\<forall>ipt \<in> set (enumerate 0 (planned_as tid nexts)). \<not> replays ws (snd ipt) \<and> \<not> reruns_handler ws (snd ipt))"
proof (rule conjI)
  let ?next = "enumerate 0 (planned_as tid nexts)"
  have none: "pt_node (snd ipt) \<noteq> end_node \<and> \<not> replays ws (snd ipt) \<and> \<not> reruns_handler ws (snd ipt)" if "ipt \<in> set ?next" for ipt
  proof -
    from that have "snd ipt \<in> set (planned_as tid nexts)" by (metis enumerate_eq_zip prod.collapse set_zip_rightD)
    then obtain t where "t \<in> set (active_tasks nexts)" "snd ipt = \<lparr>pt_id = tid t, pt_node = tk_node t, pt_arg = tk_arg t\<rparr>"
      by (auto simp: planned_as_def)
    with assms(2) show ?thesis by (simp add: replays_def reruns_handler_def in_active Let_def)
  qed
  then show "\<forall>ipt \<in> set ?next. \<not> replays ws (snd ipt) \<and> \<not> reruns_handler ws (snd ipt)" by blast
  have "filter (\<lambda>ipt. pt_node (snd ipt) \<noteq> end_node \<and> \<not> replays ws (snd ipt)) ?next = ?next"
    by (rule filter_True) (use none in blast)
  then have "planned_reruns ws ?next = map (rerun_task ws) ?next" by (simp add: planned_reruns_def)
  also have "\<dots> = map2 (\<lambda>t u. u\<lparr>tk_id := tid t\<rparr>) (active_tasks nexts) (stamp_paths (active_tasks nexts))" (is "_ = ?tasks")
  proof (rule nth_equalityI)
    show "length (map (rerun_task ws) ?next) = length ?tasks" by (simp add: planned_as_def stamp_paths_def)
  next
    fix i
    assume "i < length (map (rerun_task ws) ?next)"
    then have i: "i < length (active_tasks nexts)" by (simp add: planned_as_def)
    let ?t = "active_tasks nexts ! i"
    have "?t \<in> set nexts" using i nth_mem in_active by blast
    with assms(1) have plain: "?t = plain_task (tk_node ?t) (tk_arg ?t)" by blast
    then have "tk_path ?t = []" "tk_run_handler ?t = False" "tk_err_msg ?t = []" by (metis gtask.select_convs plain_task_def)+
    moreover have "?next ! i = (i, \<lparr>pt_id = tid ?t, pt_node = tk_node ?t, pt_arg = tk_arg ?t\<rparr>)"
      using i by (simp add: nth_enumerate_eq planned_as_def)
    moreover have "\<not> reruns_handler ws \<lparr>pt_id = tid ?t, pt_node = tk_node ?t, pt_arg = tk_arg ?t\<rparr>"
    proof -
      have "?next ! i \<in> set ?next" using i by (intro nth_mem) (simp add: planned_as_def)
      from none [OF this] calculation(4) show ?thesis by simp
    qed
    ultimately show "map (rerun_task ws) ?next ! i = ?tasks ! i"
      using i plain by (simp add: rerun_task_def planned_gtask_def stamp_paths_def nth_enumerate_eq planned_as_def Let_def)
  qed
  finally show "planned_reruns ws ?next = ?tasks" .
qed

text \<open>
  When no task of the committed superstep shares its identity with a successor, the plan of a resume
  from the checkpoint the saver holds replays nothing and dispatches the very tasks the run was about
  to dispatch, on the same paths and under the identities it would have used.
\<close>

lemma stopped_run_plan:
  assumes "save_committed cg env batch nexts ex = (ex', None)" and "re_checkpointing env" and "mem_ok env ex"
    and "unused_id env ex" and "\<forall>t \<in> set nexts. t = plain_task (tk_node t) (tk_arg t)"
    and "\<forall>x \<in> set batch. \<forall>t \<in> set nexts. commit_id env ex' (fst x) \<noteq> commit_id env ex' t"
  shows "\<exists>st plan. in_memory env ex' st \<and> saved_position env ex ex' st \<and>
    plan_resume has_handler (ms_tuple (ex_cfg ex') st) VNil [] = Inr plan \<and> pl_replay plan = [] \<and> pl_replayed plan = [] \<and>
    (let ts = stamp_paths (active_tasks (ex_tasks ex'))
     in pl_tasks plan = map (\<lambda>t. t\<lparr>tk_id := planned_id (re_dump env) t (cfg_id (ex_cfg ex')) (rs_step (ex_rs ex') + 1)\<rparr>) ts)"
proof -
  obtain st0 st where st: "st = fold (store_task (commit_id env ex')) batch st0"
    and mem: "in_memory env ex' st" and new: "st_writes st0 = []" "st_slots st0 = []" "ex_tasks ex' = nexts"
      "cp_next (st_cp st) = planned_as (commit_id env ex') nexts" and pos: "saved_position env ex ex' st"
    using committed_in_memory [OF assms(1-4)] by (auto simp: Let_def)
  let ?tup = "ms_tuple (ex_cfg ex') st"
  have tup: "tup_writes ?tup = st_writes st" "cp_next (tup_checkpoint ?tup) = planned_as (commit_id env ex') nexts"
    by (simp_all add: ms_tuple_def new(4))
  have rec: "task_record_of (st_writes st) (commit_id env ex' t) =
      \<lparr>tr_interrupts = [], tr_prefix = [], tr_sends = [], tr_update = [], tr_error = []\<rparr>"
    if "t \<in> set (active_tasks nexts)" for t
  proof -
    have "filter (\<lambda>w. w_task w = commit_id env ex' t) (st_writes st) = []"
      using store_batch_from [of _ "commit_id env ex'" batch st0] assms(6) that
      by (fastforce simp: filter_empty_conv st new in_active)
    then show ?thesis by (simp add: task_record_of_def)
  qed
  note fates = planned_as_reruns [OF assms(5), of "st_writes st" "commit_id env ex'"]
  have reruns: "planned_reruns (st_writes st) (enumerate 0 (planned_as (commit_id env ex') nexts)) =
      map2 (\<lambda>t u. u\<lparr>tk_id := commit_id env ex' t\<rparr>) (active_tasks nexts) (stamp_paths (active_tasks nexts))"
    and none: "\<forall>ipt \<in> set (enumerate 0 (planned_as (commit_id env ex') nexts)).
      \<not> replays (st_writes st) (snd ipt) \<and> \<not> reruns_handler (st_writes st) (snd ipt)"
    using fates rec by blast+
  obtain p where "rfold (plan_step has_handler (st_writes st) VNil []) (enumerate 0 (planned_as (commit_id env ex') nexts)) (empty_plan, []) = Inr p"
    using plan_fold_ok [of _ "st_writes st" has_handler VNil "[]" "(empty_plan, [])"] none by blast
  then obtain plan where plan: "plan_resume has_handler ?tup VNil [] = Inr plan"
    by (cases p) (simp add: plan_resume_def pending_for_def scalar_resume_def tup)
  note parts = plan_resume_Inr [OF plan, unfolded tup]
  have no_sends: "filter (\<lambda>ipt. replays (st_writes st) (snd ipt)) (enumerate 0 (planned_as (commit_id env ex') nexts)) = []"
    using none by (simp add: filter_empty_conv)
  have "pl_replay plan = []" "pl_replayed plan = []" unfolding parts(2,3) planned_replays_def no_sends by simp_all
  moreover have "pl_tasks plan = map2 (\<lambda>t u. u\<lparr>tk_id := commit_id env ex' t\<rparr>) (active_tasks nexts) (stamp_paths (active_tasks nexts))"
    unfolding parts(1) reruns planned_sends_def no_sends by (simp add: number_sends_def)
  moreover have "\<dots> = map (\<lambda>t. t\<lparr>tk_id := planned_id (re_dump env) t (cfg_id (ex_cfg ex')) (rs_step (ex_rs ex') + 1)\<rparr>)
      (stamp_paths (active_tasks nexts))" (is "?a = ?b")
  proof (rule nth_equalityI)
    fix i
    assume "i < length ?a"
    then have i: "i < length (active_tasks nexts)" by (simp add: stamp_paths_def)
    let ?t = "active_tasks nexts ! i"
    have "?t \<in> set nexts" using i nth_mem in_active by blast
    with assms(5) have "tk_id ?t = []" by (metis gtask.select_convs(1) plain_task_def)
    then show "?a ! i = ?b ! i"
      using i by (simp add: stamp_paths_def nth_enumerate_eq planned_id_def commit_id_def)
  qed (simp add: stamp_paths_def)
  ultimately show ?thesis
    using plan mem pos by (auto simp: Let_def new(3))
qed

text \<open>Over the memory saver a commit fails only when a command routes to something that is no destination.\<close>

lemma put_batch_ok:
  assumes "in_memory env ex st" and "\<forall>x \<in> set batch. \<not> isl (completed_task_writes (oc_update (snd x)) (oc_cmd (snd x)))"
  shows "\<exists>ex'. put_all (put_task_writes cg env put_writes) batch ex = (ex', Inr ())"
  using assms
proof (induction batch arbitrary: ex st)
  case (Cons x batch)
  obtain t oc where x: "x = (t, oc)" by fastforce
  obtain ws where ws: "completed_task_writes (oc_update oc) (oc_cmd oc) = Inr ws"
    using Cons.prems(2) by (cases "completed_task_writes (oc_update oc) (oc_cmd oc)") (auto simp: x)
  obtain ex2 where put: "put_writes env ws (commit_id env ex t) (tk_path t) (delta_batch cg ws) ex = (ex2, Inr ())"
    and mem: "in_memory env ex2 (put_writes_stored (commit_id env ex t) (tk_path t) ws st)"
    using put_writes_in_memory [OF Cons.prems(1)] by blast
  have "\<exists>ex1 st1. put_task_writes cg env put_writes x ex = (ex1, Inr ()) \<and> in_memory env ex1 st1"
    using put mem ws Cons.prems(1) by (cases "ws = []") (auto simp: put_task_writes_def x Let_def commit_id_def)
  then obtain ex1 st1 where one: "put_task_writes cg env put_writes x ex = (ex1, Inr ())" "in_memory env ex1 st1" by blast
  from Cons.IH [OF one(2)] Cons.prems(2) one(1) show ?case by simp
qed simp

lemma save_committed_ok:
  assumes "mem_ok env ex" and "re_checkpointing env"
    and "\<forall>x \<in> set batch. \<not> isl (completed_task_writes (oc_update (snd x)) (oc_cmd (snd x)))"
  shows "\<exists>ex'. save_committed cg env batch nexts ex = (ex', None)"
proof -
  obtain ex1 st0 where save: "save_checkpoint env False [] ''loop'' (rs_step (ex_rs ex)) (planned_tasks nexts) ex = (ex1, Inr ())"
    and mem: "in_memory env ex1 st0"
    using save_in_memory [OF assms(1) mint_id_nonempty, of False "[]" "''loop''" "rs_step (ex_rs ex)" "planned_tasks nexts"]
    by (elim exE conjE) (rule that)
  obtain ex2 where "put_all (put_task_writes cg env put_writes) batch ex1 = (ex2, Inr ())"
    using put_batch_ok [OF mem assms(3)] by blast
  with save assms(2) show ?thesis by (simp add: save_committed_def)
qed

text \<open>Node a has run and node b comes next.\<close>

definition demo_batch :: "(gtask \<times> task_result) list" where
  "demo_batch = [(plain_task ''a'' None, normal_result (Inr ([(''x'', VInt 1)], None)) None)]"

lemma demo_mem: "mem_ok demo_run_env demo_exec" "re_checkpointing demo_run_env" "unused_id demo_run_env demo_exec"
  "\<forall>x \<in> set demo_batch. \<not> isl (completed_task_writes (oc_update (snd x)) (oc_cmd (snd x)))"
  by (simp_all add: mem_ok_def unused_id_def demo_run_env_def demo_exec_def new_sync_sink_def new_memory_saver_def ms_ns_def
      demo_batch_def normal_result_def completed_task_writes_def)

lemma put_batch_needs_ok:
  "put_all (put_task_writes cg env put_writes) batch ex = (ex', Inr ()) \<Longrightarrow> x \<in> set batch \<Longrightarrow>
   \<not> isl (completed_task_writes (oc_update (snd x)) (oc_cmd (snd x)))"
proof (induction batch arbitrary: ex)
  case (Cons y batch)
  obtain ex1 where "put_task_writes cg env put_writes y ex = (ex1, Inr ())"
    and rest: "put_all (put_task_writes cg env put_writes) batch ex1 = (ex', Inr ())"
    using Cons.prems(1) by (auto split: prod.splits sum.splits)
  then have "\<not> isl (completed_task_writes (oc_update (snd y)) (oc_cmd (snd y)))"
    by (auto simp: put_task_writes_def Let_def split: prod.splits sum.splits)
  with Cons.IH [OF rest] Cons.prems(2) show ?case by auto
qed simp

lemma mkeys_eq_Nil [simp]: "mkeys m = [] \<longleftrightarrow> m = []"
  by (metis image_is_empty mkeys_Nil set_empty set_mkeys)

text \<open>
  A node that loops on itself does not get its next turn when the run resumes from a committed
  checkpoint. The writes of the committed task are stored under the identity of its successor of the
  same node and argument, so the resume takes the successor for finished: it is replayed and not
  dispatched.
\<close>

theorem self_loop_is_replayed_on_resume:
  assumes "save_committed cg env batch nexts ex = (ex', None)" and "re_checkpointing env" and "mem_ok env ex"
    and "unused_id env ex"
    and "\<forall>(t, oc) \<in> set batch. fst ` set (oc_update oc) \<inter> {reserved_tasks, reserved_interrupt, reserved_resume, reserved_error} = {}"
    and "(t, oc) \<in> set batch" and "oc_update oc \<noteq> []"
    and "again \<in> set nexts" and "tk_node again = tk_node t" and "tk_arg again = tk_arg t" and "tk_node t \<noteq> end_node"
  shows "\<exists>tup plan. ms_get_tuple (snd (ex_saver ex')) (ex_cfg ex') = Some tup \<and>
    plan_resume has_handler tup VNil [] = Inr plan \<and>
    commit_id env ex' again \<in> set (pl_replayed plan) \<and> commit_id env ex' again \<notin> tk_id ` set (pl_tasks plan)"
proof -
  let ?id = "commit_id env ex'"
  obtain st0 st where st: "st = fold (store_task ?id) batch st0"
    and mem: "in_memory env ex' st" and new: "st_writes st0 = []" "st_slots st0 = []" "ex_tasks ex' = nexts"
      "cp_next (st_cp st) = planned_as ?id nexts"
    using committed_in_memory [OF assms(1-4)] by (auto simp: Let_def)
  let ?tup = "ms_tuple (ex_cfg ex') st"
  have tup: "tup_writes ?tup = st_writes st" "cp_next (tup_checkpoint ?tup) = planned_as ?id nexts"
    by (simp_all add: ms_tuple_def new(4))
  have work: "work_write w" if "w \<in> set (st_writes st)" for w
  proof -
    obtain u uoc ws w0 where from_batch: "(u, uoc) \<in> set batch" "completed_task_writes (oc_update uoc) (oc_cmd uoc) = Inr ws"
      "w0 \<in> set ws" "w = stamp (?id u) (tk_path u) w0"
      using store_batch_from [of w ?id batch st0, folded st] \<open>w \<in> set (st_writes st)\<close> by (auto simp: new)
    with assms(5) have "work_write w0" by (intro completed_are_work [OF from_batch(2) _ from_batch(3)]) blast
    with from_batch(4) show ?thesis by (simp add: work_write_def stamp_def split: if_splits)
  qed
  have rec: "let r = task_record_of (st_writes st) tid
      in tr_interrupts r = [] \<and> tr_error r = [] \<and> (tr_update r \<noteq> [] \<or> tr_sends r \<noteq> [] \<longleftrightarrow> tid \<in> w_task ` set (st_writes st))" for tid
    using record_of_work [of "filter (\<lambda>w. w_task w = tid) (st_writes st)"] work
    by (auto simp: task_record_of_def Let_def filter_empty_conv image_iff)
  have no_handler: "\<not> reruns_handler (st_writes st) pt" for pt
    using rec [of "pt_id pt"] by (simp add: reruns_handler_def Let_def)
  obtain p where "rfold (plan_step has_handler (st_writes st) VNil []) (enumerate 0 (planned_as ?id nexts)) (empty_plan, []) = Inr p"
    using plan_fold_ok [of _ "st_writes st" has_handler VNil "[]" "(empty_plan, [])"] no_handler by blast
  then obtain plan where plan: "plan_resume has_handler ?tup VNil [] = Inr plan"
    by (cases p) (simp add: plan_resume_def pending_for_def scalar_resume_def tup)
  obtain ex1 ex2 where "put_all (put_task_writes cg env put_writes) batch ex1 = (ex2, Inr ())"
    using assms(1,2) by (auto simp: save_committed_def split: prod.splits sum.splits)
  from put_batch_needs_ok [OF this assms(6)] obtain ws where ws: "completed_task_writes (oc_update oc) (oc_cmd oc) = Inr ws"
    by (cases "completed_task_writes (oc_update oc) (oc_cmd oc)") simp_all
  have "ws \<noteq> []" by (rule completed_task_writesE [OF ws]) (use assms(7) in simp)
  then have "?id t \<in> w_task ` set (st_writes st)"
    unfolding st using store_batch_task_set [OF slots_inv_empty [OF new(1,2)] assms(6) ws] by blast
  moreover have id: "?id again = ?id t" by (simp add: commit_id_def assms(9,10))
  ultimately have replay: "replays (st_writes st) \<lparr>pt_id = ?id again, pt_node = tk_node again, pt_arg = tk_arg again\<rparr>"
    using rec [of "?id t"] assms(9,11) by (simp add: replays_def Let_def)
  have "again \<in> set (active_tasks nexts)" using assms(8,9,11) by (simp add: in_active)
  then obtain i where i: "i < length (planned_as ?id nexts)"
    "planned_as ?id nexts ! i = \<lparr>pt_id = ?id again, pt_node = tk_node again, pt_arg = tk_arg again\<rparr>"
    by (auto simp: planned_as_def in_set_conv_nth)
  note fates = plan_fates [OF plan, unfolded tup, OF i(1) i(2) [symmetric]]
  have "?id again \<in> set (pl_replayed plan)"
    using fates(1) replay assms(9,11) by (simp add: replays_def commit_id_def)
  moreover have "?id again \<notin> tk_id ` set (pl_tasks plan)"
  proof
    assume "?id again \<in> tk_id ` set (pl_tasks plan)"
    then obtain u where u: "u \<in> set (pl_tasks plan)" "tk_id u = ?id again" by auto
    then have "u \<in> set (planned_reruns (st_writes st) (enumerate 0 (planned_as ?id nexts)))"
      using plan_resume_Inr(1) [OF plan, unfolded tup] number_sends_id [of u] by (auto simp: commit_id_def)
    with u(2) replay show False by (auto simp: in_planned_reruns replays_def Let_def)
  qed
  ultimately show ?thesis using plan in_memory_tuple [OF mem] by blast
qed

lemma self_loop_is_replayed_on_resume_witness:
  "\<exists>ex' tup plan. save_committed demo_graph demo_run_env demo_batch [plain_task ''a'' None] demo_exec = (ex', None) \<and>
     ms_get_tuple (snd (ex_saver ex')) (ex_cfg ex') = Some tup \<and>
     plan_resume (\<lambda>_. False) tup VNil [] = Inr plan \<and> commit_id demo_run_env ex' (plain_task ''a'' None) \<in> set (pl_replayed plan)"
proof -
  let ?again = "plain_task ''a'' None" and ?oc = "normal_result (Inr ([(''x'', VInt 1)], None)) None"
  obtain ex' where run: "save_committed demo_graph demo_run_env demo_batch [?again] demo_exec = (ex', None)"
    using save_committed_ok [OF demo_mem(1,2,4)] by blast
  have upd: "\<forall>(t, oc) \<in> set demo_batch. fst ` set (oc_update oc) \<inter> {reserved_tasks, reserved_interrupt, reserved_resume, reserved_error} = {}"
    by (simp add: demo_batch_def normal_result_def reserved_defs)
  have mine: "(?again, ?oc) \<in> set demo_batch" "oc_update ?oc \<noteq> []" by (simp_all add: demo_batch_def normal_result_def)
  have node: "tk_node ?again \<noteq> end_node" by (simp add: plain_task_def end_node_def)
  from self_loop_is_replayed_on_resume [OF run demo_mem(2,1,3) upd mine, of ?again "\<lambda>_. False", OF _ refl refl node] run
  show ?thesis by auto
qed

subsection \<open>The cadence of delta snapshots\<close>

lemma advance_counter:
  assumes "map_of protos k = Some p" and "is_delta p"
  shows "mgetd (advance_delta_counters protos prev updated) k (0, 0) =
    (fst (mgetd prev k (0, 0)) + (if k \<in> set updated then 1 else 0), snd (mgetd prev k (0, 0)) + 1)"
  using assms by (auto simp: advance_delta_counters_def mgetd_def [of "mbuild _ _"] in_mkeys_iff simp del: set_mkeys split: prod.split)

lemma reset_counter: "mgetd (reset_counters ks m) k (0, 0) = (if k \<in> set ks then (0, 0) else mgetd m k (0, 0))"
  unfolding reset_counters_def by (induction ks arbitrary: m) auto

lemma stored_counter: "mgetd (non_zero_counters m) k (0, 0) = mgetd m k (0, 0)"
  by (cases "map_of m k") (auto simp: non_zero_counters_def mgetd_def in_mkeys_iff simp del: set_mkeys)

lemma blob_exists: "dc_set d \<Longrightarrow> \<exists>b. dc_snapshot_blob d = Some b"
  by (simp add: dc_snapshot_blob_def)

text \<open>
  C11: how often delta channels are snapshotted. For every delta channel that holds a value a save
  either stores its snapshot and starts both of its counters over, or stores nothing for it; then its
  supersteps went up by one, and its updates by one exactly when this superstep updated it, and unless the
  save is the one of a pause that suppresses the channel, fewer updates than its frequency and fewer
  supersteps than the cap have passed since its last snapshot, it was not overwritten, and the save is
  not that of an update by hand. The save of a pause never snapshots a suppressed channel: its counters
  go on, past both limits if need be, until the next save that does not suppress it. The counters travel
  with the checkpoint's metadata.
\<close>

theorem delta_cadence_is_bounded:
  assumes "save_checkpoint env pause suppress source step nexts ex = (ex', r)" and "mem_ok env ex"
    and "map_of (rs_protos (ex_rs ex)) k = Some p" and "is_delta p"
    and "map_of (rs_channels (ex_rs ex)) k = Some (CDelta d)" and "dc_set d"
  shows "\<exists>tup u s. r = Inr () \<and> ms_get_tuple (snd (ex_saver ex')) (ex_cfg ex') = Some tup \<and>
    mgetd (rs_delta_counters (ex_rs ex')) k (0, 0) = (u, s) \<and> mgetd (md_counters (tup_metadata tup)) k (0, 0) = (u, s) \<and>
    (if map_of (cp_values (tup_checkpoint tup)) k = None
     then u = fst (mgetd (rs_delta_counters (ex_rs ex)) k (0, 0)) + (if k \<in> set (rs_updated (ex_rs ex)) then 1 else 0) \<and>
       s = snd (mgetd (rs_delta_counters (ex_rs ex)) k (0, 0)) + 1 \<and>
       (pause \<and> k \<in> set suppress \<or>
        u < dc_frequency d \<and> s < delta_max_supersteps \<and> k \<notin> set (rs_delta_overwrite (ex_rs ex)) \<and> source \<noteq> ''update'')
     else map_of (cp_values (tup_checkpoint tup)) k = dc_snapshot_blob d \<and> u = 0 \<and> s = 0 \<and>
       \<not> (pause \<and> k \<in> set suppress))"
proof -
  let ?rs = "ex_rs ex" and ?old = "mgetd (rs_delta_counters (ex_rs ex)) k (0, 0)"
  let ?adv = "advance_delta_counters (rs_protos ?rs) (rs_delta_counters ?rs) (rs_updated ?rs)"
  let ?snaps = "snapshot_keys ?rs ?adv source pause suppress"
  have parts: "saved_parts env pause suppress source ex = (?snaps, reset_counters ?snaps ?adv)"
    by (simp add: saved_parts_def Let_def)
  obtain ex1 st where save: "save_checkpoint env pause suppress source step nexts ex = (ex1, Inr ())"
    and mem: "in_memory env ex1 st"
    and cp: "st_cp st = checkpoint_of env ?snaps (mint_id env (ex_minted ex)) step nexts ex"
    and md: "st_md st = \<lparr>md_source = source, md_step = step, md_run_id = [], md_parents = re_parents env,
        md_counters = non_zero_counters (reset_counters ?snaps ?adv)\<rparr>"
    and rs: "ex_rs ex1 = ?rs\<lparr>rs_delta_counters := reset_counters ?snaps ?adv, rs_delta_overwrite := []\<rparr>"
    using save_in_memory [OF assms(2) mint_id_nonempty, of pause suppress source step nexts, unfolded parts fst_conv snd_conv]
    by (elim exE conjE) (rule that)
  obtain b where b: "dc_snapshot_blob d = Some b" using blob_exists [OF assms(6)] by blast
  have ch: "channel_for ?rs k = CDelta d" by (simp add: channel_for_def assms(5))
  have stored: "map_of (cp_values (st_cp st)) k = (if k \<in> set ?snaps then Some b else None)"
    using assms(5,6) b by (auto simp: cp checkpoint_of_def checkpoint_values_def ch as_delta_def is_delta_def dc_defs
        in_mkeys_iff simp del: set_mkeys)
  have counts: "mgetd (reset_counters ?snaps ?adv) k (0, 0) =
      (if k \<in> set ?snaps then (0, 0) else (fst ?old + (if k \<in> set (rs_updated ?rs) then 1 else 0), snd ?old + 1))"
    unfolding reset_counter by (simp add: advance_counter [OF assms(3,4)])
  have snaps: "k \<in> set ?snaps \<longleftrightarrow> \<not> (pause \<and> k \<in> set suppress) \<and>
      (fst (mgetd ?adv k (0, 0)) \<ge> dc_frequency d \<or> snd (mgetd ?adv k (0, 0)) \<ge> delta_max_supersteps \<or>
       k \<in> set (rs_delta_overwrite ?rs) \<or> source = ''update'')"
    using assms(5,6) by (auto simp: snapshot_keys_def delta_channels_to_snapshot_iff dc_defs delta_available_def
        in_mkeys_iff simp del: set_mkeys)
  have fate: "if k \<in> set ?snaps then \<not> (pause \<and> k \<in> set suppress)
    else pause \<and> k \<in> set suppress \<or> fst ?old + (if k \<in> set (rs_updated ?rs) then 1 else 0) < dc_frequency d \<and>
      snd ?old + 1 < delta_max_supersteps \<and> k \<notin> set (rs_delta_overwrite ?rs) \<and> source \<noteq> ''update''"
    using snaps unfolding advance_counter [OF assms(3,4)] fst_conv snd_conv by (simp only: linorder_not_le) auto
  have tup: "tup_checkpoint (ms_tuple (ex_cfg ex1) st) = st_cp st" "tup_metadata (ms_tuple (ex_cfg ex1) st) = st_md st"
    by (simp_all add: ms_tuple_def)
  obtain u s where us: "mgetd (reset_counters ?snaps ?adv) k (0, 0) = (u, s)" by fastforce
  have 1: "mgetd (rs_delta_counters (ex_rs ex1)) k (0, 0) = (u, s)" by (simp add: rs us)
  have 2: "mgetd (md_counters (tup_metadata (ms_tuple (ex_cfg ex1) st))) k (0, 0) = (u, s)" by (simp add: tup md stored_counter us)
  have 3: "if map_of (cp_values (tup_checkpoint (ms_tuple (ex_cfg ex1) st))) k = None
     then u = fst ?old + (if k \<in> set (rs_updated ?rs) then 1 else 0) \<and> s = snd ?old + 1 \<and>
       (pause \<and> k \<in> set suppress \<or>
        u < dc_frequency d \<and> s < delta_max_supersteps \<and> k \<notin> set (rs_delta_overwrite ?rs) \<and> source \<noteq> ''update'')
     else map_of (cp_values (tup_checkpoint (ms_tuple (ex_cfg ex1) st))) k = dc_snapshot_blob d \<and> u = 0 \<and> s = 0 \<and>
       \<not> (pause \<and> k \<in> set suppress)"
    unfolding tup using counts us fate stored b by (cases "k \<in> set ?snaps") simp_all
  have "ex' = ex1" "r = Inr ()" using assms(1) save by simp_all
  with in_memory_tuple [OF mem] 1 2 3 show ?thesis by blast
qed

text \<open>A delta channel at its first value: with frequency 1 the save stores the snapshot.\<close>

definition demo_delta :: delta_channel where
  "demo_delta = (new_delta_channel (\<lambda>state ws. Inr (VList ws)) None 1)\<lparr>dc_value := VList [VInt 1], dc_set := True\<rparr>"

definition demo_delta_exec :: "memory_saver exec" where
  "demo_delta_exec = demo_exec\<lparr>ex_rs := (new_run_state [(''log'', CDelta demo_delta)])
     \<lparr>rs_channels := [(''log'', CDelta demo_delta)], rs_updated := [''log'']\<rparr>\<rparr>"

lemma delta_cadence_is_bounded_witness:
  "\<exists>ex' tup. save_checkpoint demo_run_env False [] ''loop'' 0 [] demo_delta_exec = (ex', Inr ()) \<and>
     ms_get_tuple (snd (ex_saver ex')) (ex_cfg ex') = Some tup \<and>
     map_of (cp_values (tup_checkpoint tup)) ''log'' = dc_snapshot_blob demo_delta \<and>
     mgetd (md_counters (tup_metadata tup)) ''log'' (0, 0) = (0, 0)"
proof -
  have mem: "mem_ok demo_run_env demo_delta_exec"
    using demo_mem(1) by (simp add: mem_ok_def demo_delta_exec_def)
  have rs: "map_of (rs_protos (ex_rs demo_delta_exec)) ''log'' = Some (CDelta demo_delta)"
    "map_of (rs_channels (ex_rs demo_delta_exec)) ''log'' = Some (CDelta demo_delta)" "is_delta (CDelta demo_delta)"
    "dc_set demo_delta" "dc_frequency demo_delta = 1"
    "rs_updated (ex_rs demo_delta_exec) = [''log'']" "rs_delta_counters (ex_rs demo_delta_exec) = []"
    by (simp_all add: demo_delta_exec_def new_run_state_def demo_delta_def is_delta_def new_delta_channel_def)
  obtain ex' r where save: "save_checkpoint demo_run_env False [] ''loop'' 0 [] demo_delta_exec = (ex', r)" by fastforce
  from delta_cadence_is_bounded [OF save mem rs(1,3,2,4)]
  obtain tup u s where r: "r = Inr ()" "ms_get_tuple (snd (ex_saver ex')) (ex_cfg ex') = Some tup"
    and md: "mgetd (md_counters (tup_metadata tup)) ''log'' (0, 0) = (u, s)"
    and stored: "if map_of (cp_values (tup_checkpoint tup)) ''log'' = None then u = 1 \<and> u < 1
      else map_of (cp_values (tup_checkpoint tup)) ''log'' = dc_snapshot_blob demo_delta \<and> u = 0 \<and> s = 0"
    by (auto simp: rs(5-7) split: if_splits)
  from stored have "map_of (cp_values (tup_checkpoint tup)) ''log'' = dc_snapshot_blob demo_delta \<and> u = 0 \<and> s = 0"
    by (cases "map_of (cp_values (tup_checkpoint tup)) ''log''") auto
  with save r md show ?thesis by auto
qed

end
