(* ===== verification/TaskCache.thy ===== *)
theory TaskCache
  imports Superstep
begin

section \<open>The task cache of a run\<close>

text \<open>
  What the lookup and the store pass of a superstep do together: the completed work of a cached node
  is found again under the same input, and a resumed or failed task never meets the cache.
\<close>

lemma cache_get_set:
  "cache_get now' ns key (cache_set now ns key ws ttl c) =
     (if ttl > 0 \<and> \<not> now' < now + ttl then (mput ns (mdel key (mgetd (cache_set now ns key ws ttl c) ns [])) (cache_set now ns key ws ttl c), None)
      else (cache_set now ns key ws ttl c, Some ws))"
  by (simp add: cache_get_def cache_set_def)

text \<open>
  The work of a cached node is reused. When a task missed the cache, completed and had its writes
  stored, every later task of the node with the same input hits the cache within the entry's lifetime
  and gets the same state update and the same routing without being executed, unless it answers an
  interrupt or runs an error handler.
\<close>

theorem cached_work_is_reused:
  assumes "cache_lookup cg env state t ex = (ex1, CacheMiss ns key ttl)"
    and "cache_store env ((t, CacheMiss ns key ttl), oc) ex2 = (ex3, Inr ())" and "completed oc"
    and "fst ` set (oc_update oc) \<inter> {reserved_tasks, reserved_interrupt, reserved_resume, reserved_error} = {}"
    and "ttl \<le> 0 \<or> re_lookup_time env (ex_steps ex4) < re_store_time env (ex_steps ex2) + ttl"
    and "ex_cache ex4 = ex_cache ex3" and "tk_node t' = tk_node t" and "node_input state' t' = node_input state t"
    and "\<not> mhas (ex_queues ex4) (tk_id t')" and "\<not> tk_run_handler t'"
  shows "\<exists>upd cmd. cache_lookup cg env state' t' ex4 = (ex4, CacheHit upd cmd) \<and>
    map_of upd = map_of (oc_update oc) \<and> cmd_sends cmd = cmd_sends (oc_cmd oc) \<and>
    run_all cg env state' [(t', CacheHit upd cmd)] ex4 = (ex4, [normal_result (Inr (upd, cmd)) None])"
proof -
  obtain p k where p: "cache_of cg env (tk_node t) = Some p" "cache_place p (tk_node t) k = (ns, key, ttl)"
    and key: "(case pol_key_func p of None \<Rightarrow> re_default_key env | Some f \<Rightarrow> f) (node_input state t) = Inr k"
    using assms(1) by (auto simp: cache_lookup_def split: option.splits if_splits sum.splits prod.splits)
  obtain ws where ws: "completed_task_writes (oc_update oc) (oc_cmd oc) = Inr ws"
    and cache: "ex_cache ex3 = cache_set (re_store_time env (ex_steps ex2)) ns key ws ttl (ex_cache ex2)"
    using assms(2,3) by (auto simp: cache_store_def split: sum.splits)
  obtain upd cmd where hit: "outcome_from_cached_writes ws = (upd, cmd)" by fastforce
  have "cache_get (re_lookup_time env (ex_steps ex4)) ns key (ex_cache ex4) = (ex_cache ex4, Some ws)"
    using assms(5) unfolding assms(6) cache cache_get_set by auto
  then have "cache_lookup cg env state' t' ex4 = (ex4, CacheHit upd cmd)"
    using assms(7-10) p key hit by (simp add: cache_lookup_def)
  moreover have "map_of upd = map_of (oc_update oc)" "cmd_sends cmd = cmd_sends (oc_cmd oc)"
    using completed_writes_same [OF ws assms(4)] hit by simp_all
  ultimately show ?thesis by simp
qed

text \<open>A node whose policy caches every input under one key for ten time units.\<close>

definition demo_cached_graph :: compiled_graph where
  "demo_cached_graph = demo_graph\<lparr>cg_policies :=
     [(''a'', no_policies\<lparr>np_cache := Some \<lparr>pol_key_func = Some (\<lambda>_. Inr \<lparr>ck_namespace = [], ck_key = ''k'', ck_ttl = 0\<rparr>), pol_ttl = 10\<rparr>\<rparr>)]\<rparr>"

definition demo_cache_env :: "memory_saver run_env" where
  "demo_cache_env = demo_run_env\<lparr>re_cache := True, re_lookup_time := (\<lambda>n. n), re_store_time := (\<lambda>n. n)\<rparr>"

lemma cached_work_is_reused_witness:
  "\<exists>upd cmd. cache_lookup demo_cached_graph demo_cache_env [] (plain_task ''a'' None)
       (fst (cache_store demo_cache_env ((plain_task ''a'' None, CacheMiss ''writes/a'' ''k'' 10), normal_result (Inr ([(''x'', VInt 1)], None)) None) demo_exec)) =
     (fst (cache_store demo_cache_env ((plain_task ''a'' None, CacheMiss ''writes/a'' ''k'' 10), normal_result (Inr ([(''x'', VInt 1)], None)) None) demo_exec),
      CacheHit upd cmd) \<and> map_of upd = map_of [(''x'', VInt 1)]"
proof -
  let ?t = "plain_task ''a'' None" and ?oc = "normal_result (Inr ([(''x'', VInt 1)], None)) None"
  let ?store = "cache_store demo_cache_env ((?t, CacheMiss ''writes/a'' ''k'' 10), ?oc) demo_exec"
  have miss: "cache_lookup demo_cached_graph demo_cache_env [] ?t demo_exec = (demo_exec, CacheMiss ''writes/a'' ''k'' 10)"
    by (simp add: cache_lookup_def cache_of_def demo_cached_graph_def demo_cache_env_def plain_task_def no_policies_def
        demo_exec_def mhas_def cache_place_def cache_writes_ns_def cache_get_def)
  have oc: "completed ?oc" "oc_update ?oc = [(''x'', VInt 1)]" "oc_cmd ?oc = None"
    by (simp_all add: completed_def normal_result_def)
  have store: "?store = (fst ?store, Inr ())"
    by (simp add: cache_store_def oc completed_task_writes_def)
  have keys: "fst ` set (oc_update ?oc) \<inter> {reserved_tasks, reserved_interrupt, reserved_resume, reserved_error} = {}"
    by (simp add: oc(2) reserved_defs)
  have rest: "\<not> mhas (ex_queues (fst ?store)) (tk_id ?t)" "\<not> tk_run_handler ?t"
    "10 \<le> (0::int) \<or> re_lookup_time demo_cache_env (ex_steps (fst ?store)) < re_store_time demo_cache_env (ex_steps demo_exec) + 10"
    by (simp_all add: cache_store_def oc completed_task_writes_def demo_exec_def mhas_def plain_task_def demo_cache_env_def)
  from cached_work_is_reused [OF miss store oc(1) keys rest(3) refl refl refl rest(1,2)]
  show ?thesis by (auto simp: oc(2))
qed

end
