(* ===== verification/Snapshot.thy ===== *)
theory Snapshot
  imports TaskCache
begin

section \<open>State snapshots, history and updates (langgraph/graph/snapshot.go)\<close>

text \<open>
  Reading a thread: a checkpoint tuple is projected to a snapshot, and the delta channels a checkpoint
  left out are rebuilt by walking its ancestors for the nearest stored value and replaying the writes
  anchored since. The same walk hydrates the channels of a run that resumes. The walk follows parent
  links, so it is given fuel; \<open>None\<close> is a walk that did not come to its end. A saver whose lookups
  fail reads as one without the checkpoint, as the walk treats both alike. Cancellation is left out.
\<close>

subsection \<open>Which keys need the walk\<close>

definition walk_keys :: "chan gomap \<Rightarrow> int gomap \<Rightarrow> (string \<Rightarrow> bool) \<Rightarrow> string list" where
  "walk_keys protos versions present =
     filter (\<lambda>k. \<not> present k \<and>
         (case map_of protos k of
            Some p \<Rightarrow> is_delta p \<or> is_binary_operator p \<and> mhas versions k
          | None \<Rightarrow> False))
       (mkeys protos)"

definition is_exit_stub_tuple :: "cp_tuple \<Rightarrow> bool" where
  "is_exit_stub_tuple tup \<longleftrightarrow>
     md_source (tup_metadata tup) = ''input'' \<and> md_step (tup_metadata tup) = -2 \<and> cp_versions (tup_checkpoint tup) = []"

text \<open>A key no version is recorded for was never written.\<close>

definition writable_keys :: "cp_tuple \<Rightarrow> string list \<Rightarrow> string list" where
  "writable_keys tup ks =
     (if cp_versions (tup_checkpoint tup) \<noteq> [] \<or> is_exit_stub_tuple tup
      then filter (mhas (cp_versions (tup_checkpoint tup))) ks else ks)"

subsection \<open>The walk\<close>

record walk_state =
  wk_collected :: "gval list gomap"
  wk_seeded :: gstate
  wk_remaining :: "string list"

definition collect_key :: "cp_write list \<Rightarrow> string list \<Rightarrow> string \<Rightarrow> walk_state \<Rightarrow> walk_state" where
  "collect_key ws skip key st =
     (if key \<notin> set (wk_remaining st) then st
      else fold (\<lambda>w st. if w_task w \<in> set skip then st
                        else if w_channel w = key
                        then st\<lparr>wk_collected := mput key (mgetd (wk_collected st) key [] @ [w_value w]) (wk_collected st)\<rparr>
                        else st) (rev ws) st)"

definition collect_delta_writes :: "cp_write list \<Rightarrow> string list \<Rightarrow> string list \<Rightarrow> walk_state \<Rightarrow> walk_state" where
  "collect_delta_writes ws keys skip st = fold (collect_key ws skip) keys st"

text \<open>An ancestor that carries a value for a key ends the walk for this key.\<close>

definition seed_key :: "cp_tuple \<Rightarrow> string \<Rightarrow> walk_state \<Rightarrow> walk_state" where
  "seed_key anc key st =
     (if key \<notin> set (wk_remaining st) then st
      else case map_of (cp_values (tup_checkpoint anc)) key of
             None \<Rightarrow> st
           | Some raw \<Rightarrow>
               st\<lparr>wk_seeded := mput key (case as_delta_snapshot raw of Some inner \<Rightarrow> inner | None \<Rightarrow> raw) (wk_seeded st),
                  wk_remaining := removeAll key (wk_remaining st)\<rparr>)"

definition seed_from :: "cp_tuple \<Rightarrow> string list \<Rightarrow> walk_state \<Rightarrow> walk_state" where
  "seed_from anc keys st = fold (seed_key anc) keys st"

primrec walk :: "nat \<Rightarrow> (config \<Rightarrow> cp_tuple option) \<Rightarrow> string list \<Rightarrow> config option \<Rightarrow> walk_state \<Rightarrow> walk_state option" where
  "walk 0 get keys cursor st = None"
| "walk (Suc n) get keys cursor st =
     (case cursor of
        None \<Rightarrow> Some st
      | Some c \<Rightarrow>
          (if cfg_id c = [] \<or> wk_remaining st = [] then Some st
           else case get c of
                  None \<Rightarrow> Some st
                | Some anc \<Rightarrow>
                    walk n get keys (tup_parent anc) (collect_delta_writes (tup_writes anc) keys [] (seed_from anc keys st))))"

subsection \<open>Rebuilding the channels\<close>

text \<open>A plain reducer takes the writes one by one and keeps what it has at the first error.\<close>

fun update_each :: "chan \<Rightarrow> gval list \<Rightarrow> chan" where
  "update_each ch [] = ch"
| "update_each ch (v # vs) = (case chan_update ch [v] of (ch', Inl _) \<Rightarrow> ch' | (ch', Inr _) \<Rightarrow> update_each ch' vs)"

definition replay_writes :: "chan \<Rightarrow> gval list \<Rightarrow> chan" where
  "replay_writes ch vs =
     (case as_delta ch of Some d \<Rightarrow> CDelta (dc_replay_writes d vs) | None \<Rightarrow> update_each ch vs)"

definition rebuild_channel :: "chan \<Rightarrow> gval option \<Rightarrow> gval list \<Rightarrow> chan option" where
  "rebuild_channel proto seed vs =
     (let ch = chan_from_checkpoint proto (case seed of None \<Rightarrow> VNil | Some s \<Rightarrow> s);
          ch' = (if vs = [] then ch else replay_writes ch vs)
      in if chan_is_available ch' then Some ch' else None)"

definition rebuild_delta_channels ::
  "nat \<Rightarrow> (config \<Rightarrow> cp_tuple option) \<Rightarrow> chan gomap \<Rightarrow> cp_tuple \<Rightarrow> string list \<Rightarrow> string list \<Rightarrow> chan gomap option" where
  "rebuild_delta_channels n get protos tup ks skip =
     (let keys = writable_keys tup ks
      in if keys = [] then Some []
         else case walk n get keys (tup_parent tup)
                     (collect_delta_writes (tup_writes tup) keys skip
                        \<lparr>wk_collected = [], wk_seeded = [], wk_remaining = keys\<rparr>) of
                None \<Rightarrow> None
              | Some st \<Rightarrow>
                  Some (mbuild keys (\<lambda>k. case map_of protos k of
                          None \<Rightarrow> None
                        | Some p \<Rightarrow> rebuild_channel p (map_of (wk_seeded st) k) (rev (mgetd (wk_collected st) k [])))))"

definition hydrate_delta_channels ::
  "nat \<Rightarrow> (config \<Rightarrow> cp_tuple option) \<Rightarrow> compiled_graph \<Rightarrow> cp_tuple \<Rightarrow> string list \<Rightarrow> run_state \<Rightarrow> run_state option" where
  "hydrate_delta_channels n get cg tup skip rs =
     map_option (\<lambda>built. rs\<lparr>rs_channels := mcopy (rs_channels rs) built\<rparr>)
       (rebuild_delta_channels n get (cg_protos cg) tup
          (walk_keys (cg_protos cg) (cp_versions (tup_checkpoint tup)) (mhas (rs_channels rs))) skip)"

definition reconstruct_delta_channels ::
  "nat \<Rightarrow> (config \<Rightarrow> cp_tuple option) \<Rightarrow> compiled_graph \<Rightarrow> cp_tuple \<Rightarrow> gstate \<Rightarrow> gstate option" where
  "reconstruct_delta_channels n get cg tup vals =
     map_option (\<lambda>built. fold (\<lambda>k m. case map_of built k of
           None \<Rightarrow> m
         | Some ch \<Rightarrow> (case chan_get ch of Inl _ \<Rightarrow> m | Inr v \<Rightarrow> mput k v m)) (mkeys built) vals)
       (rebuild_delta_channels n get (cg_protos cg) tup
          (walk_keys (cg_protos cg) (cp_versions (tup_checkpoint tup)) (mhas vals)) [])"

subsection \<open>Snapshots\<close>

record snapshot_task =
  st_id :: string
  st_name :: string
  st_path :: string
  st_interrupts :: "gintr list"

record state_snapshot =
  sn_values :: gstate
  sn_next :: "string list"
  sn_config :: config
  sn_metadata :: metadata
  sn_created :: int
  sn_parent :: "config option"
  sn_interrupts :: "gintr list"
  sn_tasks :: "snapshot_task list"

definition attach_write :: "cp_write \<Rightarrow> snapshot_task \<Rightarrow> snapshot_task" where
  "attach_write w st =
     (if w_task w \<noteq> st_id st \<and> w_task w \<noteq> st_name st then st
      else let st' = (if st_path st = [] then st\<lparr>st_path := w_path w\<rparr> else st)
           in if w_channel w = reserved_interrupt
              then st'\<lparr>st_interrupts := st_interrupts st' @ interrupts_from_write (w_value w)\<rparr> else st')"

definition snapshot_task_of :: "cp_write list \<Rightarrow> planned_task \<Rightarrow> snapshot_task" where
  "snapshot_task_of ws pt =
     fold attach_write ws \<lparr>st_id = pt_id pt, st_name = pt_node pt, st_path = [], st_interrupts = []\<rparr>"

definition snapshot_values :: "chan gomap \<Rightarrow> gstate \<Rightarrow> gstate" where
  "snapshot_values protos vals =
     mbuild (mkeys vals) (\<lambda>k. if is_join_key protos k then None
       else map_option (\<lambda>v. case as_delta_snapshot v of Some inner \<Rightarrow> inner | None \<Rightarrow> v) (map_of vals k))"

definition snapshot_from_tuple :: "compiled_graph \<Rightarrow> cp_tuple \<Rightarrow> state_snapshot" where
  "snapshot_from_tuple cg tup =
     \<lparr>sn_values = snapshot_values (cg_protos cg) (cp_values (tup_checkpoint tup)),
      sn_next = map pt_node (cp_next (tup_checkpoint tup)), sn_config = tup_config tup,
      sn_metadata = tup_metadata tup, sn_created = cp_ts (tup_checkpoint tup), sn_parent = tup_parent tup,
      sn_interrupts = interrupts_from_writes (tup_writes tup),
      sn_tasks = map (snapshot_task_of (tup_writes tup)) (cp_next (tup_checkpoint tup))\<rparr>"

definition full_snapshot :: "nat \<Rightarrow> (config \<Rightarrow> cp_tuple option) \<Rightarrow> compiled_graph \<Rightarrow> cp_tuple \<Rightarrow> state_snapshot option" where
  "full_snapshot n get cg tup =
     (let snap = snapshot_from_tuple cg tup
      in map_option (\<lambda>vals. snap\<lparr>sn_values := vals\<rparr>) (reconstruct_delta_channels n get cg tup (sn_values snap)))"

definition no_checkpoint :: "config \<Rightarrow> goerr" where
  "no_checkpoint cfg =
     (if cfg_id cfg \<noteq> []
      then EText (''graph: no checkpoint '' @ go_quote (cfg_id cfg) @ '' found for thread '' @ go_quote (cfg_thread cfg))
      else EText (''graph: no checkpoint found for thread '' @ go_quote (cfg_thread cfg)))"

text \<open>\<open>GetState\<close> and \<open>GetStateHistory\<close> of a graph compiled with a checkpointer.\<close>

definition get_state :: "nat \<Rightarrow> (config \<Rightarrow> cp_tuple option) \<Rightarrow> compiled_graph \<Rightarrow> config \<Rightarrow> (goerr + state_snapshot) option" where
  "get_state n get cg cfg =
     (case get cfg of
        None \<Rightarrow> Some (Inl (no_checkpoint cfg))
      | Some tup \<Rightarrow> map_option Inr (full_snapshot n get cg tup))"

definition get_state_history ::
  "nat \<Rightarrow> (config \<Rightarrow> cp_tuple option) \<Rightarrow> compiled_graph \<Rightarrow> cp_tuple list \<Rightarrow> state_snapshot list option" where
  "get_state_history n get cg tups =
     (if list_all (\<lambda>t. full_snapshot n get cg t \<noteq> None) tups
      then Some (map (\<lambda>t. the (full_snapshot n get cg t)) tups) else None)"

subsection \<open>The walk against the history\<close>

text \<open>The ancestors of a position, the nearest first, and what they say of one key.\<close>

primrec lineage :: "nat \<Rightarrow> (config \<Rightarrow> cp_tuple option) \<Rightarrow> config option \<Rightarrow> cp_tuple list option" where
  "lineage 0 get cursor = None"
| "lineage (Suc n) get cursor =
     (case cursor of
        None \<Rightarrow> Some []
      | Some c \<Rightarrow>
          (if cfg_id c = [] then Some []
           else case get c of
                  None \<Rightarrow> Some []
                | Some anc \<Rightarrow> map_option (Cons anc) (lineage n get (tup_parent anc))))"

definition stored_value :: "string \<Rightarrow> cp_tuple \<Rightarrow> gval option" where
  "stored_value key tup =
     map_option (\<lambda>raw. case as_delta_snapshot raw of Some inner \<Rightarrow> inner | None \<Rightarrow> raw)
       (map_of (cp_values (tup_checkpoint tup)) key)"

definition writes_to :: "string \<Rightarrow> string list \<Rightarrow> cp_tuple \<Rightarrow> gval list" where
  "writes_to key skip tup =
     map w_value (filter (\<lambda>w. w_task w \<notin> set skip \<and> w_channel w = key) (tup_writes tup))"

definition younger :: "string \<Rightarrow> cp_tuple list \<Rightarrow> cp_tuple list" where
  "younger key ancs = takeWhile (\<lambda>a. stored_value key a = None) ancs"

definition nearest_value :: "string \<Rightarrow> cp_tuple list \<Rightarrow> gval option" where
  "nearest_value key ancs =
     (case dropWhile (\<lambda>a. stored_value key a = None) ancs of [] \<Rightarrow> None | a # _ \<Rightarrow> stored_value key a)"

definition writes_since :: "string \<Rightarrow> string list \<Rightarrow> cp_tuple list \<Rightarrow> cp_tuple \<Rightarrow> gval list" where
  "writes_since key skip ancs tup = concat (map (writes_to key []) (rev (younger key ancs))) @ writes_to key skip tup"

lemma collect_key_view:
  "wk_seeded (collect_key ws skip key st) = wk_seeded st \<and> wk_remaining (collect_key ws skip key st) = wk_remaining st \<and>
   mgetd (wk_collected (collect_key ws skip key st)) k [] =
     (if k = key \<and> key \<in> set (wk_remaining st)
      then mgetd (wk_collected st) k [] @ rev (map w_value (filter (\<lambda>w. w_task w \<notin> set skip \<and> w_channel w = key) ws))
      else mgetd (wk_collected st) k [])"
proof -
  let ?f = "\<lambda>w st. if w_task w \<in> set skip then st
      else if w_channel w = key then st\<lparr>wk_collected := mput key (mgetd (wk_collected st) key [] @ [w_value w]) (wk_collected st)\<rparr>
      else st"
  have "wk_seeded (fold ?f vs st) = wk_seeded st \<and> wk_remaining (fold ?f vs st) = wk_remaining st \<and>
      mgetd (wk_collected (fold ?f vs st)) k [] =
        (if k = key then mgetd (wk_collected st) k [] @ map w_value (filter (\<lambda>w. w_task w \<notin> set skip \<and> w_channel w = key) vs)
         else mgetd (wk_collected st) k [])" for vs
    by (induction vs arbitrary: st) auto
  from this [of "rev ws"] show ?thesis by (cases "k = key") (simp_all add: collect_key_def rev_map rev_filter)
qed

lemma collect_view:
  assumes "distinct keys"
  shows "wk_seeded (collect_delta_writes ws keys skip st) = wk_seeded st \<and>
    wk_remaining (collect_delta_writes ws keys skip st) = wk_remaining st \<and>
    mgetd (wk_collected (collect_delta_writes ws keys skip st)) k [] =
      (if k \<in> set keys \<and> k \<in> set (wk_remaining st)
       then mgetd (wk_collected st) k [] @ rev (map w_value (filter (\<lambda>w. w_task w \<notin> set skip \<and> w_channel w = k) ws))
       else mgetd (wk_collected st) k [])"
  using assms unfolding collect_delta_writes_def
proof (induction keys arbitrary: st)
  case (Cons key keys)
  note one = collect_key_view [of ws skip key st k]
  from Cons.prems have "distinct keys" "key \<notin> set keys" by simp_all
  with Cons.IH [of "collect_key ws skip key st"] one show ?case by auto
qed simp

lemma seed_view:
  assumes "distinct keys"
  shows "wk_collected (seed_from anc keys st) = wk_collected st \<and>
    (k \<in> set (wk_remaining (seed_from anc keys st)) \<longleftrightarrow>
       k \<in> set (wk_remaining st) \<and> (k \<in> set keys \<longrightarrow> stored_value k anc = None)) \<and>
    map_of (wk_seeded (seed_from anc keys st)) k =
      (if k \<in> set keys \<and> k \<in> set (wk_remaining st) \<and> stored_value k anc \<noteq> None then stored_value k anc else map_of (wk_seeded st) k)"
  using assms unfolding seed_from_def
proof (induction keys arbitrary: st)
  case (Cons key keys)
  have one: "wk_collected (seed_key anc key st) = wk_collected st \<and>
      (k \<in> set (wk_remaining (seed_key anc key st)) \<longleftrightarrow> k \<in> set (wk_remaining st) \<and> (k = key \<longrightarrow> stored_value k anc = None)) \<and>
      map_of (wk_seeded (seed_key anc key st)) k =
        (if k = key \<and> k \<in> set (wk_remaining st) \<and> stored_value k anc \<noteq> None then stored_value k anc else map_of (wk_seeded st) k)"
    by (auto simp: seed_key_def stored_value_def split: option.split)
  from Cons.prems have "distinct keys" "key \<notin> set keys" by simp_all
  with Cons.IH [of "seed_key anc key st"] one show ?case by auto
qed simp

lemma walk_view:
  assumes "distinct keys" and "lineage n get cursor = Some ancs"
  shows "\<exists>st'. walk n get keys cursor st = Some st' \<and> (\<forall>k \<in> set keys.
    if k \<in> set (wk_remaining st)
    then mgetd (wk_collected st') k [] =
        mgetd (wk_collected st) k [] @ concat (map (\<lambda>a. rev (writes_to k [] a)) (younger k ancs)) \<and>
      map_of (wk_seeded st') k = (case nearest_value k ancs of None \<Rightarrow> map_of (wk_seeded st) k | Some v \<Rightarrow> Some v)
    else mgetd (wk_collected st') k [] = mgetd (wk_collected st) k [] \<and> map_of (wk_seeded st') k = map_of (wk_seeded st) k)"
  using assms(2)
proof (induction n arbitrary: cursor ancs st)
  case (Suc n)
  show ?case
  proof (cases "\<exists>c anc. cursor = Some c \<and> cfg_id c \<noteq> [] \<and> get c = Some anc")
    case False
    with Suc.prems have "ancs = []" "walk (Suc n) get keys cursor st = Some st"
      by (auto split: option.splits if_splits)
    then show ?thesis by (simp add: younger_def nearest_value_def)
  next
    case True
    then obtain c anc where c: "cursor = Some c" "cfg_id c \<noteq> []" "get c = Some anc" by blast
    with Suc.prems obtain rest where rest: "lineage n get (tup_parent anc) = Some rest" "ancs = anc # rest" by auto
    show ?thesis
    proof (cases "wk_remaining st = []")
      case True
      with c show ?thesis by simp
    next
      case False
      let ?st = "collect_delta_writes (tup_writes anc) keys [] (seed_from anc keys st)"
      obtain st' where st': "walk n get keys (tup_parent anc) ?st = Some st'"
        and view: "\<forall>k \<in> set keys.
          if k \<in> set (wk_remaining ?st)
          then mgetd (wk_collected st') k [] =
              mgetd (wk_collected ?st) k [] @ concat (map (\<lambda>a. rev (writes_to k [] a)) (younger k rest)) \<and>
            map_of (wk_seeded st') k = (case nearest_value k rest of None \<Rightarrow> map_of (wk_seeded ?st) k | Some v \<Rightarrow> Some v)
          else mgetd (wk_collected st') k [] = mgetd (wk_collected ?st) k [] \<and> map_of (wk_seeded st') k = map_of (wk_seeded ?st) k"
        using Suc.IH [OF rest(1), of ?st] by blast
      have walk: "walk (Suc n) get keys cursor st = Some st'" using c False st' by simp
      have step: "if k \<in> set (wk_remaining st)
          then mgetd (wk_collected st') k [] =
              mgetd (wk_collected st) k [] @ concat (map (\<lambda>a. rev (writes_to k [] a)) (younger k ancs)) \<and>
            map_of (wk_seeded st') k = (case nearest_value k ancs of None \<Rightarrow> map_of (wk_seeded st) k | Some v \<Rightarrow> Some v)
          else mgetd (wk_collected st') k [] = mgetd (wk_collected st) k [] \<and> map_of (wk_seeded st') k = map_of (wk_seeded st) k"
        if k: "k \<in> set keys" for k
      proof -
        note seed = seed_view [OF assms(1), of anc st k]
        note coll = collect_view [OF assms(1), of "tup_writes anc" "[]" "seed_from anc keys st" k]
        note now = view [rule_format, OF k]
        have rem: "k \<in> set (wk_remaining ?st) \<longleftrightarrow> k \<in> set (wk_remaining st) \<and> stored_value k anc = None"
          using seed coll k by simp
        have seeded: "map_of (wk_seeded ?st) k =
            (if k \<in> set (wk_remaining st) \<and> stored_value k anc \<noteq> None then stored_value k anc else map_of (wk_seeded st) k)"
          using seed coll k by simp
        have collected: "mgetd (wk_collected ?st) k [] = mgetd (wk_collected st) k [] @
            (if k \<in> set (wk_remaining st) \<and> stored_value k anc = None then rev (writes_to k [] anc) else [])"
          using seed coll k by (simp add: writes_to_def)
        show ?thesis
        proof (cases "k \<in> set (wk_remaining st) \<and> stored_value k anc = None")
          case True
          with now show ?thesis
            unfolding rem seeded collected by (simp add: rest(2) younger_def nearest_value_def)
        next
          case False
          with now have now: "mgetd (wk_collected st') k [] = mgetd (wk_collected ?st) k []"
            "map_of (wk_seeded st') k = map_of (wk_seeded ?st) k" unfolding rem by simp_all
          show ?thesis
            unfolding now seeded collected using False by (auto simp: rest(2) younger_def nearest_value_def)
        qed
      qed
      with walk show ?thesis by blast
    qed
  qed
qed simp

text \<open>
  C9: rebuilding a delta channel from the history is what its reference says. For every key the walk
  handles, the channel starts from the value stored at the nearest ancestor that has one, or from
  nothing, and replays, oldest first, the writes anchored on every younger checkpoint up to the one
  read, leaving out the skipped tasks of the latter. Keys no version was recorded for are not rebuilt.
\<close>

theorem rebuild_replays_history:
  assumes "lineage n get (tup_parent tup) = Some ancs" and "distinct ks" and "map_of protos k = Some p"
  shows "\<exists>built. rebuild_delta_channels n get protos tup ks skip = Some built \<and>
    map_of built k =
      (if k \<in> set (writable_keys tup ks)
       then rebuild_channel p (nearest_value k ancs) (writes_since k skip ancs tup) else None)"
proof (cases "writable_keys tup ks = []")
  case True
  then show ?thesis by (simp add: rebuild_delta_channels_def)
next
  case False
  let ?keys = "writable_keys tup ks"
  have d: "distinct ?keys" using assms(2) by (simp add: writable_keys_def)
  let ?init = "\<lparr>wk_collected = [], wk_seeded = [], wk_remaining = ?keys\<rparr>"
  let ?st = "collect_delta_writes (tup_writes tup) ?keys skip ?init"
  obtain st' where st': "walk n get ?keys (tup_parent tup) ?st = Some st'"
    and view: "\<forall>k \<in> set ?keys.
      if k \<in> set (wk_remaining ?st)
      then mgetd (wk_collected st') k [] =
          mgetd (wk_collected ?st) k [] @ concat (map (\<lambda>a. rev (writes_to k [] a)) (younger k ancs)) \<and>
        map_of (wk_seeded st') k = (case nearest_value k ancs of None \<Rightarrow> map_of (wk_seeded ?st) k | Some v \<Rightarrow> Some v)
      else mgetd (wk_collected st') k [] = mgetd (wk_collected ?st) k [] \<and> map_of (wk_seeded st') k = map_of (wk_seeded ?st) k"
    using walk_view [OF d assms(1), of ?st] by blast
  have "rev (mgetd (wk_collected st') k []) = writes_since k skip ancs tup" "map_of (wk_seeded st') k = nearest_value k ancs"
    if k: "k \<in> set ?keys"
  proof -
    have start: "wk_seeded ?init = []" "wk_remaining ?init = ?keys" "wk_collected ?init = []" by simp_all
    have coll: "wk_seeded ?st = wk_seeded ?init" "wk_remaining ?st = wk_remaining ?init"
      "mgetd (wk_collected ?st) k [] = (if k \<in> set ?keys \<and> k \<in> set (wk_remaining ?init)
         then mgetd (wk_collected ?init) k [] @ rev (map w_value (filter (\<lambda>w. w_task w \<notin> set skip \<and> w_channel w = k) (tup_writes tup)))
         else mgetd (wk_collected ?init) k [])"
      using collect_view [OF d] by blast+
    note now = view [rule_format, OF k]
    have rem: "k \<in> set (wk_remaining ?st)" unfolding coll(2) start using k .
    have seeded: "map_of (wk_seeded ?st) k = None" unfolding coll(1) start by simp
    have collected: "mgetd (wk_collected ?st) k [] = rev (writes_to k skip tup)"
      unfolding coll(3) start using k by (simp add: writes_to_def)
    have now: "mgetd (wk_collected st') k [] =
        rev (writes_to k skip tup) @ concat (map (\<lambda>a. rev (writes_to k [] a)) (younger k ancs))"
      "map_of (wk_seeded st') k = (case nearest_value k ancs of None \<Rightarrow> None | Some v \<Rightarrow> Some v)"
      using now rem unfolding seeded collected by simp_all
    show "map_of (wk_seeded st') k = nearest_value k ancs" unfolding now by (simp split: option.split)
    show "rev (mgetd (wk_collected st') k []) = writes_since k skip ancs tup"
      unfolding now by (simp add: writes_since_def rev_concat rev_map comp_def)
  qed
  with False st' assms(3) show ?thesis by (simp add: rebuild_delta_channels_def Let_def)
qed

text \<open>A replayed history: a stored value, two supersteps of writes, and a write of a skipped task.\<close>

definition demo_history :: "config \<Rightarrow> cp_tuple option" where
  "demo_history c =
     (if cfg_id c = ''c1'' then Some (demo_tuple\<lparr>tup_checkpoint := (demo_cp ''c1'')\<lparr>cp_values := [(''log'', VList [VInt 1])]\<rparr>,
        tup_parent := None, tup_writes := [stamp ''t0'' [] (channel_write ''log'' (VInt 1))]\<rparr>)
      else if cfg_id c = ''c2'' then Some (demo_tuple\<lparr>tup_checkpoint := (demo_cp ''c2'')\<lparr>cp_values := []\<rparr>,
        tup_parent := Some (demo_cfg ''th'' ''c1''), tup_writes := [stamp ''t1'' [] (channel_write ''log'' (VInt 2))]\<rparr>)
      else None)"

definition demo_head :: cp_tuple where
  "demo_head = demo_tuple\<lparr>tup_checkpoint := (demo_cp ''c3'')\<lparr>cp_values := [], cp_versions := [(''log'', 3)]\<rparr>,
     tup_parent := Some (demo_cfg ''th'' ''c2''),
     tup_writes := [stamp ''t2'' [] (channel_write ''log'' (VInt 3)), stamp ''t3'' [] (channel_write ''log'' (VInt 4))]\<rparr>"

lemma rebuild_replays_history_witness:
  "let p = CDelta (new_delta_channel (\<lambda>state ws. Inr (VList ((case state of VList vs \<Rightarrow> vs | _ \<Rightarrow> []) @ ws))) None 100)
   in \<exists>built. rebuild_delta_channels 3 demo_history [(''log'', p)] demo_head [''log''] [''t3''] = Some built \<and>
     map_option chan_get (map_of built ''log'') = Some (Inr (VList [VInt 1, VInt 2, VInt 3]))"
proof -
  let ?p = "CDelta (new_delta_channel (\<lambda>state ws. Inr (VList ((case state of VList vs \<Rightarrow> vs | _ \<Rightarrow> []) @ ws))) None 100)"
  obtain a b where line: "lineage 3 demo_history (tup_parent demo_head) = Some [a, b]"
    and a: "demo_history (demo_cfg ''th'' ''c2'') = Some a" and b: "demo_history (demo_cfg ''th'' ''c1'') = Some b"
    by (simp add: demo_history_def demo_head_def demo_cfg_def numeral_3_eq_3)
  have keys: "''log'' \<in> set (writable_keys demo_head [''log''])"
    by (simp add: writable_keys_def demo_head_def mhas_def)
  have seed: "nearest_value ''log'' [a, b] = Some (VList [VInt 1])" and ws: "writes_since ''log'' [''t3''] [a, b] demo_head = [VInt 2, VInt 3]"
    using a b by (auto simp: nearest_value_def writes_since_def younger_def writes_to_def stored_value_def demo_history_def
        demo_head_def demo_cfg_def stamp_def)
  have "map_option chan_get (rebuild_channel ?p (Some (VList [VInt 1])) [VInt 2, VInt 3]) = Some (Inr (VList [VInt 1, VInt 2, VInt 3]))"
    by code_simp
  with rebuild_replays_history [OF line, of "[''log'']" "[(''log'', ?p)]" "''log''" ?p "[''t3'']"] keys
  show ?thesis by (auto simp: Let_def seed ws)
qed

subsection \<open>The walk ends\<close>

text \<open>Checkpoint IDs descend along parent links, and the saver holds finitely many.\<close>

definition descending :: "(config \<Rightarrow> cp_tuple option) \<Rightarrow> string list \<Rightarrow> bool" where
  "descending get ids \<longleftrightarrow>
     (\<forall>c t. get c = Some t \<and> cfg_id c \<noteq> [] \<longrightarrow>
        cfg_id c \<in> set ids \<and> (case tup_parent t of None \<Rightarrow> True | Some p \<Rightarrow> cfg_id p < cfg_id c))"

lemma lineage_ends:
  assumes "descending get ids" and "case cursor of None \<Rightarrow> True | Some c \<Rightarrow> card {i \<in> set ids. i \<le> cfg_id c} < n" and "0 < n"
  shows "lineage n get cursor \<noteq> None"
  using assms(2,3)
proof (induction n arbitrary: cursor)
  case (Suc n)
  show ?case
  proof (cases "\<exists>c anc. cursor = Some c \<and> cfg_id c \<noteq> [] \<and> get c = Some anc")
    case True
    then obtain c anc where c: "cursor = Some c" "cfg_id c \<noteq> []" "get c = Some anc" by blast
    have own: "cfg_id c \<in> set ids" and parent: "\<And>p. tup_parent anc = Some p \<Longrightarrow> cfg_id p < cfg_id c"
      using assms(1) c by (fastforce simp: descending_def split: option.splits)+
    have less: "card {i \<in> set ids. i \<le> cfg_id p} < card {i \<in> set ids. i \<le> cfg_id c}" if "tup_parent anc = Some p" for p
    proof (rule psubset_card_mono)
      have "cfg_id c \<in> {i \<in> set ids. i \<le> cfg_id c}" "cfg_id c \<notin> {i \<in> set ids. i \<le> cfg_id p}"
        using parent [OF that] own by auto
      moreover have "{i \<in> set ids. i \<le> cfg_id p} \<subseteq> {i \<in> set ids. i \<le> cfg_id c}" using parent [OF that] by auto
      ultimately show "{i \<in> set ids. i \<le> cfg_id p} \<subset> {i \<in> set ids. i \<le> cfg_id c}" by blast
    qed simp
    have "0 < card {i \<in> set ids. i \<le> cfg_id c}" using own by (auto simp: card_gt_0_iff)
    then have "0 < n" using Suc.prems(1) c(1) by simp
    moreover have "case tup_parent anc of None \<Rightarrow> True | Some p \<Rightarrow> card {i \<in> set ids. i \<le> cfg_id p} < n"
      using less Suc.prems(1) c(1) by (fastforce split: option.split)
    ultimately have "lineage n get (tup_parent anc) \<noteq> None" using Suc.IH by blast
    with c show ?thesis by simp
  qed (auto split: option.split)
qed simp

lemma distinct_walk_keys [simp]: "distinct (walk_keys protos versions present)"
  by (simp add: walk_keys_def)

lemma rebuild_ends:
  assumes "descending get ids" and "length ids < n" and "distinct ks"
  shows "rebuild_delta_channels n get protos tup ks skip \<noteq> None"
proof -
  have "card {i \<in> set ids. i \<le> x} \<le> length ids" for x
    by (rule order_trans [OF card_mono card_length]) auto
  with assms(2) have "card {i \<in> set ids. i \<le> x} < n" for x by (meson le_less_trans)
  then have "case tup_parent tup of None \<Rightarrow> True | Some c \<Rightarrow> card {i \<in> set ids. i \<le> cfg_id c} < n"
    by (simp split: option.split)
  with assms(2) obtain ancs where line: "lineage n get (tup_parent tup) = Some ancs"
    using lineage_ends [OF assms(1), of n "tup_parent tup"] by (auto split: option.splits)
  have d: "distinct (writable_keys tup ks)" using assms(3) by (simp add: writable_keys_def)
  have "walk n get (writable_keys tup ks) (tup_parent tup) st \<noteq> None" for st
    using walk_view [OF d line, of st] by (elim exE conjE) simp
  then show ?thesis unfolding rebuild_delta_channels_def Let_def by (simp split: option.split del: not_None_eq)
qed

text \<open>
  Reading a state always ends. Over a saver whose parent links lead to smaller IDs, GetState
  returns within as many steps as there are checkpoints: a snapshot of the checkpoint the saver finds,
  with its planned nodes, its position and its parent, or the error that there is none.
\<close>

theorem get_state_returns:
  assumes "descending get ids" and "length ids < n"
  shows "\<exists>r. get_state n get cg cfg = Some r \<and>
    (case get cfg of
       None \<Rightarrow> r = Inl (no_checkpoint cfg)
     | Some tup \<Rightarrow> \<exists>snap. r = Inr snap \<and> sn_next snap = map pt_node (cp_next (tup_checkpoint tup)) \<and>
         sn_config snap = tup_config tup \<and> sn_parent snap = tup_parent tup \<and>
         sn_interrupts snap = interrupts_from_writes (tup_writes tup))"
proof (cases "get cfg")
  case (Some tup)
  obtain vals where "reconstruct_delta_channels n get cg tup (sn_values (snapshot_from_tuple cg tup)) = Some vals"
    using rebuild_ends [OF assms, of "walk_keys (cg_protos cg) (cp_versions (tup_checkpoint tup)) (mhas (sn_values (snapshot_from_tuple cg tup)))"
        "cg_protos cg" tup "[]"]
    by (auto simp: reconstruct_delta_channels_def)
  with Some show ?thesis by (simp add: get_state_def full_snapshot_def snapshot_from_tuple_def Let_def)
qed (simp add: get_state_def)

lemma get_state_returns_witness:
  "\<exists>snap. get_state 3 demo_history demo_graph (demo_cfg ''th'' ''c2'') = Some (Inr snap) \<and>
     sn_parent snap = Some (demo_cfg ''th'' ''c1'')"
proof -
  have "descending demo_history [''c1'', ''c2'']"
    by (auto simp: descending_def demo_history_def demo_cfg_def split: if_splits)
  from get_state_returns [OF this, of 3 demo_graph "demo_cfg ''th'' ''c2''"] show ?thesis
    by (auto simp: demo_history_def demo_cfg_def split: option.splits)
qed

end
