(* ===== verification/Lineage.thy ===== *)
theory Lineage
  imports Superstep
begin

section \<open>The lineage a run leaves in the memory saver\<close>

text \<open>
  Walking a thread's ancestors ends because every parent link leads to a smaller checkpoint ID. This
  theory shows that the run loop keeps it so: the saver is only ever changed by the sink, every
  checkpoint it puts has a freshly minted ID, and its parent is the position of the run, which was
  minted or loaded before. Sequence numbers wrap after 2^24 mints, so the order of the minted IDs is
  assumed for as many of them as the run can mint.
\<close>

definition ids_ascend :: "'s run_env \<Rightarrow> nat \<Rightarrow> bool" where
  "ids_ascend env m \<longleftrightarrow> (\<forall>i j. i < j \<and> j \<le> m \<longrightarrow> mint_id env i < mint_id env j)"

text \<open>All that is stored lies below an ID, and every parent below its checkpoint.\<close>

definition stored_below :: "string \<Rightarrow> memory_saver \<Rightarrow> bool" where
  "stored_below fresh s \<longleftrightarrow>
     (\<forall>c cid st. map_of (ms_ns s c) cid = Some st \<longrightarrow> cid < fresh \<and> cp_id (st_cp st) < fresh \<and>
        (case st_parent st of None \<Rightarrow> True | Some p \<Rightarrow> cfg_id p < cid))"

definition put_below :: "string \<Rightarrow> put_record \<Rightarrow> bool" where
  "put_below fresh r \<longleftrightarrow> cfg_id (pr_cfg r) < cp_id (pr_cp r) \<and> cp_id (pr_cp r) < fresh"

definition sink_below :: "string \<Rightarrow> sync_sink \<times> memory_saver \<Rightarrow> bool" where
  "sink_below fresh st \<longleftrightarrow>
     stored_below fresh (snd st) \<and> (case ss_last_put (fst st) of None \<Rightarrow> True | Some r \<Rightarrow> put_below fresh r)"

definition line_ok :: "memory_saver run_env \<Rightarrow> memory_saver exec \<Rightarrow> bool" where
  "line_ok env ex \<longleftrightarrow>
     re_ops env = memory_ops \<and> sink_below (mint_id env (ex_minted ex)) (ex_saver ex) \<and>
     cfg_id (ex_cfg ex) < mint_id env (ex_minted ex)"

subsection \<open>The saver\<close>

lemma stored_below_mono: "stored_below a s \<Longrightarrow> a \<le> b \<Longrightarrow> stored_below b s"
  unfolding stored_below_def by (meson less_le_trans)

lemma sink_below_mono: "sink_below a st \<Longrightarrow> a \<le> b \<Longrightarrow> sink_below b st"
  unfolding sink_below_def put_below_def
  by (auto split: option.splits intro: stored_below_mono order_less_le_trans)

lemma stored_below_put:
  assumes "stored_below fresh s" and "cfg_id cfg < cp_id cp" and "cp_id cp < fresh"
  shows "stored_below fresh (fst (ms_put s cfg cp md nv))"
  using assms unfolding stored_below_def ms_put_eq by (auto split: option.splits)

lemma put_writes_stored_frame:
  "st_cp (put_writes_stored task path ws st) = st_cp st" "st_parent (put_writes_stored task path ws st) = st_parent st"
  by simp_all

lemma stored_below_put_writes:
  assumes "stored_below fresh s"
  shows "stored_below fresh (fst (ms_put_writes s cfg ws task path))"
proof (cases "ms_lookup s cfg")
  case (Some hit)
  then obtain cid st where l: "ms_lookup s cfg = Some (cid, st)" by (cases hit) simp
  show ?thesis
    using assms ms_lookup_Some [OF l] unfolding stored_below_def ms_put_writes_Some [OF l]
    by (auto simp: put_writes_stored_frame)
qed (use assms in \<open>simp add: ms_put_writes_def\<close>)

text \<open>Every request, repairs of a failed delta batch included, keeps the order.\<close>

lemma sync_request_below:
  assumes "sink_below fresh st" and "\<And>r. req = ReqPut r \<Longrightarrow> put_below fresh r"
  shows "sink_below fresh (fst (sync_request memory_ops req st))"
proof -
  obtain k s where st: "st = (k, s)" by fastforce
  have below: "stored_below fresh s" "\<And>r. ss_last_put k = Some r \<Longrightarrow> put_below fresh r"
    using assms(1) by (auto simp: sink_below_def st)
  obtain s1 r1 where ex: "sink_execute memory_ops req s = (s1, r1)" by fastforce
  have s1: "stored_below fresh s1"
  proof (cases req)
    case (ReqPut r)
    with ex assms(2) [OF ReqPut] stored_below_put [OF below(1), of "pr_cfg r" "pr_cp r" "pr_md r" "pr_versions r"]
    show ?thesis by (auto simp: sink_execute_def memory_ops_def put_below_def split: prod.splits)
  next
    case (ReqPutWrites cfg ws task path delta)
    with ex stored_below_put_writes [OF below(1), of cfg ws task path]
    show ?thesis by (simp add: sink_execute_def memory_ops_def)
  qed
  have repaired: "stored_below fresh (fst (repair_after memory_ops req (ss_last_put k) e s1))" for e
  proof (cases "ss_last_put k")
    case (Some r)
    have "stored_below fresh (fst (ms_put s1 (pr_cfg r) ((pr_cp r)\<lparr>cp_values := v\<rparr>) (pr_md r) (pr_versions r)))" for v
      using below(2) [OF Some] by (intro stored_below_put [OF s1]) (simp_all add: put_below_def)
    then show ?thesis
      by (auto simp: repair_after_def repair_put_def Some s1 memory_ops_def dest: arg_cong [where f = fst] split: prod.splits)
        (metis fst_conv)
  qed (simp add: repair_after_def repair_put_def s1)
  have put: "put_below fresh r" if "last_put_after req (ss_last_put k) = Some r" for r
    using that assms(2) below(2) by (cases req) (auto simp: last_put_after_def)
  show ?thesis
  proof (cases "ss_poisoned k")
    case (Some e)
    with assms(1) show ?thesis by (simp add: sync_request_def st)
  next
    case None
    show ?thesis
    proof (cases r1)
      case (Inl e)
      obtain s2 e2 where rep: "repair_after memory_ops req (ss_last_put k) e s1 = (s2, e2)" by fastforce
      with None Inl ex repaired [of e] below(2) show ?thesis
        by (auto simp: sync_request_def st sink_below_def split: option.split)
    next
      case (Inr u)
      with None ex s1 put show ?thesis by (auto simp: sync_request_def st sink_below_def split: option.split)
    qed
  qed
qed

subsection \<open>The run\<close>

text \<open>
  \<open>ex'\<close> continues \<open>ex\<close> with at most \<open>k\<close> checkpoints of its own, and keeps the order as long as the
  minted IDs ascend up to \<open>m\<close>.
\<close>

definition extends :: "memory_saver run_env \<Rightarrow> nat \<Rightarrow> nat \<Rightarrow> memory_saver exec \<Rightarrow> memory_saver exec \<Rightarrow> bool" where
  "extends env m k ex ex' \<longleftrightarrow>
     ex_minted ex \<le> ex_minted ex' \<and> ex_minted ex' \<le> ex_minted ex + k \<and>
     (ids_ascend env m \<and> ex_minted ex' \<le> m \<and> line_ok env ex \<longrightarrow> line_ok env ex')"

lemma extends_same:
  "ex_minted ex' = ex_minted ex \<Longrightarrow> ex_saver ex' = ex_saver ex \<Longrightarrow> ex_cfg ex' = ex_cfg ex \<Longrightarrow> extends env m k ex ex'"
  by (simp add: extends_def line_ok_def)

lemma extends_trans: "extends env m k a b \<Longrightarrow> extends env m l b c \<Longrightarrow> k + l \<le> n \<Longrightarrow> extends env m n a c"
  unfolding extends_def by auto

lemma extends_left: "ex_minted a = ex_minted b \<Longrightarrow> ex_saver a = ex_saver b \<Longrightarrow> ex_cfg a = ex_cfg b \<Longrightarrow>
    extends env m k a c \<longleftrightarrow> extends env m k b c"
  by (simp add: extends_def line_ok_def)

lemma extends_right: "ex_minted c = ex_minted d \<Longrightarrow> ex_saver c = ex_saver d \<Longrightarrow> ex_cfg c = ex_cfg d \<Longrightarrow>
    extends env m k a c \<longleftrightarrow> extends env m k a d"
  by (simp add: extends_def line_ok_def)

lemma extends_call:
  assumes "sink_call env (ReqPutWrites cfg ws task path delta) ex = (ex', r)"
  shows "extends env m 0 ex ex'"
proof -
  obtain st r1 where req: "sync_request (re_ops env) (ReqPutWrites cfg ws task path delta) (ex_saver ex) = (st, r1)" by fastforce
  then have ex': "ex' = ex\<lparr>ex_saver := st\<rparr>" using assms by (simp add: sink_call_def)
  have "line_ok env ex \<Longrightarrow> line_ok env ex'"
    using sync_request_below [of "mint_id env (ex_minted ex)" "ex_saver ex" "ReqPutWrites cfg ws task path delta"] req
    by (simp add: line_ok_def ex')
  then show ?thesis by (simp add: extends_def ex')
qed

lemma extends_put:
  "put_writes env ws task path delta ex = (ex', r) \<Longrightarrow> extends env m 0 ex ex'"
  "put_pause_writes env ws task path delta ex = (ex', r) \<Longrightarrow> extends env m 0 ex ex'"
  by (auto simp: put_writes_def put_pause_writes_def extends_same dest: extends_call split: if_splits)

lemma extends_save:
  assumes "save_checkpoint env pause suppress source step nexts ex = (ex', r)"
  shows "extends env m 1 ex ex'"
proof -
  let ?n = "ex_minted ex" and ?rs = "ex_rs ex"
  let ?snaps = "snapshot_keys ?rs (advance_delta_counters (rs_protos ?rs) (rs_delta_counters ?rs) (rs_updated ?rs)) source pause suppress"
  let ?counters = "reset_counters ?snaps (advance_delta_counters (rs_protos ?rs) (rs_delta_counters ?rs) (rs_updated ?rs))"
  let ?cp = "checkpoint_of env ?snaps (mint_id env ?n) step nexts ex"
  let ?cfg = "\<lparr>cfg_thread = re_thread env, cfg_ns = re_ns env, cfg_id = cfg_id (ex_cfg ex)\<rparr>"
  let ?put = "\<lparr>pr_cfg = ?cfg, pr_cp = ?cp,
      pr_md = \<lparr>md_source = source, md_step = step, md_run_id = [], md_parents = re_parents env, md_counters = non_zero_counters ?counters\<rparr>,
      pr_versions = [], pr_repair = delta_repair_snapshots suppress ?rs\<rparr>"
  let ?ex = "ex\<lparr>ex_rs := ?rs\<lparr>rs_delta_counters := ?counters, rs_delta_overwrite := []\<rparr>, ex_minted := Suc ?n\<rparr>"
  obtain st r1 where req: "sync_request (re_ops env) (ReqPut ?put) (ex_saver ex) = (st, r1)" by fastforce
  have call: "sink_call env (ReqPut ?put) ?ex = (?ex\<lparr>ex_saver := st\<rparr>, r1)" using req by (simp add: sink_call_def)
  have ex': "ex_minted ex' = Suc ?n" "ex_saver ex' = st" "cfg_id (ex_cfg ex') \<in> {cfg_id (ex_cfg ex), mint_id env ?n}"
    using assms call by (auto simp: save_checkpoint_def Let_def split: sum.splits)
  have "line_ok env ex'" if "ids_ascend env m" "Suc ?n \<le> m" "line_ok env ex"
  proof -
    have up: "mint_id env ?n < mint_id env (Suc ?n)" using that(1,2) by (simp add: ids_ascend_def)
    have pos: "cfg_id (ex_cfg ex) < mint_id env ?n" and ops: "re_ops env = memory_ops"
      and sink: "sink_below (mint_id env ?n) (ex_saver ex)" using that(3) by (simp_all add: line_ok_def)
    have "sink_below (mint_id env (Suc ?n)) (fst (sync_request memory_ops (ReqPut ?put) (ex_saver ex)))"
      using up pos sink_below_mono [OF sink less_imp_le [OF up]]
      by (intro sync_request_below) (auto simp: put_below_def checkpoint_of_def)
    with req ops ex' up pos show ?thesis by (auto simp: line_ok_def)
  qed
  with ex' show ?thesis by (simp add: extends_def)
qed

lemma extends_put_all:
  "put_all f xs ex = (ex', r) \<Longrightarrow> (\<And>x ex ex' r. f x ex = (ex', r) \<Longrightarrow> extends env m 0 ex ex') \<Longrightarrow> extends env m 0 ex ex'"
proof (induction xs arbitrary: ex)
  case (Cons x xs)
  obtain ex1 r1 where one: "f x ex = (ex1, r1)" by fastforce
  note 1 = Cons.prems(2) [OF one]
  show ?case
  proof (cases r1)
    case (Inr u)
    with Cons one have "extends env m 0 ex1 ex'" by simp
    with 1 show ?thesis by (rule extends_trans) simp
  qed (use Cons.prems(1) one 1 in simp)
qed (simp add: extends_same)

lemma extends_then: "extends env m k a b \<Longrightarrow> extends env m 0 b c \<Longrightarrow> extends env m k a c"
  by (rule extends_trans [of env m k a b 0 c]) simp_all

lemma extends_refl [simp]: "extends env m k ex ex"
  by (simp add: extends_same)

lemma extends_task_puts:
  "put_error_write env x ex = (ex', r) \<Longrightarrow> extends env m 0 ex ex'"
  "put_sibling cg env y ex = (ex', r) \<Longrightarrow> extends env m 0 ex ex'"
proof -
  have err: "extends env m 0 a b" if "put_error_write env z a = (b, q)" for z a b q
    using that by (auto simp: put_error_write_def dest: extends_put split: prod.splits option.splits)
  show "put_error_write env x ex = (ex', r) \<Longrightarrow> extends env m 0 ex ex'" by (rule err)
  show "put_sibling cg env y ex = (ex', r) \<Longrightarrow> extends env m 0 ex ex'"
    by (auto simp: put_sibling_def dest!: err extends_put split: prod.splits sum.splits if_splits intro: extends_then)
qed

lemma extends_put_task_writes:
  "put_task_writes cg env put_writes x ex = (ex', r) \<Longrightarrow> extends env m 0 ex ex'"
  "put_task_writes cg env put_pause_writes x ex = (ex', r) \<Longrightarrow> extends env m 0 ex ex'"
  by (auto simp: put_task_writes_def Let_def dest: extends_put split: prod.splits sum.splits if_splits)

lemmas extends_batches =
  extends_put_all [of "put_error_write _", OF _ extends_task_puts(1)]
  extends_put_all [of "put_sibling _ _", OF _ extends_task_puts(2)]
  extends_put_all [of "put_task_writes _ _ put_writes", OF _ extends_put_task_writes(1)]
  extends_put_all [of "put_task_writes _ _ put_pause_writes", OF _ extends_put_task_writes(2)]

lemma extends_ends:
  "pause_before env active node ex = (ex', r) \<Longrightarrow> extends env m 1 ex ex'"
  "abort_superstep env active ocs err ex = (ex', r) \<Longrightarrow> extends env m 1 ex ex'"
  "pause_superstep cg env active state ocs ex = (ex', r) \<Longrightarrow> extends env m 1 ex ex'"
  "pause_after cg env batch nexts merged node ex = (ex', r) \<Longrightarrow> extends env m 1 ex ex'"
  by (auto simp: pause_before_def abort_superstep_def pause_superstep_def pause_after_def Let_def
      dest!: extends_save [where m = m] extends_put [where m = m] extends_batches [where m = m]
      split: if_splits prod.splits sum.splits intro: extends_then)

lemma extends_committed:
  "save_committed cg env batch nexts ex = (ex', r) \<Longrightarrow> extends env m 1 ex ex'"
  by (auto simp: save_committed_def extends_right [of _ "_\<lparr>ex_tasks := _\<rparr>", symmetric]
      dest!: extends_save [where m = m] extends_batches [where m = m]
      split: if_splits prod.splits sum.splits intro: extends_then extends_same)

lemma extends_rs [simp]: "extends env m k (ex\<lparr>ex_rs := rs\<rparr>) ex' \<longleftrightarrow> extends env m k ex ex'"
  by (rule extends_left) simp_all

lemma extends_commit: "commit_superstep cg env active ocs ex = (ex', r) \<Longrightarrow> extends env m 1 ex ex'"
  by (auto simp: commit_superstep_def Let_def map_prod_def extends_same
      dest!: extends_committed [where m = m] extends_ends [where m = m] split: prod.splits sum.splits if_splits)

lemma extends_finish: "finish_superstep cg env active state ocs ex = (ex', r) \<Longrightarrow> extends env m 1 ex ex'"
  by (auto simp: finish_superstep_def map_prod_def dest!: extends_commit [where m = m] extends_ends [where m = m]
      split: prod.splits list.splits if_splits)

lemma extends_run_active: "run_active cg env state t ex = (ex', oc) \<Longrightarrow> extends env m 0 ex ex'"
proof -
  let ?tid = "planned_id (re_dump env) t (cfg_id (ex_cfg ex)) (rs_step (ex_rs ex) + 1)"
  assume run: "run_active cg env state t ex = (ex', oc)"
  show ?thesis
  proof (cases "tk_run_handler t \<or> ex' = ex")
    case False
    then show ?thesis
      using run by (auto simp: run_active_def Let_def dest: extends_put [where m = m]
          split: task_outcome.splits option.splits prod.splits sum.splits if_splits)
  qed (use run in \<open>auto simp: run_active_def Let_def\<close>)
qed

lemma extends_run_all: "run_all cg env state tps ex = (ex', ocs) \<Longrightarrow> extends env m 0 ex ex'"
proof (induction tps arbitrary: ex ocs)
  case (Cons tp tps)
  obtain t plan where tp: "tp = (t, plan)" by fastforce
  obtain ex1 oc where one: "(case plan of CacheHit upd cmd \<Rightarrow> (ex, normal_result (Inr (upd, cmd)) None)
      | CacheFailed e \<Rightarrow> (ex, failed_result e None) | _ \<Rightarrow> run_active cg env state t ex) = (ex1, oc)" by fastforce
  have "extends env m 0 ex ex1"
    using one by (cases plan) (auto dest: extends_run_active)
  moreover obtain ocs2 where "run_all cg env state tps ex1 = (ex', ocs2)"
    using Cons.prems one by (auto simp: tp split: prod.splits)
  ultimately show ?case using Cons.IH extends_then by blast
qed simp

lemma extends_lookup_all: "lookup_all cg env state ts ex = (ex', plans) \<Longrightarrow> extends env m 0 ex ex'"
proof (induction ts arbitrary: ex plans)
  case (Cons t ts)
  obtain ex1 plan where one: "cache_lookup cg env state t ex = (ex1, plan)" by fastforce
  then have "extends env m 0 ex ex1"
    by (auto simp: cache_lookup_def extends_same split: option.splits if_splits sum.splits prod.splits)
  moreover obtain plans2 where "lookup_all cg env state ts ex1 = (ex', plans2)"
    using Cons.prems one by (auto split: prod.splits)
  ultimately show ?case using Cons.IH extends_then by blast
qed simp

lemma extends_cache_store: "cache_store env x ex = (ex', r) \<Longrightarrow> extends env m 0 ex ex'"
  by (auto simp: cache_store_def extends_same split: prod.splits cache_plan.splits if_splits sum.splits)

lemma extends_dispatch:
  assumes "dispatch_superstep cg env active ex = (ex', r)"
  shows "extends env m 1 ex ex'"
proof -
  let ?state = "snapshot (ex_rs ex)"
  obtain ex0 plans where look: "lookup_all cg env ?state active ex = (ex0, plans)" by fastforce
  obtain ex1 ocs0 where run: "run_all cg env ?state (zip active plans) ex0 = (ex1, ocs0)" by fastforce
  obtain ex2 r2 where store: "put_all (cache_store env) (zip (zip active plans) ocs0) (ex1\<lparr>ex_queues := []\<rparr>) = (ex2, r2)" by fastforce
  have "extends env m 0 (ex1\<lparr>ex_queues := []\<rparr>) ex2"
    by (rule extends_put_all [OF store]) (rule extends_cache_store)
  then have "extends env m 0 ex1 ex2" by (simp add: extends_left [of "ex1\<lparr>ex_queues := []\<rparr>" ex1])
  with extends_then [OF extends_lookup_all [OF look] extends_run_all [OF run]] have to2: "extends env m 0 ex ex2"
    by (rule extends_then)
  show ?thesis
  proof (cases r2)
    case (Inl e)
    with assms look run store have "ex' = ex2" by (simp add: dispatch_superstep_def Let_def)
    with to2 show ?thesis by (auto intro: extends_trans [OF _ extends_refl [of env m 0]])
  next
    case (Inr u)
    obtain ocs1 msgs where stamp: "stamp_outcomes (cg_protos cg) (re_msg_ids env) ocs0 (ex_msgs ex2) = (ocs1, msgs)" by fastforce
    have "finish_superstep cg env active ?state (map2 (join_arrivals cg) active ocs1) (ex2\<lparr>ex_msgs := msgs\<rparr>) = (ex', r)"
      using assms look run store stamp Inr by (simp add: dispatch_superstep_def Let_def)
    from extends_finish [OF this] have "extends env m 1 ex2 ex'" by (simp add: extends_left [of "ex2\<lparr>ex_msgs := msgs\<rparr>" ex2])
    with to2 show ?thesis by (rule extends_trans) simp
  qed
qed

text \<open>A superstep mints at most one checkpoint.\<close>

lemma extends_superstep: "superstep cg env ex = (ex', r) \<Longrightarrow> extends env m 1 ex ex'"
  by (auto simp: superstep_def Let_def map_prod_def extends_same
      extends_left [of "ex\<lparr>ex_skip := [], ex_steps := ex_steps ex + 1\<rparr>" ex]
      dest!: extends_dispatch [where m = m] extends_ends [where m = m] split: prod.splits option.splits if_splits)

lemma extends_run_loop:
  assumes "run_loop cg env ex = (ex', r)" and "ex_steps ex \<le> re_limit env"
  shows "extends env m (Suc (nat (re_limit env - ex_steps ex))) ex ex'"
  using assms
proof (induction cg env ex rule: run_loop.induct)
  case (1 cg env ex)
  obtain ex1 r1 where step: "superstep cg env ex = (ex1, r1)" by fastforce
  note one = extends_superstep [OF step, of m]
  show ?case
  proof (cases r1)
    case None
    with superstep_continues [of cg env ex ex1] step
    have next_step: "ex_steps ex1 = ex_steps ex + 1" "ex_steps ex1 \<le> re_limit env" by simp_all
    have "run_loop cg env ex1 = (ex', r)" using 1(2) step None by (simp add: run_loop.simps [of cg env ex])
    with 1(1) [OF step [symmetric]] None next_step
    have "extends env m (Suc (nat (re_limit env - ex_steps ex1))) ex1 ex'" by simp
    with one show ?thesis by (rule extends_trans) (use next_step in simp)
  next
    case (Some out)
    with 1(2) step have "ex' = ex1" by (simp add: run_loop.simps [of cg env ex])
    with one show ?thesis by (auto intro: extends_trans [OF _ extends_refl [of env m 0]])
  qed
qed

end
