(* ===== verification/Runs.thy ===== *)
theory Runs
  imports Snapshot Persistence Lineage
begin

section \<open>Starting, resuming and updating (graph.go run, resume.go resumeFromTuple, snapshot.go)\<close>

text \<open>
  The three ways into a thread's state: a run that starts fresh, takes a new turn on an existing
  thread or resumes; and an update made by hand. Each loads a tuple, restores the run state from it
  and hydrates its delta channels. As in \<open>Executor\<close> durability is sync; the walk through the ancestors
  has fuel, and \<open>None\<close> is a walk that did not end.
\<close>

subsection \<open>Restoring from a tuple\<close>

definition restored :: "compiled_graph \<Rightarrow> cp_tuple \<Rightarrow> run_state" where
  "restored cg tup =
     (let cp = tup_checkpoint tup
      in (restore_state (cp_values cp) (cp_versions cp) (cp_seen cp) (new_run_state (cg_protos cg)))
           \<lparr>rs_step := md_step (tup_metadata tup), rs_delta_counters := md_counters (tup_metadata tup)\<rparr>)"

definition delta_proto :: "compiled_graph \<Rightarrow> string \<Rightarrow> bool" where
  "delta_proto cg ch = (case map_of (cg_protos cg) ch of Some p \<Rightarrow> is_delta p | None \<Rightarrow> False)"

text \<open>Channels of these pending writes are sealed: the next checkpoint stores their snapshot.\<close>

definition seal_channels :: "compiled_graph \<Rightarrow> cp_write list \<Rightarrow> run_state \<Rightarrow> run_state" where
  "seal_channels cg ws rs =
     rs\<lparr>rs_delta_overwrite := fold List.insert (filter (delta_proto cg) (map w_channel ws)) (rs_delta_overwrite rs)\<rparr>"

text \<open>Writes an exit run anchored on the tuple it resumed from belong to the run that consumed it.\<close>

definition stale_writes :: "cp_tuple \<Rightarrow> cp_write list" where
  "stale_writes tup =
     filter (\<lambda>w. case parse_exit_delta_task_id (w_task w) of
                   None \<Rightarrow> False | Some step \<Rightarrow> md_step (tup_metadata tup) < step) (tup_writes tup)"

record resumed =
  re_state :: run_state
  re_plan :: resume_plan

definition resume_from_tuple ::
  "nat \<Rightarrow> (config \<Rightarrow> cp_tuple option) \<Rightarrow> compiled_graph \<Rightarrow> cp_tuple \<Rightarrow> gval \<Rightarrow> string \<Rightarrow> (goerr + resumed) option" where
  "resume_from_tuple n get cg tup resume graph_ns =
     (case plan_resume (\<lambda>node. handler_of cg node \<noteq> None) tup resume graph_ns of
        Inl e \<Rightarrow> Some (Inl e)
      | Inr plan \<Rightarrow>
          (case hydrate_delta_channels n get cg tup (pl_replayed plan @ map w_task (stale_writes tup))
                  (seal_channels cg (stale_writes tup) (restored cg tup)) of
             None \<Rightarrow> None
           | Some rs \<Rightarrow>
               (if pl_replay plan = [] then Some (Inr \<lparr>re_state = rs, re_plan = plan\<rparr>)
                else case apply_writes (pl_replay plan) rs of
                       (_, Inl e) \<Rightarrow> Some (Inl e)
                     | (rs', Inr _) \<Rightarrow> Some (Inr \<lparr>re_state = rs', re_plan = plan\<rparr>))))"

subsection \<open>Updating a state by hand\<close>

definition update_node :: "compiled_graph \<Rightarrow> string \<Rightarrow> goerr + string" where
  "update_node cg as_node =
     (if as_node = [] \<and> mlen (cg_nodes cg) \<noteq> 1 then
        Inl (EText (''graph: UpdateState requires asNode (graph has '' @ show_int (int (mlen (cg_nodes cg))) @ '' nodes)''))
      else let node = (if as_node = [] then hd (mkeys (cg_nodes cg)) else as_node)
           in if mhas (cg_nodes cg) node then Inr node
              else Inl (EText (''graph: UpdateState: unknown node '' @ go_quote node)))"

definition update_env :: "config \<Rightarrow> cp_tuple \<Rightarrow> 's run_env \<Rightarrow> 's run_env" where
  "update_env cfg tup env =
     env\<lparr>re_thread := cfg_thread cfg, re_ns := cfg_ns cfg, re_parents := md_parents (tup_metadata tup)\<rparr>"

definition update_state ::
  "nat \<Rightarrow> ('s \<Rightarrow> config \<Rightarrow> cp_tuple option) \<Rightarrow> compiled_graph \<Rightarrow> 's run_env \<Rightarrow> config \<Rightarrow> gstate \<Rightarrow> string
    \<Rightarrow> 's exec \<Rightarrow> ('s exec \<times> (goerr + config)) option" where
  "update_state n get cg env cfg vals as_node ex =
     (case update_node cg as_node of
        Inl e \<Rightarrow> Some (ex, Inl e)
      | Inr node \<Rightarrow>
          (case get (snd (ex_saver ex)) cfg of
             None \<Rightarrow> Some (ex, Inl (no_checkpoint cfg))
           | Some tup \<Rightarrow>
               (case hydrate_delta_channels n (get (snd (ex_saver ex))) cg tup [] (restored cg tup) of
                  None \<Rightarrow> None
                | Some rs \<Rightarrow>
                    (case ensure_message_ids (cg_protos cg) (re_msg_ids env) vals (ex_msgs ex) of (vals', msgs) \<Rightarrow>
                     case apply_writes [\<lparr>tw_node = node, tw_update = vals'\<rparr>] rs of
                       (_, Inl e) \<Rightarrow> Some (ex\<lparr>ex_msgs := msgs\<rparr>, Inl e)
                     | (rs', Inr _) \<Rightarrow>
                         (case static_next cg node (snapshot rs') of
                            Inl e \<Rightarrow> Some (ex\<lparr>ex_msgs := msgs\<rparr>, Inl e)
                          | Inr dests \<Rightarrow>
                              (case save_checkpoint (update_env cfg tup env) False [] ''update'' (md_step (tup_metadata tup) + 1)
                                      (planned_tasks dests)
                                      (ex\<lparr>ex_rs := rs', ex_saver := (new_sync_sink, snd (ex_saver ex)),
                                          ex_cfg := tup_config tup, ex_msgs := msgs\<rparr>) of
                                 (ex', Inl e) \<Rightarrow> Some (ex', Inl e)
                               | (ex', Inr _) \<Rightarrow> Some (ex', Inr (ex_cfg ex'))))))))"

record bulk_update =
  bu_values :: gstate
  bu_as_node :: string
  bu_task :: string

fun update_in_turn ::
  "nat \<Rightarrow> ('s \<Rightarrow> config \<Rightarrow> cp_tuple option) \<Rightarrow> compiled_graph \<Rightarrow> 's run_env \<Rightarrow> config \<Rightarrow> bulk_update list
    \<Rightarrow> 's exec \<Rightarrow> ('s exec \<times> (goerr + config)) option" where
  "update_in_turn n get cg env cfg [] ex = Some (ex, Inr cfg)"
| "update_in_turn n get cg env cfg (u # us) ex =
     (case update_state n get cg env cfg (bu_values u) (bu_as_node u) ex of
        None \<Rightarrow> None
      | Some (ex', Inl e) \<Rightarrow> Some (ex', Inl e)
      | Some (ex', Inr cfg') \<Rightarrow> update_in_turn n get cg env cfg' us ex')"

definition bulk_update_state ::
  "nat \<Rightarrow> ('s \<Rightarrow> config \<Rightarrow> cp_tuple option) \<Rightarrow> compiled_graph \<Rightarrow> 's run_env \<Rightarrow> config \<Rightarrow> bulk_update list list
    \<Rightarrow> 's exec \<Rightarrow> ('s exec \<times> (goerr + config)) option" where
  "bulk_update_state n get cg env cfg supersteps ex =
     (if supersteps = [] then Some (ex, Inl (EText ''graph: BulkUpdateState: no supersteps provided''))
      else if [] \<in> set supersteps then Some (ex, Inl (EText ''graph: BulkUpdateState: no updates provided''))
      else update_in_turn n get cg env cfg (concat supersteps) ex)"

subsection \<open>Starting a run\<close>

record run_options =
  ro_checkpointer :: bool
  ro_resume :: gval
  ro_force :: bool
  ro_checkpoint_id :: string
  ro_pin_ns :: string
  ro_graph :: string
  ro_durability :: string
  ro_limit :: int

definition validate_durability :: "string \<Rightarrow> goerr option" where
  "validate_durability d =
     (if d \<in> {[], ''sync'', ''async'', ''exit''} then None
      else Some (EText (''graph: unknown durability '' @ go_quote d @ '' (want '' @ go_quote ''sync''
       @ '', '' @ go_quote ''async'' @ '', or '' @ go_quote ''exit'' @ '')'')))"

definition effective_limit :: "compiled_graph \<Rightarrow> run_options \<Rightarrow> int" where
  "effective_limit cg opts = (if ro_limit opts > 0 then ro_limit opts else cg_limit cg)"

text \<open>
  The tuple a run loads, and the checks on an addressed checkpoint. The lookup is one that does not fail,
  as that of the memory saver; the errors a saver may return from it are left out here and in the update.
\<close>

definition load_tuple :: "(config \<Rightarrow> cp_tuple option) \<Rightarrow> 's run_env \<Rightarrow> run_options \<Rightarrow> cp_tuple option" where
  "load_tuple get env opts =
     (if re_checkpointing env
      then get \<lparr>cfg_thread = re_thread env, cfg_ns = (if ro_pin_ns opts \<noteq> [] then ro_pin_ns opts else re_ns env),
                cfg_id = ro_checkpoint_id opts\<rparr>
      else None)"

definition check_start :: "'s run_env \<Rightarrow> run_options \<Rightarrow> cp_tuple option \<Rightarrow> goerr option" where
  "check_start env opts tup =
     (if ro_checkpoint_id opts \<noteq> [] \<and> \<not> ro_checkpointer opts then
        Some (EText ''graph: Options.CheckpointID requires a checkpointer (see WithCheckpointer)'')
      else if ro_checkpoint_id opts \<noteq> [] \<and> re_thread env = [] then
        Some (EText ''graph: Options.CheckpointID requires ThreadID'')
      else if ro_checkpoint_id opts \<noteq> [] \<and> tup = None then
        Some (EText (''graph: no checkpoint '' @ go_quote (ro_checkpoint_id opts) @ '' found for thread '' @ go_quote (re_thread env)))
      else if ro_graph opts \<noteq> [] \<and> ro_resume opts = VNil then
        Some (EText ''graph: Options.Graph requires Options.Resume'')
      else if ro_graph opts = parent_graph then
        Some (EText (''graph: Options.Graph must not be '' @ go_quote parent_graph
          @ '' (a resume applies within the graph it targets; to resume the parent of a subgraph, resume the parent thread)''))
      else None)"

definition check_resume :: "'s run_env \<Rightarrow> run_options \<Rightarrow> cp_tuple option \<Rightarrow> goerr option" where
  "check_resume env opts tup =
     (if \<not> ro_checkpointer opts then Some (EText ''graph: Options.Resume requires a checkpointer (see WithCheckpointer)'')
      else if re_thread env = [] then Some (EText ''graph: Options.Resume requires ThreadID'')
      else if tup = None then Some (EText (''graph: no checkpoint found for thread '' @ go_quote (re_thread env)))
      else None)"

type_synonym 's started = "'s exec \<times> run_end option"

definition start_error :: "goerr \<Rightarrow> 's exec \<Rightarrow> 's started" where
  "start_error e ex = (ex, Some (RunErr [] e))"

definition start_resume ::
  "nat \<Rightarrow> (config \<Rightarrow> cp_tuple option) \<Rightarrow> compiled_graph \<Rightarrow> cp_tuple \<Rightarrow> gval \<Rightarrow> string \<Rightarrow> 's exec \<Rightarrow> 's started option" where
  "start_resume n get cg tup resume graph_ns ex =
     (case resume_from_tuple n get cg tup resume graph_ns of
        None \<Rightarrow> None
      | Some (Inl e) \<Rightarrow> Some (start_error e ex)
      | Some (Inr r) \<Rightarrow>
          Some (ex\<lparr>ex_rs := re_state r, ex_tasks := pl_tasks (re_plan r), ex_queues := pl_resume (re_plan r),
                   ex_skip := pl_skip (re_plan r)\<rparr>, None))"

text \<open>Applying the input and planning the entry, for a fresh run and for a new turn.\<close>

definition start_input ::
  "compiled_graph \<Rightarrow> 's run_env \<Rightarrow> gstate \<Rightarrow> int \<Rightarrow> run_state \<Rightarrow> 's exec \<Rightarrow> 's started" where
  "start_input cg env input step rs ex =
     (case apply_writes [\<lparr>tw_node = input_node_name, tw_update = input\<rparr>] rs of
        (_, Inl e) \<Rightarrow> start_error e ex
      | (rs', Inr _) \<Rightarrow>
          (case entry_tasks cg (snapshot rs') of
             Inl e \<Rightarrow> start_error (EWrap ''graph: conditional entry point'' e) ex
           | Inr tasks \<Rightarrow>
               let ex1 = ex\<lparr>ex_rs := rs'\<rparr>
               in if \<not> re_checkpointing env then (ex1\<lparr>ex_tasks := tasks\<rparr>, None)
                  else case save_checkpoint env False [] ''input'' step (planned_tasks tasks) ex1 of
                         (ex2, Inl e) \<Rightarrow> start_error e ex2
                       | (ex2, Inr _) \<Rightarrow>
                           (case persist_delta_input cg env input ex2 of
                              (ex3, Inl e) \<Rightarrow> start_error (persisting_error ''delta input writes'' env e) ex3
                            | (ex3, Inr _) \<Rightarrow> (ex3\<lparr>ex_tasks := tasks\<rparr>, None))))"

definition start_run ::
  "nat \<Rightarrow> ('s \<Rightarrow> config \<Rightarrow> cp_tuple option) \<Rightarrow> compiled_graph \<Rightarrow> 's run_env \<Rightarrow> run_options \<Rightarrow> gstate \<Rightarrow> 's exec \<Rightarrow> 's started option" where
  "start_run n get cg env opts input ex =
     (let lookup = get (snd (ex_saver ex));
          tup = load_tuple lookup env opts;
          ex1 = ex\<lparr>ex_rs := new_run_state (cg_protos cg), ex_saver := (new_sync_sink, snd (ex_saver ex)),
                   ex_cfg := (case tup of None \<Rightarrow> \<lparr>cfg_thread = [], cfg_ns = [], cfg_id = []\<rparr> | Some t \<Rightarrow> tup_config t),
                   ex_tasks := [], ex_queues := [], ex_skip := [], ex_steps := 0\<rparr>
      in case validate_durability (ro_durability opts) of
           Some e \<Rightarrow> Some (start_error e ex1)
         | None \<Rightarrow>
           (case check_start env opts tup of
              Some e \<Rightarrow> Some (start_error e ex1)
            | None \<Rightarrow>
              (case ensure_message_ids (cg_protos cg) (re_msg_ids env) input (ex_msgs ex1) of (input', msgs) \<Rightarrow>
                 let ex2 = ex1\<lparr>ex_msgs := msgs\<rparr>
                 in if (ro_resume opts \<noteq> VNil \<or> ro_force opts) \<and> \<not> (ro_force opts \<and> tup = None) then
                      (case check_resume env opts tup of
                         Some e \<Rightarrow> Some (start_error e ex2)
                       | None \<Rightarrow> start_resume n lookup cg (the tup) (ro_resume opts) (ro_graph opts) ex2)
                    else case tup of
                           Some t \<Rightarrow>
                             (if input = [] then start_resume n lookup cg t VNil [] ex2
                              else case hydrate_delta_channels n lookup cg t []
                                          (seal_channels cg (tup_writes t) (restored cg t)) of
                                     None \<Rightarrow> None
                                   | Some rs \<Rightarrow> Some (start_input cg env input' (md_step (tup_metadata t)) rs ex2))
                         | None \<Rightarrow> Some (start_input cg env input' (-1) (new_run_state (cg_protos cg)) ex2))))"

text \<open>A whole invocation: the start, then the loop under the limit in force.\<close>

definition run_env_for :: "compiled_graph \<Rightarrow> run_options \<Rightarrow> 's run_env \<Rightarrow> 's run_env" where
  "run_env_for cg opts env =
     env\<lparr>re_limit := effective_limit cg opts, re_checkpointing := ro_checkpointer opts \<and> re_thread env \<noteq> []\<rparr>"

definition invoke ::
  "nat \<Rightarrow> ('s \<Rightarrow> config \<Rightarrow> cp_tuple option) \<Rightarrow> compiled_graph \<Rightarrow> 's run_env \<Rightarrow> run_options \<Rightarrow> gstate \<Rightarrow> 's exec
    \<Rightarrow> ('s exec \<times> run_end) option" where
  "invoke n get cg env0 opts input ex =
     (let env = run_env_for cg opts env0
      in case start_run n get cg env opts input ex of
           None \<Rightarrow> None
         | Some (ex', Some r) \<Rightarrow> Some (ex', r)
         | Some (ex', None) \<Rightarrow> Some (run_loop cg env ex'))"

subsection \<open>Every invocation ends\<close>

lemma hydrate_ends:
  "descending get ids \<Longrightarrow> length ids < n \<Longrightarrow> hydrate_delta_channels n get cg tup skip rs \<noteq> None"
  unfolding hydrate_delta_channels_def using rebuild_ends by simp

lemma resume_from_tuple_ends:
  assumes "descending get ids" and "length ids < n"
  shows "resume_from_tuple n get cg tup resume graph_ns \<noteq> None"
proof (cases "plan_resume (\<lambda>node. handler_of cg node \<noteq> None) tup resume graph_ns")
  case (Inr plan)
  obtain rs where "hydrate_delta_channels n get cg tup (pl_replayed plan @ map w_task (stale_writes tup))
      (seal_channels cg (stale_writes tup) (restored cg tup)) = Some rs"
    using hydrate_ends [OF assms] by blast
  with Inr show ?thesis by (simp add: resume_from_tuple_def split: prod.split sum.split)
qed (simp add: resume_from_tuple_def)

lemma start_run_ends:
  assumes "descending (get (snd (ex_saver ex))) ids" and "length ids < n"
  shows "start_run n get cg env opts input ex \<noteq> None"
proof -
  have resume: "start_resume n (get (snd (ex_saver ex))) cg tup r g e \<noteq> None" for tup r g and e :: "'a exec"
    using resume_from_tuple_ends [OF assms, of cg tup r g]
    by (auto simp: start_resume_def split: sum.split option.split)
  show ?thesis
    unfolding start_run_def Let_def
    using resume hydrate_ends [OF assms]
    by (auto split: option.split prod.split simp del: not_None_eq)
qed

lemma start_input_steps: "start_input cg env input step rs ex = (ex', r) \<Longrightarrow> ex_steps ex' = ex_steps ex"
proof -
  assume start: "start_input cg env input step rs ex = (ex', r)"
  have put: "ex_steps b = ex_steps a" if "persist_delta_input cg env input a = (b, q)" for a b q
    using that sink_only_fields(6) [OF sink_only_put(1) [of a env "delta_input cg input" null_task_id "[]" True]]
    by (auto simp: persist_delta_input_def split: if_splits)
  show ?thesis
    using start by (auto simp: start_input_def start_error_def Let_def dest!: put put_steps(2)
        split: prod.splits sum.splits if_splits)
qed

lemma start_run_steps: "start_run n get cg env opts input ex = Some (ex', r) \<Longrightarrow> ex_steps ex' = 0"
  unfolding start_run_def Let_def
  by (auto simp: start_error_def start_resume_def dest!: start_input_steps
      split: option.splits prod.splits sum.splits if_splits)

text \<open>
  C3: every invocation of a compiled graph ends. Whatever the options, the input and the nodes do,
  over a saver whose parent links lead to smaller IDs the start comes to its end within as many steps
  as there are checkpoints and the loop within its recursion limit; a run counts at most one superstep
  above the limit in force.
\<close>

theorem every_invocation_ends:
  assumes "descending (get (snd (ex_saver ex))) ids" and "length ids < n" and "0 \<le> effective_limit cg opts"
  shows "\<exists>ex' r. invoke n get cg env opts input ex = Some (ex', r) \<and> ex_steps ex' \<le> effective_limit cg opts + 1"
proof -
  let ?env = "run_env_for cg opts env"
  obtain ex1 r1 where start: "start_run n get cg ?env opts input ex = Some (ex1, r1)"
    using start_run_ends [of get ex ids n cg ?env opts input, OF assms(1,2)] by auto
  have zero: "ex_steps ex1 = 0" using start_run_steps [OF start] .
  show ?thesis
  proof (cases r1)
    case None
    obtain ex' r where loop: "run_loop cg ?env ex1 = (ex', r)" by fastforce
    have "ex_steps ex1 \<le> re_limit ?env" using zero assms(3) by (simp add: run_env_for_def)
    from run_loop_steps [OF loop this] have "ex_steps ex' \<le> effective_limit cg opts + 1" by (simp add: run_env_for_def)
    with None start loop show ?thesis by (simp add: invoke_def Let_def)
  next
    case (Some r)
    with start zero assms(3) show ?thesis by (simp add: invoke_def Let_def)
  qed
qed

text \<open>A fresh run of the demonstration graph over an empty saver.\<close>

definition demo_options :: run_options where
  "demo_options =
     \<lparr>ro_checkpointer = True, ro_resume = VNil, ro_force = False, ro_checkpoint_id = [], ro_pin_ns = [],
      ro_graph = [], ro_durability = [], ro_limit = 0\<rparr>"

lemma no_checkpoints [simp]: "ms_get_tuple new_memory_saver c = None"
  by (simp add: ms_get_tuple_def ms_lookup_def new_memory_saver_def ms_ns_def latest_id_def)

lemma every_invocation_ends_witness:
  "\<exists>ex' r. invoke 1 ms_get_tuple demo_graph demo_run_env demo_options [] demo_exec = Some (ex', r) \<and> ex_steps ex' \<le> 101"
proof -
  have "descending (ms_get_tuple (snd (ex_saver demo_exec))) []"
    by (simp add: descending_def demo_exec_def)
  moreover have "effective_limit demo_graph demo_options = 100" by code_simp
  ultimately show ?thesis
    using every_invocation_ends [of ms_get_tuple demo_exec "[]" 1 demo_graph demo_options demo_run_env "[]"] by simp
qed

subsection \<open>The lineage through invocations\<close>

lemma stored_keys:
  obtains ids where "\<And>c cid. map_of (ms_ns s c) cid \<noteq> None \<Longrightarrow> cid \<in> set ids"
proof
  let ?ids = "concat (map (\<lambda>(t, spaces). concat (map (\<lambda>(n, by_id). map fst by_id) spaces)) s)"
  fix c cid
  assume "map_of (ms_ns s c) cid \<noteq> None"
  then obtain spaces by_id st where "map_of s (cfg_thread c) = Some spaces" "map_of spaces (cfg_ns c) = Some by_id"
    "map_of by_id cid = Some st"
    by (auto simp: ms_ns_def mgetd_def split: option.splits)
  from this [THEN map_of_SomeD] show "cid \<in> set ?ids" by (force simp: image_iff)
qed

lemma stored_below_descending:
  assumes "stored_below fresh s"
  shows "\<exists>ids. descending (ms_get_tuple s) ids"
proof -
  obtain ids where ids: "\<And>c cid. map_of (ms_ns s c) cid \<noteq> None \<Longrightarrow> cid \<in> set ids" using stored_keys by blast
  have "cfg_id c \<in> set ids \<and> (case tup_parent t of None \<Rightarrow> True | Some p \<Rightarrow> cfg_id p < cfg_id c)"
    if "ms_get_tuple s c = Some t" "cfg_id c \<noteq> []" for c t
  proof -
    from that obtain st where st: "map_of (ms_ns s c) (cfg_id c) = Some st" "t = ms_tuple c st"
      by (auto simp: ms_get_exact)
    with ids [of c "cfg_id c"] assms show ?thesis by (auto simp: stored_below_def ms_tuple_def)
  qed
  then show ?thesis by (auto simp: descending_def)
qed

lemma stored_below_tuple:
  "stored_below fresh s \<Longrightarrow> ms_get_tuple s c = Some t \<Longrightarrow> cfg_id (tup_config t) < fresh"
  by (auto simp: stored_below_def ms_get_tuple_def ms_tuple_def dest!: ms_lookup_Some)

lemma extends_start_input:
  assumes "start_input cg env input step rs ex = (ex', r)"
  shows "extends env m 1 ex ex'"
proof -
  have tasks: "extends env m k ex (b\<lparr>ex_tasks := ts\<rparr>) \<longleftrightarrow> extends env m k ex b" for k b ts by (rule extends_right) simp_all
  have put: "extends env m 0 a b" if "persist_delta_input cg env input a = (b, q)" for a b q
    using that by (auto simp: persist_delta_input_def dest: extends_put split: if_splits)
  show ?thesis
    using assms by (auto simp: start_input_def start_error_def Let_def tasks extends_same
        dest!: put extends_save [where m = m] split: prod.splits sum.splits if_splits intro: extends_then)
qed

text \<open>A start keeps the position it loaded, or none, and so stays below the next ID it mints.\<close>

lemma extends_start_run:
  assumes "start_run n ms_get_tuple cg env opts input ex = Some (ex', r)" and "re_ops env = memory_ops"
    and "stored_below (mint_id env (ex_minted ex)) (snd (ex_saver ex))"
    and "ids_ascend env m" and "ex_minted ex < m"
  shows "line_ok env ex' \<and> ex_minted ex' \<le> Suc (ex_minted ex)"
proof -
  let ?s = "snd (ex_saver ex)"
  define tup where "tup = load_tuple (ms_get_tuple ?s) env opts"
  define ex1 where "ex1 = ex\<lparr>ex_rs := new_run_state (cg_protos cg), ex_saver := (new_sync_sink, ?s),
                   ex_cfg := (case tup of None \<Rightarrow> \<lparr>cfg_thread = [], cfg_ns = [], cfg_id = []\<rparr> | Some t \<Rightarrow> tup_config t),
                   ex_tasks := [], ex_queues := [], ex_skip := [], ex_steps := 0\<rparr>"
  have "cfg_id (ex_cfg ex1) < mint_id env (ex_minted ex)"
  proof (cases tup)
    case None
    then have "cfg_id (ex_cfg ex1) = []" by (simp add: ex1_def)
    then show ?thesis using mint_id_nonempty [of env "ex_minted ex"] by (cases "mint_id env (ex_minted ex)") simp_all
  next
    case (Some t)
    with stored_below_tuple [OF assms(3)] show ?thesis
      by (auto simp: ex1_def tup_def load_tuple_def split: if_splits)
  qed
  then have line: "line_ok env ex1" and minted: "ex_minted ex1 = ex_minted ex"
    using assms(2,3) by (simp_all add: line_ok_def sink_below_def ex1_def new_sync_sink_def)
  have msgs: "extends env m k (ex1\<lparr>ex_msgs := i\<rparr>) b \<longleftrightarrow> extends env m k ex1 b" for i k b by (rule extends_left) simp_all
  have "extends env m 1 ex1 ex'"
    using assms(1) unfolding start_run_def Let_def tup_def [symmetric] ex1_def [symmetric]
    by (auto simp: start_error_def start_resume_def extends_same msgs dest!: extends_start_input [where m = m]
        split: option.splits prod.splits sum.splits if_splits)
  with line assms(4,5) minted show ?thesis by (auto simp: extends_def)
qed

lemma extends_invoke:
  assumes "invoke n ms_get_tuple cg env opts input ex = Some (ex', r)" and "re_ops env = memory_ops"
    and "stored_below (mint_id env (ex_minted ex)) (snd (ex_saver ex))" and "0 \<le> effective_limit cg opts"
    and "ids_ascend env (ex_minted ex + nat (effective_limit cg opts) + 2)"
  shows "line_ok env ex' \<and> ex_minted ex' \<le> ex_minted ex + nat (effective_limit cg opts) + 2"
proof -
  let ?env = "run_env_for cg opts env" and ?m = "ex_minted ex + nat (effective_limit cg opts) + 2"
  have env: "mint_id ?env = mint_id env" "re_ops ?env = re_ops env" "re_limit ?env = effective_limit cg opts"
    by (simp_all add: run_env_for_def mint_id_def fun_eq_iff)
  then have line: "line_ok ?env e = line_ok env e" and ascend: "ids_ascend ?env k = ids_ascend env k" for e k
    by (simp_all add: line_ok_def ids_ascend_def)
  obtain ex1 r1 where start: "start_run n ms_get_tuple cg ?env opts input ex = Some (ex1, r1)"
    using assms(1) by (auto simp: invoke_def Let_def split: option.splits)
  have one: "line_ok ?env ex1" "ex_minted ex1 \<le> Suc (ex_minted ex)"
    using extends_start_run [OF start, of ?m] assms env by (simp_all add: ascend)
  show ?thesis
  proof (cases r1)
    case None
    have loop: "run_loop cg ?env ex1 = (ex', r)" using assms(1) start None by (simp add: invoke_def Let_def)
    have "extends ?env ?m (Suc (nat (effective_limit cg opts))) ex1 ex'"
      using extends_run_loop [OF loop, of ?m] start_run_steps [OF start] assms(4) by (simp add: env)
    with one assms(5) show ?thesis by (auto simp: extends_def line ascend)
  next
    case (Some out)
    with assms(1) start have "ex' = ex1" by (simp add: invoke_def Let_def)
    with one show ?thesis by (simp add: line)
  qed
qed

text \<open>
  C4: invocations keep every lineage of the saver finite. While the IDs the run mints ascend, an
  invocation of at most \<open>limit\<close> supersteps mints at most \<open>limit + 2\<close> checkpoints, whatever the nodes do
  and however it ends; afterwards every stored ID is below the next one to be minted and every parent
  link leads to a smaller ID, so that the walks of later reads and invocations end.
\<close>

theorem invocations_keep_lineages_descending:
  assumes "invoke n ms_get_tuple cg env opts input ex = Some (ex', r)" and "re_ops env = memory_ops"
    and "stored_below (mint_id env (ex_minted ex)) (snd (ex_saver ex))" and "0 \<le> effective_limit cg opts"
    and "ids_ascend env (ex_minted ex + nat (effective_limit cg opts) + 2)"
  shows "stored_below (mint_id env (ex_minted ex')) (snd (ex_saver ex')) \<and>
    ex_minted ex' \<le> ex_minted ex + nat (effective_limit cg opts) + 2 \<and>
    (\<exists>ids. descending (ms_get_tuple (snd (ex_saver ex'))) ids)"
  using extends_invoke [OF assms] stored_below_descending by (auto simp: line_ok_def sink_below_def)

lemma demo_ids_ascend: "ids_ascend demo_run_env m" if "m < 1000"
proof -
  have "mint_id demo_run_env i < mint_id demo_run_env j" if "i < j" "j \<le> m" for i j
    using that \<open>m < 1000\<close> by (auto simp: mint_id_def demo_run_env_def intro!: new_id_sorts_chronologically)
  then show ?thesis by (simp add: ids_ascend_def)
qed

lemma stored_below_new [simp]: "stored_below fresh new_memory_saver"
  by (simp add: stored_below_def new_memory_saver_def ms_ns_def)

lemma invocations_keep_lineages_descending_witness:
  "\<exists>ex' r ids. invoke 1 ms_get_tuple demo_graph demo_run_env demo_options [] demo_exec = Some (ex', r) \<and>
     descending (ms_get_tuple (snd (ex_saver ex'))) ids"
proof -
  obtain ex' r where run: "invoke 1 ms_get_tuple demo_graph demo_run_env demo_options [] demo_exec = Some (ex', r)"
    using start_run_ends [of ms_get_tuple demo_exec "[]" 1 demo_graph "run_env_for demo_graph demo_options demo_run_env" demo_options "[]"]
    by (fastforce simp: descending_def demo_exec_def invoke_def Let_def split: option.splits)
  have limit: "effective_limit demo_graph demo_options = 100" by code_simp
  have start: "snd (ex_saver demo_exec) = new_memory_saver" "ex_minted demo_exec = 0" "re_ops demo_run_env = memory_ops"
    by (simp_all add: demo_exec_def demo_run_env_def)
  from invocations_keep_lineages_descending [OF run] limit start demo_ids_ascend [of 102] run show ?thesis by auto
qed

subsection \<open>A run that stopped after a commit, started again\<close>

lemma hydrate_keeps:
  assumes "hydrate_delta_channels n get cg tup skip rs = Some rs'"
  shows "\<exists>chs. rs' = rs\<lparr>rs_channels := chs\<rparr> \<and> (\<forall>k. k \<in> fst ` set (rs_channels rs) \<longrightarrow> map_of chs k = map_of (rs_channels rs) k)"
proof -
  let ?ks = "walk_keys (cg_protos cg) (cp_versions (tup_checkpoint tup)) (mhas (rs_channels rs))"
  obtain built where built: "rebuild_delta_channels n get (cg_protos cg) tup ?ks skip = Some built"
    and rs': "rs' = rs\<lparr>rs_channels := mcopy (rs_channels rs) built\<rparr>"
    using assms by (auto simp: hydrate_delta_channels_def)
  have only: "map_of built k = None" if "k \<notin> set ?ks" for k
  proof -
    from that have "k \<notin> set (writable_keys tup ?ks)" by (auto simp: writable_keys_def split: if_splits)
    with built show ?thesis
      by (auto simp: rebuild_delta_channels_def Let_def split: if_splits option.splits)
  qed
  have "map_of (mcopy (rs_channels rs) built) k = map_of (rs_channels rs) k" if "k \<in> fst ` set (rs_channels rs)" for k
  proof -
    have "k \<notin> set ?ks" using that by (simp add: walk_keys_def mhas_iff_in)
    from only [OF this] show ?thesis by (simp add: map_add_def)
  qed
  with rs' show ?thesis by blast
qed

lemma seal_channels_keeps [simp]:
  "rs_channels (seal_channels cg ws rs) = rs_channels rs" "rs_versions (seal_channels cg ws rs) = rs_versions rs"
  "rs_seen (seal_channels cg ws rs) = rs_seen rs" "rs_step (seal_channels cg ws rs) = rs_step rs"
  "rs_delta_counters (seal_channels cg ws rs) = rs_delta_counters rs"
  by (simp_all add: seal_channels_def)

lemma restored_parts:
  "rs_versions (restored cg tup) = cp_versions (tup_checkpoint tup)" "rs_seen (restored cg tup) = cp_seen (tup_checkpoint tup)"
  "rs_step (restored cg tup) = md_step (tup_metadata tup)" "rs_delta_counters (restored cg tup) = md_counters (tup_metadata tup)"
  "map_of (rs_channels (restored cg tup)) k =
     map_option (chan_from_checkpoint (proto_for (new_run_state (cg_protos cg)) k)) (map_of (cp_values (tup_checkpoint tup)) k)"
  by (simp_all add: restored_def restore_state_def in_mkeys_iff Let_def del: set_mkeys)

lemma not_snapshotted:
  assumes "map_of (rs_channels rs) k = Some ch" and "\<not> is_delta ch" and "k \<notin> set (rs_delta_overwrite rs)"
  shows "k \<notin> set (snapshot_keys rs counters ''loop'' pause suppress)"
proof -
  have "k \<notin> set (delta_channels_to_snapshot (rs_channels rs) counters)"
    using assms(1,2) by (auto simp: delta_channels_to_snapshot_iff is_delta_def)
  with assms(3) show ?thesis by (simp add: snapshot_keys_def)
qed

lemma ensure_message_ids_Nil: "ensure_message_ids protos ids [] k = ([], k)"
  by (simp add: ensure_message_ids_def)

lemma new_run_state_protos [simp]: "rs_protos (new_run_state protos) = protos"
  by (simp add: new_run_state_def)

text \<open>
  C12: what a save stores is what a restore reads. Over the memory saver every save succeeds, and the run
  state restored from the tuple it leaves has the versions, the bookkeeping and the delta counters of the
  run. Of its channels, one that is not a delta channel reads as it did when it saves a storable value
  and reads empty when it saves nothing; a delta channel reads as it did when this save snapshotted it,
  and otherwise has nothing stored and reads empty, until its value is rebuilt from the ancestors. Only
  delta channels are ever marked as overwritten.
\<close>

theorem saved_values_read_back:
  assumes "save_checkpoint env pause suppress source step nexts ex = (ex', r)" and "mem_ok env ex"
    and "rs_inv (ex_rs ex)" and "rs_kinds (ex_rs ex)" and "cg_protos cg = rs_protos (ex_rs ex)"
    and "\<forall>c \<in> set (rs_delta_overwrite (ex_rs ex)). is_delta (channel_for (ex_rs ex) c)"
    and "k \<in> fst ` set (rs_channels (ex_rs ex))"
    and "\<forall>v. chan_checkpoint (channel_for (ex_rs ex) k) = Some v \<longrightarrow> storable v"
    and snaps: "snaps = snapshot_keys (ex_rs ex) (advance_delta_counters (rs_protos (ex_rs ex)) (rs_delta_counters (ex_rs ex))
      (rs_updated (ex_rs ex))) source pause suppress"
  shows "\<exists>tup. r = Inr () \<and> ms_get_tuple (snd (ex_saver ex')) (ex_cfg ex') = Some tup \<and>
    rs_versions (restored cg tup) = rs_versions (ex_rs ex) \<and> rs_seen (restored cg tup) = rs_seen (ex_rs ex) \<and>
    rs_step (restored cg tup) = step \<and>
    (\<forall>c. mgetd (rs_delta_counters (restored cg tup)) c (0, 0) = mgetd (rs_delta_counters (ex_rs ex')) c (0, 0)) \<and>
    (if is_delta (channel_for (ex_rs ex) k) \<and> k \<notin> set snaps
     then map_of (cp_values (tup_checkpoint tup)) k = None \<and> chan_get (channel_for (restored cg tup) k) = Inl EEmptyChannel
     else if \<not> is_delta (channel_for (ex_rs ex) k) \<and> chan_checkpoint (channel_for (ex_rs ex) k) = None
     then chan_get (channel_for (restored cg tup) k) = Inl EEmptyChannel
     else chan_get (channel_for (restored cg tup) k) = chan_get (channel_for (ex_rs ex) k))"
proof -
  let ?rs = "ex_rs ex"
  have parts: "fst (saved_parts env pause suppress source ex) = snaps" by (simp add: saved_parts_def Let_def snaps)
  obtain ex1 st where save: "save_checkpoint env pause suppress source step nexts ex = (ex1, Inr ())"
    and mem: "in_memory env ex1 st"
    and cp: "st_cp st = checkpoint_of env snaps (mint_id env (ex_minted ex)) step nexts ex"
    and md: "st_md st = \<lparr>md_source = source, md_step = step, md_run_id = [], md_parents = re_parents env,
        md_counters = non_zero_counters (snd (saved_parts env pause suppress source ex))\<rparr>"
    and rs: "ex_rs ex1 = ?rs\<lparr>rs_delta_counters := snd (saved_parts env pause suppress source ex), rs_delta_overwrite := []\<rparr>"
    using save_in_memory [OF assms(2) mint_id_nonempty, of pause suppress source step nexts, unfolded parts]
    by (elim exE conjE) (rule that)
  have ex': "ex' = ex1" "r = Inr ()" using assms(1) save by simp_all
  let ?tup = "ms_tuple (ex_cfg ex') st"
  let ?base = "restore_state (checkpoint_values snaps ?rs) (rs_versions ?rs) (rs_seen ?rs) (new_run_state (rs_protos ?rs))"
  have state: "restored cg ?tup = ?base\<lparr>rs_step := step, rs_delta_counters := md_counters (st_md st)\<rparr>"
    by (simp add: restored_def ms_tuple_def cp checkpoint_of_def md assms(5) Let_def)
  have chans: "channel_for (restored cg ?tup) k = channel_for ?base k"
    by (simp add: state channel_for_def proto_for_def split: option.split)
  have delta: "k \<in> set snaps \<longrightarrow> is_delta (channel_for ?rs k)"
    using assms(6) by (auto simp: snaps snapshot_keys_def delta_channels_to_snapshot_iff delta_available_def channel_for_def
        is_delta_def as_delta_iff split: if_splits option.splits)
  have bookkeeping: "rs_versions (restored cg ?tup) = rs_versions ?rs \<and> rs_seen (restored cg ?tup) = rs_seen ?rs \<and>
      rs_step (restored cg ?tup) = step"
    by (simp add: state restore_state_def)
  have counters: "mgetd (rs_delta_counters (restored cg ?tup)) c (0, 0) = mgetd (rs_delta_counters (ex_rs ex')) c (0, 0)" for c
    unfolding state by (simp add: ex' rs md stored_counter)
  have none: "map_of (cp_values (tup_checkpoint ?tup)) k = None" if "is_delta (channel_for ?rs k)" "k \<notin> set snaps"
    using that by (simp add: ms_tuple_def cp checkpoint_of_def checkpoint_values_def)
  note read = restored_channel [OF assms(3,4,7,8) delta refl, of "rs_versions ?rs" "rs_seen ?rs", folded chans]
  from in_memory_tuple [OF mem] bookkeeping counters none read show ?thesis
    by (intro exI [of _ ?tup]) (auto simp: ex')
qed

lemma saved_values_read_back_witness:
  "\<exists>ex' tup. save_checkpoint demo_run_env False [] ''loop'' 0 [] demo_delta_exec = (ex', Inr ()) \<and>
     ms_get_tuple (snd (ex_saver ex')) (ex_cfg ex') = Some tup \<and>
     chan_get (channel_for (restored (demo_graph\<lparr>cg_protos := [(''log'', CDelta demo_delta)]\<rparr>) tup) ''log'') = Inr (VList [VInt 1])"
proof -
  let ?rs = "ex_rs demo_delta_exec" and ?cg = "demo_graph\<lparr>cg_protos := [(''log'', CDelta demo_delta)]\<rparr>"
  let ?snaps = "snapshot_keys ?rs (advance_delta_counters (rs_protos ?rs) (rs_delta_counters ?rs) (rs_updated ?rs)) ''loop'' False []"
  have mem: "mem_ok demo_run_env demo_delta_exec"
    using demo_mem(1) by (simp add: mem_ok_def demo_delta_exec_def)
  have one: "map_of (rs_channels ?rs) c = (if c = ''log'' then Some (CDelta demo_delta) else None)" for c
    by (simp add: demo_delta_exec_def)
  have rs: "rs_inv ?rs" "rs_kinds ?rs" "cg_protos ?cg = rs_protos ?rs"
    "\<forall>c \<in> set (rs_delta_overwrite ?rs). is_delta (channel_for ?rs c)" "''log'' \<in> fst ` set (rs_channels ?rs)"
    by (auto simp: rs_inv_def rs_kinds_def proto_for_def mgetd_def demo_delta_exec_def new_run_state_def chan_inv_def same_kind_def split: if_splits)
  have log: "channel_for ?rs ''log'' = CDelta demo_delta" by (simp add: channel_for_def one)
  then have store: "\<forall>v. chan_checkpoint (channel_for ?rs ''log'') = Some v \<longrightarrow> storable v"
    by (simp add: chan_checkpoint_def dc_checkpoint_def)
  have snap: "''log'' \<in> set ?snaps" by code_simp
  have read: "chan_get (channel_for ?rs ''log'') = Inr (VList [VInt 1])" "is_delta (channel_for ?rs ''log'')"
    by (simp_all add: log chan_get_def dc_defs demo_delta_def is_delta_def as_delta_def new_delta_channel_def)
  obtain ex' r where save: "save_checkpoint demo_run_env False [] ''loop'' 0 [] demo_delta_exec = (ex', r)" by fastforce
  from saved_values_read_back [OF save mem rs(1-5) store refl] snap read save show ?thesis by auto
qed

text \<open>
  C2: a run that stopped right after a commit - drained, out of its recursion limit or crashed -
  goes on when it is started again. Over the memory saver, under sync durability and with IDs that
  descend along the lineage, a run without input that addresses the checkpoint of the commit takes up
  the step, the versions, the bookkeeping and the delta counters of the stopped run and every channel
  value the checkpoint stored, the snapshots of delta channels among them; the other delta channels are
  rebuilt from the ancestors. It stands at the same position and
  dispatches the very tasks the stopped run was about to dispatch, on the same paths and under the same
  identities. This is so as long as no task of the committed superstep shares its identity with a
  successor; a node that leads back to itself with the same argument does, and then its successor is
  taken for finished (\<open>self_loop_is_replayed_on_resume\<close>).
\<close>

theorem restart_continues_the_run:
  assumes "save_committed cg env batch nexts ex = (ex', None)" and "re_checkpointing env" and "mem_ok env ex"
    and "unused_id env ex" and "\<forall>t \<in> set nexts. t = plain_task (tk_node t) (tk_arg t)"
    and "\<forall>x \<in> set batch. \<forall>t \<in> set nexts. commit_id env ex' (fst x) \<noteq> commit_id env ex' t"
    and "re_thread env \<noteq> []" and "snd (ex_saver fresh) = snd (ex_saver ex')"
    and "opts = demo_options\<lparr>ro_checkpoint_id := cfg_id (ex_cfg ex')\<rparr>"
    and "descending (ms_get_tuple (snd (ex_saver ex'))) ids" and "length ids < n"
  shows "\<exists>ex2. start_run n ms_get_tuple cg env opts [] fresh = Some (ex2, None) \<and>
    ex_cfg ex2 = ex_cfg ex' \<and> rs_step (ex_rs ex2) = rs_step (ex_rs ex') \<and>
    rs_versions (ex_rs ex2) = rs_versions (ex_rs ex') \<and> rs_seen (ex_rs ex2) = rs_seen (ex_rs ex') \<and>
    (\<forall>k ch v. map_of (rs_channels (ex_rs ex')) k = Some ch \<and> \<not> is_delta ch \<and> k \<notin> set (rs_delta_overwrite (ex_rs ex)) \<and>
       chan_checkpoint ch = Some v \<longrightarrow>
       map_of (rs_channels (ex_rs ex2)) k = Some (chan_from_checkpoint (proto_for (new_run_state (cg_protos cg)) k) v)) \<and>
    (\<forall>k. mgetd (rs_delta_counters (ex_rs ex2)) k (0, 0) = mgetd (rs_delta_counters (ex_rs ex')) k (0, 0)) \<and>
    (\<exists>tup. ms_get_tuple (snd (ex_saver ex')) (ex_cfg ex') = Some tup \<and>
      (\<forall>k v. map_of (cp_values (tup_checkpoint tup)) k = Some v \<longrightarrow>
         map_of (rs_channels (ex_rs ex2)) k = Some (chan_from_checkpoint (proto_for (new_run_state (cg_protos cg)) k) v)) \<and>
      hydrate_delta_channels n (ms_get_tuple (snd (ex_saver ex'))) cg tup (map w_task (stale_writes tup))
        (seal_channels cg (stale_writes tup) (restored cg tup)) = Some (ex_rs ex2)) \<and>
    ex_tasks ex2 = map (\<lambda>t. t\<lparr>tk_id := planned_id (re_dump env) t (cfg_id (ex_cfg ex')) (rs_step (ex_rs ex') + 1)\<rparr>)
      (stamp_paths (active_tasks (ex_tasks ex')))"
proof -
  obtain st plan where mem: "in_memory env ex' st" and pos: "saved_position env ex ex' st"
    and plan: "plan_resume (\<lambda>node. handler_of cg node \<noteq> None) (ms_tuple (ex_cfg ex') st) VNil [] = Inr plan"
      "pl_replay plan = []" "pl_replayed plan = []"
    and tasks: "pl_tasks plan = map (\<lambda>t. t\<lparr>tk_id := planned_id (re_dump env) t (cfg_id (ex_cfg ex')) (rs_step (ex_rs ex') + 1)\<rparr>)
      (stamp_paths (active_tasks (ex_tasks ex')))"
    using stopped_run_plan [OF assms(1-6), of "\<lambda>node. handler_of cg node \<noteq> None"] by (auto simp: Let_def)
  let ?tup = "ms_tuple (ex_cfg ex') st" and ?get = "ms_get_tuple (snd (ex_saver ex'))"
  have at: "\<lparr>cfg_thread = re_thread env, cfg_ns = re_ns env, cfg_id = cfg_id (ex_cfg ex')\<rparr> = ex_cfg ex'"
    using pos by (cases "ex_cfg ex'") (simp add: saved_position_def)
  have id: "cfg_id (ex_cfg ex') \<noteq> []" using mem by (simp add: in_memory_def)
  have load: "load_tuple ?get env opts = Some ?tup"
    using in_memory_tuple [OF mem] by (simp add: load_tuple_def assms(2,9) demo_options_def at)
  have cfg: "tup_config ?tup = ex_cfg ex'"
    using pos by (cases "ex_cfg ex'") (simp add: ms_tuple_def saved_position_def)
  let ?rs0 = "seal_channels cg (stale_writes ?tup) (restored cg ?tup)"
  obtain rs where rs: "hydrate_delta_channels n ?get cg ?tup (pl_replayed plan @ map w_task (stale_writes ?tup)) ?rs0 = Some rs"
    using hydrate_ends [OF assms(10,11)] by blast
  have resume: "resume_from_tuple n ?get cg ?tup VNil [] = Some (Inr \<lparr>re_state = rs, re_plan = plan\<rparr>)"
    using plan rs by (simp add: resume_from_tuple_def)
  from hydrate_keeps [OF rs] obtain chs where chs: "rs = ?rs0\<lparr>rs_channels := chs\<rparr>"
    "\<And>k. k \<in> fst ` set (rs_channels ?rs0) \<Longrightarrow> map_of chs k = map_of (rs_channels ?rs0) k" by blast
  have rparts: "rs_versions rs = rs_versions (ex_rs ex')" "rs_seen rs = rs_seen (ex_rs ex')" "rs_step rs = rs_step (ex_rs ex')"
    using pos by (simp_all add: chs(1) restored_parts ms_tuple_def saved_position_def)
  have read: "map_of (rs_channels rs) k = Some (chan_from_checkpoint (proto_for (new_run_state (cg_protos cg)) k) v)"
    if "map_of (cp_values (tup_checkpoint ?tup)) k = Some v" for k v
  proof -
    have "map_of (rs_channels ?rs0) k = Some (chan_from_checkpoint (proto_for (new_run_state (cg_protos cg)) k) v)"
      using that by (simp add: restored_parts)
    moreover from this have "k \<in> fst ` set (rs_channels ?rs0)" by (metis domI dom_map_of_conv_image_fst)
    ultimately show ?thesis using chs by simp
  qed
  have counters: "mgetd (rs_delta_counters rs) k (0, 0) = mgetd (rs_delta_counters (ex_rs ex')) k (0, 0)" for k
    using pos by (simp add: chs(1) restored_parts ms_tuple_def saved_position_def stored_counter)
  have kept: "map_of (rs_channels rs) k = Some (chan_from_checkpoint (proto_for (new_run_state (cg_protos cg)) k) v)"
    if ch: "map_of (rs_channels (ex_rs ex')) k = Some ch" "\<not> is_delta ch" "k \<notin> set (rs_delta_overwrite (ex_rs ex))"
      "chan_checkpoint ch = Some v" for k ch v
  proof -
    have own: "map_of (rs_channels (ex_rs ex)) k = Some ch" using ch(1) pos by (simp add: saved_position_def)
    then have "channel_for (ex_rs ex) k = ch" by (simp add: channel_for_def)
    moreover have "k \<notin> set (fst (saved_parts env False [] ''loop'' ex))"
      using not_snapshotted [OF own ch(2,3)] by (simp add: saved_parts_def Let_def)
    ultimately have "map_of (cp_values (tup_checkpoint ?tup)) k = Some v"
      using pos own ch(2,4) by (simp add: ms_tuple_def saved_position_def checkpoint_values_def in_mkeys_iff del: set_mkeys)
    then show ?thesis by (rule read)
  qed
  have "\<exists>ex2. start_run n ms_get_tuple cg env opts [] fresh = Some (ex2, None) \<and> ex_cfg ex2 = ex_cfg ex' \<and>
      ex_rs ex2 = rs \<and> ex_tasks ex2 = pl_tasks plan"
    using load resume id assms(7,9)
    by (simp add: start_run_def assms(8) Let_def validate_durability_def check_start_def demo_options_def parent_graph_def
        start_resume_def cfg ensure_message_ids_Nil)
  then obtain ex2 where ex2: "start_run n ms_get_tuple cg env opts [] fresh = Some (ex2, None)" "ex_cfg ex2 = ex_cfg ex'"
    "ex_rs ex2 = rs" "ex_tasks ex2 = pl_tasks plan" by blast
  have "hydrate_delta_channels n ?get cg ?tup (map w_task (stale_writes ?tup)) ?rs0 = Some rs" using rs plan(3) by simp
  with in_memory_tuple [OF mem] read
  have "\<exists>tup. ?get (ex_cfg ex') = Some tup \<and>
      (\<forall>k v. map_of (cp_values (tup_checkpoint tup)) k = Some v \<longrightarrow>
         map_of (rs_channels rs) k = Some (chan_from_checkpoint (proto_for (new_run_state (cg_protos cg)) k) v)) \<and>
      hydrate_delta_channels n ?get cg tup (map w_task (stale_writes tup))
        (seal_channels cg (stale_writes tup) (restored cg tup)) = Some rs" by blast
  with ex2 rparts kept counters tasks show ?thesis by (intro exI [of _ ex2]) auto
qed

lemma restart_continues_the_run_witness:
  "\<exists>ex' ex2 n. save_committed demo_graph demo_run_env demo_batch [plain_task ''b'' None] demo_exec = (ex', None) \<and>
     start_run n ms_get_tuple demo_graph demo_run_env (demo_options\<lparr>ro_checkpoint_id := cfg_id (ex_cfg ex')\<rparr>) []
       (demo_exec\<lparr>ex_saver := (new_sync_sink, snd (ex_saver ex'))\<rparr>) = Some (ex2, None) \<and>
     ex_cfg ex2 = ex_cfg ex' \<and> map tk_node (ex_tasks ex2) = [''b'']"
proof -
  let ?nexts = "[plain_task ''b'' None]"
  obtain ex' where run: "save_committed demo_graph demo_run_env demo_batch ?nexts demo_exec = (ex', None)"
    using save_committed_ok [OF demo_mem(1,2,4)] by blast
  let ?fresh = "demo_exec\<lparr>ex_saver := (new_sync_sink, snd (ex_saver ex'))\<rparr>"
  have plain: "\<forall>t \<in> set ?nexts. t = plain_task (tk_node t) (tk_arg t)" by (simp add: plain_task_def)
  have apart: "\<forall>x \<in> set demo_batch. \<forall>t \<in> set ?nexts. commit_id demo_run_env ex' (fst x) \<noteq> commit_id demo_run_env ex' t"
    using task_id_one_byte [of _ _ "[]" _ "[]"] by (simp add: demo_batch_def commit_id_def plain_task_def)
  have "line_ok demo_run_env demo_exec"
    using mint_id_nonempty [of demo_run_env 0]
    by (cases "mint_id demo_run_env 0") (auto simp: line_ok_def sink_below_def demo_exec_def demo_run_env_def new_sync_sink_def)
  with extends_committed [OF run, of 1] demo_ids_ascend [of 1]
  have "stored_below (mint_id demo_run_env (ex_minted ex')) (snd (ex_saver ex'))"
    by (auto simp: extends_def line_ok_def sink_below_def demo_exec_def)
  then obtain ids where ids: "descending (ms_get_tuple (snd (ex_saver ex'))) ids" using stored_below_descending by blast
  have thread: "re_thread demo_run_env \<noteq> []" "snd (ex_saver ?fresh) = snd (ex_saver ex')" by (simp_all add: demo_run_env_def)
  from restart_continues_the_run [OF run demo_mem(2,1,3) plain apart thread refl ids lessI]
  obtain ex2 where ex2: "start_run (Suc (length ids)) ms_get_tuple demo_graph demo_run_env
      (demo_options\<lparr>ro_checkpoint_id := cfg_id (ex_cfg ex')\<rparr>) [] ?fresh = Some (ex2, None)" "ex_cfg ex2 = ex_cfg ex'"
    "map tk_node (ex_tasks ex2) = map tk_node (stamp_paths (active_tasks (ex_tasks ex')))" by (auto simp: comp_def)
  have "ex_tasks ex' = ?nexts" using save_committed_steps(2) [OF run] by simp
  then have "map tk_node (stamp_paths (active_tasks (ex_tasks ex'))) = [''b'']"
    by (simp add: active_tasks_def stamp_paths_def plain_task_def end_node_def)
  with run ex2 show ?thesis by metis
qed

subsection \<open>An update by hand\<close>

text \<open>
  C14: an update by hand that succeeds adds one checkpoint and nothing else. The new position is on the
  thread and namespace of the update, its checkpoint comes from the source update one step after the base
  and keeps the base's parents map, its parent is the base, it plans the static successors of the node
  the update was made as, on the updated values, and stores no writes when its ID is new.
\<close>

theorem update_builds_on_base:
  assumes "update_state n ms_get_tuple cg env cfg vals as_node ex = Some (ex', Inr pos)" and "re_ops env = memory_ops"
    and "ms_get_tuple (snd (ex_saver ex)) cfg = Some base" and "cfg_id (tup_config base) \<noteq> []"
    and "map_of (ms_ns (snd (ex_saver ex)) cfg) (mint_id env (ex_minted ex)) = None"
  shows "\<exists>node rs rs' changed upd dests tup. update_node cg as_node = Inr node \<and>
    hydrate_delta_channels n (ms_get_tuple (snd (ex_saver ex))) cg base [] (restored cg base) = Some rs \<and>
    upd = fst (ensure_message_ids (cg_protos cg) (re_msg_ids env) vals (ex_msgs ex)) \<and>
    apply_writes [\<lparr>tw_node = node, tw_update = upd\<rparr>] rs = (rs', Inr changed) \<and> static_next cg node (snapshot rs') = Inr dests \<and>
    pos = cfg\<lparr>cfg_id := mint_id env (ex_minted ex)\<rparr> \<and> ms_get_tuple (snd (ex_saver ex')) pos = Some tup \<and>
    md_source (tup_metadata tup) = ''update'' \<and> md_step (tup_metadata tup) = md_step (tup_metadata base) + 1 \<and>
    md_parents (tup_metadata tup) = md_parents (tup_metadata base) \<and> tup_writes tup = [] \<and>
    tup_parent tup = Some (cfg\<lparr>cfg_id := cfg_id (tup_config base)\<rparr>) \<and>
    map (\<lambda>p. (pt_node p, pt_arg p)) (cp_next (tup_checkpoint tup)) = map (\<lambda>t. (tk_node t, tk_arg t)) (active_tasks dests) \<and>
    cp_versions (tup_checkpoint tup) = rs_versions rs'"
proof -
  obtain node where node: "update_node cg as_node = Inr node"
    using assms(1) by (cases "update_node cg as_node") (simp_all add: update_state_def)
  let ?get = "ms_get_tuple (snd (ex_saver ex))"
  obtain rs where rs: "hydrate_delta_channels n ?get cg base [] (restored cg base) = Some rs"
    using assms(1,3) by (auto simp: update_state_def node split: option.splits)
  obtain upd msgs where upd: "ensure_message_ids (cg_protos cg) (re_msg_ids env) vals (ex_msgs ex) = (upd, msgs)" by fastforce
  obtain rs' changed where rs': "apply_writes [\<lparr>tw_node = node, tw_update = upd\<rparr>] rs = (rs', Inr changed)"
    using assms(1,3) rs upd by (auto simp: update_state_def node split: option.splits prod.splits sum.splits)
  obtain dests where dests: "static_next cg node (snapshot rs') = Inr dests"
    using assms(1,3) rs upd rs' by (cases "static_next cg node (snapshot rs')") (auto simp: update_state_def node)
  let ?env = "update_env cfg base env"
  let ?ex = "ex\<lparr>ex_rs := rs', ex_saver := (new_sync_sink, snd (ex_saver ex)), ex_cfg := tup_config base, ex_msgs := msgs\<rparr>"
  let ?step = "md_step (tup_metadata base) + 1"
  have mem: "mem_ok ?env ?ex" using assms(2) by (simp add: mem_ok_def update_env_def new_sync_sink_def)
  have mint: "mint_id ?env = mint_id env" by (simp add: update_env_def mint_id_def fun_eq_iff)
  obtain ex2 st where save: "save_checkpoint ?env False [] ''update'' ?step (planned_tasks dests) ?ex = (ex2, Inr ())"
    and stored: "in_memory ?env ex2 st"
    and pos2: "ex_cfg ex2 = \<lparr>cfg_thread = re_thread ?env, cfg_ns = re_ns ?env, cfg_id = mint_id ?env (ex_minted ?ex)\<rparr>"
    and cp: "st_cp st = checkpoint_of ?env (fst (saved_parts ?env False [] ''update'' ?ex)) (mint_id ?env (ex_minted ?ex)) ?step (planned_tasks dests) ?ex"
    and md: "st_md st = \<lparr>md_source = ''update'', md_step = ?step, md_run_id = [], md_parents = re_parents ?env,
        md_counters = non_zero_counters (snd (saved_parts ?env False [] ''update'' ?ex))\<rparr>"
    and parent: "st_parent st = (if cfg_id (ex_cfg ?ex) = [] then None
      else Some \<lparr>cfg_thread = re_thread ?env, cfg_ns = re_ns ?env, cfg_id = cfg_id (ex_cfg ?ex)\<rparr>)"
    and ws: "map_of (ms_ns (snd (ex_saver ?ex)) (ex_cfg ex2)) (mint_id ?env (ex_minted ?ex)) = None \<longrightarrow> st_writes st = [] \<and> st_slots st = []"
    using save_in_memory [OF mem mint_id_nonempty, of False "[]" "''update''" ?step "planned_tasks dests"]
    by (elim exE conjE) (rule that)
  have res: "ex' = ex2" "pos = ex_cfg ex2"
    using assms(1,3) node rs upd rs' dests save by (auto simp: update_state_def)
  have mint_now: "mint_id (update_env c base env) k = mint_id env k" for c k by (simp add: update_env_def mint_id_def)
  have place: "re_thread ?env = cfg_thread cfg" "re_ns ?env = cfg_ns cfg" by (simp_all add: update_env_def)
  have pos: "pos = cfg\<lparr>cfg_id := mint_id env (ex_minted ex)\<rparr>"
    using place by (cases cfg) (simp add: res pos2 mint_now)
  have "ms_ns (snd (ex_saver ex)) (ex_cfg ex2) = ms_ns (snd (ex_saver ex)) cfg"
    using pos by (simp add: res)
  with ws assms(5) have none: "st_writes st = []" by (simp add: mint)
  have up: "st_parent st = Some (cfg\<lparr>cfg_id := cfg_id (tup_config base)\<rparr>)"
    using parent assms(4) by (cases cfg) (simp add: update_env_def)
  have planned: "map (\<lambda>p. (pt_node p, pt_arg p)) (cp_next (st_cp st)) = map (\<lambda>t. (tk_node t, tk_arg t)) (active_tasks dests)"
    by (simp add: cp checkpoint_of_def planned_tasks_def comp_def if_distrib [of pt_node] if_distrib [of pt_arg] cong: if_cong)
  have "ms_get_tuple (snd (ex_saver ex')) pos = Some (ms_tuple pos st)"
    using in_memory_tuple [OF stored] by (simp add: res)
  moreover have "md_source (st_md st) = ''update''" "md_step (st_md st) = ?step" "md_parents (st_md st) = md_parents (tup_metadata base)"
    "cp_versions (st_cp st) = rs_versions rs'"
    by (simp_all add: md update_env_def cp checkpoint_of_def)
  ultimately show ?thesis
    using node rs upd rs' dests pos none up planned by (simp add: ms_tuple_def)
qed

text \<open>Node a of the demonstration graph, on a thread with two checkpoints.\<close>

definition demo_update_exec :: "memory_saver exec" where
  "demo_update_exec = demo_exec\<lparr>ex_saver := (new_sync_sink, demo_saver)\<rparr>"

lemma demo_update_parts:
  "update_node demo_graph ''a'' = Inr ''a''" "static_next demo_graph ''a'' state = Inr []"
  "ensure_message_ids (cg_protos demo_graph) ids [(''x'', VInt 1)] k = ([(''x'', VInt 1)], k)"
proof -
  show "update_node demo_graph ''a'' = Inr ''a''" by code_simp
  have "map_of (cg_conditional demo_graph) ''a'' = None" "mgetd (cg_edges demo_graph) ''a'' [] = []"
    "mgetd (cg_joins_by_parent demo_graph) ''a'' [] \<noteq> []" by code_simp+
  then show "static_next demo_graph ''a'' state = Inr []" by (simp add: static_next_def)
  show "ensure_message_ids (cg_protos demo_graph) ids [(''x'', VInt 1)] k = ([(''x'', VInt 1)], k)" by code_simp
qed

lemma demo_update_base:
  "case ms_get_tuple demo_saver (demo_cfg ''t'' ''c2'') of None \<Rightarrow> False
   | Some base \<Rightarrow> cfg_id (tup_config base) = ''c2'' \<and>
       (case hydrate_delta_channels 1 (ms_get_tuple demo_saver) demo_graph base [] (restored demo_graph base) of None \<Rightarrow> False
        | Some rs \<Rightarrow> \<not> isl (snd (apply_writes [\<lparr>tw_node = ''a'', tw_update = [(''x'', VInt 1)]\<rparr>] rs)))"
  by code_simp

lemma demo_update_runs:
  "\<exists>ex' pos. update_state 1 ms_get_tuple demo_graph demo_run_env (demo_cfg ''t'' ''c2'') [(''x'', VInt 1)] ''a'' demo_update_exec =
     Some (ex', Inr pos)"
proof -
  obtain base rs where base: "ms_get_tuple demo_saver (demo_cfg ''t'' ''c2'') = Some base"
    and rs: "hydrate_delta_channels 1 (ms_get_tuple demo_saver) demo_graph base [] (restored demo_graph base) = Some rs"
    and "\<not> isl (snd (apply_writes [\<lparr>tw_node = ''a'', tw_update = [(''x'', VInt 1)]\<rparr>] rs))"
    using demo_update_base by (auto split: option.splits)
  then obtain rs' changed where ap: "apply_writes [\<lparr>tw_node = ''a'', tw_update = [(''x'', VInt 1)]\<rparr>] rs = (rs', Inr changed)"
    by (metis prod.collapse isl_def sum.exhaust)
  let ?ex = "demo_update_exec\<lparr>ex_rs := rs', ex_saver := (new_sync_sink, demo_saver), ex_cfg := tup_config base\<rparr>"
  have "mem_ok (update_env (demo_cfg ''t'' ''c2'') base demo_run_env) ?ex"
    by (simp add: mem_ok_def update_env_def demo_run_env_def new_sync_sink_def)
  then obtain ex2 where save: "save_checkpoint (update_env (demo_cfg ''t'' ''c2'') base demo_run_env) False [] ''update''
      (md_step (tup_metadata base) + 1) (planned_tasks []) ?ex = (ex2, Inr ())"
    using save_in_memory [OF _ mint_id_nonempty] by blast
  have saver: "snd (ex_saver demo_update_exec) = demo_saver" by (simp add: demo_update_exec_def)
  have "update_state 1 ms_get_tuple demo_graph demo_run_env (demo_cfg ''t'' ''c2'') [(''x'', VInt 1)] ''a'' demo_update_exec =
      Some (ex2, Inr (ex_cfg ex2))"
    unfolding update_state_def saver demo_update_parts base by (simp add: rs [unfolded One_nat_def] ap save demo_update_parts)
  then show ?thesis by blast
qed

lemma update_builds_on_base_witness:
  "\<exists>ex' pos tup. update_state 1 ms_get_tuple demo_graph demo_run_env (demo_cfg ''t'' ''c2'') [(''x'', VInt 1)] ''a'' demo_update_exec =
     Some (ex', Inr pos) \<and> ms_get_tuple (snd (ex_saver ex')) pos = Some tup \<and>
     tup_parent tup = Some (demo_cfg ''t'' ''c2'') \<and> cp_next (tup_checkpoint tup) = []"
proof -
  obtain ex' pos where run: "update_state 1 ms_get_tuple demo_graph demo_run_env (demo_cfg ''t'' ''c2'') [(''x'', VInt 1)] ''a'' demo_update_exec =
      Some (ex', Inr pos)" using demo_update_runs by blast
  have parts: "re_ops demo_run_env = memory_ops" "snd (ex_saver demo_update_exec) = demo_saver" "ex_minted demo_update_exec = 0"
    by (simp_all add: demo_run_env_def demo_update_exec_def demo_exec_def)
  obtain base where base: "ms_get_tuple demo_saver (demo_cfg ''t'' ''c2'') = Some base" "cfg_id (tup_config base) = ''c2''"
    using demo_update_base by (auto split: option.splits)
  have "length (mint_id demo_run_env 0) > 2"
    by (simp add: mint_id_def demo_run_env_def new_id_def length_fmt_dec)
  moreover have "\<forall>k \<in> fst ` set (ms_ns demo_saver (demo_cfg ''t'' ''c2'')). length k = 2" by code_simp
  ultimately have unused: "map_of (ms_ns demo_saver (demo_cfg ''t'' ''c2'')) (mint_id demo_run_env 0) = None"
    by (fastforce simp: map_of_eq_None_iff)
  have "cfg_id (tup_config base) \<noteq> []" by (simp add: base)
  from update_builds_on_base [OF run parts(1), unfolded parts, OF base(1) this unused]
  obtain dests tup rs' where tup: "static_next demo_graph ''a'' (snapshot rs') = Inr dests"
    "ms_get_tuple (snd (ex_saver ex')) pos = Some tup" "tup_parent tup = Some ((demo_cfg ''t'' ''c2'')\<lparr>cfg_id := ''c2''\<rparr>)"
    "map (\<lambda>p. (pt_node p, pt_arg p)) (cp_next (tup_checkpoint tup)) = map (\<lambda>t. (tk_node t, tk_arg t)) (active_tasks dests)"
    using demo_update_parts(1) base(2) by auto
  then have "dests = []" by (simp add: demo_update_parts)
  with tup have "cp_next (tup_checkpoint tup) = []" by (simp add: active_tasks_def)
  with run tup show ?thesis by (auto simp: demo_cfg_def)
qed

end
