(* ===== verification/LongTermStore.thy ===== *)
theory LongTermStore
  imports Complex_Main GoValues "HOL-Library.Product_Lexorder" "HOL-Library.Sublist"
begin

section \<open>The long-term store (langgraph/store/store.go, memory.go)\<close>

text \<open>
  \<open>InMemoryStore\<close>: items under hierarchical namespaces, kept in buckets addressed by the labels of the
  namespace joined with NUL bytes, with an optional vector index. Embeddings, the rendering of an
  indexed value as JSON and the similarity of two vectors are parameters of the index; the clock is an
  argument. Every operation holds the store's lock for the part that reads or writes the maps, so it
  is one step here; the items handed out by \<open>Search\<close> are copies. The values are JSON-like without
  floating-point numbers, integers being converted to float64 where the code does.
\<close>

subsection \<open>Namespaces\<close>

definition err_invalid_namespace :: goerr where
  "err_invalid_namespace = EText ''store: invalid namespace''"

definition invalid_namespace :: "string \<Rightarrow> goerr" where
  "invalid_namespace what = EWrap what err_invalid_namespace"

definition nul :: char where "nul = CHR 0x00"

definition label_error :: "string list \<Rightarrow> string \<Rightarrow> goerr option" where
  "label_error ns label =
     (if label = [] then
        Some (invalid_namespace (''namespace labels cannot be empty strings; got '' @ go_show (VStrs ns)))
      else if CHR ''.'' \<in> set label then
        Some (invalid_namespace (''namespace label '' @ go_quote label @ '' cannot contain periods''))
      else if nul \<in> set label then
        Some (invalid_namespace (''namespace label '' @ go_quote label @ '' cannot contain NUL bytes''))
      else None)"

definition validate_namespace_labels :: "string list \<Rightarrow> goerr option" where
  "validate_namespace_labels ns =
     (case List.map_filter (label_error ns) ns of [] \<Rightarrow> None | e # _ \<Rightarrow> Some e)"

definition validate_namespace :: "string list \<Rightarrow> goerr option" where
  "validate_namespace ns =
     (if ns = [] then Some (invalid_namespace ''namespace cannot be empty'')
      else case validate_namespace_labels ns of
             Some e \<Rightarrow> Some e
           | None \<Rightarrow>
               (if hd ns = ''langgraph'' then Some (invalid_namespace (''root label cannot be '' @ go_quote ''langgraph''))
                else None))"

definition join_ns :: "string list \<Rightarrow> string" where
  "join_ns ns = join_with [nul] ns"

definition namespace_has_prefix :: "string list \<Rightarrow> string list \<Rightarrow> bool" where
  "namespace_has_prefix ns p \<longleftrightarrow> length p \<le> length ns \<and> list_all (\<lambda>i. ns ! i = p ! i) [0..<length p]"

definition namespace_has_suffix :: "string list \<Rightarrow> string list \<Rightarrow> bool" where
  "namespace_has_suffix ns s \<longleftrightarrow>
     length s \<le> length ns \<and> (let off = length ns - length s in list_all (\<lambda>i. ns ! (off + i) = s ! i) [0..<length s])"

subsection \<open>Filters\<close>

text \<open>
  \<open>reflect.DeepEqual\<close> compares maps key by key: two values are equal when they agree once every map is
  written in the order of its keys.
\<close>

definition in_key_order :: "'v gomap \<Rightarrow> 'v gomap" where
  "in_key_order m = mbuild (mkeys m) (map_of m)"

fun in_order :: "gval \<Rightarrow> gval" where
  "in_order (VList vs) = VList (map in_order vs)"
| "in_order (VMap m) = VMap (in_key_order (map (\<lambda>(k, v). (k, in_order v)) m))"
| "in_order v = v"

definition deep_equal :: "gval \<Rightarrow> gval \<Rightarrow> bool" where
  "deep_equal a b \<longleftrightarrow> in_order a = in_order b"

text \<open>\<open>float64(x)\<close> of an integer: 53 significant bits, rounded to nearest, ties to even.\<close>

fun bit_len :: "nat \<Rightarrow> nat" where
  "bit_len n = (if n = 0 then 0 else Suc (bit_len (n div 2)))"

declare bit_len.simps [simp del]

definition round_nat :: "nat \<Rightarrow> nat" where
  "round_nat n =
     (if bit_len n \<le> 53 then n
      else let e = bit_len n - 53; q = n div 2 ^ e; r = n mod 2 ^ e; h = 2 ^ (e - 1)
           in (if r > h \<or> r = h \<and> odd q then q + 1 else q) * 2 ^ e)"

definition float_of_int :: "int \<Rightarrow> int" where
  "float_of_int i = (if i < 0 then - int (round_nat (nat (- i))) else int (round_nat (nat i)))"

definition to_float64 :: "gval \<Rightarrow> int option" where
  "to_float64 v = (case v of VInt i \<Rightarrow> Some (float_of_int i) | _ \<Rightarrow> None)"

definition compare_floats :: "(int \<Rightarrow> int \<Rightarrow> bool) \<Rightarrow> gval \<Rightarrow> gval \<Rightarrow> bool" where
  "compare_floats cmp v w =
     (case (to_float64 v, to_float64 w) of (Some a, Some b) \<Rightarrow> cmp a b | _ \<Rightarrow> False)"

definition apply_operator :: "gval \<Rightarrow> string \<Rightarrow> gval \<Rightarrow> bool" where
  "apply_operator v op w =
     (if op = ''$eq'' then deep_equal v w
      else if op = ''$ne'' then \<not> deep_equal v w
      else if op = ''$gt'' then compare_floats (>) v w
      else if op = ''$gte'' then compare_floats (\<ge>) v w
      else if op = ''$lt'' then compare_floats (<) v w
      else if op = ''$lte'' then compare_floats (\<le>) v w
      else False)"

definition is_operator_key :: "string \<Rightarrow> bool" where
  "is_operator_key k \<longleftrightarrow> k \<noteq> [] \<and> hd k = CHR ''$''"

lemma size_map_entry: "(k, v) \<in> set m \<Longrightarrow> size v < Suc (size_list (size_prod (\<lambda>_. 0) size) m)"
  by (induction m) auto

function compare_values :: "gval \<Rightarrow> gval \<Rightarrow> bool" where
  "compare_values iv fv =
     (case fv of
        VMap fm \<Rightarrow>
          (if list_ex (\<lambda>(k, _). is_operator_key k) fm then list_all (\<lambda>(k, w). apply_operator iv k w) fm
           else case iv of
                  VMap im \<Rightarrow> list_all (\<lambda>(k, w). compare_values (mgetd im k VNil) w) fm
                | _ \<Rightarrow> False)
      | VList fs \<Rightarrow>
          (case iv of
             VList vs \<Rightarrow> length vs = length fs \<and> list_all (\<lambda>(v, w). compare_values v w) (zip vs fs)
           | _ \<Rightarrow> False)
      | _ \<Rightarrow> deep_equal iv fv)"
  by pat_completeness auto

termination
  by (relation "measure (\<lambda>(iv, fv). size fv)")
    (auto dest: size_map_entry dest!: set_zip_rightD intro!: le_imp_less_Suc size_list_estimation')

declare compare_values.simps [simp del]

subsection \<open>The store\<close>

record item =
  it_ns :: "string list"
  it_key :: string
  it_value :: "gstate option"
  it_created :: int
  it_updated :: int

text \<open>
  The index: the rendering of a map or a slice as sorted-key JSON, the embedder, and the cosine
  similarity of two vectors as the number float64 arithmetic gives.
\<close>

record 'v store_index =
  ix_marshal :: "gval \<Rightarrow> goerr + string"
  ix_embed :: "string list \<Rightarrow> goerr + 'v list"
  ix_query :: "string \<Rightarrow> goerr + 'v"
  ix_similarity :: "'v \<Rightarrow> 'v \<Rightarrow> rat"
  ix_fields :: "string list"

record 'v lt_store =
  ls_data :: "item gomap gomap"
  ls_ns :: "string list gomap"
  ls_index :: "'v store_index option"
  ls_vectors :: "'v gomap gomap gomap"

definition new_store :: "'v lt_store" where
  "new_store = \<lparr>ls_data = [], ls_ns = [], ls_index = None, ls_vectors = []\<rparr>"

definition new_store_with_index :: "'v store_index \<Rightarrow> 'v lt_store" where
  "new_store_with_index ix =
     \<lparr>ls_data = [], ls_ns = [],
      ls_index = Some (ix\<lparr>ix_fields := (if ix_fields ix = [] then [''$''] else ix_fields ix)\<rparr>), ls_vectors = []\<rparr>"

definition ls_get :: "string list \<Rightarrow> string \<Rightarrow> 'v lt_store \<Rightarrow> goerr + item option" where
  "ls_get ns key s =
     (case validate_namespace_labels ns of
        Some e \<Rightarrow> Inl e
      | None \<Rightarrow> Inr (Option.bind (map_of (ls_data s) (join_ns ns)) (\<lambda>bucket. map_of bucket key)))"

text \<open>The texts of the indexed fields; a field that is missing or nil has none.\<close>

definition scalar_text :: "gval \<Rightarrow> string" where
  "scalar_text v = (case v of
      VBool b \<Rightarrow> (if b then ''True'' else ''False'')
    | VInt i \<Rightarrow> show_int i
    | _ \<Rightarrow> go_show v)"

definition item_doc :: "gstate option \<Rightarrow> gstate" where
  "item_doc v = (case v of None \<Rightarrow> [] | Some m \<Rightarrow> m)"

definition text_at_field :: "'v store_index \<Rightarrow> gstate option \<Rightarrow> string \<Rightarrow> goerr + string option" where
  "text_at_field ix val field =
     (let v = (if field = ''$'' then (case val of None \<Rightarrow> VNil | Some m \<Rightarrow> VMap m) else mgetd (item_doc val) field VNil)
      in if field \<noteq> ''$'' \<and> v = VNil then Inr None
         else case v of
                VStr t \<Rightarrow> Inr (Some t)
              | VNil \<Rightarrow> map_sum id Some (ix_marshal ix v)
              | VMap _ \<Rightarrow> map_sum id Some (ix_marshal ix v)
              | VList _ \<Rightarrow> map_sum id Some (ix_marshal ix v)
              | _ \<Rightarrow> Inr (Some (scalar_text v)))"

definition field_texts :: "'v store_index \<Rightarrow> gstate option \<Rightarrow> string list \<Rightarrow> goerr + (string \<times> string) list" where
  "field_texts ix val fs =
     map_sum id (\<lambda>ts. List.map_filter (\<lambda>(f, t). map_option (Pair f) t) (zip fs ts))
       (rmap (\<lambda>f. case text_at_field ix val f of
                    Inl e \<Rightarrow> Inl (EWrap (''store: render index field '' @ go_quote f) e)
                  | Inr t \<Rightarrow> Inr t) fs)"

definition embed_fields :: "'v store_index \<Rightarrow> gstate option \<Rightarrow> string list \<Rightarrow> goerr + 'v gomap" where
  "embed_fields ix val fs =
     rbind (field_texts ix val fs) (\<lambda>fts.
       if fts = [] then Inr []
       else case ix_embed ix (map snd fts) of
              Inl e \<Rightarrow> Inl (EWrap (''store: embed fields '' @ go_show (VStrs (map fst fts))) e)
            | Inr vecs \<Rightarrow>
                (if length vecs \<noteq> length fts then
                   Inl (EText (''store: embedder returned '' @ show_int (int (length vecs)) @ '' vectors for ''
                     @ show_int (int (length fts)) @ '' texts''))
                 else Inr (fold (\<lambda>(f, v) m. mput f v m) (zip (map fst fts) vecs) [])))"

text \<open>Dropping the vectors of an item also drops the bucket they leave empty.\<close>

definition drop_vectors :: "string \<Rightarrow> string \<Rightarrow> 'v gomap gomap gomap \<Rightarrow> 'v gomap gomap gomap" where
  "drop_vectors j key vs =
     (case map_of vs j of
        None \<Rightarrow> vs
      | Some vb \<Rightarrow> (let vb' = mdel key vb in if vb' = [] then mdel j vs else mput j vb' vs))"

definition ls_put ::
  "int \<Rightarrow> string list \<Rightarrow> string \<Rightarrow> gstate option \<Rightarrow> string list option \<Rightarrow> 'v lt_store \<Rightarrow> 'v lt_store \<times> (goerr + unit)" where
  "ls_put now ns key val idx s =
     (case validate_namespace ns of
        Some e \<Rightarrow> (s, Inl e)
      | None \<Rightarrow>
          (case (case ls_index s of
                   None \<Rightarrow> Inr []
                 | Some ix \<Rightarrow> embed_fields ix val (case idx of None \<Rightarrow> ix_fields ix | Some fs \<Rightarrow> fs)) of
             Inl e \<Rightarrow> (s, Inl e)
           | Inr vecs \<Rightarrow>
               (let j = join_ns ns;
                    it = \<lparr>it_ns = ns, it_key = key, it_value = val, it_created = now, it_updated = now\<rparr>
                in (s\<lparr>ls_data := mput j (mput key it (mgetd (ls_data s) j [])) (ls_data s),
                      ls_ns := (if mhas (ls_data s) j then ls_ns s else mput j ns (ls_ns s)),
                      ls_vectors :=
                        (if ls_index s = None then ls_vectors s
                         else if vecs = [] then drop_vectors j key (ls_vectors s)
                         else mput j (mput key vecs (mgetd (ls_vectors s) j [])) (ls_vectors s))\<rparr>, Inr ()))))"

definition ls_delete :: "string list \<Rightarrow> string \<Rightarrow> 'v lt_store \<Rightarrow> 'v lt_store \<times> (goerr + unit)" where
  "ls_delete ns key s =
     (case validate_namespace_labels ns of
        Some e \<Rightarrow> (s, Inl e)
      | None \<Rightarrow>
          (let j = join_ns ns
           in case map_of (ls_data s) j of
                None \<Rightarrow> (s, Inr ())
              | Some bucket \<Rightarrow>
                  (let bucket' = mdel key bucket
                   in (s\<lparr>ls_data := (if bucket' = [] then mdel j (ls_data s) else mput j bucket' (ls_data s)),
                         ls_ns := (if bucket' = [] then mdel j (ls_ns s) else ls_ns s),
                         ls_vectors := drop_vectors j key (ls_vectors s)\<rparr>, Inr ()))))"

subsection \<open>Search\<close>

record search_options =
  so_query :: string
  so_filter :: gstate
  so_limit :: int
  so_offset :: int

definition place :: "item \<Rightarrow> string \<times> string" where
  "place it = (join_ns (it_ns it), it_key it)"

definition candidates :: "string list \<Rightarrow> gstate \<Rightarrow> 'v lt_store \<Rightarrow> item list" where
  "candidates pre flt s =
     concat (map (\<lambda>j. if namespace_has_prefix (mgetd (ls_ns s) j []) pre
                      then filter (\<lambda>it. flt = [] \<or> compare_values (VMap (item_doc (it_value it))) (VMap flt))
                             (List.map_filter (map_of (mgetd (ls_data s) j [])) (mkeys (mgetd (ls_data s) j [])))
                      else [])
             (mkeys (ls_data s)))"

definition vectors_of :: "'v lt_store \<Rightarrow> item \<Rightarrow> 'v list" where
  "vectors_of s it =
     (let m = mgetd (mgetd (ls_vectors s) (join_ns (it_ns it)) []) (it_key it) []
      in List.map_filter (map_of m) (mkeys m))"

definition page :: "int \<Rightarrow> int \<Rightarrow> 'a list \<Rightarrow> 'a list" where
  "page offset limit xs = take (nat limit) (drop (nat offset) xs)"

definition search_unranked :: "item list \<Rightarrow> int \<Rightarrow> int \<Rightarrow> (item \<times> rat) list" where
  "search_unranked picks offset limit = map (\<lambda>it. (it, 0)) (page offset limit (sort_key place picks))"

definition best_score :: "('v \<Rightarrow> 'v \<Rightarrow> rat) \<Rightarrow> 'v \<Rightarrow> 'v list \<Rightarrow> rat" where
  "best_score sim q vs = fold max (map (sim q) (tl vs)) (sim q (hd vs))"

text \<open>Items without vectors fill up a window the ranked ones leave short.\<close>

definition search_ranked :: "('v \<Rightarrow> 'v \<Rightarrow> rat) \<Rightarrow> (item \<Rightarrow> 'v list) \<Rightarrow> item list \<Rightarrow> 'v \<Rightarrow> int \<Rightarrow> int \<Rightarrow> (item \<times> rat) list" where
  "search_ranked sim vecs picks q offset limit =
     (let ranked = sort_key (\<lambda>(it, sc). (- sc, place it))
                     (map (\<lambda>it. (it, best_score sim q (vecs it))) (filter (\<lambda>it. vecs it \<noteq> []) picks));
          kept = page offset limit ranked;
          scoreless = sort_key place (filter (\<lambda>it. vecs it = []) picks)
      in kept @ map (\<lambda>it. (it, 0)) (take (nat limit - length kept) scoreless))"

definition ls_search :: "string list \<Rightarrow> search_options \<Rightarrow> 'v lt_store \<Rightarrow> goerr + (item \<times> rat) list" where
  "ls_search pre opts s =
     (case validate_namespace_labels pre of
        Some e \<Rightarrow> Inl e
      | None \<Rightarrow>
          (let limit = (if so_limit opts \<le> 0 then 10 else so_limit opts);
               offset = max (so_offset opts) 0;
               picks = candidates pre (so_filter opts) s
           in case ls_index s of
                None \<Rightarrow> Inr (search_unranked picks offset limit)
              | Some ix \<Rightarrow>
                  (if so_query opts = [] then Inr (search_unranked picks offset limit)
                   else case ix_query ix (so_query opts) of
                          Inl e \<Rightarrow> Inl (EWrap (''store: embed query '' @ go_quote (so_query opts)) e)
                        | Inr q \<Rightarrow> Inr (search_ranked (ix_similarity ix) (vectors_of s) picks q offset limit))))"

subsection \<open>Listing the namespaces\<close>

record list_ns_options =
  lo_prefix :: "string list"
  lo_suffix :: "string list"
  lo_depth :: "int option"
  lo_limit :: int
  lo_offset :: int

definition truncate_ns :: "int option \<Rightarrow> string list \<Rightarrow> string list" where
  "truncate_ns depth ns = (case depth of None \<Rightarrow> ns | Some d \<Rightarrow> take (nat (max d 0)) ns)"

definition listed_namespaces :: "list_ns_options \<Rightarrow> 'v lt_store \<Rightarrow> string list gomap" where
  "listed_namespaces opts s =
     fold (\<lambda>j u. let ns = mgetd (ls_ns s) j []
                 in if lo_prefix opts \<noteq> [] \<and> \<not> namespace_has_prefix ns (lo_prefix opts) then u
                    else if lo_suffix opts \<noteq> [] \<and> \<not> namespace_has_suffix ns (lo_suffix opts) then u
                    else mput (join_ns (truncate_ns (lo_depth opts) ns)) (truncate_ns (lo_depth opts) ns) u)
       (mkeys (ls_ns s)) []"

definition ls_list_namespaces :: "list_ns_options \<Rightarrow> 'v lt_store \<Rightarrow> goerr + string list list" where
  "ls_list_namespaces opts s =
     (case validate_namespace_labels (lo_prefix opts) of
        Some e \<Rightarrow> Inl e
      | None \<Rightarrow>
          (case validate_namespace_labels (lo_suffix opts) of
             Some e \<Rightarrow> Inl e
           | None \<Rightarrow>
               (let u = listed_namespaces opts s
                in Inr (page (max (lo_offset opts) 0) (if lo_limit opts \<le> 0 then 100 else lo_limit opts)
                     (sort_key join_ns (List.map_filter (map_of u) (mkeys u)))))))"

subsection \<open>Joined namespaces\<close>

definition valid_labels :: "string list \<Rightarrow> bool" where
  "valid_labels ns \<longleftrightarrow> (\<forall>l \<in> set ns. l \<noteq> [] \<and> CHR ''.'' \<notin> set l \<and> nul \<notin> set l)"

lemma map_filter_Nil_iff: "List.map_filter f xs = [] \<longleftrightarrow> (\<forall>x \<in> set xs. f x = None)"
  by (induction xs) (auto simp: List.map_filter_def)

lemma validated: "validate_namespace_labels ns = None \<longleftrightarrow> valid_labels ns"
  using map_filter_Nil_iff [of "label_error ns" ns]
  by (auto simp: validate_namespace_labels_def valid_labels_def label_error_def split: list.split if_splits)

lemma validated_put: "validate_namespace ns = None \<longleftrightarrow> valid_labels ns \<and> ns \<noteq> [] \<and> hd ns \<noteq> ''langgraph''"
  using validated [of ns] by (auto simp: validate_namespace_def split: option.split)

lemma nul_least: "c \<noteq> nul \<Longrightarrow> nul < c"
proof -
  assume "c \<noteq> nul"
  then have "(of_char c :: nat) \<noteq> of_char nul" by simp
  moreover have "(of_char nul :: nat) = 0" by (simp add: nul_def)
  ultimately show ?thesis by (simp add: less_char_def)
qed

lemma less_before_nul:
  assumes "x < y" and "nul \<notin> set y" and "t = [] \<or> hd t = nul"
  shows "x @ t < y @ (u :: string)"
  using assms(1,2)
proof (induction x arbitrary: y)
  case Nil
  then obtain c cs where "y = c # cs" "c \<noteq> nul" by (cases y) auto
  with nul_least [of c] assms(3) show ?case by (cases t) auto
next
  case (Cons a x)
  then show ?case by (cases y) auto
qed

lemma join_ns_simps: "join_ns [] = []" "join_ns [x] = x" "join_ns (x # y # ys) = x @ nul # join_ns (y # ys)"
  by (simp_all add: join_ns_def)

lemma join_ns_Cons: "join_ns (x # xs) = x @ (if xs = [] then [] else nul # join_ns xs)"
  by (cases xs) (simp_all add: join_ns_simps)

lemma join_ns_mono:
  assumes "valid_labels a" and "valid_labels b" and "a < b"
  shows "join_ns a < join_ns b"
  using assms
proof (induction a arbitrary: b)
  case Nil
  then obtain y ys where "b = y # ys" "y \<noteq> []" by (cases b) (auto simp: valid_labels_def)
  then show ?case by (cases y) (simp_all add: join_ns_Cons join_ns_simps)
next
  case (Cons x xs)
  then obtain y ys where b: "b = y # ys" by (cases b) auto
  then have valid: "valid_labels xs" "valid_labels ys" "nul \<notin> set y" using Cons.prems by (auto simp: valid_labels_def)
  from Cons.prems(3) b consider "x < y" | "x = y" "xs < ys" by auto
  then show ?case
  proof cases
    case 1
    then show ?thesis unfolding b join_ns_Cons by (rule less_before_nul) (use valid in auto)
  next
    case 2
    then have ys: "ys \<noteq> []" by auto
    show ?thesis
    proof (cases "xs = []")
      case True
      with 2 ys show ?thesis using less_append_left [of x "[]" "nul # join_ns ys"] by (simp add: b join_ns_Cons)
    next
      case False
      with Cons.IH [OF valid(1,2) 2(2)] ys 2(1) show ?thesis by (simp add: b join_ns_Cons)
    qed
  qed
qed

lemma join_ns_less: "valid_labels a \<Longrightarrow> valid_labels b \<Longrightarrow> join_ns a < join_ns b \<longleftrightarrow> a < b"
  using join_ns_mono [of a b] join_ns_mono [of b a] by (metis less_asym linorder_neqE)

lemma join_ns_inj: "valid_labels a \<Longrightarrow> valid_labels b \<Longrightarrow> join_ns a = join_ns b \<longleftrightarrow> a = b"
  using join_ns_mono [of a b] join_ns_mono [of b a] by (metis less_irrefl linorder_neqE)

subsection \<open>The store as a map\<close>

text \<open>The contract of the store: a map from valid namespaces and keys to items.\<close>

definition stored_item :: "'v lt_store \<Rightarrow> string list \<Rightarrow> string \<Rightarrow> item option" where
  "stored_item s ns key = map_of (mgetd (ls_data s) (join_ns ns) []) key"

definition item_vectors :: "'v lt_store \<Rightarrow> string list \<Rightarrow> string \<Rightarrow> 'v gomap" where
  "item_vectors s ns key = mgetd (mgetd (ls_vectors s) (join_ns ns) []) key []"

lemma ls_get_stored: "ls_get ns key s = (case validate_namespace_labels ns of Some e \<Rightarrow> Inl e | None \<Rightarrow> Inr (stored_item s ns key))"
  by (auto simp: ls_get_def stored_item_def mgetd_def split: option.split)

lemma vectors_dropped:
  "mgetd (mgetd (drop_vectors j key vs) j' []) k [] = (if j' = j \<and> k = key then [] else mgetd (mgetd vs j' []) k [])"
proof (cases "map_of vs j")
  case (Some vb)
  show ?thesis
  proof (cases "mdel key vb = []")
    case True
    then have "map_of vb k = None" if "k \<noteq> key" using map_of_mdel [of key vb] that by (metis fun_upd_other map_of.simps(1))
    with Some True show ?thesis by (auto simp: drop_vectors_def mgetd_def split: option.split)
  qed (use Some in \<open>auto simp: drop_vectors_def mgetd_def Let_def split: option.split\<close>)
qed (auto simp: drop_vectors_def mgetd_def)

lemma deleted_bucket:
  assumes "map_of (ls_data s) j = Some b" and "mdel key b = []" and "k \<noteq> key"
  shows "map_of b k = None"
  using assms map_of_mdel [of key b] by (metis fun_upd_other map_of.simps(1))

lemma item_deleted:
  assumes "validate_namespace_labels ns = None"
  shows "map_of (mgetd (ls_data (fst (ls_delete ns key s))) j []) k =
      (if j = join_ns ns \<and> k = key then None else map_of (mgetd (ls_data s) j []) k)"
  using assms deleted_bucket [of s "join_ns ns" _ key k]
  by (auto simp: ls_delete_def mgetd_def Let_def split: option.splits)

lemma vectors_deleted:
  assumes "validate_namespace_labels ns = None" and "map_of (ls_data s) (join_ns ns) \<noteq> None"
  shows "mgetd (mgetd (ls_vectors (fst (ls_delete ns key s))) j []) k [] =
      (if j = join_ns ns \<and> k = key then [] else mgetd (mgetd (ls_vectors s) j []) k [])"
  using assms by (auto simp: ls_delete_def Let_def vectors_dropped)

text \<open>The vectors a put computes; an error leaves the store as it was.\<close>

definition put_vectors :: "gstate option \<Rightarrow> string list option \<Rightarrow> 'v lt_store \<Rightarrow> goerr + 'v gomap" where
  "put_vectors val idx s =
     (case ls_index s of
        None \<Rightarrow> Inr []
      | Some ix \<Rightarrow> embed_fields ix val (case idx of None \<Rightarrow> ix_fields ix | Some fs \<Rightarrow> fs))"

lemma put_result:
  "snd (ls_put now ns key val idx s) =
     (case validate_namespace ns of Some e \<Rightarrow> Inl e | None \<Rightarrow> map_sum id (\<lambda>_. ()) (put_vectors val idx s))"
  "(\<exists>e. snd (ls_put now ns key val idx s) = Inl e) \<Longrightarrow> fst (ls_put now ns key val idx s) = s"
  unfolding ls_put_def put_vectors_def [symmetric] by (auto simp: Let_def split: option.splits sum.splits)

lemma item_put:
  assumes "snd (ls_put now ns key val idx s) = Inr ()"
  shows "map_of (mgetd (ls_data (fst (ls_put now ns key val idx s))) j []) k =
      (if j = join_ns ns \<and> k = key
       then Some \<lparr>it_ns = ns, it_key = key, it_value = val, it_created = now, it_updated = now\<rparr>
       else map_of (mgetd (ls_data s) j []) k)"
  using assms unfolding ls_put_def by (auto simp: Let_def split: option.splits sum.splits)

lemma vectors_put:
  assumes "snd (ls_put now ns key val idx s) = Inr ()"
  obtains vecs where "put_vectors val idx s = Inr vecs" and
    "\<And>j k. ls_index s \<noteq> None \<Longrightarrow> mgetd (mgetd (ls_vectors (fst (ls_put now ns key val idx s))) j []) k [] =
      (if j = join_ns ns \<and> k = key then vecs else mgetd (mgetd (ls_vectors s) j []) k [])"
    and "ls_index s = None \<Longrightarrow> ls_vectors (fst (ls_put now ns key val idx s)) = ls_vectors s"
proof -
  obtain vecs where vecs: "put_vectors val idx s = Inr vecs" and valid: "validate_namespace ns = None"
    using assms unfolding put_result by (cases "put_vectors val idx s") (auto split: option.splits)
  then show ?thesis
    by (intro that [OF vecs]) (auto simp: ls_put_def Let_def vectors_dropped simp flip: put_vectors_def)
qed

text \<open>The contract of a store of items: what a lookup finds after a put and after a delete.\<close>

locale item_store =
  fixes find :: "'s \<Rightarrow> string list \<Rightarrow> string \<Rightarrow> item option"
    and put :: "int \<Rightarrow> string list \<Rightarrow> string \<Rightarrow> gstate option \<Rightarrow> 's \<Rightarrow> 's \<times> (goerr + unit)"
    and del :: "string list \<Rightarrow> string \<Rightarrow> 's \<Rightarrow> 's \<times> (goerr + unit)"
    and valid :: "string list \<Rightarrow> bool"
  assumes find_put: "snd (put now ns key val s) = Inr () \<Longrightarrow> valid ns' \<Longrightarrow> find (fst (put now ns key val s)) ns' key' =
      (if ns' = ns \<and> key' = key then Some \<lparr>it_ns = ns, it_key = key, it_value = val, it_created = now, it_updated = now\<rparr>
       else find s ns' key')"
    and put_failed: "snd (put now ns key val s) = Inl e \<Longrightarrow> fst (put now ns key val s) = s"
    and find_del: "valid ns \<Longrightarrow> valid ns' \<Longrightarrow> find (fst (del ns key s)) ns' key' =
      (if ns' = ns \<and> key' = key then None else find s ns' key')"
begin

lemma last_put_wins:
  assumes "snd (put now ns key val s) = Inr ()" and "snd (put now' ns key val' (fst (put now ns key val s))) = Inr ()" and "valid ns'"
  shows "find (fst (put now' ns key val' (fst (put now ns key val s)))) ns' key' =
    (if ns' = ns \<and> key' = key then Some \<lparr>it_ns = ns, it_key = key, it_value = val', it_created = now', it_updated = now'\<rparr>
     else find s ns' key')"
  using assms by (simp add: find_put)

lemma deleted_again:
  assumes "snd (put now ns key val s) = Inr ()" and "valid ns" and "valid ns'" and "find s ns key = None"
  shows "find (fst (del ns key (fst (put now ns key val s)))) ns' key' = find s ns' key'"
  using assms by (simp add: find_put find_del)

end

interpretation mem_store: item_store stored_item "\<lambda>now ns key val. ls_put now ns key val idx" ls_delete valid_labels
proof
  fix now ns key val and s :: "'a lt_store" and ns' key'
  assume ok: "snd (ls_put now ns key val idx s) = Inr ()" and valid': "valid_labels ns'"
  then have "valid_labels ns" by (auto simp: put_result validated_put split: option.splits)
  with ok valid' show "stored_item (fst (ls_put now ns key val idx s)) ns' key' =
      (if ns' = ns \<and> key' = key then Some \<lparr>it_ns = ns, it_key = key, it_value = val, it_created = now, it_updated = now\<rparr>
       else stored_item s ns' key')"
    by (auto simp: stored_item_def item_put join_ns_inj)
next
  fix now ns key val e and s :: "'a lt_store"
  assume "snd (ls_put now ns key val idx s) = Inl e"
  then show "fst (ls_put now ns key val idx s) = s" using put_result(2) by blast
next
  fix ns ns' key key' and s :: "'a lt_store"
  assume valid: "valid_labels ns" "valid_labels ns'"
  then have "validate_namespace_labels ns = None" by (simp add: validated)
  with valid show "stored_item (fst (ls_delete ns key s)) ns' key' =
      (if ns' = ns \<and> key' = key then None else stored_item s ns' key')"
    by (auto simp: stored_item_def item_deleted join_ns_inj)
qed

subsection \<open>Items and vectors agree\<close>

text \<open>
  Every bucket holds at least one item, under the namespace its address joins and the key the item
  carries; an item's vectors are those its own value embeds to, and nothing else has vectors.
\<close>

definition bucket_ok :: "'v lt_store \<Rightarrow> string \<Rightarrow> item gomap \<Rightarrow> bool" where
  "bucket_ok s j b \<longleftrightarrow>
     b \<noteq> [] \<and> (\<exists>ns. map_of (ls_ns s) j = Some ns \<and> valid_labels ns \<and> join_ns ns = j \<and>
       (\<forall>k it. map_of b k = Some it \<longrightarrow> it_ns it = ns \<and> it_key it = k))"

definition vectors_ok :: "'v store_index \<Rightarrow> item option \<Rightarrow> 'v gomap \<Rightarrow> bool" where
  "vectors_ok ix it vecs \<longleftrightarrow>
     (case it of None \<Rightarrow> vecs = [] | Some i \<Rightarrow> \<exists>fs. embed_fields ix (it_value i) fs = Inr vecs)"

definition store_inv :: "'v lt_store \<Rightarrow> bool" where
  "store_inv s \<longleftrightarrow>
     (\<forall>j. map_of (ls_ns s) j = None \<longleftrightarrow> map_of (ls_data s) j = None) \<and>
     (\<forall>j b. map_of (ls_data s) j = Some b \<longrightarrow> bucket_ok s j b) \<and>
     (case ls_index s of
        None \<Rightarrow> ls_vectors s = []
      | Some ix \<Rightarrow> \<forall>j k. vectors_ok ix (map_of (mgetd (ls_data s) j []) k) (mgetd (mgetd (ls_vectors s) j []) k []))"

lemma store_inv_bucket:
  assumes "store_inv s" and "map_of (ls_data s) j = Some b"
  obtains ns where "b \<noteq> []" "map_of (ls_ns s) j = Some ns" "valid_labels ns" "join_ns ns = j"
    "\<And>k it. map_of b k = Some it \<Longrightarrow> it_ns it = ns \<and> it_key it = k"
proof -
  from assms have "bucket_ok s j b" by (simp add: store_inv_def)
  then show ?thesis using that by (auto simp: bucket_ok_def)
qed

lemma store_inv_new: "store_inv new_store" "store_inv (new_store_with_index ix)"
  by (simp_all add: store_inv_def new_store_def new_store_with_index_def vectors_ok_def)

lemma mput_not_Nil [simp]: "mput k v m \<noteq> []"
  by (metis map_of_mput fun_upd_same map_of.simps(1) option.distinct(1))

lemma put_frame:
  assumes "snd (ls_put now ns key val idx s) = Inr ()"
  shows "ls_data (fst (ls_put now ns key val idx s)) =
      mput (join_ns ns) (mput key \<lparr>it_ns = ns, it_key = key, it_value = val, it_created = now, it_updated = now\<rparr>
        (mgetd (ls_data s) (join_ns ns) [])) (ls_data s)"
    "ls_ns (fst (ls_put now ns key val idx s)) = (if mhas (ls_data s) (join_ns ns) then ls_ns s else mput (join_ns ns) ns (ls_ns s))"
    "ls_index (fst (ls_put now ns key val idx s)) = ls_index s" "valid_labels ns"
proof -
  have "validate_namespace ns = None" using assms by (auto simp: put_result split: option.splits)
  then show "valid_labels ns" by (simp add: validated_put)
qed (use assms in \<open>auto simp: ls_put_def Let_def split: option.splits sum.splits\<close>)

lemma mhas_map_of: "mhas m k \<longleftrightarrow> map_of m k \<noteq> None"
  by (metis in_mkeys_iff mhas_iff_in set_mkeys)

lemma put_store_inv:
  assumes inv: "store_inv s"
  shows "store_inv (fst (ls_put now ns key val idx s))"
proof (cases "snd (ls_put now ns key val idx s)")
  case (Inl e)
  with inv put_result(2) [of now ns key val idx s] show ?thesis by simp
next
  case (Inr u)
  then have ok: "snd (ls_put now ns key val idx s) = Inr ()" by simp
  let ?s = "fst (ls_put now ns key val idx s)" and ?j = "join_ns ns"
  note frame = put_frame [OF ok]
  have ns_of: "map_of (ls_ns ?s) ?j = Some ns"
  proof (cases "map_of (ls_data s) ?j")
    case (Some b)
    with inv obtain ns' where "map_of (ls_ns s) ?j = Some ns'" "valid_labels ns'" "join_ns ns' = ?j"
      by (rule store_inv_bucket)
    with frame Some join_ns_inj [of ns' ns] show ?thesis by (simp add: mhas_map_of)
  qed (simp add: frame mhas_map_of)
  have "bucket_ok ?s j b" if "map_of (ls_data ?s) j = Some b" for j b
  proof (cases "j = ?j")
    case True
    have old: "it_ns it = ns \<and> it_key it = k" if "map_of (mgetd (ls_data s) ?j []) k = Some it" for k it
    proof -
      from that obtain b0 where b0: "map_of (ls_data s) ?j = Some b0" "map_of b0 k = Some it"
        by (cases "map_of (ls_data s) ?j") (simp_all add: mgetd_def)
      from inv b0(1) obtain ns' where "valid_labels ns'" "join_ns ns' = ?j" "it_ns it = ns'" "it_key it = k"
        by (rule store_inv_bucket) (use b0(2) in blast)
      with join_ns_inj [of ns' ns] frame(4) show ?thesis by simp
    qed
    with that True ns_of frame(4) show ?thesis by (auto simp: bucket_ok_def frame(1) split: if_splits)
  next
    case False
    with that inv have "bucket_ok s j b" by (simp add: store_inv_def frame(1))
    with False show ?thesis by (simp add: bucket_ok_def frame(2))
  qed
  moreover have "map_of (ls_ns ?s) j = None \<longleftrightarrow> map_of (ls_data ?s) j = None" for j
    using inv ns_of by (cases "j = ?j") (simp_all add: store_inv_def frame)
  moreover have "case ls_index ?s of None \<Rightarrow> ls_vectors ?s = []
      | Some ix \<Rightarrow> \<forall>j k. vectors_ok ix (map_of (mgetd (ls_data ?s) j []) k) (mgetd (mgetd (ls_vectors ?s) j []) k [])"
  proof -
    obtain vecs where vecs: "put_vectors val idx s = Inr vecs"
      "\<And>j k. ls_index s \<noteq> None \<Longrightarrow> mgetd (mgetd (ls_vectors ?s) j []) k [] =
        (if j = ?j \<and> k = key then vecs else mgetd (mgetd (ls_vectors s) j []) k [])"
      "ls_index s = None \<Longrightarrow> ls_vectors ?s = ls_vectors s"
      using vectors_put [OF ok] by blast
    show ?thesis
    proof (cases "ls_index s")
      case None
      with inv vecs(3) show ?thesis by (simp add: frame(3) store_inv_def)
    next
      case (Some ix)
      then have new: "\<exists>fs. embed_fields ix val fs = Inr vecs" using vecs(1) by (auto simp: put_vectors_def)
      have "vectors_ok ix (map_of (mgetd (ls_data ?s) j []) k) (mgetd (mgetd (ls_vectors ?s) j []) k [])" for j k
        using inv new Some unfolding item_put [OF ok] vecs(2) [OF Some [THEN option.discI]]
        by (auto simp: store_inv_def vectors_ok_def)
      then show ?thesis by (simp add: frame(3) Some)
    qed
  qed
  ultimately show ?thesis by (simp add: store_inv_def)
qed

lemma delete_store_inv:
  assumes inv: "store_inv s"
  shows "store_inv (fst (ls_delete ns key s))"
proof (cases "validate_namespace_labels ns = None \<and> map_of (ls_data s) (join_ns ns) \<noteq> None")
  case False
  with inv show ?thesis by (auto simp: ls_delete_def Let_def split: option.split)
next
  case True
  then obtain b where valid: "validate_namespace_labels ns = None" and b: "map_of (ls_data s) (join_ns ns) = Some b" by auto
  let ?s = "fst (ls_delete ns key s)" and ?j = "join_ns ns"
  have frame: "ls_data ?s = (if mdel key b = [] then mdel ?j (ls_data s) else mput ?j (mdel key b) (ls_data s))"
    "ls_ns ?s = (if mdel key b = [] then mdel ?j (ls_ns s) else ls_ns s)" "ls_index ?s = ls_index s"
    "ls_vectors ?s = drop_vectors ?j key (ls_vectors s)"
    using valid b by (simp_all add: ls_delete_def Let_def)
  have bucket: "bucket_ok ?s j c" if c: "map_of (ls_data ?s) j = Some c" for j c
  proof (cases "j = ?j")
    case True
    have c': "mdel key b \<noteq> [] \<and> c = mdel key b"
      using c unfolding True frame(1) by (cases "mdel key b = []") simp_all
    obtain ns' where ns': "b \<noteq> []" "map_of (ls_ns s) ?j = Some ns'" "valid_labels ns'" "join_ns ns' = ?j"
      "\<And>k it. map_of b k = Some it \<Longrightarrow> it_ns it = ns' \<and> it_key it = k"
      by (rule store_inv_bucket [OF inv b]) (rule that)
    have "it_ns it = ns' \<and> it_key it = k" if "map_of c k = Some it" for k it
    proof -
      have "((map_of b)(key := None)) k = Some it" using that unfolding c' [THEN conjunct2] map_of_mdel .
      then have "map_of b k = Some it" unfolding fun_upd_apply by (cases "k = key") simp_all
      then show ?thesis by (rule ns'(5))
    qed
    moreover have "map_of (ls_ns ?s) j = Some ns'" using c' ns'(2) True by (simp add: frame(2))
    ultimately show ?thesis using c' ns'(3,4) True unfolding bucket_ok_def
      by (intro conjI exI [of _ ns'] allI impI) simp_all
  next
    case False
    with c have "map_of (ls_data s) j = Some c" by (auto simp: frame(1) split: if_splits)
    with inv have "bucket_ok s j c" by (simp add: store_inv_def)
    with False show ?thesis by (simp add: bucket_ok_def frame(2))
  qed
  have "map_of (ls_ns ?s) j = None \<longleftrightarrow> map_of (ls_data ?s) j = None" for j
    using inv b by (cases "j = ?j") (simp_all add: store_inv_def frame)
  moreover have "vectors_ok ix (map_of (mgetd (ls_data ?s) j []) k) (mgetd (mgetd (ls_vectors ?s) j []) k [])"
    if "ls_index s = Some ix" for ix j k
    using inv that unfolding item_deleted [OF valid] frame(4) vectors_dropped
    by (auto simp: store_inv_def vectors_ok_def)
  moreover have "ls_index s = None \<Longrightarrow> ls_vectors ?s = []"
    using inv by (auto simp: store_inv_def frame(4) drop_vectors_def)
  ultimately show ?thesis using bucket by (auto simp: store_inv_def frame(3) split: option.split)
qed

subsection \<open>Sequences of operations\<close>

datatype store_op =
    PutOp int "string list" string "gstate option" "string list option"
  | DeleteOp "string list" string

definition run_store_op :: "store_op \<Rightarrow> 'v lt_store \<Rightarrow> 'v lt_store" where
  "run_store_op op s = (case op of
      PutOp now ns key val idx \<Rightarrow> fst (ls_put now ns key val idx s)
    | DeleteOp ns key \<Rightarrow> fst (ls_delete ns key s))"

text \<open>
  The store as a map from namespaces and keys to items. A put takes effect when its namespace is not
  empty, has proper labels and another root than langgraph, and, in a store with an index, its fields can
  be embedded; a delete takes effect when the labels are proper.
\<close>

definition put_accepted :: "'v store_index option \<Rightarrow> string list \<Rightarrow> gstate option \<Rightarrow> string list option \<Rightarrow> bool" where
  "put_accepted index ns val idx \<longleftrightarrow>
     ns \<noteq> [] \<and> valid_labels ns \<and> hd ns \<noteq> ''langgraph'' \<and>
     (case index of
        None \<Rightarrow> True
      | Some ix \<Rightarrow> \<not> isl (embed_fields ix val (case idx of None \<Rightarrow> ix_fields ix | Some fs \<Rightarrow> fs)))"

definition map_op :: "'v store_index option \<Rightarrow> store_op \<Rightarrow> (string list \<times> string \<rightharpoonup> item) \<Rightarrow> (string list \<times> string \<rightharpoonup> item)" where
  "map_op index op m = (case op of
      PutOp now ns key val idx \<Rightarrow>
        (if put_accepted index ns val idx
         then m((ns, key) \<mapsto> \<lparr>it_ns = ns, it_key = key, it_value = val, it_created = now, it_updated = now\<rparr>) else m)
    | DeleteOp ns key \<Rightarrow> (if valid_labels ns then m((ns, key) := None) else m))"

definition items_of :: "'v lt_store \<Rightarrow> (string list \<times> string \<rightharpoonup> item)" where
  "items_of s = (\<lambda>(ns, key). case ls_get ns key s of Inl _ \<Rightarrow> None | Inr it \<Rightarrow> it)"

lemma map_sum_unit: "map_sum id (\<lambda>_. ()) r = Inr () \<longleftrightarrow> \<not> isl r"
  by (cases r) simp_all

lemma put_succeeds: "snd (ls_put now ns key val idx s) = Inr () \<longleftrightarrow> put_accepted (ls_index s) ns val idx"
proof (cases "validate_namespace ns")
  case (Some e)
  with validated_put [of ns] show ?thesis by (auto simp: put_result put_accepted_def)
next
  case None
  then have "valid_labels ns \<and> ns \<noteq> [] \<and> hd ns \<noteq> ''langgraph''" by (simp add: validated_put)
  with None show ?thesis
    by (auto simp: put_result put_accepted_def put_vectors_def map_sum_unit split: option.split)
qed

lemma put_fails: "\<not> put_accepted (ls_index s) ns val idx \<Longrightarrow> \<exists>e. ls_put now ns key val idx s = (s, Inl e)"
  using put_succeeds [of now ns key val idx s] put_result(2) [of now ns key val idx s]
  by (cases "ls_put now ns key val idx s"; cases "snd (ls_put now ns key val idx s)") auto

lemma delete_outcome:
  "valid_labels ns \<Longrightarrow> snd (ls_delete ns key s) = Inr ()"
  "\<not> valid_labels ns \<Longrightarrow> \<exists>e. ls_delete ns key s = (s, Inl e)"
  using validated [of ns] by (auto simp: ls_delete_def Let_def split: option.split)

lemma items_of_stored: "items_of s (ns, key) = (if valid_labels ns then stored_item s ns key else None)"
  using validated [of ns] by (auto simp: items_of_def ls_get_stored split: option.split)

lemma map_op_step: "items_of (run_store_op op s) = map_op (ls_index s) op (items_of s)"
proof (rule ext, clarify)
  fix ns' key'
  show "items_of (run_store_op op s) (ns', key') = map_op (ls_index s) op (items_of s) (ns', key')"
  proof (cases op)
    case (PutOp now ns key val idx)
    show ?thesis
    proof (cases "put_accepted (ls_index s) ns val idx")
      case True
      then have ok: "snd (ls_put now ns key val idx s) = Inr ()" by (simp add: put_succeeds)
      with True mem_store.find_put [OF ok, of ns' key'] show ?thesis
        by (auto simp: PutOp run_store_op_def map_op_def items_of_stored put_accepted_def)
    next
      case False
      with put_fails [OF False, of now key] show ?thesis by (auto simp: PutOp run_store_op_def map_op_def)
    qed
  next
    case (DeleteOp ns key)
    show ?thesis
    proof (cases "valid_labels ns")
      case True
      with mem_store.find_del [OF True, of ns' key s key'] show ?thesis
        by (auto simp: DeleteOp run_store_op_def map_op_def items_of_stored)
    next
      case False
      with delete_outcome(2) [OF False, of key s] show ?thesis by (auto simp: DeleteOp run_store_op_def map_op_def)
    qed
  qed
qed

lemma run_store_inv: "store_inv s \<Longrightarrow> store_inv (fold run_store_op ops s)"
  by (induction ops arbitrary: s) (simp_all add: run_store_op_def put_store_inv delete_store_inv split: store_op.split)

lemma run_store_index: "ls_index (fold run_store_op ops s) = ls_index s"
proof (induction ops arbitrary: s)
  case (Cons op ops)
  have "ls_index (run_store_op op s) = ls_index s"
    by (auto simp: run_store_op_def ls_put_def ls_delete_def Let_def split: store_op.split option.split sum.split)
  with Cons show ?case by simp
qed simp

lemma map_op_run: "items_of (fold run_store_op ops s) = fold (map_op (ls_index s)) ops (items_of s)"
proof (induction ops arbitrary: s)
  case (Cons op ops)
  have "ls_index (run_store_op op s) = ls_index s" using run_store_index [of "[op]" s] by simp
  with Cons show ?case by (simp add: map_op_step)
qed simp

lemma label_errors_invalid: "validate_namespace_labels ns = Some e \<Longrightarrow> \<exists>what. e = invalid_namespace what"
proof -
  assume "validate_namespace_labels ns = Some e"
  then have "e \<in> set (List.map_filter (label_error ns) ns)"
    by (auto simp: validate_namespace_labels_def split: list.splits)
  then show ?thesis by (auto simp: List.map_filter_def label_error_def split: if_splits)
qed

lemma namespace_errors_invalid: "validate_namespace ns = Some e \<Longrightarrow> \<exists>what. e = invalid_namespace what"
  using label_errors_invalid [of ns] by (auto simp: validate_namespace_def split: if_splits option.splits)

text \<open>
  C23: the store implements a map from namespaces and keys to items. After any sequence of puts and deletes
  a read under proper labels succeeds and answers what the map answers after the same sequence, in which a
  put takes effect exactly when it is accepted and a delete exactly when its labels are proper: no choice
  of labels lets one namespace reach the items of another. Every read, put or delete whose labels are
  empty or contain a period or a NUL byte is refused with an invalid-namespace error, and so is a put
  under no label at all or under the root langgraph; every other read and delete succeeds, every other
  put does unless the index cannot embed its fields, and a call that fails leaves the store as it was.
\<close>

theorem store_implements_map:
  fixes s0 :: "'v lt_store"
  assumes "s = fold run_store_op ops s0"
  shows "(valid_labels ns \<longrightarrow> ls_get ns key s = Inr (fold (map_op (ls_index s0)) ops (items_of s0) (ns, key)))
    \<and> (\<not> valid_labels ns \<longrightarrow> (\<exists>what. ls_get ns key s = Inl (invalid_namespace what))
        \<and> (\<exists>what. ls_delete ns key s = (s, Inl (invalid_namespace what))))
    \<and> (valid_labels ns \<longrightarrow> snd (ls_delete ns key s) = Inr ())
    \<and> (\<not> valid_labels ns \<or> ns = [] \<or> hd ns = ''langgraph'' \<longrightarrow>
        (\<exists>what. ls_put now ns key val idx s = (s, Inl (invalid_namespace what))))
    \<and> (snd (ls_put now ns key val idx s) = Inr () \<longleftrightarrow> put_accepted (ls_index s0) ns val idx)
    \<and> (\<not> put_accepted (ls_index s0) ns val idx \<longrightarrow> fst (ls_put now ns key val idx s) = s)"
proof (intro conjI impI)
  have index: "ls_index s = ls_index s0" by (simp add: assms run_store_index)
  show "ls_get ns key s = Inr (fold (map_op (ls_index s0)) ops (items_of s0) (ns, key))" if "valid_labels ns"
  proof -
    have "items_of s (ns, key) = fold (map_op (ls_index s0)) ops (items_of s0) (ns, key)"
      by (simp add: assms map_op_run)
    with that validated [of ns] show ?thesis by (simp add: items_of_stored ls_get_stored)
  qed
  show "snd (ls_delete ns key s) = Inr ()" if "valid_labels ns" using that by (rule delete_outcome)
  show "snd (ls_put now ns key val idx s) = Inr () \<longleftrightarrow> put_accepted (ls_index s0) ns val idx"
    by (simp add: put_succeeds index)
  show "fst (ls_put now ns key val idx s) = s" if "\<not> put_accepted (ls_index s0) ns val idx"
    using put_fails [OF that [folded index], of now key] by auto
  show "\<exists>what. ls_put now ns key val idx s = (s, Inl (invalid_namespace what))"
    if bad: "\<not> valid_labels ns \<or> ns = [] \<or> hd ns = ''langgraph''"
  proof -
    from bad validated_put [of ns] obtain e where e: "validate_namespace ns = Some e" by (cases "validate_namespace ns") auto
    with namespace_errors_invalid [OF e] show ?thesis by (auto simp: ls_put_def)
  qed
next
  assume "\<not> valid_labels ns"
  then obtain e where e: "validate_namespace_labels ns = Some e"
    using validated [of ns] by (cases "validate_namespace_labels ns") auto
  with label_errors_invalid [OF e] show "\<exists>what. ls_get ns key s = Inl (invalid_namespace what)"
    "\<exists>what. ls_delete ns key s = (s, Inl (invalid_namespace what))"
    by (auto simp: ls_get_def ls_delete_def)
qed

lemma store_implements_map_witness:
  "let s = fold run_store_op [PutOp 7 [''a''] ''k'' None None, PutOp 8 [''a'', ''b''] ''k'' None None, DeleteOp [''a''] ''k'',
       PutOp 9 [''langgraph''] ''k'' None None] (new_store :: nat lt_store)
   in ls_get [''a''] ''k'' s = Inr None \<and> ls_get [''langgraph''] ''k'' s = Inr None \<and>
      map_sum id (map_option it_created) (ls_get [''a'', ''b''] ''k'' s) = Inr (Some 8)"
proof -
  let ?ops = "[PutOp 7 [''a''] ''k'' None None, PutOp 8 [''a'', ''b''] ''k'' None None, DeleteOp [''a''] ''k'',
       PutOp 9 [''langgraph''] ''k'' None None]"
  let ?s0 = "new_store :: nat lt_store"
  have valid: "valid_labels [''a'']" "valid_labels [''langgraph'']" "valid_labels [''a'', ''b'']"
    by (simp_all add: valid_labels_def nul_def)
  have m: "fold (map_op (ls_index ?s0)) ?ops (items_of ?s0) ([''a''], ''k'') = None"
    "fold (map_op (ls_index ?s0)) ?ops (items_of ?s0) ([''langgraph''], ''k'') = None"
    "map_option it_created (fold (map_op (ls_index ?s0)) ?ops (items_of ?s0) ([''a'', ''b''], ''k'')) = Some 8"
    by (simp_all add: map_op_def put_accepted_def valid new_store_def items_of_def ls_get_def split: option.split)
  show ?thesis
    using store_implements_map [OF refl, of "[''a'']" "''k''" ?ops ?s0, THEN conjunct1, rule_format, OF valid(1)]
      store_implements_map [OF refl, of "[''langgraph'']" "''k''" ?ops ?s0, THEN conjunct1, rule_format, OF valid(2)]
      store_implements_map [OF refl, of "[''a'', ''b'']" "''k''" ?ops ?s0, THEN conjunct1, rule_format, OF valid(3)] m
    unfolding Let_def by (simp only: map_sum.simps)
qed

text \<open>
  Items and vectors agree. Whatever is put into an indexed store and deleted from it, in any
  order and with any failures in between, the item found under a namespace and a key carries them, its
  vectors are what its own value embeds to, and where there is no item there are no vectors.
\<close>

theorem items_and_vectors_agree:
  assumes "validate_namespace_labels ns = None"
  shows "let s = fold run_store_op ops (new_store_with_index ix); vecs = item_vectors s ns key
    in case ls_get ns key s of
        Inl _ \<Rightarrow> False
      | Inr None \<Rightarrow> vecs = []
      | Inr (Some it) \<Rightarrow> it_ns it = ns \<and> it_key it = key \<and> (\<exists>ix' fs. ls_index s = Some ix' \<and> embed_fields ix' (it_value it) fs = Inr vecs)"
proof -
  let ?s = "fold run_store_op ops (new_store_with_index ix)"
  have inv: "store_inv ?s" by (rule run_store_inv) (rule store_inv_new)
  obtain ix' where ix': "ls_index ?s = Some ix'" by (simp add: run_store_index new_store_with_index_def)
  have get: "ls_get ns key ?s = Inr (stored_item ?s ns key)" using assms by (simp add: ls_get_stored)
  have vecs: "vectors_ok ix' (stored_item ?s ns key) (item_vectors ?s ns key)"
    using inv ix' by (simp add: store_inv_def stored_item_def item_vectors_def)
  show ?thesis
  proof (cases "stored_item ?s ns key")
    case None
    with vecs show ?thesis unfolding Let_def get by (simp add: vectors_ok_def)
  next
    case (Some it)
    then obtain b where b: "map_of (ls_data ?s) (join_ns ns) = Some b" "map_of b key = Some it"
      by (cases "map_of (ls_data ?s) (join_ns ns)") (simp_all add: stored_item_def mgetd_def)
    obtain ns' where "valid_labels ns'" "join_ns ns' = join_ns ns" "it_ns it = ns'" "it_key it = key"
      using inv b(1) by (rule store_inv_bucket) (use b(2) that in blast)
    with join_ns_inj [of ns' ns] assms have "it_ns it = ns" "it_key it = key" by (simp_all add: validated)
    with vecs Some ix' show ?thesis unfolding Let_def get by (auto simp: vectors_ok_def)
  qed
qed

text \<open>An index whose embedder maps a text to its length.\<close>

definition demo_index :: "nat store_index" where
  "demo_index = \<lparr>ix_marshal = (\<lambda>_. Inr ''{}''), ix_embed = (\<lambda>ts. Inr (map length ts)), ix_query = (\<lambda>q. Inr (length q)),
     ix_similarity = (\<lambda>a b. if a = b then 1 else 0), ix_fields = [''title'']\<rparr>"

lemma items_and_vectors_agree_witness:
  "let s = fold run_store_op [PutOp 1 [''a''] ''k'' (Some [(''title'', VStr ''abc'')]) None] (new_store_with_index demo_index)
   in \<exists>it ix' fs. ls_get [''a''] ''k'' s = Inr (Some it) \<and> embed_fields ix' (it_value it) fs = Inr (item_vectors s [''a''] ''k'')"
proof -
  have "validate_namespace_labels [''a''] = None" by code_simp
  moreover have "case ls_get [''a''] ''k'' (fold run_store_op [PutOp 1 [''a''] ''k'' (Some [(''title'', VStr ''abc'')]) None]
      (new_store_with_index demo_index)) of Inr (Some _) \<Rightarrow> True | _ \<Rightarrow> False" by code_simp
  ultimately show ?thesis
    using items_and_vectors_agree [where ns = "[''a'']" and key = "''k''" and ix = demo_index
        and ops = "[PutOp 1 [''a''] ''k'' (Some [(''title'', VStr ''abc'')]) None]"]
    unfolding Let_def by (auto split: sum.splits option.splits)
qed

subsection \<open>Search results\<close>

lemma map_filter_all: "(\<forall>x \<in> set xs. f x = Some (g x)) \<Longrightarrow> List.map_filter f xs = map g xs"
  by (induction xs) (auto simp: List.map_filter_def)

lemma distinct_concat_tagged:
  assumes "distinct js" and "\<And>j. j \<in> set js \<Longrightarrow> distinct (map p (f j)) \<and> fst ` p ` set (f j) \<subseteq> {j}"
  shows "distinct (map p (concat (map f js)))"
  using assms
proof (induction js)
  case (Cons j js)
  have rest: "fst (p x) \<in> set js" if "x \<in> set (concat (map f js))" for x
  proof -
    from that obtain i where "i \<in> set js" "x \<in> set (f i)" by auto
    with Cons.prems(2) [of i] show ?thesis by auto
  qed
  have "p x \<noteq> p y" if "x \<in> set (f j)" "y \<in> set (concat (map f js))" for x y
  proof -
    have "fst (p x) = j" using Cons.prems(2) [of j] that(1) by auto
    with rest [OF that(2)] Cons.prems(1) show ?thesis by auto
  qed
  then have "set (map p (f j)) \<inter> set (map p (concat (map f js))) = {}" unfolding set_map by blast
  with Cons.IH Cons.prems show ?case by simp
qed simp

lemma namespace_has_prefix_iff: "namespace_has_prefix ns pre \<longleftrightarrow> take (length pre) ns = pre"
proof -
  have "(\<forall>i < length pre. ns ! i = pre ! i) \<longleftrightarrow> take (length pre) ns = pre" if "length pre \<le> length ns"
    using that by (auto simp: list_eq_iff_nth_eq)
  moreover have "length pre \<le> length ns" if "take (length pre) ns = pre"
    using arg_cong [where f = length, OF that] by simp
  ultimately show ?thesis by (auto simp: namespace_has_prefix_def list_all_iff atLeast_upt)
qed

lemma bucket_items:
  assumes "store_inv s" and "map_of (ls_data s) j = Some b"
  shows "List.map_filter (map_of b) (mkeys b) = map (\<lambda>k. the (map_of b k)) (mkeys b)"
    and "map place (map (\<lambda>k. the (map_of b k)) (mkeys b)) = map (Pair j) (mkeys b)"
proof -
  have found: "\<exists>it. map_of b k = Some it" if "k \<in> set (mkeys b)" for k using that in_mkeys_iff [of k b] by blast
  then show "List.map_filter (map_of b) (mkeys b) = map (\<lambda>k. the (map_of b k)) (mkeys b)"
    by (intro map_filter_all) fastforce
  obtain ns where ns: "b \<noteq> []" "map_of (ls_ns s) j = Some ns" "valid_labels ns" "join_ns ns = j"
    "\<And>k it. map_of b k = Some it \<Longrightarrow> it_ns it = ns \<and> it_key it = k"
    by (rule store_inv_bucket [OF assms]) (rule that)
  have "place (the (map_of b k)) = (j, k)" if "k \<in> set (mkeys b)" for k
    using found [OF that] ns(4,5) by (auto simp: place_def)
  then show "map place (map (\<lambda>k. the (map_of b k)) (mkeys b)) = map (Pair j) (mkeys b)" by simp
qed

text \<open>The items a search selects, and the order it lists them in.\<close>

definition selected :: "string list \<Rightarrow> gstate \<Rightarrow> 'v lt_store \<Rightarrow> item set" where
  "selected pre flt s =
     {it. valid_labels (it_ns it) \<and> stored_item s (it_ns it) (it_key it) = Some it \<and> take (length pre) (it_ns it) = pre \<and>
          (flt = [] \<or> compare_values (VMap (item_doc (it_value it))) (VMap flt))}"

lemma candidates_view:
  assumes inv: "store_inv s"
  shows "distinct (map place (candidates pre flt s)) \<and> set (candidates pre flt s) = selected pre flt s"
proof
  let ?keep = "\<lambda>it. flt = [] \<or> compare_values (VMap (item_doc (it_value it))) (VMap flt)"
  let ?items = "\<lambda>j. List.map_filter (map_of (mgetd (ls_data s) j [])) (mkeys (mgetd (ls_data s) j []))"
  let ?f = "\<lambda>j. if namespace_has_prefix (mgetd (ls_ns s) j []) pre then filter ?keep (?items j) else []"
  have items: "map place (?items j) = map (Pair j) (mkeys b)" if "map_of (ls_data s) j = Some b" for j b
    using bucket_items [OF inv that] that by (simp add: mgetd_def)
  have "distinct (map place (?f j)) \<and> fst ` place ` set (?f j) \<subseteq> {j}" if "j \<in> set (mkeys (ls_data s))" for j
  proof -
    have "map_of (ls_data s) j \<noteq> None" using that in_mkeys_iff [of j "ls_data s"] by simp
    then obtain b where b: "map_of (ls_data s) j = Some b" by blast
    have "distinct (map place (?items j))" unfolding items [OF b] by (simp add: distinct_map inj_on_def)
    moreover have "fst ` set (map place (?items j)) \<subseteq> {j}" unfolding items [OF b] by auto
    ultimately show ?thesis by (auto simp: distinct_map_filter)
  qed
  then show "distinct (map place (candidates pre flt s))"
    unfolding candidates_def by (intro distinct_concat_tagged) simp_all
  show "set (candidates pre flt s) = selected pre flt s"
  proof (intro equalityI subsetI)
    fix it
    assume "it \<in> set (candidates pre flt s)"
    then obtain j where j: "j \<in> set (mkeys (ls_data s))" "namespace_has_prefix (mgetd (ls_ns s) j []) pre"
      "?keep it" "it \<in> set (?items j)" by (auto simp: candidates_def split: if_splits)
    have "map_of (ls_data s) j \<noteq> None" using j(1) in_mkeys_iff [of j "ls_data s"] by simp
    then obtain b where b: "map_of (ls_data s) j = Some b" by blast
    with j(4) obtain k where k: "map_of b k = Some it"
      by (auto simp: mgetd_def List.map_filter_def)
    obtain ns where ns: "b \<noteq> []" "map_of (ls_ns s) j = Some ns" "valid_labels ns" "join_ns ns = j"
      "\<And>k it. map_of b k = Some it \<Longrightarrow> it_ns it = ns \<and> it_key it = k"
      by (rule store_inv_bucket [OF inv b]) (rule that)
    with k have "it_ns it = ns" "it_key it = k" by blast+
    with j ns b k show "it \<in> selected pre flt s"
      by (simp add: selected_def stored_item_def mgetd_def namespace_has_prefix_iff)
  next
    fix it
    assume sel: "it \<in> selected pre flt s"
    let ?j = "join_ns (it_ns it)"
    obtain b where b: "map_of (ls_data s) ?j = Some b" "map_of b (it_key it) = Some it"
      using sel by (cases "map_of (ls_data s) ?j") (simp_all add: selected_def stored_item_def mgetd_def)
    obtain ns where ns: "b \<noteq> []" "map_of (ls_ns s) ?j = Some ns" "valid_labels ns" "join_ns ns = ?j"
      "\<And>k it. map_of b k = Some it \<Longrightarrow> it_ns it = ns \<and> it_key it = k"
      by (rule store_inv_bucket [OF inv b(1)]) (rule that)
    with b(2) have "it_ns it = ns" by blast
    moreover have "?j \<in> set (mkeys (ls_data s))" using b(1) in_mkeys_iff [of ?j "ls_data s"] by simp
    moreover have "it \<in> set (?items ?j)"
      using b bucket_items(1) [OF inv b(1)] in_mkeys_iff [of "it_key it" b] by (force simp: mgetd_def image_iff)
    ultimately show "it \<in> set (candidates pre flt s)"
      using sel ns(2) unfolding candidates_def
      by (auto simp: selected_def namespace_has_prefix_iff mgetd_def intro!: bexI [of _ ?j])
  qed
qed

lemma strict_sort:
  fixes f :: "'a \<Rightarrow> 'b::linorder"
  assumes "distinct (map f xs)"
  shows "sorted_wrt (\<lambda>a b. f a < f b) (sort_key f xs)"
proof -
  have "distinct (map f (sort_key f xs))"
    using assms by (simp add: distinct_map)
  then have "sorted_wrt (<) (map f (sort_key f xs))" by (simp add: strict_sorted_iff)
  then show ?thesis by (simp add: sorted_wrt_map)
qed

lemma pages_tile: "concat (map (\<lambda>i. take l (drop (i * l) xs)) [0..<m]) = take (m * l) xs"
proof (induction m)
  case (Suc m)
  have "take (m * l) xs @ take l (drop (m * l) xs) = take (m * l + l) xs" by (simp add: take_add)
  with Suc show ?case by (simp add: add.commute)
qed simp

definition unindexed :: "'v lt_store \<Rightarrow> search_options \<Rightarrow> bool" where
  "unindexed s opts \<longleftrightarrow> ls_index s = None \<or> so_query opts = []"

text \<open>
  A search that does not rank lists what it selects, each item once, and its pages tile the list.
  The results are the items below the prefix that satisfy the filter, in ascending order of their
  namespaces, label by label, and of their keys; reading page after page skips nothing and repeats
  nothing.
\<close>

theorem search_lists_selection:
  assumes "validate_namespace_labels pre = None" and "s = fold run_store_op ops s0" and "s0 = new_store \<or> s0 = new_store_with_index ix"
    and "unindexed s opts"
  shows "\<exists>L. set L = selected pre (so_filter opts) s \<and>
    sorted_wrt (\<lambda>a b. (it_ns a, it_key a) < (it_ns b, it_key b)) L \<and>
    ls_search pre opts s = Inr (map (\<lambda>it. (it, 0))
      (take (if so_limit opts \<le> 0 then 10 else nat (so_limit opts)) (drop (nat (so_offset opts)) L))) \<and>
    (\<forall>m l. 0 < l \<longrightarrow> concat (map (\<lambda>i. map fst (projr (ls_search pre (opts\<lparr>so_limit := int l, so_offset := int (i * l)\<rparr>) s))) [0..<m])
      = take (m * l) L)"
proof -
  have inv: "store_inv s" using assms(2,3) run_store_inv store_inv_new by blast
  let ?L = "sort_key place (candidates pre (so_filter opts) s)"
  note view = candidates_view [OF inv, of pre "so_filter opts"]
  have search: "ls_search pre sopts s = Inr (map (\<lambda>it. (it, 0))
      (take (if so_limit sopts \<le> 0 then 10 else nat (so_limit sopts))
        (drop (nat (so_offset sopts)) (sort_key place (candidates pre (so_filter sopts) s)))))"
    if "unindexed s sopts" for sopts
  proof -
    have "nat (max (so_offset sopts) 0) = nat (so_offset sopts)" by simp
    then show ?thesis
      using that assms(1) by (auto simp: ls_search_def unindexed_def Let_def search_unranked_def page_def split: option.split)
  qed
  have "sorted_wrt (\<lambda>a b. place a < place b) ?L" using strict_sort view by blast
  then have "sorted_wrt (\<lambda>a b. (it_ns a, it_key a) < (it_ns b, it_key b)) ?L"
  proof (rule sorted_wrt_mono_rel [rotated])
    fix a b
    assume "a \<in> set ?L" "b \<in> set ?L" "place a < place b"
    moreover from this have "valid_labels (it_ns a)" "valid_labels (it_ns b)" using view by (simp_all add: selected_def)
    ultimately show "(it_ns a, it_key a) < (it_ns b, it_key b)"
      by (auto simp: place_def join_ns_less join_ns_inj order_le_less)
  qed
  moreover have "concat (map (\<lambda>i. map fst (projr (ls_search pre (opts\<lparr>so_limit := int l, so_offset := int (i * l)\<rparr>) s))) [0..<m])
      = take (m * l) ?L" if "0 < l" for m l
  proof -
    have "map fst (projr (ls_search pre (opts\<lparr>so_limit := int l, so_offset := int (i * l)\<rparr>) s)) = take l (drop (i * l) ?L)" for i
      using search [of "opts\<lparr>so_limit := int l, so_offset := int (i * l)\<rparr>"] assms(4) that
      by (simp add: unindexed_def comp_def nat_mult_distrib del: of_nat_mult)
    then show ?thesis by (simp add: pages_tile)
  qed
  ultimately show ?thesis using search [OF assms(4)] view by (intro exI [of _ ?L]) simp
qed

definition default_search :: search_options where
  "default_search = \<lparr>so_query = [], so_filter = [], so_limit = 0, so_offset = 0\<rparr>"

lemma search_lists_selection_witness:
  "let s = fold run_store_op [PutOp 1 [''a''] ''k'' None None] (new_store :: nat lt_store)
   in \<exists>L. set L = selected [] [] s \<and> ls_search [] default_search s = Inr (map (\<lambda>it. (it, 0)) (take 10 L))"
proof -
  let ?s = "fold run_store_op [PutOp 1 [''a''] ''k'' None None] (new_store :: nat lt_store)"
  have "validate_namespace_labels [] = None" by code_simp
  moreover have "unindexed ?s default_search" by (simp add: unindexed_def default_search_def)
  ultimately show ?thesis
    using search_lists_selection [of "[]" ?s "[PutOp 1 [''a''] ''k'' None None]" new_store undefined default_search]
    by (auto simp: Let_def default_search_def)
qed

subsection \<open>Listed namespaces\<close>

definition holds_items :: "'v lt_store \<Rightarrow> string list \<Rightarrow> bool" where
  "holds_items s ns \<longleftrightarrow> valid_labels ns \<and> (\<exists>key. stored_item s ns key \<noteq> None)"

lemma namespace_has_suffix_iff: "namespace_has_suffix ns suf \<longleftrightarrow> suffix suf ns"
proof -
  have "(\<forall>i < length suf. ns ! (length ns - length suf + i) = suf ! i) \<longleftrightarrow> drop (length ns - length suf) ns = suf"
    if "length suf \<le> length ns"
    using that by (auto simp: list_eq_iff_nth_eq)
  moreover have "suffix suf ns \<longleftrightarrow> length suf \<le> length ns \<and> drop (length ns - length suf) ns = suf"
  proof
    assume "length suf \<le> length ns \<and> drop (length ns - length suf) ns = suf"
    with suffix_drop [of "length ns - length suf" ns] show "suffix suf ns" by simp
  qed (auto simp: suffix_def)
  ultimately show ?thesis by (auto simp: namespace_has_suffix_def list_all_iff atLeast_upt Let_def)
qed

text \<open>The namespaces a listing shows, whole or cut at the depth.\<close>

definition shown_namespaces :: "list_ns_options \<Rightarrow> 'v lt_store \<Rightarrow> string list set" where
  "shown_namespaces opts s =
     truncate_ns (lo_depth opts) ` {ns. holds_items s ns \<and> take (length (lo_prefix opts)) ns = lo_prefix opts \<and> suffix (lo_suffix opts) ns}"

lemma valid_truncate: "valid_labels ns \<Longrightarrow> valid_labels (truncate_ns d ns)"
  by (auto simp: valid_labels_def truncate_ns_def split: option.split dest!: in_set_takeD)

lemma ls_ns_holds:
  assumes "store_inv s"
  shows "map_of (ls_ns s) j = Some ns \<longleftrightarrow> holds_items s ns \<and> j = join_ns ns"
proof
  assume ns: "map_of (ls_ns s) j = Some ns"
  with assms obtain b where b: "map_of (ls_data s) j = Some b"
    unfolding store_inv_def by (metis not_None_eq)
  obtain ns' where ns': "b \<noteq> []" "map_of (ls_ns s) j = Some ns'" "valid_labels ns'" "join_ns ns' = j"
    "\<And>k it. map_of b k = Some it \<Longrightarrow> it_ns it = ns' \<and> it_key it = k"
    by (rule store_inv_bucket [OF assms b]) (rule that)
  obtain k it where "map_of b k = Some it" using ns'(1) by (cases b) (auto intro: that [of "fst (hd b)" "snd (hd b)"])
  with ns ns' b show "holds_items s ns \<and> j = join_ns ns" by (auto simp: holds_items_def stored_item_def mgetd_def)
next
  assume hold: "holds_items s ns \<and> j = join_ns ns"
  then obtain b where b: "map_of (ls_data s) j = Some b"
    by (cases "map_of (ls_data s) j") (auto simp: holds_items_def stored_item_def mgetd_def)
  obtain ns' where "b \<noteq> []" "map_of (ls_ns s) j = Some ns'" "valid_labels ns'" "join_ns ns' = j"
    "\<And>k it. map_of b k = Some it \<Longrightarrow> it_ns it = ns' \<and> it_key it = k"
    by (rule store_inv_bucket [OF assms b]) (rule that)
  with hold join_ns_inj [of ns' ns] show "map_of (ls_ns s) j = Some ns" by (simp add: holds_items_def)
qed

lemma listed_view:
  assumes "\<forall>j \<in> set js. \<forall>ns. g j = ns \<longrightarrow> valid_labels (t ns)"
  shows "map_of (fold (\<lambda>j u. if P (g j) then mput (join_ns (t (g j))) (t (g j)) u else u) js u0) k =
    (case List.find (\<lambda>j. P (g j) \<and> join_ns (t (g j)) = k) js of None \<Rightarrow> map_of u0 k | Some j \<Rightarrow> Some (t (g j)))"
  using assms
proof (induction js arbitrary: u0)
  case (Cons j js)
  show ?case
  proof (cases "List.find (\<lambda>j. P (g j) \<and> join_ns (t (g j)) = k) js")
    case None
    with Cons show ?thesis by auto
  next
    case (Some i)
    then have i: "i \<in> set js" "join_ns (t (g i)) = k" by (auto simp: find_Some_iff in_set_conv_nth)
    have "t (g i) = t (g j)" if "join_ns (t (g j)) = k"
      using that i Cons.prems join_ns_inj [of "t (g i)" "t (g j)"] by simp
    with Cons Some show ?thesis by auto
  qed
qed simp

lemma listed_namespaces_view:
  assumes inv: "store_inv s"
  shows "map_of (listed_namespaces opts s) k = Some ns \<longleftrightarrow> ns \<in> shown_namespaces opts s \<and> k = join_ns ns"
proof -
  let ?g = "\<lambda>j. mgetd (ls_ns s) j []" and ?t = "truncate_ns (lo_depth opts)"
  let ?P = "\<lambda>ns. take (length (lo_prefix opts)) ns = lo_prefix opts \<and> suffix (lo_suffix opts) ns"
  have g: "holds_items s (?g j) \<and> j = join_ns (?g j)" if "j \<in> set (mkeys (ls_ns s))" for j
  proof -
    have "map_of (ls_ns s) j \<noteq> None" using that in_mkeys_iff [of j "ls_ns s"] by simp
    then obtain ns where ns: "map_of (ls_ns s) j = Some ns" by blast
    then have "mgetd (ls_ns s) j [] = ns" by (simp add: mgetd_def)
    with ns ls_ns_holds [OF inv, of j ns] show ?thesis by simp
  qed
  have valid: "valid_labels (?t ns)" if "holds_items s ns" for ns
    using that by (simp add: holds_items_def valid_truncate)
  have "listed_namespaces opts s = fold (\<lambda>j u. if ?P (?g j) then mput (join_ns (?t (?g j))) (?t (?g j)) u else u) (mkeys (ls_ns s)) []"
    unfolding listed_namespaces_def Let_def
    by (intro fold_cong) (auto simp: namespace_has_prefix_iff namespace_has_suffix_iff fun_eq_iff)
  then have view: "map_of (listed_namespaces opts s) k =
      map_option (\<lambda>j. ?t (?g j)) (List.find (\<lambda>j. ?P (?g j) \<and> join_ns (?t (?g j)) = k) (mkeys (ls_ns s)))"
    using listed_view [of "mkeys (ls_ns s)" ?g ?t ?P "[]" k] g valid by (auto split: option.split)
  show ?thesis
  proof (intro iffI)
    assume "map_of (listed_namespaces opts s) k = Some ns"
    then obtain j where "j \<in> set (mkeys (ls_ns s))" "?P (?g j)" "join_ns (?t (?g j)) = k" "ns = ?t (?g j)"
      unfolding view by (auto simp: find_Some_iff in_set_conv_nth simp del: set_mkeys)
    with g show "ns \<in> shown_namespaces opts s \<and> k = join_ns ns" by (auto simp: shown_namespaces_def simp del: set_mkeys)
  next
    assume "ns \<in> shown_namespaces opts s \<and> k = join_ns ns"
    then obtain full where full: "holds_items s full" "?P full" "ns = ?t full" "k = join_ns ns"
      by (auto simp: shown_namespaces_def)
    then have at: "map_of (ls_ns s) (join_ns full) = Some full" using ls_ns_holds [OF inv] by blast
    then have key: "join_ns full \<in> set (mkeys (ls_ns s))" using in_mkeys_iff [of "join_ns full" "ls_ns s"] by simp
    have "?g (join_ns full) = full" using at by (simp add: mgetd_def)
    with full key have "List.find (\<lambda>j. ?P (?g j) \<and> join_ns (?t (?g j)) = k) (mkeys (ls_ns s)) \<noteq> None"
      unfolding find_None_iff by (auto simp del: set_mkeys intro!: exI [of _ "join_ns full"])
    then obtain j where j: "List.find (\<lambda>j. ?P (?g j) \<and> join_ns (?t (?g j)) = k) (mkeys (ls_ns s)) = Some j" by blast
    then have "j \<in> set (mkeys (ls_ns s))" "join_ns (?t (?g j)) = k"
      by (auto simp: find_Some_iff in_set_conv_nth simp del: set_mkeys)
    with g full valid join_ns_inj [of "?t (?g j)" ns] have "?t (?g j) = ns" by blast
    with j show "map_of (listed_namespaces opts s) k = Some ns" by (simp add: view)
  qed
qed

text \<open>
  Listing the namespaces shows each namespace that holds an item below the prefix and above the
  suffix exactly once, cut at the depth, in ascending order label by label, and pages the list.
\<close>

theorem list_namespaces_shows_each_once:
  assumes "validate_namespace_labels (lo_prefix opts) = None" and "validate_namespace_labels (lo_suffix opts) = None"
    and "s = fold run_store_op ops s0" and "s0 = new_store \<or> s0 = new_store_with_index ix"
  shows "\<exists>L. set L = shown_namespaces opts s \<and> sorted_wrt (<) L \<and>
    ls_list_namespaces opts s = Inr (take (if lo_limit opts \<le> 0 then 100 else nat (lo_limit opts)) (drop (nat (lo_offset opts)) L))"
proof -
  have inv: "store_inv s" using assms(3,4) run_store_inv store_inv_new by blast
  let ?u = "listed_namespaces opts s"
  let ?xs = "List.map_filter (map_of ?u) (mkeys ?u)"
  have xs: "?xs = map (\<lambda>k. the (map_of ?u k)) (mkeys ?u)"
    by (rule map_filter_all) (auto simp: in_mkeys_iff simp del: set_mkeys)
  have at: "join_ns (the (map_of ?u k)) = k \<and> the (map_of ?u k) \<in> shown_namespaces opts s" if "k \<in> set (mkeys ?u)" for k
  proof -
    have "map_of ?u k \<noteq> None" using that in_mkeys_iff [of k ?u] by simp
    then obtain ns where "map_of ?u k = Some ns" by blast
    then show ?thesis using listed_namespaces_view [OF inv, of opts k ns] by simp
  qed
  have joins: "map join_ns ?xs = mkeys ?u" unfolding xs map_map by (rule map_idI) (use at in \<open>simp del: set_mkeys\<close>)
  have shown: "set ?xs = shown_namespaces opts s"
  proof
    show "set ?xs \<subseteq> shown_namespaces opts s" unfolding xs using at by (auto simp del: set_mkeys)
    show "shown_namespaces opts s \<subseteq> set ?xs"
    proof
      fix ns
      assume "ns \<in> shown_namespaces opts s"
      then have "map_of ?u (join_ns ns) = Some ns" using listed_namespaces_view [OF inv] by blast
      then show "ns \<in> set ?xs" unfolding xs by (force simp: in_mkeys_iff image_iff simp del: set_mkeys)
    qed
  qed
  have valid: "valid_labels ns" if "ns \<in> shown_namespaces opts s" for ns
    using that by (auto simp: shown_namespaces_def holds_items_def valid_truncate)
  have "sorted_wrt (\<lambda>a b. join_ns a < join_ns b) (sort_key join_ns ?xs)" by (rule strict_sort) (simp add: joins)
  then have "sorted_wrt (<) (sort_key join_ns ?xs)"
    by (rule sorted_wrt_mono_rel [rotated]) (use shown valid in \<open>auto simp: join_ns_less\<close>)
  moreover have "nat (max (lo_offset opts) 0) = nat (lo_offset opts)" by simp
  ultimately show ?thesis
    using assms(1,2) shown by (intro exI [of _ "sort_key join_ns ?xs"]) (auto simp: ls_list_namespaces_def Let_def page_def)
qed

definition all_namespaces :: list_ns_options where
  "all_namespaces = \<lparr>lo_prefix = [], lo_suffix = [], lo_depth = Some 1, lo_limit = 0, lo_offset = 0\<rparr>"

lemma list_namespaces_shows_each_once_witness:
  "let s = fold run_store_op [PutOp 1 [''a'', ''b''] ''k'' None None, PutOp 2 [''a'', ''c''] ''k'' None None] (new_store :: nat lt_store)
   in \<exists>L. set L = shown_namespaces all_namespaces s \<and> sorted_wrt (<) L \<and>
     ls_list_namespaces all_namespaces s = Inr (take 100 L)"
proof -
  have ok: "validate_namespace_labels (lo_prefix all_namespaces) = None" "validate_namespace_labels (lo_suffix all_namespaces) = None"
    by code_simp+
  let ?ops = "[PutOp 1 [''a'', ''b''] ''k'' None None, PutOp 2 [''a'', ''c''] ''k'' None None]"
  have "lo_limit all_namespaces = 0" "lo_offset all_namespaces = 0" by (simp_all add: all_namespaces_def)
  with list_namespaces_shows_each_once [OF ok refl disjI1 [OF refl], where ops = ?ops and 'a = nat]
  show ?thesis unfolding Let_def by simp
qed

subsection \<open>Numeric filters\<close>

lemma bit_len_bounds: "0 < n \<Longrightarrow> 0 < bit_len n \<and> 2 ^ (bit_len n - 1) \<le> n \<and> n < 2 ^ bit_len n"
proof (induction n rule: bit_len.induct)
  case (1 n)
  show ?case
  proof (cases "n = 1")
    case True
    have "bit_len 1 = 1" by code_simp
    with True show ?thesis by simp
  next
    case False
    with 1 have half: "0 < bit_len (n div 2)" "2 ^ (bit_len (n div 2) - 1) \<le> n div 2" "n div 2 < 2 ^ bit_len (n div 2)" by auto
    have len: "bit_len n = Suc (bit_len (n div 2))" using 1(2) by (simp add: bit_len.simps [of n])
    obtain k where k: "bit_len (n div 2) = Suc k" using half(1) gr0_implies_Suc by blast
    have "2 * (n div 2) \<le> n" "n < 2 * (n div 2) + 2" by simp_all
    moreover have "2 ^ k \<le> n div 2" "n div 2 < 2 * 2 ^ k" using half(2,3) unfolding k by simp_all
    ultimately have "2 * 2 ^ k \<le> n" "n < 4 * 2 ^ k" by linarith+
    then show ?thesis unfolding len k by simp
  qed
qed

lemma bit_len_mono: "m \<le> n \<Longrightarrow> bit_len m \<le> bit_len n"
proof (rule ccontr)
  assume "m \<le> n" "\<not> bit_len m \<le> bit_len n"
  moreover from this have "0 < m" by (cases m) (simp_all add: bit_len.simps [of 0])
  ultimately have "(2::nat) ^ bit_len n \<le> 2 ^ (bit_len m - 1)" "2 ^ (bit_len m - 1) \<le> m" "n < 2 ^ bit_len n"
    using bit_len_bounds [of m] bit_len_bounds [of n] by auto
  with \<open>m \<le> n\<close> show False by linarith
qed

definition rounded :: "nat \<Rightarrow> nat \<Rightarrow> nat" where
  "rounded e n =
     (if n mod 2 ^ e > 2 ^ (e - 1) \<or> n mod 2 ^ e = 2 ^ (e - 1) \<and> odd (n div 2 ^ e) then n div 2 ^ e + 1 else n div 2 ^ e) * 2 ^ e"

lemma round_nat_rounded: "round_nat n = (if bit_len n \<le> 53 then n else rounded (bit_len n - 53) n)"
  by (simp add: round_nat_def rounded_def Let_def)

lemma rounded_bounds: "n div 2 ^ e * 2 ^ e \<le> rounded e n \<and> rounded e n \<le> (n div 2 ^ e + 1) * 2 ^ e"
  by (simp add: rounded_def)

lemma rounded_mono:
  assumes "m \<le> n"
  shows "rounded e m \<le> rounded e n"
proof (cases "m div 2 ^ e = n div 2 ^ e")
  case True
  have "m div 2 ^ e * 2 ^ e + m mod 2 ^ e \<le> n div 2 ^ e * 2 ^ e + n mod 2 ^ e"
    using assms unfolding div_mult_mod_eq .
  then have "m mod 2 ^ e \<le> n mod 2 ^ e" using True by simp
  with True show ?thesis by (auto simp: rounded_def)
next
  case False
  then have "m div 2 ^ e + 1 \<le> n div 2 ^ e" using div_le_mono [OF assms, of "2 ^ e"] by simp
  then have "(m div 2 ^ e + 1) * 2 ^ e \<le> n div 2 ^ e * 2 ^ e" by (rule mult_le_mono1)
  with rounded_bounds [of m e] rounded_bounds [of n e] show ?thesis by linarith
qed

lemma rounded_within:
  assumes "53 < bit_len n"
  shows "2 ^ (bit_len n - 1) \<le> rounded (bit_len n - 53) n \<and> rounded (bit_len n - 53) n \<le> 2 ^ bit_len n"
proof -
  define e where "e = bit_len n - 53"
  have "0 < n" using assms by (cases n) (simp_all add: bit_len.simps [of 0])
  note b = bit_len_bounds [OF this]
  have len: "(2::nat) ^ bit_len n = 2 ^ 53 * 2 ^ e" "(2::nat) ^ (bit_len n - 1) = 2 ^ 52 * 2 ^ e"
    using assms by (simp_all only: e_def flip: power_add) (simp_all del: One_nat_def)
  have "(2::nat) ^ 52 \<le> n div 2 ^ e" using b unfolding len by (simp add: less_eq_div_iff_mult_less_eq)
  moreover have "n div 2 ^ e + 1 \<le> (2::nat) ^ 53"
    using b unfolding len by (simp add: less_mult_imp_div_less Suc_le_eq)
  ultimately have "(2::nat) ^ 52 * 2 ^ e \<le> n div 2 ^ e * 2 ^ e" "(n div 2 ^ e + 1) * 2 ^ e \<le> 2 ^ 53 * 2 ^ e"
    by (intro mult_le_mono1; simp)+
  with rounded_bounds [of n e] show ?thesis unfolding len e_def [symmetric] by linarith
qed

lemma round_nat_mono: "m \<le> n \<Longrightarrow> round_nat m \<le> round_nat n"
proof -
  assume le: "m \<le> n"
  note len = bit_len_mono [OF le]
  consider "bit_len n \<le> 53" | "bit_len m \<le> 53" "53 < bit_len n" | "53 < bit_len m" "bit_len m = bit_len n"
    | "53 < bit_len m" "bit_len m < bit_len n" using len by linarith
  then show ?thesis
  proof cases
    case 1
    with len le show ?thesis by (simp add: round_nat_rounded)
  next
    case 2
    have "m < 2 ^ bit_len m" using bit_len_bounds [of m] by (cases "m = 0") auto
    also have "(2::nat) ^ bit_len m \<le> 2 ^ (bit_len n - 1)" using 2 by simp
    finally show ?thesis using 2 rounded_within [of n] by (simp add: round_nat_rounded)
  next
    case 3
    with rounded_mono [OF le] show ?thesis by (simp add: round_nat_rounded)
  next
    case 4
    have "rounded (bit_len m - 53) m \<le> 2 ^ bit_len m" using rounded_within [of m] 4 by simp
    also have "(2::nat) ^ bit_len m \<le> 2 ^ (bit_len n - 1)" using 4 by simp
    finally show ?thesis using 4 rounded_within [of n] by (simp add: round_nat_rounded)
  qed
qed

lemma round_nat_exact: "n \<le> 2 ^ 53 \<Longrightarrow> round_nat n = n"
proof -
  assume le: "n \<le> 2 ^ 53"
  show ?thesis
  proof (cases "bit_len n \<le> 53")
    case False
    then have "0 < n" by (cases n) (simp_all add: bit_len.simps [of 0])
    from bit_len_bounds [OF this] have "2 ^ (bit_len n - 1) \<le> n" by blast
    moreover have "(2::nat) ^ 53 \<le> 2 ^ (bit_len n - 1)" using False by (intro power_increasing) auto
    ultimately have n: "n = 2 ^ 53" using le by linarith
    have "bit_len n - 1 \<le> 53" using \<open>2 ^ (bit_len n - 1) \<le> n\<close> unfolding n by (rule power_le_imp_le_exp [rotated]) simp
    with False have "bit_len n = 54" by linarith
    then show ?thesis by (simp add: round_nat_rounded rounded_def n)
  qed (simp add: round_nat_rounded)
qed

lemma bit_len_eq:
  assumes "2 ^ k \<le> n" and "n < 2 ^ Suc k"
  shows "bit_len n = Suc k"
proof -
  have "0 < n" using assms(1) by (metis less_le_trans zero_less_numeral zero_less_power)
  from bit_len_bounds [OF this] have "(2::nat) ^ (bit_len n - 1) < 2 ^ Suc k" "(2::nat) ^ k < 2 ^ bit_len n"
    using assms by linarith+
  then have "bit_len n - 1 < Suc k" "k < bit_len n" by (simp_all only: power_strict_increasing_iff [of "2::nat"] one_less_numeral_iff semiring_norm)
  then show ?thesis by linarith
qed

lemma round_ties: "round_nat (2 ^ 53 + 1) = 2 ^ 53"
  using bit_len_eq [of 53 "2 ^ 53 + 1"] by (simp add: round_nat_rounded rounded_def)

lemma float_of_int_mono: "a \<le> b \<Longrightarrow> float_of_int a \<le> float_of_int b"
  using round_nat_mono [of "nat (- b)" "nat (- a)"] round_nat_mono [of "nat a" "nat b"]
  by (auto simp: float_of_int_def)

lemma float_of_int_exact: "\<bar>a\<bar> \<le> 2 ^ 53 \<Longrightarrow> float_of_int a = a"
  by (auto simp: float_of_int_def round_nat_exact nat_le_iff)

text \<open>
  Numeric filters compare after rounding to float64 and err on one side only. A strict comparison
  that matches holds of the integers, a weak one that holds of the integers matches, and up to 2^53 in
  magnitude both are exact; above, two integers that round to the same number count as equal.
\<close>

theorem numeric_filters_round:
  "(compare_values (VInt a) (VMap [(''$gt'', VInt b)]) \<longrightarrow> a > b) \<and>
   (compare_values (VInt a) (VMap [(''$lt'', VInt b)]) \<longrightarrow> a < b) \<and>
   (a \<ge> b \<longrightarrow> compare_values (VInt a) (VMap [(''$gte'', VInt b)])) \<and>
   (a \<le> b \<longrightarrow> compare_values (VInt a) (VMap [(''$lte'', VInt b)])) \<and>
   (\<bar>a\<bar> \<le> 2 ^ 53 \<and> \<bar>b\<bar> \<le> 2 ^ 53 \<longrightarrow>
      (compare_values (VInt a) (VMap [(''$gt'', VInt b)]) \<longleftrightarrow> a > b) \<and>
      (compare_values (VInt a) (VMap [(''$gte'', VInt b)]) \<longleftrightarrow> a \<ge> b)) \<and>
   compare_values (VInt (2 ^ 53)) (VMap [(''$gte'', VInt (2 ^ 53 + 1))])"
proof -
  have op: "compare_values (VInt x) (VMap [(k, VInt y)]) \<longleftrightarrow> apply_operator (VInt x) k (VInt y)" if "is_operator_key k" for x y k
    using that by (simp add: compare_values.simps)
  have keys: "is_operator_key ''$gt''" "is_operator_key ''$lt''" "is_operator_key ''$gte''" "is_operator_key ''$lte''"
    by (simp_all add: is_operator_key_def)
  note ops = op [OF keys(1)] op [OF keys(2)] op [OF keys(3)] op [OF keys(4)] apply_operator_def compare_floats_def to_float64_def
  have "nat (2 ^ 53 + 1) = 2 ^ 53 + 1" by simp
  then have "float_of_int (2 ^ 53) \<ge> float_of_int (2 ^ 53 + 1)"
    using round_ties float_of_int_exact [of "2 ^ 53"] by (simp add: float_of_int_def)
  then have "compare_values (VInt (2 ^ 53)) (VMap [(''$gte'', VInt (2 ^ 53 + 1))])" by (simp add: ops)
  moreover have "float_of_int a > float_of_int b \<longrightarrow> a > b" "float_of_int a < float_of_int b \<longrightarrow> a < b"
    using float_of_int_mono [of a b] float_of_int_mono [of b a] by linarith+
  ultimately show ?thesis
    using float_of_int_mono [of a b] float_of_int_mono [of b a] float_of_int_exact [of a] float_of_int_exact [of b]
    unfolding ops by simp
qed

lemma numeric_filters_round_witness:
  "compare_values (VInt 7) (VMap [(''$gte'', VInt 3)]) \<and> \<not> compare_values (VInt 3) (VMap [(''$gt'', VInt 7)])"
  using numeric_filters_round [of 7 3] numeric_filters_round [of 3 7] by simp

end
