(* ===== verification/FnTasks.thy ===== *)
theory FnTasks
  imports Complex_Main GraphBuilder MemorySaver
begin

section \<open>The functional API: tasks, futures and replay (langgraph/fn)\<close>

text \<open>
  An entrypoint is a function that calls tasks and asks for input; it runs as the one node of a graph.
  A run gives every call an identity, keeps the outcomes of the calls, and stores them beside the
  checkpoint the run leaves, so that a resumed run answers a finished call from its stored outcome.

  User code is what it does that the package sees (\<open>fn_prog\<close>): it returns, fails, panics, asks
  (\<open>graph.Interrupt\<close>), calls a task, or waits for a future. A task's body is the program its function
  becomes at one call, one per attempt. The goroutine of a call is run to its end at the call, one of
  the schedules the code has; a future is named by the path and the index of its call. Timeouts, and
  the values a task hands out when it fails, are left out. Cancellation is an argument: whether the
  run had ended when an attempt failed, and during the wait after it.
\<close>

subsection \<open>User code\<close>

type_synonym handle = "string \<times> nat"

record fn_task =
  ft_name :: string
  ft_retry :: "retry_policy option"
  ft_cache :: "cache_policy option"
  ft_is_out :: "gval \<Rightarrow> bool"

datatype fn_prog =
    FReturn gval
  | FFail goerr
  | FPanic string
  | FAsk gval "gstate option" "gval \<Rightarrow> fn_prog"
  | FCall fn_task gval "nat \<Rightarrow> fn_prog" "handle \<Rightarrow> fn_prog"
  | FGet handle "goerr + gval \<Rightarrow> fn_prog"

datatype fn_outcome =
    FoReturned gval
  | FoFailed goerr
  | FoPanicked string
  | FoInterrupted gintr

text \<open>A resolved future (\<open>Future\<close>): a value, an error, or the interrupt its task raised.\<close>

datatype future = FutVal gval | FutErr goerr | FutIntr gintr

text \<open>\<open>AwaitAll\<close> is user-level code over \<open>Get\<close>.\<close>

fun await_all :: "handle list \<Rightarrow> (goerr + gval list \<Rightarrow> fn_prog) \<Rightarrow> fn_prog" where
  "await_all [] k = k (Inr [])"
| "await_all (h # hs) k =
     FGet h (\<lambda>r. case r of Inl e \<Rightarrow> k (Inl e) | Inr v \<Rightarrow> await_all hs (\<lambda>rs. k (map_sum id (Cons v) rs)))"

subsection \<open>The dispatcher (dispatcher.go)\<close>

text \<open>An outcome of a call; \<open>tr_err\<close> is the error text, \<open>None\<close> for a value.\<close>

record fn_result =
  tr_name :: string
  tr_parent :: string
  tr_idx :: nat
  tr_value :: gval
  tr_err :: "string option"
  tr_consumed :: int

record dispatcher =
  ds_counts :: "nat gomap"
  ds_replay :: "cp_write gomap option"
  ds_consumed :: "int gomap"
  ds_cp :: string
  ds_ns :: string
  ds_step :: int
  ds_cache :: "write_cache option"
  ds_retry :: "retry_policy option"
  ds_results :: "fn_result list"
  ds_sealed :: bool

definition new_dispatcher :: "write_cache option \<Rightarrow> dispatcher" where
  "new_dispatcher cache =
     \<lparr>ds_counts = [], ds_replay = None, ds_consumed = [], ds_cp = [], ds_ns = [], ds_step = 0,
      ds_cache = cache, ds_retry = None, ds_results = [], ds_sealed = False\<rparr>"

definition next_call_idx :: "string \<Rightarrow> dispatcher \<Rightarrow> nat \<times> dispatcher" where
  "next_call_idx parent d =
     (let idx = mgetd (ds_counts d) parent 0 in (idx, d\<lparr>ds_counts := mput parent (idx + 1) (ds_counts d)\<rparr>))"

definition record_result :: "fn_result \<Rightarrow> dispatcher \<Rightarrow> dispatcher" where
  "record_result r d = (if ds_sealed d then d else d\<lparr>ds_results := ds_results d @ [r]\<rparr>)"

definition seal :: "dispatcher \<Rightarrow> dispatcher" where
  "seal d = d\<lparr>ds_sealed := True\<rparr>"

definition snapshot_results :: "dispatcher \<Rightarrow> fn_result list" where
  "snapshot_results d = ds_results d"

definition replay_write :: "string \<Rightarrow> dispatcher \<Rightarrow> cp_write option" where
  "replay_write tid d = Option.bind (ds_replay d) (\<lambda>m. map_of m tid)"

definition replay_consumed :: "string \<Rightarrow> dispatcher \<Rightarrow> int" where
  "replay_consumed tid d = mgetd (ds_consumed d) tid 0"

text \<open>The replay tables: of several writes of one task the last one counts.\<close>

definition is_outcome_write :: "cp_write \<Rightarrow> bool" where
  "is_outcome_write w \<longleftrightarrow> w_channel w = reserved_return \<or> w_channel w = reserved_error"

definition load_write :: "cp_write \<Rightarrow> cp_write gomap \<times> int gomap \<Rightarrow> cp_write gomap \<times> int gomap" where
  "load_write w tabs =
     (case tabs of (replay, consumed) \<Rightarrow>
        if is_outcome_write w then (mput (w_task w) w replay, consumed)
        else if w_channel w = reserved_fn_consumed then
          (replay, case w_value w of VInt i \<Rightarrow> mput (w_task w) i consumed | _ \<Rightarrow> consumed)
        else tabs)"

definition load_replay_tuple :: "cp_tuple \<Rightarrow> dispatcher \<Rightarrow> dispatcher" where
  "load_replay_tuple tup d =
     (case fold load_write (tup_writes tup) ([], []) of
        (replay, consumed) \<Rightarrow>
          d\<lparr>ds_replay := Some replay, ds_consumed := consumed, ds_cp := cp_id (tup_checkpoint tup),
            ds_ns := cfg_ns (tup_config tup), ds_step := md_step (tup_metadata tup)\<rparr>)"

definition load_replay :: "cp_tuple \<Rightarrow> gval \<Rightarrow> dispatcher \<Rightarrow> dispatcher" where
  "load_replay tup resume d =
     (if resume \<noteq> VNil \<and> cp_next (tup_checkpoint tup) \<noteq> []
         \<or> md_source (tup_metadata tup) = ''input'' \<and> list_ex is_outcome_write (tup_writes tup)
      then load_replay_tuple tup d else d)"

subsection \<open>Calling a task (task.go)\<close>

record fn_state =
  fs_disp :: dispatcher
  fs_intr :: interrupt_state
  fs_futs :: "handle \<Rightarrow> future option"

text \<open>
  What a run's surroundings decide: the times at which a call reads and writes the cache, the default
  cache key (a hash of the JSON text), and cancellation, per path and attempt.
\<close>

record fn_env =
  fe_lookup_time :: "handle \<Rightarrow> int"
  fe_store_time :: "handle \<Rightarrow> int"
  fe_default_key :: "gstate \<Rightarrow> goerr + cache_key"
  fe_ended :: "string \<Rightarrow> nat \<Rightarrow> bool"
  fe_cut :: "string \<Rightarrow> nat \<Rightarrow> bool"

definition value_result :: "fn_task \<Rightarrow> handle \<Rightarrow> gval \<Rightarrow> int \<Rightarrow> fn_result" where
  "value_result t h v consumed =
     \<lparr>tr_name = ft_name t, tr_parent = fst h, tr_idx = snd h, tr_value = v, tr_err = None, tr_consumed = consumed\<rparr>"

definition error_result :: "fn_task \<Rightarrow> handle \<Rightarrow> string \<Rightarrow> int \<Rightarrow> fn_result" where
  "error_result t h msg consumed =
     \<lparr>tr_name = ft_name t, tr_parent = fst h, tr_idx = snd h, tr_value = VNil, tr_err = Some msg, tr_consumed = consumed\<rparr>"

definition fn_cache_ns :: "string \<Rightarrow> string" where
  "fn_cache_ns name = ''__fn_writes/'' @ name"

text \<open>
  A replayed call does not run its task: the answers the task had taken are skipped, its outcome is
  the future and is a result of this run as well.
\<close>

definition add_result :: "fn_result \<Rightarrow> fn_state \<Rightarrow> fn_state" where
  "add_result r st = st\<lparr>fs_disp := record_result r (fs_disp st)\<rparr>"

definition replayed_call :: "fn_task \<Rightarrow> handle \<Rightarrow> cp_write \<Rightarrow> int \<Rightarrow> fn_state \<Rightarrow> fn_state \<times> future" where
  "replayed_call t h w consumed st0 =
     (let st = st0\<lparr>fs_intr := replay_interrupt_consumption consumed (fs_intr st0)\<rparr>
      in if w_channel w = reserved_return then
           (if ft_is_out t (w_value w) then (add_result (value_result t h (w_value w) consumed) st, FutVal (w_value w))
            else let e = EText (''fn: replayed result of task '' @ go_quote (ft_name t) @ '' has type ''
                                @ go_type (w_value w) @ '', want the declared output type'')
                 in (add_result (error_result t h (err_text e) 0) st, FutErr e))
         else if w_channel w = reserved_error then
           (let msg = (case w_value w of VStr m \<Rightarrow> m | v \<Rightarrow> go_show v)
            in (add_result (error_result t h msg consumed) st, FutErr (EText msg)))
         else (st, FutErr (EText (''fn: replayed write of task '' @ go_quote (ft_name t) @ '' has unexpected channel ''
                                  @ go_quote (w_channel w)))))"

definition fn_cache_key :: "fn_env \<Rightarrow> fn_task \<Rightarrow> cache_policy \<Rightarrow> gval \<Rightarrow> goerr + cache_key" where
  "fn_cache_key env t p input =
     (case (case pol_key_func p of None \<Rightarrow> fe_default_key env | Some f \<Rightarrow> f) [(''input'', input)] of
        Inl e \<Rightarrow> Inl (EWrap (''fn: task '' @ go_quote (ft_name t) @ '' cache key'') e)
      | Inr k \<Rightarrow> Inr k)"

definition fn_cache_place :: "fn_task \<Rightarrow> cache_key \<Rightarrow> string" where
  "fn_cache_place t k = (if ck_namespace k \<noteq> [] then join_with ''/'' (ck_namespace k) else fn_cache_ns (ft_name t))"

definition cached_call ::
  "fn_env \<Rightarrow> fn_task \<Rightarrow> cache_policy \<Rightarrow> write_cache \<Rightarrow> handle \<Rightarrow> gval \<Rightarrow> dispatcher \<Rightarrow> dispatcher \<times> (cache_key + future)" where
  "cached_call env t p c h input d =
     (case fn_cache_key env t p input of
        Inl e \<Rightarrow> (record_result (error_result t h (err_text e) 0) d, Inr (FutErr e))
      | Inr k \<Rightarrow>
          (case cache_get (fe_lookup_time env h) (fn_cache_place t k) (ck_key k) c of
             (c', hit) \<Rightarrow>
               (let d' = d\<lparr>ds_cache := Some c'\<rparr>
                in case hit of
                     Some (w # _) \<Rightarrow>
                       (if w_channel w \<noteq> reserved_return then (d', Inl k)
                        else if ft_is_out t (w_value w) then
                          (record_result (value_result t h (w_value w) 0) d', Inr (FutVal (w_value w)))
                        else let e = EText (''fn: cached result of task '' @ go_quote (ft_name t) @ '' has type ''
                                            @ go_type (w_value w) @ '', want the declared output type'')
                             in (record_result (error_result t h (err_text e) 0) d', Inr (FutErr e)))
                   | _ \<Rightarrow> (d', Inl k))))"

definition fn_cache_store :: "fn_env \<Rightarrow> fn_task \<Rightarrow> handle \<Rightarrow> cache_key option \<Rightarrow> gval \<Rightarrow> dispatcher \<Rightarrow> dispatcher" where
  "fn_cache_store env t h key v d =
     (case (ft_cache t, ds_cache d, key) of
        (Some p, Some c, Some k) \<Rightarrow>
          d\<lparr>ds_cache := Some (cache_set (fe_store_time env h) (fn_cache_place t k) (ck_key k)
              [\<lparr>w_task = [], w_path = [], w_channel = reserved_return, w_value = v\<rparr>]
              (if ck_ttl k \<noteq> 0 then ck_ttl k else pol_ttl p) c)\<rparr>
      | _ \<Rightarrow> d)"

definition clear_cache :: "fn_task \<Rightarrow> write_cache \<Rightarrow> write_cache" where
  "clear_cache t c = (case ft_cache t of None \<Rightarrow> c | Some _ \<Rightarrow> cache_clear (fn_cache_ns (ft_name t)) c)"

text \<open>An attempt: a panic is an error, an interrupt passes through.\<close>

definition call_safely :: "fn_task \<Rightarrow> fn_outcome \<Rightarrow> gintr + goerr + gval" where
  "call_safely t oc =
     (case oc of
        FoReturned v \<Rightarrow> Inr (Inr v)
      | FoFailed e \<Rightarrow> Inr (Inl e)
      | FoPanicked m \<Rightarrow> Inr (Inl (EText (''fn: task '' @ go_quote (ft_name t) @ '' panicked: '' @ m)))
      | FoInterrupted g \<Rightarrow> Inl g)"

datatype attempts_end = AIntr gintr | AValue gval | AError goerr | AGivenUp goerr

function run_attempts ::
  "fn_env \<Rightarrow> fn_task \<Rightarrow> retry_policy option \<Rightarrow> string \<Rightarrow> (nat \<Rightarrow> fn_state \<Rightarrow> fn_state \<times> fn_outcome) \<Rightarrow> nat \<Rightarrow> fn_state
    \<Rightarrow> fn_state \<times> attempts_end" where
  "run_attempts env t retry path run attempt st =
     (case run attempt st of
        (st', oc) \<Rightarrow>
          (case call_safely t oc of
             Inl g \<Rightarrow> (st', AIntr g)
           | Inr (Inr v) \<Rightarrow> (st', AValue v)
           | Inr (Inl e) \<Rightarrow>
               (if fe_ended env path attempt then (st', AGivenUp e)
                else if \<not> may_retry retry attempt e then (st', AError e)
                else if fe_cut env path attempt then (st', AGivenUp ECanceled)
                else run_attempts env t retry path run (Suc attempt) st')))"
  by pat_completeness auto

termination
  by (relation "measure (\<lambda>(env, t, retry, path, run, attempt, st).
        case retry of None \<Rightarrow> 0 | Some p \<Rightarrow> nat (rp_max_attempts p - int attempt))")
    (auto simp: may_retry_def split: option.splits)

declare run_attempts.simps [simp del]

definition call_path :: "fn_task \<Rightarrow> handle \<Rightarrow> string" where
  "call_path t h =
     (let own = ft_name t @ ''@'' @ show_nat (snd h) in if fst h \<noteq> [] then fst h @ ''/'' @ own else own)"

definition start_task ::
  "fn_env \<Rightarrow> fn_task \<Rightarrow> handle \<Rightarrow> cache_key option \<Rightarrow> (nat \<Rightarrow> string \<Rightarrow> fn_state \<Rightarrow> fn_state \<times> fn_outcome) \<Rightarrow> fn_state
    \<Rightarrow> fn_state \<times> future" where
  "start_task env t h key run st =
     (let path = call_path t h;
          retry = (case ft_retry t of Some p \<Rightarrow> Some (with_defaults p) | None \<Rightarrow> ds_retry (fs_disp st));
          consumed = (\<lambda>st'. int (is_idx (fs_intr st')) - int (is_idx (fs_intr st)))
      in case run_attempts env t retry path (\<lambda>n. run n path) 1 st of
           (st', AIntr g) \<Rightarrow> (st', FutIntr g)
         | (st', AValue v) \<Rightarrow>
             (st'\<lparr>fs_disp := record_result (value_result t h v (consumed st')) (fn_cache_store env t h key v (fs_disp st'))\<rparr>,
              FutVal v)
         | (st', AError e) \<Rightarrow>
             (st'\<lparr>fs_disp := record_result (error_result t h (err_text e) (consumed st')) (fs_disp st')\<rparr>, FutErr e)
         | (st', AGivenUp e) \<Rightarrow> (st', FutErr e))"

text \<open>\<open>Task.Call\<close>: the stored outcome, else the cached one, else the task runs.\<close>

definition call_id :: "dispatcher \<Rightarrow> fn_task \<Rightarrow> handle \<Rightarrow> string" where
  "call_id d t h = fn_task_id (ds_cp d) (ds_ns d) (ds_step d) (ft_name t) (fst h) (int (snd h))"

definition answer_call ::
  "fn_env \<Rightarrow> fn_task \<Rightarrow> handle \<Rightarrow> gval \<Rightarrow> (nat \<Rightarrow> string \<Rightarrow> fn_state \<Rightarrow> fn_state \<times> fn_outcome) \<Rightarrow> fn_state
    \<Rightarrow> fn_state \<times> future" where
  "answer_call env t h input run st =
     (let d = fs_disp st
      in case replay_write (call_id d t h) d of
           Some w \<Rightarrow> replayed_call t h w (replay_consumed (call_id d t h) d) st
         | None \<Rightarrow>
             (case (ft_cache t, ds_cache d) of
                (Some p, Some c) \<Rightarrow>
                  (case cached_call env t p c h input d of
                     (d', Inr f) \<Rightarrow> (st\<lparr>fs_disp := d'\<rparr>, f)
                   | (d', Inl k) \<Rightarrow> start_task env t h (Some k) run (st\<lparr>fs_disp := d'\<rparr>))
              | _ \<Rightarrow> start_task env t h None run st))"

definition call_task ::
  "fn_env \<Rightarrow> fn_task \<Rightarrow> string \<Rightarrow> gval \<Rightarrow> (nat \<Rightarrow> string \<Rightarrow> fn_state \<Rightarrow> fn_state \<times> fn_outcome) \<Rightarrow> fn_state
    \<Rightarrow> fn_state \<times> handle" where
  "call_task env t parent input run st =
     (case next_call_idx parent (fs_disp st) of
        (idx, d) \<Rightarrow>
          (case answer_call env t (parent, idx) input run (st\<lparr>fs_disp := d\<rparr>) of
             (st', f) \<Rightarrow> (st'\<lparr>fs_futs := (fs_futs st')((parent, idx) \<mapsto> f)\<rparr>, (parent, idx))))"

text \<open>Running user code at a call path.\<close>

primrec fn_exec :: "fn_env \<Rightarrow> fn_prog \<Rightarrow> string \<Rightarrow> fn_state \<Rightarrow> fn_state \<times> fn_outcome" where
  "fn_exec env (FReturn v) path st = (st, FoReturned v)"
| "fn_exec env (FFail e) path st = (st, FoFailed e)"
| "fn_exec env (FPanic m) path st = (st, FoPanicked m)"
| "fn_exec env (FAsk v schema k) path st =
     (case interrupt_call v schema (fs_intr st) of
        (i, Inr a) \<Rightarrow> fn_exec env (k a) path (st\<lparr>fs_intr := i\<rparr>)
      | (i, Inl g) \<Rightarrow> (st\<lparr>fs_intr := i\<rparr>, FoInterrupted g))"
| "fn_exec env (FCall t input body k) path st =
     (case call_task env t path input (\<lambda>n. fn_exec env (body n)) st of
        (st', h) \<Rightarrow> fn_exec env (k h) path st')"
| "fn_exec env (FGet h k) path st =
     (case fs_futs st h of
        None \<Rightarrow> (st, FoPanicked ''runtime error: invalid memory address or nil pointer dereference'')
      | Some (FutVal v) \<Rightarrow> fn_exec env (k (Inr v)) path st
      | Some (FutErr e) \<Rightarrow> fn_exec env (k (Inl e)) path st
      | Some (FutIntr g) \<Rightarrow> (st, FoInterrupted g))"

subsection \<open>Persisting the results of a run (entrypoint.go)\<close>

definition result_id :: "cp_tuple \<Rightarrow> fn_result \<Rightarrow> string" where
  "result_id tup r =
     fn_task_id (cp_id (tup_checkpoint tup)) (cfg_ns (tup_config tup)) (md_step (tup_metadata tup))
       (tr_name r) (tr_parent r) (int (tr_idx r))"

definition plain_write :: "string \<Rightarrow> gval \<Rightarrow> cp_write" where
  "plain_write ch v = \<lparr>w_task = [], w_path = [], w_channel = ch, w_value = v\<rparr>"

definition result_writes :: "fn_result \<Rightarrow> cp_write list" where
  "result_writes r =
     (case tr_err r of
        None \<Rightarrow> plain_write reserved_return (tr_value r)
      | Some msg \<Rightarrow> plain_write reserved_error (VStr msg))
     # (if tr_consumed r > 0 then [plain_write reserved_fn_consumed (VInt (tr_consumed r))] else [])"

fun put_results :: "cp_tuple \<Rightarrow> fn_result list \<Rightarrow> memory_saver \<Rightarrow> memory_saver \<times> (goerr + unit)" where
  "put_results tup [] s = (s, Inr ())"
| "put_results tup (r # rs) s =
     (case ms_put_writes s (tup_config tup) (result_writes r) (result_id tup r) (tr_parent r) of
        (s', Inl e) \<Rightarrow> (s', Inl e)
      | (s', Inr _) \<Rightarrow> put_results tup rs s')"

text \<open>
  An entrypoint: its backends and policies, the assertions on the types of its input, its save value and
  its result, its function (per attempt, from the input and the previous save value), and the value and
  the save value of what the function returned: the same twice for \<open>NewEntrypoint\<close>, the two fields of
  the \<open>Final\<close> for \<open>NewEntrypointFinal\<close>.
\<close>

record entrypoint =
  en_checkpointer :: bool
  en_cache :: "write_cache option"
  en_retry :: "retry_policy option"
  en_cache_policy :: "cache_policy option"
  en_timeout :: "timeout_policy option"
  en_schema :: "(gval \<Rightarrow> goerr option) option"
  en_is_in :: "gval \<Rightarrow> bool"
  en_is_save :: "gval \<Rightarrow> bool"
  en_is_out :: "gval \<Rightarrow> bool"
  en_fn :: "nat \<Rightarrow> gval \<Rightarrow> gval option \<Rightarrow> fn_prog"
  en_split :: "gval \<Rightarrow> gval \<times> gval"

definition channel_start :: string where "channel_start = ''__start__''"
definition channel_end :: string where "channel_end = ''__end__''"
definition channel_previous :: string where "channel_previous = ''__previous__''"
definition entrypoint_node :: string where "entrypoint_node = ''entrypoint''"

definition validate_entrypoint_context :: "(gval \<Rightarrow> goerr option) option \<Rightarrow> gval \<Rightarrow> goerr option" where
  "validate_entrypoint_context schema ctx =
     (case schema of
        None \<Rightarrow> None
      | Some f \<Rightarrow> map_option (EWrap ''fn: entrypoint context_schema validation'') (f ctx))"

definition entrypoint_input :: "entrypoint \<Rightarrow> gstate \<Rightarrow> goerr + gval \<times> gval option" where
  "entrypoint_input ep state =
     (case map_of state channel_start of
        None \<Rightarrow> Inl (EText (''fn: entrypoint state is missing the '' @ go_quote channel_start @ '' channel''))
      | Some input \<Rightarrow>
          (if \<not> en_is_in ep input then
             Inl (EText (''fn: entrypoint input has type '' @ go_type input @ '', want the declared input type''))
           else case map_of state channel_previous of
                  None \<Rightarrow> Inr (input, None)
                | Some p \<Rightarrow>
                    (if en_is_save ep p then Inr (input, Some p)
                     else Inl (EText (''fn: previous value has type '' @ go_type p @ '', want the declared save type ''
                       @ ''(plain NewEntrypoint requires the return type to be assignable to the save type; ''
                       @ ''use NewEntrypointFinal to decouple them)'')))))"

text \<open>
  The node of an entrypoint, as a node attempt sees it: an interrupt reports the answers taken from the
  queue, and slicing a queue the cursor has passed panics; a panic of the function leaves the run.
\<close>

datatype node_end = NodeDone node_outcome | NodePanic string

definition entry_update :: "entrypoint \<Rightarrow> gval \<Rightarrow> gstate" where
  "entry_update ep v = [(channel_end, fst (en_split ep v)), (channel_previous, snd (en_split ep v))]"

definition entry_node :: "entrypoint \<Rightarrow> fn_env \<Rightarrow> gval \<Rightarrow> nat \<Rightarrow> gstate \<Rightarrow> fn_state \<Rightarrow> fn_state \<times> node_end" where
  "entry_node ep env ctx attempt state st =
     (case validate_entrypoint_context (en_schema ep) ctx of
        Some e \<Rightarrow> (st, NodeDone (Failed e))
      | None \<Rightarrow>
          (case entrypoint_input ep state of
             Inl e \<Rightarrow> (st, NodeDone (Failed e))
           | Inr (input, prev) \<Rightarrow>
               (case fn_exec env (en_fn ep attempt input prev) [] st of
                  (st', FoReturned v) \<Rightarrow> (st', NodeDone (Returned (RState (entry_update ep v))))
                | (st', FoFailed e) \<Rightarrow> (st', NodeDone (Failed e))
                | (st', FoPanicked m) \<Rightarrow> (st', NodePanic m)
                | (st', FoInterrupted g) \<Rightarrow>
                    (let i = fs_intr st'
                     in (st', if is_idx i \<le> length (is_queue i) then NodeDone (Interrupted [g] (take (is_idx i) (is_queue i)))
                              else NodePanic ''runtime error: slice bounds out of range'')))))"

definition start_fn :: "dispatcher \<Rightarrow> gval list \<Rightarrow> string \<Rightarrow> string \<Rightarrow> fn_state" where
  "start_fn d queue node ns =
     \<lparr>fs_disp = d, fs_intr = \<lparr>is_queue = queue, is_idx = 0, is_counter = 0, is_node = node, is_ns = ns\<rparr>, fs_futs = (\<lambda>_. None)\<rparr>"

text \<open>The graph of an entrypoint; \<open>node_fn\<close> stands for the node above.\<close>

definition compile_entrypoint :: "entrypoint \<Rightarrow> node_fun \<Rightarrow> goerr + compiled_graph" where
  "compile_entrypoint ep node_fn =
     (let g = add_edge entrypoint_node end_node (set_entry_point entrypoint_node
                (add_node_with_policies entrypoint_node (Some node_fn)
                  (no_policies\<lparr>np_cache := en_cache_policy ep, np_timeout := en_timeout ep\<rparr>)
                (add_channel channel_previous (Some (CLast new_last_value))
                (add_channel channel_end (Some (CLast new_last_value))
                (add_channel channel_start (Some (CEphemeral (new_ephemeral True))) new_state_graph)))));
          copts = (if en_retry ep \<noteq> None then with_default_retry_policy (en_retry ep) default_options else default_options)
      in case compile g copts of
           Inl e \<Rightarrow> Inl (EWrap ''fn: entrypoint graph compile'' e)
         | Inr cg \<Rightarrow> Inr cg)"

text \<open>The dispatcher of a run, and the input batch with the previous save value.\<close>

definition run_dispatcher :: "entrypoint \<Rightarrow> dispatcher" where
  "run_dispatcher ep = (new_dispatcher (en_cache ep))\<lparr>ds_retry := map_option with_defaults (en_retry ep)\<rparr>"

definition prepare :: "entrypoint \<Rightarrow> memory_saver \<Rightarrow> string \<Rightarrow> string \<Rightarrow> gval \<Rightarrow> gval \<Rightarrow> gstate \<times> dispatcher" where
  "prepare ep s thread cpid resume input =
     (let d = run_dispatcher ep
      in case (if en_checkpointer ep \<and> thread \<noteq> []
               then ms_get_tuple s \<lparr>cfg_thread = thread, cfg_ns = [], cfg_id = cpid\<rparr> else None) of
           None \<Rightarrow> ([(channel_start, input)], d)
         | Some tup \<Rightarrow>
             ((case (resume = VNil, map_of (cp_values (tup_checkpoint tup)) channel_previous) of
                 (True, Some p) \<Rightarrow> [(channel_start, input), (channel_previous, p)]
               | _ \<Rightarrow> [(channel_start, input)]),
              load_replay tup resume d))"

definition persist_results :: "entrypoint \<Rightarrow> string \<Rightarrow> dispatcher \<Rightarrow> memory_saver \<Rightarrow> memory_saver \<times> (goerr + unit)" where
  "persist_results ep thread d s =
     (if \<not> en_checkpointer ep \<or> thread = [] \<or> snapshot_results d = [] then (s, Inr ())
      else case ms_get_tuple s \<lparr>cfg_thread = thread, cfg_ns = [], cfg_id = []\<rparr> of
             None \<Rightarrow> (s, Inr ())
           | Some tup \<Rightarrow> put_results tup (snapshot_results d) s)"

text \<open>
  \<open>Invoke\<close> around the run of its graph, which is an argument: what it leaves of the saver and the
  dispatcher, and its error or its interrupts and channel values.
\<close>

datatype invoke_end = InvokeFailed goerr | InvokePaused "gintr list" | InvokeReturned gval

definition invoke_entrypoint ::
  "(gstate \<Rightarrow> memory_saver \<Rightarrow> dispatcher \<Rightarrow> memory_saver \<times> dispatcher \<times> (goerr + gintr list \<times> gstate)) \<Rightarrow> entrypoint
    \<Rightarrow> memory_saver \<Rightarrow> string \<Rightarrow> string \<Rightarrow> gval \<Rightarrow> gval \<Rightarrow> memory_saver \<times> invoke_end" where
  "invoke_entrypoint graph_run ep s thread cpid resume input =
     (case prepare ep s thread cpid resume input of
        (batch, d) \<Rightarrow>
          (case graph_run batch s d of
             (s1, d1, res) \<Rightarrow>
               (case persist_results ep thread (seal d1) s1 of
                  (s2, perr) \<Rightarrow>
                    (s2, case res of
                       Inl e \<Rightarrow> InvokeFailed e
                     | Inr (intrs, vals) \<Rightarrow>
                         (case perr of
                            Inl e \<Rightarrow> InvokeFailed (EWrap ''fn: persisting task results'' e)
                          | Inr _ \<Rightarrow>
                              (if intrs \<noteq> [] then InvokePaused intrs
                               else let v = mgetd vals channel_end VNil
                                    in if en_is_out ep v then InvokeReturned v
                                       else InvokeFailed (EText (''fn: entrypoint returned a value of type '' @ go_type v
                                              @ '', want the declared output type''))))))))"

text \<open>An entrypoint that runs as a node of another graph brings its own dispatcher.\<close>

definition tuple_has_fn_writes :: "cp_tuple \<Rightarrow> bool" where
  "tuple_has_fn_writes tup \<longleftrightarrow> list_ex is_outcome_write (tup_writes tup)"

definition load_run_replay :: "memory_saver \<Rightarrow> config \<Rightarrow> dispatcher \<Rightarrow> dispatcher" where
  "load_run_replay s cfg d =
     (case ms_get_tuple s cfg of
        None \<Rightarrow> d
      | Some tup \<Rightarrow>
          (case (if \<not> tuple_has_fn_writes tup then (case tup_parent tup of None \<Rightarrow> Some tup | Some p \<Rightarrow> ms_get_tuple s p)
                 else Some tup) of
             None \<Rightarrow> d
           | Some tup' \<Rightarrow> (if tuple_has_fn_writes tup' then load_replay_tuple tup' d else d)))"

definition persist_run_results :: "config \<Rightarrow> dispatcher \<Rightarrow> memory_saver \<Rightarrow> memory_saver \<times> (goerr + unit)" where
  "persist_run_results cfg d s =
     (if snapshot_results d = [] then (s, Inr ())
      else case ms_get_tuple s (cfg\<lparr>cfg_id := []\<rparr>) of
             None \<Rightarrow> (s, Inr ())
           | Some tup \<Rightarrow> put_results tup (snapshot_results d) s)"

definition run_with_bootstrap_dispatcher ::
  "entrypoint \<Rightarrow> fn_env \<Rightarrow> gval \<Rightarrow> nat \<Rightarrow> gstate \<Rightarrow> config \<Rightarrow> gval list \<Rightarrow> string \<Rightarrow> string \<Rightarrow> memory_saver
    \<Rightarrow> memory_saver \<times> node_end" where
  "run_with_bootstrap_dispatcher ep env ctx attempt state cfg queue node ns s =
     (let durable = en_checkpointer ep \<and> cfg_thread cfg \<noteq> [];
          d = (if durable then load_run_replay s cfg (run_dispatcher ep) else run_dispatcher ep)
      in case entry_node ep env ctx attempt state (start_fn d queue node ns) of
           (st, res) \<Rightarrow>
             (case (if durable then persist_run_results cfg (seal (fs_disp st)) s else (s, Inr ())) of
                (s', perr) \<Rightarrow>
                  (s', case (res, perr) of
                     (NodeDone (Returned _), Inl e) \<Rightarrow> NodeDone (Failed e)
                   | _ \<Rightarrow> res)))"

subsection \<open>What running a task leaves alone\<close>

text \<open>
  A task runs under a longer path than its caller, so it neither counts calls, resolves futures nor
  records results under the caller's path. \<open>frame n\<close> is what everything under paths of length at
  least \<open>n\<close> preserves; \<open>adds n\<close> says which results it appends.
\<close>

definition frame :: "nat \<Rightarrow> fn_state \<Rightarrow> fn_state \<Rightarrow> bool" where
  "frame n st st' \<longleftrightarrow>
     (\<forall>s. length s < n \<longrightarrow> mgetd (ds_counts (fs_disp st')) s 0 = mgetd (ds_counts (fs_disp st)) s 0 \<and>
        (\<forall>i. fs_futs st' (s, i) = fs_futs st (s, i))) \<and>
     is_queue (fs_intr st') = is_queue (fs_intr st) \<and> is_node (fs_intr st') = is_node (fs_intr st) \<and>
     is_ns (fs_intr st') = is_ns (fs_intr st) \<and> is_idx (fs_intr st) \<le> is_idx (fs_intr st') \<and>
     ds_sealed (fs_disp st') = ds_sealed (fs_disp st)"

definition adds :: "nat \<Rightarrow> fn_state \<Rightarrow> fn_state \<Rightarrow> bool" where
  "adds n st st' \<longleftrightarrow>
     (\<exists>rs. ds_results (fs_disp st') = ds_results (fs_disp st) @ rs \<and> (\<forall>r \<in> set rs. n \<le> length (tr_parent r)))"

definition confined :: "nat \<Rightarrow> fn_state \<Rightarrow> fn_state \<Rightarrow> bool" where
  "confined n st st' \<longleftrightarrow> frame n st st' \<and> adds n st st'"

lemma adds_refl [simp]: "adds n st st"
  by (simp add: adds_def)

lemma adds_trans: "adds n a b \<Longrightarrow> adds n b c \<Longrightarrow> adds n a c"
  unfolding adds_def by fastforce

lemma adds_same: "ds_results (fs_disp b) = ds_results (fs_disp a) \<Longrightarrow> adds n a b"
  by (simp add: adds_def)

lemma frame_refl [simp]: "frame n st st"
  by (simp add: frame_def)

lemma frame_trans: "frame n a b \<Longrightarrow> frame n b c \<Longrightarrow> frame n a c"
  unfolding frame_def by simp

lemma confined_refl [simp]: "confined n st st"
  by (simp add: confined_def)

lemma confined_trans: "confined n a b \<Longrightarrow> confined n b c \<Longrightarrow> confined n a c"
  unfolding confined_def using frame_trans adds_trans by blast

lemma confined_mono: "confined n st st' \<Longrightarrow> m \<le> n \<Longrightarrow> confined m st st'"
  unfolding confined_def frame_def adds_def by (meson le_trans less_le_trans)

lemma length_call_path: "length (fst h) < length (call_path t h)"
  by (simp add: call_path_def Let_def)

lemma frame_record [simp]:
  "frame n st (st'\<lparr>fs_disp := record_result r d\<rparr>) = frame n st (st'\<lparr>fs_disp := d\<rparr>)"
  by (simp add: frame_def record_result_def)

lemma results_record [simp]:
  "ds_results (record_result r d) = (if ds_sealed d then ds_results d else ds_results d @ [r])"
  by (simp add: record_result_def)

lemma adds_record: "adds n a (b\<lparr>fs_disp := d\<rparr>) \<Longrightarrow> n \<le> length (tr_parent r) \<Longrightarrow> adds n a (b\<lparr>fs_disp := record_result r d\<rparr>)"
  by (auto simp: adds_def)

lemma confined_record:
  "confined n a (b\<lparr>fs_disp := d\<rparr>) \<Longrightarrow> n \<le> length (tr_parent r) \<Longrightarrow> confined n a (b\<lparr>fs_disp := record_result r d\<rparr>)"
  by (simp add: confined_def adds_record)

lemma result_parent [simp]:
  "tr_parent (value_result t h v c) = fst h" "tr_parent (error_result t h m c) = fst h"
  by (simp_all add: value_result_def error_result_def)

lemma run_attempts_confined:
  assumes "\<And>m st. confined n st (fst (run m st))"
  shows "confined n st (fst (run_attempts env t retry path run attempt st))"
  using assms
proof (induction env t retry path run attempt st rule: run_attempts.induct)
  case (1 env t retry path run attempt st)
  obtain st1 oc where run: "run attempt st = (st1, oc)" by fastforce
  then have first: "confined n st st1" using 1(2) [of st attempt] by simp
  have again: "confined n st1 (fst (run_attempts env t retry path run (Suc attempt) st1))"
    if "call_safely t oc = Inr (Inl e)" "\<not> fe_ended env path attempt" "may_retry retry attempt e" "\<not> fe_cut env path attempt" for e
    using 1(1) [OF run [symmetric] that(1) refl that(2) _ that(4)] that(3) 1(2) by blast
  show ?case
    using run first again
    by (subst run_attempts.simps) (auto split: sum.splits intro: confined_trans)
qed

lemma frame_cache [simp]: "frame n st (st'\<lparr>fs_disp := fn_cache_store env t h key v d\<rparr>) = frame n st (st'\<lparr>fs_disp := d\<rparr>)"
  by (simp add: frame_def fn_cache_store_def split: option.split)

lemma results_cache [simp]: "ds_results (fn_cache_store env t h key v d) = ds_results d"
  by (simp add: fn_cache_store_def split: option.split)

lemma start_task_frame:
  assumes "\<And>m path st. length (fst h) < length path \<Longrightarrow> confined (length path) st (fst (run m path st))"
  shows "frame (Suc (length (fst h))) st (fst (start_task env t h key run st)) \<and>
    adds (length (fst h)) st (fst (start_task env t h key run st))"
proof -
  let ?path = "call_path t h"
  let ?retry = "case ft_retry t of Some p \<Rightarrow> Some (with_defaults p) | None \<Rightarrow> ds_retry (fs_disp st)"
  obtain st1 e where attempts: "run_attempts env t ?retry ?path (\<lambda>n. run n ?path) 1 st = (st1, e)" by fastforce
  have "confined (length ?path) st (fst (run_attempts env t ?retry ?path (\<lambda>n. run n ?path) 1 st))"
    by (rule run_attempts_confined) (rule assms, rule length_call_path)
  then have "confined (Suc (length (fst h))) st st1"
    unfolding attempts fst_conv by (rule confined_mono) (use length_call_path [of h t] in simp)
  then have st1: "frame (Suc (length (fst h))) st st1" "adds (length (fst h)) st st1"
    using Suc_leD by (fastforce simp: confined_def adds_def)+
  have "adds (length (fst h)) st (st1\<lparr>fs_disp := fn_cache_store env t h key v (fs_disp st1)\<rparr>)" for v
    using st1(2) by (simp add: adds_def)
  then show ?thesis
    using attempts st1 by (auto simp: start_task_def Let_def split: attempts_end.split intro!: adds_record)
qed

lemma replayed_call_frame:
  "frame n st (fst (replayed_call t h w c st)) \<and> adds (length (fst h)) st (fst (replayed_call t h w c st))"
  by (auto simp: replayed_call_def Let_def add_result_def replay_interrupt_consumption_def frame_def adds_def record_result_def)

lemma cached_call_frame:
  "frame n st (st\<lparr>fs_disp := fst (cached_call env t p c h input (fs_disp st))\<rparr>) \<and>
   adds (length (fst h)) st (st\<lparr>fs_disp := fst (cached_call env t p c h input (fs_disp st))\<rparr>)"
  by (auto simp: cached_call_def Let_def frame_def adds_def record_result_def
      split: sum.split prod.split option.split list.split)

lemma answer_call_frame:
  assumes "\<And>m path st. length (fst h) < length path \<Longrightarrow> confined (length path) st (fst (run m path st))"
  shows "frame (Suc (length (fst h))) st (fst (answer_call env t h input run st)) \<and>
    adds (length (fst h)) st (fst (answer_call env t h input run st))"
proof -
  note start = start_task_frame [where h = h and run = run, OF assms]
  let ?d = "fs_disp st"
  show ?thesis
  proof (cases "replay_write (call_id ?d t h) ?d")
    case (Some w)
    then show ?thesis by (simp add: answer_call_def Let_def replayed_call_frame)
  next
    case None
    show ?thesis
    proof (cases "\<exists>p c. ft_cache t = Some p \<and> ds_cache ?d = Some c")
      case True
      then obtain p c where pc: "ft_cache t = Some p" "ds_cache ?d = Some c" by blast
      obtain d' res where call: "cached_call env t p c h input ?d = (d', res)" by fastforce
      have cached: "frame (Suc (length (fst h))) st (st\<lparr>fs_disp := d'\<rparr>)" "adds (length (fst h)) st (st\<lparr>fs_disp := d'\<rparr>)"
        using cached_call_frame [of "Suc (length (fst h))" st env t p c h input] call by simp_all
      then show ?thesis
        using None pc call start [where st = "st\<lparr>fs_disp := d'\<rparr>"]
        by (cases res) (auto simp: answer_call_def Let_def intro: frame_trans adds_trans)
    next
      case False
      then have "answer_call env t h input run st = start_task env t h None run st"
        using None by (auto simp: answer_call_def Let_def split: option.split)
      then show ?thesis using start by simp
    qed
  qed
qed

lemma call_task_frame:
  assumes "\<And>m path' st. length path < length path' \<Longrightarrow> confined (length path') st (fst (run m path' st))"
    and "call_task env t path input run st = (st', h)"
  shows "confined (length path) st st'" and "h = (path, mgetd (ds_counts (fs_disp st)) path 0)"
    and "mgetd (ds_counts (fs_disp st')) path 0 = Suc (snd h)"
    and "fst i = path \<Longrightarrow> i \<noteq> h \<Longrightarrow> fs_futs st' i = fs_futs st i"
proof -
  let ?idx = "mgetd (ds_counts (fs_disp st)) path 0"
  let ?st = "st\<lparr>fs_disp := (fs_disp st)\<lparr>ds_counts := mput path (?idx + 1) (ds_counts (fs_disp st))\<rparr>\<rparr>"
  obtain sta f where ans: "answer_call env t (path, ?idx) input run ?st = (sta, f)" by fastforce
  have st': "st' = sta\<lparr>fs_futs := (fs_futs sta)((path, ?idx) \<mapsto> f)\<rparr>" "h = (path, ?idx)"
    using assms(2) ans by (auto simp: call_task_def next_call_idx_def Let_def)
  have run: "\<And>m path' st. length (fst (path, ?idx)) < length path' \<Longrightarrow> confined (length path') st (fst (run m path' st))"
    using assms(1) by simp
  have f: "frame (Suc (length path)) ?st sta" "adds (length path) ?st sta"
    using answer_call_frame [where h = "(path, ?idx)" and run = run and env = env and t = t and input = input and st = ?st]
      run ans by simp_all
  from f show "confined (length path) st st'" unfolding confined_def
    by (auto simp: st' frame_def adds_def)
  show "h = (path, ?idx)" by (rule st'(2))
  from f(1) show "mgetd (ds_counts (fs_disp st')) path 0 = Suc (snd h)" by (simp add: st' frame_def)
  show "fs_futs st' i = fs_futs st i" if "fst i = path" "i \<noteq> h"
    using f(1) that by (cases i) (auto simp: st' frame_def)
qed

lemma fn_exec_confined: "confined (length path) st (fst (fn_exec env p path st))"
proof (induction p arbitrary: path st)
  case (FAsk v schema k)
  have "confined (length path) st (st\<lparr>fs_intr := i\<rparr>)" if "interrupt_call v schema (fs_intr st) = (i, r)" for i r
    using that by (auto simp: interrupt_call_def confined_def frame_def adds_def split: if_splits)
  with FAsk [of _ path] show ?case by (auto split: prod.split sum.split intro: confined_trans)
next
  case (FCall t input body k)
  obtain st' h where call: "call_task env t path input (\<lambda>n. fn_exec env (body n)) st = (st', h)"
    by (rule prod.exhaust)
  have "confined (length path) st st'" by (rule call_task_frame(1) [OF _ call]) (rule FCall(1), rule rangeI)
  with call FCall(2) [of "k h" path st'] show ?case by (simp add: confined_trans)
qed (auto split: option.split future.split)

subsection \<open>Replaying a run\<close>

text \<open>
  The steps a caller takes as long as nothing stops it: a question with an answer, a call that finished
  and left its outcome among the results of the run, a \<open>Get\<close> of a value, or of an error of which the
  caller uses no more than the text.
\<close>

definition own_results :: "string \<Rightarrow> fn_state \<Rightarrow> fn_result list" where
  "own_results path st = filter (\<lambda>r. tr_parent r = path) (ds_results (fs_disp st))"

definition finished :: "fn_task \<Rightarrow> string \<Rightarrow> fn_state \<Rightarrow> fn_state \<Rightarrow> handle \<Rightarrow> bool" where
  "finished t path st st' h \<longleftrightarrow>
     (\<exists>r c. 0 \<le> c \<and> int (is_idx (fs_intr st')) = int (is_idx (fs_intr st)) + c \<and> own_results path st' = own_results path st @ [r] \<and>
        ((\<exists>v. ft_is_out t v \<and> r = value_result t h v c \<and> fs_futs st' h = Some (FutVal v)) \<or>
         (\<exists>e. r = error_result t h (err_text e) c \<and> fs_futs st' h = Some (FutErr e))))"

inductive fn_step :: "fn_env \<Rightarrow> string \<Rightarrow> fn_prog \<times> fn_state \<Rightarrow> fn_prog \<times> fn_state \<Rightarrow> bool" for env path where
  asked: "interrupt_call v schema (fs_intr st) = (i, Inr a) \<Longrightarrow>
     fn_step env path (FAsk v schema k, st) (k a, st\<lparr>fs_intr := i\<rparr>)"
| called: "call_task env t path input (\<lambda>n. fn_exec env (body n)) st = (st', h) \<Longrightarrow> finished t path st st' h \<Longrightarrow>
     fn_step env path (FCall t input body k, st) (k h, st')"
| got: "fs_futs st (path, i) = Some (FutVal v) \<Longrightarrow> fn_step env path (FGet (path, i) k, st) (k (Inr v), st)"
| got_error: "fs_futs st (path, i) = Some (FutErr e) \<Longrightarrow> k (Inl e) = k (Inl (EText (err_text e))) \<Longrightarrow>
     fn_step env path (FGet (path, i) k, st) (k (Inl e), st)"

lemma fn_step_exec: "fn_step env path (p, st) (p', st') \<Longrightarrow> fn_exec env p path st = fn_exec env p' path st'"
  by (erule fn_step.cases) simp_all

lemma fn_steps_exec: "(fn_step env path)\<^sup>*\<^sup>* (p, st) (p', st') \<Longrightarrow> fn_exec env p path st = fn_exec env p' path st'"
  by (induction rule: rtranclp_induct2) (auto dest: fn_step_exec)

text \<open>A call that runs its task and gets a value finishes, so these steps reach every such call.\<close>

lemma run_call_finishes:
  assumes call: "call_task env t path input (\<lambda>n. fn_exec env (body n)) st = (st', h)"
    and "\<not> ds_sealed (fs_disp st)" and "ds_replay (fs_disp st) = None" and "ft_cache t = None"
    and "fs_futs st' h = Some (FutVal v)" and "ft_is_out t v"
  shows "finished t path st st' h"
proof -
  let ?run = "\<lambda>n. fn_exec env (body n)"
  let ?idx = "mgetd (ds_counts (fs_disp st)) path 0"
  let ?st = "st\<lparr>fs_disp := (fs_disp st)\<lparr>ds_counts := mput path (?idx + 1) (ds_counts (fs_disp st))\<rparr>\<rparr>"
  let ?h = "(path, ?idx)"
  let ?cp = "call_path t ?h"
  let ?retry = "case ft_retry t of Some p \<Rightarrow> Some (with_defaults p) | None \<Rightarrow> ds_retry (fs_disp ?st)"
  obtain sta f where start: "start_task env t ?h None ?run ?st = (sta, f)" by fastforce
  then have "answer_call env t ?h input ?run ?st = (sta, f)"
    using assms(3,4) by (simp add: answer_call_def replay_write_def)
  then have st': "st' = sta\<lparr>fs_futs := (fs_futs sta)(?h \<mapsto> f)\<rparr>" "h = ?h"
    using call by (auto simp: call_task_def next_call_idx_def Let_def)
  obtain stb r where attempts: "run_attempts env t ?retry ?cp (\<lambda>n. ?run n ?cp) 1 ?st = (stb, r)" by fastforce
  have "confined (length ?cp) ?st (fst (run_attempts env t ?retry ?cp (\<lambda>n. ?run n ?cp) 1 ?st))"
    by (rule run_attempts_confined) (rule fn_exec_confined)
  then have stb: "confined (length ?cp) ?st stb" unfolding attempts fst_conv .
  have f: "f = FutVal v" using assms(5) st' by simp
  then obtain c where sta: "r = AValue v" "c = int (is_idx (fs_intr stb)) - int (is_idx (fs_intr st))"
      "sta = stb\<lparr>fs_disp := record_result (value_result t ?h v c) (fn_cache_store env t ?h None v (fs_disp stb))\<rparr>"
    using start unfolding start_task_def Let_def attempts f by (cases r) auto
  have own: "own_results path stb = own_results path st"
  proof -
    obtain rs where "ds_results (fs_disp stb) = ds_results (fs_disp st) @ rs" "\<forall>r \<in> set rs. length ?cp \<le> length (tr_parent r)"
      using stb by (auto simp: confined_def adds_def)
    moreover from this have "\<forall>r \<in> set rs. tr_parent r \<noteq> path" using length_call_path [of ?h t] by fastforce
    ultimately show ?thesis by (simp add: own_results_def filter_empty_conv)
  qed
  have unsealed: "\<not> ds_sealed (fs_disp stb)" "is_idx (fs_intr st) \<le> is_idx (fs_intr stb)"
    using stb assms(2) by (simp_all add: confined_def frame_def)
  have store: "fn_cache_store env t ?h None v (fs_disp stb) = fs_disp stb" by (simp add: fn_cache_store_def split: option.split)
  have "own_results path st' = own_results path st @ [value_result t h v c]"
    using own unsealed by (simp add: st' sta(3) store own_results_def record_result_def)
  moreover have "int (is_idx (fs_intr st')) = int (is_idx (fs_intr st)) + c" "0 \<le> c"
    using sta(2) unsealed(2) by (simp_all add: st' sta(3))
  ultimately show ?thesis
    using assms(5,6) unfolding finished_def by blast
qed

text \<open>The same caller with other task bodies.\<close>

primrec swap_bodies :: "(fn_task \<Rightarrow> gval \<Rightarrow> nat \<Rightarrow> fn_prog) \<Rightarrow> fn_prog \<Rightarrow> fn_prog" where
  "swap_bodies B (FReturn v) = FReturn v"
| "swap_bodies B (FFail e) = FFail e"
| "swap_bodies B (FPanic m) = FPanic m"
| "swap_bodies B (FAsk v schema k) = FAsk v schema (\<lambda>a. swap_bodies B (k a))"
| "swap_bodies B (FCall t input body k) = FCall t input (B t input) (\<lambda>h. swap_bodies B (k h))"
| "swap_bodies B (FGet h k) = FGet h (\<lambda>r. swap_bodies B (k r))"

text \<open>A dispatcher that can answer the call of a result, and the state a replay has reached.\<close>

definition outcome_write :: "fn_result \<Rightarrow> string \<times> gval" where
  "outcome_write r = (case tr_err r of None \<Rightarrow> (reserved_return, tr_value r) | Some m \<Rightarrow> (reserved_error, VStr m))"

definition answers :: "dispatcher \<Rightarrow> fn_result \<Rightarrow> bool" where
  "answers d r \<longleftrightarrow>
     (let tid = fn_task_id (ds_cp d) (ds_ns d) (ds_step d) (tr_name r) (tr_parent r) (int (tr_idx r))
      in (\<exists>w. replay_write tid d = Some w \<and> (w_channel w, w_value w) = outcome_write r) \<and> replay_consumed tid d = tr_consumed r)"

definition as_replayed :: "future \<Rightarrow> future" where
  "as_replayed f = (case f of FutErr e \<Rightarrow> FutErr (EText (err_text e)) | _ \<Rightarrow> f)"

definition same_tables :: "dispatcher \<Rightarrow> dispatcher \<Rightarrow> bool" where
  "same_tables d d' \<longleftrightarrow> ds_replay d' = ds_replay d \<and> ds_consumed d' = ds_consumed d \<and> ds_cp d' = ds_cp d \<and> ds_ns d' = ds_ns d \<and>
     ds_step d' = ds_step d \<and> ds_sealed d' = ds_sealed d \<and> ds_cache d' = ds_cache d \<and> ds_retry d' = ds_retry d"

definition replayed_to :: "string \<Rightarrow> gval list \<Rightarrow> dispatcher \<Rightarrow> fn_state \<Rightarrow> fn_state \<Rightarrow> bool" where
  "replayed_to path new d st st2 \<longleftrightarrow>
     mgetd (ds_counts (fs_disp st2)) path 0 = mgetd (ds_counts (fs_disp st)) path 0 \<and>
     ds_results (fs_disp st2) = own_results path st \<and>
     same_tables d (fs_disp st2) \<and>
     fs_intr st2 = \<lparr>is_queue = is_queue (fs_intr st) @ new, is_idx = is_idx (fs_intr st), is_counter = is_idx (fs_intr st),
                    is_node = is_node (fs_intr st), is_ns = is_ns (fs_intr st)\<rparr> \<and>
     (\<forall>i. fs_futs st2 (path, i) = map_option as_replayed (fs_futs st (path, i)))"

lemma interrupt_state_eqI:
  "is_queue a = is_queue b \<Longrightarrow> is_idx a = is_idx b \<Longrightarrow> is_counter a = is_counter b \<Longrightarrow> is_node a = is_node b \<Longrightarrow> is_ns a = is_ns b \<Longrightarrow> a = b"
  for a b :: interrupt_state
  by simp

lemma fn_step_replayed:
  assumes step: "fn_step env path (p, st) (p', st')"
    and rel: "replayed_to path new d st st2" and unsealed: "\<not> ds_sealed d"
    and known: "\<forall>r \<in> set (own_results path st'). answers d r"
  shows "\<exists>st2'. replayed_to path new d st' st2' \<and>
    (\<forall>env' B. fn_exec env' (swap_bodies B p) path st2 = fn_exec env' (swap_bodies B p') path st2')"
  using step
proof (cases rule: fn_step.cases)
  case (asked v schema i a k)
  from asked(4) have ask: "is_idx (fs_intr st) < length (is_queue (fs_intr st))" "a = is_queue (fs_intr st) ! is_idx (fs_intr st)"
    "is_queue i = is_queue (fs_intr st)" "is_idx i = is_idx (fs_intr st) + 1" "is_node i = is_node (fs_intr st)"
    "is_ns i = is_ns (fs_intr st)"
    by (auto simp: interrupt_call_def split: if_splits)
  let ?i2 = "(fs_intr st2)\<lparr>is_idx := is_idx (fs_intr st2) + 1, is_counter := is_counter (fs_intr st2) + 1\<rparr>"
  have "interrupt_call v schema (fs_intr st2) = (?i2, Inr a)"
    using rel ask by (simp add: interrupt_call_def replayed_to_def nth_append)
  then show ?thesis
    using rel ask asked(1-3) by (intro exI [of _ "st2\<lparr>fs_intr := ?i2\<rparr>"]) (simp add: replayed_to_def own_results_def)
next
  case (got i v k)
  then show ?thesis using rel by (intro exI [of _ st2]) (simp add: replayed_to_def as_replayed_def)
next
  case (got_error i e k)
  then have "fs_futs st2 (path, i) = Some (FutErr (EText (err_text e)))" using rel by (simp add: replayed_to_def as_replayed_def)
  then show ?thesis using rel got_error by (intro exI [of _ st2]) simp
next
  case (called t input body h k)
  have frame: "confined (length path) st st'" "h = (path, mgetd (ds_counts (fs_disp st)) path 0)"
      "mgetd (ds_counts (fs_disp st')) path 0 = Suc (snd h)" "\<And>i. fst i = path \<Longrightarrow> i \<noteq> h \<Longrightarrow> fs_futs st' i = fs_futs st i"
    using call_task_frame [OF fn_exec_confined called(3)] by blast+
  from called(4) obtain r c where r: "0 \<le> c" "int (is_idx (fs_intr st')) = int (is_idx (fs_intr st)) + c"
      "own_results path st' = own_results path st @ [r]"
      "(\<exists>v. ft_is_out t v \<and> r = value_result t h v c \<and> fs_futs st' h = Some (FutVal v)) \<or>
       (\<exists>e. r = error_result t h (err_text e) c \<and> fs_futs st' h = Some (FutErr e))"
    unfolding finished_def by blast
  obtain f where f: "fs_futs st' h = Some f" using r(4) by blast
  let ?idx = "mgetd (ds_counts (fs_disp st2)) path 0"
  let ?d = "(fs_disp st2)\<lparr>ds_counts := mput path (?idx + 1) (ds_counts (fs_disp st2))\<rparr>"
  let ?i = "replay_interrupt_consumption c (fs_intr st2)"
  let ?st = "st2\<lparr>fs_disp := ?d\<lparr>ds_results := ds_results ?d @ [r]\<rparr>, fs_intr := ?i\<rparr>"
  have h: "h = (path, ?idx)" using frame(2) rel by (simp add: replayed_to_def)
  have tables: "same_tables d (fs_disp st2)" using rel by (simp add: replayed_to_def)
  then have un2: "\<not> ds_sealed ?d" using unsealed by (simp add: same_tables_def)
  have "answers d r" using known r(3) by simp
  moreover have rid: "fn_task_id (ds_cp d) (ds_ns d) (ds_step d) (tr_name r) (tr_parent r) (int (tr_idx r)) = call_id ?d t h"
    using r(4) tables by (auto simp: call_id_def same_tables_def value_result_def error_result_def)
  ultimately obtain w where w: "replay_write (call_id ?d t h) ?d = Some w" "(w_channel w, w_value w) = outcome_write r"
      "replay_consumed (call_id ?d t h) ?d = c"
    using r(4) tables unfolding answers_def rid Let_def
    by (auto simp: replay_write_def replay_consumed_def same_tables_def value_result_def error_result_def)
  have "answer_call env' t h input run (st2\<lparr>fs_disp := ?d\<rparr>) = (?st, as_replayed f)" for run env'
    using r(4) f w un2
    by (auto simp: answer_call_def replayed_call_def Let_def outcome_write_def value_result_def error_result_def add_result_def
        record_result_def as_replayed_def reserved_defs)
  then have call2: "call_task env' t path input run st2 = (?st\<lparr>fs_futs := (fs_futs ?st)(h \<mapsto> as_replayed f)\<rparr>, h)" for run env'
    unfolding call_task_def next_call_idx_def Let_def h [symmetric] by (simp add: h)
  have i: "?i = \<lparr>is_queue = is_queue (fs_intr st') @ new, is_idx = is_idx (fs_intr st'), is_counter = is_idx (fs_intr st'),
      is_node = is_node (fs_intr st'), is_ns = is_ns (fs_intr st')\<rparr>"
    using rel r(1,2) frame(1) by (auto simp: replayed_to_def replay_interrupt_consumption_def confined_def frame_def)
  let ?st2 = "?st\<lparr>fs_futs := (fs_futs ?st)(h \<mapsto> as_replayed f)\<rparr>"
  have futs: "\<forall>j. fs_futs ?st2 (path, j) = map_option as_replayed (fs_futs st' (path, j))"
  proof
    fix j
    have "fs_futs st2 (path, j) = map_option as_replayed (fs_futs st (path, j))" using rel by (simp add: replayed_to_def)
    with f frame(4) [of "(path, j)"] show "fs_futs ?st2 (path, j) = map_option as_replayed (fs_futs st' (path, j))" by auto
  qed
  have results: "ds_results (fs_disp ?st2) = own_results path st'" using rel r(3) by (simp add: replayed_to_def)
  have counts: "mgetd (ds_counts (fs_disp ?st2)) path 0 = mgetd (ds_counts (fs_disp st')) path 0" using frame(3) h by simp
  have tables2: "same_tables d (fs_disp ?st2)" using tables by (simp add: same_tables_def)
  have "fs_intr ?st2 = ?i" by simp
  note intr = trans [OF this i]
  have "replayed_to path new d st' ?st2" unfolding replayed_to_def by (intro conjI counts results tables2 intr futs)
  then show ?thesis using call2 called(1,2) by auto
qed

lemma own_results_intr [simp]: "own_results path (st\<lparr>fs_intr := i\<rparr>) = own_results path st"
  by (simp add: own_results_def)

lemma fn_step_adds: "fn_step env path (p, st) (p', st') \<Longrightarrow> set (own_results path st) \<subseteq> set (own_results path st')"
  by (erule fn_step.cases) (auto simp: finished_def)

lemma fn_steps_replayed:
  assumes "(fn_step env path)\<^sup>*\<^sup>* (p, st) (p', st')" and "replayed_to path new d st st2" and "\<not> ds_sealed d"
    and "\<forall>r \<in> set (own_results path st'). answers d r"
  shows "\<exists>st2'. replayed_to path new d st' st2' \<and>
    (\<forall>env' B. fn_exec env' (swap_bodies B p) path st2 = fn_exec env' (swap_bodies B p') path st2')"
  using assms(1,4)
proof (induction rule: rtranclp_induct2)
  case refl
  then show ?case using assms(2) by blast
next
  case (step p1 st1 p' st')
  have "\<forall>r \<in> set (own_results path st1). answers d r" using step(2,4) fn_step_adds by blast
  then obtain st3 where st3: "replayed_to path new d st1 st3"
      "\<And>env' B. fn_exec env' (swap_bodies B p) path st2 = fn_exec env' (swap_bodies B p1) path st3"
    using step(3) by blast
  with fn_step_replayed [OF step(2) st3(1) assms(3) step(4)] show ?case by metis
qed

subsection \<open>Results that are stored are read back\<close>

lemma result_writes_cases:
  obtains (plain) w where "result_writes r = [w]" "is_outcome_write w" "(w_channel w, w_value w) = outcome_write r" "tr_consumed r \<le> 0"
  | (counted) w c where "result_writes r = [w, c]" "is_outcome_write w" "(w_channel w, w_value w) = outcome_write r"
      "0 < tr_consumed r" "w_channel c = reserved_fn_consumed" "w_value c = VInt (tr_consumed r)"
  using that
  by (cases "tr_err r"; cases "0 < tr_consumed r")
    (fastforce simp: result_writes_def plain_write_def is_outcome_write_def outcome_write_def)+

lemma put_result_appends:
  assumes inv: "slots_inv st" and fresh: "\<forall>w \<in> set (st_writes st). w_task w \<noteq> task"
  shows "st_writes (put_writes_stored task path (result_writes r) st) = st_writes st @ map (stamp task path) (result_writes r)"
proof -
  have none: "map_of (st_slots st) (task, i) = None" for i
  proof (rule ccontr)
    assume "map_of (st_slots st) (task, i) \<noteq> None"
    then obtain pos where "map_of (st_slots st) (task, i) = Some pos" by blast
    from slots_invD [OF inv this] fresh show False by simp
  qed
  show ?thesis
    using none
    by (cases "tr_err r"; cases "0 < tr_consumed r")
      (simp_all add: result_writes_def put_writes_stored_def enumerate_eq_zip put_write_step_def Let_def write_idx_def
        reserved_write_idx_def plain_write_def reserved_defs stamp_def)
qed

definition stamped_results :: "cp_tuple \<Rightarrow> fn_result list \<Rightarrow> cp_write list" where
  "stamped_results tup rs = concat (map (\<lambda>r. map (stamp (result_id tup r) (tr_parent r)) (result_writes r)) rs)"

lemma stamped_simps [simp]:
  "stamped_results tup [] = []"
  "stamped_results tup (r # rs) = map (stamp (result_id tup r) (tr_parent r)) (result_writes r) @ stamped_results tup rs"
  by (simp_all add: stamped_results_def)

lemma result_id_writes [simp]: "result_id (tup\<lparr>tup_writes := ws\<rparr>) r = result_id tup r"
  by (simp add: result_id_def)

lemma put_results_stored:
  assumes "ms_inv s" and "ms_get_tuple s (tup_config tup) = Some (tup\<lparr>tup_writes := ws\<rparr>)" and "cfg_id (tup_config tup) \<noteq> []"
    and "distinct (map (result_id tup) rs)" and "\<forall>w \<in> set ws. w_task w \<notin> result_id tup ` set rs"
  shows "\<exists>s'. put_results tup rs s = (s', Inr ()) \<and>
    ms_get_tuple s' (tup_config tup) = Some (tup\<lparr>tup_writes := ws @ stamped_results tup rs\<rparr>)"
  using assms
proof (induction rs arbitrary: s ws)
  case Nil
  then show ?case by simp
next
  case (Cons r rs)
  let ?cfg = "tup_config tup"
  let ?task = "result_id tup r"
  obtain st where st: "map_of (ms_ns s ?cfg) (cfg_id ?cfg) = Some st" "ms_tuple ?cfg st = tup\<lparr>tup_writes := ws\<rparr>"
    using Cons.prems(2) by (auto simp: ms_get_exact [OF Cons.prems(3)])
  have ws: "st_writes st = ws" using arg_cong [OF st(2), of tup_writes] by (simp add: ms_tuple_def)
  have lookup: "ms_lookup s ?cfg = Some (cfg_id ?cfg, st)" using st(1) Cons.prems(3) by (simp add: ms_lookup_def)
  let ?st = "put_writes_stored ?task (tr_parent r) (result_writes r) st"
  let ?s = "ms_set_ns ?cfg (mput (cfg_id ?cfg) ?st (ms_ns s ?cfg)) s"
  have put: "ms_put_writes s ?cfg (result_writes r) ?task (tr_parent r) = (?s, Inr ())"
    by (rule ms_put_writes_Some [OF lookup])
  have "slots_inv st" using ms_invD [OF Cons.prems(1) st(1)] by blast
  then have appended: "st_writes ?st = ws @ map (stamp ?task (tr_parent r)) (result_writes r)"
    using put_result_appends [of st ?task "tr_parent r" r] Cons.prems(5) ws by auto
  have inv: "ms_inv ?s" using ms_put_writes_inv [OF Cons.prems(1), of ?cfg "result_writes r" ?task "tr_parent r"] put by simp
  have got: "ms_get_tuple ?s ?cfg = Some (tup\<lparr>tup_writes := ws @ map (stamp ?task (tr_parent r)) (result_writes r)\<rparr>)"
  proof -
    have "ms_tuple ?cfg ?st = (ms_tuple ?cfg st)\<lparr>tup_writes := st_writes ?st\<rparr>" by (simp add: ms_tuple_def)
    then show ?thesis using Cons.prems(3) by (simp add: ms_get_exact st(2) appended)
  qed
  have fresh: "\<forall>w \<in> set (ws @ map (stamp ?task (tr_parent r)) (result_writes r)). w_task w \<notin> result_id tup ` set rs"
    using Cons.prems(4,5) by auto
  from Cons.IH [OF inv got Cons.prems(3) _ fresh] Cons.prems(4) put show ?case by simp
qed

lemma load_write_task: "fold load_write ws tabs = (replay, consumed) \<Longrightarrow> \<forall>w \<in> set ws. w_task w \<noteq> tid \<Longrightarrow>
    map_of replay tid = map_of (fst tabs) tid \<and> map_of consumed tid = map_of (snd tabs) tid"
proof (induction ws arbitrary: tabs)
  case (Cons w ws)
  have "map_of (fst (load_write w tabs)) tid = map_of (fst tabs) tid \<and> map_of (snd (load_write w tabs)) tid = map_of (snd tabs) tid"
    using Cons.prems(2) by (cases tabs) (auto simp: load_write_def split: gval.split)
  with Cons show ?case by simp
qed auto

lemma load_result:
  assumes "0 \<le> tr_consumed r"
  shows "\<exists>w. (w_channel w, w_value w) = outcome_write r \<and>
    fold load_write (map (stamp tid path) (result_writes r)) (replay, consumed) =
      (mput tid w replay, if 0 < tr_consumed r then mput tid (tr_consumed r) consumed else consumed)"
proof (cases rule: result_writes_cases [of r])
  case (plain w)
  then show ?thesis
    by (intro exI [of _ "stamp tid path w"]) (auto simp: load_write_def is_outcome_write_def stamp_def)
next
  case (counted w c)
  then show ?thesis
    by (intro exI [of _ "stamp tid path w"]) (auto simp: load_write_def is_outcome_write_def stamp_def reserved_defs)
qed

lemma load_results:
  assumes "fold load_write (stamped_results tup rs) (replay, consumed) = (replay', consumed')" and "distinct (map (result_id tup) rs)"
    and "r \<in> set rs" and "0 \<le> tr_consumed r" and "map_of consumed (result_id tup r) = None"
  shows "(\<exists>w. map_of replay' (result_id tup r) = Some w \<and> (w_channel w, w_value w) = outcome_write r) \<and>
    mgetd consumed' (result_id tup r) 0 = tr_consumed r"
  using assms
proof (induction rs arbitrary: replay consumed)
  case (Cons r0 rs)
  obtain replay1 consumed1 where one: "fold load_write (map (stamp (result_id tup r0) (tr_parent r0)) (result_writes r0)) (replay, consumed)
      = (replay1, consumed1)" by fastforce
  have rest: "fold load_write (stamped_results tup rs) (replay1, consumed1) = (replay', consumed')" using Cons.prems(1) one by simp
  show ?case
  proof (cases "r = r0")
    case True
    then have "\<forall>w \<in> set (stamped_results tup rs). w_task w \<noteq> result_id tup r"
      using Cons.prems(2) by (auto simp: stamped_results_def) (metis imageI)
    from load_write_task [OF rest this] load_result [OF Cons.prems(4), of "result_id tup r" "tr_parent r" replay consumed]
      one Cons.prems(4,5) True show ?thesis by (auto simp: mgetd_def)
  next
    case False
    then have in_rs: "r \<in> set rs" using Cons.prems(3) by simp
    then have "result_id tup r \<in> result_id tup ` set rs" by (rule imageI)
    then have other: "result_id tup r \<noteq> result_id tup r0" using Cons.prems(2) by auto
    have "map_of consumed1 (result_id tup r) = None"
      using load_write_task [OF one, of "result_id tup r"] other Cons.prems(5) by auto
    with Cons.IH [OF rest _ in_rs Cons.prems(4)] Cons.prems(2) show ?thesis by simp
  qed
qed simp

lemma loaded_answers:
  assumes "distinct (map (result_id tup) rs)" and "\<forall>w \<in> set (tup_writes tup). w_task w \<notin> result_id tup ` set rs"
    and "r \<in> set rs" and "0 \<le> tr_consumed r"
  shows "answers (load_replay_tuple (tup\<lparr>tup_writes := tup_writes tup @ stamped_results tup rs\<rparr>) d) r"
proof -
  obtain replay consumed where own: "fold load_write (tup_writes tup) ([], []) = (replay, consumed)" by fastforce
  obtain replay' consumed' where all: "fold load_write (stamped_results tup rs) (replay, consumed) = (replay', consumed')" by fastforce
  have "map_of consumed (result_id tup r) = None"
    using load_write_task [OF own, of "result_id tup r"] assms(2,3) by auto
  from load_results [OF all assms(1,3,4) this] show ?thesis
    by (simp add: answers_def Let_def load_replay_tuple_def own all replay_write_def replay_consumed_def result_id_def)
qed

lemma ms_get_tuple_self:
  assumes "ms_inv s" and "ms_get_tuple s cfg = Some tup"
  shows "ms_get_tuple s (tup_config tup) = Some tup \<and> cfg_id (tup_config tup) \<noteq> [] \<and> same_ns cfg (tup_config tup)"
proof -
  obtain cid st where st: "ms_lookup s cfg = Some (cid, st)" "tup = ms_tuple cfg st"
    using assms(2) by (auto simp: ms_get_tuple_def)
  note here = ms_lookup_Some [OF st(1)]
  note inv = ms_invD [OF assms(1) here]
  from here inv show ?thesis by (simp add: st(2) ms_get_exact ms_tuple_def)
qed

lemma put_results_frame:
  "ms_inv s \<Longrightarrow> put_results tup rs s = (s', r) \<Longrightarrow> ms_inv s' \<and>
    map_option (\<lambda>t. t\<lparr>tup_writes := []\<rparr>) (ms_get_tuple s' c) = map_option (\<lambda>t. t\<lparr>tup_writes := []\<rparr>) (ms_get_tuple s c)"
proof (induction rs arbitrary: s)
  case (Cons r0 rs)
  obtain s1 res where put: "ms_put_writes s (tup_config tup) (result_writes r0) (result_id tup r0) (tr_parent r0) = (s1, res)" by fastforce
  have "ms_inv s1" "map_option (\<lambda>t. t\<lparr>tup_writes := []\<rparr>) (ms_get_tuple s1 c) = map_option (\<lambda>t. t\<lparr>tup_writes := []\<rparr>) (ms_get_tuple s c)"
    using ms_put_writes_inv [OF Cons.prems(1), of "tup_config tup" "result_writes r0" "result_id tup r0" "tr_parent r0"]
      ms_writes_frame [OF Cons.prems(1), of "tup_config tup" "result_writes r0" "result_id tup r0" "tr_parent r0" c] put by simp_all
  with Cons put show ?case by (cases res) auto
qed simp

lemma load_replay_tuple_frame [simp]:
  "ds_results (load_replay_tuple t d) = ds_results d" "ds_counts (load_replay_tuple t d) = ds_counts d"
  "ds_sealed (load_replay_tuple t d) = ds_sealed d"
  by (simp_all add: load_replay_tuple_def split: prod.split)

text \<open>What the next run of the thread loads after a run has stored its results.\<close>

lemma persisted_results_answer:
  assumes "ms_inv s" and latest: "ms_get_tuple s \<lparr>cfg_thread = thread, cfg_ns = [], cfg_id = []\<rparr> = Some tup"
    and "distinct (map (result_id tup) (ds_results d))" and "\<forall>w \<in> set (tup_writes tup). w_task w \<notin> result_id tup ` set (ds_results d)"
    and "persist_results ep thread d s = (s', res)" and "en_checkpointer ep" and "thread \<noteq> []"
    and "resume \<noteq> VNil" and "cp_next (tup_checkpoint tup) \<noteq> []"
  shows "res = Inr () \<and>
    (\<forall>r \<in> set (ds_results d). 0 \<le> tr_consumed r \<longrightarrow> answers (snd (prepare ep s' thread [] resume input)) r) \<and>
    ds_results (snd (prepare ep s' thread [] resume input)) = [] \<and> ds_counts (snd (prepare ep s' thread [] resume input)) = [] \<and>
    \<not> ds_sealed (snd (prepare ep s' thread [] resume input))"
proof -
  let ?pos = "\<lparr>cfg_thread = thread, cfg_ns = [], cfg_id = []\<rparr>"
  let ?tup = "tup\<lparr>tup_writes := tup_writes tup @ stamped_results tup (ds_results d)\<rparr>"
  note self = ms_get_tuple_self [OF assms(1) latest]
  have put: "put_results tup (ds_results d) s = (s', res)"
    using assms(5-7) latest by (auto simp: persist_results_def snapshot_results_def split: if_splits)
  from put_results_stored [OF assms(1) _ _ assms(3,4)] self put
  have res: "res = Inr ()" and at: "ms_get_tuple s' (tup_config tup) = Some ?tup" by auto
  note frame = put_results_frame [OF assms(1) put, of ?pos]
  obtain t where t: "ms_get_tuple s' ?pos = Some t" "t\<lparr>tup_writes := []\<rparr> = tup\<lparr>tup_writes := []\<rparr>"
    using frame latest by auto
  have "tup_config t = tup_config tup" using arg_cong [OF t(2), of tup_config] by simp
  with ms_get_tuple_self [of s' ?pos t] frame t(1) at have "ms_get_tuple s' ?pos = Some ?tup" by simp
  then have "snd (prepare ep s' thread [] resume input) = load_replay_tuple ?tup (run_dispatcher ep)"
    using assms(6-9) by (simp add: prepare_def Let_def load_replay_def)
  then show ?thesis
    using res loaded_answers [OF assms(3,4)] by (auto simp: run_dispatcher_def new_dispatcher_def)
qed

lemma replayed_to_start:
  "ds_counts d = [] \<Longrightarrow> ds_results d = [] \<Longrightarrow> ds_counts d2 = [] \<Longrightarrow> ds_results d2 = [] \<Longrightarrow>
   replayed_to [] new d2 (start_fn d q node ns) (start_fn d2 (q @ new) node ns)"
  by (simp add: replayed_to_def start_fn_def own_results_def same_tables_def)

lemma fn_exec_results:
  assumes "fn_exec env p [] st = (st', oc)"
  shows "set (own_results path st) \<subseteq> set (ds_results (fs_disp st'))"
  using fn_exec_confined [of "[]" st env p] assms by (auto simp: confined_def adds_def own_results_def)

text \<open>
  C10: a resumed run does not run again what had finished. Take a run of an entrypoint function that got
  to some point - a question, the call of a task that asked - past calls that finished; whatever it did
  after that, its results were stored beside the paused checkpoint. The next run with one more answer
  gets to the same point without running a body: whatever the bodies of its calls are, it goes on from
  there, with the same cursor in the longer queue, the same futures (an error by its text), and the
  finished calls among its own results. If the point was the question, the function gets the new answer.
\<close>

theorem resume_does_not_rerun_finished_calls:
  assumes "ds_counts d = []" and "ds_results d = []"
    and "(fn_step env [])\<^sup>*\<^sup>* (p, start_fn d q node ns) (p', st')" and "fn_exec env p' [] st' = (st_end, oc)"
    and "ms_inv s" and "ms_get_tuple s \<lparr>cfg_thread = thread, cfg_ns = [], cfg_id = []\<rparr> = Some tup"
    and "distinct (map (result_id tup) (ds_results (fs_disp st_end)))"
    and "\<forall>w \<in> set (tup_writes tup). w_task w \<notin> result_id tup ` set (ds_results (fs_disp st_end))"
    and "persist_results ep thread (seal (fs_disp st_end)) s = (s', res)" and "en_checkpointer ep" and "thread \<noteq> []"
    and "resume \<noteq> VNil" and "cp_next (tup_checkpoint tup) \<noteq> []" and "prepare ep s' thread [] resume input = (batch, d')"
  shows "res = Inr () \<and> (\<exists>st2.
    (\<forall>env' B. fn_exec env' (swap_bodies B p) [] (start_fn d' (q @ [a]) node ns) = fn_exec env' (swap_bodies B p') [] st2) \<and>
    is_queue (fs_intr st2) = q @ [a] \<and> is_idx (fs_intr st2) = is_idx (fs_intr st') \<and>
    ds_results (fs_disp st2) = own_results [] st' \<and>
    (\<forall>i. fs_futs st2 ([], i) = map_option as_replayed (fs_futs st' ([], i))) \<and>
    (\<forall>env' B v schema k. p' = FAsk v schema k \<and> is_idx (fs_intr st') = length q \<longrightarrow>
      fn_exec env' (swap_bodies B p) [] (start_fn d' (q @ [a]) node ns) =
        fn_exec env' (swap_bodies B (k a)) [] (st2\<lparr>fs_intr := (fs_intr st2)\<lparr>is_idx := length q + 1, is_counter := length q + 1\<rparr>\<rparr>)))"
proof -
  let ?d = "seal (fs_disp st_end)"
  have seal: "ds_results ?d = ds_results (fs_disp st_end)" by (simp add: seal_def)
  note next_run = persisted_results_answer [of s thread tup ?d ep s' res resume input, unfolded seal, OF assms(5-13)]
  from next_run assms(14) have fresh: "ds_counts d' = []" "ds_results d' = []" "\<not> ds_sealed d'"
    and answers: "\<forall>r \<in> set (ds_results (fs_disp st_end)). 0 \<le> tr_consumed r \<longrightarrow> answers d' r" and res: "res = Inr ()"
    by simp_all
  have nonneg: "\<forall>r \<in> set (own_results [] st'). 0 \<le> tr_consumed r"
    using assms(3)
  proof (induction rule: rtranclp_induct2)
    case refl
    then show ?case by (simp add: own_results_def start_fn_def assms(2))
  next
    case (step p1 st1 p2 st2)
    from step(2) step(3) show ?case
      by cases (auto simp: finished_def value_result_def error_result_def)
  qed
  then have "\<forall>r \<in> set (own_results [] st'). answers d' r" using answers fn_exec_results [OF assms(4), of "[]"] by blast
  from fn_steps_replayed [OF assms(3) replayed_to_start [OF assms(1,2) fresh(1,2), of "[a]"] fresh(3) this]
  obtain st2 where rel: "replayed_to [] [a] d' st' st2"
    and exec: "\<And>env' B. fn_exec env' (swap_bodies B p) [] (start_fn d' (q @ [a]) node ns) = fn_exec env' (swap_bodies B p') [] st2"
    by blast
  have queue: "is_queue (fs_intr st') = q"
    using assms(3)
  proof (induction rule: rtranclp_induct2)
    case refl
    then show ?case by (simp add: start_fn_def)
  next
    case (step p1 st1 p2 st2)
    from step(2) step(3) show ?case
      by cases (auto simp: interrupt_call_def split: if_splits dest!: call_task_frame(1) [OF fn_exec_confined] simp: confined_def frame_def)
  qed
  have answered: "fn_exec env' (swap_bodies B p) [] (start_fn d' (q @ [a]) node ns) =
      fn_exec env' (swap_bodies B (k a)) [] (st2\<lparr>fs_intr := (fs_intr st2)\<lparr>is_idx := length q + 1, is_counter := length q + 1\<rparr>\<rparr>)"
    if "p' = FAsk v schema k" "is_idx (fs_intr st') = length q" for env' B v schema k
    using rel queue that unfolding exec
    by (auto simp: replayed_to_def interrupt_call_def)
  show ?thesis using res exec answered rel queue by (intro conjI exI [of _ st2]) (auto simp: replayed_to_def)
qed

text \<open>A function that calls a task, waits for it and asks whether to go on.\<close>

definition demo_task :: fn_task where
  "demo_task = \<lparr>ft_name = ''work'', ft_retry = None, ft_cache = None, ft_is_out = (\<lambda>_. True)\<rparr>"

definition demo_ask :: "gval \<Rightarrow> fn_prog" where
  "demo_ask v = FAsk (VStr ''go on?'') None (\<lambda>a. FReturn (VList [v, a]))"

definition demo_fn :: fn_prog where
  "demo_fn = FCall demo_task VNil (\<lambda>_. FReturn (VInt 7))
     (\<lambda>h. FGet h (\<lambda>r. case r of Inl e \<Rightarrow> FFail e | Inr v \<Rightarrow> demo_ask v))"

definition demo_entry :: entrypoint where
  "demo_entry = \<lparr>en_checkpointer = True, en_cache = None, en_retry = None, en_cache_policy = None, en_timeout = None,
     en_schema = None, en_is_in = (\<lambda>_. True), en_is_save = (\<lambda>_. True), en_is_out = (\<lambda>_. True),
     en_fn = (\<lambda>_ _ _. demo_fn), en_split = (\<lambda>v. (v, v))\<rparr>"

definition demo_fn_env :: fn_env where
  "demo_fn_env = \<lparr>fe_lookup_time = (\<lambda>_. 0), fe_store_time = (\<lambda>_. 0), fe_default_key = (\<lambda>_. Inl ECanceled),
     fe_ended = (\<lambda>_ _. False), fe_cut = (\<lambda>_ _. False)\<rparr>"

definition demo_start :: fn_state where
  "demo_start = start_fn (new_dispatcher None) [] entrypoint_node []"

definition demo_paused :: fn_state where
  "demo_paused = demo_start\<lparr>fs_disp := (new_dispatcher None)\<lparr>ds_counts := [([], 1)],
     ds_results := [value_result demo_task ([], 0) (VInt 7) 0]\<rparr>, fs_futs := (\<lambda>_. None)(([], 0) \<mapsto> FutVal (VInt 7))\<rparr>"

definition demo_pause_cp :: checkpoint where
  "demo_pause_cp = \<lparr>cp_v = 4, cp_id = ''p1'', cp_ts = 0, cp_values = [], cp_versions = [], cp_seen = [],
     cp_next = [\<lparr>pt_id = ''t'', pt_node = ''entrypoint'', pt_arg = None\<rparr>]\<rparr>"

definition demo_pause_saver :: memory_saver where
  "demo_pause_saver = fst (ms_put new_memory_saver \<lparr>cfg_thread = ''th'', cfg_ns = [], cfg_id = []\<rparr> demo_pause_cp
     \<lparr>md_source = ''loop'', md_step = 0, md_run_id = [], md_parents = None, md_counters = []\<rparr> [])"

lemma demo_steps: "(fn_step demo_fn_env [])\<^sup>*\<^sup>* (demo_fn, demo_start) (demo_ask (VInt 7), demo_paused)"
proof -
  let ?k = "\<lambda>r. case r of Inl e \<Rightarrow> FFail e | Inr v \<Rightarrow> demo_ask v"
  have call: "call_task demo_fn_env demo_task [] VNil (\<lambda>n. fn_exec demo_fn_env (FReturn (VInt 7))) demo_start = (demo_paused, ([], 0))"
    by (simp add: call_task_def next_call_idx_def answer_call_def start_task_def run_attempts.simps call_safely_def demo_start_def
        start_fn_def new_dispatcher_def demo_paused_def demo_task_def replay_write_def fn_cache_store_def record_result_def mgetd_def Let_def)
  have "finished demo_task [] demo_start demo_paused ([], 0)"
    by (auto simp: finished_def own_results_def demo_paused_def demo_start_def start_fn_def new_dispatcher_def demo_task_def value_result_def)
  from called [OF call this, of "\<lambda>h. FGet h ?k"]
  have first: "fn_step demo_fn_env [] (demo_fn, demo_start) (FGet ([], 0) ?k, demo_paused)" by (simp add: demo_fn_def)
  have "fn_step demo_fn_env [] (FGet ([], 0) ?k, demo_paused) (?k (Inr (VInt 7)), demo_paused)"
    by (rule got) (simp add: demo_paused_def)
  with first show ?thesis by (auto intro: converse_rtranclp_into_rtranclp)
qed

lemma resume_does_not_rerun_finished_calls_witness:
  "\<exists>s' batch d2. persist_results demo_entry ''th'' (seal (fs_disp demo_paused)) demo_pause_saver = (s', Inr ()) \<and>
     prepare demo_entry s' ''th'' [] (VBool True) VNil = (batch, d2) \<and>
     snd (fn_exec demo_fn_env (swap_bodies (\<lambda>_ _ _. FFail ECanceled) demo_fn) [] (start_fn d2 [VBool True] entrypoint_node []))
       = FoReturned (VList [VInt 7, VBool True])"
proof -
  let ?pos = "\<lparr>cfg_thread = ''th'', cfg_ns = [], cfg_id = []\<rparr>"
  let ?md = "\<lparr>md_source = ''loop'', md_step = 0, md_run_id = [], md_parents = None, md_counters = []\<rparr>"
  have end_: "fn_exec demo_fn_env (demo_ask (VInt 7)) [] demo_paused =
      (demo_paused\<lparr>fs_intr := (fs_intr demo_paused)\<lparr>is_counter := 1\<rparr>\<rparr>, FoInterrupted (Interrupt (VStr ''go on?'') (interrupt_id entrypoint_node 1) [] None))"
    by (simp add: demo_ask_def demo_paused_def demo_start_def start_fn_def interrupt_call_def)
  have inv: "ms_inv demo_pause_saver" by (simp add: demo_pause_saver_def ms_put_inv demo_pause_cp_def)
  have "case ms_get_tuple demo_pause_saver ?pos of None \<Rightarrow> False | Some t \<Rightarrow> tup_writes t = [] \<and> cp_next (tup_checkpoint t) \<noteq> []"
    by code_simp
  then obtain tup where tup: "ms_get_tuple demo_pause_saver ?pos = Some tup" "tup_writes tup = []" "cp_next (tup_checkpoint tup) \<noteq> []"
    by (auto split: option.splits)
  obtain s' res where persist: "persist_results demo_entry ''th'' (seal (fs_disp demo_paused)) demo_pause_saver = (s', res)" by fastforce
  obtain batch d2 where prep: "prepare demo_entry s' ''th'' [] (VBool True) VNil = (batch, d2)" by fastforce
  have empty: "ds_counts (new_dispatcher None) = []" "ds_results (new_dispatcher None) = []" by (simp_all add: new_dispatcher_def)
  have cursor: "is_idx (fs_intr demo_paused) = length ([] :: gval list)" by (simp add: demo_paused_def demo_start_def start_fn_def)
  have rest: "distinct (map (result_id tup) (ds_results (fs_disp demo_paused)))"
    "\<forall>w \<in> set (tup_writes tup). w_task w \<notin> result_id tup ` set (ds_results (fs_disp demo_paused))" "en_checkpointer demo_entry"
    by (simp_all add: demo_paused_def tup demo_entry_def)
  have "res = Inr () \<and> (\<exists>st2. fn_exec demo_fn_env (swap_bodies (\<lambda>_ _ _. FFail ECanceled) demo_fn) [] (start_fn d2 ([] @ [VBool True]) entrypoint_node []) =
      fn_exec demo_fn_env (FReturn (VList [VInt 7, VBool True])) [] st2)"
    using resume_does_not_rerun_finished_calls [OF empty demo_steps [unfolded demo_start_def] end_ inv tup(1), where ep = demo_entry and s' = s'
        and resume = "VBool True" and input = VNil and batch = batch and d' = d2 and a = "VBool True" and res = res]
      rest persist prep tup(3) cursor
    by (force simp: demo_ask_def)
  with persist prep show ?thesis by auto
qed

end
