(* ===== verification/Indexing.thy ===== *)
theory Indexing
  imports Complex_Main GoValues
begin

section \<open>Indexing documents (core/indexing)\<close>

text \<open>
  \<open>IndexDocuments\<close> keeps a destination in step with a set of documents: a record manager remembers under
  which keys documents were indexed and when, documents whose key it knows are skipped, and a cleanup
  deletes what a run did not touch. The key of a document is a hash the options choose, a parameter of
  the model. The clock and the cancellation of the context are read through counters, one reading after
  the other; zero is the zero time. Where the code ranges over a map the model takes the sorted keys, so
  a listing with a limit returns one of the batches the code may return.
\<close>

record doc =
  doc_id :: string
  doc_content :: string
  doc_meta :: gstate

subsection \<open>The in-memory record manager\<close>

record im_record =
  ir_group :: string
  ir_updated :: int

record record_manager =
  rm_ns :: string
  rm_records :: "im_record gomap"

definition new_record_manager :: "string \<Rightarrow> record_manager" where
  "new_record_manager ns = \<lparr>rm_ns = ns, rm_records = []\<rparr>"

definition namespaced :: "record_manager \<Rightarrow> string \<Rightarrow> string" where
  "namespaced m key = (if rm_ns m = [] then key else rm_ns m @ '':'' @ key)"

definition unnamespace :: "record_manager \<Rightarrow> string \<Rightarrow> string" where
  "unnamespace m key =
     (let pre = rm_ns m @ '':''
      in if rm_ns m \<noteq> [] \<and> length pre \<le> length key \<and> take (length pre) key = pre then drop (length pre) key else key)"

definition rm_update :: "string list \<Rightarrow> string list \<Rightarrow> int \<Rightarrow> int \<Rightarrow> record_manager \<Rightarrow> record_manager \<times> (goerr + unit)" where
  "rm_update keys groups at_least now m =
     (if groups \<noteq> [] \<and> length keys \<noteq> length groups then
        (m, Inl (EText ''length of keys must match length of groupIDs''))
      else if at_least \<noteq> 0 \<and> now < at_least then (m, Inl (EText ''timeAtLeast must be in the past''))
      else (m\<lparr>rm_records := fold (\<lambda>(i, key). mput (namespaced m key)
                 \<lparr>ir_group = (if groups \<noteq> [] then groups ! i else []), ir_updated = now\<rparr>) (enumerate 0 keys) (rm_records m)\<rparr>,
            Inr ()))"

definition rm_exists :: "string list \<Rightarrow> record_manager \<Rightarrow> bool list" where
  "rm_exists keys m = map (\<lambda>key. mhas (rm_records m) (namespaced m key)) keys"

definition rm_delete_keys :: "string list \<Rightarrow> record_manager \<Rightarrow> record_manager" where
  "rm_delete_keys keys m = m\<lparr>rm_records := fold (\<lambda>key. mdel (namespaced m key)) keys (rm_records m)\<rparr>"

definition rm_stale :: "string list \<Rightarrow> int \<Rightarrow> im_record \<Rightarrow> bool" where
  "rm_stale groups before r \<longleftrightarrow> (groups = [] \<or> ir_group r \<in> set groups) \<and> (before = 0 \<or> ir_updated r < before)"

definition rm_list_keys :: "string list \<Rightarrow> int \<Rightarrow> int \<Rightarrow> record_manager \<Rightarrow> string list" where
  "rm_list_keys groups before limit m =
     (let ks = filter (\<lambda>k. case map_of (rm_records m) k of None \<Rightarrow> False | Some r \<Rightarrow> rm_stale groups before r) (mkeys (rm_records m));
          out = map (unnamespace m) ks
      in if limit > 0 then take (nat limit) out else out)"

subsection \<open>Destinations\<close>

text \<open>
  A destination is what adds and what deletes documents; the extra arguments of an upsert are passed
  through. The in-memory document index gives documents without an ID one, the text of a random UUID,
  an argument here.
\<close>

record 'd index_destination =
  de_add :: "doc list \<Rightarrow> 'd \<Rightarrow> 'd \<times> (goerr + unit)"
  de_del :: "string list \<Rightarrow> 'd \<Rightarrow> 'd \<times> (goerr + unit)"

record document_index =
  di_store :: "doc gomap"
  di_top :: int

definition new_document_index :: "int \<Rightarrow> document_index" where
  "new_document_index k = \<lparr>di_store = [], di_top = (if k \<le> 0 then 4 else k)\<rparr>"

fun di_upsert :: "(nat \<Rightarrow> string) \<Rightarrow> nat \<Rightarrow> doc list \<Rightarrow> document_index \<Rightarrow> document_index \<times> string list" where
  "di_upsert uuid n [] ix = (ix, [])"
| "di_upsert uuid n (d # ds) ix =
     (let i = (if doc_id d = [] then uuid n else doc_id d)
      in case di_upsert uuid (Suc n) ds (ix\<lparr>di_store := mput i (d\<lparr>doc_id := i\<rparr>) (di_store ix)\<rparr>) of
           (ix', ids) \<Rightarrow> (ix', i # ids))"

fun di_delete :: "string list \<Rightarrow> document_index \<Rightarrow> document_index \<times> string list" where
  "di_delete [] ix = (ix, [])"
| "di_delete (i # ids) ix =
     (if \<not> mhas (di_store ix) i then di_delete ids ix
      else case di_delete ids (ix\<lparr>di_store := mdel i (di_store ix)\<rparr>) of (ix', gone) \<Rightarrow> (ix', i # gone))"

definition di_get :: "string list \<Rightarrow> document_index \<Rightarrow> doc list" where
  "di_get ids ix = List.map_filter (map_of (di_store ix)) ids"

text \<open>\<open>strings.Count\<close>, and the search: the documents by how often they contain the query, most first.\<close>

function count_in :: "string \<Rightarrow> string \<Rightarrow> nat" where
  "count_in q s =
     (if length s < length q \<or> q = [] then 0
      else if take (length q) s = q then Suc (count_in q (drop (length q) s))
      else count_in q (tl s))"
  by pat_completeness auto

termination
proof (relation "measure (\<lambda>(q, s). length s)")
  fix q s :: string
  assume "\<not> (length s < length q \<or> q = [])" and "take (length q) s = q"
  then show "((q, drop (length q) s), q, s) \<in> measure (\<lambda>(q, s). length s)"
    by (cases q; cases s) auto
next
  fix q s :: string
  assume "\<not> (length s < length q \<or> q = [])"
  then show "((q, tl s), q, s) \<in> measure (\<lambda>(q, s). length s)" by (cases q; cases s) auto
qed simp

declare count_in.simps [simp del]

definition go_count :: "string \<Rightarrow> string \<Rightarrow> nat" where
  "go_count s q = (if q = [] then length s + 1 else count_in q s)"

definition di_search :: "string \<Rightarrow> document_index \<Rightarrow> doc list" where
  "di_search query ix =
     (let ds = List.map_filter (map_of (di_store ix)) (mkeys (di_store ix))
      in take (nat (di_top ix)) (sort_key (\<lambda>d. - int (go_count (doc_content d) query)) ds))"

definition document_index_destination :: "(nat \<Rightarrow> string) \<Rightarrow> document_index index_destination" where
  "document_index_destination uuid =
     \<lparr>de_add = (\<lambda>ds ix. (fst (di_upsert uuid 0 ds ix), Inr ())),
      de_del = (\<lambda>ids ix. (fst (di_delete ids ix), Inr ()))\<rparr>"

subsection \<open>One run\<close>

datatype cleanup_mode = CleanupNone | CleanupIncremental | CleanupFull | CleanupScopedFull | CleanupOther string

record ix_options =
  io_batch :: int
  io_cleanup_batch :: int
  io_force :: bool
  io_source_key :: string
  io_cleanup :: cleanup_mode
  io_hash :: "doc \<Rightarrow> goerr + string"

record indexing_result =
  num_added :: nat
  num_updated :: nat
  num_deleted :: nat
  num_skipped :: nat

record ix_env =
  xe_clock :: "nat \<Rightarrow> int"
  xe_ended :: "nat \<Rightarrow> goerr option"

record 'd ix_state =
  xs_rm :: record_manager
  xs_dest :: 'd
  xs_reads :: nat
  xs_polls :: nat
  xs_result :: indexing_result
  xs_touched :: "string list"
  xs_start :: int

definition poll :: "ix_env \<Rightarrow> 'd ix_state \<Rightarrow> 'd ix_state \<times> goerr option" where
  "poll env x = (x\<lparr>xs_polls := xs_polls x + 1\<rparr>, xe_ended env (xs_polls x))"

definition skip_one :: "'d ix_state \<Rightarrow> 'd ix_state" where
  "skip_one x = x\<lparr>xs_result := (xs_result x)\<lparr>num_skipped := num_skipped (xs_result x) + 1\<rparr>\<rparr>"

definition source_error :: "string \<Rightarrow> goerr" where
  "source_error key = EText (''document metadata must include non-empty string source id '' @ go_quote key
     @ '' when SourceIDKey is set'')"

text \<open>The documents of a batch that are new to it, with their keys and source groups.\<close>

fun collect_batch :: "ix_options \<Rightarrow> doc list \<Rightarrow> doc list \<times> string list \<times> string list \<Rightarrow> 'd ix_state
    \<Rightarrow> 'd ix_state \<times> (goerr + doc list \<times> string list \<times> string list)" where
  "collect_batch opts [] acc x = (x, Inr acc)"
| "collect_batch opts (d # ds) (docs, keys, groups) x =
     (case io_hash opts d of
        Inl e \<Rightarrow> (x, Inl e)
      | Inr key \<Rightarrow>
          (if key \<in> set keys then collect_batch opts ds (docs, keys, groups) (skip_one x)
           else if io_source_key opts = [] then collect_batch opts ds (docs @ [d], keys @ [key], groups) x
           else case map_of (doc_meta d) (io_source_key opts) of
                  Some (VStr (c # source)) \<Rightarrow>
                    collect_batch opts ds (docs @ [d], keys @ [key], groups @ [c # source])
                      (x\<lparr>xs_touched := List.insert (c # source) (xs_touched x)\<rparr>)
                | _ \<Rightarrow> (x, Inl (source_error (io_source_key opts)))))"

text \<open>Which of them are written, and the counts.\<close>

fun plan_adds :: "bool \<Rightarrow> (doc \<times> string \<times> bool) list \<Rightarrow> indexing_result \<Rightarrow> doc list \<times> indexing_result" where
  "plan_adds force [] r = ([], r)"
| "plan_adds force ((d, key, exists) # ps) r =
     (if exists \<and> \<not> force then plan_adds force ps (r\<lparr>num_skipped := num_skipped r + 1\<rparr>)
      else case plan_adds force ps (if exists then r\<lparr>num_updated := num_updated r + 1\<rparr> else r\<lparr>num_added := num_added r + 1\<rparr>) of
             (adds, r') \<Rightarrow> (d\<lparr>doc_id := key\<rparr> # adds, r'))"

definition unique_strings :: "string list \<Rightarrow> string list" where
  "unique_strings vs = fold (\<lambda>v out. if v = [] \<or> v \<in> set out then out else out @ [v]) vs []"

text \<open>The loop of \<open>cleanupKeys\<close>; \<open>None\<close> would be a loop that never ends.\<close>

partial_function (option) cleanup_loop ::
  "ix_env \<Rightarrow> 'd index_destination \<Rightarrow> string list \<Rightarrow> int \<Rightarrow> int \<Rightarrow> nat \<Rightarrow> 'd ix_state \<Rightarrow> ('d ix_state \<times> (goerr + nat)) option" where
  "cleanup_loop env dst groups before limit deleted x =
     (case poll env x of
        (x1, Some e) \<Rightarrow> Some (x1, Inl e)
      | (x1, None) \<Rightarrow>
          (let keys = rm_list_keys groups before limit (xs_rm x1)
           in if keys = [] then Some (x1, Inr deleted)
              else case de_del dst keys (xs_dest x1) of
                     (d', Inl e) \<Rightarrow> Some (x1\<lparr>xs_dest := d'\<rparr>, Inl e)
                   | (d', Inr _) \<Rightarrow>
                       cleanup_loop env dst groups before limit (deleted + length keys)
                         (x1\<lparr>xs_dest := d', xs_rm := rm_delete_keys keys (xs_rm x1)\<rparr>)))"

definition cleanup_keys ::
  "ix_env \<Rightarrow> 'd index_destination \<Rightarrow> string list \<Rightarrow> int \<Rightarrow> 'd ix_state \<Rightarrow> ('d ix_state \<times> (goerr + unit)) option" where
  "cleanup_keys env dst groups limit x =
     map_option (\<lambda>(x', r). case r of
         Inl e \<Rightarrow> (x', Inl e)
       | Inr n \<Rightarrow> (x'\<lparr>xs_result := (xs_result x')\<lparr>num_deleted := num_deleted (xs_result x') + n\<rparr>\<rparr>, Inr ()))
       (cleanup_loop env dst groups (xs_start x) (if limit \<le> 0 then 100 else limit) 0 x)"

definition index_batch ::
  "ix_env \<Rightarrow> 'd index_destination \<Rightarrow> ix_options \<Rightarrow> int \<Rightarrow> doc list \<Rightarrow> 'd ix_state \<Rightarrow> ('d ix_state \<times> (goerr + unit)) option" where
  "index_batch env dst opts climit batch x =
     (case poll env x of
        (x1, Some e) \<Rightarrow> Some (x1, Inl e)
      | (x1, None) \<Rightarrow>
          (case collect_batch opts batch ([], [], []) x1 of
             (x2, Inl e) \<Rightarrow> Some (x2, Inl e)
           | (x2, Inr (docs, keys, groups)) \<Rightarrow>
               (if keys = [] then Some (x2, Inr ())
                else case plan_adds (io_force opts) (zip docs (zip keys (rm_exists keys (xs_rm x2)))) (xs_result x2) of
                       (adds, r) \<Rightarrow>
                         (case (if adds = [] then (xs_dest x2, Inr ()) else de_add dst adds (xs_dest x2)) of
                            (d', Inl e) \<Rightarrow> Some (x2\<lparr>xs_result := r, xs_dest := d'\<rparr>, Inl e)
                          | (d', Inr _) \<Rightarrow>
                              (case rm_update keys groups (xs_start x2) (xe_clock env (xs_reads x2)) (xs_rm x2) of
                                 (m, Inl e) \<Rightarrow> Some (x2\<lparr>xs_result := r, xs_dest := d', xs_reads := xs_reads x2 + 1\<rparr>, Inl e)
                               | (m, Inr _) \<Rightarrow>
                                   (let x3 = x2\<lparr>xs_result := r, xs_dest := d', xs_reads := xs_reads x2 + 1, xs_rm := m\<rparr>
                                    in if io_cleanup opts = CleanupIncremental
                                       then cleanup_keys env dst (unique_strings groups) climit x3
                                       else Some (x3, Inr ())))))))"

definition finish_cleanup ::
  "ix_env \<Rightarrow> 'd index_destination \<Rightarrow> ix_options \<Rightarrow> int \<Rightarrow> 'd ix_state \<Rightarrow> ('d ix_state \<times> (goerr + unit)) option" where
  "finish_cleanup env dst opts climit x =
     (if io_cleanup opts = CleanupScopedFull then
        (if xs_touched x = [] then Some (x, Inr ()) else cleanup_keys env dst (xs_touched x) climit x)
      else if io_cleanup opts = CleanupFull then cleanup_keys env dst [] climit x
      else Some (x, Inr ()))"

definition mode_name :: "cleanup_mode \<Rightarrow> string" where
  "mode_name m = (case m of CleanupNone \<Rightarrow> [] | CleanupIncremental \<Rightarrow> ''incremental'' | CleanupFull \<Rightarrow> ''full''
     | CleanupScopedFull \<Rightarrow> ''scoped_full'' | CleanupOther t \<Rightarrow> t)"

definition validate_inputs :: "ix_options \<Rightarrow> goerr + int \<times> int" where
  "validate_inputs opts =
     (case io_cleanup opts of
        CleanupOther t \<Rightarrow>
          Inl (EText (''cleanup should be one of '' @ go_quote [] @ '', '' @ go_quote ''incremental'' @ '', '' @ go_quote ''full''
            @ '', or '' @ go_quote ''scoped_full'' @ ''; got '' @ go_quote t))
      | m \<Rightarrow>
          (if (m = CleanupIncremental \<or> m = CleanupScopedFull) \<and> io_source_key opts = [] then
             Inl (EText (mode_name m @ '' cleanup requires SourceIDKey''))
           else Inr (if io_batch opts \<le> 0 then 100 else io_batch opts,
                     if io_cleanup_batch opts \<le> 0 then 1000 else io_cleanup_batch opts)))"

definition start_index :: "ix_env \<Rightarrow> record_manager \<Rightarrow> 'd \<Rightarrow> 'd ix_state" where
  "start_index env m d =
     \<lparr>xs_rm = m, xs_dest = d, xs_reads = 1, xs_polls = 0,
      xs_result = \<lparr>num_added = 0, num_updated = 0, num_deleted = 0, num_skipped = 0\<rparr>, xs_touched = [], xs_start = xe_clock env 0\<rparr>"

function index_batches ::
  "ix_env \<Rightarrow> 'd index_destination \<Rightarrow> ix_options \<Rightarrow> int \<Rightarrow> nat \<Rightarrow> doc list \<Rightarrow> 'd ix_state \<Rightarrow> ('d ix_state \<times> (goerr + unit)) option" where
  "index_batches env dst opts climit per docs x =
     (if docs = [] \<or> per = 0 then Some (x, Inr ())
      else case index_batch env dst opts climit (take per docs) x of
             None \<Rightarrow> None
           | Some (x', Inl e) \<Rightarrow> Some (x', Inl e)
           | Some (x', Inr _) \<Rightarrow> index_batches env dst opts climit per (drop per docs) x')"
  by pat_completeness auto

termination
  by (relation "measure (\<lambda>(env, dst, opts, climit, per, docs, x). length docs)") auto

declare index_batches.simps [simp del]

definition then_finish ::
  "ix_env \<Rightarrow> 'd index_destination \<Rightarrow> ix_options \<Rightarrow> int \<Rightarrow> ('d ix_state \<times> (goerr + unit)) option \<Rightarrow> ('d ix_state \<times> (goerr + unit)) option" where
  "then_finish env dst opts climit res =
     (case res of
        None \<Rightarrow> None
      | Some (x, Inl e) \<Rightarrow> Some (x, Inl e)
      | Some (x, Inr _) \<Rightarrow> finish_cleanup env dst opts climit x)"

definition index_documents ::
  "ix_env \<Rightarrow> 'd index_destination \<Rightarrow> ix_options \<Rightarrow> doc list \<Rightarrow> record_manager \<Rightarrow> 'd \<Rightarrow> ('d ix_state \<times> (goerr + unit)) option" where
  "index_documents env dst opts docs m d =
     (case validate_inputs opts of
        Inl e \<Rightarrow> Some (start_index env m d, Inl e)
      | Inr (per, climit) \<Rightarrow>
          then_finish env dst opts climit (index_batches env dst opts climit (nat per) docs (start_index env m d)))"

text \<open>
  \<open>IndexDocumentIterator\<close>: the iterator is what its calls return, one after the other; at the end of the
  list it says it is done.
\<close>

fun index_iteration ::
  "ix_env \<Rightarrow> 'd index_destination \<Rightarrow> ix_options \<Rightarrow> int \<Rightarrow> nat \<Rightarrow> (goerr + doc) list \<Rightarrow> doc list \<Rightarrow> 'd ix_state
    \<Rightarrow> ('d ix_state \<times> (goerr + unit)) option" where
  "index_iteration env dst opts climit per [] batch x =
     (case poll env x of
        (x1, Some e) \<Rightarrow> Some (x1, Inl e)
      | (x1, None) \<Rightarrow> (if batch = [] then Some (x1, Inr ()) else index_batch env dst opts climit batch x1))"
| "index_iteration env dst opts climit per (n # ns) batch x =
     (case poll env x of
        (x1, Some e) \<Rightarrow> Some (x1, Inl e)
      | (x1, None) \<Rightarrow>
          (case n of
             Inl e \<Rightarrow> Some (x1, Inl e)
           | Inr d \<Rightarrow>
               (if length batch + 1 < per then index_iteration env dst opts climit per ns (batch @ [d]) x1
                else case index_batch env dst opts climit (batch @ [d]) x1 of
                       None \<Rightarrow> None
                     | Some (x2, Inl e) \<Rightarrow> Some (x2, Inl e)
                     | Some (x2, Inr _) \<Rightarrow> index_iteration env dst opts climit per ns [] x2)))"

definition index_document_iterator ::
  "ix_env \<Rightarrow> 'd index_destination \<Rightarrow> ix_options \<Rightarrow> (goerr + doc) list \<Rightarrow> record_manager \<Rightarrow> 'd \<Rightarrow> ('d ix_state \<times> (goerr + unit)) option" where
  "index_document_iterator env dst opts ns m d =
     (case validate_inputs opts of
        Inl e \<Rightarrow> Some (start_index env m d, Inl e)
      | Inr (per, climit) \<Rightarrow>
          then_finish env dst opts climit (index_iteration env dst opts climit (nat per) ns [] (start_index env m d)))"

subsection \<open>Records\<close>

definition known :: "record_manager \<Rightarrow> string \<Rightarrow> im_record option" where
  "known m key = map_of (rm_records m) (namespaced m key)"

text \<open>Every record has a key of this manager's namespace.\<close>

definition rm_ok :: "record_manager \<Rightarrow> bool" where
  "rm_ok m \<longleftrightarrow> (\<forall>k. map_of (rm_records m) k \<noteq> None \<longrightarrow> namespaced m (unnamespace m k) = k)"

lemma unnamespace_namespaced [simp]: "unnamespace m (namespaced m key) = key"
  by (simp add: unnamespace_def namespaced_def)

lemma namespaced_inj [simp]: "namespaced m a = namespaced m b \<longleftrightarrow> a = b"
  using unnamespace_namespaced by metis

lemma namespaced_ns: "rm_ns m' = rm_ns m \<Longrightarrow> namespaced m' = namespaced m"
  by (simp add: namespaced_def fun_eq_iff)

lemma unnamespace_ns: "rm_ns m' = rm_ns m \<Longrightarrow> unnamespace m' = unnamespace m"
  by (simp add: unnamespace_def fun_eq_iff)

lemma map_of_fold_mdel: "map_of (fold (\<lambda>k. mdel (f k)) ks m) k' = (if k' \<in> f ` set ks then None else map_of m k')"
  by (induction ks arbitrary: m) auto

lemma rm_delete_ns [simp]:
  "rm_ns (rm_delete_keys keys m) = rm_ns m" "namespaced (rm_delete_keys keys m) = namespaced m"
  "unnamespace (rm_delete_keys keys m) = unnamespace m"
  by (simp_all add: rm_delete_keys_def namespaced_def unnamespace_def fun_eq_iff)

lemma rm_delete_records: "map_of (rm_records (rm_delete_keys keys m)) k = (if k \<in> namespaced m ` set keys then None else map_of (rm_records m) k)"
  by (simp add: rm_delete_keys_def map_of_fold_mdel)

lemma known_delete: "known (rm_delete_keys keys m) key = (if key \<in> set keys then None else known m key)"
  by (auto simp: known_def rm_delete_records)

lemma rm_delete_ok: "rm_ok m \<Longrightarrow> rm_ok (rm_delete_keys keys m)"
  by (simp add: rm_ok_def rm_delete_records)

lemma map_of_fold_enumerate:
  "k \<notin> g ` set keys \<Longrightarrow> map_of (fold (\<lambda>(i, key). mput (g key) (f i)) (enumerate n keys) m) k = map_of m k"
  by (induction keys arbitrary: n m) auto

lemma map_of_fold_enumerate_nth:
  "inj g \<Longrightarrow> distinct keys \<Longrightarrow> i < length keys \<Longrightarrow>
   map_of (fold (\<lambda>(i, key). mput (g key) (f i)) (enumerate n keys) m) (g (keys ! i)) = Some (f (n + i))"
proof (induction keys arbitrary: n m i)
  case (Cons a keys)
  then have "g a \<notin> g ` set keys" by (auto dest: injD)
  with Cons show ?case by (cases i) (simp_all add: map_of_fold_enumerate)
qed simp

lemma namespaced_injective: "inj (namespaced m)"
  by (rule injI) simp

lemma rm_update_known:
  assumes "rm_update keys groups at_least now m = (m', Inr u)" and "distinct keys"
  shows "key \<notin> set keys \<Longrightarrow> known m' key = known m key"
    and "i < length keys \<Longrightarrow> known m' (keys ! i) = Some \<lparr>ir_group = (if groups \<noteq> [] then groups ! i else []), ir_updated = now\<rparr>"
    and "rm_ok m \<Longrightarrow> rm_ok m'" and "rm_ns m' = rm_ns m"
proof -
  define f where "f = (\<lambda>i. \<lparr>ir_group = (if groups \<noteq> [] then groups ! i else []), ir_updated = now\<rparr>)"
  define rs where "rs = fold (\<lambda>(i, key). mput (namespaced m key) (f i)) (enumerate 0 keys) (rm_records m)"
  have m': "m' = m\<lparr>rm_records := rs\<rparr>"
    using assms(1) by (auto simp: rm_update_def rs_def f_def split: if_splits)
  note other = map_of_fold_enumerate [of _ "namespaced m" keys f 0 "rm_records m", folded rs_def]
  note at = map_of_fold_enumerate_nth [OF namespaced_injective [of m] assms(2), of _ f 0 "rm_records m", folded rs_def]
  show ns: "rm_ns m' = rm_ns m" by (simp add: m')
  have known: "known m' k = map_of rs (namespaced m k)" for k by (simp add: known_def namespaced_ns [OF ns]) (simp add: m')
  show "known m' key = known m key" if "key \<notin> set keys"
    unfolding known using other [of "namespaced m key"] that by (simp add: known_def image_iff)
  show "known m' (keys ! i) = Some \<lparr>ir_group = (if groups \<noteq> [] then groups ! i else []), ir_updated = now\<rparr>" if "i < length keys"
    unfolding known using at [OF that] by (simp add: f_def)
  show "rm_ok m'" if "rm_ok m"
    unfolding rm_ok_def namespaced_ns [OF ns] unnamespace_ns [OF ns]
  proof (intro allI impI)
    fix k
    assume k: "map_of (rm_records m') k \<noteq> None"
    show "namespaced m (unnamespace m k) = k"
    proof (cases "k \<in> namespaced m ` set keys")
      case False
      with other k have "map_of (rm_records m) k \<noteq> None" by (simp add: m')
      with that show ?thesis by (simp add: rm_ok_def)
    qed auto
  qed
qed

lemma rm_exists_known: "rm_exists keys m = map (\<lambda>key. known m key \<noteq> None) keys"
  by (simp add: rm_exists_def known_def mhas_def)

text \<open>The stale keys: what a listing without a limit returns; a listing with one returns some of them.\<close>

definition stale_keys :: "string list \<Rightarrow> int \<Rightarrow> record_manager \<Rightarrow> string set" where
  "stale_keys groups before m = {key. \<exists>r. known m key = Some r \<and> rm_stale groups before r}"

lemma listed_keys:
  assumes "rm_ok m"
  shows "set (rm_list_keys groups before limit m) \<subseteq> stale_keys groups before m"
    and "rm_list_keys groups before limit m = [] \<longleftrightarrow> stale_keys groups before m = {}" and "distinct (rm_list_keys groups before limit m)"
proof -
  let ?ks = "filter (\<lambda>k. case map_of (rm_records m) k of None \<Rightarrow> False | Some r \<Rightarrow> rm_stale groups before r) (mkeys (rm_records m))"
  have ks: "k \<in> set ?ks \<longleftrightarrow> (\<exists>r. map_of (rm_records m) k = Some r \<and> rm_stale groups before r)" for k
    using in_mkeys_iff [of k "rm_records m"] by (cases "map_of (rm_records m) k") auto
  have ok: "namespaced m (unnamespace m k) = k" if "k \<in> set ?ks" for k
    using assms that ks unfolding rm_ok_def by (metis option.distinct(1))
  have all: "unnamespace m ` set ?ks = stale_keys groups before m"
  proof (intro set_eqI iffI)
    fix key
    assume "key \<in> unnamespace m ` set ?ks"
    then show "key \<in> stale_keys groups before m" using ks ok by (auto simp: stale_keys_def known_def simp del: set_mkeys)
  next
    fix key
    assume "key \<in> stale_keys groups before m"
    then have "namespaced m key \<in> set ?ks" unfolding ks by (auto simp: stale_keys_def known_def)
    then show "key \<in> unnamespace m ` set ?ks" by (rule rev_image_eqI) simp
  qed
  have out: "rm_list_keys groups before limit m = (if limit > 0 then take (nat limit) (map (unnamespace m) ?ks) else map (unnamespace m) ?ks)"
    by (simp add: rm_list_keys_def Let_def)
  show "set (rm_list_keys groups before limit m) \<subseteq> stale_keys groups before m"
    unfolding all [symmetric] out by (auto dest: in_set_takeD)
  show "rm_list_keys groups before limit m = [] \<longleftrightarrow> stale_keys groups before m = {}"
    unfolding all [symmetric] out by (simp del: set_filter filter_empty_conv)
  have "inj_on (unnamespace m) (set ?ks)" using ok by (rule inj_on_inverseI)
  then have "distinct (map (unnamespace m) ?ks)" by (simp add: distinct_map del: set_filter)
  then show "distinct (rm_list_keys groups before limit m)" unfolding out by simp
qed

lemma finite_stale: "finite (stale_keys groups before m)"
proof (rule finite_subset)
  show "stale_keys groups before m \<subseteq> unnamespace m ` (fst ` set (rm_records m))"
    by (force simp: stale_keys_def known_def dest!: map_of_SomeD intro: rev_image_eqI)
qed simp

lemma stale_delete: "stale_keys groups before (rm_delete_keys keys m) = stale_keys groups before m - set keys"
  by (auto simp: stale_keys_def known_delete)

subsection \<open>The documents of a batch\<close>

text \<open>
  What a run needs of its documents and its options: every document has a non-empty key that does not
  depend on its ID, has a source if sources are kept, and documents with one key have one source.
\<close>

definition source :: "ix_options \<Rightarrow> doc \<Rightarrow> string" where
  "source opts d = (case map_of (doc_meta d) (io_source_key opts) of Some (VStr s) \<Rightarrow> s | _ \<Rightarrow> [])"

definition has_key :: "ix_options \<Rightarrow> doc \<Rightarrow> string \<Rightarrow> bool" where
  "has_key opts d k \<longleftrightarrow> io_hash opts d = Inr k"

definition keys_of :: "ix_options \<Rightarrow> doc set \<Rightarrow> string set" where
  "keys_of opts ds = {k. \<exists>d \<in> ds. has_key opts d k}"

definition sources_of :: "ix_options \<Rightarrow> doc set \<Rightarrow> string set" where
  "sources_of opts ds = (if io_source_key opts = [] then {} else source opts ` ds)"

definition indexable :: "ix_options \<Rightarrow> doc set \<Rightarrow> bool" where
  "indexable opts ds \<longleftrightarrow>
     (\<forall>d i. io_hash opts (d\<lparr>doc_id := i\<rparr>) = io_hash opts d) \<and> (\<forall>d k. has_key opts d k \<longrightarrow> k \<noteq> []) \<and>
     (\<forall>d \<in> ds. \<exists>k. has_key opts d k) \<and> (io_source_key opts \<noteq> [] \<longrightarrow> (\<forall>d \<in> ds. source opts d \<noteq> [])) \<and>
     (\<forall>d \<in> ds. \<forall>d' \<in> ds. io_hash opts d = io_hash opts d' \<longrightarrow> source opts d = source opts d')"

lemma indexable_mono: "indexable opts ds \<Longrightarrow> ds' \<subseteq> ds \<Longrightarrow> indexable opts ds'"
  unfolding indexable_def by blast

lemma indexable_key: "indexable opts ds \<Longrightarrow> d \<in> ds \<Longrightarrow> \<exists>k. has_key opts d k \<and> k \<noteq> []"
  unfolding indexable_def by blast

lemma indexable_source: "indexable opts ds \<Longrightarrow> d \<in> ds \<Longrightarrow> io_source_key opts \<noteq> [] \<Longrightarrow> source opts d \<noteq> []"
  unfolding indexable_def by blast

lemma indexable_same: "indexable opts ds \<Longrightarrow> d \<in> ds \<Longrightarrow> d' \<in> ds \<Longrightarrow> io_hash opts d = io_hash opts d' \<Longrightarrow> source opts d = source opts d'"
  unfolding indexable_def by blast

lemma keys_of_Un [simp]: "keys_of opts (a \<union> b) = keys_of opts a \<union> keys_of opts b" "keys_of opts {} = {}"
  by (auto simp: keys_of_def)

lemma sources_of_Un [simp]: "sources_of opts (a \<union> b) = sources_of opts a \<union> sources_of opts b" "sources_of opts {} = {}"
  by (auto simp: sources_of_def)

text \<open>The state that collecting leaves differs in the skipped count and the touched groups only.\<close>

definition collected :: "ix_options \<Rightarrow> doc list \<Rightarrow> string list \<Rightarrow> string list \<Rightarrow> bool" where
  "collected opts docs keys groups \<longleftrightarrow>
     distinct keys \<and> list_all2 (has_key opts) docs keys \<and> groups = (if io_source_key opts = [] then [] else map (source opts) docs)"

lemma collect_batch_collects:
  assumes "indexable opts (set docs \<union> set ds)" and "collected opts docs keys groups"
    and "sources_of opts (set docs) \<subseteq> set (xs_touched x)"
  shows "\<exists>docs' keys' groups' n touched. collect_batch opts ds (docs, keys, groups) x =
      (x\<lparr>xs_result := (xs_result x)\<lparr>num_skipped := num_skipped (xs_result x) + n\<rparr>, xs_touched := touched\<rparr>, Inr (docs', keys', groups')) \<and>
    collected opts docs' keys' groups' \<and> set keys' = set keys \<union> keys_of opts (set ds) \<and> set docs' \<subseteq> set docs \<union> set ds \<and>
    set touched = set (xs_touched x) \<union> sources_of opts (set ds) \<and>
    length docs' + n = length docs + length ds"
  using assms
proof (induction ds arbitrary: docs keys groups x)
  case Nil
  then show ?case
    by (intro exI [of _ docs] exI [of _ keys] exI [of _ groups] exI [of _ "0::nat"] exI [of _ "xs_touched x"]) simp
next
  case (Cons d ds)
  obtain key where key: "io_hash opts d = Inr key" using Cons.prems(1) by (auto simp: indexable_def has_key_def)
  have sub: "indexable opts (set docs \<union> set ds)" "indexable opts (set (docs @ [d]) \<union> set ds)"
    using Cons.prems(1) by (auto elim!: indexable_mono)
  have keys_d: "keys_of opts (set (d # ds)) = insert key (keys_of opts (set ds))" by (auto simp: keys_of_def has_key_def key)
  show ?case
  proof (cases "key \<in> set keys")
    case True
    then obtain i where i: "i < length keys" "keys ! i = key" by (auto simp: in_set_conv_nth)
    with Cons.prems(2) have same: "io_hash opts (docs ! i) = io_hash opts d" "docs ! i \<in> set docs"
      by (auto simp: collected_def list_all2_conv_all_nth has_key_def key)
    then have src: "source opts (docs ! i) = source opts d" using Cons.prems(1) unfolding indexable_def by (meson UnCI list.set_intros(1))
    have "sources_of opts {d} \<subseteq> set (xs_touched x)"
    proof -
      have "source opts d \<in> source opts ` set docs" using same(2) src by (metis imageI)
      then show ?thesis using Cons.prems(3) by (auto simp: sources_of_def)
    qed
    then have touched_d: "set (xs_touched x) \<union> sources_of opts (set (d # ds)) = set (xs_touched x) \<union> sources_of opts (set ds)"
      using sources_of_Un(1) [of opts "{d}" "set ds"] by auto
    have "sources_of opts (set docs) \<subseteq> set (xs_touched (skip_one x))" using Cons.prems(3) by (simp add: skip_one_def)
    from Cons.IH [OF sub(1) Cons.prems(2) this]
    obtain docs' keys' groups' n touched where IH: "collect_batch opts ds (docs, keys, groups) (skip_one x) =
        ((skip_one x)\<lparr>xs_result := (xs_result (skip_one x))\<lparr>num_skipped := num_skipped (xs_result (skip_one x)) + n\<rparr>, xs_touched := touched\<rparr>,
          Inr (docs', keys', groups'))"
        "collected opts docs' keys' groups'" "set keys' = set keys \<union> keys_of opts (set ds)" "set docs' \<subseteq> set docs \<union> set ds"
        "set touched = set (xs_touched (skip_one x)) \<union> sources_of opts (set ds)"
        "length docs' + n = length docs + length ds"
      by blast
    show ?thesis
      using True key IH unfolding keys_d touched_d
      by (intro exI [of _ docs'] exI [of _ keys'] exI [of _ groups'] exI [of _ "Suc n"] exI [of _ touched]) (auto simp: skip_one_def)
  next
    case False
    let ?groups = "if io_source_key opts = [] then groups else groups @ [source opts d]"
    let ?x = "if io_source_key opts = [] then x else x\<lparr>xs_touched := List.insert (source opts d) (xs_touched x)\<rparr>"
    have step: "collect_batch opts (d # ds) (docs, keys, groups) x = collect_batch opts ds (docs @ [d], keys @ [key], ?groups) ?x"
    proof (cases "io_source_key opts = []")
      case True
      then show ?thesis using False key by simp
    next
      case nonempty: False
      with Cons.prems(1) have "source opts d \<noteq> []" by (auto simp: indexable_def)
      then obtain c cs where "source opts d = c # cs" "map_of (doc_meta d) (io_source_key opts) = Some (VStr (c # cs))"
        unfolding source_def by (cases "source opts d") (auto simp: source_def split: option.splits gval.splits)
      then show ?thesis using False nonempty key by simp
    qed
    have touched_x: "sources_of opts (set (docs @ [d])) \<subseteq> set (xs_touched ?x)"
      using Cons.prems(3) by (auto simp: sources_of_def image_subset_iff)
    have "collected opts (docs @ [d]) (keys @ [key]) ?groups"
      using Cons.prems(2) False by (auto simp: collected_def has_key_def key intro: list_all2_appendI)
    from Cons.IH [OF sub(2) this touched_x]
    obtain docs' keys' groups' n touched where IH: "collect_batch opts ds (docs @ [d], keys @ [key], ?groups) ?x =
        (?x\<lparr>xs_result := (xs_result ?x)\<lparr>num_skipped := num_skipped (xs_result ?x) + n\<rparr>, xs_touched := touched\<rparr>, Inr (docs', keys', groups'))"
        "collected opts docs' keys' groups'" "set keys' = set (keys @ [key]) \<union> keys_of opts (set ds)" "set docs' \<subseteq> set (docs @ [d]) \<union> set ds"
        "set touched = set (xs_touched ?x) \<union> sources_of opts (set ds)"
        "length docs' + n = length (docs @ [d]) + length ds"
      by blast
    have "set (xs_touched ?x) \<union> sources_of opts (set ds) = set (xs_touched x) \<union> sources_of opts (set (d # ds))"
      by (auto simp: sources_of_def)
    then show ?thesis
      unfolding step keys_d using IH
      by (intro exI [of _ docs'] exI [of _ keys'] exI [of _ groups'] exI [of _ n] exI [of _ touched]) (auto split: if_splits)
  qed
qed

subsection \<open>The contract of a destination\<close>

text \<open>
  Seen as a map from IDs to documents, a destination stores the documents it is given under their IDs and
  forgets the IDs it is told to delete, without failing.
\<close>

definition store_docs :: "doc list \<Rightarrow> (string \<rightharpoonup> doc) \<Rightarrow> (string \<rightharpoonup> doc)" where
  "store_docs ds m = fold (\<lambda>d m. m(doc_id d \<mapsto> d)) ds m"

lemma store_docs_simps [simp]: "store_docs [] m = m" "store_docs (d # ds) m = store_docs ds (m(doc_id d \<mapsto> d))"
  by (simp_all add: store_docs_def)

lemma store_docs_other: "k \<notin> doc_id ` set ds \<Longrightarrow> store_docs ds m k = m k"
  by (induction ds arbitrary: m) auto

lemma store_docs_at: "distinct (map doc_id ds) \<Longrightarrow> d \<in> set ds \<Longrightarrow> store_docs ds m (doc_id d) = Some d"
proof (induction ds arbitrary: m)
  case (Cons a ds)
  then show ?case by (cases "d = a") (auto simp: store_docs_other)
qed simp

definition to_write :: "bool \<Rightarrow> (doc \<times> string \<times> bool) list \<Rightarrow> doc list" where
  "to_write force ps = map (\<lambda>(d, key, e). d\<lparr>doc_id := key\<rparr>) (filter (\<lambda>(d, key, e). e \<longrightarrow> force) ps)"

lemma plan_adds_result:
  "\<exists>r'. plan_adds force ps r = (to_write force ps, r') \<and> num_deleted r' = num_deleted r \<and>
     num_added r' + num_updated r' + num_skipped r' = num_added r + num_updated r + num_skipped r + length ps \<and>
     num_added r' = num_added r + length (filter (\<lambda>p. \<not> snd (snd p)) ps) \<and> (\<not> force \<longrightarrow> num_updated r' = num_updated r)"
proof (induction ps arbitrary: r)
  case (Cons p ps)
  obtain d key e where p: "p = (d, key, e)" by (cases p) auto
  let ?r = "if e \<and> \<not> force then r\<lparr>num_skipped := num_skipped r + 1\<rparr>
    else if e then r\<lparr>num_updated := num_updated r + 1\<rparr> else r\<lparr>num_added := num_added r + 1\<rparr>"
  from Cons.IH [of ?r] show ?case by (cases e; cases force) (auto simp: p to_write_def)
qed (simp add: to_write_def)

text \<open>What a batch writes: under every collected key its document, unless the key is known and need not be written.\<close>

lemma to_write_stores:
  assumes "collected opts docs keys groups" and "es = map (\<lambda>k. known m k \<noteq> None) keys" and "ps = zip docs (zip keys es)"
  shows "d \<in> set (to_write force ps) \<Longrightarrow> doc_id d \<in> set keys"
    and "k \<notin> set keys \<Longrightarrow> store_docs (to_write force ps) v k = v k"
    and "i < length keys \<Longrightarrow> store_docs (to_write force ps) v (keys ! i) =
      (if known m (keys ! i) \<noteq> None \<and> \<not> force then v (keys ! i) else Some ((docs ! i)\<lparr>doc_id := keys ! i\<rparr>))"
    and "length ps = length docs" and "length (filter (\<lambda>p. \<not> snd (snd p)) ps) = card {k \<in> set keys. known m k = None}"
proof -
  have len: "length docs = length keys" "length es = length keys"
    using assms(1,2) by (auto simp: collected_def dest: list_all2_lengthD)
  have dist: "distinct keys" using assms(1) by (simp add: collected_def)
  show "length ps = length docs" using len assms(3) by simp
  have mem: "(d, k, e) \<in> set ps \<longleftrightarrow> (\<exists>i < length keys. d = docs ! i \<and> k = keys ! i \<and> e = (known m k \<noteq> None))" for d k e
    using len unfolding assms(2,3) by (auto simp: in_set_conv_nth)
  have ks: "map (\<lambda>p. fst (snd p)) ps = keys" using len unfolding assms(3) by (auto intro: nth_equalityI)
  show in_keys: "doc_id d \<in> set keys" if "d \<in> set (to_write force ps)" for d
    using that mem by (auto simp: to_write_def)
  then show other: "store_docs (to_write force ps) v k = v k" if "k \<notin> set keys" for k
    using that by (intro store_docs_other) auto
  have ids: "map doc_id (to_write force ps) = map (\<lambda>p. fst (snd p)) (filter (\<lambda>(d, k, e). e \<longrightarrow> force) ps)"
    by (simp add: to_write_def case_prod_unfold)
  have id_dist: "distinct (map doc_id (to_write force ps))"
    unfolding ids by (rule distinct_map_filter) (simp add: ks dist)
  show "store_docs (to_write force ps) v (keys ! i) =
      (if known m (keys ! i) \<noteq> None \<and> \<not> force then v (keys ! i) else Some ((docs ! i)\<lparr>doc_id := keys ! i\<rparr>))"
    if i: "i < length keys"
  proof (cases "known m (keys ! i) \<noteq> None \<and> \<not> force")
    case True
    have "keys ! i \<noteq> doc_id d" if "d \<in> set (to_write force ps)" for d
    proof
      assume same: "keys ! i = doc_id d"
      from that obtain d0 k e where "(d0, k, e) \<in> set ps" "e \<longrightarrow> force" "d = d0\<lparr>doc_id := k\<rparr>" by (auto simp: to_write_def)
      with same mem True show False by auto
    qed
    with True show ?thesis using store_docs_other [of "keys ! i" "to_write force ps" v] by auto
  next
    case False
    have "(docs ! i, keys ! i, known m (keys ! i) \<noteq> None) \<in> set ps" using mem i by blast
    then have "(docs ! i)\<lparr>doc_id := keys ! i\<rparr> \<in> set (to_write force ps)"
      using False by (force simp: to_write_def image_iff)
    from store_docs_at [OF id_dist this] False show ?thesis by auto
  qed
  have flags: "map (\<lambda>p. snd (snd p)) ps = map (\<lambda>p. known m (fst (snd p)) \<noteq> None) ps"
    using mem by (auto intro!: map_cong [OF refl])
  then have "filter (\<lambda>p. \<not> snd (snd p)) ps = filter (\<lambda>p. known m (fst (snd p)) = None) ps"
    by (intro filter_cong [OF refl]) (auto dest: map_eq_conv [THEN iffD1, rule_format])
  then have "map (\<lambda>p. fst (snd p)) (filter (\<lambda>p. \<not> snd (snd p)) ps) = filter (\<lambda>k. known m k = None) keys"
    by (simp add: ks [symmetric] filter_map o_def)
  then have "length (filter (\<lambda>p. \<not> snd (snd p)) ps) = length (filter (\<lambda>k. known m k = None) keys)"
    by (metis length_map)
  also have "\<dots> = card (set (filter (\<lambda>k. known m k = None) keys))" using dist by (simp add: distinct_card del: set_filter)
  finally show "length (filter (\<lambda>p. \<not> snd (snd p)) ps) = card {k \<in> set keys. known m k = None}" by simp
qed

lemma set_unique_strings: "set (unique_strings vs) = set vs - {[]}"
  by (induction vs rule: rev_induct) (auto simp: unique_strings_def)

text \<open>
  What a run leaves of one key, given the documents it has seen and which of the old records it has swept:
  a key of a document is recorded with its source and holds the document; another one is gone if it was
  swept and as before if it was not. A known document is not written again, unless that is forced or an
  incremental cleanup has deleted it before its batch came.
\<close>

definition keeps :: "ix_options \<Rightarrow> bool" where
  "keeps opts \<longleftrightarrow> \<not> io_force opts \<and> io_cleanup opts \<noteq> CleanupIncremental"

definition holds :: "ix_options \<Rightarrow> doc set \<Rightarrow> string \<Rightarrow> doc option \<Rightarrow> doc option \<Rightarrow> bool" where
  "holds opts ds k old new \<longleftrightarrow>
     (if keeps opts \<and> old \<noteq> None then new = old
      else (\<not> io_force opts \<and> old \<noteq> None \<and> new = old) \<or> (\<exists>d \<in> ds. has_key opts d k \<and> new = Some (d\<lparr>doc_id := k\<rparr>)))"

definition recorded :: "ix_options \<Rightarrow> ix_env \<Rightarrow> doc set \<Rightarrow> string \<Rightarrow> im_record option \<Rightarrow> bool" where
  "recorded opts env ds k rec \<longleftrightarrow>
     (\<exists>d \<in> ds. \<exists>n. has_key opts d k \<and>
        rec = Some \<lparr>ir_group = (if io_source_key opts = [] then [] else source opts d), ir_updated = xe_clock env n\<rparr>)"

definition outcome :: "ix_options \<Rightarrow> ix_env \<Rightarrow> doc set \<Rightarrow> (im_record \<Rightarrow> bool) \<Rightarrow> record_manager \<Rightarrow> (string \<rightharpoonup> doc)
    \<Rightarrow> record_manager \<Rightarrow> (string \<rightharpoonup> doc) \<Rightarrow> bool" where
  "outcome opts env ds gone m v m' v' \<longleftrightarrow>
     rm_ok m' \<and>
     (\<forall>k. if k \<in> keys_of opts ds then recorded opts env ds k (known m' k) \<and> holds opts ds k (v k) (v' k)
          else if \<exists>r. known m k = Some r \<and> gone r then known m' k = None \<and> v' k = None
          else known m' k = known m k \<and> v' k = v k)"

text \<open>Destination and record manager know the same keys, and the records are older than the run.\<close>

definition in_step :: "ix_env \<Rightarrow> record_manager \<Rightarrow> (string \<rightharpoonup> doc) \<Rightarrow> bool" where
  "in_step env m v \<longleftrightarrow> rm_ok m \<and> (\<forall>k. v k = None \<longleftrightarrow> known m k = None) \<and> (\<forall>k r. known m k = Some r \<longrightarrow> ir_updated r < xe_clock env 0)"

definition clock_ok :: "ix_env \<Rightarrow> bool" where
  "clock_ok env \<longleftrightarrow> xe_clock env 0 \<noteq> 0 \<and> (\<forall>n. xe_clock env 0 \<le> xe_clock env n) \<and> (\<forall>n. xe_ended env n = None)"

lemma holds_mono: "holds opts ds k old new \<Longrightarrow> ds \<subseteq> ds' \<Longrightarrow> holds opts ds' k old new"
  unfolding holds_def by (auto split: if_splits)

lemma recorded_mono: "recorded opts env ds k rec \<Longrightarrow> ds \<subseteq> ds' \<Longrightarrow> recorded opts env ds' k rec"
  unfolding recorded_def by blast

lemma holds_some: "holds opts ds k old new \<Longrightarrow> new \<noteq> None"
  unfolding holds_def by (auto split: if_splits)

lemma recorded_some: "recorded opts env ds k rec \<Longrightarrow> rec \<noteq> None"
  unfolding recorded_def by auto

lemma outcome_at:
  assumes "outcome opts env ds gone m v m' v'"
  shows "k \<in> keys_of opts ds \<Longrightarrow> recorded opts env ds k (known m' k) \<and> holds opts ds k (v k) (v' k)"
    and "k \<notin> keys_of opts ds \<Longrightarrow> known m k = Some r \<Longrightarrow> gone r \<Longrightarrow> known m' k = None \<and> v' k = None"
    and "k \<notin> keys_of opts ds \<Longrightarrow> \<forall>r. known m k = Some r \<longrightarrow> \<not> gone r \<Longrightarrow> known m' k = known m k \<and> v' k = v k"
  using assms[unfolded outcome_def, THEN conjunct2, rule_format, of k] by auto

lemma outcome_start: "rm_ok m \<Longrightarrow> outcome opts env {} (\<lambda>r. False) m v m v"
  by (simp add: outcome_def)

lemma outcome_write:
  assumes old: "outcome opts env ds gone m v m1 v1" and "in_step env m v"
    and gone: "io_cleanup opts \<noteq> CleanupIncremental \<Longrightarrow> gone = (\<lambda>r. False)"
    and ok: "rm_ok m2"
    and fresh: "\<And>k. k \<in> keys_of opts new \<Longrightarrow> recorded opts env new k (known m2 k) \<and>
        (if known m1 k \<noteq> None \<and> \<not> io_force opts then v2 k = v1 k else \<exists>d \<in> new. has_key opts d k \<and> v2 k = Some (d\<lparr>doc_id := k\<rparr>))"
    and rest: "\<And>k. k \<notin> keys_of opts new \<Longrightarrow> known m2 k = known m1 k \<and> v2 k = v1 k"
  shows "outcome opts env (ds \<union> new) gone m v m2 v2"
  unfolding outcome_def
proof (intro conjI allI)
  fix k
  note at = outcome_at [OF old, of k]
  have agree: "v k = None \<longleftrightarrow> known m k = None" using assms(2) by (simp add: in_step_def)
  show "if k \<in> keys_of opts (ds \<union> new) then recorded opts env (ds \<union> new) k (known m2 k) \<and> holds opts (ds \<union> new) k (v k) (v2 k)
      else if \<exists>r. known m k = Some r \<and> gone r then known m2 k = None \<and> v2 k = None
      else known m2 k = known m k \<and> v2 k = v k"
  proof (cases "k \<in> keys_of opts new")
    case True
    have old_keeps: "holds opts (ds \<union> new) k (v k) (v1 k)" if "known m1 k \<noteq> None" "\<not> io_force opts"
    proof (cases "k \<in> keys_of opts ds")
      case True
      then show ?thesis using at(1) holds_mono [of opts ds k "v k" "v1 k" "ds \<union> new"] by blast
    next
      case False
      have "\<forall>r. known m k = Some r \<longrightarrow> \<not> gone r" using at(2) [OF False] that(1) by auto
      with at(3) [OF False] have same: "known m1 k = known m k" "v1 k = v k" by blast+
      then have "v k \<noteq> None" using that(1) agree by auto
      with same(2) that(2) show ?thesis unfolding holds_def by auto
    qed
    have "holds opts (ds \<union> new) k (v k) (v2 k)"
    proof (cases "known m1 k \<noteq> None \<and> \<not> io_force opts")
      case True
      then show ?thesis using fresh [OF \<open>k \<in> keys_of opts new\<close>] old_keeps by auto
    next
      case False
      then obtain d where d: "d \<in> new" "has_key opts d k" "v2 k = Some (d\<lparr>doc_id := k\<rparr>)" using fresh [OF True] by auto
      have "\<not> (keeps opts \<and> v k \<noteq> None)"
      proof
        assume a: "keeps opts \<and> v k \<noteq> None"
        have "gone = (\<lambda>r. False)" using gone a by (simp add: keeps_def)
        then have "known m1 k \<noteq> None"
          using at(1,3) a agree recorded_some [of opts env ds k "known m1 k"] by (cases "k \<in> keys_of opts ds") auto
        with False a show False by (simp add: keeps_def)
      qed
      with d show ?thesis unfolding holds_def by auto
    qed
    with True fresh show ?thesis using recorded_mono [of opts env new k _ "ds \<union> new"] by auto
  next
    case False
    have "recorded opts env (ds \<union> new) k (known m1 k) \<and> holds opts (ds \<union> new) k (v k) (v1 k)" if "k \<in> keys_of opts ds"
      using at(1) [OF that] recorded_mono [of opts env ds k _ "ds \<union> new"] holds_mono [of opts ds k _ _ "ds \<union> new"] by auto
    with False rest [OF False] old[unfolded outcome_def, THEN conjunct2, rule_format, of k] show ?thesis
      by (cases "k \<in> keys_of opts ds") simp_all
  qed
qed (rule ok)

text \<open>The stale keys of a run are the old ones of the groups that none of its documents has.\<close>

definition in_groups :: "string list \<Rightarrow> im_record \<Rightarrow> bool" where
  "in_groups groups r \<longleftrightarrow> groups = [] \<or> ir_group r \<in> set groups"

lemma stale_of_run:
  assumes old: "outcome opts env ds gone m v m1 v1" and step: "in_step env m v" and clock: "clock_ok env"
  shows "stale_keys groups (xe_clock env 0) m1 = {k. k \<notin> keys_of opts ds \<and> (\<exists>r. known m k = Some r \<and> \<not> gone r \<and> in_groups groups r)}"
proof (intro set_eqI)
  fix k
  note at = old[unfolded outcome_def, THEN conjunct2, rule_format, of k]
  show "k \<in> stale_keys groups (xe_clock env 0) m1 \<longleftrightarrow> k \<in> {k. k \<notin> keys_of opts ds \<and> (\<exists>r. known m k = Some r \<and> \<not> gone r \<and> in_groups groups r)}"
  proof (cases "k \<in> keys_of opts ds")
    case True
    with at obtain r n where r: "known m1 k = Some r" "ir_updated r = xe_clock env n" by (auto simp: recorded_def)
    have "xe_clock env 0 \<noteq> 0" "\<not> xe_clock env n < xe_clock env 0" using clock by (simp_all add: clock_ok_def not_less)
    with r True show ?thesis by (simp add: stale_keys_def rm_stale_def)
  next
    case False
    have "ir_updated r < xe_clock env 0" if "known m k = Some r" for r using step that by (simp add: in_step_def)
    then have "known m k = Some r \<Longrightarrow> rm_stale groups (xe_clock env 0) r = in_groups groups r" for r
      by (simp add: rm_stale_def in_groups_def)
    with False at show ?thesis by (cases "known m k") (auto simp: stale_keys_def split: if_splits)
  qed
qed

lemma outcome_sweep:
  assumes old: "outcome opts env ds gone m v m1 v1" and "in_step env m v" and "clock_ok env"
    and "rm_ok m2" "known m2 = known m1 |` (- stale_keys groups (xe_clock env 0) m1)" "v2 = v1 |` (- stale_keys groups (xe_clock env 0) m1)"
  shows "outcome opts env ds (\<lambda>r. gone r \<or> in_groups groups r) m v m2 v2"
  unfolding outcome_def
proof (intro conjI allI)
  fix k
  note stale = stale_of_run [OF assms(1-3), of groups]
  note at = old[unfolded outcome_def, THEN conjunct2, rule_format, of k]
  show "if k \<in> keys_of opts ds then recorded opts env ds k (known m2 k) \<and> holds opts ds k (v k) (v2 k)
      else if \<exists>r. known m k = Some r \<and> (gone r \<or> in_groups groups r) then known m2 k = None \<and> v2 k = None
      else known m2 k = known m k \<and> v2 k = v k"
  proof (cases "k \<in> keys_of opts ds")
    case True
    then show ?thesis using at unfolding assms(5,6) stale by (simp add: restrict_map_def)
  next
    case False
    with at show ?thesis unfolding assms(5,6) stale
      by (cases "known m k") (auto simp: restrict_map_def split: if_splits)
  qed
qed (rule assms)

lemma collected_sources:
  assumes "collected opts docs keys groups" and "indexable opts (set batch)" and "set keys = keys_of opts (set batch)" and "set docs \<subseteq> set batch"
    and "io_source_key opts \<noteq> []"
  shows "set (unique_strings groups) = sources_of opts (set batch)"
proof -
  have "source opts d \<in> source opts ` set docs" if d: "d \<in> set batch" for d
  proof -
    obtain k where k: "has_key opts d k" using indexable_key [OF assms(2) d] by blast
    then have "k \<in> set keys" using assms(3) d by (auto simp: keys_of_def)
    then obtain i where "i < length keys" "keys ! i = k" by (auto simp: in_set_conv_nth)
    with assms(1) have i: "i < length docs" "has_key opts (docs ! i) k" unfolding collected_def list_all2_conv_all_nth by auto
    then have "io_hash opts d = io_hash opts (docs ! i)" "docs ! i \<in> set batch"
      using k assms(4) nth_mem [of i docs] by (auto simp: has_key_def)
    then have "source opts d = source opts (docs ! i)" using indexable_same [OF assms(2) d] by blast
    with i(1) show ?thesis by simp
  qed
  then have "source opts ` set docs = source opts ` set batch" using assms(4) by blast
  moreover have "[] \<notin> source opts ` set batch" using indexable_source [OF assms(2) _ assms(5)] by force
  ultimately show ?thesis using assms(1,5) by (simp add: collected_def set_unique_strings sources_of_def)
qed

lemma rm_update_succeeds:
  assumes "collected opts docs keys groups" and "clock_ok env"
  shows "\<exists>m'. rm_update keys groups (xe_clock env 0) (xe_clock env n) m = (m', Inr ())"
proof -
  have "\<not> (groups \<noteq> [] \<and> length keys \<noteq> length groups)"
    using assms(1) by (auto simp: collected_def dest: list_all2_lengthD)
  moreover have "\<not> xe_clock env n < xe_clock env 0" using assms(2) by (simp add: clock_ok_def not_less)
  ultimately show ?thesis by (auto simp: rm_update_def)
qed

lemma update_records:
  assumes "collected opts docs keys groups" and "set docs \<subseteq> ds" and "k \<in> set keys"
    and "rm_update keys groups start (xe_clock env n) m = (m', Inr u)"
  shows "recorded opts env ds k (known m' k)"
proof -
  obtain i where i: "i < length keys" "keys ! i = k" using assms(3) by (auto simp: in_set_conv_nth)
  have len: "length docs = length keys" using assms(1) by (auto simp: collected_def dest: list_all2_lengthD)
  have dist: "distinct keys" using assms(1) by (simp add: collected_def)
  have group: "(if groups \<noteq> [] then groups ! i else []) = (if io_source_key opts = [] then [] else source opts (docs ! i))"
    using assms(1) i len by (auto simp: collected_def)
  have "docs ! i \<in> ds" "has_key opts (docs ! i) k" using assms(1,2) i len
    by (auto simp: collected_def list_all2_conv_all_nth)
  with rm_update_known(2) [OF assms(4) dist i(1)] show ?thesis unfolding recorded_def i(2) group by blast
qed

text \<open>The invariant of a run between two batches.\<close>

definition batch_gone :: "ix_options \<Rightarrow> doc set \<Rightarrow> im_record \<Rightarrow> bool" where
  "batch_gone opts ds r \<longleftrightarrow> io_cleanup opts = CleanupIncremental \<and> ir_group r \<in> sources_of opts ds"

definition counts_ok :: "ix_options \<Rightarrow> record_manager \<Rightarrow> doc set \<Rightarrow> nat \<Rightarrow> indexing_result \<Rightarrow> bool" where
  "counts_ok opts m ds n r \<longleftrightarrow>
     num_added r + num_updated r + num_skipped r = n \<and> (\<not> io_force opts \<longrightarrow> num_updated r = 0) \<and>
     (io_cleanup opts \<noteq> CleanupIncremental \<longrightarrow> num_added r = card {k \<in> keys_of opts ds. known m k = None})"

definition run_inv :: "ix_options \<Rightarrow> ix_env \<Rightarrow> ('d \<Rightarrow> string \<rightharpoonup> doc) \<Rightarrow> record_manager \<Rightarrow> 'd \<Rightarrow> doc set \<Rightarrow> nat \<Rightarrow> 'd ix_state \<Rightarrow> bool" where
  "run_inv opts env view m d ds n x \<longleftrightarrow>
     outcome opts env ds (batch_gone opts ds) m (view d) (xs_rm x) (view (xs_dest x)) \<and> counts_ok opts m ds n (xs_result x) \<and>
     (io_cleanup opts \<noteq> CleanupIncremental \<longrightarrow> num_deleted (xs_result x) = 0) \<and>
     set (xs_touched x) = sources_of opts ds \<and> xs_start x = xe_clock env 0"

lemma finite_keys_of: "finite ds \<Longrightarrow> finite (keys_of opts ds)"
proof -
  assume "finite ds"
  moreover have "keys_of opts ds \<subseteq> (\<lambda>d. projr (io_hash opts d)) ` ds" by (force simp: keys_of_def has_key_def)
  ultimately show ?thesis by (auto intro: finite_subset)
qed

lemma counts_add:
  assumes "outcome opts env ds (batch_gone opts ds) m v m1 v1" and "finite ds"
    and "counts_ok opts m ds n r" and "num_added r' + num_updated r' + num_skipped r' = num_added r + num_updated r + num_skipped r + j"
    and "num_added r' = num_added r + card {k \<in> keys_of opts new. known m1 k = None}" and "finite new"
    and "\<not> io_force opts \<longrightarrow> num_updated r' = num_updated r"
  shows "counts_ok opts m (ds \<union> new) (n + j) r'"
  unfolding counts_ok_def
proof (intro conjI impI)
  assume inc: "io_cleanup opts \<noteq> CleanupIncremental"
  have "known m1 k = None \<longleftrightarrow> k \<notin> keys_of opts ds \<and> known m k = None" for k
    using assms(1)[unfolded outcome_def, THEN conjunct2, rule_format, of k] inc
    by (cases "k \<in> keys_of opts ds") (auto simp: batch_gone_def recorded_def)
  then have new: "{k \<in> keys_of opts new. known m1 k = None} = {k \<in> keys_of opts new. k \<notin> keys_of opts ds \<and> known m k = None}" by auto
  have "{k \<in> keys_of opts (ds \<union> new). known m k = None} =
      {k \<in> keys_of opts ds. known m k = None} \<union> {k \<in> keys_of opts new. k \<notin> keys_of opts ds \<and> known m k = None}" by auto
  also have "card \<dots> = card {k \<in> keys_of opts ds. known m k = None} + card {k \<in> keys_of opts new. k \<notin> keys_of opts ds \<and> known m k = None}"
    by (rule card_Un_disjoint) (auto simp: finite_keys_of assms(2,6))
  finally show "num_added r' = card {k \<in> keys_of opts (ds \<union> new). known m k = None}"
    using assms(3,5) inc by (simp add: counts_ok_def new)
qed (use assms in \<open>auto simp: counts_ok_def\<close>)

text \<open>Which old records a whole run sweeps, and how it ends.\<close>

definition run_gone :: "ix_options \<Rightarrow> doc set \<Rightarrow> im_record \<Rightarrow> bool" where
  "run_gone opts ds r \<longleftrightarrow>
     (case io_cleanup opts of
        CleanupIncremental \<Rightarrow> ir_group r \<in> sources_of opts ds
      | CleanupScopedFull \<Rightarrow> ir_group r \<in> sources_of opts ds
      | CleanupFull \<Rightarrow> True
      | _ \<Rightarrow> False)"

definition run_ends :: "ix_options \<Rightarrow> ix_env \<Rightarrow> ('d \<Rightarrow> string \<rightharpoonup> doc) \<Rightarrow> record_manager \<Rightarrow> 'd \<Rightarrow> doc list \<Rightarrow> 'd ix_state \<Rightarrow> bool" where
  "run_ends opts env view m d docs x \<longleftrightarrow>
     outcome opts env (set docs) (run_gone opts (set docs)) m (view d) (xs_rm x) (view (xs_dest x)) \<and>
     counts_ok opts m (set docs) (length docs) (xs_result x) \<and>
     (io_cleanup opts \<noteq> CleanupIncremental \<longrightarrow>
        num_deleted (xs_result x) = card {k. k \<notin> keys_of opts (set docs) \<and> (\<exists>r. known m k = Some r \<and> run_gone opts (set docs) r)})"

lemma counts_ok_result: "counts_ok opts m ds n (r\<lparr>num_deleted := i\<rparr>) = counts_ok opts m ds n r"
  by (simp add: counts_ok_def)

text \<open>The state a run leaves lets the next one start, and then nothing is left to add or to sweep.\<close>

lemma ends_in_step:
  assumes "in_step env m (view d)" and "outcome opts env ds gone m (view d) m' v'" and "\<And>n. xe_clock env n < xe_clock env' 0"
  shows "in_step env' m' v'"
  unfolding in_step_def
proof (intro conjI allI impI)
  show "rm_ok m'" using assms(2) by (simp add: outcome_def)
next
  fix k
  note at = assms(2)[unfolded outcome_def, THEN conjunct2, rule_format, of k]
  show "v' k = None \<longleftrightarrow> known m' k = None"
    using at assms(1) holds_some [of opts ds k "view d k" "v' k"] recorded_some [of opts env ds k "known m' k"]
    by (cases "k \<in> keys_of opts ds") (auto simp: in_step_def split: if_splits)
  fix r
  assume r: "known m' k = Some r"
  show "ir_updated r < xe_clock env' 0"
  proof (cases "k \<in> keys_of opts ds")
    case True
    with at r obtain n where "ir_updated r = xe_clock env n" by (auto simp: recorded_def)
    with assms(3) show ?thesis by simp
  next
    case False
    with at r have "known m k = Some r" by (auto split: if_splits)
    with assms(1) have "ir_updated r < xe_clock env 0" by (simp add: in_step_def)
    with assms(3) [of 0] show ?thesis by simp
  qed
qed

lemma ends_again:
  assumes step: "in_step env m (view d)" and first: "run_ends opts env view m d docs x" and keeps: "keeps opts"
    and second: "run_ends opts env' view (xs_rm x) (xs_dest x) docs y"
  shows "xs_result y = \<lparr>num_added = 0, num_updated = 0, num_deleted = 0, num_skipped = length docs\<rparr>" and "view (xs_dest y) = view (xs_dest x)"
proof -
  have one: "outcome opts env (set docs) (run_gone opts (set docs)) m (view d) (xs_rm x) (view (xs_dest x))"
    using first by (simp add: run_ends_def)
  have two: "outcome opts env' (set docs) (run_gone opts (set docs)) (xs_rm x) (view (xs_dest x)) (xs_rm y) (view (xs_dest y))"
    using second by (simp add: run_ends_def)
  have none_gone: "\<not> run_gone opts (set docs) r" if "k \<notin> keys_of opts (set docs)" "known (xs_rm x) k = Some r" for k r
    using one[unfolded outcome_def, THEN conjunct2, rule_format, of k] that by (auto split: if_splits)
  have all_known: "known (xs_rm x) k \<noteq> None \<and> view (xs_dest x) k \<noteq> None" if "k \<in> keys_of opts (set docs)" for k
    using outcome_at(1) [OF one that] recorded_some holds_some by blast
  show "view (xs_dest y) = view (xs_dest x)"
  proof
    fix k
    show "view (xs_dest y) k = view (xs_dest x) k"
    proof (cases "k \<in> keys_of opts (set docs)")
      case True
      with outcome_at(1) [OF two True] all_known [OF True] keeps show ?thesis by (simp add: holds_def)
    next
      case False
      with outcome_at(3) [OF two False] none_gone [OF False] show ?thesis by blast
    qed
  qed
  have empty: "{k \<in> keys_of opts (set docs). known (xs_rm x) k = None} = {}" using all_known by blast
  have no_sweep: "{k. k \<notin> keys_of opts (set docs) \<and> (\<exists>r. known (xs_rm x) k = Some r \<and> run_gone opts (set docs) r)} = {}"
    using none_gone by blast
  show "xs_result y = \<lparr>num_added = 0, num_updated = 0, num_deleted = 0, num_skipped = length docs\<rparr>"
    using second keeps unfolding run_ends_def no_sweep counts_ok_def empty by (simp add: keeps_def)
qed

text \<open>What a sweep of the stale keys leaves of a run's state.\<close>

definition swept :: "('d \<Rightarrow> string \<rightharpoonup> doc) \<Rightarrow> string list \<Rightarrow> int \<Rightarrow> 'd ix_state \<Rightarrow> 'd ix_state \<Rightarrow> bool" where
  "swept view groups before x x' \<longleftrightarrow>
     (let gone = stale_keys groups before (xs_rm x)
      in rm_ok (xs_rm x') \<and> known (xs_rm x') = known (xs_rm x) |` (- gone) \<and> view (xs_dest x') = view (xs_dest x) |` (- gone)) \<and>
     xs_reads x' = xs_reads x \<and> xs_result x' = xs_result x \<and> xs_touched x' = xs_touched x \<and> xs_start x' = xs_start x"

locale index_store =
  fixes dst :: "'d index_destination" and view :: "'d \<Rightarrow> string \<rightharpoonup> doc"
  assumes add_docs: "\<forall>d \<in> set ds. doc_id d \<noteq> [] \<Longrightarrow> \<exists>s'. de_add dst ds s = (s', Inr ()) \<and> view s' = store_docs ds (view s)"
    and del_docs: "\<exists>s'. de_del dst ids s = (s', Inr ()) \<and> view s' = view s |` (- set ids)"
begin

lemma cleanup_loop_ends:
  assumes "\<And>n. xe_ended env n = None" and "rm_ok (xs_rm x)"
  shows "\<exists>x'. cleanup_loop env dst groups before limit deleted x = Some (x', Inr (deleted + card (stale_keys groups before (xs_rm x)))) \<and>
    swept view groups before x x'"
  using assms(2)
proof (induction "card (stale_keys groups before (xs_rm x))" arbitrary: x deleted rule: less_induct)
  case less
  let ?stale = "stale_keys groups before (xs_rm x)"
  let ?keys = "rm_list_keys groups before limit (xs_rm x)"
  let ?x = "x\<lparr>xs_polls := xs_polls x + 1\<rparr>"
  note listed = listed_keys [OF less.prems, of groups before limit]
  have poll: "poll env x = (?x, None)" by (simp add: poll_def assms(1))
  show ?case
  proof (cases "?keys = []")
    case True
    then have "?stale = {}" using listed by simp
    with True less.prems poll show ?thesis
      by (subst cleanup_loop.simps) (auto simp: swept_def Let_def)
  next
    case False
    obtain d' where del: "de_del dst ?keys (xs_dest x) = (d', Inr ())" "view d' = view (xs_dest x) |` (- set ?keys)"
      using del_docs by blast
    let ?x' = "?x\<lparr>xs_dest := d', xs_rm := rm_delete_keys ?keys (xs_rm x)\<rparr>"
    have unfold: "cleanup_loop env dst groups before limit deleted x = cleanup_loop env dst groups before limit (deleted + length ?keys) ?x'"
      using False poll del(1) by (subst cleanup_loop.simps) (simp add: Let_def)
    have stale: "stale_keys groups before (xs_rm ?x') = ?stale - set ?keys" by (simp add: stale_delete)
    have card: "card (?stale - set ?keys) + length ?keys = card ?stale"
      using listed card_mono [OF finite_stale listed(1)] by (simp add: card_Diff_subset distinct_card [symmetric])
    moreover have "0 < length ?keys" using False by simp
    ultimately have "card (stale_keys groups before (xs_rm ?x')) < card ?stale" unfolding stale by linarith
    from less.hyps [OF this, of "deleted + length ?keys"] less.prems obtain x' where
      x': "cleanup_loop env dst groups before limit (deleted + length ?keys) ?x' = Some (x', Inr (deleted + length ?keys + card (?stale - set ?keys)))"
        "swept view groups before ?x' x'"
      unfolding stale by (auto simp: rm_delete_ok)
    have known: "known (xs_rm ?x') = known (xs_rm x) |` (- set ?keys)" by (simp add: fun_eq_iff known_delete restrict_map_def)
    have "- set ?keys \<inter> - (?stale - set ?keys) = - ?stale" using listed(1) by blast
    then have "swept view groups before x x'"
      using x'(2) unfolding swept_def Let_def stale known by (simp add: del(2))
    with unfold x'(1) card show ?thesis by (simp add: add.assoc add.commute [of "length ?keys"])
  qed
qed

lemma cleanup_keys_sweeps:
  assumes "clock_ok env" and "rm_ok (xs_rm x)" and "xs_start x = xe_clock env 0"
  shows "\<exists>x'. cleanup_keys env dst groups limit x = Some (x', Inr ()) \<and>
    rm_ok (xs_rm x') \<and> known (xs_rm x') = known (xs_rm x) |` (- stale_keys groups (xe_clock env 0) (xs_rm x)) \<and>
    view (xs_dest x') = view (xs_dest x) |` (- stale_keys groups (xe_clock env 0) (xs_rm x)) \<and>
    xs_touched x' = xs_touched x \<and> xs_start x' = xs_start x \<and>
    xs_result x' = (xs_result x)\<lparr>num_deleted := num_deleted (xs_result x) + card (stale_keys groups (xe_clock env 0) (xs_rm x))\<rparr>"
proof -
  have ended: "xe_ended env n = None" for n using assms(1) by (simp add: clock_ok_def)
  from cleanup_loop_ends [OF ended assms(2), of groups "xs_start x" "if limit \<le> 0 then 100 else limit" 0]
  obtain x' where "cleanup_loop env dst groups (xs_start x) (if limit \<le> 0 then 100 else limit) 0 x =
      Some (x', Inr (0 + card (stale_keys groups (xs_start x) (xs_rm x))))" "swept view groups (xs_start x) x x'"
    by blast
  then show ?thesis unfolding cleanup_keys_def by (simp add: swept_def Let_def assms(3))
qed

text \<open>A batch keeps the invariant: first its writes, then the sweep of an incremental cleanup.\<close>

lemma batch_writes:
  assumes inv: "run_inv opts env view m d ds n x" and step: "in_step env m (view d)" and clock: "clock_ok env"
    and ok: "indexable opts (ds \<union> set batch)" and fin: "finite ds" and "batch \<noteq> []"
  shows "\<exists>x' keys groups docs. index_batch env dst opts climit batch x =
      (if io_cleanup opts = CleanupIncremental then cleanup_keys env dst (unique_strings groups) climit x' else Some (x', Inr ())) \<and>
    collected opts docs keys groups \<and> set keys = keys_of opts (set batch) \<and> set docs \<subseteq> set batch \<and>
    outcome opts env (ds \<union> set batch) (batch_gone opts ds) m (view d) (xs_rm x') (view (xs_dest x')) \<and>
    counts_ok opts m (ds \<union> set batch) (n + length batch) (xs_result x') \<and> num_deleted (xs_result x') = num_deleted (xs_result x) \<and>
    set (xs_touched x') = sources_of opts (ds \<union> set batch) \<and> xs_start x' = xe_clock env 0"
proof -
  let ?xa = "x\<lparr>xs_polls := xs_polls x + 1\<rparr>"
  have poll: "poll env x = (?xa, None)" using clock by (simp add: poll_def clock_ok_def)
  have okb: "indexable opts (set batch)" using ok by (rule indexable_mono) simp
  have start: "collected opts [] [] []" by (simp add: collected_def)
  have "indexable opts (set [] \<union> set batch)" using okb by simp
  from collect_batch_collects [OF this start, of ?xa]
  obtain docs keys groups skipped touched where
    collect: "collect_batch opts batch ([], [], []) ?xa =
        (?xa\<lparr>xs_result := (xs_result ?xa)\<lparr>num_skipped := num_skipped (xs_result ?xa) + skipped\<rparr>, xs_touched := touched\<rparr>, Inr (docs, keys, groups))"
      and col: "collected opts docs keys groups" and keys: "set keys = keys_of opts (set batch)" and docs: "set docs \<subseteq> set batch"
      and touched: "set touched = set (xs_touched x) \<union> sources_of opts (set batch)" and len: "length docs + skipped = length batch"
    by auto
  define xb where "xb = ?xa\<lparr>xs_result := (xs_result ?xa)\<lparr>num_skipped := num_skipped (xs_result ?xa) + skipped\<rparr>, xs_touched := touched\<rparr>"
  have xb: "xs_rm xb = xs_rm x" "xs_dest xb = xs_dest x" "xs_start xb = xs_start x" "xs_touched xb = touched"
    "num_added (xs_result xb) = num_added (xs_result x)" "num_updated (xs_result xb) = num_updated (xs_result x)"
    "num_deleted (xs_result xb) = num_deleted (xs_result x)" "num_skipped (xs_result xb) = num_skipped (xs_result x) + skipped"
    by (simp_all add: xb_def)
  obtain k where "k \<in> keys_of opts (set batch)"
    using indexable_key [OF okb] \<open>batch \<noteq> []\<close> by (cases batch) (auto simp: keys_of_def)
  then have nonempty: "keys \<noteq> []" using keys by auto
  have key_nonempty: "k \<noteq> []" if "k \<in> set keys" for k using that ok unfolding keys keys_of_def indexable_def by blast
  define es where "es = map (\<lambda>k. known (xs_rm x) k \<noteq> None) keys"
  define ps where "ps = zip docs (zip keys es)"
  note writes = to_write_stores [OF col es_def ps_def]
  obtain r where plan: "plan_adds (io_force opts) ps (xs_result xb) = (to_write (io_force opts) ps, r)"
      and r: "num_deleted r = num_deleted (xs_result xb)"
        "num_added r + num_updated r + num_skipped r = num_added (xs_result xb) + num_updated (xs_result xb) + num_skipped (xs_result xb) + length ps"
        "num_added r = num_added (xs_result xb) + length (filter (\<lambda>p. \<not> snd (snd p)) ps)"
        "\<not> io_force opts \<longrightarrow> num_updated r = num_updated (xs_result xb)"
    using plan_adds_result [of "io_force opts" ps "xs_result xb"] by blast
  let ?adds = "to_write (io_force opts) ps"
  have "\<forall>d \<in> set ?adds. doc_id d \<noteq> []" using writes(1) key_nonempty by blast
  from add_docs [OF this, of "xs_dest x"]
  obtain d2 where d2: "(if ?adds = [] then (xs_dest x, Inr ()) else de_add dst ?adds (xs_dest x)) = (d2, Inr ())"
      "view d2 = store_docs ?adds (view (xs_dest x))"
    by (cases "?adds = []") auto
  obtain m2 where m2: "rm_update keys groups (xs_start xb) (xe_clock env (xs_reads xb)) (xs_rm x) = (m2, Inr ())"
    using rm_update_succeeds [OF col clock, of "xs_reads xb" "xs_rm x"] inv xb(3) by (auto simp: run_inv_def)
  define xc where "xc = xb\<lparr>xs_result := r, xs_dest := d2, xs_reads := xs_reads xb + 1, xs_rm := m2\<rparr>"
  have exists_ps: "zip docs (zip keys (rm_exists keys (xs_rm x))) = ps"
    by (simp only: rm_exists_known ps_def es_def)
  have run: "index_batch env dst opts climit batch x =
      (if io_cleanup opts = CleanupIncremental then cleanup_keys env dst (unique_strings groups) climit xc else Some (xc, Inr ()))"
    unfolding index_batch_def poll prod.case option.case collect sum.case xb_def [symmetric] if_not_P [OF nonempty] xb(1,2) exists_ps
      plan d2(1) m2 Let_def xc_def [symmetric] by (rule refl)
  have dist: "distinct keys" using col by (simp add: collected_def)
  note upd = rm_update_known [OF m2 dist]
  have old: "outcome opts env ds (batch_gone opts ds) m (view d) (xs_rm x) (view (xs_dest x))" using inv by (simp add: run_inv_def)
  have "outcome opts env (ds \<union> set batch) (batch_gone opts ds) m (view d) m2 (view d2)"
  proof (rule outcome_write [OF old step])
    show "batch_gone opts ds = (\<lambda>r. False)" if "io_cleanup opts \<noteq> CleanupIncremental"
      using that by (simp add: batch_gone_def fun_eq_iff)
    show "rm_ok m2" using upd(3) old by (simp add: outcome_def)
    show "known m2 k = known (xs_rm x) k \<and> view d2 k = view (xs_dest x) k" if "k \<notin> keys_of opts (set batch)" for k
      using upd(1) writes(2) that d2(2) keys by simp
    fix k
    assume "k \<in> keys_of opts (set batch)"
    then have "k \<in> set keys" using keys by simp
    then obtain i where i: "i < length keys" "keys ! i = k" by (auto simp: in_set_conv_nth)
    have len_docs: "length docs = length keys" using col by (auto simp: collected_def dest: list_all2_lengthD)
    have "docs ! i \<in> set batch" "has_key opts (docs ! i) k"
      using col docs i len_docs nth_mem [of i docs] by (auto simp: collected_def list_all2_conv_all_nth)
    then show "recorded opts env (set batch) k (known m2 k) \<and>
        (if known (xs_rm x) k \<noteq> None \<and> \<not> io_force opts then view d2 k = view (xs_dest x) k
         else \<exists>d \<in> set batch. has_key opts d k \<and> view d2 k = Some (d\<lparr>doc_id := k\<rparr>))"
      using update_records [OF col docs \<open>k \<in> set keys\<close> m2] writes(3) [OF i(1), of "io_force opts" "view (xs_dest x)"]
      unfolding d2(2) i(2) by auto
  qed
  moreover have "counts_ok opts m (ds \<union> set batch) (n + length batch) r"
  proof (rule counts_add [OF old fin])
    show "counts_ok opts m ds n (xs_result x)" using inv by (simp add: run_inv_def)
    show "num_added r = num_added (xs_result x) + card {k \<in> keys_of opts (set batch). known (xs_rm x) k = None}"
      using r(3) xb(5) writes(5) keys by simp
    show "num_added r + num_updated r + num_skipped r = num_added (xs_result x) + num_updated (xs_result x) + num_skipped (xs_result x) + length batch"
      using r(2) writes(4) len xb by simp
    show "\<not> io_force opts \<longrightarrow> num_updated r = num_updated (xs_result x)" using r(4) xb by simp
  qed simp
  ultimately show ?thesis
    using run col keys docs r(1) xb touched inv
    by (intro exI [of _ xc] exI [of _ keys] exI [of _ groups] exI [of _ docs]) (simp add: xc_def run_inv_def)
qed

lemma batch_keeps_inv:
  assumes inv: "run_inv opts env view m d ds n x" and step: "in_step env m (view d)" and clock: "clock_ok env"
    and ok: "indexable opts (ds \<union> set batch)" and fin: "finite ds" and "batch \<noteq> []"
    and inc: "io_cleanup opts = CleanupIncremental \<Longrightarrow> io_source_key opts \<noteq> []"
  shows "\<exists>x'. index_batch env dst opts climit batch x = Some (x', Inr ()) \<and> run_inv opts env view m d (ds \<union> set batch) (n + length batch) x'"
proof -
  from batch_writes [OF inv step clock ok fin \<open>batch \<noteq> []\<close>, of climit]
  obtain x1 keys groups docs where
    run: "index_batch env dst opts climit batch x =
        (if io_cleanup opts = CleanupIncremental then cleanup_keys env dst (unique_strings groups) climit x1 else Some (x1, Inr ()))"
      and col: "collected opts docs keys groups" "set keys = keys_of opts (set batch)" "set docs \<subseteq> set batch"
      and out: "outcome opts env (ds \<union> set batch) (batch_gone opts ds) m (view d) (xs_rm x1) (view (xs_dest x1))"
      and rest: "counts_ok opts m (ds \<union> set batch) (n + length batch) (xs_result x1)" "num_deleted (xs_result x1) = num_deleted (xs_result x)"
        "set (xs_touched x1) = sources_of opts (ds \<union> set batch)" "xs_start x1 = xe_clock env 0"
    by blast
  show ?thesis
  proof (cases "io_cleanup opts = CleanupIncremental")
    case False
    then have "batch_gone opts ds = batch_gone opts (ds \<union> set batch)" by (simp add: batch_gone_def fun_eq_iff)
    with False run out rest inv show ?thesis by (intro exI [of _ x1]) (simp add: run_inv_def)
  next
    case True
    have "indexable opts (set batch)" using ok by (rule indexable_mono) simp
    note sources = collected_sources [OF col(1) this col(2,3) inc [OF True]]
    have "sources_of opts (set batch) \<noteq> {}" using inc [OF True] \<open>batch \<noteq> []\<close> by (simp add: sources_of_def)
    then have "unique_strings groups \<noteq> []" unfolding sources [symmetric] by auto
    then have gone: "(\<lambda>r. batch_gone opts ds r \<or> in_groups (unique_strings groups) r) = batch_gone opts (ds \<union> set batch)"
      by (auto simp: batch_gone_def in_groups_def sources True fun_eq_iff)
    have "rm_ok (xs_rm x1)" using out by (simp add: outcome_def)
    from cleanup_keys_sweeps [OF clock this rest(4), of "unique_strings groups" climit]
    obtain x' where x': "cleanup_keys env dst (unique_strings groups) climit x1 = Some (x', Inr ())" "rm_ok (xs_rm x')"
        "known (xs_rm x') = known (xs_rm x1) |` (- stale_keys (unique_strings groups) (xe_clock env 0) (xs_rm x1))"
        "view (xs_dest x') = view (xs_dest x1) |` (- stale_keys (unique_strings groups) (xe_clock env 0) (xs_rm x1))"
        "xs_touched x' = xs_touched x1" "xs_start x' = xs_start x1"
        "xs_result x' = (xs_result x1)\<lparr>num_deleted := num_deleted (xs_result x1) + card (stale_keys (unique_strings groups) (xe_clock env 0) (xs_rm x1))\<rparr>"
      by blast
    have "outcome opts env (ds \<union> set batch) (batch_gone opts (ds \<union> set batch)) m (view d) (xs_rm x') (view (xs_dest x'))"
      using outcome_sweep [OF out step clock x'(2-4)] unfolding gone .
    with True run x' rest show ?thesis by (intro exI [of _ x']) (simp add: run_inv_def counts_ok_result)
  qed
qed

lemma batches_keep_inv:
  assumes step: "in_step env m (view d)" and clock: "clock_ok env" and inc: "io_cleanup opts = CleanupIncremental \<Longrightarrow> io_source_key opts \<noteq> []"
    and "0 < per" and "run_inv opts env view m d ds n x" and "finite ds" and "indexable opts (ds \<union> set docs)"
  shows "\<exists>x'. index_batches env dst opts climit per docs x = Some (x', Inr ()) \<and> run_inv opts env view m d (ds \<union> set docs) (n + length docs) x'"
  using assms(5-7)
proof (induction docs arbitrary: x ds n rule: measure_induct_rule [where f = length])
  case (less docs)
  show ?case
  proof (cases "docs = []")
    case True
    with less.prems show ?thesis by (subst index_batches.simps) auto
  next
    case False
    then have batch: "take per docs \<noteq> []" using \<open>0 < per\<close> by simp
    have parts: "set docs = set (take per docs) \<union> set (drop per docs)" "length docs = length (take per docs) + length (drop per docs)"
      by (metis append_take_drop_id set_append, simp)
    have "indexable opts (ds \<union> set (take per docs))" using less.prems(3)
      by (rule indexable_mono) (intro Un_mono order_refl set_take_subset)
    from batch_keeps_inv [OF less.prems(1) step clock this less.prems(2) batch inc]
    obtain x1 where x1: "index_batch env dst opts climit (take per docs) x = Some (x1, Inr ())"
        "run_inv opts env view m d (ds \<union> set (take per docs)) (n + length (take per docs)) x1" by blast
    have "length (drop per docs) < length docs" using False \<open>0 < per\<close> by (cases docs) auto
    moreover have "indexable opts (ds \<union> set (take per docs) \<union> set (drop per docs))" using less.prems(3) by (simp only: parts(1) Un_assoc)
    ultimately obtain x' where x': "index_batches env dst opts climit per (drop per docs) x1 = Some (x', Inr ())"
        "run_inv opts env view m d (ds \<union> set (take per docs) \<union> set (drop per docs)) (n + length (take per docs) + length (drop per docs)) x'"
      using less.IH [OF _ x1(2)] less.prems(2) by blast
    have "index_batches env dst opts climit per docs x = Some (x', Inr ())"
      using False \<open>0 < per\<close> x1(1) x'(1) by (subst index_batches.simps) simp
    moreover have "run_inv opts env view m d (ds \<union> set docs) (n + length docs) x'"
      unfolding parts using x'(2) by (simp only: Un_assoc add.assoc)
    ultimately show ?thesis by blast
  qed
qed

theorem documents_are_indexed:
  assumes step: "in_step env m (view d)" and clock: "clock_ok env" and ok: "indexable opts (set docs)"
    and valid: "validate_inputs opts = Inr (per, climit)"
  shows "\<exists>x. index_documents env dst opts docs m d = Some (x, Inr ()) \<and> run_ends opts env view m d docs x"
proof -
  have per: "0 < nat per" using valid by (auto simp: validate_inputs_def split: cleanup_mode.splits if_splits)
  have inc: "io_source_key opts \<noteq> []" if "io_cleanup opts = CleanupIncremental \<or> io_cleanup opts = CleanupScopedFull"
    using valid that by (auto simp: validate_inputs_def)
  have other: "io_cleanup opts \<noteq> CleanupOther t" for t using valid by (auto simp: validate_inputs_def)
  let ?x = "start_index env m d"
  have "rm_ok m" using step by (simp add: in_step_def)
  moreover have "batch_gone opts {} = (\<lambda>r. False)" by (simp add: batch_gone_def fun_eq_iff)
  ultimately have "outcome opts env {} (batch_gone opts {}) m (view d) m (view d)" by (simp only: outcome_start)
  then have "run_inv opts env view m d {} 0 ?x" by (simp add: run_inv_def start_index_def counts_ok_def sources_of_def)
  from batches_keep_inv [OF step clock inc per this, of docs climit] ok
  obtain x1 where x1: "index_batches env dst opts climit (nat per) docs ?x = Some (x1, Inr ())" "run_inv opts env view m d (set docs) (length docs) x1"
    by auto
  have run: "index_documents env dst opts docs m d = finish_cleanup env dst opts climit x1"
    by (simp add: index_documents_def valid x1(1) then_finish_def)
  have out: "outcome opts env (set docs) (batch_gone opts (set docs)) m (view d) (xs_rm x1) (view (xs_dest x1))"
      and counts: "counts_ok opts m (set docs) (length docs) (xs_result x1)" and start: "xs_start x1 = xe_clock env 0"
      and touched: "set (xs_touched x1) = sources_of opts (set docs)" and "rm_ok (xs_rm x1)"
      and deleted: "io_cleanup opts \<noteq> CleanupIncremental \<Longrightarrow> num_deleted (xs_result x1) = 0"
    using x1(2) by (simp_all add: run_inv_def outcome_def)
  have swept: "\<exists>x. cleanup_keys env dst groups climit x1 = Some (x, Inr ()) \<and> run_ends opts env view m d docs x"
    if mode: "io_cleanup opts \<noteq> CleanupIncremental" and gone: "in_groups groups = run_gone opts (set docs)" for groups
  proof -
    have no_batch: "batch_gone opts (set docs) = (\<lambda>r. False)" using mode by (simp add: batch_gone_def fun_eq_iff)
    from cleanup_keys_sweeps [OF clock \<open>rm_ok (xs_rm x1)\<close> start, of groups climit]
    obtain x where x: "cleanup_keys env dst groups climit x1 = Some (x, Inr ())" "rm_ok (xs_rm x)"
        "known (xs_rm x) = known (xs_rm x1) |` (- stale_keys groups (xe_clock env 0) (xs_rm x1))"
        "view (xs_dest x) = view (xs_dest x1) |` (- stale_keys groups (xe_clock env 0) (xs_rm x1))"
        "xs_result x = (xs_result x1)\<lparr>num_deleted := num_deleted (xs_result x1) + card (stale_keys groups (xe_clock env 0) (xs_rm x1))\<rparr>"
      by blast
    have "outcome opts env (set docs) (run_gone opts (set docs)) m (view d) (xs_rm x) (view (xs_dest x))"
      using outcome_sweep [OF out step clock x(2-4)] by (simp add: no_batch gone)
    then have "run_ends opts env view m d docs x"
      using counts mode by (simp add: run_ends_def x(5) counts_ok_result deleted stale_of_run [OF out step clock] no_batch gone)
    with x(1) show ?thesis by blast
  qed
  have kept: "run_ends opts env view m d docs x1" if "batch_gone opts (set docs) = run_gone opts (set docs)"
      and "io_cleanup opts \<noteq> CleanupIncremental \<Longrightarrow> run_gone opts (set docs) = (\<lambda>r. False)"
    using out counts deleted that by (simp add: run_ends_def)
  show ?thesis
  proof (cases "io_cleanup opts")
    case CleanupNone
    then have "batch_gone opts (set docs) = run_gone opts (set docs)" "run_gone opts (set docs) = (\<lambda>r. False)"
      by (simp_all add: batch_gone_def run_gone_def fun_eq_iff)
    with CleanupNone kept show ?thesis by (simp add: run finish_cleanup_def)
  next
    case CleanupIncremental
    then have "batch_gone opts (set docs) = run_gone opts (set docs)"
      by (simp add: batch_gone_def run_gone_def fun_eq_iff)
    with CleanupIncremental kept show ?thesis by (simp add: run finish_cleanup_def)
  next
    case CleanupFull
    then have "in_groups [] = run_gone opts (set docs)" by (simp add: in_groups_def run_gone_def fun_eq_iff)
    with swept [of "[]"] CleanupFull show ?thesis by (simp add: run finish_cleanup_def)
  next
    case CleanupScopedFull
    show ?thesis
    proof (cases "xs_touched x1 = []")
      case True
      then have "sources_of opts (set docs) = {}" using touched by simp
      then have "run_gone opts (set docs) = (\<lambda>r. False)" by (simp add: run_gone_def CleanupScopedFull fun_eq_iff)
      moreover have "batch_gone opts (set docs) = (\<lambda>r. False)" by (simp add: batch_gone_def CleanupScopedFull fun_eq_iff)
      ultimately show ?thesis using True CleanupScopedFull kept by (simp add: run finish_cleanup_def)
    next
      case False
      then have "in_groups (xs_touched x1) = run_gone opts (set docs)"
        by (simp add: in_groups_def run_gone_def CleanupScopedFull touched fun_eq_iff)
      with False swept [of "xs_touched x1"] CleanupScopedFull show ?thesis by (simp add: run finish_cleanup_def)
    qed
  next
    case (CleanupOther t)
    with other [of t] show ?thesis by simp
  qed
qed

theorem reindexing_skips_all:
  assumes step: "in_step env m (view d)" and clock: "clock_ok env" and ok: "indexable opts (set docs)" and keeps: "keeps opts"
    and valid: "validate_inputs opts = Inr (per, climit)" and clock': "clock_ok env'" and later: "\<And>n. xe_clock env n < xe_clock env' 0"
  shows "\<exists>x y. index_documents env dst opts docs m d = Some (x, Inr ()) \<and>
    index_documents env' dst opts docs (xs_rm x) (xs_dest x) = Some (y, Inr ()) \<and>
    xs_result y = \<lparr>num_added = 0, num_updated = 0, num_deleted = 0, num_skipped = length docs\<rparr> \<and> view (xs_dest y) = view (xs_dest x)"
proof -
  from documents_are_indexed [OF step clock ok valid]
  obtain x where x: "index_documents env dst opts docs m d = Some (x, Inr ())" "run_ends opts env view m d docs x" by blast
  then have "outcome opts env (set docs) (run_gone opts (set docs)) m (view d) (xs_rm x) (view (xs_dest x))"
    by (simp add: run_ends_def)
  then have "in_step env' (xs_rm x) (view (xs_dest x))"
    using ends_in_step [where view = view and d = d, OF step] later by blast
  from documents_are_indexed [OF this clock' ok valid]
  obtain y where y: "index_documents env' dst opts docs (xs_rm x) (xs_dest x) = Some (y, Inr ())"
      "run_ends opts env' view (xs_rm x) (xs_dest x) docs y" by blast
  from ends_again [OF step x(2) keeps y(2)] x(1) y(1) show ?thesis by blast
qed

end

subsection \<open>The in-memory document index as a destination\<close>

definition di_view :: "document_index \<Rightarrow> string \<rightharpoonup> doc" where
  "di_view ix = map_of (di_store ix)"

lemma di_upsert_view: "\<forall>d \<in> set ds. doc_id d \<noteq> [] \<Longrightarrow> di_view (fst (di_upsert uuid n ds ix)) = store_docs ds (di_view ix)"
proof (induction ds arbitrary: n ix)
  case (Cons d ds)
  let ?ix = "ix\<lparr>di_store := mput (doc_id d) (d\<lparr>doc_id := doc_id d\<rparr>) (di_store ix)\<rparr>"
  have "di_view ?ix = (di_view ix)(doc_id d \<mapsto> d)" by (simp add: di_view_def fun_eq_iff)
  with Cons.IH [of "Suc n" ?ix] Cons.prems show ?case by (simp add: Let_def case_prod_unfold)
qed simp

lemma di_delete_view: "di_view (fst (di_delete ids ix)) = di_view ix |` (- set ids)"
proof (induction ids arbitrary: ix)
  case (Cons i ids)
  show ?case
  proof (cases "mhas (di_store ix) i")
    case True
    with Cons [of "ix\<lparr>di_store := mdel i (di_store ix)\<rparr>"] show ?thesis
      by (auto simp: di_view_def restrict_map_def fun_eq_iff case_prod_unfold)
  next
    case False
    then have "di_view ix i = None" by (simp add: di_view_def mhas_def)
    with False Cons [of ix] show ?thesis by (auto simp: restrict_map_def fun_eq_iff)
  qed
qed (simp add: restrict_map_def)

interpretation mem_index: index_store "document_index_destination uuid" di_view for uuid
proof
  show "\<exists>s'. de_add (document_index_destination uuid) ds s = (s', Inr ()) \<and> di_view s' = store_docs ds (di_view s)"
    if "\<forall>d \<in> set ds. doc_id d \<noteq> []" for ds s
    using di_upsert_view [OF that] by (simp add: document_index_destination_def)
  show "\<exists>s'. de_del (document_index_destination uuid) ids s = (s', Inr ()) \<and> di_view s' = di_view s |` (- set ids)" for ids s
    by (simp add: document_index_destination_def di_delete_view)
qed

subsection \<open>Documents from an iterator\<close>

text \<open>
  How often the context was polled is the only thing that tells a run over a slice from a run over an
  iterator, and while the context lasts nothing depends on it.
\<close>

definition polled :: "nat \<Rightarrow> 'd ix_state \<times> 'r \<Rightarrow> 'd ix_state \<times> 'r" where
  "polled n = apfst (xs_polls_update (\<lambda>_. n))"

lemma polled_simps [simp]: "polled n (x, r) = (x\<lparr>xs_polls := n\<rparr>, r)" "polled n (polled n' y) = polled n y"
  by (simp_all add: polled_def apfst_def map_prod_def split: prod.split)

lemma polled_same [simp]: "polled (xs_polls (fst y)) y = y"
  by (cases y) simp

lemma cleanup_loop_polled_some:
  assumes "\<And>n. xe_ended env n = None"
  shows "cleanup_loop env dst groups before limit deleted x = Some y \<Longrightarrow>
    \<exists>n'. cleanup_loop env dst groups before limit deleted (x\<lparr>xs_polls := n\<rparr>) = Some (polled n' y)"
proof -
  have "(\<forall>n. xe_ended env n = None) \<longrightarrow> (\<forall>n. \<exists>n'. cleanup_loop env dst groups before limit deleted (x\<lparr>xs_polls := n\<rparr>) = Some (polled n' y))"
    if "cleanup_loop env dst groups before limit deleted x = Some y"
  proof (rule cleanup_loop.raw_induct [where xa = "((((((env, dst), groups), before), limit), deleted), x)" and y = y
        and P = "\<lambda>env dst groups before limit deleted x y. (\<forall>n. xe_ended env n = None) \<longrightarrow>
          (\<forall>n. \<exists>n'. cleanup_loop env dst groups before limit deleted (x\<lparr>xs_polls := n\<rparr>) = Some (polled n' y))", unfolded prod.case], goal_cases)
    case (1 f env dst groups before limit deleted x y)
    show ?case
    proof (intro impI allI)
      fix n
      assume live: "\<forall>n. xe_ended env n = None"
      let ?keys = "rm_list_keys groups before limit (xs_rm x)"
      obtain d' r where del: "de_del dst ?keys (xs_dest x) = (d', r)" by (cases "de_del dst ?keys (xs_dest x)")
      show "\<exists>n'. cleanup_loop env dst groups before limit deleted (x\<lparr>xs_polls := n\<rparr>) = Some (polled n' y)"
      proof (cases "?keys = [] \<or> (\<exists>e. r = Inl e)")
        case True
        with 1(2) live del show ?thesis
          by (subst cleanup_loop.simps) (auto simp: poll_def Let_def intro!: exI [of _ "Suc n"])
      next
        case False
        then obtain u where r: "r = Inr u" by (cases r) auto
        let ?x' = "x\<lparr>xs_polls := xs_polls x + 1, xs_dest := d', xs_rm := rm_delete_keys ?keys (xs_rm x)\<rparr>"
        have "f env dst groups before limit (deleted + length ?keys) ?x' = Some y"
          using 1(2) False del r live by (simp add: poll_def Let_def)
        from 1(1) [OF this] live obtain n' where
          "cleanup_loop env dst groups before limit (deleted + length ?keys) (?x'\<lparr>xs_polls := n + 1\<rparr>) = Some (polled n' y)" by blast
        moreover have "?x'\<lparr>xs_polls := n + 1\<rparr> = x\<lparr>xs_polls := n + 1, xs_dest := d', xs_rm := rm_delete_keys ?keys (xs_rm x)\<rparr>" by simp
        ultimately have "cleanup_loop env dst groups before limit (deleted + length ?keys)
            (x\<lparr>xs_polls := n + 1, xs_dest := d', xs_rm := rm_delete_keys ?keys (xs_rm x)\<rparr>) = Some (polled n' y)" by (simp only:)
        with False del r live show ?thesis
          by (subst cleanup_loop.simps) (auto simp: poll_def Let_def)
      qed
    qed
  qed (rule that)
  then show "cleanup_loop env dst groups before limit deleted x = Some y \<Longrightarrow>
    \<exists>n'. cleanup_loop env dst groups before limit deleted (x\<lparr>xs_polls := n\<rparr>) = Some (polled n' y)"
    using assms by blast
qed



lemma cleanup_loop_polled:
  assumes "\<And>n. xe_ended env n = None"
  shows "\<exists>n'. cleanup_loop env dst groups before limit deleted (x\<lparr>xs_polls := n\<rparr>) =
    map_option (polled n') (cleanup_loop env dst groups before limit deleted x)"
proof (cases "cleanup_loop env dst groups before limit deleted x")
  case None
  have "cleanup_loop env dst groups before limit deleted (x\<lparr>xs_polls := n\<rparr>) = None"
  proof (rule ccontr)
    assume "cleanup_loop env dst groups before limit deleted (x\<lparr>xs_polls := n\<rparr>) \<noteq> None"
    then obtain y where "cleanup_loop env dst groups before limit deleted (x\<lparr>xs_polls := n\<rparr>) = Some y" by blast
    from cleanup_loop_polled_some [OF assms this, of "xs_polls x"] None show False by simp
  qed
  with None show ?thesis by simp
next
  case (Some y)
  with cleanup_loop_polled_some [OF assms Some, of n] show ?thesis by simp
qed

lemma cleanup_keys_polled:
  assumes "\<And>n. xe_ended env n = None"
  shows "\<exists>n'. cleanup_keys env dst groups limit (x\<lparr>xs_polls := n\<rparr>) = map_option (polled n') (cleanup_keys env dst groups limit x)"
proof -
  obtain n' where n': "cleanup_loop env dst groups (xs_start x) (if limit \<le> 0 then 100 else limit) 0 (x\<lparr>xs_polls := n\<rparr>) =
      map_option (polled n') (cleanup_loop env dst groups (xs_start x) (if limit \<le> 0 then 100 else limit) 0 x)"
    using cleanup_loop_polled [OF assms] by blast
  have "cleanup_keys env dst groups limit (x\<lparr>xs_polls := n\<rparr>) = map_option (polled n') (cleanup_keys env dst groups limit x)"
    unfolding cleanup_keys_def using n'
    by (cases "cleanup_loop env dst groups (xs_start x) (if limit \<le> 0 then 100 else limit) 0 x") (auto split: sum.split)
  then show ?thesis by blast
qed

lemma collect_batch_polled: "collect_batch opts ds acc (x\<lparr>xs_polls := n\<rparr>) = polled n (collect_batch opts ds acc x)"
proof (induction ds arbitrary: acc x)
  case (Cons d ds)
  obtain docs keys groups where acc: "acc = (docs, keys, groups)" by (cases acc) auto
  have skip: "skip_one (x\<lparr>xs_polls := n\<rparr>) = (skip_one x)\<lparr>xs_polls := n\<rparr>" by (simp add: skip_one_def)
  have touch: "x\<lparr>xs_polls := n, xs_touched := ts\<rparr> = (x\<lparr>xs_touched := ts\<rparr>)\<lparr>xs_polls := n\<rparr>" for ts by simp
  show ?case
  proof (cases "io_hash opts d")
    case (Inl e)
    then show ?thesis by (simp add: acc)
  next
    case (Inr key)
    consider "key \<in> set keys" | "key \<notin> set keys" "io_source_key opts = []"
      | c cs where "key \<notin> set keys" "io_source_key opts \<noteq> []" "map_of (doc_meta d) (io_source_key opts) = Some (VStr (c # cs))"
      | "key \<notin> set keys" "io_source_key opts \<noteq> []" "\<forall>c cs. map_of (doc_meta d) (io_source_key opts) \<noteq> Some (VStr (c # cs))"
      by blast
    then show ?thesis
    proof cases
      case 3
      from Cons.IH [of _ "x\<lparr>xs_touched := List.insert (c # cs) (xs_touched x)\<rparr>"] 3
      show ?thesis by (simp add: Inr acc touch del: Product_Type.prod.inject)
    next
      case 4
      then show ?thesis by (auto simp: Inr acc split: option.split gval.split list.split)
    qed (simp_all add: Inr acc Cons.IH skip)
  qed
qed simp

lemma index_batch_polled:
  assumes "\<And>n. xe_ended env n = None"
  shows "\<exists>n'. index_batch env dst opts climit batch (x\<lparr>xs_polls := n\<rparr>) = map_option (polled n') (index_batch env dst opts climit batch x)"
proof -
  obtain x2 r where c: "collect_batch opts batch ([], [], []) (x\<lparr>xs_polls := xs_polls x + 1\<rparr>) = (x2, r)"
    by (cases "collect_batch opts batch ([], [], []) (x\<lparr>xs_polls := xs_polls x + 1\<rparr>)")
  from collect_batch_polled [of opts batch "([], [], [])" "n + 1" "x\<lparr>xs_polls := xs_polls x + 1\<rparr>"]
  have cn: "collect_batch opts batch ([], [], []) (x\<lparr>xs_polls := n + 1\<rparr>) = (x2\<lparr>xs_polls := n + 1\<rparr>, r)"
    unfolding c by simp
  have polls: "poll env x = (x\<lparr>xs_polls := xs_polls x + 1\<rparr>, None)" "poll env (x\<lparr>xs_polls := n\<rparr>) = (x\<lparr>xs_polls := n + 1\<rparr>, None)"
    by (simp_all add: poll_def assms)
  note start = index_batch_def [of env dst opts climit batch] polls prod.case option.case c cn
  show ?thesis
  proof (cases r)
    case (Inl e)
    show ?thesis unfolding start Inl sum.case by (intro exI [of _ "n + 1"]) simp
  next
    case (Inr docs_keys_groups)
    obtain docs keys groups where r: "r = Inr (docs, keys, groups)" using Inr by (cases docs_keys_groups) auto
    obtain adds res where plan: "plan_adds (io_force opts) (zip docs (zip keys (rm_exists keys (xs_rm x2)))) (xs_result x2) = (adds, res)"
      by fastforce
    obtain d' q where add: "(if adds = [] then (xs_dest x2, Inr ()) else de_add dst adds (xs_dest x2)) = (d', q)" by fastforce
    obtain m' u where upd: "rm_update keys groups (xs_start x2) (xe_clock env (xs_reads x2)) (xs_rm x2) = (m', u)" by fastforce
    let ?x3 = "x2\<lparr>xs_result := res, xs_dest := d', xs_reads := xs_reads x2 + 1, xs_rm := m'\<rparr>"
    have x3: "x2\<lparr>xs_polls := n + 1, xs_result := res, xs_dest := d', xs_reads := xs_reads x2 + 1, xs_rm := m'\<rparr> = ?x3\<lparr>xs_polls := n + 1\<rparr>" by simp
    obtain n' where n': "cleanup_keys env dst (unique_strings groups) climit (?x3\<lparr>xs_polls := n + 1\<rparr>) =
        map_option (polled n') (cleanup_keys env dst (unique_strings groups) climit ?x3)"
      using cleanup_keys_polled [OF assms] by blast
    have sel: "xs_rm (x2\<lparr>xs_polls := n + 1\<rparr>) = xs_rm x2" "xs_result (x2\<lparr>xs_polls := n + 1\<rparr>) = xs_result x2"
      "xs_dest (x2\<lparr>xs_polls := n + 1\<rparr>) = xs_dest x2" "xs_start (x2\<lparr>xs_polls := n + 1\<rparr>) = xs_start x2"
      "xs_reads (x2\<lparr>xs_polls := n + 1\<rparr>) = xs_reads x2" by simp_all
    show ?thesis
      unfolding start r sum.case plan sel add upd Let_def x3 n'
      by (cases "keys = []"; cases q; cases u; cases "io_cleanup opts = CleanupIncremental")
        (simp_all, ((rule exI [of _ "n + 1"], simp; fail) | (rule exI [of _ n'], simp; fail))+)
  qed
qed


lemma index_batches_polled:
  assumes "\<And>n. xe_ended env n = None"
  shows "\<exists>n'. index_batches env dst opts climit per docs (x\<lparr>xs_polls := n\<rparr>) = map_option (polled n') (index_batches env dst opts climit per docs x)"
proof (induction docs arbitrary: x n rule: measure_induct_rule [where f = length])
  case (less docs)
  show ?case
  proof (cases "docs = [] \<or> per = 0")
    case True
    then show ?thesis by (subst (1 2) index_batches.simps) auto
  next
    case False
    then have shorter: "length (drop per docs) < length docs" by auto
    obtain n' where n': "index_batch env dst opts climit (take per docs) (x\<lparr>xs_polls := n\<rparr>) =
        map_option (polled n') (index_batch env dst opts climit (take per docs) x)"
      using index_batch_polled [OF assms] by blast
    show ?thesis
    proof (cases "index_batch env dst opts climit (take per docs) x")
      case None
      with n' False show ?thesis by (subst (1 2) index_batches.simps) simp
    next
      case (Some y)
      obtain x' r where y: "y = (x', r)" by (cases y)
      show ?thesis
      proof (cases r)
        case (Inl e)
        with Some y n' False show ?thesis by (subst (1 2) index_batches.simps) auto
      next
        case (Inr u)
        from less.IH [OF shorter, of n' x'] Some y n' False Inr show ?thesis by (subst (1 2) index_batches.simps) simp
      qed
    qed
  qed
qed

lemma then_finish_polled:
  assumes "\<And>n. xe_ended env n = None"
  shows "\<exists>n'. then_finish env dst opts climit (map_option (polled n) res) = map_option (polled n') (then_finish env dst opts climit res)"
proof (cases res)
  case (Some y)
  obtain x r where y: "y = (x, r)" by (cases y)
  show ?thesis
  proof (cases r)
    case (Inr u)
    consider "io_cleanup opts = CleanupScopedFull" "xs_touched x \<noteq> []" | "io_cleanup opts = CleanupFull"
      | "io_cleanup opts \<noteq> CleanupFull" "io_cleanup opts = CleanupScopedFull \<longrightarrow> xs_touched x = []"
      by blast
    then show ?thesis
    proof cases
      case 1
      with cleanup_keys_polled [OF assms, of dst "xs_touched x" climit n x] Some y Inr show ?thesis
        by (simp add: then_finish_def finish_cleanup_def)
    next
      case 2
      with cleanup_keys_polled [OF assms, of dst "[]" climit n x] Some y Inr show ?thesis
        by (simp add: then_finish_def finish_cleanup_def)
    next
      case 3
      with Some y Inr show ?thesis by (auto simp: then_finish_def finish_cleanup_def intro: exI [of _ n])
    qed
  qed (auto simp: Some y then_finish_def)
qed (simp add: then_finish_def)

lemma index_iteration_batches:
  assumes "\<And>n. xe_ended env n = None"
  shows "length batch < per \<Longrightarrow> \<exists>n. index_iteration env dst opts climit per (map Inr docs) batch x =
    map_option (polled n) (index_batches env dst opts climit per (batch @ docs) x)"
proof (induction docs arbitrary: batch x)
  case Nil
  have poll: "poll env x = (x\<lparr>xs_polls := xs_polls x + 1\<rparr>, None)" by (simp add: poll_def assms)
  show ?case
  proof (cases "batch = []")
    case True
    then show ?thesis by (subst index_batches.simps) (auto simp: poll)
  next
    case False
    obtain n' where n': "index_batch env dst opts climit batch (x\<lparr>xs_polls := xs_polls x + 1\<rparr>) = map_option (polled n') (index_batch env dst opts climit batch x)"
      using index_batch_polled [OF assms] by blast
    have "index_batches env dst opts climit per batch x = index_batch env dst opts climit batch x"
      using False Nil by (subst index_batches.simps) (auto simp: index_batches.simps [of _ _ _ _ _ "[]"] split: option.split sum.split)
    with False n' show ?thesis by (auto simp: poll)
  qed
next
  case (Cons d docs)
  let ?x = "x\<lparr>xs_polls := xs_polls x + 1\<rparr>"
  have poll: "poll env x = (?x, None)" by (simp add: poll_def assms)
  show ?case
  proof (cases "length batch + 1 < per")
    case True
    then have "length (batch @ [d]) < per" by simp
    from Cons.IH [OF this, of ?x] obtain n1 where
      n1: "index_iteration env dst opts climit per (map Inr docs) (batch @ [d]) ?x = map_option (polled n1) (index_batches env dst opts climit per ((batch @ [d]) @ docs) ?x)"
      by blast
    obtain n2 where "index_batches env dst opts climit per (batch @ d # docs) ?x = map_option (polled n2) (index_batches env dst opts climit per (batch @ d # docs) x)"
      using index_batches_polled [OF assms] by blast
    with True n1 show ?thesis by (auto simp: poll option.map_comp o_def)
  next
    case False
    with Cons.prems have per: "per = length (batch @ [d])" by simp
    then have cut: "take per (batch @ d # docs) = batch @ [d]" "drop per (batch @ d # docs) = docs" "per \<noteq> 0" by simp_all
    obtain n' where n': "index_batch env dst opts climit (batch @ [d]) ?x = map_option (polled n') (index_batch env dst opts climit (batch @ [d]) x)"
      using index_batch_polled [OF assms] by blast
    have unfold: "index_batches env dst opts climit per (batch @ d # docs) x = (case index_batch env dst opts climit (batch @ [d]) x of
        None \<Rightarrow> None | Some (x', Inl e) \<Rightarrow> Some (x', Inl e) | Some (x', Inr _) \<Rightarrow> index_batches env dst opts climit per docs x')"
      by (subst index_batches.simps) (simp only: cut, simp)
    show ?thesis
    proof (cases "index_batch env dst opts climit (batch @ [d]) x")
      case None
      with n' False show ?thesis by (simp add: unfold poll)
    next
      case (Some y)
      obtain x' r where y: "y = (x', r)" by (cases y)
      show ?thesis
      proof (cases r)
        case (Inl e)
        with Some y n' False show ?thesis by (auto simp: unfold poll)
      next
        case (Inr u)
        obtain n1 where n1: "index_iteration env dst opts climit per (map Inr docs) [] (x'\<lparr>xs_polls := n'\<rparr>) =
            map_option (polled n1) (index_batches env dst opts climit per docs (x'\<lparr>xs_polls := n'\<rparr>))"
          using Cons.IH [of "[]" "x'\<lparr>xs_polls := n'\<rparr>"] cut(3) by auto
        obtain n2 where "index_batches env dst opts climit per docs (x'\<lparr>xs_polls := n'\<rparr>) = map_option (polled n2) (index_batches env dst opts climit per docs x')"
          using index_batches_polled [OF assms] by blast
        with Some y n' n1 False Inr show ?thesis by (auto simp: unfold poll option.map_comp o_def)
      qed
    qed
  qed
qed

subsection \<open>Properties\<close>

definition sample_opts :: "cleanup_mode \<Rightarrow> ix_options" where
  "sample_opts mode = \<lparr>io_batch = 1, io_cleanup_batch = 0, io_force = False, io_source_key = ''src'', io_cleanup = mode,
     io_hash = (\<lambda>d. Inr (CHR ''#'' # doc_content d))\<rparr>"

definition sample_env :: "int \<Rightarrow> ix_env" where
  "sample_env t = \<lparr>xe_clock = (\<lambda>n. if n = 0 then t else t + 1), xe_ended = (\<lambda>n. None)\<rparr>"

definition sample_docs :: "doc list" where
  "sample_docs = [\<lparr>doc_id = [], doc_content = ''a'', doc_meta = [(''src'', VStr ''s'')]\<rparr>,
     \<lparr>doc_id = [], doc_content = ''b'', doc_meta = [(''src'', VStr ''s'')]\<rparr>]"

definition sample_manager :: record_manager where
  "sample_manager = new_record_manager ''n''\<lparr>rm_records := [(''n:#old'', \<lparr>ir_group = ''s'', ir_updated = 1\<rparr>)]\<rparr>"

definition sample_index :: document_index where
  "sample_index = new_document_index 0\<lparr>di_store := [(''#old'', \<lparr>doc_id = ''#old'', doc_content = ''old'', doc_meta = []\<rparr>)]\<rparr>"

lemma sample_indexable: "indexable (sample_opts mode) (set sample_docs)"
  by (auto simp: indexable_def sample_opts_def sample_docs_def has_key_def source_def)

lemma sample_valid: "validate_inputs (sample_opts CleanupFull) = Inr (1, 1000)"
  by (simp add: validate_inputs_def sample_opts_def)

lemma sample_clock: "t \<noteq> 0 \<Longrightarrow> clock_ok (sample_env t)"
  by (simp add: clock_ok_def sample_env_def)

lemma sample_in_step: "1 < t \<Longrightarrow> in_step (sample_env t) sample_manager (di_view sample_index)"
proof -
  assume "1 < t"
  have "known sample_manager k = (if k = ''#old'' then Some \<lparr>ir_group = ''s'', ir_updated = 1\<rparr> else None)" for k
    by (simp add: known_def sample_manager_def new_record_manager_def namespaced_def)
  moreover have "di_view sample_index k = (if k = ''#old'' then Some \<lparr>doc_id = ''#old'', doc_content = ''old'', doc_meta = []\<rparr> else None)" for k
    by (simp add: di_view_def sample_index_def new_document_index_def)
  moreover have "rm_ok sample_manager"
    by (simp add: rm_ok_def sample_manager_def new_record_manager_def namespaced_def unnamespace_def)
  ultimately show ?thesis using \<open>1 < t\<close> by (auto simp: in_step_def sample_env_def split: if_splits)
qed

lemma keys_after_run:
  assumes "in_step env m v" and "outcome opts env ds (run_gone opts ds) m v m' v'"
  shows "dom v' = keys_of opts ds \<union> {k \<in> dom v. \<not> (\<exists>r. known m k = Some r \<and> run_gone opts ds r)}"
proof (intro set_eqI)
  fix k
  have "v k = None \<longleftrightarrow> known m k = None" using assms(1) by (simp add: in_step_def)
  then show "k \<in> dom v' \<longleftrightarrow> k \<in> keys_of opts ds \<union> {k \<in> dom v. \<not> (\<exists>r. known m k = Some r \<and> run_gone opts ds r)}"
    using assms(2)[unfolded outcome_def, THEN conjunct2, rule_format, of k] holds_some [of opts ds k "v k" "v' k"]
    by (cases "k \<in> keys_of opts ds") (auto split: if_splits)
qed

text \<open>
  A full cleanup deletes every stale record, of whatever source: afterwards the index holds the documents
  of the run and nothing else.
\<close>

theorem full_cleanup_leaves_the_run:
  assumes "in_step env m (di_view ix)" and "clock_ok env" and "indexable opts (set docs)" and "validate_inputs opts = Inr (per, climit)"
    and full: "io_cleanup opts = CleanupFull"
  shows "\<exists>x. index_documents env (document_index_destination uuid) opts docs m ix = Some (x, Inr ()) \<and>
    dom (di_view (xs_dest x)) = keys_of opts (set docs)"
proof -
  from mem_index.documents_are_indexed [OF assms(1-4)] obtain x where
    x: "index_documents env (document_index_destination uuid) opts docs m ix = Some (x, Inr ())" "run_ends opts env di_view m ix docs x"
    by blast
  have "outcome opts env (set docs) (run_gone opts (set docs)) m (di_view ix) (xs_rm x) (di_view (xs_dest x))"
    using x(2) by (simp add: run_ends_def)
  from keys_after_run [OF assms(1) this] have "dom (di_view (xs_dest x)) = keys_of opts (set docs) \<union> {k \<in> dom (di_view ix). known m k = None}"
    by (simp add: run_gone_def full)
  moreover have "{k \<in> dom (di_view ix). known m k = None} = {}" using assms(1) by (auto simp: in_step_def dom_def)
  ultimately have "dom (di_view (xs_dest x)) = keys_of opts (set docs)" by simp
  with x(1) show ?thesis by blast
qed

text \<open>
  C24: indexing documents without a cleanup, or with one that sweeps the touched sources (incremental or
  scoped full). While the context is not ended and the clock does not run backwards, and when index and
  record manager knew the same keys before, a run of documents that can be hashed and name their source
  returns without an error and leaves the two in step again: the key of every document is recorded with
  its source and holds the document, or what it held before when nothing forces a rewrite; of the other
  keys those a cleanup sweeps - recorded under a source of these documents - are gone from both, and all
  others are untouched. Added, updated and skipped add up to the number of documents, nothing is updated
  unless an update is forced, and, except under the incremental cleanup, the added are the keys that were
  not known and the deleted are the keys that are gone. The incremental cleanup may sweep a key a later
  batch brings back, and counts it both times. The full cleanup is not claimed here.
\<close>

theorem indexing_mirrors_documents:
  assumes "in_step env m (di_view ix)" and "clock_ok env" and "indexable opts (set docs)" and "validate_inputs opts = Inr (per, climit)"
    and "io_cleanup opts \<noteq> CleanupFull"
  shows "\<exists>x. index_documents env (document_index_destination uuid) opts docs m ix = Some (x, Inr ()) \<and>
    run_ends opts env di_view m ix docs x \<and>
    dom (di_view (xs_dest x)) = keys_of opts (set docs) \<union> {k \<in> dom (di_view ix).
      io_cleanup opts = CleanupNone \<or> (\<forall>r. known m k = Some r \<longrightarrow> ir_group r \<notin> sources_of opts (set docs))} \<and>
    (\<forall>k. di_view (xs_dest x) k = None \<longleftrightarrow> known (xs_rm x) k = None)"
proof -
  from mem_index.documents_are_indexed [OF assms(1-4)] obtain x where
    x: "index_documents env (document_index_destination uuid) opts docs m ix = Some (x, Inr ())" "run_ends opts env di_view m ix docs x"
    by blast
  have out: "outcome opts env (set docs) (run_gone opts (set docs)) m (di_view ix) (xs_rm x) (di_view (xs_dest x))"
    using x(2) by (simp add: run_ends_def)
  have other: "io_cleanup opts \<noteq> CleanupOther t" for t using assms(4) by (auto simp: validate_inputs_def)
  have gone: "run_gone opts (set docs) r \<longleftrightarrow> \<not> (io_cleanup opts = CleanupNone \<or> ir_group r \<notin> sources_of opts (set docs))" for r
    using assms(5) other by (cases "io_cleanup opts") (auto simp: run_gone_def)
  have "dom (di_view (xs_dest x)) = keys_of opts (set docs) \<union> {k \<in> dom (di_view ix).
      io_cleanup opts = CleanupNone \<or> (\<forall>r. known m k = Some r \<longrightarrow> ir_group r \<notin> sources_of opts (set docs))}"
    unfolding keys_after_run [OF assms(1) out] gone by auto
  moreover have "\<forall>k. di_view (xs_dest x) k = None \<longleftrightarrow> known (xs_rm x) k = None"
  proof
    fix k
    show "di_view (xs_dest x) k = None \<longleftrightarrow> known (xs_rm x) k = None"
      using assms(1) out[unfolded outcome_def, THEN conjunct2, rule_format, of k]
        holds_some [of opts "set docs" k "di_view ix k" "di_view (xs_dest x) k"] recorded_some [of opts env "set docs" k "known (xs_rm x) k"]
      by (cases "k \<in> keys_of opts (set docs)") (auto simp: in_step_def split: if_splits)
  qed
  ultimately show ?thesis using x by blast
qed

theorem indexing_mirrors_documents_witness:
  "\<exists>x. index_documents (sample_env 5) (document_index_destination (\<lambda>n. [])) (sample_opts CleanupScopedFull) sample_docs sample_manager sample_index = Some (x, Inr ()) \<and>
    dom (di_view (xs_dest x)) = keys_of (sample_opts CleanupScopedFull) (set sample_docs)"
proof -
  have valid: "validate_inputs (sample_opts CleanupScopedFull) = Inr (1, 1000)"
    by (simp add: validate_inputs_def sample_opts_def)
  have mode: "io_cleanup (sample_opts CleanupScopedFull) \<noteq> CleanupFull" "io_cleanup (sample_opts CleanupScopedFull) \<noteq> CleanupNone"
    by (simp_all add: sample_opts_def)
  have old: "known sample_manager k = (if k = ''#old'' then Some \<lparr>ir_group = ''s'', ir_updated = 1\<rparr> else None)" for k
    by (simp add: known_def sample_manager_def new_record_manager_def namespaced_def)
  have clock: "(1::int) < 5" "(5::int) \<noteq> 0" by simp_all
  have "''s'' \<in> sources_of (sample_opts CleanupScopedFull) (set sample_docs)"
    by (simp add: sources_of_def sample_opts_def sample_docs_def source_def)
  moreover have "in_step (sample_env 5) sample_manager (di_view sample_index)" by (rule sample_in_step) simp
  ultimately have "{k \<in> dom (di_view sample_index). io_cleanup (sample_opts CleanupScopedFull) = CleanupNone \<or>
      (\<forall>r. known sample_manager k = Some r \<longrightarrow> ir_group r \<notin> sources_of (sample_opts CleanupScopedFull) (set sample_docs))} = {}"
    using mode(2) by (auto simp: in_step_def old split: if_splits)
  with indexing_mirrors_documents [where uuid = "\<lambda>n. []", OF sample_in_step [OF clock(1)] sample_clock [OF clock(2)] sample_indexable valid mode(1)]
  show ?thesis by (metis (no_types, lifting) sup_bot.right_neutral)
qed

text \<open>
  Indexing the same documents again, with a clock that has moved on, adds, updates and deletes nothing
  and skips every document, and the index is what the first run left (without a forced update, and with any
  cleanup but the incremental one).
\<close>

theorem reindexing_changes_nothing:
  assumes "in_step env m (di_view ix)" and "clock_ok env" and "indexable opts (set docs)" and "keeps opts"
    and "validate_inputs opts = Inr (per, climit)" and "clock_ok env'" and "\<forall>n. xe_clock env n < xe_clock env' 0"
  shows "\<exists>x y. index_documents env (document_index_destination uuid) opts docs m ix = Some (x, Inr ()) \<and>
    index_documents env' (document_index_destination uuid) opts docs (xs_rm x) (xs_dest x) = Some (y, Inr ()) \<and>
    xs_result y = \<lparr>num_added = 0, num_updated = 0, num_deleted = 0, num_skipped = length docs\<rparr> \<and> di_view (xs_dest y) = di_view (xs_dest x)"
  by (rule mem_index.reindexing_skips_all) (use assms in auto)

theorem reindexing_changes_nothing_witness:
  "\<exists>x y. index_documents (sample_env 5) (document_index_destination (\<lambda>n. [])) (sample_opts CleanupFull) sample_docs sample_manager sample_index = Some (x, Inr ()) \<and>
    index_documents (sample_env 9) (document_index_destination (\<lambda>n. [])) (sample_opts CleanupFull) sample_docs (xs_rm x) (xs_dest x) = Some (y, Inr ()) \<and>
    num_skipped (xs_result y) = 2"
proof -
  have "keeps (sample_opts CleanupFull)" by (simp add: keeps_def sample_opts_def)
  moreover have "(1::int) < 5" "(5::int) \<noteq> 0" "(9::int) \<noteq> 0" "\<forall>n. xe_clock (sample_env 5) n < xe_clock (sample_env 9) 0"
    by (simp_all add: sample_env_def)
  ultimately obtain x y where
    "index_documents (sample_env 5) (document_index_destination (\<lambda>n. [])) (sample_opts CleanupFull) sample_docs sample_manager sample_index = Some (x, Inr ())"
    "index_documents (sample_env 9) (document_index_destination (\<lambda>n. [])) (sample_opts CleanupFull) sample_docs (xs_rm x) (xs_dest x) = Some (y, Inr ())"
    "xs_result y = \<lparr>num_added = 0, num_updated = 0, num_deleted = 0, num_skipped = length sample_docs\<rparr>"
    using reindexing_changes_nothing [where uuid = "\<lambda>n. []", OF sample_in_step sample_clock sample_indexable _ sample_valid sample_clock] by blast
  then show ?thesis by (intro exI [of _ x] exI [of _ y]) (simp add: sample_docs_def)
qed

text \<open>
  Reading the documents from an iterator indexes them exactly as a slice of them: the same batches, the
  same results and errors, the same records and destination; only the number of polls of the context differs.
\<close>

theorem iterator_indexes_like_slice:
  assumes "\<forall>n. xe_ended env n = None"
  shows "\<exists>n. index_document_iterator env dst opts (map Inr docs) m d = map_option (polled n) (index_documents env dst opts docs m d)"
proof (cases "validate_inputs opts")
  case (Inl e)
  then show ?thesis by (auto simp: index_document_iterator_def index_documents_def intro: exI [of _ 0] simp: start_index_def)
next
  case (Inr limits)
  obtain per climit where limits: "validate_inputs opts = Inr (per, climit)" using Inr by (cases limits) auto
  then have "0 < nat per" by (auto simp: validate_inputs_def split: cleanup_mode.splits if_splits)
  then obtain n where n: "index_iteration env dst opts climit (nat per) (map Inr docs) [] (start_index env m d) =
      map_option (polled n) (index_batches env dst opts climit (nat per) docs (start_index env m d))"
    using index_iteration_batches [of env "[]" "nat per" dst opts climit docs "start_index env m d"] assms unfolding append_Nil by auto
  show ?thesis
    unfolding index_document_iterator_def index_documents_def limits sum.case prod.case n
    by (rule then_finish_polled) (use assms in simp)
qed

theorem iterator_indexes_like_slice_witness:
  "\<exists>n. index_document_iterator (sample_env 5) (document_index_destination (\<lambda>n. [])) (sample_opts CleanupFull) (map Inr sample_docs) sample_manager sample_index =
    map_option (polled n) (index_documents (sample_env 5) (document_index_destination (\<lambda>n. [])) (sample_opts CleanupFull) sample_docs sample_manager sample_index)"
  by (rule iterator_indexes_like_slice) (simp add: sample_env_def)

end
