(* ===== verification/GoStrings.thy ===== *)
theory GoStrings
  imports Complex_Main GoValues
begin

section \<open>Strings of the Go library\<close>

text \<open>
  Texts are Go strings, lists of bytes; a rune is the bytes of one UTF-8 sequence. This theory models the
  functions of the packages \<open>strings\<close> and \<open>unicode/utf8\<close> the components use, with their lemmas: counting
  and splitting runes, \<open>TrimSpace\<close> and \<open>Index\<close>.
\<close>

subsection \<open>Bytes and runes\<close>

definition byte :: "char \<Rightarrow> nat" where
  "byte c = of_char c"

definition cont_byte :: "char \<Rightarrow> bool" where
  "cont_byte c \<longleftrightarrow> 0x80 \<le> byte c \<and> byte c \<le> 0xBF"

text \<open>\<open>utf8.DecodeRuneInString\<close>, as the number of bytes it takes; a byte that starts no sequence is taken alone.\<close>

definition lead_ok :: "nat \<Rightarrow> nat \<Rightarrow> bool" where
  "lead_ok b b1 \<longleftrightarrow>
     (if b = 0xE0 then 0xA0 else if b = 0xF0 then 0x90 else 0x80) \<le> b1 \<and>
     b1 \<le> (if b = 0xED then 0x9F else if b = 0xF4 then 0x8F else 0xBF)"

definition seq_width :: "nat \<Rightarrow> nat" where
  "seq_width b =
     (if 0xC2 \<le> b \<and> b \<le> 0xDF then 2 else if 0xE0 \<le> b \<and> b \<le> 0xEF then 3 else if 0xF0 \<le> b \<and> b \<le> 0xF4 then 4 else 1)"

definition seq_ok :: "char \<Rightarrow> string \<Rightarrow> bool" where
  "seq_ok c s \<longleftrightarrow>
     (let n = seq_width (byte c) - 1
      in n \<le> length s \<and> (n = 0 \<or> lead_ok (byte c) (byte (s ! 0))) \<and> list_all cont_byte (take n s))"

fun rune_width :: "string \<Rightarrow> nat" where
  "rune_width [] = 0"
| "rune_width (c # s) = (if seq_ok c s then seq_width (byte c) else 1)"

lemma seq_width_pos: "0 < seq_width b"
  by (simp add: seq_width_def)

lemma rune_width_pos: "s \<noteq> [] \<Longrightarrow> 0 < rune_width s"
  by (cases s) (simp_all add: seq_width_pos)

function runes_of :: "string \<Rightarrow> string list" where
  "runes_of s = (if s = [] then [] else take (rune_width s) s # runes_of (drop (rune_width s) s))"
  by pat_completeness auto

termination
  by (relation "measure length") (use rune_width_pos in auto)

declare runes_of.simps [simp del]

text \<open>\<open>utf8.RuneCountInString\<close>; a range over a string, which replaces what is no UTF-8 by U+FFFD.\<close>

definition rune_len :: "string \<Rightarrow> int" where
  "rune_len s = int (length (runes_of s))"

definition bad_rune :: "string \<Rightarrow> bool" where
  "bad_rune r \<longleftrightarrow> (case r of [c] \<Rightarrow> 0x80 \<le> byte c | _ \<Rightarrow> False)"

definition split_runes :: "string \<Rightarrow> string list" where
  "split_runes s = map (\<lambda>r. if bad_rune r then [CHR 0xEF, CHR 0xBF, CHR 0xBD] else r) (runes_of s)"

text \<open>\<open>strings.TrimSpace\<close>: the encodings of the white space of Unicode, from both ends.\<close>

definition space_runes :: "string list" where
  "space_runes =
     [[CHR 0x09], [CHR 0x0A], [CHR 0x0B], [CHR 0x0C], [CHR 0x0D], [CHR 0x20], [CHR 0xC2, CHR 0x85], [CHR 0xC2, CHR 0xA0],
      [CHR 0xE1, CHR 0x9A, CHR 0x80], [CHR 0xE2, CHR 0x80, CHR 0x80], [CHR 0xE2, CHR 0x80, CHR 0x81], [CHR 0xE2, CHR 0x80, CHR 0x82],
      [CHR 0xE2, CHR 0x80, CHR 0x83], [CHR 0xE2, CHR 0x80, CHR 0x84], [CHR 0xE2, CHR 0x80, CHR 0x85], [CHR 0xE2, CHR 0x80, CHR 0x86],
      [CHR 0xE2, CHR 0x80, CHR 0x87], [CHR 0xE2, CHR 0x80, CHR 0x88], [CHR 0xE2, CHR 0x80, CHR 0x89], [CHR 0xE2, CHR 0x80, CHR 0x8A],
      [CHR 0xE2, CHR 0x80, CHR 0xA8], [CHR 0xE2, CHR 0x80, CHR 0xA9], [CHR 0xE2, CHR 0x80, CHR 0xAF], [CHR 0xE2, CHR 0x81, CHR 0x9F],
      [CHR 0xE3, CHR 0x80, CHR 0x80]]"

function trim_start :: "string list \<Rightarrow> string \<Rightarrow> string" where
  "trim_start es s =
     (case find (\<lambda>e. e \<noteq> [] \<and> take (length e) s = e) es of None \<Rightarrow> s | Some e \<Rightarrow> trim_start es (drop (length e) s))"
  by pat_completeness auto

termination
proof (relation "measure (\<lambda>(es, s). length s)")
  fix es s e
  assume "find (\<lambda>e. e \<noteq> [] \<and> take (length e) s = e) es = Some e"
  then have "e \<noteq> []" "take (length e) s = e" by (auto simp: find_Some_iff)
  then show "((es, drop (length e) s), es, s) \<in> measure (\<lambda>(es, s). length s)" by (cases s) auto
qed simp

declare trim_start.simps [simp del]

definition trim_space :: "string \<Rightarrow> string" where
  "trim_space s = rev (trim_start (map rev space_runes) (rev (trim_start space_runes s)))"

text \<open>\<open>strings.Index\<close>.\<close>

fun find_sub :: "string \<Rightarrow> string \<Rightarrow> nat option" where
  "find_sub [] q = (if q = [] then Some 0 else None)"
| "find_sub (c # s) q = (if take (length q) (c # s) = q then Some 0 else map_option Suc (find_sub s q))"

subsection \<open>Runes, lengths and trimming\<close>

lemma rune_width_le: "rune_width s \<le> length s"
  using seq_width_pos by (cases s) (auto simp: seq_ok_def Let_def)

lemma seq_ok_append: "seq_width (byte c) - 1 \<le> length r \<Longrightarrow> seq_ok c (r @ t) = seq_ok c r"
  by (cases "seq_width (byte c) - 1 = 0") (auto simp: seq_ok_def Let_def nth_append)

lemma seq_ok_width: "seq_ok c r \<Longrightarrow> seq_width (byte c) - 1 \<le> length r"
  by (simp add: seq_ok_def Let_def)

lemma rune_width_append:
  assumes "s \<noteq> []"
  shows "rune_width (s @ t) = rune_width s \<or> rune_width s = 1 \<and> (\<forall>i. 0 < i \<and> i < rune_width (s @ t) \<longrightarrow> cont_byte ((s @ t) ! i))"
proof -
  obtain c r where s: "s = c # r" using assms by (cases s) auto
  show ?thesis
  proof (cases "seq_ok c r \<or> \<not> seq_ok c (r @ t)")
    case True
    then show ?thesis using seq_ok_append [OF seq_ok_width] unfolding s by auto
  next
    case False
    then have all: "list_all cont_byte (take (seq_width (byte c) - 1) (r @ t))" "seq_width (byte c) - 1 \<le> length (r @ t)"
      by (simp_all add: seq_ok_def Let_def)
    have "cont_byte ((s @ t) ! i)" if i: "0 < i" "i < rune_width (s @ t)" for i
    proof -
      have "take (seq_width (byte c) - 1) (r @ t) ! (i - 1) = (s @ t) ! i"
        using i False unfolding s by (cases i) (simp_all del: take_append)
      moreover have "i - 1 < length (take (seq_width (byte c) - 1) (r @ t))" using i False all(2) unfolding s by auto
      ultimately show ?thesis using all(1) by (metis list_all_length)
    qed
    with False show ?thesis unfolding s by simp
  qed
qed

lemma rune_width_boundary:
  assumes "s \<noteq> []" and "t \<noteq> [] \<Longrightarrow> \<not> cont_byte (hd t)"
  shows "rune_width (s @ t) = rune_width s"
proof (rule ccontr)
  assume differ: "rune_width (s @ t) \<noteq> rune_width s"
  with rune_width_append [OF assms(1), of t] have one: "rune_width s = 1"
    and conts: "\<And>i. 0 < i \<Longrightarrow> i < rune_width (s @ t) \<Longrightarrow> cont_byte ((s @ t) ! i)" by auto
  obtain c r where s: "s = c # r" using assms(1) by (cases s) auto
  have whole: "seq_ok c (r @ t)" using differ one unfolding s by (cases "seq_ok c (r @ t)") simp_all
  moreover have "\<not> seq_ok c r" using differ seq_ok_append [OF seq_ok_width] whole unfolding s by auto
  ultimately have whole: "seq_ok c (r @ t)" "\<not> seq_ok c r" .
  show False
  proof (cases "length s < rune_width (s @ t)")
    case True
    then have "t \<noteq> []" using rune_width_le [of "s @ t"] by auto
    moreover from conts [of "length s"] True s have "cont_byte ((s @ t) ! length s)" by simp
    ultimately show False using assms(2) by (simp add: nth_append hd_conv_nth)
  next
    case False
    with whole(1) have "seq_width (byte c) - 1 \<le> length r" unfolding s by simp
    with whole show False using seq_ok_append by blast
  qed
qed

lemma runes_Nil [simp]: "runes_of [] = []"
  by (simp add: runes_of.simps)

lemma runes_Cons: "s \<noteq> [] \<Longrightarrow> runes_of s = take (rune_width s) s # runes_of (drop (rune_width s) s)"
  by (simp add: runes_of.simps [of s])

lemma concat_runes [simp]: "concat (runes_of s) = s"
  by (induction s rule: runes_of.induct) (subst runes_of.simps, simp)

lemma rune_len_Nil [simp]: "rune_len [] = 0"
  by (simp add: rune_len_def)

lemma rune_len_step: "s \<noteq> [] \<Longrightarrow> rune_len s = 1 + rune_len (drop (rune_width s) s)"
  by (simp add: rune_len_def runes_Cons)

lemma rune_len_pos: "s \<noteq> [] \<Longrightarrow> 0 < rune_len s"
  by (simp add: rune_len_def runes_Cons)

lemma rune_width_cont: "cont_byte c \<Longrightarrow> rune_width (c # s) = 1"
  by (auto simp: cont_byte_def seq_width_def)

lemma rune_len_drop_conts: "\<forall>i < n. cont_byte (s ! i) \<Longrightarrow> n \<le> length s \<Longrightarrow> rune_len (drop n s) \<le> rune_len s"
proof (induction n arbitrary: s)
  case (Suc n)
  obtain c r where s: "s = c # r" using Suc.prems by (cases s) auto
  have "cont_byte (r ! i)" if "i < n" for i using Suc.prems(1) that unfolding s by force
  moreover have "cont_byte c" using Suc.prems(1) unfolding s by force
  ultimately have "rune_len (drop n r) \<le> rune_len r" "rune_len s = 1 + rune_len r"
    using Suc.IH [of r] Suc.prems(2) rune_len_step [of s] rune_width_cont unfolding s by auto
  then show ?case unfolding s by simp
qed simp

lemma rune_len_append: "rune_len (a @ b) \<le> rune_len a + rune_len b"
proof (induction a rule: measure_induct_rule [where f = length])
  case (less a)
  show ?case
  proof (cases "a = []")
    case False
    let ?w = "rune_width a"
    have pos: "0 < ?w" "?w \<le> length a" using rune_width_pos [OF False] rune_width_le by auto
    have IH: "rune_len (drop ?w a @ b) \<le> rune_len (drop ?w a) + rune_len b" using less.IH pos False by simp
    show ?thesis
    proof (cases "rune_width (a @ b) = ?w")
      case True
      then show ?thesis using IH pos(2) rune_len_step [OF False] rune_len_step [of "a @ b"] False by simp
    next
      case differ: False
      with rune_width_append [OF False, of b] have one: "?w = 1"
        and conts: "\<forall>i. 0 < i \<and> i < rune_width (a @ b) \<longrightarrow> cont_byte ((a @ b) ! i)" by auto
      obtain c r where ab: "a @ b = c # r" using False by (cases a) auto
      have w: "0 < rune_width (a @ b)" "rune_width (a @ b) \<le> length (a @ b)" using rune_width_pos [of "a @ b"] rune_width_le [of "a @ b"] False by auto
      have "\<forall>i < rune_width (a @ b) - 1. cont_byte (r ! i)"
      proof (intro allI impI)
        fix i
        assume "i < rune_width (a @ b) - 1"
        then show "cont_byte (r ! i)" using conts [rule_format, of "Suc i"] unfolding ab by simp
      qed
      then have "rune_len (drop (rune_width (a @ b) - 1) r) \<le> rune_len r" by (rule rune_len_drop_conts) (use w ab in simp)
      moreover have "drop (rune_width (a @ b)) (a @ b) = drop (rune_width (a @ b) - 1) r" using w(1) by (simp add: ab drop_Cons')
      moreover have "r = drop ?w a @ b" using ab one False by (cases a) auto
      ultimately show ?thesis using IH one rune_len_step [OF False] rune_len_step [of "a @ b"] False by simp
    qed
  qed simp
qed

lemma runes_append: "(t \<noteq> [] \<Longrightarrow> \<not> cont_byte (hd t)) \<Longrightarrow> runes_of (s @ t) = runes_of s @ runes_of t"
proof (induction s rule: measure_induct_rule [where f = length])
  case (less s)
  show ?case
  proof (cases "s = []")
    case False
    have w: "rune_width (s @ t) = rune_width s" using rune_width_boundary [OF False less.prems] by simp
    have "0 < rune_width s" "rune_width s \<le> length s" using rune_width_pos [OF False] rune_width_le by auto
    then show ?thesis using less.IH [of "drop (rune_width s) s"] less.prems False by (simp add: runes_Cons w)
  qed simp
qed

lemma space_rune:
  assumes "e \<in> set space_runes"
  shows "\<exists>c r. e = c # r \<and> seq_ok c r \<and> seq_width (byte c) = length e \<and> \<not> cont_byte c"
proof -
  have "list_all (\<lambda>e. e \<noteq> [] \<and> seq_ok (hd e) (tl e) \<and> seq_width (byte (hd e)) = length e \<and> \<not> cont_byte (hd e)) space_runes"
    by (simp add: space_runes_def seq_ok_def seq_width_def lead_ok_def byte_def cont_byte_def)
  with assms have "e \<noteq> [] \<and> seq_ok (hd e) (tl e) \<and> seq_width (byte (hd e)) = length e \<and> \<not> cont_byte (hd e)"
    by (auto simp: list_all_iff)
  then show ?thesis by (cases e) auto
qed

lemma rune_len_space:
  assumes "e \<in> set space_runes"
  shows "rune_len s \<le> rune_len (e @ s)" and "rune_len s \<le> rune_len (s @ e)"
proof -
  obtain c r where e: "e = c # r" "seq_ok c r" "seq_width (byte c) = length e" "\<not> cont_byte c" using space_rune [OF assms] by blast
  have "seq_ok c (r @ s)" using e(2) seq_ok_append [OF seq_ok_width [OF e(2)]] by simp
  then have "rune_width (e @ s) = length e" using e(1,3) by simp
  then show "rune_len s \<le> rune_len (e @ s)" using rune_len_step [of "e @ s"] e(1) by simp
  have "runes_of (s @ e) = runes_of s @ runes_of e" using e(1,4) by (intro runes_append) simp
  then show "rune_len s \<le> rune_len (s @ e)" by (simp add: rune_len_def)
qed

lemma trim_start_step:
  assumes "find (\<lambda>e. e \<noteq> [] \<and> take (length e) s = e) es = Some e"
  shows "e \<in> set es" and "e \<noteq> []" and "s = e @ drop (length e) s"
proof -
  show "e \<in> set es" "e \<noteq> []" using assms by (auto simp: find_Some_iff)
  have "take (length e) s = e" using assms by (auto simp: find_Some_iff)
  then show "s = e @ drop (length e) s" by (metis append_take_drop_id)
qed

lemma trim_start_Nil [simp]: "trim_start es [] = []"
proof -
  have "find (\<lambda>e. e \<noteq> [] \<and> take (length e) [] = e) es = None" by (auto simp: find_None_iff)
  then show ?thesis by (subst trim_start.simps) simp
qed

lemma trim_space_Nil [simp]: "trim_space [] = []"
  by (simp add: trim_space_def)

lemma rune_len_trim_start: "set es \<subseteq> set space_runes \<Longrightarrow> rune_len (trim_start es s) \<le> rune_len s"
proof (induction es s rule: trim_start.induct)
  case (1 es s)
  show ?case
  proof (cases "find (\<lambda>e. e \<noteq> [] \<and> take (length e) s = e) es")
    case None
    then show ?thesis by (subst trim_start.simps) simp
  next
    case (Some e)
    note e = trim_start_step [OF Some]
    have "rune_len (drop (length e) s) \<le> rune_len s" using rune_len_space(1) [of e "drop (length e) s"] e 1(2) by (metis subsetD)
    moreover have "rune_len (trim_start es (drop (length e) s)) \<le> rune_len (drop (length e) s)" using 1 Some by blast
    ultimately show ?thesis using Some by (subst trim_start.simps) simp
  qed
qed

lemma rune_len_trim_end: "set es \<subseteq> rev ` set space_runes \<Longrightarrow> rune_len (rev (trim_start es s)) \<le> rune_len (rev s)"
proof (induction es s rule: trim_start.induct)
  case (1 es s)
  show ?case
  proof (cases "find (\<lambda>e. e \<noteq> [] \<and> take (length e) s = e) es")
    case None
    then show ?thesis by (subst trim_start.simps) simp
  next
    case (Some e)
    note e = trim_start_step [OF Some]
    obtain f where f: "f \<in> set space_runes" "e = rev f" using e(1) 1(2) by blast
    have "rev s = rev (drop (length e) s) @ f" using arg_cong [OF e(3), of rev] by (simp add: f(2))
    then have "rune_len (rev (drop (length e) s)) \<le> rune_len (rev s)" using rune_len_space(2) [OF f(1), of "rev (drop (length e) s)"] by simp
    moreover have "rune_len (rev (trim_start es (drop (length e) s))) \<le> rune_len (rev (drop (length e) s))" using 1 Some by blast
    ultimately show ?thesis using Some by (subst trim_start.simps) simp
  qed
qed

lemma rune_len_trim: "rune_len (trim_space s) \<le> rune_len s"
proof -
  have "rune_len (trim_space s) \<le> rune_len (trim_start space_runes s)"
    using rune_len_trim_end [of "map rev space_runes" "rev (trim_start space_runes s)"] by (simp add: trim_space_def)
  also have "\<dots> \<le> rune_len s" by (rule rune_len_trim_start) simp
  finally show ?thesis .
qed

text \<open>The pieces of a text cut into runes.\<close>

lemma rune_single:
  assumes "r \<in> set (runes_of s)"
  shows "r \<noteq> [] \<and> rune_len r = 1"
  using assms
proof (induction s rule: measure_induct_rule [where f = length])
  case (less s)
  show ?case
  proof (cases "s = []")
    case False
    let ?w = "rune_width s"
    have w: "0 < ?w" "?w \<le> length s" using rune_width_pos [OF False] rune_width_le by auto
    show ?thesis
    proof (cases "r = take ?w s")
      case True
      have "rune_width r = ?w"
      proof -
        obtain c t where s: "s = c # t" using False by (cases s) auto
        show ?thesis
        proof (cases "seq_ok c t")
          case ok: True
          then have "seq_ok c (take (seq_width (byte c) - 1) t)"
            by (cases "seq_width (byte c) - 1") (auto simp: seq_ok_def Let_def)
          with ok True s w show ?thesis by (cases "seq_width (byte c)") simp_all
        next
          case bad: False
          then have "r = [c]" using True s by simp
          then show ?thesis using bad s by (auto simp: seq_ok_def Let_def)
        qed
      qed
      with True w have "r \<noteq> []" "rune_width r = length r" by auto
      then show ?thesis using rune_len_step [of r] by simp
    next
      case other: False
      then have "r \<in> set (runes_of (drop ?w s))" using less.prems runes_Cons [OF False] by simp
      then show ?thesis using less.IH [of "drop ?w s"] w False by simp
    qed
  qed (use less.prems in simp)
qed

lemma split_runes_single: "r \<in> set (split_runes s) \<Longrightarrow> r \<noteq> [] \<and> rune_len r = 1"
proof -
  assume "r \<in> set (split_runes s)"
  then consider "r \<in> set (runes_of s)" | "r = [CHR 0xEF, CHR 0xBF, CHR 0xBD]" by (auto simp: split_runes_def split: if_splits)
  then show ?thesis
  proof cases
    case 2
    then show ?thesis by (simp add: rune_len_def runes_Cons seq_ok_def seq_width_def lead_ok_def byte_def cont_byte_def)
  qed (rule rune_single)
qed

definition valid_utf8 :: "string \<Rightarrow> bool" where
  "valid_utf8 s \<longleftrightarrow> (\<forall>r \<in> set (runes_of s). \<not> bad_rune r)"

lemma concat_split_runes: "valid_utf8 s \<Longrightarrow> concat (split_runes s) = s"
proof -
  assume "valid_utf8 s"
  then have "split_runes s = runes_of s" by (simp add: split_runes_def valid_utf8_def map_idI)
  then show ?thesis by simp
qed

lemma find_sub_here: "find_sub (q @ s) q = Some 0"
  by (cases q; cases s) auto

end
