(* ===== verification/TextSplitters.thy ===== *)
theory TextSplitters
  imports Complex_Main Indexing GoStrings
begin

section \<open>Text splitters (textsplitters/textsplitter.go)\<close>

text \<open>
  Texts are the strings of GoStrings. The character splitter cuts a text at the matches of its separator
  and merges the pieces into chunks; the recursive splitter cuts pieces that are too long again with the
  next separator. A result \<open>None\<close> is a panic of the code (a
  pattern \<open>regexp.MustCompile\<close> refuses, an index out of range). The regular expressions of the standard
  library are an argument, by what a pattern matches; literal separators are matched here. Lengths of
  texts stay far below the range of Go's integers.
\<close>

subsection \<open>Configuration\<close>

datatype keep_separator = KeepNone | KeepStart | KeepEnd

record splitter_config =
  sc_size :: int
  sc_overlap :: int
  sc_len :: "(string \<Rightarrow> int) option"
  sc_keep :: keep_separator
  sc_start :: bool
  sc_strip :: bool

definition normalize_config :: "splitter_config \<Rightarrow> goerr + splitter_config" where
  "normalize_config c =
     (let c = (if sc_size c = 0 then c\<lparr>sc_size := 4000\<rparr> else c)
      in if sc_size c \<le> 0 then Inl (EText (''chunk size must be > 0, got '' @ show_int (sc_size c)))
         else if sc_overlap c < 0 then Inl (EText (''chunk overlap must be >= 0, got '' @ show_int (sc_overlap c)))
         else if sc_overlap c > sc_size c then
           Inl (EText (''chunk overlap '' @ show_int (sc_overlap c) @ '' must be <= chunk size '' @ show_int (sc_size c)))
         else if sc_len c = None then Inr (c\<lparr>sc_len := Some rune_len\<rparr>)
         else Inr c)"

text \<open>The length function of a normalized configuration.\<close>

definition len_of :: "splitter_config \<Rightarrow> string \<Rightarrow> int" where
  "len_of c = (case sc_len c of None \<Rightarrow> rune_len | Some f \<Rightarrow> f)"

subsection \<open>Merging pieces\<close>

definition join_docs :: "splitter_config \<Rightarrow> string list \<Rightarrow> string \<Rightarrow> string" where
  "join_docs c parts sep = (let text = join_with sep parts in if sc_strip c then trim_space text else text)"

definition separator_if_needed :: "int \<Rightarrow> nat \<Rightarrow> int" where
  "separator_if_needed sl n = (if 0 < n then sl else 0)"

text \<open>The inner loop of \<open>mergeSplits\<close> takes pieces from the front; \<open>current[0]\<close> panics when none is left.\<close>

fun drop_front :: "splitter_config \<Rightarrow> int \<Rightarrow> int \<Rightarrow> string list \<Rightarrow> int \<Rightarrow> (string list \<times> int) option" where
  "drop_front c sl len [] tot =
     (if tot > sc_overlap c \<or> (tot + len + separator_if_needed sl 0 > sc_size c \<and> tot > 0) then None else Some ([], tot))"
| "drop_front c sl len (p # ps) tot =
     (if tot > sc_overlap c \<or> (tot + len + separator_if_needed sl (length (p # ps)) > sc_size c \<and> tot > 0)
      then drop_front c sl len ps (tot - len_of c p - (if length (p # ps) > 1 then sl else 0))
      else Some (p # ps, tot))"

fun merge_loop :: "splitter_config \<Rightarrow> string \<Rightarrow> string list \<Rightarrow> string list \<Rightarrow> int \<Rightarrow> string list \<Rightarrow> string list option" where
  "merge_loop c sep [] current tot docs =
     (let doc = join_docs c current sep in Some (if doc \<noteq> [] then docs @ [doc] else docs))"
| "merge_loop c sep (split # splits) current tot docs =
     (let sl = len_of c sep; len = len_of c split;
          full = tot + len + separator_if_needed sl (length current) > sc_size c \<and> current \<noteq> [];
          doc = join_docs c current sep
      in case (if full then drop_front c sl len current tot else Some (current, tot)) of
           None \<Rightarrow> None
         | Some (current', tot') \<Rightarrow>
             merge_loop c sep splits (current' @ [split]) (tot' + len + (if current' \<noteq> [] then sl else 0))
               (if full \<and> doc \<noteq> [] then docs @ [doc] else docs))"

definition merge_splits :: "splitter_config \<Rightarrow> string list \<Rightarrow> string \<Rightarrow> string list option" where
  "merge_splits c splits sep = merge_loop c sep splits [] 0 []"

subsection \<open>Cutting a text\<close>

record regex_engine =
  rx_valid :: "string \<Rightarrow> bool"
  rx_find_all :: "string \<Rightarrow> string \<Rightarrow> (nat \<times> nat) list"

text \<open>A separator is a literal (\<open>regexp.QuoteMeta\<close>) or a pattern.\<close>

datatype separator = Literal string | Pattern string

function literal_matches :: "string \<Rightarrow> string \<Rightarrow> nat \<Rightarrow> (nat \<times> nat) list" where
  "literal_matches sep text i =
     (if sep = [] \<or> length text < length sep then []
      else if take (length sep) text = sep then (i, i + length sep) # literal_matches sep (drop (length sep) text) (i + length sep)
      else literal_matches sep (tl text) (i + 1))"
  by pat_completeness auto

termination
proof (relation "measure (\<lambda>(sep, text, i). length text)")
  fix sep str :: string and i :: nat
  assume "\<not> (sep = [] \<or> length str < length sep)"
  then show "((sep, drop (length sep) str, i + length sep), sep, str, i) \<in> measure (\<lambda>(sep, text, i). length text)"
    and "((sep, tl str, i + 1), sep, str, i) \<in> measure (\<lambda>(sep, text, i). length text)"
    by (cases sep; cases str; simp)+
qed simp

declare literal_matches.simps [simp del]

definition has_affixes :: "string \<Rightarrow> string \<Rightarrow> string \<Rightarrow> bool" where
  "has_affixes pre post s \<longleftrightarrow> take (length pre) s = pre \<and> length post \<le> length s \<and> drop (length s - length post) s = post"

text \<open>Look-ahead and look-behind, which Go's regular expressions lack, are cut at the edges of what is inside.\<close>

definition trim_affixes :: "string \<Rightarrow> string \<Rightarrow> string" where
  "trim_affixes pre s = (let r = drop (length pre) s in if r \<noteq> [] \<and> last r = CHR '')'' then butlast r else r)"

definition lookaround_positions :: "regex_engine \<Rightarrow> string \<Rightarrow> string \<Rightarrow> (nat \<times> nat) list option" where
  "lookaround_positions rx text pattern =
     (let ahead = has_affixes ''(?='' '')'' pattern; behind = has_affixes ''(?<='' '')'' pattern;
          inner = (if ahead then trim_affixes ''(?='' pattern else trim_affixes ''(?<='' pattern)
      in if \<not> ahead \<and> \<not> behind \<or> \<not> rx_valid rx inner then None
         else Some (map (\<lambda>(a, b). if ahead then (a, a) else (b, b)) (rx_find_all rx inner text)))"

text \<open>
  The places where a separator cuts; \<open>None\<close> is the panic of a pattern that does not compile, as the quoted
  form of a literal does not when it is no UTF-8. Literals are compared byte by byte; that the replacement
  character in one also matches a byte that is no UTF-8 is left out.
\<close>

definition separator_matches :: "regex_engine \<Rightarrow> separator \<Rightarrow> string \<Rightarrow> (nat \<times> nat) list option" where
  "separator_matches rx sep text =
     (case sep of
        Literal s \<Rightarrow> (if valid_utf8 s then Some (literal_matches s text 0) else None)
      | Pattern p \<Rightarrow>
          (case lookaround_positions rx text p of
             Some ms \<Rightarrow> Some ms
           | None \<Rightarrow> if rx_valid rx p then Some (rx_find_all rx p text) else None))"

definition slice :: "nat \<Rightarrow> nat \<Rightarrow> string \<Rightarrow> string" where
  "slice a b s = take (b - a) (drop a s)"

fun cut_loop :: "keep_separator \<Rightarrow> string \<Rightarrow> (nat \<times> nat) list \<Rightarrow> nat \<Rightarrow> string list" where
  "cut_loop keep text [] start = (if start < length text then [drop start text] else [])"
| "cut_loop keep text ((a, b) # ms) start =
     (case keep of
        KeepStart \<Rightarrow> slice start a text # cut_loop keep text ms a
      | KeepEnd \<Rightarrow> (slice start a text @ slice a b text) # cut_loop keep text ms b
      | KeepNone \<Rightarrow> slice start a text # cut_loop keep text ms b)"

definition separator_text :: "separator \<Rightarrow> string" where
  "separator_text sep = (case sep of Literal s \<Rightarrow> s | Pattern p \<Rightarrow> p)"

definition split_text_with :: "regex_engine \<Rightarrow> keep_separator \<Rightarrow> separator \<Rightarrow> string \<Rightarrow> string list option" where
  "split_text_with rx keep sep text =
     (if separator_text sep = [] then Some (split_runes text)
      else map_option (\<lambda>ms. if ms = [] then (if text = [] then [] else [text]) else filter (\<lambda>p. p \<noteq> []) (cut_loop keep text ms 0))
             (separator_matches rx sep text))"

subsection \<open>The splitters\<close>

definition is_lookaround :: "separator \<Rightarrow> bool" where
  "is_lookaround sep =
     (case sep of
        Literal s \<Rightarrow> False
      | Pattern p \<Rightarrow> take 3 p = ''(?='' \<or> take 4 p = ''(?<!'' \<or> take 4 p = ''(?<='' \<or> take 3 p = ''(?!'')"

definition new_character :: "splitter_config \<Rightarrow> goerr + splitter_config" where
  "new_character c =
     normalize_config (if sc_size c = 0 \<and> sc_overlap c = 0 \<and> sc_len c = None \<and> sc_keep c = KeepNone then c\<lparr>sc_strip := True\<rparr> else c)"

definition char_split :: "regex_engine \<Rightarrow> splitter_config \<Rightarrow> separator \<Rightarrow> string \<Rightarrow> string list option" where
  "char_split rx c sep text =
     Option.bind (split_text_with rx (sc_keep c) sep text)
       (\<lambda>splits. merge_splits c splits (if sc_keep c = KeepNone \<and> \<not> is_lookaround sep then separator_text sep else []))"

definition default_separators :: "string list" where
  "default_separators = [[CHR 0x0A, CHR 0x0A], [CHR 0x0A], '' '', []]"

definition new_recursive :: "string list \<Rightarrow> bool \<Rightarrow> splitter_config \<Rightarrow> goerr + (string list \<times> bool \<times> splitter_config)" where
  "new_recursive seps regex c =
     (let seps = (if seps = [] then default_separators else seps);
          c = (if sc_keep c = KeepNone then c\<lparr>sc_keep := KeepStart\<rparr> else c);
          c = (if sc_size c = 0 \<and> sc_overlap c = 0 \<and> sc_len c = None then c\<lparr>sc_strip := True\<rparr> else c)
      in rbind (normalize_config c) (\<lambda>c. Inr (seps, regex, c)))"

definition sep_of :: "bool \<Rightarrow> string \<Rightarrow> separator" where
  "sep_of regex s = (if regex then Pattern s else Literal s)"

text \<open>The first separator that occurs, with the ones after it; the last one alone when none does.\<close>

fun pick_separator :: "regex_engine \<Rightarrow> bool \<Rightarrow> string \<Rightarrow> string list \<Rightarrow> string \<Rightarrow> (string \<times> string list) option" where
  "pick_separator rx regex text [] final = Some (final, [])"
| "pick_separator rx regex text (s # seps) final =
     (if s = [] then Some (s, seps)
      else case separator_matches rx (sep_of regex s) text of
             None \<Rightarrow> None
           | Some ms \<Rightarrow> if ms \<noteq> [] then Some (s, seps) else pick_separator rx regex text seps final)"

lemma pick_separator_shorter: "pick_separator rx regex text seps final = Some (s, rest) \<Longrightarrow> seps \<noteq> [] \<Longrightarrow> length rest < length seps"
  by (induction seps) (force split: if_splits option.splits)+

text \<open>\<open>splitText\<close>, with its loop over the pieces: short ones are gathered and merged, long ones cut again.\<close>

definition merge_good :: "splitter_config \<Rightarrow> string \<Rightarrow> string list \<Rightarrow> string list option" where
  "merge_good c sep good = (if good = [] then Some [] else merge_splits c good sep)"

function
  rec_split :: "regex_engine \<Rightarrow> splitter_config \<Rightarrow> bool \<Rightarrow> string \<Rightarrow> string list \<Rightarrow> string list option" and
  rec_pieces :: "regex_engine \<Rightarrow> splitter_config \<Rightarrow> bool \<Rightarrow> string list \<Rightarrow> string \<Rightarrow> string list \<Rightarrow> string list \<Rightarrow> string list \<Rightarrow> string list option" where
  "rec_split rx c regex text seps =
     (if seps = [] then None
      else case pick_separator rx regex text seps (last seps) of
             None \<Rightarrow> None
           | Some (s, rest) \<Rightarrow>
               (case split_text_with rx (sc_keep c) (sep_of regex s) text of
                  None \<Rightarrow> None
                | Some pieces \<Rightarrow> rec_pieces rx c regex rest (if sc_keep c = KeepNone then s else []) pieces [] []))"
| "rec_pieces rx c regex rest msep [] good chunks = map_option (\<lambda>merged. chunks @ merged) (merge_good c msep good)"
| "rec_pieces rx c regex rest msep (p # ps) good chunks =
     (if len_of c p < sc_size c then rec_pieces rx c regex rest msep ps (good @ [p]) chunks
      else case merge_good c msep good of
             None \<Rightarrow> None
           | Some merged \<Rightarrow>
               (case (if rest = [] then Some [p] else rec_split rx c regex p rest) of
                  None \<Rightarrow> None
                | Some again \<Rightarrow> rec_pieces rx c regex rest msep ps [] (chunks @ merged @ again)))"
  by pat_completeness auto

termination
proof (relation "measures [\<lambda>x. case x of Inl (rx, c, regex, text, seps) \<Rightarrow> 2 * length seps
      | Inr (rx, c, regex, rest, msep, ps, good, chunks) \<Rightarrow> 2 * length rest + 1,
    \<lambda>x. case x of Inl (rx, c, regex, text, seps) \<Rightarrow> 0 | Inr (rx, c, regex, rest, msep, ps, good, chunks) \<Rightarrow> length ps]")
  fix rx c regex str seps z s rest pieces
  assume "seps \<noteq> []" and "pick_separator rx regex str seps (last seps) = Some z" and "(s, rest) = z"
  then have "length rest < length seps" using pick_separator_shorter by metis
  then show "(Inr (rx, c, regex, rest, if sc_keep c = KeepNone then s else [], pieces, [], []), Inl (rx, c, regex, str, seps)) \<in>
      measures [\<lambda>x. case x of Inl (rx, c, regex, text, seps) \<Rightarrow> 2 * length seps
      | Inr (rx, c, regex, rest, msep, ps, good, chunks) \<Rightarrow> 2 * length rest + 1,
    \<lambda>x. case x of Inl (rx, c, regex, text, seps) \<Rightarrow> 0 | Inr (rx, c, regex, rest, msep, ps, good, chunks) \<Rightarrow> length ps]"
    by simp
qed simp_all

declare rec_split.simps [simp del]

definition recursive_split :: "regex_engine \<Rightarrow> string list \<times> bool \<times> splitter_config \<Rightarrow> string \<Rightarrow> string list option" where
  "recursive_split rx s text = (case s of (seps, regex, c) \<Rightarrow> rec_split rx c regex text seps)"

subsection \<open>Documents\<close>

text \<open>\<open>CreateDocuments\<close>: the chunks of each text with its metadata and, if asked for, the byte where a chunk starts.\<close>

fun chunk_docs :: "splitter_config \<Rightarrow> string \<Rightarrow> gstate \<Rightarrow> string list \<Rightarrow> int \<Rightarrow> int \<Rightarrow> doc list option" where
  "chunk_docs c text meta [] index prev = Some []"
| "chunk_docs c text meta (chunk # chunks) index prev =
     (if \<not> sc_start c then
        map_option (\<lambda>ds. \<lparr>doc_id = [], doc_content = chunk, doc_meta = meta\<rparr> # ds) (chunk_docs c text meta chunks index prev)
      else
        let offset = max (index + prev - sc_overlap c) 0
        in if offset > int (length text) then None
           else let index' = (case find_sub (drop (nat offset) text) chunk of Some i \<Rightarrow> offset + int i | None \<Rightarrow> -1)
                in map_option (\<lambda>ds. \<lparr>doc_id = [], doc_content = chunk, doc_meta = mput ''start_index'' (VInt index') meta\<rparr> # ds)
                     (chunk_docs c text meta chunks index' (int (length chunk))))"

fun create_documents :: "splitter_config \<Rightarrow> (string \<Rightarrow> string list option) \<Rightarrow> string list \<Rightarrow> gstate list \<Rightarrow> doc list option" where
  "create_documents c split [] metas = Some []"
| "create_documents c split (text # texts) metas =
     (case split text of
        None \<Rightarrow> None
      | Some chunks \<Rightarrow>
          (case chunk_docs c text (case metas of [] \<Rightarrow> [] | m # _ \<Rightarrow> m) chunks 0 0 of
             None \<Rightarrow> None
           | Some ds \<Rightarrow> map_option (\<lambda>rest. ds @ rest) (create_documents c split texts (tl metas))))"

definition split_documents :: "splitter_config \<Rightarrow> (string \<Rightarrow> string list option) \<Rightarrow> doc list \<Rightarrow> doc list option" where
  "split_documents c split ds = create_documents c split (map doc_content ds) (map doc_meta ds)"

subsection \<open>Windows\<close>

text \<open>
  The chunks of a merge are windows of the list of pieces: the first starts at the first piece, every next
  one ends later and starts within or right after the one before, the last ends at the last piece. A window
  fits the chunk size, unless what comes before its last piece has no length.
\<close>

definition sub :: "nat \<Rightarrow> nat \<Rightarrow> 'a list \<Rightarrow> 'a list" where
  "sub a b xs = take (b - a) (drop a xs)"

definition parts_len :: "(string \<Rightarrow> int) \<Rightarrow> string \<Rightarrow> string list \<Rightarrow> int" where
  "parts_len len sep ps = sum_list (map len ps) + (if ps = [] then 0 else len sep * (int (length ps) - 1))"

definition fits :: "splitter_config \<Rightarrow> string \<Rightarrow> string list \<Rightarrow> nat \<Rightarrow> nat \<Rightarrow> bool" where
  "fits c sep ps a b \<longleftrightarrow> parts_len (len_of c) sep (sub a b ps) \<le> sc_size c \<or> parts_len (len_of c) sep (sub a (b - 1) ps) \<le> 0"

fun windows :: "splitter_config \<Rightarrow> string \<Rightarrow> string list \<Rightarrow> nat \<Rightarrow> nat \<Rightarrow> (nat \<times> nat) list \<Rightarrow> bool" where
  "windows c sep ps i k [] \<longleftrightarrow> False"
| "windows c sep ps i k ((a, b) # ws) \<longleftrightarrow>
     a = i \<and> k \<le> b \<and> b \<le> length ps \<and> fits c sep ps a b \<and>
     (if ws = [] then b = length ps
      else a \<le> fst (hd ws) \<and> fst (hd ws) \<le> b \<and> parts_len (len_of c) sep (sub (fst (hd ws)) b ps) \<le> sc_overlap c \<and>
        windows c sep ps (fst (hd ws)) (Suc b) ws)"

definition window_chunks :: "splitter_config \<Rightarrow> string \<Rightarrow> string list \<Rightarrow> (nat \<times> nat) list \<Rightarrow> string list" where
  "window_chunks c sep ps ws = filter (\<lambda>d. d \<noteq> []) (map (\<lambda>(a, b). join_docs c (sub a b ps) sep) ws)"

lemma windows_weaken: "windows c sep ps i (Suc k) ws \<Longrightarrow> windows c sep ps i k ws"
  by (cases ws) (auto split: if_splits)

lemma sub_snoc: "a \<le> b \<Longrightarrow> b < length ps \<Longrightarrow> sub a (Suc b) ps = sub a b ps @ [ps ! b]"
  by (simp add: sub_def Suc_diff_le take_Suc_conv_app_nth)

lemma sub_Nil_iff: "a \<le> b \<Longrightarrow> b \<le> length ps \<Longrightarrow> sub a b ps = [] \<longleftrightarrow> a = b"
  by (auto simp: sub_def)

lemma length_sub: "b \<le> length ps \<Longrightarrow> length (sub a b ps) = b - a"
  by (simp add: sub_def)

lemma drop_sub: "drop n (sub a b ps) = sub (a + n) b ps"
  by (simp add: sub_def drop_take add.commute)

lemma parts_len_snoc: "parts_len len sep (ps @ [p]) = parts_len len sep ps + len p + (if ps \<noteq> [] then len sep else 0)"
  by (simp add: parts_len_def algebra_simps)

lemma parts_len_Cons: "parts_len len sep (p # ps) = parts_len len sep ps + len p + (if ps \<noteq> [] then len sep else 0)"
  by (cases ps) (simp_all add: parts_len_def algebra_simps)

lemma parts_len_Nil [simp]: "parts_len len sep [] = 0"
  by (simp add: parts_len_def)

text \<open>The merge loop makes windows, whatever the length function is.\<close>

lemma drop_front_ends:
  assumes "len_of c = len" and "0 \<le> sc_overlap c"
  shows "\<exists>n. drop_front c (len sep) l ps (parts_len len sep ps) = Some (drop n ps, parts_len len sep (drop n ps)) \<and> n \<le> length ps \<and>
    parts_len len sep (drop n ps) \<le> sc_overlap c \<and>
    (parts_len len sep (drop n ps) + l + separator_if_needed (len sep) (length ps - n) \<le> sc_size c \<or> parts_len len sep (drop n ps) \<le> 0)"
proof (induction ps)
  case Nil
  then show ?case using assms(2) by (intro exI [of _ 0]) simp
next
  case (Cons p ps)
  let ?t = "parts_len len sep (p # ps)"
  show ?case
  proof (cases "?t > sc_overlap c \<or> (?t + l + separator_if_needed (len sep) (length (p # ps)) > sc_size c \<and> ?t > 0)")
    case True
    have rest: "?t - len_of c p - (if length (p # ps) > 1 then len sep else 0) = parts_len len sep ps"
      by (cases ps) (simp_all add: parts_len_Cons assms(1))
    have step: "drop_front c (len sep) l (p # ps) ?t = drop_front c (len sep) l ps (parts_len len sep ps)"
      unfolding drop_front.simps(2) if_P [OF True] rest by (rule refl)
    from Cons.IH obtain n where n: "drop_front c (len sep) l ps (parts_len len sep ps) = Some (drop n ps, parts_len len sep (drop n ps))"
        "n \<le> length ps" "parts_len len sep (drop n ps) \<le> sc_overlap c"
        "parts_len len sep (drop n ps) + l + separator_if_needed (len sep) (length ps - n) \<le> sc_size c \<or> parts_len len sep (drop n ps) \<le> 0"
      by blast
    show ?thesis unfolding step using n by (intro exI [of _ "Suc n"]) simp
  next
    case False
    have "drop_front c (len sep) l (p # ps) ?t = Some (p # ps, ?t)"
      unfolding drop_front.simps(2) if_not_P [OF False] by (rule refl)
    with False show ?thesis by (intro exI [of _ 0]) (simp del: drop_front.simps, linarith)
  qed
qed

lemma merge_loop_windows:
  assumes len: "len_of c = len" and over: "0 \<le> sc_overlap c"
  shows "i \<le> k \<Longrightarrow> k \<le> length ps \<Longrightarrow> fits c sep ps i k \<Longrightarrow>
    \<exists>ws. merge_loop c sep (drop k ps) (sub i k ps) (parts_len len sep (sub i k ps)) docs = Some (docs @ window_chunks c sep ps ws) \<and>
      windows c sep ps i k ws"
proof (induction "length ps - k" arbitrary: i k docs)
  case 0
  then have "k = length ps" by simp
  with "0.prems" show ?case
    by (intro exI [of _ "[(i, k)]"]) (simp add: window_chunks_def Let_def)
next
  case (Suc n)
  then have k: "k < length ps" by simp
  let ?cur = "sub i k ps" and ?p = "ps ! k"
  let ?full = "parts_len len sep ?cur + len ?p + separator_if_needed (len sep) (length ?cur) > sc_size c \<and> ?cur \<noteq> []"
  have next_piece: "drop k ps = ?p # drop (Suc k) ps" using k by (simp add: Cons_nth_drop_Suc)
  have IH: "\<exists>ws. merge_loop c sep (drop (Suc k) ps) (sub j (Suc k) ps) (parts_len len sep (sub j (Suc k) ps)) docs' =
      Some (docs' @ window_chunks c sep ps ws) \<and> windows c sep ps j (Suc k) ws"
    if "j \<le> k" "fits c sep ps j (Suc k)" for j docs'
    using Suc.hyps(1) [of "Suc k" j docs'] Suc.hyps(2) k that by simp
  have add: "sub j (Suc k) ps = sub j k ps @ [?p]"
      "parts_len len sep (sub j (Suc k) ps) = parts_len len sep (sub j k ps) + len ?p + (if sub j k ps \<noteq> [] then len sep else 0)"
    if "j \<le> k" for j
    using that k by (simp_all add: sub_snoc parts_len_snoc)
  show ?case
  proof (cases ?full)
    case False
    have "fits c sep ps i (Suc k)"
    proof (cases "?cur = []")
      case True
      then show ?thesis by (simp add: fits_def len)
    next
      case nonempty: False
      with False have "parts_len len sep (sub i (Suc k) ps) \<le> sc_size c"
        unfolding add(2) [OF Suc.prems(1)] by (simp add: separator_if_needed_def not_less)
      then show ?thesis by (simp add: fits_def len)
    qed
    from IH [OF Suc.prems(1) this, of docs] obtain ws where
      "merge_loop c sep (drop (Suc k) ps) (sub i (Suc k) ps) (parts_len len sep (sub i (Suc k) ps)) docs = Some (docs @ window_chunks c sep ps ws)"
      "windows c sep ps i (Suc k) ws" by blast
    moreover have "merge_loop c sep (drop k ps) ?cur (parts_len len sep ?cur) docs =
        merge_loop c sep (drop (Suc k) ps) (sub i (Suc k) ps) (parts_len len sep (sub i (Suc k) ps)) docs"
      using False unfolding next_piece add [OF Suc.prems(1)] by (auto simp: Let_def len parts_len_snoc)
    ultimately show ?thesis using windows_weaken by metis
  next
    case True
    obtain m where m: "drop_front c (len sep) (len ?p) ?cur (parts_len len sep ?cur) = Some (drop m ?cur, parts_len len sep (drop m ?cur))"
        "m \<le> length ?cur" "parts_len len sep (drop m ?cur) \<le> sc_overlap c"
        "parts_len len sep (drop m ?cur) + len ?p + separator_if_needed (len sep) (length ?cur - m) \<le> sc_size c \<or> parts_len len sep (drop m ?cur) \<le> 0"
      using drop_front_ends [OF len over] by blast
    let ?j = "i + m"
    have j: "i \<le> ?j" "?j \<le> k" using m(2) k Suc.prems by (simp_all add: length_sub)
    have cur: "drop m ?cur = sub ?j k ps" by (simp add: drop_sub)
    have "length ?cur - m = length (sub ?j k ps)" using cur by (metis length_drop)
    then have "fits c sep ps ?j (Suc k)"
      using m(4) unfolding cur fits_def len add(2) [OF j(2)] by (auto simp: separator_if_needed_def)
    let ?doc = "join_docs c ?cur sep"
    let ?docs = "if ?doc \<noteq> [] then docs @ [?doc] else docs"
    from IH [OF j(2) \<open>fits c sep ps ?j (Suc k)\<close>, of ?docs] obtain ws where
      ws: "merge_loop c sep (drop (Suc k) ps) (sub ?j (Suc k) ps) (parts_len len sep (sub ?j (Suc k) ps)) ?docs = Some (?docs @ window_chunks c sep ps ws)"
        "windows c sep ps ?j (Suc k) ws" by blast
    obtain b ws' where ws': "ws = (?j, b) # ws'" using ws(2) by (cases ws) auto
    have "merge_loop c sep (drop k ps) ?cur (parts_len len sep ?cur) docs =
        merge_loop c sep (drop (Suc k) ps) (sub ?j (Suc k) ps) (parts_len len sep (sub ?j (Suc k) ps)) ?docs"
      using True m(1) unfolding next_piece add [OF j(2)] cur by (auto simp: Let_def len parts_len_snoc)
    moreover have "?docs @ window_chunks c sep ps ws = docs @ window_chunks c sep ps ((i, k) # ws)"
      by (simp add: window_chunks_def)
    moreover have "windows c sep ps i k ((i, k) # ws)"
      using ws(2) Suc.prems j m(3) unfolding cur ws' by (auto simp: len)
    ultimately show ?thesis using ws(1) by metis
  qed
qed

lemma merge_windows:
  assumes "len_of c = len" and "0 \<le> sc_overlap c" and "ps \<noteq> []"
  shows "\<exists>ws. merge_splits c ps sep = Some (window_chunks c sep ps ws) \<and> windows c sep ps 0 1 ws"
proof -
  obtain p rest where ps: "ps = p # rest" using assms(3) by (cases ps) auto
  have "fits c sep ps 0 1" by (simp add: fits_def sub_def)
  then obtain ws where "merge_loop c sep (drop 1 ps) (sub 0 1 ps) (parts_len len sep (sub 0 1 ps)) [] = Some (window_chunks c sep ps ws)"
      "windows c sep ps 0 1 ws"
    using merge_loop_windows [OF assms(1,2), of 0 1 ps sep "[]"] assms(3) by (auto simp: Suc_le_eq)
  moreover have "merge_splits c ps sep = merge_loop c sep (drop 1 ps) (sub 0 1 ps) (parts_len len sep (sub 0 1 ps)) []"
    by (simp add: merge_splits_def ps Let_def sub_def parts_len_Cons assms(1))
  ultimately show ?thesis by auto
qed

text \<open>What the splitters need of a length: zero for nothing, never negative, never more for a whole than for its parts.\<close>

locale length_measure =
  fixes len :: "string \<Rightarrow> int"
  assumes len_Nil: "len [] = 0" and len_nonneg: "0 \<le> len a" and len_append: "len (a @ b) \<le> len a + len b"
    and len_trim: "len (trim_space a) \<le> len a" and len_pos: "a \<noteq> [] \<Longrightarrow> 0 < len a"
begin

lemma len_join: "len (join_with sep ps) \<le> parts_len len sep ps"
proof (induction sep ps rule: join_with.induct)
  case (3 sep x y ys)
  have "len (x @ sep @ join_with sep (y # ys)) \<le> len x + (len sep + len (join_with sep (y # ys)))"
    using len_append [of x "sep @ join_with sep (y # ys)"] len_append [of sep "join_with sep (y # ys)"] by linarith
  with 3 show ?case by (simp add: parts_len_Cons [of len sep x])
qed (simp_all add: len_Nil parts_len_def)

lemma len_join_docs: "len (join_docs c ps sep) \<le> parts_len len sep ps"
  using len_join [of sep ps] len_trim [of "join_with sep ps"] by (auto simp: join_docs_def Let_def)

lemma parts_pos:
  assumes "ps \<noteq> []" and "\<forall>p \<in> set ps. p \<noteq> []"
  shows "0 < parts_len len sep ps"
proof -
  obtain p rest where ps: "ps = p # rest" using assms(1) by (cases ps) auto
  have "0 \<le> parts_len len sep rest"
  proof (induction rest)
    case (Cons p ps)
    then show ?case using len_nonneg [of p] len_nonneg [of sep] by (simp add: parts_len_Cons)
  qed simp
  moreover have "0 < len p" using assms(2) len_pos by (simp add: ps)
  ultimately show ?thesis using len_nonneg [of sep] by (simp add: ps parts_len_Cons)
qed

lemma windows_each: "windows c sep ps i k ws \<Longrightarrow> i < k \<Longrightarrow> (a, b) \<in> set ws \<Longrightarrow> a < b \<and> b \<le> length ps \<and> fits c sep ps a b"
proof (induction ws arbitrary: i k)
  case (Cons w ws)
  obtain a' b' where w: "w = (a', b')" by (cases w)
  show ?case
  proof (cases "(a, b) = w")
    case True
    with Cons.prems show ?thesis by (auto simp: w)
  next
    case False
    then have "ws \<noteq> []" "(a, b) \<in> set ws" using Cons.prems(3) by auto
    with Cons.prems Cons.IH [of "fst (hd ws)" "Suc b'"] show ?thesis by (simp add: w)
  qed
qed simp

lemma fits_bound:
  assumes "len_of c = len" and "fits c sep ps a b" and "a < b" and "b \<le> length ps" and "\<forall>p \<in> set ps. p \<noteq> [] \<and> len p \<le> sc_size c"
  shows "parts_len len sep (sub a b ps) \<le> sc_size c"
proof (cases "parts_len len sep (sub a b ps) \<le> sc_size c")
  case False
  have "set (sub a (b - 1) ps) \<subseteq> set ps" by (auto simp: sub_def dest!: in_set_takeD in_set_dropD)
  then have "\<forall>p \<in> set (sub a (b - 1) ps). p \<noteq> []" using assms(5) by blast
  moreover have "parts_len len sep (sub a (b - 1) ps) \<le> 0" using assms(1,2) False by (simp add: fits_def)
  ultimately have "sub a (b - 1) ps = []" using parts_pos [of "sub a (b - 1) ps" sep] by linarith
  moreover have "a \<le> b - 1" "b - 1 \<le> length ps" using assms(3,4) by simp_all
  ultimately have "a = b - 1" using sub_Nil_iff [of a "b - 1" ps] by blast
  then have "b = Suc a" using assms(3) by simp
  then have "sub a b ps = [ps ! a]" using sub_snoc [of a a ps] assms(4) by (simp add: sub_def)
  with assms(4,5) \<open>b = Suc a\<close> show ?thesis by (simp add: parts_len_def)
qed

lemma merge_bound:
  assumes "len_of c = len" and "0 \<le> sc_overlap c" and "\<forall>p \<in> set ps. p \<noteq> [] \<and> len p \<le> sc_size c"
  shows "\<exists>chunks. merge_splits c ps sep = Some chunks \<and> (\<forall>d \<in> set chunks. d \<noteq> [] \<and> len d \<le> sc_size c)"
proof (cases "ps = []")
  case True
  then show ?thesis by (simp add: merge_splits_def Let_def join_docs_def)
next
  case False
  from merge_windows [OF assms(1,2) False] obtain ws where
    ws: "merge_splits c ps sep = Some (window_chunks c sep ps ws)" "windows c sep ps 0 1 ws" by blast
  have "len d \<le> sc_size c" if d: "d \<in> set (window_chunks c sep ps ws)" for d
  proof -
    obtain a b where ab: "(a, b) \<in> set ws" "d = join_docs c (sub a b ps) sep" using d by (auto simp: window_chunks_def)
    have "parts_len len sep (sub a b ps) \<le> sc_size c"
      using windows_each [OF ws(2) _ ab(1)] fits_bound [OF assms(1) _ _ _ assms(3)] by simp
    then show ?thesis using len_join_docs [of c "sub a b ps" sep] ab(2) by simp
  qed
  with ws(1) show ?thesis by (auto simp: window_chunks_def)
qed

lemma windows_tile:
  assumes "len_of c = len" and "sc_overlap c = 0" and "\<forall>p \<in> set ps. p \<noteq> []"
  shows "windows c sep ps i k ws \<Longrightarrow> i < k \<Longrightarrow> concat (map (\<lambda>(a, b). concat (sub a b ps)) ws) = concat (drop i ps)"
proof (induction ws arbitrary: i k)
  case (Cons w ws)
  obtain a b where w: "w = (a, b)" by (cases w)
  from Cons.prems have ab: "a = i" "i < b" "b \<le> length ps" by (auto simp: w)
  have pieces: "concat (drop i ps) = concat (sub i b ps) @ concat (drop b ps)"
  proof -
    have "drop i ps = sub i b ps @ drop b ps" using ab by (simp add: sub_def) (metis append_take_drop_id drop_drop le_add_diff_inverse2 less_imp_le)
    then show ?thesis by simp
  qed
  show ?case
  proof (cases "ws = []")
    case True
    with Cons.prems pieces ab show ?thesis by (simp add: w)
  next
    case False
    let ?j = "fst (hd ws)"
    have "set (sub ?j b ps) \<subseteq> set ps" by (auto simp: sub_def dest!: in_set_takeD in_set_dropD)
    then have "sub ?j b ps = []" using Cons.prems(1) False parts_pos [of "sub ?j b ps" sep] assms by (auto simp: w)
    then have "?j = b" using Cons.prems(1) False sub_Nil_iff [of ?j b ps] by (simp add: w)
    moreover have "windows c sep ps ?j (Suc b) ws" using Cons.prems(1) False by (simp add: w)
    ultimately show ?thesis using Cons.IH [of b "Suc b"] pieces ab by (simp add: w)
  qed
qed simp

lemma merge_tiles:
  assumes "len_of c = len" and "sc_overlap c = 0" and "\<not> sc_strip c" and "\<forall>p \<in> set ps. p \<noteq> []"
  shows "\<exists>chunks. merge_splits c ps [] = Some chunks \<and> concat chunks = concat ps \<and> (\<forall>d \<in> set chunks. d \<noteq> [])"
proof (cases "ps = []")
  case True
  then show ?thesis using assms(3) by (simp add: merge_splits_def Let_def join_docs_def)
next
  case False
  have "0 \<le> sc_overlap c" by (simp add: assms(2))
  from merge_windows [OF assms(1) this False] obtain ws where
    ws: "merge_splits c ps [] = Some (window_chunks c [] ps ws)" "windows c [] ps 0 1 ws" by blast
  have "join_with [] xs = concat xs" for xs by (induction "[] :: string" xs rule: join_with.induct) simp_all
  then have "concat (window_chunks c [] ps ws) = concat (map (\<lambda>(a, b). concat (sub a b ps)) ws)"
    using assms(3) by (induction ws) (auto simp: window_chunks_def join_docs_def Let_def)
  then have "concat (window_chunks c [] ps ws) = concat ps" using windows_tile [OF assms(1,2,4) ws(2)] by simp
  with ws(1) show ?thesis by (auto simp: window_chunks_def)
qed

end

interpretation runes: length_measure rune_len
proof
  show "0 \<le> rune_len a" for a by (simp add: rune_len_def)
qed (rule rune_len_Nil rune_len_append rune_len_trim rune_len_pos, assumption?)+

subsection \<open>Pieces\<close>

lemma split_pieces_nonempty: "split_text_with rx keep sep str = Some ps \<Longrightarrow> p \<in> set ps \<Longrightarrow> p \<noteq> []"
proof -
  assume ps: "split_text_with rx keep sep str = Some ps" and p: "p \<in> set ps"
  show "p \<noteq> []"
  proof (cases "separator_text sep = []")
    case True
    then have "p \<in> set (split_runes str)" using ps p by (simp add: split_text_with_def)
    then show ?thesis using split_runes_single by blast
  next
    case False
    then obtain ms where "ps = (if ms = [] then if str = [] then [] else [str] else filter (\<lambda>p. p \<noteq> []) (cut_loop keep str ms 0))"
      using ps by (auto simp: split_text_with_def)
    then show ?thesis using p by (simp split: if_splits)
  qed
qed

text \<open>Matches as the regular expressions of Go report them: in order, without overlaps.\<close>

fun ordered_matches :: "nat \<Rightarrow> nat \<Rightarrow> (nat \<times> nat) list \<Rightarrow> bool" where
  "ordered_matches start n [] \<longleftrightarrow> start \<le> n"
| "ordered_matches start n ((a, b) # ms) \<longleftrightarrow> start \<le> a \<and> a \<le> b \<and> b \<le> n \<and> ordered_matches b n ms"

lemma ordered_weaken: "ordered_matches b n ms \<Longrightarrow> a \<le> b \<Longrightarrow> ordered_matches a n ms"
  by (cases ms) auto

lemma slice_append: "a \<le> b \<Longrightarrow> slice a b s @ drop b s = drop a s"
  by (simp add: slice_def) (metis append_take_drop_id drop_drop le_add_diff_inverse2)

lemma cut_loop_tiles: "keep \<noteq> KeepNone \<Longrightarrow> ordered_matches start (length str) ms \<Longrightarrow> concat (cut_loop keep str ms start) = drop start str"
proof (induction keep str ms start rule: cut_loop.induct)
  case (2 keep str a b ms start)
  show ?case
  proof (cases keep)
    case KeepStart
    moreover have "ordered_matches a (length str) ms" using 2(5) ordered_weaken by auto
    ultimately show ?thesis using 2 slice_append [of start a str] by simp
  next
    case KeepEnd
    then show ?thesis using 2 slice_append [of start a str] slice_append [of a b str] by simp
  qed (use 2 in simp)
qed simp

lemma literal_ordered: "ordered_matches i (i + length str) (literal_matches sep str i)"
proof (induction sep str i rule: literal_matches.induct)
  case (1 sep str i)
  show ?case
  proof (cases "sep = [] \<or> length str < length sep")
    case True
    then show ?thesis by (subst literal_matches.simps) simp
  next
    case False
    show ?thesis
    proof (cases "take (length sep) str = sep")
      case True
      with 1(1) [OF False True] False show ?thesis by (subst literal_matches.simps) (auto simp: add.assoc)
    next
      case other: False
      have "i + 1 + length (tl str) = i + length str" using False by (cases str) auto
      with 1(2) [OF False other] have "ordered_matches (i + 1) (i + length str) (literal_matches sep (tl str) (i + 1))" by metis
      with False other ordered_weaken [of "i + 1" "i + length str" _ i] show ?thesis by (subst literal_matches.simps) simp
    qed
  qed
qed

lemma literal_match_is_sep:
  "(a, b) \<in> set (literal_matches sep str i) \<Longrightarrow> i \<le> a \<and> b = a + length sep \<and> take (length sep) (drop (a - i) str) = sep \<and> sep \<noteq> []"
proof (induction sep str i rule: literal_matches.induct)
  case (1 sep str i)
  show ?case
  proof (cases "sep = [] \<or> length str < length sep")
    case True
    with 1(3) show ?thesis by (subst (asm) literal_matches.simps) simp
  next
    case False
    show ?thesis
    proof (cases "take (length sep) str = sep")
      case True
      show ?thesis
      proof (cases "(a, b) = (i, i + length sep)")
        case here: True
        with True False show ?thesis by simp
      next
        case later: False
        with 1(3) False True have "(a, b) \<in> set (literal_matches sep (drop (length sep) str) (i + length sep))"
          by (subst (asm) literal_matches.simps) auto
        from 1(1) [OF False True this] have m: "i + length sep \<le> a" "b = a + length sep"
            "take (length sep) (drop (a - (i + length sep)) (drop (length sep) str)) = sep" "sep \<noteq> []" by blast+
        from m(1) have "drop (a - (i + length sep)) (drop (length sep) str) = drop (a - i) str" by simp
        with m show ?thesis by simp
      qed
    next
      case other: False
      with 1(3) False have "(a, b) \<in> set (literal_matches sep (tl str) (i + 1))" by (subst (asm) literal_matches.simps) simp
      from 1(2) [OF False other this] False show ?thesis by (cases str) (auto simp: drop_Cons' Suc_diff_le)
    qed
  qed
qed

text \<open>Cuts at a literal separator fall between runes.\<close>

lemma runes_append_valid: "valid_utf8 s \<Longrightarrow> runes_of (s @ t) = runes_of s @ runes_of t"
proof (induction s rule: measure_induct_rule [where f = length])
  case (less s)
  show ?case
  proof (cases "s = []")
    case False
    then obtain c r where s: "s = c # r" by (cases s) auto
    let ?w = "rune_width s"
    have w: "0 < ?w" "?w \<le> length s" using rune_width_pos [OF False] rune_width_le by auto
    have good: "\<not> bad_rune (take ?w s)" "valid_utf8 (drop ?w s)" using less.prems False by (simp_all add: valid_utf8_def runes_Cons)
    have "rune_width (s @ t) = ?w"
    proof (cases "seq_ok c r")
      case True
      then show ?thesis using seq_ok_append [OF seq_ok_width [OF True]] s by simp
    next
      case bad: False
      then have "byte c < 0x80" using good(1) s by (auto simp: bad_rune_def)
      then have "seq_width (byte c) = 1" by (simp add: seq_width_def)
      with bad show ?thesis by (simp add: seq_ok_def)
    qed
    with less.IH [of "drop ?w s"] good(2) w False show ?thesis by (simp add: runes_Cons)
  qed simp
qed

lemma valid_append: "valid_utf8 a \<Longrightarrow> valid_utf8 (a @ b) \<longleftrightarrow> valid_utf8 b"
  by (auto simp: valid_utf8_def runes_append_valid)

lemma valid_head: "valid_utf8 s \<Longrightarrow> s \<noteq> [] \<Longrightarrow> \<not> cont_byte (hd s)"
proof
  assume s: "valid_utf8 s" "s \<noteq> []" "cont_byte (hd s)"
  then obtain c r where cr: "s = c # r" "cont_byte c" by (cases s) auto
  then have "runes_of s = [c] # runes_of r" using rune_width_cont [of c r] by (simp add: runes_Cons)
  with s(1) cr(2) show False by (auto simp: valid_utf8_def bad_rune_def cont_byte_def)
qed

definition rune_boundary :: "string \<Rightarrow> nat \<Rightarrow> bool" where
  "rune_boundary str i \<longleftrightarrow> i \<le> length str \<and> valid_utf8 (take i str)"

lemma slice_valid:
  assumes "rune_boundary str a" and "rune_boundary str b"
  shows "valid_utf8 (slice a b str)"
proof (cases "a \<le> b")
  case True
  then have "take b str = take a str @ slice a b str" by (simp add: slice_def) (metis le_add_diff_inverse take_add)
  then show ?thesis using assms valid_append [of "take a str" "slice a b str"] by (simp add: rune_boundary_def)
qed (simp add: slice_def valid_utf8_def)

lemma literal_boundaries:
  assumes "valid_utf8 str" and "valid_utf8 sep" and "(a, b) \<in> set (literal_matches sep str 0)"
  shows "rune_boundary str a" and "rune_boundary str b"
proof -
  from literal_match_is_sep [OF assms(3)] have m: "b = a + length sep" "take (length sep) (drop a str) = sep" "sep \<noteq> []" by auto
  from m(2) have "length sep \<le> length str - a" by (metis length_drop length_take min.cobounded1)
  with m have a: "a \<le> length str" "b \<le> length str" by (cases sep; auto)+
  have "runes_of (take a str @ drop a str) = runes_of (take a str) @ runes_of (drop a str)"
  proof (rule runes_append)
    have "hd (drop a str) = hd sep" using m(2,3) by (cases "drop a str"; cases sep) auto
    then show "\<not> cont_byte (hd (drop a str))" using valid_head [OF assms(2) m(3)] by simp
  qed
  then have "valid_utf8 (take a str)" using assms(1) by (simp add: valid_utf8_def)
  moreover have "take b str = take a str @ sep" using m by (simp add: take_add)
  ultimately show "rune_boundary str a" "rune_boundary str b"
    using a assms(2) valid_append [of "take a str" sep] by (simp_all add: rune_boundary_def)
qed

lemma cut_loop_valid:
  "valid_utf8 str \<Longrightarrow> rune_boundary str start \<Longrightarrow> \<forall>(a, b) \<in> set ms. rune_boundary str a \<and> rune_boundary str b \<Longrightarrow>
   ordered_matches start (length str) ms \<Longrightarrow> p \<in> set (cut_loop keep str ms start) \<Longrightarrow> valid_utf8 p"
proof (induction keep str ms start rule: cut_loop.induct)
  case (1 keep str start)
  have "rune_boundary str (length str)" using 1(1) by (simp add: rune_boundary_def)
  with 1 slice_valid [of str start "length str"] show ?case by (auto simp: slice_def split: if_splits)
next
  case (2 keep str a b ms start)
  have pieces: "valid_utf8 (slice start a str)" "valid_utf8 (slice a b str)" using 2 slice_valid by auto
  have ordered: "ordered_matches a (length str) ms" "ordered_matches b (length str) ms" using 2(7) ordered_weaken by auto
  show ?case
  proof (cases keep)
    case KeepNone
    with 2 pieces ordered show ?thesis by auto
  next
    case KeepStart
    with 2 pieces ordered show ?thesis by auto
  next
    case KeepEnd
    with 2 pieces ordered show ?thesis by (auto simp: valid_append)
  qed
qed

text \<open>The pieces of a valid text at a literal separator.\<close>

lemma literal_pieces:
  assumes "valid_utf8 str" and "valid_utf8 s" and "keep \<noteq> KeepNone"
  shows "\<exists>ps. split_text_with rx keep (Literal s) str = Some ps \<and> concat ps = str \<and> (\<forall>p \<in> set ps. p \<noteq> [] \<and> valid_utf8 p)"
proof (cases "s = []")
  case True
  have "valid_utf8 p" if "p \<in> set (split_runes str)" for p
  proof -
    have p: "p \<in> set (runes_of str)" "\<not> bad_rune p" using that assms(1) by (auto simp: split_runes_def valid_utf8_def)
    then have "length (runes_of p) = 1" using rune_single by (force simp: rune_len_def)
    then have "runes_of p = [p]" by (metis concat_runes concat.simps append_Nil2 length_0_conv length_Suc_conv One_nat_def)
    with p(2) show ?thesis by (simp add: valid_utf8_def)
  qed
  with True show ?thesis using concat_split_runes [OF assms(1)] split_runes_single by (auto simp: split_text_with_def separator_text_def)
next
  case False
  let ?ms = "literal_matches s str 0"
  have concat_filter: "concat (filter (\<lambda>p. p \<noteq> []) ps) = concat ps" for ps :: "string list" by (induction ps) auto
  have ordered: "ordered_matches 0 (length str) ?ms" using literal_ordered [of 0 str s] by simp
  have "rune_boundary str 0" by (simp add: rune_boundary_def valid_utf8_def)
  moreover have "\<forall>(a, b) \<in> set ?ms. rune_boundary str a \<and> rune_boundary str b" using literal_boundaries [OF assms(1,2)] by auto
  ultimately have "\<forall>p \<in> set (cut_loop keep str ?ms 0). valid_utf8 p" using cut_loop_valid [OF assms(1)] ordered by blast
  with False cut_loop_tiles [OF assms(3) ordered] assms(1,2) show ?thesis
    by (auto simp: split_text_with_def separator_text_def separator_matches_def concat_filter)
qed

subsection \<open>The recursive splitter\<close>

lemma pick_separator_empty:
  "seps \<noteq> [] \<Longrightarrow> last seps = [] \<Longrightarrow> \<forall>s \<in> set seps. valid_utf8 s \<Longrightarrow>
   \<exists>s rest. pick_separator rx False str seps final = Some (s, rest) \<and> s \<in> set seps \<and> set rest \<subseteq> set seps \<and>
     (if rest = [] then s = [] else last rest = [])"
proof (induction seps)
  case (Cons s seps)
  show ?case
  proof (cases "s = []")
    case True
    with Cons.prems show ?thesis by auto
  next
    case False
    with Cons.prems have "seps \<noteq> []" "last seps = []" by (auto split: if_splits)
    from Cons.IH [OF this] Cons.prems(3) obtain r rest where
      later: "pick_separator rx False str seps final = Some (r, rest)" "r \<in> set seps" "set rest \<subseteq> set seps"
        "if rest = [] then r = [] else last rest = []" by auto
    from Cons.prems(3) have "valid_utf8 s" by simp
    show ?thesis
    proof (cases "literal_matches s str 0 = []")
      case True
      with False \<open>valid_utf8 s\<close> later show ?thesis by (auto simp: sep_of_def separator_matches_def)
    next
      case found: False
      with False \<open>valid_utf8 s\<close> \<open>seps \<noteq> []\<close> \<open>last seps = []\<close> show ?thesis
        by (intro exI [of _ s] exI [of _ seps]) (auto simp: sep_of_def separator_matches_def)
    qed
  qed
qed simp

lemma pick_separator_literal:
  "\<forall>s \<in> set seps. valid_utf8 s \<Longrightarrow>
   \<exists>s rest. pick_separator rx False str seps final = Some (s, rest) \<and> s \<in> insert final (set seps) \<and> set rest \<subseteq> set seps"
  by (induction seps) (auto simp: sep_of_def separator_matches_def)

lemma literal_split_some: "valid_utf8 s \<Longrightarrow> \<exists>ps. split_text_with rx keep (Literal s) str = Some ps"
  by (simp add: split_text_with_def separator_matches_def)

lemma pieces_nonempty: "split_text_with rx keep sep str = Some ps \<Longrightarrow> \<forall>p \<in> set ps. p \<noteq> []"
  using split_pieces_nonempty by blast

definition chunks_fit :: "splitter_config \<Rightarrow> string list \<Rightarrow> bool" where
  "chunks_fit c ds \<longleftrightarrow> (\<forall>d \<in> set ds. d \<noteq> [] \<and> rune_len d \<le> sc_size c)"

lemma merge_good_fits:
  assumes "len_of c = rune_len" and "0 \<le> sc_overlap c" and "chunks_fit c good"
  shows "\<exists>ds. merge_good c msep good = Some ds \<and> chunks_fit c ds"
  using runes.merge_bound [OF assms(1,2), of good msep] assms(3) by (auto simp: merge_good_def chunks_fit_def)

definition bounding :: "splitter_config \<Rightarrow> bool" where
  "bounding c \<longleftrightarrow> len_of c = rune_len \<and> 1 \<le> sc_size c \<and> 0 \<le> sc_overlap c"

lemma rec_split_bound:
  shows "bounding c \<Longrightarrow> \<not> regex \<Longrightarrow> seps \<noteq> [] \<Longrightarrow> last seps = [] \<Longrightarrow> \<forall>s \<in> set seps. valid_utf8 s \<Longrightarrow>
      \<exists>ds. rec_split rx c regex str seps = Some ds \<and> chunks_fit c ds"
    and "bounding c \<Longrightarrow> \<not> regex \<Longrightarrow> \<forall>s \<in> set rest. valid_utf8 s \<Longrightarrow> rest = [] \<longrightarrow> (\<forall>p \<in> set ps. rune_len p \<le> sc_size c) \<Longrightarrow> rest \<noteq> [] \<longrightarrow> last rest = [] \<Longrightarrow>
      \<forall>p \<in> set ps. p \<noteq> [] \<Longrightarrow> chunks_fit c good \<Longrightarrow> chunks_fit c chunks \<Longrightarrow>
      \<exists>ds. rec_pieces rx c regex rest msep ps good chunks = Some ds \<and> chunks_fit c ds"
proof (induction rx c regex str seps and rx c regex rest msep ps good chunks rule: rec_split_rec_pieces.induct)
  case (1 rx c regex str seps)
  from pick_separator_empty [OF 1(4,5,6), of rx str "last seps"]
  obtain s rest where pick: "pick_separator rx False str seps (last seps) = Some (s, rest)" and valid: "s \<in> set seps" "set rest \<subseteq> set seps"
    and s: "if rest = [] then s = [] else last rest = []" by blast
  have "valid_utf8 s" and rest: "\<forall>s \<in> set rest. valid_utf8 s" using valid 1(6) by auto
  then obtain ps where ps: "split_text_with rx (sc_keep c) (Literal s) str = Some ps" using literal_split_some by blast
  have pick': "pick_separator rx regex str seps (last seps) = Some (s, rest)"
    and ps': "split_text_with rx (sc_keep c) (sep_of regex s) str = Some ps" using pick ps 1(3) by (simp_all add: sep_of_def)
  have "rune_len p \<le> sc_size c" if "rest = []" "p \<in> set ps" for p
  proof -
    have "ps = split_runes str" using s that(1) ps by (simp add: split_text_with_def separator_text_def)
    then have "rune_len p = 1" using that(2) split_runes_single by blast
    then show ?thesis using 1(2) by (simp add: bounding_def)
  qed
  moreover have "rest \<noteq> [] \<longrightarrow> last rest = []" using s by auto
  moreover have "\<forall>p \<in> set ps. p \<noteq> []" using pieces_nonempty [OF ps] .
  moreover have "chunks_fit c []" by (simp add: chunks_fit_def)
  ultimately have "\<exists>ds. rec_pieces rx c regex rest (if sc_keep c = KeepNone then s else []) ps [] [] = Some ds \<and> chunks_fit c ds"
    using 1(1) [OF 1(4) pick' refl ps' 1(2,3) rest] by blast
  with 1(3,4) pick ps show ?case by (subst rec_split.simps) (simp add: sep_of_def)
next
  case (2 rx c regex rest msep good chunks)
  then obtain ds where "merge_good c msep good = Some ds" "chunks_fit c ds"
    using merge_good_fits [of c good msep] by (auto simp: bounding_def)
  with 2 show ?case by (auto simp: chunks_fit_def)
next
  case (3 rx c regex rest msep p ps good chunks)
  show ?case
  proof (cases "len_of c p < sc_size c")
    case True
    then have "chunks_fit c (good @ [p])" using 3(4,9,10) by (auto simp: chunks_fit_def bounding_def)
    with True 3(1) [OF True] 3(4-11) show ?thesis by simp
  next
    case False
    obtain ds where ds: "merge_good c msep good = Some ds" "chunks_fit c ds"
      using merge_good_fits [of c good msep] 3(4,10) by (auto simp: bounding_def)
    obtain es where es: "(if rest = [] then Some [p] else rec_split rx c regex p rest) = Some es" "chunks_fit c es"
    proof (cases "rest = []")
      case True
      then show ?thesis using that [of "[p]"] 3(7,9) by (simp add: chunks_fit_def)
    next
      case nonempty: False
      then show ?thesis using that 3(2) [OF False ds(1) nonempty 3(4,5)] 3(6,8) by auto
    qed
    have "chunks_fit c (chunks @ ds @ es)" using 3(11) ds(2) es(2) by (auto simp: chunks_fit_def)
    moreover have "chunks_fit c []" by (simp add: chunks_fit_def)
    ultimately show ?thesis using 3(3) [OF False ds(1) es(1) 3(4-6)] False ds(1) es(1) 3(7-9) by simp
  qed
qed

definition tiling :: "splitter_config \<Rightarrow> bool" where
  "tiling c \<longleftrightarrow> len_of c = rune_len \<and> sc_overlap c = 0 \<and> \<not> sc_strip c \<and> sc_keep c \<noteq> KeepNone"

lemma merge_good_tiles:
  assumes "tiling c" and "\<forall>p \<in> set good. p \<noteq> []"
  shows "\<exists>ds. merge_good c [] good = Some ds \<and> concat ds = concat good \<and> (\<forall>d \<in> set ds. d \<noteq> [])"
  using runes.merge_tiles [of c good] assms by (auto simp: merge_good_def tiling_def)

lemma rec_split_tiles:
  shows "tiling c \<Longrightarrow> \<not> regex \<Longrightarrow> seps \<noteq> [] \<Longrightarrow> \<forall>s \<in> set seps. valid_utf8 s \<Longrightarrow> valid_utf8 str \<Longrightarrow>
      \<exists>ds. rec_split rx c regex str seps = Some ds \<and> concat ds = str \<and> (\<forall>d \<in> set ds. d \<noteq> [])"
    and "tiling c \<Longrightarrow> \<not> regex \<Longrightarrow> \<forall>s \<in> set rest. valid_utf8 s \<Longrightarrow> msep = [] \<Longrightarrow> \<forall>p \<in> set ps. p \<noteq> [] \<and> valid_utf8 p \<Longrightarrow>
      \<forall>p \<in> set good \<union> set chunks. p \<noteq> [] \<Longrightarrow>
      \<exists>ds. rec_pieces rx c regex rest msep ps good chunks = Some ds \<and> concat ds = concat chunks @ concat good @ concat ps \<and>
        (\<forall>d \<in> set ds. d \<noteq> [])"
proof (induction rx c regex str seps and rx c regex rest msep ps good chunks rule: rec_split_rec_pieces.induct)
  case (1 rx c regex str seps)
  from pick_separator_literal [OF 1(5), of rx str "last seps"] 1(4)
  obtain s rest where pick: "pick_separator rx False str seps (last seps) = Some (s, rest)" and s: "s \<in> set seps" "set rest \<subseteq> set seps" by auto
  have keep: "sc_keep c \<noteq> KeepNone" using 1(2) by (simp add: tiling_def)
  have "valid_utf8 s" using s(1) 1(5) by blast
  from literal_pieces [OF 1(6) this keep]
  obtain ps where ps: "split_text_with rx (sc_keep c) (Literal s) str = Some ps" "concat ps = str" "\<forall>p \<in> set ps. p \<noteq> [] \<and> valid_utf8 p" by blast
  have pick': "pick_separator rx regex str seps (last seps) = Some (s, rest)"
    and ps': "split_text_with rx (sc_keep c) (sep_of regex s) str = Some ps" using pick ps(1) 1(3) by (simp_all add: sep_of_def)
  have "\<exists>ds. rec_pieces rx c regex rest [] ps [] [] = Some ds \<and> concat ds = concat ps \<and> (\<forall>d \<in> set ds. d \<noteq> [])"
    using 1(1) [OF 1(4) pick' refl ps' 1(2,3)] ps(3) 1(5) s(2) keep by auto
  with 1(3,4) pick ps(1,2) keep show ?case by (subst rec_split.simps) (auto simp: sep_of_def)
next
  case (2 rx c regex rest msep good chunks)
  then obtain ds where "merge_good c [] good = Some ds" "concat ds = concat good" "\<forall>d \<in> set ds. d \<noteq> []"
    using merge_good_tiles [of c good] by auto
  with 2 show ?case by auto
next
  case (3 rx c regex rest msep p ps good chunks)
  show ?case
  proof (cases "len_of c p < sc_size c")
    case True
    with 3(1) [OF True 3(4-7)] 3(8,9) show ?thesis by auto
  next
    case False
    obtain ds where ds: "merge_good c msep good = Some ds" "concat ds = concat good" "\<forall>d \<in> set ds. d \<noteq> []"
      using merge_good_tiles [of c good] 3(4,7,9) by auto
    obtain es where es: "(if rest = [] then Some [p] else rec_split rx c regex p rest) = Some es" "concat es = p" "\<forall>d \<in> set es. d \<noteq> []"
    proof (cases "rest = []")
      case True
      then show ?thesis using that [of "[p]"] 3(8) by simp
    next
      case nonempty: False
      then show ?thesis using that 3(2) [OF False ds(1) nonempty 3(4,5) nonempty 3(6)] 3(8) by auto
    qed
    from 3(3) [OF False ds(1) es(1) 3(4-7)] 3(8,9) ds es False show ?thesis by (auto simp: ball_Un)
  qed
qed

subsection \<open>Where chunks start\<close>

lemma chunk_docs_index:
  assumes "sc_start c" and "sc_overlap c = 0" and "str = pre @ concat chunks" and "index + prev = int (length pre)"
  shows "\<exists>ds. chunk_docs c str meta chunks index prev = Some ds \<and> map doc_content ds = chunks \<and>
    (\<forall>i < length ds. map_of (doc_meta (ds ! i)) ''start_index'' = Some (VInt (int (length pre + length (concat (take i chunks))))))"
  using assms(3,4)
proof (induction chunks arbitrary: pre index prev)
  case (Cons chunk chunks)
  have found: "find_sub (drop (length pre) str) chunk = Some 0" using Cons.prems(1) find_sub_here by simp
  have "str = (pre @ chunk) @ concat chunks" using Cons.prems(1) by simp
  from Cons.IH [OF this, of "int (length pre)" "int (length chunk)"] obtain ds where
    ds: "chunk_docs c str meta chunks (int (length pre)) (int (length chunk)) = Some ds" "map doc_content ds = chunks"
      "\<forall>i < length ds. map_of (doc_meta (ds ! i)) ''start_index'' = Some (VInt (int (length (pre @ chunk) + length (concat (take i chunks)))))"
    by auto
  let ?d = "\<lparr>doc_id = [], doc_content = chunk, doc_meta = mput ''start_index'' (VInt (int (length pre))) meta\<rparr>"
  have run: "chunk_docs c str meta (chunk # chunks) index prev = Some (?d # ds)"
    using assms(1,2) Cons.prems found ds(1) by (simp add: Let_def)
  have "map_of (doc_meta ((?d # ds) ! i)) ''start_index'' = Some (VInt (int (length pre + length (concat (take i (chunk # chunks))))))"
    if "i < length (?d # ds)" for i
    using that ds(3) by (cases i) (simp_all add: add.assoc)
  with run ds(2) show ?case by (intro exI [of _ "?d # ds"]) simp
qed simp

subsection \<open>Properties\<close>

lemma window_is_short:
  assumes "len_of c = rune_len" and "fits c sep ps a b" and "a < b" and "b \<le> length ps" and "\<forall>p \<in> set ps. p \<noteq> []"
  shows "parts_len rune_len sep (sub a b ps) \<le> sc_size c \<or> b = Suc a"
proof (cases "parts_len rune_len sep (sub a b ps) \<le> sc_size c")
  case False
  have "set (sub a (b - 1) ps) \<subseteq> set ps" by (auto simp: sub_def dest!: in_set_takeD in_set_dropD)
  then have "\<forall>p \<in> set (sub a (b - 1) ps). p \<noteq> []" using assms(5) by blast
  moreover have "parts_len rune_len sep (sub a (b - 1) ps) \<le> 0" using assms(1,2) False by (simp add: fits_def)
  ultimately have "sub a (b - 1) ps = []" using runes.parts_pos [of "sub a (b - 1) ps" sep] by linarith
  moreover have "a \<le> b - 1" "b - 1 \<le> length ps" using assms(3,4) by simp_all
  ultimately have "a = b - 1" using sub_Nil_iff [of a "b - 1" ps] by blast
  with assms(3) show ?thesis by simp
qed simp

text \<open>
  C25: merging pieces never fails, for any length function, and returns windows of the list of pieces: each
  chunk is a run of neighbouring pieces joined by the separator, the first begins with the first piece and
  the last ends with the last one, no piece is left out, each window ends later than the one before and
  overlaps it by at most the chunk overlap. A window is no longer than the chunk size unless everything in it
  before its last piece has no length together; when lengths are counted in characters and no piece is
  empty, that is a single piece that is too long by itself.
\<close>

theorem merge_returns_windows:
  assumes "0 \<le> sc_overlap c" and "ps \<noteq> []"
  shows "\<exists>ws. merge_splits c ps sep = Some (window_chunks c sep ps ws) \<and> windows c sep ps 0 1 ws \<and>
    (len_of c = rune_len \<and> (\<forall>p \<in> set ps. p \<noteq> []) \<longrightarrow>
       (\<forall>(a, b) \<in> set ws. parts_len rune_len sep (sub a b ps) \<le> sc_size c \<or> b = Suc a))"
proof -
  from merge_windows [OF refl assms] obtain ws where
    ws: "merge_splits c ps sep = Some (window_chunks c sep ps ws)" "windows c sep ps 0 1 ws" by blast
  have "parts_len rune_len sep (sub a b ps) \<le> sc_size c \<or> b = Suc a"
    if "len_of c = rune_len" "\<forall>p \<in> set ps. p \<noteq> []" "(a, b) \<in> set ws" for a b
    using runes.windows_each [OF ws(2) _ that(3)] window_is_short [OF that(1) _ _ _ that(2)] by simp
  with ws show ?thesis by blast
qed

definition demo_config :: splitter_config where
  "demo_config = \<lparr>sc_size = 3, sc_overlap = 1, sc_len = Some rune_len, sc_keep = KeepNone, sc_start = True, sc_strip = False\<rparr>"

theorem merge_returns_windows_witness:
  "\<exists>ws. merge_splits demo_config [''abcd'', ''b'', ''c''] '' '' = Some (window_chunks demo_config '' '' [''abcd'', ''b'', ''c''] ws) \<and>
    windows demo_config '' '' [''abcd'', ''b'', ''c''] 0 1 ws \<and>
    (\<forall>(a, b) \<in> set ws. parts_len rune_len '' '' (sub a b [''abcd'', ''b'', ''c'']) \<le> 3 \<or> b = Suc a)"
  using merge_returns_windows [of demo_config "[''abcd'', ''b'', ''c'']" "'' ''"] by (simp add: demo_config_def len_of_def)

lemma default_separators_valid: "\<forall>s \<in> set default_separators. valid_utf8 s"
  by (auto simp: default_separators_def valid_utf8_def runes_Cons seq_ok_def seq_width_def byte_def bad_rune_def)

text \<open>
  C26: a recursive splitter with literal separators that are UTF-8 and end with the empty one (as the default
  ones are and do) and the default length cuts every text, UTF-8 or not, without failing, and no chunk is
  empty or longer than the chunk size. A literal separator that is no UTF-8 makes the code panic.
\<close>

theorem recursive_chunks_fit:
  assumes "new_recursive seps False cfg = Inr s" and "sc_len cfg = None" and "seps = [] \<or> last seps = []"
    and "\<forall>s \<in> set seps. valid_utf8 s"
  shows "\<exists>ds. recursive_split rx s str = Some ds \<and>
    (\<forall>d \<in> set ds. d \<noteq> [] \<and> rune_len d \<le> (if sc_size cfg = 0 then 4000 else sc_size cfg))"
proof -
  let ?seps = "if seps = [] then default_separators else seps"
  obtain c where c: "s = (?seps, False, c)" "bounding c" "sc_size c = (if sc_size cfg = 0 then 4000 else sc_size cfg)"
    using assms(1,2) by (auto simp: new_recursive_def normalize_config_def Let_def bounding_def len_of_def split: if_splits)
  have "?seps \<noteq> []" "last ?seps = []" using assms(3) by (auto simp: default_separators_def)
  moreover have "\<forall>s \<in> set ?seps. valid_utf8 s" using assms(4) default_separators_valid by simp
  ultimately show ?thesis
    using rec_split_bound(1) [OF c(2), of False ?seps rx str] by (auto simp: c(1,3) recursive_split_def chunks_fit_def)
qed

definition no_regex :: regex_engine where
  "no_regex = \<lparr>rx_valid = (\<lambda>p. False), rx_find_all = (\<lambda>p s. [])\<rparr>"

definition demo_recursive :: splitter_config where
  "demo_recursive = \<lparr>sc_size = 3, sc_overlap = 0, sc_len = None, sc_keep = KeepNone, sc_start = True, sc_strip = False\<rparr>"

lemma demo_new_recursive:
  "new_recursive [] False demo_recursive = Inr (default_separators, False, demo_recursive\<lparr>sc_keep := KeepStart, sc_len := Some rune_len\<rparr>)"
  by (simp add: new_recursive_def normalize_config_def demo_recursive_def Let_def)

theorem recursive_chunks_fit_witness:
  "\<exists>ds. recursive_split no_regex (default_separators, False, demo_recursive\<lparr>sc_keep := KeepStart, sc_len := Some rune_len\<rparr>) ''ab cdefg'' = Some ds \<and>
    (\<forall>d \<in> set ds. d \<noteq> [] \<and> rune_len d \<le> (if sc_size demo_recursive = 0 then 4000 else sc_size demo_recursive))"
  by (rule recursive_chunks_fit [OF demo_new_recursive]) (simp_all add: demo_recursive_def)

text \<open>
  C27: Without overlap and without trimming, the chunks of a recursive splitter with literal separators are
  the text cut into pieces: joined they give the text back, and every document says at which byte its chunk
  starts.
\<close>

theorem recursive_chunks_tile:
  assumes "new_recursive seps False cfg = Inr (seps', regex, c)" and "sc_len cfg = None" and "sc_overlap cfg = 0" and "\<not> sc_strip c"
    and "\<forall>s \<in> set seps. valid_utf8 s" and "valid_utf8 str"
  shows "\<exists>chunks ds. recursive_split rx (seps', regex, c) str = Some chunks \<and> concat chunks = str \<and>
    create_documents (c\<lparr>sc_start := True\<rparr>) (recursive_split rx (seps', regex, c)) [str] [] = Some ds \<and> map doc_content ds = chunks \<and>
    (\<forall>i < length ds. map_of (doc_meta (ds ! i)) ''start_index'' = Some (VInt (int (length (concat (take i chunks))))))"
proof -
  have c: "seps' = (if seps = [] then default_separators else seps)" "\<not> regex" "tiling c" "sc_overlap c = 0"
    using assms(1-4) by (auto simp: new_recursive_def normalize_config_def Let_def tiling_def len_of_def split: if_splits)
  have "seps' \<noteq> []" "\<forall>s \<in> set seps'. valid_utf8 s"
    using assms(5) default_separators_valid by (auto simp: c(1) default_separators_def)
  from rec_split_tiles(1) [OF c(3,2) this assms(6), of rx] obtain chunks where
    chunks: "recursive_split rx (seps', regex, c) str = Some chunks" "concat chunks = str" by (auto simp: recursive_split_def)
  from chunk_docs_index [of "c\<lparr>sc_start := True\<rparr>" str "[]" chunks 0 0 "[]"] c(4) chunks(2)
  obtain ds where "chunk_docs (c\<lparr>sc_start := True\<rparr>) str [] chunks 0 0 = Some ds" "map doc_content ds = chunks"
      "\<forall>i < length ds. map_of (doc_meta (ds ! i)) ''start_index'' = Some (VInt (int (length (concat (take i chunks)))))"
    by auto
  with chunks show ?thesis by auto
qed

theorem recursive_chunks_tile_witness:
  "\<exists>chunks. recursive_split no_regex (default_separators, False, demo_recursive\<lparr>sc_keep := KeepStart, sc_len := Some rune_len\<rparr>) ''ab cdefg'' = Some chunks \<and>
    concat chunks = ''ab cdefg''"
proof -
  have "valid_utf8 ''ab cdefg''" by (simp add: valid_utf8_def runes_Cons seq_ok_def seq_width_def byte_def bad_rune_def)
  then show ?thesis using recursive_chunks_tile [OF demo_new_recursive, of "''ab cdefg''" no_regex] by (auto simp: demo_recursive_def)
qed

text \<open>
  With an overlap the start index can be lost: the search starts at the end of the last chunk less the
  overlap, but the end is a number of bytes and the overlap a number of runes. Cutting three characters of
  three bytes each gives two chunks; the second is in the text at byte 4, and its start index is -1.
\<close>

definition wide_text :: string where
  "wide_text = [CHR 0xE6, CHR 0x9D, CHR 0xB1, CHR '' '', CHR 0xE4, CHR 0xBA, CHR 0xAC, CHR '' '', CHR 0xE9, CHR 0x83, CHR 0xBD]"

theorem start_index_is_lost:
  "map_option (map (\<lambda>d. (doc_content d, map_of (doc_meta d) ''start_index'')))
      (create_documents demo_config (char_split no_regex demo_config (Literal '' '')) [wide_text] []) =
    Some [(take 7 wide_text, Some (VInt 0)), (take 7 (drop 4 wide_text), Some (VInt (- 1)))]"
  by code_simp

end
