(* ===== verification/AgentTools.thy ===== *)
theory AgentTools
  imports NodeExec
begin

section \<open>The agent's tools (langchain/tools, langchain/agents/middleware)\<close>

text \<open>
  \<open>ToolNode\<close> executes the tool calls of a model's message and answers each with a tool message;
  middleware wraps the execution of one call. Tools act on a world \<open>'w\<close>, which every call threads
  (\<open>'w\<close> also holds the state of the enclosing node's interrupts and of the context). A call returns a
  value or an error, or panics with an interrupt; a panic on a goroutine that nothing recovers kills
  the process (\<open>Crash\<close>). The calls of one message run one after the other here, one of the schedules
  the worker pool has. The arguments of a call are their JSON text; delays, content blocks, the store
  and the logging and streaming of tool events are left out.
\<close>

subsection \<open>What a Go call does\<close>

datatype 'a outcome = Ret "goerr + 'a" | Panic gintr | Crash

definition and_then :: "'a outcome \<times> 's \<Rightarrow> (goerr + 'a \<Rightarrow> 's \<Rightarrow> 'b outcome \<times> 's) \<Rightarrow> 'b outcome \<times> 's" where
  "and_then c k =
     (case c of
        (Ret r, s) \<Rightarrow> k r s
      | (Panic i, s) \<Rightarrow> (Panic i, s)
      | (Crash, s) \<Rightarrow> (Crash, s))"

lemma and_then_simps [simp]:
  "and_then (Ret r, s) k = k r s" "and_then (Panic i, s) k = (Panic i, s)" "and_then (Crash, s) k = (Crash, s)"
  by (simp_all add: and_then_def)

lemma and_then_eq_Ret: "and_then c k = (Ret x, s') \<longleftrightarrow> (\<exists>r s. c = (Ret r, s) \<and> k r s = (Ret x, s'))"
  by (auto simp: and_then_def split: prod.splits outcome.splits)

lemma and_then_pure: "and_then c (\<lambda>r s. (Ret (f r), s)) = (Ret x, s') \<longleftrightarrow> (\<exists>r. c = (Ret r, s') \<and> f r = x)"
  by (auto simp: and_then_eq_Ret)

subsection \<open>Tools and requests\<close>

text \<open>A tool result carries the command found in its artifact, if any.\<close>

record tool_result =
  tr_content :: string
  tr_command :: "command option"

record 'w tool =
  tl_name :: string
  tl_return_direct :: bool
  tl_invoke :: "string \<Rightarrow> 'w \<Rightarrow> tool_result outcome \<times> 'w"

record 'w tool_request =
  rq_call :: tool_call
  rq_tool :: "'w tool option"
  rq_state :: gstate

text \<open>
  A handler executes a request. A wrapper turns the next handler into a handler; the state \<open>'s\<close> the
  handlers of a chain thread extends the world by the command the innermost call captured.
\<close>

type_synonym ('w, 's) tool_handler = "'w tool_request \<Rightarrow> 's \<Rightarrow> message outcome \<times> 's"
type_synonym ('w, 's) tool_wrapper = "('w, 's) tool_handler \<Rightarrow> ('w, 's) tool_handler"

record 'w tool_node =
  tn_by_name :: "'w tool gomap"
  tn_names :: "string list"
  tn_on_error :: "goerr \<Rightarrow> string option"
  tn_wrap :: "('w, 'w \<times> command option) tool_wrapper option"

definition tool_message :: "string \<Rightarrow> string \<Rightarrow> message" where
  "tool_message call_id content =
     \<lparr>msg_role = ''tool'', msg_content = content, msg_name = [], msg_id = [], msg_tool_call_id = call_id,
      msg_tool_calls = [], msg_invalid_calls = [], msg_extra = []\<rparr>"

definition status_error :: string where "status_error = ''status=error''"

definition error_tool_message :: "string \<Rightarrow> string \<Rightarrow> string \<Rightarrow> message" where
  "error_tool_message call_id name content =
     (tool_message call_id content)\<lparr>msg_name := name, msg_extra := status_error\<rparr>"

definition default_handle_tool_errors :: "goerr \<Rightarrow> string option" where
  "default_handle_tool_errors e = Some (''Error: '' @ err_text e @ [CHR 0x0A] @ '' Please fix your mistakes.'')"

fun register_tools :: "'w tool option list \<Rightarrow> 'w tool gomap \<Rightarrow> string list \<Rightarrow> goerr + 'w tool gomap \<times> string list" where
  "register_tools [] by_name names = Inr (by_name, names)"
| "register_tools (None # ts) by_name names = Inl (EText ''tool_node: tool must not be nil'')"
| "register_tools (Some t # ts) by_name names =
     (if tl_name t = [] then Inl (EText ''tool_node: tool name must not be empty'')
      else if mhas by_name (tl_name t) then
        Inl (EText (''tool_node: duplicate tool name '' @ go_quote (tl_name t)))
      else register_tools ts (mput (tl_name t) t by_name) (names @ [tl_name t]))"

definition new_tool_node ::
  "'w tool option list \<Rightarrow> (goerr \<Rightarrow> string option) option \<Rightarrow> ('w, 'w \<times> command option) tool_wrapper option
    \<Rightarrow> goerr + 'w tool_node" where
  "new_tool_node tools on_error wrap =
     (if tools = [] then Inl (EText ''tool_node: at least one tool is required'')
      else
        rbind (register_tools tools [] [])
          (\<lambda>(by_name, names).
             Inr \<lparr>tn_by_name = by_name, tn_names = names,
                  tn_on_error = (case on_error of None \<Rightarrow> default_handle_tool_errors | Some h \<Rightarrow> h),
                  tn_wrap = wrap\<rparr>))"

subsection \<open>Finding the calls to execute\<close>

text \<open>\<open>fetchLastAIAndToolMessages\<close>: the last AI message and the tool messages after it.\<close>

fun last_ai :: "message list \<Rightarrow> (message \<times> message list) option" where
  "last_ai [] = None"
| "last_ai (m # ms) =
     (case last_ai ms of
        Some r \<Rightarrow> Some r
      | None \<Rightarrow> if msg_role m = ''ai'' then Some (m, ms) else None)"

definition last_ai_and_tool_messages :: "message list \<Rightarrow> (message \<times> message list) option" where
  "last_ai_and_tool_messages ms =
     map_option (\<lambda>(ai, rest). (ai, filter (\<lambda>m. msg_role m = ''tool'') rest)) (last_ai ms)"

definition pending_tool_calls :: "message list \<Rightarrow> tool_call list" where
  "pending_tool_calls ms = (case last_ai ms of None \<Rightarrow> [] | Some (ai, rest) \<Rightarrow> msg_tool_calls ai)"

definition unanswered_tool_calls :: "message list \<Rightarrow> tool_call list" where
  "unanswered_tool_calls ms =
     (case last_ai_and_tool_messages ms of
        None \<Rightarrow> []
      | Some (ai, answers) \<Rightarrow>
          filter (\<lambda>c. tc_id c \<notin> set (map msg_tool_call_id answers)) (msg_tool_calls ai))"

subsection \<open>Executing one call\<close>

definition tool_names :: "'w tool_node \<Rightarrow> string list" where
  "tool_names n = mkeys (tn_by_name n)"

definition invalid_tool_message :: "'w tool_node \<Rightarrow> tool_call \<Rightarrow> message" where
  "invalid_tool_message n call =
     error_tool_message (tc_id call) (tc_name call)
       (''Error: '' @ tc_name call @ '' is not a valid tool, try one of ['' @ join_with '', '' (tool_names n) @ ''].'')"

definition execute :: "'w tool_node \<Rightarrow> 'w tool_request \<Rightarrow> 'w \<Rightarrow> (message \<times> command option) outcome \<times> 'w" where
  "execute n rq w =
     (let call = rq_call rq in
      case rq_tool rq of
        None \<Rightarrow> (Ret (Inr (invalid_tool_message n call, None)), w)
      | Some t \<Rightarrow>
          and_then (tl_invoke t (tc_args call) w)
            (\<lambda>r w'. (Ret (rbind r (\<lambda>res.
               Inr ((tool_message (tc_id call) (tr_content res))\<lparr>msg_name := tc_name call\<rparr>, tr_command res))), w')))"

text \<open>
  \<open>convertToolError\<close>: an error some wrapper declined is raised as it was, without its sentinels; any
  other goes through the node's strategy.
\<close>

fun strip_unhandled :: "goerr \<Rightarrow> goerr" where
  "strip_unhandled (EUnhandled (Some e)) = strip_unhandled e"
| "strip_unhandled e = e"

definition is_unhandled :: "goerr \<Rightarrow> bool" where
  "is_unhandled e = (case e of EUnhandled _ \<Rightarrow> True | _ \<Rightarrow> False)"

definition convert_tool_error :: "'w tool_node \<Rightarrow> tool_call \<Rightarrow> goerr \<Rightarrow> goerr + message \<times> command option" where
  "convert_tool_error n call e =
     (if list_ex is_unhandled (err_chain e) then Inl (strip_unhandled e)
      else case tn_on_error n e of
        None \<Rightarrow> Inl e
      | Some content \<Rightarrow> Inr (error_tool_message (tc_id call) (tc_name call) content, None))"

text \<open>
  The innermost handler of a wrapped call. A request whose call has another name than the model's
  is bound to the tool of that name, and fails when there is none. The command of the last call
  that succeeded is kept.
\<close>

definition next_call :: "'w tool_node \<Rightarrow> tool_call \<Rightarrow> ('w, 'w \<times> command option) tool_handler" where
  "next_call n call rq s =
     (let go = (\<lambda>rq. case execute n rq (fst s) of
                  (Ret (Inr (m, c)), w) \<Rightarrow> (Ret (Inr m), (w, c))
                | (Ret (Inl e), w) \<Rightarrow> (Ret (Inl e), (w, snd s))
                | (Panic i, w) \<Rightarrow> (Panic i, (w, snd s))
                | (Crash, w) \<Rightarrow> (Crash, (w, snd s))) in
      if tc_name (rq_call rq) = tc_name call then go rq
      else case map_of (tn_by_name n) (tc_name (rq_call rq)) of
        None \<Rightarrow>
          (Ret (Inl (EText (''reviewer edited tool call '' @ go_quote (tc_id call) @ '' to ''
             @ go_quote (tc_name (rq_call rq)) @ '', which is not an available tool. Available tools: [''
             @ join_with '' '' (tool_names n) @ '']''))), s)
      | Some t \<Rightarrow> go (rq\<lparr>rq_tool := Some t\<rparr>))"

definition run_one ::
  "'w tool_node \<Rightarrow> gstate \<Rightarrow> tool_call \<Rightarrow> 'w \<Rightarrow> (message \<times> command option) outcome \<times> 'w" where
  "run_one n state call w =
     (let request = \<lparr>rq_call = call, rq_tool = map_of (tn_by_name n) (tc_name call), rq_state = state\<rparr> in
      case tn_wrap n of
        Some wrap \<Rightarrow>
          (case wrap (next_call n call) request (w, None) of
             (Ret (Inr m), (w', c)) \<Rightarrow> (Ret (Inr (m, c)), w')
           | (Ret (Inl e), (w', c)) \<Rightarrow> (Ret (convert_tool_error n call e), w')
           | (Panic i, (w', c)) \<Rightarrow> (Panic i, w')
           | (Crash, (w', c)) \<Rightarrow> (Crash, w'))
      | None \<Rightarrow>
          and_then (execute n request w)
            (\<lambda>r w'. (Ret (case r of Inr out \<Rightarrow> Inr out | Inl e \<Rightarrow> convert_tool_error n call e), w')))"

subsection \<open>All calls of a message (core/runnables/parallel.go; InvokeToolCallsFull)\<close>

text \<open>
  \<open>ParallelMap\<close> with one worker. \<open>ctx_err\<close> reads the cancellation of the context off the world. A
  failing input does not stop the others. A panic on a worker goroutine ends the process; only when
  the inputs run on the caller's goroutine does it reach the caller.
\<close>

definition default_parallelism :: "int \<Rightarrow> int" where
  "default_parallelism procs = max 1 (min 32 (procs + 4))"

fun map_inputs ::
  "('w \<Rightarrow> goerr option) \<Rightarrow> ('i \<Rightarrow> 'w \<Rightarrow> 'o outcome \<times> 'w) \<Rightarrow> 'i list \<Rightarrow> 'w \<Rightarrow> (goerr + 'o) list outcome \<times> 'w" where
  "map_inputs ctx_err f [] w = (Ret (Inr []), w)"
| "map_inputs ctx_err f (x # xs) w =
     and_then (case ctx_err w of Some e \<Rightarrow> (Ret (Inl e), w) | None \<Rightarrow> f x w)
       (\<lambda>r w'. and_then (map_inputs ctx_err f xs w')
          (\<lambda>rs w''. (Ret (rbind rs (\<lambda>rs. Inr (r # rs))), w'')))"

fun errors_join :: "(goerr + 'o) list \<Rightarrow> goerr option" where
  "errors_join [] = None"
| "errors_join (Inr x # rs) = errors_join rs"
| "errors_join (Inl e # rs) = Some (case errors_join rs of None \<Rightarrow> e | Some e' \<Rightarrow> EJoin e e')"

fun outputs :: "(goerr + 'o) list \<Rightarrow> 'o list" where
  "outputs [] = []"
| "outputs (Inr x # rs) = x # outputs rs"
| "outputs (Inl e # rs) = outputs rs"

definition parallel_map ::
  "int \<Rightarrow> int \<Rightarrow> ('w \<Rightarrow> goerr option) \<Rightarrow> ('i \<Rightarrow> 'w \<Rightarrow> 'o outcome \<times> 'w) \<Rightarrow> 'i list \<Rightarrow> 'w \<Rightarrow> 'o list outcome \<times> 'w" where
  "parallel_map procs max_concurrency ctx_err f inputs w =
     (let limit = (if max_concurrency \<le> 0 then default_parallelism procs else max_concurrency) in
      case map_inputs ctx_err f inputs w of
        (Ret (Inl e), w') \<Rightarrow> (Ret (Inl e), w')
      | (Ret (Inr rs), w') \<Rightarrow>
          (Ret (case errors_join rs of None \<Rightarrow> Inr (outputs rs) | Some e \<Rightarrow> Inl e), w')
      | (Panic i, w') \<Rightarrow> (if limit = 1 \<or> length inputs = 1 then Panic i else Crash, w')
      | (Crash, w') \<Rightarrow> (Crash, w'))"

definition invoke_tool_calls_full ::
  "int \<Rightarrow> ('w \<Rightarrow> goerr option) \<Rightarrow> 'w tool_node \<Rightarrow> gstate \<Rightarrow> tool_call list \<Rightarrow> 'w
    \<Rightarrow> (message \<times> command option) list outcome \<times> 'w" where
  "invoke_tool_calls_full procs ctx_err n state calls w = parallel_map procs 0 ctx_err (run_one n state) calls w"

subsection \<open>The tools node of an agent (create_agent.go newToolsNode)\<close>

definition messages_of :: "gstate \<Rightarrow> message list" where
  "messages_of state = (case map_of state ''messages'' of Some (VMsgs ms) \<Rightarrow> ms | _ \<Rightarrow> [])"

text \<open>
  One key of a command's update: messages are appended to those already collected, any other value
  replaces.
\<close>

definition fold_update :: "gstate \<Rightarrow> string \<Rightarrow> gval \<Rightarrow> gstate" where
  "fold_update upd k v =
     (case v of
        VMsgs extra \<Rightarrow> (if k = ''messages'' then mput k (VMsgs (messages_of upd @ extra)) upd else mput k v upd)
      | _ \<Rightarrow> mput k v upd)"

definition fold_updates :: "gstate \<Rightarrow> gstate \<Rightarrow> gstate" where
  "fold_updates upd news = foldl (\<lambda>u k. fold_update u k (mgetd news k VNil)) upd (mkeys news)"

fun apply_tool_node_commands :: "gstate \<Rightarrow> command list \<Rightarrow> goerr + gstate \<times> gval list" where
  "apply_tool_node_commands upd [] = Inr (upd, [])"
| "apply_tool_node_commands upd (c # cs) =
     (if cmd_resume c \<noteq> VNil then
        Inl (EText ''agents: tool Command resume is not supported by create_agent's tools node'')
      else if cmd_graph c \<noteq> [] then
        Inl (EText (''agents: tool Command graph '' @ go_quote (cmd_graph c)
               @ '' is not supported by create_agent's tools node''))
      else
        rbind (apply_tool_node_commands (fold_updates upd (cmd_update c)) cs)
          (\<lambda>(upd', dests). Inr (upd', cmd_goto c @ dests)))"

definition tools_update :: "(message \<times> command option) list \<Rightarrow> goerr + node_result" where
  "tools_update outs =
     (let upd = [(''messages'', VMsgs (map fst outs))]; cmds = List.map_filter snd outs in
      if cmds = [] then Inr (RState upd)
      else
        rbind (apply_tool_node_commands upd cmds)
          (\<lambda>(upd', dests).
             Inr (if dests \<noteq> [] then
                    RCommand \<lparr>cmd_graph = [], cmd_update = upd', cmd_resume = VNil, cmd_goto = dests\<rparr>
                  else RState upd')))"

definition tools_node ::
  "int \<Rightarrow> ('w \<Rightarrow> goerr option) \<Rightarrow> 'w tool_node \<Rightarrow> gstate \<Rightarrow> 'w \<Rightarrow> node_result outcome \<times> 'w" where
  "tools_node procs ctx_err n state w =
     and_then (invoke_tool_calls_full procs ctx_err n state (unanswered_tool_calls (messages_of state)) w)
       (\<lambda>r w'. (Ret (rbind r tools_update), w'))"

subsection \<open>Middleware around a call\<close>

text \<open>\<open>dispatchThroughMiddleware\<close>: the first hook is the outermost.\<close>

definition dispatch_through_middleware :: "('w, 's) tool_wrapper list \<Rightarrow> ('w, 's) tool_wrapper" where
  "dispatch_through_middleware hooks next_handler = foldr (\<lambda>hook h. hook h) hooks next_handler"

definition called_tool :: "'w tool_request \<Rightarrow> string" where
  "called_tool rq = (case rq_tool rq of Some t \<Rightarrow> tl_name t | None \<Rightarrow> tc_name (rq_call rq))"

text \<open>A nil filter matches every tool.\<close>

definition tool_matches :: "string list option \<Rightarrow> string \<Rightarrow> bool" where
  "tool_matches names name = (case names of None \<Rightarrow> True | Some ns \<Rightarrow> name \<in> set ns)"

record 'w tool_error_mw =
  te_on_error :: "goerr \<Rightarrow> 'w tool_request \<Rightarrow> gval option"
  te_filter :: "string list option"

definition error_content_message :: "string \<Rightarrow> string \<Rightarrow> gval \<Rightarrow> message" where
  "error_content_message call_id name content =
     error_tool_message call_id name
       (case content of VStr s \<Rightarrow> s | VNil \<Rightarrow> [] | v \<Rightarrow> go_show v)"

definition wrap_tool_error :: "'w tool_error_mw \<Rightarrow> ('w, 's) tool_wrapper" where
  "wrap_tool_error m h rq s =
     (if \<not> tool_matches (te_filter m) (called_tool rq) then h rq s
      else and_then (h rq s)
        (\<lambda>r s'. (Ret (case r of
            Inr msg \<Rightarrow> Inr msg
          | Inl e \<Rightarrow>
              (case te_on_error m e rq of
                 None \<Rightarrow> Inl (EUnhandled (Some e))
               | Some content \<Rightarrow> Inr (error_content_message (tc_id (rq_call rq)) (called_tool rq) content))), s')))"

text \<open>
  \<open>ToolRetryMiddleware\<close>. The constructor's defaults and checks; delays are nanoseconds. \<open>type_name\<close>
  stands for \<open>%T\<close>.
\<close>

record tool_retry_mw =
  ty_max_retries :: int
  ty_filter :: "string list option"
  ty_retry_on :: "goerr \<Rightarrow> bool"
  ty_on_failure :: string
  ty_formatter :: "(goerr \<Rightarrow> string) option"
  ty_backoff_factor :: rat
  ty_initial_delay :: int
  ty_max_delay :: int

definition validate_retry_params :: "int \<Rightarrow> int \<Rightarrow> int \<Rightarrow> rat \<Rightarrow> goerr option" where
  "validate_retry_params max_retries initial_delay max_delay factor =
     (if max_retries < 0 then Some (EText ''max_retries must be >= 0'')
      else if initial_delay < 0 then Some (EText ''initial_delay must be >= 0'')
      else if max_delay < 0 then Some (EText ''max_delay must be >= 0'')
      else if factor < 0 then Some (EText ''backoff_factor must be >= 0'')
      else None)"

definition new_tool_retry :: "(goerr \<Rightarrow> bool) \<Rightarrow> (tool_retry_mw \<Rightarrow> tool_retry_mw) list \<Rightarrow> goerr + tool_retry_mw" where
  "new_tool_retry default_on opts =
     (let m = foldl (\<lambda>m opt. opt m)
                \<lparr>ty_max_retries = 2, ty_filter = None, ty_retry_on = default_on, ty_on_failure = ''continue'',
                 ty_formatter = None, ty_backoff_factor = 2, ty_initial_delay = 1000000000,
                 ty_max_delay = 60000000000\<rparr> opts;
          m = m\<lparr>ty_on_failure := (if ty_on_failure m = [] \<or> ty_on_failure m = ''return_message'' then ''continue''
                                  else if ty_on_failure m = ''raise'' then ''error'' else ty_on_failure m)\<rparr> in
      if ty_on_failure m \<noteq> ''continue'' \<and> ty_on_failure m \<noteq> ''error'' then
        Inl (EText (''invalid on_failure: '' @ ty_on_failure m @ ''. Must be 'continue' or 'error'' @ [CHR 0x27]))
      else case validate_retry_params (ty_max_retries m) (ty_initial_delay m) (ty_max_delay m) (ty_backoff_factor m) of
        Some e \<Rightarrow> Inl e
      | None \<Rightarrow> Inr m)"

definition handle_failure ::
  "(goerr \<Rightarrow> string) \<Rightarrow> tool_retry_mw \<Rightarrow> string \<Rightarrow> string \<Rightarrow> goerr \<Rightarrow> int \<Rightarrow> goerr + message" where
  "handle_failure type_name m tool_name call_id e attempts =
     (if ty_on_failure m = ''error'' then Inl e
      else Inr (error_tool_message call_id tool_name
        (case ty_formatter m of
           Some f \<Rightarrow> f e
         | None \<Rightarrow> ''Tool '' @ [CHR 0x27] @ tool_name @ [CHR 0x27] @ '' failed after '' @ show_int attempts @ '' ''
             @ (if attempts = 1 then ''attempt'' else ''attempts'') @ '' with '' @ type_name e @ '': ''
             @ err_text e @ ''. Please try again.'')))"

text \<open>The loop; \<open>left\<close> counts the attempts that remain, \<open>attempt\<close> those that failed.\<close>

primrec retry_attempts ::
  "(goerr \<Rightarrow> string) \<Rightarrow> tool_retry_mw \<Rightarrow> ('w, 's) tool_handler \<Rightarrow> 'w tool_request \<Rightarrow> nat \<Rightarrow> int \<Rightarrow> 's \<Rightarrow> message outcome \<times> 's" where
  "retry_attempts type_name m h rq 0 attempt s = (Ret (Inl (EText ''retry loop completed without result'')), s)"
| "retry_attempts type_name m h rq (Suc left) attempt s =
     and_then (h rq s)
       (\<lambda>r s'. case r of
          Inr msg \<Rightarrow> (Ret (Inr msg), s')
        | Inl e \<Rightarrow>
            (if \<not> ty_retry_on m e \<or> attempt = ty_max_retries m then
               (Ret (handle_failure type_name m (called_tool rq) (tc_id (rq_call rq)) e (attempt + 1)), s')
             else retry_attempts type_name m h rq left (attempt + 1) s'))"

definition wrap_tool_retry :: "(goerr \<Rightarrow> string) \<Rightarrow> tool_retry_mw \<Rightarrow> ('w, 's) tool_wrapper" where
  "wrap_tool_retry type_name m h rq s =
     (if \<not> tool_matches (ty_filter m) (called_tool rq) then h rq s
      else retry_attempts type_name m h rq (nat (ty_max_retries m + 1)) 0 s)"

subsection \<open>Wrappers that answer the call they are given\<close>

definition answers :: "tool_call \<Rightarrow> message \<Rightarrow> bool" where
  "answers call m \<longleftrightarrow> msg_role m = ''tool'' \<and> msg_tool_call_id m = tc_id call"

definition answering :: "('w, 's) tool_handler \<Rightarrow> bool" where
  "answering h \<longleftrightarrow> (\<forall>rq s m s'. h rq s = (Ret (Inr m), s') \<longrightarrow> answers (rq_call rq) m)"

lemma answeringI: "(\<And>rq s m s'. h rq s = (Ret (Inr m), s') \<Longrightarrow> answers (rq_call rq) m) \<Longrightarrow> answering h"
  by (simp add: answering_def)

lemma answeringD: "answering h \<Longrightarrow> h rq s = (Ret (Inr m), s') \<Longrightarrow> answers (rq_call rq) m"
  unfolding answering_def by blast

lemma answers_tool_message [simp]:
  "answers call (tool_message call_id content) \<longleftrightarrow> call_id = tc_id call"
  "answers call (error_tool_message call_id name content) \<longleftrightarrow> call_id = tc_id call"
  "answers call (m\<lparr>msg_name := name\<rparr>) \<longleftrightarrow> answers call m"
  "answers call (m\<lparr>msg_extra := extra\<rparr>) \<longleftrightarrow> answers call m"
  "answers call (m\<lparr>msg_content := content\<rparr>) \<longleftrightarrow> answers call m"
  by (auto simp: answers_def tool_message_def error_tool_message_def)

text \<open>What middleware owes the tools node: it answers the call it is given when the next handler does.\<close>

locale answering_wrapper =
  fixes wrap :: "('w, 's) tool_wrapper"
  assumes wrap_answers: "answering h \<Longrightarrow> answering (wrap h)"
begin

lemma wrapped_reply: "answering h \<Longrightarrow> wrap h rq s = (Ret (Inr m), s') \<Longrightarrow> answers (rq_call rq) m"
  by (rule answeringD [OF wrap_answers])

end

lemma dispatch_Nil [simp]: "dispatch_through_middleware [] h = h"
  by (simp add: dispatch_through_middleware_def)

lemma dispatch_Cons [simp]:
  "dispatch_through_middleware (hook # hooks) h = hook (dispatch_through_middleware hooks h)"
  by (simp add: dispatch_through_middleware_def)

lemma dispatch_answers:
  assumes "\<And>hook. hook \<in> set hooks \<Longrightarrow> answering_wrapper hook"
  shows "answering_wrapper (dispatch_through_middleware hooks)"
  using assms
proof (induction hooks)
  case Nil
  show ?case by unfold_locales simp_all
next
  case (Cons hook hooks)
  then have "answering_wrapper hook" "answering_wrapper (dispatch_through_middleware hooks)" by simp_all
  note wraps = this [THEN answering_wrapper.wrap_answers]
  show ?case by unfold_locales (simp_all add: wraps)
qed

lemma wrap_tool_error_cases:
  assumes "wrap_tool_error m h rq s = (Ret (Inr msg), s')"
  obtains (passed) "h rq s = (Ret (Inr msg), s')"
    | (handled) e content where "h rq s = (Ret (Inl e), s')" "te_on_error m e rq = Some content"
        "msg = error_content_message (tc_id (rq_call rq)) (called_tool rq) content"
proof (cases "tool_matches (te_filter m) (called_tool rq)")
  case True
  with assms have "and_then (h rq s) (\<lambda>r s'. (Ret (case r of Inr msg \<Rightarrow> Inr msg
      | Inl e \<Rightarrow> (case te_on_error m e rq of None \<Rightarrow> Inl (EUnhandled (Some e))
               | Some content \<Rightarrow> Inr (error_content_message (tc_id (rq_call rq)) (called_tool rq) content))), s'))
      = (Ret (Inr msg), s')"
    by (simp add: wrap_tool_error_def)
  then obtain r where r: "h rq s = (Ret r, s')" and eq: "(case r of Inr msg \<Rightarrow> Inr msg
      | Inl e \<Rightarrow> (case te_on_error m e rq of None \<Rightarrow> Inl (EUnhandled (Some e))
               | Some content \<Rightarrow> Inr (error_content_message (tc_id (rq_call rq)) (called_tool rq) content))) = Inr msg"
    unfolding and_then_pure by blast
  show ?thesis
  proof (cases r)
    case (Inl e)
    with r eq show ?thesis by (cases "te_on_error m e rq") (auto intro: handled)
  next
    case (Inr m')
    with r eq show ?thesis by (auto intro: passed)
  qed
next
  case False
  with assms show ?thesis by (auto simp: wrap_tool_error_def intro: passed)
qed

lemma wrap_tool_error_answers: "answering h \<Longrightarrow> answering (wrap_tool_error m h)"
  by (rule answeringI, erule wrap_tool_error_cases) (auto simp: error_content_message_def dest: answeringD)

lemma handle_failure_answers:
  "handle_failure type_name m tool_name (tc_id call) e attempts = Inr msg \<Longrightarrow> answers call msg"
  by (auto simp: handle_failure_def split: if_splits)

lemma retry_attempts_answers:
  assumes "answering h"
  shows "retry_attempts type_name m h rq left attempt s = (Ret (Inr msg), s') \<Longrightarrow> answers (rq_call rq) msg"
proof (induction left arbitrary: attempt s)
  case (Suc left)
  from Suc.prems obtain r s1 where r: "h rq s = (Ret r, s1)"
    and k: "(case r of Inr msg \<Rightarrow> (Ret (Inr msg), s1)
        | Inl e \<Rightarrow> if \<not> ty_retry_on m e \<or> attempt = ty_max_retries m then
               (Ret (handle_failure type_name m (called_tool rq) (tc_id (rq_call rq)) e (attempt + 1)), s1)
             else retry_attempts type_name m h rq left (attempt + 1) s1) = (Ret (Inr msg), s')"
    by (auto simp: and_then_eq_Ret)
  show ?case
  proof (cases r)
    case (Inl e)
    with k Suc.IH show ?thesis by (auto split: if_splits intro: handle_failure_answers)
  next
    case (Inr m')
    with r k answeringD [OF assms] show ?thesis by auto
  qed
qed simp

interpretation error_mw: answering_wrapper "wrap_tool_error m" for m
  by unfold_locales (rule wrap_tool_error_answers)

lemma wrap_tool_retry_answers: "answering h \<Longrightarrow> answering (wrap_tool_retry type_name m h)"
  by (rule answeringI) (auto simp: wrap_tool_retry_def dest: answeringD retry_attempts_answers split: if_splits)

interpretation retry_mw: answering_wrapper "wrap_tool_retry type_name m" for type_name m
  by unfold_locales (rule wrap_tool_retry_answers)

subsection \<open>What the tools node leaves\<close>

lemma execute_answers: "execute n rq w = (Ret (Inr (m, c)), w') \<Longrightarrow> answers (rq_call rq) m"
  by (auto simp: execute_def Let_def invalid_tool_message_def and_then_pure rbind_Inr_iff split: option.splits)

lemma next_call_answers: "answering (next_call n call)"
proof (rule answeringI)
  fix rq s m s'
  assume "next_call n call rq s = (Ret (Inr m), s')"
  then obtain t c w where "execute n (rq\<lparr>rq_tool := t\<rparr>) (fst s) = (Ret (Inr (m, c)), w)"
  proof (cases "tc_name (rq_call rq) = tc_name call")
    case True
    with \<open>next_call n call rq s = _\<close> that [of "rq_tool rq"] show ?thesis
      by (auto simp: next_call_def Let_def split: prod.splits outcome.splits sum.splits)
  next
    case False
    with \<open>next_call n call rq s = _\<close> that show ?thesis
      by (auto simp: next_call_def Let_def split: prod.splits outcome.splits sum.splits option.splits)
  qed
  from execute_answers [OF this] show "answers (rq_call rq) m" by simp
qed

lemma convert_answers: "convert_tool_error n call e = Inr (m, c) \<Longrightarrow> answers call m \<and> c = None"
  by (auto simp: convert_tool_error_def split: if_splits option.splits)

definition answering_node :: "'w tool_node \<Rightarrow> bool" where
  "answering_node n \<longleftrightarrow> (case tn_wrap n of None \<Rightarrow> True | Some wrap \<Rightarrow> answering_wrapper wrap)"

lemma run_one_answers:
  assumes "answering_node n" and run: "run_one n state call w = (Ret (Inr (m, c)), w')"
  shows "answers call m"
proof (cases "tn_wrap n")
  case None
  with run obtain r where
      "execute n \<lparr>rq_call = call, rq_tool = map_of (tn_by_name n) (tc_name call), rq_state = state\<rparr> w = (Ret r, w')"
      "(case r of Inr out \<Rightarrow> Inr out | Inl e \<Rightarrow> convert_tool_error n call e) = Inr (m, c)"
    by (auto simp: run_one_def and_then_pure)
  then show ?thesis by (cases r) (auto dest: execute_answers convert_answers)
next
  case (Some wrap)
  define request where "request = \<lparr>rq_call = call, rq_tool = map_of (tn_by_name n) (tc_name call), rq_state = state\<rparr>"
  from Some assms(1) have "answering_wrapper wrap" by (simp add: answering_node_def)
  then have reply: "wrap (next_call n call) request (w, None) = (Ret (Inr m'), s') \<Longrightarrow> answers call m'" for m' s'
    using answering_wrapper.wrapped_reply [OF _ next_call_answers] by (fastforce simp: request_def)
  obtain r w1 c1 where eq: "wrap (next_call n call) request (w, None) = (r, (w1, c1))" by (metis surj_pair)
  show ?thesis
  proof (cases r)
    case (Ret x)
    with run Some eq reply show ?thesis
      by (cases x) (auto simp: run_one_def request_def [symmetric] dest: convert_answers)
  qed (use run Some eq in \<open>auto simp: run_one_def request_def [symmetric]\<close>)
qed

lemma map_inputs_all2:
  assumes "\<And>x w y w'. x \<in> set xs \<Longrightarrow> f x w = (Ret (Inr y), w') \<Longrightarrow> P x y"
    and "map_inputs ctx_err f xs w = (Ret (Inr rs), w')"
  shows "list_all2 (\<lambda>x r. case r of Inl e \<Rightarrow> True | Inr y \<Rightarrow> P x y) xs rs"
  using assms
proof (induction xs arbitrary: w rs)
  case (Cons x xs)
  from Cons.prems(2) obtain r w1 rs1 where
      r: "(case ctx_err w of Some e \<Rightarrow> (Ret (Inl e), w) | None \<Rightarrow> f x w) = (Ret r, w1)"
    and rs1: "map_inputs ctx_err f xs w1 = (Ret (Inr rs1), w')" and rs: "rs = r # rs1"
    by (auto simp: and_then_eq_Ret rbind_Inr_iff)
  from r Cons.prems(1) have "case r of Inl e \<Rightarrow> True | Inr y \<Rightarrow> P x y"
    by (cases r) (auto split: option.splits)
  with rs Cons.IH [OF Cons.prems(1) rs1] show ?case by simp
qed simp

lemma outputs_all2:
  "errors_join rs = None \<Longrightarrow> list_all2 (\<lambda>x r. case r of Inl e \<Rightarrow> True | Inr y \<Rightarrow> P x y) xs rs \<Longrightarrow> list_all2 P xs (outputs rs)"
  by (induction rs arbitrary: xs rule: errors_join.induct) (auto simp: list_all2_Cons2)

lemma parallel_map_all2:
  assumes "\<And>x w y w'. x \<in> set xs \<Longrightarrow> f x w = (Ret (Inr y), w') \<Longrightarrow> P x y"
    and "parallel_map procs maxc ctx_err f xs w = (Ret (Inr ys), w')"
  shows "list_all2 P xs ys"
  using assms(2) map_inputs_all2 [where P = P and f = f and xs = xs and ctx_err = ctx_err and w = w] assms(1)
    outputs_all2 [of _ P xs]
  by (auto simp: parallel_map_def Let_def split: prod.splits outcome.splits sum.splits option.splits if_splits)

lemma last_ai_append:
  "\<forall>m \<in> set rs. msg_role m \<noteq> ''ai'' \<Longrightarrow> last_ai (ms @ rs) = map_option (\<lambda>(ai, rest). (ai, rest @ rs)) (last_ai ms)"
proof (induction ms)
  case Nil
  then show ?case by (induction rs) auto
qed (auto split: option.splits)

lemma answered_calls:
  assumes "list_all2 answers (unanswered_tool_calls ms) replies" and "\<forall>m \<in> set extra. msg_role m \<noteq> ''ai''"
  shows "unanswered_tool_calls (ms @ replies @ extra) = []"
proof -
  have tools: "\<forall>m \<in> set replies. msg_role m = ''tool''"
    using assms(1) by (auto simp: list_all2_conv_all_nth answers_def in_set_conv_nth)
  have ids: "map msg_tool_call_id replies = map tc_id (unanswered_tool_calls ms)"
    using assms(1) by (auto simp: list_all2_conv_all_nth answers_def intro: nth_equalityI)
  have last_eq: "last_ai (ms @ replies @ extra) = map_option (\<lambda>(ai, rest). (ai, rest @ replies @ extra)) (last_ai ms)"
    using tools assms(2) by (intro last_ai_append) auto
  show ?thesis
  proof (cases "last_ai ms")
    case (Some p)
    obtain ai rest where p: "p = (ai, rest)" by fastforce
    have "tc_id c \<in> msg_tool_call_id ` {m \<in> set rest. msg_role m = ''tool''} \<or> tc_id c \<in> msg_tool_call_id ` set replies"
      if "c \<in> set (msg_tool_calls ai)" for c
    proof (rule disjCI)
      assume "tc_id c \<notin> msg_tool_call_id ` set replies"
      then have "c \<notin> set (unanswered_tool_calls ms)" using arg_cong [OF ids, of set] by auto
      with that Some p show "tc_id c \<in> msg_tool_call_id ` {m \<in> set rest. msg_role m = ''tool''}"
        by (simp add: unanswered_tool_calls_def last_ai_and_tool_messages_def)
    qed
    with tools show ?thesis
      unfolding unanswered_tool_calls_def last_ai_and_tool_messages_def last_eq Some p
      by (fastforce simp: filter_empty_conv)
  qed (simp add: unanswered_tool_calls_def last_ai_and_tool_messages_def last_eq)
qed

lemma messages_of_mput [simp]:
  "messages_of (mput k v upd) =
     (if k = ''messages'' then (case v of VMsgs ms \<Rightarrow> ms | _ \<Rightarrow> []) else messages_of upd)"
  by (simp add: messages_of_def)

definition messages_typed :: "gstate \<Rightarrow> bool" where
  "messages_typed upd \<longleftrightarrow> (case map_of upd ''messages'' of None \<Rightarrow> True | Some (VMsgs ms) \<Rightarrow> True | _ \<Rightarrow> False)"

lemma fold_update_messages:
  "messages_of (fold_update upd k v) =
     (if k = ''messages'' then (case v of VMsgs ms \<Rightarrow> messages_of upd @ ms | _ \<Rightarrow> []) else messages_of upd)"
  by (auto simp: fold_update_def split: gval.splits)

lemma fold_update_typed:
  assumes "messages_typed news" "map_of news k = Some v"
  shows "messages_of (fold_update upd k v) = messages_of upd @ (if k = ''messages'' then messages_of news else [])"
proof (cases "k = ''messages''")
  case True
  with assms have "messages_of news = (case v of VMsgs ms \<Rightarrow> ms | _ \<Rightarrow> [])" "\<exists>ms. v = VMsgs ms"
    by (auto simp: messages_typed_def messages_of_def split: gval.splits)
  with True show ?thesis by (auto simp: fold_update_messages)
qed (simp add: fold_update_messages)

lemma fold_updates_messages:
  assumes "messages_typed news"
  shows "messages_of (fold_updates upd news) = messages_of upd @ messages_of news"
proof -
  have step: "distinct ks \<Longrightarrow> \<forall>k \<in> set ks. map_of news k \<noteq> None \<Longrightarrow>
      messages_of (foldl (\<lambda>u k. fold_update u k (mgetd news k VNil)) u ks) =
      messages_of u @ (if ''messages'' \<in> set ks then messages_of news else [])" for ks u
  proof (induction ks arbitrary: u)
    case (Cons k ks)
    then obtain v where v: "map_of news k = Some v" by auto
    then have "mgetd news k VNil = v" by (simp add: mgetd_def)
    with Cons fold_update_typed [OF assms v, of u] show ?case by auto
  qed simp
  have all: "\<forall>k \<in> set (mkeys news). map_of news k \<noteq> None" by (simp add: in_mkeys_iff del: set_mkeys)
  have "''messages'' \<notin> set (mkeys news) \<Longrightarrow> messages_of news = []"
    by (simp add: in_mkeys_iff messages_of_def del: set_mkeys)
  then show ?thesis
    unfolding fold_updates_def step [OF distinct_mkeys all] by (cases "''messages'' \<in> set (mkeys news)") simp_all
qed

lemma apply_commands_messages:
  assumes "apply_tool_node_commands upd cs = Inr (upd', dests)" "\<forall>c \<in> set cs. messages_typed (cmd_update c)"
  shows "messages_of upd' = messages_of upd @ concat (map (messages_of \<circ> cmd_update) cs) \<and> dests = concat (map cmd_goto cs)"
  using assms
proof (induction cs arbitrary: upd upd' dests)
  case (Cons c cs)
  from Cons.prems(1) obtain ds where rest: "apply_tool_node_commands (fold_updates upd (cmd_update c)) cs = Inr (upd', ds)"
    and "dests = cmd_goto c @ ds"
    by (auto simp: rbind_Inr_iff split: if_splits)
  with Cons.IH [OF rest] Cons.prems(2) show ?case by (simp add: fold_updates_messages)
qed simp

text \<open>The update of a node's result, as the executor reads it.\<close>

definition result_update :: "node_result \<Rightarrow> gstate" where
  "result_update r = (case r of RState upd \<Rightarrow> upd | RCommand c \<Rightarrow> cmd_update c | _ \<Rightarrow> [])"

lemma tools_update_messages:
  assumes "tools_update outs = Inr res" and "\<forall>(m, c) \<in> set outs. \<forall>cmd. c = Some cmd \<longrightarrow> messages_typed (cmd_update cmd)"
  shows "messages_of (result_update res) =
    map fst outs @ concat (map (messages_of \<circ> cmd_update) (List.map_filter snd outs))"
proof -
  let ?cmds = "List.map_filter snd outs" and ?upd = "[(''messages'', VMsgs (map fst outs))]"
  have typed: "\<forall>c \<in> set ?cmds. messages_typed (cmd_update c)"
    using assms(2) by (fastforce simp: List.map_filter_def)
  show ?thesis
  proof (cases "?cmds = []")
    case True
    with assms(1) show ?thesis by (auto simp: tools_update_def Let_def result_update_def messages_of_def)
  next
    case False
    with assms(1) obtain upd' dests where "apply_tool_node_commands ?upd ?cmds = Inr (upd', dests)"
      and "result_update res = upd'"
      by (auto simp: tools_update_def Let_def rbind_Inr_iff result_update_def split: if_splits)
    with apply_commands_messages [OF _ typed, of ?upd] show ?thesis by (auto simp: messages_of_def)
  qed
qed

lemma in_last_ai: "last_ai ms = Some (ai, rest) \<Longrightarrow> ai \<in> set ms \<and> msg_role ai = ''ai''"
  by (induction ms) (auto split: option.splits if_splits)

text \<open>
  C28: when every wrapper around its calls answers the call it is given, a tools node that returns has
  answered each unanswered call of the last model message exactly once and in order; the replies
  open the messages of its update, the messages of the tools' commands follow, and with them in the
  history no call of that message is left unanswered.
\<close>

theorem tools_node_answers_every_call:
  assumes node: "answering_node n"
    and ran: "invoke_tool_calls_full procs ctx_err n state (unanswered_tool_calls (messages_of state)) w = (Ret (Inr outs), w')"
  shows "list_all2 answers (unanswered_tool_calls (messages_of state)) (map fst outs) \<and>
    tools_node procs ctx_err n state w = (Ret (tools_update outs), w') \<and>
    ((\<forall>(m, c) \<in> set outs. \<forall>cmd. c = Some cmd \<longrightarrow> messages_typed (cmd_update cmd)) \<longrightarrow>
       (\<forall>res. tools_update outs = Inr res \<longrightarrow>
          messages_of (result_update res) =
            map fst outs @ concat (map (messages_of \<circ> cmd_update) (List.map_filter snd outs)))) \<and>
    (\<forall>extra. (\<forall>m \<in> set extra. msg_role m \<noteq> ''ai'') \<longrightarrow>
       unanswered_tool_calls (messages_of state @ map fst outs @ extra) = [])"
proof -
  have "list_all2 (\<lambda>call out. answers call (fst out)) (unanswered_tool_calls (messages_of state)) outs"
    using ran run_one_answers [OF node]
    by (intro parallel_map_all2 [where f = "run_one n state"]) (auto simp: invoke_tool_calls_full_def)
  then have answered: "list_all2 answers (unanswered_tool_calls (messages_of state)) (map fst outs)"
    by (simp add: list_all2_map2)
  moreover have "tools_node procs ctx_err n state w = (Ret (tools_update outs), w')"
    by (simp add: tools_node_def ran)
  ultimately show ?thesis
    using tools_update_messages answered_calls [OF answered] by blast
qed

text \<open>A node of one tool that doubles its argument, and fails on an empty one.\<close>

definition demo_tool :: "nat tool" where
  "demo_tool = \<lparr>tl_name = ''echo'', tl_return_direct = False,
     tl_invoke = (\<lambda>args w. (Ret (if args = [] then Inl (EText ''no input'') else Inr \<lparr>tr_content = args, tr_command = None\<rparr>), Suc w))\<rparr>"

definition demo_node :: "(nat, nat \<times> command option) tool_wrapper list \<Rightarrow> nat tool_node" where
  "demo_node hooks = \<lparr>tn_by_name = [(''echo'', demo_tool)], tn_names = [''echo''],
     tn_on_error = default_handle_tool_errors, tn_wrap = Some (dispatch_through_middleware hooks)\<rparr>"

definition demo_ai :: "tool_call list \<Rightarrow> message" where
  "demo_ai calls = \<lparr>msg_role = ''ai'', msg_content = [], msg_name = [], msg_id = ''m'', msg_tool_call_id = [],
     msg_tool_calls = calls, msg_invalid_calls = [], msg_extra = []\<rparr>"

definition demo_call :: "string \<Rightarrow> string \<Rightarrow> tool_call" where
  "demo_call call_id args = \<lparr>tc_id = call_id, tc_name = ''echo'', tc_args = args\<rparr>"

lemma demo_node_new:
  "new_tool_node [Some demo_tool] None (Some (dispatch_through_middleware hooks)) = Inr (demo_node hooks)"
  by (simp add: new_tool_node_def demo_node_def demo_tool_def mhas_def)

definition demo_error_mw :: "nat tool_error_mw" where
  "demo_error_mw = \<lparr>te_on_error = (\<lambda>e rq. if e = EText ''no input'' then Some (VStr ''give input'') else None), te_filter = None\<rparr>"

definition demo_retry_mw :: tool_retry_mw where
  "demo_retry_mw = \<lparr>ty_max_retries = 2, ty_filter = None, ty_retry_on = (\<lambda>e. True), ty_on_failure = ''error'',
     ty_formatter = None, ty_backoff_factor = 2, ty_initial_delay = 0, ty_max_delay = 0\<rparr>"

definition demo_hooks :: "(nat, 's) tool_wrapper list" where
  "demo_hooks = [wrap_tool_error demo_error_mw, wrap_tool_retry (\<lambda>e. ''error'') demo_retry_mw]"

lemma demo_hooks_answer: "answering_node (demo_node demo_hooks)"
  unfolding answering_node_def demo_node_def
  by (simp, rule dispatch_answers)
     (auto simp: demo_hooks_def intro: error_mw.answering_wrapper_axioms retry_mw.answering_wrapper_axioms)

lemma tools_node_answers_every_call_witness:
  "\<exists>outs. tools_node 4 (\<lambda>w. None) (demo_node demo_hooks)
       [(''messages'', VMsgs [demo_ai [demo_call ''a'' ''x'', demo_call ''b'' []]])] 0 = (Ret (tools_update outs), 4) \<and>
     map (\<lambda>(m, c). (msg_tool_call_id m, msg_content m)) outs = [(''a'', ''x''), (''b'', ''give input'')]"
proof -
  let ?state = "[(''messages'', VMsgs [demo_ai [demo_call ''a'' ''x'', demo_call ''b'' []]])]"
  let ?calls = "[demo_call ''a'' ''x'', demo_call ''b'' []]"
  let ?reply = "\<lambda>call_id content. (tool_message call_id content)\<lparr>msg_name := ''echo''\<rparr>"
  let ?outs = "[(?reply ''a'' ''x'', None), (error_tool_message ''b'' ''echo'' ''give input'', None)]"
  have calls: "unanswered_tool_calls (messages_of ?state) = ?calls"
    by (simp add: unanswered_tool_calls_def last_ai_and_tool_messages_def messages_of_def demo_ai_def)
  have one: "run_one (demo_node demo_hooks) ?state (demo_call ''a'' ''x'') 0 = (Ret (Inr (?reply ''a'' ''x'', None)), 1)"
    by code_simp
  have two: "run_one (demo_node demo_hooks) ?state (demo_call ''b'' []) (Suc 0) =
      (Ret (Inr (error_tool_message ''b'' ''echo'' ''give input'', None)), 4)"
    by code_simp
  have ran: "invoke_tool_calls_full 4 (\<lambda>w. None) (demo_node demo_hooks) ?state
      (unanswered_tool_calls (messages_of ?state)) 0 = (Ret (Inr ?outs), 4)"
    unfolding calls by (simp add: invoke_tool_calls_full_def parallel_map_def Let_def one two)
  from tools_node_answers_every_call [OF demo_hooks_answer ran, THEN conjunct2, THEN conjunct1]
  show ?thesis by (intro exI [of _ ?outs]) (simp add: tool_message_def error_tool_message_def)
qed

subsection \<open>Retries\<close>

text \<open>The state a request leaves when it is executed a number of times.\<close>

primrec after_calls :: "('w, 's) tool_handler \<Rightarrow> 'w tool_request \<Rightarrow> nat \<Rightarrow> 's \<Rightarrow> 's" where
  "after_calls h rq 0 s = s"
| "after_calls h rq (Suc k) s = after_calls h rq k (snd (h rq s))"

definition nth_outcome :: "('w, 's) tool_handler \<Rightarrow> 'w tool_request \<Rightarrow> nat \<Rightarrow> 's \<Rightarrow> message outcome" where
  "nth_outcome h rq k s = fst (h rq (after_calls h rq k s))"

lemma nth_outcome_simps:
  "nth_outcome h rq 0 s = fst (h rq s)" "nth_outcome h rq (Suc k) s = nth_outcome h rq k (snd (h rq s))"
  by (simp_all add: nth_outcome_def)

definition retryable :: "tool_retry_mw \<Rightarrow> message outcome \<Rightarrow> bool" where
  "retryable m r = (case r of Ret (Inl e) \<Rightarrow> ty_retry_on m e | _ \<Rightarrow> False)"

text \<open>What the middleware makes of the attempt it stops at.\<close>

definition retry_verdict ::
  "(goerr \<Rightarrow> string) \<Rightarrow> tool_retry_mw \<Rightarrow> 'w tool_request \<Rightarrow> int \<Rightarrow> message outcome \<Rightarrow> message outcome" where
  "retry_verdict type_name m rq attempts r =
     (case r of
        Ret (Inl e) \<Rightarrow> Ret (handle_failure type_name m (called_tool rq) (tc_id (rq_call rq)) e attempts)
      | r \<Rightarrow> r)"

lemma retry_attempts_run:
  assumes "int left + attempt = ty_max_retries m + 1" "0 < left"
  shows "\<exists>k < left.
     (\<forall>i < k. retryable m (nth_outcome h rq i s)) \<and>
     (retryable m (nth_outcome h rq k s) \<longrightarrow> int k + attempt = ty_max_retries m) \<and>
     retry_attempts type_name m h rq left attempt s =
       (retry_verdict type_name m rq (int k + attempt + 1) (nth_outcome h rq k s), after_calls h rq (Suc k) s)"
  using assms
proof (induction left arbitrary: attempt s)
  case (Suc left)
  obtain x s1 where x: "h rq s = (x, s1)" by (cases "h rq s")
  show ?case
  proof (cases "\<exists>e. x = Ret (Inl e) \<and> ty_retry_on m e \<and> attempt \<noteq> ty_max_retries m")
    case True
    then obtain e where e: "x = Ret (Inl e)" "ty_retry_on m e" "attempt \<noteq> ty_max_retries m" by blast
    with Suc.prems have "int left + (attempt + 1) = ty_max_retries m + 1" "0 < left" by auto
    from Suc.IH [OF this, of s1] obtain k where k: "k < left"
      "\<forall>i<k. retryable m (nth_outcome h rq i s1)"
      "retryable m (nth_outcome h rq k s1) \<longrightarrow> int k + (attempt + 1) = ty_max_retries m"
      "retry_attempts type_name m h rq left (attempt + 1) s1 =
        (retry_verdict type_name m rq (int k + (attempt + 1) + 1) (nth_outcome h rq k s1), after_calls h rq (Suc k) s1)"
      by blast
    have "\<forall>i<Suc k. retryable m (nth_outcome h rq i s)"
      using k(2) x e by (auto simp: less_Suc_eq_0_disj nth_outcome_simps retryable_def)
    then show ?thesis
      using k x e by (intro exI [of _ "Suc k"]) (auto simp: nth_outcome_simps algebra_simps)
  next
    case False
    with x Suc.prems show ?thesis
      by (intro exI [of _ 0])
         (auto simp: nth_outcome_simps retryable_def retry_verdict_def and_then_def split: outcome.splits sum.splits)
  qed
qed simp

text \<open>
  The retry middleware executes a call at most once more than its retries allow: it stops at the
  first attempt that does not fail with an error it retries, or at the last one allowed, hands that
  attempt's reply or panic on, and turns its error into an error or a reply that names the number
  of attempts.
\<close>

theorem retries_stop_at_first_verdict:
  assumes "0 \<le> ty_max_retries m" "tool_matches (ty_filter m) (called_tool rq)"
  shows "\<exists>k. int k \<le> ty_max_retries m \<and>
     (\<forall>i < k. retryable m (nth_outcome h rq i s)) \<and>
     (retryable m (nth_outcome h rq k s) \<longrightarrow> int k = ty_max_retries m) \<and>
     wrap_tool_retry type_name m h rq s =
       (retry_verdict type_name m rq (int k + 1) (nth_outcome h rq k s), after_calls h rq (Suc k) s)"
proof -
  have "int (nat (ty_max_retries m + 1)) + 0 = ty_max_retries m + 1" "0 < nat (ty_max_retries m + 1)"
    using assms(1) by simp_all
  from retry_attempts_run [OF this, of h rq s type_name] obtain k where "k < nat (ty_max_retries m + 1)"
      "\<forall>i<k. retryable m (nth_outcome h rq i s)"
      "retryable m (nth_outcome h rq k s) \<longrightarrow> int k + 0 = ty_max_retries m"
      "retry_attempts type_name m h rq (nat (ty_max_retries m + 1)) 0 s =
        (retry_verdict type_name m rq (int k + 0 + 1) (nth_outcome h rq k s), after_calls h rq (Suc k) s)"
    by blast
  then show ?thesis using assms by (intro exI [of _ k]) (auto simp: wrap_tool_retry_def)
qed

lemma retries_stop_at_first_verdict_witness:
  "\<exists>k. int k \<le> 2 \<and>
     wrap_tool_retry (\<lambda>e. ''error'') demo_retry_mw (next_call (demo_node []) (demo_call ''b'' []))
       \<lparr>rq_call = demo_call ''b'' [], rq_tool = Some demo_tool, rq_state = []\<rparr> (0, None) =
     (Ret (Inl (EText ''no input'')), (Suc k, None))"
proof -
  let ?h = "next_call (demo_node []) (demo_call ''b'' [])"
  let ?rq = "\<lparr>rq_call = demo_call ''b'' [], rq_tool = Some demo_tool, rq_state = []\<rparr>"
  have ok: "0 \<le> ty_max_retries demo_retry_mw" "tool_matches (ty_filter demo_retry_mw) (called_tool ?rq)"
    by (simp_all add: demo_retry_mw_def tool_matches_def)
  have step: "?h ?rq (n, c) = (Ret (Inl (EText ''no input'')), (Suc n, c))" for n c
    by (simp add: next_call_def execute_def demo_call_def demo_tool_def)
  have after: "after_calls ?h ?rq j (n, c) = (n + j, c)" for j n c
    by (induction j arbitrary: n) (simp_all add: step)
  from retries_stop_at_first_verdict [OF ok, of ?h "(0, None)" "\<lambda>e. ''error''"] obtain k where
      "int k \<le> ty_max_retries demo_retry_mw"
      "wrap_tool_retry (\<lambda>e. ''error'') demo_retry_mw ?h ?rq (0, None) =
        (retry_verdict (\<lambda>e. ''error'') demo_retry_mw ?rq (int k + 1) (nth_outcome ?h ?rq k (0, None)),
         after_calls ?h ?rq (Suc k) (0, None))"
    by blast
  then show ?thesis
    by (intro exI [of _ k])
       (simp add: after nth_outcome_def step retry_verdict_def handle_failure_def demo_retry_mw_def)
qed

subsection \<open>Errors and panics\<close>

text \<open>
  C29: under the error middleware a tool's own error decides the call's fate: content returned for it
  answers the call, an error it declines ends the run as it was raised although the node's strategy
  would have converted it, and the error of a tool it does not watch goes through that strategy.
\<close>

theorem tool_errors_are_answered_or_raised:
  assumes wrapped: "tn_wrap n = Some (dispatch_through_middleware [wrap_tool_error m])"
    and tool: "map_of (tn_by_name n) (tc_name call) = Some t" "tl_invoke t (tc_args call) w = (Ret (Inl e), w')"
    and raw: "\<not> list_ex is_unhandled (err_chain e)"
  shows "let rq = \<lparr>rq_call = call, rq_tool = Some t, rq_state = state\<rparr> in
     run_one n state call w =
       ((if tool_matches (te_filter m) (tl_name t) then
           case te_on_error m e rq of
             None \<Rightarrow> Ret (Inl e)
           | Some content \<Rightarrow> Ret (Inr (error_content_message (tc_id call) (tl_name t) content, None))
         else case tn_on_error n e of
           None \<Rightarrow> Ret (Inl e)
         | Some content \<Rightarrow> Ret (Inr (error_tool_message (tc_id call) (tc_name call) content, None))), w')"
proof -
  let ?rq = "\<lparr>rq_call = call, rq_tool = Some t, rq_state = state\<rparr>"
  have call: "next_call n call ?rq (w, None) = (Ret (Inl e), (w', None))"
    using tool by (simp add: next_call_def execute_def)
  have plain: "strip_unhandled (EUnhandled (Some e)) = e"
    using raw by (cases e rule: strip_unhandled.cases) (auto simp: is_unhandled_def)
  show ?thesis
    using wrapped tool raw call plain
    by (auto simp: run_one_def Let_def wrap_tool_error_def called_tool_def convert_tool_error_def is_unhandled_def
        split: option.splits)
qed

lemma tool_errors_are_answered_or_raised_witness:
  "run_one (demo_node [wrap_tool_error (demo_error_mw\<lparr>te_on_error := (\<lambda>e rq. None)\<rparr>)]) [] (demo_call ''b'' []) 0
     = (Ret (Inl (EText ''no input'')), 1) \<and>
   run_one (demo_node [wrap_tool_error demo_error_mw]) [] (demo_call ''b'' []) 0
     = (Ret (Inr (error_content_message ''b'' ''echo'' (VStr ''give input''), None)), 1)"
proof -
  have node: "tn_wrap (demo_node hooks) = Some (dispatch_through_middleware hooks)"
      "map_of (tn_by_name (demo_node hooks)) (tc_name (demo_call ''b'' [])) = Some demo_tool" for hooks
    by (simp_all add: demo_node_def demo_call_def)
  have fails: "tl_invoke demo_tool (tc_args (demo_call ''b'' [])) 0 = (Ret (Inl (EText ''no input'')), 1)"
      "\<not> list_ex is_unhandled (err_chain (EText ''no input''))"
    by (simp_all add: demo_tool_def demo_call_def is_unhandled_def)
  show ?thesis
    using tool_errors_are_answered_or_raised [OF node(1) node(2) fails, where state = "[]" and m = demo_error_mw]
      tool_errors_are_answered_or_raised [OF node(1) node(2) fails, where state = "[]"
        and m = "demo_error_mw\<lparr>te_on_error := (\<lambda>e rq. None)\<rparr>"]
    by (simp add: Let_def tool_matches_def demo_error_mw_def demo_call_def demo_tool_def)
qed

text \<open>
  An interrupt raised by a tool pauses the run only when its call is the only one to execute;
  with a second call in the same message the panic strikes a worker goroutine and ends the process.
\<close>

theorem interrupts_need_a_single_call:
  assumes "unanswered_tool_calls (messages_of state) = call # rest"
    and "ctx_err w = None" and "fst (run_one n state call w) = Panic i" and "0 < procs"
  shows "fst (tools_node procs ctx_err n state w) = (if rest = [] then Panic i else Crash)"
proof -
  obtain w1 where "run_one n state call w = (Panic i, w1)" using assms(3) by (cases "run_one n state call w") auto
  moreover have "default_parallelism procs \<noteq> 1"
    using assms(4) by (simp add: default_parallelism_def max_def min_def)
  ultimately show ?thesis
    using assms by (simp add: tools_node_def invoke_tool_calls_full_def parallel_map_def)
qed

definition asking_tool :: "nat tool" where
  "asking_tool = demo_tool\<lparr>tl_invoke := (\<lambda>args w. (Panic (Interrupt (VStr ''ok?'') ''tools-1'' [] None), w))\<rparr>"

lemma interrupts_need_a_single_call_witness:
  "let n = (demo_node [])\<lparr>tn_by_name := [(''echo'', asking_tool)]\<rparr>;
       ask = (\<lambda>calls. fst (tools_node 1 (\<lambda>w. None) n [(''messages'', VMsgs [demo_ai calls])] 0)) in
   ask [demo_call ''a'' []] = Panic (Interrupt (VStr ''ok?'') ''tools-1'' [] None) \<and>
   ask [demo_call ''a'' [], demo_call ''b'' []] = Crash"
proof -
  let ?n = "(demo_node [])\<lparr>tn_by_name := [(''echo'', asking_tool)]\<rparr>"
  have calls: "unanswered_tool_calls (messages_of [(''messages'', VMsgs [demo_ai calls])]) = calls" for calls
    by (simp add: unanswered_tool_calls_def last_ai_and_tool_messages_def messages_of_def demo_ai_def)
  have run: "fst (run_one ?n state (demo_call ''a'' []) 0) = Panic (Interrupt (VStr ''ok?'') ''tools-1'' [] None)" for state
    by (simp add: run_one_def next_call_def execute_def demo_node_def asking_tool_def demo_call_def)
  show ?thesis
    using interrupts_need_a_single_call [OF calls [of "[demo_call ''a'' []]"], of "\<lambda>w. None" 0 ?n _ 1] run
      interrupts_need_a_single_call [OF calls [of "[demo_call ''a'' [], demo_call ''b'' []]"], of "\<lambda>w. None" 0 ?n _ 1]
    by (simp add: Let_def)
qed

end
