(* ===== verification/AgentReview.thy ===== *)
theory AgentReview
  imports AgentTools
begin

section \<open>Review and limits of tool calls (langchain/agents/middleware)\<close>

text \<open>
  The human-in-the-loop middleware pauses on the calls it is configured for and turns the reviewer's
  decisions into an update: rejected and answered calls get a tool message, edits are recorded in the
  state and take effect when the call is executed. The limit middleware counts model calls and tool
  calls in the state and blocks what exceeds its limits. Wire values are read in their JSON form; the
  typed forms of the same values, and floating-point counts, are left out. The arguments of a call are
  their JSON text, also inside a value (a \<open>VStr\<close>).
\<close>

subsection \<open>What is put to review (human_in_the_loop.go)\<close>

record interrupt_config =
  ic_allowed :: "string list"
  ic_description :: string
  ic_description_func :: "(tool_call \<Rightarrow> gstate \<Rightarrow> string) option"
  ic_args_schema :: "gstate option"
  ic_when :: "(tool_call \<Rightarrow> gstate \<Rightarrow> bool) option"

record action_request =
  ar_name :: string
  ar_args :: string
  ar_description :: string

record review_config =
  rc_action_name :: string
  rc_allowed :: "string list"
  rc_args_schema :: "gstate option"

record decision =
  de_type :: string
  de_edited :: "tool_call option"
  de_message :: string

record hitl_mw =
  hm_interrupt_on :: "interrupt_config gomap"
  hm_prefix :: string
  hm_decide :: "(action_request list \<times> review_config list \<Rightarrow> goerr + decision list) option"
  hm_edit_notice :: "string option"

definition default_prefix :: string where "default_prefix = ''Tool execution requires approval''"

definition new_hitl ::
  "interrupt_config gomap \<Rightarrow> (action_request list \<times> review_config list \<Rightarrow> goerr + decision list) option \<Rightarrow> hitl_mw" where
  "new_hitl on decide =
     \<lparr>hm_interrupt_on = filter (\<lambda>(name, c). ic_allowed c \<noteq> []) on, hm_prefix = default_prefix,
      hm_decide = decide, hm_edit_notice = None\<rparr>"

definition hitl_interrupt_enabled :: "hitl_mw \<Rightarrow> bool" where
  "hitl_interrupt_enabled m \<longleftrightarrow> hm_decide m = None"

definition call_description :: "hitl_mw \<Rightarrow> interrupt_config \<Rightarrow> gstate \<Rightarrow> tool_call \<Rightarrow> string" where
  "call_description m c state call =
     (let d = (case ic_description_func c of None \<Rightarrow> ic_description c | Some f \<Rightarrow> f call state) in
      if d \<noteq> [] then d
      else (if hm_prefix m = [] then default_prefix else hm_prefix m) @ [CHR 0x0A, CHR 0x0A] @ ''Tool: ''
        @ tc_name call @ [CHR 0x0A] @ ''Args: '' @ tc_args call)"

definition reviewed :: "hitl_mw \<Rightarrow> gstate \<Rightarrow> tool_call \<Rightarrow> interrupt_config option" where
  "reviewed m state call =
     (case map_of (hm_interrupt_on m) (tc_name call) of
        None \<Rightarrow> None
      | Some c \<Rightarrow>
          (case ic_when c of
             Some f \<Rightarrow> (if f call state then Some c else None)
           | None \<Rightarrow> Some c))"

fun review_items :: "hitl_mw \<Rightarrow> gstate \<Rightarrow> nat \<Rightarrow> tool_call list \<Rightarrow> (action_request \<times> review_config \<times> nat) list" where
  "review_items m state idx [] = []"
| "review_items m state idx (call # calls) =
     (case reviewed m state call of
        None \<Rightarrow> review_items m state (Suc idx) calls
      | Some c \<Rightarrow>
          (\<lparr>ar_name = tc_name call, ar_args = tc_args call, ar_description = call_description m c state call\<rparr>,
           \<lparr>rc_action_name = tc_name call, rc_allowed = ic_allowed c, rc_args_schema = ic_args_schema c\<rparr>, idx)
          # review_items m state (Suc idx) calls)"

definition reviewable_calls ::
  "hitl_mw \<Rightarrow> gstate \<Rightarrow> (message \<times> action_request list \<times> review_config list \<times> nat list) option" where
  "reviewable_calls m state =
     (case last_ai (messages_of state) of
        None \<Rightarrow> None
      | Some (ai, rest) \<Rightarrow>
          (let items = review_items m state 0 (msg_tool_calls ai) in
           if items = [] then None
           else Some (ai, map fst items, map (fst \<circ> snd) items, map (snd \<circ> snd) items)))"

subsection \<open>Decisions\<close>

definition decode_decision :: "gval \<Rightarrow> goerr + decision" where
  "decode_decision v =
     (case v of
        VMap d \<Rightarrow>
          (case (case map_of d ''type'' of None \<Rightarrow> map_of d ''Type'' | raw \<Rightarrow> raw) of
             None \<Rightarrow> Inl (EText (''missing '' @ go_quote ''type'' @ '' key''))
           | Some (VStr t) \<Rightarrow>
               rbind (case map_of d ''edited_action'' of
                        None \<Rightarrow> Inr None
                      | Some VNil \<Rightarrow> Inr None
                      | Some (VMap e) \<Rightarrow>
                          (let str = (\<lambda>k. case map_of e k of Some (VStr s) \<Rightarrow> s | _ \<Rightarrow> []) in
                           Inr (Some \<lparr>tc_id = str ''id'', tc_name = str ''name'', tc_args = str ''args''\<rparr>))
                      | Some x \<Rightarrow> Inl (EText (go_quote ''edited_action'' @ '' must be an object, got '' @ go_type x)))
                 (\<lambda>edited. Inr \<lparr>de_type = t, de_edited = edited,
                    de_message = (case map_of d ''message'' of Some (VStr s) \<Rightarrow> s
                      | _ \<Rightarrow> (case map_of d ''Message'' of Some (VStr s) \<Rightarrow> s | _ \<Rightarrow> []))\<rparr>)
           | Some x \<Rightarrow> Inl (EText (go_quote ''type'' @ '' must be a string, got '' @ go_type x)))
      | _ \<Rightarrow> Inl (EText (''cannot decode decision from '' @ go_type v)))"

fun decode_decisions :: "nat \<Rightarrow> gval list \<Rightarrow> goerr + decision list" where
  "decode_decisions i [] = Inr []"
| "decode_decisions i (v # vs) =
     (case decode_decision v of
        Inl e \<Rightarrow> Inl (EWrap (''decision '' @ show_nat i) e)
      | Inr d \<Rightarrow> rbind (decode_decisions (Suc i) vs) (\<lambda>ds. Inr (d # ds)))"

definition decode_hitl_response :: "gval \<Rightarrow> goerr + decision list" where
  "decode_hitl_response v =
     (case v of
        VMap resp \<Rightarrow>
          (case (case map_of resp ''decisions'' of None \<Rightarrow> map_of resp ''Decisions'' | raw \<Rightarrow> raw) of
             None \<Rightarrow> Inl (EText (''cannot decode HITL response from map without a '' @ go_quote ''decisions'' @ '' key''))
           | Some (VList l) \<Rightarrow> decode_decisions 0 l
           | Some x \<Rightarrow> Inl (EText (''decisions must be a list, got '' @ go_type x)))
      | VList l \<Rightarrow> decode_decisions 0 l
      | _ \<Rightarrow> Inl (EText (''cannot decode HITL response from '' @ go_type v)))"

definition hitl_request_value :: "action_request list \<Rightarrow> review_config list \<Rightarrow> gval" where
  "hitl_request_value actions configs =
     VMap [(''action_requests'', VList (map (\<lambda>a. VMap [(''name'', VStr (ar_name a)), (''args'', VStr (ar_args a)),
              (''description'', VStr (ar_description a))]) actions)),
           (''review_configs'', VList (map (\<lambda>c. VMap ((''action_name'', VStr (rc_action_name c))
              # (if rc_allowed c = [] then [] else [(''allowed_decisions'', VList (map VStr (rc_allowed c)))])
              @ (case rc_args_schema c of None \<Rightarrow> [] | Some s \<Rightarrow> [(''args_schema'', VMap s)]))) configs))]"

text \<open>
  \<open>processHumanDecision\<close>: the call that goes on, and the tool message that answers it at once.
\<close>

definition process_human_decision ::
  "decision \<Rightarrow> tool_call \<Rightarrow> interrupt_config \<Rightarrow> goerr + tool_call \<times> message option" where
  "process_human_decision d call c =
     (if de_type d \<notin> set (ic_allowed c) then
        Inl (EText (''unexpected human decision: '' @ de_type d @ '' is not allowed for tool '' @ go_quote (tc_name call)))
      else if de_type d = ''approve'' then Inr (call, None)
      else if de_type d = ''edit'' then
        (case de_edited d of
           None \<Rightarrow> Inl (EText ''edit decision requires edited action'')
         | Some e \<Rightarrow> Inr (\<lparr>tc_id = tc_id call, tc_name = tc_name e, tc_args = tc_args e\<rparr>, None))
      else if de_type d = ''reject'' then
        Inr (call, Some (error_tool_message (tc_id call) (tc_name call)
          (if de_message d = [] then
             ''User rejected the tool call for `'' @ tc_name call @ ''` with id '' @ tc_id call
             @ ''. The tool was not executed. Do not retry this tool call unless the user explicitly requests it.''
           else ''User rejected the tool call for `'' @ tc_name call @ ''` with reason: '' @ de_message d)))
      else if de_type d = ''respond'' then
        Inr (call, Some ((tool_message (tc_id call) (de_message d))\<lparr>msg_name := tc_name call, msg_extra := ''status=success''\<rparr>))
      else Inl (EText (''unexpected human decision: '' @ de_type d)))"

definition edited_key :: string where "edited_key = ''hitl_edited_tool_calls''"

definition edited_entry :: "tool_call \<Rightarrow> gval" where
  "edited_entry c = VMap [(''name'', VStr (tc_name c)), (''args'', VStr (tc_args c))]"

text \<open>
  The loop of \<open>applyHITLDecisions\<close> over the calls of the message: the revised calls, the messages
  that answer calls, and the edits by call ID. There are as many decisions as indices, so the case
  without a decision left is never reached.
\<close>

fun apply_decisions ::
  "hitl_mw \<Rightarrow> nat list \<Rightarrow> nat \<Rightarrow> tool_call list \<Rightarrow> decision list \<Rightarrow> tool_call list \<times> message list \<times> gstate
    \<Rightarrow> goerr + tool_call list \<times> message list \<times> gstate" where
  "apply_decisions m indices idx [] ds acc = Inr acc"
| "apply_decisions m indices idx (call # calls) ds (revised, artificial, edited) =
     (if idx \<notin> set indices then apply_decisions m indices (Suc idx) calls ds (revised @ [call], artificial, edited)
      else case ds of
        [] \<Rightarrow> Inl (EText ''index out of range'')
      | d # ds' \<Rightarrow>
          (case process_human_decision d call
              (case map_of (hm_interrupt_on m) (tc_name call) of Some c \<Rightarrow> c
               | None \<Rightarrow> \<lparr>ic_allowed = [], ic_description = [], ic_description_func = None,
                          ic_args_schema = None, ic_when = None\<rparr>) of
             Inl e \<Rightarrow> Inl e
           | Inr (passed, reply) \<Rightarrow>
               apply_decisions m indices (Suc idx) calls ds'
                 (revised @ [if de_type d = ''edit'' then call else passed],
                  artificial @ (case reply of None \<Rightarrow> [] | Some r \<Rightarrow> [r]),
                  if de_type d = ''edit'' then mput (tc_id call) (edited_entry passed) edited else edited)))"

definition apply_hitl_decisions ::
  "hitl_mw \<Rightarrow> message \<Rightarrow> nat list \<Rightarrow> decision list \<Rightarrow> goerr + gstate" where
  "apply_hitl_decisions m ai indices ds =
     (if length ds \<noteq> length indices then
        Inl (EText (''number of human decisions ('' @ show_nat (length ds)
          @ '') does not match number of hanging tool calls ('' @ show_nat (length indices) @ '')''))
      else
        rbind (apply_decisions m indices 0 (msg_tool_calls ai) ds ([], [], []))
          (\<lambda>(revised, artificial, edited).
             Inr [(''messages'', VMsgs (ai\<lparr>msg_tool_calls := revised\<rparr> # artificial)), (edited_key, VMap edited)]))"

definition clear_stale_edits :: "gstate \<Rightarrow> gstate option" where
  "clear_stale_edits state =
     (case map_of state edited_key of
        Some (VMap raw) \<Rightarrow> (if raw = [] then None else Some [(edited_key, VMap [])])
      | _ \<Rightarrow> None)"

subsection \<open>The two review modes\<close>

text \<open>\<open>AfterModel\<close>: a synchronous decision inside the model node; nothing in interrupt mode.\<close>

definition hitl_after_model :: "hitl_mw \<Rightarrow> gstate \<Rightarrow> goerr + gstate option" where
  "hitl_after_model m state =
     (case hm_decide m of
        None \<Rightarrow> Inr None
      | Some decide \<Rightarrow>
          (case reviewable_calls m state of
             None \<Rightarrow> Inr (clear_stale_edits state)
           | Some (ai, actions, configs, indices) \<Rightarrow>
               rbind (decide (actions, configs)) (\<lambda>ds. rbind (apply_hitl_decisions m ai indices ds) (\<lambda>upd. Inr (Some upd)))))"

text \<open>\<open>AfterModelNode\<close>, the body of the hitl node: it asks with the request and acts on the answer.\<close>

definition hitl_after_model_node :: "hitl_mw \<Rightarrow> gstate \<Rightarrow> node_prog" where
  "hitl_after_model_node m state =
     (case reviewable_calls m state of
        None \<Rightarrow> (case clear_stale_edits state of None \<Rightarrow> Return RNil | Some upd \<Rightarrow> Return (RState upd))
      | Some (ai, actions, configs, indices) \<Rightarrow>
          Ask (hitl_request_value actions configs) None
            (\<lambda>resp. case rbind (decode_hitl_response resp) (apply_hitl_decisions m ai indices) of
                      Inl e \<Rightarrow> Fail e
                    | Inr upd \<Rightarrow> Return (RState upd)))"

subsection \<open>Executing an edited call\<close>

definition edited_action_for :: "gstate \<Rightarrow> string \<Rightarrow> (string \<times> string) option" where
  "edited_action_for state call_id =
     (case map_of state edited_key of
        Some (VMap raw) \<Rightarrow>
          (case map_of raw call_id of
             Some (VMap e) \<Rightarrow>
               (let str = (\<lambda>k. case map_of e k of Some (VStr s) \<Rightarrow> s | _ \<Rightarrow> []) in
                if str ''name'' = [] then None else Some (str ''name'', str ''args''))
           | _ \<Rightarrow> None)
      | _ \<Rightarrow> None)"

definition default_edit_notice :: string where
  "default_edit_notice = ''Note: a human reviewer replaced this tool call before it ran. The call recorded in your message is the one you produced, not the one that executed. This was intentional and authorized. Do not re-issue your original call.''"

fun starts_with :: "string \<Rightarrow> string \<Rightarrow> bool" where
  "starts_with [] s = True"
| "starts_with (p # ps) [] = False"
| "starts_with (p # ps) (c # s) = (p = c \<and> starts_with ps s)"

fun contains_text :: "string \<Rightarrow> string \<Rightarrow> bool" where
  "contains_text [] p = (p = [])"
| "contains_text (c # s) p = (starts_with p (c # s) \<or> contains_text s p)"

definition edit_notice_text :: "hitl_mw \<Rightarrow> string \<Rightarrow> string \<Rightarrow> string \<Rightarrow> string" where
  "edit_notice_text m name args content =
     (let notice = (case hm_edit_notice m of None \<Rightarrow> default_edit_notice | Some t \<Rightarrow> t)
            @ '' Executed instead: '' @ name @ '' with arguments '' @ args @ ''.'';
          full = notice @ [CHR 0x0A, CHR 0x0A] @ ''Tool response:'' in
      if content = [] then notice
      else if contains_text content full then content
      else full @ [CHR 0x0A] @ content)"

definition wrap_hitl :: "hitl_mw \<Rightarrow> ('w, 's) tool_wrapper" where
  "wrap_hitl m h rq s =
     (case edited_action_for (rq_state rq) (tc_id (rq_call rq)) of
        None \<Rightarrow> h rq s
      | Some (name, args) \<Rightarrow>
          and_then (h (rq\<lparr>rq_call := \<lparr>tc_id = tc_id (rq_call rq), tc_name = name, tc_args = args\<rparr>\<rparr>) s)
            (\<lambda>r s'. (Ret (rbind r (\<lambda>msg.
               Inr (if msg_role msg \<noteq> ''tool'' \<or> hm_edit_notice m = Some [] then msg
                    else msg\<lparr>msg_content := edit_notice_text m name args (msg_content msg)\<rparr>))), s')))"

subsection \<open>What a review decides\<close>

text \<open>The reviewed calls with their decisions, in the order of the message.\<close>

fun decided :: "nat list \<Rightarrow> nat \<Rightarrow> tool_call list \<Rightarrow> decision list \<Rightarrow> (tool_call \<times> decision) list" where
  "decided indices idx [] ds = []"
| "decided indices idx (call # calls) ds =
     (if idx \<notin> set indices then decided indices (Suc idx) calls ds
      else case ds of [] \<Rightarrow> [] | d # ds' \<Rightarrow> (call, d) # decided indices (Suc idx) calls ds')"

definition closed_calls :: "(tool_call \<times> decision) list \<Rightarrow> tool_call list" where
  "closed_calls ps = map fst (filter (\<lambda>(c, d). de_type d = ''reject'' \<or> de_type d = ''respond'') ps)"

definition edits_of :: "(tool_call \<times> decision) list \<Rightarrow> (string \<times> tool_call) list" where
  "edits_of ps = List.map_filter (\<lambda>(c, d). if de_type d = ''edit'' then map_option (\<lambda>e. (tc_id c, e)) (de_edited d) else None) ps"

lemma decision_simps [simp]:
  "closed_calls [] = []" "edits_of [] = []"
  "closed_calls ((c, d) # ps) = (if de_type d = ''reject'' \<or> de_type d = ''respond'' then [c] else []) @ closed_calls ps"
  "edits_of ((c, d) # ps) =
     (if de_type d = ''edit'' then (case de_edited d of None \<Rightarrow> [] | Some e \<Rightarrow> [(tc_id c, e)]) else []) @ edits_of ps"
  by (auto simp: closed_calls_def edits_of_def map_filter_simps split: option.splits)

lemma process_human_decision_cases:
  assumes "process_human_decision d call c = Inr (passed, reply)"
  obtains (approve) "de_type d = ''approve''" "passed = call" "reply = None"
    | (edit) e where "de_type d = ''edit''" "de_edited d = Some e" "reply = None"
        "passed = \<lparr>tc_id = tc_id call, tc_name = tc_name e, tc_args = tc_args e\<rparr>"
    | (closed) r where "de_type d = ''reject'' \<or> de_type d = ''respond''" "passed = call" "reply = Some r" "answers call r" "msg_id r = []"
  using assms
  by (auto simp: process_human_decision_def error_tool_message_def tool_message_def answers_def
      split: if_splits option.splits)

definition put_edits :: "(string \<times> tool_call) list \<Rightarrow> gstate \<Rightarrow> gstate" where
  "put_edits es ed = foldl (\<lambda>ed (k, e). mput k (edited_entry e) ed) ed es"

lemma put_edits_simps [simp]:
  "put_edits [] ed = ed" "put_edits ((k, e) # es) ed = put_edits es (mput k (edited_entry e) ed)"
  "put_edits (es @ fs) ed = put_edits fs (put_edits es ed)"
  by (simp_all add: put_edits_def)

lemma edited_entry_id [simp]: "edited_entry \<lparr>tc_id = i, tc_name = tc_name e, tc_args = tc_args e\<rparr> = edited_entry e"
  by (simp add: edited_entry_def)

lemma apply_decisions_spec:
  assumes "apply_decisions m indices idx calls ds (rv, art, ed) = Inr (rv', art', ed')"
  shows "rv' = rv @ calls \<and>
    (\<exists>replies. art' = art @ replies \<and>
       list_all2 (\<lambda>c r. answers c r \<and> msg_id r = []) (closed_calls (decided indices idx calls ds)) replies) \<and>
    ed' = put_edits (edits_of (decided indices idx calls ds)) ed"
  using assms
proof (induction calls arbitrary: idx ds rv art ed)
  case (Cons call calls)
  show ?case
  proof (cases "idx \<in> set indices")
    case False
    with Cons.prems Cons.IH [of "Suc idx" ds "rv @ [call]" art ed] show ?thesis by simp
  next
    case True
    with Cons.prems obtain d ds' where ds: "ds = d # ds'" by (cases ds) auto
    let ?c = "case map_of (hm_interrupt_on m) (tc_name call) of Some c \<Rightarrow> c
               | None \<Rightarrow> \<lparr>ic_allowed = [], ic_description = [], ic_description_func = None,
                          ic_args_schema = None, ic_when = None\<rparr>"
    from True Cons.prems ds obtain passed reply where p: "process_human_decision d call ?c = Inr (passed, reply)"
      by (simp split: sum.splits) (metis surj_pair)
    let ?rv = "rv @ [if de_type d = ''edit'' then call else passed]"
    let ?art = "art @ (case reply of None \<Rightarrow> [] | Some r \<Rightarrow> [r])"
    let ?ed = "if de_type d = ''edit'' then mput (tc_id call) (edited_entry passed) ed else ed"
    from True Cons.prems ds p have "apply_decisions m indices (Suc idx) calls ds' (?rv, ?art, ?ed) = Inr (rv', art', ed')"
      by simp
    note rest = Cons.IH [OF this]
    from p show ?thesis
      by (cases rule: process_human_decision_cases) (use rest True ds in \<open>auto simp: list_all2_Cons1\<close>)
  qed
qed simp

lemma messages_reducer_revises:
  assumes "ids_distinct ms" and "ms = pre @ ai # rest" and "msg_id ai \<noteq> []"
    and "\<forall>m \<in> set news. msg_id m = []" and "msg_id ai' = msg_id ai"
  shows "messages_reducer (VMsgs ms) (VMsgs (ai' # news)) = Inr (VMsgs (pre @ ai' # rest @ news))"
proof -
  let ?s = "\<lparr>mg_merged = ms, mg_index = index_by_id 0 ms [], mg_remove = []\<rparr>"
  have "merge_inv ?s" using index_by_id_inv [OF assms(1)] .
  then have "map_of (index_by_id 0 ms []) (msg_id ai) = Some (length pre)"
    using assms(2,3) by (simp add: merge_inv_def nth_append)
  then have first: "merge_step (UMsg ai') ?s = Inr (?s\<lparr>mg_merged := pre @ ai' # rest\<rparr>)"
    using assms by simp
  have others: "\<forall>m \<in> set xs. msg_id m = [] \<Longrightarrow>
      rfold merge_step (map UMsg xs) s = Inr (s\<lparr>mg_merged := mg_merged s @ xs\<rparr>)" for xs s
    by (induction xs arbitrary: s) auto
  have "after_remove_all (map UMsg (ai' # news)) = None"
    unfolding after_remove_all_None by auto
  then have "merge_messages ms (map UMsg (ai' # news)) = Inr (pre @ ai' # rest @ news)"
    unfolding merge_messages_def using first others [OF assms(4)] by simp
  then show ?thesis by (simp add: messages_reducer_def as_message_slice_def as_message_updates_def)
qed

lemma last_ai_None: "last_ai ms = None \<longleftrightarrow> (\<forall>m \<in> set ms. msg_role m \<noteq> ''ai'')"
  by (induction ms) (auto split: option.splits)

lemma last_ai_split:
  "last_ai ms = Some (ai, rest) \<Longrightarrow> \<exists>pre. ms = pre @ ai # rest \<and> msg_role ai = ''ai'' \<and> (\<forall>m \<in> set rest. msg_role m \<noteq> ''ai'')"
proof (induction ms arbitrary: ai rest)
  case (Cons m ms)
  show ?case
  proof (cases "last_ai ms")
    case None
    with Cons.prems have "m = ai" "ms = rest" "msg_role ai = ''ai''" by (auto split: if_splits)
    with None show ?thesis by (intro exI [of _ "[]"]) (simp add: last_ai_None)
  next
    case (Some r)
    with Cons.prems Cons.IH [of ai rest] obtain pre where "ms = pre @ ai # rest" "msg_role ai = ''ai''"
        "\<forall>m \<in> set rest. msg_role m \<noteq> ''ai''"
      by auto
    then show ?thesis by (intro exI [of _ "m # pre"]) simp
  qed
qed simp

lemma apply_hitl_decisions_spec:
  assumes "apply_hitl_decisions m ai indices ds = Inr upd"
  obtains replies where
    "upd = [(''messages'', VMsgs (ai # replies)),
            (edited_key, VMap (put_edits (edits_of (decided indices 0 (msg_tool_calls ai) ds)) []))]"
    "list_all2 (\<lambda>c r. answers c r \<and> msg_id r = []) (closed_calls (decided indices 0 (msg_tool_calls ai) ds)) replies"
proof -
  from assms obtain rv art ed where "apply_decisions m indices 0 (msg_tool_calls ai) ds ([], [], []) = Inr (rv, art, ed)"
    and upd: "upd = [(''messages'', VMsgs (ai\<lparr>msg_tool_calls := rv\<rparr> # art)), (edited_key, VMap ed)]"
    by (auto simp: apply_hitl_decisions_def rbind_Inr_iff split: if_splits)
  from apply_decisions_spec [OF this(1)] that upd show ?thesis by auto
qed

lemma map_of_put_edits: "map_of (put_edits es ed) k =
    (case map_of (rev es) k of None \<Rightarrow> map_of ed k | Some e \<Rightarrow> Some (edited_entry e))"
  by (induction es arbitrary: ed) (auto split: option.splits prod.splits)

lemma edited_action_for_edits:
  assumes "map_of state edited_key = Some (VMap (put_edits es []))"
  shows "edited_action_for state k =
    (case map_of (rev es) k of Some e \<Rightarrow> if tc_name e = [] then None else Some (tc_name e, tc_args e) | None \<Rightarrow> None)"
  using assms by (auto simp: edited_action_for_def map_of_put_edits edited_entry_def Let_def split: option.splits)

lemma unanswered_after_replies:
  assumes "list_all2 answers cs replies"
  shows "unanswered_tool_calls (ms @ replies) =
    filter (\<lambda>c. tc_id c \<notin> tc_id ` set cs) (unanswered_tool_calls ms)"
proof -
  have tools: "\<forall>m \<in> set replies. msg_role m = ''tool''"
    using assms by (auto simp: list_all2_conv_all_nth answers_def in_set_conv_nth)
  have "map msg_tool_call_id replies = map tc_id cs"
    using assms by (auto simp: list_all2_conv_all_nth answers_def intro: nth_equalityI)
  from arg_cong [OF this, of set] have ids: "msg_tool_call_id ` set replies = tc_id ` set cs" by simp
  have "filter (\<lambda>m. msg_role m = ''tool'') replies = replies" using tools by (simp add: filter_id_conv)
  then show ?thesis
    using last_ai_append [of replies ms] tools ids
    by (auto simp: unanswered_tool_calls_def last_ai_and_tool_messages_def image_Un filter_filter
        split: option.splits intro!: filter_cong)
qed

lemma reviewable_last_ai:
  "reviewable_calls m state = Some (ai, actions, configs, indices) \<Longrightarrow> \<exists>rest. last_ai (messages_of state) = Some (ai, rest)"
  by (auto simp: reviewable_calls_def Let_def split: option.splits if_splits)

text \<open>
  C30: a review in interrupt mode pauses with the request and, resumed with as many admissible
  decisions, leaves the model's message and every earlier one in place: rejected and answered calls
  get one tool message each, every other call stays pending, and the recorded edits are those of this
  review alone.
\<close>

theorem review_answers_rejections_only:
  assumes "reviewable_calls m state = Some (ai, actions, configs, indices)" and "hm_decide m = None"
    and "decode_hitl_response resp = Inr ds" and "apply_hitl_decisions m ai indices ds = Inr upd"
    and "ids_distinct (messages_of state)" and "msg_id ai \<noteq> []"
    and "nodes ''hitl'' = Some (\<lambda>attempt st. hitl_after_model_node m st)"
  shows "let ps = decided indices 0 (msg_tool_calls ai) ds in
    run_node nodes ''hitl'' ns state [] attempt =
      Interrupted [Interrupt (hitl_request_value actions configs) ''hitl-1'' ns None] [] \<and>
    run_node nodes ''hitl'' ns state [resp] attempt = Returned (RState upd) \<and>
    (\<exists>replies. list_all2 answers (closed_calls ps) replies \<and>
       messages_reducer (VMsgs (messages_of state)) (VMsgs (messages_of upd)) = Inr (VMsgs (messages_of state @ replies)) \<and>
       unanswered_tool_calls (messages_of state @ replies) =
         filter (\<lambda>c. tc_id c \<notin> tc_id ` set (closed_calls ps)) (unanswered_tool_calls (messages_of state))) \<and>
    (\<forall>k. edited_action_for upd k =
       (case map_of (rev (edits_of ps)) k of
          Some e \<Rightarrow> if tc_name e = [] then None else Some (tc_name e, tc_args e) | None \<Rightarrow> None))"
proof -
  let ?ps = "decided indices 0 (msg_tool_calls ai) ds"
  from assms(4) obtain replies where upd: "upd = [(''messages'', VMsgs (ai # replies)), (edited_key, VMap (put_edits (edits_of ?ps) []))]"
    and replies: "list_all2 (\<lambda>c r. answers c r \<and> msg_id r = []) (closed_calls ?ps) replies"
    by (rule apply_hitl_decisions_spec)
  from reviewable_last_ai [OF assms(1)] obtain pre rest where ms: "messages_of state = pre @ ai # rest"
    using last_ai_split by blast
  have ids: "\<forall>r \<in> set replies. msg_id r = []" and answered: "list_all2 answers (closed_calls ?ps) replies"
    using replies by (auto simp: list_all2_conv_all_nth in_set_conv_nth)
  have posted: "messages_of upd = ai # replies" by (simp add: upd messages_of_def)
  have "messages_reducer (VMsgs (messages_of state)) (VMsgs (messages_of upd)) = Inr (VMsgs (messages_of state @ replies))"
    using messages_reducer_revises [OF assms(5) ms assms(6) ids refl] by (simp add: posted ms)
  moreover have "edited_action_for upd k =
       (case map_of (rev (edits_of ?ps)) k of
          Some e \<Rightarrow> if tc_name e = [] then None else Some (tc_name e, tc_args e) | None \<Rightarrow> None)" for k
    by (rule edited_action_for_edits) (simp add: upd edited_key_def)
  moreover have "show_nat 1 = ''1''" by code_simp
  ultimately show ?thesis
    using unanswered_after_replies [OF answered] answered assms(1-4,7)
    by (auto simp: Let_def run_node_def hitl_after_model_node_def interrupt_call_def interrupt_id_def)
qed

definition demo_hitl :: hitl_mw where
  "demo_hitl = new_hitl [(''echo'', \<lparr>ic_allowed = [''edit'', ''reject''], ic_description = ''check'',
     ic_description_func = None, ic_args_schema = None, ic_when = None\<rparr>)] None"

definition demo_review_state :: gstate where
  "demo_review_state = [(''messages'', VMsgs [demo_ai [demo_call ''a'' ''x'', demo_call ''b'' ''y'']])]"

definition demo_response :: gval where
  "demo_response = VMap [(''decisions'', VList
     [VMap [(''type'', VStr ''edit''), (''edited_action'', VMap [(''name'', VStr ''echo''), (''args'', VStr ''z'')])],
      VMap [(''type'', VStr ''reject'')]])]"

lemma review_answers_rejections_only_witness:
  "\<exists>upd. run_node [''hitl'' \<mapsto> \<lambda>attempt st. hitl_after_model_node demo_hitl st] ''hitl'' [] demo_review_state [demo_response] 0
       = Returned (RState upd) \<and>
     edited_action_for upd ''a'' = Some (''echo'', ''z'') \<and> edited_action_for upd ''b'' = None"
proof -
  let ?ai = "demo_ai [demo_call ''a'' ''x'', demo_call ''b'' ''y'']"
  let ?ds = "[\<lparr>de_type = ''edit'', de_edited = Some \<lparr>tc_id = [], tc_name = ''echo'', tc_args = ''z''\<rparr>, de_message = []\<rparr>,
              \<lparr>de_type = ''reject'', de_edited = None, de_message = []\<rparr>]"
  have msgs: "messages_of demo_review_state = [?ai]" by (simp add: demo_review_state_def messages_of_def)
  have "\<exists>actions configs. reviewable_calls demo_hitl demo_review_state = Some (?ai, actions, configs, [0, 1])"
    by (simp add: reviewable_calls_def msgs Let_def demo_ai_def demo_call_def reviewed_def demo_hitl_def new_hitl_def)
  then obtain actions configs where
    reviewable: "reviewable_calls demo_hitl demo_review_state = Some (?ai, actions, configs, [0, 1])" by blast
  have decode: "decode_hitl_response demo_response = Inr ?ds"
    by (simp add: demo_response_def decode_hitl_response_def decode_decision_def Let_def)
  have "\<exists>upd. apply_hitl_decisions demo_hitl ?ai [0, 1] ?ds = Inr upd"
    by (simp add: apply_hitl_decisions_def demo_ai_def demo_hitl_def new_hitl_def demo_call_def process_human_decision_def)
  then obtain upd where upd: "apply_hitl_decisions demo_hitl ?ai [0, 1] ?ds = Inr upd" by blast
  have rest: "hm_decide demo_hitl = None" "ids_distinct (messages_of demo_review_state)" "msg_id ?ai \<noteq> []"
    by (simp_all add: demo_hitl_def new_hitl_def msgs ids_distinct_def demo_ai_def)
  show ?thesis
    using review_answers_rejections_only [OF reviewable rest(1) decode upd rest(2,3),
        of "[''hitl'' \<mapsto> \<lambda>attempt st. hitl_after_model_node demo_hitl st]" "[]" 0]
    by (auto simp: Let_def demo_ai_def demo_call_def)
qed

subsection \<open>What an edit executes\<close>

lemma wrap_hitl_cases:
  assumes "wrap_hitl m h rq s = (Ret (Inr msg), s')"
  obtains (passed) "h rq s = (Ret (Inr msg), s')"
    | (edited) name args reply where
        "h (rq\<lparr>rq_call := \<lparr>tc_id = tc_id (rq_call rq), tc_name = name, tc_args = args\<rparr>\<rparr>) s = (Ret (Inr reply), s')"
        "msg = reply \<or> (\<exists>content. msg = reply\<lparr>msg_content := content\<rparr>)"
proof (cases "edited_action_for (rq_state rq) (tc_id (rq_call rq))")
  case (Some p)
  obtain name args where p: "p = (name, args)" by fastforce
  from assms Some p obtain r where
      "h (rq\<lparr>rq_call := \<lparr>tc_id = tc_id (rq_call rq), tc_name = name, tc_args = args\<rparr>\<rparr>) s = (Ret r, s')"
      "rbind r (\<lambda>reply. Inr (if msg_role reply \<noteq> ''tool'' \<or> hm_edit_notice m = Some [] then reply
          else reply\<lparr>msg_content := edit_notice_text m name args (msg_content reply)\<rparr>)) = Inr msg"
    by (auto simp: wrap_hitl_def and_then_pure)
  then show ?thesis by (auto simp: rbind_Inr_iff split: if_splits intro: edited)
qed (use assms passed in \<open>simp add: wrap_hitl_def\<close>)

lemma wrap_hitl_answers:
  assumes "answering h"
  shows "answering (wrap_hitl m h)"
proof (rule answeringI)
  fix rq s msg s'
  assume "wrap_hitl m h rq s = (Ret (Inr msg), s')"
  then show "answers (rq_call rq) msg"
    by (cases rule: wrap_hitl_cases) (auto dest!: answeringD [OF assms] simp: answers_def)
qed

interpretation hitl_mw: answering_wrapper "wrap_hitl m" for m
  by unfold_locales (rule wrap_hitl_answers)

text \<open>
  C31: a call with a recorded edit to a tool that is bound - the tool the model called with other
  arguments, or another tool - executes that tool with the edited arguments under the model's call ID, and
  its reply, named for the edited tool, opens with the notice. An error of the tool is converted as one of
  the model's call.
\<close>

theorem edits_replace_the_execution:
  assumes "tn_wrap n = Some (dispatch_through_middleware [wrap_hitl m])"
    and "edited_action_for state (tc_id call) = Some (name, args)" and "map_of (tn_by_name n) name = Some t"
  shows "run_one n state call w =
    and_then (tl_invoke t args w) (\<lambda>r w'. (Ret (case r of
        Inl e \<Rightarrow> convert_tool_error n call e
      | Inr res \<Rightarrow>
          Inr ((tool_message (tc_id call)
                 (if hm_edit_notice m = Some [] then tr_content res
                  else edit_notice_text m name args (tr_content res)))\<lparr>msg_name := name\<rparr>, tr_command res)), w'))"
proof -
  obtain x w' where x: "tl_invoke t args w = (x, w')" by fastforce
  show ?thesis
  proof (cases x)
    case (Ret r)
    with assms x show ?thesis
      by (cases r) (auto simp: run_one_def wrap_hitl_def next_call_def execute_def tool_message_def)
  qed (use assms x in \<open>auto simp: run_one_def wrap_hitl_def next_call_def execute_def\<close>)
qed

lemma edits_replace_the_execution_witness:
  "run_one (demo_node [wrap_hitl (demo_hitl\<lparr>hm_edit_notice := Some []\<rparr>)])
     [(edited_key, VMap [(''a'', VMap [(''name'', VStr ''echo''), (''args'', VStr ''z'')])])] (demo_call ''a'' ''x'') 0 =
   (Ret (Inr ((tool_message ''a'' ''z'')\<lparr>msg_name := ''echo''\<rparr>, None)), 1)"
proof -
  let ?n = "demo_node [wrap_hitl (demo_hitl\<lparr>hm_edit_notice := Some []\<rparr>)]"
  let ?state = "[(edited_key, VMap [(''a'', VMap [(''name'', VStr ''echo''), (''args'', VStr ''z'')])])]"
  have "tn_wrap ?n = Some (dispatch_through_middleware [wrap_hitl (demo_hitl\<lparr>hm_edit_notice := Some []\<rparr>)])"
    and "edited_action_for ?state (tc_id (demo_call ''a'' ''x'')) = Some (''echo'', ''z'')"
    and "map_of (tn_by_name ?n) ''echo'' = Some demo_tool"
    by (simp_all add: demo_node_def edited_action_for_def demo_call_def)
  from edits_replace_the_execution [OF this, of 0] show ?thesis
    by (simp add: demo_tool_def demo_call_def)
qed

text \<open>
  An edit that names another tool, which is not bound, executes nothing: it is an error, and the node's own
  strategy converts it like any other.
\<close>

lemma edit_to_unbound_tool:
  assumes "tn_wrap n = Some (dispatch_through_middleware [wrap_hitl m])"
    and "edited_action_for state (tc_id call) = Some (name, args)" and "name \<noteq> tc_name call" and "map_of (tn_by_name n) name = None"
  shows "run_one n state call w =
    (Ret (convert_tool_error n call (EText (''reviewer edited tool call '' @ go_quote (tc_id call) @ '' to ''
       @ go_quote name @ '', which is not an available tool. Available tools: [''
       @ join_with '' '' (tool_names n) @ '']''))), w)"
  using assms by (simp add: run_one_def wrap_hitl_def next_call_def)

text \<open>
  When the model's message carries no ID, the revised message a synchronous review appends does
  not replace it: the history holds the message twice, the copy after the original.
\<close>

theorem decide_mode_duplicates_unidentified_message:
  assumes "reviewable_calls m state = Some (ai, actions, configs, indices)" and "hm_decide m = Some decide"
    and "decide (actions, configs) = Inr ds" and "apply_hitl_decisions m ai indices ds = Inr upd"
    and "msg_id ai = []" and "messages_of state = history @ [ai]"
  shows "hitl_after_model m state = Inr (Some upd) \<and>
    (\<exists>replies. messages_of upd = ai # replies \<and>
       messages_reducer (VMsgs history) (VMsgs (ai # messages_of upd)) = Inr (VMsgs (history @ [ai, ai] @ replies)))"
proof -
  from assms(4) obtain replies where upd: "upd = [(''messages'', VMsgs (ai # replies)),
      (edited_key, VMap (put_edits (edits_of (decided indices 0 (msg_tool_calls ai) ds)) []))]"
    and replies: "list_all2 (\<lambda>c r. answers c r \<and> msg_id r = []) (closed_calls (decided indices 0 (msg_tool_calls ai) ds)) replies"
    by (rule apply_hitl_decisions_spec)
  have posted: "messages_of upd = ai # replies" by (simp add: upd messages_of_def)
  have "\<forall>r \<in> set (ai # ai # replies). msg_id r = []"
    using replies assms(5) by (auto simp: list_all2_conv_all_nth in_set_conv_nth)
  moreover have "\<forall>r \<in> set xs. msg_id r = [] \<Longrightarrow>
      rfold merge_step (map UMsg xs) s = Inr (s\<lparr>mg_merged := mg_merged s @ xs\<rparr>)" for xs s
    by (induction xs arbitrary: s) auto
  ultimately have "rfold merge_step (map UMsg (ai # ai # replies)) s = Inr (s\<lparr>mg_merged := mg_merged s @ ai # ai # replies\<rparr>)" for s
    by blast
  moreover have "after_remove_all (map UMsg (ai # ai # replies)) = None" unfolding after_remove_all_None by auto
  ultimately have "messages_reducer (VMsgs history) (VMsgs (ai # ai # replies)) = Inr (VMsgs (history @ [ai, ai] @ replies))"
    by (simp add: messages_reducer_def as_message_slice_def as_message_updates_def merge_messages_def del: rfold.simps list.map)
  with assms posted show ?thesis by (simp add: hitl_after_model_def)
qed

lemma decide_mode_duplicates_unidentified_message_witness:
  "\<exists>replies. messages_reducer (VMsgs []) (VMsgs ((demo_ai [demo_call ''a'' ''x''])\<lparr>msg_id := []\<rparr> #
      (demo_ai [demo_call ''a'' ''x''])\<lparr>msg_id := []\<rparr> # replies)) =
    Inr (VMsgs ([(demo_ai [demo_call ''a'' ''x''])\<lparr>msg_id := []\<rparr>, (demo_ai [demo_call ''a'' ''x''])\<lparr>msg_id := []\<rparr>] @ replies))"
proof -
  let ?ai = "(demo_ai [demo_call ''a'' ''x''])\<lparr>msg_id := []\<rparr>"
  let ?ds = "[\<lparr>de_type = ''reject'', de_edited = None, de_message = []\<rparr>]"
  let ?m = "demo_hitl\<lparr>hm_decide := Some (\<lambda>req. Inr ?ds)\<rparr>"
  let ?state = "[(''messages'', VMsgs [?ai])]"
  have msgs: "messages_of ?state = [] @ [?ai]" by (simp add: messages_of_def)
  have "\<exists>actions configs. reviewable_calls ?m ?state = Some (?ai, actions, configs, [0])"
    by (simp add: reviewable_calls_def messages_of_def Let_def demo_ai_def demo_call_def reviewed_def demo_hitl_def new_hitl_def)
  then obtain actions configs where reviewable: "reviewable_calls ?m ?state = Some (?ai, actions, configs, [0])" by blast
  have "\<exists>upd. apply_hitl_decisions ?m ?ai [0] ?ds = Inr upd"
    by (simp add: apply_hitl_decisions_def demo_ai_def demo_hitl_def new_hitl_def demo_call_def process_human_decision_def)
  then obtain upd where upd: "apply_hitl_decisions ?m ?ai [0] ?ds = Inr upd" by blast
  have "hm_decide ?m = Some (\<lambda>req. Inr ?ds)" "msg_id ?ai = []" by simp_all
  from decide_mode_duplicates_unidentified_message [OF reviewable this(1) refl upd this(2) msgs] show ?thesis by auto
qed

subsection \<open>Limits (model_call_limit.go)\<close>

text \<open>An absent or foreign count reads as zero. A nil limit is \<open>None\<close>.\<close>

definition int_from_state :: "gstate \<Rightarrow> string \<Rightarrow> int" where
  "int_from_state state key = (case map_of state key of Some (VInt i) \<Rightarrow> i | _ \<Rightarrow> 0)"

record model_call_limit =
  ml_thread_limit :: "int option"
  ml_run_limit :: "int option"
  ml_exit :: string

definition thread_model_key :: string where "thread_model_key = ''thread_model_call_count''"
definition run_model_key :: string where "run_model_key = ''run_model_call_count''"

definition new_model_call_limit :: "int option \<Rightarrow> int option \<Rightarrow> string \<Rightarrow> goerr + model_call_limit" where
  "new_model_call_limit thread_limit run_limit exit =
     (if thread_limit = None \<and> run_limit = None then
        Inl (EText ''at least one limit must be specified (thread_limit or run_limit)'')
      else let exit = (if exit = [] then ''end'' else exit) in
        if exit \<noteq> ''end'' \<and> exit \<noteq> ''error'' then
          Inl (EText (''invalid exit_behavior: '' @ exit @ ''. Must be '' @ [CHR 0x27] @ ''end'' @ [CHR 0x27]
            @ '' or '' @ [CHR 0x27] @ ''error'' @ [CHR 0x27]))
        else Inr \<lparr>ml_thread_limit = thread_limit, ml_run_limit = run_limit, ml_exit = exit\<rparr>)"

definition limit_reached :: "int option \<Rightarrow> int \<Rightarrow> bool" where
  "limit_reached limit count = (case limit of None \<Rightarrow> False | Some l \<Rightarrow> l \<le> count)"

definition limit_exceeded_message :: "int \<Rightarrow> int \<Rightarrow> int option \<Rightarrow> int option \<Rightarrow> string" where
  "limit_exceeded_message thread_count run_count thread_limit run_limit =
     (let part = (\<lambda>label limit count. case limit of
                    Some l \<Rightarrow> if l \<le> count then [label @ '' limit ('' @ show_int count @ ''/'' @ show_int l @ '')''] else []
                  | None \<Rightarrow> []) in
      ''Model call limits exceeded: ''
        @ join_with '', '' (part ''thread'' thread_limit thread_count @ part ''run'' run_limit run_count))"

definition ai_message :: "string \<Rightarrow> message" where
  "ai_message content =
     \<lparr>msg_role = ''ai'', msg_content = content, msg_name = [], msg_id = [], msg_tool_call_id = [],
      msg_tool_calls = [], msg_invalid_calls = [], msg_extra = []\<rparr>"

text \<open>\<open>BeforeModel\<close>: nothing, an error, or a jump with an update.\<close>

definition limit_before_model :: "model_call_limit \<Rightarrow> gstate \<Rightarrow> goerr + (string \<times> gstate) option" where
  "limit_before_model m state =
     (let tc = int_from_state state thread_model_key; rc = int_from_state state run_model_key in
      if \<not> limit_reached (ml_thread_limit m) tc \<and> \<not> limit_reached (ml_run_limit m) rc then Inr None
      else if ml_exit m = ''error'' then
        Inl (EText (limit_exceeded_message tc rc (ml_thread_limit m) (ml_run_limit m)))
      else Inr (Some (''end'',
        [(''messages'', VMsgs [ai_message (limit_exceeded_message tc rc (ml_thread_limit m) (ml_run_limit m))])])))"

definition limit_after_model :: "gstate \<Rightarrow> gstate" where
  "limit_after_model state =
     [(thread_model_key, VInt (int_from_state state thread_model_key + 1)),
      (run_model_key, VInt (int_from_state state run_model_key + 1))]"

text \<open>A model call after some other update of the state has been committed.\<close>

definition counted_call :: "gstate \<Rightarrow> gstate \<Rightarrow> gstate" where
  "counted_call upd state = (let s = mcopy state upd in mcopy s (limit_after_model s))"

text \<open>
  The two counts advance together with every model call, whatever is written between the calls,
  the input of a new turn included; so a run limit stops the model exactly when a thread limit of the
  same size would, and is never reset by a new run.
\<close>

theorem run_limit_counts_the_thread:
  assumes "int_from_state state thread_model_key = c" "int_from_state state run_model_key = c"
    and "\<forall>upd \<in> set upds. map_of upd thread_model_key = None \<and> map_of upd run_model_key = None"
  shows "let s = fold counted_call upds state; n = c + int (length upds) in
    int_from_state s thread_model_key = n \<and> int_from_state s run_model_key = n \<and>
    (limit_before_model \<lparr>ml_thread_limit = None, ml_run_limit = Some l, ml_exit = e\<rparr> s = Inr None \<longleftrightarrow> n < l) \<and>
    (limit_before_model \<lparr>ml_thread_limit = Some l, ml_run_limit = None, ml_exit = e\<rparr> s = Inr None \<longleftrightarrow> n < l)"
proof -
  have "int_from_state (fold counted_call upds state) thread_model_key = c + int (length upds) \<and>
      int_from_state (fold counted_call upds state) run_model_key = c + int (length upds)"
    using assms
  proof (induction upds arbitrary: state c)
    case (Cons upd upds)
    have "int_from_state (counted_call upd state) thread_model_key = c + 1"
      and "int_from_state (counted_call upd state) run_model_key = c + 1"
      using Cons.prems
      by (auto simp: counted_call_def Let_def int_from_state_def limit_after_model_def thread_model_key_def
          run_model_key_def map_add_def)
    from Cons.IH [OF this] Cons.prems(3) show ?case by simp
  qed simp
  then show ?thesis by (auto simp: Let_def limit_before_model_def limit_reached_def)
qed

lemma run_limit_counts_the_thread_witness:
  "limit_before_model \<lparr>ml_thread_limit = None, ml_run_limit = Some 2, ml_exit = ''end''\<rparr>
     (fold counted_call [[(''messages'', VMsgs [])], [(''messages'', VMsgs [])]] []) \<noteq> Inr None"
proof -
  let ?upds = "[[(''messages'', VMsgs [])], [(''messages'', VMsgs [])]]"
  have "int_from_state [] thread_model_key = 0" "int_from_state [] run_model_key = 0"
    and "\<forall>upd \<in> set ?upds. map_of upd thread_model_key = None \<and> map_of upd run_model_key = None"
    by (simp_all add: int_from_state_def thread_model_key_def run_model_key_def)
  from run_limit_counts_the_thread [OF this, where l = 2 and e = "''end''"] show ?thesis by (simp add: Let_def)
qed

subsection \<open>Limits on tool calls (tool_call_limit.go)\<close>

record tool_call_limit =
  tll_tool :: string
  tll_thread_limit :: "int option"
  tll_run_limit :: "int option"
  tll_exit :: string

definition thread_tool_key :: string where "thread_tool_key = ''thread_tool_call_count''"
definition run_tool_key :: string where "run_tool_key = ''run_tool_call_count''"

definition new_tool_call_limit :: "string \<Rightarrow> int option \<Rightarrow> int option \<Rightarrow> string \<Rightarrow> goerr + tool_call_limit" where
  "new_tool_call_limit name thread_limit run_limit exit =
     (if thread_limit = None \<and> run_limit = None then
        Inl (EText ''at least one limit must be specified (thread_limit or run_limit)'')
      else let exit = (if exit = [] then ''continue'' else exit) in
        if exit \<notin> {''continue'', ''error'', ''end''} then
          Inl (EText (''invalid exit_behavior: '' @ go_quote exit @ ''. Must be one of [continue error end]''))
        else case (thread_limit, run_limit) of
          (Some most, Some per_run) \<Rightarrow>
            (if most < per_run then
               Inl (EText (''run_limit ('' @ show_int per_run @ '') cannot exceed thread_limit ('' @ show_int most @ '')''))
             else Inr \<lparr>tll_tool = name, tll_thread_limit = thread_limit, tll_run_limit = run_limit, tll_exit = exit\<rparr>)
        | _ \<Rightarrow> Inr \<lparr>tll_tool = name, tll_thread_limit = thread_limit, tll_run_limit = run_limit, tll_exit = exit\<rparr>)"

definition count_key :: "tool_call_limit \<Rightarrow> string" where
  "count_key m = (if tll_tool m = [] then ''__all__'' else tll_tool m)"

definition limit_matches :: "tool_call_limit \<Rightarrow> tool_call \<Rightarrow> bool" where
  "limit_matches m call \<longleftrightarrow> tll_tool m = [] \<or> tc_name call = tll_tool m"

definition would_exceed :: "tool_call_limit \<Rightarrow> int \<Rightarrow> int \<Rightarrow> bool" where
  "would_exceed m tc rc \<longleftrightarrow>
     (case tll_thread_limit m of Some l \<Rightarrow> l < tc + 1 | None \<Rightarrow> False) \<or>
     (case tll_run_limit m of Some l \<Rightarrow> l < rc + 1 | None \<Rightarrow> False)"

fun separate_tool_calls ::
  "tool_call_limit \<Rightarrow> tool_call list \<Rightarrow> int \<Rightarrow> int \<Rightarrow> tool_call list \<times> tool_call list \<times> int \<times> int" where
  "separate_tool_calls m [] tc rc = ([], [], tc, rc)"
| "separate_tool_calls m (call # calls) tc rc =
     (if \<not> limit_matches m call then separate_tool_calls m calls tc rc
      else if would_exceed m tc rc then
        (let (allowed, blocked, tc', rc') = separate_tool_calls m calls tc rc in (allowed, call # blocked, tc', rc'))
      else
        (let (allowed, blocked, tc', rc') = separate_tool_calls m calls (tc + 1) (rc + 1)
         in (call # allowed, blocked, tc', rc')))"

definition counts_from_state :: "gstate \<Rightarrow> string \<Rightarrow> int gomap" where
  "counts_from_state state key =
     (case map_of state key of
        Some (VMap counts) \<Rightarrow> map (\<lambda>(k, v). (k, case v of VInt i \<Rightarrow> i | _ \<Rightarrow> 0)) counts
      | _ \<Rightarrow> [])"

definition tool_limit_message :: "string \<Rightarrow> string" where
  "tool_limit_message name =
     (if name \<noteq> [] then ''Tool call limit exceeded. Do not call '' @ [CHR 0x27] @ name @ [CHR 0x27] @ '' again.''
      else ''Tool call limit exceeded. Do not make additional tool calls.'')"

definition final_limit_message :: "int \<Rightarrow> int \<Rightarrow> tool_call_limit \<Rightarrow> string" where
  "final_limit_message tc rc m =
     (let part = (\<lambda>label limit count. case limit of
                    Some l \<Rightarrow> if l < count then [label @ '' limit exceeded ('' @ show_int count @ ''/'' @ show_int l @ '' calls)''] else []
                  | None \<Rightarrow> []) in
      (if tll_tool m = [] then ''Tool'' else [CHR 0x27] @ tll_tool m @ [CHR 0x27] @ '' tool'')
        @ '' call limit reached: ''
        @ join_with '' and '' (part ''thread'' (tll_thread_limit m) tc @ part ''run'' (tll_run_limit m) rc) @ ''.'')"

definition other_pending_tools :: "tool_call_limit \<Rightarrow> tool_call list \<Rightarrow> string list" where
  "other_pending_tools m calls =
     (if tll_tool m = [] then []
      else sort (remdups (filter (\<lambda>name. name \<noteq> tll_tool m) (map tc_name calls))))"

definition tool_limit_after_model :: "tool_call_limit \<Rightarrow> gstate \<Rightarrow> goerr + gstate option" where
  "tool_limit_after_model m state =
     (case last_ai (messages_of state) of
        None \<Rightarrow> Inr None
      | Some (ai, rest) \<Rightarrow>
          if msg_tool_calls ai = [] then Inr None
          else
            let threads = counts_from_state state thread_tool_key; runs = counts_from_state state run_tool_key;
                (allowed, blocked, tc, rc) = separate_tool_calls m (msg_tool_calls ai)
                   (mgetd threads (count_key m) 0) (mgetd runs (count_key m) 0);
                extra = int (length blocked);
                enc = (\<lambda>counts. VMap (map (\<lambda>(k, i). (k, VInt i)) counts));
                counts = [(thread_tool_key, enc (mput (count_key m) tc threads)),
                          (run_tool_key, enc (mput (count_key m) (rc + extra) runs))];
                replies = map (\<lambda>c. error_tool_message (tc_id c) (tc_name c) (tool_limit_message (tll_tool m))) blocked;
                final = final_limit_message (tc + extra) (rc + extra) m in
            if blocked = [] then (if allowed = [] then Inr None else Inr (Some counts))
            else if tll_exit m = ''error'' then Inl (EText final)
            else if tll_exit m = ''end'' then
              (if other_pending_tools m (msg_tool_calls ai) \<noteq> [] then
                 Inl (EText (''cannot end execution with other tool calls pending. Found calls to: ''
                   @ join_with '', '' (other_pending_tools m (msg_tool_calls ai))))
               else Inr (Some (counts @ [(''messages'', VMsgs (replies @ [ai_message final])), (''jump_to'', VStr ''end'')])))
            else Inr (Some (counts @ [(''messages'', VMsgs replies)])))"

lemma separate_blocked:
  "would_exceed m tc rc \<Longrightarrow> separate_tool_calls m calls tc rc = ([], filter (limit_matches m) calls, tc, rc)"
  by (induction calls) auto

lemma separate_spec:
  "\<exists>k \<le> length (filter (limit_matches m) calls).
     separate_tool_calls m calls tc rc =
       (take k (filter (limit_matches m) calls), drop k (filter (limit_matches m) calls), tc + int k, rc + int k) \<and>
     (k < length (filter (limit_matches m) calls) \<longrightarrow> would_exceed m (tc + int k) (rc + int k)) \<and>
     (0 < k \<longrightarrow> \<not> would_exceed m (tc + int k - 1) (rc + int k - 1))"
proof (induction calls arbitrary: tc rc)
  case (Cons call calls)
  show ?case
  proof (cases "limit_matches m call")
    case False
    with Cons show ?thesis by simp
  next
    case match: True
    show ?thesis
    proof (cases "would_exceed m tc rc")
      case True
      with match separate_blocked [OF True] show ?thesis by (intro exI [of _ 0]) simp
    next
      case False
      from Cons.IH [of "tc + 1" "rc + 1"] obtain k where k: "k \<le> length (filter (limit_matches m) calls)"
        "separate_tool_calls m calls (tc + 1) (rc + 1) =
          (take k (filter (limit_matches m) calls), drop k (filter (limit_matches m) calls), tc + 1 + int k, rc + 1 + int k)"
        "k < length (filter (limit_matches m) calls) \<longrightarrow> would_exceed m (tc + 1 + int k) (rc + 1 + int k)"
        "0 < k \<longrightarrow> \<not> would_exceed m (tc + 1 + int k - 1) (rc + 1 + int k - 1)"
        by blast
      with match False show ?thesis by (intro exI [of _ "Suc k"]) (cases "k = 0"; simp add: algebra_simps)
    qed
  qed
qed simp

lemma limit_replies_answer:
  "list_all2 answers cs (map (\<lambda>c. error_tool_message (tc_id c) (tc_name c) content) cs)"
  by (simp add: list_all2_map2 list.rel_refl)

text \<open>
  C32: the limit on a tool, as long as the run goes on, lets the first calls of a message through until a
  limit is reached and blocks the rest: what it lets through never takes a count past its limit, every
  blocked call is answered, and all others are still there for the tools node. The run goes on when the
  exit behaviour is to continue, and under the two others when nothing is blocked; where the exit
  behaviour ends the run, the calls let through are not executed.
\<close>

theorem tool_limit_blocks_the_excess:
  assumes "last_ai (messages_of state) = Some (ai, rest)" and "tool_limit_after_model m state = Inr (Some upd)"
    and "map_of upd ''jump_to'' = None"
  shows "let matching = filter (limit_matches m) (msg_tool_calls ai);
      tc = mgetd (counts_from_state state thread_tool_key) (count_key m) 0;
      rc = mgetd (counts_from_state state run_tool_key) (count_key m) 0 in
    \<exists>k \<le> length matching.
      (\<forall>l. tll_thread_limit m = Some l \<and> tc \<le> l \<longrightarrow> tc + int k \<le> l) \<and>
      (\<forall>l. tll_run_limit m = Some l \<and> rc \<le> l \<longrightarrow> rc + int k \<le> l) \<and>
      (k < length matching \<longrightarrow> would_exceed m (tc + int k) (rc + int k) \<and> tll_exit m \<noteq> ''error'' \<and> tll_exit m \<noteq> ''end'') \<and>
      mgetd (counts_from_state upd thread_tool_key) (count_key m) 0 = tc + int k \<and>
      mgetd (counts_from_state upd run_tool_key) (count_key m) 0 = rc + int (length matching) \<and>
      list_all2 answers (drop k matching) (messages_of upd) \<and>
      unanswered_tool_calls (messages_of state @ messages_of upd) =
        filter (\<lambda>c. tc_id c \<notin> tc_id ` set (drop k matching)) (unanswered_tool_calls (messages_of state))"
proof -
  let ?matching = "filter (limit_matches m) (msg_tool_calls ai)"
  let ?tc = "mgetd (counts_from_state state thread_tool_key) (count_key m) 0"
  let ?rc = "mgetd (counts_from_state state run_tool_key) (count_key m) 0"
  let ?enc = "\<lambda>counts. VMap (map (\<lambda>(k, i). (k, VInt i)) counts)"
  from separate_spec [of m "msg_tool_calls ai" ?tc ?rc] obtain k where k: "k \<le> length ?matching"
    and sep: "separate_tool_calls m (msg_tool_calls ai) ?tc ?rc = (take k ?matching, drop k ?matching, ?tc + int k, ?rc + int k)"
    and hit: "k < length ?matching \<longrightarrow> would_exceed m (?tc + int k) (?rc + int k)"
    and below: "0 < k \<longrightarrow> \<not> would_exceed m (?tc + int k - 1) (?rc + int k - 1)"
    by blast
  let ?replies = "map (\<lambda>c. error_tool_message (tc_id c) (tc_name c) (tool_limit_message (tll_tool m))) (drop k ?matching)"
  let ?threads = "mput (count_key m) (?tc + int k) (counts_from_state state thread_tool_key)"
  let ?runs = "mput (count_key m) (?rc + int k + int (length (drop k ?matching))) (counts_from_state state run_tool_key)"
  have upd: "upd = [(thread_tool_key, ?enc ?threads), (run_tool_key, ?enc ?runs)]
      @ (if drop k ?matching = [] then [] else [(''messages'', VMsgs ?replies)])"
    and mode: "drop k ?matching \<noteq> [] \<longrightarrow> tll_exit m \<noteq> ''error'' \<and> tll_exit m \<noteq> ''end''"
    using assms by (auto simp: tool_limit_after_model_def sep Let_def map_of_append split: if_splits option.splits)
  have posted: "messages_of upd = ?replies"
    by (auto simp: upd messages_of_def thread_tool_key_def run_tool_key_def)
  have reread: "counts_from_state upd' key = counts" if "map_of upd' key = Some (?enc counts)" for upd' key counts
    using that by (simp add: counts_from_state_def comp_def case_prod_beta)
  have "counts_from_state upd thread_tool_key = ?threads" "counts_from_state upd run_tool_key = ?runs"
    by (rule reread, simp add: upd thread_tool_key_def run_tool_key_def)+
  moreover have "\<forall>l. tll_thread_limit m = Some l \<and> ?tc \<le> l \<longrightarrow> ?tc + int k \<le> l"
      "\<forall>l. tll_run_limit m = Some l \<and> ?rc \<le> l \<longrightarrow> ?rc + int k \<le> l"
    using below by (cases "k = 0"; auto simp: would_exceed_def)+
  ultimately show ?thesis
    unfolding Let_def using k hit mode posted limit_replies_answer unanswered_after_replies [OF limit_replies_answer]
    by (intro exI [of _ k]) (simp add: algebra_simps of_nat_diff)
qed

lemma tool_limit_blocks_the_excess_witness:
  "\<exists>upd. tool_limit_after_model \<lparr>tll_tool = [], tll_thread_limit = Some 1, tll_run_limit = None, tll_exit = ''continue''\<rparr>
       demo_review_state = Inr (Some upd) \<and>
     unanswered_tool_calls (messages_of demo_review_state @ messages_of upd) = [demo_call ''a'' ''x'']"
proof -
  let ?m = "\<lparr>tll_tool = [], tll_thread_limit = Some 1, tll_run_limit = None, tll_exit = ''continue''\<rparr>"
  let ?ai = "demo_ai [demo_call ''a'' ''x'', demo_call ''b'' ''y'']"
  have ai: "last_ai (messages_of demo_review_state) = Some (?ai, [])"
    by (simp add: demo_review_state_def messages_of_def demo_ai_def)
  have calls: "msg_tool_calls ?ai = [demo_call ''a'' ''x'', demo_call ''b'' ''y'']" by (simp add: demo_ai_def)
  have zero: "counts_from_state demo_review_state key = []" if "key \<noteq> ''messages''" for key
    using that by (simp add: counts_from_state_def demo_review_state_def)
  have keys: "thread_tool_key \<noteq> ''messages''" "run_tool_key \<noteq> ''messages''"
    by (simp_all add: thread_tool_key_def run_tool_key_def)
  have pending: "unanswered_tool_calls (messages_of demo_review_state) = [demo_call ''a'' ''x'', demo_call ''b'' ''y'']"
    by (simp add: unanswered_tool_calls_def last_ai_and_tool_messages_def ai calls)
  have "\<exists>upd. tool_limit_after_model ?m demo_review_state = Inr (Some upd)"
    by (simp add: tool_limit_after_model_def ai calls Let_def limit_matches_def would_exceed_def zero keys split: prod.splits)
  then obtain upd where upd: "tool_limit_after_model ?m demo_review_state = Inr (Some upd)" by blast
  have "map_of upd ''jump_to'' = None"
    using upd by (auto simp: tool_limit_after_model_def ai calls Let_def thread_tool_key_def run_tool_key_def split: if_splits prod.splits)
  from tool_limit_blocks_the_excess [OF ai upd this] obtain k where k: "k \<le> 2" "int k \<le> 1"
      "k < 2 \<longrightarrow> would_exceed ?m (int k) (int k)"
      "unanswered_tool_calls (messages_of demo_review_state @ messages_of upd) =
        filter (\<lambda>c. tc_id c \<notin> tc_id ` set (drop k [demo_call ''a'' ''x'', demo_call ''b'' ''y''])) [demo_call ''a'' ''x'', demo_call ''b'' ''y'']"
    by (auto simp: Let_def calls limit_matches_def zero keys pending)
  then have "k = 1" by (cases k) (auto simp: would_exceed_def)
  with k(4) upd show ?thesis by (auto simp: demo_call_def)
qed

text \<open>
  With the exit behaviour \<open>end\<close> the calls that were let through are neither executed nor answered: the
  message that ends the run has no calls, so nothing counts as pending afterwards.
\<close>

lemma end_exit_strands_a_call:
  "case tool_limit_after_model \<lparr>tll_tool = [], tll_thread_limit = Some 1, tll_run_limit = None, tll_exit = ''end''\<rparr>
       demo_review_state of
     Inr (Some upd) \<Rightarrow>
       map_of upd ''jump_to'' = Some (VStr ''end'') \<and>
       unanswered_tool_calls (messages_of demo_review_state) = [demo_call ''a'' ''x'', demo_call ''b'' ''y''] \<and>
       unanswered_tool_calls (messages_of demo_review_state @ messages_of upd) = [] \<and>
       list_all (\<lambda>m. msg_tool_call_id m \<noteq> ''a'') (messages_of demo_review_state @ messages_of upd)
   | _ \<Rightarrow> False"
  by code_simp

end
