(* ===== verification/AgentLoop.thy ===== *)
theory AgentLoop
  imports AgentReview
begin

section \<open>The agent loop (langchain/agents/create_agent.go)\<close>

text \<open>
  The model node of an agent and the routing between it and the tools node. Middleware is a record of
  its optional hooks, functions of the state; the hooks around the model call thread the world, like
  those around a tool call. The chat model is a function of the messages it is sent. The response format
  is the one the agent was built with: its resolution per call, the binding of tools to the model,
  streaming and the response cache are left out. A structured response is the text of its arguments.
\<close>

subsection \<open>Middleware and requests\<close>

record mw_command =
  mwc_update :: gstate
  mwc_goto :: string
  mwc_resume :: gval
  mwc_graph :: string

record model_request =
  mq_messages :: "message list"
  mq_system :: "message option"
  mq_tools :: "string list"
  mq_state :: gstate

type_synonym 's model_handler = "model_request \<Rightarrow> 's \<Rightarrow> message list outcome \<times> 's"

record 'w agent_mw =
  mw_before_model_cmd :: "(gstate \<Rightarrow> goerr + mw_command option) option"
  mw_before_model :: "(gstate \<Rightarrow> goerr + gstate option) option"
  mw_after_model :: "(gstate \<Rightarrow> goerr + gstate option) option"
  mw_wrap_model :: "(('w \<times> mw_command list) model_handler \<Rightarrow> ('w \<times> mw_command list) model_handler) option"
  mw_wrap_model_result :: "(('w \<times> mw_command list) model_handler \<Rightarrow> model_request \<Rightarrow> 'w \<times> mw_command list
      \<Rightarrow> (message list \<times> mw_command option) outcome \<times> ('w \<times> mw_command list)) option"

text \<open>\<open>ToolStrategy\<close> with the forms of its \<open>HandleErrors\<close>, and the structured-output errors.\<close>

datatype handle_errors =
    HandleNil
  | HandleBool bool
  | HandleText string
  | HandleFunc "goerr \<Rightarrow> string"
  | HandleTypes "string list"
  | HandleOther

record tool_strategy =
  ts_names :: "string list"
  ts_content :: string
  ts_handle :: handle_errors

definition multiple_outputs_error :: "string list \<Rightarrow> goerr" where
  "multiple_outputs_error names =
     EText (''Model incorrectly returned multiple structured responses ('' @ join_with '', '' names
       @ '') when only one is expected.'')"

definition handle_structured_error :: "tool_strategy \<Rightarrow> goerr \<Rightarrow> string list \<Rightarrow> string option" where
  "handle_structured_error ts e type_names =
     (let template = ''Error: '' @ err_text e @ [CHR 0x0A] @ '' Please fix your mistakes.'' in
      case ts_handle ts of
        HandleNil \<Rightarrow> Some template
      | HandleBool b \<Rightarrow> (if b then Some template else None)
      | HandleText t \<Rightarrow> Some t
      | HandleFunc f \<Rightarrow> Some (f e)
      | HandleTypes names \<Rightarrow> (if list_ex (\<lambda>n. n \<in> set type_names) names then Some template else None)
      | HandleOther \<Rightarrow> None)"

subsection \<open>Structured output (detectStructuredOutput)\<close>

datatype structured_decision = SPass | SDone command | SRetry "message list"

definition structured_calls :: "string list \<Rightarrow> message \<Rightarrow> tool_call list" where
  "structured_calls bound m = filter (\<lambda>c. tc_name c \<in> set bound) (msg_tool_calls m)"

text \<open>
  \<open>bound\<close> are the names of the structured-output tools, \<open>provider\<close> parses a provider-native
  response. \<open>OutputToolBinding.Parse\<close> returns the arguments as they are and never fails.
\<close>

definition detect_structured_output ::
  "string list \<Rightarrow> tool_strategy option \<Rightarrow> (message \<Rightarrow> goerr + gval) option \<Rightarrow> string \<Rightarrow> message list
    \<Rightarrow> goerr + structured_decision" where
  "detect_structured_output bound strategy provider final news =
     (if news = [] \<or> msg_role (List.last news) \<noteq> ''ai'' then Inr SPass
      else
        let m = List.last news; matched = structured_calls bound m;
            done = (\<lambda>msgs v. SDone \<lparr>cmd_graph = [], cmd_update = [(''messages'', VMsgs msgs), (''structured_response'', v)],
                      cmd_resume = VNil, cmd_goto = [VStr final]\<rparr>);
            native = (case provider of
                        Some parse \<Rightarrow> (if msg_tool_calls m = [] then rbind (parse m) (\<lambda>v. Inr (done news v)) else Inr SPass)
                      | None \<Rightarrow> Inr SPass) in
        case strategy of
          None \<Rightarrow> native
        | Some ts \<Rightarrow>
            (case matched of
               [] \<Rightarrow> native
             | [call] \<Rightarrow>
                 (let content = (if ts_content ts \<noteq> [] then ts_content ts
                                 else ''Returned structured response via '' @ tc_name call @ ''.'') in
                  Inr (done (news @ [(tool_message (tc_id call) content)\<lparr>msg_name := tc_name call\<rparr>]) (VStr (tc_args call))))
             | _ \<Rightarrow>
                 (let e = multiple_outputs_error (map tc_name matched) in
                  case handle_structured_error ts e [''MultipleStructuredOutputsError''] of
                    Some t \<Rightarrow> Inr (SRetry (map (\<lambda>c. (tool_message (tc_id c) t)\<lparr>msg_name := tc_name c\<rparr>) matched))
                  | None \<Rightarrow> Inl e)))"

subsection \<open>Invalid tool calls (repairInvalidToolCalls)\<close>

definition repair_message :: "tool_call \<Rightarrow> message" where
  "repair_message call =
     (let name = (if tc_name call = [] then ''unknown'' else tc_name call) in
      error_tool_message (tc_id call) name
        (''Tool call '' @ name @ '' with id '' @ tc_id call
          @ '' could not be executed - arguments were malformed or truncated.''))"

text \<open>The IDs answered so far and the repairs, threaded through the calls of a message, then through
  the messages.\<close>

fun repair_calls :: "tool_call list \<Rightarrow> string list \<times> message list \<Rightarrow> string list \<times> message list" where
  "repair_calls [] acc = acc"
| "repair_calls (call # calls) (answered, repairs) =
     (if tc_id call = [] \<or> tc_id call \<in> set answered then repair_calls calls (answered, repairs)
      else repair_calls calls (tc_id call # answered, repairs @ [repair_message call]))"

definition answer_ids :: "message \<Rightarrow> string list" where
  "answer_ids m = (if msg_role m = ''tool'' \<and> msg_tool_call_id m \<noteq> [] then [msg_tool_call_id m] else [])"

fun repair_messages :: "message list \<Rightarrow> string list \<times> message list \<Rightarrow> string list \<times> message list" where
  "repair_messages [] acc = acc"
| "repair_messages (m # ms) (answered, repairs) =
     repair_messages ms
       (if msg_role m = ''ai'' then repair_calls (msg_invalid_calls m) (answer_ids m @ answered, repairs)
        else (answer_ids m @ answered, repairs))"

definition repair_invalid_tool_calls :: "message list \<Rightarrow> message list \<Rightarrow> message list" where
  "repair_invalid_tool_calls history news =
     snd (repair_messages (history @ news) (concat (map answer_ids history), []))"

subsection \<open>The model node\<close>

definition resolve_jump_target :: "string \<Rightarrow> string \<Rightarrow> string" where
  "resolve_jump_target jump final =
     (if jump = ''end'' \<or> jump = [] then final
      else if jump = ''model'' then ''model''
      else if jump = ''tools'' then ''tools''
      else jump)"

definition pop_jump_to :: "gstate \<Rightarrow> string option \<times> gstate" where
  "pop_jump_to upd =
     (case map_of upd ''jump_to'' of
        None \<Rightarrow> (None, upd)
      | Some v \<Rightarrow> ((case v of VStr j \<Rightarrow> (if j = [] then None else Some j) | _ \<Rightarrow> None), mdel ''jump_to'' upd))"

definition goto_command :: "gstate \<Rightarrow> string \<Rightarrow> node_result" where
  "goto_command upd target =
     RCommand \<lparr>cmd_graph = [], cmd_update = upd, cmd_resume = VNil, cmd_goto = [VStr target]\<rparr>"

text \<open>
  The before-model hooks: a jump ends the node with the update of the hook that jumps; messages only
  change the view the model is sent; everything else reaches the state and the node's update.
\<close>

fun before_model_hooks ::
  "string \<Rightarrow> 'w agent_mw list \<Rightarrow> gstate \<times> message list \<times> gstate
    \<Rightarrow> goerr + (node_result + gstate \<times> message list \<times> gstate)" where
  "before_model_hooks final [] acc = Inr (Inr acc)"
| "before_model_hooks final (mw # mws) (state, local, base) =
     (case mw_before_model_cmd mw of
        Some hook \<Rightarrow>
          rbind (hook state) (\<lambda>r. case r of
             Some c \<Rightarrow> Inr (Inl (goto_command (mwc_update c) (resolve_jump_target (mwc_goto c) final)))
           | None \<Rightarrow> before_model_hooks final mws (state, local, base))
      | None \<Rightarrow>
          (case mw_before_model mw of
             None \<Rightarrow> before_model_hooks final mws (state, local, base)
           | Some hook \<Rightarrow>
               rbind (hook state) (\<lambda>r. case r of
                  None \<Rightarrow> before_model_hooks final mws (state, local, base)
                | Some upd \<Rightarrow>
                    (case pop_jump_to upd of
                       (Some jump, upd') \<Rightarrow> Inr (Inl (goto_command upd' (resolve_jump_target jump final)))
                     | (None, upd') \<Rightarrow>
                         (let (local', upd'') = (case map_of upd' ''messages'' of
                                Some (VMsgs ms) \<Rightarrow> (ms, mdel ''messages'' upd') | _ \<Rightarrow> (local, upd')) in
                          before_model_hooks final mws (mcopy state upd'', local', mcopy base upd''))))))"

text \<open>The wrapped model call; the first hook is the outermost. Commands are collected inner first.\<close>

definition wrap_model_hook ::
  "'w agent_mw \<Rightarrow> ('w \<times> mw_command list) model_handler \<Rightarrow> ('w \<times> mw_command list) model_handler" where
  "wrap_model_hook mw h rq s =
     (case mw_wrap_model_result mw of
        Some hook \<Rightarrow>
          and_then (hook h rq s) (\<lambda>r (w, cmds).
            case r of
              Inl e \<Rightarrow> (Ret (Inl e), (w, cmds))
            | Inr (msgs, None) \<Rightarrow> (Ret (Inr msgs), (w, cmds))
            | Inr (msgs, Some c) \<Rightarrow> (Ret (Inr msgs), (w, cmds @ [c])))
      | None \<Rightarrow> (case mw_wrap_model mw of None \<Rightarrow> h rq s | Some hook \<Rightarrow> hook h rq s))"

definition apply_agent_name :: "string \<Rightarrow> message list \<Rightarrow> message list" where
  "apply_agent_name name msgs =
     (if name = [] then msgs else map (\<lambda>m. if msg_role m = ''ai'' then m\<lparr>msg_name := name\<rparr> else m) msgs)"

definition invoke_model ::
  "string \<Rightarrow> (message list \<Rightarrow> 'w \<Rightarrow> message outcome \<times> 'w) \<Rightarrow> ('w \<times> mw_command list) model_handler" where
  "invoke_model name model rq s =
     (let sent = (case mq_system rq of None \<Rightarrow> mq_messages rq | Some m \<Rightarrow> m # mq_messages rq) in
      case model sent (fst s) of
        (Ret (Inr m), w) \<Rightarrow> (Ret (Inr (apply_agent_name name [m])), (w, snd s))
      | (Ret (Inl e), w) \<Rightarrow> (Ret (Inl e), (w, snd s))
      | (Panic i, w) \<Rightarrow> (Panic i, (w, snd s))
      | (Crash, w) \<Rightarrow> (Crash, (w, snd s)))"

definition model_chain ::
  "'w agent_mw list \<Rightarrow> string \<Rightarrow> (message list \<Rightarrow> 'w \<Rightarrow> message outcome \<times> 'w) \<Rightarrow> ('w \<times> mw_command list) model_handler" where
  "model_chain mws name model = foldr wrap_model_hook mws (invoke_model name model)"

definition validate_wrap_command :: "mw_command \<Rightarrow> goerr option" where
  "validate_wrap_command c =
     (if mwc_goto c \<noteq> [] then
        Some (EText ''middleware: Command goto is not supported in wrap_model_call middleware. Use the jump_to state field with before_model/after_model hooks instead'')
      else if mwc_resume c \<noteq> VNil then Some (EText ''middleware: Command resume is not supported in wrap_model_call middleware'')
      else if mwc_graph c \<noteq> [] then Some (EText ''middleware: Command graph is not supported in wrap_model_call middleware'')
      else None)"

fun apply_model_node_commands :: "gstate \<Rightarrow> mw_command list \<Rightarrow> goerr + gstate" where
  "apply_model_node_commands upd [] = Inr upd"
| "apply_model_node_commands upd (c # cs) =
     (case validate_wrap_command c of
        Some e \<Rightarrow> Inl e
      | None \<Rightarrow> apply_model_node_commands (fold_updates upd (mwc_update c)) cs)"

fun after_model_hooks ::
  "string \<Rightarrow> 'w agent_mw list \<Rightarrow> gstate \<times> message list \<times> gstate \<times> string
    \<Rightarrow> goerr + gstate \<times> message list \<times> gstate \<times> string" where
  "after_model_hooks final [] acc = Inr acc"
| "after_model_hooks final (mw # mws) (state, news, upd, target) =
     (case mw_after_model mw of
        None \<Rightarrow> after_model_hooks final mws (state, news, upd, target)
      | Some hook \<Rightarrow>
          rbind (hook state) (\<lambda>r. case r of
             None \<Rightarrow> after_model_hooks final mws (state, news, upd, target)
           | Some hupd \<Rightarrow>
               (let (jump, hupd1) = pop_jump_to hupd;
                    target' = (case jump of Some j \<Rightarrow> resolve_jump_target j final | None \<Rightarrow> target);
                    extra = (case map_of hupd1 ''messages'' of Some (VMsgs ms) \<Rightarrow> Some ms | _ \<Rightarrow> None);
                    news' = (case extra of Some ms \<Rightarrow> news @ ms | None \<Rightarrow> news);
                    hupd2 = (case extra of Some ms \<Rightarrow> mdel ''messages'' hupd1 | None \<Rightarrow> hupd1);
                    upd' = (case extra of Some ms \<Rightarrow> mput ''messages'' (VMsgs news') upd | None \<Rightarrow> upd);
                    state' = (case extra of
                        Some ms \<Rightarrow> mput ''messages'' (VMsgs (messages_of state @ ms)) state | None \<Rightarrow> state) in
                after_model_hooks final mws (mcopy state' hupd2, news', mcopy upd' hupd2, target'))))"

text \<open>
  \<open>mintAIMessageIDs\<close>: an AI message without an ID gets a prefix of a hash of the prompt, its content,
  the number of the minting and its position. The hash is a parameter.
\<close>

definition us :: string where "us = [CHR 0x1F]"

fun mint_ai_ids :: "(string \<Rightarrow> string) \<Rightarrow> string \<Rightarrow> nat \<Rightarrow> nat \<Rightarrow> message list \<Rightarrow> message list" where
  "mint_ai_ids hash prompt seq i [] = []"
| "mint_ai_ids hash prompt seq i (m # ms) =
     (if msg_role m \<noteq> ''ai'' \<or> msg_id m \<noteq> [] then m
      else m\<lparr>msg_id := take 8 (hash (prompt @ us @ msg_content m @ us @ show_nat seq @ us @ show_nat i))\<rparr>)
     # mint_ai_ids hash prompt seq (Suc i) ms"

definition prompt_string :: "model_request \<Rightarrow> string" where
  "prompt_string rq =
     concat (map (\<lambda>m. msg_role m @ '':'' @ msg_content m @ [CHR 0x0A])
       (mq_messages rq @ (case mq_system rq of None \<Rightarrow> [] | Some m \<Rightarrow> [m])))"

text \<open>What an agent is built from, as far as the model node goes.\<close>

record 'w agent_config =
  ac_mws :: "'w agent_mw list"
  ac_name :: string
  ac_prompt :: string
  ac_tool_names :: "string list"
  ac_model :: "message list \<Rightarrow> 'w \<Rightarrow> message outcome \<times> 'w"
  ac_strategy :: "tool_strategy option"
  ac_provider :: "(message \<Rightarrow> goerr + gval) option"
  ac_final :: string
  ac_hitl :: bool
  ac_hash :: "string \<Rightarrow> string"

definition bound_names :: "'w agent_config \<Rightarrow> string list" where
  "bound_names cfg = (case ac_strategy cfg of None \<Rightarrow> [] | Some ts \<Rightarrow> ts_names ts)"

definition agent_request :: "'w agent_config \<Rightarrow> gstate \<Rightarrow> message list \<Rightarrow> model_request" where
  "agent_request cfg state local =
     \<lparr>mq_messages = local,
      mq_system = (if ac_prompt cfg = [] then None
                   else Some ((tool_message [] (ac_prompt cfg))\<lparr>msg_role := ''system''\<rparr>)),
      mq_tools = ac_tool_names cfg, mq_state = state\<rparr>"

text \<open>From the model's response to the node's result; \<open>news\<close> are the new messages.\<close>

definition finish_model_node ::
  "'w agent_config \<Rightarrow> gstate \<Rightarrow> message list \<Rightarrow> gstate \<Rightarrow> message list \<Rightarrow> mw_command list \<Rightarrow> goerr + node_result" where
  "finish_model_node cfg state local base news cmds =
     rbind (detect_structured_output (bound_names cfg) (ac_strategy cfg) (ac_provider cfg) (ac_final cfg) news) (\<lambda>d.
       case d of
         SDone c \<Rightarrow>
           (let kept = mdel ''structured_response'' (mdel ''messages'' base) in
            rbind (apply_model_node_commands (mcopy (cmd_update c) kept) cmds)
              (\<lambda>upd. Inr (RCommand (c\<lparr>cmd_update := upd\<rparr>))))
       | _ \<Rightarrow>
           (let news1 = news @ (case d of SRetry ms \<Rightarrow> ms | _ \<Rightarrow> []);
                news2 = news1 @ repair_invalid_tool_calls local news1 in
            rbind (apply_model_node_commands (mcopy [(''messages'', VMsgs news2)] base) cmds) (\<lambda>upd.
              let news3 = (case map_of upd ''messages'' of Some (VMsgs ms) \<Rightarrow> ms | _ \<Rightarrow> news2);
                  after = mput ''messages'' (VMsgs (local @ news3)) state in
              rbind (after_model_hooks (ac_final cfg) (ac_mws cfg) (after, news3, upd, []))
                (\<lambda>(after', news', upd', target).
                   Inr (if target \<noteq> [] then goto_command upd' target else RState upd')))))"

definition model_node :: "'w agent_config \<Rightarrow> nat \<Rightarrow> gstate \<Rightarrow> 'w \<Rightarrow> node_result outcome \<times> 'w" where
  "model_node cfg seq state w =
     (case before_model_hooks (ac_final cfg) (ac_mws cfg) (state, messages_of state, []) of
        Inl e \<Rightarrow> (Ret (Inl e), w)
      | Inr (Inl jump) \<Rightarrow> (Ret (Inr jump), w)
      | Inr (Inr (state', local, base)) \<Rightarrow>
          (let rq = agent_request cfg state' local in
           case model_chain (ac_mws cfg) (ac_name cfg) (ac_model cfg) rq (w, []) of
             (Ret (Inl e), (w', cmds)) \<Rightarrow> (Ret (Inl e), w')
           | (Ret (Inr resp), (w', cmds)) \<Rightarrow>
               (Ret (finish_model_node cfg state' local base
                  (if ac_hitl cfg then mint_ai_ids (ac_hash cfg) (prompt_string rq) seq 0 resp else resp) cmds), w')
           | (Panic i, (w', cmds)) \<Rightarrow> (Panic i, w')
           | (Crash, (w', cmds)) \<Rightarrow> (Crash, w')))"

subsection \<open>Routing\<close>

definition route_after_model :: "string list \<Rightarrow> string \<Rightarrow> gstate \<Rightarrow> gval list" where
  "route_after_model bound final state =
     (case last_ai_and_tool_messages (messages_of state) of
        None \<Rightarrow> [VStr final]
      | Some (ai, replies) \<Rightarrow>
          if msg_tool_calls ai = [] then [VStr final]
          else if list_ex (\<lambda>c. tc_id c \<notin> set (map msg_tool_call_id replies) \<and> tc_name c \<notin> set bound) (msg_tool_calls ai)
            then [VStr ''tools'']
          else if mhas state ''structured_response'' then [VStr final]
          else [VStr ''model''])"

text \<open>The name the tool message of a call carries, the last one when several do.\<close>

fun executed_name :: "message list \<Rightarrow> string \<Rightarrow> string option" where
  "executed_name [] call_id = None"
| "executed_name (m # ms) call_id =
     (case executed_name ms call_id of
        Some n \<Rightarrow> Some n
      | None \<Rightarrow> (if msg_tool_call_id m \<noteq> [] \<and> msg_name m \<noteq> [] \<and> msg_tool_call_id m = call_id then Some (msg_name m) else None))"

definition route_after_tools :: "'w tool gomap \<Rightarrow> string \<Rightarrow> gstate \<Rightarrow> gval list" where
  "route_after_tools by_name final state =
     (case last_ai_and_tool_messages (messages_of state) of
        None \<Rightarrow> [VStr ''model'']
      | Some (ai, replies) \<Rightarrow>
          (let name_of = (\<lambda>c. case executed_name replies (tc_id c) of
                            Some n \<Rightarrow> (if mhas by_name n then n else tc_name c) | None \<Rightarrow> tc_name c);
               client = List.map_filter (\<lambda>c. map_of by_name (name_of c)) (msg_tool_calls ai) in
           if client \<noteq> [] \<and> list_all tl_return_direct client then [VStr final] else [VStr ''model'']))"

definition route_structured_only :: "string \<Rightarrow> gstate \<Rightarrow> gval list" where
  "route_structured_only final state =
     (if mhas state ''structured_response'' then [VStr final] else [VStr ''model''])"

definition route_with_hitl :: "gval list \<Rightarrow> gval list" where
  "route_with_hitl dests = map (\<lambda>d. if d = VStr ''tools'' then VStr ''hitl'' else d) dests"

subsection \<open>Each invalid call is answered once\<close>

lemma repair_message_id [simp]: "msg_tool_call_id (repair_message c) = tc_id c" "msg_role (repair_message c) = ''tool''"
  by (simp_all add: repair_message_def Let_def error_tool_message_def tool_message_def)

lemma answer_ids_repair [simp]: "answer_ids (repair_message c) = (if tc_id c = [] then [] else [tc_id c])"
  by (simp add: answer_ids_def)

text \<open>\<open>base\<close> are the IDs answered at first, \<open>calls\<close> the calls that may be repaired, \<open>other\<close> the IDs that
  messages answer.\<close>

definition repairing :: "string set \<Rightarrow> tool_call set \<Rightarrow> string set \<Rightarrow> string list \<times> message list \<Rightarrow> bool" where
  "repairing base calls other acc \<longleftrightarrow>
     distinct (map msg_tool_call_id (snd acc)) \<and> base \<subseteq> set (fst acc) \<and>
     set (map msg_tool_call_id (snd acc)) \<subseteq> set (fst acc) \<and>
     set (fst acc) \<subseteq> base \<union> other \<union> set (map msg_tool_call_id (snd acc)) \<and>
     (\<forall>r \<in> set (snd acc). \<exists>c \<in> calls. r = repair_message c \<and> tc_id c \<noteq> [] \<and> tc_id c \<notin> base)"

lemma repair_calls_inv:
  "repairing base C other acc \<Longrightarrow> set calls \<subseteq> C \<Longrightarrow>
     repairing base C other (repair_calls calls acc) \<and> set (fst acc) \<subseteq> set (fst (repair_calls calls acc)) \<and>
     (\<forall>c \<in> set calls. tc_id c = [] \<or> tc_id c \<in> set (fst (repair_calls calls acc)))"
proof (induction calls acc rule: repair_calls.induct)
  case (2 call calls answered repairs)
  show ?case
  proof (cases "tc_id call = [] \<or> tc_id call \<in> set answered")
    case True
    with 2 show ?thesis by auto
  next
    case False
    from 2(3,4) False have "repairing base C other (tc_id call # answered, repairs @ [repair_message call])"
      by (auto simp: repairing_def)
    with 2(2) [OF False] 2(4) False show ?thesis by auto
  qed
qed simp

definition invalid_calls :: "message list \<Rightarrow> tool_call set" where
  "invalid_calls ms = (\<Union>m \<in> {m \<in> set ms. msg_role m = ''ai''}. set (msg_invalid_calls m))"

definition answered_ids :: "message list \<Rightarrow> string set" where
  "answered_ids ms = set (concat (map answer_ids ms))"

lemma answered_ids_append [simp]: "answered_ids (xs @ ys) = answered_ids xs \<union> answered_ids ys"
  by (simp add: answered_ids_def)

lemma repair_messages_inv:
  "repairing base C other acc \<Longrightarrow> invalid_calls ms \<subseteq> C \<Longrightarrow> answered_ids ms \<subseteq> other \<Longrightarrow>
     repairing base C other (repair_messages ms acc) \<and> set (fst acc) \<subseteq> set (fst (repair_messages ms acc)) \<and>
     (\<forall>c \<in> invalid_calls ms. tc_id c = [] \<or> tc_id c \<in> set (fst (repair_messages ms acc)))"
proof (induction ms arbitrary: acc)
  case (Cons m ms)
  obtain answered repairs where acc: "acc = (answered, repairs)" by fastforce
  from Cons.prems(1,3) have start: "repairing base C other (answer_ids m @ answered, repairs)"
    unfolding acc repairing_def answered_ids_def by auto
  show ?case
  proof (cases "msg_role m = ''ai''")
    case True
    with Cons.prems(2) have "set (msg_invalid_calls m) \<subseteq> C" by (auto simp: invalid_calls_def)
    note step = repair_calls_inv [OF start this]
    then have "repairing base C other (repair_calls (msg_invalid_calls m) (answer_ids m @ answered, repairs))" by blast
    note IH = Cons.IH [OF this]
    have rest: "invalid_calls ms \<subseteq> C" "answered_ids ms \<subseteq> other"
      using Cons.prems(2,3) by (auto simp: invalid_calls_def answered_ids_def)
    from IH [OF rest] step True show ?thesis
      unfolding acc by (fastforce simp: invalid_calls_def)
  next
    case False
    have rest: "invalid_calls ms \<subseteq> C" "answered_ids ms \<subseteq> other" "invalid_calls (m # ms) = invalid_calls ms"
      using Cons.prems(2,3) False by (auto simp: invalid_calls_def answered_ids_def)
    from Cons.IH [OF start rest(1,2)] False show ?thesis unfolding acc rest(3) by auto
  qed
qed (auto simp: invalid_calls_def)

lemma repair_calls_idle:
  "\<forall>c \<in> set calls. tc_id c = [] \<or> tc_id c \<in> set answered \<Longrightarrow> repair_calls calls (answered, repairs) = (answered, repairs)"
  by (induction calls) auto

lemma repair_messages_idle:
  "\<forall>c \<in> invalid_calls ms. tc_id c = [] \<or> tc_id c \<in> set answered \<Longrightarrow> snd (repair_messages ms (answered, repairs)) = repairs"
proof (induction ms arbitrary: answered)
  case (Cons m ms)
  from Cons.prems have "\<forall>c \<in> invalid_calls ms. tc_id c = [] \<or> tc_id c \<in> set (answer_ids m @ answered)"
    by (auto simp: invalid_calls_def)
  note IH = Cons.IH [OF this]
  show ?case
  proof (cases "msg_role m = ''ai''")
    case True
    with Cons.prems have "\<forall>c \<in> set (msg_invalid_calls m). tc_id c = [] \<or> tc_id c \<in> set (answer_ids m @ answered)"
      by (auto simp: invalid_calls_def)
    with True IH show ?thesis by (simp add: repair_calls_idle)
  qed (simp add: IH)
qed simp

lemma repairs_inv:
  fixes history news :: "message list"
  defines "repairs \<equiv> repair_invalid_tool_calls history news"
  shows "distinct (map msg_tool_call_id repairs)"
    and "r \<in> set repairs \<Longrightarrow>
      \<exists>c \<in> invalid_calls (history @ news). r = repair_message c \<and> tc_id c \<noteq> [] \<and> tc_id c \<notin> answered_ids history"
    and "c \<in> invalid_calls (history @ news) \<Longrightarrow> tc_id c \<noteq> [] \<Longrightarrow> tc_id c \<in> answered_ids (history @ news @ repairs)"
proof -
  let ?base = "answered_ids history" and ?thread = "history @ news"
  define out where "out = repair_messages ?thread (concat (map answer_ids history), [])"
  have rep: "repairs = snd out" by (simp add: repairs_def out_def repair_invalid_tool_calls_def)
  have start: "repairing ?base (invalid_calls ?thread) (answered_ids ?thread) (concat (map answer_ids history), [])"
    by (auto simp: repairing_def answered_ids_def)
  note inv = repair_messages_inv [OF start subset_refl subset_refl, folded out_def]
  then have ok: "repairing ?base (invalid_calls ?thread) (answered_ids ?thread) out" by blast
  then show "distinct (map msg_tool_call_id repairs)"
    and found: "r \<in> set repairs \<Longrightarrow>
      \<exists>c \<in> invalid_calls ?thread. r = repair_message c \<and> tc_id c \<noteq> [] \<and> tc_id c \<notin> ?base" for r
    unfolding repairing_def rep by blast+
  have ids: "set (map msg_tool_call_id repairs) \<subseteq> answered_ids repairs"
  proof
    fix i assume "i \<in> set (map msg_tool_call_id repairs)"
    then obtain r where r: "r \<in> set repairs" "i = msg_tool_call_id r" by auto
    with found obtain c where "r = repair_message c" "tc_id c \<noteq> []" by blast
    with r show "i \<in> answered_ids repairs" by (auto simp: answered_ids_def intro!: bexI [of _ r])
  qed
  have "set (fst out) \<subseteq> ?base \<union> answered_ids ?thread \<union> set (map msg_tool_call_id repairs)"
    using ok unfolding repairing_def rep by blast
  with ids have covered: "set (fst out) \<subseteq> answered_ids (history @ news @ repairs)" by (simp del: set_map) blast
  assume "c \<in> invalid_calls ?thread" "tc_id c \<noteq> []"
  with inv have "tc_id c \<in> set (fst out)" by blast
  with covered show "tc_id c \<in> answered_ids (history @ news @ repairs)" by blast
qed

text \<open>
  C33: the repairs of a model response carry distinct call IDs; each answers a malformed call of a
  model message of the thread that the history had not answered, and after them every malformed call
  with an ID is answered, so that repairing the thread again adds nothing.
\<close>

theorem repairs_answer_malformed_calls_once:
  "distinct (map msg_tool_call_id (repair_invalid_tool_calls history news)) \<and>
   (\<forall>r \<in> set (repair_invalid_tool_calls history news).
      \<exists>c \<in> invalid_calls (history @ news). r = repair_message c \<and> tc_id c \<noteq> [] \<and> tc_id c \<notin> answered_ids history) \<and>
   (\<forall>c \<in> invalid_calls (history @ news). tc_id c \<noteq> [] \<longrightarrow>
      tc_id c \<in> answered_ids (history @ news @ repair_invalid_tool_calls history news)) \<and>
   repair_invalid_tool_calls (history @ news @ repair_invalid_tool_calls history news) [] = []"
proof -
  let ?repairs = "repair_invalid_tool_calls history news"
  have "msg_role r \<noteq> ''ai''" if "r \<in> set ?repairs" for r using repairs_inv(2) [OF that] by auto
  then have "invalid_calls (history @ news @ ?repairs) = invalid_calls (history @ news)"
    by (auto simp: invalid_calls_def)
  then have "\<forall>c \<in> invalid_calls (history @ news @ ?repairs). tc_id c = [] \<or>
      tc_id c \<in> set (concat (map answer_ids (history @ news @ ?repairs)))"
    using repairs_inv(3) by (metis answered_ids_def)
  then have "repair_invalid_tool_calls (history @ news @ ?repairs) [] = []"
    unfolding repair_invalid_tool_calls_def append_Nil2 by (rule repair_messages_idle)
  then show ?thesis using repairs_inv by blast
qed

lemma repairs_answer_malformed_calls_once_witness:
  "(let calls = [\<lparr>tc_id = ''a'', tc_name = ''f'', tc_args = ''{''\<rparr>, \<lparr>tc_id = ''b'', tc_name = [], tc_args = []\<rparr>,
        \<lparr>tc_id = ''a'', tc_name = ''f'', tc_args = []\<rparr>];
      ai = (demo_ai [])\<lparr>msg_invalid_calls := calls\<rparr>;
      news = repair_invalid_tool_calls [ai, tool_message ''b'' ''done''] [] in
    distinct (map msg_tool_call_id news) \<and> map msg_tool_call_id news = [''a''] \<and>
    repair_invalid_tool_calls ([ai, tool_message ''b'' ''done''] @ [] @ news) [] = [])"
  unfolding Let_def
  by (intro conjI repairs_answer_malformed_calls_once [THEN conjunct1]
        repairs_answer_malformed_calls_once [THEN conjunct2, THEN conjunct2, THEN conjunct2])
     (simp add: repair_invalid_tool_calls_def demo_ai_def answer_ids_def tool_message_def)

subsection \<open>The thread the loop leaves\<close>

text \<open>
  The executor's commit of a node's update in an agent without state fields of its own: messages go
  through \<open>MessagesReducer\<close>, any other key keeps its last value.
\<close>

definition agent_commit :: "gstate \<Rightarrow> gstate \<Rightarrow> goerr + gstate" where
  "agent_commit state upd =
     (case map_of upd ''messages'' of
        None \<Rightarrow> Inr (mcopy state upd)
      | Some v \<Rightarrow>
          rbind (messages_reducer (mgetd state ''messages'' VNil) v)
            (\<lambda>ms. Inr (mput ''messages'' ms (mcopy state (mdel ''messages'' upd)))))"

text \<open>Runs of the loop: the node that is next, the state and the world.\<close>

inductive agent_run ::
  "'w agent_config \<Rightarrow> 'w tool_node \<Rightarrow> int \<Rightarrow> ('w \<Rightarrow> goerr option) \<Rightarrow> gstate \<Rightarrow> 'w \<Rightarrow> string \<Rightarrow> gstate \<Rightarrow> 'w \<Rightarrow> bool"
  for cfg n procs ctx_err st0 w0 where
  run_start: "agent_run cfg n procs ctx_err st0 w0 ''model'' st0 w0"
| run_model: "agent_run cfg n procs ctx_err st0 w0 ''model'' st w \<Longrightarrow>
    model_node cfg seq st w = (Ret (Inr (RState upd)), w') \<Longrightarrow> agent_commit st upd = Inr st' \<Longrightarrow>
    VStr d \<in> set (route_after_model (bound_names cfg) (ac_final cfg) st') \<Longrightarrow>
    agent_run cfg n procs ctx_err st0 w0 d st' w'"
| run_jump: "agent_run cfg n procs ctx_err st0 w0 ''model'' st w \<Longrightarrow>
    model_node cfg seq st w = (Ret (Inr (RCommand c)), w') \<Longrightarrow> agent_commit st (cmd_update c) = Inr st' \<Longrightarrow>
    VStr d \<in> set (cmd_goto c) \<Longrightarrow> agent_run cfg n procs ctx_err st0 w0 d st' w'"
| run_tools: "agent_run cfg n procs ctx_err st0 w0 ''tools'' st w \<Longrightarrow>
    tools_node procs ctx_err n st w = (Ret (Inr (RState upd)), w') \<Longrightarrow> agent_commit st upd = Inr st' \<Longrightarrow>
    VStr d \<in> set (route_after_tools (tn_by_name n) (ac_final cfg) st') \<Longrightarrow>
    agent_run cfg n procs ctx_err st0 w0 d st' w'"

text \<open>Every model message of a thread comes after answers to all calls of the one before it.\<close>

definition thread_paired :: "message list \<Rightarrow> bool" where
  "thread_paired ms \<longleftrightarrow>
     list_all (\<lambda>i. msg_role (ms ! i) = ''ai'' \<longrightarrow> unanswered_tool_calls (take i ms) = []) [0..<length ms]"

lemma thread_paired_iff:
  "thread_paired ms \<longleftrightarrow> (\<forall>i < length ms. msg_role (ms ! i) = ''ai'' \<longrightarrow> unanswered_tool_calls (take i ms) = [])"
  by (auto simp: thread_paired_def list_all_iff)

lemma thread_paired_snoc:
  "thread_paired (ms @ [m]) \<longleftrightarrow> thread_paired ms \<and> (msg_role m = ''ai'' \<longrightarrow> unanswered_tool_calls ms = [])"
  by (auto simp: thread_paired_iff nth_append less_Suc_eq all_conj_distrib)

lemma thread_paired_replies:
  "\<forall>m \<in> set rs. msg_role m \<noteq> ''ai'' \<Longrightarrow> thread_paired (ms @ rs) = thread_paired ms"
proof (induction rs rule: rev_induct)
  case (snoc r rs)
  then show ?case by (simp add: thread_paired_snoc flip: append_assoc)
qed simp

lemma index_by_id_fresh:
  "i \<notin> msg_id ` set ms \<Longrightarrow> map_of ix i = None \<Longrightarrow> map_of (index_by_id k ms ix) i = None"
  by (induction ms arbitrary: k ix) auto

lemma merge_fresh:
  "\<forall>m \<in> set news. msg_id m = [] \<or> map_of (mg_index s) (msg_id m) = None \<Longrightarrow> ids_distinct news \<Longrightarrow> mg_remove s = [] \<Longrightarrow>
     \<exists>s'. rfold merge_step (map UMsg news) s = Inr s' \<and> mg_merged s' = mg_merged s @ news \<and> mg_remove s' = []"
proof (induction news arbitrary: s)
  case (Cons m news)
  let ?s = "s\<lparr>mg_merged := mg_merged s @ [m],
    mg_index := (if msg_id m \<noteq> [] then mput (msg_id m) (length (mg_merged s)) (mg_index s) else mg_index s)\<rparr>"
  from Cons.prems(1) have "merge_step (UMsg m) s = Inr ?s" by auto
  moreover have "\<exists>s'. rfold merge_step (map UMsg news) ?s = Inr s' \<and> mg_merged s' = mg_merged ?s @ news \<and> mg_remove s' = []"
  proof (rule Cons.IH)
    show "\<forall>x \<in> set news. msg_id x = [] \<or> map_of (mg_index ?s) (msg_id x) = None"
      using Cons.prems(1,2) by (auto simp: ids_distinct_Cons image_iff)
  qed (use Cons.prems in \<open>auto simp: ids_distinct_Cons\<close>)
  ultimately show ?case by auto
qed simp

lemma reducer_appends:
  assumes "\<forall>m \<in> set news. msg_id m = [] \<or> msg_id m \<notin> msg_id ` set ms" and "ids_distinct news"
  shows "messages_reducer (VMsgs ms) (VMsgs news) = Inr (VMsgs (ms @ news))"
proof -
  let ?s = "\<lparr>mg_merged = ms, mg_index = index_by_id 0 ms [], mg_remove = []\<rparr>"
  have "\<forall>m \<in> set news. msg_id m = [] \<or> map_of (mg_index ?s) (msg_id m) = None"
    using assms(1) index_by_id_fresh [where ix = "[]"] by auto
  from merge_fresh [OF this assms(2)] obtain s' where
      "rfold merge_step (map UMsg news) ?s = Inr s'" "mg_merged s' = ms @ news" "mg_remove s' = []" by auto
  moreover have "after_remove_all (map UMsg news) = None" by (auto simp: after_remove_all_None)
  ultimately show ?thesis
    by (simp add: messages_reducer_def as_message_slice_def as_message_updates_def merge_messages_def)
qed

definition reply :: "message \<Rightarrow> bool" where
  "reply m \<longleftrightarrow> msg_role m = ''tool'' \<and> msg_id m = []"

lemma reply_tool_message [simp]:
  "reply (tool_message i content)" "reply (error_tool_message i name content)" "reply (repair_message c)"
  "reply (m\<lparr>msg_name := name\<rparr>) = reply m"
  by (simp_all add: reply_def tool_message_def error_tool_message_def repair_message_def Let_def)

lemma tool_message_id [simp]: "msg_tool_call_id (tool_message i content) = i" "msg_role (tool_message i content) = ''tool''"
  by (simp_all add: tool_message_def)

lemma commit_appends:
  assumes "agent_commit st upd = Inr st'" "messages_typed st" "map_of upd ''messages'' = Some (VMsgs news)"
    and "\<forall>m \<in> set news. msg_id m = [] \<or> msg_id m \<notin> msg_id ` set (messages_of st)" "ids_distinct news"
  shows "messages_of st' = messages_of st @ news \<and> messages_typed st'"
proof -
  have "mgetd st ''messages'' VNil = VMsgs (messages_of st) \<or> messages_of st = [] \<and> mgetd st ''messages'' VNil = VNil"
    using assms(2) by (auto simp: messages_typed_def messages_of_def mgetd_def split: option.splits gval.splits)
  then have "messages_reducer (mgetd st ''messages'' VNil) (VMsgs news) = Inr (VMsgs (messages_of st @ news))"
    using reducer_appends [OF assms(4,5)] by (auto simp: messages_reducer_def as_message_slice_def)
  with assms(1,3) show ?thesis by (auto simp: agent_commit_def messages_typed_def)
qed

text \<open>What the model node of an agent without middleware returns.\<close>

lemma detect_cases:
  assumes "detect_structured_output bound strategy provider final [m] = Inr d" "msg_role m = ''ai''"
    and "strategy = None \<Longrightarrow> bound = []"
  obtains (pass) "d = SPass" "structured_calls bound m = []"
    | (ends) c rs where "d = SDone c" "map_of (cmd_update c) ''messages'' = Some (VMsgs (m # rs))"
        "cmd_goto c = [VStr final]" "\<forall>r \<in> set rs. reply r"
    | (retry) rs where "d = SRetry rs" "map msg_tool_call_id rs = map tc_id (structured_calls bound m)" "\<forall>r \<in> set rs. reply r"
proof (cases "structured_calls bound m")
  case Nil
  with assms have "d = SPass \<or> (\<exists>c. d = SDone c \<and> map_of (cmd_update c) ''messages'' = Some (VMsgs [m]) \<and> cmd_goto c = [VStr final])"
    by (cases strategy; cases provider) (auto simp: detect_structured_output_def Let_def rbind_Inr_iff split: if_splits)
  with Nil show ?thesis using pass ends [where rs = "[]"] by auto
next
  case (Cons call calls)
  with assms(3) obtain ts where ts: "strategy = Some ts" by (cases strategy) (auto simp: structured_calls_def)
  show ?thesis
  proof (cases calls)
    case Nil
    with Cons ts assms(1,2) show ?thesis
      by (intro ends) (auto simp: detect_structured_output_def Let_def)
  next
    case (Cons call' calls')
    with \<open>structured_calls bound m = call # calls\<close> ts assms(1,2)
    have "\<exists>t. d = SRetry (map (\<lambda>c. (tool_message (tc_id c) t)\<lparr>msg_name := tc_name c\<rparr>) (structured_calls bound m))"
      by (auto simp: detect_structured_output_def Let_def split: option.splits)
    then show ?thesis using retry by (auto simp: o_def)
  qed
qed

lemma bound_none: "ac_strategy cfg = None \<Longrightarrow> bound_names cfg = []"
  by (simp add: bound_names_def)

lemma finish_plain:
  assumes "finish_model_node cfg st local [] [m] [] = Inr res" "msg_role m = ''ai''" "ac_mws cfg = []"
  obtains (jump) c rs where "res = RCommand c" "cmd_goto c = [VStr (ac_final cfg)]"
      "map_of (cmd_update c) ''messages'' = Some (VMsgs (m # rs))" "\<forall>r \<in> set rs. reply r"
    | (go) rs upd where "res = RState upd" "map_of upd ''messages'' = Some (VMsgs (m # rs))" "\<forall>r \<in> set rs. reply r"
      "\<forall>c \<in> set (msg_tool_calls m). tc_name c \<in> set (bound_names cfg) \<longrightarrow> tc_id c \<in> msg_tool_call_id ` set rs"
proof -
  from assms(1) obtain d where d: "detect_structured_output (bound_names cfg) (ac_strategy cfg) (ac_provider cfg) (ac_final cfg) [m] = Inr d"
    by (auto simp: finish_model_node_def rbind_Inr_iff)
  have repairs: "\<forall>r \<in> set (repair_invalid_tool_calls local news). reply r" for news
    using repairs_inv(2) [of _ local news] reply_tool_message(3) by metis
  show thesis
  proof (rule detect_cases [OF d assms(2) bound_none], assumption)
    assume pass: "d = SPass" "structured_calls (bound_names cfg) m = []"
    from pass(2) have "\<forall>c \<in> set (msg_tool_calls m). tc_name c \<notin> set (bound_names cfg)"
      by (auto simp: structured_calls_def filter_empty_conv)
    with assms(1,3) d pass(1) repairs show ?thesis
      by (intro go [where rs = "repair_invalid_tool_calls local [m]"]) (auto simp: finish_model_node_def mcopy_def)
  next
    fix c rs
    assume ends: "d = SDone c" "map_of (cmd_update c) ''messages'' = Some (VMsgs (m # rs))"
      "cmd_goto c = [VStr (ac_final cfg)]" "\<forall>r \<in> set rs. reply r"
    with assms(1) d show ?thesis
      by (intro jump [where rs = rs]) (auto simp: finish_model_node_def mcopy_def)
  next
    fix rs
    assume retry: "d = SRetry rs" "map msg_tool_call_id rs = map tc_id (structured_calls (bound_names cfg) m)"
      "\<forall>r \<in> set rs. reply r"
    have "tc_id c \<in> msg_tool_call_id ` set rs" if "c \<in> set (msg_tool_calls m)" "tc_name c \<in> set (bound_names cfg)" for c
      using arg_cong [OF retry(2), of set] that by (auto simp: structured_calls_def)
    with assms(1,3) d retry(1,3) repairs show ?thesis
      by (intro go [where rs = "rs @ repair_invalid_tool_calls local (m # rs)"]) (auto simp: finish_model_node_def mcopy_def image_Un)
  qed
qed

lemma finish_plain_state:
  assumes "finish_model_node cfg st local [] [m] [] = Inr (RState upd)" "msg_role m = ''ai''" "ac_mws cfg = []"
  obtains rs where "map_of upd ''messages'' = Some (VMsgs (m # rs))" "\<forall>r \<in> set rs. reply r"
    "\<forall>c \<in> set (msg_tool_calls m). tc_name c \<in> set (bound_names cfg) \<longrightarrow> tc_id c \<in> msg_tool_call_id ` set rs"
  by (rule finish_plain [OF assms]) (simp, use that in simp)

lemma finish_plain_command:
  assumes "finish_model_node cfg st local [] [m] [] = Inr (RCommand c)" "msg_role m = ''ai''" "ac_mws cfg = []"
  obtains rs where "cmd_goto c = [VStr (ac_final cfg)]" "map_of (cmd_update c) ''messages'' = Some (VMsgs (m # rs))"
    "\<forall>r \<in> set rs. reply r"
  by (rule finish_plain [OF assms]) (use that in simp, simp)

definition fresh_model :: "'w agent_config \<Rightarrow> bool" where
  "fresh_model cfg \<longleftrightarrow>
     (\<forall>ms w m w'. ac_model cfg ms w = (Ret (Inr m), w') \<longrightarrow>
        msg_role m = ''ai'' \<and> (msg_id m = [] \<or> msg_id m \<notin> msg_id ` set ms))"

lemma model_node_plain:
  assumes "model_node cfg seq st w = (Ret (Inr res), w')" "ac_mws cfg = []" "\<not> ac_hitl cfg" "fresh_model cfg"
  obtains m where "finish_model_node cfg st (messages_of st) [] [m] [] = Inr res" "msg_role m = ''ai''"
    "msg_id m = [] \<or> msg_id m \<notin> msg_id ` set (messages_of st)"
proof -
  let ?rq = "agent_request cfg st (messages_of st)"
  let ?sent = "case mq_system ?rq of None \<Rightarrow> mq_messages ?rq | Some s \<Rightarrow> s # mq_messages ?rq"
  from assms(1-3) obtain m where m: "ac_model cfg ?sent w = (Ret (Inr m), w')"
    and fin: "finish_model_node cfg st (messages_of st) [] (apply_agent_name (ac_name cfg) [m]) [] = Inr res"
    by (auto simp: model_node_def Let_def model_chain_def invoke_model_def
        split: prod.splits outcome.splits sum.splits)
  have "set (messages_of st) \<subseteq> set ?sent" by (auto simp: agent_request_def split: option.split)
  with m assms(4) have fresh: "msg_role m = ''ai''" "msg_id m = [] \<or> msg_id m \<notin> msg_id ` set (messages_of st)"
    unfolding fresh_model_def by blast+
  define m' where "m' = (if ac_name cfg = [] then m else m\<lparr>msg_name := ac_name cfg\<rparr>)"
  have "apply_agent_name (ac_name cfg) [m] = [m']" "msg_role m' = ''ai''" "msg_id m' = msg_id m"
    using fresh(1) by (simp_all add: apply_agent_name_def m'_def)
  with fin fresh(2) that show thesis by auto
qed

text \<open>A tools node without middleware, whose tools return no commands.\<close>

definition plain_node :: "'w tool_node \<Rightarrow> bool" where
  "plain_node n \<longleftrightarrow> tn_wrap n = None \<and>
     (\<forall>name t args w r w'. map_of (tn_by_name n) name = Some t \<longrightarrow> tl_invoke t args w = (Ret (Inr r), w') \<longrightarrow>
        tr_command r = None)"

lemma plain_nodeD: "plain_node n \<Longrightarrow> map_of (tn_by_name n) name = Some t \<Longrightarrow> tl_invoke t args w = (Ret (Inr r), w') \<Longrightarrow> tr_command r = None"
  unfolding plain_node_def by blast

lemma plain_execute:
  "execute n rq w = (Ret (Inr (m, c)), w') \<Longrightarrow> plain_node n \<Longrightarrow> rq_tool rq = map_of (tn_by_name n) name \<Longrightarrow>
     answers (rq_call rq) m \<and> reply m \<and> c = None"
  by (auto simp: execute_def Let_def invalid_tool_message_def and_then_pure rbind_Inr_iff plain_nodeD [of n name] split: option.splits)

lemma plain_run_one:
  assumes "plain_node n" "run_one n state call w = (Ret (Inr out), w')"
  shows "answers call (fst out) \<and> reply (fst out) \<and> snd out = None"
proof -
  from assms obtain r where
      run: "execute n \<lparr>rq_call = call, rq_tool = map_of (tn_by_name n) (tc_name call), rq_state = state\<rparr> w = (Ret r, w')"
      and out: "(case r of Inr out \<Rightarrow> Inr out | Inl e \<Rightarrow> convert_tool_error n call e) = Inr out"
    by (auto simp: plain_node_def run_one_def and_then_pure)
  show ?thesis
  proof (cases r)
    case (Inr x)
    obtain m c where x: "x = (m, c)" by fastforce
    from plain_execute [OF run [unfolded Inr x] assms(1)] Inr x out show ?thesis by auto
  qed (use out in \<open>auto simp: convert_tool_error_def split: if_splits option.splits\<close>)
qed

lemma tools_node_plain:
  assumes "tools_node procs ctx_err n st w = (Ret (Inr (RState upd)), w')" "plain_node n"
  obtains replies where "map_of upd ''messages'' = Some (VMsgs replies)"
    "list_all2 answers (unanswered_tool_calls (messages_of st)) replies" "\<forall>r \<in> set replies. reply r"
proof -
  let ?calls = "unanswered_tool_calls (messages_of st)"
  from assms(1) obtain outs where
      ran: "parallel_map procs 0 ctx_err (run_one n st) ?calls w = (Ret (Inr outs), w')"
      and upd: "tools_update outs = Inr (RState upd)"
    by (auto simp: tools_node_def invoke_tool_calls_full_def and_then_pure rbind_Inr_iff)
  have all: "list_all2 (\<lambda>call out. answers call (fst out) \<and> reply (fst out) \<and> snd out = None) ?calls outs"
    by (rule parallel_map_all2 [OF _ ran]) (rule plain_run_one [OF assms(2)])
  then have outs: "list_all2 answers ?calls (map fst outs)" "\<forall>out \<in> set outs. reply (fst out) \<and> snd out = None"
    by (auto simp: list_all2_conv_all_nth) (metis fst_conv snd_conv in_set_conv_nth)+
  then have "List.map_filter snd outs = []" by (simp add: List.map_filter_def filter_empty_conv)
  with upd have "map_of upd ''messages'' = Some (VMsgs (map fst outs))" by (auto simp: tools_update_def)
  with outs that show thesis by auto
qed

lemma route_after_model_cases:
  "VStr d \<in> set (route_after_model bound final st) \<Longrightarrow>
     d = final \<or>
     d = ''tools'' \<and> (\<exists>c \<in> set (unanswered_tool_calls (messages_of st)). tc_name c \<notin> set bound) \<or>
     d = ''model'' \<and> (\<forall>c \<in> set (unanswered_tool_calls (messages_of st)). tc_name c \<in> set bound)"
proof (cases "last_ai_and_tool_messages (messages_of st)")
  case (Some p)
  assume d: "VStr d \<in> set (route_after_model bound final st)"
  obtain ai rs where p: "p = (ai, rs)" by fastforce
  have open_calls: "set (unanswered_tool_calls (messages_of st)) =
      {c \<in> set (msg_tool_calls ai). tc_id c \<notin> set (map msg_tool_call_id rs)}"
    by (simp add: unanswered_tool_calls_def Some p)
  show ?thesis
    unfolding open_calls using d
    by (simp add: route_after_model_def Some p list_ex_iff del: set_map split: if_splits) blast+
qed (simp add: route_after_model_def)

lemma route_to_model:
  assumes "VStr ''model'' \<in> set (route_after_model bound final st)" "final \<noteq> ''model''"
  shows "\<forall>c \<in> set (unanswered_tool_calls (messages_of st)). tc_name c \<in> set bound"
  using route_after_model_cases [OF assms(1)]
proof (elim disjE conjE)
  assume "''model'' = final"
  with assms(2) show ?thesis by simp
qed simp_all

lemma route_to_tools:
  assumes "VStr ''tools'' \<in> set (route_after_model bound final st)" "final \<noteq> ''tools''"
  shows "\<exists>c \<in> set (unanswered_tool_calls (messages_of st)). tc_name c \<notin> set bound"
  using route_after_model_cases [OF assms(1)]
proof (elim disjE conjE)
  assume "''tools'' = final"
  with assms(2) show ?thesis by simp
qed simp_all

lemma route_after_tools_cases: "VStr d \<in> set (route_after_tools by_name final st) \<Longrightarrow> d = final \<or> d = ''model''"
  by (auto simp: route_after_tools_def Let_def split: option.splits if_splits)

lemma last_ai_snoc: "\<forall>r \<in> set rs. msg_role r \<noteq> ''ai'' \<Longrightarrow> msg_role m = ''ai'' \<Longrightarrow> last_ai (ms @ m # rs) = Some (m, rs)"
proof -
  assume no: "\<forall>r \<in> set rs. msg_role r \<noteq> ''ai''" and ai: "msg_role m = ''ai''"
  have "last_ai (ms @ [m]) = Some (m, [])" using ai by (induction ms) auto
  with last_ai_append [OF no, of "ms @ [m]"] show ?thesis by simp
qed

text \<open>A step of the model node: a model message, then its replies.\<close>

lemma model_step:
  assumes "thread_paired ms" "unanswered_tool_calls ms = []" "msg_role m = ''ai''" "\<forall>r \<in> set rs. reply r"
  shows "thread_paired (ms @ m # rs) \<and>
    set (unanswered_tool_calls (ms @ m # rs)) = {c \<in> set (msg_tool_calls m). tc_id c \<notin> msg_tool_call_id ` set rs}"
proof -
  have no: "\<forall>r \<in> set rs. msg_role r \<noteq> ''ai''" and tools: "filter (\<lambda>r. msg_role r = ''tool'') rs = rs"
    using assms(4) by (auto simp: reply_def)
  have "thread_paired ((ms @ [m]) @ rs)"
    unfolding thread_paired_replies [OF no] using assms(1,2) by (simp add: thread_paired_snoc)
  then show ?thesis
    using last_ai_snoc [OF no assms(3)] tools
    by (auto simp: unanswered_tool_calls_def last_ai_and_tool_messages_def)
qed

lemma no_ids:
  assumes "\<forall>r \<in> set rs. reply r"
  shows "filter (\<lambda>i. i \<noteq> []) (map msg_id rs) = []"
  using assms by (auto simp: filter_empty_conv reply_def)

lemma fresh_replies: "\<forall>r \<in> set rs. reply r \<Longrightarrow> ids_distinct rs" "\<forall>r \<in> set rs. reply r \<Longrightarrow> \<forall>x \<in> set rs. msg_id x = [] \<or> msg_id x \<notin> ids"
  by (simp add: ids_distinct_def no_ids) (simp add: reply_def)

lemma fresh_ids:
  assumes "\<forall>r \<in> set rs. reply r" "msg_id m = [] \<or> msg_id m \<notin> ids"
  shows "ids_distinct (m # rs)" "\<forall>x \<in> set (m # rs). msg_id x = [] \<or> msg_id x \<notin> ids"
  using no_ids [OF assms(1)] fresh_replies(2) [OF assms(1)] assms(2) by (simp_all add: ids_distinct_def)

lemma agent_run_inv:
  assumes "agent_run cfg n procs ctx_err st0 w0 d st w"
    and "messages_typed st0" "thread_paired (messages_of st0)" "unanswered_tool_calls (messages_of st0) = []"
    and plain: "ac_mws cfg = []" "\<not> ac_hitl cfg" "fresh_model cfg" "plain_node n"
    and final: "ac_final cfg \<noteq> ''model''" "ac_final cfg \<noteq> ''tools''"
  shows "messages_typed st \<and> thread_paired (messages_of st) \<and>
    (d = ''model'' \<longrightarrow> unanswered_tool_calls (messages_of st) = []) \<and>
    (d = ''tools'' \<longrightarrow> (\<exists>c \<in> set (unanswered_tool_calls (messages_of st)). tc_name c \<notin> set (bound_names cfg)))"
  using assms(1)
proof (induction rule: agent_run.induct)
  case run_start
  with assms(2-4) show ?case by simp
next
  case (run_model st w seq upd w' st' d)
  from model_node_plain [OF run_model(2) plain(1-3)] obtain m where
      fin: "finish_model_node cfg st (messages_of st) [] [m] [] = Inr (RState upd)"
      and m: "msg_role m = ''ai''" "msg_id m = [] \<or> msg_id m \<notin> msg_id ` set (messages_of st)" by blast
  from finish_plain_state [OF fin m(1) plain(1)] obtain rs where
      upd: "map_of upd ''messages'' = Some (VMsgs (m # rs))" and rs: "\<forall>r \<in> set rs. reply r"
      and bound: "\<forall>c \<in> set (msg_tool_calls m). tc_name c \<in> set (bound_names cfg) \<longrightarrow> tc_id c \<in> msg_tool_call_id ` set rs"
    by blast
  have st': "messages_of st' = messages_of st @ m # rs" "messages_typed st'"
    using commit_appends [OF run_model(3) _ upd fresh_ids(2) [OF rs m(2)] fresh_ids(1) [OF rs m(2)]] run_model.IH by blast+
  have paired: "thread_paired (messages_of st')"
      and open_calls: "set (unanswered_tool_calls (messages_of st')) = {c \<in> set (msg_tool_calls m). tc_id c \<notin> msg_tool_call_id ` set rs}"
    unfolding st'(1) using model_step [OF _ _ m(1) rs] run_model.IH by blast+
  have none_bound: "\<forall>c \<in> set (unanswered_tool_calls (messages_of st')). tc_name c \<notin> set (bound_names cfg)"
    using open_calls bound by blast
  have "unanswered_tool_calls (messages_of st') = []" if "d = ''model''"
  proof -
    have "\<forall>c \<in> set (unanswered_tool_calls (messages_of st')). tc_name c \<in> set (bound_names cfg)"
      using route_to_model [OF run_model(4) [unfolded that] final(1)] .
    with none_bound show ?thesis by (cases "unanswered_tool_calls (messages_of st')") auto
  qed
  moreover have "\<exists>c \<in> set (unanswered_tool_calls (messages_of st')). tc_name c \<notin> set (bound_names cfg)" if "d = ''tools''"
    using route_to_tools [OF run_model(4) [unfolded that] final(2)] .
  ultimately show ?case using st'(2) paired by blast
next
  case (run_jump st w seq c w' st' d)
  from model_node_plain [OF run_jump(2) plain(1-3)] obtain m where
      fin: "finish_model_node cfg st (messages_of st) [] [m] [] = Inr (RCommand c)"
      and m: "msg_role m = ''ai''" "msg_id m = [] \<or> msg_id m \<notin> msg_id ` set (messages_of st)" by blast
  from finish_plain_command [OF fin m(1) plain(1)] obtain rs where
      target: "cmd_goto c = [VStr (ac_final cfg)]"
      and upd: "map_of (cmd_update c) ''messages'' = Some (VMsgs (m # rs))" and rs: "\<forall>r \<in> set rs. reply r"
    by blast
  have st': "messages_of st' = messages_of st @ m # rs" "messages_typed st'"
    using commit_appends [OF run_jump(3) _ upd fresh_ids(2) [OF rs m(2)] fresh_ids(1) [OF rs m(2)]] run_jump.IH by blast+
  moreover have "thread_paired (messages_of st')"
    unfolding st'(1) using model_step [OF _ _ m(1) rs] run_jump.IH by blast
  moreover have "d = ac_final cfg" using run_jump(4) target by simp
  ultimately show ?case using final by simp
next
  case (run_tools st w upd w' st' d)
  obtain rs where upd: "map_of upd ''messages'' = Some (VMsgs rs)"
      and answered: "list_all2 answers (unanswered_tool_calls (messages_of st)) rs"
      and rs: "\<forall>r \<in> set rs. reply r"
    by (rule tools_node_plain [OF run_tools(2) plain(4)]) (rule that)
  have "messages_typed st" and paired: "thread_paired (messages_of st)" using run_tools.IH by blast+
  from commit_appends [OF run_tools(3) this(1) upd fresh_replies(2) [OF rs] fresh_replies(1) [OF rs]]
  have st': "messages_of st' = messages_of st @ rs" "messages_typed st'" by blast+
  have no: "\<forall>r \<in> set rs. msg_role r \<noteq> ''ai''" using rs by (simp add: reply_def)
  have "thread_paired (messages_of st')"
    unfolding st'(1) thread_paired_replies [OF no] by (rule paired)
  moreover have "unanswered_tool_calls (messages_of st') = []"
    unfolding st'(1) using answered_calls [OF answered, of "[]"] by simp
  moreover have "d \<noteq> ''tools''"
  proof
    assume "d = ''tools''"
    with route_after_tools_cases [OF run_tools(4)] final(2) show False by simp
  qed
  ultimately show ?case using st'(2) by simp
qed

text \<open>
  C34: in an agent without middleware, from a thread whose calls are all answered, every model message
  of the thread comes after answers to all calls of the model message before it, however often
  the loop went round: the model is only called when no call is open, and the tools node only runs
  when a call that is not structured output is open. The chat model is assumed to return model messages
  with new IDs or none, the tools to return no commands.
\<close>

theorem agent_thread_stays_paired:
  assumes "agent_run cfg n procs ctx_err st0 w0 d st w"
    and "messages_typed st0" "thread_paired (messages_of st0)" "unanswered_tool_calls (messages_of st0) = []"
    and "ac_mws cfg = []" "\<not> ac_hitl cfg" "fresh_model cfg" "plain_node n"
    and "ac_final cfg \<noteq> ''model''" "ac_final cfg \<noteq> ''tools''"
  shows "thread_paired (messages_of st) \<and>
    (d = ''model'' \<longrightarrow> unanswered_tool_calls (messages_of st) = []) \<and>
    (d = ''tools'' \<longrightarrow> (\<exists>c \<in> set (unanswered_tool_calls (messages_of st)). tc_name c \<notin> set (bound_names cfg)))"
  using agent_run_inv [OF assms] by (rule conjunct2)

text \<open>An agent that calls its tool once, then answers.\<close>

definition loop_ai :: "tool_call list \<Rightarrow> message" where
  "loop_ai calls = (demo_ai calls)\<lparr>msg_id := []\<rparr>"

definition loop_config :: "nat agent_config" where
  "loop_config = \<lparr>ac_mws = [], ac_name = [], ac_prompt = ''be brief'', ac_tool_names = [''echo''],
     ac_model = (\<lambda>ms w. (Ret (Inr (loop_ai (if w = 0 then [demo_call ''c'' ''hi''] else []))), Suc w)),
     ac_strategy = None, ac_provider = None, ac_final = end_node, ac_hitl = False, ac_hash = id\<rparr>"

definition loop_node :: "nat tool_node" where
  "loop_node = (demo_node [])\<lparr>tn_wrap := None\<rparr>"

definition loop_state :: "message list \<Rightarrow> gstate" where
  "loop_state ms = [(''messages'', VMsgs ms)]"

definition loop_reply :: message where
  "loop_reply = (tool_message ''c'' ''hi'')\<lparr>msg_name := ''echo''\<rparr>"

lemma loop_plain: "fresh_model loop_config" "plain_node loop_node"
  by (auto simp: fresh_model_def loop_config_def loop_ai_def demo_ai_def plain_node_def loop_node_def demo_node_def
      demo_tool_def split: if_splits)

lemma loop_model:
  "model_node loop_config 0 (loop_state []) 0 = (Ret (Inr (RState (loop_state [loop_ai [demo_call ''c'' ''hi'']]))), 1)"
  by (simp add: model_node_def loop_config_def Let_def model_chain_def invoke_model_def agent_request_def
      apply_agent_name_def finish_model_node_def detect_structured_output_def bound_names_def loop_state_def
      messages_of_def repair_invalid_tool_calls_def loop_ai_def demo_ai_def answer_ids_def mcopy_def)

lemma loop_tools:
  "tools_node 4 (\<lambda>w. None) loop_node (loop_state [loop_ai [demo_call ''c'' ''hi'']]) 1 = (Ret (Inr (RState (loop_state [loop_reply]))), 2)"
  by (simp add: tools_node_def invoke_tool_calls_full_def unanswered_tool_calls_def last_ai_and_tool_messages_def
      loop_state_def messages_of_def loop_ai_def demo_ai_def demo_call_def parallel_map_def run_one_def loop_node_def
      demo_node_def execute_def demo_tool_def tools_update_def List.map_filter_def loop_reply_def)

lemma loop_run:
  "agent_run loop_config loop_node 4 (\<lambda>w. None) (loop_state []) 0 ''model''
     (loop_state [loop_ai [demo_call ''c'' ''hi''], loop_reply]) 2"
proof -
  let ?run = "agent_run loop_config loop_node 4 (\<lambda>w. None) (loop_state []) 0"
  note eval = loop_state_def messages_of_def loop_ai_def demo_ai_def demo_call_def loop_reply_def tool_message_def
    last_ai_and_tool_messages_def
  have "?run ''tools'' (loop_state [loop_ai [demo_call ''c'' ''hi'']]) 1"
  proof (rule run_model [OF run_start loop_model])
    show "agent_commit (loop_state []) (loop_state [loop_ai [demo_call ''c'' ''hi'']]) = Inr (loop_state [loop_ai [demo_call ''c'' ''hi'']])"
      by (simp add: agent_commit_def loop_state_def mgetd_def mcopy_def reducer_appends [of _ "[]", simplified] loop_ai_def demo_ai_def ids_distinct_def)
  qed (simp add: route_after_model_def eval bound_names_def loop_config_def)
  then show ?thesis
  proof (rule run_tools [OF _ loop_tools])
    show "agent_commit (loop_state [loop_ai [demo_call ''c'' ''hi'']]) (loop_state [loop_reply])
        = Inr (loop_state [loop_ai [demo_call ''c'' ''hi''], loop_reply])"
      by (simp add: agent_commit_def loop_state_def mgetd_def mcopy_def reducer_appends loop_reply_def tool_message_def ids_distinct_def)
  qed (simp add: route_after_tools_def eval loop_config_def loop_node_def demo_node_def demo_tool_def List.map_filter_def)
qed

lemma agent_thread_stays_paired_witness:
  "let ms = [loop_ai [demo_call ''c'' ''hi''], loop_reply] in
   agent_run loop_config loop_node 4 (\<lambda>w. None) (loop_state []) 0 ''model'' (loop_state ms) 2 \<and>
   thread_paired ms \<and> unanswered_tool_calls ms = []"
proof -
  let ?st = "loop_state [loop_ai [demo_call ''c'' ''hi''], loop_reply]"
  have "thread_paired (messages_of ?st) \<and> (''model'' = ''model'' \<longrightarrow> unanswered_tool_calls (messages_of ?st) = []) \<and>
      (''model'' = ''tools'' \<longrightarrow> (\<exists>c \<in> set (unanswered_tool_calls (messages_of ?st)). tc_name c \<notin> set (bound_names loop_config)))"
    by (rule agent_thread_stays_paired [OF loop_run _ _ _ _ _ loop_plain])
       (simp_all add: loop_config_def loop_state_def messages_of_def messages_typed_def thread_paired_def
         unanswered_tool_calls_def last_ai_and_tool_messages_def end_node_def)
  moreover have "messages_of ?st = [loop_ai [demo_call ''c'' ''hi''], loop_reply]"
    by (simp add: loop_state_def messages_of_def)
  ultimately show ?thesis using loop_run by (simp add: Let_def)
qed

subsection \<open>A jump before the model\<close>

lemma before_model_hooks_append:
  "before_model_hooks final (xs @ ys) acc =
     rbind (before_model_hooks final xs acc) (\<lambda>r. case r of Inl jump \<Rightarrow> Inr (Inl jump) | Inr acc' \<Rightarrow> before_model_hooks final ys acc')"
proof (induction xs arbitrary: acc)
  case (Cons mw xs)
  obtain state local base where acc: "acc = (state, local, base)" by (cases acc)
  show ?case
    unfolding acc append_Cons before_model_hooks.simps
    by (cases "mw_before_model_cmd mw"; cases "mw_before_model mw")
       (auto simp: rbind_def Cons.IH Let_def split: sum.splits option.splits prod.splits)
qed simp

text \<open>
  When a before-model hook asks for a jump, the model is not called and no later hook runs: the
  world is as it was, the node's result is a command to the resolved target, and its update is that
  of the jumping hook alone. What the hooks before it returned is dropped.
\<close>

theorem before_model_jump_skips_the_model:
  assumes "ac_mws cfg = earlier @ mw # later"
    and "before_model_hooks (ac_final cfg) earlier (state, messages_of state, []) = Inr (Inr (state', local, base))"
    and "mw_before_model_cmd mw = None" "mw_before_model mw = Some hook" "hook state' = Inr (Some upd)"
    and "map_of upd ''jump_to'' = Some (VStr jump)" "jump \<noteq> []"
  shows "model_node cfg seq state w =
    (Ret (Inr (goto_command (mdel ''jump_to'' upd) (resolve_jump_target jump (ac_final cfg)))), w)"
  using assms by (simp add: model_node_def before_model_hooks_append pop_jump_to_def)

definition before_hook :: "gstate \<Rightarrow> nat agent_mw" where
  "before_hook upd = \<lparr>mw_before_model_cmd = None, mw_before_model = Some (\<lambda>st. Inr (Some upd)), mw_after_model = None,
     mw_wrap_model = None, mw_wrap_model_result = None\<rparr>"

definition stopping_config :: "nat agent_config" where
  "stopping_config = loop_config\<lparr>ac_mws := [before_hook [(''seen'', VInt 1)],
     before_hook [(''jump_to'', VStr ''end''), (''why'', VStr ''limit'')]]\<rparr>"

lemma before_model_jump_skips_the_model_witness:
  "model_node stopping_config 0 (loop_state []) 0 = (Ret (Inr (goto_command [(''why'', VStr ''limit'')] end_node)), 0)"
proof -
  have "model_node stopping_config 0 (loop_state []) 0 =
      (Ret (Inr (goto_command (mdel ''jump_to'' [(''jump_to'', VStr ''end''), (''why'', VStr ''limit'')])
        (resolve_jump_target ''end'' (ac_final stopping_config)))), 0)"
    by (rule before_model_jump_skips_the_model [where earlier = "[before_hook [(''seen'', VInt 1)]]" and later = "[]"
          and mw = "before_hook [(''jump_to'', VStr ''end''), (''why'', VStr ''limit'')]"
          and state' = "mcopy (loop_state []) [(''seen'', VInt 1)]" and base = "mcopy [] [(''seen'', VInt 1)]"
          and hook = "\<lambda>st. Inr (Some [(''jump_to'', VStr ''end''), (''why'', VStr ''limit'')])"])
       (simp_all add: stopping_config_def loop_config_def before_hook_def pop_jump_to_def loop_state_def messages_of_def)
  then show ?thesis by (simp add: resolve_jump_target_def stopping_config_def loop_config_def)
qed

end
