(* ===== verification/AgentGraph.thy ===== *)
theory AgentGraph
  imports GraphBuilder AgentLoop
begin

section \<open>The graph of an agent (langchain/agents/create_agent.go)\<close>

text \<open>
  CreateAgent: the checks on the middleware, the tools they contribute, the nodes around the loop and
  the wiring of the graph, compiled with the builder's own operations. The functions of the nodes
  are arguments of the wiring; the nodes that run the hooks before and after the agent and the review
  of tool calls are modelled here, the model node and the tools node in the theories of the loop. What
  the options resolve to (the model, the tools of the response format) is given.
\<close>

subsection \<open>Middleware as declared\<close>

record 'w mw_decl =
  md_name :: "string option"
  md_type :: string
  md_can_jump :: "(string \<Rightarrow> string list) option"
  md_tools :: "'w tool option list option"
  md_schema :: "(string \<times> reducer option) list option"
  md_before_agent :: "(gstate \<Rightarrow> goerr + gstate) option"
  md_after_update :: "(gstate \<Rightarrow> goerr + gstate) option"
  md_after_agent :: "(gstate \<Rightarrow> goerr option) option"
  md_interrupter :: "bool option"
  md_after_node :: "(gstate \<Rightarrow> gstate option outcome) option"

definition check_jump_target :: "string \<Rightarrow> string \<Rightarrow> goerr option" where
  "check_jump_target hook_name target =
     (if target \<in> {''model'', ''tools'', ''end''} then None
      else Some (EText (''agents: invalid can_jump_to target '' @ go_quote target @ '' declared for '' @ hook_name
        @ '' (valid: model, tools, end)'')))"

definition declared_jumps :: "'w mw_decl \<Rightarrow> (string \<times> string) list" where
  "declared_jumps mw = (case md_can_jump mw of
     None \<Rightarrow> []
   | Some targets \<Rightarrow> concat (map (\<lambda>h. map (Pair h) (targets h)) [''before_model'', ''after_model'']))"

definition validate_declared_jump_targets :: "'w mw_decl list \<Rightarrow> goerr option" where
  "validate_declared_jump_targets mws = first_error (\<lambda>(h, t). check_jump_target h t) (concat (map declared_jumps mws))"

definition middleware_name :: "'w mw_decl \<Rightarrow> string" where
  "middleware_name mw = (case md_name mw of Some n \<Rightarrow> if n \<noteq> [] then n else md_type mw | None \<Rightarrow> md_type mw)"

fun validate_names_from :: "string list \<Rightarrow> 'w mw_decl list \<Rightarrow> goerr option" where
  "validate_names_from seen [] = None"
| "validate_names_from seen (mw # mws) =
     (if middleware_name mw \<in> set seen then
        Some (EText (''agents: duplicate middleware instances (name '' @ go_quote (middleware_name mw)
          @ ''); please remove duplicate middleware instances''))
      else validate_names_from (middleware_name mw # seen) mws)"

definition validate_middleware_names :: "'w mw_decl list \<Rightarrow> goerr option" where
  "validate_middleware_names mws = validate_names_from [] mws"

definition interrupt_hitl :: "'w mw_decl \<Rightarrow> bool" where
  "interrupt_hitl mw \<longleftrightarrow> md_interrupter mw = Some True \<and> md_after_node mw \<noteq> None"

definition has_interrupt_hitl :: "'w mw_decl list \<Rightarrow> bool" where
  "has_interrupt_hitl mws \<longleftrightarrow> list_ex interrupt_hitl mws"

definition validate_single_interrupt_hitl :: "'w mw_decl list \<Rightarrow> goerr option" where
  "validate_single_interrupt_hitl mws =
     (let count = length (filter interrupt_hitl mws) in
      if count > 1 then
        Some (EText (''agents: at most one interrupt-mode human-in-the-loop middleware is supported (the dedicated ''
          @ go_quote ''hitl'' @ '' node is shared); found '' @ show_int (int count)))
      else None)"

text \<open>
  \<open>mergeMiddlewareTools\<close>: the tools of the middleware, then the caller's; a later tool of the same name
  takes the place of the earlier one. Nil tools are only dropped when middleware contributes any.
\<close>

fun place_tool :: "'w tool \<Rightarrow> 'w tool option list \<Rightarrow> 'w tool option list" where
  "place_tool t [] = [Some t]"
| "place_tool t (Some u # ts) = (if tl_name u = tl_name t then Some t # ts else Some u # place_tool t ts)"
| "place_tool t (None # ts) = None # place_tool t ts"

definition merge_middleware_tools :: "'w mw_decl list \<Rightarrow> 'w tool option list \<Rightarrow> 'w tool option list" where
  "merge_middleware_tools mws user_tools =
     (let contributed = concat (map (\<lambda>mw. case md_tools mw of None \<Rightarrow> [] | Some ts \<Rightarrow> ts) mws) in
      if contributed = [] then user_tools
      else foldl (\<lambda>out t. case t of None \<Rightarrow> out | Some t \<Rightarrow> place_tool t out) [] (contributed @ user_tools))"

subsection \<open>The nodes around the loop\<close>

fun before_agent_hooks :: "'w mw_decl list \<Rightarrow> gstate \<times> gstate \<Rightarrow> goerr + gstate" where
  "before_agent_hooks [] (state, upd) = Inr upd"
| "before_agent_hooks (mw # mws) (state, upd) =
     (case md_before_agent mw of
        None \<Rightarrow> before_agent_hooks mws (state, upd)
      | Some hook \<Rightarrow> rbind (hook state) (\<lambda>h. before_agent_hooks mws (mcopy state h, mcopy upd h)))"

definition jump_or_state :: "string \<Rightarrow> gstate \<Rightarrow> node_result" where
  "jump_or_state final upd =
     (case pop_jump_to upd of
        (Some jump, upd') \<Rightarrow> goto_command upd' (resolve_jump_target jump final)
      | (None, upd') \<Rightarrow> RState upd')"

definition before_agent_node :: "'w mw_decl list \<Rightarrow> string \<Rightarrow> gstate \<Rightarrow> goerr + node_result" where
  "before_agent_node mws final state = rbind (before_agent_hooks mws (state, [])) (\<lambda>upd. Inr (jump_or_state final upd))"

fun after_agent_hooks :: "'w mw_decl list \<Rightarrow> gstate \<times> gstate \<Rightarrow> goerr + gstate" where
  "after_agent_hooks [] (state, upd) = Inr upd"
| "after_agent_hooks (mw # mws) (state, upd) =
     (case md_after_update mw of
        Some hook \<Rightarrow> rbind (hook state) (\<lambda>h. after_agent_hooks mws (mcopy state h, mcopy upd h))
      | None \<Rightarrow>
          (case md_after_agent mw of
             None \<Rightarrow> after_agent_hooks mws (state, upd)
           | Some hook \<Rightarrow> (case hook state of Some e \<Rightarrow> Inl e | None \<Rightarrow> after_agent_hooks mws (state, upd))))"

definition after_agent_node :: "'w mw_decl list \<Rightarrow> gstate \<Rightarrow> goerr + node_result" where
  "after_agent_node mws state =
     rbind (after_agent_hooks mws (state, [])) (\<lambda>upd. Inr (if upd = [] then RNil else jump_or_state end_node upd))"

text \<open>The review of tool calls: an interrupt inside the hook leaves the node as a panic.\<close>

fun hitl_hooks :: "'w mw_decl list \<Rightarrow> gstate \<times> gstate \<Rightarrow> gstate outcome" where
  "hitl_hooks [] (state, upd) = Ret (Inr upd)"
| "hitl_hooks (mw # mws) (state, upd) =
     (if \<not> interrupt_hitl mw then hitl_hooks mws (state, upd)
      else case the (md_after_node mw) state of
        Panic i \<Rightarrow> Panic i
      | Crash \<Rightarrow> Crash
      | Ret (Inl e) \<Rightarrow> Ret (Inl e)
      | Ret (Inr None) \<Rightarrow> hitl_hooks mws (state, upd)
      | Ret (Inr (Some h)) \<Rightarrow>
          (case map_of h ''messages'' of
             Some (VMsgs extra) \<Rightarrow>
               (let h' = mdel ''messages'' h;
                    state' = (case map_of state ''messages'' of
                        Some (VMsgs ms) \<Rightarrow> mput ''messages'' (VMsgs (ms @ extra)) state | _ \<Rightarrow> state);
                    upd' = mput ''messages'' (VMsgs (messages_of upd @ extra)) upd in
                hitl_hooks mws (mcopy state' h', mcopy upd' h'))
           | _ \<Rightarrow> hitl_hooks mws (mcopy state h, mcopy upd h)))"

definition hitl_node :: "'w mw_decl list \<Rightarrow> string \<Rightarrow> gstate \<Rightarrow> node_result outcome" where
  "hitl_node mws final state =
     (case hitl_hooks mws (state, []) of
        Panic i \<Rightarrow> Panic i
      | Crash \<Rightarrow> Crash
      | Ret (Inl e) \<Rightarrow> Ret (Inl e)
      | Ret (Inr upd) \<Rightarrow> Ret (Inr (if upd = [] then RNil else jump_or_state final upd)))"

subsection \<open>CreateAgent\<close>

text \<open>
  The options as they resolve. The last three are the errors, if any, of converting the tool
  specifications, of resolving the response format and of building the tools of structured output; the
  tools and bindings these give are among \<open>ao_tools\<close> and \<open>ao_bindings\<close>.
\<close>

record 'w agent_options =
  ao_model_given :: bool
  ao_middleware :: "'w mw_decl list"
  ao_tools :: "'w tool option list"
  ao_bindings :: "string list"
  ao_state_fields :: "(string \<times> reducer option) list"
  ao_limit :: int
  ao_interrupt_before :: "string list"
  ao_interrupt_after :: "string list"
  ao_wrap :: "('w, 'w \<times> command option) tool_wrapper option"
  ao_spec_error :: "goerr option"
  ao_format_error :: "goerr option"
  ao_structured_error :: "goerr option"

text \<open>The functions of the nodes.\<close>

record agent_nodes =
  an_model :: node_fun
  an_before :: node_fun
  an_after :: node_fun
  an_tools :: node_fun
  an_hitl :: node_fun
  an_bound :: gval

definition field_calls :: "(string \<times> reducer option) list \<Rightarrow> builder_call list" where
  "field_calls declared = map (\<lambda>(name, r). AddReducer name (case r of None \<Rightarrow> last_value_reducer | Some f \<Rightarrow> f)) declared"

definition tools_by_name :: "'w tool option list \<Rightarrow> 'w tool gomap" where
  "tools_by_name ts = foldl (\<lambda>m t. case t of None \<Rightarrow> m | Some t \<Rightarrow> mput (tl_name t) t m) [] ts"

definition has_before_agent :: "'w agent_options \<Rightarrow> bool" where
  "has_before_agent opts = list_ex (\<lambda>mw. md_before_agent mw \<noteq> None) (ao_middleware opts)"

definition has_after_agent :: "'w agent_options \<Rightarrow> bool" where
  "has_after_agent opts = list_ex (\<lambda>mw. md_after_agent mw \<noteq> None \<or> md_after_update mw \<noteq> None) (ao_middleware opts)"

definition agent_final :: "'w agent_options \<Rightarrow> string" where
  "agent_final opts = (if has_after_agent opts then ''after_agent'' else end_node)"

definition agent_tools :: "'w agent_options \<Rightarrow> 'w tool option list" where
  "agent_tools opts = merge_middleware_tools (ao_middleware opts) (ao_tools opts)"

definition hitl_present :: "'w agent_options \<Rightarrow> bool" where
  "hitl_present opts \<longleftrightarrow> has_interrupt_hitl (ao_middleware opts) \<and> agent_tools opts \<noteq> []"

text \<open>The builder calls of CreateAgent, in their order.\<close>

definition loop_calls :: "agent_nodes \<Rightarrow> 'w agent_options \<Rightarrow> builder_call list" where
  "loop_calls nodes opts =
     (let final = agent_final opts; after_model = route_after_model (ao_bindings opts) final in
      if agent_tools opts \<noteq> [] then
        AddNodeWithBound ''tools'' (Some (an_tools nodes)) (an_bound nodes)
        # AddConditionalEdges ''tools'' (Some (\<lambda>st. Inr (route_after_tools (tools_by_name (agent_tools opts)) final st)))
        # (if hitl_present opts then
             [AddNode ''hitl'' (Some (an_hitl nodes)) no_policies,
              AddConditionalEdges ''model'' (Some (\<lambda>st. Inr (route_with_hitl (after_model st)))),
              AddConditionalEdges ''hitl'' (Some (\<lambda>st. Inr (after_model st)))]
           else [AddConditionalEdges ''model'' (Some (\<lambda>st. Inr (after_model st)))])
      else if ao_bindings opts \<noteq> [] then
        [AddConditionalEdges ''model'' (Some (\<lambda>st. Inr (route_structured_only final st)))]
      else [AddEdge ''model'' final])"

definition agent_calls :: "agent_nodes \<Rightarrow> 'w agent_options \<Rightarrow> builder_call list" where
  "agent_calls nodes opts =
     AddReducer ''messages'' messages_reducer
     # concat (map (\<lambda>mw. case md_schema mw of None \<Rightarrow> [] | Some declared \<Rightarrow> field_calls declared) (ao_middleware opts))
     @ field_calls (ao_state_fields opts)
     @ [AddNode ''model'' (Some (an_model nodes)) no_policies]
     @ (if has_before_agent opts then
          [AddNode ''before_agent'' (Some (an_before nodes)) no_policies, AddEdge ''before_agent'' ''model'',
           AddEdge start_node ''before_agent'']
        else [AddEdge start_node ''model''])
     @ (if has_after_agent opts then
          [AddNode ''after_agent'' (Some (an_after nodes)) no_policies, AddEdge ''after_agent'' end_node]
        else [])
     @ loop_calls nodes opts"

definition agent_compile_options :: "'w agent_options \<Rightarrow> compile_options" where
  "agent_compile_options opts =
     with_interrupt_after (ao_interrupt_after opts) (with_interrupt_before (ao_interrupt_before opts)
       (with_recursion_limit (if ao_limit opts \<le> 0 then 9999 else ao_limit opts) default_options))"

definition agent_rejects :: "'w agent_options \<Rightarrow> goerr option" where
  "agent_rejects opts =
     first_error id
       [if ao_model_given opts then None else Some (EText ''agents: model is required''),
        validate_declared_jump_targets (ao_middleware opts), validate_middleware_names (ao_middleware opts),
        ao_spec_error opts, ao_format_error opts, ao_structured_error opts, validate_single_interrupt_hitl (ao_middleware opts),
        if agent_tools opts = [] then None
        else case new_tool_node (agent_tools opts) None (ao_wrap opts) of Inl e \<Rightarrow> Some e | Inr _ \<Rightarrow> None]"

definition create_agent :: "agent_nodes \<Rightarrow> 'w agent_options \<Rightarrow> goerr + compiled_graph" where
  "create_agent nodes opts =
     (case agent_rejects opts of
        Some e \<Rightarrow> Inl e
      | None \<Rightarrow> compile (build (agent_calls nodes opts)) (agent_compile_options opts))"

subsection \<open>The graph always compiles\<close>

lemma reducer_calls:
  "\<forall>c \<in> set cs. \<exists>k r. c = AddReducer k r \<Longrightarrow> \<exists>protos. fold run_call cs g = g\<lparr>sg_protos := protos\<rparr>"
proof (induction cs arbitrary: g)
  case Nil
  show ?case by (rule exI [of _ "sg_protos g"]) simp
next
  case (Cons c cs)
  then obtain k r where c: "c = AddReducer k r" by auto
  have "\<exists>protos. fold run_call cs (run_call c g) = (run_call c g)\<lparr>sg_protos := protos\<rparr>"
    by (rule Cons.IH) (use Cons.prems in simp)
  then show ?case by (auto simp: c add_reducer_def)
qed

text \<open>The calls after the reducers, on an empty builder.\<close>

definition wiring :: "agent_nodes \<Rightarrow> 'w agent_options \<Rightarrow> builder_call list" where
  "wiring nodes opts =
     [AddNode ''model'' (Some (an_model nodes)) no_policies]
     @ (if has_before_agent opts then
          [AddNode ''before_agent'' (Some (an_before nodes)) no_policies, AddEdge ''before_agent'' ''model'',
           AddEdge start_node ''before_agent'']
        else [AddEdge start_node ''model''])
     @ (if has_after_agent opts then
          [AddNode ''after_agent'' (Some (an_after nodes)) no_policies, AddEdge ''after_agent'' end_node]
        else [])
     @ loop_calls nodes opts"

lemma build_agent:
  "\<exists>protos. build (agent_calls nodes opts) = fold run_call (wiring nodes opts) (new_state_graph\<lparr>sg_protos := protos\<rparr>)"
proof -
  let ?reducers = "AddReducer ''messages'' messages_reducer
     # concat (map (\<lambda>mw. case md_schema mw of None \<Rightarrow> [] | Some declared \<Rightarrow> field_calls declared) (ao_middleware opts))
     @ field_calls (ao_state_fields opts)"
  have "\<forall>c \<in> set ?reducers. \<exists>k r. c = AddReducer k r"
    by (auto simp: field_calls_def split: option.splits)
  from reducer_calls [OF this] obtain protos where
      "fold run_call ?reducers new_state_graph = new_state_graph\<lparr>sg_protos := protos\<rparr>" by blast
  moreover have "agent_calls nodes opts = ?reducers @ wiring nodes opts" by (simp add: agent_calls_def wiring_def)
  ultimately show ?thesis by (metis build_def fold_append comp_apply)
qed

text \<open>A builder without errors, joins and path maps, and the calls of the wiring on it.\<close>

definition plain_graph ::
  "node_fun gomap \<Rightarrow> node_policies gomap \<Rightarrow> chan gomap \<Rightarrow> string list gomap \<Rightarrow> router gomap \<Rightarrow> gval gomap
    \<Rightarrow> string \<Rightarrow> state_graph" where
  "plain_graph nodes policies protos edges conditional bounds entry =
     new_state_graph\<lparr>sg_nodes := nodes, sg_policies := policies, sg_protos := protos, sg_edges := edges,
       sg_conditional := conditional, sg_bounds := bounds, sg_entry := entry\<rparr>"

lemma plain_start: "new_state_graph\<lparr>sg_protos := protos\<rparr> = plain_graph [] [] protos [] [] [] []"
  by (simp add: plain_graph_def new_state_graph_def)

lemma plain_node_call:
  "\<not> reserved_name name \<Longrightarrow> \<not> mhas ns name \<Longrightarrow>
     add_node_with_policies name (Some f) no_policies (plain_graph ns ps protos es cs bs entry) =
     plain_graph (mput name f ns) (mput name no_policies ps) protos es cs (mdel name bs) entry"
  by (simp add: add_node_with_policies_def plain_graph_def new_state_graph_def no_policies_def)

lemma plain_bound_call:
  "\<not> reserved_name name \<Longrightarrow> \<not> mhas ns name \<Longrightarrow>
     add_node_with_bound name (Some f) b (plain_graph ns ps protos es cs bs entry) =
     plain_graph (mput name f ns) (mput name no_policies ps) protos es cs (mput name b (mdel name bs)) entry"
  by (simp add: add_node_with_bound_def plain_node_call) (simp add: plain_graph_def new_state_graph_def)

lemma plain_edge_call:
  "a \<noteq> start_node \<Longrightarrow> add_edge a b (plain_graph ns ps protos es cs bs entry) =
     plain_graph ns ps protos (mput a (mgetd es a [] @ [b]) es) cs bs entry"
  by (simp add: add_edge_def plain_graph_def new_state_graph_def)

lemma plain_entry_call:
  "add_edge start_node b (plain_graph ns ps protos es cs bs []) = plain_graph ns ps protos es cs bs b"
  by (simp add: add_edge_def set_entry_point_def plain_graph_def new_state_graph_def)

lemma plain_router_call:
  "\<not> mhas cs a \<Longrightarrow> add_conditional_edges a (Some r) (plain_graph ns ps protos es cs bs entry) =
     plain_graph ns ps protos es (mput a r cs) bs entry"
  by (simp add: add_conditional_edges_def plain_graph_def new_state_graph_def)

lemma plain_checks:
  assumes "entry \<noteq> []" "mhas ns entry" "\<forall>n \<in> set (mkeys cs). mhas ns n"
    and "\<forall>n \<in> set (mkeys es). mhas ns n \<and> (\<forall>t \<in> set (mgetd es n []). t = end_node \<or> mhas ns t)"
    and "\<forall>n p. map_of ps n = Some p \<longrightarrow> p = no_policies"
  shows "compile_checks (plain_graph ns ps protos es cs bs entry) = None"
proof -
  let ?g = "plain_graph ns ps protos es cs bs entry"
  have "check_policy ?g n = None" for n
  proof (cases "map_of ps n")
    case (Some p)
    with assms(5) have "p = no_policies" by blast
    with Some show ?thesis by (simp add: check_policy_def plain_graph_def no_policies_def)
  qed (simp add: check_policy_def plain_graph_def)
  moreover have "check_edges_from ?g n = None" if "n \<in> set (mkeys es)" for n
    using assms(4) that by (auto simp: check_edges_from_def first_error_None node_or_end_def plain_graph_def simp del: set_mkeys)
  moreover have "check_conditional ?g n = None" if "n \<in> set (mkeys cs)" for n
    using assms(3) that by (auto simp: check_conditional_def plain_graph_def simp del: set_mkeys)
  moreover have "check_entry ?g = None" using assms(1,2) by (simp add: check_entry_def plain_graph_def)
  moreover have "sg_err ?g = None" "mkeys (sg_path_maps ?g) = []" "mkeys (sg_entry_path_map ?g) = []" "sg_joins ?g = []"
    "sg_edges ?g = es" "sg_conditional ?g = cs"
    by (simp_all add: plain_graph_def new_state_graph_def mkeys_def)
  ultimately show ?thesis
    unfolding compile_checks_def first_error_None by (auto simp del: set_mkeys)
qed

lemma plain_graph_fields [simp]:
  "sg_nodes (plain_graph ns ps protos es cs bs entry) = ns" "sg_conditional (plain_graph ns ps protos es cs bs entry) = cs"
  "sg_joins (plain_graph ns ps protos es cs bs entry) = []"
  by (simp_all add: plain_graph_def new_state_graph_def)

lemmas plain_calls = plain_node_call plain_bound_call plain_entry_call plain_edge_call plain_router_call

lemma agent_names [simp]:
  "\<not> reserved_name ''model''" "\<not> reserved_name ''tools''" "\<not> reserved_name ''hitl''"
  "\<not> reserved_name ''before_agent''" "\<not> reserved_name ''after_agent''"
  "''model'' \<noteq> start_node" "''before_agent'' \<noteq> start_node" "''after_agent'' \<noteq> start_node"
  by (simp_all add: reserved_name_def start_node_def end_node_def)

lemma wiring_checks:
  "compile_checks (fold run_call (wiring nodes opts) (new_state_graph\<lparr>sg_protos := protos\<rparr>)) = None"
  unfolding plain_start
  by (cases "has_before_agent opts"; cases "has_after_agent opts"; cases "agent_tools opts = []"; cases "hitl_present opts"; cases "ao_bindings opts = []")
     (simp_all add: wiring_def loop_calls_def Let_def plain_calls plain_checks agent_final_def mgetd_def mhas_def)

text \<open>The names of the nodes, and where the routers of the loop lead.\<close>

definition agent_node_names :: "'w agent_options \<Rightarrow> string set" where
  "agent_node_names opts =
     {''model''} \<union> (if has_before_agent opts then {''before_agent''} else {}) \<union>
     (if has_after_agent opts then {''after_agent''} else {}) \<union>
     (if agent_tools opts \<noteq> [] then {''tools''} else {}) \<union> (if hitl_present opts then {''hitl''} else {})"

lemma route_dests:
  "d \<in> set (route_after_model bound final st) \<Longrightarrow> d = VStr final \<or> d = VStr ''tools'' \<or> d = VStr ''model''"
  "d \<in> set (route_with_hitl (route_after_model bound final st)) \<Longrightarrow> d = VStr final \<or> d = VStr ''hitl'' \<or> d = VStr ''model''"
  "d \<in> set (route_after_tools by_name final st) \<Longrightarrow> d = VStr final \<or> d = VStr ''model''"
  "d \<in> set (route_structured_only final st) \<Longrightarrow> d = VStr final \<or> d = VStr ''model''"
  by (auto simp: route_after_model_def route_with_hitl_def route_after_tools_def route_structured_only_def Let_def
      split: option.splits if_splits)

lemma wiring_nodes:
  "mhas (sg_nodes (fold run_call (wiring nodes opts) (new_state_graph\<lparr>sg_protos := protos\<rparr>))) name
     \<longleftrightarrow> name \<in> agent_node_names opts"
  unfolding plain_start
  by (cases "has_before_agent opts"; cases "has_after_agent opts"; cases "agent_tools opts = []"; cases "hitl_present opts"; cases "ao_bindings opts = []")
     (auto simp: wiring_def loop_calls_def Let_def plain_calls agent_final_def mgetd_def mhas_def agent_node_names_def hitl_present_def)

definition routes_into :: "string set \<Rightarrow> router \<Rightarrow> bool" where
  "routes_into names r \<longleftrightarrow> (\<forall>st dests d. r st = Inr dests \<longrightarrow> d \<in> set dests \<longrightarrow> (\<exists>name \<in> names. d = VStr name))"

lemma wiring_routes:
  assumes "map_of (sg_conditional (fold run_call (wiring nodes opts) (new_state_graph\<lparr>sg_protos := protos\<rparr>))) n = Some r"
  shows "routes_into (insert (agent_final opts) (agent_node_names opts - {''before_agent''})) r"
proof -
  let ?names = "insert (agent_final opts) (agent_node_names opts - {''before_agent''})"
  let ?after = "route_after_model (ao_bindings opts) (agent_final opts)"
  let ?by_name = "tools_by_name (agent_tools opts)"
  have names: "''model'' \<in> ?names" "agent_tools opts \<noteq> [] \<Longrightarrow> ''tools'' \<in> ?names" "hitl_present opts \<Longrightarrow> ''hitl'' \<in> ?names"
    by (simp_all add: agent_node_names_def)
  have after: "agent_tools opts \<noteq> [] \<Longrightarrow> routes_into ?names (\<lambda>st. Inr (?after st))"
    using names(1,2) unfolding routes_into_def by (auto dest!: route_dests(1))
  have hitl: "hitl_present opts \<Longrightarrow> routes_into ?names (\<lambda>st. Inr (route_with_hitl (?after st)))"
    using names(1,3) unfolding routes_into_def by (auto dest!: route_dests(2))
  have tools: "routes_into ?names (\<lambda>st. Inr (route_after_tools ?by_name (agent_final opts) st))"
    using names(1) unfolding routes_into_def by (auto dest!: route_dests(3))
  have structured: "routes_into ?names (\<lambda>st. Inr (route_structured_only (agent_final opts) st))"
    using names(1) unfolding routes_into_def by (auto dest!: route_dests(4))
  have "r = (\<lambda>st. Inr (?after st)) \<and> agent_tools opts \<noteq> [] \<or>
      r = (\<lambda>st. Inr (route_with_hitl (?after st))) \<and> hitl_present opts \<or>
      r = (\<lambda>st. Inr (route_after_tools ?by_name (agent_final opts) st)) \<or>
      r = (\<lambda>st. Inr (route_structured_only (agent_final opts) st))"
    using assms unfolding plain_start
    by (cases "has_before_agent opts"; cases "has_after_agent opts"; cases "agent_tools opts = []"; cases "hitl_present opts"; cases "ao_bindings opts = []")
       (simp_all add: wiring_def loop_calls_def Let_def plain_calls mgetd_def mhas_def split: if_splits)
  with after hitl tools structured show ?thesis by blast
qed

text \<open>
  C35: CreateAgent fails exactly when an option does not resolve or one of its own checks rejects the
  options; Compile never rejects what it wires. The graph is well formed, its nodes are the model and those that the middleware and
  the tools call for, every router leads to registered nodes or to END, and the recursion limit is
  positive. In particular a jump to the tools of an agent without tools names no node.
\<close>

theorem agent_graph_always_compiles:
  "(\<forall>e. create_agent nodes opts = Inl e \<longleftrightarrow> agent_rejects opts = Some e) \<and>
   (\<forall>cg. create_agent nodes opts = Inr cg \<longrightarrow>
      graph_wf cg \<and> (\<forall>name. registered cg name \<longleftrightarrow> name \<in> agent_node_names opts) \<and>
      (\<forall>n r st dests d. map_of (cg_conditional cg) n = Some r \<longrightarrow> r st = Inr dests \<longrightarrow> d \<in> set dests \<longrightarrow>
         (\<exists>name. d = VStr name \<and> (name = end_node \<or> registered cg name))) \<and>
      0 < cg_limit cg)"
proof -
  let ?opts = "agent_compile_options opts"
  obtain protos where built: "build (agent_calls nodes opts) = fold run_call (wiring nodes opts) (new_state_graph\<lparr>sg_protos := protos\<rparr>)"
    using build_agent by blast
  define g where "g = fold run_call (wiring nodes opts) (new_state_graph\<lparr>sg_protos := protos\<rparr>)"
  have g: "build (agent_calls nodes opts) = g" by (simp only: built g_def)
  have checks: "compile_checks g = None" unfolding g_def by (rule wiring_checks)
  have joins: "sg_joins g = []"
    unfolding g_def plain_start
    by (cases "has_before_agent opts"; cases "has_after_agent opts"; cases "agent_tools opts = []"; cases "hitl_present opts"; cases "ao_bindings opts = []")
       (simp_all add: wiring_def loop_calls_def Let_def plain_calls mgetd_def mhas_def)
  have "co_default_retry ?opts = None" "0 < co_limit ?opts"
    by (simp_all add: agent_compile_options_def with_interrupt_after_def with_interrupt_before_def with_recursion_limit_def default_options_def)
  with checks joins obtain cg where cg: "compile g ?opts = Inr cg" "0 < cg_limit cg"
      "cg_nodes cg = sg_nodes g" "cg_conditional cg = sg_conditional g"
    by (simp add: compile_def compile_default_retry_def)
  have create: "create_agent nodes opts = (case agent_rejects opts of Some e \<Rightarrow> Inl e | None \<Rightarrow> Inr cg)"
    unfolding create_agent_def g cg(1) ..
  have wf: "graph_wf cg"
    by (rule compile_wf [OF _ cg(1)]) (simp add: g [symmetric] build_def fold_run_call_inv sg_inv_new)
  have names: "registered cg name \<longleftrightarrow> name \<in> agent_node_names opts" for name
    using wiring_nodes [of nodes opts protos name, folded g_def]
    by (auto simp: registered_def cg(3) agent_node_names_def split: if_splits)
  have final: "agent_final opts = end_node \<or> registered cg (agent_final opts)"
    by (simp add: names agent_final_def agent_node_names_def)
  have "\<exists>name. d = VStr name \<and> (name = end_node \<or> registered cg name)"
    if "map_of (cg_conditional cg) n = Some r" "r st = Inr dests" "d \<in> set dests" for n r st dests d
  proof -
    have "routes_into (insert (agent_final opts) (agent_node_names opts - {''before_agent''})) r"
      using wiring_routes [of nodes opts protos n r, folded g_def] that(1) by (simp add: cg(4))
    with that(2,3) obtain name where "d = VStr name" "name \<in> insert (agent_final opts) (agent_node_names opts - {''before_agent''})"
      unfolding routes_into_def by blast
    with final names show ?thesis by auto
  qed
  with wf names cg(2) show ?thesis by (simp add: create split: option.split)
qed

text \<open>An agent with one tool, a hook before it and a review.\<close>

definition demo_mw :: "string \<Rightarrow> nat mw_decl" where
  "demo_mw name = \<lparr>md_name = Some name, md_type = ''mw'', md_can_jump = None, md_tools = None, md_schema = None,
     md_before_agent = Some (\<lambda>st. Inr [(''messages'', VMsgs [tool_message [] name])]), md_after_update = None,
     md_after_agent = None, md_interrupter = Some (name = ''review''), md_after_node = Some (\<lambda>st. Ret (Inr None))\<rparr>"

definition demo_agent :: "nat agent_options" where
  "demo_agent = \<lparr>ao_model_given = True, ao_middleware = [demo_mw ''notes'', demo_mw ''review''], ao_tools = [Some demo_tool],
     ao_bindings = [], ao_state_fields = [], ao_limit = 0, ao_interrupt_before = [], ao_interrupt_after = [], ao_wrap = None,
     ao_spec_error = None, ao_format_error = None, ao_structured_error = None\<rparr>"

definition demo_agent_nodes :: agent_nodes where
  "demo_agent_nodes = \<lparr>an_model = writer ''x'' ''m'', an_before = writer ''x'' ''b'', an_after = writer ''x'' ''a'',
     an_tools = writer ''x'' ''t'', an_hitl = writer ''x'' ''h'', an_bound = VNil\<rparr>"

lemma agent_graph_always_compiles_witness:
  "\<exists>cg. create_agent demo_agent_nodes demo_agent = Inr cg \<and> graph_wf cg \<and> registered cg ''hitl'' \<and> \<not> registered cg ''after_agent''"
proof -
  have ok: "agent_rejects demo_agent = None" by code_simp
  have names: "''hitl'' \<in> agent_node_names demo_agent" "''after_agent'' \<notin> agent_node_names demo_agent"
    by (simp_all add: agent_node_names_def demo_agent_def hitl_present_def has_interrupt_hitl_def interrupt_hitl_def
        demo_mw_def agent_tools_def merge_middleware_tools_def has_before_agent_def has_after_agent_def)
  note graph = agent_graph_always_compiles [of demo_agent_nodes demo_agent]
  from ok graph obtain cg where "create_agent demo_agent_nodes demo_agent = Inr cg"
    by (cases "create_agent demo_agent_nodes demo_agent") auto
  with graph names show ?thesis by blast
qed

text \<open>Of the messages that several hooks before the agent return, only those of the last one are kept.\<close>

theorem before_agent_keeps_last_messages:
  assumes "md_before_agent mw1 = Some h1" "md_before_agent mw2 = Some h2"
    and "h1 state = Inr [(''messages'', VMsgs first)]" "\<And>st. h2 st = Inr [(''messages'', VMsgs second)]"
  shows "\<exists>upd. before_agent_node [mw1, mw2] final state = Inr (RState upd) \<and> messages_of upd = second"
  using assms by (auto simp: before_agent_node_def jump_or_state_def pop_jump_to_def messages_of_def)

end
