(* ===== verification/AgentHistory.thy ===== *)
theory AgentHistory
  imports AgentLoop
begin

section \<open>Shortening the history (core/messages/trim.go; summarization.go, context_editing.go)\<close>

text \<open>
  Three ways to fit a thread into a model's context: TrimMessages drops messages, the summarization
  middleware replaces the older ones by a summary, the context-editing middleware clears the output of
  old tool calls. The counter of tokens is an argument, and so is how the response metadata of a
  message, \<open>msg_extra\<close>, records that it was cleared. Fractions of a context window are rationals.
\<close>

type_synonym token_counter = "message list \<Rightarrow> int"

subsection \<open>TrimMessages\<close>

record trim_options =
  to_max :: int
  to_strategy :: string
  to_include_system :: bool
  to_start_on :: "string list"
  to_end_on :: "string list"

text \<open>What is left up to the last message of the given roles, and from the first one on.\<close>

fun up_to_last :: "string list \<Rightarrow> message list \<Rightarrow> message list option" where
  "up_to_last roles [] = None"
| "up_to_last roles (m # ms) =
     (case up_to_last roles ms of
        Some r \<Rightarrow> Some (m # r)
      | None \<Rightarrow> (if msg_role m \<in> set roles then Some [m] else None))"

fun from_first :: "string list \<Rightarrow> message list \<Rightarrow> message list option" where
  "from_first roles [] = None"
| "from_first roles (m # ms) = (if msg_role m \<in> set roles then Some (m # ms) else from_first roles ms)"

fun trim_front :: "token_counter \<Rightarrow> int \<Rightarrow> message list \<Rightarrow> message list" where
  "trim_front count limit [] = []"
| "trim_front count limit (m # ms) = (if count (m # ms) > limit then trim_front count limit ms else m # ms)"

function trim_back :: "token_counter \<Rightarrow> int \<Rightarrow> message list \<Rightarrow> message list" where
  "trim_back count limit ms =
     (if ms \<noteq> [] \<and> count ms > limit then trim_back count limit (butlast ms) else ms)"
  by pat_completeness auto
termination by (relation "measure (\<lambda>(count, limit, ms). length ms)") auto

declare trim_back.simps [simp del]

definition end_on :: "string list \<Rightarrow> message list \<Rightarrow> message list" where
  "end_on roles ms = (if roles = [] then ms else case up_to_last roles ms of Some r \<Rightarrow> r | None \<Rightarrow> ms)"

definition start_on :: "string list \<Rightarrow> message list \<Rightarrow> message list" where
  "start_on roles ms = (if roles = [] then ms else case from_first roles ms of Some r \<Rightarrow> r | None \<Rightarrow> ms)"

definition split_system :: "bool \<Rightarrow> message list \<Rightarrow> message list \<times> message list" where
  "split_system wanted ms =
     (case ms of
        [] \<Rightarrow> ([], [])
      | m # rest \<Rightarrow> if wanted \<and> msg_role m = ''system'' then ([m], rest) else ([], ms))"

definition trim_messages :: "token_counter \<Rightarrow> trim_options \<Rightarrow> message list \<Rightarrow> goerr + message list" where
  "trim_messages count opts msgs =
     (let strategy = (if to_strategy opts = [] then ''last'' else to_strategy opts);
          limit = to_max opts in
      if limit < 0 then Inl (EText (''messages: TrimMessages: max_tokens must be non-negative, got '' @ show_int limit))
      else if strategy \<noteq> ''first'' \<and> strategy \<noteq> ''last'' then
        Inl (EText (''messages: TrimMessages: invalid strategy '' @ go_quote strategy))
      else
        let out = end_on (to_end_on opts) msgs in
        if strategy = ''first'' then Inr (trim_back count limit out)
        else
          let (system, rest) = split_system (to_include_system opts) out in
          Inr (system @ start_on (to_start_on opts) (trim_front count limit rest)))"

subsection \<open>Where to cut a thread\<close>

definition calls_one_of :: "string list \<Rightarrow> message \<Rightarrow> bool" where
  "calls_one_of ids m \<longleftrightarrow> msg_role m = ''ai'' \<and> list_ex (\<lambda>c. tc_id c \<noteq> [] \<and> tc_id c \<in> set ids) (msg_tool_calls m)"

fun last_caller :: "string list \<Rightarrow> message list \<Rightarrow> nat option" where
  "last_caller ids [] = None"
| "last_caller ids (m # ms) =
     (case last_caller ids ms of
        Some i \<Rightarrow> Some (Suc i)
      | None \<Rightarrow> (if calls_one_of ids m then Some 0 else None))"

definition find_safe_cutoff :: "message list \<Rightarrow> nat \<Rightarrow> nat" where
  "find_safe_cutoff msgs cutoff =
     (if cutoff \<ge> length msgs \<or> msg_role (msgs ! cutoff) \<noteq> ''tool'' then cutoff
      else
        let run = takeWhile (\<lambda>m. msg_role m = ''tool'') (drop cutoff msgs);
            ids = filter (\<lambda>i. i \<noteq> []) (map msg_tool_call_id run) in
        case last_caller ids (take cutoff msgs) of Some i \<Rightarrow> i | None \<Rightarrow> cutoff + length run)"

text \<open>From the end, the first position at which the budget is exceeded.\<close>

fun budget_scan :: "token_counter \<Rightarrow> int \<Rightarrow> int \<Rightarrow> message list \<Rightarrow> nat option" where
  "budget_scan count budget spent [] = None"
| "budget_scan count budget spent (m # ms) =
     (let spent' = spent + count [m] in
      if spent' > budget then Some (Suc (length ms)) else budget_scan count budget spent' ms)"

definition token_budget_cutoff :: "token_counter \<Rightarrow> message list \<Rightarrow> int \<Rightarrow> nat" where
  "token_budget_cutoff count msgs budget =
     (case budget_scan count budget 0 (rev msgs) of Some i \<Rightarrow> find_safe_cutoff msgs i | None \<Rightarrow> 0)"

subsection \<open>The summarization middleware\<close>

record trigger_clause =
  tcl_tokens :: int
  tcl_messages :: int
  tcl_fraction :: rat

record keep_policy =
  kp_messages :: int
  kp_tokens :: int
  kp_fraction :: rat

text \<open>
  \<open>sm_usage\<close> reads the reported tokens and the provider of a message, \<open>sm_overflow\<close> recognises the error
  of an overflown context; \<open>sm_max_input\<close> and \<open>sm_llm_type\<close> are what the profile of the model says.
\<close>

record 'w summarization =
  sm_trigger :: "trigger_clause list"
  sm_keep :: keep_policy
  sm_prompt :: string
  sm_summarize :: "(string \<Rightarrow> message list \<Rightarrow> 'w \<Rightarrow> (goerr + string) \<times> 'w) option"
  sm_trim :: int
  sm_count :: token_counter
  sm_max_input :: "int option"
  sm_llm_type :: string
  sm_usage :: "message \<Rightarrow> int \<times> string"
  sm_overflow :: "goerr \<Rightarrow> bool"

definition newline :: string where "newline = [CHR 0x0A]"

definition default_summary_prompt :: string where
  "default_summary_prompt = join_with newline
     [''<role>'', ''Context Extraction Assistant'', ''</role>'', [],
      ''The conversation history below will be replaced with the context you extract.'',
      ''Respond ONLY with the extracted context.'', [],
      ''<messages>'', ''Messages to summarize:'', ''{messages}'', ''</messages>'']"

definition new_summarization ::
  "token_counter \<Rightarrow> (message \<Rightarrow> int \<times> string) \<Rightarrow> (goerr \<Rightarrow> bool)
    \<Rightarrow> (string \<Rightarrow> message list \<Rightarrow> 'w \<Rightarrow> (goerr + string) \<times> 'w) option \<Rightarrow> 'w summarization" where
  "new_summarization count usage overflow summarize =
     \<lparr>sm_trigger = [\<lparr>tcl_tokens = 0, tcl_messages = 50, tcl_fraction = 0\<rparr>],
      sm_keep = \<lparr>kp_messages = 20, kp_tokens = 0, kp_fraction = 0\<rparr>, sm_prompt = default_summary_prompt,
      sm_summarize = summarize, sm_trim = 4000, sm_count = count, sm_max_input = None, sm_llm_type = [],
      sm_usage = usage, sm_overflow = overflow\<rparr>"

definition fraction_threshold :: "int \<Rightarrow> rat \<Rightarrow> int" where
  "fraction_threshold max_input fraction = (let t = \<lfloor>of_int max_input * fraction\<rfloor> in if t \<le> 0 then 1 else t)"

definition provider_matches :: "string \<Rightarrow> string \<Rightarrow> bool" where
  "provider_matches provider llm_type \<longleftrightarrow>
     llm_type \<noteq> [] \<and> (take (length provider) llm_type = provider \<or> provider = llm_type)"

definition reported_over :: "'w summarization \<Rightarrow> message list \<Rightarrow> int \<Rightarrow> bool" where
  "reported_over sm msgs threshold =
     (case last_ai msgs of
        None \<Rightarrow> False
      | Some (ai, _) \<Rightarrow>
          (let (used, provider) = sm_usage sm ai in
           used \<noteq> 0 \<and> used \<ge> threshold \<and> provider \<noteq> [] \<and> provider_matches provider (sm_llm_type sm)))"

definition clause_holds :: "'w summarization \<Rightarrow> message list \<Rightarrow> int \<Rightarrow> trigger_clause \<Rightarrow> bool" where
  "clause_holds sm msgs tokens c \<longleftrightarrow>
     \<not> (tcl_messages c > 0 \<and> int (length msgs) < tcl_messages c) \<and>
     \<not> (tcl_tokens c > 0 \<and> tokens < tcl_tokens c \<and> \<not> reported_over sm msgs (tcl_tokens c)) \<and>
     \<not> (tcl_fraction c > 0 \<and>
        (case sm_max_input sm of
           None \<Rightarrow> True
         | Some mx \<Rightarrow> tokens < fraction_threshold mx (tcl_fraction c) \<and>
             \<not> reported_over sm msgs (fraction_threshold mx (tcl_fraction c))))"

definition should_trigger :: "'w summarization \<Rightarrow> message list \<Rightarrow> bool" where
  "should_trigger sm msgs =
     (let clauses = (if sm_trigger sm = [] then [\<lparr>tcl_tokens = 0, tcl_messages = 50, tcl_fraction = 0\<rparr>] else sm_trigger sm);
          tokens = (if list_ex (\<lambda>c. tcl_tokens c > 0 \<or> tcl_fraction c > 0) clauses then sm_count sm msgs else 0) in
      list_ex (clause_holds sm msgs tokens) clauses)"

definition keep_start :: "'w summarization \<Rightarrow> message list \<Rightarrow> nat" where
  "keep_start sm msgs =
     (let keep = sm_keep sm;
          fallback = (if int (length msgs) - 20 < 0 then 0 else length msgs - 20) in
      if kp_messages keep > 0 then
        (if int (length msgs) - kp_messages keep < 0 then 0
         else find_safe_cutoff msgs (nat (int (length msgs) - kp_messages keep)))
      else if kp_tokens keep > 0 then token_budget_cutoff (sm_count sm) msgs (kp_tokens keep)
      else if kp_fraction keep > 0 then
        (case sm_max_input sm of
           Some mx \<Rightarrow> token_budget_cutoff (sm_count sm) msgs (fraction_threshold mx (kp_fraction keep))
         | None \<Rightarrow> fallback)
      else fallback)"

text \<open>The messages handed to the summarizer: the last ones within the budget, from a human message on.\<close>

definition drop_until_human :: "message list \<Rightarrow> message list" where
  "drop_until_human msgs =
     (case msgs of
        [] \<Rightarrow> []
      | m # ms \<Rightarrow>
          if msg_role m = ''system'' then m # dropWhile (\<lambda>x. msg_role x \<noteq> ''human'') ms
          else dropWhile (\<lambda>x. msg_role x \<noteq> ''human'') msgs)"

definition token_budget_trim :: "token_counter \<Rightarrow> message list \<Rightarrow> int \<Rightarrow> message list" where
  "token_budget_trim count msgs budget =
     (case msgs of
        [] \<Rightarrow> []
      | m # ms \<Rightarrow>
          if msg_role m = ''system'' then m # drop (token_budget_cutoff count ms budget) ms
          else drop (token_budget_cutoff count msgs budget) msgs)"

definition trim_for_summary :: "'w summarization \<Rightarrow> message list \<Rightarrow> message list" where
  "trim_for_summary sm msgs =
     (if sm_trim sm \<le> 0 then msgs else drop_until_human (token_budget_trim (sm_count sm) msgs (sm_trim sm)))"

definition buffer_string :: "message list \<Rightarrow> string" where
  "buffer_string msgs = concat (map (\<lambda>m. msg_role m @ '': '' @ msg_content m @ newline) msgs)"

text \<open>\<open>strings.ReplaceAll\<close> for a non-empty old text, and \<open>strings.TrimRight\<close> of white space.\<close>

function replace_all :: "string \<Rightarrow> string \<Rightarrow> string \<Rightarrow> string" where
  "replace_all old new [] = []"
| "replace_all old new (c # cs) =
     (if old \<noteq> [] \<and> take (length old) (c # cs) = old then new @ replace_all old new (drop (length old) (c # cs))
      else c # replace_all old new cs)"
  by pat_completeness auto
termination
proof (relation "measure (\<lambda>(old, new, s). length s)")
  fix old new :: string and c cs
  assume "old \<noteq> [] \<and> take (length old) (c # cs) = old"
  then show "((old, new, drop (length old) (c # cs)), old, new, c # cs) \<in> measure (\<lambda>(old, new, s). length s)"
    by (cases old) auto
qed auto

definition trim_right :: "string \<Rightarrow> string" where
  "trim_right s = rev (dropWhile (\<lambda>c. c \<in> {CHR 0x20, CHR 0x09, CHR 0x0A, CHR 0x0D}) (rev s))"

definition human_message :: "string \<Rightarrow> message" where
  "human_message content = (tool_message [] content)\<lparr>msg_role := ''human''\<rparr>"

definition summary_prompt :: "'w summarization \<Rightarrow> string" where
  "summary_prompt sm = (if sm_prompt sm = [] then default_summary_prompt else sm_prompt sm)"

text \<open>Go's integer division truncates towards zero; the divisors here are positive.\<close>

definition quot :: "int \<Rightarrow> int \<Rightarrow> int" where
  "quot a b = (if a < 0 then - ((- a) div b) else a div b)"

definition overflow_retry_prompt :: "'w summarization \<Rightarrow> message list \<Rightarrow> string option" where
  "overflow_retry_prompt sm trimmed =
     (let formatted = buffer_string trimmed;
          tokens = sm_count sm [human_message formatted];
          half = quot tokens 2;
          budget = (case sm_max_input sm of None \<Rightarrow> half | Some mx \<Rightarrow> min half (quot (mx * 2) 5));
          keep = quot (int (length formatted) * budget) (max tokens 1) in
      if keep \<le> 0 then None
      else
        let front = nat (quot keep 4); rear = nat keep - front;
            splice = take front formatted @ newline @ newline @ ''[... middle of conversation omitted ...]'' @ newline @ newline
              @ drop (length formatted - rear) formatted in
        Some (trim_right (replace_all ''{messages}'' splice (summary_prompt sm))))"

definition summary_text :: "'w summarization \<Rightarrow> (string \<Rightarrow> message list \<Rightarrow> 'w \<Rightarrow> (goerr + string) \<times> 'w)
    \<Rightarrow> message list \<Rightarrow> 'w \<Rightarrow> (goerr + string) \<times> 'w" where
  "summary_text sm summarize trimmed w =
     (if trimmed = [] then (Inr ''Previous conversation was too long to summarize.'', w)
      else
        case summarize (replace_all ''{messages}'' (buffer_string trimmed) (summary_prompt sm)) trimmed w of
          (Inr s, w') \<Rightarrow> (Inr s, w')
        | (Inl e, w') \<Rightarrow>
            if \<not> sm_overflow sm e then (Inl e, w')
            else case overflow_retry_prompt sm trimmed of
              None \<Rightarrow> (Inl e, w')
            | Some p \<Rightarrow> summarize p trimmed w')"

definition summarize_before_model :: "'w summarization \<Rightarrow> gstate \<Rightarrow> 'w \<Rightarrow> (goerr + gstate option) \<times> 'w" where
  "summarize_before_model sm state w =
     (let msgs = messages_of state; start = keep_start sm msgs in
      if msgs = [] \<or> \<not> should_trigger sm msgs then (Inr None, w)
      else case sm_summarize sm of
        None \<Rightarrow> (Inl (EText ''summarization requires a summarizer function''), w)
      | Some summarize \<Rightarrow>
          if start = 0 then (Inr None, w)
          else
            case summary_text sm summarize (trim_for_summary sm (take start msgs)) w of
              (Inl e, w') \<Rightarrow> (Inl e, w')
            | (Inr s, w') \<Rightarrow>
                (Inr (Some [(''messages'', VMsgs ((human_message s)\<lparr>msg_extra := ''summary=true''\<rparr> # drop start msgs))]), w'))"

subsection \<open>The context-editing middleware\<close>

record clear_edit =
  ce_trigger :: int
  ce_at_least :: int
  ce_keep :: int
  ce_inputs :: bool
  ce_exclude :: "string list"
  ce_placeholder :: string

definition new_clear_tool_uses :: clear_edit where
  "new_clear_tool_uses = \<lparr>ce_trigger = 100000, ce_at_least = 0, ce_keep = 3, ce_inputs = False, ce_exclude = [],
     ce_placeholder = ''[cleared]''\<rparr>"

text \<open>
  How the metadata of a message records the edit: whether its output was cleared, the record of the
  clearing, and the record that the input of a call was cleared.
\<close>

record edit_marks =
  em_cleared :: "string \<Rightarrow> bool"
  em_clear :: "string \<Rightarrow> string"
  em_clear_input :: "string \<Rightarrow> string \<Rightarrow> string"

fun last_ai_index :: "message list \<Rightarrow> nat option" where
  "last_ai_index [] = None"
| "last_ai_index (m # ms) =
     (case last_ai_index ms of Some i \<Rightarrow> Some (Suc i) | None \<Rightarrow> (if msg_role m = ''ai'' then Some 0 else None))"

definition find_originating_call :: "message list \<Rightarrow> string \<Rightarrow> (nat \<times> tool_call) option" where
  "find_originating_call msgs call_id =
     (case last_ai_index msgs of
        None \<Rightarrow> None
      | Some i \<Rightarrow> map_option (Pair i) (List.find (\<lambda>c. tc_id c = call_id) (msg_tool_calls (msgs ! i))))"

definition clear_tool_input :: "edit_marks \<Rightarrow> string \<Rightarrow> message \<Rightarrow> message" where
  "clear_tool_input marks call_id m =
     (if list_ex (\<lambda>c. tc_id c = call_id) (msg_tool_calls m) then
        m\<lparr>msg_tool_calls := map (\<lambda>c. if tc_id c = call_id then c\<lparr>tc_args := ''{}''\<rparr> else c) (msg_tool_calls m),
          msg_extra := em_clear_input marks call_id (msg_extra m)\<rparr>
      else m)"

text \<open>One candidate: \<open>None\<close> when it is passed over.\<close>

definition clear_one :: "edit_marks \<Rightarrow> clear_edit \<Rightarrow> nat \<Rightarrow> message list \<Rightarrow> message list option" where
  "clear_one marks e idx out =
     (let m = out ! idx in
      if em_cleared marks (msg_extra m) then None
      else case find_originating_call (take idx out) (msg_tool_call_id m) of
        None \<Rightarrow> None
      | Some (ai, call) \<Rightarrow>
          if (if msg_name m = [] then tc_name call else msg_name m) \<in> set (ce_exclude e) then None
          else
            let out' = out[idx := m\<lparr>msg_content := ce_placeholder e, msg_extra := em_clear marks (msg_extra m)\<rparr>] in
            Some (if ce_inputs e then out'[ai := clear_tool_input marks (msg_tool_call_id m) (out' ! ai)] else out'))"

fun clear_loop :: "edit_marks \<Rightarrow> token_counter \<Rightarrow> clear_edit \<Rightarrow> int \<Rightarrow> nat list \<Rightarrow> message list \<Rightarrow> message list" where
  "clear_loop marks count e original [] out = out"
| "clear_loop marks count e original (idx # idxs) out =
     (case clear_one marks e idx out of
        None \<Rightarrow> clear_loop marks count e original idxs out
      | Some out' \<Rightarrow>
          if ce_at_least e > 0 \<and> original - count out' \<ge> ce_at_least e then out'
          else clear_loop marks count e original idxs out')"

definition clear_candidates :: "clear_edit \<Rightarrow> message list \<Rightarrow> nat list" where
  "clear_candidates e out =
     (let candidates = filter (\<lambda>i. msg_role (out ! i) = ''tool'') [0..<length out] in
      if ce_keep e \<ge> int (length candidates) then []
      else if ce_keep e > 0 then take (length candidates - nat (ce_keep e)) candidates
      else candidates)"

definition apply_clear_edit :: "edit_marks \<Rightarrow> token_counter \<Rightarrow> clear_edit \<Rightarrow> message list \<Rightarrow> message list" where
  "apply_clear_edit marks count edit out =
     (let e = (if ce_placeholder edit = [] then edit\<lparr>ce_placeholder := ''[cleared]''\<rparr> else edit) in
      if count out \<le> ce_trigger e then out
      else clear_loop marks count e (count out) (clear_candidates e out) out)"

definition wrap_context_editing ::
  "edit_marks \<Rightarrow> token_counter \<Rightarrow> clear_edit list \<Rightarrow> 's model_handler \<Rightarrow> 's model_handler" where
  "wrap_context_editing marks count edits h rq s =
     (if mq_messages rq = [] then h rq s
      else h (rq\<lparr>mq_messages := foldl (\<lambda>ms e. apply_clear_edit marks count e ms) (mq_messages rq) edits\<rparr>) s)"

subsection \<open>Threads whose tool messages follow their calls\<close>

text \<open>
  What providers require: a tool message stands in a run of tool messages right after the model message
  that made its call.
\<close>

fun grouped_from :: "string list \<Rightarrow> message list \<Rightarrow> bool" where
  "grouped_from ids [] = True"
| "grouped_from ids (m # ms) =
     (if msg_role m = ''tool'' then msg_tool_call_id m \<noteq> [] \<and> msg_tool_call_id m \<in> set ids \<and> grouped_from ids ms
      else grouped_from (if msg_role m = ''ai'' then map tc_id (msg_tool_calls m) else []) ms)"

abbreviation thread_grouped :: "message list \<Rightarrow> bool" where
  "thread_grouped \<equiv> grouped_from []"

fun open_ids :: "string list \<Rightarrow> message list \<Rightarrow> string list" where
  "open_ids ids [] = ids"
| "open_ids ids (m # ms) =
     open_ids (if msg_role m = ''tool'' then ids else if msg_role m = ''ai'' then map tc_id (msg_tool_calls m) else []) ms"

lemma grouped_append: "grouped_from ids (xs @ ys) \<longleftrightarrow> grouped_from ids xs \<and> grouped_from (open_ids ids xs) ys"
  by (induction xs arbitrary: ids) auto

lemma grouped_start: "ys = [] \<or> msg_role (hd ys) \<noteq> ''tool'' \<Longrightarrow> grouped_from ids ys = thread_grouped ys"
  by (cases ys) auto

lemma grouped_drop:
  assumes "thread_grouped ms" "drop k ms = [] \<or> msg_role (hd (drop k ms)) \<noteq> ''tool''"
  shows "thread_grouped (drop k ms)"
proof -
  from assms(1) have "grouped_from (open_ids [] (take k ms)) (drop k ms)"
    by (metis append_take_drop_id grouped_append)
  with grouped_start [OF assms(2), of "open_ids [] (take k ms)"] show ?thesis by blast
qed

subsection \<open>Cutting keeps calls and replies together\<close>

lemma last_caller_Some:
  "last_caller ids ms = Some i \<Longrightarrow> i < length ms \<and> calls_one_of ids (ms ! i) \<and> (\<forall>j. i < j \<and> j < length ms \<longrightarrow> \<not> calls_one_of ids (ms ! j))"
proof (induction ms arbitrary: i)
  case (Cons m ms)
  show ?case
  proof (cases "last_caller ids ms")
    case None
    have none: "\<not> calls_one_of ids (ms ! j)" if "j < length ms" for j
      using None that
    proof (induction ms arbitrary: j)
      case (Cons x xs)
      then show ?case by (cases j) (auto split: option.splits if_splits)
    qed simp
    from Cons.prems None have "i = 0" "calls_one_of ids m" by (auto split: if_splits)
    with none show ?thesis by (auto simp: nth_Cons split: nat.splits)
  next
    case (Some i')
    with Cons.prems have "i = Suc i'" by simp
    with Cons.IH [OF Some] show ?thesis by (auto simp: nth_Cons split: nat.splits)
  qed
qed simp

lemma last_caller_None: "last_caller ids ms = None \<Longrightarrow> j < length ms \<Longrightarrow> \<not> calls_one_of ids (ms ! j)"
proof (induction ms arbitrary: j)
  case (Cons x xs)
  then show ?case by (cases j) (auto split: option.splits if_splits)
qed simp

text \<open>The call of a tool message is on the model message before its run.\<close>

lemma caller_position:
  "grouped_from ids ms \<Longrightarrow> k < length ms \<Longrightarrow> msg_role (ms ! k) = ''tool'' \<Longrightarrow>
     msg_tool_call_id (ms ! k) \<noteq> [] \<and>
     (msg_tool_call_id (ms ! k) \<in> set ids \<and> (\<forall>j < k. msg_role (ms ! j) = ''tool'') \<or>
      (\<exists>i < k. msg_role (ms ! i) = ''ai'' \<and> msg_tool_call_id (ms ! k) \<in> tc_id ` set (msg_tool_calls (ms ! i)) \<and>
         (\<forall>j. i < j \<and> j < k \<longrightarrow> msg_role (ms ! j) = ''tool'')))"
proof (induction ms arbitrary: ids k)
  case (Cons m ms)
  show ?case
  proof (cases k)
    case 0
    with Cons.prems show ?thesis by simp
  next
    case (Suc k')
    let ?ids = "if msg_role m = ''tool'' then ids else if msg_role m = ''ai'' then map tc_id (msg_tool_calls m) else []"
    from Cons.prems Suc have "grouped_from ?ids ms" "k' < length ms" "msg_role (ms ! k') = ''tool''" by (auto split: if_splits)
    from Cons.IH [OF this] show ?thesis
    proof (elim conjE disjE)
      assume *: "msg_tool_call_id (ms ! k') \<noteq> []" "msg_tool_call_id (ms ! k') \<in> set ?ids" "\<forall>j < k'. msg_role (ms ! j) = ''tool''"
      show ?thesis
      proof (cases "msg_role m = ''tool''")
        case True
        with * Suc show ?thesis by (auto simp: less_Suc_eq_0_disj)
      next
        case False
        with *(2) have "msg_role m = ''ai''" "msg_tool_call_id (ms ! k') \<in> tc_id ` set (msg_tool_calls m)" by (auto split: if_splits)
        with * Suc show ?thesis by (auto simp: nth_Cons split: nat.splits intro!: exI [of _ 0])
      qed
    next
      assume "msg_tool_call_id (ms ! k') \<noteq> []"
        and "\<exists>i < k'. msg_role (ms ! i) = ''ai'' \<and> msg_tool_call_id (ms ! k') \<in> tc_id ` set (msg_tool_calls (ms ! i)) \<and>
          (\<forall>j. i < j \<and> j < k' \<longrightarrow> msg_role (ms ! j) = ''tool'')"
      then obtain i where i: "i < k'" "msg_role (ms ! i) = ''ai''" "msg_tool_call_id (ms ! k') \<in> tc_id ` set (msg_tool_calls (ms ! i))"
          "\<And>j. i < j \<Longrightarrow> j < k' \<Longrightarrow> msg_role (ms ! j) = ''tool''" "msg_tool_call_id (ms ! k') \<noteq> []" by blast
      have "msg_role ((m # ms) ! j) = ''tool''" if "Suc i < j" "j < k" for j
        using i(4) that Suc by (cases j) auto
      with i Suc show ?thesis by (intro conjI disjI2 exI [of _ "Suc i"]) auto
    qed
  qed
qed simp

lemma cutoff_keeps_groups:
  assumes "thread_grouped ms"
  shows "thread_grouped (drop (find_safe_cutoff ms k) ms)"
proof (rule grouped_drop [OF assms])
  let ?cut = "find_safe_cutoff ms k" and ?run = "takeWhile (\<lambda>m. msg_role m = ''tool'') (drop k ms)"
  show "drop ?cut ms = [] \<or> msg_role (hd (drop ?cut ms)) \<noteq> ''tool''"
  proof (cases "k \<ge> length ms \<or> msg_role (ms ! k) \<noteq> ''tool''")
    case True
    then have "?cut = k" by (simp add: find_safe_cutoff_def)
    with True show ?thesis by (cases "k < length ms") (auto simp: hd_drop_conv_nth)
  next
    case False
    let ?ids = "filter (\<lambda>i. i \<noteq> []) (map msg_tool_call_id ?run)"
    have cut: "?cut = (case last_caller ?ids (take k ms) of Some i \<Rightarrow> i | None \<Rightarrow> k + length ?run)"
      using False by (simp add: find_safe_cutoff_def Let_def)
    show ?thesis
    proof (cases "last_caller ?ids (take k ms)")
      case None
      have "drop ?cut ms = dropWhile (\<lambda>m. msg_role m = ''tool'') (drop k ms)"
        by (simp add: cut None dropWhile_eq_drop add.commute)
      then show ?thesis using hd_dropWhile [of "\<lambda>m. msg_role m = ''tool''" "drop k ms"] by auto
    next
      case (Some i)
      from last_caller_Some [OF Some] have "i < length ms" "msg_role (ms ! i) = ''ai''" by (auto simp: calls_one_of_def)
      then show ?thesis by (simp add: cut Some hd_drop_conv_nth)
    qed
  qed
qed

lemma cutoff_moves_back:
  assumes "thread_grouped ms" "k \<le> length ms"
  shows "find_safe_cutoff ms k \<le> k" "find_safe_cutoff ms k < j \<Longrightarrow> j < k \<Longrightarrow> msg_role (ms ! j) = ''tool''"
proof -
  let ?cut = "find_safe_cutoff ms k"
  have "?cut \<le> k \<and> (\<forall>j. ?cut < j \<and> j < k \<longrightarrow> msg_role (ms ! j) = ''tool'')"
  proof (cases "k \<ge> length ms \<or> msg_role (ms ! k) \<noteq> ''tool''")
    case True
    then show ?thesis by (auto simp: find_safe_cutoff_def)
  next
    case False
    let ?run = "takeWhile (\<lambda>m. msg_role m = ''tool'') (drop k ms)"
    let ?ids = "filter (\<lambda>i. i \<noteq> []) (map msg_tool_call_id ?run)"
    have k: "k < length ms" "msg_role (ms ! k) = ''tool''" using False by auto
    then have "drop k ms = ms ! k # drop (Suc k) ms" by (simp add: Cons_nth_drop_Suc)
    with k have first: "ms ! k \<in> set ?run" by simp
    from caller_position [OF assms(1) k] obtain i where i: "i < k" "msg_role (ms ! i) = ''ai''"
        "msg_tool_call_id (ms ! k) \<in> tc_id ` set (msg_tool_calls (ms ! i))" "msg_tool_call_id (ms ! k) \<noteq> []"
        and between: "\<And>j. i < j \<Longrightarrow> j < k \<Longrightarrow> msg_role (ms ! j) = ''tool''" by auto
    have calls: "calls_one_of ?ids (take k ms ! i)"
    proof -
      from i(3) obtain c where c: "c \<in> set (msg_tool_calls (ms ! i))" "tc_id c = msg_tool_call_id (ms ! k)" by auto
      with i(4) first have "tc_id c \<in> set ?ids" by (simp add: image_iff) blast
      with c i(4) have "\<exists>c \<in> set (msg_tool_calls (ms ! i)). tc_id c \<noteq> [] \<and> tc_id c \<in> set ?ids" by metis
      with i(1,2) show ?thesis by (simp add: calls_one_of_def list_ex_iff del: set_filter set_map)
    qed
    obtain i' where i': "last_caller ?ids (take k ms) = Some i'"
      using calls i(1) k(1) last_caller_None [of ?ids "take k ms" i] by (cases "last_caller ?ids (take k ms)") auto
    note found = last_caller_Some [OF i']
    have "\<not> i < i'"
    proof
      assume "i < i'"
      with found between [of i'] k(1) have "msg_role (ms ! i') = ''tool''" by auto
      with found k(1) show False by (auto simp: calls_one_of_def)
    qed
    moreover have "\<not> i' < i" using found calls i(1) k(1) by auto
    ultimately have "?cut = i" using False i' by (simp add: find_safe_cutoff_def Let_def)
    with i(1) between show ?thesis by auto
  qed
  then show "?cut \<le> k" "?cut < j \<Longrightarrow> j < k \<Longrightarrow> msg_role (ms ! j) = ''tool''" by blast+
qed

lemma budget_scan_bound: "budget_scan count budget spent ms = Some i \<Longrightarrow> 0 < i \<and> i \<le> length ms"
  by (induction ms arbitrary: spent) (fastforce simp: Let_def split: if_splits)+

lemma budget_cutoff_groups:
  assumes "thread_grouped ms"
  shows "token_budget_cutoff count ms budget \<le> length ms" "thread_grouped (drop (token_budget_cutoff count ms budget) ms)"
proof -
  show "thread_grouped (drop (token_budget_cutoff count ms budget) ms)"
    using assms cutoff_keeps_groups [OF assms] by (simp add: token_budget_cutoff_def split: option.split)
  show "token_budget_cutoff count ms budget \<le> length ms"
  proof (cases "budget_scan count budget 0 (rev ms)")
    case (Some i)
    from budget_scan_bound [OF this] have "i \<le> length ms" by simp
    with cutoff_moves_back(1) [OF assms this] Some show ?thesis by (simp add: token_budget_cutoff_def)
  qed (simp add: token_budget_cutoff_def)
qed

lemma keep_start_groups:
  assumes "thread_grouped ms" "kp_messages (sm_keep sm) > 0 \<or> kp_tokens (sm_keep sm) > 0"
  shows "keep_start sm ms \<le> length ms" "thread_grouped (drop (keep_start sm ms) ms)"
    "kp_messages (sm_keep sm) > 0 \<Longrightarrow> int (keep_start sm ms) \<le> max 0 (int (length ms) - kp_messages (sm_keep sm))"
proof -
  let ?keep = "kp_messages (sm_keep sm)" and ?k = "nat (int (length ms) - kp_messages (sm_keep sm))"
  have "keep_start sm ms \<le> length ms \<and> thread_grouped (drop (keep_start sm ms) ms) \<and>
      (?keep > 0 \<longrightarrow> int (keep_start sm ms) \<le> max 0 (int (length ms) - ?keep))"
  proof (cases "?keep > 0")
    case True
    show ?thesis
    proof (cases "int (length ms) - ?keep < 0")
      case True
      with \<open>?keep > 0\<close> assms(1) show ?thesis by (simp add: keep_start_def)
    next
      case False
      with True have eq: "keep_start sm ms = find_safe_cutoff ms ?k" by (simp add: keep_start_def)
      have k: "?k \<le> length ms" using True False by linarith
      have le: "find_safe_cutoff ms ?k \<le> ?k" by (rule cutoff_moves_back(1) [OF assms(1) k])
      then have "int (find_safe_cutoff ms ?k) \<le> max 0 (int (length ms) - ?keep)" using False by linarith
      with le k cutoff_keeps_groups [OF assms(1)] show ?thesis unfolding eq by auto
    qed
  next
    case False
    with assms(2) have "keep_start sm ms = token_budget_cutoff (sm_count sm) ms (kp_tokens (sm_keep sm))"
      by (simp add: keep_start_def)
    with budget_cutoff_groups [OF assms(1)] False show ?thesis by simp
  qed
  then show "keep_start sm ms \<le> length ms" "thread_grouped (drop (keep_start sm ms) ms)"
    "?keep > 0 \<Longrightarrow> int (keep_start sm ms) \<le> max 0 (int (length ms) - ?keep)" by blast+
qed

text \<open>
  C36: when the middleware summarizes a thread whose tool messages follow their calls, with a retention
  of messages or of tokens, the thread it hands on is one human message followed by an end of the old
  thread: a reply is never kept without the message that called for it. A retention of messages keeps
  at least that many, and what it keeps beyond is one model message and its tool messages.
\<close>

theorem summary_keeps_calls_with_replies:
  assumes "thread_grouped (messages_of state)"
    and "summarize_before_model sm state w = (Inr (Some upd), w')"
    and "kp_messages (sm_keep sm) > 0 \<or> kp_tokens (sm_keep sm) > 0"
  shows "thread_grouped (messages_of upd) \<and>
    (\<exists>summary k. messages_of upd = summary # drop k (messages_of state) \<and> msg_role summary = ''human'' \<and> 0 < k \<and>
       (kp_messages (sm_keep sm) > 0 \<longrightarrow>
          kp_messages (sm_keep sm) \<le> int (length (drop k (messages_of state))) \<and>
          (\<forall>j. k < j \<and> int j < int (length (messages_of state)) - kp_messages (sm_keep sm) \<longrightarrow>
             msg_role (messages_of state ! j) = ''tool'')))"
proof -
  let ?ms = "messages_of state" and ?keep = "kp_messages (sm_keep sm)"
  define k where "k = keep_start sm ?ms"
  from assms(2) obtain s where k: "0 < k"
    and upd: "messages_of upd = (human_message s)\<lparr>msg_extra := ''summary=true''\<rparr> # drop k ?ms"
    by (auto simp: summarize_before_model_def Let_def k_def messages_of_def split: if_splits option.splits prod.splits sum.splits)
  note start = keep_start_groups [OF assms(1,3), folded k_def]
  have human: "msg_role ((human_message s)\<lparr>msg_extra := ''summary=true''\<rparr>) = ''human''" by (simp add: human_message_def)
  have "thread_grouped (messages_of upd)" using start(2) human by (simp add: upd)
  moreover have "?keep \<le> int (length (drop k ?ms)) \<and>
      (\<forall>j. k < j \<and> int j < int (length ?ms) - ?keep \<longrightarrow> msg_role (?ms ! j) = ''tool'')" if "?keep > 0"
  proof -
    let ?at = "nat (int (length ?ms) - ?keep)"
    have large: "\<not> int (length ?ms) - ?keep < 0" using k that by (auto simp: k_def keep_start_def)
    with that have "k = find_safe_cutoff ?ms ?at" by (simp add: k_def keep_start_def)
    moreover have "?at \<le> length ?ms" using that by linarith
    ultimately have "\<forall>j. k < j \<and> j < ?at \<longrightarrow> msg_role (?ms ! j) = ''tool''" "k \<le> ?at"
      using cutoff_moves_back [OF assms(1)] by blast+
    with large that show ?thesis by auto
  qed
  ultimately show ?thesis using upd human k by blast
qed

definition history_sample :: "message list" where
  "history_sample = [human_message ''hello'', loop_ai [demo_call ''c'' ''hi''], loop_reply, human_message ''and?'', loop_ai []]"

definition sample_summarization :: "keep_policy \<Rightarrow> nat summarization" where
  "sample_summarization keep =
     (new_summarization (\<lambda>ms. int (length ms)) (\<lambda>m. (0, [])) (\<lambda>e. False)
        (Some (\<lambda>p ms w. (Inr ''they said hello'', Suc w))))
       \<lparr>sm_trigger := [\<lparr>tcl_tokens = 0, tcl_messages = 3, tcl_fraction = 0\<rparr>], sm_keep := keep, sm_trim := 0\<rparr>"

definition keep_messages :: "int \<Rightarrow> keep_policy" where
  "keep_messages n = \<lparr>kp_messages = n, kp_tokens = 0, kp_fraction = 0\<rparr>"

lemma history_summary:
  "summarize_before_model (sample_summarization (keep_messages 3)) (loop_state history_sample) 0 =
     (Inr (Some [(''messages'', VMsgs ((human_message ''they said hello'')\<lparr>msg_extra := ''summary=true''\<rparr> # drop 1 history_sample))]), 1)"
  by (simp add: summarize_before_model_def sample_summarization_def keep_messages_def loop_state_def messages_of_def keep_start_def
      history_sample_def find_safe_cutoff_def should_trigger_def clause_holds_def new_summarization_def summary_text_def
      trim_for_summary_def loop_reply_def tool_message_def calls_one_of_def loop_ai_def demo_ai_def demo_call_def human_message_def)

lemma summary_keeps_calls_with_replies_witness:
  "thread_grouped ((human_message ''they said hello'')\<lparr>msg_extra := ''summary=true''\<rparr> # drop 1 history_sample)"
proof -
  have "thread_grouped (messages_of (loop_state history_sample))"
    by (simp add: loop_state_def messages_of_def history_sample_def human_message_def tool_message_def loop_ai_def demo_ai_def
        demo_call_def loop_reply_def)
  note whole = summary_keeps_calls_with_replies [OF this history_summary]
  have "kp_messages (sm_keep (sample_summarization (keep_messages 3))) > 0"
    by (simp add: sample_summarization_def keep_messages_def)
  with whole have "thread_grouped (messages_of [(''messages'', VMsgs ((human_message ''they said hello'')\<lparr>msg_extra := ''summary=true''\<rparr> # drop 1 history_sample))])"
    by blast
  moreover have "messages_of [(''messages'', VMsgs ms)] = ms" for ms by (simp add: messages_of_def)
  ultimately show ?thesis by (simp only:)
qed

text \<open>Without a retention the cut is not moved: a reply may open the thread the model is sent.\<close>

theorem default_retention_splits_calls:
  "let ms = history_sample @ replicate 17 (human_message ''go on'') in
   thread_grouped ms \<and> keep_start (sample_summarization (keep_messages 0)) ms = 2 \<and>
   \<not> thread_grouped (drop (keep_start (sample_summarization (keep_messages 0)) ms) ms)"
  by (simp add: Let_def history_sample_def keep_start_def sample_summarization_def keep_messages_def numeral_eq_Suc
      human_message_def tool_message_def loop_ai_def demo_ai_def demo_call_def loop_reply_def)

subsection \<open>Clearing keeps the thread\<close>

text \<open>What an edit leaves of a message: all but the text of a tool message, the arguments of calls and the metadata.\<close>

definition shape :: "message \<Rightarrow> string \<times> string \<times> string \<times> string \<times> (string \<times> string) list \<times> tool_call list \<times> string" where
  "shape m = (msg_role m, msg_name m, msg_id m, msg_tool_call_id m, map (\<lambda>c. (tc_id c, tc_name c)) (msg_tool_calls m),
     msg_invalid_calls m, if msg_role m = ''tool'' then [] else msg_content m)"

lemma shape_eqD:
  assumes "shape a = shape b"
  shows "msg_role a = msg_role b" "msg_tool_call_id a = msg_tool_call_id b" "map tc_id (msg_tool_calls a) = map tc_id (msg_tool_calls b)"
proof -
  from assms have "map (\<lambda>c. (tc_id c, tc_name c)) (msg_tool_calls a) = map (\<lambda>c. (tc_id c, tc_name c)) (msg_tool_calls b)"
    by (simp add: shape_def)
  then have "map fst (map (\<lambda>c. (tc_id c, tc_name c)) (msg_tool_calls a)) = map fst (map (\<lambda>c. (tc_id c, tc_name c)) (msg_tool_calls b))"
    by simp
  then show "map tc_id (msg_tool_calls a) = map tc_id (msg_tool_calls b)" by (simp add: comp_def)
qed (use assms in \<open>simp_all add: shape_def\<close>)

lemma shape_cleared [simp]:
  "msg_role m = ''tool'' \<Longrightarrow> shape (m\<lparr>msg_content := t, msg_extra := x\<rparr>) = shape m"
  by (simp add: shape_def)

lemma shape_input [simp]: "shape (clear_tool_input marks i m) = shape m"
  by (auto simp: shape_def clear_tool_input_def comp_def intro!: map_cong)

lemma grouped_shape: "map shape xs = map shape ys \<Longrightarrow> grouped_from ids xs = grouped_from ids ys"
proof (induction xs arbitrary: ys ids)
  case (Cons x xs)
  then obtain y zs where ys: "ys = y # zs" and eq: "shape x = shape y" "map shape xs = map shape zs" by auto
  from Cons.IH [OF eq(2)] shape_eqD [OF eq(1)] show ?case by (simp add: ys)
qed simp

lemma last_ai_shape:
  "map shape xs = map shape ys \<Longrightarrow>
     rel_option (\<lambda>(a, r) (b, s). shape a = shape b \<and> map shape r = map shape s) (last_ai xs) (last_ai ys)"
proof (induction xs arbitrary: ys)
  case (Cons x xs)
  then obtain y zs where ys: "ys = y # zs" and eq: "shape x = shape y" "map shape xs = map shape zs" by auto
  from Cons.IH [OF eq(2)] eq shape_eqD(1) [OF eq(1)] show ?case
    by (cases "last_ai xs"; cases "last_ai zs") (auto simp: ys)
qed simp

lemma filter_tools_shape:
  "map shape r = map shape s \<Longrightarrow>
     map msg_tool_call_id (filter (\<lambda>m. msg_role m = ''tool'') r) = map msg_tool_call_id (filter (\<lambda>m. msg_role m = ''tool'') s)"
proof (induction r arbitrary: s)
  case (Cons x r)
  then obtain y zs where ys: "s = y # zs" and eq: "shape x = shape y" "map shape r = map shape zs" by auto
  from Cons.IH [OF eq(2)] shape_eqD [OF eq(1)] show ?case by (simp add: ys)
qed simp

lemma map_filter_ids: "map f (filter (\<lambda>c. f c \<notin> S) xs) = filter (\<lambda>i. i \<notin> S) (map f xs)"
  by (simp add: filter_map comp_def)

lemma unanswered_shape:
  assumes "map shape xs = map shape ys"
  shows "map tc_id (unanswered_tool_calls xs) = map tc_id (unanswered_tool_calls ys)"
proof (cases "last_ai xs")
  case None
  with last_ai_shape [OF assms] have "last_ai ys = None" by simp
  with None show ?thesis by (simp add: unanswered_tool_calls_def last_ai_and_tool_messages_def)
next
  case (Some p)
  with last_ai_shape [OF assms] obtain a r b s where "p = (a, r)" "last_ai ys = Some (b, s)"
      and eq: "shape a = shape b" "map shape r = map shape s"
    by (cases p) (auto simp: option_rel_Some1)
  with Some show ?thesis
    using filter_tools_shape [OF eq(2)] shape_eqD(3) [OF eq(1)]
    by (simp add: unanswered_tool_calls_def last_ai_and_tool_messages_def map_filter_ids flip: set_map)
qed

lemma last_ai_index_Some: "last_ai_index ms = Some i \<Longrightarrow> i < length ms \<and> msg_role (ms ! i) = ''ai''"
  by (induction ms arbitrary: i) (auto split: option.splits if_splits)

lemma map_shape_update: "i < length out \<Longrightarrow> shape m = shape (out ! i) \<Longrightarrow> map shape (out[i := m]) = map shape out"
  by (simp add: map_update list_update_same_conv)

text \<open>One clearing: the shape stays, the message is a candidate that some model message called for.\<close>

lemma clear_one_keeps:
  assumes "clear_one marks e idx out = Some out'" "idx < length out" "msg_role (out ! idx) = ''tool''"
  shows "map shape out' = map shape out" "\<And>j. j \<noteq> idx \<Longrightarrow> msg_role (out ! j) = ''tool'' \<Longrightarrow> out' ! j = out ! j"
proof -
  let ?m = "out ! idx"
  let ?out = "out[idx := ?m\<lparr>msg_content := ce_placeholder e, msg_extra := em_clear marks (msg_extra ?m)\<rparr>]"
  from assms(1) obtain ai call where origin: "find_originating_call (take idx out) (msg_tool_call_id ?m) = Some (ai, call)"
    and out': "out' = (if ce_inputs e then ?out[ai := clear_tool_input marks (msg_tool_call_id ?m) (?out ! ai)] else ?out)"
    by (auto simp: clear_one_def Let_def split: if_splits option.splits)
  have ai: "ai < idx" "msg_role (out ! ai) = ''ai''"
    using origin last_ai_index_Some assms(2) by (fastforce simp: find_originating_call_def split: option.splits)+
  have shapes: "map shape ?out = map shape out" using assms(2,3) by (intro map_shape_update) simp_all
  then show "map shape out' = map shape out"
    using ai(1) assms(2) by (simp add: out' map_shape_update)
  show "out' ! j = out ! j" if "j \<noteq> idx" "msg_role (out ! j) = ''tool''" for j
    using that ai(2) by (cases "j = ai") (simp_all add: out')
qed

lemma shape_nth:
  assumes "map shape xs = map shape ys" "i < length xs"
  shows "length ys = length xs" "msg_role (xs ! i) = msg_role (ys ! i)"
proof -
  show len: "length ys = length xs" using arg_cong [OF assms(1), of length] by simp
  have "shape (xs ! i) = shape (ys ! i)" using assms len by (metis nth_map)
  then show "msg_role (xs ! i) = msg_role (ys ! i)" by (rule shape_eqD(1))
qed

lemma clear_one_content:
  assumes "clear_one marks e idx out = Some out'" "idx < length out"
  shows "msg_role (out' ! idx) = ''tool'' \<longrightarrow> msg_content (out' ! idx) = ce_placeholder e"
  using assms by (auto simp: clear_one_def Let_def nth_list_update clear_tool_input_def split: if_splits option.splits)

lemma clear_loop_keeps:
  assumes "\<forall>i \<in> set idxs. i < length out \<and> msg_role (out ! i) = ''tool''"
  shows "map shape (clear_loop marks count e original idxs out) = map shape out \<and>
    (\<forall>j < length out. msg_role (out ! j) = ''tool'' \<longrightarrow>
       clear_loop marks count e original idxs out ! j = out ! j \<or>
       j \<in> set idxs \<and> msg_content (clear_loop marks count e original idxs out ! j) = ce_placeholder e)"
  using assms
proof (induction idxs arbitrary: out)
  case (Cons idx idxs)
  show ?case
  proof (cases "clear_one marks e idx out")
    case None
    with Cons show ?thesis by auto
  next
    case (Some out')
    from Cons.prems have idx: "idx < length out" "msg_role (out ! idx) = ''tool''" by auto
    note one = clear_one_keeps [OF Some idx]
    have len: "length out' = length out" using arg_cong [OF one(1), of length] by simp
    have roles: "msg_role (out' ! j) = msg_role (out ! j)" if "j < length out" for j
      using shape_nth(2) [OF one(1)] that len by simp
    have now: "\<forall>j < length out. msg_role (out ! j) = ''tool'' \<longrightarrow> out' ! j = out ! j \<or>
        j = idx \<and> msg_content (out' ! j) = ce_placeholder e"
      using one(2) clear_one_content [OF Some idx(1)] roles idx by metis
    show ?thesis
    proof (cases "ce_at_least e > 0 \<and> original - count out' \<ge> ce_at_least e")
      case True
      with Some one(1) now show ?thesis by auto
    next
      case False
      have "\<forall>i \<in> set idxs. i < length out' \<and> msg_role (out' ! i) = ''tool''"
        using Cons.prems len roles by simp
      note IH = Cons.IH [OF this]
      have eq: "clear_loop marks count e original (idx # idxs) out = clear_loop marks count e original idxs out'"
        by (simp only: clear_loop.simps Some option.case if_not_P [OF False])
      have "clear_loop marks count e original idxs out' ! j = out ! j \<or>
          j \<in> set (idx # idxs) \<and> msg_content (clear_loop marks count e original idxs out' ! j) = ce_placeholder e"
        if "j < length out" "msg_role (out ! j) = ''tool''" for j
        using IH now that len roles [OF that(1)] by (metis list.set_intros)
      with IH one(1) show ?thesis unfolding eq by metis
    qed
  qed
qed simp

definition tool_positions :: "message list \<Rightarrow> nat list" where
  "tool_positions ms = filter (\<lambda>i. msg_role (ms ! i) = ''tool'') [0..<length ms]"

lemma clear_candidates_eq:
  "clear_candidates e ms = take (length (tool_positions ms) - nat (ce_keep e)) (tool_positions ms)"
  by (auto simp: clear_candidates_def Let_def tool_positions_def)

text \<open>
  C37: an edit that clears tool output leaves the thread as it was but for the text of tool messages, the
  arguments of calls and the metadata: every message keeps its place, its role, its IDs and its calls, so
  that replies still follow their calls and the open calls are the same. The last tool messages, as many as
  are to be kept, are untouched, and a tool message that changed holds the placeholder.
\<close>

theorem context_editing_keeps_the_thread:
  "map shape (apply_clear_edit marks count e ms) = map shape ms \<and>
   thread_grouped (apply_clear_edit marks count e ms) = thread_grouped ms \<and>
   map tc_id (unanswered_tool_calls (apply_clear_edit marks count e ms)) = map tc_id (unanswered_tool_calls ms) \<and>
   (\<forall>j \<in> set (drop (length (tool_positions ms) - nat (ce_keep e)) (tool_positions ms)).
      apply_clear_edit marks count e ms ! j = ms ! j) \<and>
   (\<forall>j \<in> set (tool_positions ms). apply_clear_edit marks count e ms ! j = ms ! j \<or>
      msg_content (apply_clear_edit marks count e ms ! j) = (if ce_placeholder e = [] then ''[cleared]'' else ce_placeholder e))"
proof -
  define e' where "e' = (if ce_placeholder e = [] then e\<lparr>ce_placeholder := ''[cleared]''\<rparr> else e)"
  let ?out = "apply_clear_edit marks count e ms" and ?cands = "clear_candidates e ms"
  have cands: "clear_candidates e' ms = ?cands" by (simp add: e'_def clear_candidates_eq)
  have valid: "\<forall>i \<in> set ?cands. i < length ms \<and> msg_role (ms ! i) = ''tool''"
    unfolding clear_candidates_eq by (auto simp: tool_positions_def dest!: in_set_takeD)
  have out: "?out = (if count ms \<le> ce_trigger e' then ms else clear_loop marks count e' (count ms) ?cands ms)"
    by (simp add: apply_clear_edit_def Let_def cands flip: e'_def)
  note loop = clear_loop_keeps [OF valid, of marks count e' "count ms"]
  have shapes: "map shape ?out = map shape ms" using loop by (simp add: out)
  have changed: "?out ! j = ms ! j \<or> j \<in> set ?cands \<and> msg_content (?out ! j) = ce_placeholder e'"
    if "j \<in> set (tool_positions ms)" for j
    using loop that by (simp add: out tool_positions_def)
  have "distinct (tool_positions ms)" by (simp add: tool_positions_def)
  then have kept: "j \<notin> set ?cands" if "j \<in> set (drop (length (tool_positions ms) - nat (ce_keep e)) (tool_positions ms))" for j
    unfolding clear_candidates_eq using that set_take_disj_set_drop_if_distinct [of "tool_positions ms"] by fastforce
  have "ce_placeholder e' = (if ce_placeholder e = [] then ''[cleared]'' else ce_placeholder e)" by (simp add: e'_def)
  with shapes changed kept show ?thesis
    using grouped_shape [OF shapes] unanswered_shape [OF shapes] by (metis in_set_dropD)
qed

definition sample_marks :: edit_marks where
  "sample_marks = \<lparr>em_cleared = (\<lambda>x. x = ''cleared''), em_clear = (\<lambda>x. ''cleared''), em_clear_input = (\<lambda>i x. x)\<rparr>"

definition sample_edit :: clear_edit where
  "sample_edit = new_clear_tool_uses\<lparr>ce_trigger := 0, ce_keep := 0, ce_inputs := True\<rparr>"

lemma context_editing_keeps_the_thread_witness:
  "let out = apply_clear_edit sample_marks (\<lambda>ms. int (length ms)) sample_edit history_sample in
   msg_content (out ! 2) = ''[cleared]'' \<and> map shape out = map shape history_sample \<and>
   (out ! 2 = history_sample ! 2 \<or> msg_content (out ! 2) = ''[cleared]'')"
proof -
  note edit = context_editing_keeps_the_thread [of sample_marks "\<lambda>ms. int (length ms)" sample_edit history_sample]
  have pos: "2 \<in> set (tool_positions history_sample)" by code_simp
  have "msg_content (apply_clear_edit sample_marks (\<lambda>ms. int (length ms)) sample_edit history_sample ! 2) = ''[cleared]''"
    by code_simp
  with edit show ?thesis unfolding Let_def by blast
qed

subsection \<open>What TrimMessages keeps\<close>

lemma trim_front_suffix:
  "\<exists>front. ms = front @ trim_front count limit ms \<and>
     (trim_front count limit ms = [] \<or> count (trim_front count limit ms) \<le> limit) \<and>
     (front \<noteq> [] \<longrightarrow> count (List.last front # trim_front count limit ms) > limit)"
proof (induction ms)
  case (Cons m ms)
  then obtain front where IH: "ms = front @ trim_front count limit ms"
      "trim_front count limit ms = [] \<or> count (trim_front count limit ms) \<le> limit"
      "front \<noteq> [] \<longrightarrow> count (List.last front # trim_front count limit ms) > limit" by blast
  show ?case
  proof (cases "count (m # ms) > limit")
    case True
    have "count (List.last (m # front) # trim_front count limit ms) > limit"
      using IH True by (cases front) auto
    with IH True show ?thesis by (intro exI [of _ "m # front"]) auto
  qed (auto intro: exI [of _ "[]"])
qed simp

lemma trim_back_prefix:
  "\<exists>tail. ms = trim_back count limit ms @ tail \<and>
     (trim_back count limit ms = [] \<or> count (trim_back count limit ms) \<le> limit) \<and>
     (tail \<noteq> [] \<longrightarrow> count (trim_back count limit ms @ [hd tail]) > limit)"
proof (induction count limit ms rule: trim_back.induct)
  case (1 count limit ms)
  let ?out = "trim_back count limit ms"
  show ?case
  proof (cases "ms \<noteq> [] \<and> count ms > limit")
    case True
    from 1 [OF True] obtain tail where tail: "butlast ms = trim_back count limit (butlast ms) @ tail"
        "trim_back count limit (butlast ms) = [] \<or> count (trim_back count limit (butlast ms)) \<le> limit"
        "tail \<noteq> [] \<longrightarrow> count (trim_back count limit (butlast ms) @ [hd tail]) > limit" by blast
    have out: "?out = trim_back count limit (butlast ms)" using True by (simp add: trim_back.simps [of count limit ms])
    have "ms = butlast ms @ [List.last ms]" using True by simp
    then have whole: "ms = ?out @ (tail @ [List.last ms])" using tail(1) unfolding out by (metis append_assoc)
    moreover have "count (?out @ [hd (tail @ [List.last ms])]) > limit"
    proof (cases tail)
      case Nil
      with whole True show ?thesis by simp
    qed (use tail(3) out in simp)
    ultimately show ?thesis using tail(2) out by (intro exI [of _ "tail @ [List.last ms]"]) simp
  next
    case False
    then have "?out = ms" by (auto simp: trim_back.simps [of count limit ms])
    with False show ?thesis by (intro exI [of _ "[]"]) auto
  qed
qed

lemma up_to_last_prefix: "up_to_last roles ms = Some r \<Longrightarrow> \<exists>tail. ms = r @ tail"
  by (induction ms arbitrary: r) (auto split: option.splits if_splits)

lemma from_first_suffix: "from_first roles ms = Some r \<Longrightarrow> \<exists>front. ms = front @ r"
  by (induction ms) (auto split: if_splits intro: exI [of _ "[]"] append_Cons [symmetric])

lemma end_on_prefix: "\<exists>gone. ms = end_on roles ms @ gone \<and> (roles = [] \<longrightarrow> gone = [])"
  using up_to_last_prefix [of roles ms] by (cases "up_to_last roles ms") (auto simp: end_on_def)

lemma start_on_suffix: "\<exists>more. ms = more @ start_on roles ms \<and> (roles = [] \<longrightarrow> more = [])"
  using from_first_suffix [of roles ms] by (cases "from_first roles ms") (auto simp: start_on_def)

text \<open>
  C38: what TrimMessages returns is a contiguous part of the thread, behind the leading system message when
  that is to be kept. With a counter that grows with the messages this part fits the limit; the system
  message is not counted. Without roles to start or end on, one message more would not have fitted.
\<close>

theorem trimmed_messages_fit:
  assumes "trim_messages count opts ms = Inr out"
    and "\<forall>xs ys. count xs \<le> count (xs @ ys) \<and> count ys \<le> count (xs @ ys)"
  shows "\<exists>system front kept rest. ms = system @ front @ kept @ rest \<and> out = system @ kept \<and>
    (system = [] \<or> to_include_system opts \<and> length system = 1 \<and> msg_role (hd system) = ''system'') \<and>
    (kept = [] \<or> count kept \<le> to_max opts) \<and>
    (to_start_on opts = [] \<longrightarrow> front \<noteq> [] \<longrightarrow> count (List.last front # kept) > to_max opts) \<and>
    (to_end_on opts = [] \<longrightarrow> rest \<noteq> [] \<longrightarrow> count (kept @ [hd rest]) > to_max opts)"
proof -
  define cut where "cut = end_on (to_end_on opts) ms"
  obtain gone where gone: "ms = cut @ gone" "to_end_on opts = [] \<Longrightarrow> gone = []"
    using end_on_prefix [of ms "to_end_on opts", folded cut_def] by blast
  show ?thesis
  proof (cases "to_strategy opts = ''first''")
    case True
    with assms(1) have out: "out = trim_back count (to_max opts) cut"
      by (simp add: trim_messages_def Let_def flip: cut_def split: if_splits)
    obtain rest where rest: "cut = out @ rest" "out = [] \<or> count out \<le> to_max opts"
        "rest \<noteq> [] \<longrightarrow> count (out @ [hd rest]) > to_max opts"
      using trim_back_prefix [of cut count "to_max opts", folded out] by blast
    show ?thesis
      by (rule exI [of _ "[]"], rule exI [of _ "[]"], rule exI [of _ out], rule exI [of _ "rest @ gone"])
         (use rest gone in auto)
  next
    case False
    obtain system body where split: "split_system (to_include_system opts) cut = (system, body)" by fastforce
    then have cut: "cut = system @ body" and system: "system = [] \<or> to_include_system opts \<and> length system = 1 \<and> msg_role (hd system) = ''system''"
      by (auto simp: split_system_def split: list.splits if_splits)
    let ?front = "trim_front count (to_max opts) body"
    define kept where "kept = start_on (to_start_on opts) ?front"
    have out: "out = system @ kept"
      using assms(1) False split by (auto simp: trim_messages_def Let_def kept_def cut_def split: if_splits)
    obtain front where front: "body = front @ ?front" "?front = [] \<or> count ?front \<le> to_max opts"
        "front \<noteq> [] \<longrightarrow> count (List.last front # ?front) > to_max opts"
      using trim_front_suffix [of body count "to_max opts"] by blast
    obtain more where more: "?front = more @ kept" "to_start_on opts = [] \<Longrightarrow> more = []"
      using start_on_suffix [of ?front "to_start_on opts", folded kept_def] by blast
    have "kept = [] \<or> count kept \<le> to_max opts"
      using front(2) more(1) assms(2) by (metis append_is_Nil_conv order_trans)
    moreover have "ms = system @ (front @ more) @ kept @ gone"
      using gone(1) cut front(1) more(1) by simp
    moreover have "to_start_on opts = [] \<longrightarrow> front @ more \<noteq> [] \<longrightarrow> count (List.last (front @ more) # kept) > to_max opts"
      using front(3) more by auto
    moreover have "to_end_on opts = [] \<longrightarrow> gone \<noteq> [] \<longrightarrow> count (kept @ [hd gone]) > to_max opts"
      using gone(2) by simp
    ultimately show ?thesis using out system by blast
  qed
qed

definition trim_sample :: "message list" where
  "trim_sample = [(human_message ''be brief'')\<lparr>msg_role := ''system''\<rparr>, human_message ''a'', loop_ai [], human_message ''b'']"

definition trim_to_two :: trim_options where
  "trim_to_two = \<lparr>to_max = 2, to_strategy = [], to_include_system = True, to_start_on = [], to_end_on = []\<rparr>"

lemma trim_two: "trim_messages (\<lambda>ms. int (length ms)) trim_to_two trim_sample = Inr (hd trim_sample # drop 2 trim_sample)"
  by (simp add: trim_messages_def trim_to_two_def trim_sample_def end_on_def start_on_def split_system_def)

lemma trimmed_messages_fit_witness:
  "\<exists>system front kept rest. trim_sample = system @ front @ kept @ rest \<and> hd trim_sample # drop 2 trim_sample = system @ kept \<and>
     length kept \<le> 2"
proof -
  have "\<forall>xs ys :: message list. int (length xs) \<le> int (length (xs @ ys)) \<and> int (length ys) \<le> int (length (xs @ ys))" by simp
  from trimmed_messages_fit [OF trim_two this]
  obtain system front kept rest where "trim_sample = system @ front @ kept @ rest" "hd trim_sample # drop 2 trim_sample = system @ kept"
      "kept = [] \<or> int (length kept) \<le> to_max trim_to_two" by blast
  moreover from this(3) have "length kept \<le> 2" by (auto simp: trim_to_two_def)
  ultimately show ?thesis by blast
qed

text \<open>With its system message, the thread that TrimMessages returns can be over the limit.\<close>

theorem trimming_ignores_the_system_message:
  "\<exists>out. trim_messages (\<lambda>ms. int (length ms)) trim_to_two trim_sample = Inr out \<and> int (length out) > to_max trim_to_two"
  by (rule exI [of _ "hd trim_sample # drop 2 trim_sample"], rule conjI [OF trim_two]) (simp add: trim_to_two_def trim_sample_def)

end
