(* ===== verification/SqlGuard.thy ===== *)
theory SqlGuard
  imports GoStrings
begin

section \<open>The read-only guard of the SQL toolkit (langchain/toolkits/sqltoolkit/guard.go)\<close>

text \<open>
  The guard reads a query once from left to right. Every turn of its loop consumes one piece of the query,
  a \<open>piece\<close>; from the pieces it builds the statements, which keep literals and drop comments, and the plain
  view, in which literals and comments are blanks. The verdict rests on the plain view, what is executed is
  the statement. The theorems say when a verdict on the first holds of the second.
\<close>

subsection \<open>Pieces of a query\<close>

datatype dialect = SQLite | Postgres

datatype piece = Quoted string | LineComment | BlockComment | Separator | Plain char

definition quote_char :: char where "quote_char = CHR 0x27"
definition double_quote :: char where "double_quote = CHR 0x22"
definition backtick :: char where "backtick = CHR 0x60"

definition is_lower :: "char \<Rightarrow> bool" where "is_lower c \<longleftrightarrow> CHR ''a'' \<le> c \<and> c \<le> CHR ''z''"
definition is_upper :: "char \<Rightarrow> bool" where "is_upper c \<longleftrightarrow> CHR ''A'' \<le> c \<and> c \<le> CHR ''Z''"
definition is_digit :: "char \<Rightarrow> bool" where "is_digit c \<longleftrightarrow> CHR ''0'' \<le> c \<and> c \<le> CHR ''9''"

text \<open>The ranges on the bits of a character, which evaluate faster.\<close>

lemma char_range_code [code]:
  "is_lower (Char b0 b1 b2 b3 b4 b5 b6 b7) \<longleftrightarrow>
     \<not> b7 \<and> b6 \<and> b5 \<and> (b0 \<or> b1 \<or> b2 \<or> b3 \<or> b4) \<and> \<not> (b4 \<and> b3 \<and> (b2 \<or> b1 \<and> b0))"
  "is_upper (Char b0 b1 b2 b3 b4 b5 b6 b7) \<longleftrightarrow>
     \<not> b7 \<and> b6 \<and> \<not> b5 \<and> (b0 \<or> b1 \<or> b2 \<or> b3 \<or> b4) \<and> \<not> (b4 \<and> b3 \<and> (b2 \<or> b1 \<and> b0))"
  "is_digit (Char b0 b1 b2 b3 b4 b5 b6 b7) \<longleftrightarrow> \<not> b7 \<and> \<not> b6 \<and> b5 \<and> b4 \<and> \<not> (b3 \<and> (b2 \<or> b1))"
  by (cases b0; cases b1; cases b2; cases b3; cases b4; cases b5; cases b6; cases b7;
      simp add: is_lower_def is_upper_def is_digit_def less_eq_char_def)+

definition dollar_tag_start :: "char \<Rightarrow> bool" where
  "dollar_tag_start c \<longleftrightarrow> c = CHR ''_'' \<or> c = CHR ''$'' \<or> is_lower c \<or> is_upper c"

definition dollar_tag_char :: "char \<Rightarrow> bool" where
  "dollar_tag_char c \<longleftrightarrow> c = CHR ''_'' \<or> is_lower c \<or> is_upper c \<or> is_digit c"

text \<open>The text after an opening quote: up to the closing quote, a doubled quote does not close.\<close>

fun scan_quoted :: "char \<Rightarrow> string \<Rightarrow> (string \<times> string) option" where
  "scan_quoted q [] = None"
| "scan_quoted q [c] = (if c = q then Some ([c], []) else None)"
| "scan_quoted q (c # d # s) =
     (if c \<noteq> q then map_option (\<lambda>(l, r). (c # l, r)) (scan_quoted q (d # s))
      else if d = q then map_option (\<lambda>(l, r). (c # d # l, r)) (scan_quoted q s)
      else Some ([c], d # s))"

text \<open>The text after the dollar that opens a dollar-quoted string.\<close>

definition scan_dollar_quoted :: "string \<Rightarrow> (string \<times> string) option" where
  "scan_dollar_quoted s =
     (let name = takeWhile dollar_tag_char s in
      case dropWhile dollar_tag_char s of
        [] \<Rightarrow> None
      | c # body \<Rightarrow>
          if c \<noteq> CHR ''$'' then None
          else
            let tag = CHR ''$'' # name @ [CHR ''$''] in
            case find_sub body tag of
              None \<Rightarrow> None
            | Some i \<Rightarrow> Some (name @ [CHR ''$''] @ take (i + length tag) body, drop (i + length tag) body))"

text \<open>The text after a block comment of the given depth.\<close>

fun skip_block :: "nat \<Rightarrow> string \<Rightarrow> string option" where
  "skip_block 0 s = Some s"
| "skip_block (Suc k) [] = None"
| "skip_block (Suc k) [c] = None"
| "skip_block (Suc k) (c # d # s) =
     (if c = CHR ''/'' \<and> d = CHR ''*'' then skip_block (Suc (Suc k)) s
      else if c = CHR ''*'' \<and> d = CHR ''/'' then skip_block k s
      else skip_block (Suc k) (d # s))"

definition next_piece :: "bool \<Rightarrow> char \<Rightarrow> string \<Rightarrow> goerr + piece \<times> string" where
  "next_piece dollars c s =
     (if c = quote_char then
        (case scan_quoted quote_char s of
           None \<Rightarrow> Inl (EText ''unterminated string literal'')
         | Some (l, r) \<Rightarrow> Inr (Quoted (c # l), r))
      else if c = double_quote then
        (case scan_quoted double_quote s of
           None \<Rightarrow> Inl (EText ''unterminated quoted identifier'')
         | Some (l, r) \<Rightarrow> Inr (Quoted (c # l), r))
      else if c = backtick then
        (case dropWhile (\<lambda>x. x \<noteq> backtick) s of
           [] \<Rightarrow> Inl (EText ''unterminated backtick-quoted identifier'')
         | x # r \<Rightarrow> Inr (Quoted (c # takeWhile (\<lambda>x. x \<noteq> backtick) s @ [x]), r))
      else if c = CHR ''$'' \<and> dollars \<and> s \<noteq> [] \<and> dollar_tag_start (hd s) then
        (case scan_dollar_quoted s of
           None \<Rightarrow> Inl (EText ''unterminated dollar-quoted string'')
         | Some (l, r) \<Rightarrow> Inr (Quoted (c # l), r))
      else if c = CHR ''-'' \<and> s \<noteq> [] \<and> hd s = CHR ''-'' then
        Inr (LineComment, dropWhile (\<lambda>x. x \<noteq> CHR 0x0A) s)
      else if c = CHR ''/'' \<and> s \<noteq> [] \<and> hd s = CHR ''*'' then
        (case skip_block 1 (tl s) of
           None \<Rightarrow> Inl (EText ''unterminated block comment'')
         | Some r \<Rightarrow> Inr (BlockComment, r))
      else if c = CHR '';'' then Inr (Separator, s)
      else Inr (Plain c, s))"

lemma scan_quoted_append: "scan_quoted q s = Some (l, r) \<Longrightarrow> s = l @ r \<and> l \<noteq> [] \<and> List.last l = q"
  by (induction q s arbitrary: l r rule: scan_quoted.induct) (auto split: if_splits)

lemma find_sub_bound: "find_sub s q = Some i \<Longrightarrow> i + length q \<le> length s \<and> take (length q) (drop i s) = q"
proof (induction s arbitrary: i)
  case (Cons c s)
  show ?case
  proof (cases "take (length q) (c # s) = q")
    case True
    with Cons.prems have "i = 0" by simp
    with True show ?thesis by (metis add_0 drop0 length_take min.cobounded1 nat_le_linear take_all)
  next
    case False
    with Cons.prems obtain j where "find_sub s q = Some j" "i = Suc j" by auto
    with Cons.IH show ?thesis by auto
  qed
qed (simp split: if_splits)

lemma scan_dollar_append:
  "scan_dollar_quoted s = Some (l, r) \<Longrightarrow> s = l @ r \<and> l \<noteq> [] \<and> List.last l = CHR ''$''"
proof -
  assume "scan_dollar_quoted s = Some (l, r)"
  then obtain body i where d: "dropWhile dollar_tag_char s = CHR ''$'' # body"
      and i: "find_sub body (CHR ''$'' # takeWhile dollar_tag_char s @ [CHR ''$'']) = Some i"
      and l: "l = takeWhile dollar_tag_char s @ [CHR ''$''] @ take (i + length (CHR ''$'' # takeWhile dollar_tag_char s @ [CHR ''$''])) body"
      and r: "r = drop (i + length (CHR ''$'' # takeWhile dollar_tag_char s @ [CHR ''$''])) body"
    by (auto simp: scan_dollar_quoted_def Let_def split: list.splits if_splits option.splits)
  let ?tag = "CHR ''$'' # takeWhile dollar_tag_char s @ [CHR ''$'']"
  have "s = takeWhile dollar_tag_char s @ CHR ''$'' # body" using d by (metis takeWhile_dropWhile_id)
  then have "s = l @ r" unfolding l r by simp
  moreover have "take (i + length ?tag) body = take i body @ ?tag"
    using find_sub_bound [OF i] take_add [of i "length ?tag" body] by simp
  then have "List.last l = CHR ''$''" "l \<noteq> []" unfolding l by (simp_all add: last_append)
  ultimately show ?thesis by blast
qed

lemma skip_block_length: "skip_block k s = Some r \<Longrightarrow> length r \<le> length s"
  by (induction k s rule: skip_block.induct) (fastforce split: if_splits)+

lemma next_piece_length: "next_piece dollars c s = Inr (p, r) \<Longrightarrow> length r \<le> length s"
  by (auto simp: next_piece_def neq_Nil_conv length_dropWhile_le dest!: scan_quoted_append scan_dollar_append skip_block_length
      split: if_splits option.splits list.splits) (metis length_dropWhile_le length_Cons Suc_leD, simp add: le_SucI length_dropWhile_le)

subsection \<open>The loop of the guard\<close>

record analyzed_sql =
  an_statements :: "string list"
  an_plain :: string

definition flush :: "string \<Rightarrow> string list \<Rightarrow> string list" where
  "flush cur sts = (if trim_space cur \<noteq> [] then sts @ [trim_space cur] else sts)"

definition blank :: char where "blank = CHR '' ''"

function analyze_loop :: "bool \<Rightarrow> string \<Rightarrow> string \<Rightarrow> string list \<Rightarrow> string \<Rightarrow> goerr + analyzed_sql" where
  "analyze_loop dollars [] cur sts view = Inr \<lparr>an_statements = flush cur sts, an_plain = view\<rparr>"
| "analyze_loop dollars (c # s) cur sts view =
     (case next_piece dollars c s of
        Inl e \<Rightarrow> Inl e
      | Inr (p, r) \<Rightarrow>
          (case p of
             Quoted l \<Rightarrow> analyze_loop dollars r (cur @ l) sts (view @ [blank])
           | LineComment \<Rightarrow> analyze_loop dollars r (cur @ [blank]) sts (view @ [blank])
           | BlockComment \<Rightarrow> analyze_loop dollars r cur sts (view @ [blank])
           | Separator \<Rightarrow> analyze_loop dollars r [] (flush cur sts) (view @ [blank])
           | Plain d \<Rightarrow> analyze_loop dollars r (cur @ [d]) sts (view @ [d])))"
  by pat_completeness auto
termination
  by (relation "measure (\<lambda>(dollars, s, _). length s)") (auto dest!: next_piece_length)

definition analyze_sql :: "string \<Rightarrow> bool \<Rightarrow> goerr + analyzed_sql" where
  "analyze_sql query dollars = analyze_loop dollars query [] [] []"

definition is_letter :: "char \<Rightarrow> bool" where "is_letter c \<longleftrightarrow> is_lower c \<or> is_upper c"

definition lower_char :: "char \<Rightarrow> char" where
  "lower_char c = (if is_upper c then char_of (byte c - 65 + 97) else c)"

lemma lower_char_code [code]:
  "lower_char (Char b0 b1 b2 b3 b4 b5 b6 b7) =
     (if is_upper (Char b0 b1 b2 b3 b4 b5 b6 b7) then Char b0 b1 b2 b3 b4 True b6 b7 else Char b0 b1 b2 b3 b4 b5 b6 b7)"
  by (cases b0; cases b1; cases b2; cases b3; cases b4; cases b5; cases b6; cases b7;
      simp add: lower_char_def byte_def char_range_code char_of_def bit_simps)

definition leading_keyword :: "string \<Rightarrow> string" where
  "leading_keyword s = map lower_char (takeWhile is_letter (dropWhile (\<lambda>c. \<not> is_letter c) (trim_space s)))"

text \<open>The regular expression for INTO, UPDATE and DELETE as whole words, in any case: its leftmost match.\<close>

definition word_char :: "char \<Rightarrow> bool" where
  "word_char c \<longleftrightarrow> is_letter c \<or> is_digit c \<or> c = CHR ''_''"

definition forbidden_keywords :: "string list" where
  "forbidden_keywords = [''into'', ''update'', ''delete'']"

definition keyword_here :: "string \<Rightarrow> string option" where
  "keyword_here s =
     find (\<lambda>k. map lower_char (take (length k) s) = k \<and> (drop (length k) s = [] \<or> \<not> word_char (hd (drop (length k) s))))
       forbidden_keywords"

fun find_forbidden :: "bool \<Rightarrow> string \<Rightarrow> string option" where
  "find_forbidden inside [] = None"
| "find_forbidden inside (c # s) =
     (case (if inside then None else keyword_here (c # s)) of
        Some k \<Rightarrow> Some k
      | None \<Rightarrow> find_forbidden (word_char c) s)"

definition upper_char :: "char \<Rightarrow> char" where
  "upper_char c = (if is_lower c then char_of (byte c - 97 + 65) else c)"

definition guard_read_only :: "dialect \<Rightarrow> string \<Rightarrow> goerr + string" where
  "guard_read_only dialect query =
     (case analyze_sql query (dialect = Postgres) of
        Inl e \<Rightarrow> Inl (EWrap ''read-only guardrail rejected the query: '' e)
      | Inr an \<Rightarrow>
          if length (an_statements an) \<noteq> 1 then
            Inl (EText (''read-only guardrail rejected the query: expected exactly one SQL statement, found ''
              @ show_int (int (length (an_statements an)))))
          else
            let keyword = leading_keyword (an_plain an) in
            if keyword \<noteq> ''select'' \<and> keyword \<noteq> ''with'' then
              Inl (EText (''read-only guardrail rejected the query: statement must start with SELECT or WITH, got '' @ go_quote keyword))
            else
              case find_forbidden False (an_plain an) of
                Some k \<Rightarrow>
                  Inl (EText (''read-only guardrail rejected the query: read-only SELECT/WITH statements must not contain the keyword ''
                    @ go_quote (map upper_char k) @ '' (SELECT ... INTO, data-modifying CTEs, and FOR UPDATE are rejected)''))
              | None \<Rightarrow> Inr (hd (an_statements an)))"

text \<open>\<open>quoteIdentifier\<close> of introspect.go.\<close>

definition quote_identifier :: "string \<Rightarrow> string" where
  "quote_identifier name = [double_quote] @ concat (map (\<lambda>c. if c = double_quote then [c, c] else [c]) name) @ [double_quote]"

subsection \<open>The query as a list of pieces\<close>

function pieces :: "bool \<Rightarrow> string \<Rightarrow> goerr + piece list" where
  "pieces dollars [] = Inr []"
| "pieces dollars (c # s) =
     (case next_piece dollars c s of
        Inl e \<Rightarrow> Inl e
      | Inr (p, r) \<Rightarrow> map_sum id (Cons p) (pieces dollars r))"
  by pat_completeness auto
termination
  by (relation "measure (\<lambda>(dollars, s). length s)") (auto dest!: next_piece_length)

text \<open>What a piece adds to the statement and to the plain view.\<close>

fun piece_text :: "piece \<Rightarrow> string" where
  "piece_text (Quoted l) = l"
| "piece_text LineComment = [blank]"
| "piece_text BlockComment = []"
| "piece_text Separator = []"
| "piece_text (Plain c) = [c]"

fun piece_view :: "piece \<Rightarrow> char" where
  "piece_view (Plain c) = c"
| "piece_view _ = blank"

definition render :: "piece list \<Rightarrow> string" where
  "render ps = concat (map piece_text ps)"

lemma render_simps [simp]: "render [] = []" "render (p # ps) = piece_text p @ render ps" "render (ps @ qs) = render ps @ render qs"
  by (simp_all add: render_def)

fun segments :: "string \<Rightarrow> piece list \<Rightarrow> string list" where
  "segments cur [] = [cur]"
| "segments cur (p # ps) = (if p = Separator then cur # segments [] ps else segments (cur @ piece_text p) ps)"

definition statements_of :: "string list \<Rightarrow> string list" where
  "statements_of segs = filter (\<lambda>s. s \<noteq> []) (map trim_space segs)"

lemma analyze_loop_pieces:
  "analyze_loop dollars s cur sts view =
     map_sum id (\<lambda>ps. \<lparr>an_statements = sts @ statements_of (segments cur ps), an_plain = view @ map piece_view ps\<rparr>)
       (pieces dollars s)"
proof (induction dollars s cur sts view rule: analyze_loop.induct)
  case (1 dollars cur sts view)
  show ?case by (simp add: flush_def statements_of_def)
next
  case (2 dollars c s cur sts view)
  show ?case
  proof (cases "next_piece dollars c s")
    case (Inr pr)
    obtain p r where pr: "pr = (p, r)" by fastforce
    show ?thesis
      using 2 [OF Inr pr [symmetric]] Inr pr
      by (cases p; cases "pieces dollars r") (auto simp: flush_def statements_of_def)
  qed simp
qed

lemma analyze_sql_pieces:
  "analyze_sql query dollars =
     map_sum id (\<lambda>ps. \<lparr>an_statements = statements_of (segments [] ps), an_plain = map piece_view ps\<rparr>) (pieces dollars query)"
  by (simp add: analyze_sql_def analyze_loop_pieces)

subsection \<open>Reading a statement again\<close>

lemma scan_quoted_rest: "scan_quoted q s = Some (l, r) \<Longrightarrow> r = [] \<or> hd r \<noteq> q"
  by (induction q s arbitrary: l r rule: scan_quoted.induct) (auto split: if_splits)

lemma scan_quoted_again:
  "scan_quoted q s = Some (l, r) \<Longrightarrow> t = [] \<or> hd t \<noteq> q \<Longrightarrow> scan_quoted q (l @ t) = Some (l, t)"
proof (induction q s arbitrary: l r rule: scan_quoted.induct)
  case (2 q c)
  then show ?case by (cases t) (auto split: if_splits)
next
  case (3 q c d s)
  show ?case
  proof (cases "c = q")
    case True
    with 3 show ?thesis by (cases t) (auto split: if_splits)
  next
    case False
    with 3(3) obtain l' where l': "scan_quoted q (d # s) = Some (l', r)" "l = c # l'" by auto
    from scan_quoted_append [OF l'(1)] obtain x xs where "l' = x # xs" by (cases l') auto
    with 3(1) [OF False l'(1) 3(4)] l' False show ?thesis by simp
  qed
qed simp

lemma find_sub_again: "find_sub s q = Some i \<Longrightarrow> find_sub (take (i + length q) s @ t) q = Some i"
proof (induction s arbitrary: i)
  case (Cons c s)
  show ?case
  proof (cases "take (length q) (c # s) = q")
    case True
    with Cons.prems have "i = 0" by simp
    with True show ?thesis by (simp add: find_sub_here)
  next
    case False
    with Cons.prems obtain j where j: "find_sub s q = Some j" "i = Suc j" by auto
    from find_sub_bound [OF j(1)] have "length q \<le> Suc (j + length q)" "length q \<le> length (take (Suc (j + length q)) (c # s))" by simp_all
    then have "take (length q) (take (Suc (j + length q)) (c # s) @ t) = take (length q) (c # s)"
      by (simp add: min_absorb1 del: take_Suc_Cons)
    with False Cons.IH [OF j(1)] j(2) show ?thesis by simp
  qed
qed (cases t; simp split: if_splits)

lemma scan_dollar_again: "scan_dollar_quoted s = Some (l, r) \<Longrightarrow> scan_dollar_quoted (l @ t) = Some (l, t)"
proof -
  assume "scan_dollar_quoted s = Some (l, r)"
  then obtain body i where d: "dropWhile dollar_tag_char s = CHR ''$'' # body"
      and i: "find_sub body (CHR ''$'' # takeWhile dollar_tag_char s @ [CHR ''$'']) = Some i"
      and l: "l = takeWhile dollar_tag_char s @ [CHR ''$''] @ take (i + length (CHR ''$'' # takeWhile dollar_tag_char s @ [CHR ''$''])) body"
    by (auto simp: scan_dollar_quoted_def Let_def split: list.splits if_splits option.splits)
  let ?name = "takeWhile dollar_tag_char s"
  have no: "\<not> dollar_tag_char (CHR ''$'')" by (simp add: dollar_tag_char_def is_lower_def is_upper_def is_digit_def)
  have all: "\<forall>c \<in> set ?name. dollar_tag_char c" by (auto dest: set_takeWhileD)
  have "i + length (CHR ''$'' # ?name @ [CHR ''$'']) \<le> length body" using find_sub_bound [OF i] by blast
  with find_sub_again [OF i, of t] all no show ?thesis
    unfolding l by (simp add: scan_dollar_quoted_def Let_def takeWhile_append2 dropWhile_append2)
qed

definition copied :: "piece \<Rightarrow> bool" where
  "copied p \<longleftrightarrow> (case p of Quoted l \<Rightarrow> True | Plain c \<Rightarrow> True | _ \<Rightarrow> False)"

lemma next_piece_text:
  "next_piece dollars c s = Inr (p, r) \<Longrightarrow> copied p \<Longrightarrow> c # s = piece_text p @ r \<and> piece_text p \<noteq> [] \<and> hd (piece_text p) = c"
  by (auto simp: next_piece_def copied_def dest!: scan_quoted_append scan_dollar_append
      split: if_splits option.splits list.splits) (metis takeWhile_dropWhile_id)

lemma blank_neq [simp]: "blank \<noteq> quote_char" "blank \<noteq> double_quote" "blank \<noteq> backtick" "blank \<noteq> CHR ''-''" "blank \<noteq> CHR ''*''"
    "blank \<noteq> CHR ''$''" "blank \<noteq> CHR ''/''" "blank \<noteq> CHR '';''" "\<not> dollar_tag_start blank"
  by (simp_all add: blank_def quote_char_def double_quote_def backtick_def dollar_tag_start_def is_lower_def is_upper_def)

lemma next_piece_cases:
  assumes "next_piece dollars c s = Inr (p, r)" "copied p"
  obtains (quoted) l where "c = quote_char \<or> c = double_quote" "scan_quoted c s = Some (l, r)" "p = Quoted (c # l)"
  | (ticked) x where "c = backtick" "dropWhile (\<lambda>y. y \<noteq> backtick) s = x # r" "p = Quoted (c # takeWhile (\<lambda>y. y \<noteq> backtick) s @ [x])"
  | (dollar) l where "c = CHR ''$''" "dollars" "s \<noteq> []" "dollar_tag_start (hd s)" "scan_dollar_quoted s = Some (l, r)"
      "p = Quoted (c # l)"
  | (plain) "p = Plain c" "r = s" "c \<noteq> quote_char" "c \<noteq> double_quote" "c \<noteq> backtick" "c \<noteq> CHR '';''"
      "\<not> (c = CHR ''$'' \<and> dollars \<and> s \<noteq> [] \<and> dollar_tag_start (hd s))"
      "\<not> (c = CHR ''-'' \<and> s \<noteq> [] \<and> hd s = CHR ''-'')" "\<not> (c = CHR ''/'' \<and> s \<noteq> [] \<and> hd s = CHR ''*'')"
proof -
  consider "c = quote_char \<or> c = double_quote" | "c = backtick"
    | "c \<noteq> quote_char" "c \<noteq> double_quote" "c \<noteq> backtick" "c = CHR ''$'' \<and> dollars \<and> s \<noteq> [] \<and> dollar_tag_start (hd s)"
    | "c \<noteq> quote_char" "c \<noteq> double_quote" "c \<noteq> backtick" "\<not> (c = CHR ''$'' \<and> dollars \<and> s \<noteq> [] \<and> dollar_tag_start (hd s))" by blast
  then show thesis
  proof cases
    case 1
    then show thesis using assms(1) quoted
      by (auto simp: next_piece_def quote_char_def double_quote_def split: option.splits)
  next
    case 2
    then show thesis using assms(1) ticked
      by (auto simp: next_piece_def quote_char_def double_quote_def backtick_def split: list.splits)
  next
    case 3
    then show thesis using assms(1) dollar by (auto simp: next_piece_def split: option.splits)
  next
    case 4
    then have step: "next_piece dollars c s =
        (if c = CHR ''-'' \<and> s \<noteq> [] \<and> hd s = CHR ''-'' then Inr (LineComment, dropWhile (\<lambda>x. x \<noteq> CHR 0x0A) s)
         else if c = CHR ''/'' \<and> s \<noteq> [] \<and> hd s = CHR ''*'' then
           (case skip_block 1 (tl s) of None \<Rightarrow> Inl (EText ''unterminated block comment'') | Some r \<Rightarrow> Inr (BlockComment, r))
         else if c = CHR '';'' then Inr (Separator, s)
         else Inr (Plain c, s))" by (simp only: next_piece_def if_False)
    have "p = Plain c \<and> r = s \<and> c \<noteq> CHR '';'' \<and> \<not> (c = CHR ''-'' \<and> s \<noteq> [] \<and> hd s = CHR ''-'') \<and>
        \<not> (c = CHR ''/'' \<and> s \<noteq> [] \<and> hd s = CHR ''*'')"
      using assms unfolding step copied_def by (simp split: if_splits option.splits piece.splits)
    with 4 plain show thesis by blast
  qed
qed

lemma next_piece_again:
  assumes "next_piece dollars c s = Inr (p, r)" "copied p"
    and t: "t = [] \<or> hd t = blank \<or> r \<noteq> [] \<and> hd t = hd r"
  shows "next_piece dollars c (tl (piece_text p @ t)) = Inr (p, t)"
  using assms(1,2)
proof (cases rule: next_piece_cases)
  case (quoted l)
  have "t = [] \<or> hd t \<noteq> c" using t scan_quoted_rest [OF quoted(2)] quoted(1) by auto
  note found = scan_quoted_again [OF quoted(2) this]
  have "double_quote \<noteq> quote_char" by (simp add: quote_char_def double_quote_def)
  have "next_piece dollars c (l @ t) = Inr (Quoted (c # l), t)"
  proof (cases "c = quote_char")
    case True
    show ?thesis using found unfolding True by (simp only: next_piece_def if_True if_False simp_thms option.case prod.case)
  next
    case False
    with quoted(1) have c: "c = double_quote" by blast
    show ?thesis using found \<open>double_quote \<noteq> quote_char\<close> unfolding c
      by (simp only: next_piece_def if_True if_False simp_thms option.case prod.case)
  qed
  with quoted(3) show ?thesis by simp
next
  case (ticked x)
  have "x = backtick" using ticked(2) hd_dropWhile [of "\<lambda>y. y \<noteq> backtick" s] by simp
  moreover have "\<forall>y \<in> set (takeWhile (\<lambda>y. y \<noteq> backtick) s). y \<noteq> backtick" by (auto dest: set_takeWhileD)
  ultimately show ?thesis using ticked
    by (simp add: next_piece_def quote_char_def double_quote_def backtick_def takeWhile_append2 dropWhile_append2)
next
  case (dollar l)
  from scan_dollar_append [OF dollar(5)] dollar(4) have "l \<noteq> []" "dollar_tag_start (hd (l @ t))" by auto
  with scan_dollar_again [OF dollar(5), of t] dollar show ?thesis
    by (simp add: next_piece_def quote_char_def double_quote_def backtick_def)
next
  case plain
  have "\<not> (c = CHR ''$'' \<and> dollars \<and> t \<noteq> [] \<and> dollar_tag_start (hd t))" "\<not> (c = CHR ''-'' \<and> t \<noteq> [] \<and> hd t = CHR ''-'')"
    "\<not> (c = CHR ''/'' \<and> t \<noteq> [] \<and> hd t = CHR ''*'')"
    using t plain(2,7-9) by (metis blank_neq)+
  with plain(3-6) have "next_piece dollars c t = Inr (Plain c, t)" by (simp only: next_piece_def if_False)
  with plain(1) show ?thesis by simp
qed

definition delined :: "piece \<Rightarrow> piece" where
  "delined p = (if p = LineComment then Plain blank else p)"

definition kept :: "piece \<Rightarrow> bool" where
  "kept p \<longleftrightarrow> p \<noteq> BlockComment \<and> p \<noteq> Separator"

lemma kept_cases: "kept p \<Longrightarrow> p = LineComment \<or> copied p"
  by (cases p) (simp_all add: kept_def copied_def)

lemma render_delined [simp]: "render (map delined ps) = render ps"
  by (induction ps) (auto simp: delined_def)

lemma pieces_ConsE:
  assumes "pieces dollars s = Inr (p # ps)"
  obtains c s' r where "s = c # s'" "next_piece dollars c s' = Inr (p, r)" "pieces dollars r = Inr ps"
proof (cases s)
  case (Cons c s')
  with assms that show ?thesis by (cases "next_piece dollars c s'"; cases "pieces dollars (snd (projr (next_piece dollars c s')))") auto
qed (use assms in simp)

lemma hd_render:
  assumes "pieces dollars s = Inr (seg @ qs)" "list_all kept seg"
  shows "render seg = [] \<or> hd (render seg) = blank \<or> s \<noteq> [] \<and> hd (render seg) = hd s"
proof (cases seg)
  case (Cons p ps)
  with assms(1) obtain c s' r where step: "s = c # s'" "next_piece dollars c s' = Inr (p, r)" by (auto elim: pieces_ConsE)
  from assms(2) Cons consider "p = LineComment" | "copied p" using kept_cases by auto
  then show ?thesis
  proof cases
    case 2
    from next_piece_text [OF step(2) this] step(1) Cons show ?thesis by simp
  qed (simp add: Cons)
qed simp

text \<open>A run of pieces without block comments is read again as it was.\<close>

lemma pieces_render:
  assumes "pieces dollars s = Inr (seg @ qs)" "list_all kept seg"
  shows "pieces dollars (render seg) = Inr (map delined seg)"
  using assms
proof (induction seg arbitrary: s)
  case (Cons p seg)
  then obtain c s' r where step: "s = c # s'" "next_piece dollars c s' = Inr (p, r)" "pieces dollars r = Inr (seg @ qs)"
    by (auto elim: pieces_ConsE)
  from Cons.prems(2) have seg: "list_all kept seg" by simp
  note rest = Cons.IH [OF step(3) seg]
  from Cons.prems(2) consider "p = LineComment" | "copied p" using kept_cases by auto
  then show ?case
  proof cases
    case 1
    then show ?thesis using rest by (simp add: delined_def next_piece_def)
  next
    case 2
    define ts where "ts = tl (piece_text p @ render seg)"
    have "piece_text p = c # tl (piece_text p)" using next_piece_text [OF step(2) 2] by (metis list.collapse)
    then have shape: "render (p # seg) = c # ts" unfolding ts_def render_simps by (metis append_Cons list.sel(3))
    have "next_piece dollars c ts = Inr (p, render seg)"
      unfolding ts_def by (rule next_piece_again [OF step(2) 2 hd_render [OF step(3) seg]])
    then have "pieces dollars (c # ts) = Inr (p # map delined seg)" by (simp add: rest)
    moreover have "delined p = p" using 2 by (auto simp: delined_def copied_def)
    ultimately show ?thesis unfolding shape by simp
  qed
qed simp

subsection \<open>Trimming\<close>

definition space_byte :: "char \<Rightarrow> bool" where
  "space_byte c \<longleftrightarrow> c \<in> set (concat space_runes)"

lemma trim_start_split: "\<exists>a. s = a @ trim_start es s \<and> set a \<subseteq> set (concat es)"
proof (induction es s rule: trim_start.induct)
  case (1 es s)
  show ?case
  proof (cases "find (\<lambda>e. e \<noteq> [] \<and> take (length e) s = e) es")
    case None
    then show ?thesis by (subst trim_start.simps) simp
  next
    case (Some e)
    from 1 [OF Some] obtain a where a: "drop (length e) s = a @ trim_start es (drop (length e) s)" "set a \<subseteq> set (concat es)" by blast
    from Some have e: "e \<in> set es" "take (length e) s = e" by (auto simp: find_Some_iff in_set_conv_nth)
    then have "s = (e @ a) @ trim_start es (drop (length e) s)" using a(1) by (metis append.assoc append_take_drop_id)
    moreover have "trim_start es s = trim_start es (drop (length e) s)" using Some by (subst trim_start.simps) simp
    ultimately show ?thesis using a(2) e(1) by (intro exI [of _ "e @ a"]) auto
  qed
qed

lemma trim_start_done: "find (\<lambda>e. e \<noteq> [] \<and> take (length e) (trim_start es s) = e) es = None"
proof (induction es s rule: trim_start.induct)
  case (1 es s)
  then show ?case
    by (cases "find (\<lambda>e. e \<noteq> [] \<and> take (length e) s = e) es") (subst trim_start.simps, simp)+
qed

lemma trim_start_prefix: "trim_start es (s @ t) = s @ t \<Longrightarrow> trim_start es s = s"
proof -
  assume fixed: "trim_start es (s @ t) = s @ t"
  have "find (\<lambda>e. e \<noteq> [] \<and> take (length e) s = e) es = None"
  proof (rule ccontr)
    assume "find (\<lambda>e. e \<noteq> [] \<and> take (length e) s = e) es \<noteq> None"
    then obtain e where e: "e \<in> set es" "e \<noteq> []" "take (length e) s = e" by (auto simp: find_Some_iff in_set_conv_nth)
    then have "length e \<le> length s" by (metis length_take min.cobounded1 min_def)
    with e have "take (length e) (s @ t) = e" by simp
    with trim_start_done [of es "s @ t"] e fixed show False by (auto simp: find_None_iff)
  qed
  then show ?thesis by (subst trim_start.simps) simp
qed

lemma trim_space_split:
  obtains a b where "s = a @ trim_space s @ b" "list_all space_byte a" "list_all space_byte b"
proof -
  obtain a where a: "s = a @ trim_start space_runes s" "set a \<subseteq> set (concat space_runes)" using trim_start_split by blast
  let ?u = "trim_start space_runes s"
  obtain b where b: "rev ?u = b @ trim_start (map rev space_runes) (rev ?u)" "set b \<subseteq> set (concat (map rev space_runes))"
    using trim_start_split by blast
  have "?u = trim_space s @ rev b" unfolding trim_space_def using b(1) by (metis rev_append rev_rev_ident)
  with a b(2) that [of a "rev b"] show thesis by (auto simp: space_byte_def list_all_iff)
qed

lemma trim_space_again [simp]: "trim_space (trim_space s) = trim_space s"
proof -
  let ?u = "trim_start space_runes s" and ?es = "map rev space_runes"
  obtain b where b: "rev ?u = b @ trim_start ?es (rev ?u)" using trim_start_split by blast
  then have u: "?u = trim_space s @ rev b" unfolding trim_space_def by (metis rev_append rev_rev_ident)
  have "trim_start space_runes ?u = ?u" using trim_start_done [of space_runes s] by (subst trim_start.simps) simp
  then have front: "trim_start space_runes (trim_space s) = trim_space s" using trim_start_prefix u by metis
  have "trim_start ?es (rev (trim_space s)) = rev (trim_space s)"
    using trim_start_done [of ?es "rev ?u"] unfolding trim_space_def by (subst trim_start.simps) simp
  with front show ?thesis by (subst trim_space_def) simp
qed

subsection \<open>White space around a view does not matter\<close>

lemma space_byte_facts:
  assumes "space_byte c"
  shows "\<not> is_letter c" "\<not> word_char c" "c \<noteq> quote_char" "c \<noteq> double_quote" "c \<noteq> backtick" "c \<noteq> CHR ''$''"
proof -
  have "list_all (\<lambda>c. \<not> is_letter c \<and> \<not> word_char c \<and> c \<noteq> quote_char \<and> c \<noteq> double_quote \<and> c \<noteq> backtick \<and> c \<noteq> CHR ''$'')
      (concat space_runes)" by code_simp
  with assms show "\<not> is_letter c" "\<not> word_char c" "c \<noteq> quote_char" "c \<noteq> double_quote" "c \<noteq> backtick" "c \<noteq> CHR ''$''"
    by (auto simp: list_all_iff space_byte_def)
qed

lemma space_byte_blank [simp]: "space_byte blank"
  by (simp add: space_byte_def blank_def space_runes_def)

definition first_word :: "string \<Rightarrow> string" where
  "first_word s = takeWhile is_letter (dropWhile (\<lambda>c. \<not> is_letter c) s)"

lemma first_word_surrounded:
  assumes "list_all space_byte a" "list_all space_byte b"
  shows "first_word (a @ s @ b) = first_word s"
proof -
  have a: "\<forall>c \<in> set a. \<not> is_letter c" and b: "\<forall>c \<in> set b. \<not> is_letter c"
    using assms space_byte_facts(1) by (auto simp: list_all_iff)
  have none: "takeWhile is_letter b = []" using b by (cases b) auto
  show ?thesis
  proof (cases "\<forall>c \<in> set s. \<not> is_letter c")
    case True
    with a b have "dropWhile (\<lambda>c. \<not> is_letter c) (a @ s @ b) = []" "dropWhile (\<lambda>c. \<not> is_letter c) s = []" by (auto simp: dropWhile_eq_Nil_conv)
    then show ?thesis by (simp only: first_word_def)
  next
    case False
    then obtain c where "c \<in> set s" "is_letter c" by blast
    then have "dropWhile (\<lambda>c. \<not> is_letter c) (s @ b) = dropWhile (\<lambda>c. \<not> is_letter c) s @ b" by (intro dropWhile_append1) auto
    moreover have "takeWhile is_letter (x @ b) = takeWhile is_letter x" for x
      by (induction x) (simp_all add: none)
    ultimately show ?thesis using a by (simp add: first_word_def dropWhile_append2)
  qed
qed

lemma leading_keyword_eq: "leading_keyword s = map lower_char (first_word s)"
proof -
  obtain a b where "s = a @ trim_space s @ b" "list_all space_byte a" "list_all space_byte b" by (rule trim_space_split)
  then have "first_word s = first_word (trim_space s)" by (metis first_word_surrounded)
  then show ?thesis by (simp add: leading_keyword_def first_word_def)
qed

lemma keyword_here_append:
  assumes "keyword_here (s @ b) = None" "b = [] \<or> \<not> word_char (hd b)"
  shows "keyword_here s = None"
proof (rule ccontr)
  assume "keyword_here s \<noteq> None"
  then obtain k where k: "k \<in> set forbidden_keywords" "map lower_char (take (length k) s) = k"
      "drop (length k) s = [] \<or> \<not> word_char (hd (drop (length k) s))"
    by (auto simp: keyword_here_def find_Some_iff in_set_conv_nth)
  from k(2) have len: "length k \<le> length s" by (metis length_map length_take min.cobounded1 min_def)
  then have "map lower_char (take (length k) (s @ b)) = k" using k(2) by simp
  moreover have "drop (length k) (s @ b) = [] \<or> \<not> word_char (hd (drop (length k) (s @ b)))"
    using len k(3) assms(2) by (cases "drop (length k) s = []") auto
  ultimately show False using assms(1) k(1) unfolding keyword_here_def find_None_iff by blast
qed

lemma find_forbidden_prefix:
  "find_forbidden inside (s @ b) = None \<Longrightarrow> b = [] \<or> \<not> word_char (hd b) \<Longrightarrow> find_forbidden inside s = None"
proof (induction s arbitrary: inside)
  case (Cons c s)
  then show ?case using keyword_here_append [of "c # s" b] by (auto split: if_splits option.splits)
qed simp

lemma find_forbidden_suffix:
  "find_forbidden inside (a @ s) = None \<Longrightarrow> list_all space_byte a \<Longrightarrow> \<not> inside \<or> a \<noteq> [] \<Longrightarrow> find_forbidden False s = None"
proof (induction a arbitrary: inside)
  case (Cons c a)
  then have "find_forbidden False (a @ s) = None" using space_byte_facts(2) [of c] by (auto split: option.splits if_splits)
  with Cons show ?case by simp
qed simp

lemma find_forbidden_surrounded:
  assumes "find_forbidden False (a @ s @ b) = None" "list_all space_byte a" "list_all space_byte b"
  shows "find_forbidden False s = None"
proof -
  have "b = [] \<or> \<not> word_char (hd b)" using assms(3) space_byte_facts(2) by (cases b) auto
  with find_forbidden_suffix [OF assms(1,2)] find_forbidden_prefix show ?thesis by blast
qed

subsection \<open>The statement among the pieces\<close>

definition wf_piece :: "piece \<Rightarrow> bool" where
  "wf_piece p \<longleftrightarrow> (case p of Quoted l \<Rightarrow> l \<noteq> [] \<and> \<not> space_byte (hd l) \<and> \<not> space_byte (List.last l) | _ \<Rightarrow> True)"

lemma next_piece_wf: "next_piece dollars c s = Inr (p, r) \<Longrightarrow> wf_piece p"
proof (cases "copied p")
  case True
  assume "next_piece dollars c s = Inr (p, r)"
  then show ?thesis using True
  proof (cases rule: next_piece_cases)
    case (quoted l)
    with scan_quoted_append [OF quoted(2)] show ?thesis using space_byte_facts(3,4) by (auto simp: wf_piece_def)
  next
    case (ticked x)
    have "x = backtick" using ticked(2) hd_dropWhile [of "\<lambda>y. y \<noteq> backtick" s] by simp
    with ticked show ?thesis using space_byte_facts(5) by (auto simp: wf_piece_def)
  next
    case (dollar l)
    with scan_dollar_append [OF dollar(5)] show ?thesis using space_byte_facts(6) by (auto simp: wf_piece_def)
  qed (simp add: wf_piece_def)
qed (simp add: copied_def wf_piece_def split: piece.splits)

lemma pieces_wf: "pieces dollars s = Inr ps \<Longrightarrow> list_all wf_piece ps"
  by (induction ps arbitrary: s) (auto elim!: pieces_ConsE dest: next_piece_wf)

lemma pieces_drop: "pieces dollars s = Inr (ps @ qs) \<Longrightarrow> \<exists>r. pieces dollars r = Inr qs"
  by (induction ps arbitrary: s) (auto elim!: pieces_ConsE)

lemma strip_front:
  "render ps = a @ t \<Longrightarrow> list_all space_byte a \<Longrightarrow> list_all wf_piece ps \<Longrightarrow> list_all copied ps
    \<Longrightarrow> \<exists>qs. ps = map Plain a @ qs \<and> render qs = t"
proof (induction a arbitrary: ps)
  case (Cons c a)
  then obtain p qs where ps: "ps = p # qs" by (cases ps) auto
  have "p = Plain c"
    using Cons.prems ps by (cases p) (auto simp: wf_piece_def copied_def neq_Nil_conv)
  with Cons.IH [of qs] Cons.prems ps show ?case by auto
qed simp

lemma strip_back:
  "render ps = t @ b \<Longrightarrow> list_all space_byte b \<Longrightarrow> list_all wf_piece ps \<Longrightarrow> list_all copied ps
    \<Longrightarrow> \<exists>qs. ps = qs @ map Plain b \<and> render qs = t"
proof (induction b arbitrary: ps rule: rev_induct)
  case (snoc c b)
  then obtain qs p where ps: "ps = qs @ [p]" by (cases ps rule: rev_cases) auto
  have p: "p = Plain c"
  proof (cases p)
    case (Quoted l)
    with snoc.prems ps have l: "l \<noteq> []" "\<not> space_byte (List.last l)" by (auto simp: wf_piece_def)
    moreover have "List.last (render ps) = List.last l" using l(1) Quoted ps by simp
    ultimately show ?thesis using snoc.prems(1,2) by simp
  next
    case (Plain d)
    with snoc.prems ps show ?thesis by simp
  qed (use snoc.prems ps in \<open>simp_all add: copied_def\<close>)
  with snoc.IH [of qs] snoc.prems ps show ?case by auto
qed simp

lemma segments_single: "Separator \<notin> set ps \<Longrightarrow> segments cur ps = [cur @ render ps]"
  by (induction ps arbitrary: cur) auto

lemma segments_split: "Separator \<notin> set ps \<Longrightarrow> segments cur (ps @ Separator # qs) = (cur @ render ps) # segments [] qs"
  by (induction ps arbitrary: cur) auto

lemma view_of_space:
  assumes "list_all space_byte (render ps)" "list_all wf_piece ps"
  shows "list_all space_byte (map piece_view ps)"
  using assms
proof (induction ps)
  case (Cons p ps)
  then show ?case by (cases p) (auto simp: wf_piece_def neq_Nil_conv)
qed simp

lemma empty_statement:
  assumes "trim_space (render ps) = []" "list_all wf_piece ps"
  shows "list_all space_byte (map piece_view ps)"
proof -
  obtain a b where "render ps = a @ trim_space (render ps) @ b" "list_all space_byte a" "list_all space_byte b"
    by (rule trim_space_split)
  with assms(1) have "list_all space_byte (render ps)" by (metis append_Nil list_all_append)
  then show ?thesis by (rule view_of_space [OF _ assms(2)])
qed

lemma statements_of_Cons: "statements_of (x # xs) = (if trim_space x = [] then statements_of xs else trim_space x # statements_of xs)"
  by (simp add: statements_of_def)

lemma no_statement:
  "statements_of (segments [] ps) = [] \<Longrightarrow> list_all wf_piece ps \<Longrightarrow> list_all space_byte (map piece_view ps)"
proof (induction ps rule: measure_induct_rule [where f = length])
  case (less ps)
  show ?case
  proof (cases "Separator \<in> set ps")
    case True
    then obtain xs ys where ps: "ps = xs @ Separator # ys" "Separator \<notin> set xs" by (metis split_list_first)
    with less.prems have "trim_space (render xs) = []" "statements_of (segments [] ys) = []"
      by (auto simp: segments_split statements_of_Cons split: if_splits)
    with ps less.prems less.IH [of ys] empty_statement [of xs] show ?thesis by simp
  next
    case False
    with less.prems show ?thesis by (intro empty_statement) (auto simp: segments_single statements_of_Cons statements_of_def split: if_splits)
  qed
qed

text \<open>The one statement of a query is a run of pieces with nothing but white space around it.\<close>

lemma one_statement:
  assumes "statements_of (segments [] ps) = [s]" "list_all wf_piece ps"
  shows "\<exists>xs seg ys. ps = xs @ seg @ ys \<and> Separator \<notin> set seg \<and> trim_space (render seg) = s \<and>
    list_all space_byte (map piece_view xs) \<and> list_all space_byte (map piece_view ys)"
  using assms
proof (induction ps rule: measure_induct_rule [where f = length])
  case (less ps)
  show ?case
  proof (cases "Separator \<in> set ps")
    case True
    then obtain us vs where ps: "ps = us @ Separator # vs" "Separator \<notin> set us" by (metis split_list_first)
    show ?thesis
    proof (cases "trim_space (render us) = []")
      case empty: True
      with less.prems ps have "statements_of (segments [] vs) = [s]" by (simp add: segments_split statements_of_Cons)
      with less.IH [of vs] less.prems ps obtain xs seg ys where split: "vs = xs @ seg @ ys" "Separator \<notin> set seg"
          "trim_space (render seg) = s" "list_all space_byte (map piece_view xs)" "list_all space_byte (map piece_view ys)" by auto
      have "list_all space_byte (map piece_view us)" using empty less.prems(2) ps by (intro empty_statement) auto
      with split ps show ?thesis
        by (intro exI [of _ "us @ Separator # xs"] exI [of _ seg] exI [of _ ys]) auto
    next
      case False
      with less.prems ps have us: "trim_space (render us) = s" "statements_of (segments [] vs) = []"
        by (auto simp: segments_split statements_of_Cons)
      have "list_all space_byte (map piece_view vs)" using less.prems(2) ps by (intro no_statement [OF us(2)]) auto
      with us ps show ?thesis by (intro exI [of _ "[]"] exI [of _ us] exI [of _ "Separator # vs"]) auto
    qed
  next
    case False
    with less.prems have "trim_space (render ps) = s" by (auto simp: segments_single statements_of_Cons statements_of_def split: if_splits)
    with False show ?thesis by (intro exI [of _ "[]"] exI [of _ ps]) auto
  qed
qed

lemma statements_not_empty: "s \<in> set (statements_of segs) \<Longrightarrow> s \<noteq> [] \<and> trim_space s = s"
  by (auto simp: statements_of_def)

lemma statement_pieces:
  assumes "pieces dollars query = Inr ps" "BlockComment \<notin> set ps" "statements_of (segments [] ps) = [s]"
  obtains us qs vs where "map piece_view ps = us @ map piece_view qs @ vs" "list_all space_byte us" "list_all space_byte vs"
    "pieces dollars s = Inr qs" "list_all copied qs" "render qs = s"
proof -
  note wf = pieces_wf [OF assms(1)]
  from one_statement [OF assms(3) wf] obtain xs seg ys where split: "ps = xs @ seg @ ys" "Separator \<notin> set seg"
      "trim_space (render seg) = s" "list_all space_byte (map piece_view xs)" "list_all space_byte (map piece_view ys)" by blast
  from assms(1) split(1) pieces_drop obtain r where "pieces dollars r = Inr (seg @ ys)" by blast
  moreover have "list_all kept seg" using assms(2) split(1,2) by (auto simp: kept_def list_all_iff)
  ultimately have seg: "pieces dollars (render seg) = Inr (map delined seg)" by (rule pieces_render)
  have copies: "list_all copied (map delined seg)"
    using \<open>list_all kept seg\<close> kept_cases by (auto simp: list_all_iff delined_def copied_def)
  obtain a b where ab: "render seg = a @ s @ b" "list_all space_byte a" "list_all space_byte b"
    using trim_space_split [of "render seg"] split(3) by metis
  with strip_front [of "map delined seg" a "s @ b"] pieces_wf [OF seg] copies
  obtain ts where ts: "map delined seg = map Plain a @ ts" "render ts = s @ b" by auto
  with strip_back [OF ts(2) ab(3)] pieces_wf [OF seg] copies obtain qs where qs: "ts = qs @ map Plain b" "render qs = s" by auto
  from pieces_drop [of dollars "render seg" "map Plain a" "qs @ map Plain b"] seg ts qs obtain r' where
    "pieces dollars r' = Inr (qs @ map Plain b)" by auto
  moreover have qc: "list_all copied qs" using copies ts qs by auto
  then have "list_all kept qs" by (auto simp: list_all_iff copied_def kept_def split: piece.splits)
  ultimately have "pieces dollars (render qs) = Inr (map delined qs)" by (rule pieces_render)
  moreover have "map delined qs = qs" using qc by (intro map_idI) (auto simp: list_all_iff copied_def delined_def)
  ultimately have "pieces dollars s = Inr qs" using qs by simp
  moreover have "map piece_view seg = map piece_view (map delined seg)" by (simp add: delined_def blank_def)
  then have "map piece_view ps = (map piece_view xs @ a) @ map piece_view qs @ (b @ map piece_view ys)"
    using split(1) ts qs by (simp add: comp_def)
  ultimately show thesis using that [of "map piece_view xs @ a" qs "b @ map piece_view ys"] split ab qc qs by simp
qed

lemma guard_accepts:
  "guard_read_only dialect query = Inr s \<longleftrightarrow>
    (\<exists>ps. pieces (dialect = Postgres) query = Inr ps \<and> statements_of (segments [] ps) = [s] \<and>
       leading_keyword (map piece_view ps) \<in> {''select'', ''with''} \<and> find_forbidden False (map piece_view ps) = None)"
  by (cases "pieces (dialect = Postgres) query")
    (auto simp: guard_read_only_def analyze_sql_pieces Let_def length_Suc_conv split: if_splits option.splits)

text \<open>What is known of the statement of a query without block comments.\<close>

lemma accepted_statement:
  assumes "guard_read_only dialect query = Inr s"
    and "\<forall>ps. pieces (dialect = Postgres) query = Inr ps \<longrightarrow> BlockComment \<notin> set ps"
  obtains qs where "pieces (dialect = Postgres) s = Inr qs" "list_all copied qs" "render qs = s"
    "leading_keyword (map piece_view qs) \<in> {''select'', ''with''}" "find_forbidden False (map piece_view qs) = None"
    "guard_read_only dialect s = Inr s"
proof -
  from assms(1) obtain ps where ps: "pieces (dialect = Postgres) query = Inr ps" "statements_of (segments [] ps) = [s]"
      "leading_keyword (map piece_view ps) \<in> {''select'', ''with''}" "find_forbidden False (map piece_view ps) = None"
    unfolding guard_accepts by blast
  with assms(2) have "BlockComment \<notin> set ps" by blast
  from statement_pieces [OF ps(1) this ps(2)] obtain us qs vs where
      view: "map piece_view ps = us @ map piece_view qs @ vs" "list_all space_byte us" "list_all space_byte vs"
      and qs: "pieces (dialect = Postgres) s = Inr qs" "list_all copied qs" "render qs = s" by metis
  have keyword: "leading_keyword (map piece_view qs) \<in> {''select'', ''with''}"
    using ps(3) unfolding view(1) leading_keyword_eq first_word_surrounded [OF view(2,3)] .
  have free: "find_forbidden False (map piece_view qs) = None"
    using ps(4) unfolding view(1) by (rule find_forbidden_surrounded [OF _ view(2,3)])
  have "s \<noteq> [] \<and> trim_space s = s" using ps(2) statements_not_empty [of s "segments [] ps"] by (metis list.set_intros(1))
  moreover have "Separator \<notin> set qs" using qs(2) by (auto simp: list_all_iff copied_def)
  ultimately have "statements_of (segments [] qs) = [s]"
    using qs(3) by (simp add: segments_single statements_of_Cons) (simp add: statements_of_def)
  with qs keyword free have "guard_read_only dialect s = Inr s" unfolding guard_accepts by blast
  with that qs keyword free show thesis by blast
qed

text \<open>
  C39: a verdict on a query without block comments is a verdict on the statement that is executed: the
  statement is accepted again as it is, and read again it has no separator and no comment, starts with
  SELECT or WITH and holds none of the forbidden words outside its literals.
\<close>

theorem guarded_statement_is_read_only:
  assumes "guard_read_only dialect query = Inr s"
    and "\<forall>ps. pieces (dialect = Postgres) query = Inr ps \<longrightarrow> BlockComment \<notin> set ps"
  shows "guard_read_only dialect s = Inr s \<and>
    (\<exists>ps. pieces (dialect = Postgres) s = Inr ps \<and> render ps = s \<and> set ps \<subseteq> range Quoted \<union> range Plain \<and>
       leading_keyword (map piece_view ps) \<in> {''select'', ''with''} \<and> find_forbidden False (map piece_view ps) = None)"
proof -
  obtain qs where qs: "pieces (dialect = Postgres) s = Inr qs" "list_all copied qs" "render qs = s"
      "leading_keyword (map piece_view qs) \<in> {''select'', ''with''}" "find_forbidden False (map piece_view qs) = None"
      "guard_read_only dialect s = Inr s"
    by (rule accepted_statement [OF assms])
  have "p \<in> range Quoted \<union> range Plain" if "p \<in> set qs" for p
  proof -
    from that qs(2) have "copied p" by (auto simp: list_all_iff)
    then show ?thesis by (cases p) (auto simp: copied_def)
  qed
  with qs show ?thesis by blast
qed

text \<open>A text without separators and comments is accepted by its plain view, as it is but for white space around it.\<close>

lemma map_sum_Inr_iff: "map_sum f g x = Inr y \<longleftrightarrow> (\<exists>z. x = Inr z \<and> y = g z)"
  by (cases x) auto

lemma render_pieces: "pieces dollars q = Inr ps \<Longrightarrow> list_all copied ps \<Longrightarrow> render ps = q"
proof (induction ps arbitrary: q)
  case Nil
  then show ?case by (cases q) (auto simp: map_sum_Inr_iff split: sum.splits)
next
  case (Cons p ps)
  from Cons.prems(1) obtain c s r where step: "q = c # s" "next_piece dollars c s = Inr (p, r)" "pieces dollars r = Inr ps"
    by (rule pieces_ConsE)
  with Cons next_piece_text [OF step(2)] show ?case by simp
qed

lemma guard_acceptsI:
  assumes "pieces (dialect = Postgres) q = Inr ps" "list_all copied ps"
    and "map lower_char (first_word (map piece_view ps)) \<in> {''select'', ''with''}" "find_forbidden False (map piece_view ps) = None"
  shows "guard_read_only dialect (trim_space q) = Inr (trim_space q)"
proof -
  have shape: "Separator \<notin> set ps" "BlockComment \<notin> set ps" "render ps = q"
    using assms(2) render_pieces [OF assms(1,2)] by (auto simp: list_all_iff copied_def)
  have "trim_space q \<noteq> []"
  proof
    assume "trim_space q = []"
    then have "trim_space (render ps) = []" by (simp add: shape)
    from empty_statement [OF this pieces_wf [OF assms(1)]] have "\<forall>c \<in> set (map piece_view ps). \<not> is_letter c"
      using space_byte_facts(1) unfolding list_all_iff by blast
    then have "dropWhile (\<lambda>c. \<not> is_letter c) (map piece_view ps) = []" by (simp only: dropWhile_eq_Nil_conv)
    with assms(3) show False unfolding first_word_def by simp
  qed
  then have "statements_of (segments [] ps) = [trim_space q]"
    using shape by (simp add: segments_single statements_of_Cons) (simp add: statements_of_def)
  with assms have "guard_read_only dialect q = Inr (trim_space q)" unfolding guard_accepts leading_keyword_eq
    by (intro exI [of _ ps] conjI)
  moreover have "\<forall>ps'. pieces (dialect = Postgres) q = Inr ps' \<longrightarrow> BlockComment \<notin> set ps'" using assms(1) shape by simp
  ultimately show ?thesis by (rule accepted_statement)
qed

lemma guarded_is_trimmed: "guard_read_only d q = Inr s \<Longrightarrow> trim_space s = s"
  unfolding guard_accepts using statements_not_empty by (metis list.set_intros(1))

definition sample_query :: string where
  "sample_query = ''SELECT ';', a -- DELETE'' @ [CHR 0x0A] @ ''FROM t ;''"

definition sample_statement :: string where
  "sample_statement = ''SELECT ';', a  '' @ [CHR 0x0A] @ ''FROM t''"

lemma sample_query_guarded: "guard_read_only SQLite sample_query = Inr sample_statement"
  by code_simp

lemma sample_query_comments: "\<forall>ps. pieces (SQLite = Postgres) sample_query = Inr ps \<longrightarrow> BlockComment \<notin> set ps"
proof -
  have "case pieces (SQLite = Postgres) sample_query of Inr ps \<Rightarrow> BlockComment \<notin> set ps | Inl _ \<Rightarrow> False" by code_simp
  then show ?thesis by (simp split: sum.splits)
qed

lemma guarded_statement_is_read_only_witness: "guard_read_only SQLite sample_statement = Inr sample_statement"
  using guarded_statement_is_read_only [OF sample_query_guarded sample_query_comments] by (rule conjunct1)

text \<open>
  The comment above \<open>analyzeSQL\<close> says that each comment becomes a single space. A block comment becomes
  one in the plain view only: in the statement what stands around it is joined. The verdict is then about
  another text than the one that is executed, and a query can delete.
\<close>

theorem block_comments_defeat_the_guard:
  "guard_read_only SQLite ''WITH x AS (SELECT 1) DEL/**/ETE FROM t'' = Inr ''WITH x AS (SELECT 1) DELETE FROM t'' \<and>
   (case guard_read_only SQLite ''WITH x AS (SELECT 1) DELETE FROM t'' of Inl _ \<Rightarrow> True | Inr _ \<Rightarrow> False)"
  by code_simp

text \<open>
  A name in the quotes of \<open>quoteIdentifier\<close> is one piece of a query, whatever the name is: it cannot end the
  identifier early.
\<close>

lemma scan_doubled:
  "rest = [] \<or> hd rest \<noteq> q \<Longrightarrow>
   scan_quoted q (concat (map (\<lambda>c. if c = q then [c, c] else [c]) name) @ q # rest) =
     Some (concat (map (\<lambda>c. if c = q then [c, c] else [c]) name) @ [q], rest)"
proof (induction name)
  case Nil
  then show ?case by (cases rest) auto
next
  case (Cons c name)
  let ?tail = "concat (map (\<lambda>c. if c = q then [c, c] else [c]) name) @ q # rest"
  have "?tail \<noteq> []" by simp
  then obtain d ds where "?tail = d # ds" by (cases ?tail) auto
  with Cons show ?case by auto
qed

theorem quoted_identifier_is_one_piece:
  assumes "rest = [] \<or> hd rest \<noteq> double_quote"
  shows "pieces dollars (quote_identifier name @ rest) =
    map_sum id (Cons (Quoted (quote_identifier name))) (pieces dollars rest)"
proof -
  have "double_quote \<noteq> quote_char" by (simp add: double_quote_def quote_char_def)
  moreover note scan_doubled [OF assms, of name]
  ultimately have "next_piece dollars double_quote (tl (quote_identifier name) @ rest) = Inr (Quoted (quote_identifier name), rest)"
    by (simp add: next_piece_def quote_identifier_def)
  then show ?thesis by (simp add: quote_identifier_def)
qed

end
