(* ===== verification/SqlToolkit.thy ===== *)
theory SqlToolkit
  imports SqlGuard NodeExec
begin

section \<open>The tools of the SQL toolkit (sqltoolkit.go, introspect.go)\<close>

text \<open>
  Four tools over a database handle: run a query, check a query, describe tables, list tables. The handle
  is an argument: what it answers to a statement and its parameters, in a state of its own. The theorems
  follow the statements that reach it and the text that reaches the model.
\<close>

subsection \<open>The database handle\<close>

text \<open>A value as it is printed: NULL, bytes, the text of a time, or what \<open>%v\<close> prints.\<close>

datatype sql_value = SqlNull | SqlBytes string | SqlTime string | SqlOther string

text \<open>The rows that arrive; \<open>Inl\<close> in \<open>rs_rows\<close> is a row that cannot be scanned, \<open>rs_err\<close> ends the iteration.\<close>

record sql_rows =
  rs_columns :: "goerr + string list"
  rs_rows :: "(goerr + sql_value list) list"
  rs_err :: "goerr option"

type_synonym 'w db = "string \<Rightarrow> string list \<Rightarrow> 'w \<Rightarrow> (goerr + sql_rows) \<times> 'w"

text \<open>How \<open>database/sql\<close> stores a value in a Go variable: a string, a nullable string, a nullable integer.\<close>

record sql_scans =
  sc_string :: "sql_value \<Rightarrow> goerr + string"
  sc_null_string :: "sql_value \<Rightarrow> goerr + string option"
  sc_null_int :: "sql_value \<Rightarrow> goerr + int option"

record sql_toolkit =
  tk_dialect :: dialect
  tk_sample_rows :: int
  tk_max_rows :: int
  tk_max_schema :: int

definition new_sql_toolkit :: "dialect \<Rightarrow> (sql_toolkit \<Rightarrow> sql_toolkit) list \<Rightarrow> ('w \<Rightarrow> goerr option \<times> 'w) \<Rightarrow> 'w
    \<Rightarrow> (goerr + sql_toolkit) \<times> 'w" where
  "new_sql_toolkit dialect opts ping w =
     (let tk = fold (\<lambda>opt tk. opt tk) opts \<lparr>tk_dialect = dialect, tk_sample_rows = 3, tk_max_rows = 30, tk_max_schema = 12000\<rparr> in
      if tk_sample_rows tk < 0 then
        (Inl (EText (''sqltoolkit: sample rows must be >= 0, got '' @ show_int (tk_sample_rows tk))), w)
      else if tk_max_rows tk < 1 then
        (Inl (EText (''sqltoolkit: max query rows must be >= 1, got '' @ show_int (tk_max_rows tk))), w)
      else if tk_max_schema tk < 1 then
        (Inl (EText (''sqltoolkit: max schema length must be >= 1, got '' @ show_int (tk_max_schema tk))), w)
      else case ping w of
          (Some e, w') \<Rightarrow> (Inl (EWrap ''sqltoolkit: ping db: '' e), w')
        | (None, w') \<Rightarrow> (Inr tk, w'))"

fun format_sql_value :: "sql_value \<Rightarrow> string" where
  "format_sql_value SqlNull = ''NULL''"
| "format_sql_value (SqlBytes b) = b"
| "format_sql_value (SqlTime t) = t"
| "format_sql_value (SqlOther v) = v"

definition line_break :: string where "line_break = [CHR 0x0A]"
definition tab :: string where "tab = [CHR 0x09]"

subsection \<open>Running and checking a query\<close>

text \<open>The loop over the rows; the lines so far are in \<open>ls\<close>.\<close>

fun query_rows :: "int \<Rightarrow> (goerr + sql_value list) list \<Rightarrow> goerr option \<Rightarrow> int \<Rightarrow> string list \<Rightarrow> goerr + string" where
  "query_rows limit [] err returned ls =
     (case err of
        Some e \<Rightarrow> Inl e
      | None \<Rightarrow> if returned = 0 then Inr ''no rows returned'' else Inr (join_with line_break ls))"
| "query_rows limit (row # rows) err returned ls =
     (if returned \<ge> limit then
        Inr (join_with line_break (ls @ [''(result truncated at '' @ show_int limit @ '' rows)'']))
      else case row of
          Inl e \<Rightarrow> Inl e
        | Inr vs \<Rightarrow> query_rows limit rows err (returned + 1) (ls @ [join_with tab (map format_sql_value vs)]))"

definition run_query :: "sql_toolkit \<Rightarrow> 'w db \<Rightarrow> string \<Rightarrow> 'w \<Rightarrow> (goerr + string) \<times> 'w" where
  "run_query tk db query w =
     (case guard_read_only (tk_dialect tk) query of
        Inl e \<Rightarrow> (Inl e, w)
      | Inr statement \<Rightarrow>
          (case db statement [] w of
             (Inl e, w') \<Rightarrow> (Inl e, w')
           | (Inr rs, w') \<Rightarrow>
               (case rs_columns rs of
                  Inl e \<Rightarrow> (Inl e, w')
                | Inr columns \<Rightarrow> (query_rows (tk_max_rows tk) (rs_rows rs) (rs_err rs) 0 [join_with tab columns], w'))))"

definition check_query :: "sql_toolkit \<Rightarrow> 'w db \<Rightarrow> string \<Rightarrow> 'w \<Rightarrow> (goerr + string) \<times> 'w" where
  "check_query tk db query w =
     (case guard_read_only (tk_dialect tk) query of
        Inl e \<Rightarrow> (Inl e, w)
      | Inr statement \<Rightarrow>
          (case db (''EXPLAIN '' @ statement) [] w of
             (Inl e, w') \<Rightarrow> (Inl e, w')
           | (Inr rs, w') \<Rightarrow> (Inr ''OK'', w')))"

subsection \<open>Describing tables\<close>

definition single_quote :: string where "single_quote = [CHR 0x27]"

definition quoted_word :: "string \<Rightarrow> string" where
  "quoted_word s = single_quote @ s @ single_quote"

definition list_tables_statement :: "dialect \<Rightarrow> string" where
  "list_tables_statement d =
     (let nl = line_break @ tab @ tab @ tab in
      case d of
        SQLite \<Rightarrow> nl @ ''SELECT name FROM sqlite_master'' @ nl @ ''WHERE type IN ('' @ quoted_word ''table'' @ '', '' @ quoted_word ''view''
          @ '') AND name NOT LIKE '' @ quoted_word (''sqlite'' @ [CHR 0x5C] @ ''_%'') @ '' ESCAPE '' @ quoted_word [CHR 0x5C]
          @ nl @ ''ORDER BY name''
      | Postgres \<Rightarrow> nl @ ''SELECT table_name FROM information_schema.tables'' @ nl @ ''WHERE table_schema = current_schema()''
          @ nl @ ''  AND table_type IN ('' @ quoted_word ''BASE TABLE'' @ '', '' @ quoted_word ''VIEW'' @ '')'' @ nl @ ''ORDER BY table_name'')"

definition sqlite_ddl_statement :: string where
  "sqlite_ddl_statement =
     ''SELECT sql FROM sqlite_master WHERE type IN ('' @ quoted_word ''table'' @ '', '' @ quoted_word ''view'' @ '') AND name = ?''"

definition postgres_ddl_statement :: string where
  "postgres_ddl_statement =
     (let nl = line_break @ tab @ tab in
      nl @ ''SELECT column_name, data_type, character_maximum_length, is_nullable, column_default''
      @ nl @ ''FROM information_schema.columns''
      @ nl @ ''WHERE table_schema = current_schema() AND table_name = $1'' @ nl @ ''ORDER BY ordinal_position'')"

text \<open>The first columns of a row; a row with another number of columns is an error of \<open>Scan\<close>.\<close>

definition scan_one :: "(sql_value \<Rightarrow> goerr + 'a) \<Rightarrow> sql_value list \<Rightarrow> goerr + 'a" where
  "scan_one scan vs =
     (case vs of
        [v] \<Rightarrow> scan v
      | _ \<Rightarrow> Inl (EText (''sql: expected '' @ show_nat (length vs) @ '' destination arguments in Scan, not 1'')))"

fun scan_names :: "(sql_value \<Rightarrow> goerr + string) \<Rightarrow> (goerr + sql_value list) list \<Rightarrow> goerr + string list" where
  "scan_names scan [] = Inr []"
| "scan_names scan (Inl e # rows) = Inl e"
| "scan_names scan (Inr vs # rows) =
     (case scan_one scan vs of
        Inl e \<Rightarrow> Inl e
      | Inr name \<Rightarrow> map_sum id (Cons name) (scan_names scan rows))"

definition list_tables :: "sql_toolkit \<Rightarrow> sql_scans \<Rightarrow> 'w db \<Rightarrow> 'w \<Rightarrow> (goerr + string list) \<times> 'w" where
  "list_tables tk sc db w =
     (case db (list_tables_statement (tk_dialect tk)) [] w of
        (Inl e, w') \<Rightarrow> (Inl e, w')
      | (Inr rs, w') \<Rightarrow>
          (case scan_names (sc_string sc) (rs_rows rs) of
             Inl e \<Rightarrow> (Inl e, w')
           | Inr names \<Rightarrow> (case rs_err rs of Some e \<Rightarrow> (Inl e, w') | None \<Rightarrow> (Inr names, w'))))"

text \<open>One line of a table description of postgres.\<close>

definition column_line :: "sql_scans \<Rightarrow> sql_value list \<Rightarrow> goerr + string" where
  "column_line sc vs =
     (case vs of
        [a, b, c, d, e] \<Rightarrow>
          (case (sc_string sc a, sc_string sc b, sc_null_int sc c, sc_string sc d, sc_null_string sc e) of
             (Inl err, _) \<Rightarrow> Inl err
           | (_, Inl err, _) \<Rightarrow> Inl err
           | (_, _, Inl err, _) \<Rightarrow> Inl err
           | (_, _, _, Inl err, _) \<Rightarrow> Inl err
           | (_, _, _, _, Inl err) \<Rightarrow> Inl err
           | (Inr name, Inr type, Inr max_len, Inr nullable, Inr dflt) \<Rightarrow>
               let full = (case max_len of
                     Some n \<Rightarrow> if n > 0 then type @ ''('' @ show_int n @ '')'' else type
                   | None \<Rightarrow> type);
                   base = tab @ quote_identifier name @ '' '' @ full;
                   strict = (if nullable = ''NO'' then base @ '' NOT NULL'' else base);
                   all = (case dflt of Some v \<Rightarrow> if v \<noteq> [] then strict @ '' DEFAULT '' @ v else strict | None \<Rightarrow> strict) in
               Inr (all @ '',''))
      | _ \<Rightarrow> Inl (EText (''sql: expected '' @ show_nat (length vs) @ '' destination arguments in Scan, not 5'')))"

fun column_lines :: "sql_scans \<Rightarrow> (goerr + sql_value list) list \<Rightarrow> goerr + string list" where
  "column_lines sc [] = Inr []"
| "column_lines sc (Inl e # rows) = Inl e"
| "column_lines sc (Inr vs # rows) =
     (case column_line sc vs of Inl e \<Rightarrow> Inl e | Inr l \<Rightarrow> map_sum id (Cons l) (column_lines sc rows))"

definition postgres_ddl :: "sql_scans \<Rightarrow> 'w db \<Rightarrow> string \<Rightarrow> 'w \<Rightarrow> (goerr + string) \<times> 'w" where
  "postgres_ddl sc db table w =
     (case db postgres_ddl_statement [table] w of
        (Inl e, w') \<Rightarrow> (Inl e, w')
      | (Inr rs, w') \<Rightarrow>
          (case column_lines sc (rs_rows rs) of
             Inl e \<Rightarrow> (Inl e, w')
           | Inr ls \<Rightarrow>
               (case rs_err rs of
                  Some e \<Rightarrow> (Inl e, w')
                | None \<Rightarrow>
                    if ls = [] then (Inl (EText (''table '' @ go_quote table @ '' not found in database'')), w')
                    else (Inr (join_with line_break ((''CREATE TABLE '' @ quote_identifier table @ '' ('') # ls @ ['');''])), w'))))"

definition ends_with :: "string \<Rightarrow> string \<Rightarrow> bool" where
  "ends_with s e \<longleftrightarrow> length e \<le> length s \<and> drop (length s - length e) s = e"

text \<open>\<open>QueryRow\<close> reads the first row and fails when there is none.\<close>

definition table_ddl :: "sql_toolkit \<Rightarrow> sql_scans \<Rightarrow> 'w db \<Rightarrow> string \<Rightarrow> 'w \<Rightarrow> (goerr + string) \<times> 'w" where
  "table_ddl tk sc db table w =
     (if tk_dialect tk = Postgres then postgres_ddl sc db table w
      else
        case db sqlite_ddl_statement [table] w of
          (Inl e, w') \<Rightarrow> (Inl e, w')
        | (Inr rs, w') \<Rightarrow>
            (case rs_rows rs of
               [] \<Rightarrow> (Inl (case rs_err rs of Some e \<Rightarrow> e | None \<Rightarrow> EText ''sql: no rows in result set''), w')
             | Inl e # _ \<Rightarrow> (Inl e, w')
             | Inr vs # _ \<Rightarrow>
                 (case scan_one (sc_null_string sc) vs of
                    Inl e \<Rightarrow> (Inl e, w')
                  | Inr None \<Rightarrow> (Inr (''-- no stored DDL for '' @ table), w')
                  | Inr (Some ddl) \<Rightarrow>
                      if trim_space ddl = [] then (Inr (''-- no stored DDL for '' @ table), w')
                      else if \<not> ends_with (trim_space ddl) '';'' then (Inr (trim_space ddl @ '';''), w')
                      else (Inr ddl, w'))))"

definition sample_statement_for :: "sql_toolkit \<Rightarrow> string \<Rightarrow> string" where
  "sample_statement_for tk table = ''SELECT * FROM '' @ quote_identifier table @ '' LIMIT '' @ show_int (tk_sample_rows tk)"

fun sample_lines :: "string \<Rightarrow> (goerr + sql_value list) list \<Rightarrow> goerr option \<Rightarrow> string list \<Rightarrow> string" where
  "sample_lines prefix [] err ls =
     (case err of
        Some e \<Rightarrow> prefix @ line_break @ ''Error: '' @ err_text e
      | None \<Rightarrow> join_with line_break ls)"
| "sample_lines prefix (Inl e # rows) err ls = prefix @ line_break @ ''Error: '' @ err_text e"
| "sample_lines prefix (Inr vs # rows) err ls =
     sample_lines prefix rows err (ls @ [join_with tab (map format_sql_value vs)])"

definition sample_rows_block :: "sql_toolkit \<Rightarrow> 'w db \<Rightarrow> string \<Rightarrow> 'w \<Rightarrow> string \<times> 'w" where
  "sample_rows_block tk db table w =
     (let prefix = show_int (tk_sample_rows tk) @ '' rows from '' @ table @ '' table:'' in
      case db (sample_statement_for tk table) [] w of
        (Inl e, w') \<Rightarrow> (prefix @ line_break @ ''Error: '' @ err_text e, w')
      | (Inr rs, w') \<Rightarrow>
          (case rs_columns rs of
             Inl e \<Rightarrow> (prefix @ line_break @ ''Error: '' @ err_text e, w')
           | Inr columns \<Rightarrow> (sample_lines prefix (rs_rows rs) (rs_err rs) [prefix, join_with tab columns], w')))"

definition go_strings :: "string list \<Rightarrow> string" where
  "go_strings ss = ''['' @ join_with '' '' ss @ '']''"

fun schema_blocks :: "sql_toolkit \<Rightarrow> sql_scans \<Rightarrow> 'w db \<Rightarrow> string list \<Rightarrow> 'w \<Rightarrow> (goerr + string list) \<times> 'w" where
  "schema_blocks tk sc db [] w = (Inr [], w)"
| "schema_blocks tk sc db (name # names) w =
     (case table_ddl tk sc db name w of
        (Inl e, w1) \<Rightarrow> (Inl e, w1)
      | (Inr ddl, w1) \<Rightarrow>
          let (ddl', w2) = (if tk_sample_rows tk > 0
                then (let (block, w') = sample_rows_block tk db name w1 in (ddl @ line_break @ block, w'))
                else (ddl, w1));
              (result, w3) = schema_blocks tk sc db names w2 in
          (map_sum id (Cons ddl') result, w3))"

definition cap_schema :: "int \<Rightarrow> string \<Rightarrow> string" where
  "cap_schema limit info =
     (if limit > 0 \<and> rune_len info > limit then
        concat (take (nat limit) (split_runes info)) @ line_break @ line_break
          @ ''(schema info truncated at '' @ show_int limit @ '' characters)''
      else info)"

definition schema_info :: "sql_toolkit \<Rightarrow> sql_scans \<Rightarrow> 'w db \<Rightarrow> string list \<Rightarrow> 'w \<Rightarrow> (goerr + string) \<times> 'w" where
  "schema_info tk sc db tables w =
     (let names = filter (\<lambda>n. n \<noteq> []) (map trim_space tables) in
      case list_tables tk sc db w of
        (Inl e, w') \<Rightarrow> (Inl e, w')
      | (Inr usable, w') \<Rightarrow>
          let names = (if names = [] then usable else names);
              missing = filter (\<lambda>n. n \<notin> set usable) names in
          if names = [] then (Inr ''no tables found in the database'', w')
          else if missing \<noteq> [] then (Inl (EText (''tables '' @ go_strings missing @ '' not found in database'')), w')
          else
            case schema_blocks tk sc db names w' of
              (Inl e, w2) \<Rightarrow> (Inl e, w2)
            | (Inr blocks, w2) \<Rightarrow> (Inr (cap_schema (tk_max_schema tk) (join_with (line_break @ line_break) blocks)), w2))"

subsection \<open>The four tools\<close>

definition string_arg :: "gval gomap \<Rightarrow> string \<Rightarrow> goerr + string" where
  "string_arg input key =
     (case map_of input key of
        None \<Rightarrow> Inr []
      | Some VNil \<Rightarrow> Inr []
      | Some (VStr s) \<Rightarrow> Inr s
      | Some _ \<Rightarrow> Inl (EText (key @ '' must be a string'')))"

text \<open>Errors become the content of the result: the tools themselves never fail.\<close>

definition tool_content :: "(goerr + string) \<times> 'w \<Rightarrow> string \<times> 'w" where
  "tool_content r = (case r of (Inl e, w) \<Rightarrow> (''Error: '' @ err_text e, w) | (Inr s, w) \<Rightarrow> (s, w))"

fun split_at :: "char \<Rightarrow> string \<Rightarrow> string list" where
  "split_at sep [] = [[]]"
| "split_at sep (c # s) =
     (if c = sep then [] # split_at sep s
      else case split_at sep s of [] \<Rightarrow> [[c]] | w # ws \<Rightarrow> (c # w) # ws)"

definition query_tool :: "sql_toolkit \<Rightarrow> 'w db \<Rightarrow> gval gomap \<Rightarrow> 'w \<Rightarrow> string \<times> 'w" where
  "query_tool tk db input w =
     tool_content (case string_arg input ''query'' of Inl e \<Rightarrow> (Inl e, w) | Inr query \<Rightarrow> run_query tk db query w)"

definition schema_tool :: "sql_toolkit \<Rightarrow> sql_scans \<Rightarrow> 'w db \<Rightarrow> gval gomap \<Rightarrow> 'w \<Rightarrow> string \<times> 'w" where
  "schema_tool tk sc db input w =
     tool_content (case string_arg input ''table_names'' of
         Inl e \<Rightarrow> (Inl e, w)
       | Inr names \<Rightarrow> schema_info tk sc db (filter (\<lambda>n. n \<noteq> []) (split_at (CHR '','') names)) w)"

definition list_tables_tool :: "sql_toolkit \<Rightarrow> sql_scans \<Rightarrow> 'w db \<Rightarrow> 'w \<Rightarrow> string \<times> 'w" where
  "list_tables_tool tk sc db w =
     tool_content (case list_tables tk sc db w of
         (Inl e, w') \<Rightarrow> (Inl e, w')
       | (Inr names, w') \<Rightarrow> (Inr (join_with '', '' names), w'))"

definition checker_tool :: "sql_toolkit \<Rightarrow> 'w db \<Rightarrow> gval gomap \<Rightarrow> 'w \<Rightarrow> string \<times> 'w" where
  "checker_tool tk db input w =
     tool_content (case string_arg input ''query'' of Inl e \<Rightarrow> (Inl e, w) | Inr query \<Rightarrow> check_query tk db query w)"

subsection \<open>Statements the toolkit makes itself\<close>

lemma digit_char_is_digit: "d < 10 \<Longrightarrow> is_digit (digit_char d)"
proof -
  have "list_all (\<lambda>d. is_digit (digit_char d)) [0..<10]" by code_simp
  then show "d < 10 \<Longrightarrow> is_digit (digit_char d)" by (simp add: list_all_iff)
qed

lemma show_nat_digits: "list_all is_digit (show_nat n) \<and> show_nat n \<noteq> []"
proof -
  have "b = 10 \<Longrightarrow> list_all is_digit (show_base b n) \<and> show_base b n \<noteq> []" for b
  proof (induction b n rule: show_base.induct)
    case (1 b n)
    then show ?case by (subst (1 2) show_base.simps) (auto simp: digit_char_is_digit)
  qed
  then show ?thesis by (simp add: show_nat_def)
qed

lemma digit_facts:
  assumes "is_digit c"
  shows "lower_char c = c" "word_char c" "\<not> space_byte c" "c \<noteq> CHR ''i''" "c \<noteq> CHR ''u''" "c \<noteq> CHR ''d''"
    "c \<noteq> quote_char" "c \<noteq> double_quote" "c \<noteq> backtick" "c \<noteq> CHR ''$''" "c \<noteq> CHR ''-''" "c \<noteq> CHR ''/''" "c \<noteq> CHR '';''"
proof -
  have "c \<in> set (map digit_char [0..<10])"
  proof -
    have "byte c \<in> {48..57}" using assms by (simp add: is_digit_def less_eq_char_def byte_def)
    then have "c = digit_char (byte c - 48) \<and> byte c - 48 < 10" by (auto simp: digit_char_def byte_def)
    then show ?thesis by auto
  qed
  moreover have "list_all (\<lambda>c. lower_char c = c \<and> word_char c \<and> \<not> space_byte c \<and> c \<noteq> CHR ''i'' \<and> c \<noteq> CHR ''u'' \<and> c \<noteq> CHR ''d'' \<and>
      c \<noteq> quote_char \<and> c \<noteq> double_quote \<and> c \<noteq> backtick \<and> c \<noteq> CHR ''$'' \<and> c \<noteq> CHR ''-'' \<and> c \<noteq> CHR ''/'' \<and> c \<noteq> CHR '';'')
      (map digit_char [0..<10])" by code_simp
  ultimately show "lower_char c = c" "word_char c" "\<not> space_byte c" "c \<noteq> CHR ''i''" "c \<noteq> CHR ''u''" "c \<noteq> CHR ''d''"
    "c \<noteq> quote_char" "c \<noteq> double_quote" "c \<noteq> backtick" "c \<noteq> CHR ''$''" "c \<noteq> CHR ''-''" "c \<noteq> CHR ''/''" "c \<noteq> CHR '';''"
    unfolding list_all_iff by blast+
qed

lemma keyword_here_first: "s = [] \<or> lower_char (hd s) \<notin> {CHR ''i'', CHR ''u'', CHR ''d''} \<Longrightarrow> keyword_here s = None"
  by (cases s) (auto simp: keyword_here_def forbidden_keywords_def)

lemma find_forbidden_digits: "list_all is_digit s \<Longrightarrow> find_forbidden inside s = None"
  by (induction s arbitrary: inside) (auto simp: keyword_here_first digit_facts)

lemma pieces_plain:
  "list_all (\<lambda>c. c \<notin> {quote_char, double_quote, backtick, CHR ''$'', CHR ''-'', CHR ''/'', CHR '';''}) a
    \<Longrightarrow> pieces dollars (a @ s) = map_sum id ((@) (map Plain a)) (pieces dollars s)"
proof (induction a)
  case (Cons c a)
  then have "next_piece dollars c (a @ s) = Inr (Plain c, a @ s)" by (simp add: next_piece_def)
  with Cons show ?case by (cases "pieces dollars s") simp_all
qed (cases "pieces dollars s"; simp)

lemma sample_statement_guarded:
  assumes "0 \<le> tk_sample_rows tk"
  shows "guard_read_only d (trim_space (sample_statement_for tk table)) = Inr (trim_space (sample_statement_for tk table))"
proof -
  let ?front = "''SELECT * FROM ''" and ?rear = "'' LIMIT '' @ show_nat (nat (tk_sample_rows tk))" and ?q = "quote_identifier table"
  let ?ps = "map Plain ?front @ Quoted ?q # map Plain ?rear"
  note digits = show_nat_digits [of "nat (tk_sample_rows tk)"]
  have s: "sample_statement_for tk table = ?front @ ?q @ ?rear" using assms by (simp add: sample_statement_for_def show_int_def)
  have "list_all (\<lambda>c. c \<notin> {quote_char, double_quote, backtick, CHR ''$'', CHR ''-'', CHR ''/'', CHR '';''}) (show_nat (nat (tk_sample_rows tk)))"
    using digits digit_facts(7-13) by (simp add: list_all_iff)
  then have rear: "list_all (\<lambda>c. c \<notin> {quote_char, double_quote, backtick, CHR ''$'', CHR ''-'', CHR ''/'', CHR '';''}) ?rear"
    by (simp only: list_all_append) (simp add: quote_char_def double_quote_def backtick_def)
  have front: "list_all (\<lambda>c. c \<notin> {quote_char, double_quote, backtick, CHR ''$'', CHR ''-'', CHR ''/'', CHR '';''}) ?front"
    by (simp add: quote_char_def double_quote_def backtick_def)
  have "pieces (d = Postgres) ?rear = Inr (map Plain ?rear)" using pieces_plain [OF rear, of "d = Postgres" "[]"] by simp
  moreover have "hd ?rear \<noteq> double_quote" by (simp add: double_quote_def)
  ultimately have "pieces (d = Postgres) (?q @ ?rear) = Inr (Quoted ?q # map Plain ?rear)"
    using quoted_identifier_is_one_piece [of ?rear "d = Postgres" table] by simp
  then have ps: "pieces (d = Postgres) (sample_statement_for tk table) = Inr ?ps"
    unfolding s using pieces_plain [OF front, of "d = Postgres" "?q @ ?rear"] by (simp only: map_sum.simps)
  moreover have "list_all copied ?ps" by (simp add: list_all_iff copied_def)
  moreover have "map lower_char (first_word (map piece_view ?ps)) = ''select''"
  proof -
    have "first_word (map piece_view ?ps) = ''SELECT''"
      by (simp add: first_word_def is_letter_def is_lower_def is_upper_def less_eq_char_def)
    moreover have "map lower_char ''SELECT'' = ''select''" by code_simp
    ultimately show ?thesis by simp
  qed
  moreover have "find_forbidden False (map piece_view ?ps) = None"
  proof -
    have "lower_char (CHR ''S'') = CHR ''s''" "lower_char (CHR ''F'') = CHR ''f''" "lower_char (CHR ''L'') = CHR ''l''"
      "lower_char (CHR '' '') = CHR '' ''" "lower_char (CHR ''*'') = CHR ''*''" by code_simp+
    note firsts = this
    have "list_all word_char ''SELCTFROMI''" "\<not> word_char (CHR '' '')" "\<not> word_char (CHR ''*'')" by code_simp+
    then show ?thesis using digits by (simp add: keyword_here_first find_forbidden_digits firsts comp_def blank_def)
  qed
  ultimately show ?thesis by (intro guard_acceptsI [OF ps]) auto
qed

text \<open>What the guard returns as it is, and so is known to be read-only, or its plan: \<open>EXPLAIN\<close> does not run it.\<close>

definition reads_only :: "sql_toolkit \<Rightarrow> string \<Rightarrow> bool" where
  "reads_only tk q \<longleftrightarrow>
     (\<exists>s. guard_read_only (tk_dialect tk) s = Inr s \<and> (trim_space q = s \<or> q = ''EXPLAIN '' @ s))"

definition plainly_reads :: "bool \<Rightarrow> string \<Rightarrow> bool" where
  "plainly_reads dollars q \<longleftrightarrow>
     (case pieces dollars q of
        Inl e \<Rightarrow> False
      | Inr ps \<Rightarrow> list_all copied ps \<and> map lower_char (first_word (map piece_view ps)) = ''select'' \<and>
          find_forbidden False (map piece_view ps) = None)"

lemma plainly_reads_only: "plainly_reads (tk_dialect tk = Postgres) q \<Longrightarrow> reads_only tk q"
  using guard_acceptsI [of "tk_dialect tk" q] by (auto simp: plainly_reads_def reads_only_def split: sum.splits)

lemma own_statements_read:
  "plainly_reads False (list_tables_statement SQLite)" (is ?A) "plainly_reads True (list_tables_statement Postgres)" (is ?B)
  "plainly_reads False sqlite_ddl_statement" (is ?C) "plainly_reads True postgres_ddl_statement" (is ?D)
proof -
  show ?C by code_simp
  show ?A by code_simp
  show ?B by code_simp
  show ?D by code_simp
qed

lemma list_tables_reads_only: "reads_only tk (list_tables_statement (tk_dialect tk))"
  using own_statements_read(1,2) by (cases "tk_dialect tk") (auto intro: plainly_reads_only)

lemma ddl_reads_only:
  "tk_dialect tk = SQLite \<Longrightarrow> reads_only tk sqlite_ddl_statement"
  "tk_dialect tk = Postgres \<Longrightarrow> reads_only tk postgres_ddl_statement"
  using own_statements_read(3,4) by (auto intro: plainly_reads_only)

lemma sample_reads_only: "0 \<le> tk_sample_rows tk \<Longrightarrow> reads_only tk (sample_statement_for tk table)"
  unfolding reads_only_def using sample_statement_guarded by blast

subsection \<open>Statements that reach the database\<close>

text \<open>The database with a log of the statements it was sent.\<close>

definition logged :: "'w db \<Rightarrow> (string list \<times> 'w) db" where
  "logged db q args lw = (let (r, w) = db q args (snd lw) in (r, (fst lw @ [q], w)))"

text \<open>\<open>quiet P r\<close>: all statements in the log of the result \<open>r\<close> satisfy \<open>P\<close>.\<close>

definition quiet :: "(string \<Rightarrow> bool) \<Rightarrow> 'r \<times> (string list \<times> 'w) \<Rightarrow> bool" where
  "quiet P r \<longleftrightarrow> list_all P (fst (snd r))"

lemma quiet_logged: "P q \<Longrightarrow> list_all P (fst lw) \<Longrightarrow> quiet P (logged db q args lw)"
  by (simp add: quiet_def logged_def split: prod.split)

lemma quiet_Pair [simp]: "quiet P (r, lw) = list_all P (fst lw)"
  by (simp add: quiet_def)

lemma quiet_tool_content [simp]: "quiet P (tool_content r) = quiet P r"
  by (cases r) (auto simp: tool_content_def quiet_def split: sum.split)

lemma logged_step:
  assumes "P q" "list_all P (fst lw)"
  obtains r lw' where "logged db q args lw = (r, lw')" "list_all P (fst lw')"
  using quiet_logged [of P q lw db args] assms by (cases "logged db q args lw") auto

lemma quiet_run_query:
  assumes "\<And>s. guard_read_only (tk_dialect tk) query = Inr s \<Longrightarrow> P s" "list_all P (fst lw)"
  shows "quiet P (run_query tk (logged db) query lw)"
proof (cases "guard_read_only (tk_dialect tk) query")
  case (Inr s)
  obtain r lw' where "logged db s [] lw = (r, lw')" "list_all P (fst lw')" using logged_step [OF assms(1) [OF Inr] assms(2)] by metis
  with Inr show ?thesis by (simp add: run_query_def split: sum.split)
qed (use assms(2) in \<open>simp add: run_query_def\<close>)

lemma quiet_check_query:
  assumes "\<And>s. guard_read_only (tk_dialect tk) query = Inr s \<Longrightarrow> P (''EXPLAIN '' @ s)" "list_all P (fst lw)"
  shows "quiet P (check_query tk (logged db) query lw)"
proof (cases "guard_read_only (tk_dialect tk) query")
  case (Inr s)
  obtain r lw' where "logged db (''EXPLAIN '' @ s) [] lw = (r, lw')" "list_all P (fst lw')"
    using logged_step [OF assms(1) [OF Inr] assms(2)] by metis
  with Inr show ?thesis by (simp add: check_query_def split: sum.split)
qed (use assms(2) in \<open>simp add: check_query_def\<close>)

lemma quiet_list_tables:
  assumes "P (list_tables_statement (tk_dialect tk))" "list_all P (fst lw)"
  shows "quiet P (list_tables tk sc (logged db) lw)"
proof -
  obtain r lw' where "logged db (list_tables_statement (tk_dialect tk)) [] lw = (r, lw')" "list_all P (fst lw')"
    using logged_step [OF assms] by metis
  then show ?thesis by (simp add: list_tables_def split: sum.split option.split)
qed

lemma quiet_table_ddl:
  assumes "tk_dialect tk = SQLite \<Longrightarrow> P sqlite_ddl_statement" "tk_dialect tk = Postgres \<Longrightarrow> P postgres_ddl_statement"
    "list_all P (fst lw)"
  shows "quiet P (table_ddl tk sc (logged db) table lw)"
proof (cases "tk_dialect tk")
  case Postgres
  obtain r lw' where "logged db postgres_ddl_statement [table] lw = (r, lw')" "list_all P (fst lw')"
    using logged_step [OF assms(2) [OF Postgres] assms(3)] by metis
  with Postgres show ?thesis by (simp add: table_ddl_def postgres_ddl_def split: sum.split option.split)
next
  case SQLite
  obtain r lw' where "logged db sqlite_ddl_statement [table] lw = (r, lw')" "list_all P (fst lw')"
    using logged_step [OF assms(1) [OF SQLite] assms(3)] by metis
  with SQLite show ?thesis by (simp add: table_ddl_def split: sum.split option.split list.split)
qed

lemma quiet_sample_rows:
  assumes "P (sample_statement_for tk table)" "list_all P (fst lw)"
  shows "quiet P (sample_rows_block tk (logged db) table lw)"
proof -
  obtain r lw' where "logged db (sample_statement_for tk table) [] lw = (r, lw')" "list_all P (fst lw')"
    using logged_step [OF assms] by metis
  then show ?thesis by (simp add: sample_rows_block_def Let_def split: sum.split)
qed

text \<open>The statements that describe tables satisfy \<open>P\<close>.\<close>

definition describes :: "(string \<Rightarrow> bool) \<Rightarrow> sql_toolkit \<Rightarrow> bool" where
  "describes P tk \<longleftrightarrow>
     P (list_tables_statement (tk_dialect tk)) \<and> (tk_dialect tk = SQLite \<longrightarrow> P sqlite_ddl_statement) \<and>
     (tk_dialect tk = Postgres \<longrightarrow> P postgres_ddl_statement) \<and>
     (\<forall>table. 0 < tk_sample_rows tk \<longrightarrow> P (sample_statement_for tk table))"

lemma quiet_schema_blocks:
  "describes P tk \<Longrightarrow> list_all P (fst lw) \<Longrightarrow> quiet P (schema_blocks tk sc (logged db) names lw)"
proof (induction names arbitrary: lw)
  case (Cons name names)
  from Cons.prems have ddl: "quiet P (table_ddl tk sc (logged db) name lw)" by (intro quiet_table_ddl) (simp_all add: describes_def)
  obtain r lw1 where step: "table_ddl tk sc (logged db) name lw = (r, lw1)" by (meson surj_pair)
  with ddl have lw1: "list_all P (fst lw1)" by simp
  obtain block lw2 where block: "sample_rows_block tk (logged db) name lw1 = (block, lw2)" by (meson surj_pair)
  have lw2: "list_all P (fst lw2)" if "0 < tk_sample_rows tk"
    using quiet_sample_rows [of P tk name lw1 db] Cons.prems(1) lw1 block that by (simp add: describes_def)
  show ?case
  proof (cases r)
    case (Inl e)
    with step lw1 show ?thesis by simp
  next
    case (Inr ddl)
    let ?lw = "if tk_sample_rows tk > 0 then lw2 else lw1"
    obtain result lw3 where rest: "schema_blocks tk sc (logged db) names ?lw = (result, lw3)" by (meson surj_pair)
    from Cons.IH [OF Cons.prems(1), of ?lw] lw1 lw2 rest have "list_all P (fst lw3)" by (simp split: if_splits)
    with Inr step block rest show ?thesis by (simp split: if_splits)
  qed
qed simp

lemma quiet_schema_info:
  assumes "describes P tk" "list_all P (fst lw)"
  shows "quiet P (schema_info tk sc (logged db) tables lw)"
proof -
  obtain r lw1 where step: "list_tables tk sc (logged db) lw = (r, lw1)" by (meson surj_pair)
  have lw1: "list_all P (fst lw1)"
    using quiet_list_tables [of P tk lw sc db] assms step by (simp add: describes_def)
  show ?thesis
  proof (cases r)
    case (Inr usable)
    let ?names = "filter (\<lambda>n. n \<noteq> []) (map trim_space tables)"
    let ?chosen = "if ?names = [] then usable else ?names"
    obtain r2 lw2 where blocks: "schema_blocks tk sc (logged db) ?chosen lw1 = (r2, lw2)" by (meson surj_pair)
    have "list_all P (fst lw2)" using quiet_schema_blocks [OF assms(1) lw1, of sc db ?chosen] unfolding blocks by simp
    then show ?thesis
      unfolding schema_info_def Let_def step Inr prod.case sum.case blocks using lw1 by (simp split: sum.split)
  qed (simp add: schema_info_def Let_def step lw1)
qed

lemma describes_reads_only: "describes (reads_only tk) tk"
  using list_tables_reads_only ddl_reads_only sample_reads_only by (auto simp: describes_def)

text \<open>
  C40: whatever the model asks of the four tools, every statement that reaches the database is one the
  read-only guard returns as it is, or the plan of one: the statements the toolkit makes itself, for any
  table name, and those of the model, as long as no query has a block comment.
\<close>

theorem toolkit_sends_reads_only:
  assumes "\<forall>query ps. map_of input ''query'' = Some (VStr query) \<longrightarrow> pieces (tk_dialect tk = Postgres) query = Inr ps
      \<longrightarrow> BlockComment \<notin> set ps"
  shows "(\<forall>q \<in> set (fst (snd (query_tool tk (logged db) input ([], w)))). reads_only tk q) \<and>
    (\<forall>q \<in> set (fst (snd (checker_tool tk (logged db) input ([], w)))). reads_only tk q) \<and>
    (\<forall>q \<in> set (fst (snd (schema_tool tk sc (logged db) input ([], w)))). reads_only tk q) \<and>
    (\<forall>q \<in> set (fst (snd (list_tables_tool tk sc (logged db) ([], w)))). reads_only tk q)"
proof -
  let ?P = "reads_only tk" and ?lw = "([], w)"
  have guard: "guard_read_only (tk_dialect tk) s = Inr s"
    if "string_arg input ''query'' = Inr query" "guard_read_only (tk_dialect tk) query = Inr s" for query s
  proof -
    have "\<forall>ps. pieces (tk_dialect tk = Postgres) query = Inr ps \<longrightarrow> BlockComment \<notin> set ps"
    proof (cases "map_of input ''query'' = Some (VStr query)")
      case False
      with that(1) have "query = []" by (auto simp: string_arg_def split: option.splits gval.splits)
      then show ?thesis by simp
    qed (use assms in blast)
    then show ?thesis using that(2) accepted_statement by metis
  qed
  have "quiet ?P (query_tool tk (logged db) input ?lw)"
  proof (cases "string_arg input ''query''")
    case (Inr query)
    then show ?thesis unfolding query_tool_def quiet_tool_content
      using guard [OF Inr] guarded_is_trimmed quiet_run_query [of tk query ?P ?lw db] unfolding reads_only_def by simp metis
  qed (simp add: query_tool_def)
  moreover have "quiet ?P (checker_tool tk (logged db) input ?lw)"
  proof (cases "string_arg input ''query''")
    case (Inr query)
    then show ?thesis unfolding checker_tool_def quiet_tool_content
      using guard [OF Inr] quiet_check_query [of tk query ?P ?lw db] by (auto simp: reads_only_def)
  qed (simp add: checker_tool_def)
  moreover have "quiet ?P (schema_tool tk sc (logged db) input ?lw)"
    using quiet_schema_info [OF describes_reads_only, where lw = ?lw] unfolding schema_tool_def quiet_tool_content
    by (cases "string_arg input ''table_names''") simp_all
  moreover have "quiet ?P (list_tables_tool tk sc (logged db) ?lw)"
    using list_tables_reads_only [of tk] quiet_list_tables [of ?P tk ?lw sc db] unfolding list_tables_tool_def quiet_tool_content
    by (cases "list_tables tk sc (logged db) ?lw"; cases "fst (list_tables tk sc (logged db) ?lw)") auto
  ultimately show ?thesis by (simp add: quiet_def list_all_iff)
qed

definition sample_toolkit :: sql_toolkit where
  "sample_toolkit = \<lparr>tk_dialect = SQLite, tk_sample_rows = 3, tk_max_rows = 1, tk_max_schema = 12000\<rparr>"

definition sample_db :: "nat db" where
  "sample_db q args w =
     (Inr \<lparr>rs_columns = Inr [''a''], rs_rows = [Inr [SqlOther ''1''], Inr [SqlNull]], rs_err = None\<rparr>, Suc w)"

lemma sample_query_run:
  "run_query sample_toolkit (logged sample_db) sample_query ([], 0) =
     (Inr (''a'' @ line_break @ ''1'' @ line_break @ ''(result truncated at 1 rows)''), ([sample_statement], 1))"
proof -
  have "guard_read_only (tk_dialect sample_toolkit) sample_query = Inr sample_statement"
    using sample_query_guarded by (simp add: sample_toolkit_def)
  moreover have "show_int 1 = ''1''" by code_simp
  ultimately show ?thesis
    by (simp add: run_query_def logged_def sample_db_def sample_toolkit_def line_break_def)
qed

lemma toolkit_sends_reads_only_witness: "reads_only sample_toolkit sample_statement"
proof -
  have "\<forall>query ps. map_of [(''query'', VStr sample_query)] ''query'' = Some (VStr query)
      \<longrightarrow> pieces (tk_dialect sample_toolkit = Postgres) query = Inr ps \<longrightarrow> BlockComment \<notin> set ps"
    using sample_query_comments by (simp add: sample_toolkit_def)
  from toolkit_sends_reads_only [OF this, where db = sample_db and w = 0]
  have "\<forall>q \<in> set (fst (snd (query_tool sample_toolkit (logged sample_db) [(''query'', VStr sample_query)] ([], 0)))).
      reads_only sample_toolkit q" by blast
  moreover have "fst (snd (query_tool sample_toolkit (logged sample_db) [(''query'', VStr sample_query)] ([], 0))) = [sample_statement]"
    by (simp add: query_tool_def string_arg_def sample_query_run tool_content_def)
  ultimately show ?thesis by simp
qed

subsection \<open>What the model is shown of a result\<close>

definition row_line :: "sql_value list \<Rightarrow> string" where
  "row_line vs = join_with tab (map format_sql_value vs)"

lemma query_rows_window:
  "query_rows limit rows err returned ls = Inr out \<Longrightarrow> 0 \<le> returned \<Longrightarrow> returned \<le> limit \<Longrightarrow>
   \<exists>vss. take (nat (limit - returned)) rows = map Inr vss \<and>
     out = (if rows = [] \<and> returned = 0 then ''no rows returned''
       else join_with line_break (ls @ map row_line vss @
         (if int (length rows) > limit - returned then [''(result truncated at '' @ show_int limit @ '' rows)''] else []))) \<and>
     (int (length rows) \<le> limit - returned \<longrightarrow> err = None)"
proof (induction limit rows err returned ls rule: query_rows.induct)
  case (1 limit err returned ls)
  then show ?case by (auto split: option.splits if_splits)
next
  case (2 limit row rows err returned ls)
  show ?case
  proof (cases "returned \<ge> limit")
    case True
    with 2 show ?thesis by simp
  next
    case False
    with 2(2) obtain vs where row: "row = Inr vs"
        and rest: "query_rows limit rows err (returned + 1) (ls @ [row_line vs]) = Inr out"
      by (cases row) (auto simp: row_line_def)
    from 2(1) [OF False row] rest False 2(3) obtain vss where vss: "take (nat (limit - (returned + 1))) rows = map Inr vss"
        "out = join_with line_break ((ls @ [row_line vs]) @ map row_line vss @
          (if int (length rows) > limit - (returned + 1) then [''(result truncated at '' @ show_int limit @ '' rows)''] else []))"
        "int (length rows) \<le> limit - (returned + 1) \<longrightarrow> err = None" by (auto simp: row_line_def)
    have "nat (limit - returned) = Suc (nat (limit - (returned + 1)))" using False by simp
    then have "take (nat (limit - returned)) (row # rows) = map Inr (vs # vss)" using vss(1) row by simp
    moreover have "int (length (row # rows)) > limit - returned \<longleftrightarrow> int (length rows) > limit - (returned + 1)" by auto
    ultimately show ?thesis using vss by (intro exI [of _ "vs # vss"]) auto
  qed
qed

text \<open>
  A query that succeeds ran the guarded statement once. The text shows the column names and the first
  rows, at most as many as the limit, and says so exactly when there are more; an error of the iteration is
  never hidden when all rows are shown.
\<close>

theorem query_shows_the_first_rows:
  assumes "run_query tk db query w = (Inr out, w')" "1 \<le> tk_max_rows tk"
  shows "\<exists>s rs columns vss. guard_read_only (tk_dialect tk) query = Inr s \<and> db s [] w = (Inr rs, w') \<and> rs_columns rs = Inr columns \<and>
    take (nat (tk_max_rows tk)) (rs_rows rs) = map Inr vss \<and> int (length vss) \<le> tk_max_rows tk \<and>
    out = (if rs_rows rs = [] then ''no rows returned''
      else join_with line_break (join_with tab columns # map row_line vss @
        (if int (length (rs_rows rs)) > tk_max_rows tk
         then [''(result truncated at '' @ show_int (tk_max_rows tk) @ '' rows)''] else []))) \<and>
    (int (length (rs_rows rs)) \<le> tk_max_rows tk \<longrightarrow> rs_err rs = None)"
proof -
  from assms(1) obtain s rs columns where step: "guard_read_only (tk_dialect tk) query = Inr s" "db s [] w = (Inr rs, w')"
      "rs_columns rs = Inr columns" "query_rows (tk_max_rows tk) (rs_rows rs) (rs_err rs) 0 [join_with tab columns] = Inr out"
    by (auto simp: run_query_def split: sum.splits prod.splits)
  from query_rows_window [OF step(4)] assms(2) obtain vss where vss: "take (nat (tk_max_rows tk)) (rs_rows rs) = map Inr vss"
      "out = (if rs_rows rs = [] then ''no rows returned''
        else join_with line_break (join_with tab columns # map row_line vss @
          (if int (length (rs_rows rs)) > tk_max_rows tk
           then [''(result truncated at '' @ show_int (tk_max_rows tk) @ '' rows)''] else [])))"
      "int (length (rs_rows rs)) \<le> tk_max_rows tk \<longrightarrow> rs_err rs = None" by auto
  from vss(1) have "length vss = min (length (rs_rows rs)) (nat (tk_max_rows tk))" by (metis length_map length_take min.commute)
  then have "int (length vss) \<le> tk_max_rows tk" using assms(2) by simp
  with step vss show ?thesis by blast
qed

lemma query_shows_the_first_rows_witness:
  "\<exists>s. guard_read_only SQLite sample_query = Inr s \<and> (\<exists>rs. logged sample_db s [] ([], 0) = (Inr rs, ([sample_statement], 1)))"
proof -
  have "1 \<le> tk_max_rows sample_toolkit" "tk_dialect sample_toolkit = SQLite" by (simp_all add: sample_toolkit_def)
  with query_shows_the_first_rows [OF sample_query_run] show ?thesis by metis
qed

end
