(* ===== verification/Spec2Isabelle.thy ===== *)
theory Spec2Isabelle
  imports GoPrelude GoValues Reducers Channels Barrier DeltaChannel ChannelUnion RunState Checkpoint
    MemorySaver TaskIds CheckpointSink NodeExec Resume GraphBuilder MessageIds Executor Superstep Joins
    Persistence TaskCache Snapshot Lineage Runs LongTermStore FnTasks Indexing GoStrings TextSplitters AgentTools
    AgentReview AgentLoop AgentGraph AgentHistory SqlGuard SqlToolkit
begin

text \<open>
  A verification library for langchain-golang: the graph runtime (src/langgraph), the agent loop built on
  it (src/langchain/agents, src/langchain/tools), the SQL toolkit (src/langchain/toolkits), document
  indexing (src/core/indexing) and text splitting (src/textsplitters). Every definition is translated from the Go source; the code that is not in the
  repository (user nodes, tools, chat models, hash functions, regular expressions, embedders) is an
  argument of the definitions that call it.

  \<^bold>\<open>How the program works.\<close> A graph is built from nodes, edges, routers and join edges (graph/builder part of
  graph.go) and compiled. A run (graph.go) restores a working state from a checkpoint, or seeds one from its
  input, and then goes through supersteps: run the planned tasks, apply all their writes to the channels at
  once, work out the tasks that follow, save a checkpoint. A node may stop the run with an interrupt; the
  pending writes of the stopped superstep say what a resumed run replays and what it runs again. Channels
  hold one key of the state each and merge its writes. Checkpoints go through a sink to a saver. The
  functional API (langgraph/fn) runs a function of task calls as a graph of one node. An agent is a graph
  of a model node and a tools node with optional nodes around them; middleware hooks into each of them.

  \<^bold>\<open>Conventions.\<close> A Go map is an association list read with \<open>map_of\<close>, iterated in sorted key order; where
  the code's result depends on the order of a Go map this is said at the definition. A struct is a record,
  a sum of Go types a datatype (\<open>gval\<close> for dynamic values, \<open>goerr\<close> for errors with their wrapping). A
  fallible function returns \<open>goerr + 'a\<close>; code that may panic returns \<open>outcome\<close> or \<open>option\<close>. Strings are
  lists of bytes. 64-bit hashes are words; counters that the code bounds are natural numbers, other Go ints
  are integers. Everything the world does (random bytes, the clock, user code, failing backends) is read
  from an explicit state or an argument.

  \<^bold>\<open>The theories and the code they model.\<close>
  \<^item> GoPrelude, GoValues: Go maps, formatting, errors; types/types.go, channels/overwrite.go, messages.
  \<^item> Reducers: channels/channels.go (LastValueReducer, AppendSliceReducer, MessagesReducer), BatchFromReducer.
  \<^item> Channels, Barrier, DeltaChannel, ChannelUnion: the channel types of channels/*.go. The interface Channel
    is the locale \<open>channel\<close>, interpreted for every concrete channel and for their sum.
  \<^item> RunState: graph/state.go, the working state and its commit (applyWrites). Lemmas: the invariant of the
    state, one update per channel and commit, versions that move exactly on a change, save and restore.
  \<^item> Checkpoint, MemorySaver: checkpoint/checkpoint.go, filter.go, id.go, memory.go, the in-memory cache. The
    contract of a saver is a locale, interpreted for the memory saver.
  \<^item> TaskIds: graph/taskid.go and the synthetic IDs of exit durability.
  \<^item> CheckpointSink: graph/checkpoint_sink.go in its three durability modes; the asynchronous worker is a
    step relation over the queue, the run and the worker. Lemmas: every interleaving leaves what the
    synchronous sink leaves, and flushing never deadlocks.
  \<^item> NodeExec, Resume: runNode, Interrupt, runTask with RetryPolicy (graph.go, policy.go), resume.go.
  \<^item> GraphBuilder: StateGraph and Compile. Executor, Superstep: tasks, successors, joins, saving, the task
    cache, and the loop of CompiledGraph.run. Joins, Persistence, TaskCache: what these do together.
  \<^item> MessageIds: ensureMessageIDs. Snapshot, Lineage, Runs: snapshot.go, GetState, GetStateHistory,
    UpdateState, and the start of a run, fresh, as a new turn or resumed.
  \<^item> LongTermStore: store/memory.go. FnTasks: fn/*.go. Indexing: core/indexing. GoStrings: the functions on
    strings of the Go library. TextSplitters: the shared, character and recursive splitters.
  \<^item> AgentTools: langchain/tools/tool_node.go, core/runnables/parallel.go, the tools node of
    agents/create_agent.go, the error and retry middleware. AgentReview: human_in_the_loop.go,
    model_call_limit.go, tool_call_limit.go. AgentLoop: the model node, structured output, the repair of
    malformed calls and the routing of create_agent.go. AgentGraph: CreateAgent and the nodes around the loop.
  \<^item> AgentHistory: core/messages/trim.go, summarization.go and context_editing.go.
  \<^item> SqlGuard, SqlToolkit: langchain/toolkits/sqltoolkit, the read-only guard and the four tools.

  \<^bold>\<open>What the theorems show.\<close> The run loop ends within its recursion limit and a resumed run continues the
  one that stopped (Superstep, Runs); the state commits each superstep atomically and reads back from the
  checkpoints a run saves (RunState, DeltaChannel, Snapshot, Runs); joins fire once and rearm (Joins); compiled graphs are well
  formed down to their path maps (GraphBuilder, AgentGraph); savers, sinks, caches and stores refine maps (MemorySaver,
  CheckpointSink, TaskCache, LongTermStore); finished calls of the functional API are not run again (FnTasks);
  indexing mirrors its documents, whatever the cleanup but the full one, which the code does not run as it
  is documented (Indexing); chunks are windows of the pieces of a text, fit the chunk size and tile the text
  (TextSplitters). For agents: the tools node answers every call, middleware keeps that promise (the locale
  \<open>answering_wrapper\<close>, interpreted for each of them), reviews and limits only block what they answer, the
  thread of an agent never has a model message after open calls, the wired graph always compiles, and
  shortening a history keeps replies with their calls (AgentHistory). The SQL tools send the database only
  what the guard returns as it is (SqlToolkit), as long as a query has no block comment: SqlGuard proves
  that these defeat the guard.
  Some theorems prove that the code departs from its documentation; they say so at their statement.

  \<^bold>\<open>Bounds and fuel.\<close> The run loop terminates by the steps left to the recursion limit; \<open>run_fuel\<close> is the
  same loop with fuel, and limit minus steps plus one is proved to be enough. The walk through the
  ancestors of a checkpoint has fuel; more than the number of stored checkpoints is enough, because
  parents have smaller IDs, which Lineage proves of the checkpoints a run writes. Checkpoint IDs are
  assumed to ascend for as many mints as a run makes (the sequence number wraps at 2^24). The cleanup loop
  of Indexing is a partial function: \<open>None\<close> is a loop that does not end, and the theorems prove that it
  does end. Retries recurse on the attempts that are left.

  \<^bold>\<open>Not modelled.\<close>
  \<^item> Concurrency other than the asynchronous sink: the tasks of a superstep, the calls of a message and the
    futures of the functional API run one after the other; mutexes are left out. Real time, timeouts,
    contexts (other than the cancellation ParallelMap reads) and tracing are left out.
  \<^item> The run loop under asynchronous and exit durability: these modes are modelled in the sink alone.
  \<^item> Errors of a saver when it is read (GetTuple, List): a lookup finds a tuple or finds none, as in the
    memory saver. Errors of its writes are modelled.
  \<^item> Subgraphs, streaming, events, graph export: the first nest the whole executor in a node, the others only observe runs.
  \<^item> The SQL and Redis savers, serialisers and provider clients: they rest on services outside the repository.
  \<^item> In the agent: the resolution of the response format per call, the binding of tools to the model, the
    response cache and streaming; and the middleware of redaction, model fallback, planning, shells and
    files.
  \<^item> The rest of langchain-core (prompts, output parsers, runnables, vector stores), the language tables and
    the markup splitters, the standard tests, model profiles, examples and commands.
\<close>

end
